(* ===== verification/Prelude.thy ===== *)
theory Prelude
  imports Main "HOL-Library.Char_ord" "HOL-Library.List_Lexorder" "HOL-Library.Sublist"
    "HOL-Library.Multiset"
begin

text \<open>
  Shared vocabulary of the development: fallible results (the Go idiom
  \<^verbatim>\<open>(value, error)\<close>) as sums with a bind and two loop combinators, the part of
  Go's \<^verbatim>\<open>strings\<close> package that the sources call, sorting and de-duplication of
  string slices, and the generic list lemmas the components share. Go strings are
  byte strings, so \<^typ>\<open>string\<close> (a list of 8-bit characters) with its bytewise
  lexicographic order models them and their comparison exactly.
\<close>

named_theorems result_simps "rewriting of fallible computations"

section \<open>Fallible computations\<close>

definition bindE :: "'e + 'a \<Rightarrow> ('a \<Rightarrow> 'e + 'b) \<Rightarrow> 'e + 'b" where
  "bindE m f = (case m of Inl e \<Rightarrow> Inl e | Inr x \<Rightarrow> f x)"

text \<open>A loop with an early error return: the error of the first failing step wins.\<close>

fun foldE :: "('x \<Rightarrow> 's \<Rightarrow> 'e + 's) \<Rightarrow> 'x list \<Rightarrow> 's \<Rightarrow> 'e + 's" where
  "foldE f [] s = Inr s"
| "foldE f (x # xs) s = bindE (f x s) (foldE f xs)"

fun mapE :: "('x \<Rightarrow> 'e + 'y) \<Rightarrow> 'x list \<Rightarrow> 'e + 'y list" where
  "mapE f [] = Inr []"
| "mapE f (x # xs) = bindE (f x) (\<lambda>y. bindE (mapE f xs) (\<lambda>ys. Inr (y # ys)))"

text \<open>A loop that only checks: the first failing check is the result.\<close>

fun checkE :: "('x \<Rightarrow> 'e + unit) \<Rightarrow> 'x list \<Rightarrow> 'e + unit" where
  "checkE f [] = Inr ()"
| "checkE f (x # xs) = bindE (f x) (\<lambda>_. checkE f xs)"

definition guardE :: "'e \<Rightarrow> bool \<Rightarrow> 'e + unit" where
  "guardE e c = (if c then Inr () else Inl e)"

lemma bindE_simps [simp, result_simps]:
  "bindE (Inl e) f = Inl e"
  "bindE (Inr x) f = f x"
  by (simp_all add: bindE_def)

lemma bindE_eq_Inr [simp, result_simps]:
  "bindE m f = Inr y \<longleftrightarrow> (\<exists>x. m = Inr x \<and> f x = Inr y)"
  by (cases m) auto

lemma bindE_eq_Inl [result_simps]:
  "bindE m f = Inl e \<longleftrightarrow> m = Inl e \<or> (\<exists>x. m = Inr x \<and> f x = Inl e)"
  by (cases m) auto

lemma bindE_assoc: "bindE (bindE m f) g = bindE m (\<lambda>x. bindE (f x) g)"
  by (cases m) auto

lemma bindE_cong [fundef_cong]:
  "m = m' \<Longrightarrow> (\<And>x. m' = Inr x \<Longrightarrow> f x = g x) \<Longrightarrow> bindE m f = bindE m' g"
  by (cases m') auto

lemma guardE_eq_Inr [simp, result_simps]: "guardE e c = Inr u \<longleftrightarrow> c"
  by (cases u) (simp add: guardE_def)

lemma guardE_eq_Inl [result_simps]: "guardE e c = Inl e' \<longleftrightarrow> \<not> c \<and> e' = e"
  by (auto simp: guardE_def)

lemma checkE_eq_Inr [simp, result_simps]:
  "checkE f xs = Inr u \<longleftrightarrow> (\<forall>x \<in> set xs. f x = Inr ())"
  by (induction xs) auto

lemma foldE_append [result_simps]: "foldE f (xs @ ys) s = bindE (foldE f xs s) (foldE f ys)"
  by (induction xs arbitrary: s) (auto simp: bindE_assoc intro!: bindE_cong)

lemma foldE_cong [fundef_cong]:
  "xs = ys \<Longrightarrow> s = t \<Longrightarrow> (\<And>x s. x \<in> set ys \<Longrightarrow> f x s = g x s) \<Longrightarrow> foldE f xs s = foldE g ys t"
proof (induction ys arbitrary: xs s t)
  case (Cons y ys)
  then have "foldE f ys = foldE g ys" by (auto simp: fun_eq_iff)
  with Cons.prems show ?case by simp
qed simp

text \<open>Every invariant of the step is an invariant of the loop.\<close>

lemma foldE_invariant:
  assumes "foldE f xs s = Inr t" "P s"
    and "\<And>x s t. x \<in> set xs \<Longrightarrow> P s \<Longrightarrow> f x s = Inr t \<Longrightarrow> P t"
  shows "P t"
  using assms by (induction xs arbitrary: s) auto

text \<open>A loop whose step never fails is an ordinary fold.\<close>

lemma foldE_Inr [simp]: "foldE (\<lambda>x s. Inr (f x s)) xs s = Inr (fold f xs s)"
  by (induction xs arbitrary: s) auto

lemma mapE_eq_Inr: "mapE f xs = Inr ys \<longleftrightarrow> list_all2 (\<lambda>x y. f x = Inr y) xs ys"
  by (induction xs arbitrary: ys) (auto simp: list_all2_Cons1)

text \<open>Sequencing with errors and with runs that do not return.\<close>

definition bindO :: "('e + 'a) option \<Rightarrow> ('a \<Rightarrow> ('e + 'b) option) \<Rightarrow> ('e + 'b) option" where
  "bindO m f = (case m of None \<Rightarrow> None | Some (Inl e) \<Rightarrow> Some (Inl e) | Some (Inr x) \<Rightarrow> f x)"

fun foldO :: "('a \<Rightarrow> 's \<Rightarrow> ('e + 's) option) \<Rightarrow> 'a list \<Rightarrow> 's \<Rightarrow> ('e + 's) option" where
  "foldO f [] s = Some (Inr s)"
| "foldO f (x # xs) s = bindO (f x s) (foldO f xs)"

lemma bindO_simps [simp]:
  "bindO None f = None" "bindO (Some (Inl e)) f = Some (Inl e)" "bindO (Some (Inr x)) f = f x"
  by (simp_all add: bindO_def)

lemma bindO_eq_Inr [simp]: "bindO m f = Some (Inr y) \<longleftrightarrow> (\<exists>x. m = Some (Inr x) \<and> f x = Some (Inr y))"
  by (auto simp: bindO_def split: option.splits sum.splits)

section \<open>Go's strings\<close>

type_synonym str = string

definition HasPrefix :: "str \<Rightarrow> str \<Rightarrow> bool" where
  "HasPrefix s p = (take (length p) s = p)"

definition HasSuffix :: "str \<Rightarrow> str \<Rightarrow> bool" where
  "HasSuffix s p = HasPrefix (rev s) (rev p)"

definition TrimPrefix :: "str \<Rightarrow> str \<Rightarrow> str" where
  "TrimPrefix s p = (if HasPrefix s p then drop (length p) s else s)"

definition TrimSuffix :: "str \<Rightarrow> str \<Rightarrow> str" where
  "TrimSuffix s p = (if HasSuffix s p then take (length s - length p) s else s)"

fun ContainsStr :: "str \<Rightarrow> str \<Rightarrow> bool" where
  "ContainsStr [] p = (p = [])"
| "ContainsStr (c # s) p = (HasPrefix (c # s) p \<or> ContainsStr s p)"

text \<open>\<open>SplitOn\<close> is \<^verbatim>\<open>strings.Split\<close> with a one-byte separator: never an empty slice.\<close>

fun SplitOn :: "char \<Rightarrow> str \<Rightarrow> str list" where
  "SplitOn d [] = [[]]"
| "SplitOn d (c # s) =
     (if c = d then [] # SplitOn d s
      else (case SplitOn d s of [] \<Rightarrow> [[c]] | w # ws \<Rightarrow> (c # w) # ws))"

fun JoinOn :: "str \<Rightarrow> str list \<Rightarrow> str" where
  "JoinOn d [] = []"
| "JoinOn d [w] = w"
| "JoinOn d (w # v # ws) = w @ d @ JoinOn d (v # ws)"

text \<open>\<^verbatim>\<open>strings.ToLower\<close> and the white space of \<^verbatim>\<open>strings.TrimSpace\<close>, on ASCII bytes.\<close>

definition lower_char :: "char \<Rightarrow> char" where
  "lower_char c = (let n = of_char c :: nat in if 65 \<le> n \<and> n \<le> 90 then char_of (n + 32) else c)"

definition ToLower :: "str \<Rightarrow> str" where
  "ToLower s = map lower_char s"

definition space_char :: "char \<Rightarrow> bool" where
  "space_char c = (let n = of_char c :: nat in n = 32 \<or> (9 \<le> n \<and> n \<le> 13))"

definition TrimSpace :: "str \<Rightarrow> str" where
  "TrimSpace s = rev (dropWhile space_char (rev (dropWhile space_char s)))"

definition nul :: str where
  "nul = [char_of (0 :: nat)]"

lemma HasPrefix_iff: "HasPrefix s p \<longleftrightarrow> (\<exists>t. s = p @ t)"
  unfolding HasPrefix_def by (metis append_eq_conv_conj append_take_drop_id)

lemma HasPrefix_prefix: "HasPrefix s p \<longleftrightarrow> prefix p s"
  by (auto simp: HasPrefix_iff prefix_def)

lemma HasPrefix_append [simp]: "HasPrefix (p @ t) p"
  by (auto simp: HasPrefix_iff)

lemma HasPrefix_Nil [simp]: "HasPrefix s []"
  by (simp add: HasPrefix_def)

lemma TrimPrefix_append [simp]: "TrimPrefix (p @ t) p = t"
  by (simp add: TrimPrefix_def)

lemma SplitOn_not_Nil [simp]: "SplitOn d s \<noteq> []"
  by (induction s) (auto split: list.splits)

lemma JoinOn_SplitOn [simp]: "JoinOn [d] (SplitOn d s) = s"
proof (induction s)
  case (Cons c s)
  then show ?case
    by (cases "SplitOn d s"; cases "tl (SplitOn d s)") auto
qed simp

lemma SplitOn_no_sep: "d \<notin> set s \<Longrightarrow> SplitOn d s = [s]"
  by (induction s) auto

lemma SplitOn_no_sep_mem: "w \<in> set (SplitOn d s) \<Longrightarrow> d \<notin> set w"
proof (induction s arbitrary: w)
  case (Cons c s)
  then show ?case
    by (cases "SplitOn d s") (auto split: if_splits)
qed simp

lemma SplitOn_sep: "d \<notin> set w \<Longrightarrow> SplitOn d (w @ d # s) = w # SplitOn d s"
  by (induction w) auto

section \<open>Sorted and duplicate-free string slices\<close>

text \<open>
  \<open>uniqueSortedStrings\<close> and its relatives collect strings in a Go map and sort
  the keys: the sorted list of the set of values.
\<close>

fun dedup_adjacent :: "'a list \<Rightarrow> 'a list" where
  "dedup_adjacent [] = []"
| "dedup_adjacent [x] = [x]"
| "dedup_adjacent (x # y # xs) =
     (if x = y then dedup_adjacent (y # xs) else x # dedup_adjacent (y # xs))"

text \<open>Keep the first occurrence of each value (a \<^verbatim>\<open>seen\<close> map and \<^verbatim>\<open>continue\<close>).\<close>

fun keep_first :: "'a list \<Rightarrow> 'a set \<Rightarrow> 'a list" where
  "keep_first [] seen = []"
| "keep_first (x # xs) seen =
     (if x \<in> seen then keep_first xs seen else x # keep_first xs (insert x seen))"

lemma set_keep_first [simp]: "set (keep_first xs seen) = set xs - seen"
  by (induction xs arbitrary: seen) auto

lemma distinct_keep_first [simp]: "distinct (keep_first xs seen)"
  by (induction xs arbitrary: seen) auto

lemma keep_first_id: "distinct xs \<Longrightarrow> set xs \<inter> seen = {} \<Longrightarrow> keep_first xs seen = xs"
  by (induction xs arbitrary: seen) auto

lemma keep_first_append:
  "keep_first (xs @ ys) seen = keep_first xs seen @ keep_first ys (seen \<union> set xs)"
  by (induction xs arbitrary: seen) (auto simp: insert_absorb)

lemma set_dedup_adjacent [simp]: "set (dedup_adjacent xs) = set xs"
  by (induction xs rule: dedup_adjacent.induct) auto

lemma sorted_dedup_adjacent:
  "sorted (xs :: 'a :: linorder list) \<Longrightarrow> sorted (dedup_adjacent xs) \<and> distinct (dedup_adjacent xs)"
proof (induction xs rule: dedup_adjacent.induct)
  case (3 x y xs)
  then have IH: "sorted (dedup_adjacent (y # xs))" "distinct (dedup_adjacent (y # xs))"
    by (auto split: if_splits)
  show ?case
  proof (cases "x = y")
    case False
    with "3.prems" have "\<forall>z \<in> set (y # xs). x < z"
      by (metis antisym_conv2 list.set_intros(1) order_le_less_trans set_ConsD sorted_simps(2))
    with False IH show ?thesis by auto
  qed (use IH in auto)
qed auto

lemma dedup_adjacent_sort:
  "dedup_adjacent (sort (xs :: 'a :: linorder list)) = sorted_list_of_set (set xs)"
  by (rule sorted_distinct_set_unique) (use sorted_dedup_adjacent [of "sort xs"] in auto)

section \<open>Lists\<close>

text \<open>The first element of a slice that satisfies a condition.\<close>

lemma find_Some_iff_ex: "(\<exists>x. find P xs = Some x) \<longleftrightarrow> (\<exists>x \<in> set xs. P x)"
  by (induction xs) auto

lemma find_SomeD: "find P xs = Some x \<Longrightarrow> x \<in> set xs \<and> P x"
  by (induction xs) (auto split: if_splits)

lemma filter_eq_single:
  "distinct (map k xs) \<Longrightarrow> x \<in> set xs \<Longrightarrow> filter (\<lambda>y. k y = k x) xs = [x]"
  by (induction xs) (auto simp: filter_empty_conv image_iff)

lemma distinct_map_filterI: "distinct (map f xs) \<Longrightarrow> distinct (map f (filter P xs))"
  by (induction xs) auto

lemma map_add_upd_fresh:
  assumes "k \<notin> fst ` set xs"
  shows "m ++ map_of ((k, v) # xs) = m(k \<mapsto> v) ++ map_of xs"
proof
  fix x
  from assms have "map_of xs k = None" by (simp add: map_of_eq_None_iff)
  then show "(m ++ map_of ((k, v) # xs)) x = (m(k \<mapsto> v) ++ map_of xs) x"
    by (cases "x = k") (auto simp: map_add_def split: option.splits)
qed

lemma distinct_map_eqD: "distinct (map f xs) \<Longrightarrow> x \<in> set xs \<Longrightarrow> y \<in> set xs \<Longrightarrow> f x = f y \<Longrightarrow> x = y"
  by (auto simp: distinct_map dest: inj_onD)

end
