(* ===== verification/Graph_Facts.thy ===== *)
theory Graph_Facts
  imports Prelude
begin

text \<open>
  The graph data model of \<^verbatim>\<open>src/graph/facts.go\<close>: source spans, evidence, nodes, edges,
  vocabularies and the validation of a set of facts against a vocabulary, together with
  the byte encoding from which \<^verbatim>\<open>NewNodeID\<close> derives node identities. The kinds and
  confidences are Go string types and stay strings here, because unsupported values
  are inputs the code has to reject. A \<^verbatim>\<open>ValidationError\<close> is modelled by its code; its
  human-readable detail is not.
\<close>

section \<open>Data\<close>

type_synonym NodeKind = str
type_synonym RelationKind = str
type_synonym Confidence = str

record SourceSpan =
  sp_Path :: str
  sp_StartLine :: int
  sp_StartColumn :: int
  sp_EndLine :: int
  sp_EndColumn :: int

definition ConfidenceExtracted :: Confidence where
  "ConfidenceExtracted = ''extracted''"

definition ConfidenceInferred :: Confidence where
  "ConfidenceInferred = ''inferred''"

definition ConfidenceAmbiguous :: Confidence where
  "ConfidenceAmbiguous = ''ambiguous''"

record FactEvidence =
  ev_Span :: SourceSpan
  ev_FileHash :: str
  ev_Extractor :: str
  ev_Provenance :: str
  ev_Confidence :: Confidence

record Node =
  n_ID :: str
  n_Kind :: NodeKind
  n_Label :: str
  n_QualifiedName :: str
  n_Evidence :: FactEvidence

record Edge =
  e_SourceID :: str
  e_TargetID :: str
  e_Relation :: RelationKind
  e_Evidence :: FactEvidence

record Facts =
  f_Nodes :: "Node list"
  f_Edges :: "Edge list"

record EndpointRule =
  ep_Source :: NodeKind
  ep_Target :: NodeKind

record RelationDefinition =
  rd_Kind :: RelationKind
  rd_Endpoints :: "EndpointRule list"

record VocabularyDefinition =
  vd_NodeKinds :: "NodeKind list"
  vd_Relations :: "RelationDefinition list"

datatype ValidationCode =
    UnknownNodeKind | UnknownRelationKind | InvalidRelationEndpoint
  | MissingSourceNode | MissingTargetNode | DuplicateNodeID | EmptyNodeID
  | EmptyNodeKind | DuplicateNodeKind | EmptyRelationKind | DuplicateRelationKind
  | EmptyRelationEndpoints | MissingFactEvidence | InvalidFactConfidence | InvalidSourceSpan

record Vocabulary =
  nodeKinds :: "NodeKind set"
  relations :: "RelationKind \<rightharpoonup> RelationDefinition"

section \<open>Node identities\<close>

text \<open>Big-endian bytes, as \<^verbatim>\<open>binary.BigEndian.PutUint32\<close> and \<^verbatim>\<open>PutUint64\<close> write them.\<close>

fun be_bytes :: "nat \<Rightarrow> nat \<Rightarrow> str" where
  "be_bytes 0 n = []"
| "be_bytes (Suc k) n = char_of ((n div 256 ^ k) mod 256) # be_bytes k n"

definition writeIdentityString :: "str \<Rightarrow> str" where
  "writeIdentityString value = be_bytes 4 (length value mod 2 ^ 32) @ value"

definition writeIdentityInt :: "int \<Rightarrow> str" where
  "writeIdentityInt value = be_bytes 8 (nat (value mod 2 ^ 64))"

definition identityBytes :: "NodeKind \<Rightarrow> SourceSpan \<Rightarrow> str" where
  "identityBytes kind span =
     writeIdentityString kind @
     writeIdentityString (sp_Path span) @
     writeIdentityInt (sp_StartLine span) @
     writeIdentityInt (sp_StartColumn span) @
     writeIdentityInt (sp_EndLine span) @
     writeIdentityInt (sp_EndColumn span)"

definition hexDigit :: "nat \<Rightarrow> char" where
  "hexDigit n = (if n < 10 then char_of (48 + n) else char_of (87 + n))"

definition EncodeToString :: "str \<Rightarrow> str" where
  "EncodeToString bs = concat (map (\<lambda>c. [hexDigit (of_char c div 16), hexDigit (of_char c mod 16)]) bs)"

text \<open>The digest \<open>digest\<close> (SHA-256 in the code) is a parameter.\<close>

definition NewNodeID :: "(str \<Rightarrow> str) \<Rightarrow> NodeKind \<Rightarrow> SourceSpan \<Rightarrow> str" where
  "NewNodeID digest kind span = kind @ '':'' @ EncodeToString (digest (identityBytes kind span))"

section \<open>Vocabularies\<close>

fun registerNodeKinds :: "NodeKind list \<Rightarrow> NodeKind set \<Rightarrow> ValidationCode + NodeKind set" where
  "registerNodeKinds [] kinds = Inr kinds"
| "registerNodeKinds (kind # rest) kinds =
     (if kind = [] then Inl EmptyNodeKind
      else if kind \<in> kinds then Inl DuplicateNodeKind
      else registerNodeKinds rest (insert kind kinds))"

definition checkEndpoint :: "NodeKind set \<Rightarrow> EndpointRule \<Rightarrow> ValidationCode + unit" where
  "checkEndpoint kinds endpoint =
     (if ep_Source endpoint \<notin> kinds then Inl UnknownNodeKind
      else if ep_Target endpoint \<notin> kinds then Inl UnknownNodeKind
      else Inr ())"

definition registerRelation ::
  "NodeKind set \<Rightarrow> RelationDefinition \<Rightarrow> (RelationKind \<rightharpoonup> RelationDefinition) \<Rightarrow>
     ValidationCode + (RelationKind \<rightharpoonup> RelationDefinition)" where
  "registerRelation kinds relation rels =
     (if rd_Kind relation = [] then Inl EmptyRelationKind
      else if rels (rd_Kind relation) \<noteq> None then Inl DuplicateRelationKind
      else if rd_Endpoints relation = [] then Inl EmptyRelationEndpoints
      else bindE (checkE (checkEndpoint kinds) (rd_Endpoints relation))
             (\<lambda>_. Inr (rels(rd_Kind relation \<mapsto> relation))))"

definition NewVocabulary :: "VocabularyDefinition \<Rightarrow> ValidationCode + Vocabulary" where
  "NewVocabulary def =
     bindE (registerNodeKinds (vd_NodeKinds def) {})
       (\<lambda>kinds. bindE (foldE (registerRelation kinds) (vd_Relations def) Map.empty)
         (\<lambda>rels. Inr \<lparr>nodeKinds = kinds, relations = rels\<rparr>))"

section \<open>Validation of facts\<close>

definition validateEvidence :: "FactEvidence \<Rightarrow> ValidationCode + unit" where
  "validateEvidence evidence =
     (let span = ev_Span evidence in
      if sp_Path span = [] \<or> sp_StartLine span < 1 \<or> sp_StartColumn span < 1
         \<or> sp_EndLine span < 1 \<or> sp_EndColumn span < 1 \<or> ev_FileHash evidence = []
         \<or> ev_Extractor evidence = [] \<or> ev_Provenance evidence = []
      then Inl MissingFactEvidence
      else if sp_StartLine span > sp_EndLine span
         \<or> sp_StartLine span = sp_EndLine span \<and> sp_StartColumn span > sp_EndColumn span
      then Inl InvalidSourceSpan
      else if ev_Confidence evidence \<noteq> ConfidenceExtracted
         \<and> ev_Confidence evidence \<noteq> ConfidenceInferred
         \<and> ev_Confidence evidence \<noteq> ConfidenceAmbiguous
      then Inl InvalidFactConfidence
      else Inr ())"

definition validateNode ::
  "Vocabulary \<Rightarrow> Node \<Rightarrow> (str \<rightharpoonup> NodeKind) \<Rightarrow> ValidationCode + (str \<rightharpoonup> NodeKind)" where
  "validateNode v node kindsByID =
     (if n_ID node = [] then Inl EmptyNodeID
      else if n_Kind node \<notin> nodeKinds v then Inl UnknownNodeKind
      else bindE (validateEvidence (n_Evidence node))
        (\<lambda>_. if kindsByID (n_ID node) \<noteq> None then Inl DuplicateNodeID
             else Inr (kindsByID(n_ID node \<mapsto> n_Kind node))))"

definition endpointAllowed :: "EndpointRule list \<Rightarrow> NodeKind \<Rightarrow> NodeKind \<Rightarrow> bool" where
  "endpointAllowed endpoints sourceKind targetKind =
     list_ex (\<lambda>endpoint. ep_Source endpoint = sourceKind \<and> ep_Target endpoint = targetKind) endpoints"

definition validateEdge :: "Vocabulary \<Rightarrow> (str \<rightharpoonup> NodeKind) \<Rightarrow> Edge \<Rightarrow> ValidationCode + unit" where
  "validateEdge v kindsByID edge =
     (case relations v (e_Relation edge) of
        None \<Rightarrow> Inl UnknownRelationKind
      | Some relation \<Rightarrow>
          bindE (validateEvidence (e_Evidence edge)) (\<lambda>_.
          (case kindsByID (e_SourceID edge) of
             None \<Rightarrow> Inl MissingSourceNode
           | Some sourceKind \<Rightarrow>
               (case kindsByID (e_TargetID edge) of
                  None \<Rightarrow> Inl MissingTargetNode
                | Some targetKind \<Rightarrow>
                    guardE InvalidRelationEndpoint
                      (endpointAllowed (rd_Endpoints relation) sourceKind targetKind)))))"

definition Validate :: "Vocabulary \<Rightarrow> Facts \<Rightarrow> ValidationCode + unit" where
  "Validate v facts =
     bindE (foldE (validateNode v) (f_Nodes facts) Map.empty)
       (\<lambda>kindsByID. checkE (validateEdge v kindsByID) (f_Edges facts))"

section \<open>Declarative specifications\<close>

definition evidence_ok :: "FactEvidence \<Rightarrow> bool" where
  "evidence_ok e \<longleftrightarrow>
     sp_Path (ev_Span e) \<noteq> [] \<and> ev_FileHash e \<noteq> [] \<and> ev_Extractor e \<noteq> [] \<and> ev_Provenance e \<noteq> [] \<and>
     1 \<le> sp_StartLine (ev_Span e) \<and> 1 \<le> sp_StartColumn (ev_Span e) \<and>
     1 \<le> sp_EndLine (ev_Span e) \<and> 1 \<le> sp_EndColumn (ev_Span e) \<and>
     (sp_StartLine (ev_Span e) < sp_EndLine (ev_Span e) \<or>
      sp_StartLine (ev_Span e) = sp_EndLine (ev_Span e) \<and>
      sp_StartColumn (ev_Span e) \<le> sp_EndColumn (ev_Span e)) \<and>
     ev_Confidence e \<in> {ConfidenceExtracted, ConfidenceInferred, ConfidenceAmbiguous}"

definition definition_ok :: "VocabularyDefinition \<Rightarrow> bool" where
  "definition_ok d \<longleftrightarrow>
     distinct (vd_NodeKinds d) \<and> [] \<notin> set (vd_NodeKinds d) \<and>
     distinct (map rd_Kind (vd_Relations d)) \<and>
     (\<forall>r \<in> set (vd_Relations d). rd_Kind r \<noteq> [] \<and> rd_Endpoints r \<noteq> [] \<and>
        (\<forall>e \<in> set (rd_Endpoints r).
           ep_Source e \<in> set (vd_NodeKinds d) \<and> ep_Target e \<in> set (vd_NodeKinds d)))"

definition vocabulary_of :: "VocabularyDefinition \<Rightarrow> Vocabulary" where
  "vocabulary_of d = \<lparr>nodeKinds = set (vd_NodeKinds d),
     relations = map_of (map (\<lambda>r. (rd_Kind r, r)) (vd_Relations d))\<rparr>"

definition node_ok :: "Vocabulary \<Rightarrow> Node \<Rightarrow> bool" where
  "node_ok v n \<longleftrightarrow> n_ID n \<noteq> [] \<and> n_Kind n \<in> nodeKinds v \<and> evidence_ok (n_Evidence n)"

definition edge_ok :: "Vocabulary \<Rightarrow> Node list \<Rightarrow> Edge \<Rightarrow> bool" where
  "edge_ok v ns e \<longleftrightarrow> evidence_ok (e_Evidence e) \<and>
     (\<exists>r s t. relations v (e_Relation e) = Some r \<and>
        s \<in> set ns \<and> n_ID s = e_SourceID e \<and> t \<in> set ns \<and> n_ID t = e_TargetID e \<and>
        (\<exists>rule \<in> set (rd_Endpoints r). ep_Source rule = n_Kind s \<and> ep_Target rule = n_Kind t))"

definition facts_ok :: "Vocabulary \<Rightarrow> Facts \<Rightarrow> bool" where
  "facts_ok v fs \<longleftrightarrow> distinct (map n_ID (f_Nodes fs)) \<and>
     (\<forall>n \<in> set (f_Nodes fs). node_ok v n) \<and> (\<forall>e \<in> set (f_Edges fs). edge_ok v (f_Nodes fs) e)"

definition relation_ok :: "NodeKind set \<Rightarrow> RelationDefinition \<Rightarrow> bool" where
  "relation_ok kinds r \<longleftrightarrow> rd_Kind r \<noteq> [] \<and> rd_Endpoints r \<noteq> [] \<and>
     (\<forall>e \<in> set (rd_Endpoints r). ep_Source e \<in> kinds \<and> ep_Target e \<in> kinds)"

definition span_in_range :: "SourceSpan \<Rightarrow> bool" where
  "span_in_range s \<longleftrightarrow> length (sp_Path s) < 2 ^ 32 \<and>
     (\<forall>x \<in> {sp_StartLine s, sp_StartColumn s, sp_EndLine s, sp_EndColumn s}.
        - (2 ^ 63) \<le> x \<and> x < 2 ^ 63)"

lemmas confidence_defs = ConfidenceExtracted_def ConfidenceInferred_def ConfidenceAmbiguous_def

section \<open>Lemmas\<close>

lemma validateEvidence_iff [simp]: "validateEvidence e = Inr u \<longleftrightarrow> evidence_ok e"
  by (cases u) (auto simp: validateEvidence_def evidence_ok_def Let_def)

lemma registerNodeKinds_Inr:
  "registerNodeKinds ks kinds = Inr r \<longleftrightarrow>
     distinct ks \<and> [] \<notin> set ks \<and> set ks \<inter> kinds = {} \<and> r = kinds \<union> set ks"
  by (induction ks arbitrary: kinds) auto

lemma checkEndpoint_iff [simp]:
  "checkEndpoint kinds e = Inr u \<longleftrightarrow> ep_Source e \<in> kinds \<and> ep_Target e \<in> kinds"
  by (cases u) (simp add: checkEndpoint_def)

lemma registerRelation_Inr:
  "registerRelation kinds r rels = Inr rels' \<longleftrightarrow>
     relation_ok kinds r \<and> rels (rd_Kind r) = None \<and> rels' = rels(rd_Kind r \<mapsto> r)"
  by (auto simp: registerRelation_def relation_ok_def)

lemma registerRelations_Inr:
  "foldE (registerRelation kinds) rs rels = Inr rels' \<longleftrightarrow>
     (\<forall>r \<in> set rs. relation_ok kinds r) \<and> distinct (map rd_Kind rs) \<and>
     rd_Kind ` set rs \<inter> dom rels = {} \<and> rels' = rels ++ map_of (map (\<lambda>r. (rd_Kind r, r)) rs)"
proof (induction rs arbitrary: rels)
  case (Cons r rs)
  show ?case
  proof (cases "rd_Kind r \<in> rd_Kind ` set rs")
    case False
    then have upd: "rels ++ map_of (map (\<lambda>r. (rd_Kind r, r)) (r # rs)) =
        rels(rd_Kind r \<mapsto> r) ++ map_of (map (\<lambda>r. (rd_Kind r, r)) rs)"
      unfolding list.map by (intro map_add_upd_fresh) (simp add: image_image)
    from False show ?thesis
      unfolding upd by (auto simp: registerRelation_Inr Cons.IH domIff)
  qed (auto simp: registerRelation_Inr Cons.IH)
qed auto

lemma validateNodes_Inr:
  "foldE (validateNode v) ns m = Inr m' \<longleftrightarrow>
     (\<forall>n \<in> set ns. node_ok v n) \<and> distinct (map n_ID ns) \<and> n_ID ` set ns \<inter> dom m = {} \<and>
     m' = m ++ map_of (map (\<lambda>n. (n_ID n, n_Kind n)) ns)"
proof (induction ns arbitrary: m)
  case (Cons n ns)
  have one: "validateNode v n m = Inr m1 \<longleftrightarrow> node_ok v n \<and> m (n_ID n) = None \<and> m1 = m(n_ID n \<mapsto> n_Kind n)"
    for m1 by (auto simp: validateNode_def node_ok_def)
  show ?case
  proof (cases "n_ID n \<in> n_ID ` set ns")
    case False
    then have upd: "m ++ map_of (map (\<lambda>n. (n_ID n, n_Kind n)) (n # ns)) =
        m(n_ID n \<mapsto> n_Kind n) ++ map_of (map (\<lambda>n. (n_ID n, n_Kind n)) ns)"
      unfolding list.map by (intro map_add_upd_fresh) (simp add: image_image)
    from False show ?thesis unfolding upd by (auto simp: one Cons.IH domIff)
  qed (auto simp: one Cons.IH)
qed auto

lemma map_of_kinds:
  assumes "distinct (map n_ID ns)"
  shows "map_of (map (\<lambda>n. (n_ID n, n_Kind n)) ns) i =
    (if i \<in> n_ID ` set ns then Some (n_Kind (the (find (\<lambda>n. n_ID n = i) ns))) else None)"
  using assms by (induction ns) auto

lemma find_unique: "distinct (map f xs) \<Longrightarrow> x \<in> set xs \<Longrightarrow> find (\<lambda>y. f y = f x) xs = Some x"
  by (induction xs) auto

lemma validateEdge_Inr:
  assumes d: "distinct (map n_ID ns)"
  shows "validateEdge v (map_of (map (\<lambda>n. (n_ID n, n_Kind n)) ns)) e = Inr () \<longleftrightarrow> edge_ok v ns e"
proof -
  have kind: "map_of (map (\<lambda>n. (n_ID n, n_Kind n)) ns) i = Some k \<longleftrightarrow>
      (\<exists>n \<in> set ns. n_ID n = i \<and> n_Kind n = k)" for i k
    by (auto simp: map_of_kinds [OF d] find_unique [OF d] dest: distinct_map_eqD [OF d])
  have "validateEdge v (map_of (map (\<lambda>n. (n_ID n, n_Kind n)) ns)) e = Inr () \<longleftrightarrow>
      (\<exists>r sk tk. relations v (e_Relation e) = Some r \<and> evidence_ok (e_Evidence e) \<and>
        map_of (map (\<lambda>n. (n_ID n, n_Kind n)) ns) (e_SourceID e) = Some sk \<and>
        map_of (map (\<lambda>n. (n_ID n, n_Kind n)) ns) (e_TargetID e) = Some tk \<and>
        endpointAllowed (rd_Endpoints r) sk tk)"
    by (auto simp: validateEdge_def split: option.splits)
  then show ?thesis
    unfolding edge_ok_def endpointAllowed_def list_ex_iff kind by blast
qed

lemma length_be_bytes [simp]: "length (be_bytes k n) = k"
  by (induction k) auto

lemma be_bytes_inj: "be_bytes k m = be_bytes k n \<longleftrightarrow> m mod 256 ^ k = n mod 256 ^ k"
proof (induction k)
  case (Suc k)
  have split: "x mod 256 ^ Suc k = 256 ^ k * ((x div 256 ^ k) mod 256) + x mod 256 ^ k" for x :: nat
    using mod_mult2_eq [of x "256 ^ k" 256] by (simp add: mult.commute)
  have "be_bytes (Suc k) m = be_bytes (Suc k) n \<longleftrightarrow>
      (m div 256 ^ k) mod 256 = (n div 256 ^ k) mod 256 \<and> m mod 256 ^ k = n mod 256 ^ k"
    using Suc.IH by (simp add: char_of_eq_iff take_bit_eq_mod)
  also have "\<dots> \<longleftrightarrow> m mod 256 ^ Suc k = n mod 256 ^ Suc k"
  proof
    assume "m mod 256 ^ Suc k = n mod 256 ^ Suc k"
    then have eq: "256 ^ k * ((m div 256 ^ k) mod 256) + m mod 256 ^ k =
        256 ^ k * ((n div 256 ^ k) mod 256) + n mod 256 ^ k"
      by (simp only: split)
    moreover from eq have "(256 ^ k * ((m div 256 ^ k) mod 256) + m mod 256 ^ k) mod 256 ^ k =
        (256 ^ k * ((n div 256 ^ k) mod 256) + n mod 256 ^ k) mod 256 ^ k"
      by (rule arg_cong)
    then have "m mod 256 ^ k = n mod 256 ^ k" by simp
    ultimately show "(m div 256 ^ k) mod 256 = (n div 256 ^ k) mod 256 \<and> m mod 256 ^ k = n mod 256 ^ k"
      by simp
  qed (simp only: split)
  finally show ?case .
qed simp

lemma writeIdentityString_inj:
  assumes "length s < 2 ^ 32" "length t < 2 ^ 32"
  shows "writeIdentityString s @ xs = writeIdentityString t @ ys \<longleftrightarrow> s = t \<and> xs = ys"
proof
  assume eq: "writeIdentityString s @ xs = writeIdentityString t @ ys"
  then have "be_bytes 4 (length s) = be_bytes 4 (length t)" "s @ xs = t @ ys"
    using assms by (auto simp: writeIdentityString_def)
  with assms have "length s = length t" by (simp add: be_bytes_inj)
  with \<open>s @ xs = t @ ys\<close> show "s = t \<and> xs = ys" by simp
qed simp

lemma int_mod_2p64_inj:
  assumes "- (2 ^ 63) \<le> (a :: int)" "a < 2 ^ 63" "- (2 ^ 63) \<le> b" "b < 2 ^ 63"
  shows "a mod 2 ^ 64 = b mod 2 ^ 64 \<longleftrightarrow> a = b"
proof
  assume "a mod 2 ^ 64 = b mod 2 ^ 64"
  then have "(2 ^ 64 :: int) dvd a - b" by (simp add: mod_eq_dvd_iff)
  moreover have "\<bar>a - b\<bar> < 2 ^ 64" using assms by auto
  ultimately have "a - b = 0" using zdvd_imp_le [of "2 ^ 64" "\<bar>a - b\<bar>"] by fastforce
  then show "a = b" by simp
qed simp

lemma writeIdentityInt_inj:
  assumes "- (2 ^ 63) \<le> a" "a < 2 ^ 63" "- (2 ^ 63) \<le> b" "b < 2 ^ 63"
  shows "writeIdentityInt a @ xs = writeIdentityInt b @ ys \<longleftrightarrow> a = b \<and> xs = ys"
proof -
  have "nat (x mod 2 ^ 64) mod 256 ^ 8 = nat (x mod 2 ^ 64)" for x :: int
    by (simp add: nat_less_iff)
  then have "writeIdentityInt a = writeIdentityInt b \<longleftrightarrow> a mod 2 ^ 64 = b mod 2 ^ 64"
    by (simp add: writeIdentityInt_def be_bytes_inj eq_nat_nat_iff)
  with int_mod_2p64_inj [OF assms] show ?thesis
    by (simp add: append_eq_append_conv writeIdentityInt_def)
qed

lemma Validate_facts_ok: "Validate v facts = Inr () \<longleftrightarrow> facts_ok v facts"
proof -
  have "Validate v facts = Inr () \<longleftrightarrow>
      (\<forall>n \<in> set (f_Nodes facts). node_ok v n) \<and> distinct (map n_ID (f_Nodes facts)) \<and>
      (\<forall>e \<in> set (f_Edges facts). validateEdge v
         (map_of (map (\<lambda>n. (n_ID n, n_Kind n)) (f_Nodes facts))) e = Inr ())"
    by (auto simp: Validate_def validateNodes_Inr)
  then show ?thesis
    by (auto simp: facts_ok_def validateEdge_Inr)
qed

text \<open>Fewer nodes and edges stay valid, if the edges keep their ends.\<close>

lemma facts_ok_restrict:
  assumes "facts_ok v \<lparr>f_Nodes = all, f_Edges = edges\<rparr>" "set nodes \<subseteq> set all" "distinct (map n_ID nodes)" "set edges' \<subseteq> set edges"
    "\<forall>e \<in> set edges'. e_SourceID e \<in> n_ID ` set nodes \<and> e_TargetID e \<in> n_ID ` set nodes"
  shows "facts_ok v \<lparr>f_Nodes = nodes, f_Edges = edges'\<rparr>"
proof -
  have unique: "distinct (map n_ID all)" using assms(1) by (simp add: facts_ok_def)
  have member: "x \<in> set nodes" if x: "x \<in> set all" "n_ID x \<in> n_ID ` set nodes" for x
  proof -
    from x(2) obtain y where y: "y \<in> set nodes" "n_ID x = n_ID y" by auto
    have "y \<in> set all" using y(1) assms(2) by blast
    then have "x = y" using unique x(1) y(2) by (auto simp: distinct_map dest: inj_onD)
    with y show ?thesis by simp
  qed
  have "edge_ok v nodes e" if e: "e \<in> set edges'" for e
  proof -
    have "edge_ok v all e" using assms(1,4) e by (auto simp: facts_ok_def)
    then obtain r s t where ends: "evidence_ok (e_Evidence e)" "relations v (e_Relation e) = Some r" "s \<in> set all" "n_ID s = e_SourceID e"
      "t \<in> set all" "n_ID t = e_TargetID e" "\<exists>rule \<in> set (rd_Endpoints r). ep_Source rule = n_Kind s \<and> ep_Target rule = n_Kind t"
      unfolding edge_ok_def by auto
    have "s \<in> set nodes" "t \<in> set nodes" using member [OF ends(3)] member [OF ends(5)] assms(5) e ends(4,6) by simp_all
    with ends show ?thesis unfolding edge_ok_def by blast
  qed
  then show ?thesis using assms(1-3) by (auto simp: facts_ok_def)
qed

section \<open>Properties\<close>

text \<open>\<^verbatim>\<open>Vocabulary.Validate\<close> accepts a set of facts exactly when node identifiers are
  non-empty and pairwise distinct, every node has a registered kind and complete evidence,
  and every edge has a registered relation, complete evidence, two existing endpoints and
  an endpoint rule that permits their kinds.
\<close>

theorem Validate_iff: "Validate v facts = Inr () \<longleftrightarrow> facts_ok v facts"
  by (rule Validate_facts_ok)

text \<open>\<^verbatim>\<open>NewVocabulary\<close> succeeds exactly on well-formed definitions (distinct, non-empty
  kinds; distinct, non-empty relations with at least one endpoint rule over registered
  kinds), and the vocabulary it then returns holds exactly the defined kinds and relations.
\<close>

theorem NewVocabulary_iff:
  "NewVocabulary d = Inr v \<longleftrightarrow> definition_ok d \<and> v = vocabulary_of d"
  by (auto simp: NewVocabulary_def registerNodeKinds_Inr registerRelations_Inr definition_ok_def
      vocabulary_of_def relation_ok_def)

text \<open>C39. The byte string that \<^verbatim>\<open>NewNodeID\<close> digests determines the node kind and the whole
  source span: two declarations that differ in kind, path, line or column never feed the
  same bytes to the digest.
\<close>

theorem identityBytes_inj:
  assumes "length kind < 2 ^ 32" "length kind' < 2 ^ 32" "span_in_range span" "span_in_range span'"
  shows "identityBytes kind span = identityBytes kind' span' \<longleftrightarrow> kind = kind' \<and> span = span'"
  using assms writeIdentityInt_inj [where xs = "[]" and ys = "[]"]
  by (cases span; cases span')
    (simp add: identityBytes_def writeIdentityString_inj writeIdentityInt_inj span_in_range_def)

theorem identityBytes_inj_witness:
  "identityBytes ''file'' \<lparr>sp_Path = ''a.go'', sp_StartLine = 1, sp_StartColumn = 1, sp_EndLine = 2, sp_EndColumn = 1\<rparr>
   \<noteq> identityBytes ''file'' \<lparr>sp_Path = ''a.go'', sp_StartLine = 1, sp_StartColumn = 1, sp_EndLine = 2, sp_EndColumn = 3\<rparr>"
  by (subst identityBytes_inj) (simp_all add: span_in_range_def)

end
