(* ===== verification/Go_Path.thy ===== *)
theory Go_Path
  imports Prelude
begin

text \<open>
  Go's \<^verbatim>\<open>path\<close> package and the Unix \<^verbatim>\<open>path/filepath\<close> package (where the separator
  is a slash and \<^verbatim>\<open>ToSlash\<close> is the identity), as far as the sources call them:
  \<^verbatim>\<open>Clean\<close>, \<^verbatim>\<open>Join\<close>, \<^verbatim>\<open>Dir\<close>, \<^verbatim>\<open>Base\<close>, \<^verbatim>\<open>Ext\<close>, \<^verbatim>\<open>IsAbs\<close>, \<^verbatim>\<open>Rel\<close> and
  \<^verbatim>\<open>Abs\<close>. A cleaned path is its list of components; \<open>clean_comps\<close> is the loop of
  \<^verbatim>\<open>Clean\<close> over them.
\<close>

named_theorems path_simps "normal forms of cleaned paths"

definition slash :: char where
  "slash = CHR ''/''"

abbreviation slashes :: str where
  "slashes \<equiv> [slash]"

definition IsAbs :: "str \<Rightarrow> bool" where
  "IsAbs p = HasPrefix p slashes"

text \<open>The element stack of \<^verbatim>\<open>Clean\<close>, last element first.\<close>

fun clean_comps :: "bool \<Rightarrow> str list \<Rightarrow> str list \<Rightarrow> str list" where
  "clean_comps rooted [] stack = stack"
| "clean_comps rooted (c # cs) stack =
     (if c = [] \<or> c = ''.'' then clean_comps rooted cs stack
      else if c = ''..'' then
        (case stack of
           [] \<Rightarrow> clean_comps rooted cs (if rooted then [] else [c])
         | upper # rest \<Rightarrow>
             if upper = ''..'' then clean_comps rooted cs (c # stack) else clean_comps rooted cs rest)
      else clean_comps rooted cs (c # stack))"

definition path_comps :: "str \<Rightarrow> str list" where
  "path_comps p = rev (clean_comps (IsAbs p) (SplitOn slash p) [])"

definition Clean :: "str \<Rightarrow> str" where
  "Clean p =
     (let cs = path_comps p in
      if IsAbs p then slash # JoinOn slashes cs
      else if cs = [] then ''.'' else JoinOn slashes cs)"

definition Join :: "str list \<Rightarrow> str" where
  "Join elems =
     (let es = filter (\<lambda>e. e \<noteq> []) elems in if es = [] then [] else Clean (JoinOn slashes es))"

definition Dir :: "str \<Rightarrow> str" where
  "Dir p = Clean (rev (dropWhile (\<lambda>c. c \<noteq> slash) (rev p)))"

definition Base :: "str \<Rightarrow> str" where
  "Base p =
     (if p = [] then ''.''
      else let q = rev (dropWhile (\<lambda>c. c = slash) (rev p)) in
        if q = [] then slashes else rev (takeWhile (\<lambda>c. c \<noteq> slash) (rev q)))"

definition Ext :: "str \<Rightarrow> str" where
  "Ext p =
     (let name = takeWhile (\<lambda>c. c \<noteq> slash) (rev p) in
      if CHR ''.'' \<in> set name then rev (takeWhile (\<lambda>c. c \<noteq> CHR ''.'') name @ ''.'') else [])"

fun strip_common :: "str list \<Rightarrow> str list \<Rightarrow> str list \<times> str list" where
  "strip_common (b # bs) (t # ts) = (if b = t then strip_common bs ts else (b # bs, t # ts))"
| "strip_common bs ts = (bs, ts)"

text \<open>\<^verbatim>\<open>filepath.Rel\<close>: an error is \<open>None\<close>.\<close>

definition Rel :: "str \<Rightarrow> str \<Rightarrow> str option" where
  "Rel basepath targpath =
     (if Clean basepath = Clean targpath then Some ''.''
      else if IsAbs basepath \<noteq> IsAbs targpath then None
      else let (bs, ts) = strip_common (path_comps basepath) (path_comps targpath) in
        if bs \<noteq> [] \<and> hd bs = ''..'' then None
        else Some (JoinOn slashes (replicate (length bs) ''..'' @ ts)))"

text \<open>\<^verbatim>\<open>filepath.Abs\<close>; \<open>cwd\<close> is the result of \<^verbatim>\<open>os.Getwd\<close>.\<close>

definition Abs :: "str option \<Rightarrow> str \<Rightarrow> str option" where
  "Abs cwd p =
     (if IsAbs p then Some (Clean p)
      else case cwd of None \<Rightarrow> None | Some wd \<Rightarrow> Some (Join [wd, p]))"

section \<open>Normal forms\<close>

text \<open>A plain component names a directory entry: not empty, no dots, no separator.\<close>

definition plain_comp :: "str \<Rightarrow> bool" where
  "plain_comp c \<longleftrightarrow> c \<noteq> [] \<and> c \<noteq> ''.'' \<and> c \<noteq> ''..'' \<and> slash \<notin> set c"

definition dotdots :: "str list \<Rightarrow> bool" where
  "dotdots cs \<longleftrightarrow> (\<forall>c \<in> set cs. c = ''..'')"

text \<open>Cleaned components: some \<^verbatim>\<open>..\<close> first (none in an absolute path), then plain ones.\<close>

definition clean_form :: "bool \<Rightarrow> str list \<Rightarrow> bool" where
  "clean_form rooted cs \<longleftrightarrow>
     (\<exists>us ps. cs = us @ ps \<and> dotdots us \<and> (rooted \<longrightarrow> us = []) \<and> (\<forall>c \<in> set ps. plain_comp c))"

lemma dot_no_slash [simp]: "slash \<notin> set ''.''" "slash \<notin> set ''..''"
  by (simp_all add: slash_def)

lemma clean_comps_form:
  assumes "\<forall>c \<in> set cs. slash \<notin> set c" "clean_form rooted (rev stack)"
  shows "clean_form rooted (rev (clean_comps rooted cs stack))"
  using assms
proof (induction rooted cs stack rule: clean_comps.induct)
  case (2 rooted c cs stack)
  obtain us ps where st: "rev stack = us @ ps" "dotdots us" "rooted \<longrightarrow> us = []"
      "\<forall>c \<in> set ps. plain_comp c"
    using "2.prems"(2) by (auto simp: clean_form_def)
  consider (skip) "c = [] \<or> c = ''.''" | (up) "c = ''..''" | (plain) "plain_comp c"
    using "2.prems"(1) by (auto simp: plain_comp_def)
  then show ?case
  proof cases
    case skip
    with "2.IH"(1) "2.prems" show ?thesis by auto
  next
    case up
    show ?thesis
    proof (cases stack)
      case Nil
      then have "clean_form rooted (rev (if rooted then [] else [c]))"
        using up by (auto simp: clean_form_def dotdots_def intro: exI [of _ "[c]"] exI [of _ "[]"])
      with "2.IH"(2) "2.prems" up Nil show ?thesis by (cases rooted) simp_all
    next
      case (Cons upper rest)
      show ?thesis
      proof (cases "upper = ''..''")
        case True
        have "ps = []"
        proof (rule ccontr)
          assume "ps \<noteq> []"
          with st(1) Cons have "last ps = upper" by (metis last_appendR last_rev list.sel(1))
          with \<open>ps \<noteq> []\<close> st(4) True show False by (metis last_in_set plain_comp_def)
        qed
        moreover from True Cons st(1) \<open>ps = []\<close> have "us \<noteq> []" by auto
        ultimately have "clean_form rooted (rev (c # stack))"
          using st up by (auto simp: clean_form_def dotdots_def intro: exI [of _ "us @ [c]"])
        with "2.IH"(3) [OF _ _ Cons True] "2.prems" up Cons True show ?thesis by simp
      next
        case False
        have "ps \<noteq> []"
        proof
          assume "ps = []"
          with st(1) Cons have "last us = upper" "us \<noteq> []" by (auto simp: append_eq_append_conv2)
          with st(2) False show False by (metis dotdots_def last_in_set)
        qed
        with st(1) Cons have "rev rest = us @ butlast ps"
          by (metis butlast_append butlast_rev list.sel(3))
        with st have "clean_form rooted (rev rest)"
          by (auto simp: clean_form_def dest: in_set_butlastD)
        with "2.IH"(4) [OF _ _ Cons False] "2.prems" up Cons False show ?thesis by simp
      qed
    qed
  next
    case plain
    then have "clean_form rooted (rev (c # stack))"
      using st by (auto simp: clean_form_def intro: exI [of _ us])
    moreover have "c \<noteq> []" "c \<noteq> ''.''" "c \<noteq> ''..''"
      using plain by (auto simp: plain_comp_def)
    ultimately show ?thesis using "2.IH"(5) "2.prems" by simp
  qed
qed simp

lemma path_comps_form [path_simps]: "clean_form (IsAbs p) (path_comps p)"
  unfolding path_comps_def
  by (rule clean_comps_form) (auto simp: SplitOn_no_sep_mem clean_form_def dotdots_def)

lemma path_comps_abs_plain: "IsAbs p \<Longrightarrow> c \<in> set (path_comps p) \<Longrightarrow> plain_comp c"
  using path_comps_form [of p] by (auto simp: clean_form_def)

lemma clean_form_no_slash: "clean_form r cs \<Longrightarrow> c \<in> set cs \<Longrightarrow> slash \<notin> set c \<and> c \<noteq> []"
  by (fastforce simp: clean_form_def dotdots_def plain_comp_def slash_def)

text \<open>Cleaning components in normal form changes nothing.\<close>

lemma clean_comps_plain:
  "\<forall>c \<in> set cs. plain_comp c \<Longrightarrow> clean_comps r cs stack = rev cs @ stack"
  by (induction cs arbitrary: stack) (auto simp: plain_comp_def)

lemma clean_comps_dotdots:
  "dotdots us \<Longrightarrow> dotdots stack \<Longrightarrow> clean_comps False us stack = rev us @ stack"
  by (induction us arbitrary: stack) (auto simp: dotdots_def split: list.splits)

lemma clean_comps_append:
  "clean_comps r (xs @ ys) stack = clean_comps r ys (clean_comps r xs stack)"
  by (induction r xs stack rule: clean_comps.induct) (auto split: list.splits)

lemma clean_comps_clean_form: "clean_form r cs \<Longrightarrow> rev (clean_comps r cs []) = cs"
  by (cases r) (auto simp: clean_form_def clean_comps_append clean_comps_dotdots clean_comps_plain
      dotdots_def)

lemma SplitOn_JoinOn:
  "cs \<noteq> [] \<Longrightarrow> \<forall>c \<in> set cs. d \<notin> set c \<Longrightarrow> SplitOn d (JoinOn [d] cs) = cs"
  by (induction "[d]" cs rule: JoinOn.induct) (auto simp: SplitOn_no_sep SplitOn_sep)

lemma JoinOn_comps_inj:
  assumes "\<forall>c \<in> set cs. d \<notin> set c" "\<forall>c \<in> set es. d \<notin> set c" "cs \<noteq> []" "es \<noteq> []"
  shows "JoinOn [d] cs = JoinOn [d] es \<longleftrightarrow> cs = es"
  using assms by (metis SplitOn_JoinOn)

lemma JoinOn_rel:
  assumes "clean_form False cs" "cs \<noteq> []"
  shows "\<not> IsAbs (JoinOn slashes cs)" "path_comps (JoinOn slashes cs) = cs"
proof -
  have ns: "\<forall>c \<in> set cs. slash \<notin> set c" "\<forall>c \<in> set cs. c \<noteq> []"
    using clean_form_no_slash [OF assms(1)] by auto
  obtain c cs' where cs: "cs = c # cs'" using assms(2) by (cases cs) auto
  with ns obtain x c' where "c = x # c'" "x \<noteq> slash" by (cases c) auto
  with cs show abs: "\<not> IsAbs (JoinOn slashes cs)"
    by (cases cs') (auto simp: IsAbs_def HasPrefix_def)
  show "path_comps (JoinOn slashes cs) = cs"
    unfolding path_comps_def using abs ns assms SplitOn_JoinOn [of cs slash]
    by (simp add: clean_comps_clean_form)
qed

lemma IsAbs_slash [simp]: "IsAbs (slash # s)"
  by (simp add: IsAbs_def HasPrefix_def)

lemma path_comps_abs:
  assumes "clean_form True cs"
  shows "path_comps (slash # JoinOn slashes cs) = cs"
proof (cases "cs = []")
  case True
  then show ?thesis by (simp add: path_comps_def)
next
  case False
  have "\<forall>c \<in> set cs. slash \<notin> set c" using clean_form_no_slash [OF assms] by auto
  with False assms show ?thesis
    by (simp add: path_comps_def SplitOn_JoinOn clean_comps_clean_form)
qed

lemma IsAbs_Clean [simp]: "IsAbs (Clean p) = IsAbs p"
proof (cases "IsAbs p")
  case False
  then show ?thesis
    using JoinOn_rel(1) [of "path_comps p"] path_comps_form [of p]
    by (auto simp: Clean_def Let_def IsAbs_def HasPrefix_def slash_def)
qed (simp add: Clean_def Let_def)

lemma path_comps_Clean [simp]: "path_comps (Clean p) = path_comps p"
proof (cases "IsAbs p")
  case True
  then show ?thesis
    using path_comps_form [of p] by (simp add: Clean_def path_comps_abs)
next
  case False
  have "path_comps ''.'' = []" by (simp add: path_comps_def slash_def IsAbs_def HasPrefix_def)
  with False show ?thesis
    using path_comps_form [of p] by (auto simp: Clean_def Let_def JoinOn_rel(2))
qed

lemma Clean_idem [simp]: "Clean (Clean p) = Clean p"
  by (simp add: Clean_def [of "Clean p"]) (simp add: Clean_def Let_def)

lemma strip_common_append:
  "strip_common bs ts = (bs', ts') \<Longrightarrow> \<exists>cs. bs = cs @ bs' \<and> ts = cs @ ts'"
proof (induction bs ts rule: strip_common.induct)
  case (1 b bs t ts)
  show ?case
  proof (cases "b = t")
    case True
    with 1 obtain cs where "bs = cs @ bs'" "ts = cs @ ts'" by auto
    with True show ?thesis by (intro exI [of _ "b # cs"]) simp
  qed (use 1 in auto)
qed auto

end
