(* ===== verification/Contracts.thy ===== *)
theory Contracts
  imports Graph_Facts Go_Path
begin

text \<open>
  The extractor contracts of \<^verbatim>\<open>src/extractor\<close>: extractor metadata and its validation,
  the checked construction of contributions and graph updates (\<^verbatim>\<open>contracts.go\<close>), the
  file view that confines resolvers to their project, the vocabulary every language
  extractor shares (\<^verbatim>\<open>vocabulary.go\<close>) and the memoising page resolver index
  (\<^verbatim>\<open>page_resolver_index.go\<close>). The defensive slice copies of the Go code are
  identities on immutable values and are not written out.
\<close>

section \<open>Data\<close>

record Metadata =
  md_Name :: str
  md_Version :: str
  md_Extensions :: "str list"

type_synonym ModuleReferenceKind = str

definition ModuleReferenceImport :: ModuleReferenceKind where
  "ModuleReferenceImport = ''import''"

definition ModuleReferenceReExport :: ModuleReferenceKind where
  "ModuleReferenceReExport = ''re_export''"

definition ModuleReferenceRequire :: ModuleReferenceKind where
  "ModuleReferenceRequire = ''require''"

record ModuleBinding =
  mb_ImportedName :: str
  mb_ExportedName :: str
  mb_LocalName :: str

record UnresolvedReference =
  ur_SourceID :: str
  ur_Target :: str
  ur_Kind :: ModuleReferenceKind
  ur_Ambiguous :: bool
  ur_Bindings :: "ModuleBinding list"

record SymbolReference =
  sr_SourceID :: str
  sr_Target :: str
  sr_Relation :: RelationKind
  sr_Evidence :: FactEvidence

record ExportedSurface =
  es_NodeID :: str
  es_Name :: str

record Dependency =
  dep_SourcePath :: str
  dep_TargetPath :: str

type_synonym DiagnosticSeverity = str

definition DiagnosticError :: DiagnosticSeverity where
  "DiagnosticError = ''error''"

definition DiagnosticWarning :: DiagnosticSeverity where
  "DiagnosticWarning = ''warning''"

definition DiagnosticInfo :: DiagnosticSeverity where
  "DiagnosticInfo = ''info''"

record Diagnostic =
  dg_Severity :: DiagnosticSeverity
  dg_Message :: str

record ContributionInput =
  ci_ProjectID :: str
  ci_SourcePath :: str
  ci_Metadata :: Metadata
  ci_Facts :: Facts
  ci_UnresolvedReferences :: "UnresolvedReference list"
  ci_SymbolReferences :: "SymbolReference list"
  ci_ExportedSurfaces :: "ExportedSurface list"
  ci_Dependencies :: "Dependency list"
  ci_Diagnostics :: "Diagnostic list"

record Contribution =
  c_projectID :: str
  c_sourcePath :: str
  c_metadata :: Metadata
  c_facts :: Facts
  c_unresolvedReferences :: "UnresolvedReference list"
  c_symbolReferences :: "SymbolReference list"
  c_exportedSurfaces :: "ExportedSurface list"
  c_dependencies :: "Dependency list"
  c_diagnostics :: "Diagnostic list"

record GraphUpdate =
  gu_contributions :: "Contribution list"

datatype metadata_error =
  NameEmpty | VersionEmpty | NoExtensions | ExtensionEmpty | ExtensionDuplicate

datatype reference_evidence_error = EvidenceIncomplete | EvidenceSpan | EvidenceConfidence

datatype contract_error =
    SourcePathEmpty
  | MetadataInvalid metadata_error
  | FactsInvalid ValidationCode
  | UnresolvedIncomplete | UnresolvedNotLocal | UnresolvedKindUnsupported | BindingEmpty
  | SymbolIncomplete | SymbolNotLocal | SymbolEvidence reference_evidence_error
  | SurfaceIncomplete | SurfaceNotLocal
  | DependencyIncomplete
  | DiagnosticMessageEmpty | DiagnosticSeverityUnsupported
  | UpdateEmpty
  | DependencyNotOwned
  | VocabularyPrefix | VocabularyInvalid ValidationCode | ExtractorNameEmpty
  | OutsideProject

section \<open>Metadata\<close>

definition normalizeExtension :: "str \<Rightarrow> str" where
  "normalizeExtension extension =
     (let normalized = ToLower (TrimSpace extension) in
      if normalized = [] then []
      else if \<not> HasPrefix normalized ''.'' then ''.'' @ normalized
      else normalized)"

definition Extension :: "str \<Rightarrow> str" where
  "Extension p = normalizeExtension (Ext p)"

fun registerExtensions :: "str list \<Rightarrow> str set \<Rightarrow> metadata_error + unit" where
  "registerExtensions [] seen = Inr ()"
| "registerExtensions (e # es) seen =
     (let normalized = normalizeExtension e in
      if normalized = [] then Inl ExtensionEmpty
      else if normalized \<in> seen then Inl ExtensionDuplicate
      else registerExtensions es (insert normalized seen))"

definition MetadataValidate :: "Metadata \<Rightarrow> metadata_error + unit" where
  "MetadataValidate m =
     (if md_Name m = [] then Inl NameEmpty
      else if md_Version m = [] then Inl VersionEmpty
      else if md_Extensions m = [] then Inl NoExtensions
      else registerExtensions (md_Extensions m) {})"

section \<open>Contributions\<close>

definition validateReferenceEvidence :: "FactEvidence \<Rightarrow> reference_evidence_error + unit" where
  "validateReferenceEvidence evidence =
     (let span = ev_Span evidence in
      if sp_Path span = [] \<or> sp_StartLine span < 1 \<or> sp_StartColumn span < 1
         \<or> sp_EndLine span < 1 \<or> sp_EndColumn span < 1 \<or> ev_FileHash evidence = []
         \<or> ev_Extractor evidence = [] \<or> ev_Provenance evidence = []
      then Inl EvidenceIncomplete
      else if sp_StartLine span > sp_EndLine span
         \<or> sp_StartLine span = sp_EndLine span \<and> sp_StartColumn span > sp_EndColumn span
      then Inl EvidenceSpan
      else if ev_Confidence evidence \<noteq> ConfidenceExtracted
         \<and> ev_Confidence evidence \<noteq> ConfidenceInferred
         \<and> ev_Confidence evidence \<noteq> ConfidenceAmbiguous
      then Inl EvidenceConfidence
      else Inr ())"

definition liftE :: "('e \<Rightarrow> 'f) \<Rightarrow> 'e + 'a \<Rightarrow> 'f + 'a" where
  "liftE wrap m = (case m of Inl e \<Rightarrow> Inl (wrap e) | Inr x \<Rightarrow> Inr x)"

definition checkUnresolved :: "str set \<Rightarrow> UnresolvedReference \<Rightarrow> contract_error + unit" where
  "checkUnresolved nodeIDs reference =
     (if ur_SourceID reference = [] \<or> ur_Target reference = [] \<or> ur_Kind reference = []
      then Inl UnresolvedIncomplete
      else if ur_SourceID reference \<notin> nodeIDs then Inl UnresolvedNotLocal
      else if ur_Kind reference \<noteq> ModuleReferenceImport \<and> ur_Kind reference \<noteq> ModuleReferenceReExport
         \<and> ur_Kind reference \<noteq> ModuleReferenceRequire
      then Inl UnresolvedKindUnsupported
      else checkE (\<lambda>binding. guardE BindingEmpty (mb_ImportedName binding \<noteq> [])) (ur_Bindings reference))"

definition checkSymbol :: "str set \<Rightarrow> SymbolReference \<Rightarrow> contract_error + unit" where
  "checkSymbol nodeIDs reference =
     (if sr_SourceID reference = [] \<or> sr_Target reference = [] \<or> sr_Relation reference = []
      then Inl SymbolIncomplete
      else if sr_SourceID reference \<notin> nodeIDs then Inl SymbolNotLocal
      else liftE SymbolEvidence (validateReferenceEvidence (sr_Evidence reference)))"

definition checkSurface :: "str set \<Rightarrow> ExportedSurface \<Rightarrow> contract_error + unit" where
  "checkSurface nodeIDs surface =
     (if es_NodeID surface = [] \<or> es_Name surface = [] then Inl SurfaceIncomplete
      else if es_NodeID surface \<notin> nodeIDs then Inl SurfaceNotLocal
      else Inr ())"

definition checkDependency :: "Dependency \<Rightarrow> contract_error + unit" where
  "checkDependency dependency =
     guardE DependencyIncomplete (dep_SourcePath dependency \<noteq> [] \<and> dep_TargetPath dependency \<noteq> [])"

definition checkDiagnostic :: "Diagnostic \<Rightarrow> contract_error + unit" where
  "checkDiagnostic diagnostic =
     (if dg_Message diagnostic = [] then Inl DiagnosticMessageEmpty
      else guardE DiagnosticSeverityUnsupported
        (dg_Severity diagnostic = DiagnosticError \<or> dg_Severity diagnostic = DiagnosticWarning
         \<or> dg_Severity diagnostic = DiagnosticInfo))"

definition contribution_of_input :: "ContributionInput \<Rightarrow> Contribution" where
  "contribution_of_input i =
     \<lparr>c_projectID = ci_ProjectID i, c_sourcePath = ci_SourcePath i, c_metadata = ci_Metadata i,
      c_facts = ci_Facts i, c_unresolvedReferences = ci_UnresolvedReferences i,
      c_symbolReferences = ci_SymbolReferences i, c_exportedSurfaces = ci_ExportedSurfaces i,
      c_dependencies = ci_Dependencies i, c_diagnostics = ci_Diagnostics i\<rparr>"

definition NewContribution :: "Vocabulary \<Rightarrow> ContributionInput \<Rightarrow> contract_error + Contribution" where
  "NewContribution vocabulary input =
     (if ci_SourcePath input = [] then Inl SourcePathEmpty
      else bindE (liftE MetadataInvalid (MetadataValidate (ci_Metadata input))) (\<lambda>_.
           bindE (liftE FactsInvalid (Validate vocabulary (ci_Facts input))) (\<lambda>_.
           let nodeIDs = n_ID ` set (f_Nodes (ci_Facts input)) in
           bindE (checkE (checkUnresolved nodeIDs) (ci_UnresolvedReferences input)) (\<lambda>_.
           bindE (checkE (checkSymbol nodeIDs) (ci_SymbolReferences input)) (\<lambda>_.
           bindE (checkE (checkSurface nodeIDs) (ci_ExportedSurfaces input)) (\<lambda>_.
           bindE (checkE checkDependency (ci_Dependencies input)) (\<lambda>_.
           bindE (checkE checkDiagnostic (ci_Diagnostics input)) (\<lambda>_.
           Inr (contribution_of_input input)))))))))"

definition WithDependencies :: "Contribution \<Rightarrow> Dependency list \<Rightarrow> contract_error + Contribution" where
  "WithDependencies contribution dependencies =
     bindE (checkE (\<lambda>d. guardE DependencyNotOwned
              (dep_SourcePath d = c_sourcePath contribution \<and> dep_TargetPath d \<noteq> [])) dependencies)
       (\<lambda>_. Inr (contribution\<lparr>c_dependencies := dependencies\<rparr>))"

definition NewGraphUpdate :: "Contribution list \<Rightarrow> contract_error + GraphUpdate" where
  "NewGraphUpdate contributions =
     (if contributions = [] then Inl UpdateEmpty else Inr \<lparr>gu_contributions = contributions\<rparr>)"

section \<open>Language vocabularies\<close>

definition declarationEndpoints :: "NodeKind list \<Rightarrow> EndpointRule list" where
  "declarationEndpoints kinds =
     map (\<lambda>kind. \<lparr>ep_Source = ''file'', ep_Target = kind\<rparr>) kinds @
     concat (map (\<lambda>source. map (\<lambda>target. \<lparr>ep_Source = source, ep_Target = target\<rparr>) kinds) kinds)"

definition NewLanguageVocabulary :: "str \<Rightarrow> NodeKind list \<Rightarrow> contract_error + Vocabulary" where
  "NewLanguageVocabulary name declarationKinds =
     (if name = [] then Inl ExtractorNameEmpty
      else bindE (checkE (\<lambda>kind. guardE VocabularyPrefix (HasPrefix kind (name @ '':''))) declarationKinds)
        (\<lambda>_. liftE VocabularyInvalid (NewVocabulary
          \<lparr>vd_NodeKinds = [''project'', ''file'', ''symbol''] @ declarationKinds,
           vd_Relations =
             [\<lparr>rd_Kind = ''contains'', rd_Endpoints = [\<lparr>ep_Source = ''project'', ep_Target = ''file''\<rparr>]\<rparr>,
              \<lparr>rd_Kind = ''defines'', rd_Endpoints = declarationEndpoints declarationKinds\<rparr>,
              \<lparr>rd_Kind = ''references'', rd_Endpoints = declarationEndpoints declarationKinds\<rparr>]\<rparr>)))"

section \<open>Resolver file views\<close>

record ResolverFileView =
  rv_projectRoot :: str
  rv_files :: "str \<rightharpoonup> str"

definition normalizeResolverPath :: "str \<Rightarrow> contract_error + str" where
  "normalizeResolverPath value =
     (let trimmed = TrimSpace value in
      if trimmed = [] then Inl OutsideProject
      else let normalized = Clean trimmed in
        if IsAbs normalized \<or> normalized = ''..'' \<or> HasPrefix normalized ''../''
        then Inl OutsideProject else Inr normalized)"

text \<open>
  The Go map of files is visited in an unspecified order; an association list fixes one,
  so that entries that normalise to one path are visibly overwritten by the later entry.
\<close>

definition NewResolverFileView :: "str \<Rightarrow> (str \<times> str) list \<Rightarrow> contract_error + ResolverFileView" where
  "NewResolverFileView projectRoot files =
     bindE (normalizeResolverPath projectRoot) (\<lambda>root.
     bindE (foldE (\<lambda>(filePath, contents) m.
              bindE (normalizeResolverPath filePath) (\<lambda>p. Inr (m(p \<mapsto> contents)))) files Map.empty)
       (\<lambda>m. Inr \<lparr>rv_projectRoot = root, rv_files = m\<rparr>))"

definition viewFile :: "ResolverFileView \<Rightarrow> str \<Rightarrow> str option" where
  "viewFile view filePath =
     (case normalizeResolverPath filePath of Inl _ \<Rightarrow> None | Inr p \<Rightarrow> rv_files view p)"

section \<open>Resolver requests and the memoising page index\<close>

record ResolverTargetRequest =
  rt_ProjectID :: str
  rt_Language :: str
  rt_SourcePath :: str

record ResolverTarget =
  tg_ProjectID :: str
  tg_SourcePath :: str
  tg_Metadata :: Metadata
  tg_Nodes :: "Node list"
  tg_UnresolvedReferences :: "UnresolvedReference list"
  tg_SymbolReferences :: "SymbolReference list"
  tg_ExportedSurfaces :: "ExportedSurface list"
  tg_Diagnostics :: "Diagnostic list"

record ResolverPackagePageRequest =
  rp_ProjectID :: str
  rp_Language :: str
  rp_PackagePath :: str
  rp_AfterSourcePath :: str
  rp_Limit :: int

record ResolverProjection =
  pj_ProjectID :: str
  pj_SourcePath :: str
  pj_Metadata :: Metadata
  pj_Nodes :: "Node list"
  pj_UnresolvedReferences :: "UnresolvedReference list"
  pj_SymbolReferences :: "SymbolReference list"
  pj_ExportedSurfaces :: "ExportedSurface list"
  pj_Dependencies :: "Dependency list"
  pj_Diagnostics :: "Diagnostic list"

text \<open>
  \<^verbatim>\<open>pageResolverIndex\<close> keeps one request cache per operation of the wrapped
  \<^verbatim>\<open>ResolverIndex\<close>. The wrapped index is a parameter: two state transformers, since a
  call may change the state behind it. What a call returns is kept as it is, so an error
  is remembered like any other result.
\<close>

record ('target, 'page) pageResolverIndex =
  pi_targets :: "ResolverTargetRequest \<rightharpoonup> 'target"
  pi_packages :: "ResolverPackagePageRequest \<rightharpoonup> 'page"

definition NewPageResolverIndex :: "('target, 'page) pageResolverIndex" where
  "NewPageResolverIndex = \<lparr>pi_targets = Map.empty, pi_packages = Map.empty\<rparr>"

definition pageResolverTarget ::
  "(ResolverTargetRequest \<Rightarrow> 's \<Rightarrow> 'target \<times> 's) \<Rightarrow> ResolverTargetRequest \<Rightarrow>
     ('target, 'page) pageResolverIndex \<times> 's \<Rightarrow> 'target \<times> ('target, 'page) pageResolverIndex \<times> 's" where
  "pageResolverTarget target request state =
     (case state of (index, s) \<Rightarrow>
       (case pi_targets index request of
          Some result \<Rightarrow> (result, index, s)
        | None \<Rightarrow>
            (let (result, s') = target request s
             in (result, index\<lparr>pi_targets := (pi_targets index)(request \<mapsto> result)\<rparr>, s'))))"

definition pageResolverPackagePage ::
  "(ResolverPackagePageRequest \<Rightarrow> 's \<Rightarrow> 'page \<times> 's) \<Rightarrow> ResolverPackagePageRequest \<Rightarrow>
     ('target, 'page) pageResolverIndex \<times> 's \<Rightarrow> 'page \<times> ('target, 'page) pageResolverIndex \<times> 's" where
  "pageResolverPackagePage page request state =
     (case state of (index, s) \<Rightarrow>
       (case pi_packages index request of
          Some result \<Rightarrow> (result, index, s)
        | None \<Rightarrow>
            (let (result, s') = page request s
             in (result, index\<lparr>pi_packages := (pi_packages index)(request \<mapsto> result)\<rparr>, s'))))"

text \<open>A resolver's sequence of calls on the index.\<close>

datatype resolver_call = TargetCall ResolverTargetRequest | PackageCall ResolverPackagePageRequest

fun resolverCalls ::
  "(ResolverTargetRequest \<Rightarrow> 's \<Rightarrow> 'target \<times> 's) \<Rightarrow> (ResolverPackagePageRequest \<Rightarrow> 's \<Rightarrow> 'page \<times> 's) \<Rightarrow>
     resolver_call list \<Rightarrow> ('target, 'page) pageResolverIndex \<times> 's \<Rightarrow>
     ('target + 'page) list \<times> ('target, 'page) pageResolverIndex \<times> 's" where
  "resolverCalls target page [] state = ([], state)"
| "resolverCalls target page (TargetCall r # calls) state =
     (let (result, state') = pageResolverTarget target r state;
          (results, state'') = resolverCalls target page calls state'
      in (Inl result # results, state''))"
| "resolverCalls target page (PackageCall r # calls) state =
     (let (result, state') = pageResolverPackagePage page r state;
          (results, state'') = resolverCalls target page calls state'
      in (Inr result # results, state''))"

section \<open>Lemmas\<close>

lemma liftE_Inr [simp, result_simps]: "liftE w m = Inr x \<longleftrightarrow> m = Inr x"
  by (cases m) (auto simp: liftE_def)

lemma validateReferenceEvidence_iff [simp]:
  "validateReferenceEvidence e = Inr u \<longleftrightarrow> evidence_ok e"
  by (cases u) (auto simp: validateReferenceEvidence_def evidence_ok_def Let_def)

definition metadata_ok :: "Metadata \<Rightarrow> bool" where
  "metadata_ok m \<longleftrightarrow> md_Name m \<noteq> [] \<and> md_Version m \<noteq> [] \<and> md_Extensions m \<noteq> [] \<and>
     distinct (map normalizeExtension (md_Extensions m)) \<and>
     [] \<notin> normalizeExtension ` set (md_Extensions m)"

lemma registerExtensions_Inr:
  "registerExtensions es seen = Inr () \<longleftrightarrow> distinct (map normalizeExtension es) \<and>
     [] \<notin> normalizeExtension ` set es \<and> normalizeExtension ` set es \<inter> seen = {}"
  by (induction es arbitrary: seen) (auto simp: Let_def)

lemma MetadataValidate_iff [simp]: "MetadataValidate m = Inr u \<longleftrightarrow> metadata_ok m"
  by (cases u) (auto simp: MetadataValidate_def metadata_ok_def registerExtensions_Inr)

definition input_ok :: "Vocabulary \<Rightarrow> ContributionInput \<Rightarrow> bool" where
  "input_ok v i \<longleftrightarrow>
     (let ids = n_ID ` set (f_Nodes (ci_Facts i)) in
      ci_SourcePath i \<noteq> [] \<and> metadata_ok (ci_Metadata i) \<and> facts_ok v (ci_Facts i) \<and>
      (\<forall>r \<in> set (ci_UnresolvedReferences i). ur_SourceID r \<in> ids \<and> ur_SourceID r \<noteq> [] \<and> ur_Target r \<noteq> [] \<and>
         ur_Kind r \<in> {ModuleReferenceImport, ModuleReferenceReExport, ModuleReferenceRequire} \<and>
         (\<forall>b \<in> set (ur_Bindings r). mb_ImportedName b \<noteq> [])) \<and>
      (\<forall>r \<in> set (ci_SymbolReferences i). sr_SourceID r \<in> ids \<and> sr_SourceID r \<noteq> [] \<and> sr_Target r \<noteq> [] \<and>
         sr_Relation r \<noteq> [] \<and> evidence_ok (sr_Evidence r)) \<and>
      (\<forall>s \<in> set (ci_ExportedSurfaces i). es_NodeID s \<in> ids \<and> es_NodeID s \<noteq> [] \<and> es_Name s \<noteq> []) \<and>
      (\<forall>d \<in> set (ci_Dependencies i). dep_SourcePath d \<noteq> [] \<and> dep_TargetPath d \<noteq> []) \<and>
      (\<forall>d \<in> set (ci_Diagnostics i). dg_Message d \<noteq> [] \<and>
         dg_Severity d \<in> {DiagnosticError, DiagnosticWarning, DiagnosticInfo}))"

lemmas reference_kind_defs =
  ModuleReferenceImport_def ModuleReferenceReExport_def ModuleReferenceRequire_def

lemmas severity_defs = DiagnosticError_def DiagnosticWarning_def DiagnosticInfo_def

lemma checkUnresolved_Inr:
  "checkUnresolved ids r = Inr () \<longleftrightarrow> ur_SourceID r \<in> ids \<and> ur_SourceID r \<noteq> [] \<and> ur_Target r \<noteq> [] \<and>
     ur_Kind r \<in> {ModuleReferenceImport, ModuleReferenceReExport, ModuleReferenceRequire} \<and>
     (\<forall>b \<in> set (ur_Bindings r). mb_ImportedName b \<noteq> [])"
  by (auto simp: checkUnresolved_def reference_kind_defs)

lemma checkSymbol_Inr:
  "checkSymbol ids r = Inr () \<longleftrightarrow> sr_SourceID r \<in> ids \<and> sr_SourceID r \<noteq> [] \<and> sr_Target r \<noteq> [] \<and>
     sr_Relation r \<noteq> [] \<and> evidence_ok (sr_Evidence r)"
  by (auto simp: checkSymbol_def)

lemma checkSurface_Inr:
  "checkSurface ids s = Inr () \<longleftrightarrow> es_NodeID s \<in> ids \<and> es_NodeID s \<noteq> [] \<and> es_Name s \<noteq> []"
  by (auto simp: checkSurface_def)

lemma checkDiagnostic_Inr:
  "checkDiagnostic d = Inr () \<longleftrightarrow> dg_Message d \<noteq> [] \<and>
     dg_Severity d \<in> {DiagnosticError, DiagnosticWarning, DiagnosticInfo}"
  by (auto simp: checkDiagnostic_def)

lemmas check_Inr = checkUnresolved_Inr checkSymbol_Inr checkSurface_Inr checkDiagnostic_Inr checkDependency_def

lemma Validate_Inr_facts_ok: "Validate v fs = Inr u \<longleftrightarrow> facts_ok v fs"
proof -
  have "Validate v fs = Inr () \<longleftrightarrow>
      (\<forall>n \<in> set (f_Nodes fs). node_ok v n) \<and> distinct (map n_ID (f_Nodes fs)) \<and>
      (\<forall>e \<in> set (f_Edges fs). validateEdge v (map_of (map (\<lambda>n. (n_ID n, n_Kind n)) (f_Nodes fs))) e = Inr ())"
    by (auto simp: Validate_def validateNodes_Inr)
  then show ?thesis by (cases u) (auto simp: facts_ok_def validateEdge_Inr)
qed

text \<open>What a remembered state answers: the calls already made, with the answers of \<open>f\<close> and \<open>g\<close>.\<close>

definition answers :: "(ResolverTargetRequest \<Rightarrow> 'target) \<Rightarrow> (ResolverPackagePageRequest \<Rightarrow> 'page) \<Rightarrow>
    resolver_call set \<Rightarrow> ('target, 'page) pageResolverIndex" where
  "answers f g seen =
     \<lparr>pi_targets = (\<lambda>r. if TargetCall r \<in> seen then Some (f r) else None),
      pi_packages = (\<lambda>r. if PackageCall r \<in> seen then Some (g r) else None)\<rparr>"

definition answer :: "(ResolverTargetRequest \<Rightarrow> 'target) \<Rightarrow> (ResolverPackagePageRequest \<Rightarrow> 'page) \<Rightarrow>
    resolver_call \<Rightarrow> 'target + 'page" where
  "answer f g call = (case call of TargetCall r \<Rightarrow> Inl (f r) | PackageCall r \<Rightarrow> Inr (g r))"

lemma pageResolverTarget_answers:
  "pageResolverTarget (\<lambda>r log. (f r, log @ [TargetCall r])) r (answers f g seen, log) =
     (f r, answers f g (insert (TargetCall r) seen),
      if TargetCall r \<in> seen then log else log @ [TargetCall r])"
  by (cases "TargetCall r \<in> seen")
     (auto simp: pageResolverTarget_def answers_def insert_absorb fun_upd_def)

lemma pageResolverPackagePage_answers:
  "pageResolverPackagePage (\<lambda>r log. (g r, log @ [PackageCall r])) r (answers f g seen, log) =
     (g r, answers f g (insert (PackageCall r) seen),
      if PackageCall r \<in> seen then log else log @ [PackageCall r])"
  by (cases "PackageCall r \<in> seen")
     (auto simp: pageResolverPackagePage_def answers_def insert_absorb fun_upd_def)

lemma resolverCalls_answers:
  "resolverCalls (\<lambda>r log. (f r, log @ [TargetCall r])) (\<lambda>r log. (g r, log @ [PackageCall r])) calls
       (answers f g seen, log) =
     (map (answer f g) calls, answers f g (seen \<union> set calls), log @ keep_first calls seen)"
proof (induction calls arbitrary: seen log)
  case (Cons call calls)
  then show ?case
    by (cases call)
      (auto simp: pageResolverTarget_answers pageResolverPackagePage_answers answer_def insert_absorb)
qed simp

lemma normalizeResolverPath_Inr:
  "normalizeResolverPath value = Inr p \<longleftrightarrow> TrimSpace value \<noteq> [] \<and> p = Clean (TrimSpace value) \<and>
     \<not> IsAbs p \<and> p \<noteq> ''..'' \<and> \<not> HasPrefix p ''../''"
  by (auto simp: normalizeResolverPath_def Let_def)

text \<open>A cleaned relative path that does not start with \<^verbatim>\<open>..\<close> has plain components only.\<close>

lemma confined_plain:
  assumes "\<not> IsAbs p" "Clean p = p" "p \<noteq> ''..''" "\<not> HasPrefix p ''../''"
  shows "\<forall>c \<in> set (path_comps p). plain_comp c"
proof -
  obtain us ps where cs: "path_comps p = us @ ps" "dotdots us" "\<forall>c \<in> set ps. plain_comp c"
    using path_comps_form [of p] by (auto simp: clean_form_def)
  have "us = []"
  proof (cases us)
    case (Cons u us')
    with cs(2) have u: "u = ''..''" by (simp add: dotdots_def)
    have "p = JoinOn slashes (path_comps p)"
      using assms(1,2) cs(1) Cons by (auto simp: Clean_def Let_def split: if_splits)
    with cs(1) Cons u have p: "p = JoinOn slashes (''..'' # us' @ ps)" by simp
    have "p = ''..'' \<or> HasPrefix p ''../''"
      by (subst p, subst p, cases "us' @ ps") (auto simp: HasPrefix_def slash_def)
    with assms(3,4) show ?thesis by simp
  qed
  with cs show ?thesis by simp
qed

section \<open>Properties\<close>

text \<open>A contribution is built exactly from the inputs whose metadata is valid, whose facts
  satisfy the vocabulary and whose references, surfaces, dependencies and diagnostics are
  complete and start at a node of the contribution; every field is then the input's.\<close>

theorem NewContribution_iff:
  "NewContribution v i = Inr c \<longleftrightarrow> input_ok v i \<and> c = contribution_of_input i"
  by (auto simp: NewContribution_def input_ok_def Let_def check_Inr Validate_Inr_facts_ok)

text \<open>The page resolver index answers every sequence of calls on a stateless index as that
  index would, and forwards each request exactly once, in the order of first use.\<close>

theorem pageResolverIndex_memo:
  "resolverCalls (\<lambda>r log. (f r, log @ [TargetCall r])) (\<lambda>r log. (g r, log @ [PackageCall r])) calls
       (NewPageResolverIndex, []) =
     (map (answer f g) calls, answers f g (set calls), keep_first calls {})"
proof -
  have "NewPageResolverIndex = answers f g {}"
    by (simp add: NewPageResolverIndex_def answers_def)
  then show ?thesis using resolverCalls_answers [of f g calls "{}" "[]"] by simp
qed

text \<open>A path accepted into a resolver file view stays inside the project: it is relative,
  clean, and each of its components is a plain name, never \<^verbatim>\<open>..\<close>.\<close>

theorem normalizeResolverPath_confined:
  assumes "normalizeResolverPath value = Inr p"
  shows "\<not> IsAbs p \<and> Clean p = p \<and> (\<forall>c \<in> set (path_comps p). plain_comp c)"
  using assms confined_plain [of p] unfolding normalizeResolverPath_Inr by (metis Clean_idem)

theorem normalizeResolverPath_confined_witness:
  "normalizeResolverPath ''a/b/../c'' = Inr ''a/c'' \<and> \<not> IsAbs ''a/c'' \<and> Clean ''a/c'' = ''a/c'' \<and>
     list_all plain_comp (path_comps ''a/c'')"
proof -
  have "normalizeResolverPath ''a/b/../c'' = Inr ''a/c''" by code_simp
  with normalizeResolverPath_confined [OF this] show ?thesis by (simp add: list_all_iff)
qed

end
