(* ===== verification/Store_Tables.thy ===== *)
theory Store_Tables
  imports Contracts
begin

text \<open>
  The relational model of the SQLite store (\<^verbatim>\<open>src/storage/sqlite/sqlite.go\<close>, function
  \<^verbatim>\<open>migrate\<close>): the ten versioned contribution tables, the workspace fact tables, the
  table of graph versions and the temporary table of a contribution session. SQLite
  itself is not under \<^verbatim>\<open>src\<close>; what is modelled is the relational meaning of the
  statements the code issues, with the primary keys of the schema. A contribution row is valid in
  an interval of versions; every table operation of the file works on such rows.
\<close>

named_theorems store_simps "effect of the table operations on rows and tables"

section \<open>Rows\<close>

datatype ctable =
    file_contributions | contribution_extensions | contribution_nodes | contribution_edges
  | contribution_dependencies | contribution_exported_surfaces | contribution_diagnostics
  | contribution_unresolved_references | contribution_module_bindings
  | contribution_symbol_references

definition contributionTables :: "ctable list" where
  "contributionTables =
     [file_contributions, contribution_extensions, contribution_nodes, contribution_edges,
      contribution_dependencies, contribution_exported_surfaces, contribution_diagnostics,
      contribution_unresolved_references, contribution_module_bindings,
      contribution_symbol_references]"

text \<open>The columns of a row that follow workspace, source path and validity, by table.\<close>

datatype payload =
    FileRow str str str
  | ExtensionRow str
  | NodeRow Node
  | EdgeRow Edge
  | DependencyRow str
  | SurfaceRow ExportedSurface
  | DiagnosticRow Diagnostic
  | UnresolvedRow str str ModuleReferenceKind bool
  | BindingRow str str ModuleReferenceKind ModuleBinding
  | SymbolRow SymbolReference

text \<open>The key columns of a payload: the part of its primary key after the version.\<close>

fun payload_key :: "payload \<Rightarrow> str list" where
  "payload_key (FileRow _ _ _) = []"
| "payload_key (ExtensionRow e) = [e]"
| "payload_key (NodeRow n) = [n_ID n]"
| "payload_key (EdgeRow e) = [e_SourceID e, e_TargetID e, e_Relation e]"
| "payload_key (DependencyRow p) = [p]"
| "payload_key (SurfaceRow s) = [es_NodeID s, es_Name s]"
| "payload_key (DiagnosticRow d) = [dg_Severity d, dg_Message d]"
| "payload_key (UnresolvedRow s t k _) = [s, t, k]"
| "payload_key (BindingRow s t k b) = [s, t, k, mb_ImportedName b, mb_ExportedName b, mb_LocalName b]"
| "payload_key (SymbolRow r) = [sr_SourceID r, sr_Target r, sr_Relation r]"

record vrow =
  r_ws :: str
  r_path :: str
  r_from :: nat
  r_to :: "nat option"
  r_payload :: payload

record wnode =
  wn_ws :: str
  wn_version :: nat
  wn_node :: Node

record wedge =
  we_ws :: str
  we_version :: nat
  we_edge :: Edge
  we_owner :: str

record version_row =
  gv_ws :: str
  gv_version :: nat
  gv_published :: str

record staged_row =
  st_ws :: str
  st_version :: nat
  st_path :: str
  st_written :: bool

record database =
  db_tables :: "ctable \<Rightarrow> vrow list"
  db_nodes :: "wnode list"
  db_edges :: "wedge list"
  db_versions :: "version_row list"
  db_staged :: "staged_row list"

definition emptyDatabase :: database where
  "emptyDatabase = \<lparr>db_tables = (\<lambda>_. []), db_nodes = [], db_edges = [], db_versions = [], db_staged = []\<rparr>"

definition row_key :: "vrow \<Rightarrow> str \<times> str \<times> nat \<times> str list" where
  "row_key r = (r_ws r, r_path r, r_from r, payload_key (r_payload r))"

text \<open>The condition every read puts on the validity columns.\<close>

definition visible :: "nat \<Rightarrow> vrow \<Rightarrow> bool" where
  "visible v r \<longleftrightarrow> r_from r \<le> v \<and> (case r_to r of None \<Rightarrow> True | Some t \<Rightarrow> v \<le> t)"

definition visible_rows :: "database \<Rightarrow> ctable \<Rightarrow> str \<Rightarrow> nat \<Rightarrow> vrow list" where
  "visible_rows db t ws v = filter (\<lambda>r. r_ws r = ws \<and> visible v r) (db_tables db t)"

section \<open>Statements over all contribution tables\<close>

definition updateTable :: "(vrow list \<Rightarrow> vrow list) \<Rightarrow> ctable \<Rightarrow> database \<Rightarrow> database" where
  "updateTable f t db = db\<lparr>db_tables := (db_tables db)(t := f (db_tables db t))\<rparr>"

definition overTables :: "(vrow list \<Rightarrow> vrow list) \<Rightarrow> database \<Rightarrow> database" where
  "overTables f db = fold (updateTable f) contributionTables db"

definition closeContributionRecords :: "str \<Rightarrow> str \<Rightarrow> nat \<Rightarrow> database \<Rightarrow> database" where
  "closeContributionRecords ws sourcePath version =
     overTables (map (\<lambda>r. if r_ws r = ws \<and> r_path r = sourcePath \<and> r_to r = None
                          then r\<lparr>r_to := Some version\<rparr> else r))"

definition stagedSource :: "database \<Rightarrow> str \<Rightarrow> nat \<Rightarrow> str \<Rightarrow> bool" where
  "stagedSource db ws version p =
     list_ex (\<lambda>s. st_ws s = ws \<and> st_version s = version \<and> st_path s = p) (db_staged db)"

definition closeContributionsMissingFromStagedSources :: "str \<Rightarrow> nat \<Rightarrow> database \<Rightarrow> database" where
  "closeContributionsMissingFromStagedSources ws version db =
     overTables (map (\<lambda>r. if r_ws r = ws \<and> r_to r = None \<and> \<not> stagedSource db ws version (r_path r)
                          then r\<lparr>r_to := Some (version - 1)\<rparr> else r)) db"

text \<open>The condition on \<^verbatim>\<open>valid_from_version\<close> is \<^verbatim>\<open>>\<close> in a rollback and \<^verbatim>\<open><\<close> in pruning.\<close>

definition deleteContributionRecords :: "str \<Rightarrow> (nat \<Rightarrow> bool) \<Rightarrow> database \<Rightarrow> database" where
  "deleteContributionRecords ws condition =
     overTables (filter (\<lambda>r. \<not> (r_ws r = ws \<and> condition (r_from r))))"

definition reopenContributionRecords :: "str \<Rightarrow> nat \<Rightarrow> database \<Rightarrow> database" where
  "reopenContributionRecords ws version =
     overTables (map (\<lambda>r. if r_ws r = ws \<and> (case r_to r of None \<Rightarrow> False | Some t \<Rightarrow> version \<le> t)
                          then r\<lparr>r_to := None\<rparr> else r))"

datatype storage_error =
    InvalidRequest | WorkspaceNotFound | GraphVersionNotFound | GraphVersionPruned
  | ConstraintViolation | VariableLimitTooSmall | TooManyVariables | RowWidth | FactTooLarge | BudgetExceeded
  | CorruptMetadata metadata_error | Cancelled | IncompletePreparation
  | StageFailed

definition rebaseRow :: "str \<Rightarrow> nat \<Rightarrow> vrow \<Rightarrow> vrow" where
  "rebaseRow ws retainedVersion r =
     (if r_ws r = ws \<and> r_from r < retainedVersion
         \<and> (case r_to r of None \<Rightarrow> True | Some t \<Rightarrow> retainedVersion \<le> t)
      then r\<lparr>r_from := retainedVersion\<rparr> else r)"

text \<open>
  The update of \<^verbatim>\<open>valid_from_version\<close> fails when it would give two rows one primary key.
  Every updated row moves to the retained version and none leaves it, so a conflict
  arises during the statement exactly if the resulting table has a duplicate key.
\<close>

definition rebaseTable :: "str \<Rightarrow> nat \<Rightarrow> ctable \<Rightarrow> database \<Rightarrow> storage_error + database" where
  "rebaseTable ws retainedVersion t db =
     (let rows = map (rebaseRow ws retainedVersion) (db_tables db t) in
      if distinct (map row_key rows) then Inr (updateTable (\<lambda>_. rows) t db)
      else Inl ConstraintViolation)"

definition rebaseContributions :: "str \<Rightarrow> nat \<Rightarrow> database \<Rightarrow> storage_error + database" where
  "rebaseContributions ws retainedVersion db =
     foldE (rebaseTable ws retainedVersion) contributionTables db"

section \<open>Inserting rows\<close>

text \<open>\<^verbatim>\<open>INSERT\<close> fails on a duplicate primary key; \<^verbatim>\<open>INSERT OR IGNORE\<close> drops the new row.\<close>

fun insertRow :: "('r \<Rightarrow> 'k) \<Rightarrow> bool \<Rightarrow> 'r \<Rightarrow> 'r list \<Rightarrow> storage_error + 'r list" where
  "insertRow key orIgnore r rows =
     (if key r \<in> key ` set rows then (if orIgnore then Inr rows else Inl ConstraintViolation)
      else Inr (rows @ [r]))"

text \<open>One statement with several value tuples, inserted in order.\<close>

definition insertAll :: "('r \<Rightarrow> 'k) \<Rightarrow> bool \<Rightarrow> 'r list \<Rightarrow> 'r list \<Rightarrow> storage_error + 'r list" where
  "insertAll key orIgnore new rows = foldE (insertRow key orIgnore) new rows"

section \<open>Versions\<close>

definition workspace_versions :: "database \<Rightarrow> str \<Rightarrow> nat list" where
  "workspace_versions db ws = map gv_version (filter (\<lambda>g. gv_ws g = ws) (db_versions db))"

text \<open>\<^verbatim>\<open>COALESCE(MAX(version), 0)\<close>.\<close>

definition currentVersion :: "database \<Rightarrow> str \<Rightarrow> nat" where
  "currentVersion db ws = foldr max (workspace_versions db ws) 0"

section \<open>Lemmas\<close>

lemma set_contributionTables [simp]: "t \<in> set contributionTables"
  by (cases t) (simp_all add: contributionTables_def)

lemma distinct_contributionTables [simp]: "distinct contributionTables"
  by (simp add: contributionTables_def)

lemma updateTable_simps [simp]:
  "db_tables (updateTable f t db) = (db_tables db)(t := f (db_tables db t))"
  "db_nodes (updateTable f t db) = db_nodes db" "db_edges (updateTable f t db) = db_edges db"
  "db_versions (updateTable f t db) = db_versions db" "db_staged (updateTable f t db) = db_staged db"
  by (simp_all add: updateTable_def)

lemma fold_updateTable:
  "distinct ts \<Longrightarrow> db_tables (fold (updateTable f) ts db) t =
     (if t \<in> set ts then f (db_tables db t) else db_tables db t)"
  by (induction ts arbitrary: db) auto

lemma fold_updateTable_other:
  "db_nodes (fold (updateTable f) ts db) = db_nodes db"
  "db_edges (fold (updateTable f) ts db) = db_edges db"
  "db_versions (fold (updateTable f) ts db) = db_versions db"
  "db_staged (fold (updateTable f) ts db) = db_staged db"
  by (induction ts arbitrary: db) auto

lemma overTables_simps [simp, store_simps]:
  "db_tables (overTables f db) t = f (db_tables db t)"
  "db_nodes (overTables f db) = db_nodes db" "db_edges (overTables f db) = db_edges db"
  "db_versions (overTables f db) = db_versions db" "db_staged (overTables f db) = db_staged db"
  by (simp_all add: overTables_def fold_updateTable fold_updateTable_other)

lemma insertAll_Nil [simp]: "insertAll key i [] rows = Inr rows"
  by (simp add: insertAll_def)

lemma insertAll_append:
  "insertAll key i (xs @ ys) rows = bindE (insertAll key i xs rows) (insertAll key i ys)"
  by (simp add: insertAll_def [abs_def] foldE_append)

text \<open>A plain insert succeeds exactly if all keys are new and different.\<close>

lemma insertAll_plain:
  "insertAll key False xs rows = Inr rows' \<longleftrightarrow>
     distinct (map key xs) \<and> key ` set xs \<inter> key ` set rows = {} \<and> rows' = rows @ xs"
  by (induction xs arbitrary: rows) (auto simp: insertAll_def)

text \<open>The rows an \<^verbatim>\<open>INSERT OR IGNORE\<close> keeps: the first of each new key.\<close>

fun fresh_rows :: "('r \<Rightarrow> 'k) \<Rightarrow> 'r list \<Rightarrow> 'k set \<Rightarrow> 'r list" where
  "fresh_rows key [] seen = []"
| "fresh_rows key (r # rs) seen =
     (if key r \<in> seen then fresh_rows key rs seen else r # fresh_rows key rs (insert (key r) seen))"

lemma insertAll_ignore:
  "insertAll key True xs rows = Inr (rows @ fresh_rows key xs (key ` set rows))"
  by (induction xs arbitrary: rows) (simp_all add: insertAll_def)

lemma fresh_rows_subset: "set (fresh_rows key xs seen) \<subseteq> set xs"
  by (induction xs arbitrary: seen) auto

lemma fresh_rows_keys:
  "distinct (map key (fresh_rows key xs seen)) \<and> key ` set (fresh_rows key xs seen) = key ` set xs - seen"
proof (induction xs arbitrary: seen)
  case (Cons x xs)
  have "key x \<notin> key ` set (fresh_rows key xs (insert (key x) seen))"
    using Cons.IH [of "insert (key x) seen"] by auto
  then show ?case
    using Cons.IH [of seen] Cons.IH [of "insert (key x) seen"] by auto
qed simp

lemma fresh_rows_cong: "(\<And>k. k \<in> key ` set xs \<Longrightarrow> k \<in> A \<longleftrightarrow> k \<in> B) \<Longrightarrow> fresh_rows key xs A = fresh_rows key xs B"
proof (induction xs arbitrary: A B)
  case (Cons x xs)
  have "fresh_rows key xs (insert (key x) A) = fresh_rows key xs (insert (key x) B)"
    by (rule Cons.IH) (simp add: Cons.prems)
  moreover have "fresh_rows key xs A = fresh_rows key xs B"
    by (rule Cons.IH) (simp add: Cons.prems)
  ultimately show ?case using Cons.prems [of "key x"] by simp
qed simp

lemma fresh_rows_disjoint: "key ` set xs \<inter> A = {} \<Longrightarrow> fresh_rows key xs A = fresh_rows key xs {}"
  by (rule fresh_rows_cong) auto

lemma distinct_fresh_append:
  "distinct (map key xs) \<Longrightarrow> distinct (map key (xs @ fresh_rows key ys (key ` set xs)))"
  using fresh_rows_keys [of key ys "key ` set xs"] by auto

lemma currentVersion_le: "v \<in> set (workspace_versions db ws) \<Longrightarrow> v \<le> currentVersion db ws"
proof -
  have "v \<in> set vs \<Longrightarrow> v \<le> foldr max vs (0 :: nat)" for vs
    by (induction vs) auto
  then show "v \<in> set (workspace_versions db ws) \<Longrightarrow> ?thesis"
    by (simp add: currentVersion_def)
qed

lemma currentVersion_mem: "workspace_versions db ws \<noteq> [] \<Longrightarrow> 0 < currentVersion db ws \<Longrightarrow>
    currentVersion db ws \<in> set (workspace_versions db ws)"
proof -
  have "foldr max vs (0 :: nat) = 0 \<or> foldr max vs 0 \<in> set vs" for vs
    by (induction vs) (auto simp: max_def)
  then show "0 < currentVersion db ws \<Longrightarrow> ?thesis"
    unfolding currentVersion_def by (metis less_irrefl)
qed

lemma workspace_versions_cong:
  "db_versions db = db_versions db' \<Longrightarrow> workspace_versions db ws = workspace_versions db' ws"
  by (simp add: workspace_versions_def)

lemma currentVersion_cong:
  "db_versions db = db_versions db' \<Longrightarrow> currentVersion db ws = currentVersion db' ws"
  by (simp add: currentVersion_def workspace_versions_def)

end
