(* ===== verification/Store_Batch.thy ===== *)
theory Store_Batch
  imports Store_Tables
begin

text \<open>
  Writing contributions in batches: \<^verbatim>\<open>insertRows\<close> (\<^verbatim>\<open>src/storage/sqlite/batch.go\<close>), the
  row preparation, the size estimate and the \<^verbatim>\<open>publicationBatch\<close> of
  \<^verbatim>\<open>src/storage/sqlite/sqlite.go\<close>, and \<^verbatim>\<open>storeWorkspaceFacts\<close>. The theory shows that the
  batching, its limits and its chunking never change what is stored: the outcome is that
  of writing one contribution after the other, each table in one statement. Elapsed-time
  reports to the caller are not modelled.
\<close>

section \<open>Cells and size estimates\<close>

text \<open>
  The values of a row as the type switch of \<^verbatim>\<open>estimateContributionRowsBytes\<close> sees them:
  plain strings count their length, every other value (numbers, booleans and the named
  string types such as \<^verbatim>\<open>NodeKind\<close>) counts eight bytes.
\<close>

datatype cell = CString str | CBytes str | COther

definition evidenceValues :: "FactEvidence \<Rightarrow> cell list" where
  "evidenceValues evidence =
     [CString (sp_Path (ev_Span evidence)), COther, COther, COther, COther,
      CString (ev_FileHash evidence), CString (ev_Extractor evidence),
      CString (ev_Provenance evidence), COther]"

fun payload_cells :: "payload \<Rightarrow> cell list" where
  "payload_cells (FileRow projectID name version) = [CString projectID, CString name, CString version]"
| "payload_cells (NodeRow node) =
     [CString (n_ID node), COther, CString (n_Label node), CString (n_QualifiedName node)]
       @ evidenceValues (n_Evidence node)"
| "payload_cells (EdgeRow edge) =
     [CString (e_SourceID edge), CString (e_TargetID edge), COther] @ evidenceValues (e_Evidence edge)"
| "payload_cells (ExtensionRow extension) = [CString extension]"
| "payload_cells (DependencyRow targetPath) = [CString targetPath]"
| "payload_cells (SurfaceRow surface) = [CString (es_NodeID surface), CString (es_Name surface)]"
| "payload_cells (DiagnosticRow diagnostic) = [COther, CString (dg_Message diagnostic)]"
| "payload_cells (UnresolvedRow sourceID target kind ambiguous) =
     [CString sourceID, CString target, COther, COther]"
| "payload_cells (BindingRow sourceID target kind binding) =
     [CString sourceID, CString target, COther, CString (mb_ImportedName binding),
      CString (mb_ExportedName binding), CString (mb_LocalName binding)]"
| "payload_cells (SymbolRow reference) =
     [CString (sr_SourceID reference), CString (sr_Target reference), COther]
       @ evidenceValues (sr_Evidence reference)"

definition row_cells :: "vrow \<Rightarrow> cell list" where
  "row_cells r = [CString (r_ws r), CString (r_path r), COther] @ payload_cells (r_payload r)"

fun cell_bytes :: "cell \<Rightarrow> nat" where
  "cell_bytes (CString s) = length s"
| "cell_bytes (CBytes s) = length s"
| "cell_bytes COther = 8"

definition row_bytes :: "cell list \<Rightarrow> nat" where
  "row_bytes cells = 8 + sum_list (map cell_bytes cells)"

definition estimateContributionRowsBytes :: "cell list list list \<Rightarrow> nat" where
  "estimateContributionRowsBytes groups =
     sum_list (map (\<lambda>rows. sum_list (map row_bytes rows)) groups)"

section \<open>Chunked inserts\<close>

function chunks :: "nat \<Rightarrow> 'a list \<Rightarrow> 'a list list" where
  "chunks n xs = (if xs = [] \<or> n = 0 then [] else take n xs # chunks n (drop n xs))"
  by pat_completeness auto
termination
  by (relation "measure (\<lambda>(n, xs). length xs)") auto

declare chunks.simps [simp del]

text \<open>
  \<open>exec\<close> is the statement executed for one chunk of rows. For a non-positive variable limit
  Go's truncated and HOL's flooring division differ, but both quotients are below one.
\<close>

definition insertRows ::
  "int \<Rightarrow> int \<Rightarrow> ('r \<Rightarrow> cell list) \<Rightarrow> ('r list \<Rightarrow> 's \<Rightarrow> storage_error + 's) \<Rightarrow> 'r list \<Rightarrow> 's \<Rightarrow> storage_error + 's" where
  "insertRows variableLimit maximumRows cells exec rows s =
     (if rows = [] then Inr s
      else let columnCount = length (cells (hd rows)) in
        if columnCount = 0 then Inl RowWidth
        else let rowsPerBatch = min (variableLimit div int columnCount) maximumRows in
          if rowsPerBatch < 1 then Inl VariableLimitTooSmall
          else foldE (\<lambda>chunk s.
                 if list_all (\<lambda>r. length (cells r) = columnCount) chunk then exec chunk s
                 else Inl RowWidth)
               (chunks (nat rowsPerBatch) rows) s)"

section \<open>Prepared contributions\<close>

definition encodeContributions :: "GraphUpdate \<Rightarrow> storage_error + Contribution list" where
  "encodeContributions update =
     bindE (foldE (\<lambda>contribution (encoded, sourcePaths).
              if c_sourcePath contribution \<in> sourcePaths then Inl InvalidRequest
              else Inr (encoded @ [contribution], insert (c_sourcePath contribution) sourcePaths))
            (gu_contributions update) ([], {}))
       (\<lambda>(encoded, _). Inr encoded)"

record preparedContribution =
  p_index :: nat
  p_contribution :: Contribution
  p_contributionRows :: "vrow list"
  p_nodeRows :: "vrow list"
  p_edgeRows :: "vrow list"
  p_extensionRows :: "vrow list"
  p_dependencyRows :: "vrow list"
  p_surfaceRows :: "vrow list"
  p_diagnosticRows :: "vrow list"
  p_unresolvedRows :: "vrow list"
  p_bindingRows :: "vrow list"
  p_symbolRows :: "vrow list"

definition prepareContribution :: "str \<Rightarrow> nat \<Rightarrow> nat \<Rightarrow> Contribution \<Rightarrow> preparedContribution" where
  "prepareContribution ws version index contribution =
     (let row = (\<lambda>p. \<lparr>r_ws = ws, r_path = c_sourcePath contribution, r_from = version, r_to = None,
                      r_payload = p\<rparr>);
          metadata = c_metadata contribution
      in \<lparr>p_index = index, p_contribution = contribution,
          p_contributionRows = [row (FileRow (c_projectID contribution) (md_Name metadata) (md_Version metadata))],
          p_nodeRows = map (row \<circ> NodeRow) (f_Nodes (c_facts contribution)),
          p_edgeRows = map (row \<circ> EdgeRow) (f_Edges (c_facts contribution)),
          p_extensionRows = map (row \<circ> ExtensionRow) (md_Extensions metadata),
          p_dependencyRows = map (row \<circ> DependencyRow \<circ> dep_TargetPath) (c_dependencies contribution),
          p_surfaceRows = map (row \<circ> SurfaceRow) (c_exportedSurfaces contribution),
          p_diagnosticRows = map (row \<circ> DiagnosticRow) (c_diagnostics contribution),
          p_unresolvedRows = map (\<lambda>reference. row (UnresolvedRow (ur_SourceID reference) (ur_Target reference)
              (ur_Kind reference) (ur_Ambiguous reference))) (c_unresolvedReferences contribution),
          p_bindingRows = concat (map (\<lambda>reference. map (\<lambda>binding. row (BindingRow (ur_SourceID reference)
              (ur_Target reference) (ur_Kind reference) binding)) (ur_Bindings reference))
              (c_unresolvedReferences contribution)),
          p_symbolRows = map (row \<circ> SymbolRow) (c_symbolReferences contribution)\<rparr>)"

text \<open>The preparation of all contributions of an update, in their order.\<close>

definition preparedList :: "str \<Rightarrow> nat \<Rightarrow> Contribution list \<Rightarrow> preparedContribution list" where
  "preparedList ws version contributions =
     map (\<lambda>(index, contribution). prepareContribution ws version index contribution) (enumerate 0 contributions)"

definition prepared_groups :: "preparedContribution \<Rightarrow> vrow list list" where
  "prepared_groups p =
     [p_contributionRows p, p_nodeRows p, p_edgeRows p, p_extensionRows p, p_dependencyRows p,
      p_surfaceRows p, p_diagnosticRows p, p_unresolvedRows p, p_bindingRows p, p_symbolRows p]"

section \<open>The publication batch\<close>

record publicationInsertion =
  ins_orIgnore :: bool
  ins_name :: ctable
  ins_rows :: "vrow list"

record contributionBatchLimits =
  bl_maximumRows :: nat
  bl_maximumBytes :: nat
  bl_maximumSources :: nat

record publicationBatch =
  b_variableLimit :: int
  b_insertions :: "publicationInsertion list"
  b_limits :: contributionBatchLimits
  b_rowCount :: nat
  b_estimatedBytes :: nat
  b_sourceCount :: nat

definition publicationTables :: "(bool \<times> ctable) list" where
  "publicationTables =
     [(False, file_contributions), (True, contribution_nodes), (True, contribution_edges),
      (True, contribution_extensions), (True, contribution_dependencies),
      (True, contribution_exported_surfaces), (True, contribution_diagnostics),
      (True, contribution_unresolved_references), (True, contribution_module_bindings),
      (True, contribution_symbol_references)]"

definition newPublicationBatch :: "int \<Rightarrow> contributionBatchLimits \<Rightarrow> publicationBatch" where
  "newPublicationBatch variableLimit limits =
     \<lparr>b_variableLimit = variableLimit,
      b_insertions = map (\<lambda>(i, t). \<lparr>ins_orIgnore = i, ins_name = t, ins_rows = []\<rparr>) publicationTables,
      b_limits = limits, b_rowCount = 0, b_estimatedBytes = 0, b_sourceCount = 0\<rparr>"

definition noLimits :: contributionBatchLimits where
  "noLimits = \<lparr>bl_maximumRows = 0, bl_maximumBytes = 0, bl_maximumSources = 0\<rparr>"

definition maximumBatchRows :: nat where
  "maximumBatchRows = 500"

text \<open>One \<^verbatim>\<open>INSERT\<close> or \<^verbatim>\<open>INSERT OR IGNORE\<close> statement on a contribution table.\<close>

definition insertTable :: "bool \<Rightarrow> ctable \<Rightarrow> vrow list \<Rightarrow> database \<Rightarrow> storage_error + database" where
  "insertTable orIgnore t new db =
     bindE (insertAll row_key orIgnore new (db_tables db t)) (\<lambda>rows. Inr (updateTable (\<lambda>_. rows) t db))"

definition flushInsertion :: "nat \<Rightarrow> publicationBatch \<times> database \<Rightarrow> storage_error + publicationBatch \<times> database" where
  "flushInsertion index state =
     (case state of (batch, db) \<Rightarrow>
       let insertion = b_insertions batch ! index in
       if ins_rows insertion = [] then Inr (batch, db)
       else let maximumRows = (if bl_maximumRows (b_limits batch) \<le> 0 then maximumBatchRows
                               else bl_maximumRows (b_limits batch)) in
         bindE (insertRows (b_variableLimit batch) (int maximumRows) row_cells
                  (insertTable (ins_orIgnore insertion) (ins_name insertion)) (ins_rows insertion) db)
           (\<lambda>db'. Inr (batch\<lparr>b_insertions := (b_insertions batch)[index := insertion\<lparr>ins_rows := []\<rparr>]\<rparr>, db')))"

definition flush :: "publicationBatch \<times> database \<Rightarrow> storage_error + publicationBatch \<times> database" where
  "flush state =
     bindE (foldE flushInsertion [0..<length (b_insertions (fst state))] state)
       (\<lambda>(batch, db). Inr (batch\<lparr>b_rowCount := 0, b_estimatedBytes := 0, b_sourceCount := 0\<rparr>, db))"

definition appendRows :: "nat \<Rightarrow> vrow list \<Rightarrow> publicationBatch \<Rightarrow> publicationBatch" where
  "appendRows index rows batch =
     (let insertion = b_insertions batch ! index in
      batch\<lparr>b_insertions := (b_insertions batch)[index := insertion\<lparr>ins_rows := ins_rows insertion @ rows\<rparr>]\<rparr>)"

definition legacyBatch :: "publicationBatch \<Rightarrow> bool" where
  "legacyBatch batch \<longleftrightarrow> bl_maximumRows (b_limits batch) = 0 \<and> bl_maximumBytes (b_limits batch) = 0
     \<and> bl_maximumSources (b_limits batch) = 0"

definition addGroup :: "nat \<times> vrow list \<Rightarrow> publicationBatch \<times> database \<Rightarrow> storage_error + publicationBatch \<times> database" where
  "addGroup entry state =
     (case entry of (index, insertionRows) \<Rightarrow> case state of (batch, db) \<Rightarrow>
       let batch' = appendRows index insertionRows batch in
       if legacyBatch batch \<and> length (ins_rows (b_insertions batch' ! index)) \<ge> maximumBatchRows
       then flushInsertion index (batch', db) else Inr (batch', db))"

definition overflows :: "publicationBatch \<Rightarrow> nat \<Rightarrow> nat \<Rightarrow> bool" where
  "overflows batch preparedRowCount preparedBytes \<longleftrightarrow>
     b_sourceCount batch > 0 \<and>
     (bl_maximumRows (b_limits batch) > 0 \<and> b_rowCount batch + preparedRowCount > bl_maximumRows (b_limits batch) \<or>
      bl_maximumBytes (b_limits batch) > 0 \<and> b_estimatedBytes batch + preparedBytes > bl_maximumBytes (b_limits batch))"

definition full :: "publicationBatch \<Rightarrow> bool" where
  "full batch \<longleftrightarrow>
     bl_maximumRows (b_limits batch) > 0 \<and> b_rowCount batch \<ge> bl_maximumRows (b_limits batch) \<or>
     bl_maximumBytes (b_limits batch) > 0 \<and> b_estimatedBytes batch \<ge> bl_maximumBytes (b_limits batch) \<or>
     bl_maximumSources (b_limits batch) > 0 \<and> b_sourceCount batch \<ge> bl_maximumSources (b_limits batch)"

definition closePrior :: "str \<Rightarrow> nat \<Rightarrow> preparedContribution \<Rightarrow> database \<Rightarrow> database" where
  "closePrior ws version prepared db =
     (if version > 1 then closeContributionRecords ws (c_sourcePath (p_contribution prepared)) (version - 1) db
      else db)"

definition addBatch ::
  "str \<Rightarrow> nat \<Rightarrow> preparedContribution \<Rightarrow> publicationBatch \<times> database \<Rightarrow> storage_error + publicationBatch \<times> database" where
  "addBatch ws version prepared state =
     (let rows = prepared_groups prepared;
          preparedRowCount = sum_list (map length rows);
          preparedBytes = estimateContributionRowsBytes (map (map row_cells) rows)
      in bindE (if overflows (fst state) preparedRowCount preparedBytes then flush state else Inr state)
           (\<lambda>(batch, db). bindE (foldE addGroup (enumerate 0 rows) (batch, closePrior ws version prepared db))
             (\<lambda>(batch, db).
                let batch' = batch\<lparr>b_rowCount := b_rowCount batch + preparedRowCount,
                                  b_estimatedBytes := b_estimatedBytes batch + preparedBytes,
                                  b_sourceCount := b_sourceCount batch + 1\<rparr>
                in if full batch' then flush (batch', db) else Inr (batch', db))))"

section \<open>Reference: one contribution after the other\<close>

definition storeContribution :: "str \<Rightarrow> nat \<Rightarrow> preparedContribution \<Rightarrow> database \<Rightarrow> storage_error + database" where
  "storeContribution ws version prepared db =
     foldE (\<lambda>((orIgnore, t), rows). insertTable orIgnore t rows)
       (zip publicationTables (prepared_groups prepared)) (closePrior ws version prepared db)"

section \<open>Workspace facts\<close>

record factBatchLimits =
  fl_maximumRows :: nat
  fl_maximumBytes :: nat

definition wnode_key :: "wnode \<Rightarrow> str \<times> nat \<times> str" where
  "wnode_key r = (wn_ws r, wn_version r, n_ID (wn_node r))"

definition wedge_key :: "wedge \<Rightarrow> str \<times> nat \<times> str \<times> str \<times> str" where
  "wedge_key r = (we_ws r, we_version r, e_SourceID (we_edge r), e_TargetID (we_edge r), e_Relation (we_edge r))"

definition wnode_cells :: "wnode \<Rightarrow> cell list" where
  "wnode_cells r =
     [CString (wn_ws r), COther, CString (n_ID (wn_node r)), COther, CString (n_Label (wn_node r)),
      CString (n_QualifiedName (wn_node r))] @ evidenceValues (n_Evidence (wn_node r))"

definition wedge_cells :: "wedge \<Rightarrow> cell list" where
  "wedge_cells r =
     [CString (we_ws r), COther, CString (e_SourceID (we_edge r)), CString (e_TargetID (we_edge r)), COther]
       @ evidenceValues (e_Evidence (we_edge r)) @ [CString (we_owner r)]"

definition estimateRowsBytes :: "cell list list \<Rightarrow> nat" where
  "estimateRowsBytes rows = estimateContributionRowsBytes [rows]"

text \<open>The buffer loop that \<^verbatim>\<open>storeWorkspaceFacts\<close> runs once for nodes and once for edges.\<close>

definition bufferRow ::
  "int \<Rightarrow> factBatchLimits \<Rightarrow> ('r \<Rightarrow> cell list) \<Rightarrow> ('r list \<Rightarrow> database \<Rightarrow> storage_error + database) \<Rightarrow> 'r \<Rightarrow>
     'r list \<times> nat \<times> database \<Rightarrow> storage_error + 'r list \<times> nat \<times> database" where
  "bufferRow variableLimit limits cells exec row state =
     (case state of (rows, bytes, db) \<Rightarrow>
       let rowBytes = estimateRowsBytes [cells row] in
       if fl_maximumBytes limits > 0 \<and> rowBytes > fl_maximumBytes limits then Inl FactTooLarge
       else bindE (if rows \<noteq> [] \<and> (fl_maximumRows limits > 0 \<and> length rows \<ge> fl_maximumRows limits \<or>
                                   fl_maximumBytes limits > 0 \<and> bytes + rowBytes > fl_maximumBytes limits)
                   then bindE (insertRows variableLimit (int maximumBatchRows) cells exec rows db)
                          (\<lambda>db'. Inr ([], 0, db'))
                   else Inr (rows, bytes, db))
              (\<lambda>(rows', bytes', db'). Inr (rows' @ [row], bytes' + rowBytes, db')))"

definition storeFactRows ::
  "int \<Rightarrow> factBatchLimits \<Rightarrow> ('r \<Rightarrow> cell list) \<Rightarrow> ('r list \<Rightarrow> database \<Rightarrow> storage_error + database) \<Rightarrow> 'r list \<Rightarrow>
     database \<Rightarrow> storage_error + database" where
  "storeFactRows variableLimit limits cells exec rows db =
     bindE (foldE (bufferRow variableLimit limits cells exec) rows ([], 0, db))
       (\<lambda>(rest, _, db'). if rest \<noteq> [] then insertRows variableLimit (int maximumBatchRows) cells exec rest db'
                         else Inr db')"

definition insertWorkspaceNodes :: "wnode list \<Rightarrow> database \<Rightarrow> storage_error + database" where
  "insertWorkspaceNodes new db =
     bindE (insertAll wnode_key True new (db_nodes db)) (\<lambda>rows. Inr (db\<lparr>db_nodes := rows\<rparr>))"

definition insertWorkspaceEdges :: "wedge list \<Rightarrow> database \<Rightarrow> storage_error + database" where
  "insertWorkspaceEdges new db =
     bindE (insertAll wedge_key True new (db_edges db)) (\<lambda>rows. Inr (db\<lparr>db_edges := rows\<rparr>))"

definition factNodeRows :: "str \<Rightarrow> nat \<Rightarrow> Facts \<Rightarrow> wnode list" where
  "factNodeRows ws version facts =
     map (\<lambda>node. \<lparr>wn_ws = ws, wn_version = version, wn_node = node\<rparr>) (f_Nodes facts)"

definition factEdgeRows :: "str \<Rightarrow> nat \<Rightarrow> Facts \<Rightarrow> wedge list" where
  "factEdgeRows ws version facts =
     map (\<lambda>edge. \<lparr>we_ws = ws, we_version = version, we_edge = edge, we_owner = sp_Path (ev_Span (e_Evidence edge))\<rparr>)
       (f_Edges facts)"

definition storeWorkspaceFacts ::
  "int \<Rightarrow> factBatchLimits \<Rightarrow> str \<Rightarrow> nat \<Rightarrow> Facts \<Rightarrow> database \<Rightarrow> storage_error + database" where
  "storeWorkspaceFacts variableLimit limits ws version facts db =
     bindE (storeFactRows variableLimit limits wnode_cells insertWorkspaceNodes (factNodeRows ws version facts) db)
       (storeFactRows variableLimit limits wedge_cells insertWorkspaceEdges (factEdgeRows ws version facts))"

section \<open>Chunks\<close>

lemma concat_chunks: "0 < n \<Longrightarrow> concat (chunks n xs) = xs"
proof (induction n xs rule: chunks.induct)
  case (1 n xs)
  then show ?case by (subst chunks.simps) auto
qed

lemma chunks_bounds: "c \<in> set (chunks n xs) \<Longrightarrow> c \<noteq> [] \<and> length c \<le> n"
proof (induction n xs rule: chunks.induct)
  case (1 n xs)
  from "1.prems" have "xs \<noteq> []" "n \<noteq> 0" "c = take n xs \<or> c \<in> set (chunks n (drop n xs))"
    by (subst (asm) chunks.simps; auto split: if_splits)+
  with "1.IH" show ?case by auto
qed

lemma foldE_concat:
  assumes "\<And>xs ys s. f (xs @ ys) s = bindE (f xs s) (f ys)" "\<And>s. f [] s = Inr s"
  shows "foldE f xss s = f (concat xss) s"
  using assms by (induction xss arbitrary: s) (auto intro: bindE_cong)

text \<open>A multi-row insert that behaves like the concatenation of its parts may be chunked freely.\<close>

lemma insertRows_exec:
  assumes exec: "\<And>xs ys s. exec (xs @ ys) s = bindE (exec xs s) (exec ys)" "\<And>s. exec [] s = Inr s"
    and width: "\<forall>r \<in> set rows. length (cells r) = w" "0 < w" "int w \<le> variableLimit" and max: "1 \<le> maximumRows"
  shows "insertRows variableLimit maximumRows cells exec rows s = exec rows s"
proof (cases "rows = []")
  case False
  define n where "n = min (variableLimit div int w) maximumRows"
  have "1 \<le> variableLimit div int w" using width by (simp add: pos_imp_zdiv_pos_iff int_one_le_iff_zero_less)
  with max have n: "1 \<le> n" by (simp add: n_def)
  have hd: "length (cells (hd rows)) = w" using width(1) False by simp
  have "list_all (\<lambda>r. length (cells r) = w) c" if "c \<in> set (chunks (nat n) rows)" for c
  proof -
    from that have "set c \<subseteq> set (concat (chunks (nat n) rows))" by auto
    with n width(1) show ?thesis by (auto simp: concat_chunks list_all_iff)
  qed
  then have "insertRows variableLimit maximumRows cells exec rows s = foldE exec (chunks (nat n) rows) s"
    using False width(2) n hd by (auto simp: insertRows_def Let_def n_def intro!: foldE_cong)
  also have "\<dots> = exec (concat (chunks (nat n) rows)) s"
    by (rule foldE_concat) (use exec in auto)
  finally show ?thesis using n by (simp add: concat_chunks)
qed (simp add: insertRows_def exec(2))

lemma insertTable_append:
  "insertTable i t (xs @ ys) db = bindE (insertTable i t xs db) (insertTable i t ys)"
  by (cases "insertAll row_key i xs (db_tables db t)")
     (simp_all add: insertTable_def insertAll_append bindE_assoc updateTable_def)

lemma insertTable_Nil [simp]: "insertTable i t [] db = Inr db"
  by (simp add: insertTable_def updateTable_def)

section \<open>Settling pending rows\<close>

text \<open>The rows waiting in a batch, by table, and the database with all of them inserted.\<close>

definition table_orIgnore :: "ctable \<Rightarrow> bool" where
  "table_orIgnore t \<longleftrightarrow> t \<noteq> file_contributions"

definition settle :: "(ctable \<Rightarrow> vrow list) \<Rightarrow> database \<Rightarrow> storage_error + database" where
  "settle pend db =
     (if \<exists>t. isl (insertAll row_key (table_orIgnore t) (pend t) (db_tables db t)) then Inl ConstraintViolation
      else Inr (db\<lparr>db_tables := (\<lambda>t. projr (insertAll row_key (table_orIgnore t) (pend t) (db_tables db t)))\<rparr>))"

lemma insertAll_Inl: "insertAll key i xs rows = Inl e \<Longrightarrow> e = ConstraintViolation"
  by (induction xs arbitrary: rows) (auto simp: insertAll_def bindE_eq_Inl split: if_splits)

lemma settle_Inr: "settle pend db = Inr db' \<longleftrightarrow>
    (\<exists>T. (\<forall>t. insertAll row_key (table_orIgnore t) (pend t) (db_tables db t) = Inr (T t)) \<and>
         db' = db\<lparr>db_tables := T\<rparr>)"
proof
  assume "settle pend db = Inr db'"
  then show "\<exists>T. (\<forall>t. insertAll row_key (table_orIgnore t) (pend t) (db_tables db t) = Inr (T t)) \<and>
      db' = db\<lparr>db_tables := T\<rparr>"
    by (intro exI [of _ "db_tables db'"]) (auto simp: settle_def split: if_splits)
qed (auto simp: settle_def)

lemma settle_Inl: "settle pend db = Inl e \<Longrightarrow> e = ConstraintViolation"
  by (auto simp: settle_def split: if_splits)

lemma settle_failed:
  "insertAll row_key (table_orIgnore t) (pend t) (db_tables db t) = Inl e \<Longrightarrow> settle pend db = Inl ConstraintViolation"
  unfolding settle_def by (metis isl_def)

lemma settle_empty: "settle (\<lambda>_. []) db = Inr db"
  by (simp add: settle_def)

text \<open>Two outcomes agree if they succeed together with the same database.\<close>

lemma sum_eqI:
  assumes "\<And>y. m = Inr y \<longleftrightarrow> m' = Inr y" "\<And>e. m = Inl e \<Longrightarrow> e = c" "\<And>e. m' = Inl e \<Longrightarrow> e = c"
  shows "m = m'"
proof (cases m)
  case (Inl e)
  then show ?thesis using assms(1) [of "projr m'"] assms(2) [of e] assms(3) [of "projl m'"]
    by (cases m') simp_all
next
  case (Inr y)
  then show ?thesis using assms(1) [of y] by simp
qed

lemma settle_append: "settle (\<lambda>t. p t @ q t) db = bindE (settle p db) (settle q)"
proof (rule sum_eqI [where c = ConstraintViolation])
  fix db'
  let ?ins = "\<lambda>t. insertAll row_key (table_orIgnore t)"
  show "settle (\<lambda>t. p t @ q t) db = Inr db' \<longleftrightarrow> bindE (settle p db) (settle q) = Inr db'"
  proof
    assume "settle (\<lambda>t. p t @ q t) db = Inr db'"
    then obtain T' where ins: "\<forall>t. \<exists>rows. ?ins t (p t) (db_tables db t) = Inr rows \<and> ?ins t (q t) rows = Inr (T' t)"
      and db': "db' = db\<lparr>db_tables := T'\<rparr>"
      by (auto simp: settle_Inr insertAll_append)
    from ins obtain T where T: "\<And>t. ?ins t (p t) (db_tables db t) = Inr (T t)"
        "\<And>t. ?ins t (q t) (T t) = Inr (T' t)" by metis
    have "settle p db = Inr (db\<lparr>db_tables := T\<rparr>)" using T(1) by (auto simp: settle_Inr)
    moreover have "settle q (db\<lparr>db_tables := T\<rparr>) = Inr db'" using T(2) db' by (auto simp: settle_Inr)
    ultimately show "bindE (settle p db) (settle q) = Inr db'" by simp
  next
    assume "bindE (settle p db) (settle q) = Inr db'"
    then obtain T T' where "\<And>t. ?ins t (p t) (db_tables db t) = Inr (T t)"
        "\<And>t. ?ins t (q t) (T t) = Inr (T' t)" "db' = db\<lparr>db_tables := T'\<rparr>"
      by (auto simp: settle_Inr)
    then show "settle (\<lambda>t. p t @ q t) db = Inr db'"
      by (auto simp: settle_Inr insertAll_append)
  qed
qed (auto simp: bindE_eq_Inl dest: settle_Inl)

text \<open>Inserting the rows of one table first changes nothing.\<close>

lemma settle_one:
  assumes "i = table_orIgnore t"
  shows "bindE (insertTable i t (pend t) db) (settle (pend(t := []))) = settle pend db"
proof -
  have "insertTable i t (pend t) db = settle (\<lambda>u. if u = t then pend t else []) db"
  proof (rule sum_eqI [where c = ConstraintViolation])
    fix db'
    show "insertTable i t (pend t) db = Inr db' \<longleftrightarrow> settle (\<lambda>u. if u = t then pend t else []) db = Inr db'"
    proof
      assume "insertTable i t (pend t) db = Inr db'"
      then obtain rows where "insertAll row_key (table_orIgnore t) (pend t) (db_tables db t) = Inr rows"
          "db' = updateTable (\<lambda>_. rows) t db"
        by (auto simp: insertTable_def assms)
      then show "settle (\<lambda>u. if u = t then pend t else []) db = Inr db'"
        unfolding settle_Inr by (intro exI [of _ "(db_tables db)(t := rows)"]) (auto simp: updateTable_def)
    next
      assume "settle (\<lambda>u. if u = t then pend t else []) db = Inr db'"
      then obtain T where T: "\<And>u. insertAll row_key (table_orIgnore u) (if u = t then pend t else []) (db_tables db u) = Inr (T u)"
          "db' = db\<lparr>db_tables := T\<rparr>" by (auto simp: settle_Inr)
      have "T u = ((db_tables db)(t := T t)) u" for u using T(1) [of u] by (auto split: if_splits)
      then have eq: "T = (db_tables db)(t := T t)" by (rule ext)
      have "db' = updateTable (\<lambda>_. T t) t db"
        by (subst T(2), subst eq) (simp add: updateTable_def)
      with T(1) [of t] show "insertTable i t (pend t) db = Inr db'"
        by (simp add: insertTable_def assms)
    qed
  qed (auto simp: insertTable_def bindE_eq_Inl dest: insertAll_Inl settle_Inl)
  moreover have "(\<lambda>u. (if u = t then pend t else []) @ (pend(t := [])) u) = pend" by auto
  ultimately show ?thesis
    using settle_append [of "\<lambda>u. if u = t then pend t else []" "pend(t := [])" db] by simp
qed

text \<open>Closing the rows of a path commutes with inserting rows of other paths.\<close>

lemma insertAll_map:
  assumes "\<And>r. key (f r) = key r" "\<And>r. r \<in> set xs \<Longrightarrow> f r = r"
  shows "insertAll key i xs (map f rows) = map_sum id (map f) (insertAll key i xs rows)"
proof -
  have keys: "key ` f ` A = key ` A" for A by (simp add: image_image assms(1))
  show ?thesis using assms(2)
  proof (induction xs arbitrary: rows)
    case (Cons x xs)
    then have "insertAll key i xs (map f rows @ [x]) = map_sum id (map f) (insertAll key i xs (rows @ [x]))"
      by (metis list.set_intros list.simps(8,9) map_append)
    with Cons show ?case by (auto simp: insertAll_def keys id_def)
  qed (simp add: insertAll_def)
qed

lemma settle_close:
  assumes "\<And>t r. r \<in> set (pend t) \<Longrightarrow> r_path r \<noteq> p"
  shows "settle pend (closeContributionRecords ws p v db) =
    bindE (settle pend db) (\<lambda>db. Inr (closeContributionRecords ws p v db))"
proof -
  define f where "f = (\<lambda>r :: vrow. if r_ws r = ws \<and> r_path r = p \<and> r_to r = None then r\<lparr>r_to := Some v\<rparr> else r)"
  have close: "closeContributionRecords ws p v = overTables (map f)"
    by (simp add: closeContributionRecords_def f_def)
  have ins: "insertAll row_key i (pend t) (map f rows) = map_sum id (map f) (insertAll row_key i (pend t) rows)"
    for i t rows
    by (rule insertAll_map) (use assms in \<open>auto simp: f_def row_key_def\<close>)
  have over: "overTables (map f) d = d\<lparr>db_tables := \<lambda>t. map f (db_tables d t)\<rparr>" for d
  proof -
    have "db_tables (overTables (map f) d) = (\<lambda>t. map f (db_tables d t))" by (simp add: fun_eq_iff)
    then show ?thesis by (simp add: database.equality)
  qed
  have isl: "isl (map_sum id g x) = isl x" for g :: "'b \<Rightarrow> 'c" and x :: "'a + 'b" by (cases x) auto
  have projr: "\<not> isl x \<Longrightarrow> projr (map_sum id g x) = g (projr x)" for g :: "'b \<Rightarrow> 'c" and x :: "'a + 'b"
    by (cases x) auto
  show ?thesis
    unfolding close by (simp add: settle_def ins isl projr over)
qed

section \<open>Batches simulate the reference\<close>

definition pending :: "publicationBatch \<Rightarrow> ctable \<Rightarrow> vrow list" where
  "pending batch t = (case find (\<lambda>i. ins_name i = t) (b_insertions batch) of None \<Rightarrow> [] | Some i \<Rightarrow> ins_rows i)"

fun table_width :: "ctable \<Rightarrow> nat" where
  "table_width file_contributions = 6"
| "table_width contribution_extensions = 4"
| "table_width contribution_nodes = 16"
| "table_width contribution_edges = 15"
| "table_width contribution_dependencies = 4"
| "table_width contribution_exported_surfaces = 5"
| "table_width contribution_diagnostics = 5"
| "table_width contribution_unresolved_references = 7"
| "table_width contribution_module_bindings = 9"
| "table_width contribution_symbol_references = 15"

text \<open>The shape of a batch: its insertions are those of \<^verbatim>\<open>newPublicationBatch\<close>, its rows fit
  their table, and one statement can hold at least one row of any table.\<close>

definition batch_ok :: "publicationBatch \<Rightarrow> bool" where
  "batch_ok batch \<longleftrightarrow>
     map (\<lambda>i. (ins_orIgnore i, ins_name i)) (b_insertions batch) = publicationTables \<and>
     (\<forall>i \<in> set (b_insertions batch). \<forall>r \<in> set (ins_rows i). length (row_cells r) = table_width (ins_name i)) \<and>
     16 \<le> b_variableLimit batch"

lemma publicationTables_props:
  "length publicationTables = 10" "distinct (map snd publicationTables)"
  "t \<in> snd ` set publicationTables"
  "(i, t) \<in> set publicationTables \<Longrightarrow> i = table_orIgnore t"
proof -
  show "length publicationTables = 10" "distinct (map snd publicationTables)"
    by (simp_all add: publicationTables_def)
  show "t \<in> snd ` set publicationTables" by (cases t) (simp_all add: publicationTables_def)
  show "(i, t) \<in> set publicationTables \<Longrightarrow> i = table_orIgnore t"
    by (auto simp: publicationTables_def table_orIgnore_def)
qed

lemma table_width_bounds: "0 < table_width t \<and> table_width t \<le> 16"
  by (cases t) simp_all

lemma batch_ok_names: "batch_ok b \<Longrightarrow> map ins_name (b_insertions b) = map snd publicationTables"
  unfolding batch_ok_def by (metis (no_types, lifting) list.map_comp map_eq_conv comp_apply snd_conv)

lemma batch_ok_length: "batch_ok b \<Longrightarrow> length (b_insertions b) = 10"
  by (metis batch_ok_names length_map publicationTables_props(1))

lemma find_distinct_nth:
  "distinct (map k xs) \<Longrightarrow> i < length xs \<Longrightarrow> find (\<lambda>x. k x = k (xs ! i)) xs = Some (xs ! i)"
  by (rule find_unique) auto

lemma pending_nth:
  assumes "batch_ok b" "i < 10"
  shows "pending b (ins_name (b_insertions b ! i)) = ins_rows (b_insertions b ! i)"
  using assms batch_ok_names [OF assms(1)] batch_ok_length [OF assms(1)] publicationTables_props(2)
  by (simp add: pending_def find_distinct_nth)

lemma pending_update:
  assumes "batch_ok b" "i < 10"
  shows "pending (b\<lparr>b_insertions := (b_insertions b)[i := (b_insertions b ! i)\<lparr>ins_rows := rows\<rparr>]\<rparr>) =
    (pending b)(ins_name (b_insertions b ! i) := rows)"
proof
  fix t
  let ?ins = "b_insertions b"
  let ?new = "(?ins ! i)\<lparr>ins_rows := rows\<rparr>"
  have d: "distinct (map ins_name ?ins)" and l: "length ?ins = 10"
    using assms batch_ok_names batch_ok_length publicationTables_props(2) by auto
  have names: "map ins_name (?ins[i := ?new]) = map ins_name ?ins"
    by (simp add: map_update list_update_same_conv l assms)
  have "t \<in> ins_name ` set ?ins"
    using batch_ok_names [OF assms(1)] publicationTables_props(3) by (metis list.set_map)
  then obtain j where j: "j < 10" "t = ins_name (?ins ! j)" using l by (auto simp: in_set_conv_nth)
  have nm: "ins_name (?ins[i := ?new] ! j) = t"
    using j l by (metis names length_list_update nth_map)
  have "find (\<lambda>x. ins_name x = t) (?ins[i := ?new]) = Some (?ins[i := ?new] ! j)"
    using find_distinct_nth [of ins_name "?ins[i := ?new]" j] d names nm j l by simp
  moreover have "j = i \<longleftrightarrow> t = ins_name (?ins ! i)"
    using d j l assms(2) by (auto simp: distinct_conv_nth)
  ultimately show "pending (b\<lparr>b_insertions := ?ins[i := ?new]\<rparr>) t = ((pending b)(ins_name (?ins ! i) := rows)) t"
    using pending_nth [OF assms(1) j(1)] j l assms(2) by (auto simp: pending_def nth_list_update)
qed

lemma batch_ok_update:
  assumes "batch_ok b" "i < 10" "\<forall>r \<in> set rows. length (row_cells r) = table_width (ins_name (b_insertions b ! i))"
  shows "batch_ok (b\<lparr>b_insertions := (b_insertions b)[i := (b_insertions b ! i)\<lparr>ins_rows := rows\<rparr>]\<rparr>)"
proof -
  have l: "length (b_insertions b) = 10" by (rule batch_ok_length [OF assms(1)])
  have "map (\<lambda>i. (ins_orIgnore i, ins_name i)) ((b_insertions b)[i := (b_insertions b ! i)\<lparr>ins_rows := rows\<rparr>]) =
      map (\<lambda>i. (ins_orIgnore i, ins_name i)) (b_insertions b)"
    by (simp add: map_update list_update_same_conv l assms)
  with assms show ?thesis
    by (auto simp: batch_ok_def dest!: set_update_subset_insert [THEN subsetD])
qed

lemma batch_ok_insertion:
  assumes "batch_ok b" "i < 10"
  shows "ins_orIgnore (b_insertions b ! i) = table_orIgnore (ins_name (b_insertions b ! i))"
    "r \<in> set (ins_rows (b_insertions b ! i)) \<Longrightarrow> length (row_cells r) = table_width (ins_name (b_insertions b ! i))"
proof -
  have l: "length (b_insertions b) = 10" by (rule batch_ok_length [OF assms(1)])
  have "(ins_orIgnore (b_insertions b ! i), ins_name (b_insertions b ! i)) \<in> set publicationTables"
    using assms l unfolding batch_ok_def by (metis (no_types, lifting) image_eqI list.set_map nth_mem)
  then show "ins_orIgnore (b_insertions b ! i) = table_orIgnore (ins_name (b_insertions b ! i))"
    by (rule publicationTables_props(4))
  show "r \<in> set (ins_rows (b_insertions b ! i)) \<Longrightarrow> length (row_cells r) = table_width (ins_name (b_insertions b ! i))"
    using assms l by (auto simp: batch_ok_def)
qed

definition settled :: "publicationBatch \<times> database \<Rightarrow> storage_error + database" where
  "settled state = settle (pending (fst state)) (snd state)"

definition pending_paths :: "publicationBatch \<Rightarrow> str set" where
  "pending_paths b = (\<Union>t. r_path ` set (pending b t))"

definition cleared :: "nat \<Rightarrow> publicationBatch \<Rightarrow> publicationBatch" where
  "cleared i b = b\<lparr>b_insertions := (b_insertions b)[i := (b_insertions b ! i)\<lparr>ins_rows := []\<rparr>]\<rparr>"

lemma cleared_props:
  assumes "batch_ok b" "i < 10"
  shows "batch_ok (cleared i b)" "pending (cleared i b) = (pending b)(ins_name (b_insertions b ! i) := [])"
    "b_limits (cleared i b) = b_limits b"
    "ins_name (b_insertions (cleared i b) ! j) = ins_name (b_insertions b ! j)"
  using assms batch_ok_length [OF assms(1)]
  by (simp_all add: cleared_def batch_ok_update pending_update nth_list_update)

lemma flushInsertion_eq:
  assumes ok: "batch_ok b" and i: "i < 10"
  defines "t \<equiv> ins_name (b_insertions b ! i)"
  shows "flushInsertion i (b, db) =
    bindE (insertTable (table_orIgnore t) t (pending b t) db) (\<lambda>db'. Inr (cleared i b, db'))"
proof (cases "ins_rows (b_insertions b ! i) = []")
  case True
  then have "(b_insertions b ! i)\<lparr>ins_rows := []\<rparr> = b_insertions b ! i" by (metis publicationInsertion.surjective publicationInsertion.update_convs(3))
  then have "cleared i b = b" by (simp add: cleared_def)
  with True show ?thesis using pending_nth [OF ok i] by (simp add: flushInsertion_def t_def)
next
  case False
  have "insertRows (b_variableLimit b) m row_cells (insertTable (table_orIgnore t) t) (ins_rows (b_insertions b ! i)) db =
      insertTable (table_orIgnore t) t (ins_rows (b_insertions b ! i)) db" if "1 \<le> m" for m
    using that ok table_width_bounds [of t] batch_ok_insertion(2) [OF ok i]
    by (intro insertRows_exec [where w = "table_width t"]) (auto simp: insertTable_append t_def batch_ok_def)
  with False show ?thesis
    using pending_nth [OF ok i] batch_ok_insertion(1) [OF ok i]
    by (simp add: flushInsertion_def Let_def t_def cleared_def maximumBatchRows_def)
qed

lemma flushInsertion_settled:
  assumes "batch_ok b" "i < 10"
  shows "bindE (flushInsertion i (b, db)) settled = settled (b, db)"
  using assms settle_one [OF refl, of "ins_name (b_insertions b ! i)" "pending b" db]
  by (simp add: flushInsertion_eq bindE_assoc settled_def cleared_props cong: bindE_cong)

lemma flushInsertion_Inr:
  assumes "batch_ok b" "i < 10" "flushInsertion i (b, db) = Inr (b', db')"
  shows "b' = cleared i b"
  using assms by (auto simp: flushInsertion_eq)

lemma foldE_flushInsertion:
  assumes "batch_ok b" "set idx \<subseteq> {..<10}"
  shows "bindE (foldE flushInsertion idx (b, db)) settled = settled (b, db)"
    and "foldE flushInsertion idx (b, db) = Inr (b', db') \<Longrightarrow> batch_ok b' \<and> b_limits b' = b_limits b \<and>
      (\<forall>t. pending b' t = (if t \<in> (\<lambda>i. ins_name (b_insertions b ! i)) ` set idx then [] else pending b t))"
proof -
  have "bindE (foldE flushInsertion idx (b, db)) settled = settled (b, db) \<and>
    (foldE flushInsertion idx (b, db) = Inr (b', db') \<longrightarrow> batch_ok b' \<and> b_limits b' = b_limits b \<and>
      (\<forall>t. pending b' t = (if t \<in> (\<lambda>i. ins_name (b_insertions b ! i)) ` set idx then [] else pending b t)))"
    using assms
  proof (induction idx arbitrary: b db)
    case (Cons i idx)
    then have i: "i < 10" "set idx \<subseteq> {..<10}" by auto
    note c = cleared_props [OF Cons.prems(1) i(1)]
    have IH: "\<And>db. bindE (foldE flushInsertion idx (cleared i b, db)) settled = settled (cleared i b, db)"
      by (metis Cons.IH [OF c(1) i(2)])
    have "bindE (foldE flushInsertion (i # idx) (b, db)) settled = bindE (flushInsertion i (b, db)) settled"
      by (simp add: bindE_assoc flushInsertion_eq [OF Cons.prems(1) i(1)] IH cong: bindE_cong)
    moreover have "batch_ok b' \<and> b_limits b' = b_limits b \<and>
        (\<forall>t. pending b' t = (if t \<in> (\<lambda>i. ins_name (b_insertions b ! i)) ` set (i # idx) then [] else pending b t))"
      if run: "foldE flushInsertion (i # idx) (b, db) = Inr (b', db')"
    proof -
      from run obtain db1 where "foldE flushInsertion idx (cleared i b, db1) = Inr (b', db')"
        by (auto simp: flushInsertion_eq [OF Cons.prems(1) i(1)])
      with Cons.IH [OF c(1) i(2)] have "batch_ok b' \<and> b_limits b' = b_limits (cleared i b) \<and>
        (\<forall>t. pending b' t = (if t \<in> (\<lambda>j. ins_name (b_insertions (cleared i b) ! j)) ` set idx then [] else pending (cleared i b) t))"
        by blast
      then show ?thesis using c by auto
    qed
    ultimately show ?case using flushInsertion_settled [OF Cons.prems(1) i(1)] by simp
  qed auto
  then show "bindE (foldE flushInsertion idx (b, db)) settled = settled (b, db)"
    "foldE flushInsertion idx (b, db) = Inr (b', db') \<Longrightarrow> batch_ok b' \<and> b_limits b' = b_limits b \<and>
      (\<forall>t. pending b' t = (if t \<in> (\<lambda>i. ins_name (b_insertions b ! i)) ` set idx then [] else pending b t))"
    by auto
qed

lemma pending_counts [simp]:
  "pending (b\<lparr>b_rowCount := x, b_estimatedBytes := y, b_sourceCount := z\<rparr>) = pending b"
  "batch_ok (b\<lparr>b_rowCount := x, b_estimatedBytes := y, b_sourceCount := z\<rparr>) = batch_ok b"
  "settled (b\<lparr>b_rowCount := x, b_estimatedBytes := y, b_sourceCount := z\<rparr>, db) = settled (b, db)"
  by (simp_all add: pending_def [abs_def] batch_ok_def settled_def)

lemma all_tables:
  assumes "batch_ok b" shows "t \<in> (\<lambda>i. ins_name (b_insertions b ! i)) ` set [0..<10]"
proof -
  have "t \<in> set (map ins_name (b_insertions b))"
    using batch_ok_names [OF assms] publicationTables_props(3) by simp
  then show ?thesis using batch_ok_length [OF assms] by (auto simp: in_set_conv_nth)
qed

text \<open>Flushing succeeds with exactly the database in which the pending rows are settled.\<close>

lemma flush_eq:
  assumes ok: "batch_ok b"
  shows "bindE (flush (b, db)) (\<lambda>(b', db'). Inr db') = settled (b, db)"
    and "flush (b, db) = Inr (b', db') \<Longrightarrow> batch_ok b' \<and> (\<forall>t. pending b' t = []) \<and> settled (b, db) = Inr db'"
proof -
  have l: "length (b_insertions b) = 10" and sub: "set [0..<10] \<subseteq> {..<10}" using batch_ok_length [OF ok] by auto
  have clear: "batch_ok b1 \<and> pending b1 = (\<lambda>_. [])" if "foldE flushInsertion [0..<10] (b, db) = Inr (b1, db1)" for b1 db1
    using foldE_flushInsertion(2) [OF ok sub that] all_tables [OF ok] by (auto simp: fun_eq_iff)
  then have "bindE (foldE flushInsertion [0..<10] (b, db)) settled = bindE (foldE flushInsertion [0..<10] (b, db)) (\<lambda>(b, db). Inr db)"
    by (intro bindE_cong) (auto simp: settled_def settle_empty)
  with foldE_flushInsertion(1) [OF ok sub] show one: "bindE (flush (b, db)) (\<lambda>(b', db'). Inr db') = settled (b, db)"
    by (simp add: flush_def l bindE_assoc case_prod_unfold)
  assume "flush (b, db) = Inr (b', db')"
  moreover from this one have "settled (b, db) = Inr db'" by simp
  ultimately show "batch_ok b' \<and> (\<forall>t. pending b' t = []) \<and> settled (b, db) = Inr db'"
    using clear by (auto simp: flush_def l)
qed

text \<open>The rows a list of indexed groups brings for a table.\<close>

definition entry_rows :: "(nat \<times> vrow list) list \<Rightarrow> ctable \<Rightarrow> vrow list" where
  "entry_rows es t = concat (map snd (filter (\<lambda>(i, _). snd (publicationTables ! i) = t) es))"

definition entry_ok :: "nat \<times> vrow list \<Rightarrow> bool" where
  "entry_ok e \<longleftrightarrow> fst e < 10 \<and>
     (\<forall>r \<in> set (snd e). length (row_cells r) = table_width (snd (publicationTables ! fst e)))"

lemma batch_ok_name_nth: "batch_ok b \<Longrightarrow> i < 10 \<Longrightarrow> ins_name (b_insertions b ! i) = snd (publicationTables ! i)"
  using batch_ok_names [of b] batch_ok_length [of b] publicationTables_props(1) by (metis nth_map)

lemma appendRows_props:
  assumes "batch_ok b" "entry_ok (i, rows)"
  shows "batch_ok (appendRows i rows b)"
    "pending (appendRows i rows b) = (\<lambda>t. pending b t @ entry_rows [(i, rows)] t)"
proof -
  have i: "i < 10" and w: "\<forall>r \<in> set rows. length (row_cells r) = table_width (ins_name (b_insertions b ! i))"
    using assms by (auto simp: entry_ok_def batch_ok_name_nth)
  show "batch_ok (appendRows i rows b)"
    unfolding appendRows_def Let_def
    by (rule batch_ok_update [OF assms(1) i]) (use w batch_ok_insertion(2) [OF assms(1) i] in auto)
  show "pending (appendRows i rows b) = (\<lambda>t. pending b t @ entry_rows [(i, rows)] t)"
    unfolding appendRows_def Let_def pending_update [OF assms(1) i]
    using pending_nth [OF assms(1) i] batch_ok_name_nth [OF assms(1) i] by (auto simp: entry_rows_def fun_eq_iff)
qed

lemma addGroup_props:
  assumes ok: "batch_ok b" "entry_ok e"
  shows "bindE (addGroup e (b, db)) settled = settle (\<lambda>t. pending b t @ entry_rows [e] t) db"
    and "addGroup e (b, db) = Inr (b', db') \<Longrightarrow> batch_ok b' \<and> (\<forall>t. set (pending b' t) \<subseteq> set (pending b t) \<union> set (entry_rows [e] t))"
proof -
  obtain i rows where e: "e = (i, rows)" by (cases e)
  note a = appendRows_props [OF ok(1) ok(2) [unfolded e]]
  have i: "i < 10" using ok e by (simp add: entry_ok_def)
  show "bindE (addGroup e (b, db)) settled = settle (\<lambda>t. pending b t @ entry_rows [e] t) db"
    using flushInsertion_settled [OF a(1) i] a(2) by (simp add: addGroup_def e Let_def settled_def)
  show "addGroup e (b, db) = Inr (b', db') \<Longrightarrow> batch_ok b' \<and> (\<forall>t. set (pending b' t) \<subseteq> set (pending b t) \<union> set (entry_rows [e] t))"
    using flushInsertion_Inr [OF a(1) i] cleared_props(1,2) [OF a(1) i] a
    by (fastforce simp: addGroup_def e Let_def split: if_splits)
qed

lemma entry_rows_Cons: "entry_rows (e # es) t = entry_rows [e] t @ entry_rows es t"
  by (simp add: entry_rows_def)

lemma addGroups_props:
  assumes "batch_ok b" "\<forall>e \<in> set es. entry_ok e"
  shows "bindE (foldE addGroup es (b, db)) settled = settle (\<lambda>t. pending b t @ entry_rows es t) db"
    and "foldE addGroup es (b, db) = Inr (b', db') \<Longrightarrow> batch_ok b' \<and> (\<forall>t. set (pending b' t) \<subseteq> set (pending b t) \<union> set (entry_rows es t))"
proof -
  have "bindE (foldE addGroup es (b, db)) settled = settle (\<lambda>t. pending b t @ entry_rows es t) db \<and>
    (foldE addGroup es (b, db) = Inr (b', db') \<longrightarrow> batch_ok b' \<and> (\<forall>t. set (pending b' t) \<subseteq> set (pending b t) \<union> set (entry_rows es t)))"
    using assms
  proof (induction es arbitrary: b db)
    case Nil
    then show ?case by (auto simp: entry_rows_def settled_def)
  next
    case (Cons e es)
    then have e: "entry_ok e" and es: "\<forall>e \<in> set es. entry_ok e" by auto
    note p = addGroup_props [OF Cons.prems(1) e]
    have "bindE (foldE addGroup (e # es) (b, db)) settled =
        bindE (addGroup e (b, db)) (\<lambda>s. bindE (settled s) (settle (entry_rows es)))"
    proof -
      have "bindE (foldE addGroup es s) settled = bindE (settled s) (settle (entry_rows es))"
        if "addGroup e (b, db) = Inr s" for s
        using Cons.IH [OF _ es, of "fst s" "snd s"] p(2) [of db "fst s" "snd s"] that
        by (simp add: settled_def [abs_def] settle_append)
      then show ?thesis by (simp add: bindE_assoc cong: bindE_cong)
    qed
    also have "\<dots> = bindE (settle (\<lambda>t. pending b t @ entry_rows [e] t) db) (settle (entry_rows es))"
      by (simp only: bindE_assoc [symmetric] p(1))
    also have "\<dots> = settle (\<lambda>t. pending b t @ entry_rows (e # es) t) db"
      by (subst settle_append [symmetric]) (simp add: entry_rows_Cons [of e es])
    finally show ?case
      using Cons.IH [OF _ es] p(2) by (auto simp: entry_rows_Cons [of e es]) (blast+)
  qed
  then show "bindE (foldE addGroup es (b, db)) settled = settle (\<lambda>t. pending b t @ entry_rows es t) db"
    "foldE addGroup es (b, db) = Inr (b', db') \<Longrightarrow> batch_ok b' \<and> (\<forall>t. set (pending b' t) \<subseteq> set (pending b t) \<union> set (entry_rows es t))"
    by auto
qed

text \<open>The reference writes the same groups.\<close>

lemma foldE_insertTable:
  "\<forall>e \<in> set es. fst e < 10 \<Longrightarrow>
   foldE (\<lambda>((i, t), rows). insertTable i t rows) (map (\<lambda>(i, rows). (publicationTables ! i, rows)) es) db =
     settle (entry_rows es) db"
proof (induction es arbitrary: db)
  case Nil
  then show ?case by (simp add: entry_rows_def [abs_def] settle_empty)
next
  case (Cons e es)
  obtain i rows where e: "e = (i, rows)" by (cases e)
  obtain ign t where t: "publicationTables ! i = (ign, t)" by (cases "publicationTables ! i")
  have "i < 10" using Cons.prems e by simp
  then have ign: "ign = table_orIgnore t"
    using t publicationTables_props(1,4) by (metis nth_mem)
  have "entry_rows [e] = (\<lambda>u. if u = t then rows else [])" by (auto simp: entry_rows_def e t fun_eq_iff)
  then have "insertTable ign t rows db = settle (entry_rows [e]) db"
    using settle_one [OF ign, of "entry_rows [e]" db]
    by (cases "insertTable ign t rows db") (auto simp: settle_empty fun_upd_def if_distrib cong: if_cong)
  moreover have "entry_rows (e # es) = (\<lambda>u. entry_rows [e] u @ entry_rows es u)"
    by (simp add: fun_eq_iff entry_rows_Cons [of e es])
  ultimately show ?case using Cons by (simp add: e t settle_append cong: bindE_cong)
qed

lemma zip_enumerate_tables:
  "length gs = 10 \<Longrightarrow> zip publicationTables gs = map (\<lambda>(i, rows). (publicationTables ! i, rows)) (enumerate 0 gs)"
  by (rule nth_equalityI) (auto simp: publicationTables_props(1) nth_enumerate_eq)

definition prepared_rows :: "preparedContribution \<Rightarrow> ctable \<Rightarrow> vrow list" where
  "prepared_rows p = entry_rows (enumerate 0 (prepared_groups p))"

lemma storeContribution_settle:
  "storeContribution ws v p db = settle (prepared_rows p) (closePrior ws v p db)"
proof -
  have l: "length (prepared_groups p) = 10" by (simp add: prepared_groups_def)
  then have "\<forall>e \<in> set (enumerate 0 (prepared_groups p)). fst e < 10" by (auto simp: in_set_enumerate_eq)
  then show ?thesis
    unfolding storeContribution_def prepared_rows_def zip_enumerate_tables [OF l] by (rule foldE_insertTable)
qed

text \<open>A prepared contribution: rows that fit their tables and belong to its source path.\<close>

definition prepared_ok :: "preparedContribution \<Rightarrow> bool" where
  "prepared_ok p \<longleftrightarrow> (\<forall>e \<in> set (enumerate 0 (prepared_groups p)). entry_ok e) \<and>
     (\<forall>rows \<in> set (prepared_groups p). \<forall>r \<in> set rows. r_path r = c_sourcePath (p_contribution p))"

lemma prepareContribution_ok: "prepared_ok (prepareContribution ws v i c)"
  unfolding prepared_ok_def prepared_groups_def prepareContribution_def
  by (auto simp: Let_def entry_ok_def publicationTables_def row_cells_def evidenceValues_def)

lemma prepareContribution_simps [simp]:
  "p_index (prepareContribution ws v i c) = i" "p_contribution (prepareContribution ws v i c) = c"
  by (simp_all add: prepareContribution_def Let_def)

lemma preparedList_paths: "map (c_sourcePath \<circ> p_contribution) (preparedList ws v cs) = map c_sourcePath cs"
proof -
  have "map (c_sourcePath \<circ> p_contribution) (preparedList ws v cs) = map c_sourcePath (map snd (enumerate 0 cs))"
    by (simp add: preparedList_def case_prod_unfold comp_def del: map_snd_enumerate)
  then show ?thesis by (simp only: map_snd_enumerate)
qed

lemma preparedList_ok: "\<forall>p \<in> set (preparedList ws v cs). prepared_ok p"
  by (auto simp: preparedList_def prepareContribution_ok)

lemma prepared_rows_path:
  assumes "prepared_ok p" "r \<in> set (prepared_rows p t)" shows "r_path r = c_sourcePath (p_contribution p)"
proof -
  from assms(2) obtain i rows where "(i, rows) \<in> set (enumerate 0 (prepared_groups p))" "r \<in> set rows"
    by (auto simp: prepared_rows_def entry_rows_def)
  with assms(1) show ?thesis by (auto simp: prepared_ok_def in_set_enumerate_eq)
qed

lemma settle_closePrior:
  assumes "c_sourcePath (p_contribution p) \<notin> pending_paths b"
  shows "settle (pending b) (closePrior ws v p db) = bindE (settle (pending b) db) (\<lambda>db. Inr (closePrior ws v p db))"
proof (cases "1 < v")
  case True
  have "r_path r \<noteq> c_sourcePath (p_contribution p)" if "r \<in> set (pending b t)" for r t
    using that assms by (metis UNIV_I UN_iff image_eqI pending_paths_def)
  with True show ?thesis unfolding closePrior_def by (simp add: settle_close)
qed (simp add: closePrior_def bindE_def split: sum.split)

text \<open>The part of \<open>addBatch\<close> after a possible early flush.\<close>

definition addRest where
  "addRest ws version prepared rowCount bytes = (\<lambda>(batch, db).
     bindE (foldE addGroup (enumerate 0 (prepared_groups prepared)) (batch, closePrior ws version prepared db))
       (\<lambda>(batch, db).
          let batch' = batch\<lparr>b_rowCount := b_rowCount batch + rowCount,
                            b_estimatedBytes := b_estimatedBytes batch + bytes,
                            b_sourceCount := b_sourceCount batch + 1\<rparr>
          in if full batch' then flush (batch', db) else Inr (batch', db)))"

lemma flush_settled: "batch_ok b \<Longrightarrow> bindE (flush (b, db)) settled = settled (b, db)"
proof -
  assume ok: "batch_ok b"
  have "bindE (flush (b, db)) settled = bindE (flush (b, db)) (\<lambda>(b', db'). Inr db')"
  proof (rule bindE_cong [OF refl], clarify)
    fix b' db' assume "flush (b, db) = Inr (b', db')"
    then have "pending b' = (\<lambda>_. [])" using flush_eq(2) [OF ok] by (auto simp: fun_eq_iff)
    then show "settled (b', db') = Inr db'" by (simp add: settled_def settle_empty)
  qed
  then show ?thesis using flush_eq(1) [OF ok] by simp
qed

lemma flush_paths: "batch_ok b \<Longrightarrow> flush (b, db) = Inr (b', db') \<Longrightarrow> batch_ok b' \<and> pending_paths b' = {}"
  using flush_eq(2) by (auto simp: pending_paths_def)

lemma pending_paths_counts [simp]:
  "pending_paths (b\<lparr>b_rowCount := x, b_estimatedBytes := y, b_sourceCount := z\<rparr>) = pending_paths b"
  by (simp add: pending_paths_def)

lemma addRest_settled:
  assumes ok: "batch_ok b" "prepared_ok p" "c_sourcePath (p_contribution p) \<notin> pending_paths b"
  shows "bindE (addRest ws v p n m (b, db)) settled = bindE (settled (b, db)) (storeContribution ws v p)"
    and "addRest ws v p n m (b, db) = Inr (b', db') \<Longrightarrow> batch_ok b' \<and>
      pending_paths b' \<subseteq> insert (c_sourcePath (p_contribution p)) (pending_paths b)"
proof -
  let ?es = "enumerate 0 (prepared_groups p)"
  have es: "\<forall>e \<in> set ?es. entry_ok e" using ok(2) by (simp add: prepared_ok_def)
  note g = addGroups_props [OF ok(1) es, folded prepared_rows_def]
  have "bindE (addRest ws v p n m (b, db)) settled = bindE (foldE addGroup ?es (b, closePrior ws v p db)) settled"
    unfolding addRest_def prod.case bindE_assoc
  proof (rule bindE_cong [OF refl], clarify)
    fix b1 db1 assume "foldE addGroup ?es (b, closePrior ws v p db) = Inr (b1, db1)"
    then have "batch_ok b1" using g(2) by blast
    then show "bindE (let b' = b1\<lparr>b_rowCount := b_rowCount b1 + n, b_estimatedBytes := b_estimatedBytes b1 + m,
          b_sourceCount := b_sourceCount b1 + 1\<rparr> in if full b' then flush (b', db1) else Inr (b', db1)) settled = settled (b1, db1)"
      by (simp add: Let_def flush_settled)
  qed
  also have "\<dots> = bindE (settle (pending b) (closePrior ws v p db)) (settle (prepared_rows p))"
    by (simp add: g(1) settle_append)
  also have "\<dots> = bindE (settled (b, db)) (storeContribution ws v p)"
    by (simp add: settle_closePrior [OF ok(3)] bindE_assoc settled_def storeContribution_settle cong: bindE_cong)
  finally show "bindE (addRest ws v p n m (b, db)) settled = bindE (settled (b, db)) (storeContribution ws v p)" .
  assume run: "addRest ws v p n m (b, db) = Inr (b', db')"
  then obtain b1 db1 where run1: "foldE addGroup ?es (b, closePrior ws v p db) = Inr (b1, db1)"
    and run2: "(let b' = b1\<lparr>b_rowCount := b_rowCount b1 + n, b_estimatedBytes := b_estimatedBytes b1 + m,
          b_sourceCount := b_sourceCount b1 + 1\<rparr> in if full b' then flush (b', db1) else Inr (b', db1)) = Inr (b', db')"
    by (auto simp: addRest_def)
  have "batch_ok b1" and "\<forall>t. set (pending b1 t) \<subseteq> set (pending b t) \<union> set (prepared_rows p t)"
    using g(2) [OF run1] by auto
  then have "pending_paths b1 \<subseteq> insert (c_sourcePath (p_contribution p)) (pending_paths b)"
    using prepared_rows_path [OF ok(2)] by (fastforce simp: pending_paths_def)
  with run2 \<open>batch_ok b1\<close> show "batch_ok b' \<and> pending_paths b' \<subseteq> insert (c_sourcePath (p_contribution p)) (pending_paths b)"
    by (auto simp: Let_def split: if_splits dest: flush_paths [rotated])
qed

lemma addBatch_settled:
  assumes ok: "batch_ok b" "prepared_ok p" "c_sourcePath (p_contribution p) \<notin> pending_paths b"
  shows "bindE (addBatch ws v p (b, db)) settled = bindE (settled (b, db)) (storeContribution ws v p)"
    and "addBatch ws v p (b, db) = Inr (b', db') \<Longrightarrow> batch_ok b' \<and>
      pending_paths b' \<subseteq> insert (c_sourcePath (p_contribution p)) (pending_paths b)"
proof -
  define n m where "n = sum_list (map length (prepared_groups p))"
    and "m = estimateContributionRowsBytes (map (map row_cells) (prepared_groups p))"
  have add: "addBatch ws v p (b, db) =
      bindE (if overflows b n m then flush (b, db) else Inr (b, db)) (addRest ws v p n m)"
    by (simp add: addBatch_def Let_def addRest_def n_def m_def)
  have after: "batch_ok b1 \<and> pending_paths b1 = {} \<and> settled (b1, db1) = Inr db1 \<and> settled (b, db) = Inr db1"
    if "flush (b, db) = Inr (b1, db1)" for b1 db1
  proof -
    have "pending b1 = (\<lambda>_. [])" using flush_eq(2) [OF ok(1) that] by (auto simp: fun_eq_iff)
    then show ?thesis using flush_eq(2) [OF ok(1) that] flush_paths [OF ok(1) that]
      by (simp add: settled_def settle_empty)
  qed
  have "bindE (flush (b, db)) (\<lambda>s. bindE (addRest ws v p n m s) settled) = bindE (flush (b, db)) (\<lambda>s. bindE (settled s) (storeContribution ws v p))"
    by (rule bindE_cong) (use after addRest_settled(1) [OF _ ok(2)] in auto)
  also have "\<dots> = bindE (settled (b, db)) (storeContribution ws v p)"
    by (simp only: bindE_assoc [symmetric] flush_settled [OF ok(1)])
  finally show "bindE (addBatch ws v p (b, db)) settled = bindE (settled (b, db)) (storeContribution ws v p)"
    by (simp add: add bindE_assoc addRest_settled(1) [OF ok])
  show "addBatch ws v p (b, db) = Inr (b', db') \<Longrightarrow> batch_ok b' \<and>
      pending_paths b' \<subseteq> insert (c_sourcePath (p_contribution p)) (pending_paths b)"
    using addRest_settled(2) [OF ok] addRest_settled(2) [OF _ ok(2)] after
    by (fastforce simp: add split: if_splits)
qed

lemma disjoint_insert_subset: "A \<subseteq> insert x B \<Longrightarrow> x \<notin> C \<Longrightarrow> B \<inter> C = {} \<Longrightarrow> A \<inter> C = {}"
  by blast

lemma addBatches_settled:
  assumes "batch_ok b" "\<forall>p \<in> set ps. prepared_ok p" "distinct (map (c_sourcePath \<circ> p_contribution) ps)"
    "pending_paths b \<inter> (c_sourcePath \<circ> p_contribution) ` set ps = {}"
  shows "bindE (bindE (foldE (addBatch ws v) ps (b, db)) flush) (\<lambda>(_, db'). Inr db') =
    bindE (settled (b, db)) (foldE (storeContribution ws v) ps)"
  using assms
proof (induction ps arbitrary: b db)
  case Nil
  then show ?case using flush_eq(1) [of b db] by (simp add: bindE_def split: sum.splits)
next
  case (Cons p ps)
  have ok: "prepared_ok p" "c_sourcePath (p_contribution p) \<notin> pending_paths b"
    using Cons.prems by auto
  note add = addBatch_settled [OF Cons.prems(1) ok]
  have "bindE (bindE (foldE (addBatch ws v) (p # ps) (b, db)) flush) (\<lambda>(_, db'). Inr db') =
      bindE (addBatch ws v p (b, db)) (\<lambda>s. bindE (settled s) (foldE (storeContribution ws v) ps))"
    unfolding foldE.simps bindE_assoc
  proof (rule bindE_cong [OF refl], clarify)
    fix b1 db1 assume "addBatch ws v p (b, db) = Inr (b1, db1)"
    then have "batch_ok b1" "pending_paths b1 \<subseteq> insert (c_sourcePath (p_contribution p)) (pending_paths b)"
      using add(2) by auto
    moreover from this have "pending_paths b1 \<inter> (c_sourcePath \<circ> p_contribution) ` set ps = {}"
      using disjoint_insert_subset [of "pending_paths b1" "c_sourcePath (p_contribution p)" "pending_paths b"]
        Cons.prems(3,4) by simp
    ultimately show "bindE (foldE (addBatch ws v) ps (b1, db1)) (\<lambda>s. bindE (flush s) (\<lambda>(_, db'). Inr db')) =
        bindE (settled (b1, db1)) (foldE (storeContribution ws v) ps)"
      using Cons.IH [of b1 db1] Cons.prems(2,3) by (simp add: bindE_assoc)
  qed
  also have "\<dots> = bindE (bindE (addBatch ws v p (b, db)) settled) (foldE (storeContribution ws v) ps)"
    by (simp only: bindE_assoc)
  also have "\<dots> = bindE (settled (b, db)) (foldE (storeContribution ws v) (p # ps))"
    by (simp only: add(1) bindE_assoc) (rule bindE_cong, simp_all)
  finally show ?case .
qed

lemma newPublicationBatch_ok:
  assumes "16 \<le> variableLimit"
  shows "batch_ok (newPublicationBatch variableLimit limits)"
    "pending (newPublicationBatch variableLimit limits) = (\<lambda>_. [])"
proof -
  show "batch_ok (newPublicationBatch variableLimit limits)"
    using assms by (auto simp: batch_ok_def newPublicationBatch_def comp_def case_prod_unfold)
  show "pending (newPublicationBatch variableLimit limits) = (\<lambda>_. [])"
    by (rule ext, auto simp: pending_def newPublicationBatch_def split: option.splits dest!: find_SomeD)
qed

lemma batches_equal_reference:
  assumes "16 \<le> variableLimit" "\<forall>p \<in> set ps. prepared_ok p" "distinct (map (c_sourcePath \<circ> p_contribution) ps)"
  shows "bindE (bindE (foldE (addBatch ws v) ps (newPublicationBatch variableLimit limits, db)) flush) (\<lambda>(_, db'). Inr db') =
    foldE (storeContribution ws v) ps db"
  using addBatches_settled [OF newPublicationBatch_ok(1) [OF assms(1)] assms(2,3)] newPublicationBatch_ok(2) [OF assms(1)]
  by (simp add: pending_paths_def settled_def settle_empty)

section \<open>Workspace facts: buffering is invisible\<close>

definition too_large :: "factBatchLimits \<Rightarrow> cell list \<Rightarrow> bool" where
  "too_large limits cells \<longleftrightarrow> fl_maximumBytes limits > 0 \<and> row_bytes cells > fl_maximumBytes limits"

lemma estimateRowsBytes_one [simp]: "estimateRowsBytes [r] = row_bytes r"
  by (simp add: estimateRowsBytes_def estimateContributionRowsBytes_def)

lemma bufferRows_eq:
  fixes exec :: "'r list \<Rightarrow> database \<Rightarrow> storage_error + database"
  assumes exec: "\<And>xs ys db. exec (xs @ ys) db = bindE (exec xs db) (exec ys)"
      "\<And>xs db. \<exists>db'. exec xs db = Inr db'" "\<And>db. exec [] db = Inr db"
    and width: "\<And>r. length (cells r) = w" "0 < w" "int w \<le> variableLimit"
  shows "bindE (foldE (bufferRow variableLimit limits cells exec) rows (buffer, bytes, db))
      (\<lambda>(rest, _, db'). if rest \<noteq> [] then insertRows variableLimit (int maximumBatchRows) cells exec rest db' else Inr db') =
    (if \<exists>r \<in> set rows. too_large limits (cells r) then Inl FactTooLarge else exec (buffer @ rows) db)"
proof (induction rows arbitrary: buffer bytes db)
  case Nil
  have "insertRows variableLimit (int maximumBatchRows) cells exec buffer db = exec buffer db"
    by (rule insertRows_exec [where w = w]) (use exec width in \<open>auto simp: maximumBatchRows_def\<close>)
  then show ?case using exec(3) by auto
next
  case (Cons r rows)
  show ?case
  proof (cases "too_large limits (cells r)")
    case True
    then show ?thesis by (auto simp: bufferRow_def too_large_def)
  next
    case False
    have ins: "insertRows variableLimit (int maximumBatchRows) cells exec buffer db = exec buffer db"
      by (rule insertRows_exec [where w = w]) (use exec width in \<open>auto simp: maximumBatchRows_def\<close>)
    obtain db1 where db1: "exec buffer db = Inr db1" using exec(2) by blast
    obtain buffer' bytes' db' where step: "bufferRow variableLimit limits cells exec r (buffer, bytes, db) =
          Inr (buffer' @ [r], bytes', db')"
      and same: "\<And>zs. exec (buffer' @ zs) db' = exec (buffer @ zs) db"
    proof (cases "buffer \<noteq> [] \<and> (fl_maximumRows limits > 0 \<and> length buffer \<ge> fl_maximumRows limits \<or>
          fl_maximumBytes limits > 0 \<and> bytes + row_bytes (cells r) > fl_maximumBytes limits)")
      case True
      show ?thesis
        by (rule that [of "[]" "row_bytes (cells r)" db1])
          (use True False ins db1 in \<open>auto simp: bufferRow_def too_large_def exec(1)\<close>)
    next
      case F2: False
      show ?thesis
        by (rule that [of buffer "bytes + row_bytes (cells r)" db])
          (use F2 False in \<open>auto simp: bufferRow_def too_large_def\<close>)
    qed
    show ?thesis using False Cons.IH same [of "r # rows"] by (simp add: step)
  qed
qed

lemma insertWorkspaceNodes_props:
  "insertWorkspaceNodes (xs @ ys) db = bindE (insertWorkspaceNodes xs db) (insertWorkspaceNodes ys)"
  "\<exists>db'. insertWorkspaceNodes xs db = Inr db'" "insertWorkspaceNodes [] db = Inr db"
  by (simp_all add: insertWorkspaceNodes_def insertAll_append bindE_assoc insertAll_ignore)

lemma insertWorkspaceEdges_props:
  "insertWorkspaceEdges (xs @ ys) db = bindE (insertWorkspaceEdges xs db) (insertWorkspaceEdges ys)"
  "\<exists>db'. insertWorkspaceEdges xs db = Inr db'" "insertWorkspaceEdges [] db = Inr db"
  by (simp_all add: insertWorkspaceEdges_def insertAll_append bindE_assoc insertAll_ignore)

lemma storeWorkspaceFacts_eq:
  assumes "15 \<le> variableLimit"
  shows "storeWorkspaceFacts variableLimit limits ws v facts db =
    (if (\<exists>n \<in> set (f_Nodes facts). too_large limits (wnode_cells \<lparr>wn_ws = ws, wn_version = v, wn_node = n\<rparr>)) \<or>
        (\<exists>e \<in> set (factEdgeRows ws v facts). too_large limits (wedge_cells e))
     then Inl FactTooLarge
     else Inr (db\<lparr>db_nodes := db_nodes db @ fresh_rows wnode_key (factNodeRows ws v facts) (wnode_key ` set (db_nodes db)),
                 db_edges := db_edges db @ fresh_rows wedge_key (factEdgeRows ws v facts) (wedge_key ` set (db_edges db))\<rparr>))"
proof -
  have n: "storeFactRows variableLimit limits wnode_cells insertWorkspaceNodes rows db =
      (if \<exists>r \<in> set rows. too_large limits (wnode_cells r) then Inl FactTooLarge else insertWorkspaceNodes rows db)" for rows db
    unfolding storeFactRows_def
    using bufferRows_eq [of insertWorkspaceNodes wnode_cells 15 variableLimit limits rows "[]" 0 db] assms
      insertWorkspaceNodes_props
    by (simp add: wnode_cells_def evidenceValues_def)
  have e: "storeFactRows variableLimit limits wedge_cells insertWorkspaceEdges rows db =
      (if \<exists>r \<in> set rows. too_large limits (wedge_cells r) then Inl FactTooLarge else insertWorkspaceEdges rows db)" for rows db
    unfolding storeFactRows_def
    using bufferRows_eq [of insertWorkspaceEdges wedge_cells 15 variableLimit limits rows "[]" 0 db] assms
      insertWorkspaceEdges_props
    by (simp add: wedge_cells_def evidenceValues_def)
  have nrows: "(\<exists>r \<in> set (factNodeRows ws v facts). P r) \<longleftrightarrow>
      (\<exists>n \<in> set (f_Nodes facts). P \<lparr>wn_ws = ws, wn_version = v, wn_node = n\<rparr>)" for P
    by (simp add: factNodeRows_def)
  show ?thesis
    unfolding storeWorkspaceFacts_def n nrows
    by (simp add: e insertWorkspaceNodes_def insertWorkspaceEdges_def insertAll_ignore [abs_def])
qed

section \<open>Properties\<close>

text \<open>A chunked insert splits the rows into consecutive statements that together carry exactly
  the given rows, each with at least one row, no more than the row maximum, and no more bound
  parameters than SQLite's variable limit; it fails before any statement exactly if not even one
  row fits.\<close>

theorem insertRows_statements:
  assumes "rows \<noteq> []" "0 < w" "\<forall>r \<in> set rows. length (cells r) = w" "1 \<le> maximumRows"
  shows "\<exists>stmts. insertRows variableLimit maximumRows cells (\<lambda>chunk log. Inr (log @ [chunk])) rows [] =
      (if variableLimit < int w then Inl VariableLimitTooSmall else Inr stmts) \<and>
    (int w \<le> variableLimit \<longrightarrow> concat stmts = rows \<and>
      (\<forall>c \<in> set stmts. c \<noteq> [] \<and> int (length c) \<le> maximumRows \<and> int (length c * w) \<le> variableLimit))"
proof (cases "variableLimit < int w")
  case True
  then have "variableLimit div int w < 1" using assms(2) pos_imp_zdiv_pos_iff [of "int w" variableLimit] by simp
  moreover have "length (cells (hd rows)) = w" using assms(1,3) by simp
  ultimately show ?thesis using True assms by (auto simp: insertRows_def Let_def)
next
  case False
  define n where "n = nat (min (variableLimit div int w) maximumRows)"
  have div: "1 \<le> variableLimit div int w" using False assms(2) by (simp add: pos_imp_zdiv_pos_iff int_one_le_iff_zero_less)
  then have n: "0 < n" using assms(4) by (simp add: n_def)
  have hd: "length (cells (hd rows)) = w" using assms(1,3) by simp
  have fits: "list_all (\<lambda>r. length (cells r) = w) c" if "c \<in> set (chunks n rows)" for c
  proof -
    from that have "set c \<subseteq> set (concat (chunks n rows))" by auto
    with n assms(3) show ?thesis by (auto simp: concat_chunks list_all_iff)
  qed
  have log: "foldE (\<lambda>chunk log. if list_all (\<lambda>r. length (cells r) = w) chunk then Inr (log @ [chunk]) else Inl RowWidth) cs l = Inr (l @ cs)"
    if "\<forall>c \<in> set cs. list_all (\<lambda>r. length (cells r) = w) c" for cs l
    using that by (induction cs arbitrary: l) auto
  have "insertRows variableLimit maximumRows cells (\<lambda>chunk log. Inr (log @ [chunk])) rows [] = Inr (chunks n rows)"
    using assms(1,2,4) hd div log [of "chunks n rows" "[]"] fits by (simp add: insertRows_def Let_def n_def)
  moreover have "int (length c) \<le> maximumRows \<and> int (length c * w) \<le> variableLimit" if "c \<in> set (chunks n rows)" for c
  proof -
    have c: "int (length c) \<le> variableLimit div int w" "int (length c) \<le> maximumRows"
      using chunks_bounds [OF that] div assms(4) by (auto simp: n_def)
    then have "int (length c) * int w \<le> (variableLimit div int w) * int w" by (simp add: mult_right_mono)
    also have "\<dots> \<le> variableLimit" using False assms(2) by (simp add: div_mult_mod_eq minus_mod_eq_div_mult [symmetric])
    finally show ?thesis using c by simp
  qed
  ultimately show ?thesis using False n chunks_bounds by (intro exI [of _ "chunks n rows"]) (auto simp: concat_chunks)
qed

theorem insertRows_statements_witness:
  "\<exists>stmts. insertRows 9 500 (\<lambda>x. replicate 4 (CString x)) (\<lambda>chunk log. Inr (log @ [chunk])) [''a'', ''b'', ''c''] [] = Inr stmts \<and>
     concat stmts = [''a'', ''b'', ''c''] \<and> list_all (\<lambda>c. int (length c * 4) \<le> 9) stmts"
  using insertRows_statements [of "[''a'', ''b'', ''c'']" 4 "\<lambda>x. replicate 4 (CString x)" 500 9]
  by (auto simp: list_all_iff)

text \<open>C4. Batching is invisible: for every batch limit, adding the prepared contributions of distinct
  source paths to a publication batch and flushing it has the same outcome, error or resulting
  database, as storing one contribution after the other with one statement per table.\<close>

theorem publicationBatch_refines_sequential:
  assumes "16 \<le> variableLimit" "distinct (map c_sourcePath cs)"
  shows "bindE (bindE (foldE (addBatch ws v) (preparedList ws v cs)
        (newPublicationBatch variableLimit limits, db)) flush) (\<lambda>(_, db'). Inr db') =
    foldE (storeContribution ws v) (preparedList ws v cs) db"
  by (rule batches_equal_reference [OF assms(1)]) (use assms(2) in \<open>simp_all add: preparedList_paths preparedList_ok\<close>)

definition emptyContribution :: "str \<Rightarrow> Contribution" where
  "emptyContribution p =
     \<lparr>c_projectID = ''p'', c_sourcePath = p, c_metadata = \<lparr>md_Name = ''go'', md_Version = ''1'', md_Extensions = [''.go'']\<rparr>,
      c_facts = \<lparr>f_Nodes = [], f_Edges = []\<rparr>, c_unresolvedReferences = [], c_symbolReferences = [],
      c_exportedSurfaces = [], c_dependencies = [], c_diagnostics = []\<rparr>"

theorem publicationBatch_refines_sequential_witness:
  "bindE (bindE (foldE (addBatch ''w'' 1) (preparedList ''w'' 1 [emptyContribution ''a'', emptyContribution ''b''])
        (newPublicationBatch 16 \<lparr>bl_maximumRows = 2, bl_maximumBytes = 0, bl_maximumSources = 0\<rparr>, emptyDatabase)) flush) (\<lambda>(_, db'). Inr db') =
    foldE (storeContribution ''w'' 1) (preparedList ''w'' 1 [emptyContribution ''a'', emptyContribution ''b'']) emptyDatabase"
  by (rule publicationBatch_refines_sequential) (simp_all add: emptyContribution_def)

text \<open>Workspace facts are stored whole or not at all: the write fails exactly if one row alone
  exceeds the byte limit; otherwise the new rows, the first of each key, follow the old ones,
  whatever the row and byte limits of the buffer are.\<close>

theorem storeWorkspaceFacts_outcome:
  assumes "15 \<le> variableLimit"
  shows "storeWorkspaceFacts variableLimit limits ws v facts db =
    (if (\<exists>n \<in> set (factNodeRows ws v facts). too_large limits (wnode_cells n)) \<or>
        (\<exists>e \<in> set (factEdgeRows ws v facts). too_large limits (wedge_cells e))
     then Inl FactTooLarge
     else Inr (db\<lparr>db_nodes := db_nodes db @ fresh_rows wnode_key (factNodeRows ws v facts) (wnode_key ` set (db_nodes db)),
                 db_edges := db_edges db @ fresh_rows wedge_key (factEdgeRows ws v facts) (wedge_key ` set (db_edges db))\<rparr>))"
  unfolding storeWorkspaceFacts_eq [OF assms] by (simp add: factNodeRows_def)

theorem storeWorkspaceFacts_outcome_witness:
  "storeWorkspaceFacts 15 \<lparr>fl_maximumRows = 1, fl_maximumBytes = 0\<rparr> ''w'' 1 \<lparr>f_Nodes = [], f_Edges = []\<rparr> emptyDatabase =
     Inr emptyDatabase"
  using storeWorkspaceFacts_outcome [of 15 "\<lparr>fl_maximumRows = 1, fl_maximumBytes = 0\<rparr>" "''w''" 1 "\<lparr>f_Nodes = [], f_Edges = []\<rparr>" emptyDatabase]
  by (simp add: factNodeRows_def factEdgeRows_def emptyDatabase_def)

end
