(* ===== verification/Store_Publish.thy ===== *)
theory Store_Publish
  imports Store_Batch
begin

text \<open>
  Publication, rollback and pruning of graph versions
  (\<^verbatim>\<open>src/storage/sqlite/sqlite.go\<close>). A transaction is a function from the database to an
  error or a new database; on an error the caller keeps the old database, which is what the
  deferred \<^verbatim>\<open>Rollback\<close> of the Go code does. Preparation by concurrent workers is modelled by
  the order in which their results arrive. Contexts are modelled by one flag (cancelled or
  not); errors of the SQLite driver other than constraint violations, progress and timing
  callbacks and the vacuum after a commit are not modelled. Publication times are kept as
  the text that is stored.
\<close>

section \<open>Requests\<close>

record PublishRequest =
  pr_Workspace :: str
  pr_Update :: GraphUpdate
  pr_WorkspaceFacts :: Facts
  pr_ReplacedOwners :: "str list"

record Snapshot =
  sn_Workspace :: str
  sn_Version :: nat
  sn_PublishedAt :: str

text \<open>
  What the store and its surroundings contribute to a publication: SQLite's variable limit,
  the configured byte budget, SQLite's page count and page size, the order in which the
  workers deliver (as a function of the number of contributions), whether the context is
  cancelled, and the clock.
\<close>

record publish_env =
  pe_variableLimit :: int
  pe_maxDatabaseBytes :: int
  pe_pages :: "database \<Rightarrow> int \<times> int"
  pe_schedule :: "nat \<Rightarrow> nat list"
  pe_cancelled :: bool
  pe_now :: str

definition retainedGraphVersions :: nat where
  "retainedGraphVersions = 25"

section \<open>Writing a publication\<close>

text \<open>One statement binds the version, the workspace, the previous version and every replaced owner: SQLite refuses it if it has more
  variables than the limit of the connection.\<close>

definition retainWorkspaceFacts :: "int \<Rightarrow> str \<Rightarrow> nat \<Rightarrow> str list \<Rightarrow> database \<Rightarrow> storage_error + database" where
  "retainWorkspaceFacts variableLimit ws version replacedOwners db =
     (if replacedOwners = [] \<or> version \<le> 1 then Inr db
      else if variableLimit < int (length replacedOwners) + 3 then Inl TooManyVariables
      else bindE (insertAll wedge_key False
             (map (\<lambda>e. e\<lparr>we_version := version\<rparr>)
               (filter (\<lambda>e. we_ws e = ws \<and> we_version e = version - 1 \<and> we_owner e \<notin> set replacedOwners)
                 (db_edges db))) (db_edges db))
           (\<lambda>rows. Inr (db\<lparr>db_edges := rows\<rparr>)))"

text \<open>
  The consumer loop of \<^verbatim>\<open>storePreparedPublication\<close>: results arrive in any order, wait in
  \<open>pend\<close>, and are written in index order as soon as the next index is present.
\<close>

function drain ::
  "(preparedContribution \<Rightarrow> 's \<Rightarrow> 'e + 's) \<Rightarrow> nat \<Rightarrow> (nat \<times> preparedContribution) list \<Rightarrow> 's \<Rightarrow>
     'e option \<times> nat \<times> (nat \<times> preparedContribution) list \<times> 's" where
  "drain add nextIndex pend s =
     (case map_of pend nextIndex of
        None \<Rightarrow> (None, nextIndex, pend, s)
      | Some contribution \<Rightarrow>
          (let pend' = filter (\<lambda>(i, _). i \<noteq> nextIndex) pend in
           case add contribution s of
             Inl e \<Rightarrow> (Some e, nextIndex, pend', s)
           | Inr s' \<Rightarrow> drain add (Suc nextIndex) pend' s'))"
  by pat_completeness auto
termination
  by (relation "measure (\<lambda>(_, _, pend, _). length pend)") (auto dest!: map_of_SomeD intro!: length_filter_less)

declare drain.simps [simp del]

definition consumeResult ::
  "(preparedContribution \<Rightarrow> 's \<Rightarrow> 'e + 's) \<Rightarrow> 'e + preparedContribution \<Rightarrow>
     'e option \<times> nat \<times> (nat \<times> preparedContribution) list \<times> 's \<Rightarrow>
     'e option \<times> nat \<times> (nat \<times> preparedContribution) list \<times> 's" where
  "consumeResult add result state =
     (case state of (preparationErr, nextIndex, pend, s) \<Rightarrow>
       (case result of
          Inl e \<Rightarrow> (Some e, nextIndex, pend, s)
        | Inr prepared \<Rightarrow>
            if preparationErr \<noteq> None then state
            else drain add nextIndex ((p_index prepared, prepared) # pend) s))"

definition storePreparedPublication ::
  "publish_env \<Rightarrow> str \<Rightarrow> nat \<Rightarrow> Facts \<Rightarrow> str list \<Rightarrow> Contribution list \<Rightarrow> database \<Rightarrow> storage_error + database" where
  "storePreparedPublication env ws version workspaceFacts replacedOwners contributions db =
     bindE (retainWorkspaceFacts (pe_variableLimit env) ws version replacedOwners db) (\<lambda>db.
     bindE (storeWorkspaceFacts (pe_variableLimit env) \<lparr>fl_maximumRows = maximumBatchRows, fl_maximumBytes = 0\<rparr>
              ws version workspaceFacts db) (\<lambda>db.
     let arrivals = map (\<lambda>i. Inr (prepareContribution ws version i (contributions ! i)))
                      (pe_schedule env (length contributions)) in
     case fold (consumeResult (addBatch ws version)) arrivals
            (None, 0, [], (newPublicationBatch (pe_variableLimit env) noLimits, db)) of
       (preparationErr, nextIndex, _, state) \<Rightarrow>
         (case preparationErr of
            Some e \<Rightarrow> Inl e
          | None \<Rightarrow>
              if pe_cancelled env then Inl Cancelled
              else if nextIndex \<noteq> length contributions then Inl IncompletePreparation
              else bindE (flush state) (\<lambda>(_, db'). Inr db'))))"

definition ensureDatabaseBudget :: "publish_env \<Rightarrow> database \<Rightarrow> storage_error + unit" where
  "ensureDatabaseBudget env db =
     (case pe_pages env db of (pageCount, pageSize) \<Rightarrow>
        if pageCount > pe_maxDatabaseBytes env div pageSize then Inl BudgetExceeded else Inr ())"

definition version_key :: "version_row \<Rightarrow> str \<times> nat" where
  "version_key g = (gv_ws g, gv_version g)"

definition version_cells :: "version_row \<Rightarrow> cell list" where
  "version_cells g = [CString (gv_ws g), COther, CString (gv_published g)]"

definition recordVersion :: "publish_env \<Rightarrow> str \<Rightarrow> nat \<Rightarrow> database \<Rightarrow> storage_error + database" where
  "recordVersion env ws version db =
     insertRows (pe_variableLimit env) (int maximumBatchRows) version_cells
       (\<lambda>rows db. bindE (insertAll version_key False rows (db_versions db)) (\<lambda>vs. Inr (db\<lparr>db_versions := vs\<rparr>)))
       [\<lparr>gv_ws = ws, gv_version = version, gv_published = pe_now env\<rparr>] db"

section \<open>Pruning\<close>

definition pruneVersions :: "str \<Rightarrow> nat \<Rightarrow> database \<Rightarrow> storage_error + nat \<times> database" where
  "pruneVersions ws retainedVersion db =
     (if retainedVersion \<notin> set (workspace_versions db ws) then Inl GraphVersionNotFound
      else let prunedVersions = length (filter (\<lambda>v. v < retainedVersion) (workspace_versions db ws)) in
        bindE (rebaseContributions ws retainedVersion db) (\<lambda>db.
          let db = deleteContributionRecords ws (\<lambda>v. v < retainedVersion) db;
              db = db\<lparr>db_nodes := filter (\<lambda>n. \<not> (wn_ws n = ws \<and> wn_version n < retainedVersion)) (db_nodes db)\<rparr>;
              db = db\<lparr>db_edges := filter (\<lambda>e. \<not> (we_ws e = ws \<and> we_version e < retainedVersion)) (db_edges db)\<rparr>;
              db = db\<lparr>db_versions := filter (\<lambda>g. \<not> (gv_ws g = ws \<and> gv_version g < retainedVersion)) (db_versions db)\<rparr>
          in Inr (prunedVersions, db)))"

definition Prune :: "str \<Rightarrow> nat \<Rightarrow> database \<Rightarrow> storage_error + nat \<times> database" where
  "Prune ws beforeVersion db =
     (if ws = [] \<or> beforeVersion = 0 then Inl InvalidRequest else pruneVersions ws beforeVersion db)"

text \<open>The retention that ends every publication and every session commit.\<close>

definition pruneRetained :: "str \<Rightarrow> nat \<Rightarrow> database \<Rightarrow> storage_error + database" where
  "pruneRetained ws version db =
     (if version > retainedGraphVersions
      then bindE (pruneVersions ws (version - retainedGraphVersions + 1) db) (\<lambda>(_, db'). Inr db')
      else Inr db)"

section \<open>Publication\<close>

definition publishRequest :: "publish_env \<Rightarrow> PublishRequest \<Rightarrow> database \<Rightarrow> storage_error + Snapshot \<times> database" where
  "publishRequest env request db =
     (let ws = pr_Workspace request in
      bindE (encodeContributions (pr_Update request)) (\<lambda>contributions.
      let version = currentVersion db ws + 1 in
      bindE (recordVersion env ws version db) (\<lambda>db.
      bindE (storePreparedPublication env ws version (pr_WorkspaceFacts request) (pr_ReplacedOwners request)
               contributions db) (\<lambda>db.
      bindE (pruneRetained ws version db) (\<lambda>db.
      bindE (ensureDatabaseBudget env db) (\<lambda>_.
      Inr (\<lparr>sn_Workspace = ws, sn_Version = version, sn_PublishedAt = pe_now env\<rparr>, db)))))))"

text \<open>
  \<^verbatim>\<open>publish\<close> with its optional stage callback. The callback reads through the stager inside the
  transaction; the stager's own temporary table is dropped before the publication continues.
\<close>

definition publish ::
  "publish_env \<Rightarrow> (Snapshot \<Rightarrow> database \<Rightarrow> storage_error + PublishRequest) option \<Rightarrow> PublishRequest \<Rightarrow> database \<Rightarrow>
     storage_error + Snapshot \<times> database" where
  "publish env stage request db =
     (if pr_Workspace request = [] then Inl InvalidRequest
      else (case stage of
              None \<Rightarrow> publishRequest env request db
            | Some f \<Rightarrow>
                bindE (f \<lparr>sn_Workspace = pr_Workspace request, sn_Version = currentVersion db (pr_Workspace request),
                          sn_PublishedAt = []\<rparr> db)
                  (\<lambda>stagedRequest.
                     if pr_Workspace stagedRequest \<noteq> pr_Workspace request then Inl InvalidRequest
                     else publishRequest env stagedRequest db)))"

definition Publish :: "publish_env \<Rightarrow> PublishRequest \<Rightarrow> database \<Rightarrow> storage_error + Snapshot \<times> database" where
  "Publish env request db = publish env None request db"

definition PublishStaged ::
  "publish_env \<Rightarrow> PublishRequest \<Rightarrow> (Snapshot \<Rightarrow> database \<Rightarrow> storage_error + PublishRequest) option \<Rightarrow> database \<Rightarrow>
     storage_error + Snapshot \<times> database" where
  "PublishStaged env request stage db =
     (case stage of None \<Rightarrow> Inl InvalidRequest | Some f \<Rightarrow> publish env (Some f) request db)"

section \<open>Rollback\<close>

definition publicationTime :: "database \<Rightarrow> str \<Rightarrow> nat \<Rightarrow> str option" where
  "publicationTime db ws version =
     map_option gv_published (find (\<lambda>g. gv_ws g = ws \<and> gv_version g = version) (db_versions db))"

definition Rollback :: "str \<Rightarrow> nat \<Rightarrow> database \<Rightarrow> storage_error + Snapshot \<times> database" where
  "Rollback ws version db =
     (if ws = [] then Inl InvalidRequest
      else (case publicationTime db ws version of
              None \<Rightarrow> Inl GraphVersionNotFound
            | Some publishedAt \<Rightarrow>
                let db = deleteContributionRecords ws (\<lambda>v. v > version) db;
                    db = db\<lparr>db_nodes := filter (\<lambda>n. \<not> (wn_ws n = ws \<and> wn_version n > version)) (db_nodes db)\<rparr>;
                    db = db\<lparr>db_edges := filter (\<lambda>e. \<not> (we_ws e = ws \<and> we_version e > version)) (db_edges db)\<rparr>;
                    db = reopenContributionRecords ws version db;
                    db = db\<lparr>db_versions := filter (\<lambda>g. \<not> (gv_ws g = ws \<and> gv_version g > version)) (db_versions db)\<rparr>
                in Inr (\<lparr>sn_Workspace = ws, sn_Version = version, sn_PublishedAt = publishedAt\<rparr>, db)))"

section \<open>Opening snapshots\<close>

definition graphVersionWasPruned :: "database \<Rightarrow> str \<Rightarrow> nat \<Rightarrow> bool" where
  "graphVersionWasPruned db ws version =
     (case workspace_versions db ws of
        [] \<Rightarrow> False
      | v # vs \<Rightarrow> version > 0 \<and> version < foldr min vs v)"

definition OpenSnapshot :: "str \<Rightarrow> nat option \<Rightarrow> database \<Rightarrow> storage_error + Snapshot" where
  "OpenSnapshot ws requested db =
     (if ws = [] then Inl InvalidRequest
      else (case requested of
              None \<Rightarrow>
                (case publicationTime db ws (currentVersion db ws) of
                   None \<Rightarrow> Inl WorkspaceNotFound
                 | Some t \<Rightarrow> Inr \<lparr>sn_Workspace = ws, sn_Version = currentVersion db ws, sn_PublishedAt = t\<rparr>)
            | Some version \<Rightarrow>
                (case publicationTime db ws version of
                   None \<Rightarrow> if graphVersionWasPruned db ws version then Inl GraphVersionPruned
                           else Inl GraphVersionNotFound
                 | Some t \<Rightarrow> Inr \<lparr>sn_Workspace = ws, sn_Version = version, sn_PublishedAt = t\<rparr>)))"

section \<open>Arrival order\<close>

text \<open>The state of the consumer after the results with indices in \<open>S\<close> have arrived.\<close>

definition consumed ::
  "(preparedContribution \<Rightarrow> 's \<Rightarrow> 'e + 's) \<Rightarrow> preparedContribution list \<Rightarrow> 's \<Rightarrow> nat set \<Rightarrow>
     'e option \<times> nat \<times> (nat \<times> preparedContribution) list \<times> 's \<Rightarrow> bool" where
  "consumed add ps s0 S state \<longleftrightarrow>
     (case state of (err, k, pend, s) \<Rightarrow>
       (case err of
          None \<Rightarrow> {..<k} \<subseteq> S \<and> k \<notin> S \<and> foldE add (take k ps) s0 = Inr s \<and>
                  (\<forall>i. map_of pend i = (if i \<in> S \<and> k \<le> i then Some (ps ! i) else None))
        | Some e \<Rightarrow> foldE add ps s0 = Inl e))"

lemma map_of_filter_key: "map_of (filter (\<lambda>(i, _). i \<noteq> k) xs) j = (if j = k then None else map_of xs j)"
  by (induction xs) auto

lemma drain_consumed:
  assumes "S \<subseteq> {..<length ps}" "{..<k} \<subseteq> S" "foldE add (take k ps) s0 = Inr s"
    "\<forall>i. map_of pend i = (if i \<in> S \<and> k \<le> i then Some (ps ! i) else None)"
  shows "consumed add ps s0 S (drain add k pend s)"
  using assms
proof (induction add k pend s rule: drain.induct)
  case (1 add k pend s)
  show ?case
  proof (cases "k \<in> S")
    case False
    with "1.prems" have "drain add k pend s = (None, k, pend, s)" by (subst drain.simps) simp
    with False "1.prems" show ?thesis by (simp add: consumed_def)
  next
    case True
    let ?pend' = "filter (\<lambda>(i, _). i \<noteq> k) pend"
    have k: "k < length ps" and pk: "map_of pend k = Some (ps ! k)" using True "1.prems" by auto
    have take: "foldE add (take (Suc k) ps) s0 = add (ps ! k) s"
      using k "1.prems"(3) by (cases "add (ps ! k) s") (simp_all add: take_Suc_conv_app_nth foldE_append)
    show ?thesis
    proof (cases "add (ps ! k) s")
      case (Inl e)
      have "foldE add (take (Suc k) ps @ drop (Suc k) ps) s0 = Inl e"
        using take Inl by (simp only: foldE_append bindE_simps)
      then have "foldE add ps s0 = Inl e" by simp
      with Inl pk show ?thesis by (subst drain.simps) (simp add: consumed_def)
    next
      case (Inr s')
      have "consumed add ps s0 S (drain add (Suc k) ?pend' s')"
      proof (rule "1.IH" [OF pk refl Inr "1.prems"(1)])
        show "{..<Suc k} \<subseteq> S" using "1.prems"(2) True by (auto simp: lessThan_Suc)
        show "foldE add (take (Suc k) ps) s0 = Inr s'" using take Inr by simp
        show "\<forall>i. map_of ?pend' i = (if i \<in> S \<and> Suc k \<le> i then Some (ps ! i) else None)"
          using "1.prems"(4) by (auto simp: map_of_filter_key)
      qed
      with Inr pk show ?thesis by (subst drain.simps) simp
    qed
  qed
qed

lemma consumeResult_consumed:
  assumes "consumed add ps s0 S state" "S \<subseteq> {..<length ps}" "i < length ps" "i \<notin> S" "p_index (ps ! i) = i"
  shows "consumed add ps s0 (insert i S) (consumeResult add (Inr (ps ! i)) state)"
proof -
  obtain err k pend s where st: "state = (err, k, pend, s)" by (cases state) auto
  show ?thesis
  proof (cases err)
    case None
    have S: "{..<k} \<subseteq> S" "k \<notin> S" "foldE add (take k ps) s0 = Inr s"
        "\<forall>j. map_of pend j = (if j \<in> S \<and> k \<le> j then Some (ps ! j) else None)"
      using assms(1) st None by (auto simp: consumed_def)
    have "k \<le> i" using S(1) assms(4) by (meson lessThan_iff not_le subsetD)
    then have "consumed add ps s0 (insert i S) (drain add k ((i, ps ! i) # pend) s)"
      using S assms by (intro drain_consumed) auto
    then show ?thesis using st None assms(5) by (simp add: consumeResult_def)
  next
    case (Some e)
    then show ?thesis using assms(1) st by (simp add: consumeResult_def consumed_def)
  qed
qed

lemma consume_all:
  assumes "\<forall>i < length ps. p_index (ps ! i) = i" "distinct idx" "set idx \<subseteq> {..<length ps}"
    "consumed add ps s0 S state" "S \<subseteq> {..<length ps}" "set idx \<inter> S = {}"
  shows "consumed add ps s0 (S \<union> set idx) (fold (consumeResult add) (map (\<lambda>i. Inr (ps ! i)) idx) state)"
  using assms
proof (induction idx arbitrary: S state)
  case (Cons i idx)
  have "consumed add ps s0 (insert i S) (consumeResult add (Inr (ps ! i)) state)"
    using Cons.prems by (intro consumeResult_consumed) auto
  then have "consumed add ps s0 (insert i S \<union> set idx)
      (fold (consumeResult add) (map (\<lambda>i. Inr (ps ! i)) idx) (consumeResult add (Inr (ps ! i)) state))"
    using Cons.prems by (intro Cons.IH) auto
  then show ?case by simp
qed simp

text \<open>Whatever the order of arrival, the contributions are written in the order of the update.\<close>

lemma consume_permutation:
  assumes "\<forall>i < length ps. p_index (ps ! i) = i" "distinct idx" "set idx = {..<length ps}"
  shows "(case fold (consumeResult add) (map (\<lambda>i. Inr (ps ! i)) idx) (None, 0, [], s0) of
      (err, k, _, s) \<Rightarrow> (case err of Some e \<Rightarrow> Inl e | None \<Rightarrow> if k \<noteq> length ps then Inl e' else Inr s)) =
    foldE add ps s0"
proof -
  have "consumed add ps s0 {} (None, 0, [], s0)" by (simp add: consumed_def)
  with assms have "consumed add ps s0 ({} \<union> set idx) (fold (consumeResult add) (map (\<lambda>i. Inr (ps ! i)) idx) (None, 0, [], s0))"
    by (intro consume_all) auto
  then have c: "consumed add ps s0 {..<length ps} (fold (consumeResult add) (map (\<lambda>i. Inr (ps ! i)) idx) (None, 0, [], s0))"
    using assms(3) by simp
  obtain err k pend s where st: "fold (consumeResult add) (map (\<lambda>i. Inr (ps ! i)) idx) (None, 0, [], s0) = (err, k, pend, s)"
    by (metis prod_cases4)
  show ?thesis
  proof (cases err)
    case None
    with c st have "{..<k} \<subseteq> {..<length ps}" "\<not> k < length ps" "foldE add (take k ps) s0 = Inr s"
      by (auto simp: consumed_def)
    then have "k = length ps" by auto
    with None st \<open>foldE add (take k ps) s0 = Inr s\<close> show ?thesis by simp
  qed (use c st in \<open>simp add: consumed_def\<close>)
qed

lemma preparedList_nth: "i < length cs \<Longrightarrow> preparedList ws v cs ! i = prepareContribution ws v i (cs ! i)"
  by (simp add: preparedList_def nth_enumerate_eq)

lemma length_preparedList [simp]: "length (preparedList ws v cs) = length cs"
  by (simp add: preparedList_def)

lemma storePreparedPublication_eq:
  assumes "\<not> pe_cancelled env" "16 \<le> pe_variableLimit env" "distinct (map c_sourcePath cs)"
    "distinct (pe_schedule env (length cs))" "set (pe_schedule env (length cs)) = {..<length cs}"
  shows "storePreparedPublication env ws v facts owners cs db =
    bindE (retainWorkspaceFacts (pe_variableLimit env) ws v owners db) (\<lambda>db.
    bindE (storeWorkspaceFacts (pe_variableLimit env) \<lparr>fl_maximumRows = maximumBatchRows, fl_maximumBytes = 0\<rparr> ws v facts db)
      (foldE (storeContribution ws v) (preparedList ws v cs)))"
proof -
  let ?ps = "preparedList ws v cs"
  have idx: "\<forall>i < length ?ps. p_index (?ps ! i) = i" by (simp add: preparedList_nth)
  have arr: "map (\<lambda>i. Inr (prepareContribution ws v i (cs ! i))) (pe_schedule env (length cs)) =
      map (\<lambda>i. Inr (?ps ! i)) (pe_schedule env (length cs))"
    using assms(5) by (auto simp: preparedList_nth)
  have run: "(case fold (consumeResult (addBatch ws v)) (map (\<lambda>i. Inr (?ps ! i)) (pe_schedule env (length cs))) (None, 0, [], s0) of
      (err, k, _, s) \<Rightarrow> (case err of Some e \<Rightarrow> Inl e | None \<Rightarrow> if pe_cancelled env then Inl Cancelled
         else if k \<noteq> length cs then Inl IncompletePreparation else f s)) = bindE (foldE (addBatch ws v) ?ps s0) f"
    for s0 and f :: "publicationBatch \<times> database \<Rightarrow> storage_error + database"
  proof -
    obtain err k pend s where st: "fold (consumeResult (addBatch ws v)) (map (\<lambda>i. Inr (?ps ! i)) (pe_schedule env (length cs)))
        (None, 0, [], s0) = (err, k, pend, s)" by (metis prod_cases4)
    have "set (pe_schedule env (length cs)) = {..<length ?ps}" using assms(5) by simp
    note perm = consume_permutation [OF idx assms(4) this, where add = "addBatch ws v" and ?s0.0 = s0 and e' = IncompletePreparation]
    show ?thesis
    proof (cases err)
      case None
      with perm st have "foldE (addBatch ws v) ?ps s0 = (if k \<noteq> length cs then Inl IncompletePreparation else Inr s)" by simp
      with None st assms(1) show ?thesis by simp
    next
      case (Some e)
      with perm st have "foldE (addBatch ws v) ?ps s0 = Inl e" by simp
      with Some st show ?thesis by simp
    qed
  qed
  have ref: "bindE (foldE (addBatch ws v) ?ps (newPublicationBatch (pe_variableLimit env) noLimits, db))
      (\<lambda>s. bindE (flush s) (\<lambda>(_, db'). Inr db')) = foldE (storeContribution ws v) ?ps db" for db
    using batches_equal_reference [OF assms(2) preparedList_ok, of ws v cs ws v noLimits db] assms(3)
    by (simp add: preparedList_paths bindE_assoc)
  show ?thesis
    unfolding storePreparedPublication_def Let_def arr run ref ..
qed

lemma storePreparedPublication_not_cancelled:
  "storePreparedPublication env ws v facts owners cs db = Inr db' \<Longrightarrow> \<not> pe_cancelled env"
  by (auto simp: storePreparedPublication_def Let_def case_prod_unfold split: option.splits if_splits)

end
