(* ===== verification/Store_History.thy ===== *)
theory Store_History
  imports Store_Publish
begin

text \<open>
  The history of a workspace: the well-formedness of the store's tables, what a reader of
  a version sees (\<open>contents\<close> of a table, and the workspace facts), and how publication,
  pruning and rollback change both. Publication never changes what an earlier version
  shows, pruning changes nothing from its boundary on, and rollback makes an earlier version current
  again.
\<close>

section \<open>What a version shows\<close>

definition contents :: "database \<Rightarrow> ctable \<Rightarrow> str \<Rightarrow> nat \<Rightarrow> (str \<times> payload) list" where
  "contents db t ws v = map (\<lambda>r. (r_path r, r_payload r)) (visible_rows db t ws v)"

definition nodes_at :: "database \<Rightarrow> str \<Rightarrow> nat \<Rightarrow> Node list" where
  "nodes_at db ws v = map wn_node (filter (\<lambda>n. wn_ws n = ws \<and> wn_version n = v) (db_nodes db))"

definition edges_at :: "database \<Rightarrow> str \<Rightarrow> nat \<Rightarrow> (Edge \<times> str) list" where
  "edges_at db ws v = map (\<lambda>e. (we_edge e, we_owner e)) (filter (\<lambda>e. we_ws e = ws \<and> we_version e = v) (db_edges db))"

text \<open>Everything a reader can see of a version.\<close>

definition same_view :: "database \<Rightarrow> database \<Rightarrow> str \<Rightarrow> nat \<Rightarrow> bool" where
  "same_view db db' ws v \<longleftrightarrow> (\<forall>t. contents db' t ws v = contents db t ws v) \<and>
     nodes_at db' ws v = nodes_at db ws v \<and> edges_at db' ws v = edges_at db ws v"

section \<open>The invariant\<close>

definition same_slot :: "vrow \<Rightarrow> vrow \<Rightarrow> bool" where
  "same_slot r r' \<longleftrightarrow> r_ws r = r_ws r' \<and> r_path r = r_path r' \<and> payload_key (r_payload r) = payload_key (r_payload r')"

text \<open>No two rows of one slot are visible in one version.\<close>

definition overlap_free :: "vrow list \<Rightarrow> bool" where
  "overlap_free rows \<longleftrightarrow> (\<forall>r \<in> set rows. \<forall>r' \<in> set rows. \<forall>v.
     same_slot r r' \<longrightarrow> visible v r \<longrightarrow> visible v r' \<longrightarrow> r = r')"

text \<open>Closed rows end before the current version \<open>cur\<close>, so the open rows are the current ones.\<close>

definition interval_ok :: "(str \<Rightarrow> nat) \<Rightarrow> vrow \<Rightarrow> bool" where
  "interval_ok cur r \<longleftrightarrow> 1 \<le> r_from r \<and> r_from r \<le> cur (r_ws r) \<and>
     (case r_to r of None \<Rightarrow> True | Some u \<Rightarrow> r_from r \<le> u \<and> u < cur (r_ws r))"

definition table_ok :: "(str \<Rightarrow> nat) \<Rightarrow> vrow list \<Rightarrow> bool" where
  "table_ok cur rows \<longleftrightarrow> (\<forall>r \<in> set rows. interval_ok cur r) \<and> distinct (map row_key rows) \<and> overlap_free rows"

definition wf_db :: "database \<Rightarrow> bool" where
  "wf_db db \<longleftrightarrow>
     (\<forall>t. table_ok (currentVersion db) (db_tables db t)) \<and>
     (\<forall>n \<in> set (db_nodes db). wn_version n \<le> currentVersion db (wn_ws n)) \<and> distinct (map wnode_key (db_nodes db)) \<and>
     (\<forall>e \<in> set (db_edges db). we_version e \<le> currentVersion db (we_ws e)) \<and> distinct (map wedge_key (db_edges db)) \<and>
     distinct (map version_key (db_versions db)) \<and> (\<forall>g \<in> set (db_versions db). 1 \<le> gv_version g)"

lemma wf_db_table: "wf_db db \<Longrightarrow> table_ok (currentVersion db) (db_tables db t)"
  by (simp add: wf_db_def)

lemma wf_emptyDatabase: "wf_db emptyDatabase"
  by (simp add: wf_db_def emptyDatabase_def table_ok_def overlap_free_def)

lemma wf_version_positive: "wf_db db \<Longrightarrow> v \<in> set (workspace_versions db ws) \<Longrightarrow> 1 \<le> v"
  by (auto simp: wf_db_def workspace_versions_def)

lemma wf_current_exists:
  assumes "wf_db db" "workspace_versions db ws \<noteq> []"
  shows "currentVersion db ws \<in> set (workspace_versions db ws)"
proof -
  obtain v where "v \<in> set (workspace_versions db ws)" using assms(2) by (cases "workspace_versions db ws") auto
  with wf_version_positive [OF assms(1) this] currentVersion_le [OF this]
  have "0 < currentVersion db ws" by linarith
  with assms(2) show ?thesis by (rule currentVersion_mem)
qed

lemma table_ok_distinct: "table_ok cur rows \<Longrightarrow> distinct rows"
  by (auto simp: table_ok_def distinct_map)

lemma overlap_freeD:
  "overlap_free rows \<Longrightarrow> r \<in> set rows \<Longrightarrow> r' \<in> set rows \<Longrightarrow> same_slot r r' \<Longrightarrow> visible v r \<Longrightarrow> visible v r' \<Longrightarrow> r = r'"
  by (auto simp: overlap_free_def)

lemma interval_ok_visible_from: "interval_ok cur r \<Longrightarrow> visible (r_from r) r"
  by (auto simp: interval_ok_def visible_def split: option.splits)

text \<open>An invariant-preserving rewriting of rows: it keeps slots, makes nothing newly visible
  where two rows could meet, and keeps intervals well formed.\<close>

lemma table_ok_map:
  assumes ok: "table_ok cur rows"
    and slot: "\<And>r. same_slot (f r) r"
    and vis: "\<And>r r' v. r \<in> set rows \<Longrightarrow> r' \<in> set rows \<Longrightarrow> same_slot r r' \<Longrightarrow> visible v (f r) \<Longrightarrow> visible v (f r') \<Longrightarrow>
        \<exists>u. visible u r \<and> visible u r'"
    and int: "\<And>r. r \<in> set rows \<Longrightarrow> interval_ok cur' (f r)"
  shows "table_ok cur' (map f rows)"
proof -
  have same: "r = r'" if "r \<in> set rows" "r' \<in> set rows" "same_slot (f r) (f r')" "visible v (f r)" "visible v (f r')" for r r' v
  proof -
    have "same_slot r r'" using that(3) slot [of r] slot [of r'] by (simp add: same_slot_def)
    from vis [OF that(1,2) this that(4,5)] obtain u where "visible u r" "visible u r'" by blast
    with ok that \<open>same_slot r r'\<close> show ?thesis by (auto simp: table_ok_def intro: overlap_freeD)
  qed
  have "inj_on (row_key \<circ> f) (set rows)"
  proof (rule inj_onI)
    fix r r' assume r: "r \<in> set rows" "r' \<in> set rows" and "(row_key \<circ> f) r = (row_key \<circ> f) r'"
    then have "same_slot (f r) (f r')" "r_from (f r) = r_from (f r')" by (auto simp: row_key_def same_slot_def)
    moreover have "visible (r_from (f r)) (f r)" "visible (r_from (f r')) (f r')"
      using int r by (auto intro: interval_ok_visible_from)
    ultimately show "r = r'" using same [OF r] by metis
  qed
  then have "distinct (map row_key (map f rows))"
    using table_ok_distinct [OF ok] by (simp add: distinct_map)
  moreover have "overlap_free (map f rows)"
    using same by (fastforce simp: overlap_free_def)
  ultimately show ?thesis using int by (auto simp: table_ok_def)
qed

lemma table_ok_filter: "table_ok cur rows \<Longrightarrow> table_ok cur (filter P rows)"
  by (auto simp: table_ok_def overlap_free_def distinct_map_filterI)

lemma table_ok_cur: "table_ok cur rows \<Longrightarrow> (\<And>r. r \<in> set rows \<Longrightarrow> cur' (r_ws r) = cur (r_ws r)) \<Longrightarrow> table_ok cur' rows"
  by (auto simp: table_ok_def interval_ok_def split: option.splits)

lemma visible_rows_ws: "r \<in> set (visible_rows db t ws v) \<Longrightarrow> r_ws r = ws \<and> visible v r \<and> r \<in> set (db_tables db t)"
  by (auto simp: visible_rows_def)

text \<open>A rewriting that keeps workspace, path, payload and visibility keeps the contents.\<close>

lemma contents_map:
  assumes "db_tables db' t = map f (db_tables db t)"
    "\<And>r. r \<in> set (db_tables db t) \<Longrightarrow> r_ws (f r) = r_ws r \<and> r_path (f r) = r_path r \<and> r_payload (f r) = r_payload r"
    "\<And>r. r \<in> set (db_tables db t) \<Longrightarrow> r_ws r = ws \<Longrightarrow> visible v (f r) = visible v r"
  shows "contents db' t ws v = contents db t ws v"
proof -
  have eq: "filter (\<lambda>r. r_ws r = ws \<and> visible v r) (map f (db_tables db t)) =
      map f (filter (\<lambda>r. r_ws r = ws \<and> visible v r) (db_tables db t))"
    unfolding filter_map using assms(2,3) by (intro arg_cong [of _ _ "map f"] filter_cong) auto
  show ?thesis
    unfolding contents_def visible_rows_def assms(1) eq using assms(2) by auto
qed

lemma contents_filter:
  assumes "db_tables db' t = filter P (db_tables db t)"
    "\<And>r. r \<in> set (db_tables db t) \<Longrightarrow> r_ws r = ws \<Longrightarrow> visible v r \<Longrightarrow> P r"
  shows "contents db' t ws v = contents db t ws v"
proof -
  have "filter (\<lambda>r. r_ws r = ws \<and> visible v r) (filter P (db_tables db t)) =
      filter (\<lambda>r. r_ws r = ws \<and> visible v r) (db_tables db t)"
    unfolding filter_filter using assms(2) by (intro filter_cong) auto
  then show ?thesis by (simp add: contents_def visible_rows_def assms(1))
qed

section \<open>Pruning\<close>

definition rebased :: "str \<Rightarrow> nat \<Rightarrow> database \<Rightarrow> database" where
  "rebased ws b db = db\<lparr>db_tables := (\<lambda>t. map (rebaseRow ws b) (db_tables db t))\<rparr>"

definition pruned :: "str \<Rightarrow> nat \<Rightarrow> database \<Rightarrow> database" where
  "pruned ws b db =
     \<lparr>db_tables = (\<lambda>t. filter (\<lambda>r. \<not> (r_ws r = ws \<and> r_from r < b)) (map (rebaseRow ws b) (db_tables db t))),
      db_nodes = filter (\<lambda>n. \<not> (wn_ws n = ws \<and> wn_version n < b)) (db_nodes db),
      db_edges = filter (\<lambda>e. \<not> (we_ws e = ws \<and> we_version e < b)) (db_edges db),
      db_versions = filter (\<lambda>g. \<not> (gv_ws g = ws \<and> gv_version g < b)) (db_versions db),
      db_staged = db_staged db\<rparr>"

lemma rebaseRow_simps [simp]:
  "r_ws (rebaseRow ws b r) = r_ws r" "r_path (rebaseRow ws b r) = r_path r"
  "r_payload (rebaseRow ws b r) = r_payload r" "r_to (rebaseRow ws b r) = r_to r"
  by (auto simp: rebaseRow_def)

lemma rebaseRow_visible: "visible v (rebaseRow ws b r) \<Longrightarrow> visible v r"
  by (auto simp: rebaseRow_def visible_def split: if_splits option.splits)

lemma rebaseRow_visible_iff: "r_ws r \<noteq> ws \<or> b \<le> v \<Longrightarrow> visible v (rebaseRow ws b r) = visible v r"
  by (auto simp: rebaseRow_def visible_def split: option.splits)

lemma rebaseRow_dead:
  "r_ws r = ws \<Longrightarrow> r_from (rebaseRow ws b r) < b \<Longrightarrow> b \<le> v \<Longrightarrow> \<not> visible v (rebaseRow ws b r)"
  by (auto simp: rebaseRow_def visible_def split: if_splits option.splits)

lemma rebaseRow_interval:
  "interval_ok cur r \<Longrightarrow> b \<le> cur ws \<Longrightarrow> 1 \<le> b \<Longrightarrow> interval_ok cur (rebaseRow ws b r)"
  by (auto simp: rebaseRow_def interval_ok_def split: option.splits)

lemma rebase_table_ok:
  assumes "table_ok cur rows" "1 \<le> b" "b \<le> cur ws"
  shows "table_ok cur (map (rebaseRow ws b) rows)"
proof (rule table_ok_map [OF assms(1)])
  show "interval_ok cur (rebaseRow ws b r)" if "r \<in> set rows" for r
    using that assms by (auto simp: table_ok_def intro: rebaseRow_interval)
qed (auto simp: same_slot_def intro: rebaseRow_visible)

lemma foldE_rebaseTable:
  assumes "\<forall>t. distinct (map row_key (map (rebaseRow ws b) (db_tables db t)))" "distinct ts"
  shows "foldE (rebaseTable ws b) ts db =
    Inr (db\<lparr>db_tables := (\<lambda>t. if t \<in> set ts then map (rebaseRow ws b) (db_tables db t) else db_tables db t)\<rparr>)"
  using assms
proof (induction ts arbitrary: db)
  case (Cons t ts)
  let ?db1 = "updateTable (\<lambda>_. map (rebaseRow ws b) (db_tables db t)) t db"
  have idem: "rebaseRow ws b (rebaseRow ws b r) = rebaseRow ws b r" for r by (simp add: rebaseRow_def)
  have "foldE (rebaseTable ws b) ts ?db1 =
      Inr (?db1\<lparr>db_tables := (\<lambda>u. if u \<in> set ts then map (rebaseRow ws b) (db_tables ?db1 u) else db_tables ?db1 u)\<rparr>)"
    by (rule Cons.IH) (use Cons.prems idem in \<open>auto simp: comp_def\<close>)
  moreover have "?db1\<lparr>db_tables := (\<lambda>u. if u \<in> set ts then map (rebaseRow ws b) (db_tables ?db1 u) else db_tables ?db1 u)\<rparr> =
      db\<lparr>db_tables := (\<lambda>u. if u \<in> set (t # ts) then map (rebaseRow ws b) (db_tables db u) else db_tables db u)\<rparr>"
    using Cons.prems(2) by (auto simp: updateTable_def intro!: database.equality)
  moreover have "rebaseTable ws b t db = Inr ?db1" using Cons.prems(1) by (simp add: rebaseTable_def Let_def)
  ultimately show ?case by simp
qed simp

lemma rebaseContributions_ok:
  assumes "wf_db db" "b \<in> set (workspace_versions db ws)"
  shows "rebaseContributions ws b db = Inr (rebased ws b db)"
proof -
  have "table_ok (currentVersion db) (map (rebaseRow ws b) (db_tables db t))" for t
    using assms wf_version_positive currentVersion_le by (intro rebase_table_ok wf_db_table) auto
  then show ?thesis
    unfolding rebaseContributions_def rebased_def
    by (subst foldE_rebaseTable) (auto simp: table_ok_def)
qed

lemma deleteContributionRecords_eq:
  "deleteContributionRecords ws c db = db\<lparr>db_tables := (\<lambda>t. filter (\<lambda>r. \<not> (r_ws r = ws \<and> c (r_from r))) (db_tables db t))\<rparr>"
  unfolding deleteContributionRecords_def by (rule database.equality) (simp_all add: fun_eq_iff)

text \<open>Pruning to a published version of a well-formed store cannot fail.\<close>

lemma pruneVersions_eq:
  assumes "wf_db db" "b \<in> set (workspace_versions db ws)"
  shows "pruneVersions ws b db = Inr (length (filter (\<lambda>v. v < b) (workspace_versions db ws)), pruned ws b db)"
  using assms by (simp add: pruneVersions_def rebaseContributions_ok deleteContributionRecords_eq rebased_def pruned_def)

lemma pruneVersions_missing: "b \<notin> set (workspace_versions db ws) \<Longrightarrow> pruneVersions ws b db = Inl GraphVersionNotFound"
  by (simp add: pruneVersions_def)

lemma foldr_max_filter:
  assumes "b \<in> set vs" shows "foldr max (filter (\<lambda>v. \<not> v < b) vs) (0 :: nat) = foldr max vs 0"
proof -
  have fold: "foldr max xs (0 :: nat) = Max (insert 0 (set xs))" for xs
    by (induction xs) (auto simp: insert_commute)
  let ?A = "insert 0 (set (filter (\<lambda>v. \<not> v < b) vs))"
  have "a \<le> Max ?A" if "a \<in> insert 0 (set vs)" for a
  proof (cases "a < b")
    case True
    have "b \<le> Max ?A" using assms by (intro Max_ge) auto
    with True show ?thesis by simp
  next
    case False
    with that show ?thesis by (intro Max_ge) auto
  qed
  then show ?thesis unfolding fold by (intro antisym Max_mono Max.boundedI) auto
qed

lemma workspace_versions_pruned:
  "workspace_versions (pruned ws b db) ws' =
     (if ws' = ws then filter (\<lambda>v. \<not> v < b) (workspace_versions db ws) else workspace_versions db ws')"
proof -
  have "map gv_version (filter (\<lambda>g. gv_ws g = ws') (filter (\<lambda>g. \<not> (gv_ws g = ws \<and> gv_version g < b)) gs)) =
      (if ws' = ws then filter (\<lambda>v. \<not> v < b) (map gv_version (filter (\<lambda>g. gv_ws g = ws) gs))
       else map gv_version (filter (\<lambda>g. gv_ws g = ws') gs))" for gs
    by (induction gs) auto
  from this [of "db_versions db"] show ?thesis
    unfolding workspace_versions_def pruned_def database.simps .
qed

lemma currentVersion_pruned:
  "b \<in> set (workspace_versions db ws) \<Longrightarrow> currentVersion (pruned ws b db) ws' = currentVersion db ws'"
  by (auto simp: currentVersion_def workspace_versions_pruned foldr_max_filter)

lemma wf_pruned:
  assumes "wf_db db" "b \<in> set (workspace_versions db ws)"
  shows "wf_db (pruned ws b db)"
proof -
  have cur: "currentVersion (pruned ws b db) = currentVersion db"
    using assms(2) by (simp add: fun_eq_iff currentVersion_pruned)
  have "table_ok (currentVersion db) (db_tables (pruned ws b db) t)" for t
    unfolding pruned_def using assms wf_version_positive currentVersion_le
    by (simp, intro table_ok_filter rebase_table_ok wf_db_table) auto
  then show ?thesis
    using assms(1) unfolding wf_db_def cur
    by (auto simp: pruned_def distinct_map_filterI)
qed

lemma same_view_pruned:
  assumes "ws' \<noteq> ws \<or> b \<le> v"
  shows "same_view db (pruned ws b db) ws' v"
proof -
  have "contents (pruned ws b db) t ws' v = contents (rebased ws b db) t ws' v" for t
  proof (rule contents_filter [where P = "\<lambda>r. \<not> (r_ws r = ws \<and> r_from r < b)"])
    show "db_tables (pruned ws b db) t = filter (\<lambda>r. \<not> (r_ws r = ws \<and> r_from r < b)) (db_tables (rebased ws b db) t)"
      by (simp add: pruned_def rebased_def)
    show "\<not> (r_ws r = ws \<and> r_from r < b)" if "r \<in> set (db_tables (rebased ws b db) t)" "r_ws r = ws'" "visible v r" for r
      using that assms rebaseRow_dead by (auto simp: rebased_def)
  qed
  moreover have "contents (rebased ws b db) t ws' v = contents db t ws' v" for t
    by (rule contents_map [where f = "rebaseRow ws b"])
      (use assms in \<open>auto simp: rebased_def rebaseRow_visible_iff\<close>)
  moreover have "nodes_at (pruned ws b db) ws' v = nodes_at db ws' v"
    unfolding nodes_at_def pruned_def database.simps filter_filter
    using assms by (intro arg_cong [of _ _ "map wn_node"] filter_cong) auto
  moreover have "edges_at (pruned ws b db) ws' v = edges_at db ws' v"
    unfolding edges_at_def pruned_def database.simps filter_filter
    using assms by (intro arg_cong [of _ _ "map (\<lambda>e. (we_edge e, we_owner e))"] filter_cong) auto
  ultimately show ?thesis by (simp add: same_view_def)
qed

section \<open>Rollback\<close>

definition reopenRow :: "str \<Rightarrow> nat \<Rightarrow> vrow \<Rightarrow> vrow" where
  "reopenRow ws R r =
     (if r_ws r = ws \<and> (case r_to r of None \<Rightarrow> False | Some t \<Rightarrow> R \<le> t) then r\<lparr>r_to := None\<rparr> else r)"

definition rolledBack :: "str \<Rightarrow> nat \<Rightarrow> database \<Rightarrow> database" where
  "rolledBack ws R db =
     \<lparr>db_tables = (\<lambda>t. map (reopenRow ws R) (filter (\<lambda>r. \<not> (r_ws r = ws \<and> R < r_from r)) (db_tables db t))),
      db_nodes = filter (\<lambda>n. \<not> (wn_ws n = ws \<and> R < wn_version n)) (db_nodes db),
      db_edges = filter (\<lambda>e. \<not> (we_ws e = ws \<and> R < we_version e)) (db_edges db),
      db_versions = filter (\<lambda>g. \<not> (gv_ws g = ws \<and> R < gv_version g)) (db_versions db),
      db_staged = db_staged db\<rparr>"

lemma reopenRow_simps [simp]:
  "r_ws (reopenRow ws R r) = r_ws r" "r_path (reopenRow ws R r) = r_path r"
  "r_payload (reopenRow ws R r) = r_payload r" "r_from (reopenRow ws R r) = r_from r"
  by (auto simp: reopenRow_def)

lemma reopenRow_visible_iff: "r_ws r \<noteq> ws \<or> v \<le> R \<Longrightarrow> visible v (reopenRow ws R r) = visible v r"
  by (auto simp: reopenRow_def visible_def split: option.splits)

lemma reopenRow_visible_min:
  "visible v (reopenRow ws R r) \<Longrightarrow> r_ws r = ws \<Longrightarrow> r_from r \<le> R \<Longrightarrow> visible (min v R) r"
  by (auto simp: reopenRow_def visible_def split: option.splits if_splits)

lemma reopenContributionRecords_eq:
  "reopenContributionRecords ws R db = db\<lparr>db_tables := (\<lambda>t. map (reopenRow ws R) (db_tables db t))\<rparr>"
  unfolding reopenContributionRecords_def reopenRow_def [abs_def] by (rule database.equality) (simp_all add: fun_eq_iff)

lemma publicationTime_None: "publicationTime db ws v = None \<longleftrightarrow> v \<notin> set (workspace_versions db ws)"
  by (auto simp: publicationTime_def workspace_versions_def find_None_iff)

lemma Rollback_eq:
  "Rollback ws R db =
     (if ws = [] then Inl InvalidRequest
      else case publicationTime db ws R of None \<Rightarrow> Inl GraphVersionNotFound
        | Some t \<Rightarrow> Inr (\<lparr>sn_Workspace = ws, sn_Version = R, sn_PublishedAt = t\<rparr>, rolledBack ws R db))"
  by (simp add: Rollback_def Let_def deleteContributionRecords_eq reopenContributionRecords_eq rolledBack_def split: option.splits)

lemma workspace_versions_rolledBack:
  "workspace_versions (rolledBack ws R db) ws' =
     (if ws' = ws then filter (\<lambda>v. v \<le> R) (workspace_versions db ws) else workspace_versions db ws')"
proof -
  have "map gv_version (filter (\<lambda>g. gv_ws g = ws') (filter (\<lambda>g. \<not> (gv_ws g = ws \<and> R < gv_version g)) gs)) =
      (if ws' = ws then filter (\<lambda>v. v \<le> R) (map gv_version (filter (\<lambda>g. gv_ws g = ws) gs))
       else map gv_version (filter (\<lambda>g. gv_ws g = ws') gs))" for gs
    by (induction gs) auto
  from this [of "db_versions db"] show ?thesis
    unfolding workspace_versions_def rolledBack_def database.simps .
qed

lemma currentVersion_rolledBack:
  assumes "R \<in> set (workspace_versions db ws)"
  shows "currentVersion (rolledBack ws R db) = (currentVersion db)(ws := R)"
proof -
  have "foldr max (filter (\<lambda>v. v \<le> R) vs) (0 :: nat) \<le> R" for vs by (induction vs) auto
  moreover have "R \<in> set vs \<Longrightarrow> R \<le> foldr max (filter (\<lambda>v. v \<le> R) vs) (0 :: nat)" for vs
    by (induction vs) (auto simp: max_def)
  ultimately show ?thesis
    using assms by (auto simp: fun_eq_iff currentVersion_def workspace_versions_rolledBack intro: antisym)
qed

lemma rolledBack_table_ok:
  assumes "table_ok cur rows"
  shows "table_ok (cur(ws := R)) (map (reopenRow ws R) (filter (\<lambda>r. \<not> (r_ws r = ws \<and> R < r_from r)) rows))"
proof (rule table_ok_map)
  let ?rows = "filter (\<lambda>r. \<not> (r_ws r = ws \<and> R < r_from r)) rows"
  show "table_ok cur ?rows" using assms by (rule table_ok_filter)
  show "same_slot (reopenRow ws R r) r" for r by (simp add: same_slot_def)
  show "\<exists>u. visible u r \<and> visible u r'"
    if "r \<in> set ?rows" "r' \<in> set ?rows" "same_slot r r'" "visible v (reopenRow ws R r)" "visible v (reopenRow ws R r')" for r r' v
  proof (cases "r_ws r = ws")
    case True
    with that have "visible (min v R) r" "visible (min v R) r'"
      by (auto intro!: reopenRow_visible_min simp: same_slot_def)
    then show ?thesis by blast
  next
    case False
    with that show ?thesis by (auto simp: reopenRow_def same_slot_def)
  qed
  show "interval_ok (cur(ws := R)) (reopenRow ws R r)" if "r \<in> set ?rows" for r
    using that assms by (auto simp: table_ok_def interval_ok_def reopenRow_def split: option.splits)
qed

lemma wf_rolledBack:
  assumes "wf_db db" "R \<in> set (workspace_versions db ws)"
  shows "wf_db (rolledBack ws R db)"
proof -
  have "table_ok ((currentVersion db)(ws := R)) (db_tables (rolledBack ws R db) t)" for t
    using rolledBack_table_ok [OF wf_db_table [OF assms(1)]] by (simp add: rolledBack_def)
  then show ?thesis
    using assms(1) unfolding wf_db_def currentVersion_rolledBack [OF assms(2)]
    by (auto simp: rolledBack_def distinct_map_filterI)
qed

lemma same_view_rolledBack:
  assumes "ws' \<noteq> ws \<or> v \<le> R"
  shows "same_view db (rolledBack ws R db) ws' v"
proof -
  let ?db1 = "db\<lparr>db_tables := \<lambda>t. filter (\<lambda>r. \<not> (r_ws r = ws \<and> R < r_from r)) (db_tables db t)\<rparr>"
  have "contents (rolledBack ws R db) t ws' v = contents ?db1 t ws' v" for t
    by (rule contents_map [where f = "reopenRow ws R"])
      (use assms in \<open>auto simp: rolledBack_def reopenRow_visible_iff\<close>)
  moreover have "contents ?db1 t ws' v = contents db t ws' v" for t
    by (rule contents_filter [where P = "\<lambda>r. \<not> (r_ws r = ws \<and> R < r_from r)"])
      (use assms in \<open>auto simp: visible_def\<close>)
  moreover have "nodes_at (rolledBack ws R db) ws' v = nodes_at db ws' v"
    unfolding nodes_at_def rolledBack_def database.simps filter_filter
    using assms by (intro arg_cong [of _ _ "map wn_node"] filter_cong) auto
  moreover have "edges_at (rolledBack ws R db) ws' v = edges_at db ws' v"
    unfolding edges_at_def rolledBack_def database.simps filter_filter
    using assms by (intro arg_cong [of _ _ "map (\<lambda>e. (we_edge e, we_owner e))"] filter_cong) auto
  ultimately show ?thesis by (simp add: same_view_def)
qed

section \<open>Publication\<close>

definition closedRow :: "str \<Rightarrow> str set \<Rightarrow> nat \<Rightarrow> vrow \<Rightarrow> vrow" where
  "closedRow ws paths u r =
     (if r_ws r = ws \<and> r_path r \<in> paths \<and> r_to r = None then r\<lparr>r_to := Some u\<rparr> else r)"

definition newRows :: "preparedContribution list \<Rightarrow> ctable \<Rightarrow> vrow list" where
  "newRows ps t = concat (map (\<lambda>p. fresh_rows row_key (prepared_rows p t) {}) ps)"

lemma closedRow_simps [simp]:
  "r_ws (closedRow ws P u r) = r_ws r" "r_path (closedRow ws P u r) = r_path r"
  "r_payload (closedRow ws P u r) = r_payload r" "r_from (closedRow ws P u r) = r_from r"
  "row_key (closedRow ws P u r) = row_key r"
  by (auto simp: closedRow_def row_key_def)

lemma closedRow_other: "r_path r \<notin> P \<Longrightarrow> closedRow ws P u r = r"
  by (simp add: closedRow_def)

lemma closedRow_comp: "closedRow ws P u (closedRow ws {p} u r) = closedRow ws (insert p P) u r"
  by (auto simp: closedRow_def)

lemma closeContributionRecords_eq:
  "closeContributionRecords ws p u db = db\<lparr>db_tables := (\<lambda>t. map (closedRow ws {p} u) (db_tables db t))\<rparr>"
  unfolding closeContributionRecords_def closedRow_def [abs_def]
  by (rule database.equality) (simp_all add: fun_eq_iff)

text \<open>The rows of a contribution, by table; of rows with one key the first is stored.\<close>

fun contribution_payloads :: "Contribution \<Rightarrow> ctable \<Rightarrow> payload list" where
  "contribution_payloads c file_contributions =
     [FileRow (c_projectID c) (md_Name (c_metadata c)) (md_Version (c_metadata c))]"
| "contribution_payloads c contribution_nodes = map NodeRow (f_Nodes (c_facts c))"
| "contribution_payloads c contribution_edges = map EdgeRow (f_Edges (c_facts c))"
| "contribution_payloads c contribution_extensions = map ExtensionRow (md_Extensions (c_metadata c))"
| "contribution_payloads c contribution_dependencies = map (DependencyRow \<circ> dep_TargetPath) (c_dependencies c)"
| "contribution_payloads c contribution_exported_surfaces = map SurfaceRow (c_exportedSurfaces c)"
| "contribution_payloads c contribution_diagnostics = map DiagnosticRow (c_diagnostics c)"
| "contribution_payloads c contribution_unresolved_references =
     map (\<lambda>u. UnresolvedRow (ur_SourceID u) (ur_Target u) (ur_Kind u) (ur_Ambiguous u)) (c_unresolvedReferences c)"
| "contribution_payloads c contribution_module_bindings =
     concat (map (\<lambda>u. map (BindingRow (ur_SourceID u) (ur_Target u) (ur_Kind u)) (ur_Bindings u)) (c_unresolvedReferences c))"
| "contribution_payloads c contribution_symbol_references = map SymbolRow (c_symbolReferences c)"

definition stored_payloads :: "Contribution \<Rightarrow> ctable \<Rightarrow> payload list" where
  "stored_payloads c t = fresh_rows payload_key (contribution_payloads c t) {}"

definition open_row :: "str \<Rightarrow> nat \<Rightarrow> str \<Rightarrow> payload \<Rightarrow> vrow" where
  "open_row ws v p payload = \<lparr>r_ws = ws, r_path = p, r_from = v, r_to = None, r_payload = payload\<rparr>"

lemma prepared_rows_prepare:
  "prepared_rows (prepareContribution ws v i c) t = map (open_row ws v (c_sourcePath c)) (contribution_payloads c t)"
  by (cases t)
    (simp_all add: prepared_rows_def entry_rows_def prepared_groups_def prepareContribution_def publicationTables_def
      Let_def map_concat comp_def open_row_def [abs_def])

lemma open_row_simps [simp]:
  "r_ws (open_row ws v p x) = ws" "r_path (open_row ws v p x) = p" "r_from (open_row ws v p x) = v"
  "r_to (open_row ws v p x) = None" "r_payload (open_row ws v p x) = x"
  "row_key (open_row ws v p x) = (ws, p, v, payload_key x)"
  by (simp_all add: open_row_def row_key_def)

lemma fresh_rows_map:
  assumes "\<And>x. key (f x) = g (k x)" "\<And>x y. g x = g y \<longleftrightarrow> x = y"
  shows "fresh_rows key (map f xs) (g ` A) = map f (fresh_rows k xs A)"
proof (induction xs arbitrary: A)
  case (Cons x xs)
  have "g (k x) \<in> g ` A \<longleftrightarrow> k x \<in> A" using assms(2) by auto
  then show ?case using Cons [of A] Cons [of "insert (k x) A"] by (simp add: assms(1))
qed simp

lemma fresh_prepared:
  "fresh_rows row_key (prepared_rows (prepareContribution ws v i c) t) {} =
     map (open_row ws v (c_sourcePath c)) (stored_payloads c t)"
  unfolding prepared_rows_prepare stored_payloads_def
  using fresh_rows_map [of row_key "open_row ws v (c_sourcePath c)" "\<lambda>k. (ws, c_sourcePath c, v, k)" payload_key
      "contribution_payloads c t" "{}"] by simp

definition stored_rows :: "str \<Rightarrow> nat \<Rightarrow> Contribution list \<Rightarrow> ctable \<Rightarrow> vrow list" where
  "stored_rows ws v cs t = concat (map (\<lambda>c. map (open_row ws v (c_sourcePath c)) (stored_payloads c t)) cs)"

text \<open>Storing one contribution closes its prior rows and appends its own.\<close>

lemma storeContribution_eq:
  assumes rows: "\<And>t r. r \<in> set (db_tables db t) \<Longrightarrow> r_ws r = ws \<Longrightarrow> r_path r = c_sourcePath c \<Longrightarrow> 1 \<le> r_from r \<and> r_from r < v"
  shows "storeContribution ws v (prepareContribution ws v i c) db =
    Inr (db\<lparr>db_tables := (\<lambda>t. map (closedRow ws {c_sourcePath c} (v - 1)) (db_tables db t) @ stored_rows ws v [c] t)\<rparr>)"
proof -
  let ?p = "c_sourcePath c"
  have prior: "closePrior ws v (prepareContribution ws v i c) db =
      db\<lparr>db_tables := (\<lambda>t. map (closedRow ws {?p} (v - 1)) (db_tables db t))\<rparr>"
  proof (cases "1 < v")
    case False
    then have "closedRow ws {?p} (v - 1) r = r" if "r \<in> set (db_tables db t)" for t r
      using rows [OF that] by (fastforce simp: closedRow_def)
    then have "map (closedRow ws {?p} (v - 1)) (db_tables db t) = db_tables db t" for t by (simp add: map_idI)
    with False show ?thesis by (simp add: closePrior_def)
  qed (simp add: closePrior_def closeContributionRecords_eq)
  have new: "insertAll row_key (table_orIgnore t) (prepared_rows (prepareContribution ws v i c) t) old =
      Inr (old @ stored_rows ws v [c] t)"
    if old: "old = map (closedRow ws {?p} (v - 1)) (db_tables db t)" for t old
  proof -
    have disj: "row_key ` set (prepared_rows (prepareContribution ws v i c) t) \<inter> row_key ` set old = {}"
      using rows [of _ t] unfolding old by (fastforce simp: prepared_rows_prepare row_key_def)
    show ?thesis
    proof (cases "table_orIgnore t")
      case True
      then show ?thesis
        using fresh_rows_disjoint [OF disj] by (simp add: insertAll_ignore fresh_prepared stored_rows_def)
    next
      case False
      then have "t = file_contributions" by (simp add: table_orIgnore_def)
      with False disj show ?thesis
        by (simp add: insertAll_plain prepared_rows_prepare stored_rows_def stored_payloads_def)
    qed
  qed
  show ?thesis
    unfolding storeContribution_settle prior settle_Inr
    by (intro exI [of _ "\<lambda>t. map (closedRow ws {?p} (v - 1)) (db_tables db t) @ stored_rows ws v [c] t"])
      (simp add: new)
qed

lemma stored_rows_path: "r \<in> set (stored_rows ws v cs t) \<Longrightarrow> r_path r \<in> c_sourcePath ` set cs"
  by (auto simp: stored_rows_def)

lemma storeContributions_eq:
  assumes "distinct (map c_sourcePath cs)"
    "\<And>t r. r \<in> set (db_tables db t) \<Longrightarrow> r_ws r = ws \<Longrightarrow> r_path r \<in> c_sourcePath ` set cs \<Longrightarrow> 1 \<le> r_from r \<and> r_from r < v"
  shows "foldE (storeContribution ws v) (map (\<lambda>(i, c). prepareContribution ws v i c) (enumerate k cs)) db =
    Inr (db\<lparr>db_tables := (\<lambda>t. map (closedRow ws (c_sourcePath ` set cs) (v - 1)) (db_tables db t) @ stored_rows ws v cs t)\<rparr>)"
  using assms
proof (induction cs arbitrary: k db)
  case Nil
  have "closedRow ws {} (v - 1) = id" by (simp add: closedRow_def fun_eq_iff)
  then show ?case by (simp add: stored_rows_def)
next
  case (Cons c cs)
  let ?P = "c_sourcePath ` set cs"
  let ?db1 = "db\<lparr>db_tables := (\<lambda>t. map (closedRow ws {c_sourcePath c} (v - 1)) (db_tables db t) @ stored_rows ws v [c] t)\<rparr>"
  have one: "storeContribution ws v (prepareContribution ws v k c) db = Inr ?db1"
    by (rule storeContribution_eq) (use Cons.prems(2) in auto)
  have fresh: "c_sourcePath c \<notin> ?P" using Cons.prems(1) by simp
  have rest: "foldE (storeContribution ws v) (map (\<lambda>(i, c). prepareContribution ws v i c) (enumerate (Suc k) cs)) ?db1 =
      Inr (?db1\<lparr>db_tables := (\<lambda>t. map (closedRow ws ?P (v - 1)) (db_tables ?db1 t) @ stored_rows ws v cs t)\<rparr>)"
  proof (rule Cons.IH)
    show "distinct (map c_sourcePath cs)" using Cons.prems(1) by simp
    fix t r assume r: "r \<in> set (db_tables ?db1 t)" "r_ws r = ws" "r_path r \<in> ?P"
    have "r \<notin> set (stored_rows ws v [c] t)"
    proof
      assume "r \<in> set (stored_rows ws v [c] t)"
      from stored_rows_path [OF this] have "r_path r = c_sourcePath c" by simp
      with r(3) fresh show False by simp
    qed
    with r(1) obtain r0 where "r0 \<in> set (db_tables db t)" "r = closedRow ws {c_sourcePath c} (v - 1) r0" by auto
    with r(2,3) Cons.prems(2) [of r0 t] show "1 \<le> r_from r \<and> r_from r < v" by simp
  qed
  have "closedRow ws ?P (v - 1) r = r" if "r \<in> set (stored_rows ws v [c] t)" for r t
    using that fresh stored_rows_path [OF that] by (simp add: closedRow_other)
  then have "map (closedRow ws ?P (v - 1)) (stored_rows ws v [c] t) = stored_rows ws v [c] t" for t by (simp add: map_idI)
  moreover have "stored_rows ws v (c # cs) t = stored_rows ws v [c] t @ stored_rows ws v cs t" for t
    by (simp add: stored_rows_def)
  ultimately show ?case using one rest by (simp add: closedRow_comp comp_def)
qed

text \<open>The database after a publication, before pruning.\<close>

definition retained_edges :: "str \<Rightarrow> nat \<Rightarrow> str list \<Rightarrow> wedge list \<Rightarrow> wedge list" where
  "retained_edges ws v owners edges =
     (if owners = [] \<or> v \<le> 1 then []
      else map (\<lambda>e. e\<lparr>we_version := v\<rparr>)
        (filter (\<lambda>e. we_ws e = ws \<and> we_version e = v - 1 \<and> we_owner e \<notin> set owners) edges))"

definition publishedWith :: "str set \<Rightarrow> publish_env \<Rightarrow> PublishRequest \<Rightarrow> database \<Rightarrow> database" where
  "publishedWith P env request db =
     (let ws = pr_Workspace request; v = currentVersion db ws + 1; cs = gu_contributions (pr_Update request);
          edges = db_edges db @ retained_edges ws v (pr_ReplacedOwners request) (db_edges db) in
      \<lparr>db_tables = (\<lambda>t. map (closedRow ws P (v - 1)) (db_tables db t) @ stored_rows ws v cs t),
       db_nodes = db_nodes db @ fresh_rows wnode_key (factNodeRows ws v (pr_WorkspaceFacts request)) {},
       db_edges = edges @ fresh_rows wedge_key (factEdgeRows ws v (pr_WorkspaceFacts request)) (wedge_key ` set edges),
       db_versions = db_versions db @ [\<lparr>gv_ws = ws, gv_version = v, gv_published = pe_now env\<rparr>],
       db_staged = db_staged db\<rparr>)"

text \<open>\<open>P\<close> is the set of source paths whose rows the publication closes: those of the update.\<close>

abbreviation published :: "publish_env \<Rightarrow> PublishRequest \<Rightarrow> database \<Rightarrow> database" where
  "published env request db \<equiv> publishedWith (c_sourcePath ` set (gu_contributions (pr_Update request))) env request db"

definition env_ok :: "publish_env \<Rightarrow> bool" where
  "env_ok env \<longleftrightarrow> 16 \<le> pe_variableLimit env \<and>
     (\<forall>n. distinct (pe_schedule env n) \<and> set (pe_schedule env n) = {..<n})"

lemma encodeContributions_eq:
  "encodeContributions update =
     (if distinct (map c_sourcePath (gu_contributions update)) then Inr (gu_contributions update) else Inl InvalidRequest)"
proof -
  have "foldE (\<lambda>c (encoded, paths). if c_sourcePath c \<in> paths then Inl InvalidRequest
          else Inr (encoded @ [c], insert (c_sourcePath c) paths)) cs (enc, P) =
      (if distinct (map c_sourcePath cs) \<and> c_sourcePath ` set cs \<inter> P = {} then Inr (enc @ cs, P \<union> c_sourcePath ` set cs)
       else Inl InvalidRequest)" for cs enc :: "Contribution list" and P
    by (induction cs arbitrary: enc P) auto
  then show ?thesis by (simp add: encodeContributions_def)
qed

lemma recordVersion_eq:
  assumes "env_ok env"
  shows "recordVersion env ws (currentVersion db ws + 1) db =
    Inr (db\<lparr>db_versions := db_versions db @ [\<lparr>gv_ws = ws, gv_version = currentVersion db ws + 1, gv_published = pe_now env\<rparr>]\<rparr>)"
proof -
  let ?g = "\<lparr>gv_ws = ws, gv_version = currentVersion db ws + 1, gv_published = pe_now env\<rparr>"
  let ?exec = "\<lambda>rows db. bindE (insertAll version_key False rows (db_versions db)) (\<lambda>vs. Inr (db\<lparr>db_versions := vs\<rparr>))"
  have "version_key ?g \<notin> version_key ` set (db_versions db)"
  proof
    assume "version_key ?g \<in> version_key ` set (db_versions db)"
    then have "currentVersion db ws + 1 \<in> set (workspace_versions db ws)"
      by (auto simp: version_key_def workspace_versions_def image_iff)
    from currentVersion_le [OF this] show False by simp
  qed
  moreover have "insertRows (pe_variableLimit env) (int maximumBatchRows) version_cells ?exec [?g] db = ?exec [?g] db"
    using assms
    by (intro insertRows_exec [where w = 3])
      (simp_all add: version_cells_def env_ok_def maximumBatchRows_def insertAll_append bindE_assoc)
  ultimately show ?thesis by (simp add: recordVersion_def insertAll_plain [THEN iffD2] insertAll_def)
qed

text \<open>Whether the statement that retains the edges of the other owners has no more variables than SQLite allows.\<close>

definition ownersFit :: "int \<Rightarrow> nat \<Rightarrow> str list \<Rightarrow> bool" where
  "ownersFit limit v owners \<longleftrightarrow> owners = [] \<or> v \<le> 1 \<or> int (length owners) + 3 \<le> limit"

lemma ownersFit_none [simp]: "ownersFit limit v []"
  by (simp add: ownersFit_def)

lemma retainWorkspaceFacts_eq:
  assumes "distinct (map wedge_key (db_edges db))" "\<forall>e \<in> set (db_edges db). we_ws e = ws \<longrightarrow> we_version e < v"
  shows "retainWorkspaceFacts limit ws v owners db =
    (if ownersFit limit v owners then Inr (db\<lparr>db_edges := db_edges db @ retained_edges ws v owners (db_edges db)\<rparr>)
     else Inl TooManyVariables)"
proof (cases "owners = [] \<or> v \<le> 1")
  case False
  let ?old = "filter (\<lambda>e. we_ws e = ws \<and> we_version e = v - 1 \<and> we_owner e \<notin> set owners) (db_edges db)"
  have d: "distinct (map wedge_key ?old)" using assms(1) by (rule distinct_map_filterI)
  have "inj_on (\<lambda>e. wedge_key (e\<lparr>we_version := v\<rparr>)) (set ?old)"
    using d unfolding inj_on_def distinct_map wedge_key_def by fastforce
  then have "distinct (map wedge_key (map (\<lambda>e. e\<lparr>we_version := v\<rparr>) ?old))"
    using d by (simp add: distinct_map comp_def)
  moreover have "wedge_key ` set (map (\<lambda>e. e\<lparr>we_version := v\<rparr>) ?old) \<inter> wedge_key ` set (db_edges db) = {}"
    using assms(2) by (fastforce simp: wedge_key_def)
  ultimately show ?thesis
    using False by (simp add: retainWorkspaceFacts_def retained_edges_def ownersFit_def insertAll_plain [THEN iffD2])
qed (auto simp: retainWorkspaceFacts_def retained_edges_def ownersFit_def)

lemma noBytes_not_too_large [simp]: "\<not> too_large \<lparr>fl_maximumRows = m, fl_maximumBytes = 0\<rparr> cells"
  by (simp add: too_large_def)

lemma wf_rows_before:
  assumes "wf_db db" "r \<in> set (db_tables db t)" "r_ws r = ws"
  shows "1 \<le> r_from r \<and> r_from r < currentVersion db ws + 1"
  using assms wf_db_table [OF assms(1), of t] by (auto simp: table_ok_def interval_ok_def)

lemma wf_edges_before:
  "wf_db db \<Longrightarrow> e \<in> set (db_edges db) \<Longrightarrow> we_ws e = ws \<Longrightarrow> we_version e < currentVersion db ws + 1"
  by (auto simp: wf_db_def)

lemma wf_nodes_before:
  "wf_db db \<Longrightarrow> n \<in> set (db_nodes db) \<Longrightarrow> wn_ws n = ws \<Longrightarrow> wn_version n < currentVersion db ws + 1"
  by (auto simp: wf_db_def)

lemma fresh_fact_nodes:
  assumes "wf_db db"
  shows "fresh_rows wnode_key (factNodeRows ws (currentVersion db ws + 1) facts) (wnode_key ` set (db_nodes db)) =
    fresh_rows wnode_key (factNodeRows ws (currentVersion db ws + 1) facts) {}"
  using wf_nodes_before [OF assms, of _ ws]
  by (intro fresh_rows_disjoint) (fastforce simp: factNodeRows_def wnode_key_def)

text \<open>The complete outcome of a publication.\<close>

lemma publishRequest_eq:
  fixes request :: PublishRequest
  assumes wf: "wf_db db" and env: "env_ok env" "\<not> pe_cancelled env"
  defines "ws \<equiv> pr_Workspace request"
  defines "v \<equiv> currentVersion db ws + 1"
  shows "publishRequest env request db =
    (if \<not> distinct (map c_sourcePath (gu_contributions (pr_Update request))) then Inl InvalidRequest
     else if \<not> ownersFit (pe_variableLimit env) v (pr_ReplacedOwners request) then Inl TooManyVariables
     else bindE (pruneRetained ws v (published env request db)) (\<lambda>db'.
       bindE (ensureDatabaseBudget env db') (\<lambda>_.
       Inr (\<lparr>sn_Workspace = ws, sn_Version = v, sn_PublishedAt = pe_now env\<rparr>, db'))))"
proof (cases "distinct (map c_sourcePath (gu_contributions (pr_Update request)))")
  case True
  let ?cs = "gu_contributions (pr_Update request)" and ?facts = "pr_WorkspaceFacts request"
  let ?owners = "pr_ReplacedOwners request"
  let ?db1 = "db\<lparr>db_versions := db_versions db @ [\<lparr>gv_ws = ws, gv_version = v, gv_published = pe_now env\<rparr>]\<rparr>"
  let ?db2 = "?db1\<lparr>db_edges := db_edges db @ retained_edges ws v ?owners (db_edges db)\<rparr>"
  have retain: "retainWorkspaceFacts (pe_variableLimit env) ws v ?owners ?db1 =
      (if ownersFit (pe_variableLimit env) v ?owners then Inr ?db2 else Inl TooManyVariables)"
    using wf wf_edges_before [OF wf] by (subst retainWorkspaceFacts_eq) (auto simp: v_def wf_db_def)
  note nodes = fresh_fact_nodes [OF wf, of ws ?facts, folded v_def]
  have prep: "storePreparedPublication env ws v ?facts ?owners ?cs ?db1 =
      (if ownersFit (pe_variableLimit env) v ?owners then Inr (published env request db) else Inl TooManyVariables)"
  proof -
    have "16 \<le> pe_variableLimit env" "distinct (pe_schedule env (length ?cs))" "set (pe_schedule env (length ?cs)) = {..<length ?cs}"
      using env(1) by (auto simp: env_ok_def)
    note sp = storePreparedPublication_eq [OF env(2) this(1) True this(2,3)]
    let ?db3 = "?db2\<lparr>db_nodes := db_nodes db @ fresh_rows wnode_key (factNodeRows ws v ?facts) {},
        db_edges := db_edges ?db2 @ fresh_rows wedge_key (factEdgeRows ws v ?facts) (wedge_key ` set (db_edges ?db2))\<rparr>"
    have "storeWorkspaceFacts (pe_variableLimit env) \<lparr>fl_maximumRows = maximumBatchRows, fl_maximumBytes = 0\<rparr> ws v ?facts ?db2 = Inr ?db3"
      using env(1) by (subst storeWorkspaceFacts_eq) (simp_all add: env_ok_def nodes)
    moreover have "foldE (storeContribution ws v) (preparedList ws v ?cs) ?db3 =
        Inr (?db3\<lparr>db_tables := (\<lambda>t. map (closedRow ws (c_sourcePath ` set ?cs) (v - 1)) (db_tables ?db3 t) @ stored_rows ws v ?cs t)\<rparr>)"
      unfolding preparedList_def
      by (rule storeContributions_eq [OF True]) (use wf_rows_before [OF wf, of _ _ ws] in \<open>simp add: v_def\<close>)
    ultimately show ?thesis
      unfolding sp retain by (simp add: publishedWith_def Let_def v_def ws_def)
  qed
  show ?thesis
    using True recordVersion_eq [OF env(1), of ws] prep
    by (simp add: publishRequest_def Let_def encodeContributions_eq v_def ws_def)
qed (simp add: publishRequest_def Let_def encodeContributions_eq)

lemma workspace_versions_published:
  "workspace_versions (publishedWith P env request db) ws =
     workspace_versions db ws @ (if ws = pr_Workspace request then [currentVersion db ws + 1] else [])"
  by (auto simp: workspace_versions_def publishedWith_def Let_def)

lemma currentVersion_published:
  "currentVersion (publishedWith P env request db) =
     (currentVersion db)(pr_Workspace request := currentVersion db (pr_Workspace request) + 1)"
proof -
  have fold: "foldr max xs (Suc x) = max (foldr max xs 0) (Suc x)" for xs x
    by (induction xs) auto
  show ?thesis by (auto simp: fun_eq_iff currentVersion_def workspace_versions_published fold)
qed

lemma closedRow_visible_iff: "v \<le> u \<or> r_ws r \<noteq> ws \<Longrightarrow> visible v (closedRow ws P u r) = visible v r"
  by (auto simp: closedRow_def visible_def)

lemma visible_stored: "r \<in> set (stored_rows ws v cs t) \<Longrightarrow> r_ws r = ws \<and> r_from r = v \<and> r_to r = None"
  by (auto simp: stored_rows_def)

lemma table_ok_append:
  assumes "table_ok cur xs" "table_ok cur ys"
    "\<And>x y v. x \<in> set xs \<Longrightarrow> y \<in> set ys \<Longrightarrow> same_slot x y \<Longrightarrow> visible v x \<Longrightarrow> visible v y \<Longrightarrow> False"
  shows "table_ok cur (xs @ ys)"
proof -
  have sym: "same_slot y x \<Longrightarrow> same_slot x y" for x y by (simp add: same_slot_def)
  have "row_key x \<noteq> row_key y" if "x \<in> set xs" "y \<in> set ys" for x y
  proof
    assume k: "row_key x = row_key y"
    then have "same_slot x y" "r_from x = r_from y" by (auto simp: row_key_def same_slot_def)
    moreover have "visible (r_from x) x" "visible (r_from y) y"
      using that assms(1,2) by (auto simp: table_ok_def intro: interval_ok_visible_from)
    ultimately show False using assms(3) [OF that] by metis
  qed
  then have "row_key ` set xs \<inter> row_key ` set ys = {}" by blast
  then have "distinct (map row_key (xs @ ys))" using assms(1,2) by (simp add: table_ok_def)
  moreover have "overlap_free (xs @ ys)"
    using assms(1,2) assms(3) sym unfolding table_ok_def overlap_free_def by (simp add: ball_Un) blast
  ultimately show ?thesis using assms(1,2) by (auto simp: table_ok_def)
qed

lemma stored_table_ok:
  assumes "distinct (map c_sourcePath cs)" "1 \<le> v" "cur ws = v"
  shows "table_ok cur (stored_rows ws v cs t)"
  using assms(1)
proof (induction cs)
  case Nil
  then show ?case by (simp add: stored_rows_def table_ok_def overlap_free_def)
next
  case (Cons c cs)
  let ?new = "map (open_row ws v (c_sourcePath c)) (stored_payloads c t)"
  have keys: "distinct (map payload_key (stored_payloads c t))"
    using fresh_rows_keys [of payload_key "contribution_payloads c t" "{}"] by (simp add: stored_payloads_def)
  then have "distinct (map row_key ?new)" by (simp add: distinct_map comp_def inj_on_def)
  moreover have "overlap_free ?new"
    using keys by (auto simp: overlap_free_def same_slot_def dest: distinct_map_eqD [OF keys])
  ultimately have one: "table_ok cur ?new"
    using assms(2,3) by (auto simp: table_ok_def interval_ok_def)
  have "table_ok cur (?new @ stored_rows ws v cs t)"
  proof (rule table_ok_append [OF one])
    show "table_ok cur (stored_rows ws v cs t)" using Cons by simp
    fix x y w assume "x \<in> set ?new" "y \<in> set (stored_rows ws v cs t)" "same_slot x y"
    then show False using Cons.prems stored_rows_path [of y ws v cs t] by (auto simp: same_slot_def)
  qed
  then show ?case by (simp add: stored_rows_def)
qed

lemma closed_table_ok:
  assumes "table_ok cur rows" "cur' = cur(ws := cur ws + 1)"
  shows "table_ok cur' (map (closedRow ws P (cur ws)) rows)"
proof (rule table_ok_map [OF assms(1)])
  show "interval_ok cur' (closedRow ws P (cur ws) r)" if "r \<in> set rows" for r
    using that assms by (auto simp: table_ok_def interval_ok_def closedRow_def split: option.splits)
  show "\<exists>u. visible u r \<and> visible u r'"
    if "visible v (closedRow ws P (cur ws) r)" "visible v (closedRow ws P (cur ws) r')" for r r' v
    using that by (auto simp: closedRow_def visible_def split: if_splits option.splits)
qed (simp add: same_slot_def)

lemma closedRow_dead:
  assumes "interval_ok cur r" "r_ws r = ws" "r_path r \<in> P" "cur ws < v"
  shows "\<not> visible v (closedRow ws P (cur ws) r)"
  using assms by (auto simp: closedRow_def visible_def interval_ok_def split: option.splits)

lemma published_table_ok:
  fixes request :: PublishRequest
  assumes "wf_db db" "distinct (map c_sourcePath (gu_contributions (pr_Update request)))"
    and sub: "c_sourcePath ` set (gu_contributions (pr_Update request)) \<subseteq> P"
  shows "table_ok (currentVersion (publishedWith P env request db)) (db_tables (publishedWith P env request db) t)"
proof -
  let ?ws = "pr_Workspace request" and ?cs = "gu_contributions (pr_Update request)"
  let ?P = P and ?M = "currentVersion db (pr_Workspace request)"
  let ?cur = "(currentVersion db)(?ws := ?M + 1)"
  have "table_ok ?cur (map (closedRow ?ws ?P ?M) (db_tables db t) @ stored_rows ?ws (?M + 1) ?cs t)"
  proof (rule table_ok_append)
    show "table_ok ?cur (map (closedRow ?ws ?P ?M) (db_tables db t))"
      by (rule closed_table_ok [OF wf_db_table [OF assms(1)]]) simp
    show "table_ok ?cur (stored_rows ?ws (?M + 1) ?cs t)"
      using assms(2) by (intro stored_table_ok) simp_all
    fix x y v
    assume x: "x \<in> set (map (closedRow ?ws ?P ?M) (db_tables db t))" and y: "y \<in> set (stored_rows ?ws (?M + 1) ?cs t)"
      and slot: "same_slot x y" and vis: "visible v x" "visible v y"
    obtain r where r: "r \<in> set (db_tables db t)" "x = closedRow ?ws ?P ?M r" using x by auto
    have "interval_ok (currentVersion db) r" using wf_db_table [OF assms(1), of t] r(1) by (auto simp: table_ok_def)
    moreover have "r_ws r = ?ws" "r_path r \<in> ?P" using slot r(2) visible_stored [OF y] stored_rows_path [OF y] sub
      by (auto simp: same_slot_def)
    moreover have "?M < v" using vis(2) visible_stored [OF y] by (simp add: visible_def)
    ultimately show False using closedRow_dead vis(1) r(2) by blast
  qed
  then show ?thesis by (simp add: currentVersion_published) (simp add: publishedWith_def Let_def)
qed

lemma wf_published:
  fixes request :: PublishRequest
  assumes wf: "wf_db db" and "distinct (map c_sourcePath (gu_contributions (pr_Update request)))"
    and sub: "c_sourcePath ` set (gu_contributions (pr_Update request)) \<subseteq> P"
  shows "wf_db (publishedWith P env request db)"
proof -
  let ?ws = "pr_Workspace request" and ?facts = "pr_WorkspaceFacts request"
  let ?v = "currentVersion db ?ws + 1"
  let ?kept = "retained_edges ?ws ?v (pr_ReplacedOwners request) (db_edges db)"
  let ?newn = "fresh_rows wnode_key (factNodeRows ?ws ?v ?facts) {}"
  let ?newe = "fresh_rows wedge_key (factEdgeRows ?ws ?v ?facts) (wedge_key ` set (db_edges db @ ?kept))"
  have cur: "currentVersion (publishedWith P env request db) = (currentVersion db)(?ws := ?v)" by (rule currentVersion_published)
  have n: "wn_ws n = ?ws \<and> wn_version n = ?v" if "n \<in> set ?newn" for n
    using that fresh_rows_subset [of wnode_key "factNodeRows ?ws ?v ?facts" "{}"] by (auto simp: factNodeRows_def)
  have e: "we_ws e = ?ws \<and> we_version e = ?v" if "e \<in> set ?newe \<or> e \<in> set ?kept" for e
    using that fresh_rows_subset [of wedge_key "factEdgeRows ?ws ?v ?facts" "wedge_key ` set (db_edges db @ ?kept)"]
    by (auto simp: factEdgeRows_def retained_edges_def split: if_splits)
  have "distinct (map wnode_key (db_nodes db @ ?newn))"
    using distinct_fresh_append [of wnode_key "db_nodes db"] wf fresh_fact_nodes [OF wf]
    by (metis wf_db_def)
  moreover have "distinct (map wedge_key (db_edges db @ ?kept))"
  proof -
    have "retainWorkspaceFacts (int (length (pr_ReplacedOwners request)) + 3) ?ws ?v (pr_ReplacedOwners request) db =
        Inr (db\<lparr>db_edges := db_edges db @ ?kept\<rparr>)"
      using wf wf_edges_before [OF wf, of _ ?ws] by (subst retainWorkspaceFacts_eq) (auto simp: wf_db_def ownersFit_def)
    then have "?kept = [] \<or> distinct (map wedge_key ?kept) \<and> wedge_key ` set ?kept \<inter> wedge_key ` set (db_edges db) = {}"
      by (auto simp: retainWorkspaceFacts_def insertAll_plain retained_edges_def split: if_splits)
    then show ?thesis using wf by (auto simp: wf_db_def)
  qed
  then have "distinct (map wedge_key ((db_edges db @ ?kept) @ ?newe))"
    by (rule distinct_fresh_append)
  moreover have "distinct (map version_key (db_versions (publishedWith P env request db)))"
  proof -
    have "(?ws, ?v) \<notin> version_key ` set (db_versions db)"
    proof
      assume "(?ws, ?v) \<in> version_key ` set (db_versions db)"
      then have "?v \<in> set (workspace_versions db ?ws)" by (auto simp: version_key_def workspace_versions_def image_iff)
      from currentVersion_le [OF this] show False by simp
    qed
    then show ?thesis using wf by (auto simp: wf_db_def publishedWith_def Let_def version_key_def)
  qed
  moreover have "\<forall>n \<in> set (db_nodes db @ ?newn). wn_version n \<le> currentVersion (publishedWith P env request db) (wn_ws n)"
    using n wf unfolding cur by (fastforce simp: wf_db_def)
  moreover have "\<forall>e \<in> set ((db_edges db @ ?kept) @ ?newe). we_version e \<le> currentVersion (publishedWith P env request db) (we_ws e)"
    using e wf unfolding cur by (fastforce simp: wf_db_def simp del: append_assoc)
  moreover have "\<forall>g \<in> set (db_versions (publishedWith P env request db)). 1 \<le> gv_version g"
    using wf by (auto simp: wf_db_def publishedWith_def Let_def)
  moreover have "db_nodes (publishedWith P env request db) = db_nodes db @ ?newn"
      "db_edges (publishedWith P env request db) = (db_edges db @ ?kept) @ ?newe"
    by (simp_all add: publishedWith_def Let_def)
  ultimately show ?thesis
    using published_table_ok [OF assms] unfolding wf_db_def by simp
qed

text \<open>Publication leaves the view of every earlier version as it was.\<close>

lemma contents_append:
  assumes "db_tables db' t = map f (db_tables db t) @ new"
    "\<And>r. r \<in> set new \<Longrightarrow> r_ws r = ws \<Longrightarrow> \<not> visible v r"
    "\<And>r. r \<in> set (db_tables db t) \<Longrightarrow> r_ws (f r) = r_ws r \<and> r_path (f r) = r_path r \<and> r_payload (f r) = r_payload r"
    "\<And>r. r \<in> set (db_tables db t) \<Longrightarrow> r_ws r = ws \<Longrightarrow> visible v (f r) = visible v r"
  shows "contents db' t ws v = contents db t ws v"
proof -
  have "filter (\<lambda>r. r_ws r = ws \<and> visible v r) new = []" using assms(2) by (auto simp: filter_empty_conv)
  then have "contents db' t ws v = contents (db\<lparr>db_tables := \<lambda>_. map f (db_tables db t)\<rparr>) t ws v"
    by (simp add: contents_def visible_rows_def assms(1))
  also have "\<dots> = contents db t ws v" by (rule contents_map [where f = f]) (use assms(3,4) in auto)
  finally show ?thesis .
qed

lemma same_view_published:
  fixes request :: PublishRequest
  assumes "ws \<noteq> pr_Workspace request \<or> v \<le> currentVersion db ws"
  shows "same_view db (publishedWith P env request db) ws v"
proof -
  let ?ws = "pr_Workspace request" and ?cs = "gu_contributions (pr_Update request)"
  let ?M = "currentVersion db (pr_Workspace request)"
  have "contents (publishedWith P env request db) t ws v = contents db t ws v" for t
  proof (rule contents_append [where f = "closedRow ?ws P ?M" and new = "stored_rows ?ws (?M + 1) ?cs t"])
    show "\<not> visible v r" if "r \<in> set (stored_rows ?ws (?M + 1) ?cs t)" "r_ws r = ws" for r
      using visible_stored [OF that(1)] that(2) assms by (auto simp: visible_def)
    show "visible v (closedRow ?ws P ?M r) = visible v r" if "r_ws r = ws" for r
      using that assms by (intro closedRow_visible_iff) auto
  qed (simp_all add: publishedWith_def Let_def)
  moreover have "nodes_at (publishedWith P env request db) ws v = nodes_at db ws v"
  proof -
    have "\<not> (wn_ws n = ws \<and> wn_version n = v)" if "n \<in> set (fresh_rows wnode_key (factNodeRows ?ws (?M + 1) (pr_WorkspaceFacts request)) {})" for n
      using that fresh_rows_subset [of wnode_key "factNodeRows ?ws (?M + 1) (pr_WorkspaceFacts request)" "{}"] assms
      by (auto simp: factNodeRows_def)
    then show ?thesis by (simp add: nodes_at_def publishedWith_def Let_def filter_empty_conv)
  qed
  moreover have "edges_at (publishedWith P env request db) ws v = edges_at db ws v"
  proof -
    let ?kept = "retained_edges ?ws (?M + 1) (pr_ReplacedOwners request) (db_edges db)"
    have "\<not> (we_ws e = ws \<and> we_version e = v)" if "e \<in> set ?kept" for e
      using that assms by (auto simp: retained_edges_def split: if_splits)
    moreover have "\<not> (we_ws e = ws \<and> we_version e = v)" if "e \<in> set (fresh_rows wedge_key (factEdgeRows ?ws (?M + 1) (pr_WorkspaceFacts request)) A)" for e A
      using that fresh_rows_subset [of wedge_key "factEdgeRows ?ws (?M + 1) (pr_WorkspaceFacts request)" A] assms
      by (auto simp: factEdgeRows_def)
    ultimately show ?thesis by (simp add: edges_at_def publishedWith_def Let_def filter_empty_conv)
  qed
  ultimately show ?thesis by (simp add: same_view_def)
qed

text \<open>What the new version shows of the contribution tables.\<close>

definition updated_contents :: "str set \<Rightarrow> Contribution list \<Rightarrow> (str \<times> payload) list \<Rightarrow> ctable \<Rightarrow> (str \<times> payload) list" where
  "updated_contents P cs old t =
     filter (\<lambda>(p, _). p \<notin> P) old @
     concat (map (\<lambda>c. map (Pair (c_sourcePath c)) (stored_payloads c t)) cs)"

lemma contents_published:
  fixes request :: PublishRequest
  assumes wf: "wf_db db"
  defines "ws \<equiv> pr_Workspace request"
  shows "contents (publishedWith P env request db) t ws (currentVersion db ws + 1) =
    updated_contents P (gu_contributions (pr_Update request)) (contents db t ws (currentVersion db ws)) t"
proof -
  let ?cs = "gu_contributions (pr_Update request)" and ?M = "currentVersion db ws"
  let ?P = P
  have old: "r_ws (closedRow ws ?P ?M r) = ws \<and> visible (?M + 1) (closedRow ws ?P ?M r) \<longleftrightarrow>
      (r_ws r = ws \<and> visible ?M r) \<and> r_path r \<notin> ?P" if "r \<in> set (db_tables db t)" for r
  proof -
    have int: "interval_ok (currentVersion db) r" using wf_db_table [OF wf, of t] that by (auto simp: table_ok_def)
    show ?thesis
    proof (cases "r_path r \<in> ?P")
      case True
      then show ?thesis using closedRow_dead [OF int, of ws ?P "?M + 1"] by auto
    next
      case False
      then show ?thesis using int by (auto simp: closedRow_other visible_def interval_ok_def split: option.splits)
    qed
  qed
  have "map (\<lambda>r. (r_path r, r_payload r)) (filter (\<lambda>r. r_ws r = ws \<and> visible (?M + 1) r) (map (closedRow ws ?P ?M) (db_tables db t))) =
      filter (\<lambda>(p, _). p \<notin> ?P) (contents db t ws ?M)"
  proof -
    have "filter (\<lambda>r. r_ws (closedRow ws ?P ?M r) = ws \<and> visible (?M + 1) (closedRow ws ?P ?M r)) (db_tables db t) =
        filter (\<lambda>r. r_path r \<notin> ?P) (visible_rows db t ws ?M)"
      unfolding visible_rows_def filter_filter by (rule filter_cong [OF refl]) (use old in blast)
    then show ?thesis
      by (simp only: filter_map comp_def map_map contents_def closedRow_simps prod.case)
  qed
  moreover have "map (\<lambda>r. (r_path r, r_payload r)) (filter (\<lambda>r. r_ws r = ws \<and> visible (?M + 1) r) (stored_rows ws (?M + 1) cs t)) =
      concat (map (\<lambda>c. map (Pair (c_sourcePath c)) (stored_payloads c t)) cs)" for cs
    by (induction cs) (simp_all add: stored_rows_def filter_map comp_def visible_def)
  moreover have "db_tables (publishedWith P env request db) t = map (closedRow ws ?P ?M) (db_tables db t) @ stored_rows ws (?M + 1) ?cs t"
    by (simp add: publishedWith_def Let_def ws_def)
  ultimately show ?thesis
    unfolding updated_contents_def contents_def [of "publishedWith P env request db"] visible_rows_def
    by (simp only: filter_append map_append)
qed

lemma nodes_at_published:
  fixes request :: PublishRequest
  assumes wf: "wf_db db"
  defines "ws \<equiv> pr_Workspace request"
  shows "nodes_at (publishedWith P env request db) ws (currentVersion db ws + 1) =
    fresh_rows n_ID (f_Nodes (pr_WorkspaceFacts request)) {}"
proof -
  let ?v = "currentVersion db ws + 1"
  have "filter (\<lambda>n. wn_ws n = ws \<and> wn_version n = ?v) (db_nodes db) = []"
    using wf_nodes_before [OF wf, of _ ws] by (fastforce simp: filter_empty_conv)
  moreover have "fresh_rows wnode_key (factNodeRows ws ?v facts) {} =
      map (\<lambda>n. \<lparr>wn_ws = ws, wn_version = ?v, wn_node = n\<rparr>) (fresh_rows n_ID (f_Nodes facts) {})" for facts
    using fresh_rows_map [of wnode_key "\<lambda>n. \<lparr>wn_ws = ws, wn_version = ?v, wn_node = n\<rparr>" "\<lambda>i. (ws, ?v, i)" n_ID "f_Nodes facts" "{}"]
    by (simp add: factNodeRows_def wnode_key_def)
  moreover have "db_nodes (publishedWith P env request db) = db_nodes db @ fresh_rows wnode_key (factNodeRows ws ?v (pr_WorkspaceFacts request)) {}"
    by (simp add: publishedWith_def Let_def ws_def)
  ultimately show ?thesis by (simp add: nodes_at_def filter_map comp_def)
qed

definition edge_key :: "Edge \<times> str \<Rightarrow> str \<times> str \<times> str" where
  "edge_key x = (e_SourceID (fst x), e_TargetID (fst x), e_Relation (fst x))"

text \<open>Resolved edges of the new version: those retained from the version before, then the new ones.\<close>

definition updated_edges :: "str list \<Rightarrow> Facts \<Rightarrow> (Edge \<times> str) list \<Rightarrow> (Edge \<times> str) list" where
  "updated_edges owners facts old =
     (let kept = (if owners = [] then [] else filter (\<lambda>(_, owner). owner \<notin> set owners) old) in
      kept @ fresh_rows edge_key (map (\<lambda>e. (e, sp_Path (ev_Span (e_Evidence e)))) (f_Edges facts)) (edge_key ` set kept))"

lemma edges_at_published:
  fixes request :: PublishRequest
  assumes wf: "wf_db db"
  defines "ws \<equiv> pr_Workspace request"
  shows "edges_at (publishedWith P env request db) ws (currentVersion db ws + 1) =
    updated_edges (pr_ReplacedOwners request) (pr_WorkspaceFacts request)
      (if currentVersion db ws = 0 then [] else edges_at db ws (currentVersion db ws))"
proof -
  let ?v = "currentVersion db ws + 1" and ?owners = "pr_ReplacedOwners request" and ?facts = "pr_WorkspaceFacts request"
  let ?kept = "retained_edges ws ?v ?owners (db_edges db)"
  let ?row = "\<lambda>x. \<lparr>we_ws = ws, we_version = ?v, we_edge = fst x, we_owner = snd x\<rparr>"
  let ?old = "if currentVersion db ws = 0 then [] else edges_at db ws (currentVersion db ws)"
  let ?spec = "if ?owners = [] then [] else filter (\<lambda>(_, owner). owner \<notin> set ?owners) ?old"
  have kept: "?kept = map ?row ?spec"
  proof -
    have "map (\<lambda>e. e\<lparr>we_version := ?v\<rparr>) (filter (\<lambda>e. we_ws e = ws \<and> we_version e = u \<and> we_owner e \<notin> A) es) =
        map ?row (filter (\<lambda>(_, owner). owner \<notin> A)
          (map (\<lambda>e. (we_edge e, we_owner e)) (filter (\<lambda>e. we_ws e = ws \<and> we_version e = u) es)))" for es u A
      by (induction es) auto
    then show ?thesis by (auto simp: retained_edges_def edges_at_def)
  qed
  have key: "wedge_key (?row x) = (\<lambda>(s, t, r). (ws, ?v, s, t, r)) (edge_key x)" for x
    by (simp add: wedge_key_def edge_key_def)
  have keys: "wedge_key ` set (map ?row xs) = (\<lambda>(s, t, r). (ws, ?v, s, t, r)) ` edge_key ` set xs" for xs
    using key by (simp add: image_image)
  have "fresh_rows wedge_key (factEdgeRows ws ?v ?facts) (wedge_key ` set (db_edges db @ ?kept)) =
      fresh_rows wedge_key (factEdgeRows ws ?v ?facts) (wedge_key ` set ?kept)"
    using wf_edges_before [OF wf, of _ ws] by (intro fresh_rows_cong) (fastforce simp: factEdgeRows_def wedge_key_def)
  also have "\<dots> = map ?row (fresh_rows edge_key (map (\<lambda>e. (e, sp_Path (ev_Span (e_Evidence e)))) (f_Edges ?facts)) (edge_key ` set ?spec))"
  proof -
    have "factEdgeRows ws ?v ?facts = map ?row (map (\<lambda>e. (e, sp_Path (ev_Span (e_Evidence e)))) (f_Edges ?facts))"
      by (simp add: factEdgeRows_def)
    then show ?thesis
      unfolding kept keys
      by (simp only:) (rule fresh_rows_map, use key in \<open>auto split: prod.splits\<close>)
  qed
  finally have new: "fresh_rows wedge_key (factEdgeRows ws ?v ?facts) (wedge_key ` set (db_edges db @ ?kept)) =
      map ?row (fresh_rows edge_key (map (\<lambda>e. (e, sp_Path (ev_Span (e_Evidence e)))) (f_Edges ?facts)) (edge_key ` set ?spec))" .
  have "db_edges (publishedWith P env request db) = (db_edges db @ ?kept) @
      fresh_rows wedge_key (factEdgeRows ws ?v ?facts) (wedge_key ` set (db_edges db @ ?kept))"
    by (simp add: publishedWith_def Let_def ws_def)
  then have db: "db_edges (publishedWith P env request db) = db_edges db @ map ?row (?spec @
      fresh_rows edge_key (map (\<lambda>e. (e, sp_Path (ev_Span (e_Evidence e)))) (f_Edges ?facts)) (edge_key ` set ?spec))"
    unfolding new unfolding kept by (simp only: append_assoc map_append)
  have rows: "map (\<lambda>e. (we_edge e, we_owner e)) (filter (\<lambda>e. we_ws e = ws \<and> we_version e = ?v) (map ?row xs)) = xs" for xs
    by (induction xs) auto
  have "edges_at (publishedWith P env request db) ws ?v = ?spec @
      fresh_rows edge_key (map (\<lambda>e. (e, sp_Path (ev_Span (e_Evidence e)))) (f_Edges ?facts)) (edge_key ` set ?spec)"
    unfolding edges_at_def [of "publishedWith P env request db"] db filter_append map_append
    by (simp only: rows map_append [symmetric] filter_append [symmetric]) (use wf_edges_before [OF wf, of _ ws] in \<open>fastforce simp: filter_empty_conv\<close>)
  then show ?thesis by (simp only: updated_edges_def Let_def)
qed

section \<open>Publication and pruning together\<close>

text \<open>The first version a publication of version \<open>v\<close> keeps.\<close>

definition retention_boundary :: "nat \<Rightarrow> nat" where
  "retention_boundary v = (if v > retainedGraphVersions then v - retainedGraphVersions + 1 else 0)"

lemma pruneRetained_cases:
  assumes "wf_db db" "pruneRetained ws v db = Inr db'"
  shows "db' = (if v > retainedGraphVersions then pruned ws (retention_boundary v) db else db)"
    "v > retainedGraphVersions \<Longrightarrow> retention_boundary v \<in> set (workspace_versions db ws)"
proof -
  have "retention_boundary v \<in> set (workspace_versions db ws)" if "v > retainedGraphVersions"
    using that assms(2) pruneVersions_missing [of "retention_boundary v" db ws]
    by (cases "retention_boundary v \<in> set (workspace_versions db ws)") (auto simp: pruneRetained_def retention_boundary_def)
  then show "db' = (if v > retainedGraphVersions then pruned ws (retention_boundary v) db else db)"
      "v > retainedGraphVersions \<Longrightarrow> retention_boundary v \<in> set (workspace_versions db ws)"
    using assms pruneVersions_eq [OF assms(1)]
    by (auto simp: pruneRetained_def retention_boundary_def)
qed

text \<open>Facts of a successful publication, from which its properties follow.\<close>

lemma publishRequest_Inr:
  fixes request :: PublishRequest
  assumes wf: "wf_db db" and env: "env_ok env" and ok: "publishRequest env request db = Inr (s, db')"
  defines "ws \<equiv> pr_Workspace request"
  shows "s = \<lparr>sn_Workspace = ws, sn_Version = currentVersion db ws + 1, sn_PublishedAt = pe_now env\<rparr>"
    "distinct (map c_sourcePath (gu_contributions (pr_Update request)))"
    "db' = (if currentVersion db ws + 1 > retainedGraphVersions
            then pruned ws (retention_boundary (currentVersion db ws + 1)) (published env request db)
            else published env request db)"
    "currentVersion db ws + 1 > retainedGraphVersions \<Longrightarrow>
       retention_boundary (currentVersion db ws + 1) \<in> set (workspace_versions (published env request db) ws)"
proof -
  have "\<not> pe_cancelled env"
    using ok by (auto simp: publishRequest_def Let_def dest: storePreparedPublication_not_cancelled)
  note eq = publishRequest_eq [OF wf env this, of request, folded ws_def]
  show d: "distinct (map c_sourcePath (gu_contributions (pr_Update request)))"
    using ok unfolding eq by (simp split: if_splits)
  then have p: "pruneRetained ws (currentVersion db ws + 1) (published env request db) = Inr db'"
    and "s = \<lparr>sn_Workspace = ws, sn_Version = currentVersion db ws + 1, sn_PublishedAt = pe_now env\<rparr>"
    using ok unfolding eq by (auto split: if_splits)
  then show "s = \<lparr>sn_Workspace = ws, sn_Version = currentVersion db ws + 1, sn_PublishedAt = pe_now env\<rparr>" by simp
  note c = pruneRetained_cases [OF wf_published [OF wf d subset_refl] p]
  show "db' = (if currentVersion db ws + 1 > retainedGraphVersions
            then pruned ws (retention_boundary (currentVersion db ws + 1)) (published env request db)
            else published env request db)"
    "currentVersion db ws + 1 > retainedGraphVersions \<Longrightarrow>
       retention_boundary (currentVersion db ws + 1) \<in> set (workspace_versions (published env request db) ws)"
    using c by auto
qed

lemma same_view_trans: "same_view a b ws v \<Longrightarrow> same_view b c ws v \<Longrightarrow> same_view a c ws v"
  by (simp add: same_view_def)

lemma same_view_refl [simp]: "same_view a a ws v"
  by (simp add: same_view_def)

lemma publishRequest_views:
  fixes request :: PublishRequest
  assumes wf: "wf_db db" and env: "env_ok env" and ok: "publishRequest env request db = Inr (s, db')"
    and v: "ws \<noteq> pr_Workspace request \<or> retention_boundary (currentVersion db ws + 1) \<le> v"
  shows "same_view (published env request db) db' ws v"
  using publishRequest_Inr(3) [OF wf env ok] v
  by (auto intro!: same_view_pruned simp: retention_boundary_def)

lemma wf_publishRequest:
  fixes request :: PublishRequest
  assumes wf: "wf_db db" and env: "env_ok env" and ok: "publishRequest env request db = Inr (s, db')"
  shows "wf_db db'" "currentVersion db' = (currentVersion db)(pr_Workspace request := currentVersion db (pr_Workspace request) + 1)"
proof -
  note r = publishRequest_Inr [OF wf env ok]
  have p: "wf_db (published env request db)" by (rule wf_published [OF wf r(2) subset_refl])
  then show "wf_db db'" using r(3,4) by (auto intro: wf_pruned)
  show "currentVersion db' = (currentVersion db)(pr_Workspace request := currentVersion db (pr_Workspace request) + 1)"
    unfolding currentVersion_published [of "c_sourcePath ` set (gu_contributions (pr_Update request))" env request db, symmetric]
    using r(3,4) by (auto simp: fun_eq_iff currentVersion_pruned)
qed

section \<open>The store as a state machine\<close>

text \<open>The version-changing operations of the store; a failed operation leaves the database.\<close>

inductive store_step :: "database \<Rightarrow> database \<Rightarrow> bool" where
  publish: "env_ok env \<Longrightarrow> publish env stage request db = Inr (s, db') \<Longrightarrow> store_step db db'"
| rollback: "Rollback ws v db = Inr (s, db') \<Longrightarrow> store_step db db'"
| prune: "Prune ws v db = Inr (n, db') \<Longrightarrow> store_step db db'"

inductive store_reachable :: "database \<Rightarrow> bool" where
  initial: "store_reachable emptyDatabase"
| step: "store_reachable db \<Longrightarrow> store_step db db' \<Longrightarrow> store_reachable db'"

inductive_cases store_stepE: "store_step db db'"

lemma publish_is_publishRequest:
  "publish env stage request db = Inr (s, db') \<Longrightarrow>
     \<exists>request'. pr_Workspace request' = pr_Workspace request \<and> publishRequest env request' db = Inr (s, db')"
  by (auto simp: publish_def split: if_splits option.splits)

lemma store_step_wf:
  assumes "store_step db db'" "wf_db db"
  shows "wf_db db'"
  using assms
proof (cases rule: store_step.cases)
  case (publish env stage request s)
  then show ?thesis using assms(2) publish_is_publishRequest wf_publishRequest(1) by metis
next
  case (rollback ws v s)
  then show ?thesis
    using assms(2) publicationTime_None [of db ws v] by (auto simp: Rollback_eq wf_rolledBack split: if_splits option.splits)
next
  case (prune ws v n)
  then have "v \<in> set (workspace_versions db ws)"
    by (auto simp: Prune_def pruneVersions_def split: if_splits)
  with prune assms(2) show ?thesis by (auto simp: Prune_def pruneVersions_eq wf_pruned split: if_splits)
qed

text \<open>What a publication keeps and shows, in the form the readers use.\<close>

lemma publish_keeps_view:
  assumes "wf_db db" "env_ok env" "publish env stage request db = Inr (s, db')"
    and "ws \<noteq> pr_Workspace request \<or>
      retention_boundary (currentVersion db ws + 1) \<le> v \<and> v \<le> currentVersion db ws"
  shows "same_view db db' ws v"
proof -
  obtain request' where r: "pr_Workspace request' = pr_Workspace request" "publishRequest env request' db = Inr (s, db')"
    using publish_is_publishRequest [OF assms(3)] by blast
  have "same_view db (published env request' db) ws v"
    using assms(4) r(1) by (intro same_view_published) auto
  moreover have "same_view (published env request' db) db' ws v"
    using assms(4) r(1) by (intro publishRequest_views [OF assms(1,2) r(2)]) auto
  ultimately show ?thesis by (rule same_view_trans)
qed

lemma publish_shows:
  assumes "wf_db db" "env_ok env" "publish env None request db = Inr (s, db')"
  shows "distinct (map c_sourcePath (gu_contributions (pr_Update request)))"
    "s = \<lparr>sn_Workspace = pr_Workspace request, sn_Version = currentVersion db (pr_Workspace request) + 1, sn_PublishedAt = pe_now env\<rparr>"
    "contents db' t (sn_Workspace s) (sn_Version s) =
       updated_contents (c_sourcePath ` set (gu_contributions (pr_Update request))) (gu_contributions (pr_Update request))
         (contents db t (pr_Workspace request) (currentVersion db (pr_Workspace request))) t"
proof -
  have ok: "publishRequest env request db = Inr (s, db')"
    using assms(3) by (simp add: publish_def split: if_splits)
  note facts = publishRequest_Inr [OF assms(1,2) ok]
  show "distinct (map c_sourcePath (gu_contributions (pr_Update request)))" by (rule facts(2))
  show s: "s = \<lparr>sn_Workspace = pr_Workspace request, sn_Version = currentVersion db (pr_Workspace request) + 1, sn_PublishedAt = pe_now env\<rparr>"
    by (rule facts(1))
  have "same_view (published env request db) db' (pr_Workspace request) (currentVersion db (pr_Workspace request) + 1)"
    by (rule publishRequest_views [OF assms(1,2) ok]) (simp add: retention_boundary_def retainedGraphVersions_def)
  then show "contents db' t (sn_Workspace s) (sn_Version s) =
       updated_contents (c_sourcePath ` set (gu_contributions (pr_Update request))) (gu_contributions (pr_Update request))
         (contents db t (pr_Workspace request) (currentVersion db (pr_Workspace request))) t"
    using contents_published [OF assms(1), of "c_sourcePath ` set (gu_contributions (pr_Update request))" env request t]
    by (simp add: same_view_def s)
qed

text \<open>The versions a publication keeps.\<close>

lemma publish_versions:
  assumes "wf_db db" "env_ok env" "publish env stage request db = Inr (s, db')"
    "v \<in> set (workspace_versions db' ws)" "ws \<noteq> pr_Workspace request \<or> v \<noteq> sn_Version s"
  shows "v \<in> set (workspace_versions db ws) \<and>
    (ws \<noteq> pr_Workspace request \<or> retention_boundary (currentVersion db ws + 1) \<le> v)"
proof -
  obtain request' where r: "pr_Workspace request' = pr_Workspace request" "publishRequest env request' db = Inr (s, db')"
    using publish_is_publishRequest [OF assms(3)] by blast
  note facts = publishRequest_Inr [OF assms(1,2) r(2)]
  show ?thesis
    using assms(4,5) facts(1,3) r(1)
    by (auto simp: workspace_versions_pruned workspace_versions_published retention_boundary_def split: if_splits)
qed

section \<open>A small store\<close>

text \<open>Concrete inputs on which the properties below are applied.\<close>

definition sampleEnv :: publish_env where
  "sampleEnv = \<lparr>pe_variableLimit = 999, pe_maxDatabaseBytes = 65536, pe_pages = (\<lambda>_. (4, 4096)),
     pe_schedule = (\<lambda>n. rev [0..<n]), pe_cancelled = False, pe_now = ''t''\<rparr>"

definition sampleRequest :: "str list \<Rightarrow> PublishRequest" where
  "sampleRequest paths = \<lparr>pr_Workspace = ''w'', pr_Update = \<lparr>gu_contributions = map emptyContribution paths\<rparr>,
     pr_WorkspaceFacts = \<lparr>f_Nodes = [], f_Edges = []\<rparr>, pr_ReplacedOwners = []\<rparr>"

lemma sampleEnv_ok: "env_ok sampleEnv" "\<not> pe_cancelled sampleEnv"
  by (auto simp: env_ok_def sampleEnv_def)

lemma sample_publish:
  assumes "wf_db db" "distinct paths" "currentVersion db ''w'' < 25"
  shows "publish sampleEnv None (sampleRequest paths) db =
    Inr (\<lparr>sn_Workspace = ''w'', sn_Version = currentVersion db ''w'' + 1, sn_PublishedAt = ''t''\<rparr>,
         published sampleEnv (sampleRequest paths) db)"
proof -
  have "map c_sourcePath (gu_contributions (pr_Update (sampleRequest paths))) = paths"
    by (simp add: sampleRequest_def emptyContribution_def comp_def)
  moreover have ws: "pr_Workspace (sampleRequest paths) = ''w''" by (simp add: sampleRequest_def)
  moreover have "ensureDatabaseBudget sampleEnv x = Inr ()" "pe_now sampleEnv = ''t''" for x
    by (simp_all add: ensureDatabaseBudget_def sampleEnv_def)
  ultimately show ?thesis
    using publishRequest_eq [OF assms(1) sampleEnv_ok, of "sampleRequest paths"] assms(2,3)
    by (simp add: publish_def pruneRetained_def retainedGraphVersions_def ownersFit_def) (simp add: sampleRequest_def)
qed

lemma currentVersion_empty: "currentVersion emptyDatabase ws = 0"
  by (simp add: currentVersion_def workspace_versions_def emptyDatabase_def)

lemma sample_publish_first:
  "publish sampleEnv None (sampleRequest [''a'', ''b'']) emptyDatabase =
    Inr (\<lparr>sn_Workspace = ''w'', sn_Version = 1, sn_PublishedAt = ''t''\<rparr>,
         published sampleEnv (sampleRequest [''a'', ''b'']) emptyDatabase)"
  using sample_publish [OF wf_emptyDatabase, of "[''a'', ''b'']"] by (simp add: currentVersion_empty)

text \<open>Twenty-five published versions, the oldest of them pruned.\<close>

definition sampleHistory :: database where
  "sampleHistory = emptyDatabase\<lparr>db_versions := map (\<lambda>v. \<lparr>gv_ws = ''w'', gv_version = v, gv_published = ''t''\<rparr>) [3..<28]\<rparr>"

lemma sampleHistory_versions: "workspace_versions sampleHistory ''w'' = [3..<28]"
  by (simp add: workspace_versions_def sampleHistory_def comp_def)

lemma sampleHistory_wf: "wf_db sampleHistory"
proof -
  have "distinct (map version_key (db_versions sampleHistory))"
    by (simp add: sampleHistory_def version_key_def comp_def distinct_map inj_on_def)
  then show ?thesis
    by (auto simp: wf_db_def sampleHistory_def emptyDatabase_def table_ok_def overlap_free_def)
qed

lemma sampleHistory_current: "currentVersion sampleHistory ''w'' = 27"
proof -
  have "[3..<28] = [3..<27] @ [27 :: nat]" by (simp add: upt_conv_Cons)
  moreover have "27 \<le> currentVersion sampleHistory ''w''"
    by (rule currentVersion_le) (simp add: sampleHistory_versions)
  moreover have "currentVersion sampleHistory ''w'' \<in> set [3..<28]"
    using wf_current_exists [OF sampleHistory_wf, of "''w''"] by (simp add: sampleHistory_versions)
  ultimately show ?thesis by simp
qed

lemma publishRequest_new_version:
  fixes request :: PublishRequest
  assumes "wf_db db" "env_ok env" "publishRequest env request db = Inr (s, db')"
  shows "sn_Workspace s = pr_Workspace request \<and> sn_Version s = currentVersion db (pr_Workspace request) + 1 \<and>
    currentVersion db' (pr_Workspace request) = sn_Version s \<and>
    (\<forall>t. contents db' t (pr_Workspace request) (sn_Version s) =
       updated_contents (c_sourcePath ` set (gu_contributions (pr_Update request))) (gu_contributions (pr_Update request))
         (contents db t (pr_Workspace request) (currentVersion db (pr_Workspace request))) t) \<and>
    nodes_at db' (pr_Workspace request) (sn_Version s) = fresh_rows n_ID (f_Nodes (pr_WorkspaceFacts request)) {} \<and>
    edges_at db' (pr_Workspace request) (sn_Version s) =
      updated_edges (pr_ReplacedOwners request) (pr_WorkspaceFacts request)
        (if currentVersion db (pr_Workspace request) = 0 then []
         else edges_at db (pr_Workspace request) (currentVersion db (pr_Workspace request)))"
proof -
  let ?ws = "pr_Workspace request" and ?M = "currentVersion db (pr_Workspace request)"
  have s: "sn_Workspace s = ?ws" "sn_Version s = ?M + 1"
    using publishRequest_Inr(1) [OF assms] by simp_all
  have "same_view (published env request db) db' ?ws (?M + 1)"
    by (rule publishRequest_views [OF assms]) (simp add: retention_boundary_def retainedGraphVersions_def)
  then show ?thesis
    using s wf_publishRequest(2) [OF assms] contents_published [OF assms(1), of "c_sourcePath ` set (gu_contributions (pr_Update request))" env request]
      nodes_at_published [OF assms(1), of "c_sourcePath ` set (gu_contributions (pr_Update request))" env request] edges_at_published [OF assms(1), of "c_sourcePath ` set (gu_contributions (pr_Update request))" env request]
    by (simp add: same_view_def)
qed

section \<open>Properties\<close>

text \<open>C1. Every database the store reaches from an empty one by publications (plain or staged),
  rollbacks and prunings is well formed: row keys are unique, no two rows of one slot are
  visible in one version, intervals lie within the published versions, and the open rows
  are exactly those of the current version.\<close>

theorem store_reachable_wf:
  assumes "store_reachable db" shows "wf_db db"
  using assms by induction (auto intro: wf_emptyDatabase store_step_wf)

theorem store_reachable_wf_witness:
  "wf_db (published sampleEnv (sampleRequest [''a'', ''b'']) emptyDatabase)"
  by (rule store_reachable_wf)
    (rule store_reachable.step [OF store_reachable.initial store_step.publish [OF sampleEnv_ok(1) sample_publish_first]])

text \<open>C2. Snapshot isolation: a publication changes nothing of what any earlier retained version
  shows (contributions, workspace nodes, resolved edges), nor of any version of another
  workspace.\<close>

theorem publish_snapshot_isolation:
  assumes "wf_db db" "env_ok env" "publish env stage request db = Inr (s, db')"
    and "ws \<noteq> pr_Workspace request \<or>
      retention_boundary (currentVersion db ws + 1) \<le> v \<and> v \<le> currentVersion db ws"
  shows "same_view db db' ws v"
  using assms by (rule publish_keeps_view)

theorem publish_snapshot_isolation_witness:
  "same_view emptyDatabase (published sampleEnv (sampleRequest [''a'', ''b'']) emptyDatabase) ''w'' 0"
  by (rule publish_snapshot_isolation [OF wf_emptyDatabase sampleEnv_ok(1) sample_publish_first])
    (simp add: currentVersion_empty retention_boundary_def retainedGraphVersions_def)

text \<open>C3. A publication creates the next version, which shows exactly the update: the contributions
  of the updated sources, replaced as a whole, the unchanged contributions of all other
  sources, the given workspace nodes, and the given resolved edges after the retained ones
  of owners that are not replaced.\<close>

theorem publish_new_version:
  fixes request :: PublishRequest
  assumes "wf_db db" "env_ok env" "publish env None request db = Inr (s, db')"
  shows "sn_Workspace s = pr_Workspace request \<and> sn_Version s = currentVersion db (pr_Workspace request) + 1 \<and>
    currentVersion db' (pr_Workspace request) = sn_Version s \<and>
    (\<forall>t. contents db' t (pr_Workspace request) (sn_Version s) =
       updated_contents (c_sourcePath ` set (gu_contributions (pr_Update request))) (gu_contributions (pr_Update request))
         (contents db t (pr_Workspace request) (currentVersion db (pr_Workspace request))) t) \<and>
    nodes_at db' (pr_Workspace request) (sn_Version s) = fresh_rows n_ID (f_Nodes (pr_WorkspaceFacts request)) {} \<and>
    edges_at db' (pr_Workspace request) (sn_Version s) =
      updated_edges (pr_ReplacedOwners request) (pr_WorkspaceFacts request)
        (if currentVersion db (pr_Workspace request) = 0 then []
         else edges_at db (pr_Workspace request) (currentVersion db (pr_Workspace request)))"
  using assms(3) by (intro publishRequest_new_version [OF assms(1,2)]) (simp add: publish_def split: if_splits)

theorem publish_new_version_witness:
  "contents (published sampleEnv (sampleRequest [''a'', ''b'']) emptyDatabase) contribution_extensions ''w'' 1 =
     [(''a'', ExtensionRow ''.go''), (''b'', ExtensionRow ''.go'')]"
  using publish_new_version [OF wf_emptyDatabase sampleEnv_ok(1) sample_publish_first]
  by (simp add: sampleRequest_def updated_contents_def contents_def visible_rows_def emptyDatabase_def
      emptyContribution_def stored_payloads_def)



text \<open>C20. A rollback to a published version succeeds, makes that version current, removes exactly the
  later versions, and leaves the view of every remaining version, and of every other
  workspace, as it was.\<close>

theorem rollback_restores:
  assumes "wf_db db" "ws \<noteq> []" "R \<in> set (workspace_versions db ws)"
  shows "\<exists>s db'. Rollback ws R db = Inr (s, db') \<and> sn_Version s = R \<and> wf_db db' \<and>
    currentVersion db' = (currentVersion db)(ws := R) \<and>
    workspace_versions db' ws = filter (\<lambda>v. v \<le> R) (workspace_versions db ws) \<and>
    (\<forall>v \<le> R. same_view db db' ws v) \<and> (\<forall>ws' v. ws' \<noteq> ws \<longrightarrow> same_view db db' ws' v)"
proof -
  obtain t where "publicationTime db ws R = Some t" using assms(3) publicationTime_None [of db ws R] by auto
  then show ?thesis
    using assms same_view_rolledBack [of _ ws _ R db]
    by (auto simp: Rollback_eq wf_rolledBack currentVersion_rolledBack workspace_versions_rolledBack)
qed

theorem rollback_restores_witness:
  "\<exists>s db'. Rollback ''w'' 25 sampleHistory = Inr (s, db') \<and> currentVersion db' ''w'' = 25 \<and> same_view sampleHistory db' ''w'' 10"
  using rollback_restores [OF sampleHistory_wf, of "''w''" 25] by (auto simp: sampleHistory_versions)

text \<open>C21. Pruning before a published version succeeds, reports the number of versions removed, and
  leaves the view of every version from the boundary on, and of every other workspace, as it was; the
  current version stays.\<close>

theorem prune_preserves:
  assumes "wf_db db" "ws \<noteq> []" "b \<in> set (workspace_versions db ws)"
  shows "\<exists>db'. Prune ws b db = Inr (length (filter (\<lambda>v. v < b) (workspace_versions db ws)), db') \<and>
    wf_db db' \<and> currentVersion db' = currentVersion db \<and>
    workspace_versions db' ws = filter (\<lambda>v. b \<le> v) (workspace_versions db ws) \<and>
    (\<forall>v \<ge> b. same_view db db' ws v) \<and> (\<forall>ws' v. ws' \<noteq> ws \<longrightarrow> same_view db db' ws' v)"
proof -
  have "b \<noteq> 0" using wf_version_positive [OF assms(1,3)] by simp
  moreover have "currentVersion (pruned ws b db) = currentVersion db"
    using assms(3) by (simp add: fun_eq_iff currentVersion_pruned)
  ultimately show ?thesis
    using assms same_view_pruned [of _ ws b _ db]
    by (auto simp: Prune_def pruneVersions_eq wf_pruned workspace_versions_pruned not_less)
qed

theorem prune_preserves_witness:
  "\<exists>db'. Prune ''w'' 10 sampleHistory = Inr (7, db') \<and> same_view sampleHistory db' ''w'' 27"
  using prune_preserves [OF sampleHistory_wf, of "''w''" 10] by (auto simp: sampleHistory_versions)



text \<open>Opening a snapshot finds what was published: without a version the current one (and
  \<^verbatim>\<open>ErrWorkspaceNotFound\<close> exactly if nothing is published), with a version exactly the published
  ones, and a missing version below the oldest retained one is reported as pruned.\<close>

theorem OpenSnapshot_correct:
  assumes "wf_db db" "ws \<noteq> []"
  shows "(OpenSnapshot ws None db = Inl WorkspaceNotFound \<longleftrightarrow> workspace_versions db ws = []) \<and>
    (\<forall>s. OpenSnapshot ws None db = Inr s \<longrightarrow> sn_Workspace s = ws \<and> sn_Version s = currentVersion db ws) \<and>
    (\<forall>v. (\<exists>s. OpenSnapshot ws (Some v) db = Inr s \<and> sn_Version s = v) \<longleftrightarrow> v \<in> set (workspace_versions db ws)) \<and>
    (\<forall>v. OpenSnapshot ws (Some v) db = Inl GraphVersionPruned \<longleftrightarrow>
       0 < v \<and> workspace_versions db ws \<noteq> [] \<and> (\<forall>u \<in> set (workspace_versions db ws). v < u))"
proof -
  have le: "v < foldr min us u \<longleftrightarrow> (\<forall>x \<in> set (u # us). v < x)" for v u :: nat and us
    by (induction us) auto
  have pruned: "graphVersionWasPruned db ws v \<longleftrightarrow> 0 < v \<and> workspace_versions db ws \<noteq> [] \<and>
      (\<forall>u \<in> set (workspace_versions db ws). v < u)" for v
    by (auto simp: graphVersionWasPruned_def le split: list.splits)
  have "publicationTime db ws (currentVersion db ws) = None \<longleftrightarrow> workspace_versions db ws = []"
    using wf_current_exists [OF assms(1), of ws] by (auto simp: publicationTime_None)
  then have "OpenSnapshot ws None db = Inl WorkspaceNotFound \<longleftrightarrow> workspace_versions db ws = []"
    using assms(2) by (auto simp: OpenSnapshot_def split: option.splits)
  moreover have "\<forall>s. OpenSnapshot ws None db = Inr s \<longrightarrow> sn_Workspace s = ws \<and> sn_Version s = currentVersion db ws"
    using assms(2) by (auto simp: OpenSnapshot_def split: option.splits)
  moreover have "(\<exists>s. OpenSnapshot ws (Some v) db = Inr s \<and> sn_Version s = v) \<longleftrightarrow> v \<in> set (workspace_versions db ws)" for v
    using assms(2) publicationTime_None [of db ws v] by (auto simp: OpenSnapshot_def split: option.splits)
  moreover have "OpenSnapshot ws (Some v) db = Inl GraphVersionPruned \<longleftrightarrow>
      0 < v \<and> workspace_versions db ws \<noteq> [] \<and> (\<forall>u \<in> set (workspace_versions db ws). v < u)" for v
    using assms(2) publicationTime_None [of db ws v] by (auto simp: OpenSnapshot_def pruned split: option.splits)
  ultimately show ?thesis by blast
qed

theorem OpenSnapshot_correct_witness:
  "OpenSnapshot ''w'' (Some 2) sampleHistory = Inl GraphVersionPruned"
  using OpenSnapshot_correct [OF sampleHistory_wf, of "''w''"] by (simp add: sampleHistory_versions)

end
