(* ===== verification/Store_Session.thy ===== *)
theory Store_Session
  imports Store_History
begin

text \<open>
  Contribution sessions (\<^verbatim>\<open>contributionSession\<close> in \<^verbatim>\<open>src/storage/sqlite/sqlite.go\<close>): one
  write transaction that stages sources, accepts contributions in batches, seals them, accepts
  workspace facts and commits one graph version, or rolls back. The state of a session holds
  the transaction's own database; other readers see the committed database until \<^verbatim>\<open>Commit\<close>
  returns the new one. Every operation returns its result with the session's next state, so
  that a failed operation, which closes the session, is visible. Measurements are not modelled.
\<close>

section \<open>State\<close>

record session =
  ss_db :: database
  ss_workspace :: str
  ss_pendingVersion :: nat
  ss_batch :: publicationBatch
  ss_sealed :: bool
  ss_missingSourcesClosed :: bool
  ss_workspaceFactsWritten :: bool
  ss_workspaceFactsSealed :: bool
  ss_closed :: bool

record FactCounts =
  fc_Nodes :: nat
  fc_Edges :: nat

definition defaultContributionBatchLimits :: contributionBatchLimits where
  "defaultContributionBatchLimits = \<lparr>bl_maximumRows = 5000, bl_maximumBytes = 4194304, bl_maximumSources = 64\<rparr>"

definition defaultWorkspaceFactLimits :: factBatchLimits where
  "defaultWorkspaceFactLimits = \<lparr>fl_maximumRows = 500, fl_maximumBytes = 4194304\<rparr>"

section \<open>Operations\<close>

definition BeginContributionSession :: "publish_env \<Rightarrow> str \<Rightarrow> database \<Rightarrow> storage_error + session" where
  "BeginContributionSession env ws db =
     (if ws = [] then Inl InvalidRequest
      else Inr \<lparr>ss_db = db, ss_workspace = ws, ss_pendingVersion = currentVersion db ws + 1,
                ss_batch = newPublicationBatch (pe_variableLimit env) defaultContributionBatchLimits,
                ss_sealed = False, ss_missingSourcesClosed = False, ss_workspaceFactsWritten = False,
                ss_workspaceFactsSealed = False, ss_closed = False\<rparr>)"

text \<open>A failing operation rolls the transaction back and closes the session.\<close>

definition sessionFail :: "storage_error \<Rightarrow> session \<Rightarrow> (storage_error + 'a) \<times> session" where
  "sessionFail e session = (Inl e, session\<lparr>ss_closed := True\<rparr>)"

definition staged_key :: "staged_row \<Rightarrow> str \<times> nat \<times> str" where
  "staged_key s = (st_ws s, st_version s, st_path s)"

definition StageSource :: "str \<Rightarrow> session \<Rightarrow> (storage_error + unit) \<times> session" where
  "StageSource sourcePath session =
     (if ss_closed session then (Inl InvalidRequest, session)
      else if ss_sealed session then (Inl InvalidRequest, session)
      else if sourcePath = [] then sessionFail InvalidRequest session
      else let db = ss_db session;
               row = \<lparr>st_ws = ss_workspace session, st_version = ss_pendingVersion session,
                      st_path = sourcePath, st_written = False\<rparr>
           in case insertAll staged_key False [row] (db_staged db) of
                Inl e \<Rightarrow> sessionFail e session
              | Inr rows \<Rightarrow> (Inr (), session\<lparr>ss_db := db\<lparr>db_staged := rows\<rparr>\<rparr>))"

definition unwrittenSource :: "str \<Rightarrow> nat \<Rightarrow> str \<Rightarrow> staged_row \<Rightarrow> bool" where
  "unwrittenSource ws version p s \<longleftrightarrow> st_ws s = ws \<and> st_version s = version \<and> st_path s = p \<and> \<not> st_written s"

definition WriteContribution :: "bool \<Rightarrow> Contribution \<Rightarrow> session \<Rightarrow> (storage_error + unit) \<times> session" where
  "WriteContribution cancelled contribution session =
     (if ss_closed session then (Inl InvalidRequest, session)
      else if ss_sealed session then (Inl InvalidRequest, session)
      else if cancelled then sessionFail Cancelled session
      else let db = ss_db session; ws = ss_workspace session; version = ss_pendingVersion session;
               sourcePath = c_sourcePath contribution;
               hit = unwrittenSource ws version sourcePath;
               db' = db\<lparr>db_staged := map (\<lambda>s. if hit s then s\<lparr>st_written := True\<rparr> else s) (db_staged db)\<rparr>
           in if length (filter hit (db_staged db)) \<noteq> 1 then sessionFail InvalidRequest session
              else case encodeContributions \<lparr>gu_contributions = [contribution]\<rparr> of
                     Inl e \<Rightarrow> sessionFail e session
                   | Inr encoded \<Rightarrow>
                       (case addBatch ws version (prepareContribution ws version 0 (encoded ! 0)) (ss_batch session, db') of
                          Inl e \<Rightarrow> sessionFail e session
                        | Inr (batch, db'') \<Rightarrow> (Inr (), session\<lparr>ss_batch := batch, ss_db := db''\<rparr>)))"

definition SealContributions :: "session \<Rightarrow> (storage_error + unit) \<times> session" where
  "SealContributions session =
     (if ss_closed session then (Inl InvalidRequest, session)
      else if ss_sealed session then (Inr (), session)
      else case flush (ss_batch session, ss_db session) of
             Inl e \<Rightarrow> sessionFail e session
           | Inr (batch, db) \<Rightarrow> (Inr (), session\<lparr>ss_batch := batch, ss_db := db, ss_sealed := True\<rparr>))"

definition checkReplacement :: "session \<Rightarrow> Contribution \<Rightarrow> str set \<Rightarrow> storage_error + str set" where
  "checkReplacement session contribution updated =
     (case find (\<lambda>s. st_ws s = ss_workspace session \<and> st_version s = ss_pendingVersion session
                     \<and> st_path s = c_sourcePath contribution) (db_staged (ss_db session)) of
        None \<Rightarrow> Inl InvalidRequest
      | Some s \<Rightarrow>
          if \<not> st_written s then Inl InvalidRequest
          else if c_sourcePath contribution \<in> updated then Inl InvalidRequest
          else Inr (insert (c_sourcePath contribution) updated))"

definition ReplaceContributionDependencies ::
  "int \<Rightarrow> Contribution list \<Rightarrow> session \<Rightarrow> (storage_error + unit) \<times> session" where
  "ReplaceContributionDependencies variableLimit contributions session =
     (if ss_closed session then (Inl InvalidRequest, session)
      else if \<not> ss_sealed session then (Inl InvalidRequest, session)
      else case foldE (checkReplacement session) contributions {} of
             Inl e \<Rightarrow> sessionFail e session
           | Inr updated \<Rightarrow>
               let ws = ss_workspace session; version = ss_pendingVersion session;
                   db = updateTable (filter (\<lambda>r. \<not> (r_ws r = ws \<and> r_path r \<in> updated \<and> r_from r = version)))
                          contribution_dependencies (ss_db session);
                   rows = concat (map (\<lambda>c. map (\<lambda>d. \<lparr>r_ws = ws, r_path = c_sourcePath c, r_from = version, r_to = None,
                                                  r_payload = DependencyRow (dep_TargetPath d)\<rparr>) (c_dependencies c)) contributions)
               in case insertRows variableLimit (int maximumBatchRows) row_cells
                         (insertTable True contribution_dependencies) rows db of
                    Inl e \<Rightarrow> sessionFail e session
                  | Inr db' \<Rightarrow> (Inr (), session\<lparr>ss_db := db'\<rparr>))"

definition WriteWorkspaceFacts :: "int \<Rightarrow> bool \<Rightarrow> Facts \<Rightarrow> session \<Rightarrow> (storage_error + unit) \<times> session" where
  "WriteWorkspaceFacts variableLimit cancelled facts session =
     (if ss_closed session then (Inl InvalidRequest, session)
      else if \<not> ss_sealed session then (Inl InvalidRequest, session)
      else if ss_workspaceFactsSealed session then (Inl InvalidRequest, session)
      else if cancelled then sessionFail Cancelled session
      else case storeWorkspaceFacts variableLimit defaultWorkspaceFactLimits (ss_workspace session)
                  (ss_pendingVersion session) facts (ss_db session) of
             Inl e \<Rightarrow> sessionFail e session
           | Inr db \<Rightarrow> (Inr (), session\<lparr>ss_db := db, ss_workspaceFactsWritten := True\<rparr>))"

definition closeMissingSources :: "session \<Rightarrow> session" where
  "closeMissingSources session =
     (if ss_missingSourcesClosed session then session
      else if ss_pendingVersion session = 1 then session\<lparr>ss_missingSourcesClosed := True\<rparr>
      else session\<lparr>ss_db := closeContributionsMissingFromStagedSources (ss_workspace session)
                              (ss_pendingVersion session) (ss_db session),
                   ss_missingSourcesClosed := True\<rparr>)"

definition SealWorkspaceFacts :: "bool \<Rightarrow> session \<Rightarrow> (storage_error + FactCounts) \<times> session" where
  "SealWorkspaceFacts cancelled session =
     (if ss_closed session then (Inl InvalidRequest, session)
      else if \<not> ss_sealed session then (Inl InvalidRequest, session)
      else if cancelled then sessionFail Cancelled session
      else let session = closeMissingSources session; ws = ss_workspace session; v = ss_pendingVersion session in
        (Inr \<lparr>fc_Nodes = length (filter (\<lambda>n. wn_ws n = ws \<and> wn_version n = v) (db_nodes (ss_db session))),
              fc_Edges = length (filter (\<lambda>e. we_ws e = ws \<and> we_version e = v) (db_edges (ss_db session)))\<rparr>,
         session\<lparr>ss_workspaceFactsSealed := True\<rparr>))"

text \<open>The commit result carries the new committed database.\<close>

definition CommitSession :: "publish_env \<Rightarrow> session \<Rightarrow> (storage_error + Snapshot \<times> database) \<times> session" where
  "CommitSession env session =
     (if ss_closed session then (Inl InvalidRequest, session)
      else if ss_workspaceFactsWritten session \<and> \<not> ss_workspaceFactsSealed session then (Inl InvalidRequest, session)
      else case flush (ss_batch session, ss_db session) of
             Inl e \<Rightarrow> sessionFail e session
           | Inr (batch, db) \<Rightarrow>
               let session = closeMissingSources (session\<lparr>ss_batch := batch, ss_db := db\<rparr>);
                   ws = ss_workspace session; version = ss_pendingVersion session
               in case bindE (recordVersion env ws version (ss_db session)) (\<lambda>db.
                        bindE (pruneRetained ws version db) (\<lambda>db.
                        bindE (ensureDatabaseBudget env db) (\<lambda>_.
                        Inr (db\<lparr>db_staged := filter (\<lambda>s. \<not> (st_ws s = ws \<and> st_version s = version)) (db_staged db)\<rparr>)))) of
                    Inl e \<Rightarrow> sessionFail e session
                  | Inr db \<Rightarrow> (Inr (\<lparr>sn_Workspace = ws, sn_Version = version, sn_PublishedAt = pe_now env\<rparr>, db),
                               session\<lparr>ss_db := db, ss_closed := True\<rparr>))"

definition RollbackSession :: "session \<Rightarrow> (storage_error + unit) \<times> session" where
  "RollbackSession session =
     (if ss_closed session then (Inr (), session) else (Inr (), session\<lparr>ss_closed := True\<rparr>))"

section \<open>Sessions as a state machine\<close>

text \<open>The calls a client can make, and whether a call succeeds. The committed database goes with the session; only a
  successful commit hands over a new one.\<close>

datatype session_call =
  StageCall str | WriteCall bool Contribution | SealCall | ReplaceCall int "Contribution list" | FactsCall int bool Facts
| SealFactsCall bool | CommitCall publish_env | RollbackCall

fun succeeded :: "(storage_error + 'a) \<times> session \<Rightarrow> database \<Rightarrow> bool \<times> database \<times> session" where
  "succeeded (r, s) db = (\<not> isl r, db, s)"

fun sessionCall :: "session_call \<Rightarrow> database \<Rightarrow> session \<Rightarrow> bool \<times> database \<times> session" where
  "sessionCall (StageCall p) db s = succeeded (StageSource p s) db"
| "sessionCall (WriteCall cancelled c) db s = succeeded (WriteContribution cancelled c s) db"
| "sessionCall SealCall db s = succeeded (SealContributions s) db"
| "sessionCall (ReplaceCall l cs) db s = succeeded (ReplaceContributionDependencies l cs s) db"
| "sessionCall (FactsCall l cancelled facts) db s = succeeded (WriteWorkspaceFacts l cancelled facts s) db"
| "sessionCall (SealFactsCall cancelled) db s = succeeded (SealWorkspaceFacts cancelled s) db"
| "sessionCall (CommitCall env) db s =
     (case CommitSession env s of (Inl e, s') \<Rightarrow> (False, db, s') | (Inr (snapshot, db'), s') \<Rightarrow> (True, db', s'))"
| "sessionCall RollbackCall db s = succeeded (RollbackSession s) db"

inductive session_step :: "database \<times> session \<Rightarrow> database \<times> session \<Rightarrow> bool" where
  call: "sessionCall c db s = (ok, db', s') \<Longrightarrow> session_step (db, s) (db', s')"

text \<open>The phases of an open session: sources are staged and written before the contributions are sealed, dependencies and workspace facts
  after that, facts only until they are sealed, and a commit needs the facts sealed if there are any.\<close>

fun callAllowed :: "session_call \<Rightarrow> session \<Rightarrow> bool" where
  "callAllowed (StageCall _) s = (\<not> ss_sealed s)"
| "callAllowed (WriteCall _ _) s = (\<not> ss_sealed s)"
| "callAllowed (ReplaceCall _ _) s = ss_sealed s"
| "callAllowed (FactsCall _ _ _) s = (ss_sealed s \<and> \<not> ss_workspaceFactsSealed s)"
| "callAllowed (SealFactsCall _) s = ss_sealed s"
| "callAllowed (CommitCall _) s = (ss_workspaceFactsWritten s \<longrightarrow> ss_workspaceFactsSealed s)"
| "callAllowed _ s = True"

lemmas session_op_defs =
  StageSource_def WriteContribution_def SealContributions_def ReplaceContributionDependencies_def
  WriteWorkspaceFacts_def SealWorkspaceFacts_def CommitSession_def RollbackSession_def

lemma closed_session_call:
  "ss_closed s \<Longrightarrow> sessionCall c db s = (c = RollbackCall, db, s)"
  by (cases c) (simp_all add: session_op_defs)

lemma refused_session_call:
  "\<not> ss_closed s \<Longrightarrow> \<not> callAllowed c s \<Longrightarrow> sessionCall c db s = (False, db, s)"
  by (cases c) (auto simp: session_op_defs)

lemma closeMissingSources_closed [simp]: "ss_closed (closeMissingSources s) = ss_closed s"
  by (simp add: closeMissingSources_def)

lemma allowed_session_call:
  assumes "\<not> ss_closed s" "callAllowed c s" "sessionCall c db s = (ok, db', s')"
  shows "ss_closed s' \<longleftrightarrow> \<not> ok \<or> (\<exists>env. c = CommitCall env) \<or> c = RollbackCall"
    "db' \<noteq> db \<Longrightarrow> ok \<and> (\<exists>env. c = CommitCall env)"
proof -
  have "(ss_closed s' \<longleftrightarrow> \<not> ok \<or> (\<exists>env. c = CommitCall env) \<or> c = RollbackCall) \<and> (db' \<noteq> db \<longrightarrow> ok \<and> (\<exists>env. c = CommitCall env))"
    using assms
    by (cases c) (auto simp: session_op_defs sessionFail_def Let_def split: if_splits sum.splits prod.splits)
  then show "ss_closed s' \<longleftrightarrow> \<not> ok \<or> (\<exists>env. c = CommitCall env) \<or> c = RollbackCall"
    "db' \<noteq> db \<Longrightarrow> ok \<and> (\<exists>env. c = CommitCall env)" by blast+
qed

lemma open_session_base:
  assumes "session_step\<^sup>*\<^sup>* x y" "\<not> ss_closed (snd y)"
  shows "\<not> ss_closed (snd x) \<and> fst y = fst x"
  using assms
proof (induction rule: rtranclp_induct)
  case (step y z)
  from step.hyps(2) obtain c db s ok db' s' where call: "y = (db, s)" "z = (db', s')" "sessionCall c db s = (ok, db', s')"
    by cases auto
  have "\<not> ss_closed s" using call closed_session_call [of s c db] step.prems by auto
  moreover have "db' = db"
  proof (cases "callAllowed c s")
    case True
    then show ?thesis using allowed_session_call [OF \<open>\<not> ss_closed s\<close> True call(3)] step.prems call(2) by auto
  next
    case False
    then show ?thesis using refused_session_call [OF \<open>\<not> ss_closed s\<close>, of c db] call(3) by simp
  qed
  ultimately show ?case using step.IH call by simp
qed simp

section \<open>Staging and writing\<close>

text \<open>The transaction of an open session whose sources \<open>staged\<close> are staged and whose
  contributions \<open>written\<close> are written; \<open>base\<close> is the committed database.\<close>

definition writtenTables :: "database \<Rightarrow> str \<Rightarrow> Contribution list \<Rightarrow> ctable \<Rightarrow> vrow list" where
  "writtenTables base ws written t =
     map (closedRow ws (c_sourcePath ` set written) (currentVersion base ws)) (db_tables base t) @
     stored_rows ws (currentVersion base ws + 1) written t"

definition stagedRows :: "database \<Rightarrow> str \<Rightarrow> str list \<Rightarrow> Contribution list \<Rightarrow> staged_row list" where
  "stagedRows base ws staged written =
     map (\<lambda>p. \<lparr>st_ws = ws, st_version = currentVersion base ws + 1, st_path = p,
               st_written = (p \<in> c_sourcePath ` set written)\<rparr>) staged"

definition session_inv :: "database \<Rightarrow> str \<Rightarrow> str list \<Rightarrow> Contribution list \<Rightarrow> session \<Rightarrow> bool" where
  "session_inv base ws staged written s \<longleftrightarrow>
     ss_workspace s = ws \<and> ss_pendingVersion s = currentVersion base ws + 1 \<and>
     \<not> ss_closed s \<and> \<not> ss_sealed s \<and> \<not> ss_missingSourcesClosed s \<and> \<not> ss_workspaceFactsWritten s \<and>
     \<not> ss_workspaceFactsSealed s \<and>
     distinct staged \<and> distinct (map c_sourcePath written) \<and> c_sourcePath ` set written \<subseteq> set staged \<and>
     batch_ok (ss_batch s) \<and> pending_paths (ss_batch s) \<subseteq> c_sourcePath ` set written \<and>
     db_staged (ss_db s) = stagedRows base ws staged written \<and>
     settled (ss_batch s, ss_db s) =
       Inr (base\<lparr>db_tables := writtenTables base ws written, db_staged := stagedRows base ws staged written\<rparr>)"

lemma settle_staged:
  "settle pend (db\<lparr>db_staged := x\<rparr>) = bindE (settle pend db) (\<lambda>d. Inr (d\<lparr>db_staged := x\<rparr>))"
  by (simp add: settle_def)

lemma settle_only_tables: "settle pend db = Inr db' \<Longrightarrow> \<exists>T. db' = db\<lparr>db_tables := T\<rparr>"
  by (auto simp: settle_Inr)

lemma Begin_inv:
  assumes "ws \<noteq> []" "env_ok env" "db_staged base = []"
  shows "\<exists>s. BeginContributionSession env ws base = Inr s \<and> session_inv base ws [] [] s"
proof -
  have "16 \<le> pe_variableLimit env" using assms(2) by (simp add: env_ok_def)
  note b = newPublicationBatch_ok [OF this]
  have "writtenTables base ws [] = db_tables base"
    by (simp add: writtenTables_def fun_eq_iff stored_rows_def map_idI closedRow_other)
  then show ?thesis
    using assms b by (simp add: BeginContributionSession_def session_inv_def stagedRows_def settled_def settle_empty pending_paths_def)
qed

lemma StageSource_inv:
  assumes inv: "session_inv base ws staged written s" and p: "p \<noteq> []" "p \<notin> set staged"
  shows "\<exists>s'. StageSource p s = (Inr (), s') \<and> session_inv base ws (staged @ [p]) written s'"
proof -
  let ?row = "\<lparr>st_ws = ws, st_version = currentVersion base ws + 1, st_path = p, st_written = False\<rparr>"
  have w: "p \<notin> c_sourcePath ` set written" using inv p(2) by (auto simp: session_inv_def)
  have rows: "stagedRows base ws staged written @ [?row] = stagedRows base ws (staged @ [p]) written"
    using w by (simp add: stagedRows_def)
  have "staged_key ?row \<notin> staged_key ` set (stagedRows base ws staged written)"
    using p(2) by (auto simp: stagedRows_def staged_key_def)
  then have "insertAll staged_key False [?row] (db_staged (ss_db s)) = Inr (stagedRows base ws (staged @ [p]) written)"
    using inv rows by (simp add: insertAll_plain session_inv_def)
  moreover have "settled (ss_batch s, (ss_db s)\<lparr>db_staged := stagedRows base ws (staged @ [p]) written\<rparr>) =
      Inr (base\<lparr>db_tables := writtenTables base ws written, db_staged := stagedRows base ws (staged @ [p]) written\<rparr>)"
    using inv by (simp add: settled_def settle_staged session_inv_def)
  ultimately show ?thesis
    using inv p by (auto simp: StageSource_def session_inv_def Let_def)
qed

lemma stored_rows_snoc: "stored_rows ws v (cs @ [c]) t = stored_rows ws v cs t @ stored_rows ws v [c] t"
  by (simp add: stored_rows_def)

lemma WriteContribution_inv:
  assumes wf: "wf_db base" and inv: "session_inv base ws staged written s"
    and c: "c_sourcePath c \<in> set staged" "c_sourcePath c \<notin> c_sourcePath ` set written"
  shows "\<exists>s'. WriteContribution False c s = (Inr (), s') \<and> session_inv base ws staged (written @ [c]) s'"
proof -
  let ?v = "currentVersion base ws + 1" and ?p = "c_sourcePath c"
  let ?hit = "unwrittenSource ws ?v ?p" and ?prep = "prepareContribution ws ?v 0 c"
  let ?mark = "\<lambda>r. if ?hit r then r\<lparr>st_written := True\<rparr> else r"
  note i = inv [unfolded session_inv_def]
  have one: "length (filter ?hit (db_staged (ss_db s))) = 1"
  proof -
    have "filter ?hit (stagedRows base ws staged written) =
        map (\<lambda>p. \<lparr>st_ws = ws, st_version = ?v, st_path = p, st_written = (p \<in> c_sourcePath ` set written)\<rparr>) (filter (\<lambda>p. p = ?p) staged)"
      unfolding stagedRows_def filter_map using c(2)
      by (intro arg_cong2 [where f = map] refl filter_cong) (auto simp: unwrittenSource_def)
    moreover have "filter (\<lambda>p. p = ?p) staged = [?p]"
      using filter_eq_single [of "\<lambda>p. p" staged ?p] i c(1) by simp
    ultimately show ?thesis using i by simp
  qed
  have marked: "map ?mark (db_staged (ss_db s)) = stagedRows base ws staged (written @ [c])"
    using i by (auto simp: stagedRows_def unwrittenSource_def)
  define db' where "db' = (ss_db s)\<lparr>db_staged := stagedRows base ws staged (written @ [c])\<rparr>"
  let ?base' = "base\<lparr>db_tables := writtenTables base ws written, db_staged := stagedRows base ws staged (written @ [c])\<rparr>"
  have set': "settled (ss_batch s, db') = Inr ?base'"
    using i by (simp add: db'_def settled_def settle_staged)
  have pend: "c_sourcePath (p_contribution ?prep) \<notin> pending_paths (ss_batch s)" using i c(2) by auto
  note add = addBatch_settled [OF _ prepareContribution_ok pend]
  have store: "storeContribution ws ?v ?prep ?base' =
      Inr (?base'\<lparr>db_tables := writtenTables base ws (written @ [c])\<rparr>)"
  proof -
    have "storeContribution ws ?v ?prep ?base' = Inr (?base'\<lparr>db_tables := (\<lambda>t. map (closedRow ws {?p} (?v - 1)) (db_tables ?base' t) @ stored_rows ws ?v [c] t)\<rparr>)"
    proof (rule storeContribution_eq)
      fix t r assume r: "r \<in> set (db_tables ?base' t)" "r_ws r = ws" "r_path r = ?p"
      have "r \<notin> set (stored_rows ws ?v written t)"
      proof
        assume "r \<in> set (stored_rows ws ?v written t)"
        from stored_rows_path [OF this] r(3) c(2) show False by simp
      qed
      with r(1) obtain r0 where "r0 \<in> set (db_tables base t)" "r = closedRow ws (c_sourcePath ` set written) (currentVersion base ws) r0"
        by (auto simp: writtenTables_def)
      with r(2) wf_rows_before [OF wf, of r0 t ws] show "1 \<le> r_from r \<and> r_from r < ?v" by simp
    qed
    moreover have "map (closedRow ws {?p} (?v - 1)) (db_tables ?base' t) @ stored_rows ws ?v [c] t = writtenTables base ws (written @ [c]) t" for t
    proof -
      have "closedRow ws {?p} (?v - 1) r = r" if "r \<in> set (stored_rows ws ?v written t)" for r
      proof (rule closedRow_other)
        show "r_path r \<notin> {?p}" using stored_rows_path [OF that] c(2) by auto
      qed
      moreover have "closedRow ws {?p} u (closedRow ws P u r) = closedRow ws (insert ?p P) u r" for P u r by (auto simp: closedRow_def)
      ultimately show ?thesis by (simp add: writtenTables_def stored_rows_snoc map_idI comp_def)
    qed
    ultimately show ?thesis by simp
  qed
  have run: "bindE (addBatch ws ?v ?prep (ss_batch s, db')) settled = Inr (?base'\<lparr>db_tables := writtenTables base ws (written @ [c])\<rparr>)"
    using add(1) [of ws ?v db'] i set' store by simp
  then obtain b'' db'' where ok: "addBatch ws ?v ?prep (ss_batch s, db') = Inr (b'', db'')" by auto
  have b'': "batch_ok b''" "pending_paths b'' \<subseteq> insert ?p (pending_paths (ss_batch s))"
    using add(2) [OF _ ok] i by auto
  have settled'': "settled (b'', db'') = Inr (?base'\<lparr>db_tables := writtenTables base ws (written @ [c])\<rparr>)"
    using run ok by simp
  then obtain T where "?base'\<lparr>db_tables := writtenTables base ws (written @ [c])\<rparr> = db''\<lparr>db_tables := T\<rparr>"
    using settle_only_tables [of "pending b''" db''] by (auto simp: settled_def)
  from arg_cong [OF this, of db_staged] have staged'': "db_staged db'' = stagedRows base ws staged (written @ [c])"
    by simp
  have "WriteContribution False c s = (Inr (), s\<lparr>ss_batch := b'', ss_db := db''\<rparr>)"
    using i one marked ok by (simp add: WriteContribution_def Let_def encodeContributions_eq db'_def [symmetric])
  moreover have "session_inv base ws staged (written @ [c]) (s\<lparr>ss_batch := b'', ss_db := db''\<rparr>)"
    using i b'' settled'' staged'' c by (auto simp: session_inv_def)
  ultimately show ?thesis by blast
qed

section \<open>The protocol of a session\<close>

text \<open>Staging and writing may alternate; then contributions are sealed, workspace facts written
  and sealed, and the session is committed, as the initial indexing pipeline does it.\<close>

datatype source_op = StageOp str | WriteOp Contribution

definition stepE :: "(session \<Rightarrow> (storage_error + 'a) \<times> session) \<Rightarrow> session \<Rightarrow> storage_error + session" where
  "stepE op s = (case op s of (Inl e, _) \<Rightarrow> Inl e | (Inr _, s') \<Rightarrow> Inr s')"

fun sourceStep :: "source_op \<Rightarrow> session \<Rightarrow> storage_error + session" where
  "sourceStep (StageOp p) = stepE (StageSource p)"
| "sourceStep (WriteOp c) = stepE (WriteContribution False c)"

definition runSession ::
  "publish_env \<Rightarrow> str \<Rightarrow> source_op list \<Rightarrow> Facts \<Rightarrow> database \<Rightarrow> storage_error + Snapshot \<times> database" where
  "runSession env ws ops facts db =
     bindE (BeginContributionSession env ws db) (\<lambda>s.
     bindE (foldE sourceStep ops s) (\<lambda>s.
     bindE (stepE SealContributions s) (\<lambda>s.
     bindE (stepE (WriteWorkspaceFacts (pe_variableLimit env) False facts) s) (\<lambda>s.
     bindE (stepE (SealWorkspaceFacts False) s) (\<lambda>s. fst (CommitSession env s))))))"

definition staged_of :: "source_op list \<Rightarrow> str list" where
  "staged_of ops = concat (map (\<lambda>op. case op of StageOp p \<Rightarrow> [p] | WriteOp _ \<Rightarrow> []) ops)"

definition written_of :: "source_op list \<Rightarrow> Contribution list" where
  "written_of ops = concat (map (\<lambda>op. case op of StageOp _ \<Rightarrow> [] | WriteOp c \<Rightarrow> [c]) ops)"

text \<open>Every source is staged once, before its only contribution is written.\<close>

fun ops_ok :: "str set \<Rightarrow> str set \<Rightarrow> source_op list \<Rightarrow> bool" where
  "ops_ok staged written [] = True"
| "ops_ok staged written (StageOp p # ops) = (p \<noteq> [] \<and> p \<notin> staged \<and> ops_ok (insert p staged) written ops)"
| "ops_ok staged written (WriteOp c # ops) =
     (c_sourcePath c \<in> staged \<and> c_sourcePath c \<notin> written \<and> ops_ok staged (insert (c_sourcePath c) written) ops)"

lemma sourceSteps_inv:
  assumes "wf_db base" "session_inv base ws staged written s" "ops_ok (set staged) (c_sourcePath ` set written) ops"
  shows "\<exists>s'. foldE sourceStep ops s = Inr s' \<and> session_inv base ws (staged @ staged_of ops) (written @ written_of ops) s'"
  using assms(2,3)
proof (induction ops arbitrary: staged written s)
  case Nil
  then show ?case by (simp add: staged_of_def written_of_def)
next
  case (Cons op ops)
  show ?case
  proof (cases op)
    case (StageOp p)
    then obtain s1 where "StageSource p s = (Inr (), s1)" "session_inv base ws (staged @ [p]) written s1"
      using StageSource_inv [OF Cons.prems(1)] Cons.prems(2) by auto
    with Cons.IH [of "staged @ [p]" written s1] Cons.prems(2) StageOp show ?thesis
      by (simp add: stepE_def staged_of_def written_of_def)
  next
    case (WriteOp c)
    then obtain s1 where "WriteContribution False c s = (Inr (), s1)" "session_inv base ws staged (written @ [c]) s1"
      using WriteContribution_inv [OF assms(1) Cons.prems(1)] Cons.prems(2) by auto
    with Cons.IH [of staged "written @ [c]" s1] Cons.prems(2) WriteOp show ?thesis
      by (simp add: stepE_def staged_of_def written_of_def)
  qed
qed

text \<open>The request a committed session amounts to, and the sources whose rows it closes: those
  written anew and those not staged.\<close>

definition sessionRequest :: "str \<Rightarrow> Contribution list \<Rightarrow> Facts \<Rightarrow> PublishRequest" where
  "sessionRequest ws written facts =
     \<lparr>pr_Workspace = ws, pr_Update = \<lparr>gu_contributions = written\<rparr>, pr_WorkspaceFacts = facts, pr_ReplacedOwners = []\<rparr>"

definition sessionClosed :: "str list \<Rightarrow> Contribution list \<Rightarrow> str set" where
  "sessionClosed staged written = c_sourcePath ` set written \<union> - set staged"

definition facts_fit :: "factBatchLimits \<Rightarrow> str \<Rightarrow> nat \<Rightarrow> Facts \<Rightarrow> bool" where
  "facts_fit limits ws v facts \<longleftrightarrow>
     (\<forall>n \<in> set (factNodeRows ws v facts). \<not> too_large limits (wnode_cells n)) \<and>
     (\<forall>e \<in> set (factEdgeRows ws v facts). \<not> too_large limits (wedge_cells e))"

lemma closeMissing_eq:
  "closeContributionsMissingFromStagedSources ws v db =
     db\<lparr>db_tables := (\<lambda>t. map (closedRow ws {p. \<not> stagedSource db ws v p} (v - 1)) (db_tables db t))\<rparr>"
proof -
  have "(\<lambda>r. if r_ws r = ws \<and> r_to r = None \<and> \<not> stagedSource db ws v (r_path r) then r\<lparr>r_to := Some (v - 1)\<rparr> else r) =
      closedRow ws {p. \<not> stagedSource db ws v p} (v - 1)"
    by (auto simp: fun_eq_iff closedRow_def)
  then show ?thesis
    unfolding closeContributionsMissingFromStagedSources_def
    by (intro database.equality) (simp_all add: fun_eq_iff)
qed

lemma stagedSource_staged:
  "db_staged db = stagedRows base ws staged written \<Longrightarrow> stagedSource db ws (currentVersion base ws + 1) p \<longleftrightarrow> p \<in> set staged"
  by (auto simp: stagedSource_def stagedRows_def list_ex_iff)

lemma sessionTables:
  assumes "c_sourcePath ` set written \<subseteq> set staged"
  shows "map (closedRow ws (- set staged) (currentVersion base ws)) (writtenTables base ws written t) =
    map (closedRow ws (sessionClosed staged written) (currentVersion base ws)) (db_tables base t) @
    stored_rows ws (currentVersion base ws + 1) written t"
proof -
  have "closedRow ws (- set staged) u r = r" if "r \<in> set (stored_rows ws v written t)" for r u v
    using stored_rows_path [OF that] assms by (intro closedRow_other) auto
  moreover have "closedRow ws A u (closedRow ws B u r) = closedRow ws (B \<union> A) u r" for A B u r
    by (auto simp: closedRow_def)
  ultimately show ?thesis by (simp add: writtenTables_def sessionClosed_def map_idI comp_def)
qed

lemma first_version_no_rows:
  assumes "wf_db base" "currentVersion base ws = 0" "r \<in> set (db_tables base t)"
  shows "r_ws r \<noteq> ws"
  using wf_rows_before [OF assms(1,3), of ws] assms(2) by auto

lemma SealContributions_eq:
  assumes "session_inv base ws staged written s"
  defines "X \<equiv> base\<lparr>db_tables := writtenTables base ws written, db_staged := stagedRows base ws staged written\<rparr>"
  shows "\<exists>b'. stepE SealContributions s = Inr (s\<lparr>ss_batch := b', ss_db := X, ss_sealed := True\<rparr>) \<and> batch_ok b' \<and> pending b' = (\<lambda>_. [])"
proof -
  have ok: "batch_ok (ss_batch s)" and X: "settled (ss_batch s, ss_db s) = Inr X"
    using assms by (auto simp: session_inv_def)
  from flush_eq(1) [OF ok, of "ss_db s"] X obtain b' where "flush (ss_batch s, ss_db s) = Inr (b', X)" by auto
  moreover from flush_eq(2) [OF ok this] have "batch_ok b'" "pending b' = (\<lambda>_. [])" by auto
  ultimately show ?thesis
    using assms(1) by (auto simp: stepE_def SealContributions_def session_inv_def)
qed

lemma flush_nothing:
  assumes "batch_ok b" "pending b = (\<lambda>_. [])"
  shows "\<exists>b'. flush (b, db) = Inr (b', db)"
  using flush_eq(1) [OF assms(1), of db] assms(2) by (auto simp: settled_def settle_empty)

lemma pruned_staged [simp]: "pruned ws b (db\<lparr>db_staged := S\<rparr>) = (pruned ws b db)\<lparr>db_staged := S\<rparr>"
  by (simp add: pruned_def)

lemma wf_staged [simp]: "wf_db (db\<lparr>db_staged := S\<rparr>) = wf_db db"
  by (simp add: wf_db_def currentVersion_def [abs_def] workspace_versions_def)

lemma versions_staged [simp]: "workspace_versions (db\<lparr>db_staged := S\<rparr>) ws = workspace_versions db ws"
  by (simp add: workspace_versions_def)

definition within_budget :: "publish_env \<Rightarrow> bool" where
  "within_budget env \<longleftrightarrow> (\<forall>db. ensureDatabaseBudget env db = Inr ())"

lemma CommitSession_ok:
  assumes "\<not> ss_closed s" "ss_workspaceFactsSealed s" "ss_missingSourcesClosed s" "flush (ss_batch s, ss_db s) = Inr (b', Z)"
    "ss_workspace s = ws" "ss_pendingVersion s = v" "recordVersion env ws v Z = Inr A" "pruneRetained ws v A = Inr B"
    "ensureDatabaseBudget env B = Inr ()"
  shows "fst (CommitSession env s) = Inr (\<lparr>sn_Workspace = ws, sn_Version = v, sn_PublishedAt = pe_now env\<rparr>,
    B\<lparr>db_staged := filter (\<lambda>s. \<not> (st_ws s = ws \<and> st_version s = v)) (db_staged B)\<rparr>)"
  using assms by (simp add: CommitSession_def closeMissingSources_def Let_def)

lemma runSession_eq:
  assumes wf: "wf_db base" and env: "env_ok env" "within_budget env" and ws: "ws \<noteq> []" and clean: "db_staged base = []"
    and ops: "ops_ok {} {} ops"
  defines "v \<equiv> currentVersion base ws + 1"
  assumes fit: "facts_fit defaultWorkspaceFactLimits ws v facts"
    and boundary: "25 < v \<Longrightarrow> v - 24 \<in> set (workspace_versions base ws)"
  defines "db1 \<equiv> publishedWith (sessionClosed (staged_of ops) (written_of ops)) env (sessionRequest ws (written_of ops) facts) base"
  shows "runSession env ws ops facts base =
    Inr (\<lparr>sn_Workspace = ws, sn_Version = v, sn_PublishedAt = pe_now env\<rparr>, if 25 < v then pruned ws (v - 24) db1 else db1)"
proof -
  let ?staged = "staged_of ops" and ?written = "written_of ops" and ?M = "currentVersion base ws"
  let ?S = "stagedRows base ws ?staged ?written"
  obtain s0 where s0: "BeginContributionSession env ws base = Inr s0" "session_inv base ws [] [] s0"
    using Begin_inv [OF ws env(1) clean] by blast
  obtain s1 where s1: "foldE sourceStep ops s0 = Inr s1" "session_inv base ws ?staged ?written s1"
    using sourceSteps_inv [OF wf s0(2), of ops] ops by auto
  note i = s1(2) [unfolded session_inv_def]
  let ?X = "base\<lparr>db_tables := writtenTables base ws ?written, db_staged := ?S\<rparr>"
  obtain b2 where s2: "stepE SealContributions s1 = Inr (s1\<lparr>ss_batch := b2, ss_db := ?X, ss_sealed := True\<rparr>)"
      and b2: "batch_ok b2" "pending b2 = (\<lambda>_. [])" using SealContributions_eq [OF s1(2)] by blast
  define Y where "Y = ?X\<lparr>db_nodes := db_nodes base @ fresh_rows wnode_key (factNodeRows ws v facts) {},
      db_edges := db_edges base @ fresh_rows wedge_key (factEdgeRows ws v facts) (wedge_key ` set (db_edges base))\<rparr>"
  have "15 \<le> pe_variableLimit env" using env(1) by (simp add: env_ok_def)
  then have facts: "storeWorkspaceFacts (pe_variableLimit env) defaultWorkspaceFactLimits ws v facts ?X = Inr Y"
    using fit fresh_fact_nodes [OF wf, of ws facts]
    by (subst storeWorkspaceFacts_eq) (auto simp: facts_fit_def factNodeRows_def v_def Y_def)
  let ?s3 = "s1\<lparr>ss_batch := b2, ss_db := Y, ss_sealed := True, ss_workspaceFactsWritten := True\<rparr>"
  have s3: "stepE (WriteWorkspaceFacts (pe_variableLimit env) False facts) (s1\<lparr>ss_batch := b2, ss_db := ?X, ss_sealed := True\<rparr>) = Inr ?s3"
    using i facts by (simp add: stepE_def WriteWorkspaceFacts_def v_def)
  define Z where "Z = Y\<lparr>db_tables := (\<lambda>t. map (closedRow ws (- set ?staged) ?M) (writtenTables base ws ?written t))\<rparr>"
  have missing: "closeMissingSources ?s3 = ?s3\<lparr>ss_db := Z, ss_missingSourcesClosed := True\<rparr>"
  proof (cases "v = 1")
    case True
    have "closedRow ws (- set ?staged) ?M r = r" if "r \<in> set (writtenTables base ws ?written t)" for r t
    proof (cases "r \<in> set (stored_rows ws (?M + 1) ?written t)")
      case True
      with stored_rows_path [OF this] i show ?thesis by (intro closedRow_other) auto
    next
      case False
      with that obtain r0 where "r0 \<in> set (db_tables base t)" "r_ws r = r_ws r0"
        by (auto simp: writtenTables_def)
      with first_version_no_rows [OF wf, of ws r0 t] True show ?thesis by (simp add: closedRow_def v_def)
    qed
    then have "(\<lambda>t. map (closedRow ws (- set ?staged) ?M) (writtenTables base ws ?written t)) = writtenTables base ws ?written"
      by (simp add: fun_eq_iff map_idI)
    then have "Z = Y" unfolding Z_def by (simp add: Y_def)
    then show ?thesis using i True by (simp add: closeMissingSources_def v_def)
  next
    case False
    have "db_staged Y = ?S" by (simp add: Y_def)
    then have "{p. \<not> stagedSource Y ws v p} = - set ?staged"
      using stagedSource_staged [of Y base ws ?staged ?written] by (auto simp: v_def)
    moreover have "db_tables Y = writtenTables base ws ?written" by (simp add: Y_def)
    ultimately have "closeContributionsMissingFromStagedSources ws v Y = Z"
      by (simp add: closeMissing_eq Z_def v_def)
    with i False show ?thesis by (simp add: closeMissingSources_def v_def)
  qed
  let ?s4 = "?s3\<lparr>ss_db := Z, ss_missingSourcesClosed := True, ss_workspaceFactsSealed := True\<rparr>"
  have s4: "stepE (SealWorkspaceFacts False) ?s3 = Inr ?s4"
    using i missing by (simp add: stepE_def SealWorkspaceFacts_def Let_def)
  obtain b5 where b5: "flush (b2, Z) = Inr (b5, Z)" using flush_nothing [OF b2] by blast
  have cur: "currentVersion Z ws = ?M" by (rule currentVersion_cong) (simp add: Z_def Y_def)
  have rec: "recordVersion env ws v Z = Inr (db1\<lparr>db_staged := ?S\<rparr>)"
  proof -
    have "db1\<lparr>db_staged := ?S\<rparr> = Z\<lparr>db_versions := db_versions Z @ [\<lparr>gv_ws = ws, gv_version = v, gv_published = pe_now env\<rparr>]\<rparr>"
      unfolding db1_def publishedWith_def Let_def sessionRequest_def Z_def Y_def
      using sessionTables [of ?written ?staged ws base] i
      by (simp add: retained_edges_def v_def)
    with recordVersion_eq [OF env(1), of ws Z] cur show ?thesis by (simp add: v_def)
  qed
  have wf1: "wf_db db1"
    unfolding db1_def by (rule wf_published [OF wf]) (use i in \<open>auto simp: sessionRequest_def sessionClosed_def\<close>)
  have vs: "25 < v \<Longrightarrow> v - 24 \<in> set (workspace_versions db1 ws)"
    using boundary by (simp add: db1_def workspace_versions_published)
  have prune: "pruneRetained ws v (db1\<lparr>db_staged := ?S\<rparr>) = Inr ((if 25 < v then pruned ws (v - 24) db1 else db1)\<lparr>db_staged := ?S\<rparr>)"
  proof (cases "25 < v")
    case True
    then have "v - 25 + 1 = v - 24" by simp
    with True show ?thesis
      using pruneVersions_eq [of "db1\<lparr>db_staged := ?S\<rparr>" "v - 24" ws] wf1 vs
      by (simp add: pruneRetained_def retainedGraphVersions_def)
  qed (simp add: pruneRetained_def retainedGraphVersions_def)
  have unstage: "(D\<lparr>db_staged := filter (\<lambda>s. \<not> (st_ws s = ws \<and> st_version s = v)) ?S\<rparr>) = D" if "db_staged D = []" for D
  proof -
    have "filter (\<lambda>s. \<not> (st_ws s = ws \<and> st_version s = v)) ?S = []" by (auto simp: stagedRows_def v_def)
    then show ?thesis using that by (metis (no_types, lifting) database.surjective database.update_convs(5))
  qed
  have "db_staged (if 25 < v then pruned ws (v - 24) db1 else db1) = []"
    using clean by (simp add: db1_def publishedWith_def Let_def pruned_def)
  note un = unstage [OF this]
  have "fst (CommitSession env ?s4) =
      Inr (\<lparr>sn_Workspace = ws, sn_Version = v, sn_PublishedAt = pe_now env\<rparr>, if 25 < v then pruned ws (v - 24) db1 else db1)"
  proof -
    let ?D = "if 25 < v then pruned ws (v - 24) db1 else db1"
    have "fst (CommitSession env ?s4) = Inr (\<lparr>sn_Workspace = ws, sn_Version = v, sn_PublishedAt = pe_now env\<rparr>,
        (?D\<lparr>db_staged := ?S\<rparr>)\<lparr>db_staged := filter (\<lambda>s. \<not> (st_ws s = ws \<and> st_version s = v)) (db_staged (?D\<lparr>db_staged := ?S\<rparr>))\<rparr>)"
      by (rule CommitSession_ok [where b' = b5 and Z = Z, OF _ _ _ _ _ _ rec prune])
        (use i b5 env(2) in \<open>auto simp: within_budget_def v_def\<close>)
    also have "(?D\<lparr>db_staged := ?S\<rparr>)\<lparr>db_staged := filter (\<lambda>s. \<not> (st_ws s = ws \<and> st_version s = v)) (db_staged (?D\<lparr>db_staged := ?S\<rparr>))\<rparr> = ?D"
      using un by (cases "25 < v") (simp_all only: if_True if_False database.simps, simp_all)
    finally show ?thesis .
  qed
  then show ?thesis
    using s0(1) s1(1) s2 s3 s4 by (simp add: runSession_def)
qed

lemma session_result:
  fixes facts :: Facts
  assumes "wf_db base" "env_ok env" "within_budget env" "ws \<noteq> []" "db_staged base = []" "ops_ok {} {} ops"
    "facts_fit defaultWorkspaceFactLimits ws (currentVersion base ws + 1) facts"
    "25 < currentVersion base ws + 1 \<longrightarrow> currentVersion base ws - 23 \<in> set (workspace_versions base ws)"
  shows "\<exists>s db'. runSession env ws ops facts base = Inr (s, db') \<and> sn_Workspace s = ws \<and> sn_Version s = currentVersion base ws + 1 \<and>
    wf_db db' \<and> db_staged db' = [] \<and>
    (\<forall>t. contents db' t ws (currentVersion base ws + 1) =
       filter (\<lambda>(p, _). p \<in> set (staged_of ops) \<and> p \<notin> c_sourcePath ` set (written_of ops))
         (contents base t ws (currentVersion base ws)) @
       concat (map (\<lambda>c. map (Pair (c_sourcePath c)) (stored_payloads c t)) (written_of ops))) \<and>
    nodes_at db' ws (currentVersion base ws + 1) = fresh_rows n_ID (f_Nodes facts) {} \<and>
    (\<forall>u. retention_boundary (currentVersion base ws + 1) \<le> u \<and> u \<le> currentVersion base ws \<longrightarrow> same_view base db' ws u) \<and>
    (\<forall>ws' u. ws' \<noteq> ws \<longrightarrow> same_view base db' ws' u)"
proof -
  let ?v = "currentVersion base ws + 1" and ?P = "sessionClosed (staged_of ops) (written_of ops)"
  let ?req = "sessionRequest ws (written_of ops) facts"
  define db1 where "db1 = publishedWith ?P env ?req base"
  define db2 where "db2 = (if 25 < ?v then pruned ws (?v - 24) db1 else db1)"
  have bound: "25 < ?v \<Longrightarrow> ?v - 24 \<in> set (workspace_versions base ws)" using assms(8) by simp
  have run: "runSession env ws ops facts base = Inr (\<lparr>sn_Workspace = ws, sn_Version = ?v, sn_PublishedAt = pe_now env\<rparr>, db2)"
    unfolding db2_def db1_def by (rule runSession_eq [OF assms(1-7) bound])
  obtain s0 where "session_inv base ws [] [] s0" using Begin_inv [OF assms(4,2,5)] by blast
  then obtain s1 where "session_inv base ws (staged_of ops) (written_of ops) s1"
    using sourceSteps_inv [OF assms(1), of ws "[]" "[]" s0 ops] assms(6) by auto
  then have "distinct (map c_sourcePath (written_of ops))" by (simp add: session_inv_def)
  then have wf1: "wf_db db1"
    unfolding db1_def by (intro wf_published [OF assms(1)]) (auto simp: sessionRequest_def sessionClosed_def)
  have vs: "25 < ?v \<Longrightarrow> ?v - 24 \<in> set (workspace_versions db1 ws)"
    using bound by (simp add: db1_def workspace_versions_published)
  have wf2: "wf_db db2" using wf1 vs by (simp add: db2_def wf_pruned)
  have late: "same_view db1 db2 ws' u" if "ws' \<noteq> ws \<or> retention_boundary ?v \<le> u" for ws' u
  proof (cases "25 < ?v")
    case True
    then have "retention_boundary ?v = ?v - 24" by (simp add: retention_boundary_def retainedGraphVersions_def)
    with that True show ?thesis by (auto simp: db2_def simp del: One_nat_def intro!: same_view_pruned)
  qed (simp add: db2_def)
  have early: "same_view base db1 ws' u" if "ws' \<noteq> ws \<or> u \<le> currentVersion base ws'" for ws' u
    unfolding db1_def using that by (intro same_view_published) (auto simp: sessionRequest_def)
  have now: "same_view db1 db2 ws ?v"
    by (rule late) (simp add: retention_boundary_def retainedGraphVersions_def)
  have "contents db1 t ws ?v = updated_contents ?P (written_of ops) (contents base t ws (currentVersion base ws)) t" for t
    using contents_published [OF assms(1), of ?P env ?req t] by (simp add: db1_def sessionRequest_def)
  moreover have "nodes_at db1 ws ?v = fresh_rows n_ID (f_Nodes facts) {}"
    using nodes_at_published [OF assms(1), of ?P env ?req] by (simp add: db1_def sessionRequest_def)
  moreover have "updated_contents ?P cs old t = filter (\<lambda>(p, _). p \<in> set (staged_of ops) \<and> p \<notin> c_sourcePath ` set (written_of ops)) old @
      concat (map (\<lambda>c. map (Pair (c_sourcePath c)) (stored_payloads c t)) cs)" for cs old t
    unfolding updated_contents_def by (intro arg_cong2 [where f = append] filter_cong refl) (auto simp: sessionClosed_def)
  moreover have "db_staged db2 = []"
    using assms(5) by (simp add: db2_def db1_def publishedWith_def Let_def pruned_def)
  ultimately show ?thesis
    using run wf2 now early late by (auto simp: same_view_def)
qed

section \<open>Properties\<close>

text \<open>C24. A session that stages its sources, writes their contributions in any interleaving, seals,
  writes workspace facts, seals and commits, publishes exactly one version: written sources show
  their new contribution, staged sources without one keep what they had, sources that were not
  staged disappear, and earlier retained versions and other workspaces show what they
  showed. With the named preconditions the session never fails.\<close>

theorem session_publishes:
  fixes facts :: Facts
  assumes "wf_db base" "env_ok env" "within_budget env" "ws \<noteq> []" "db_staged base = []" "ops_ok {} {} ops"
    "facts_fit defaultWorkspaceFactLimits ws (currentVersion base ws + 1) facts"
    "25 < currentVersion base ws + 1 \<longrightarrow> currentVersion base ws - 23 \<in> set (workspace_versions base ws)"
  shows "\<exists>s db'. runSession env ws ops facts base = Inr (s, db') \<and> sn_Version s = currentVersion base ws + 1 \<and>
    wf_db db' \<and> db_staged db' = [] \<and>
    (\<forall>t. contents db' t ws (currentVersion base ws + 1) =
       filter (\<lambda>(p, _). p \<in> set (staged_of ops) \<and> p \<notin> c_sourcePath ` set (written_of ops))
         (contents base t ws (currentVersion base ws)) @
       concat (map (\<lambda>c. map (Pair (c_sourcePath c)) (stored_payloads c t)) (written_of ops))) \<and>
    nodes_at db' ws (currentVersion base ws + 1) = fresh_rows n_ID (f_Nodes facts) {} \<and>
    (\<forall>u. retention_boundary (currentVersion base ws + 1) \<le> u \<and> u \<le> currentVersion base ws \<longrightarrow> same_view base db' ws u) \<and>
    (\<forall>ws' u. ws' \<noteq> ws \<longrightarrow> same_view base db' ws' u)"
  using session_result [OF assms] by blast

theorem session_publishes_witness:
  "\<exists>s db'. runSession sampleEnv ''w'' [StageOp ''a'', WriteOp (emptyContribution ''a''), StageOp ''b'']
       \<lparr>f_Nodes = [], f_Edges = []\<rparr> emptyDatabase = Inr (s, db') \<and> sn_Version s = 1 \<and>
     contents db' contribution_extensions ''w'' 1 = [(''a'', ExtensionRow ''.go'')]"
proof -
  have "within_budget sampleEnv" by (simp add: within_budget_def ensureDatabaseBudget_def sampleEnv_def)
  from session_publishes [OF wf_emptyDatabase sampleEnv_ok(1) this, of "''w''"
      "[StageOp ''a'', WriteOp (emptyContribution ''a''), StageOp ''b'']" "\<lparr>f_Nodes = [], f_Edges = []\<rparr>"]
  show ?thesis
    by (auto simp: emptyDatabase_def emptyContribution_def facts_fit_def factNodeRows_def factEdgeRows_def
        currentVersion_empty [unfolded emptyDatabase_def] contents_def visible_rows_def written_of_def
        stored_payloads_def)
qed

text \<open>C25. A session exposes no partial facts. As long as it is open, the committed database is the one it began with. A closed session
  refuses every call but a rollback, and stays as it is. An open session refuses a call of the wrong
  phase and stays as it is; any other call either succeeds or closes the session. A commit and a
  rollback always close it, no other successful call does, and only a successful commit changes the committed
  database.\<close>

theorem session_atomic:
  assumes "session_step\<^sup>*\<^sup>* (base, s0) (db, s)" "sessionCall c db s = (ok, db', s')"
  shows "if ss_closed s then ok = (c = RollbackCall) \<and> db' = db \<and> s' = s
    else db = base \<and>
      (if callAllowed c s
       then (ss_closed s' \<longleftrightarrow> \<not> ok \<or> (\<exists>env. c = CommitCall env) \<or> c = RollbackCall) \<and>
         (db' \<noteq> base \<longrightarrow> ok \<and> (\<exists>env. c = CommitCall env))
       else \<not> ok \<and> db' = base \<and> s' = s)"
  using open_session_base [OF assms(1)] assms(2) closed_session_call [of s c db] refused_session_call [of s c db]
    allowed_session_call [OF _ _ assms(2)] by auto

text \<open>Staging the empty path closes the session, and then even a rollback changes nothing.\<close>

theorem session_atomic_witness:
  "\<exists>s s' s''. BeginContributionSession sampleEnv ''w'' emptyDatabase = Inr s \<and>
     session_step\<^sup>*\<^sup>* (emptyDatabase, s) (emptyDatabase, s') \<and> \<not> ss_closed s' \<and>
     sessionCall (StageCall []) emptyDatabase s' = (False, emptyDatabase, s'') \<and> ss_closed s'' \<and>
     sessionCall RollbackCall emptyDatabase s'' = (True, emptyDatabase, s'')"
proof -
  obtain s where s: "BeginContributionSession sampleEnv ''w'' emptyDatabase = Inr s" "session_inv emptyDatabase ''w'' [] [] s"
    using Begin_inv [OF _ sampleEnv_ok(1), of "''w''" emptyDatabase] by (auto simp: emptyDatabase_def)
  obtain s' where s': "StageSource ''a'' s = (Inr (), s')" "session_inv emptyDatabase ''w'' [''a''] [] s'"
    using StageSource_inv [OF s(2), of "''a''"] by auto
  have first: "session_step\<^sup>*\<^sup>* (emptyDatabase, s) (emptyDatabase, s')"
    by (rule r_into_rtranclp, rule session_step.call [of "StageCall ''a''"]) (simp add: s'(1))
  have state: "\<not> ss_closed s'" "\<not> ss_sealed s'" using s'(2) by (simp_all add: session_inv_def)
  then obtain s'' where fail: "sessionCall (StageCall []) emptyDatabase s' = (False, emptyDatabase, s'')"
    by (simp add: StageSource_def sessionFail_def)
  have closed: "ss_closed s''" using session_atomic [OF first fail] state by simp
  then have "sessionCall RollbackCall emptyDatabase s'' = (True, emptyDatabase, s'')" by (simp add: RollbackSession_def)
  then show ?thesis using s(1) first state(1) fail closed by blast
qed

end
