(* ===== verification/Paging.thy ===== *)
theory Paging
  imports Store_Batch
begin

text \<open>
  Reading in pages. The resolvers and the indexer read the store's files page by page:
  each request names the last path of the previous page and a limit, and the loop ends
  with the first empty page (\<^verbatim>\<open>visitPackageTargets\<close> in \<^verbatim>\<open>src/extractors/go/resolver.go\<close>, the page
  loops of \<^verbatim>\<open>src/index/index.go\<close> and \<^verbatim>\<open>src/index/initial_pipeline.go\<close>). The locale
  states what such a loop relies on; a loop over any provider that keeps it ends and
  visits every item once, in order, in pages of the limit.
\<close>

text \<open>The loop may run forever on a provider that repeats itself: \<open>None\<close> is not returning.\<close>

partial_function (option) pageLoop ::
  "(str \<Rightarrow> 'e + 'a list) \<Rightarrow> ('a \<Rightarrow> str) \<Rightarrow> ('a list \<Rightarrow> 's \<Rightarrow> 'e + 's) \<Rightarrow> str \<Rightarrow> 's \<Rightarrow> ('e + 's) option" where
  "pageLoop page key visit after s =
     (case page after of
        Inl e \<Rightarrow> Some (Inl e)
      | Inr items \<Rightarrow>
          if items = [] then Some (Inr s)
          else (case visit items s of
                  Inl e \<Rightarrow> Some (Inl e)
                | Inr s' \<Rightarrow> pageLoop page key visit (key (last items)) s'))"

lemma list_all2_last: "list_all2 P xs ys \<Longrightarrow> xs \<noteq> [] \<Longrightarrow> P (last xs) (last ys)"
  by (induction rule: list_all2_induct) auto

text \<open>Pages of a sorted listing of files, each file read by a fallible reader.\<close>

locale paged_reader =
  fixes page :: "str \<Rightarrow> 'e + 'a list" and key :: "'a \<Rightarrow> str"
    and files :: "'f list" and path :: "'f \<Rightarrow> str" and reader :: "'f \<Rightarrow> 'e + 'a"
    and limit :: nat and ready :: bool
  assumes page_law: "ready \<Longrightarrow> page after = mapE reader (take limit (filter (\<lambda>f. after < path f) files))"
    and reader_key: "f \<in> set files \<Longrightarrow> reader f = Inr x \<Longrightarrow> key x = path f"
    and ordered: "sorted (map path files)"
    and limit_positive: "ready \<Longrightarrow> 0 < limit"
begin

text \<open>What one page and the rest of the loop see: the listing after the last path read.\<close>

lemma after_split:
  assumes "ready" "distinct (map path files)" "files = done @ rest" "done \<noteq> []"
  shows "filter (\<lambda>f. path (last done) < path f) files = rest"
proof -
  obtain xs d where d: "done = xs @ [d]" using assms(4) by (cases "done" rule: rev_cases) auto
  have sorted: "sorted (map path (xs @ d # rest))" "distinct (map path (xs @ d # rest))"
    using ordered assms(2,3) d by simp_all
  have "\<not> path d < path f" if "f \<in> set xs" for f
    using sorted(1) that by (auto simp: sorted_append)
  moreover have "path d < path f" if "f \<in> set rest" for f
    using sorted that by (fastforce simp: sorted_append order.strict_iff_order)
  ultimately show ?thesis
    using assms(3) d by (simp add: filter_empty_conv)
qed

lemma pageLoop_rest:
  assumes "ready" "distinct (map path files)"
    "files = done @ rest" "filter (\<lambda>f. after < path f) files = rest" "mapE reader rest = Inr xs"
  shows "pageLoop page key visit after s = Some (foldE visit (chunks limit xs) s)"
  using assms
proof (induction "length rest" arbitrary: "done" rest after xs s rule: less_induct)
  case less
  note limit = limit_positive [OF less.prems(1)]
  have len: "length xs = length rest"
    using less.prems(5) by (auto simp: mapE_eq_Inr dest: list_all2_lengthD)
  have parts: "mapE reader (take limit rest) = Inr (take limit xs)" "mapE reader (drop limit rest) = Inr (drop limit xs)"
    using less.prems(5) by (simp_all add: mapE_eq_Inr)
  have page: "page after = Inr (take limit xs)"
    using page_law [OF less.prems(1)] less.prems(4) parts(1) by simp
  show ?case
  proof (cases "rest = []")
    case True
    then show ?thesis using page len by (simp add: pageLoop.simps chunks.simps)
  next
    case False
    let ?front = "take limit rest"
    from False limit have front: "?front \<noteq> []" by simp
    have key: "key (last (take limit xs)) = path (last ?front)"
    proof (rule reader_key)
      have "last ?front \<in> set rest" using last_in_set [OF front] by (rule in_set_takeD)
      then show "last ?front \<in> set files" using less.prems(3) by simp
      have "list_all2 (\<lambda>f x. reader f = Inr x) ?front (take limit xs)" using parts(1) by (simp add: mapE_eq_Inr)
      then show "reader (last ?front) = Inr (last (take limit xs))"
        using front by (rule list_all2_last)
    qed
    have again: "pageLoop page key visit (key (last (take limit xs))) s' = Some (foldE visit (chunks limit (drop limit xs)) s')" for s'
    proof (rule less.hyps [OF _ less.prems(1,2) _ _ parts(2)])
      show "length (drop limit rest) < length rest" using False limit by simp
      show split: "files = (done @ ?front) @ drop limit rest" using less.prems(3) by simp
      show "filter (\<lambda>f. key (last (take limit xs)) < path f) files = drop limit rest"
        using after_split [OF less.prems(1,2) split] front key by simp
    qed
    have "chunks limit xs = take limit xs # chunks limit (drop limit xs)"
      using False len limit by (subst chunks.simps) auto
    then show ?thesis
      using page again front len limit False
      by (subst pageLoop.simps) (auto split: sum.splits)
  qed
qed

text \<open>The loop returns, and has folded over the pages of the whole listing.\<close>

lemma pageLoop_pages:
  assumes "ready" "distinct (map path files)" "\<And>f. f \<in> set files \<Longrightarrow> path f \<noteq> []" "mapE reader files = Inr xs"
  shows "pageLoop page key visit [] s = Some (foldE visit (chunks limit xs) s)"
proof (rule pageLoop_rest [OF assms(1,2) _ _ assms(4)])
  show "files = [] @ files" by simp
  show "filter (\<lambda>f. [] < path f) files = files"
    using assms(3) by (simp add: filter_id_conv) (metis list.exhaust Nil_less_Cons)
qed

text \<open>A visitor of single items sees all of them in order.\<close>

lemma pageLoop_items:
  assumes "ready" "distinct (map path files)" "\<And>f. f \<in> set files \<Longrightarrow> path f \<noteq> []" "mapE reader files = Inr xs"
  shows "pageLoop page key (foldE visit) [] s = Some (foldE visit xs s)"
proof -
  have "foldE (foldE visit) ps s = foldE visit (concat ps) s" for ps s
    by (induction ps arbitrary: s) (auto simp: foldE_append intro!: bindE_cong)
  then show ?thesis
    using pageLoop_pages [OF assms, of "foldE visit" s] limit_positive [OF assms(1)] by (simp add: concat_chunks)
qed

end

end
