(* ===== verification/Store_Read.thy ===== *)
theory Store_Read
  imports Store_Session Paging
begin

text \<open>
  Reading contributions back (\<^verbatim>\<open>src/storage/sqlite/sqlite.go\<close>): the resolution data of a source,
  source contributions, resolver projections, projection pages, resolver targets and
  package pages, exported surfaces and the sources an update affects. Every read is a
  function of what its snapshot's version shows, so the views of the history theory determine all of
  them. \<^verbatim>\<open>ORDER BY\<close> is a stable sort on the named columns; text is compared bytewise
  (SQLite's \<^verbatim>\<open>BINARY\<close> collation).
\<close>

section \<open>The data of one source\<close>

record resolutionData =
  rsd_Extensions :: "str list"
  rsd_UnresolvedReferences :: "UnresolvedReference list"
  rsd_SymbolReferences :: "SymbolReference list"
  rsd_ExportedSurfaces :: "ExportedSurface list"
  rsd_Dependencies :: "Dependency list"
  rsd_Diagnostics :: "Diagnostic list"

text \<open>The visible rows of a table for one source path, in the order of the key columns.\<close>

definition sourceRows :: "database \<Rightarrow> ctable \<Rightarrow> Snapshot \<Rightarrow> str \<Rightarrow> payload list" where
  "sourceRows db t snapshot sourcePath =
     sort_key payload_key
       (map snd (filter (\<lambda>(p, _). p = sourcePath) (contents db t (sn_Workspace snapshot) (sn_Version snapshot))))"

fun ext_of :: "payload \<Rightarrow> str list" where
  "ext_of (ExtensionRow e) = [e]" | "ext_of _ = []"

fun node_of :: "payload \<Rightarrow> Node list" where
  "node_of (NodeRow n) = [n]" | "node_of _ = []"

fun edge_of :: "payload \<Rightarrow> Edge list" where
  "edge_of (EdgeRow e) = [e]" | "edge_of _ = []"

fun dep_of :: "payload \<Rightarrow> str list" where
  "dep_of (DependencyRow p) = [p]" | "dep_of _ = []"

fun surface_of :: "payload \<Rightarrow> ExportedSurface list" where
  "surface_of (SurfaceRow s) = [s]" | "surface_of _ = []"

fun diagnostic_of :: "payload \<Rightarrow> Diagnostic list" where
  "diagnostic_of (DiagnosticRow d) = [d]" | "diagnostic_of _ = []"

fun unresolved_of :: "payload \<Rightarrow> (str \<times> str \<times> ModuleReferenceKind \<times> bool) list" where
  "unresolved_of (UnresolvedRow s t k a) = [(s, t, k, a)]" | "unresolved_of _ = []"

fun binding_of :: "payload \<Rightarrow> (str \<times> str \<times> ModuleReferenceKind \<times> ModuleBinding) list" where
  "binding_of (BindingRow s t k b) = [(s, t, k, b)]" | "binding_of _ = []"

fun symbol_of :: "payload \<Rightarrow> SymbolReference list" where
  "symbol_of (SymbolRow r) = [r]" | "symbol_of _ = []"

definition rowsOf :: "(payload \<Rightarrow> 'a list) \<Rightarrow> payload list \<Rightarrow> 'a list" where
  "rowsOf f rows = concat (map f rows)"

definition readModuleBindings ::
  "database \<Rightarrow> Snapshot \<Rightarrow> str \<Rightarrow> str \<times> str \<times> ModuleReferenceKind \<Rightarrow> ModuleBinding list" where
  "readModuleBindings db snapshot sourcePath reference =
     map (\<lambda>(_, _, _, b). b)
       (filter (\<lambda>(s, t, k, _). (s, t, k) = reference)
         (rowsOf binding_of (sourceRows db contribution_module_bindings snapshot sourcePath)))"

definition readUnresolvedReferences :: "database \<Rightarrow> Snapshot \<Rightarrow> str \<Rightarrow> UnresolvedReference list" where
  "readUnresolvedReferences db snapshot sourcePath =
     map (\<lambda>(s, t, k, a). \<lparr>ur_SourceID = s, ur_Target = t, ur_Kind = k, ur_Ambiguous = a,
                         ur_Bindings = readModuleBindings db snapshot sourcePath (s, t, k)\<rparr>)
       (rowsOf unresolved_of (sourceRows db contribution_unresolved_references snapshot sourcePath))"

definition readSymbolReferences :: "database \<Rightarrow> Snapshot \<Rightarrow> str \<Rightarrow> SymbolReference list" where
  "readSymbolReferences db snapshot sourcePath =
     rowsOf symbol_of (sourceRows db contribution_symbol_references snapshot sourcePath)"

definition readContributionDiagnostics :: "database \<Rightarrow> Snapshot \<Rightarrow> str \<Rightarrow> Diagnostic list" where
  "readContributionDiagnostics db snapshot sourcePath =
     rowsOf diagnostic_of (sourceRows db contribution_diagnostics snapshot sourcePath)"

definition storeResolutionDataForSource :: "database \<Rightarrow> Snapshot \<Rightarrow> str \<Rightarrow> resolutionData" where
  "storeResolutionDataForSource db snapshot sourcePath =
     \<lparr>rsd_Extensions = rowsOf ext_of (sourceRows db contribution_extensions snapshot sourcePath),
      rsd_UnresolvedReferences = readUnresolvedReferences db snapshot sourcePath,
      rsd_SymbolReferences = readSymbolReferences db snapshot sourcePath,
      rsd_ExportedSurfaces = rowsOf surface_of (sourceRows db contribution_exported_surfaces snapshot sourcePath),
      rsd_Dependencies = map (\<lambda>targetPath. \<lparr>dep_SourcePath = sourcePath, dep_TargetPath = targetPath\<rparr>)
        (rowsOf dep_of (sourceRows db contribution_dependencies snapshot sourcePath)),
      rsd_Diagnostics = readContributionDiagnostics db snapshot sourcePath\<rparr>"

definition readContributionNodes :: "database \<Rightarrow> Snapshot \<Rightarrow> str \<Rightarrow> Node list" where
  "readContributionNodes db snapshot sourcePath =
     rowsOf node_of (sourceRows db contribution_nodes snapshot sourcePath)"

definition readContributionFacts :: "database \<Rightarrow> Snapshot \<Rightarrow> str \<Rightarrow> Facts" where
  "readContributionFacts db snapshot sourcePath =
     \<lparr>f_Nodes = readContributionNodes db snapshot sourcePath,
      f_Edges = rowsOf edge_of (sourceRows db contribution_edges snapshot sourcePath)\<rparr>"

section \<open>Files\<close>

text \<open>The visible rows of \<^verbatim>\<open>file_contributions\<close>: path, project, extractor name and version.\<close>

fun file_of :: "str \<times> payload \<Rightarrow> (str \<times> str \<times> str \<times> str) list" where
  "file_of (p, FileRow projectID name version) = [(p, projectID, name, version)]"
| "file_of _ = []"

definition visibleFiles :: "database \<Rightarrow> Snapshot \<Rightarrow> (str \<times> str \<times> str \<times> str) list" where
  "visibleFiles db snapshot =
     sort_key fst (concat (map file_of (contents db file_contributions (sn_Workspace snapshot) (sn_Version snapshot))))"

record SourceContribution =
  sc_SourcePath :: str
  sc_Metadata :: Metadata
  sc_Facts :: Facts
  sc_UnresolvedReferences :: "UnresolvedReference list"
  sc_SymbolReferences :: "SymbolReference list"
  sc_ExportedSurfaces :: "ExportedSurface list"
  sc_Dependencies :: "Dependency list"
  sc_Diagnostics :: "Diagnostic list"

definition noSnapshot :: "Snapshot \<Rightarrow> bool" where
  "noSnapshot snapshot \<longleftrightarrow> sn_Workspace snapshot = [] \<or> sn_Version snapshot = 0"

definition readSourceContribution ::
  "database \<Rightarrow> Snapshot \<Rightarrow> str \<times> str \<times> str \<times> str \<Rightarrow> storage_error + SourceContribution" where
  "readSourceContribution db snapshot file =
     (case file of (sourcePath, _, name, version) \<Rightarrow>
       let data = storeResolutionDataForSource db snapshot sourcePath;
           metadata = \<lparr>md_Name = name, md_Version = version, md_Extensions = rsd_Extensions data\<rparr>
       in bindE (liftE CorruptMetadata (MetadataValidate metadata)) (\<lambda>_.
          Inr \<lparr>sc_SourcePath = sourcePath, sc_Metadata = metadata,
               sc_Facts = readContributionFacts db snapshot sourcePath,
               sc_UnresolvedReferences = rsd_UnresolvedReferences data,
               sc_SymbolReferences = rsd_SymbolReferences data, sc_ExportedSurfaces = rsd_ExportedSurfaces data,
               sc_Dependencies = rsd_Dependencies data, sc_Diagnostics = rsd_Diagnostics data\<rparr>))"

definition SourceContributions :: "Snapshot \<Rightarrow> database \<Rightarrow> storage_error + SourceContribution list" where
  "SourceContributions snapshot db =
     (if noSnapshot snapshot then Inl InvalidRequest
      else mapE (readSourceContribution db snapshot) (visibleFiles db snapshot))"

section \<open>Resolver projections\<close>

definition readProjection ::
  "database \<Rightarrow> Snapshot \<Rightarrow> str \<times> str \<times> str \<times> str \<Rightarrow> storage_error + ResolverProjection" where
  "readProjection db snapshot file =
     (case file of (sourcePath, projectID, name, version) \<Rightarrow>
       let data = storeResolutionDataForSource db snapshot sourcePath;
           metadata = \<lparr>md_Name = name, md_Version = version, md_Extensions = rsd_Extensions data\<rparr>
       in bindE (liftE CorruptMetadata (MetadataValidate metadata)) (\<lambda>_.
          Inr \<lparr>pj_ProjectID = projectID, pj_SourcePath = sourcePath, pj_Metadata = metadata,
               pj_Nodes = readContributionNodes db snapshot sourcePath,
               pj_UnresolvedReferences = rsd_UnresolvedReferences data,
               pj_SymbolReferences = rsd_SymbolReferences data, pj_ExportedSurfaces = rsd_ExportedSurfaces data,
               pj_Dependencies = rsd_Dependencies data, pj_Diagnostics = rsd_Diagnostics data\<rparr>))"

text \<open>\<^verbatim>\<open>ResolverProjections\<close> on a cache miss; the cache is modelled separately.\<close>

definition readResolverProjections :: "Snapshot \<Rightarrow> database \<Rightarrow> storage_error + ResolverProjection list" where
  "readResolverProjections snapshot db = mapE (readProjection db snapshot) (visibleFiles db snapshot)"

record ResolverProjectionPageRequest =
  pp_ProjectID :: str
  pp_Language :: str
  pp_AfterSourcePath :: str
  pp_Limit :: int

definition projectionPageFiles ::
  "ResolverProjectionPageRequest \<Rightarrow> (str \<times> str \<times> str \<times> str) list \<Rightarrow> (str \<times> str \<times> str \<times> str) list" where
  "projectionPageFiles request files =
     take (nat (pp_Limit request))
       (filter (\<lambda>(p, projectID, name, _). projectID = pp_ProjectID request \<and> name = pp_Language request
                  \<and> pp_AfterSourcePath request < p) files)"

definition ResolverProjectionPage ::
  "Snapshot \<Rightarrow> ResolverProjectionPageRequest \<Rightarrow> database \<Rightarrow> storage_error + ResolverProjection list" where
  "ResolverProjectionPage snapshot request db =
     (if noSnapshot snapshot \<or> pp_ProjectID request = [] \<or> pp_Language request = [] \<or> pp_Limit request \<le> 0
      then Inl InvalidRequest
      else mapE (readProjection db snapshot) (projectionPageFiles request (visibleFiles db snapshot)))"

section \<open>Resolver targets and package pages\<close>

text \<open>The target of a file whose row was found.\<close>

definition foundTarget ::
  "database \<Rightarrow> Snapshot \<Rightarrow> ResolverTargetRequest \<Rightarrow> str \<Rightarrow> str \<Rightarrow> storage_error + ResolverTarget" where
  "foundTarget db snapshot request name version =
     (let data = storeResolutionDataForSource db snapshot (rt_SourcePath request);
          metadata = \<lparr>md_Name = name, md_Version = version, md_Extensions = rsd_Extensions data\<rparr>
      in bindE (liftE CorruptMetadata (MetadataValidate metadata)) (\<lambda>_.
         Inr \<lparr>tg_ProjectID = rt_ProjectID request, tg_SourcePath = rt_SourcePath request, tg_Metadata = metadata,
              tg_Nodes = readContributionNodes db snapshot (rt_SourcePath request),
              tg_UnresolvedReferences = rsd_UnresolvedReferences data,
              tg_SymbolReferences = rsd_SymbolReferences data,
              tg_ExportedSurfaces = rsd_ExportedSurfaces data,
              tg_Diagnostics = rsd_Diagnostics data\<rparr>))"

definition StoreResolverTarget ::
  "Snapshot \<Rightarrow> ResolverTargetRequest \<Rightarrow> database \<Rightarrow> storage_error + ResolverTarget option" where
  "StoreResolverTarget snapshot request db =
     (if noSnapshot snapshot \<or> rt_ProjectID request = [] \<or> rt_Language request = [] \<or> rt_SourcePath request = []
      then Inl InvalidRequest
      else (case find (\<lambda>(p, projectID, name, _). projectID = rt_ProjectID request \<and> name = rt_Language request
                         \<and> p = rt_SourcePath request) (visibleFiles db snapshot) of
              None \<Rightarrow> Inr None
            | Some (_, _, name, version) \<Rightarrow>
                bindE (foundTarget db snapshot request name version) (\<lambda>target. Inr (Some target))))"

text \<open>SQLite's \<^verbatim>\<open>LIKE\<close>: a percent sign stands for any text, an underscore for one
  character, and ASCII letters match in either case.\<close>

fun like :: "str \<Rightarrow> str \<Rightarrow> bool" where
  "like [] s = (s = [])"
| "like (c # p) [] = (c = CHR ''%'' \<and> like p [])"
| "like (c # p) (d # s) =
     (if c = CHR ''%'' then like p (d # s) \<or> like (c # p) s
      else (c = CHR ''_'' \<or> lower_char c = lower_char d) \<and> like p s)"

text \<open>\<^verbatim>\<open>INSTR(s, '/') = 0\<close>.\<close>

definition noSlash :: "str \<Rightarrow> bool" where
  "noSlash s = (CHR ''/'' \<notin> set s)"

definition packagePathFilter :: "str \<Rightarrow> str \<Rightarrow> bool" where
  "packagePathFilter packagePath sourcePath =
     (if packagePath \<noteq> ''.'' then
        let prefix = packagePath @ ''/'' in
        like (prefix @ ''%'') sourcePath \<and> noSlash (drop (length prefix) sourcePath)
      else like ''%'' sourcePath \<and> noSlash sourcePath)"

definition packagePagePaths :: "ResolverPackagePageRequest \<Rightarrow> (str \<times> str \<times> str \<times> str) list \<Rightarrow> str list" where
  "packagePagePaths request files =
     take (nat (rp_Limit request))
       (map fst (filter (\<lambda>(p, projectID, name, _). projectID = rp_ProjectID request \<and> name = rp_Language request
                           \<and> packagePathFilter (rp_PackagePath request) p \<and> rp_AfterSourcePath request < p) files))"

definition StoreResolverPackagePage ::
  "Snapshot \<Rightarrow> ResolverPackagePageRequest \<Rightarrow> database \<Rightarrow> storage_error + ResolverTarget list" where
  "StoreResolverPackagePage snapshot request db =
     (if noSnapshot snapshot \<or> rp_ProjectID request = [] \<or> rp_Language request = [] \<or> rp_PackagePath request = []
         \<or> rp_Limit request \<le> 0
      then Inl InvalidRequest
      else bindE (mapE (\<lambda>sourcePath. StoreResolverTarget snapshot
                   \<lparr>rt_ProjectID = rp_ProjectID request, rt_Language = rp_Language request, rt_SourcePath = sourcePath\<rparr> db)
                 (packagePagePaths request (visibleFiles db snapshot)))
             (\<lambda>targets. Inr (List.map_filter id targets)))"

section \<open>Affected sources\<close>

definition readExportedSurfaces :: "database \<Rightarrow> Snapshot \<Rightarrow> str \<Rightarrow> ExportedSurface list option" where
  "readExportedSurfaces db snapshot sourcePath =
     (if filter (\<lambda>(p, _). p = sourcePath) (contents db file_contributions (sn_Workspace snapshot) (sn_Version snapshot)) = []
      then None
      else Some (rowsOf surface_of (sourceRows db contribution_exported_surfaces snapshot sourcePath)))"

definition surfaceKey :: "ExportedSurface \<Rightarrow> str" where
  "surfaceKey surface = es_Name surface @ nul @ es_NodeID surface"

definition sameSurfaces :: "ExportedSurface list \<Rightarrow> ExportedSurface list \<Rightarrow> bool" where
  "sameSurfaces left right =
     (length left = length right \<and> list_all (\<lambda>surface. surfaceKey surface \<in> surfaceKey ` set left) right)"

definition dependentsOf :: "database \<Rightarrow> Snapshot \<Rightarrow> str list \<Rightarrow> str list" where
  "dependentsOf db snapshot targets =
     map fst (filter (\<lambda>(_, row). \<exists>p \<in> set (dep_of row). p \<in> set targets)
       (contents db contribution_dependencies (sn_Workspace snapshot) (sn_Version snapshot)))"

definition changedTargets :: "database \<Rightarrow> Snapshot \<Rightarrow> Contribution list \<Rightarrow> str list" where
  "changedTargets db snapshot updates =
     map c_sourcePath (filter (\<lambda>c.
       case readExportedSurfaces db snapshot (c_sourcePath c) of
         None \<Rightarrow> True | Some current \<Rightarrow> \<not> sameSurfaces current (c_exportedSurfaces c)) updates)"

definition AffectedSources :: "int \<Rightarrow> Snapshot \<Rightarrow> GraphUpdate \<Rightarrow> database \<Rightarrow> storage_error + str list" where
  "AffectedSources variableLimit snapshot update db =
     (if noSnapshot snapshot \<or> gu_contributions update = [] then Inl InvalidRequest
      else let changed = changedTargets db snapshot (gu_contributions update);
               paths = dedup_adjacent (sort changed);
               maximumPaths = nat (max 1 (variableLimit - 3));
               affected = concat (map (\<lambda>chunk. filter (\<lambda>p. p \<notin> set changed) (dependentsOf db snapshot chunk))
                            (chunks maximumPaths paths))
           in Inr (dedup_adjacent (sort affected)))"

section \<open>Reads depend on the view only\<close>

definition sameReads :: "database \<Rightarrow> database \<Rightarrow> Snapshot \<Rightarrow> bool" where
  "sameReads db db' snapshot \<longleftrightarrow>
     SourceContributions snapshot db' = SourceContributions snapshot db \<and>
     readResolverProjections snapshot db' = readResolverProjections snapshot db \<and>
     (\<forall>request. ResolverProjectionPage snapshot request db' = ResolverProjectionPage snapshot request db) \<and>
     (\<forall>request. StoreResolverTarget snapshot request db' = StoreResolverTarget snapshot request db) \<and>
     (\<forall>request. StoreResolverPackagePage snapshot request db' = StoreResolverPackagePage snapshot request db) \<and>
     (\<forall>limit update. AffectedSources limit snapshot update db' = AffectedSources limit snapshot update db)"

lemma contents_eq_reads:
  assumes "\<And>t. contents db' t (sn_Workspace s) (sn_Version s) = contents db t (sn_Workspace s) (sn_Version s)"
  shows "sourceRows db' t s p = sourceRows db t s p" "visibleFiles db' s = visibleFiles db s"
    "readModuleBindings db' s p r = readModuleBindings db s p r"
    "readUnresolvedReferences db' s p = readUnresolvedReferences db s p"
    "storeResolutionDataForSource db' s p = storeResolutionDataForSource db s p"
    "readContributionNodes db' s p = readContributionNodes db s p"
    "readContributionFacts db' s p = readContributionFacts db s p"
    "readExportedSurfaces db' s p = readExportedSurfaces db s p"
    "dependentsOf db' s ps = dependentsOf db s ps"
proof -
  show rows: "sourceRows db' t s p = sourceRows db t s p" for t p by (simp add: sourceRows_def assms)
  show "visibleFiles db' s = visibleFiles db s" by (simp add: visibleFiles_def assms)
  show bind: "readModuleBindings db' s p r = readModuleBindings db s p r" for r by (simp add: readModuleBindings_def rows)
  show unres: "readUnresolvedReferences db' s p = readUnresolvedReferences db s p"
    by (simp add: readUnresolvedReferences_def rows bind)
  show "storeResolutionDataForSource db' s p = storeResolutionDataForSource db s p"
    by (simp add: storeResolutionDataForSource_def unres rows readSymbolReferences_def readContributionDiagnostics_def)
  show nodes: "readContributionNodes db' s p = readContributionNodes db s p" by (simp add: readContributionNodes_def rows)
  show "readContributionFacts db' s p = readContributionFacts db s p" by (simp add: readContributionFacts_def rows nodes)
  show "readExportedSurfaces db' s p = readExportedSurfaces db s p" by (simp add: readExportedSurfaces_def rows assms)
  show "dependentsOf db' s ps = dependentsOf db s ps" by (simp add: dependentsOf_def assms)
qed

lemma same_view_reads:
  assumes "same_view db db' (sn_Workspace s) (sn_Version s)" shows "sameReads db db' s"
proof -
  have eq: "contents db' t (sn_Workspace s) (sn_Version s) = contents db t (sn_Workspace s) (sn_Version s)" for t
    using assms by (simp add: same_view_def)
  note reads = contents_eq_reads [OF eq]
  have target: "StoreResolverTarget s request db' = StoreResolverTarget s request db" for request
    unfolding StoreResolverTarget_def foundTarget_def reads by (rule refl)
  have projection: "readProjection db' s = readProjection db s"
    unfolding readProjection_def [abs_def] reads by (rule refl)
  have source: "readSourceContribution db' s = readSourceContribution db s"
    unfolding readSourceContribution_def [abs_def] reads by (rule refl)
  have "changedTargets db' s updates = changedTargets db s updates" for updates
    by (simp add: changedTargets_def reads)
  then show ?thesis
    by (simp add: sameReads_def SourceContributions_def readResolverProjections_def ResolverProjectionPage_def
        StoreResolverPackagePage_def AffectedSources_def source projection target reads)
qed

text \<open>
  A reader whose result is a function of what its version shows. Publication, rollback and
  pruning leave what such a reader returns for every version they keep.
\<close>

locale view_reader =
  fixes read :: "str \<Rightarrow> nat \<Rightarrow> database \<Rightarrow> 'a"
  assumes view_law: "same_view db db' ws v \<Longrightarrow> read ws v db' = read ws v db"
begin

lemma read_publish:
  assumes "wf_db db" "env_ok env" "publish env stage request db = Inr (s, db')"
    "v \<in> set (workspace_versions db' ws)" "ws \<noteq> pr_Workspace request \<or> v \<noteq> sn_Version s"
  shows "v \<in> set (workspace_versions db ws) \<and> read ws v db' = read ws v db"
proof -
  have kept: "v \<in> set (workspace_versions db ws) \<and>
      (ws \<noteq> pr_Workspace request \<or> retention_boundary (currentVersion db ws + 1) \<le> v)"
    by (rule publish_versions [OF assms])
  then have "ws \<noteq> pr_Workspace request \<or> retention_boundary (currentVersion db ws + 1) \<le> v \<and> v \<le> currentVersion db ws"
    using currentVersion_le by blast
  then have "same_view db db' ws v" by (rule publish_keeps_view [OF assms(1-3)])
  then show ?thesis using kept view_law by blast
qed

lemma read_rollback:
  assumes "Rollback ws' R db = Inr (s, db')" "v \<in> set (workspace_versions db' ws)"
  shows "v \<in> set (workspace_versions db ws) \<and> read ws v db' = read ws v db"
proof -
  have db': "db' = rolledBack ws' R db" using assms(1) by (auto simp: Rollback_eq split: if_splits option.splits)
  have "v \<in> set (workspace_versions db ws) \<and> (ws \<noteq> ws' \<or> v \<le> R)"
    using assms(2) by (auto simp: db' workspace_versions_rolledBack split: if_splits)
  then show ?thesis using view_law [OF same_view_rolledBack] by (auto simp: db')
qed

lemma read_prune:
  assumes "wf_db db" "Prune ws' b db = Inr (n, db')" "v \<in> set (workspace_versions db' ws)"
  shows "v \<in> set (workspace_versions db ws) \<and> read ws v db' = read ws v db"
proof -
  have "b \<in> set (workspace_versions db ws')" using assms(2) by (auto simp: Prune_def pruneVersions_def split: if_splits)
  with assms(1,2) have db': "db' = pruned ws' b db" by (auto simp: Prune_def pruneVersions_eq split: if_splits)
  have "v \<in> set (workspace_versions db ws) \<and> (ws \<noteq> ws' \<or> b \<le> v)"
    using assms(3) by (auto simp: db' workspace_versions_pruned split: if_splits)
  then show ?thesis using view_law [OF same_view_pruned] by (auto simp: db')
qed

end

definition snapshotOf :: "str \<Rightarrow> nat \<Rightarrow> Snapshot" where
  "snapshotOf ws v = \<lparr>sn_Workspace = ws, sn_Version = v, sn_PublishedAt = []\<rparr>"

interpretation projections_view: view_reader "\<lambda>ws v. readResolverProjections (snapshotOf ws v)"
  using same_view_reads by unfold_locales (simp add: sameReads_def snapshotOf_def)

interpretation sources_view: view_reader "\<lambda>ws v. SourceContributions (snapshotOf ws v)"
  using same_view_reads by unfold_locales (simp add: sameReads_def snapshotOf_def)

section \<open>Affected sources\<close>

text \<open>The sources whose dependencies name one of the given targets.\<close>

definition dependents :: "database \<Rightarrow> Snapshot \<Rightarrow> str set \<Rightarrow> str set" where
  "dependents db s targets =
     {p. \<exists>t \<in> targets. (p, DependencyRow t) \<in> set (contents db contribution_dependencies (sn_Workspace s) (sn_Version s))}"

lemma dep_of_mem [simp]: "t \<in> set (dep_of row) \<longleftrightarrow> row = DependencyRow t"
  by (cases row) auto

lemma set_dependentsOf: "set (dependentsOf db s ts) = dependents db s (set ts)"
  by (force simp: dependentsOf_def dependents_def)

lemma sets_of_chunks: "0 < n \<Longrightarrow> (\<Union>c \<in> set (chunks n xs). set c) = set xs"
  using concat_chunks [of n xs] by (metis set_concat)

lemma dependents_Union: "(\<Union>c \<in> set cs. dependents db s (set c)) = dependents db s (\<Union>c \<in> set cs. set c)"
  by (auto simp: dependents_def)

lemma set_changedTargets:
  "set (changedTargets db s updates) =
     {c_sourcePath c | c. c \<in> set updates \<and>
        (case readExportedSurfaces db s (c_sourcePath c) of
           None \<Rightarrow> True | Some current \<Rightarrow> \<not> sameSurfaces current (c_exportedSurfaces c))}"
  by (auto simp: changedTargets_def)

lemma AffectedSources_eq:
  fixes db :: database
  assumes "\<not> noSnapshot s" "gu_contributions update \<noteq> []"
  defines "changed \<equiv> set (changedTargets db s (gu_contributions update))"
  shows "AffectedSources variableLimit s update db = Inr (sorted_list_of_set (dependents db s changed - changed))"
proof -
  let ?n = "nat (max 1 (variableLimit - 3))"
  let ?paths = "dedup_adjacent (sort (changedTargets db s (gu_contributions update)))"
  have "set (concat (map (\<lambda>chunk. filter (\<lambda>p. p \<notin> changed) (dependentsOf db s chunk)) (chunks ?n ?paths))) =
      (\<Union>c \<in> set (chunks ?n ?paths). dependents db s (set c)) - changed"
    by (auto simp: set_dependentsOf)
  also have "\<dots> = dependents db s changed - changed"
    unfolding dependents_Union by (subst sets_of_chunks) (simp_all add: changed_def)
  finally show ?thesis
    using assms(1,2) unfolding changed_def
    by (simp add: AffectedSources_def dedup_adjacent_sort Let_def changed_def del: set_concat set_map)
qed

text \<open>On slices without repeated keys, comparing exported surfaces is comparing sets of keys.\<close>

lemma sameSurfaces_iff:
  assumes "distinct (map surfaceKey left)" "distinct (map surfaceKey right)"
  shows "sameSurfaces left right \<longleftrightarrow> surfaceKey ` set left = surfaceKey ` set right"
proof -
  have card: "card (surfaceKey ` set xs) = length xs" if "distinct (map surfaceKey xs)" for xs
    using distinct_card [OF that] by simp
  show ?thesis
  proof
    assume "sameSurfaces left right"
    then have "length left = length right" "surfaceKey ` set right \<subseteq> surfaceKey ` set left"
      by (auto simp: sameSurfaces_def list_all_iff)
    then show "surfaceKey ` set left = surfaceKey ` set right"
      using card [OF assms(1)] card [OF assms(2)] by (metis List.finite_set card_subset_eq finite_imageI)
  next
    assume "surfaceKey ` set left = surfaceKey ` set right"
    then show "sameSurfaces left right"
      using card [OF assms(1)] card [OF assms(2)] by (simp add: sameSurfaces_def list_all_iff)
  qed
qed

section \<open>Package paths\<close>

lemma like_any: "like ''%'' s"
  by (induction s) auto

text \<open>Text without wildcards matches itself, up to letter case.\<close>

definition plain :: "str \<Rightarrow> bool" where
  "plain p \<longleftrightarrow> CHR ''%'' \<notin> set p \<and> CHR ''_'' \<notin> set p"

lemma like_plain_prefix:
  "plain p \<Longrightarrow> like (p @ ''%'') s \<longleftrightarrow> ToLower (take (length p) s) = ToLower p"
proof (induction p arbitrary: s)
  case (Cons c p)
  show ?case
  proof (cases s)
    case (Cons d u)
    then show ?thesis using Cons.prems Cons.IH [of u] by (auto simp: plain_def ToLower_def)
  qed (use Cons.prems in \<open>auto simp: plain_def ToLower_def\<close>)
qed (simp add: like_any)

section \<open>Pages\<close>

definition ofProject :: "str \<Rightarrow> str \<Rightarrow> (str \<times> str \<times> str \<times> str) list \<Rightarrow> (str \<times> str \<times> str \<times> str) list" where
  "ofProject projectID language files = filter (\<lambda>(_, project, name, _). project = projectID \<and> name = language) files"

definition ofPackage :: "str \<Rightarrow> (str \<times> str \<times> str \<times> str) list \<Rightarrow> (str \<times> str \<times> str \<times> str) list" where
  "ofPackage packagePath files = filter (\<lambda>(p, _). packagePathFilter packagePath p) files"

definition projectionRequest :: "str \<Rightarrow> str \<Rightarrow> int \<Rightarrow> str \<Rightarrow> ResolverProjectionPageRequest" where
  "projectionRequest projectID language limit after =
     \<lparr>pp_ProjectID = projectID, pp_Language = language, pp_AfterSourcePath = after, pp_Limit = limit\<rparr>"

definition packageRequest :: "str \<Rightarrow> str \<Rightarrow> str \<Rightarrow> int \<Rightarrow> str \<Rightarrow> ResolverPackagePageRequest" where
  "packageRequest projectID language packagePath limit after =
     \<lparr>rp_ProjectID = projectID, rp_Language = language, rp_PackagePath = packagePath, rp_AfterSourcePath = after, rp_Limit = limit\<rparr>"

lemma projectionRequest_simps [simp]:
  "pp_ProjectID (projectionRequest i l n a) = i" "pp_Language (projectionRequest i l n a) = l"
  "pp_AfterSourcePath (projectionRequest i l n a) = a" "pp_Limit (projectionRequest i l n a) = n"
  by (simp_all add: projectionRequest_def)

text \<open>Reading one listed file as a target: a listed file is always found.\<close>

definition readTarget :: "database \<Rightarrow> Snapshot \<Rightarrow> str \<times> str \<times> str \<times> str \<Rightarrow> storage_error + ResolverTarget" where
  "readTarget db s file =
     (case file of (p, projectID, language, _) \<Rightarrow>
       bindE (StoreResolverTarget s \<lparr>rt_ProjectID = projectID, rt_Language = language, rt_SourcePath = p\<rparr> db)
         (\<lambda>target. case target of None \<Rightarrow> Inl InvalidRequest | Some t \<Rightarrow> Inr t))"

lemma sorted_visibleFiles: "sorted (map fst (visibleFiles db s))"
  by (simp add: visibleFiles_def)

lemma sorted_map_filter: "sorted (map f xs) \<Longrightarrow> sorted (map f (filter P xs))"
  by (rule sorted_filter)

lemma readProjection_path: "readProjection db s f = Inr x \<Longrightarrow> pj_SourcePath x = fst f"
  by (auto simp: readProjection_def Let_def split: prod.splits)

lemma StoreResolverTarget_path: "StoreResolverTarget s r db = Inr (Some t) \<Longrightarrow> tg_SourcePath t = rt_SourcePath r"
  by (auto simp: StoreResolverTarget_def foundTarget_def Let_def split: if_splits option.splits)

lemma readTarget_path: "readTarget db s f = Inr x \<Longrightarrow> tg_SourcePath x = fst f"
  by (cases f) (force simp: readTarget_def dest: StoreResolverTarget_path split: option.splits)

lemma projectionPageFiles_eq:
  "projectionPageFiles (projectionRequest projectID language limit after) files =
     take (nat limit) (filter (\<lambda>f. after < fst f) (ofProject projectID language files))"
  by (simp add: projectionPageFiles_def projectionRequest_def ofProject_def conj_ac)
    (rule arg_cong [where f = "take _"], rule filter_cong, auto)

lemma packagePagePaths_eq:
  "packagePagePaths (packageRequest projectID language packagePath limit after) files =
     map fst (take (nat limit) (filter (\<lambda>f. after < fst f) (ofPackage packagePath (ofProject projectID language files))))"
  by (simp add: packagePagePaths_def packageRequest_def ofProject_def ofPackage_def take_map)
    (rule arg_cong [where f = "\<lambda>xs. map fst (take _ xs)"], rule filter_cong, auto)

lemma StoreResolverTarget_missing:
  "StoreResolverTarget s r db = Inr None \<Longrightarrow>
     (p, rt_ProjectID r, rt_Language r, version) \<in> set (visibleFiles db s) \<Longrightarrow> p \<noteq> rt_SourcePath r"
  by (auto simp: StoreResolverTarget_def find_None_iff split: if_splits option.splits)

lemma listed_target_found:
  assumes "f \<in> set (ofProject projectID language (visibleFiles db s))"
  shows "StoreResolverTarget s \<lparr>rt_ProjectID = projectID, rt_Language = language, rt_SourcePath = fst f\<rparr> db \<noteq> Inr None"
  using assms by (auto simp: ofProject_def dest: StoreResolverTarget_missing)

lemma mapE_found:
  assumes "\<And>f. f \<in> set fs \<Longrightarrow> g f \<noteq> Inr None"
  shows "bindE (mapE g fs) (\<lambda>xs. Inr (List.map_filter id xs)) =
    mapE (\<lambda>f. bindE (g f) (\<lambda>x. case x of None \<Rightarrow> Inl e | Some t \<Rightarrow> Inr t)) fs"
  using assms
proof (induction fs)
  case (Cons f fs)
  have IH: "bindE (mapE g fs) (\<lambda>xs. Inr (List.map_filter id xs)) =
      mapE (\<lambda>f. bindE (g f) (\<lambda>x. case x of None \<Rightarrow> Inl e | Some t \<Rightarrow> Inr t)) fs"
    by (rule Cons.IH) (simp add: Cons.prems)
  show ?case
  proof (cases "g f")
    case (Inr x)
    then obtain t where "x = Some t" using Cons.prems [of f] by auto
    with Inr show ?thesis
      by (cases "mapE g fs") (simp_all add: IH [symmetric] List.map_filter_simps id_def)
  qed simp
qed (simp add: List.map_filter_simps)

lemma mapE_cong: "(\<And>x. x \<in> set xs \<Longrightarrow> f x = g x) \<Longrightarrow> mapE f xs = mapE g xs"
  by (induction xs) auto

lemma mapE_filter:
  assumes "mapE f xs = Inr ys" "\<And>x y. f x = Inr y \<Longrightarrow> Q y = P x"
  shows "mapE f (filter P xs) = Inr (filter Q ys)"
  using assms(1) by (induction xs arbitrary: ys) (auto simp: assms(2))

lemma mapE_map: "mapE f (map g xs) = mapE (\<lambda>x. f (g x)) xs"
  by (induction xs) auto

lemma packagePage_eq:
  assumes "\<not> noSnapshot s" "projectID \<noteq> []" "language \<noteq> []" "packagePath \<noteq> []" "0 < limit"
  shows "StoreResolverPackagePage s (packageRequest projectID language packagePath limit after) db =
    mapE (readTarget db s) (take (nat limit)
      (filter (\<lambda>f. after < fst f) (ofPackage packagePath (ofProject projectID language (visibleFiles db s)))))"
proof -
  let ?fs = "take (nat limit) (filter (\<lambda>f. after < fst f) (ofPackage packagePath (ofProject projectID language (visibleFiles db s))))"
  let ?g = "\<lambda>f. StoreResolverTarget s \<lparr>rt_ProjectID = projectID, rt_Language = language, rt_SourcePath = fst f\<rparr> db"
  have listed: "f \<in> set (ofProject projectID language (visibleFiles db s))" if "f \<in> set ?fs" for f
    using in_set_takeD [OF that] by (auto simp: ofPackage_def)
  have "StoreResolverPackagePage s (packageRequest projectID language packagePath limit after) db =
      bindE (mapE ?g ?fs) (\<lambda>targets. Inr (List.map_filter id targets))"
    using assms unfolding StoreResolverPackagePage_def packagePagePaths_eq mapE_map by (simp add: packageRequest_def)
  also have "\<dots> = mapE (\<lambda>f. bindE (?g f) (\<lambda>x. case x of None \<Rightarrow> Inl InvalidRequest | Some t \<Rightarrow> Inr t)) ?fs"
    by (rule mapE_found) (rule listed_target_found, rule listed)
  also have "\<dots> = mapE (readTarget db s) ?fs"
    by (rule mapE_cong, drule listed) (auto simp: readTarget_def ofProject_def split: prod.splits)
  finally show ?thesis .
qed

interpretation projection_pages: paged_reader
  "\<lambda>after. ResolverProjectionPage s (projectionRequest projectID language limit after) db" pj_SourcePath
  "ofProject projectID language (visibleFiles db s)" fst "readProjection db s" "nat limit"
  "\<not> noSnapshot s \<and> projectID \<noteq> [] \<and> language \<noteq> [] \<and> 0 < limit"
  for s projectID language limit db
proof unfold_locales
  show "sorted (map fst (ofProject projectID language (visibleFiles db s)))"
    unfolding ofProject_def by (intro sorted_map_filter sorted_visibleFiles)
qed (auto simp: ResolverProjectionPage_def projectionPageFiles_eq readProjection_path)

interpretation package_pages: paged_reader
  "\<lambda>after. StoreResolverPackagePage s (packageRequest projectID language packagePath limit after) db" tg_SourcePath
  "ofPackage packagePath (ofProject projectID language (visibleFiles db s))" fst "readTarget db s" "nat limit"
  "\<not> noSnapshot s \<and> projectID \<noteq> [] \<and> language \<noteq> [] \<and> packagePath \<noteq> [] \<and> 0 < limit"
  for s projectID language packagePath limit db
proof unfold_locales
  show "sorted (map fst (ofPackage packagePath (ofProject projectID language (visibleFiles db s))))"
    unfolding ofProject_def ofPackage_def by (intro sorted_map_filter sorted_visibleFiles)
qed (auto simp: packagePage_eq readTarget_path)

lemma lower_char_slash [simp]: "lower_char c = CHR ''/'' \<longleftrightarrow> c = CHR ''/''"
proof
  assume eq: "lower_char c = CHR ''/''"
  show "c = CHR ''/''"
  proof (rule ccontr)
    assume "c \<noteq> CHR ''/''"
    with eq have upper: "65 \<le> (of_char c :: nat)" "(of_char c :: nat) \<le> 90" "char_of (of_char c + 32 :: nat) = CHR ''/''"
      by (auto simp: lower_char_def Let_def split: if_splits)
    from upper(3) have "(of_char (char_of (of_char c + 32 :: nat) :: char) :: nat) = of_char (CHR ''/'')" by (rule arg_cong)
    with upper(1,2) show False by simp
  qed
qed (simp add: lower_char_def)

lemma lower_slash [simp]: "lower_char (CHR ''/'') = CHR ''/''"
  by (simp add: lower_char_def)

lemma packagePathFilter_split:
  assumes "plain packagePath" "packagePath \<noteq> ''.''"
  shows "packagePathFilter packagePath sourcePath \<longleftrightarrow>
    (\<exists>directory name. sourcePath = directory @ CHR ''/'' # name \<and> ToLower directory = ToLower packagePath \<and> CHR ''/'' \<notin> set name)"
proof -
  let ?n = "length packagePath"
  have plain: "plain (packagePath @ ''/'')" using assms(1) by (simp add: plain_def)
  have "ToLower (take (Suc ?n) sourcePath) = ToLower packagePath @ ''/'' \<longleftrightarrow>
      (\<exists>directory name. sourcePath = directory @ CHR ''/'' # name \<and> ToLower directory = ToLower packagePath)"
    (is "?l \<longleftrightarrow> ?r")
  proof
    assume l: ?l
    then have len: "length (take (Suc ?n) sourcePath) = Suc ?n" by (metis ToLower_def length_append_singleton length_map)
    then have lt: "?n < length sourcePath" by simp
    then have "take (Suc ?n) sourcePath = take ?n sourcePath @ [sourcePath ! ?n]" by (simp add: take_Suc_conv_app_nth)
    with l have "ToLower (take ?n sourcePath) = ToLower packagePath" "sourcePath ! ?n = CHR ''/''"
      by (simp_all add: ToLower_def)
    then show ?r using id_take_nth_drop [OF lt] by metis
  next
    assume ?r
    then obtain d name where d: "sourcePath = d @ CHR ''/'' # name" "ToLower d = ToLower packagePath" by blast
    from d(2) have "length d = ?n" by (metis ToLower_def length_map)
    with d show ?l by (simp add: ToLower_def)
  qed
  moreover have "packagePathFilter packagePath sourcePath \<longleftrightarrow>
      ToLower (take (Suc ?n) sourcePath) = ToLower packagePath @ ''/'' \<and> noSlash (drop (Suc ?n) sourcePath)"
    using assms(2) like_plain_prefix [OF plain, of sourcePath] by (simp add: packagePathFilter_def ToLower_def)
  moreover have "drop (Suc ?n) (d @ c # name) = name" if "ToLower d = ToLower packagePath" for d c name
  proof -
    have "length d = ?n" using that by (metis ToLower_def length_map)
    then show ?thesis by simp
  qed
  ultimately show ?thesis unfolding noSlash_def by metis
qed

section \<open>Reading back a published contribution\<close>

text \<open>No two rows of the contribution share a key, so that no row is dropped.\<close>

definition distinctKeys :: "Contribution \<Rightarrow> bool" where
  "distinctKeys c = list_all (\<lambda>t. distinct (map payload_key (contribution_payloads c t))) contributionTables"

definition binding_key :: "ModuleBinding \<Rightarrow> str list" where
  "binding_key b = [mb_ImportedName b, mb_ExportedName b, mb_LocalName b]"

definition reference_key :: "UnresolvedReference \<Rightarrow> str list" where
  "reference_key u = [ur_SourceID u, ur_Target u, ur_Kind u]"

text \<open>The contribution as a reader sees it: every slice in the order of its key.\<close>

definition sortedData :: "Contribution \<Rightarrow> resolutionData" where
  "sortedData c =
     \<lparr>rsd_Extensions = sort_key (\<lambda>e. [e]) (md_Extensions (c_metadata c)),
      rsd_UnresolvedReferences =
        map (\<lambda>u. u\<lparr>ur_Bindings := sort_key binding_key (ur_Bindings u)\<rparr>) (sort_key reference_key (c_unresolvedReferences c)),
      rsd_SymbolReferences = sort_key (\<lambda>r. [sr_SourceID r, sr_Target r, sr_Relation r]) (c_symbolReferences c),
      rsd_ExportedSurfaces = sort_key (\<lambda>s. [es_NodeID s, es_Name s]) (c_exportedSurfaces c),
      rsd_Dependencies = map (\<lambda>t. \<lparr>dep_SourcePath = c_sourcePath c, dep_TargetPath = t\<rparr>)
        (sort_key (\<lambda>t. [t]) (map dep_TargetPath (c_dependencies c))),
      rsd_Diagnostics = sort_key (\<lambda>d. [dg_Severity d, dg_Message d]) (c_diagnostics c)\<rparr>"

definition sortedFacts :: "Contribution \<Rightarrow> Facts" where
  "sortedFacts c =
     \<lparr>f_Nodes = sort_key (\<lambda>n. [n_ID n]) (f_Nodes (c_facts c)),
      f_Edges = sort_key (\<lambda>e. [e_SourceID e, e_TargetID e, e_Relation e]) (f_Edges (c_facts c))\<rparr>"

lemma insort_key_map: "insort_key k (f x) (map f xs) = map f (insort_key (\<lambda>y. k (f y)) x xs)"
  by (induction xs) auto

lemma sort_key_map: "sort_key k (map f xs) = map f (sort_key (\<lambda>y. k (f y)) xs)"
  by (induction xs) (simp_all add: insort_key_map)

lemma sort_key_Cons: "sort_key (\<lambda>y. c # k y) xs = sort_key k xs"
proof -
  have "insort_key (\<lambda>y. c # k y) x ys = insort_key k x ys" for x ys
    by (induction ys) auto
  then have "insort_key (\<lambda>y. c # k y) = insort_key k" by (simp add: fun_eq_iff)
  then show ?thesis by (simp add: sort_key_def)
qed

lemma rowsOf_map: "(\<And>x. g (f x) = [h x]) \<Longrightarrow> rowsOf g (map f xs) = map h xs"
  by (induction xs) (auto simp: rowsOf_def)

lemma fresh_rows_id: "distinct (map key xs) \<Longrightarrow> key ` set xs \<inter> seen = {} \<Longrightarrow> fresh_rows key xs seen = xs"
  by (induction xs arbitrary: seen) auto

lemma distinctKeys_stored: "distinctKeys c \<Longrightarrow> stored_payloads c t = contribution_payloads c t"
  unfolding stored_payloads_def distinctKeys_def list_all_iff by (intro fresh_rows_id) simp_all

lemma sourceRows_updated:
  assumes "contents db t (sn_Workspace s) (sn_Version s) = updated_contents (c_sourcePath ` set cs) cs old t"
    "distinct (map c_sourcePath cs)" "c \<in> set cs"
  shows "sourceRows db t s (c_sourcePath c) = sort_key payload_key (stored_payloads c t)"
proof -
  have "filter (\<lambda>(p, _). p = c_sourcePath c) (concat (map (\<lambda>c'. map (Pair (c_sourcePath c')) (stored_payloads c' t)) cs)) =
      concat (map (\<lambda>c'. map (Pair (c_sourcePath c')) (stored_payloads c' t)) (filter (\<lambda>c'. c_sourcePath c' = c_sourcePath c) cs))"
    for cs by (induction cs) (auto simp: filter_map comp_def)
  moreover have "filter (\<lambda>(p, _). p = c_sourcePath c) (filter (\<lambda>(p, _). p \<notin> c_sourcePath ` set cs) old) = []"
    using assms(3) by (auto simp: filter_empty_conv)
  ultimately show ?thesis
    using filter_eq_single [OF assms(2,3)] by (simp add: sourceRows_def assms(1) updated_contents_def comp_def)
qed

lemma bindings_of_reference:
  assumes "distinct (map reference_key us)" "u \<in> set us"
  shows "map (\<lambda>(_, _, _, b). b) (filter (\<lambda>(s, t, k, _). (s, t, k) = (ur_SourceID u, ur_Target u, ur_Kind u))
      (rowsOf binding_of (sort_key payload_key
        (concat (map (\<lambda>u. map (BindingRow (ur_SourceID u) (ur_Target u) (ur_Kind u)) (ur_Bindings u)) us))))) =
    sort_key binding_key (ur_Bindings u)"
proof -
  let ?row = "\<lambda>u. map (BindingRow (ur_SourceID u) (ur_Target u) (ur_Kind u)) (ur_Bindings u)"
  let ?of = "\<lambda>row. \<exists>b. row = BindingRow (ur_SourceID u) (ur_Target u) (ur_Kind u) b"
  have split: "filter (\<lambda>(s, t, k, _). (s, t, k) = (ur_SourceID u, ur_Target u, ur_Kind u)) (rowsOf binding_of rows) =
      rowsOf binding_of (filter ?of rows)" for rows
  proof (induction rows)
    case (Cons row rows)
    then show ?case by (cases row) (auto simp: rowsOf_def)
  qed (simp add: rowsOf_def)
  have "filter ?of (concat (map ?row us)) = concat (map ?row (filter (\<lambda>u'. reference_key u' = reference_key u) us))"
  proof (induction us)
    case (Cons u' us)
    then show ?case by (auto simp: filter_map comp_def reference_key_def filter_empty_conv)
  qed simp
  also have "\<dots> = ?row u" using filter_eq_single [OF assms] by simp
  finally have "filter ?of (sort_key payload_key (concat (map ?row us))) = sort_key payload_key (?row u)"
    by (simp add: filter_sort)
  also have "\<dots> = map (BindingRow (ur_SourceID u) (ur_Target u) (ur_Kind u)) (sort_key binding_key (ur_Bindings u))"
    by (simp add: sort_key_map sort_key_Cons binding_key_def [abs_def])
  finally show ?thesis
    unfolding split by (simp add: rowsOf_def comp_def)
qed

lemma data_of_rows:
  assumes rows: "\<And>t. sourceRows db t s (c_sourcePath c) = sort_key payload_key (contribution_payloads c t)"
    and keys: "distinctKeys c"
  shows "storeResolutionDataForSource db s (c_sourcePath c) = sortedData c"
    "readContributionFacts db s (c_sourcePath c) = sortedFacts c"
proof -
  have "distinct (map payload_key (contribution_payloads c contribution_unresolved_references))"
    using keys unfolding distinctKeys_def list_all_iff by (rule bspec) simp
  then have refs: "distinct (map reference_key (c_unresolvedReferences c))"
    by (simp add: comp_def reference_key_def [abs_def])
  have bindings: "readModuleBindings db s (c_sourcePath c) (ur_SourceID u, ur_Target u, ur_Kind u) =
      sort_key binding_key (ur_Bindings u)" if "u \<in> set (c_unresolvedReferences c)" for u
    using bindings_of_reference [OF refs that] by (simp add: readModuleBindings_def rows)
  have "rowsOf unresolved_of (sort_key payload_key (contribution_payloads c contribution_unresolved_references)) =
      map (\<lambda>u. (ur_SourceID u, ur_Target u, ur_Kind u, ur_Ambiguous u)) (sort_key reference_key (c_unresolvedReferences c))"
    by (simp add: sort_key_map reference_key_def [abs_def] rowsOf_map)
  then have references: "readUnresolvedReferences db s (c_sourcePath c) =
      map (\<lambda>u. u\<lparr>ur_Bindings := sort_key binding_key (ur_Bindings u)\<rparr>) (sort_key reference_key (c_unresolvedReferences c))"
    by (simp add: readUnresolvedReferences_def rows bindings)
  show "storeResolutionDataForSource db s (c_sourcePath c) = sortedData c"
    by (simp add: storeResolutionDataForSource_def sortedData_def references readSymbolReferences_def
        readContributionDiagnostics_def rows sort_key_map rowsOf_map comp_def)
  show "readContributionFacts db s (c_sourcePath c) = sortedFacts c"
    by (simp add: readContributionFacts_def readContributionNodes_def sortedFacts_def rows sort_key_map rowsOf_map)
qed

lemma distinct_visibleFiles:
  assumes "wf_db db"
  shows "distinct (map fst (visibleFiles db s))"
proof -
  let ?rows = "visible_rows db file_contributions (sn_Workspace s) (sn_Version s)"
  let ?isFile = "\<lambda>r. payload_key (r_payload r) = []"
  have "table_ok (currentVersion db) (db_tables db file_contributions)" using assms by (rule wf_db_table)
  then have ok: "distinct (map row_key ?rows)" "overlap_free (db_tables db file_contributions)"
    by (auto simp: table_ok_def visible_rows_def distinct_map_filterI)
  have "inj_on r_path (set (filter ?isFile ?rows))"
    by (rule inj_onI, rule overlap_freeD [OF ok(2)]) (auto simp: visible_rows_def same_slot_def)
  moreover have "distinct (filter ?isFile ?rows)" using ok(1) by (auto simp: distinct_map)
  ultimately have distinct: "distinct (map r_path (filter ?isFile ?rows))" by (simp add: distinct_map)
  have "map fst (concat (map file_of (map (\<lambda>r. (r_path r, r_payload r)) rows))) = map r_path (filter ?isFile rows)" for rows :: "vrow list"
  proof (induction rows)
    case (Cons r rows)
    then show ?case by (cases "r_payload r") auto
  qed simp
  then have "distinct (map fst (concat (map file_of (contents db file_contributions (sn_Workspace s) (sn_Version s)))))"
    using distinct unfolding contents_def by (simp only:)
  then show ?thesis by (simp add: visibleFiles_def distinct_map)
qed

section \<open>A store with two files\<close>

definition sampleStore :: database where
  "sampleStore = published sampleEnv (sampleRequest [''a'', ''b'']) emptyDatabase"

definition sampleSnapshot :: Snapshot where
  "sampleSnapshot = \<lparr>sn_Workspace = ''w'', sn_Version = 1, sn_PublishedAt = ''t''\<rparr>"

lemma sampleStore_step: "publish sampleEnv None (sampleRequest [''a'', ''b'']) emptyDatabase = Inr (sampleSnapshot, sampleStore)"
  using sample_publish_first by (simp add: sampleStore_def sampleSnapshot_def)

lemma sampleStore_wf: "wf_db sampleStore"
  by (rule store_step_wf [OF store_step.publish [OF sampleEnv_ok(1) sampleStore_step] wf_emptyDatabase])

lemma sampleStore_current: "currentVersion sampleStore ''w'' = 1"
  by (simp add: sampleStore_def currentVersion_published sampleRequest_def currentVersion_empty)

lemma sampleStore_publish:
  "publish sampleEnv None (sampleRequest [''b'', ''c'']) sampleStore =
    Inr (\<lparr>sn_Workspace = ''w'', sn_Version = 2, sn_PublishedAt = ''t''\<rparr>, published sampleEnv (sampleRequest [''b'', ''c'']) sampleStore)"
  using sample_publish [OF sampleStore_wf, of "[''b'', ''c'']"] by (simp add: sampleStore_current)

lemma sampleStore_contents:
  "contents sampleStore t (sn_Workspace sampleSnapshot) (sn_Version sampleSnapshot) =
     concat (map (\<lambda>c. map (Pair (c_sourcePath c)) (stored_payloads c t)) [emptyContribution ''a'', emptyContribution ''b''])"
  using publish_shows(3) [OF wf_emptyDatabase sampleEnv_ok(1) sampleStore_step, of t]
  by (simp add: updated_contents_def sampleRequest_def contents_def visible_rows_def emptyDatabase_def)

lemma sampleStore_files:
  "visibleFiles sampleStore sampleSnapshot = [(''a'', ''p'', ''go'', ''1''), (''b'', ''p'', ''go'', ''1'')]"
  by (simp add: visibleFiles_def sampleStore_contents stored_payloads_def emptyContribution_def)

lemma go_extension: "normalizeExtension ''.go'' = ''.go''"
  by code_simp

lemma sampleStore_projections:
  "readResolverProjections sampleSnapshot sampleStore =
     Inr (map (\<lambda>p. \<lparr>pj_ProjectID = ''p'', pj_SourcePath = p,
              pj_Metadata = \<lparr>md_Name = ''go'', md_Version = ''1'', md_Extensions = [''.go'']\<rparr>, pj_Nodes = [],
              pj_UnresolvedReferences = [], pj_SymbolReferences = [], pj_ExportedSurfaces = [],
              pj_Dependencies = [], pj_Diagnostics = []\<rparr>) [''a'', ''b''])"
  by (simp add: readResolverProjections_def sampleStore_files readProjection_def storeResolutionDataForSource_def
      readUnresolvedReferences_def readSymbolReferences_def readContributionDiagnostics_def readContributionNodes_def
      sourceRows_def sampleStore_contents stored_payloads_def emptyContribution_def rowsOf_def
      MetadataValidate_def liftE_def go_extension)

section \<open>Properties\<close>

text \<open>A publication never changes what a reader of an earlier retained version gets from the
  store: source contributions, resolver projections and their pages, resolver targets, package
  pages and affected sources are the same before and after.\<close>

theorem publish_keeps_reads:
  assumes "wf_db db" "env_ok env" "publish env stage request db = Inr (s, db')"
    "retention_boundary (currentVersion db (sn_Workspace snapshot) + 1) \<le> sn_Version snapshot"
    "sn_Version snapshot \<le> currentVersion db (sn_Workspace snapshot)"
  shows "SourceContributions snapshot db' = SourceContributions snapshot db \<and>
    readResolverProjections snapshot db' = readResolverProjections snapshot db \<and>
    ResolverProjectionPage snapshot pageRequest db' = ResolverProjectionPage snapshot pageRequest db \<and>
    StoreResolverTarget snapshot targetRequest db' = StoreResolverTarget snapshot targetRequest db \<and>
    StoreResolverPackagePage snapshot packageQuery db' = StoreResolverPackagePage snapshot packageQuery db \<and>
    AffectedSources limit snapshot update db' = AffectedSources limit snapshot update db"
proof -
  have "same_view db db' (sn_Workspace snapshot) (sn_Version snapshot)"
    by (rule publish_keeps_view [OF assms(1-3)]) (use assms(4,5) in simp)
  then show ?thesis using same_view_reads by (simp add: sameReads_def)
qed

theorem publish_keeps_reads_witness:
  "SourceContributions sampleSnapshot (published sampleEnv (sampleRequest [''b'', ''c'']) sampleStore) =
     SourceContributions sampleSnapshot sampleStore"
  using publish_keeps_reads [OF sampleStore_wf sampleEnv_ok(1) sampleStore_publish, of sampleSnapshot]
  by (simp add: sampleSnapshot_def sampleStore_current retention_boundary_def retainedGraphVersions_def)



text \<open>C37. Reading the resolver projections of a project page by page, each request after the last path of
  the previous page, terminates and visits exactly the projections a complete read returns for
  that project and language, in order and in pages of the limit.\<close>

theorem projection_pages_complete:
  assumes "wf_db db" "\<not> noSnapshot s" "projectID \<noteq> []" "language \<noteq> []" "0 < limit"
    "list_all (\<lambda>f. fst f \<noteq> []) (visibleFiles db s)" "readResolverProjections s db = Inr projections"
  shows "pageLoop (\<lambda>after. ResolverProjectionPage s (projectionRequest projectID language limit after) db)
      pj_SourcePath visit [] state =
    Some (foldE visit (chunks (nat limit)
      (filter (\<lambda>p. pj_ProjectID p = projectID \<and> md_Name (pj_Metadata p) = language) projections)) state)"
proof (rule projection_pages.pageLoop_pages)
  show "mapE (readProjection db s) (ofProject projectID language (visibleFiles db s)) =
      Inr (filter (\<lambda>p. pj_ProjectID p = projectID \<and> md_Name (pj_Metadata p) = language) projections)"
    using assms(7) unfolding readResolverProjections_def ofProject_def
    by (rule mapE_filter) (auto simp: readProjection_def Let_def)
  show "distinct (map fst (ofProject projectID language (visibleFiles db s)))"
    unfolding ofProject_def by (intro distinct_map_filterI distinct_visibleFiles assms(1))
qed (use assms in \<open>auto simp: list_all_iff ofProject_def\<close>)

theorem projection_pages_complete_witness:
  "pageLoop (\<lambda>after. ResolverProjectionPage sampleSnapshot (projectionRequest ''p'' ''go'' 1 after) sampleStore)
      pj_SourcePath (\<lambda>page seen. Inr (seen @ [map pj_SourcePath page])) [] [] = Some (Inr [[''a''], [''b'']])"
  using projection_pages_complete [OF sampleStore_wf _ _ _ _ _ sampleStore_projections, of "''p''" "''go''" 1
      "\<lambda>page seen. Inr (seen @ [map pj_SourcePath page])" "[]"]
  by (simp add: noSnapshot_def sampleStore_files chunks.simps) (simp add: sampleSnapshot_def)


definition sampleDependency :: database where
  "sampleDependency = emptyDatabase\<lparr>db_tables := (\<lambda>_. [])
     (contribution_dependencies := [open_row ''w'' 1 ''b'' (DependencyRow ''a'')])\<rparr>"


text \<open>The package filter accepts a file exactly if its directory is the package path and the rest
  has no further directory, up to ASCII letter case and provided the package path holds neither
  of the wildcard characters.\<close>

theorem packagePathFilter_iff:
  assumes "CHR ''%'' \<notin> set packagePath" "CHR ''_'' \<notin> set packagePath" "packagePath \<noteq> ''.''"
  shows "packagePathFilter packagePath sourcePath \<longleftrightarrow>
    (\<exists>directory name. sourcePath = directory @ CHR ''/'' # name \<and> ToLower directory = ToLower packagePath \<and> CHR ''/'' \<notin> set name)"
  by (rule packagePathFilter_split) (use assms in \<open>simp_all add: plain_def\<close>)

theorem packagePathFilter_iff_witness:
  "packagePathFilter ''a/b'' ''a/b/f.go'' \<and> \<not> packagePathFilter ''a/b'' ''a/c/f.go''"
proof -
  have "packagePathFilter ''a/b'' ''a/b/f.go''"
    using packagePathFilter_iff [of "''a/b''" "''a/b/f.go''"]
    by (simp add: ToLower_def) (rule exI [of _ "''a/b''"], simp)
  then show ?thesis by (simp add: packagePathFilter_def lower_char_def)
qed

text \<open>A package path with an underscore also selects files of other directories, and so
  does one that differs in letter case only.\<close>

lemma packagePathFilter_wildcard:
  "packagePathFilter ''a_b'' ''axb/f.go'' \<and> packagePathFilter ''api'' ''API/f.go''"
  by code_simp

text \<open>Exported surfaces without repeated keys compare equal exactly if they are the same set of names
  and nodes.\<close>

theorem sameSurfaces_correct:
  assumes "distinct (map surfaceKey left)" "distinct (map surfaceKey right)"
  shows "sameSurfaces left right \<longleftrightarrow> surfaceKey ` set left = surfaceKey ` set right"
  using assms by (rule sameSurfaces_iff)

theorem sameSurfaces_correct_witness:
  "\<not> sameSurfaces [\<lparr>es_NodeID = ''n'', es_Name = ''A''\<rparr>] [\<lparr>es_NodeID = ''n'', es_Name = ''B''\<rparr>]"
  using sameSurfaces_correct [of "[\<lparr>es_NodeID = ''n'', es_Name = ''A''\<rparr>]" "[\<lparr>es_NodeID = ''n'', es_Name = ''B''\<rparr>]"]
  by (simp add: surfaceKey_def)

text \<open>With a repeated surface in the update a removed one goes unnoticed.\<close>

lemma sameSurfaces_repeated:
  "sameSurfaces [\<lparr>es_NodeID = ''n'', es_Name = ''A''\<rparr>, \<lparr>es_NodeID = ''m'', es_Name = ''B''\<rparr>]
     [\<lparr>es_NodeID = ''n'', es_Name = ''A''\<rparr>, \<lparr>es_NodeID = ''n'', es_Name = ''A''\<rparr>]"
  by (simp add: sameSurfaces_def)

end
