(* ===== verification/Store_Cache.thy ===== *)
theory Store_Cache
  imports Store_Read Store_Session
begin

text \<open>
  The resolver projection cache of the store (\<^verbatim>\<open>src/storage/sqlite/sqlite.go\<close>): a map from
  workspace and version to projections with a byte budget, evicting the oldest entry first, and
  its invalidation by publication, session commit, rollback and pruning. The mutex of the cache is held only while the cache is
  looked up, filled or invalidated, so a read is three steps and a write two, interleaved in any order. A Go map is a list of
  entries with different keys; the order of the list stands for the unspecified order in
  which Go visits a map, and no result depends on it. Byte counts are integers: sums of
  lengths of strings in memory stay far below \<^verbatim>\<open>int64\<close>.
\<close>

record cachedProjections =
  cp_values :: "ResolverProjection list"
  cp_bytes :: int
  cp_order :: nat

type_synonym projectionCacheKey = "str \<times> nat"

record projectionCache =
  pc_projections :: "(projectionCacheKey \<times> cachedProjections) list"
  pc_bytes :: int
  pc_order :: nat
  pc_max :: int

definition newCache :: "int \<Rightarrow> projectionCache" where
  "newCache maximum = \<lparr>pc_projections = [], pc_bytes = 0, pc_order = 0, pc_max = maximum\<rparr>"

definition snapshotKey :: "Snapshot \<Rightarrow> projectionCacheKey" where
  "snapshotKey snapshot = (sn_Workspace snapshot, sn_Version snapshot)"

definition cachedResolverProjections :: "Snapshot \<Rightarrow> projectionCache \<Rightarrow> ResolverProjection list option" where
  "cachedResolverProjections snapshot c = map_option cp_values (map_of (pc_projections c) (snapshotKey snapshot))"

definition strlen :: "str \<Rightarrow> int" where
  "strlen s = int (length s)"

definition evidenceBytes :: "FactEvidence \<Rightarrow> int" where
  "evidenceBytes e = strlen (sp_Path (ev_Span e)) + strlen (ev_FileHash e) + strlen (ev_Extractor e)
     + strlen (ev_Provenance e) + strlen (ev_Confidence e)"

definition projectionBytes :: "ResolverProjection \<Rightarrow> int" where
  "projectionBytes p =
     strlen (pj_ProjectID p) + strlen (pj_SourcePath p) + strlen (md_Name (pj_Metadata p)) + strlen (md_Version (pj_Metadata p))
     + sum_list (map (\<lambda>n. strlen (n_ID n) + strlen (n_Kind n) + strlen (n_Label n) + strlen (n_QualifiedName n)
                       + evidenceBytes (n_Evidence n)) (pj_Nodes p))
     + sum_list (map strlen (md_Extensions (pj_Metadata p)))
     + sum_list (map (\<lambda>u. strlen (ur_SourceID u) + strlen (ur_Target u) + strlen (ur_Kind u)
                       + sum_list (map (\<lambda>b. strlen (mb_ImportedName b) + strlen (mb_ExportedName b) + strlen (mb_LocalName b))
                                    (ur_Bindings u))) (pj_UnresolvedReferences p))
     + sum_list (map (\<lambda>r. strlen (sr_SourceID r) + strlen (sr_Target r) + strlen (sr_Relation r)
                       + evidenceBytes (sr_Evidence r)) (pj_SymbolReferences p))
     + sum_list (map (\<lambda>s. strlen (es_NodeID s) + strlen (es_Name s)) (pj_ExportedSurfaces p))
     + sum_list (map (\<lambda>d. strlen (dep_SourcePath d) + strlen (dep_TargetPath d)) (pj_Dependencies p))
     + sum_list (map (\<lambda>d. strlen (dg_Severity d) + strlen (dg_Message d)) (pj_Diagnostics p))"

definition resolverProjectionBytes :: "ResolverProjection list \<Rightarrow> int" where
  "resolverProjectionBytes projections = sum_list (map projectionBytes projections)"

definition oldestResolverProjection :: "projectionCache \<Rightarrow> (projectionCacheKey \<times> cachedProjections) option" where
  "oldestResolverProjection c =
     fold (\<lambda>entry oldest. case oldest of
             None \<Rightarrow> Some entry
           | Some o' \<Rightarrow> if cp_order (snd entry) < cp_order (snd o') then Some entry else oldest)
       (pc_projections c) None"

definition dropEntry :: "projectionCacheKey \<Rightarrow> (projectionCacheKey \<times> cachedProjections) list \<Rightarrow> (projectionCacheKey \<times> cachedProjections) list" where
  "dropEntry key entries = filter (\<lambda>(k, _). k \<noteq> key) entries"

lemma fold_oldest:
  "fold (\<lambda>entry oldest. case oldest of
           None \<Rightarrow> Some entry
         | Some o' \<Rightarrow> if cp_order (snd entry) < cp_order (snd o') then Some entry else oldest) entries start = Some e \<Longrightarrow>
     e \<in> set entries \<or> start = Some e"
  by (induction entries arbitrary: start) (auto split: option.splits if_splits)

lemma fold_oldest_None:
  "fold (\<lambda>entry oldest. case oldest of
           None \<Rightarrow> Some entry
         | Some o' \<Rightarrow> if cp_order (snd entry) < cp_order (snd o') then Some entry else oldest) entries start = None \<longleftrightarrow>
     entries = [] \<and> start = None"
  by (induction entries arbitrary: start) (auto split: option.splits)

lemma oldest_mem: "oldestResolverProjection c = Some e \<Longrightarrow> e \<in> set (pc_projections c)"
  unfolding oldestResolverProjection_def by (drule fold_oldest) simp

lemma oldest_None: "oldestResolverProjection c = None \<longleftrightarrow> pc_projections c = []"
  unfolding oldestResolverProjection_def fold_oldest_None by simp

text \<open>The eviction loop: it stops when the new entry fits or nothing is left.\<close>

function evictFor :: "int \<Rightarrow> projectionCache \<Rightarrow> projectionCache" where
  "evictFor bytes c =
     (if pc_max c < pc_bytes c + bytes then
        (case oldestResolverProjection c of
           None \<Rightarrow> c
         | Some (key, oldest) \<Rightarrow>
             evictFor bytes (c\<lparr>pc_projections := dropEntry key (pc_projections c), pc_bytes := pc_bytes c - cp_bytes oldest\<rparr>))
      else c)"
  by pat_completeness auto
termination
  by (relation "measure (\<lambda>(_, c). length (pc_projections c))")
    (auto simp: dropEntry_def dest!: oldest_mem intro!: length_filter_less)

declare evictFor.simps [simp del]

definition cacheResolverProjections :: "Snapshot \<Rightarrow> ResolverProjection list \<Rightarrow> projectionCache \<Rightarrow> projectionCache" where
  "cacheResolverProjections snapshot projections c =
     (let bytes = resolverProjectionBytes projections; key = snapshotKey snapshot in
      if pc_max c < bytes then c
      else let c1 = (case map_of (pc_projections c) key of
                       None \<Rightarrow> c | Some existing \<Rightarrow> c\<lparr>pc_bytes := pc_bytes c - cp_bytes existing\<rparr>);
               c2 = evictFor bytes c1;
               order = pc_order c2 + 1
           in c2\<lparr>pc_order := order,
                 pc_projections := (key, \<lparr>cp_values = projections, cp_bytes = bytes, cp_order = order\<rparr>)
                   # dropEntry key (pc_projections c2),
                 pc_bytes := pc_bytes c2 + bytes\<rparr>)"

definition invalidateWorkspaceCaches :: "str \<Rightarrow> (nat \<Rightarrow> bool) \<Rightarrow> projectionCache \<Rightarrow> projectionCache" where
  "invalidateWorkspaceCaches workspace remove c =
     fold (\<lambda>(key, entry) c. if fst key \<noteq> workspace \<or> \<not> remove (snd key) then c
             else c\<lparr>pc_projections := dropEntry key (pc_projections c), pc_bytes := pc_bytes c - cp_bytes entry\<rparr>)
       (pc_projections c) c"

text \<open>\<^verbatim>\<open>ResolverProjections\<close> with its cache.\<close>

definition ResolverProjections ::
  "Snapshot \<Rightarrow> database \<Rightarrow> projectionCache \<Rightarrow> (storage_error + ResolverProjection list) \<times> projectionCache" where
  "ResolverProjections snapshot db c =
     (if noSnapshot snapshot then (Inl InvalidRequest, c)
      else case cachedResolverProjections snapshot c of
             Some projections \<Rightarrow> (Inr projections, c)
           | None \<Rightarrow> (case readResolverProjections snapshot db of
                       Inl e \<Rightarrow> (Inl e, c)
                     | Inr projections \<Rightarrow> (Inr projections, cacheResolverProjections snapshot projections c)))"

section \<open>Accounting\<close>

definition entryBytes :: "(projectionCacheKey \<times> cachedProjections) list \<Rightarrow> int" where
  "entryBytes entries = sum_list (map (\<lambda>(_, entry). cp_bytes entry) entries)"

text \<open>Keys are different, no entry has a negative size, and the byte count is the sum of the sizes.\<close>

definition accounted :: "projectionCache \<Rightarrow> bool" where
  "accounted c \<longleftrightarrow> distinct (map fst (pc_projections c)) \<and> list_all (\<lambda>(_, entry). 0 \<le> cp_bytes entry) (pc_projections c) \<and>
     pc_bytes c = entryBytes (pc_projections c)"

lemma entryBytes_nonneg: "list_all (\<lambda>(_, entry). 0 \<le> cp_bytes entry) entries \<Longrightarrow> 0 \<le> entryBytes entries"
  unfolding entryBytes_def by (rule sum_list_nonneg) (auto simp: list_all_iff)

lemma dropEntry_absent: "key \<notin> fst ` set entries \<Longrightarrow> dropEntry key entries = entries"
  unfolding dropEntry_def by (rule filter_True) (auto simp: image_iff)

lemma entryBytes_drop:
  "distinct (map fst entries) \<Longrightarrow> (key, entry) \<in> set entries \<Longrightarrow>
     entryBytes (dropEntry key entries) = entryBytes entries - cp_bytes entry"
proof (induction entries)
  case (Cons x entries)
  show ?case
  proof (cases "fst x = key")
    case True
    then have "x = (key, entry)" "key \<notin> fst ` set entries" using Cons.prems by (auto simp: image_iff)
    then show ?thesis using dropEntry_absent [of key entries] by (simp add: dropEntry_def entryBytes_def)
  next
    case False
    then show ?thesis using Cons by (auto simp: dropEntry_def entryBytes_def)
  qed
qed simp

lemma dropEntry_subset: "set (dropEntry key entries) \<subseteq> set entries"
  by (auto simp: dropEntry_def)

lemma dropEntry_map_of: "map_of (dropEntry key entries) = (map_of entries)(key := None)"
  unfolding dropEntry_def by (induction entries) (auto simp: fun_eq_iff)

lemma accounted_drop:
  "accounted c \<Longrightarrow> (key, entry) \<in> set (pc_projections c) \<Longrightarrow>
     accounted (c\<lparr>pc_projections := dropEntry key (pc_projections c), pc_bytes := pc_bytes c - cp_bytes entry\<rparr>)"
  by (auto simp: accounted_def entryBytes_drop [unfolded dropEntry_def] list_all_iff dropEntry_def distinct_map_filterI)

text \<open>Eviction keeps the accounting, only removes entries, and makes room.\<close>

lemma evictFor_accounted:
  assumes "accounted c" "bytes \<le> pc_max c"
  shows "accounted (evictFor bytes c) \<and> set (pc_projections (evictFor bytes c)) \<subseteq> set (pc_projections c) \<and>
    pc_bytes (evictFor bytes c) + bytes \<le> pc_max c \<and> pc_max (evictFor bytes c) = pc_max c \<and>
    pc_order (evictFor bytes c) = pc_order c"
  using assms
proof (induction bytes c rule: evictFor.induct)
  case (1 bytes c)
  show ?case
  proof (cases "pc_max c < pc_bytes c + bytes")
    case True
    have "pc_projections c \<noteq> []"
      using True "1.prems" by (auto simp: accounted_def entryBytes_def)
    then obtain key oldest where old: "oldestResolverProjection c = Some (key, oldest)"
      by (metis oldest_None option.exhaust surj_pair)
    have mem: "(key, oldest) \<in> set (pc_projections c)" using old by (rule oldest_mem)
    show ?thesis
      using "1.IH" [OF True old refl accounted_drop [OF "1.prems"(1) mem]] "1.prems"(2) old True
        dropEntry_subset [of key "pc_projections c"]
      by (subst (1 2 3 4 5) evictFor.simps) auto
  next
    case False
    then show ?thesis using "1.prems" by (subst (1 2 3 4 5) evictFor.simps) auto
  qed
qed

lemma strlen_nonneg [simp]: "0 \<le> strlen s"
  by (simp add: strlen_def)

lemma evidenceBytes_nonneg [simp]: "0 \<le> evidenceBytes e"
  by (simp add: evidenceBytes_def)

lemma resolverProjectionBytes_nonneg: "0 \<le> resolverProjectionBytes projections"
proof -
  have "0 \<le> projectionBytes p" for p
    unfolding projectionBytes_def by (intro add_nonneg_nonneg sum_list_nonneg) (auto intro!: add_nonneg_nonneg sum_list_nonneg)
  then show ?thesis unfolding resolverProjectionBytes_def by (intro sum_list_nonneg) auto
qed

text \<open>Caching keeps the accounting and the budget if the entry is new, replaces an empty one, or is not larger than the one it replaces. (The
  source subtracts the size of the replaced entry before the eviction, which may evict that very entry and subtract it again.)\<close>

definition sized :: "projectionCache \<Rightarrow> bool" where
  "sized c \<longleftrightarrow> (\<forall>(_, entry) \<in> set (pc_projections c). cp_bytes entry = resolverProjectionBytes (cp_values entry))"

lemma cacheResolverProjections_ok:
  assumes "accounted c" "pc_bytes c \<le> pc_max c"
    "\<And>existing. map_of (pc_projections c) (snapshotKey s) = Some existing \<Longrightarrow> resolverProjectionBytes ps \<le> cp_bytes existing \<or> cp_bytes existing = 0"
  defines "c' \<equiv> cacheResolverProjections s ps c"
  shows "accounted c' \<and> pc_bytes c' \<le> pc_max c' \<and> pc_max c' = pc_max c \<and>
    (\<forall>(k, entry) \<in> set (pc_projections c'). (k, entry) \<in> set (pc_projections c) \<or>
       k = snapshotKey s \<and> cp_values entry = ps \<and> cp_bytes entry = resolverProjectionBytes ps)"
proof (cases "pc_max c < resolverProjectionBytes ps")
  case True
  then show ?thesis using assms(1,2) by (auto simp: c'_def cacheResolverProjections_def)
next
  case False
  let ?b = "resolverProjectionBytes ps" and ?k = "snapshotKey s"
  have replaced: "accounted d \<Longrightarrow> map_of (pc_projections d) ?k = None \<or> (\<exists>e. map_of (pc_projections d) ?k = Some e \<and> cp_bytes e = 0) \<Longrightarrow>
      accounted (d\<lparr>pc_order := pc_order d + 1, pc_projections := (?k, \<lparr>cp_values = ps, cp_bytes = ?b, cp_order = pc_order d + 1\<rparr>) #
        dropEntry ?k (pc_projections d), pc_bytes := pc_bytes d + ?b\<rparr>)" for d
  proof -
    assume d: "accounted d" "map_of (pc_projections d) ?k = None \<or> (\<exists>e. map_of (pc_projections d) ?k = Some e \<and> cp_bytes e = 0)"
    have "entryBytes (dropEntry ?k (pc_projections d)) = entryBytes (pc_projections d)"
      using d entryBytes_drop [of "pc_projections d" ?k] map_of_SomeD [of "pc_projections d" ?k]
      by (fastforce simp: accounted_def map_of_eq_None_iff dropEntry_absent)
    moreover have "?k \<notin> fst ` set (dropEntry ?k (pc_projections d))" by (auto simp: dropEntry_def)
    moreover have "distinct (map fst (dropEntry ?k (pc_projections d)))" "list_all (\<lambda>(_, entry). 0 \<le> cp_bytes entry) (dropEntry ?k (pc_projections d))"
      using d(1) by (auto simp: accounted_def dropEntry_def distinct_map_filterI list_all_iff)
    ultimately show ?thesis using d(1) resolverProjectionBytes_nonneg [of ps] by (simp add: accounted_def entryBytes_def)
  qed
  consider (fresh) "map_of (pc_projections c) ?k = None \<or> (\<exists>e. map_of (pc_projections c) ?k = Some e \<and> cp_bytes e = 0)"
    | (larger) existing where "map_of (pc_projections c) ?k = Some existing" "?b \<le> cp_bytes existing"
    using assms(3) by (cases "map_of (pc_projections c) ?k") auto
  then show ?thesis
  proof cases
    case fresh
    then have start: "(case map_of (pc_projections c) ?k of None \<Rightarrow> c | Some existing \<Rightarrow> c\<lparr>pc_bytes := pc_bytes c - cp_bytes existing\<rparr>) = c" by auto
    have e: "accounted (evictFor ?b c)" "set (pc_projections (evictFor ?b c)) \<subseteq> set (pc_projections c)"
      "pc_bytes (evictFor ?b c) + ?b \<le> pc_max c" "pc_max (evictFor ?b c) = pc_max c"
      using evictFor_accounted [OF assms(1), of ?b] False by auto
    have "map_of (pc_projections (evictFor ?b c)) ?k = None \<or> (\<exists>e. map_of (pc_projections (evictFor ?b c)) ?k = Some e \<and> cp_bytes e = 0)"
    proof (cases "map_of (pc_projections (evictFor ?b c)) ?k")
      case (Some e')
      then have "(?k, e') \<in> set (pc_projections c)" using map_of_SomeD [OF Some] e(2) by blast
      then have "map_of (pc_projections c) ?k = Some e'" using assms(1) by (simp add: accounted_def)
      then show ?thesis using fresh Some by auto
    qed simp
    note new = replaced [OF e(1) this]
    show ?thesis
      unfolding c'_def cacheResolverProjections_def Let_def start
      using False new e dropEntry_subset [of ?k "pc_projections (evictFor ?b c)"] by auto
  next
    case (larger existing)
    then have mem: "(?k, existing) \<in> set (pc_projections c)" by (intro map_of_SomeD)
    have "evictFor ?b (c\<lparr>pc_bytes := pc_bytes c - cp_bytes existing\<rparr>) = c\<lparr>pc_bytes := pc_bytes c - cp_bytes existing\<rparr>"
      using assms(2) larger(2) by (subst evictFor.simps) auto
    moreover have "?k \<notin> fst ` set (dropEntry ?k (pc_projections c))" by (auto simp: dropEntry_def)
    ultimately show ?thesis
      using accounted_drop [OF assms(1) mem] assms(1,2) False larger resolverProjectionBytes_nonneg [of ps]
        dropEntry_subset [of ?k "pc_projections c"]
      by (auto simp: c'_def cacheResolverProjections_def Let_def accounted_def entryBytes_def)
  qed
qed

lemma invalidate_eq:
  assumes "accounted c"
  shows "accounted (invalidateWorkspaceCaches ws remove c) \<and>
    pc_projections (invalidateWorkspaceCaches ws remove c) =
      filter (\<lambda>((w, v), _). w \<noteq> ws \<or> \<not> remove v) (pc_projections c) \<and>
    pc_bytes (invalidateWorkspaceCaches ws remove c) \<le> pc_bytes c \<and>
    pc_max (invalidateWorkspaceCaches ws remove c) = pc_max c"
proof -
  let ?drop = "\<lambda>(key, entry) c. if fst key \<noteq> ws \<or> \<not> remove (snd key) then c
             else c\<lparr>pc_projections := dropEntry key (pc_projections c), pc_bytes := pc_bytes c - cp_bytes entry\<rparr>"
  have "accounted (fold ?drop entries c) \<and>
      pc_projections (fold ?drop entries c) =
        filter (\<lambda>(k, e). (k, e) \<in> set entries \<longrightarrow> fst k \<noteq> ws \<or> \<not> remove (snd k)) (pc_projections c) \<and>
      pc_bytes (fold ?drop entries c) \<le> pc_bytes c \<and> pc_max (fold ?drop entries c) = pc_max c"
    if "accounted c" "distinct (map fst entries)"
      "\<And>k e. (k, e) \<in> set entries \<Longrightarrow> (k, e) \<in> set (pc_projections c)" for entries c
    using that
  proof (induction entries arbitrary: c)
    case Nil
    then show ?case by (simp add: case_prod_unfold)
  next
    case (Cons x entries)
    obtain k e where x: "x = (k, e)" by (cases x)
    show ?case
    proof (cases "fst k \<noteq> ws \<or> \<not> remove (snd k)")
      case True
      then show ?thesis
        using Cons.IH [OF Cons.prems(1)] Cons.prems x by (auto intro!: filter_cong)
    next
      case False
      let ?c = "c\<lparr>pc_projections := dropEntry k (pc_projections c), pc_bytes := pc_bytes c - cp_bytes e\<rparr>"
      have mem: "(k, e) \<in> set (pc_projections c)" using Cons.prems(3) x by simp
      have "(k', e') \<in> set (pc_projections ?c)" if "(k', e') \<in> set entries" for k' e'
        using that Cons.prems(2,3) x by (auto simp: dropEntry_def image_iff)
      note IH = Cons.IH [OF accounted_drop [OF Cons.prems(1) mem] _ this]
      have unique: "e' = e" if "(k, e') \<in> set (pc_projections c)" for e'
        using Cons.prems(1) that mem by (auto simp: accounted_def dest: eq_key_imp_eq_value)
      have "filter (\<lambda>(k', e'). (k', e') \<in> set entries \<longrightarrow> fst k' \<noteq> ws \<or> \<not> remove (snd k')) (dropEntry k (pc_projections c)) =
          filter (\<lambda>(k', e'). (k', e') \<in> set (x # entries) \<longrightarrow> fst k' \<noteq> ws \<or> \<not> remove (snd k')) (pc_projections c)"
        unfolding dropEntry_def filter_filter using False unique x by (intro filter_cong) auto
      moreover have "0 \<le> cp_bytes e" using mem Cons.prems(1) by (auto simp: accounted_def list_all_iff)
      ultimately show ?thesis using IH False x Cons.prems(2) by simp
    qed
  qed
  from this [OF assms, of "pc_projections c"] show ?thesis
    using assms by (auto simp: invalidateWorkspaceCaches_def accounted_def intro!: filter_cong)
qed

section \<open>Versions that are not published show nothing\<close>

text \<open>Up to the current one, a version without a row in \<^verbatim>\<open>graph_versions\<close> was pruned, and shows nothing.\<close>

definition gapless :: "database \<Rightarrow> bool" where
  "gapless db \<longleftrightarrow> (\<forall>ws v t. v \<le> currentVersion db ws \<longrightarrow> v \<notin> set (workspace_versions db ws) \<longrightarrow> contents db t ws v = [])"

lemma gapless_empty: "gapless emptyDatabase"
  by (simp add: gapless_def contents_def visible_rows_def emptyDatabase_def)

lemma same_view_contents: "same_view db db' ws v \<Longrightarrow> contents db' t ws v = contents db t ws v"
  by (simp add: same_view_def)

lemma gapless_publishedWith:
  assumes "gapless db"
  shows "gapless (publishedWith P env request db)"
  unfolding gapless_def
proof (intro allI impI)
  fix ws v t
  assume v: "v \<le> currentVersion (publishedWith P env request db) ws" "v \<notin> set (workspace_versions (publishedWith P env request db) ws)"
  then have "v \<le> currentVersion db ws" "v \<notin> set (workspace_versions db ws)"
    by (auto simp: currentVersion_published workspace_versions_published split: if_splits)
  then show "contents (publishedWith P env request db) t ws v = []"
    using assms same_view_contents [OF same_view_published [of ws request v db P env], of t] by (auto simp: gapless_def)
qed

lemma contents_pruned_below:
  assumes "v < b"
  shows "contents (pruned ws b db) t ws v = []"
proof -
  have "\<not> visible v r" if "r \<in> set (db_tables (pruned ws b db) t)" "r_ws r = ws" for r
    using that assms by (auto simp: pruned_def visible_def)
  then show ?thesis by (auto simp: contents_def visible_rows_def filter_empty_conv)
qed

lemma gapless_pruned:
  assumes "gapless db" "b \<in> set (workspace_versions db ws)"
  shows "gapless (pruned ws b db)"
  unfolding gapless_def
proof (intro allI impI)
  fix ws' v t
  assume v: "v \<le> currentVersion (pruned ws b db) ws'" "v \<notin> set (workspace_versions (pruned ws b db) ws')"
  show "contents (pruned ws b db) t ws' v = []"
  proof (cases "ws' = ws \<and> v < b")
    case False
    then have "v \<notin> set (workspace_versions db ws')" using v(2) by (auto simp: workspace_versions_pruned split: if_splits)
    then show ?thesis
      using assms(1) v(1) False same_view_contents [OF same_view_pruned [of ws' ws b v db], of t]
      by (auto simp: gapless_def currentVersion_pruned [OF assms(2)])
  qed (use contents_pruned_below in auto)
qed

lemma gapless_rolledBack:
  assumes "gapless db" "R \<in> set (workspace_versions db ws)"
  shows "gapless (rolledBack ws R db)"
  unfolding gapless_def
proof (intro allI impI)
  fix ws' v t
  assume v: "v \<le> currentVersion (rolledBack ws R db) ws'" "v \<notin> set (workspace_versions (rolledBack ws R db) ws')"
  then have "ws' \<noteq> ws \<or> v \<le> R" "v \<le> currentVersion db ws'" "v \<notin> set (workspace_versions db ws')"
    using currentVersion_le [OF assms(2)] by (auto simp: currentVersion_rolledBack [OF assms(2)] workspace_versions_rolledBack split: if_splits)
  then show "contents (rolledBack ws R db) t ws' v = []"
    using assms(1) same_view_contents [OF same_view_rolledBack [of ws' ws v R db], of t] by (auto simp: gapless_def)
qed

lemma read_unpublished:
  assumes "gapless db" "sn_Version s \<le> currentVersion db (sn_Workspace s)" "sn_Version s \<notin> set (workspace_versions db (sn_Workspace s))"
  shows "readResolverProjections s db = Inr []"
  using assms by (simp add: readResolverProjections_def visibleFiles_def gapless_def)

section \<open>What a write does to the reads\<close>

text \<open>A write of workspace \<open>ws\<close>, whose invalidation removes the versions in \<open>remove\<close>: the others stay published, or not, with
  what they showed.\<close>

definition writes :: "database \<Rightarrow> str \<Rightarrow> (nat \<Rightarrow> bool) \<Rightarrow> database \<Rightarrow> bool" where
  "writes db ws remove db' \<longleftrightarrow> wf_db db' \<and> gapless db' \<and>
     (\<forall>ws' v. v \<in> set (workspace_versions db' ws') \<longrightarrow> ws' \<noteq> ws \<or> \<not> remove v \<longrightarrow> v \<in> set (workspace_versions db ws') \<and>
        readResolverProjections (snapshotOf ws' v) db' = readResolverProjections (snapshotOf ws' v) db)"

lemma version_writes:
  assumes "wf_db db" "gapless db" "wf_db (publishedWith P env request db)"
  defines "ws \<equiv> pr_Workspace request"
  defines "v \<equiv> currentVersion db ws + 1"
  assumes "25 < v \<Longrightarrow> v - 24 \<in> set (workspace_versions (publishedWith P env request db) ws)"
  defines "db' \<equiv> if 25 < v then pruned ws (v - 24) (publishedWith P env request db) else publishedWith P env request db"
  shows "writes db ws (\<lambda>u. u = v) db'" "currentVersion db' = (currentVersion db)(ws := v)"
    "\<forall>u \<in> set (workspace_versions db' ws'). u \<in> set (workspace_versions db ws') \<or> ws' = ws \<and> u = v"
proof -
  let ?D = "publishedWith P env request db"
  have gapless: "gapless ?D" by (rule gapless_publishedWith [OF assms(2)])
  show cur: "currentVersion db' = (currentVersion db)(ws := v)"
    using assms(6) by (auto simp: db'_def fun_eq_iff currentVersion_pruned currentVersion_published ws_def v_def)
  have versions: "u \<in> set (workspace_versions ?D ws') \<and> (\<not> (25 < v \<and> ws' = ws) \<or> v - 24 \<le> u)"
    if "u \<in> set (workspace_versions db' ws')" for u ws'
    using that by (auto simp: db'_def workspace_versions_pruned split: if_splits)
  show known: "\<forall>u \<in> set (workspace_versions db' ws'). u \<in> set (workspace_versions db ws') \<or> ws' = ws \<and> u = v" for ws'
    using versions by (auto simp: workspace_versions_published ws_def v_def split: if_splits)
  have "readResolverProjections (snapshotOf ws' u) db' = readResolverProjections (snapshotOf ws' u) db"
    if "u \<in> set (workspace_versions db' ws')" "u \<in> set (workspace_versions db ws')" for ws' u
  proof -
    have "same_view db ?D ws' u" using that(2) currentVersion_le by (intro same_view_published) blast
    moreover have "same_view ?D db' ws' u" using versions [OF that(1)] by (auto simp: db'_def intro!: same_view_pruned)
    ultimately show ?thesis using projections_view.view_law same_view_trans by blast
  qed
  moreover have "wf_db db'" "gapless db'" using assms(3,6) gapless by (auto simp: db'_def wf_pruned gapless_pruned)
  ultimately show "writes db ws (\<lambda>u. u = v) db'"
    using known unfolding writes_def by blast
qed

lemma publish_writes:
  assumes "wf_db db" "gapless db" "env_ok env" "publish env stage request db = Inr (s, db')"
  shows "writes db (pr_Workspace request) (\<lambda>u. u = sn_Version s) db'"
    "sn_Version s = currentVersion db (pr_Workspace request) + 1"
    "currentVersion db' = (currentVersion db)(pr_Workspace request := sn_Version s)"
    "\<forall>u \<in> set (workspace_versions db' ws'). u \<in> set (workspace_versions db ws') \<or> ws' = pr_Workspace request \<and> u = sn_Version s"
proof -
  obtain r where r: "pr_Workspace r = pr_Workspace request" "publishRequest env r db = Inr (s, db')"
    using publish_is_publishRequest [OF assms(4)] by blast
  note f = publishRequest_Inr [OF assms(1,3) r(2)]
  have wf: "wf_db (published env r db)" by (rule wf_published [OF assms(1) f(2)]) simp
  have v: "sn_Version s = currentVersion db (pr_Workspace r) + 1" using f(1) by simp
  have boundary: "n - 25 + 1 = n - 24" if "25 < n" for n :: nat using that by simp
  have b: "25 < currentVersion db (pr_Workspace r) + 1 \<Longrightarrow>
      currentVersion db (pr_Workspace r) + 1 - 24 \<in> set (workspace_versions (published env r db) (pr_Workspace r))"
    using f(4) boundary by (simp add: retention_boundary_def retainedGraphVersions_def del: One_nat_def)
  have db': "db' = (if 25 < currentVersion db (pr_Workspace r) + 1 then pruned (pr_Workspace r) (currentVersion db (pr_Workspace r) + 1 - 24)
      (published env r db) else published env r db)"
    using f(3) boundary [of "currentVersion db (pr_Workspace r) + 1"] by (auto simp: retention_boundary_def retainedGraphVersions_def)
  note w = version_writes [OF assms(1,2) wf b, folded db' v, unfolded r(1)]
  show "writes db (pr_Workspace request) (\<lambda>u. u = sn_Version s) db'"
    "sn_Version s = currentVersion db (pr_Workspace request) + 1"
    "currentVersion db' = (currentVersion db)(pr_Workspace request := sn_Version s)"
    "\<forall>u \<in> set (workspace_versions db' ws'). u \<in> set (workspace_versions db ws') \<or> ws' = pr_Workspace request \<and> u = sn_Version s"
    using w v r(1) by simp_all
qed

text \<open>The commit of a session, run as in \<open>session_publishes\<close>.\<close>

definition session_ready :: "publish_env \<Rightarrow> str \<Rightarrow> source_op list \<Rightarrow> Facts \<Rightarrow> database \<Rightarrow> bool" where
  "session_ready env ws ops facts db \<longleftrightarrow> env_ok env \<and> within_budget env \<and> ws \<noteq> [] \<and> db_staged db = [] \<and> ops_ok {} {} ops \<and>
     facts_fit defaultWorkspaceFactLimits ws (currentVersion db ws + 1) facts \<and>
     (25 < currentVersion db ws + 1 \<longrightarrow> currentVersion db ws - 23 \<in> set (workspace_versions db ws))"

lemma session_writes:
  assumes "wf_db db" "gapless db" "session_ready env ws ops facts db" "runSession env ws ops facts db = Inr (s, db')"
  shows "writes db ws (\<lambda>u. u = sn_Version s) db'" "sn_Version s = currentVersion db ws + 1"
    "currentVersion db' = (currentVersion db)(ws := sn_Version s)"
    "\<forall>u \<in> set (workspace_versions db' ws'). u \<in> set (workspace_versions db ws') \<or> ws' = ws \<and> u = sn_Version s"
proof -
  let ?P = "sessionClosed (staged_of ops) (written_of ops)" and ?req = "sessionRequest ws (written_of ops) facts"
  let ?v = "currentVersion db ws + 1"
  have ws: "pr_Workspace ?req = ws" by (simp add: sessionRequest_def)
  have ready: "env_ok env" "within_budget env" "ws \<noteq> []" "db_staged db = []" "ops_ok {} {} ops"
    "facts_fit defaultWorkspaceFactLimits ws ?v facts" "25 < ?v \<Longrightarrow> ?v - 24 \<in> set (workspace_versions db ws)"
    using assms(3) by (auto simp: session_ready_def)
  note run = runSession_eq [OF assms(1) ready]
  obtain s0 where "session_inv db ws [] [] s0" using Begin_inv [OF ready(3,1,4)] by blast
  then obtain s1 where "session_inv db ws (staged_of ops) (written_of ops) s1"
    using sourceSteps_inv [OF assms(1), of ws "[]" "[]" s0 ops] ready(5) by auto
  then have "distinct (map c_sourcePath (written_of ops))" by (simp add: session_inv_def)
  then have wf: "wf_db (publishedWith ?P env ?req db)"
    by (intro wf_published [OF assms(1)]) (auto simp: sessionRequest_def sessionClosed_def)
  have b: "25 < currentVersion db (pr_Workspace ?req) + 1 \<Longrightarrow>
      currentVersion db (pr_Workspace ?req) + 1 - 24 \<in> set (workspace_versions (publishedWith ?P env ?req db) (pr_Workspace ?req))"
    using ready(7) by (simp add: ws workspace_versions_published)
  have out: "sn_Version s = ?v" "db' = (if 25 < ?v then pruned ws (?v - 24) (publishedWith ?P env ?req db) else publishedWith ?P env ?req db)"
    using run assms(4) by simp_all
  note w = version_writes [OF assms(1,2) wf b, unfolded ws, folded out]
  show "writes db ws (\<lambda>u. u = sn_Version s) db'" "sn_Version s = currentVersion db ws + 1"
    "currentVersion db' = (currentVersion db)(ws := sn_Version s)"
    "\<forall>u \<in> set (workspace_versions db' ws'). u \<in> set (workspace_versions db ws') \<or> ws' = ws \<and> u = sn_Version s"
    using w out(1) by simp_all
qed

lemma rollback_writes:
  assumes "wf_db db" "gapless db" "Rollback ws R db = Inr (s, db')"
  shows "writes db ws (\<lambda>u. R < u) db'" "R \<in> set (workspace_versions db ws)" "currentVersion db' = (currentVersion db)(ws := R)"
    "u \<in> set (workspace_versions db' ws') \<longleftrightarrow> u \<in> set (workspace_versions db ws') \<and> (ws' = ws \<longrightarrow> u \<le> R)"
proof -
  have db': "db' = rolledBack ws R db" and R: "R \<in> set (workspace_versions db ws)"
    using assms(3) publicationTime_None [of db ws R] by (auto simp: Rollback_eq split: if_splits option.splits)
  show "R \<in> set (workspace_versions db ws)" by (rule R)
  show "currentVersion db' = (currentVersion db)(ws := R)" unfolding db' by (rule currentVersion_rolledBack [OF R])
  show "u \<in> set (workspace_versions db' ws') \<longleftrightarrow> u \<in> set (workspace_versions db ws') \<and> (ws' = ws \<longrightarrow> u \<le> R)"
    unfolding db' workspace_versions_rolledBack by (cases "ws' = ws") simp_all
  have "wf_db db'" "gapless db'" unfolding db' by (rule wf_rolledBack [OF assms(1) R], rule gapless_rolledBack [OF assms(2) R])
  then show "writes db ws (\<lambda>u. R < u) db'"
    unfolding writes_def using projections_view.read_rollback [OF assms(3)] by blast
qed

lemma prune_writes:
  assumes "wf_db db" "gapless db" "Prune ws b db = Inr (n, db')"
  shows "writes db ws (\<lambda>u. u < b) db'" "b \<in> set (workspace_versions db ws)" "currentVersion db' = currentVersion db"
    "u \<in> set (workspace_versions db' ws') \<longleftrightarrow> u \<in> set (workspace_versions db ws') \<and> (ws' = ws \<longrightarrow> b \<le> u)"
proof -
  have b: "b \<in> set (workspace_versions db ws)" using assms(3) by (auto simp: Prune_def pruneVersions_def split: if_splits)
  with assms(1,3) have db': "db' = pruned ws b db" by (auto simp: Prune_def pruneVersions_eq split: if_splits)
  show "b \<in> set (workspace_versions db ws)" by (rule b)
  show "currentVersion db' = currentVersion db" unfolding db' by (rule ext) (rule currentVersion_pruned [OF b])
  show "u \<in> set (workspace_versions db' ws') \<longleftrightarrow> u \<in> set (workspace_versions db ws') \<and> (ws' = ws \<longrightarrow> b \<le> u)"
    unfolding db' workspace_versions_pruned by (cases "ws' = ws") auto
  have "wf_db db'" "gapless db'" unfolding db' by (rule wf_pruned [OF assms(1) b], rule gapless_pruned [OF assms(2) b])
  then show "writes db ws (\<lambda>u. u < b) db'"
    unfolding writes_def using projections_view.read_prune [OF assms(1,3)] by blast
qed

section \<open>The store with its cache\<close>

text \<open>
  A read that misses the cache goes through two lists: it has looked the cache up, and it has read the rows but not
  stored them yet. A write leaves its invalidation owed from its commit until it returns. The history variable
  \<open>cs_pruned\<close> keeps the boundary of the last \<^verbatim>\<open>Prune\<close> of each workspace; the store has no such field.
\<close>

record cached_store =
  cs_db :: database
  cs_cache :: projectionCache
  cs_lookups :: "Snapshot list"
  cs_reads :: "(Snapshot \<times> ResolverProjection list) list"
  cs_owed :: "(str \<times> (nat \<Rightarrow> bool)) option"
  cs_pruned :: "str \<Rightarrow> nat"

definition owed :: "cached_store \<Rightarrow> str \<Rightarrow> nat \<Rightarrow> bool" where
  "owed st ws v \<longleftrightarrow> (case cs_owed st of None \<Rightarrow> False | Some (ws', remove) \<Rightarrow> ws' = ws \<and> remove v)"

definition reading :: "cached_store \<Rightarrow> Snapshot set" where
  "reading st = set (cs_lookups st) \<union> fst ` set (cs_reads st)"

definition nobodyReads :: "str \<Rightarrow> (nat \<Rightarrow> bool) \<Rightarrow> cached_store \<Rightarrow> bool" where
  "nobodyReads ws remove st \<longleftrightarrow> (\<forall>s \<in> reading st. sn_Workspace s = ws \<longrightarrow> \<not> remove (sn_Version s))"

definition committed :: "database \<Rightarrow> str \<Rightarrow> (nat \<Rightarrow> bool) \<Rightarrow> cached_store \<Rightarrow> cached_store" where
  "committed db ws remove st = st\<lparr>cs_db := db, cs_owed := Some (ws, remove)\<rparr>"

text \<open>One write call at a time; a rollback or a pruning commits only while no read of a version it removes is under way; and
  snapshots of versions that were never published are not read.\<close>

inductive cached_step :: "cached_store \<Rightarrow> cached_store \<Rightarrow> bool" where
  publish: "cs_owed st = None \<Longrightarrow> env_ok env \<Longrightarrow> publish env stage request (cs_db st) = Inr (s, db') \<Longrightarrow>
    cached_step st (committed db' (pr_Workspace request) (\<lambda>v. v = sn_Version s) st)"
| session: "cs_owed st = None \<Longrightarrow> session_ready env ws ops facts (cs_db st) \<Longrightarrow> runSession env ws ops facts (cs_db st) = Inr (s, db') \<Longrightarrow>
    cached_step st (committed db' ws (\<lambda>v. v = sn_Version s) st)"
| rollback: "cs_owed st = None \<Longrightarrow> nobodyReads ws (\<lambda>v. R < v) st \<Longrightarrow> Rollback ws R (cs_db st) = Inr (s, db') \<Longrightarrow>
    cached_step st (committed db' ws (\<lambda>v. R < v) st)"
| prune: "cs_owed st = None \<Longrightarrow> nobodyReads ws (\<lambda>v. v < b) st \<Longrightarrow> Prune ws b (cs_db st) = Inr (n, db') \<Longrightarrow>
    cached_step st (committed db' ws (\<lambda>v. v < b) (st\<lparr>cs_pruned := (cs_pruned st)(ws := b)\<rparr>))"
| invalidate: "cs_owed st = Some (ws, remove) \<Longrightarrow>
    cached_step st (st\<lparr>cs_cache := invalidateWorkspaceCaches ws remove (cs_cache st), cs_owed := None\<rparr>)"
| lookup: "\<not> noSnapshot s \<Longrightarrow> sn_Version s \<le> currentVersion (cs_db st) (sn_Workspace s) \<Longrightarrow> cachedResolverProjections s (cs_cache st) = None \<Longrightarrow>
    cached_step st (st\<lparr>cs_lookups := s # cs_lookups st\<rparr>)"
| query: "s \<in> set (cs_lookups st) \<Longrightarrow> readResolverProjections s (cs_db st) = Inr ps \<Longrightarrow>
    cached_step st (st\<lparr>cs_lookups := remove1 s (cs_lookups st), cs_reads := (s, ps) # cs_reads st\<rparr>)"
| query_failed: "s \<in> set (cs_lookups st) \<Longrightarrow> readResolverProjections s (cs_db st) = Inl e \<Longrightarrow>
    cached_step st (st\<lparr>cs_lookups := remove1 s (cs_lookups st)\<rparr>)"
| store_result: "(s, ps) \<in> set (cs_reads st) \<Longrightarrow>
    cached_step st (st\<lparr>cs_cache := cacheResolverProjections s ps (cs_cache st), cs_reads := remove1 (s, ps) (cs_reads st)\<rparr>)"

inductive cached_reachable :: "cached_store \<Rightarrow> bool" where
  initial: "0 \<le> maximum \<Longrightarrow> cached_reachable \<lparr>cs_db = emptyDatabase, cs_cache = newCache maximum, cs_lookups = [], cs_reads = [],
    cs_owed = None, cs_pruned = (\<lambda>_. 0)\<rparr>"
| step: "cached_reachable st \<Longrightarrow> cached_step st st' \<Longrightarrow> cached_reachable st'"

section \<open>Coherence\<close>

text \<open>The projections somebody holds for a version: an entry of the cache, or a read on its way to it.\<close>

definition entry_of :: "projectionCache \<Rightarrow> projectionCacheKey \<Rightarrow> ResolverProjection list \<Rightarrow> bool" where
  "entry_of c key ps \<longleftrightarrow> (\<exists>entry. (key, entry) \<in> set (pc_projections c) \<and> cp_values entry = ps)"

definition read_of :: "cached_store \<Rightarrow> projectionCacheKey \<Rightarrow> ResolverProjection list \<Rightarrow> bool" where
  "read_of st key ps \<longleftrightarrow> (\<exists>s. (s, ps) \<in> set (cs_reads st) \<and> snapshotKey s = key)"

text \<open>They are what the database shows of a published version, and nothing below the last pruning.\<close>

definition right :: "cached_store \<Rightarrow> projectionCacheKey \<Rightarrow> ResolverProjection list \<Rightarrow> bool" where
  "right st key ps \<longleftrightarrow> snd key \<le> currentVersion (cs_db st) (fst key) \<and>
     (snd key \<in> set (workspace_versions (cs_db st) (fst key)) \<longrightarrow> readResolverProjections (snapshotOf (fst key) (snd key)) (cs_db st) = Inr ps) \<and>
     (snd key < cs_pruned st (fst key) \<longrightarrow> ps = [])"

definition stale :: "cached_store \<Rightarrow> projectionCacheKey \<Rightarrow> bool" where
  "stale st key \<longleftrightarrow> owed st (fst key) (snd key) \<and> snd key \<notin> set (workspace_versions (cs_db st) (fst key))"

definition db_inv :: "cached_store \<Rightarrow> bool" where
  "db_inv st \<longleftrightarrow> wf_db (cs_db st) \<and> gapless (cs_db st) \<and>
     (\<forall>ws. \<forall>v \<in> set (workspace_versions (cs_db st) ws). cs_pruned st ws \<le> v) \<and>
     (\<forall>ws. cs_pruned st ws \<le> currentVersion (cs_db st) ws)"

definition account_inv :: "cached_store \<Rightarrow> bool" where
  "account_inv st \<longleftrightarrow> accounted (cs_cache st) \<and> sized (cs_cache st) \<and> pc_bytes (cs_cache st) \<le> pc_max (cs_cache st)"

definition lookup_inv :: "cached_store \<Rightarrow> bool" where
  "lookup_inv st \<longleftrightarrow> (\<forall>s \<in> set (cs_lookups st). sn_Version s \<le> currentVersion (cs_db st) (sn_Workspace s))"

definition entry_inv :: "cached_store \<Rightarrow> bool" where
  "entry_inv st \<longleftrightarrow> (\<forall>key ps. entry_of (cs_cache st) key ps \<longrightarrow> right st key ps \<or> stale st key) \<and>
     (\<forall>key ps. read_of st key ps \<longrightarrow> right st key ps) \<and>
     (\<forall>key ps ps'. read_of st key ps \<longrightarrow> entry_of (cs_cache st) key ps' \<or> read_of st key ps' \<longrightarrow> ps = ps' \<or> ps = [] \<or> ps' = [])"

definition cache_inv :: "cached_store \<Rightarrow> bool" where
  "cache_inv st \<longleftrightarrow> db_inv st \<and> account_inv st \<and> lookup_inv st \<and> entry_inv st"

text \<open>A commit keeps what is right of the versions its invalidation does not remove, and leaves the others stale.\<close>

lemma commit_inv:
  fixes st ws remove db' pr
  defines "st' \<equiv> committed db' ws remove (st\<lparr>cs_pruned := pr\<rparr>)"
  assumes "cs_owed st = None" "lookup_inv st" "entry_inv st" "nobodyReads ws remove st" "writes (cs_db st) ws remove db'"
    and current: "\<And>ws' v. v \<le> currentVersion (cs_db st) ws' \<Longrightarrow> \<not> (ws' = ws \<and> remove v) \<Longrightarrow> v \<le> currentVersion db' ws'"
    and gone: "\<And>v. remove v \<Longrightarrow> v \<le> currentVersion (cs_db st) ws \<Longrightarrow> v \<notin> set (workspace_versions db' ws)"
    and pruned: "\<And>ws' v. v < pr ws' \<Longrightarrow> v < cs_pruned st ws' \<or> ws' = ws \<and> remove v"
  shows "lookup_inv st' \<and> entry_inv st'"
proof -
  have same: "cs_cache st' = cs_cache st" "cs_lookups st' = cs_lookups st" "read_of st' = read_of st" "cs_db st' = db'" "cs_pruned st' = pr"
    by (simp_all add: st'_def committed_def read_of_def [abs_def])
  have right: "right st' (ws', v) ps" if "right st (ws', v) ps" "\<not> (ws' = ws \<and> remove v)" for ws' v ps
  proof -
    have "readResolverProjections (snapshotOf ws' v) db' = Inr ps" if "v \<in> set (workspace_versions db' ws')"
      using that \<open>right st (ws', v) ps\<close> \<open>\<not> (ws' = ws \<and> remove v)\<close> assms(6) unfolding writes_def right_def by auto
    moreover have "ps = []" if "v < pr ws'" using pruned [OF that] \<open>right st (ws', v) ps\<close> \<open>\<not> (ws' = ws \<and> remove v)\<close> by (simp add: right_def)
    moreover have "v \<le> currentVersion db' ws'" using that current by (simp add: right_def)
    ultimately show ?thesis by (simp add: right_def same)
  qed
  have "right st' (ws', v) ps \<or> stale st' (ws', v)" if "entry_of (cs_cache st) (ws', v) ps" for ws' v ps
  proof -
    have "right st (ws', v) ps" using assms(2,4) that by (fastforce simp: entry_inv_def stale_def owed_def)
    then show ?thesis using right gone by (cases "ws' = ws \<and> remove v") (auto simp: right_def stale_def owed_def st'_def committed_def)
  qed
  moreover have "right st' (ws', v) ps" if "read_of st (ws', v) ps" for ws' v ps
  proof (rule right)
    show "right st (ws', v) ps" using assms(4) that by (simp add: entry_inv_def)
    show "\<not> (ws' = ws \<and> remove v)" using that assms(5) by (force simp: read_of_def nobodyReads_def reading_def snapshotKey_def)
  qed
  moreover have "lookup_inv st'"
    unfolding lookup_inv_def same
  proof
    fix s assume s: "s \<in> set (cs_lookups st)"
    then have "\<not> (sn_Workspace s = ws \<and> remove (sn_Version s))" using assms(5) by (auto simp: nobodyReads_def reading_def)
    then show "sn_Version s \<le> currentVersion db' (sn_Workspace s)" using current assms(3) s by (simp add: lookup_inv_def)
  qed
  ultimately show ?thesis using assms(4) by (simp add: entry_inv_def same)
qed

text \<open>A version that was not published before is not read.\<close>

lemma nobodyReads_new:
  assumes "lookup_inv st" "entry_inv st"
  shows "nobodyReads ws (\<lambda>v. v = currentVersion (cs_db st) ws + 1) st"
  unfolding nobodyReads_def
proof (intro ballI impI)
  fix s assume "s \<in> reading st" "sn_Workspace s = ws"
  moreover have "sn_Version s \<le> currentVersion (cs_db st) (sn_Workspace s)" if "(s, ps) \<in> set (cs_reads st)" for ps
  proof -
    have "read_of st (snapshotKey s) ps" using that by (auto simp: read_of_def)
    then show ?thesis using assms(2) by (auto simp: entry_inv_def right_def snapshotKey_def)
  qed
  ultimately show "sn_Version s \<noteq> currentVersion (cs_db st) ws + 1" using assms(1) by (auto simp: reading_def lookup_inv_def)
qed

lemma same_pruned [simp]: "st\<lparr>cs_pruned := cs_pruned st\<rparr> = st"
  by (cases st) simp

lemma version_commit_inv:
  assumes "cache_inv st" "cs_owed st = None" "writes (cs_db st) ws (\<lambda>u. u = v) db'" "v = currentVersion (cs_db st) ws + 1"
    "currentVersion db' = (currentVersion (cs_db st))(ws := v)"
    "\<And>ws'. \<forall>u \<in> set (workspace_versions db' ws'). u \<in> set (workspace_versions (cs_db st) ws') \<or> ws' = ws \<and> u = v"
  shows "cache_inv (committed db' ws (\<lambda>u. u = v) st)"
proof -
  have inv: "db_inv st" "account_inv st" "lookup_inv st" "entry_inv st" using assms(1) by (simp_all add: cache_inv_def)
  have "nobodyReads ws (\<lambda>u. u = v) st" using nobodyReads_new [OF inv(3,4)] assms(4) by simp
  then have "lookup_inv (committed db' ws (\<lambda>u. u = v) (st\<lparr>cs_pruned := cs_pruned st\<rparr>)) \<and>
      entry_inv (committed db' ws (\<lambda>u. u = v) (st\<lparr>cs_pruned := cs_pruned st\<rparr>))"
    by (rule commit_inv [OF assms(2) inv(3,4) _ assms(3)]) (auto simp: assms(4,5))
  moreover have "db_inv (committed db' ws (\<lambda>u. u = v) st)"
  proof -
    have "cs_pruned st ws' \<le> u" if "u \<in> set (workspace_versions db' ws')" for ws' u
    proof (cases "u \<in> set (workspace_versions (cs_db st) ws')")
      case False
      then have "ws' = ws" "u = v" using assms(6) that by blast+
      moreover have "cs_pruned st ws \<le> currentVersion (cs_db st) ws" using inv(1) by (simp add: db_inv_def)
      ultimately show ?thesis using assms(4) by simp
    qed (use inv(1) in \<open>auto simp: db_inv_def\<close>)
    moreover have "cs_pruned st ws' \<le> currentVersion db' ws'" for ws'
      using inv(1) assms(4,5) by (auto simp: db_inv_def le_SucI)
    moreover have "wf_db db'" "gapless db'" using assms(3) by (simp_all add: writes_def)
    ultimately show ?thesis by (simp add: db_inv_def committed_def)
  qed
  moreover have "account_inv (committed db' ws (\<lambda>u. u = v) st)" using inv(2) by (simp add: account_inv_def committed_def)
  ultimately show ?thesis by (simp add: cache_inv_def)
qed

lemma rollback_commit_inv:
  assumes "cache_inv st" "cs_owed st = None" "nobodyReads ws (\<lambda>v. R < v) st" "Rollback ws R (cs_db st) = Inr (s, db')"
  shows "cache_inv (committed db' ws (\<lambda>v. R < v) st)"
proof -
  have inv: "db_inv st" "account_inv st" "lookup_inv st" "entry_inv st" using assms(1) by (simp_all add: cache_inv_def)
  have db: "wf_db (cs_db st)" "gapless (cs_db st)" using inv(1) by (simp_all add: db_inv_def)
  note w = rollback_writes [OF db assms(4)]
  have "lookup_inv (committed db' ws (\<lambda>v. R < v) (st\<lparr>cs_pruned := cs_pruned st\<rparr>)) \<and>
      entry_inv (committed db' ws (\<lambda>v. R < v) (st\<lparr>cs_pruned := cs_pruned st\<rparr>))"
    by (rule commit_inv [OF assms(2) inv(3,4) assms(3) w(1)]) (auto simp: w(3,4))
  moreover have "db_inv (committed db' ws (\<lambda>v. R < v) st)"
    using inv(1) w(1-4) by (auto simp: db_inv_def committed_def writes_def)
  moreover have "account_inv (committed db' ws (\<lambda>v. R < v) st)" using inv(2) by (simp add: account_inv_def committed_def)
  ultimately show ?thesis by (simp add: cache_inv_def)
qed

lemma prune_commit_inv:
  assumes "cache_inv st" "cs_owed st = None" "nobodyReads ws (\<lambda>v. v < b) st" "Prune ws b (cs_db st) = Inr (n, db')"
  shows "cache_inv (committed db' ws (\<lambda>v. v < b) (st\<lparr>cs_pruned := (cs_pruned st)(ws := b)\<rparr>))"
proof -
  let ?st = "committed db' ws (\<lambda>v. v < b) (st\<lparr>cs_pruned := (cs_pruned st)(ws := b)\<rparr>)"
  have inv: "db_inv st" "account_inv st" "lookup_inv st" "entry_inv st" using assms(1) by (simp_all add: cache_inv_def)
  have db: "wf_db (cs_db st)" "gapless (cs_db st)" using inv(1) by (simp_all add: db_inv_def)
  note w = prune_writes [OF db assms(4)]
  have "lookup_inv ?st \<and> entry_inv ?st"
    by (rule commit_inv [OF assms(2) inv(3,4) assms(3) w(1)]) (auto simp: w(3,4) split: if_splits)
  moreover have "db_inv ?st"
    using inv(1) w(1-4) currentVersion_le [OF w(2)] by (auto simp: db_inv_def committed_def writes_def)
  moreover have "account_inv ?st" using inv(2) by (simp add: account_inv_def committed_def)
  ultimately show ?thesis by (simp add: cache_inv_def)
qed

lemma entry_key_unique: "accounted c \<Longrightarrow> (k, e) \<in> set (pc_projections c) \<Longrightarrow> (k, e') \<in> set (pc_projections c) \<Longrightarrow> e = e'"
  by (auto simp: accounted_def dest: eq_key_imp_eq_value)

lemma invalidate_inv:
  assumes "cache_inv st" "cs_owed st = Some (ws, remove)"
  shows "cache_inv (st\<lparr>cs_cache := invalidateWorkspaceCaches ws remove (cs_cache st), cs_owed := None\<rparr>)"
proof -
  let ?c = "invalidateWorkspaceCaches ws remove (cs_cache st)" and ?st = "st\<lparr>cs_cache := invalidateWorkspaceCaches ws remove (cs_cache st), cs_owed := None\<rparr>"
  have inv: "db_inv st" "account_inv st" "lookup_inv st" "entry_inv st" using assms(1) by (simp_all add: cache_inv_def)
  have c: "accounted ?c" "pc_projections ?c = filter (\<lambda>((w, v), _). w \<noteq> ws \<or> \<not> remove v) (pc_projections (cs_cache st))"
    "pc_bytes ?c \<le> pc_bytes (cs_cache st)" "pc_max ?c = pc_max (cs_cache st)"
    using invalidate_eq [of "cs_cache st" ws remove] inv(2) by (simp_all add: account_inv_def)
  have kept: "entry_of ?c (w, v) ps \<longleftrightarrow> entry_of (cs_cache st) (w, v) ps \<and> (w \<noteq> ws \<or> \<not> remove v)" for w v ps
    by (auto simp: entry_of_def c(2))
  have same: "read_of ?st = read_of st" "right ?st = right st" by (simp_all add: read_of_def [abs_def] right_def [abs_def])
  have "right ?st (w, v) ps" if "entry_of ?c (w, v) ps" for w v ps
    using that inv(4) assms(2) unfolding kept same by (auto simp: entry_inv_def stale_def owed_def)
  then have "entry_inv ?st" using inv(4) by (auto simp: entry_inv_def same kept)
  moreover have "account_inv ?st" using inv(2) c by (auto simp: account_inv_def sized_def)
  ultimately show ?thesis using inv(1,3) by (simp add: cache_inv_def db_inv_def lookup_inv_def)
qed

lemma lookup_step_inv:
  assumes "cache_inv st" "sn_Version s \<le> currentVersion (cs_db st) (sn_Workspace s)"
  shows "cache_inv (st\<lparr>cs_lookups := s # cs_lookups st\<rparr>)"
  using assms by (auto simp: cache_inv_def db_inv_def account_inv_def lookup_inv_def entry_inv_def read_of_def right_def stale_def owed_def)

lemma forget_lookup_inv:
  assumes "cache_inv st"
  shows "cache_inv (st\<lparr>cs_lookups := remove1 s (cs_lookups st)\<rparr>)"
  using assms set_remove1_subset [of s "cs_lookups st"]
  by (auto simp: cache_inv_def db_inv_def account_inv_def lookup_inv_def entry_inv_def read_of_def right_def stale_def owed_def)

lemma readResolverProjections_snapshotOf:
  "readResolverProjections s db = readResolverProjections (snapshotOf (sn_Workspace s) (sn_Version s)) db"
  unfolding readResolverProjections_def readProjection_def [abs_def] storeResolutionDataForSource_def readContributionNodes_def
    readUnresolvedReferences_def readModuleBindings_def readSymbolReferences_def readContributionDiagnostics_def
    sourceRows_def visibleFiles_def snapshotOf_def Snapshot.simps
  by (rule refl)

text \<open>What a query returns is right, and agrees with what is held for its version.\<close>

lemma query_right:
  assumes "db_inv st" "sn_Version s \<le> currentVersion (cs_db st) (sn_Workspace s)" "readResolverProjections s (cs_db st) = Inr ps"
  shows "right st (snapshotKey s) ps"
proof -
  have "sn_Version s \<notin> set (workspace_versions (cs_db st) (sn_Workspace s))" if "sn_Version s < cs_pruned st (sn_Workspace s)"
    using assms(1) that by (fastforce simp: db_inv_def)
  then show ?thesis
    using assms read_unpublished [of "cs_db st" s] readResolverProjections_snapshotOf [of s "cs_db st"]
    by (auto simp: right_def snapshotKey_def db_inv_def)
qed

lemma query_agrees:
  assumes "cache_inv st" "sn_Version s \<le> currentVersion (cs_db st) (sn_Workspace s)" "readResolverProjections s (cs_db st) = Inr ps"
    and "entry_of (cs_cache st) (snapshotKey s) ps' \<or> read_of st (snapshotKey s) ps'"
  shows "ps = ps' \<or> ps = []"
proof (cases "sn_Version s \<in> set (workspace_versions (cs_db st) (sn_Workspace s))")
  case True
  then have "right st (snapshotKey s) ps'"
    using assms(1,4) by (auto simp: cache_inv_def entry_inv_def stale_def snapshotKey_def)
  then show ?thesis
    using True assms(3) readResolverProjections_snapshotOf [of s "cs_db st"] by (simp add: right_def snapshotKey_def)
next
  case False
  then show ?thesis using assms(1-3) read_unpublished [of "cs_db st" s] by (simp add: cache_inv_def db_inv_def)
qed

lemma query_inv:
  assumes "cache_inv st" "s \<in> set (cs_lookups st)" "readResolverProjections s (cs_db st) = Inr ps"
  shows "cache_inv (st\<lparr>cs_lookups := remove1 s (cs_lookups st), cs_reads := (s, ps) # cs_reads st\<rparr>)"
proof -
  let ?st = "st\<lparr>cs_lookups := remove1 s (cs_lookups st), cs_reads := (s, ps) # cs_reads st\<rparr>"
  have inv: "db_inv st" "account_inv st" "lookup_inv st" "entry_inv st" using assms(1) by (simp_all add: cache_inv_def)
  have old: "sn_Version s \<le> currentVersion (cs_db st) (sn_Workspace s)" using inv(3) assms(2) by (simp add: lookup_inv_def)
  have cache: "cs_cache ?st = cs_cache st" by simp
  have reads: "read_of ?st key qs \<longleftrightarrow> read_of st key qs \<or> key = snapshotKey s \<and> qs = ps" for key qs by (auto simp: read_of_def)
  have same: "right ?st = right st" "stale ?st = stale st" by (simp_all add: right_def [abs_def] stale_def [abs_def] owed_def)
  have "entry_inv ?st"
    using inv(4) query_right [OF inv(1) old assms(3)] query_agrees [OF assms(1) old assms(3)]
    unfolding entry_inv_def reads same cache by (intro conjI allI impI) blast+
  moreover have "lookup_inv ?st" using inv(3) set_remove1_subset [of s "cs_lookups st"] by (auto simp: lookup_inv_def)
  ultimately show ?thesis using inv(1,2) by (simp add: cache_inv_def db_inv_def account_inv_def)
qed

lemma empty_projections_bytes: "resolverProjectionBytes [] = 0"
  by (simp add: resolverProjectionBytes_def)

lemma store_result_inv:
  assumes "cache_inv st" "(s, ps) \<in> set (cs_reads st)"
  shows "cache_inv (st\<lparr>cs_cache := cacheResolverProjections s ps (cs_cache st), cs_reads := remove1 (s, ps) (cs_reads st)\<rparr>)"
proof -
  let ?c = "cacheResolverProjections s ps (cs_cache st)"
  let ?st = "st\<lparr>cs_cache := ?c, cs_reads := remove1 (s, ps) (cs_reads st)\<rparr>"
  have inv: "db_inv st" "account_inv st" "lookup_inv st" "entry_inv st" using assms(1) by (simp_all add: cache_inv_def)
  have read: "read_of st (snapshotKey s) ps" using assms(2) by (auto simp: read_of_def)
  have fits: "resolverProjectionBytes ps \<le> cp_bytes existing \<or> cp_bytes existing = 0"
    if "map_of (pc_projections (cs_cache st)) (snapshotKey s) = Some existing" for existing
  proof -
    have mem: "(snapshotKey s, existing) \<in> set (pc_projections (cs_cache st))" using that by (rule map_of_SomeD)
    then have "entry_of (cs_cache st) (snapshotKey s) (cp_values existing)" by (auto simp: entry_of_def)
    then have "ps = cp_values existing \<or> ps = [] \<or> cp_values existing = []"
      using inv(4) read unfolding entry_inv_def by blast
    moreover have "cp_bytes existing = resolverProjectionBytes (cp_values existing)" using inv(2) mem by (auto simp: account_inv_def sized_def)
    ultimately show ?thesis using resolverProjectionBytes_nonneg by (auto simp: empty_projections_bytes)
  qed
  have ok: "accounted ?c" "pc_bytes ?c \<le> pc_max ?c" and new: "\<forall>(k, entry) \<in> set (pc_projections ?c). (k, entry) \<in> set (pc_projections (cs_cache st)) \<or>
       k = snapshotKey s \<and> cp_values entry = ps \<and> cp_bytes entry = resolverProjectionBytes ps"
    using cacheResolverProjections_ok [of "cs_cache st" s ps, OF _ _ fits] inv(2) by (simp_all add: account_inv_def)
  have entries: "entry_of (cs_cache st) key qs \<or> key = snapshotKey s \<and> qs = ps" if "entry_of ?c key qs" for key qs
    using that new by (force simp: entry_of_def)
  have cache: "cs_cache ?st = ?c" by simp
  have reads: "read_of st key qs" if "read_of ?st key qs" for key qs
    using that set_remove1_subset [of "(s, ps)" "cs_reads st"] by (auto simp: read_of_def)
  have same: "right ?st = right st" "stale ?st = stale st" by (simp_all add: right_def [abs_def] stale_def [abs_def] owed_def)
  have "entry_inv ?st"
    using inv(4) entries reads read unfolding entry_inv_def same cache by (intro conjI allI impI) blast+
  moreover have "account_inv ?st" using inv(2) ok new by (fastforce simp: account_inv_def sized_def)
  ultimately show ?thesis using inv(1,3) by (simp add: cache_inv_def db_inv_def lookup_inv_def)
qed

lemma cached_step_inv:
  assumes "cached_step st st'" "cache_inv st"
  shows "cache_inv st'"
proof -
  have db: "wf_db (cs_db st)" "gapless (cs_db st)" using assms(2) by (simp_all add: cache_inv_def db_inv_def)
  from assms(1) show ?thesis
  proof cases
    case (publish env stage request s db')
    note w = publish_writes [OF db publish(3,4)]
    show ?thesis unfolding publish(1) by (rule version_commit_inv [OF assms(2) publish(2) w])
  next
    case (session env ws ops facts s db')
    note w = session_writes [OF db session(3,4)]
    show ?thesis unfolding session(1) by (rule version_commit_inv [OF assms(2) session(2) w])
  next
    case (rollback ws R s db')
    then show ?thesis using rollback_commit_inv [OF assms(2)] by simp
  next
    case (prune ws b n db')
    then show ?thesis using prune_commit_inv [OF assms(2)] by simp
  next
    case (invalidate ws remove)
    then show ?thesis using invalidate_inv [OF assms(2)] by simp
  next
    case (lookup s)
    then show ?thesis using lookup_step_inv [OF assms(2)] by simp
  next
    case (query s ps)
    then show ?thesis using query_inv [OF assms(2)] by simp
  next
    case (query_failed s e)
    then show ?thesis using forget_lookup_inv [OF assms(2)] by simp
  next
    case (store_result s ps)
    then show ?thesis using store_result_inv [OF assms(2)] by simp
  qed
qed

lemma cached_reachable_inv: "cached_reachable st \<Longrightarrow> cache_inv st"
proof (induction rule: cached_reachable.induct)
  case (initial maximum)
  then show ?case
    by (simp add: cache_inv_def db_inv_def account_inv_def lookup_inv_def entry_inv_def newCache_def accounted_def sized_def entryBytes_def
        entry_of_def read_of_def wf_emptyDatabase gapless_empty workspace_versions_def)
qed (rule cached_step_inv)

section \<open>Properties\<close>

definition answeredWith :: "cached_store \<Rightarrow> Snapshot \<Rightarrow> ResolverProjection list \<Rightarrow> bool" where
  "answeredWith st s ps \<longleftrightarrow> cachedResolverProjections s (cs_cache st) = Some ps \<or> (s, ps) \<in> set (cs_reads st)"


text \<open>A read of version 1 fills the cache, and a second publication does not disturb it.\<close>

lemma sample_second: "publish sampleEnv None (sampleRequest [''c'']) sampleStore =
    Inr (\<lparr>sn_Workspace = ''w'', sn_Version = 2, sn_PublishedAt = ''t''\<rparr>, published sampleEnv (sampleRequest [''c'']) sampleStore)"
  using sample_publish [OF sampleStore_wf, of "[''c'']"] by (simp add: sampleStore_current numeral_2_eq_2)

definition sampleCached :: cached_store where
  "sampleCached = (let c = invalidateWorkspaceCaches ''w'' (\<lambda>v. v = 1) (newCache 1000) in
     \<lparr>cs_db = published sampleEnv (sampleRequest [''c'']) sampleStore,
      cs_cache = cacheResolverProjections sampleSnapshot (projr (readResolverProjections sampleSnapshot sampleStore)) c,
      cs_lookups = [], cs_reads = [], cs_owed = Some (''w'', \<lambda>v. v = 2), cs_pruned = (\<lambda>_. 0)\<rparr>)"

lemma sampleCached_reachable: "cached_reachable sampleCached"
proof -
  let ?c = "invalidateWorkspaceCaches ''w'' (\<lambda>v. v = 1) (newCache 1000)"
  let ?st = "\<lambda>db c lookups reads owed. \<lparr>cs_db = db, cs_cache = c, cs_lookups = lookups, cs_reads = reads, cs_owed = owed, cs_pruned = (\<lambda>_. 0)\<rparr>"
  obtain ps where ps: "readResolverProjections sampleSnapshot sampleStore = Inr ps"
    using sampleStore_projections by auto
  have "cached_reachable (?st emptyDatabase (newCache 1000) [] [] None)" by (rule cached_reachable.initial) simp
  moreover have "cached_step (?st emptyDatabase (newCache 1000) [] [] None) (?st sampleStore (newCache 1000) [] [] (Some (''w'', \<lambda>v. v = 1)))"
    using cached_step.publish [of "?st emptyDatabase (newCache 1000) [] [] None" sampleEnv None "sampleRequest [''a'', ''b'']", OF _ sampleEnv_ok(1)]
      sampleStore_step by (simp add: committed_def sampleSnapshot_def sampleRequest_def)
  moreover have "cached_step (?st sampleStore (newCache 1000) [] [] (Some (''w'', \<lambda>v. v = 1))) (?st sampleStore ?c [] [] None)"
    using cached_step.invalidate [of "?st sampleStore (newCache 1000) [] [] (Some (''w'', \<lambda>v. v = 1))"] by simp
  moreover have "cached_step (?st sampleStore ?c [] [] None) (?st sampleStore ?c [sampleSnapshot] [] None)"
    using cached_step.lookup [of sampleSnapshot "?st sampleStore ?c [] [] None"] sampleStore_current
    by (simp add: noSnapshot_def sampleSnapshot_def cachedResolverProjections_def invalidateWorkspaceCaches_def newCache_def)
  moreover have "cached_step (?st sampleStore ?c [sampleSnapshot] [] None) (?st sampleStore ?c [] [(sampleSnapshot, ps)] None)"
    using cached_step.query [of sampleSnapshot "?st sampleStore ?c [sampleSnapshot] [] None"] ps by simp
  moreover have "cached_step (?st sampleStore ?c [] [(sampleSnapshot, ps)] None) (?st sampleStore (cacheResolverProjections sampleSnapshot ps ?c) [] [] None)"
    using cached_step.store_result [of sampleSnapshot ps "?st sampleStore ?c [] [(sampleSnapshot, ps)] None"] by simp
  moreover have "cached_step (?st sampleStore (cacheResolverProjections sampleSnapshot ps ?c) [] [] None) sampleCached"
    using cached_step.publish [of "?st sampleStore (cacheResolverProjections sampleSnapshot ps ?c) [] [] None" sampleEnv None "sampleRequest [''c'']",
        OF _ sampleEnv_ok(1)] sample_second
    by (simp add: committed_def sampleCached_def sampleRequest_def ps)
  ultimately show ?thesis by (meson cached_reachable.step)
qed


section \<open>What the conditions exclude\<close>

text \<open>A store replaces whatever the cache has. A read that took its rows before a rollback and stores them after the next publication, which gives
  its number to another version, therefore leaves the rows of the old version in the cache of the new one.\<close>

lemma late_store_wins:
  assumes "resolverProjectionBytes ps \<le> pc_max c"
  shows "cachedResolverProjections s (cacheResolverProjections s ps c) = Some ps"
  using assms by (simp add: cachedResolverProjections_def cacheResolverProjections_def Let_def)

text \<open>If the entry that is replaced is smaller than the new one and is evicted to make room, its size is subtracted twice: here ten bytes are
  allowed, eleven are held, and five are counted.\<close>

definition sizedProjection :: "str \<Rightarrow> ResolverProjection" where
  "sizedProjection p = \<lparr>pj_ProjectID = [], pj_SourcePath = p, pj_Metadata = \<lparr>md_Name = [], md_Version = [], md_Extensions = []\<rparr>, pj_Nodes = [],
     pj_UnresolvedReferences = [], pj_SymbolReferences = [], pj_ExportedSurfaces = [], pj_Dependencies = [], pj_Diagnostics = []\<rparr>"

lemma replaced_entry_counted_twice:
  "let s = (\<lambda>v. snapshotOf ''w'' v);
       c = cacheResolverProjections (s 1) [sizedProjection ''88888888''] (cacheResolverProjections (s 2) [sizedProjection ''333'']
         (cacheResolverProjections (s 1) [sizedProjection ''666666''] (newCache 10)))
   in pc_bytes c = 5 \<and> map (resolverProjectionBytes \<circ> cp_values \<circ> snd) (pc_projections c) = [8, 3]"
  by code_simp

end
