(* ===== verification/Store_Graph.thy ===== *)
theory Store_Graph
  imports Store_Read "HOL-Library.AList"
begin

text \<open>
  Queries over the graph of a version (\<^verbatim>\<open>src/storage/sqlite/sqlite.go\<close>): node lookup, the project
  scope, traversal, explanation, export and fact counts. The graph of a version is the
  union of the visible contribution rows and the workspace facts of the version. A
  Go map is an association list with different keys, updated in place. Where an SQL statement
  leaves the order of rows open (\<^verbatim>\<open>UNION ALL\<close> without \<^verbatim>\<open>ORDER BY\<close>), the model takes contribution rows
  before workspace rows, each in table order.
\<close>

section \<open>The graph of a version\<close>

definition contributionNodes :: "database \<Rightarrow> Snapshot \<Rightarrow> (str \<times> Node) list" where
  "contributionNodes db s =
     concat (map (\<lambda>(p, row). map (Pair p) (node_of row)) (contents db contribution_nodes (sn_Workspace s) (sn_Version s)))"

definition contributionEdges :: "database \<Rightarrow> Snapshot \<Rightarrow> Edge list" where
  "contributionEdges db s =
     concat (map (\<lambda>(_, row). edge_of row) (contents db contribution_edges (sn_Workspace s) (sn_Version s)))"

definition workspaceNodes :: "database \<Rightarrow> Snapshot \<Rightarrow> Node list" where
  "workspaceNodes db s = nodes_at db (sn_Workspace s) (sn_Version s)"

definition workspaceEdges :: "database \<Rightarrow> Snapshot \<Rightarrow> Edge list" where
  "workspaceEdges db s = map fst (edges_at db (sn_Workspace s) (sn_Version s))"

definition graphNodes :: "database \<Rightarrow> Snapshot \<Rightarrow> Node list" where
  "graphNodes db s = map snd (contributionNodes db s) @ workspaceNodes db s"

definition graphEdges :: "database \<Rightarrow> Snapshot \<Rightarrow> Edge list" where
  "graphEdges db s = contributionEdges db s @ workspaceEdges db s"

definition edgeIdentity :: "Edge \<Rightarrow> str \<times> str \<times> str" where
  "edgeIdentity e = (e_SourceID e, e_TargetID e, e_Relation e)"

definition edgeColumns :: "Edge \<Rightarrow> str list" where
  "edgeColumns e = [e_SourceID e, e_TargetID e, e_Relation e]"

definition edgeKey :: "Edge \<Rightarrow> str" where
  "edgeKey e = e_SourceID e @ nul @ e_TargetID e @ nul @ e_Relation e"

definition readNode :: "database \<Rightarrow> Snapshot \<Rightarrow> str \<Rightarrow> Node option" where
  "readNode db s nodeID = find (\<lambda>n. n_ID n = nodeID) (graphNodes db s)"

definition readIncidentEdges :: "database \<Rightarrow> Snapshot \<Rightarrow> str \<Rightarrow> Edge list" where
  "readIncidentEdges db s nodeID =
     sort_key edgeColumns (filter (\<lambda>e. e_SourceID e = nodeID \<or> e_TargetID e = nodeID) (graphEdges db s))"

definition readFacts :: "database \<Rightarrow> Snapshot \<Rightarrow> Facts" where
  "readFacts db s =
     \<lparr>f_Nodes = sort_key n_ID (map snd (contributionNodes db s)) @ sort_key n_ID (workspaceNodes db s),
      f_Edges = sort_key edgeColumns (contributionEdges db s) @ sort_key edgeColumns (workspaceEdges db s)\<rparr>"

definition sortedNodes :: "(str \<times> Node) list \<Rightarrow> Node list" where
  "sortedNodes nodesByID = sort_key n_ID (map snd nodesByID)"

definition sortedEdges :: "(str \<times> Edge) list \<Rightarrow> Edge list" where
  "sortedEdges edgesByKey = sort_key edgeKey (map snd edgesByKey)"

section \<open>Project scope\<close>

definition containsEdges :: "Edge list \<Rightarrow> (str \<times> str) list" where
  "containsEdges edges = map (\<lambda>e. (e_SourceID e, e_TargetID e)) (filter (\<lambda>e. e_Relation e = ''contains'') edges)"

definition childrenOf :: "(str \<times> str) list \<Rightarrow> str \<Rightarrow> str list" where
  "childrenOf pairs nodeID = map snd (filter (\<lambda>(a, _). a = nodeID) pairs)"

text \<open>The breadth-first loop of \<^verbatim>\<open>scopedNodeIDs\<close>; SQLite's recursive table \<^verbatim>\<open>scoped\<close>, whose \<^verbatim>\<open>UNION\<close> drops
  rows already produced, is the same queue.\<close>

function scopeLoop :: "(str \<times> str) list \<Rightarrow> str list \<Rightarrow> str list \<Rightarrow> str list" where
  "scopeLoop pairs [] scoped = scoped"
| "scopeLoop pairs (nodeID # frontier) scoped =
     (if nodeID \<in> set scoped then scopeLoop pairs frontier scoped
      else scopeLoop pairs (frontier @ childrenOf pairs nodeID) (scoped @ [nodeID]))"
  by pat_completeness auto
termination
proof (relation "inv_image (finite_psubset <*lex*> measure length)
    (\<lambda>(pairs, frontier, scoped). ((snd ` set pairs \<union> set frontier) - set scoped, frontier))")
  fix pairs :: "(str \<times> str) list" and nodeID frontier scoped
  let ?todo = "\<lambda>frontier scoped. (snd ` set pairs \<union> set frontier) - set scoped"
  show "((pairs, frontier, scoped), pairs, nodeID # frontier, scoped)
      \<in> inv_image (finite_psubset <*lex*> measure length) (\<lambda>(pairs, frontier, scoped). ((snd ` set pairs \<union> set frontier) - set scoped, frontier))"
    if "nodeID \<in> set scoped"
    using that by (auto simp: insert_Diff_if)
  have "set (childrenOf pairs nodeID) \<subseteq> snd ` set pairs" by (auto simp: childrenOf_def)
  then have "?todo (frontier @ childrenOf pairs nodeID) (scoped @ [nodeID]) \<subset> ?todo (nodeID # frontier) scoped"
    if "nodeID \<notin> set scoped"
    using that by auto
  then show "((pairs, frontier @ childrenOf pairs nodeID, scoped @ [nodeID]), pairs, nodeID # frontier, scoped)
      \<in> inv_image (finite_psubset <*lex*> measure length) (\<lambda>(pairs, frontier, scoped). ((snd ` set pairs \<union> set frontier) - set scoped, frontier))"
    if "nodeID \<notin> set scoped"
    using that by simp
qed (simp add: wf_finite_psubset wf_lex_prod)

definition scopedNodeIDs :: "str list \<Rightarrow> Edge list \<Rightarrow> str list" where
  "scopedNodeIDs projectIDs edges =
     (if projectIDs = [] then [] else scopeLoop (sort_key snd (containsEdges edges)) (sort projectIDs) [])"

definition readScopedNodeIDs :: "database \<Rightarrow> Snapshot \<Rightarrow> str list \<Rightarrow> str list" where
  "readScopedNodeIDs db s projectIDs =
     (if projectIDs = [] then [] else scopeLoop (containsEdges (graphEdges db s)) projectIDs [])"

section \<open>Traversal\<close>

datatype TraversalDirection = TraverseIncoming | TraverseOutgoing | TraverseBoth | OtherDirection str

record TraversalRequest =
  tr_StartNodeIDs :: "str list"
  tr_ProjectIDs :: "str list"
  tr_Direction :: TraversalDirection
  tr_Relations :: "str list"
  tr_MaxDepth :: int
  tr_MaxNodes :: int

datatype TruncationReason = TruncatedByDepthLimit | TruncatedByNodeLimit

record TraversalResult =
  ts_Facts :: Facts
  ts_TruncationReasons :: "TruncationReason list"
  ts_ScopeBoundary :: "Node option"

definition traversalNeighbor :: "str \<Rightarrow> Edge \<Rightarrow> TraversalDirection \<Rightarrow> str option" where
  "traversalNeighbor nodeID edge direction =
     (if (direction = TraverseOutgoing \<or> direction = TraverseBoth) \<and> e_SourceID edge = nodeID then Some (e_TargetID edge)
      else if (direction = TraverseIncoming \<or> direction = TraverseBoth) \<and> e_TargetID edge = nodeID then Some (e_SourceID edge)
      else None)"

definition addTruncationReason :: "TruncationReason list \<Rightarrow> TruncationReason \<Rightarrow> TruncationReason list" where
  "addTruncationReason reasons reason = (if reason \<in> set reasons then reasons else reasons @ [reason])"

definition includesRelation :: "str list \<Rightarrow> Edge \<Rightarrow> bool" where
  "includesRelation allowed edge \<longleftrightarrow> allowed = [] \<or> e_Relation edge \<in> set allowed"

definition hasTraversableNeighbor ::
  "Edge list \<Rightarrow> str \<Rightarrow> TraversalDirection \<Rightarrow> str list \<Rightarrow> (str \<times> Node) list \<Rightarrow> bool" where
  "hasTraversableNeighbor edges nodeID direction allowed selectedNodes =
     list_ex (\<lambda>edge. includesRelation allowed edge \<and>
       (case traversalNeighbor nodeID edge direction of
          None \<Rightarrow> False | Some neighborID \<Rightarrow> neighborID \<notin> fst ` set selectedNodes)) edges"

text \<open>The variables of the loop: selected nodes and edges, reasons, boundary and next frontier.\<close>

record traversal =
  tv_nodes :: "(str \<times> Node) list"
  tv_edges :: "(str \<times> Edge) list"
  tv_reasons :: "TruncationReason list"
  tv_boundary :: "Node option"
  tv_next :: "str list"

definition nodeLimit :: "traversal \<Rightarrow> traversal" where
  "nodeLimit st = st\<lparr>tv_reasons := addTruncationReason (tv_reasons st) TruncatedByNodeLimit\<rparr>"

definition selectNode :: "str \<Rightarrow> Node \<Rightarrow> traversal \<Rightarrow> traversal" where
  "selectNode nodeID node st = st\<lparr>tv_nodes := AList.update nodeID node (tv_nodes st)\<rparr>"

definition selectEdge :: "Edge \<Rightarrow> traversal \<Rightarrow> traversal" where
  "selectEdge edge st = st\<lparr>tv_edges := AList.update (edgeKey edge) edge (tv_edges st)\<rparr>"

definition atLimit :: "TraversalRequest \<Rightarrow> traversal \<Rightarrow> bool" where
  "atLimit request st \<longleftrightarrow> int (length (tv_nodes st)) = tr_MaxNodes request"

text \<open>The body of the innermost loop: one edge of a frontier node.\<close>

definition visitEdge ::
  "(str \<Rightarrow> Node option) \<Rightarrow> str list \<Rightarrow> TraversalRequest \<Rightarrow> str \<Rightarrow> Edge \<Rightarrow> traversal \<Rightarrow> traversal" where
  "visitEdge node scoped request nodeID edge st =
     (if \<not> includesRelation (tr_Relations request) edge then st
      else case traversalNeighbor nodeID edge (tr_Direction request) of
        None \<Rightarrow> st
      | Some neighborID \<Rightarrow>
          (case node neighborID of
             None \<Rightarrow> st
           | Some neighbor \<Rightarrow>
               if scoped \<noteq> [] \<and> neighborID \<notin> set scoped then
                 let st1 = (if tv_boundary st = None then st\<lparr>tv_boundary := Some neighbor\<rparr> else st) in
                 if atLimit request st1 then nodeLimit st1
                 else selectEdge edge (selectNode neighborID neighbor st1)
               else if neighborID \<in> fst ` set (tv_nodes st) then selectEdge edge st
               else if atLimit request st then nodeLimit st
               else selectEdge edge ((selectNode neighborID neighbor st)\<lparr>tv_next := tv_next st @ [neighborID]\<rparr>)))"

text \<open>One level: all edges of all frontier nodes; the next frontier is sorted without repetitions.\<close>

definition visitLevel ::
  "(str \<Rightarrow> Node option) \<Rightarrow> (str \<Rightarrow> Edge list) \<Rightarrow> str list \<Rightarrow> TraversalRequest \<Rightarrow> str list \<Rightarrow> traversal \<Rightarrow> traversal" where
  "visitLevel node incident scoped request frontier st =
     fold (\<lambda>nodeID st. fold (visitEdge node scoped request nodeID) (incident nodeID) st) frontier (st\<lparr>tv_next := []\<rparr>)"

fun visitLevels ::
  "(str \<Rightarrow> Node option) \<Rightarrow> (str \<Rightarrow> Edge list) \<Rightarrow> str list \<Rightarrow> TraversalRequest \<Rightarrow> nat \<Rightarrow> str list \<Rightarrow> traversal \<Rightarrow> str list \<times> traversal" where
  "visitLevels node incident scoped request 0 frontier st = (frontier, st)"
| "visitLevels node incident scoped request (Suc n) frontier st =
     (if frontier = [] then ([], st)
      else let st' = visitLevel node incident scoped request frontier st in
           visitLevels node incident scoped request n (dedup_adjacent (sort (tv_next st'))) st')"

text \<open>Selecting the start nodes in sorted order: an error, an early result, or the state.\<close>

datatype start_outcome = StartState traversal | StartFull traversal | StartOutside

fun selectStarts ::
  "(str \<Rightarrow> Node option) \<Rightarrow> str list \<Rightarrow> TraversalRequest \<Rightarrow> str list \<Rightarrow> traversal \<Rightarrow> start_outcome" where
  "selectStarts node scoped request [] st = StartState st"
| "selectStarts node scoped request (nodeID # rest) st =
     (if nodeID \<in> fst ` set (tv_nodes st) then selectStarts node scoped request rest st
      else case node nodeID of
        None \<Rightarrow> selectStarts node scoped request rest st
      | Some n \<Rightarrow>
          if scoped \<noteq> [] \<and> nodeID \<notin> set scoped then StartOutside
          else if atLimit request st then StartFull st
          else selectStarts node scoped request rest
                 ((selectNode nodeID n st)\<lparr>tv_next := tv_next st @ [nodeID]\<rparr>))"

definition emptyTraversal :: traversal where
  "emptyTraversal = \<lparr>tv_nodes = [], tv_edges = [], tv_reasons = [], tv_boundary = None, tv_next = []\<rparr>"

definition traverseGraph ::
  "(str \<Rightarrow> Node option) \<Rightarrow> (str \<Rightarrow> Edge list) \<Rightarrow> str list \<Rightarrow> TraversalRequest \<Rightarrow> storage_error + TraversalResult" where
  "traverseGraph node incident scoped request =
     (case selectStarts node scoped request (sort (tr_StartNodeIDs request)) emptyTraversal of
        StartOutside \<Rightarrow> Inl InvalidRequest
      | StartFull st \<Rightarrow> Inr \<lparr>ts_Facts = \<lparr>f_Nodes = sortedNodes (tv_nodes st), f_Edges = []\<rparr>,
                           ts_TruncationReasons = [TruncatedByNodeLimit], ts_ScopeBoundary = None\<rparr>
      | StartState st0 \<Rightarrow>
          (case visitLevels node incident scoped request (nat (tr_MaxDepth request)) (tv_next st0) st0 of
             (frontier, st) \<Rightarrow>
               let reasons = (if list_ex (\<lambda>nodeID. hasTraversableNeighbor (incident nodeID) nodeID (tr_Direction request)
                                     (tr_Relations request) (tv_nodes st)) frontier
                              then addTruncationReason (tv_reasons st) TruncatedByDepthLimit else tv_reasons st)
               in Inr \<lparr>ts_Facts = \<lparr>f_Nodes = sortedNodes (tv_nodes st), f_Edges = sortedEdges (tv_edges st)\<rparr>,
                       ts_TruncationReasons = reasons, ts_ScopeBoundary = tv_boundary st\<rparr>))"

definition validDirection :: "TraversalDirection \<Rightarrow> bool" where
  "validDirection direction \<longleftrightarrow> direction = TraverseIncoming \<or> direction = TraverseOutgoing \<or> direction = TraverseBoth"

definition Traverse :: "Snapshot \<Rightarrow> TraversalRequest \<Rightarrow> database \<Rightarrow> storage_error + TraversalResult" where
  "Traverse s request db =
     (if noSnapshot s \<or> tr_StartNodeIDs request = [] \<or> tr_MaxDepth request < 0 \<or> tr_MaxNodes request \<le> 0
         \<or> \<not> validDirection (tr_Direction request)
      then Inl InvalidRequest
      else traverseGraph (readNode db s) (readIncidentEdges db s) (readScopedNodeIDs db s (tr_ProjectIDs request)) request)"

section \<open>A small graph\<close>

definition sampleNode :: "str \<Rightarrow> Node" where
  "sampleNode i = \<lparr>n_ID = i, n_Kind = ''function'', n_Label = i, n_QualifiedName = i,
     n_Evidence = \<lparr>ev_Span = \<lparr>sp_Path = ''f.go'', sp_StartLine = 1, sp_StartColumn = 1, sp_EndLine = 1, sp_EndColumn = 2\<rparr>,
       ev_FileHash = ''h'', ev_Extractor = ''go'', ev_Provenance = ''p'', ev_Confidence = ''extracted''\<rparr>\<rparr>"

definition sampleEdge :: "str \<Rightarrow> str \<Rightarrow> str \<Rightarrow> Edge" where
  "sampleEdge a r b = \<lparr>e_SourceID = a, e_TargetID = b, e_Relation = r, e_Evidence = n_Evidence (sampleNode a)\<rparr>"

definition sampleGraph :: database where
  "sampleGraph = emptyDatabase\<lparr>
     db_nodes := map (\<lambda>i. \<lparr>wn_ws = ''w'', wn_version = 1, wn_node = sampleNode i\<rparr>) [''a'', ''b'', ''c''],
     db_edges := map (\<lambda>(a, r, b). \<lparr>we_ws = ''w'', we_version = 1, we_edge = sampleEdge a r b, we_owner = ''f.go''\<rparr>)
       [(''a'', ''calls'', ''b''), (''b'', ''calls'', ''c''), (''a'', ''contains'', ''c'')]\<rparr>"

definition sampleTraversal :: "int \<Rightarrow> TraversalRequest" where
  "sampleTraversal depth = \<lparr>tr_StartNodeIDs = [''a''], tr_ProjectIDs = [], tr_Direction = TraverseOutgoing,
     tr_Relations = [''calls''], tr_MaxDepth = depth, tr_MaxNodes = 10\<rparr>"

end
