(* ===== verification/Store_Lookup.thy ===== *)
theory Store_Lookup
  imports Store_Graph
begin

text \<open>
  Node lookup, explanation, export and fact counts over the graph of a version
  (\<^verbatim>\<open>src/storage/sqlite/sqlite.go\<close>). SQLite's \<^verbatim>\<open>GLOB\<close> operator is a parameter of the ranked lookup, pattern first;
  \<^verbatim>\<open>ORDER BY\<close> over several columns is a sort by the first column after a sort by the others, sorts being stable. The
  export writes to a sink given as two fallible state transformers.
\<close>

section \<open>Lookup\<close>

record NodeLookupRequest =
  nl_Text :: str
  nl_Kinds :: "NodeKind list"
  nl_ProjectIDs :: "str list"
  nl_Limit :: int

record NodeMatch =
  nm_Node :: Node
  nm_Score :: nat

text \<open>\<^verbatim>\<open>UNION\<close>: every row once.\<close>

definition visibleNodes :: "database \<Rightarrow> Snapshot \<Rightarrow> Node list" where
  "visibleNodes db s = keep_first (graphNodes db s) {}"

definition nameColumns :: "Node \<Rightarrow> str list" where
  "nameColumns n = [n_QualifiedName n, n_Label n, n_ID n]"

definition exactMatch :: "str \<Rightarrow> Node \<Rightarrow> bool" where
  "exactMatch identifier n \<longleftrightarrow> n_ID n = identifier \<or> n_QualifiedName n = identifier \<or>
     n_Kind n = ''file'' \<and> sp_Path (ev_Span (n_Evidence n)) = identifier"

definition LookupExactNodes :: "Snapshot \<Rightarrow> str \<Rightarrow> database \<Rightarrow> storage_error + NodeMatch list" where
  "LookupExactNodes s identifier db =
     (if noSnapshot s \<or> identifier = [] then Inl InvalidRequest
      else Inr (map (\<lambda>n. \<lparr>nm_Node = n, nm_Score = 0\<rparr>)
             (sort_key nameColumns (filter (exactMatch identifier) (visibleNodes db s)))))"

definition boundaryPattern :: "str \<Rightarrow> str" where
  "boundaryPattern foldedTerm = ''*[^a-z0-9]'' @ foldedTerm @ ''*''"

text \<open>The conditions of the \<^verbatim>\<open>CASE\<close> expression and of the \<^verbatim>\<open>WHERE\<close> clause.\<close>

definition tokenMatch :: "(str \<Rightarrow> str \<Rightarrow> bool) \<Rightarrow> str \<Rightarrow> Node \<Rightarrow> bool" where
  "tokenMatch glob folded n \<longleftrightarrow>
     HasPrefix (ToLower (n_Label n)) folded \<or> HasPrefix (ToLower (n_QualifiedName n)) folded \<or>
     glob (boundaryPattern folded) (ToLower (n_Label n)) \<or> glob (boundaryPattern folded) (ToLower (n_QualifiedName n))"

definition nodeMatches :: "(str \<Rightarrow> str \<Rightarrow> bool) \<Rightarrow> str \<Rightarrow> Node \<Rightarrow> bool" where
  "nodeMatches glob term n \<longleftrightarrow>
     (let folded = ToLower term in
      n_ID n = term \<or> n_QualifiedName n = term \<or> ToLower (n_Label n) = folded \<or> tokenMatch glob folded n \<or>
      ContainsStr (ToLower (sp_Path (ev_Span (n_Evidence n)))) folded \<or> ContainsStr (ToLower (n_ID n)) folded \<or>
      ContainsStr (ToLower (n_QualifiedName n)) folded \<or> ContainsStr (ToLower (n_Label n)) folded)"

definition nodeRank :: "(str \<Rightarrow> str \<Rightarrow> bool) \<Rightarrow> str \<Rightarrow> Node \<Rightarrow> nat" where
  "nodeRank glob term n =
     (let folded = ToLower term in
      if n_ID n = term then 0
      else if n_QualifiedName n = term then 1
      else if ToLower (n_Label n) = folded then 2
      else if tokenMatch glob folded n then 3
      else if ContainsStr (ToLower (sp_Path (ev_Span (n_Evidence n)))) folded then 4
      else 5)"

definition lookupScope :: "database \<Rightarrow> Snapshot \<Rightarrow> NodeLookupRequest \<Rightarrow> Node \<Rightarrow> bool" where
  "lookupScope db s request n \<longleftrightarrow>
     (nl_ProjectIDs request = [] \<or> n_ID n \<in> set (scopeLoop (containsEdges (graphEdges db s)) (nl_ProjectIDs request) [])) \<and>
     (nl_Kinds request = [] \<or> n_Kind n \<in> set (nl_Kinds request))"

definition nodeLookup :: "(str \<Rightarrow> str \<Rightarrow> bool) \<Rightarrow> Snapshot \<Rightarrow> NodeLookupRequest \<Rightarrow> database \<Rightarrow> Node list" where
  "nodeLookup glob s request db =
     sort_key (nodeRank glob (nl_Text request)) (sort_key nameColumns
       (filter (\<lambda>n. lookupScope db s request n \<and> nodeMatches glob (nl_Text request) n) (visibleNodes db s)))"

definition LookupNodes :: "(str \<Rightarrow> str \<Rightarrow> bool) \<Rightarrow> Snapshot \<Rightarrow> NodeLookupRequest \<Rightarrow> database \<Rightarrow> storage_error + NodeMatch list" where
  "LookupNodes glob s request db =
     (if noSnapshot s \<or> nl_Text request = [] \<or> nl_Limit request \<le> 0 then Inl InvalidRequest
      else Inr (map (\<lambda>n. \<lparr>nm_Node = n, nm_Score = nodeRank glob (nl_Text request) n\<rparr>)
             (take (nat (nl_Limit request)) (nodeLookup glob s request db))))"

section \<open>Explanation\<close>

record Explanation =
  ex_Node :: Node
  ex_SupportingFacts :: Facts

datatype explain_error = ExplainStore storage_error | NodeNotFound

definition addSupport :: "(str \<Rightarrow> Node option) \<Rightarrow> Edge \<Rightarrow> (str \<times> Node) list \<times> (str \<times> Edge) list \<Rightarrow> (str \<times> Node) list \<times> (str \<times> Edge) list" where
  "addSupport node edge acc =
     (case acc of (nodes, edges) \<Rightarrow>
        let put = (\<lambda>i nodes. case node i of None \<Rightarrow> nodes | Some n \<Rightarrow> AList.update (n_ID n) n nodes) in
        (put (e_TargetID edge) (put (e_SourceID edge) nodes), AList.update (edgeKey edge) edge edges))"

definition Explain :: "Snapshot \<Rightarrow> str \<Rightarrow> database \<Rightarrow> explain_error + Explanation" where
  "Explain s nodeID db =
     (if noSnapshot s \<or> nodeID = [] then Inl (ExplainStore InvalidRequest)
      else case readNode db s nodeID of
        None \<Rightarrow> Inl NodeNotFound
      | Some node \<Rightarrow>
          (case fold (addSupport (readNode db s)) (readIncidentEdges db s (n_ID node)) ([(n_ID node, node)], []) of
             (nodes, edges) \<Rightarrow>
               Inr \<lparr>ex_Node = node, ex_SupportingFacts = \<lparr>f_Nodes = sortedNodes nodes, f_Edges = sortedEdges edges\<rparr>\<rparr>))"

section \<open>Export\<close>

record ExportRequest =
  xr_NodeKinds :: "NodeKind list"
  xr_Relations :: "str list"

definition IsUnfiltered :: "ExportRequest \<Rightarrow> bool" where
  "IsUnfiltered request \<longleftrightarrow> xr_NodeKinds request = [] \<and> xr_Relations request = []"

record 'k ExportSink =
  sk_WriteNode :: "Node \<Rightarrow> 'k \<Rightarrow> storage_error + 'k"
  sk_WriteEdge :: "Edge \<Rightarrow> 'k \<Rightarrow> storage_error + 'k"

definition writeFacts :: "'k ExportSink \<Rightarrow> Facts \<Rightarrow> 'k \<Rightarrow> storage_error + 'k" where
  "writeFacts sink facts k = bindE (foldE (sk_WriteNode sink) (f_Nodes facts) k) (foldE (sk_WriteEdge sink) (f_Edges facts))"

text \<open>\<^verbatim>\<open>ROW_NUMBER() OVER (PARTITION BY key ORDER BY ...) = 1\<close>: of the rows with one key the one no other row precedes; rows
  that compare equal keep table order.\<close>

definition pickFirst :: "('r \<Rightarrow> 'r \<Rightarrow> bool) \<Rightarrow> 'r list \<Rightarrow> 'r list" where
  "pickFirst before rows =
     (case rows of [] \<Rightarrow> [] | r # rs \<Rightarrow> [fold (\<lambda>x best. if before x best then x else best) rs r])"

definition firstPerKey :: "('r \<Rightarrow> 'k :: linorder) \<Rightarrow> ('r \<Rightarrow> 'r \<Rightarrow> bool) \<Rightarrow> 'r list \<Rightarrow> 'r list" where
  "firstPerKey key before rows =
     concat (map (\<lambda>k. pickFirst before (filter (\<lambda>r. key r = k) rows)) (dedup_adjacent (sort (map key rows))))"

definition nodeRows :: "database \<Rightarrow> Snapshot \<Rightarrow> (nat \<times> str \<times> Node) list" where
  "nodeRows db s = map (\<lambda>(p, n). (0, p, n)) (contributionNodes db s) @ map (\<lambda>n. (1, [], n)) (workspaceNodes db s)"

definition nodeBefore :: "nat \<times> str \<times> Node \<Rightarrow> nat \<times> str \<times> Node \<Rightarrow> bool" where
  "nodeBefore x y \<longleftrightarrow> fst y < fst x \<or> fst x = fst y \<and> fst (snd y) < fst (snd x)"

definition edgeRows :: "database \<Rightarrow> Snapshot \<Rightarrow> (nat \<times> Edge) list" where
  "edgeRows db s = map (Pair 0) (contributionEdges db s) @ map (Pair 1) (workspaceEdges db s)"

definition unfilteredFacts :: "database \<Rightarrow> Snapshot \<Rightarrow> Facts" where
  "unfilteredFacts db s =
     \<lparr>f_Nodes = map (\<lambda>(_, _, n). n) (firstPerKey (\<lambda>(_, _, n). n_ID n) nodeBefore (nodeRows db s)),
      f_Edges = map snd (firstPerKey (\<lambda>(_, e). edgeColumns e) (\<lambda>x y. fst y < fst x) (edgeRows db s))\<rparr>"

definition exportUnfiltered :: "Snapshot \<Rightarrow> 'k ExportSink \<Rightarrow> 'k \<Rightarrow> database \<Rightarrow> storage_error + 'k" where
  "exportUnfiltered s sink k db = writeFacts sink (unfilteredFacts db s) k"

definition exportedNodes :: "ExportRequest \<Rightarrow> Facts \<Rightarrow> (str \<times> Node) list" where
  "exportedNodes request facts =
     fold (\<lambda>n m. if xr_NodeKinds request \<noteq> [] \<and> n_Kind n \<notin> set (xr_NodeKinds request) then m
                 else AList.update (n_ID n) n m) (f_Nodes facts) []"

definition exportedEdges :: "ExportRequest \<Rightarrow> Facts \<Rightarrow> (str \<times> Edge) list" where
  "exportedEdges request facts =
     (let nodes = exportedNodes request facts in
      fold (\<lambda>e m. if xr_Relations request \<noteq> [] \<and> e_Relation e \<notin> set (xr_Relations request) then m
                  else if e_SourceID e \<notin> fst ` set nodes then m
                  else if e_TargetID e \<notin> fst ` set nodes then m
                  else AList.update (edgeKey e) e m) (f_Edges facts) [])"

definition Export :: "Snapshot \<Rightarrow> ExportRequest \<Rightarrow> 'k ExportSink option \<Rightarrow> 'k \<Rightarrow> database \<Rightarrow> storage_error + 'k" where
  "Export s request sink k db =
     (case sink of
        None \<Rightarrow> Inl InvalidRequest
      | Some sink \<Rightarrow>
          if noSnapshot s then Inl InvalidRequest
          else if IsUnfiltered request then exportUnfiltered s sink k db
          else let facts = readFacts db s in
               writeFacts sink \<lparr>f_Nodes = sortedNodes (exportedNodes request facts),
                               f_Edges = sortedEdges (exportedEdges request facts)\<rparr> k)"

section \<open>Counts\<close>

definition factCounts :: "database \<Rightarrow> Snapshot \<Rightarrow> FactCounts" where
  "factCounts db s =
     \<lparr>fc_Nodes = length (keep_first (map n_ID (graphNodes db s)) {}),
      fc_Edges = length (keep_first (map edgeIdentity (graphEdges db s)) {})\<rparr>"

definition StoreFactCounts :: "Snapshot \<Rightarrow> database \<Rightarrow> storage_error + FactCounts" where
  "StoreFactCounts s db = (if noSnapshot s then Inl InvalidRequest else Inr (factCounts db s))"

section \<open>The first row of every key\<close>

lemma pickFirst_mem: "x \<in> set (pickFirst before rows) \<Longrightarrow> x \<in> set rows"
proof -
  have "fold (\<lambda>x best. if before x best then x else best) rs r \<in> insert r (set rs)" for rs r
    by (induction rs arbitrary: r) (auto split: if_splits)
  then show "x \<in> set (pickFirst before rows) \<Longrightarrow> ?thesis"
    by (cases rows) (auto simp: pickFirst_def)
qed

lemma pickFirst_length: "length (pickFirst before rows) = (if rows = [] then 0 else 1)"
  by (cases rows) (simp_all add: pickFirst_def)

lemma best_before:
  assumes "\<And>x y z. before x y \<Longrightarrow> before y z \<Longrightarrow> before x z"
  shows "fold (\<lambda>x best. if before x best then x else best) rs r = r \<or>
    before (fold (\<lambda>x best. if before x best then x else best) rs r) r"
proof (induction rs arbitrary: r)
  case (Cons y rs)
  let ?best = "\<lambda>r. fold (\<lambda>x best. if before x best then x else best) rs r"
  show ?case
  proof (cases "before y r")
    case True
    have "?best y = y \<or> before (?best y) y" by (rule Cons.IH)
    then have "before (?best y) r" using True assms by (elim disjE) (simp, blast)
    then show ?thesis using True by simp
  qed (use Cons.IH in simp)
qed simp

lemma pickFirst_best:
  assumes "\<And>x. \<not> before x x" "\<And>x y z. before x y \<Longrightarrow> before y z \<Longrightarrow> before x z" "b \<in> set (pickFirst before rows)" "x \<in> set rows"
  shows "\<not> before x b"
proof -
  have "\<forall>x \<in> insert r (set rs). \<not> before x (fold (\<lambda>x best. if before x best then x else best) rs r)" for rs r
  proof (induction rs arbitrary: r)
    case (Cons y rs)
    have "\<not> before r (fold (\<lambda>x best. if before x best then x else best) rs y)" if "before y r"
      using Cons.IH [of y] assms(2) that by blast
    moreover have "\<not> before y (fold (\<lambda>x best. if before x best then x else best) rs r)" if "\<not> before y r"
    proof
      let ?b = "fold (\<lambda>x best. if before x best then x else best) rs r"
      assume y: "before y ?b"
      have "?b = r \<or> before ?b r" by (rule best_before) (rule assms(2))
      then show False
      proof
        assume "?b = r" with y that show False by simp
      next
        assume "before ?b r" with y have "before y r" by (rule assms(2))
        with that show False by simp
      qed
    qed
    ultimately show ?case using Cons.IH [of y] Cons.IH [of r] by auto
  qed (simp add: assms(1))
  then show ?thesis using assms(3,4) by (cases rows) (auto simp: pickFirst_def)
qed

lemma firstPerKey_keys: "map key (firstPerKey key before rows) = sorted_list_of_set (key ` set rows)"
proof -
  have one: "map key (pickFirst before (filter (\<lambda>r. key r = k) rows)) = [k]" if "k \<in> key ` set rows" for k
  proof -
    let ?p = "pickFirst before (filter (\<lambda>r. key r = k) rows)"
    have "filter (\<lambda>r. key r = k) rows \<noteq> []" using that by (auto simp: filter_empty_conv)
    then have "length ?p = 1" by (simp add: pickFirst_length)
    then obtain x where "?p = [x]" by (cases ?p) auto
    then show ?thesis using pickFirst_mem [of x before "filter (\<lambda>r. key r = k) rows"] by auto
  qed
  have "concat (map (\<lambda>k. map key (pickFirst before (filter (\<lambda>r. key r = k) rows))) ks) = ks" if "set ks \<subseteq> key ` set rows" for ks
    using that by (induction ks) (auto simp: one)
  from this [of "sorted_list_of_set (key ` set rows)"] show ?thesis
    by (simp add: firstPerKey_def dedup_adjacent_sort map_concat comp_def)
qed

lemma firstPerKey_mem: "set (firstPerKey key before rows) \<subseteq> set rows"
  by (auto simp: firstPerKey_def dest: pickFirst_mem)

lemma firstPerKey_best:
  assumes "\<And>x. \<not> before x x" "\<And>x y z. before x y \<Longrightarrow> before y z \<Longrightarrow> before x z"
    "b \<in> set (firstPerKey key before rows)" "x \<in> set rows" "key x = key b"
  shows "\<not> before x b"
proof -
  from assms(3) obtain k where b: "b \<in> set (pickFirst before (filter (\<lambda>r. key r = k) rows))" by (auto simp: firstPerKey_def)
  from pickFirst_mem [OF b] have "key b = k" by simp
  then show ?thesis using pickFirst_best [OF assms(1,2) b] assms(4,5) by auto
qed

section \<open>Association lists built by a loop\<close>

definition putAll :: "('v \<Rightarrow> bool) \<Rightarrow> ('v \<Rightarrow> 'k) \<Rightarrow> 'v list \<Rightarrow> ('k \<times> 'v) list \<Rightarrow> ('k \<times> 'v) list" where
  "putAll keep key xs m = fold (\<lambda>x m. if keep x then AList.update (key x) x m else m) xs m"

lemma update_subset: "set (AList.update k v xs) \<subseteq> insert (k, v) (set xs)"
  by (induction xs) auto

lemma putAll_facts:
  assumes "distinct (map fst m)" "\<And>k v. (k, v) \<in> set m \<Longrightarrow> k = key v"
  shows "distinct (map fst (putAll keep key xs m)) \<and>
    fst ` set (putAll keep key xs m) = fst ` set m \<union> key ` {x \<in> set xs. keep x} \<and>
    (\<forall>k v. (k, v) \<in> set (putAll keep key xs m) \<longrightarrow> k = key v \<and> ((k, v) \<in> set m \<or> v \<in> set xs \<and> keep v))"
  using assms
proof (induction xs arbitrary: m)
  case (Cons x xs)
  show ?case
  proof (cases "keep x")
    case True
    have "k = key v" if "(k, v) \<in> set (AList.update (key x) x m)" for k v
      using that Cons.prems(2) update_subset [of "key x" x m] by auto
    note IH = Cons.IH [OF AList.distinct_update [OF Cons.prems(1)] this]
    have step: "putAll keep key (x # xs) m = putAll keep key xs (AList.update (key x) x m)" using True by (simp add: putAll_def)
    have "fst ` set (AList.update (key x) x m) \<union> key ` {y \<in> set xs. keep y} = fst ` set m \<union> key ` {y \<in> set (x # xs). keep y}"
      using True by (auto simp: AList.dom_update)
    moreover have "k = key v \<and> ((k, v) \<in> set m \<or> v \<in> set (x # xs) \<and> keep v)"
      if "(k, v) \<in> set (putAll keep key xs (AList.update (key x) x m))" for k v
      using IH that True update_subset [of "key x" x m] by (metis (no_types, lifting) insert_iff list.set(2) prod.inject subsetD)
    ultimately show ?thesis using IH unfolding step by (metis (no_types, lifting))
  next
    case False
    then show ?thesis using Cons.IH [OF Cons.prems] by (auto simp: putAll_def)
  qed
qed (auto simp: putAll_def)

lemma exportedNodes_putAll:
  "exportedNodes request facts =
     putAll (\<lambda>n. xr_NodeKinds request = [] \<or> n_Kind n \<in> set (xr_NodeKinds request)) n_ID (f_Nodes facts) []"
  unfolding exportedNodes_def putAll_def by (rule arg_cong [where f = "\<lambda>f. fold f _ _"]) (auto simp: fun_eq_iff)

lemma exportedEdges_putAll:
  "exportedEdges request facts =
     putAll (\<lambda>e. (xr_Relations request = [] \<or> e_Relation e \<in> set (xr_Relations request)) \<and>
         e_SourceID e \<in> fst ` set (exportedNodes request facts) \<and> e_TargetID e \<in> fst ` set (exportedNodes request facts))
       edgeKey (f_Edges facts) []"
  unfolding exportedEdges_def putAll_def Let_def by (rule arg_cong [where f = "\<lambda>f. fold f _ _"]) (auto simp: fun_eq_iff)

section \<open>A recording sink\<close>

definition noFacts :: Facts where
  "noFacts = \<lparr>f_Nodes = [], f_Edges = []\<rparr>"

definition recorder :: "Facts ExportSink" where
  "recorder = \<lparr>sk_WriteNode = (\<lambda>n facts. Inr (facts\<lparr>f_Nodes := f_Nodes facts @ [n]\<rparr>)),
     sk_WriteEdge = (\<lambda>e facts. Inr (facts\<lparr>f_Edges := f_Edges facts @ [e]\<rparr>))\<rparr>"

lemma writeFacts_recorder: "writeFacts recorder facts noFacts = Inr (facts :: Facts)"
proof -
  have "fold (\<lambda>n facts. facts\<lparr>f_Nodes := f_Nodes facts @ [n]\<rparr>) ns (k :: Facts) = k\<lparr>f_Nodes := f_Nodes k @ ns\<rparr>" for ns k
    by (induction ns arbitrary: k) simp_all
  moreover have "fold (\<lambda>e facts. facts\<lparr>f_Edges := f_Edges facts @ [e]\<rparr>) es (k :: Facts) = k\<lparr>f_Edges := f_Edges k @ es\<rparr>" for es k
    by (induction es arbitrary: k) simp_all
  ultimately show ?thesis by (simp add: writeFacts_def recorder_def noFacts_def)
qed

lemma graphNodes_rows: "set (graphNodes db s) = (\<lambda>(_, _, n). n) ` set (nodeRows db s)"
  by (force simp: graphNodes_def nodeRows_def)

lemma graphEdges_rows: "set (graphEdges db s) = snd ` set (edgeRows db s)"
  by (force simp: graphEdges_def edgeRows_def)

lemma map_sub_comp: "map key (map f xs) = map (\<lambda>x. key (f x)) xs"
  by simp

lemma unfiltered_ids:
  "map n_ID (f_Nodes (unfilteredFacts db s)) = sorted_list_of_set (n_ID ` set (graphNodes db s))"
  "map edgeColumns (f_Edges (unfilteredFacts db s)) = sorted_list_of_set (edgeColumns ` set (graphEdges db s))"
proof -
  have "map n_ID (f_Nodes (unfilteredFacts db s)) = map (\<lambda>(_, _, n). n_ID n) (firstPerKey (\<lambda>(_, _, n). n_ID n) nodeBefore (nodeRows db s))"
    by (simp add: unfilteredFacts_def case_prod_unfold)
  then show "map n_ID (f_Nodes (unfilteredFacts db s)) = sorted_list_of_set (n_ID ` set (graphNodes db s))"
    unfolding firstPerKey_keys graphNodes_rows by (simp add: image_image case_prod_unfold)
  have "map edgeColumns (f_Edges (unfilteredFacts db s)) =
      map (\<lambda>(_, e). edgeColumns e) (firstPerKey (\<lambda>(_, e). edgeColumns e) (\<lambda>x y. fst y < fst x) (edgeRows db s))"
    by (simp add: unfilteredFacts_def case_prod_unfold)
  then show "map edgeColumns (f_Edges (unfilteredFacts db s)) = sorted_list_of_set (edgeColumns ` set (graphEdges db s))"
    unfolding firstPerKey_keys graphEdges_rows by (simp add: image_image case_prod_unfold)
qed

lemma unfiltered_mem:
  "set (f_Nodes (unfilteredFacts db s)) \<subseteq> set (graphNodes db s)" "set (f_Edges (unfilteredFacts db s)) \<subseteq> set (graphEdges db s)"
  using firstPerKey_mem [of "\<lambda>(_, _, n). n_ID n" nodeBefore "nodeRows db s"]
    firstPerKey_mem [of "\<lambda>(_, e). edgeColumns e" "\<lambda>x y. fst y < fst x" "edgeRows db s"]
  unfolding graphNodes_rows graphEdges_rows unfilteredFacts_def by (auto simp: image_mono)

text \<open>A workspace node hides the contribution nodes of its identity.\<close>

lemma unfiltered_prefers_workspace:
  assumes "m \<in> set (f_Nodes (unfilteredFacts db s))" "n \<in> set (workspaceNodes db s)" "n_ID n = n_ID m"
  shows "m \<in> set (workspaceNodes db s)"
proof -
  obtain k p where best: "(k, p, m) \<in> set (firstPerKey (\<lambda>(_, _, n). n_ID n) nodeBefore (nodeRows db s))"
    using assms(1) by (auto simp: unfilteredFacts_def)
  have "\<not> nodeBefore (1, [], n) (k, p, m)"
    by (rule firstPerKey_best [OF _ _ best]) (use assms(2,3) in \<open>auto simp: nodeBefore_def nodeRows_def\<close>)
  moreover have "(k, p, m) \<in> set (nodeRows db s)" using best by (rule subsetD [OF firstPerKey_mem])
  ultimately show ?thesis by (auto simp: nodeBefore_def nodeRows_def)
qed

lemma length_keep_first: "length (keep_first xs {}) = card (set xs)"
  using distinct_card [OF distinct_keep_first, of xs "{}"] by simp

lemma card_edgeColumns: "card (edgeColumns ` set es) = card (edgeIdentity ` set es)"
proof -
  have "edgeColumns ` set es = (\<lambda>(a, b, c). [a, b, c]) ` edgeIdentity ` set es"
    by (force simp: edgeColumns_def edgeIdentity_def image_image)
  moreover have "inj (\<lambda>(a :: str, b, c). [a, b, c])" by (auto simp: inj_def)
  ultimately show ?thesis by (simp add: card_image inj_on_subset)
qed

lemma readFacts_sets: "set (f_Nodes (readFacts db s)) = set (graphNodes db s)" "set (f_Edges (readFacts db s)) = set (graphEdges db s)"
  by (auto simp: readFacts_def graphNodes_def graphEdges_def)

lemma sortedNodes_putAll:
  assumes "\<And>k v. (k, v) \<in> set m \<Longrightarrow> k = n_ID v"
  shows "n_ID ` set (sortedNodes m) = fst ` set m"
  using assms by (force simp: sortedNodes_def image_iff)

lemma sortedEdges_putAll:
  assumes "\<And>k v. (k, v) \<in> set m \<Longrightarrow> k = edgeKey v"
  shows "edgeKey ` set (sortedEdges m) = fst ` set m"
  using assms by (force simp: sortedEdges_def image_iff)

lemma exported_nodes:
  defines "allowed \<equiv> \<lambda>request n. xr_NodeKinds request = [] \<or> n_Kind n \<in> set (xr_NodeKinds request)"
  shows "fst ` set (exportedNodes request facts) = n_ID ` {n \<in> set (f_Nodes facts). allowed request n}"
    "n_ID ` set (sortedNodes (exportedNodes request facts)) = n_ID ` {n \<in> set (f_Nodes facts). allowed request n}"
    "set (sortedNodes (exportedNodes request facts)) \<subseteq> {n \<in> set (f_Nodes facts). allowed request n}"
proof -
  have eq: "exportedNodes request facts = putAll (allowed request) n_ID (f_Nodes facts) []"
    unfolding exportedNodes_putAll allowed_def ..
  note put = putAll_facts [of "[]" n_ID "allowed request" "f_Nodes facts", folded eq, simplified]
  show keys: "fst ` set (exportedNodes request facts) = n_ID ` {n \<in> set (f_Nodes facts). allowed request n}"
    using put by simp
  show "n_ID ` set (sortedNodes (exportedNodes request facts)) = n_ID ` {n \<in> set (f_Nodes facts). allowed request n}"
    unfolding keys [symmetric] by (rule sortedNodes_putAll) (use put in blast)
  show "set (sortedNodes (exportedNodes request facts)) \<subseteq> {n \<in> set (f_Nodes facts). allowed request n}"
    using put by (auto simp: sortedNodes_def)
qed

lemma exported_edges:
  defines "allowed \<equiv> \<lambda>request facts e. (xr_Relations request = [] \<or> e_Relation e \<in> set (xr_Relations request)) \<and>
         e_SourceID e \<in> fst ` set (exportedNodes request facts) \<and> e_TargetID e \<in> fst ` set (exportedNodes request facts)"
  shows "edgeKey ` set (sortedEdges (exportedEdges request facts)) = edgeKey ` {e \<in> set (f_Edges facts). allowed request facts e}"
    "set (sortedEdges (exportedEdges request facts)) \<subseteq> {e \<in> set (f_Edges facts). allowed request facts e}"
proof -
  have eq: "exportedEdges request facts = putAll (allowed request facts) edgeKey (f_Edges facts) []"
    unfolding exportedEdges_putAll allowed_def ..
  note put = putAll_facts [of "[]" edgeKey "allowed request facts" "f_Edges facts", folded eq, simplified]
  have "edgeKey ` set (sortedEdges (exportedEdges request facts)) = fst ` set (exportedEdges request facts)"
    by (rule sortedEdges_putAll) (use put in blast)
  then show "edgeKey ` set (sortedEdges (exportedEdges request facts)) = edgeKey ` {e \<in> set (f_Edges facts). allowed request facts e}"
    using put by simp
  show "set (sortedEdges (exportedEdges request facts)) \<subseteq> {e \<in> set (f_Edges facts). allowed request facts e}"
    using put by (auto simp: sortedEdges_def)
qed

definition endNodes :: "(str \<Rightarrow> Node option) \<Rightarrow> Edge list \<Rightarrow> Node list" where
  "endNodes node edges = concat (map (\<lambda>e. List.map_filter node [e_SourceID e, e_TargetID e]) edges)"

lemma fold_addSupport:
  "fold (addSupport node) es (nodes, edges) = (putAll (\<lambda>_. True) n_ID (endNodes node es) nodes, putAll (\<lambda>_. True) edgeKey es edges)"
  by (induction es arbitrary: nodes edges)
    (auto simp: addSupport_def putAll_def endNodes_def Let_def List.map_filter_simps split: option.splits)

lemma set_endNodes:
  "set (endNodes node es) = {n. \<exists>e \<in> set es. node (e_SourceID e) = Some n \<or> node (e_TargetID e) = Some n}"
proof -
  have "set (List.map_filter node [a, b]) = {n. node a = Some n \<or> node b = Some n}" for a b
    by (auto simp: List.map_filter_simps split: option.splits)
  then show ?thesis by (auto simp: endNodes_def)
qed

lemma sorted_take_drop: "sorted (map f xs) \<Longrightarrow> x \<in> set (take n xs) \<Longrightarrow> y \<in> set (drop n xs) \<Longrightarrow> f x \<le> f y"
proof (induction xs arbitrary: n)
  case (Cons a xs)
  then show ?case by (cases n) (auto dest: in_set_dropD)
qed simp

lemma sorted_rank: "sorted (map (nodeRank glob t) (nodeLookup glob s request db)) \<or> t \<noteq> nl_Text request"
  by (auto simp: nodeLookup_def)

lemma set_nodeLookup:
  "set (nodeLookup glob s request db) =
     {n \<in> set (graphNodes db s). lookupScope db s request n \<and> nodeMatches glob (nl_Text request) n}"
  by (auto simp: nodeLookup_def visibleNodes_def)

section \<open>Properties\<close>

text \<open>An unfiltered export writes every node identity and every edge of the version once, in sorted order, each
  with the data of a row of the graph, a workspace node where there is one; the fact
  counts are the numbers of nodes and edges written.\<close>

theorem Export_unfiltered_correct:
  assumes "\<not> noSnapshot s" "IsUnfiltered request"
  shows "\<exists>facts. Export s request (Some recorder) noFacts db = Inr facts \<and>
    map n_ID (f_Nodes facts) = sorted_list_of_set (n_ID ` set (graphNodes db s)) \<and>
    map edgeColumns (f_Edges facts) = sorted_list_of_set (edgeColumns ` set (graphEdges db s)) \<and>
    set (f_Nodes facts) \<subseteq> set (graphNodes db s) \<and> set (f_Edges facts) \<subseteq> set (graphEdges db s) \<and>
    (\<forall>m \<in> set (f_Nodes facts). n_ID m \<in> n_ID ` set (workspaceNodes db s) \<longrightarrow> m \<in> set (workspaceNodes db s)) \<and>
    StoreFactCounts s db = Inr \<lparr>fc_Nodes = length (f_Nodes facts), fc_Edges = length (f_Edges facts)\<rparr>"
proof (intro exI conjI)
  let ?facts = "unfilteredFacts db s"
  show "Export s request (Some recorder) noFacts db = Inr ?facts"
    using assms by (simp add: Export_def exportUnfiltered_def writeFacts_recorder)
  show "\<forall>m \<in> set (f_Nodes ?facts). n_ID m \<in> n_ID ` set (workspaceNodes db s) \<longrightarrow> m \<in> set (workspaceNodes db s)"
    using unfiltered_prefers_workspace by (auto simp: image_iff)
  have "length (map n_ID (f_Nodes ?facts)) = card (n_ID ` set (graphNodes db s))"
    "length (map edgeColumns (f_Edges ?facts)) = card (edgeIdentity ` set (graphEdges db s))"
    unfolding unfiltered_ids by (simp_all add: card_edgeColumns)
  then show "StoreFactCounts s db = Inr \<lparr>fc_Nodes = length (f_Nodes ?facts), fc_Edges = length (f_Edges ?facts)\<rparr>"
    using assms(1) by (simp add: StoreFactCounts_def factCounts_def length_keep_first)
qed (rule unfiltered_ids unfiltered_mem)+

theorem Export_unfiltered_correct_witness:
  "StoreFactCounts sampleSnapshot sampleGraph = Inr \<lparr>fc_Nodes = 3, fc_Edges = 3\<rparr> \<and>
   Export sampleSnapshot \<lparr>xr_NodeKinds = [], xr_Relations = []\<rparr> (Some recorder) noFacts sampleGraph =
     Inr \<lparr>f_Nodes = map sampleNode [''a'', ''b'', ''c''],
          f_Edges = [sampleEdge ''a'' ''calls'' ''b'', sampleEdge ''a'' ''contains'' ''c'', sampleEdge ''b'' ''calls'' ''c'']\<rparr>"
proof -
  have "Export sampleSnapshot \<lparr>xr_NodeKinds = [], xr_Relations = []\<rparr> (Some recorder) noFacts sampleGraph =
     Inr \<lparr>f_Nodes = map sampleNode [''a'', ''b'', ''c''],
          f_Edges = [sampleEdge ''a'' ''calls'' ''b'', sampleEdge ''a'' ''contains'' ''c'', sampleEdge ''b'' ''calls'' ''c'']\<rparr>"
    by code_simp
  then show ?thesis
    using Export_unfiltered_correct [of sampleSnapshot "\<lparr>xr_NodeKinds = [], xr_Relations = []\<rparr>" sampleGraph]
    by (simp add: noSnapshot_def sampleSnapshot_def IsUnfiltered_def)
qed

text \<open>A filtered export writes a closed part of the graph: exactly the identities of the nodes of the requested
  kinds, and exactly the edges of the requested relations both of whose ends are written.\<close>

theorem Export_filtered_correct:
  assumes "\<not> noSnapshot s" "\<not> IsUnfiltered request"
  shows "\<exists>facts. Export s request (Some recorder) noFacts db = Inr facts \<and>
    set (f_Nodes facts) \<subseteq> set (graphNodes db s) \<and> set (f_Edges facts) \<subseteq> set (graphEdges db s) \<and>
    n_ID ` set (f_Nodes facts) =
      n_ID ` {n \<in> set (graphNodes db s). xr_NodeKinds request = [] \<or> n_Kind n \<in> set (xr_NodeKinds request)} \<and>
    edgeKey ` set (f_Edges facts) =
      edgeKey ` {e \<in> set (graphEdges db s). (xr_Relations request = [] \<or> e_Relation e \<in> set (xr_Relations request)) \<and>
        e_SourceID e \<in> n_ID ` set (f_Nodes facts) \<and> e_TargetID e \<in> n_ID ` set (f_Nodes facts)}"
proof (intro exI conjI)
  let ?all = "readFacts db s"
  let ?facts = "\<lparr>f_Nodes = sortedNodes (exportedNodes request ?all), f_Edges = sortedEdges (exportedEdges request ?all)\<rparr>"
  note nodes = exported_nodes [of request ?all, unfolded readFacts_sets]
  note edges = exported_edges [of request ?all, unfolded readFacts_sets]
  show "Export s request (Some recorder) noFacts db = Inr ?facts"
    using assms by (simp add: Export_def Let_def writeFacts_recorder)
  show "set (f_Nodes ?facts) \<subseteq> set (graphNodes db s)" "set (f_Edges ?facts) \<subseteq> set (graphEdges db s)"
    using nodes(3) edges(2) by auto
  show "n_ID ` set (f_Nodes ?facts) =
      n_ID ` {n \<in> set (graphNodes db s). xr_NodeKinds request = [] \<or> n_Kind n \<in> set (xr_NodeKinds request)}"
    using nodes(2) by simp
  have "fst ` set (exportedNodes request ?all) = n_ID ` set (f_Nodes ?facts)" using nodes(1,2) by simp
  then show "edgeKey ` set (f_Edges ?facts) =
      edgeKey ` {e \<in> set (graphEdges db s). (xr_Relations request = [] \<or> e_Relation e \<in> set (xr_Relations request)) \<and>
        e_SourceID e \<in> n_ID ` set (f_Nodes ?facts) \<and> e_TargetID e \<in> n_ID ` set (f_Nodes ?facts)}"
    using edges(1) by simp
qed

theorem Export_filtered_correct_witness:
  "edgeKey ` {e \<in> set (graphEdges sampleGraph sampleSnapshot). e_Relation e = ''calls''} \<subseteq>
     edgeKey ` set [sampleEdge ''a'' ''calls'' ''b'', sampleEdge ''b'' ''calls'' ''c'']"
proof -
  have run: "Export sampleSnapshot \<lparr>xr_NodeKinds = [], xr_Relations = [''calls'']\<rparr> (Some recorder) noFacts sampleGraph =
     Inr \<lparr>f_Nodes = map sampleNode [''a'', ''b'', ''c''],
          f_Edges = [sampleEdge ''a'' ''calls'' ''b'', sampleEdge ''b'' ''calls'' ''c'']\<rparr>"
    by code_simp
  have ends: "list_all (\<lambda>e. e_SourceID e \<in> {''a'', ''b'', ''c''} \<and> e_TargetID e \<in> {''a'', ''b'', ''c''}) (graphEdges sampleGraph sampleSnapshot)"
    by code_simp
  have "edgeKey ` set [sampleEdge ''a'' ''calls'' ''b'', sampleEdge ''b'' ''calls'' ''c''] =
      edgeKey ` {e \<in> set (graphEdges sampleGraph sampleSnapshot). e_Relation e = ''calls'' \<and>
        e_SourceID e \<in> {''a'', ''b'', ''c''} \<and> e_TargetID e \<in> {''a'', ''b'', ''c''}}"
    using Export_filtered_correct [of sampleSnapshot "\<lparr>xr_NodeKinds = [], xr_Relations = [''calls'']\<rparr>" sampleGraph]
    unfolding run by (simp add: noSnapshot_def IsUnfiltered_def sampleNode_def) (simp add: sampleSnapshot_def)
  moreover have "{e \<in> set (graphEdges sampleGraph sampleSnapshot). e_Relation e = ''calls''} =
      {e \<in> set (graphEdges sampleGraph sampleSnapshot). e_Relation e = ''calls'' \<and>
        e_SourceID e \<in> {''a'', ''b'', ''c''} \<and> e_TargetID e \<in> {''a'', ''b'', ''c''}}"
    using ends unfolding list_all_iff by blast
  ultimately show ?thesis by simp
qed

text \<open>Ranked lookup: the matches are nodes of the graph in the requested scope and kinds, best rank first and at
  most as many as asked for; a matching node is left out only if the limit is used up by nodes of
  equal or better rank.\<close>

theorem LookupNodes_ranked:
  assumes "LookupNodes glob s request db = Inr matches"
  shows "int (length matches) \<le> nl_Limit request \<and> sorted (map nm_Score matches) \<and>
    (\<forall>m \<in> set matches. nm_Node m \<in> set (graphNodes db s) \<and> lookupScope db s request (nm_Node m) \<and>
       nodeMatches glob (nl_Text request) (nm_Node m) \<and> nm_Score m = nodeRank glob (nl_Text request) (nm_Node m)) \<and>
    (\<forall>n \<in> set (graphNodes db s). lookupScope db s request n \<and> nodeMatches glob (nl_Text request) n \<and> n \<notin> nm_Node ` set matches \<longrightarrow>
       int (length matches) = nl_Limit request \<and> (\<forall>m \<in> set matches. nm_Score m \<le> nodeRank glob (nl_Text request) n))"
proof -
  let ?rank = "nodeRank glob (nl_Text request)" and ?all = "nodeLookup glob s request db" and ?limit = "nat (nl_Limit request)"
  have matches: "matches = map (\<lambda>n. \<lparr>nm_Node = n, nm_Score = ?rank n\<rparr>) (take ?limit ?all)" and positive: "0 < nl_Limit request"
    using assms by (auto simp: LookupNodes_def split: if_splits)
  have sorted: "sorted (map ?rank ?all)" using sorted_rank [of glob "nl_Text request"] by blast
  have split: "sorted (map ?rank (take ?limit ?all))" using sorted by (simp add: sorted_wrt_take take_map [symmetric])
  have left: "length (take ?limit ?all) = ?limit \<and> n \<in> set (drop ?limit ?all)" if "n \<in> set ?all" "n \<notin> set (take ?limit ?all)" for n
  proof -
    have "set ?all = set (take ?limit ?all) \<union> set (drop ?limit ?all)" by (metis append_take_drop_id set_append)
    then have "n \<in> set (drop ?limit ?all)" using that by blast
    then show ?thesis by (cases "?limit \<le> length ?all") auto
  qed
  show ?thesis
  proof (intro conjI ballI impI)
    show "int (length matches) \<le> nl_Limit request" using positive by (simp add: matches)
    show "sorted (map nm_Score matches)" using split by (simp add: matches comp_def)
    fix m assume "m \<in> set matches"
    then have "nm_Node m \<in> set ?all" "nm_Score m = ?rank (nm_Node m)" by (auto simp: matches dest: in_set_takeD)
    then show "nm_Node m \<in> set (graphNodes db s)" "lookupScope db s request (nm_Node m)"
      "nodeMatches glob (nl_Text request) (nm_Node m)" "nm_Score m = ?rank (nm_Node m)" by (auto simp: set_nodeLookup)
  next
    fix n assume "n \<in> set (graphNodes db s)"
      and n: "lookupScope db s request n \<and> nodeMatches glob (nl_Text request) n \<and> n \<notin> nm_Node ` set matches"
    then have "n \<in> set ?all" "n \<notin> set (take ?limit ?all)" by (auto simp: set_nodeLookup matches image_image)
    note left = left [OF this]
    show "int (length matches) = nl_Limit request" using left positive by (simp add: matches)
    show "nm_Score m \<le> ?rank n" if "m \<in> set matches" for m
      using that left sorted_take_drop [OF sorted] by (auto simp: matches)
  qed
qed

theorem LookupNodes_ranked_witness:
  "nodeRank (\<lambda>_ _. False) ''b'' (sampleNode ''b'') = 0 \<and>
   LookupNodes (\<lambda>_ _. False) sampleSnapshot \<lparr>nl_Text = ''b'', nl_Kinds = [], nl_ProjectIDs = [''a''], nl_Limit = 2\<rparr> sampleGraph = Inr []"
proof -
  have run: "LookupNodes (\<lambda>_ _. False) sampleSnapshot \<lparr>nl_Text = ''b'', nl_Kinds = [], nl_ProjectIDs = [], nl_Limit = 2\<rparr> sampleGraph =
      Inr [\<lparr>nm_Node = sampleNode ''b'', nm_Score = 0\<rparr>]"
    by code_simp
  have "LookupNodes (\<lambda>_ _. False) sampleSnapshot \<lparr>nl_Text = ''b'', nl_Kinds = [], nl_ProjectIDs = [''a''], nl_Limit = 2\<rparr> sampleGraph = Inr []"
    by code_simp
  then show ?thesis using LookupNodes_ranked [OF run] by simp
qed

text \<open>An explanation names the node asked for and supports it by exactly its incident edges and by every
  node of the graph at the end of one of them.\<close>

theorem Explain_correct:
  assumes "Explain s nodeID db = Inr explanation"
  shows "n_ID (ex_Node explanation) = nodeID \<and> ex_Node explanation \<in> set (graphNodes db s) \<and>
    set (f_Edges (ex_SupportingFacts explanation)) \<subseteq> {e \<in> set (graphEdges db s). e_SourceID e = nodeID \<or> e_TargetID e = nodeID} \<and>
    edgeKey ` set (f_Edges (ex_SupportingFacts explanation)) =
      edgeKey ` {e \<in> set (graphEdges db s). e_SourceID e = nodeID \<or> e_TargetID e = nodeID} \<and>
    n_ID ` set (f_Nodes (ex_SupportingFacts explanation)) =
      insert nodeID {n_ID n | n e. readNode db s (n_ID n) = Some n \<and> e \<in> set (graphEdges db s) \<and>
        (e_SourceID e = nodeID \<or> e_TargetID e = nodeID) \<and> (n_ID n = e_SourceID e \<or> n_ID n = e_TargetID e)}"
proof -
  let ?es = "readIncidentEdges db s nodeID"
  obtain node where node: "readNode db s nodeID = Some node"
    using assms by (auto simp: Explain_def split: if_splits option.splits)
  then have id: "n_ID node = nodeID" and mem: "node \<in> set (graphNodes db s)"
    by (auto simp: readNode_def dest: find_SomeD)
  let ?nodes = "putAll (\<lambda>_. True) n_ID (endNodes (readNode db s) ?es) [(nodeID, node)]"
  let ?edges = "putAll (\<lambda>_. True) edgeKey ?es []"
  have ex: "explanation = \<lparr>ex_Node = node, ex_SupportingFacts = \<lparr>f_Nodes = sortedNodes ?nodes, f_Edges = sortedEdges ?edges\<rparr>\<rparr>"
    using assms node id by (auto simp: Explain_def fold_addSupport split: if_splits)
  have es: "set ?es = {e \<in> set (graphEdges db s). e_SourceID e = nodeID \<or> e_TargetID e = nodeID}"
    by (auto simp: readIncidentEdges_def)
  note edges = putAll_facts [of "[]" edgeKey "\<lambda>_. True" ?es, simplified]
  have nodes: "fst ` set ?nodes = insert nodeID (n_ID ` set (endNodes (readNode db s) ?es))"
      "(k, v) \<in> set ?nodes \<Longrightarrow> k = n_ID v" for k v
    using putAll_facts [of "[(nodeID, node)]" n_ID "\<lambda>_. True" "endNodes (readNode db s) ?es"] id by auto
  have "edgeKey ` set (sortedEdges ?edges) = fst ` set ?edges"
    by (rule sortedEdges_putAll) (use edges in blast)
  moreover have "set (sortedEdges ?edges) \<subseteq> set ?es" using edges by (auto simp: sortedEdges_def)
  moreover have "n_ID ` set (sortedNodes ?nodes) = insert nodeID (n_ID ` set (endNodes (readNode db s) ?es))"
    unfolding nodes(1) [symmetric] by (rule sortedNodes_putAll) (rule nodes(2))
  moreover have "n_ID ` set (endNodes (readNode db s) ?es) =
      {n_ID n | n e. readNode db s (n_ID n) = Some n \<and> e \<in> set ?es \<and> (n_ID n = e_SourceID e \<or> n_ID n = e_TargetID e)}"
    (is "?l = ?r")
  proof -
    have id: "n_ID n = i" if "readNode db s i = Some n" for i n using that by (auto simp: readNode_def dest: find_SomeD)
    have "x \<in> ?r" if "x \<in> ?l" for x
    proof -
      from that obtain n e where n: "x = n_ID n" "e \<in> set ?es" "readNode db s (e_SourceID e) = Some n \<or> readNode db s (e_TargetID e) = Some n"
        unfolding set_endNodes by blast
      then have "readNode db s (n_ID n) = Some n \<and> (n_ID n = e_SourceID e \<or> n_ID n = e_TargetID e)"
        using id [of "e_SourceID e" n] id [of "e_TargetID e" n] by auto
      with n show ?thesis by blast
    qed
    moreover have "x \<in> ?l" if "x \<in> ?r" for x
    proof -
      from that obtain n e where "x = n_ID n" "readNode db s (n_ID n) = Some n" "e \<in> set ?es" "n_ID n = e_SourceID e \<or> n_ID n = e_TargetID e"
        by blast
      then have "n \<in> set (endNodes (readNode db s) ?es)" unfolding set_endNodes by auto
      with \<open>x = n_ID n\<close> show ?thesis by blast
    qed
    ultimately show ?thesis by blast
  qed
  ultimately show ?thesis using id mem edges unfolding ex by (simp add: es)
qed

theorem Explain_correct_witness:
  "n_ID ` set (map sampleNode [''a'', ''b'', ''c'']) = insert ''b'' {n_ID n | n e. readNode sampleGraph sampleSnapshot (n_ID n) = Some n \<and>
     e \<in> set (graphEdges sampleGraph sampleSnapshot) \<and> (e_SourceID e = ''b'' \<or> e_TargetID e = ''b'') \<and>
     (n_ID n = e_SourceID e \<or> n_ID n = e_TargetID e)}"
proof -
  have "Explain sampleSnapshot ''b'' sampleGraph = Inr \<lparr>ex_Node = sampleNode ''b'', ex_SupportingFacts =
      \<lparr>f_Nodes = map sampleNode [''a'', ''b'', ''c''], f_Edges = [sampleEdge ''a'' ''calls'' ''b'', sampleEdge ''b'' ''calls'' ''c'']\<rparr>\<rparr>"
    by code_simp
  from Explain_correct [OF this, THEN conjunct2, THEN conjunct2, THEN conjunct2, THEN conjunct2] show ?thesis by simp
qed

end
