(* ===== verification/Store_Traverse.thy ===== *)
theory Store_Traverse
  imports Store_Graph
begin

text \<open>
  Correctness of the graph traversal of \<^verbatim>\<open>src/storage/sqlite/sqlite.go\<close>. The specification is the
  relation \<open>reach\<close>: which nodes lie at the end of a walk of a given length from a start node, in the
  requested direction, over the requested relations, leaving no node outside the project scope.
  The traversal is proved against an interface to the graph (a node reader and a reader of incident
  edges), which the store's readers implement.
\<close>

section \<open>Specification\<close>

definition neighbour ::
  "(str \<Rightarrow> Node option) \<Rightarrow> (str \<Rightarrow> Edge list) \<Rightarrow> str list \<Rightarrow> TraversalRequest \<Rightarrow> str \<Rightarrow> str \<Rightarrow> bool" where
  "neighbour node incident scoped request u v \<longleftrightarrow>
     (scoped = [] \<or> u \<in> set scoped) \<and> node v \<noteq> None \<and>
     (\<exists>e \<in> set (incident u). includesRelation (tr_Relations request) e \<and>
        traversalNeighbor u e (tr_Direction request) = Some v)"

inductive reach ::
  "(str \<Rightarrow> Node option) \<Rightarrow> (str \<Rightarrow> Edge list) \<Rightarrow> str list \<Rightarrow> TraversalRequest \<Rightarrow> nat \<Rightarrow> str \<Rightarrow> bool"
  for node incident scoped request where
  start: "v \<in> set (tr_StartNodeIDs request) \<Longrightarrow> node v \<noteq> None \<Longrightarrow> reach node incident scoped request 0 v"
| step: "reach node incident scoped request d u \<Longrightarrow> neighbour node incident scoped request u v \<Longrightarrow>
    reach node incident scoped request (Suc d) v"

inductive_cases reach_0E: "reach node incident scoped request 0 v"
inductive_cases reach_SucE: "reach node incident scoped request (Suc d) v"

section \<open>Folds\<close>

text \<open>What one step of a fold establishes and every later step keeps holds at the end.\<close>

lemma fold_establish:
  assumes "good (fold f xs s)" "x \<in> set xs"
    and "\<And>x s. good (f x s) \<Longrightarrow> good s"
    and "\<And>x s. x \<in> set xs \<Longrightarrow> good (f x s) \<Longrightarrow> Q x (f x s)"
    and "\<And>x y s. good (f y s) \<Longrightarrow> Q x s \<Longrightarrow> Q x (f y s)"
  shows "Q x (fold f xs s)"
  using assms(1,2,4)
proof (induction xs arbitrary: s)
  case (Cons y xs)
  have good: "good s'" if "good (fold f ys s')" for ys s'
    using that by (induction ys arbitrary: s') (auto dest: assms(3))
  have keep: "Q x (fold f ys s')" if "good (fold f ys s')" "Q x s'" for ys s'
    using that by (induction ys arbitrary: s') (auto dest: good intro: assms(5))
  show ?case
  proof (cases "x = y")
    case True
    have "Q y (f y s)" using Cons.prems(1) by (intro Cons.prems(3)) (auto dest: good)
    then show ?thesis using True Cons.prems(1) keep [of xs "f y s"] by simp
  next
    case False
    then show ?thesis using Cons.prems Cons.IH [of "f y s"] by simp
  qed
qed simp

lemma distinct_map_sort: "distinct (map f (sort_key k xs)) = distinct (map f xs)"
  by (rule mset_eq_imp_distinct_iff) simp

lemma update_length: "length (AList.update k v xs) = (if k \<in> fst ` set xs then length xs else Suc (length xs))"
  by (induction xs) auto

lemma update_keys: "fst ` set (AList.update k v xs) = insert k (fst ` set xs)"
  by (simp add: AList.dom_update)

lemma update_set: "set (AList.update k v xs) \<subseteq> insert (k, v) (set xs)"
  by (induction xs) auto

section \<open>The state\<close>

definition keys :: "traversal \<Rightarrow> str set" where
  "keys st = fst ` set (tv_nodes st)"

definition unlimited :: "traversal \<Rightarrow> bool" where
  "unlimited st \<longleftrightarrow> TruncatedByNodeLimit \<notin> set (tv_reasons st)"

lemma keys_simps [simp]:
  "keys (selectNode v n st) = insert v (keys st)" "keys (selectEdge e st) = keys st" "keys (nodeLimit st) = keys st"
  "keys (st\<lparr>tv_next := next\<rparr>) = keys st" "keys (st\<lparr>tv_boundary := b\<rparr>) = keys st"
  by (simp_all add: keys_def selectNode_def selectEdge_def nodeLimit_def update_keys)

lemma next_simps [simp]:
  "tv_next (selectNode v n st) = tv_next st" "tv_next (selectEdge e st) = tv_next st" "tv_next (nodeLimit st) = tv_next st"
  by (simp_all add: selectNode_def selectEdge_def nodeLimit_def)

lemma unlimited_simps [simp]:
  "unlimited (selectNode v n st) = unlimited st" "unlimited (selectEdge e st) = unlimited st" "\<not> unlimited (nodeLimit st)"
  "unlimited (st\<lparr>tv_next := next\<rparr>) = unlimited st" "unlimited (st\<lparr>tv_boundary := b\<rparr>) = unlimited st"
  by (simp_all add: unlimited_def selectNode_def selectEdge_def nodeLimit_def addTruncationReason_def)

lemma keysI: "(i, n) \<in> set (tv_nodes st) \<Longrightarrow> i \<in> keys st"
  by (force simp: keys_def)

lemma keysE: "i \<in> keys st \<Longrightarrow> (\<And>n. (i, n) \<in> set (tv_nodes st) \<Longrightarrow> P) \<Longrightarrow> P"
  by (force simp: keys_def)

lemma length_selectNode:
  "length (tv_nodes (selectNode v n st)) = (if v \<in> keys st then length (tv_nodes st) else Suc (length (tv_nodes st)))"
  by (simp add: selectNode_def keys_def update_length)

section \<open>The traversal over an interface to the graph\<close>

locale graph_access =
  fixes node :: "str \<Rightarrow> Node option" and incident :: "str \<Rightarrow> Edge list"
  assumes node_id: "node i = Some n \<Longrightarrow> n_ID n = i"
    and incident_ends: "e \<in> set (incident i) \<Longrightarrow> e_SourceID e = i \<or> e_TargetID e = i"
begin

lemma neighbor_end:
  "traversalNeighbor u e direction = Some v \<Longrightarrow> e_SourceID e = u \<and> e_TargetID e = v \<or> e_TargetID e = u \<and> e_SourceID e = v"
  by (auto simp: traversalNeighbor_def split: if_splits)

lemma visitEdge_skip:
  "\<not> includesRelation (tr_Relations request) e \<or> traversalNeighbor u e (tr_Direction request) = None \<or>
     (\<exists>v. traversalNeighbor u e (tr_Direction request) = Some v \<and> node v = None) \<Longrightarrow>
   visitEdge node scoped request u e st = st"
  by (auto simp: visitEdge_def)

lemma visitEdge_outside:
  "includesRelation (tr_Relations request) e \<Longrightarrow> traversalNeighbor u e (tr_Direction request) = Some v \<Longrightarrow> node v = Some n \<Longrightarrow>
   scoped \<noteq> [] \<Longrightarrow> v \<notin> set scoped \<Longrightarrow>
   visitEdge node scoped request u e st =
     (let st1 = (if tv_boundary st = None then st\<lparr>tv_boundary := Some n\<rparr> else st) in
      if atLimit request st then nodeLimit st1 else selectEdge e (selectNode v n st1))"
  by (simp add: visitEdge_def Let_def atLimit_def)

lemma visitEdge_inside:
  "includesRelation (tr_Relations request) e \<Longrightarrow> traversalNeighbor u e (tr_Direction request) = Some v \<Longrightarrow> node v = Some n \<Longrightarrow>
   scoped = [] \<or> v \<in> set scoped \<Longrightarrow>
   visitEdge node scoped request u e st =
     (if v \<in> keys st then selectEdge e st
      else if atLimit request st then nodeLimit st
      else selectEdge e ((selectNode v n st)\<lparr>tv_next := tv_next st @ [v]\<rparr>))"
  by (auto simp: visitEdge_def keys_def)

text \<open>Every edge is of one of these three kinds.\<close>

lemma visitEdge_cases:
  obtains (skip) "visitEdge node scoped request u e = id"
      "\<not> (\<exists>v. includesRelation (tr_Relations request) e \<and> traversalNeighbor u e (tr_Direction request) = Some v \<and> node v \<noteq> None)"
    | (outside) v n where "includesRelation (tr_Relations request) e" "traversalNeighbor u e (tr_Direction request) = Some v"
      "node v = Some n" "scoped \<noteq> []" "v \<notin> set scoped"
    | (inside) v n where "includesRelation (tr_Relations request) e" "traversalNeighbor u e (tr_Direction request) = Some v"
      "node v = Some n" "scoped = [] \<or> v \<in> set scoped"
proof (cases "includesRelation (tr_Relations request) e \<and> (\<exists>v n. traversalNeighbor u e (tr_Direction request) = Some v \<and> node v = Some n)")
  case False
  then have "visitEdge node scoped request u e st = st" for st
    by (intro visitEdge_skip) (auto split: option.splits)
  with False show ?thesis by (intro skip) (auto simp: fun_eq_iff)
qed (use outside inside in blast)

text \<open>What always holds of the state: the selected nodes and edges come from the graph and lie within
  \<open>d\<close> steps, the ends of every selected edge are selected, and the node limit is kept.\<close>

definition nodesOk :: "str list \<Rightarrow> TraversalRequest \<Rightarrow> nat \<Rightarrow> traversal \<Rightarrow> bool" where
  "nodesOk scoped request d st \<longleftrightarrow> distinct (map fst (tv_nodes st)) \<and> int (length (tv_nodes st)) \<le> tr_MaxNodes request \<and>
     (\<forall>i n. (i, n) \<in> set (tv_nodes st) \<longrightarrow> node i = Some n \<and> (\<exists>k \<le> d. reach node incident scoped request k i))"

definition edgeOk :: "TraversalRequest \<Rightarrow> str set \<Rightarrow> Edge \<Rightarrow> bool" where
  "edgeOk request selected e \<longleftrightarrow> includesRelation (tr_Relations request) e \<and> e_SourceID e \<in> selected \<and> e_TargetID e \<in> selected \<and>
     (\<exists>u. e \<in> set (incident u))"

definition edgesOk :: "TraversalRequest \<Rightarrow> traversal \<Rightarrow> bool" where
  "edgesOk request st \<longleftrightarrow> distinct (map fst (tv_edges st)) \<and>
     (\<forall>k e. (k, e) \<in> set (tv_edges st) \<longrightarrow> k = edgeKey e \<and> edgeOk request (keys st) e)"

definition nextOk :: "str list \<Rightarrow> traversal \<Rightarrow> bool" where
  "nextOk scoped st \<longleftrightarrow> (\<forall>i \<in> set (tv_next st). i \<in> keys st \<and> (scoped = [] \<or> i \<in> set scoped))"

definition sound :: "str list \<Rightarrow> TraversalRequest \<Rightarrow> nat \<Rightarrow> traversal \<Rightarrow> bool" where
  "sound scoped request d st \<longleftrightarrow> nodesOk scoped request d st \<and> edgesOk request st \<and> nextOk scoped st"

lemma sound_Suc: "sound scoped request d st \<Longrightarrow> sound scoped request (Suc d) st"
  unfolding sound_def nodesOk_def using le_SucI by blast

lemma edgeOk_mono: "edgeOk request A e \<Longrightarrow> A \<subseteq> B \<Longrightarrow> edgeOk request B e"
  by (auto simp: edgeOk_def)

lemma sound_selectNode:
  assumes "sound scoped request d st" "node v = Some n" "reach node incident scoped request k v" "k \<le> d"
    "v \<in> keys st \<or> \<not> atLimit request st"
  shows "sound scoped request d (selectNode v n st)"
proof -
  have "int (length (tv_nodes (selectNode v n st))) \<le> tr_MaxNodes request"
    using assms(1,5) by (auto simp: length_selectNode sound_def nodesOk_def atLimit_def)
  moreover have "node i = Some m \<and> (\<exists>k \<le> d. reach node incident scoped request k i)"
    if "(i, m) \<in> set (tv_nodes (selectNode v n st))" for i m
    using that update_set [of v n "tv_nodes st"] assms by (auto simp: sound_def nodesOk_def selectNode_def)
  ultimately have "nodesOk scoped request d (selectNode v n st)"
    using assms(1) by (auto simp: sound_def nodesOk_def selectNode_def AList.distinct_update)
  moreover have "edgesOk request (selectNode v n st)"
    using assms(1) edgeOk_mono [OF _ subset_insertI] by (simp add: sound_def edgesOk_def selectNode_def) (simp flip: selectNode_def)
  moreover have "nextOk scoped (selectNode v n st)"
    using assms(1) by (simp add: sound_def nextOk_def)
  ultimately show ?thesis by (simp add: sound_def)
qed

lemma selectEdge_nodes [simp]: "tv_nodes (selectEdge e st) = tv_nodes st"
  by (simp add: selectEdge_def)

lemma selectNode_edges [simp]: "tv_edges (selectNode v n st) = tv_edges st"
  by (simp add: selectNode_def)

lemma sound_selectEdge:
  assumes "sound scoped request d st" "includesRelation (tr_Relations request) e" "e \<in> set (incident u)"
    "e_SourceID e \<in> keys st" "e_TargetID e \<in> keys st"
  shows "sound scoped request d (selectEdge e st)"
proof -
  have "edgeOk request (keys st) e" using assms by (auto simp: edgeOk_def)
  then have "k = edgeKey f \<and> edgeOk request (keys st) f" if "(k, f) \<in> set (tv_edges (selectEdge e st))" for k f
    using that assms(1) update_set [of "edgeKey e" e "tv_edges st"] by (auto simp: sound_def edgesOk_def selectEdge_def)
  moreover have "distinct (map fst (tv_edges (selectEdge e st)))"
    using assms(1) by (simp add: selectEdge_def AList.distinct_update sound_def edgesOk_def)
  ultimately have "edgesOk request (selectEdge e st)" by (simp add: edgesOk_def)
  then show ?thesis using assms(1) by (simp add: sound_def nodesOk_def nextOk_def)
qed

lemma sound_limit: "sound scoped request d st \<Longrightarrow> sound scoped request d (nodeLimit st)"
  by (simp add: sound_def nodesOk_def edgesOk_def nextOk_def) (simp add: nodeLimit_def)

lemma sound_boundary: "sound scoped request d st \<Longrightarrow> sound scoped request d (st\<lparr>tv_boundary := b\<rparr>)"
  by (simp add: sound_def nodesOk_def edgesOk_def nextOk_def)

lemma sound_next:
  "sound scoped request d st \<Longrightarrow> (\<And>i. i \<in> set q \<Longrightarrow> i \<in> keys st \<and> (scoped = [] \<or> i \<in> set scoped)) \<Longrightarrow>
     sound scoped request d (st\<lparr>tv_next := q\<rparr>)"
  by (simp add: sound_def nodesOk_def edgesOk_def nextOk_def)

lemma selectEdge_next: "selectEdge e (st\<lparr>tv_next := q\<rparr>) = (selectEdge e st)\<lparr>tv_next := q\<rparr>"
  by (simp add: selectEdge_def)

lemma sound_visitEdge:
  assumes "sound scoped request (Suc d) st" "e \<in> set (incident u)" "u \<in> keys st"
    "k \<le> d" "reach node incident scoped request k u" "scoped = [] \<or> u \<in> set scoped"
  shows "sound scoped request (Suc d) (visitEdge node scoped request u e st)"
proof -
  have select: "sound scoped request (Suc d) (selectEdge e (selectNode v n st'))"
    if "includesRelation (tr_Relations request) e" "traversalNeighbor u e (tr_Direction request) = Some v" "node v = Some n"
      "sound scoped request (Suc d) st'" "tv_nodes st' = tv_nodes st" "\<not> atLimit request st" for v n st'
  proof -
    have "neighbour node incident scoped request u v" using that assms(2,6) by (auto simp: neighbour_def)
    then have "reach node incident scoped request (Suc k) v" using assms(5) by (intro reach.step)
    then have "sound scoped request (Suc d) (selectNode v n st')"
      by (rule sound_selectNode [OF that(4,3)]) (use assms(4) that in \<open>simp_all add: atLimit_def\<close>)
    moreover have "keys st' = keys st" using that(5) by (simp add: keys_def)
    ultimately show ?thesis
      using neighbor_end [OF that(2)] assms(3) by (intro sound_selectEdge [OF _ that(1) assms(2)]) auto
  qed
  show ?thesis
  proof (cases rule: visitEdge_cases [of scoped request u e])
    case skip
    then show ?thesis using assms(1) by simp
  next
    case (outside v n)
    show ?thesis
      unfolding visitEdge_outside [OF outside] Let_def
      using select [OF outside(1-3) assms(1)] select [OF outside(1-3) sound_boundary [OF assms(1)]]
        sound_limit [OF assms(1)] sound_limit [OF sound_boundary [OF assms(1)]] by simp
  next
    case (inside v n)
    have "sound scoped request (Suc d) (selectEdge e st)" if "v \<in> keys st"
      by (rule sound_selectEdge [OF assms(1) inside(1) assms(2)]) (use neighbor_end [OF inside(2)] assms(3) that in auto)
    moreover have "sound scoped request (Suc d) (selectEdge e ((selectNode v n st)\<lparr>tv_next := tv_next st @ [v]\<rparr>))"
      if "\<not> atLimit request st"
      unfolding selectEdge_next
      by (rule sound_next [OF select [OF inside(1-3) assms(1) refl that]])
        (use assms(1) inside(4) in \<open>auto simp: sound_def nextOk_def\<close>)
    ultimately show ?thesis
      unfolding visitEdge_inside [OF inside] using sound_limit [OF assms(1)] by simp
  qed
qed

section \<open>Growth of the state\<close>

text \<open>From one state to a later one nodes are only added; those inside the scope are also queued.\<close>

definition grown :: "str list \<Rightarrow> traversal \<Rightarrow> traversal \<Rightarrow> bool" where
  "grown scoped st st' \<longleftrightarrow> keys st \<subseteq> keys st' \<and> set (tv_next st) \<subseteq> set (tv_next st') \<and> (unlimited st' \<longrightarrow> unlimited st) \<and>
     (\<forall>v \<in> keys st'. v \<in> keys st \<or> v \<in> set (tv_next st') \<or> scoped \<noteq> [] \<and> v \<notin> set scoped)"

lemma grown_refl: "grown scoped st st"
  by (simp add: grown_def)

lemma grown_trans: "grown scoped a b \<Longrightarrow> grown scoped b c \<Longrightarrow> grown scoped a c"
  unfolding grown_def by blast

lemma grown_visitEdge: "grown scoped st (visitEdge node scoped request u e st)"
proof (cases rule: visitEdge_cases [of scoped request u e])
  case (outside v n)
  then show ?thesis unfolding visitEdge_outside [OF outside] by (auto simp: grown_def Let_def)
next
  case (inside v n)
  then show ?thesis unfolding visitEdge_inside [OF inside] by (auto simp: grown_def)
qed (simp add: grown_refl)

lemma visitEdge_reaches:
  assumes "unlimited (visitEdge node scoped request u e st)" "includesRelation (tr_Relations request) e"
    "traversalNeighbor u e (tr_Direction request) = Some v" "node v \<noteq> None"
  shows "v \<in> keys (visitEdge node scoped request u e st)"
proof (cases rule: visitEdge_cases [of scoped request u e])
  case (outside v' n)
  then show ?thesis using assms unfolding visitEdge_outside [OF outside] by (auto simp: Let_def split: if_splits)
next
  case (inside v' n)
  then show ?thesis using assms unfolding visitEdge_inside [OF inside] by (auto split: if_splits)
qed (use assms in auto)

lemma grown_fold: "(\<And>x st. grown scoped st (f x st)) \<Longrightarrow> grown scoped st (fold f xs st)"
  by (induction xs arbitrary: st) (auto intro: grown_refl grown_trans)

abbreviation visitNode :: "str list \<Rightarrow> TraversalRequest \<Rightarrow> str \<Rightarrow> traversal \<Rightarrow> traversal" where
  "visitNode scoped request u st \<equiv> fold (visitEdge node scoped request u) (incident u) st"

lemma grown_visitNode: "grown scoped st (visitNode scoped request u st)"
  by (rule grown_fold) (rule grown_visitEdge)

lemma visitNode_reaches:
  assumes "unlimited (visitNode scoped request u st)" "neighbour node incident scoped request u v"
  shows "v \<in> keys (visitNode scoped request u st)"
proof -
  obtain e where e: "e \<in> set (incident u)" "includesRelation (tr_Relations request) e"
      "traversalNeighbor u e (tr_Direction request) = Some v" "node v \<noteq> None"
    using assms(2) by (auto simp: neighbour_def)
  have "includesRelation (tr_Relations request) e \<longrightarrow> traversalNeighbor u e (tr_Direction request) = Some v \<longrightarrow>
      v \<in> keys (visitNode scoped request u st)"
    by (rule fold_establish [where good = unlimited and Q = "\<lambda>e st. includesRelation (tr_Relations request) e \<longrightarrow>
          traversalNeighbor u e (tr_Direction request) = Some v \<longrightarrow> v \<in> keys st", OF assms(1) e(1)])
      (use grown_visitEdge [unfolded grown_def] visitEdge_reaches e(4) in blast)+
  then show ?thesis using e by blast
qed

lemma visitLevel_grown: "grown scoped (st\<lparr>tv_next := []\<rparr>) (visitLevel node incident scoped request frontier st)"
  unfolding visitLevel_def by (rule grown_fold) (rule grown_visitNode)

lemma visitLevel_reaches:
  assumes "unlimited (visitLevel node incident scoped request frontier st)" "u \<in> set frontier"
    "neighbour node incident scoped request u v"
  shows "v \<in> keys (visitLevel node incident scoped request frontier st)"
proof -
  have "\<forall>v. neighbour node incident scoped request u v \<longrightarrow> v \<in> keys (visitLevel node incident scoped request frontier st)"
    unfolding visitLevel_def
    by (rule fold_establish [where good = unlimited, OF assms(1) [unfolded visitLevel_def] assms(2)])
      (use grown_visitNode [unfolded grown_def] visitNode_reaches in blast)+
  then show ?thesis using assms(3) by blast
qed

lemma sound_visitNode:
  assumes "sound scoped request (Suc d) st" "u \<in> keys st" "k \<le> d" "reach node incident scoped request k u" "scoped = [] \<or> u \<in> set scoped"
  shows "sound scoped request (Suc d) (visitNode scoped request u st)"
proof -
  have "sound scoped request (Suc d) (visitNode scoped request u st) \<and> u \<in> keys (visitNode scoped request u st)"
  proof (rule fold_invariant [where Q = "\<lambda>e. e \<in> set (incident u)"])
    fix e st assume "e \<in> set (incident u)" and st: "sound scoped request (Suc d) st \<and> u \<in> keys st"
    then show "sound scoped request (Suc d) (visitEdge node scoped request u e st) \<and> u \<in> keys (visitEdge node scoped request u e st)"
      using assms(3-5) grown_visitEdge [of scoped st request u e] by (auto simp: grown_def intro: sound_visitEdge)
  qed (use assms in auto)
  then show ?thesis by simp
qed

lemma sound_visitLevel:
  assumes "sound scoped request d st" "set frontier \<subseteq> keys st" "\<forall>u \<in> set frontier. scoped = [] \<or> u \<in> set scoped"
  shows "sound scoped request (Suc d) (visitLevel node incident scoped request frontier st)"
proof -
  let ?P = "\<lambda>st'. sound scoped request (Suc d) st' \<and> set frontier \<subseteq> keys st'"
  have near: "\<exists>k \<le> d. reach node incident scoped request k u" if "u \<in> set frontier" for u
  proof -
    from that assms(2) obtain n where "(u, n) \<in> set (tv_nodes st)" by (auto elim: keysE)
    then show ?thesis using assms(1) by (auto simp: sound_def nodesOk_def)
  qed
  have "?P (visitLevel node incident scoped request frontier st)"
    unfolding visitLevel_def
  proof (rule fold_invariant [where Q = "\<lambda>u. u \<in> set frontier"])
    show "?P (st\<lparr>tv_next := []\<rparr>)"
      using sound_Suc [OF assms(1)] assms(2) by (simp add: sound_def nodesOk_def edgesOk_def nextOk_def)
    fix u st' assume "u \<in> set frontier" and st': "?P st'"
    then show "?P (visitNode scoped request u st')"
      using near [of u] assms(3) grown_visitNode [of scoped st' request u] by (auto simp: grown_def intro: sound_visitNode)
  qed
  then show ?thesis by simp
qed

section \<open>Levels\<close>

text \<open>Before the node limit is met, everything within \<open>d\<close> steps is selected, and only nodes of the frontier
  have neighbours that are not.\<close>

definition complete :: "str list \<Rightarrow> TraversalRequest \<Rightarrow> nat \<Rightarrow> str set \<Rightarrow> traversal \<Rightarrow> bool" where
  "complete scoped request d frontier st \<longleftrightarrow> unlimited st \<longrightarrow>
     (\<forall>k v. k \<le> d \<longrightarrow> reach node incident scoped request k v \<longrightarrow> v \<in> keys st) \<and>
     (\<forall>u v. u \<in> keys st \<longrightarrow> u \<notin> frontier \<longrightarrow> neighbour node incident scoped request u v \<longrightarrow> v \<in> keys st)"

lemma complete_closed:
  assumes "complete scoped request d {} st" "unlimited st" "reach node incident scoped request k v"
  shows "v \<in> keys st"
  using assms(3)
proof (induction rule: reach.induct)
  case (start v)
  then have "reach node incident scoped request 0 v" by (intro reach.start)
  then show ?case using assms(1,2) by (auto simp: complete_def)
next
  case (step k u v)
  then show ?case using assms(1,2) by (auto simp: complete_def)
qed

lemma complete_empty:
  assumes "complete scoped request d {} st" shows "complete scoped request k {} st"
  unfolding complete_def
proof (intro impI conjI allI)
  assume good: "unlimited st"
  show "v \<in> keys st" if "reach node incident scoped request m v" for m v
    by (rule complete_closed [OF assms good that])
  show "v \<in> keys st" if "u \<in> keys st" "neighbour node incident scoped request u v" for u v
    using assms good that by (auto simp: complete_def)
qed

lemma complete_visitLevel:
  assumes "complete scoped request d (set frontier) st"
  defines "st' \<equiv> visitLevel node incident scoped request frontier st"
  shows "complete scoped request (Suc d) (set (tv_next st')) st'"
  unfolding complete_def
proof (intro impI conjI allI)
  assume good: "unlimited st'"
  have grown: "grown scoped (st\<lparr>tv_next := []\<rparr>) st'" unfolding st'_def by (rule visitLevel_grown)
  then have old: "unlimited st" "keys st \<subseteq> keys st'" using good by (auto simp: grown_def)
  have reaches: "v \<in> keys st'" if "u \<in> keys st" "neighbour node incident scoped request u v" for u v
  proof (cases "u \<in> set frontier")
    case True
    show ?thesis unfolding st'_def by (rule visitLevel_reaches [OF good [unfolded st'_def] True that(2)])
  next
    case False
    then show ?thesis using assms(1) that old by (auto simp: complete_def)
  qed
  show "v \<in> keys st'" if "k \<le> Suc d" "reach node incident scoped request k v" for k v
  proof (cases "k \<le> d")
    case True
    then show ?thesis using assms(1) old that(2) by (auto simp: complete_def)
  next
    case False
    then have "k = Suc d" using that(1) by simp
    with that(2) obtain u where "reach node incident scoped request d u" "neighbour node incident scoped request u v"
      by (auto elim: reach_SucE)
    moreover from this(1) have "u \<in> keys st" using assms(1) old(1) by (auto simp: complete_def)
    ultimately show ?thesis by (intro reaches)
  qed
  show "v \<in> keys st'" if "u \<in> keys st'" "u \<notin> set (tv_next st')" "neighbour node incident scoped request u v" for u v
  proof -
    have "\<not> (scoped \<noteq> [] \<and> u \<notin> set scoped)" using that(3) by (auto simp: neighbour_def)
    then have "u \<in> keys st" using grown that(1,2) by (auto simp: grown_def)
    then show ?thesis using that(3) by (rule reaches)
  qed
qed

section \<open>Links\<close>

text \<open>An edge crosses from a node in the scope to a neighbour. Every selected edge crosses, and every node selected
  at the end of a shortest walk is linked to the walk by a selected edge.\<close>

definition crosses :: "str list \<Rightarrow> TraversalRequest \<Rightarrow> str \<Rightarrow> Edge \<Rightarrow> str \<Rightarrow> bool" where
  "crosses scoped request u e v \<longleftrightarrow> (scoped = [] \<or> u \<in> set scoped) \<and> e \<in> set (incident u) \<and>
     includesRelation (tr_Relations request) e \<and> traversalNeighbor u e (tr_Direction request) = Some v \<and> node v \<noteq> None"

definition edgeKeys :: "traversal \<Rightarrow> str set" where
  "edgeKeys st = fst ` set (tv_edges st)"

definition linked :: "str list \<Rightarrow> TraversalRequest \<Rightarrow> str set \<Rightarrow> traversal \<Rightarrow> traversal \<Rightarrow> bool" where
  "linked scoped request frontier st st' \<longleftrightarrow> edgeKeys st \<subseteq> edgeKeys st' \<and>
     (\<forall>v \<in> keys st'. v \<in> keys st \<or> (\<exists>u \<in> frontier. \<exists>e. crosses scoped request u e v \<and> edgeKey e \<in> edgeKeys st')) \<and>
     (\<forall>ke \<in> set (tv_edges st'). ke \<in> set (tv_edges st) \<or> (\<exists>u v. crosses scoped request u (snd ke) v))"

definition traced :: "str list \<Rightarrow> TraversalRequest \<Rightarrow> traversal \<Rightarrow> bool" where
  "traced scoped request st \<longleftrightarrow>
     (\<forall>ke \<in> set (tv_edges st). \<exists>u v. crosses scoped request u (snd ke) v) \<and>
     (unlimited st \<longrightarrow> (\<forall>v \<in> keys st. \<forall>k. reach node incident scoped request (Suc k) v \<longrightarrow>
        (\<forall>j \<le> k. \<not> reach node incident scoped request j v) \<longrightarrow>
        (\<exists>u e. reach node incident scoped request k u \<and> crosses scoped request u e v \<and> edgeKey e \<in> edgeKeys st)))"

lemma crosses_neighbour: "crosses scoped request u e v \<Longrightarrow> neighbour node incident scoped request u v"
  by (auto simp: crosses_def neighbour_def)

lemma linked_refl: "linked scoped request F st st"
  by (simp add: linked_def)

lemma linked_trans: "linked scoped request F a b \<Longrightarrow> linked scoped request F b c \<Longrightarrow> linked scoped request F a c"
  unfolding linked_def by blast

lemma edgeKeys_simps [simp]:
  "edgeKeys (selectEdge e st) = insert (edgeKey e) (edgeKeys st)" "edgeKeys (selectNode v n st) = edgeKeys st"
  "edgeKeys (nodeLimit st) = edgeKeys st" "edgeKeys (st\<lparr>tv_next := q\<rparr>) = edgeKeys st" "edgeKeys (st\<lparr>tv_boundary := b\<rparr>) = edgeKeys st"
  by (simp_all add: edgeKeys_def selectEdge_def nodeLimit_def selectNode_def update_keys)

lemma linked_selectEdge:
  assumes "crosses scoped request u e v" "u \<in> F" "keys st' = insert v (keys st) \<or> keys st' = keys st" "tv_edges st' = tv_edges st"
  shows "linked scoped request F st (selectEdge e st')"
proof -
  have "set (tv_edges (selectEdge e st')) \<subseteq> insert (edgeKey e, e) (set (tv_edges st))"
    using update_set [of "edgeKey e" e "tv_edges st"] by (simp add: selectEdge_def assms(4))
  moreover have "edgeKeys st' = edgeKeys st" by (simp add: edgeKeys_def assms(4))
  moreover have "\<exists>u \<in> F. \<exists>e'. crosses scoped request u e' v \<and> edgeKey e' \<in> edgeKeys (selectEdge e st')"
    using assms(1,2) by auto
  ultimately show ?thesis using assms(1,3) unfolding linked_def by auto
qed

lemma linked_same: "keys st' = keys st \<Longrightarrow> tv_edges st' = tv_edges st \<Longrightarrow> linked scoped request F st st'"
  by (simp add: linked_def edgeKeys_def)

lemma nodeLimit_edges [simp]: "tv_edges (nodeLimit st) = tv_edges st"
  by (simp add: nodeLimit_def)

lemma linked_visitEdge:
  assumes "e \<in> set (incident u)" "u \<in> F" "scoped = [] \<or> u \<in> set scoped"
  shows "linked scoped request F st (visitEdge node scoped request u e st)"
proof (cases rule: visitEdge_cases [of scoped request u e])
  case (outside v n)
  then have "crosses scoped request u e v" using assms by (simp add: crosses_def)
  note select = linked_selectEdge [OF this assms(2)]
  show ?thesis
    unfolding visitEdge_outside [OF outside] Let_def
    using select [of "selectNode v n st" st] select [of "selectNode v n (st\<lparr>tv_boundary := Some n\<rparr>)" st]
    by (auto intro!: linked_same)
next
  case (inside v n)
  then have "crosses scoped request u e v" using assms by (simp add: crosses_def)
  note select = linked_selectEdge [OF this assms(2)]
  show ?thesis
    unfolding visitEdge_inside [OF inside]
    using select [of st st] select [of "(selectNode v n st)\<lparr>tv_next := tv_next st @ [v]\<rparr>" st]
    by (auto intro!: linked_same)
qed (simp add: linked_refl)

lemma linked_fold:
  "(\<And>x st. x \<in> set xs \<Longrightarrow> linked scoped request F st (f x st)) \<Longrightarrow> linked scoped request F st (fold f xs st)"
proof (induction xs arbitrary: st)
  case (Cons x xs)
  have "linked scoped request F st (f x st)" "linked scoped request F (f x st) (fold f xs (f x st))"
    using Cons by auto
  then show ?case using linked_trans by simp
qed (simp add: linked_refl)

lemma linked_visitLevel:
  assumes "\<forall>u \<in> set frontier. scoped = [] \<or> u \<in> set scoped"
  shows "linked scoped request (set frontier) (st\<lparr>tv_next := []\<rparr>) (visitLevel node incident scoped request frontier st)"
  unfolding visitLevel_def by (intro linked_fold linked_visitEdge) (use assms in auto)

lemma traced_visitLevel:
  assumes "traced scoped request st" "sound scoped request d st" "complete scoped request d (set frontier) st"
    "set frontier \<subseteq> keys st" "\<forall>u \<in> set frontier. scoped = [] \<or> u \<in> set scoped"
  shows "traced scoped request (visitLevel node incident scoped request frontier st)"
proof -
  let ?st = "visitLevel node incident scoped request frontier st"
  have linked: "linked scoped request (set frontier) (st\<lparr>tv_next := []\<rparr>) ?st" by (rule linked_visitLevel [OF assms(5)])
  have "\<exists>u e. reach node incident scoped request k u \<and> crosses scoped request u e v \<and> edgeKey e \<in> edgeKeys ?st"
    if good: "unlimited ?st" and v: "v \<in> keys ?st" and k: "reach node incident scoped request (Suc k) v"
      and least: "\<forall>j \<le> k. \<not> reach node incident scoped request j v" for v k
  proof (cases "v \<in> keys st")
    case True
    have "unlimited st" using visitLevel_grown [of scoped st request frontier] good by (simp add: grown_def)
    then show ?thesis using assms(1) True k least linked unfolding traced_def linked_def by (metis edgeKeys_simps(4) subsetD)
  next
    case False
    have "unlimited st" using visitLevel_grown [of scoped st request frontier] good by (simp add: grown_def)
    then have "d \<le> k" using assms(3) False k unfolding complete_def by (meson not_less_eq_eq)
    obtain u e where u: "u \<in> set frontier" "crosses scoped request u e v" "edgeKey e \<in> edgeKeys ?st"
      using linked v False unfolding linked_def by auto
    then obtain k' where k': "k' \<le> d" "reach node incident scoped request k' u"
      using assms(2,4) by (auto simp: sound_def nodesOk_def elim!: keysE dest!: subsetD)
    then have "reach node incident scoped request (Suc k') v" using crosses_neighbour [OF u(2)] by (intro reach.step)
    then have "k \<le> k'" using least by (meson not_less_eq_eq)
    then have "k' = k" using k'(1) \<open>d \<le> k\<close> by simp
    then show ?thesis using u k'(2) by blast
  qed
  moreover have "\<exists>u v. crosses scoped request u (snd ke) v" if "ke \<in> set (tv_edges ?st)" for ke
    using that linked assms(1) unfolding linked_def traced_def by auto
  ultimately show ?thesis unfolding traced_def by blast
qed

lemma visitLevels_correct:
  assumes "visitLevels node incident scoped request n frontier st = (frontier', st')"
    "sound scoped request d st" "complete scoped request d (set frontier) st"
    "set frontier \<subseteq> keys st" "\<forall>u \<in> set frontier. scoped = [] \<or> u \<in> set scoped" "traced scoped request st"
  shows "sound scoped request (d + n) st' \<and> complete scoped request (d + n) (set frontier') st' \<and> traced scoped request st'"
  using assms
proof (induction n arbitrary: d frontier st)
  case (Suc n)
  show ?case
  proof (cases "frontier = []")
    case True
    then have "sound scoped request (d + k) st" for k
      using Suc.prems(2) by (induction k) (auto intro: sound_Suc)
    from this [of "Suc n"] show ?thesis
      using True Suc.prems(1,6) complete_empty [of scoped request d st] Suc.prems(3) by auto
  next
    case False
    let ?st = "visitLevel node incident scoped request frontier st"
    let ?next = "dedup_adjacent (sort (tv_next ?st))"
    have sound: "sound scoped request (Suc d) ?st" by (rule sound_visitLevel [OF Suc.prems(2,4,5)])
    have next_set: "set ?next = set (tv_next ?st)" by simp
    have run: "visitLevels node incident scoped request n ?next ?st = (frontier', st')"
      using Suc.prems(1) False by (simp add: Let_def)
    have queued: "set ?next \<subseteq> keys ?st" "\<forall>u \<in> set ?next. scoped = [] \<or> u \<in> set scoped"
      using sound unfolding next_set by (auto simp: sound_def nextOk_def)
    have "complete scoped request (Suc d) (set ?next) ?st"
      unfolding next_set by (rule complete_visitLevel [OF Suc.prems(3)])
    from Suc.IH [OF run sound this queued traced_visitLevel [OF Suc.prems(6,2-5)]] show ?thesis by simp
  qed
qed simp

section \<open>Start nodes\<close>

definition startsOk :: "str list \<Rightarrow> TraversalRequest \<Rightarrow> traversal \<Rightarrow> bool" where
  "startsOk scoped request st \<longleftrightarrow> sound scoped request 0 st \<and> keys st = set (tv_next st) \<and> tv_reasons st = []"

lemma startsOk_select:
  assumes "startsOk scoped request st" "v \<in> set (tr_StartNodeIDs request)" "node v = Some n"
    "scoped = [] \<or> v \<in> set scoped" "\<not> atLimit request st"
  shows "startsOk scoped request ((selectNode v n st)\<lparr>tv_next := tv_next st @ [v]\<rparr>)"
proof -
  have "reach node incident scoped request 0 v" using assms(2,3) by (intro reach.start) auto
  then have "sound scoped request 0 (selectNode v n st)"
    using assms by (intro sound_selectNode [where k = 0]) (auto simp: startsOk_def)
  then have "sound scoped request 0 ((selectNode v n st)\<lparr>tv_next := tv_next st @ [v]\<rparr>)"
    using assms(1,4) by (intro sound_next) (auto simp: startsOk_def sound_def nextOk_def)
  then show ?thesis using assms(1) by (auto simp: startsOk_def) (simp add: selectNode_def)
qed

definition startsOutcome :: "str list \<Rightarrow> TraversalRequest \<Rightarrow> str set \<Rightarrow> start_outcome \<Rightarrow> bool" where
  "startsOutcome scoped request found outcome \<longleftrightarrow>
     (case outcome of
        StartState st' \<Rightarrow> startsOk scoped request st' \<and> keys st' = found
      | StartFull st' \<Rightarrow> startsOk scoped request st'
      | StartOutside \<Rightarrow> True)"

lemma selectStarts_Cons:
  "selectStarts node scoped request (v # starts) st =
     (if v \<in> keys st \<or> node v = None then selectStarts node scoped request starts st
      else if scoped \<noteq> [] \<and> v \<notin> set scoped then StartOutside
      else if atLimit request st then StartFull st
      else selectStarts node scoped request starts ((selectNode v (the (node v)) st)\<lparr>tv_next := tv_next st @ [v]\<rparr>))"
  by (simp add: keys_def split: option.splits)

lemma selectStarts_correct:
  assumes "startsOk scoped request st" "set starts \<subseteq> set (tr_StartNodeIDs request)"
  shows "startsOutcome scoped request (keys st \<union> {v \<in> set starts. node v \<noteq> None}) (selectStarts node scoped request starts st)"
  using assms
proof (induction starts arbitrary: st)
  case (Cons v starts)
  have "set starts \<subseteq> set (tr_StartNodeIDs request)" using Cons.prems(2) by auto
  note IH = Cons.IH [OF _ this]
  let ?found = "keys st \<union> {v \<in> set starts. node v \<noteq> None}"
  show ?case
  proof (cases "v \<in> keys st \<or> node v = None")
    case True
    have "?found = keys st \<union> {x \<in> set (v # starts). node x \<noteq> None}" using True by auto
    then show ?thesis using IH [OF Cons.prems(1)] True by (simp only: selectStarts_Cons if_True)
  next
    case False
    then obtain n where n: "node v = Some n" by blast
    let ?st = "(selectNode v n st)\<lparr>tv_next := tv_next st @ [v]\<rparr>"
    have "startsOutcome scoped request (keys ?st \<union> {v \<in> set starts. node v \<noteq> None}) (selectStarts node scoped request starts ?st)"
      if "\<not> (scoped \<noteq> [] \<and> v \<notin> set scoped)" "\<not> atLimit request st"
      by (rule IH [OF startsOk_select [OF Cons.prems(1) _ n _ that(2)]]) (use Cons.prems(2) that(1) in auto)
    moreover have "keys ?st \<union> {v \<in> set starts. node v \<noteq> None} = keys st \<union> {x \<in> set (v # starts). node x \<noteq> None}"
      using n by auto
    ultimately show ?thesis
      using False n Cons.prems(1) by (simp only: selectStarts_Cons if_False option.sel split: if_split) (simp add: startsOutcome_def)
  qed
qed (simp add: startsOutcome_def)

lemma selectStarts_edges:
  "selectStarts node scoped request starts st = StartState st' \<or> selectStarts node scoped request starts st = StartFull st' \<Longrightarrow>
     tv_edges st' = tv_edges st"
proof (induction starts arbitrary: st)
  case (Cons v starts)
  then show ?case
    by (simp only: selectStarts_Cons split: if_splits) (auto dest: Cons.IH)
qed simp

lemma startsOk_traced:
  assumes "startsOk scoped request st" "tv_edges st = []"
  shows "traced scoped request st"
proof -
  have "nodesOk scoped request 0 st" using assms(1) by (simp add: startsOk_def sound_def)
  then have "reach node incident scoped request 0 v" if "v \<in> keys st" for v
    using that by (auto simp: nodesOk_def elim!: keysE)
  then show ?thesis using assms(2) by (auto simp: traced_def)
qed

section \<open>The result\<close>

lemma sortedNodes_ids: "nodesOk scoped request d st \<Longrightarrow> n_ID ` set (sortedNodes (tv_nodes st)) = keys st"
  unfolding sortedNodes_def keys_def nodesOk_def using node_id by (force simp: image_iff)

lemma keys_empty: "keys emptyTraversal = {}"
  by (simp add: keys_def emptyTraversal_def)

lemma startsOk_empty: "0 < tr_MaxNodes request \<Longrightarrow> startsOk scoped request emptyTraversal"
  by (simp add: startsOk_def sound_def nodesOk_def edgesOk_def nextOk_def emptyTraversal_def keys_def)

lemma startsOk_complete:
  assumes "startsOk scoped request st" "keys st = {v \<in> set (tr_StartNodeIDs request). node v \<noteq> None}"
  shows "complete scoped request 0 (set (tv_next st)) st"
proof -
  have "v \<in> keys st" if "reach node incident scoped request 0 v" for v
    using that assms(2) by (auto elim: reach_0E)
  then show ?thesis using assms(1) by (simp add: complete_def startsOk_def)
qed

text \<open>A result comes from a sound state; unless the node limit is reported, the state is complete up to the
  requested depth, and without any report no frontier node has an unselected neighbour.\<close>

lemma traverseGraph_state:
  assumes "traverseGraph node incident scoped request = Inr result" "0 < tr_MaxNodes request"
  obtains st frontier where "sound scoped request (nat (tr_MaxDepth request)) st" "traced scoped request st"
    "f_Nodes (ts_Facts result) = sortedNodes (tv_nodes st)"
    "f_Edges (ts_Facts result) = sortedEdges (tv_edges st)"
    "TruncatedByNodeLimit \<notin> set (ts_TruncationReasons result) \<Longrightarrow>
       unlimited st \<and> complete scoped request (nat (tr_MaxDepth request)) (set frontier) st"
    "ts_TruncationReasons result = [] \<Longrightarrow>
       \<forall>u \<in> set frontier. \<not> hasTraversableNeighbor (incident u) u (tr_Direction request) (tr_Relations request) (tv_nodes st)"
proof -
  let ?D = "nat (tr_MaxDepth request)"
  have deeper: "sound scoped request d st" if "sound scoped request 0 st" for st d
    using that by (induction d) (auto intro: sound_Suc)
  have starts: "startsOutcome scoped request {v \<in> set (tr_StartNodeIDs request). node v \<noteq> None}
      (selectStarts node scoped request (sort (tr_StartNodeIDs request)) emptyTraversal)"
    using selectStarts_correct [OF startsOk_empty [OF assms(2)], where scoped = scoped and starts = "sort (tr_StartNodeIDs request)"]
    by (simp add: keys_empty)
  show ?thesis
  proof (cases "selectStarts node scoped request (sort (tr_StartNodeIDs request)) emptyTraversal")
    case (StartState st0)
    obtain frontier st where run: "visitLevels node incident scoped request ?D (tv_next st0) st0 = (frontier, st)"
      by (cases "visitLevels node incident scoped request ?D (tv_next st0) st0")
    have ok: "startsOk scoped request st0" "keys st0 = {v \<in> set (tr_StartNodeIDs request). node v \<noteq> None}"
      using starts StartState by (simp_all add: startsOutcome_def)
    have "traced scoped request st0"
      using startsOk_traced [OF ok(1)] selectStarts_edges [OF disjI1 [OF StartState]] by (simp add: emptyTraversal_def)
    then have "sound scoped request (0 + ?D) st \<and> complete scoped request (0 + ?D) (set frontier) st \<and> traced scoped request st"
      by (intro visitLevels_correct [OF run _ startsOk_complete [OF ok]]) (use ok(1) in \<open>auto simp: startsOk_def sound_def nextOk_def\<close>)
    moreover have "result = \<lparr>ts_Facts = \<lparr>f_Nodes = sortedNodes (tv_nodes st), f_Edges = sortedEdges (tv_edges st)\<rparr>,
        ts_TruncationReasons = (if list_ex (\<lambda>u. hasTraversableNeighbor (incident u) u (tr_Direction request)
                                     (tr_Relations request) (tv_nodes st)) frontier
                              then addTruncationReason (tv_reasons st) TruncatedByDepthLimit else tv_reasons st),
        ts_ScopeBoundary = tv_boundary st\<rparr>"
      using assms(1) StartState run by (simp add: traverseGraph_def)
    ultimately show ?thesis
      by (intro that [of st frontier]) (auto simp: unlimited_def addTruncationReason_def list_ex_iff split: if_splits)
  next
    case (StartFull st)
    then show ?thesis
      using assms(1) starts deeper [of st] startsOk_traced [of scoped request st] selectStarts_edges [OF disjI2 [OF StartFull]]
      by (intro that [of st "[]"]) (auto simp: traverseGraph_def startsOk_def startsOutcome_def emptyTraversal_def sortedEdges_def)
  next
    case StartOutside
    then show ?thesis using assms(1) by (simp add: traverseGraph_def)
  qed
qed

lemma traverseGraph_sound:
  assumes "traverseGraph node incident scoped request = Inr result" "0 < tr_MaxNodes request"
  shows "sorted (map n_ID (f_Nodes (ts_Facts result)))" "distinct (map n_ID (f_Nodes (ts_Facts result)))"
    "int (length (f_Nodes (ts_Facts result))) \<le> tr_MaxNodes request"
    "n \<in> set (f_Nodes (ts_Facts result)) \<Longrightarrow> node (n_ID n) = Some n \<and>
       (\<exists>k \<le> nat (tr_MaxDepth request). reach node incident scoped request k (n_ID n))"
    "e \<in> set (f_Edges (ts_Facts result)) \<Longrightarrow> edgeOk request (n_ID ` set (f_Nodes (ts_Facts result))) e"
proof -
  obtain st where st: "sound scoped request (nat (tr_MaxDepth request)) st"
      "f_Nodes (ts_Facts result) = sortedNodes (tv_nodes st)"
      "f_Edges (ts_Facts result) = sortedEdges (tv_edges st)"
    by (rule traverseGraph_state [OF assms]) blast
  have nodes: "nodesOk scoped request (nat (tr_MaxDepth request)) st" using st(1) by (simp add: sound_def)
  have ids: "map n_ID (map snd (tv_nodes st)) = map fst (tv_nodes st)"
    using nodes node_id by (auto simp: nodesOk_def)
  show "sorted (map n_ID (f_Nodes (ts_Facts result)))" by (simp add: st(2) sortedNodes_def)
  have "distinct (map n_ID (map snd (tv_nodes st)))" unfolding ids using nodes by (simp add: nodesOk_def)
  then show "distinct (map n_ID (f_Nodes (ts_Facts result)))"
    by (simp only: st(2) sortedNodes_def distinct_map_sort)
  show "int (length (f_Nodes (ts_Facts result))) \<le> tr_MaxNodes request"
    using nodes by (simp add: st(2) sortedNodes_def nodesOk_def)
  show "node (n_ID n) = Some n \<and> (\<exists>k \<le> nat (tr_MaxDepth request). reach node incident scoped request k (n_ID n))"
    if "n \<in> set (f_Nodes (ts_Facts result))"
  proof -
    from that obtain i where "(i, n) \<in> set (tv_nodes st)" by (auto simp: st(2) sortedNodes_def)
    then have "node i = Some n" "\<exists>k \<le> nat (tr_MaxDepth request). reach node incident scoped request k i"
      using nodes by (auto simp: nodesOk_def)
    moreover from this(1) have "n_ID n = i" by (rule node_id)
    ultimately show ?thesis by simp
  qed
  show "edgeOk request (n_ID ` set (f_Nodes (ts_Facts result))) e" if "e \<in> set (f_Edges (ts_Facts result))"
    using that st(1,3) unfolding st(2) sortedNodes_ids [OF nodes] by (auto simp: sortedEdges_def sound_def edgesOk_def)
qed

lemma traverseGraph_complete:
  assumes "traverseGraph node incident scoped request = Inr result" "0 < tr_MaxNodes request"
  shows "TruncatedByNodeLimit \<notin> set (ts_TruncationReasons result) \<Longrightarrow>
       n_ID ` set (f_Nodes (ts_Facts result)) = {v. \<exists>k \<le> nat (tr_MaxDepth request). reach node incident scoped request k v}"
    "ts_TruncationReasons result = [] \<Longrightarrow>
       n_ID ` set (f_Nodes (ts_Facts result)) = {v. \<exists>k. reach node incident scoped request k v}"
proof -
  let ?D = "nat (tr_MaxDepth request)"
  obtain st frontier where st: "sound scoped request ?D st" "f_Nodes (ts_Facts result) = sortedNodes (tv_nodes st)"
    and unlimited: "TruncatedByNodeLimit \<notin> set (ts_TruncationReasons result) \<Longrightarrow>
       unlimited st \<and> complete scoped request ?D (set frontier) st"
    and finished: "ts_TruncationReasons result = [] \<Longrightarrow>
       \<forall>u \<in> set frontier. \<not> hasTraversableNeighbor (incident u) u (tr_Direction request) (tr_Relations request) (tv_nodes st)"
    by (rule traverseGraph_state [OF assms]) blast
  have nodes: "nodesOk scoped request ?D st" using st(1) by (simp add: sound_def)
  have ids: "n_ID ` set (f_Nodes (ts_Facts result)) = keys st" unfolding st(2) by (rule sortedNodes_ids [OF nodes])
  have within: "\<exists>k \<le> ?D. reach node incident scoped request k v" if "v \<in> keys st" for v
    using that nodes by (auto simp: nodesOk_def elim: keysE)
  show "n_ID ` set (f_Nodes (ts_Facts result)) = {v. \<exists>k \<le> ?D. reach node incident scoped request k v}"
    if "TruncatedByNodeLimit \<notin> set (ts_TruncationReasons result)"
    using unlimited [OF that] within unfolding ids by (auto simp: complete_def)
  show "n_ID ` set (f_Nodes (ts_Facts result)) = {v. \<exists>k. reach node incident scoped request k v}"
    if none: "ts_TruncationReasons result = []"
  proof -
    have good: "unlimited st" "complete scoped request ?D (set frontier) st" using unlimited none by auto
    have "v \<in> keys st" if u: "u \<in> set frontier" and v: "neighbour node incident scoped request u v" for u v
    proof (rule ccontr)
      assume "v \<notin> keys st"
      then have "hasTraversableNeighbor (incident u) u (tr_Direction request) (tr_Relations request) (tv_nodes st)"
        using v unfolding hasTraversableNeighbor_def neighbour_def list_ex_iff keys_def by force
      then show False using finished [OF none] u by blast
    qed
    then have "complete scoped request ?D {} st" using good unfolding complete_def by blast
    then show ?thesis
      using complete_closed [OF _ good(1)] within unfolding ids by blast
  qed
qed

end

section \<open>The store as the graph\<close>

interpretation stored: graph_access "readNode db s" "readIncidentEdges db s" for db s
  by unfold_locales (auto simp: readNode_def readIncidentEdges_def dest: find_SomeD)

lemma set_readIncidentEdges: "set (readIncidentEdges db s u) = {e \<in> set (graphEdges db s). e_SourceID e = u \<or> e_TargetID e = u}"
  by (auto simp: readIncidentEdges_def)

lemma readNode_Some_iff: "(\<exists>n. readNode db s v = Some n) \<longleftrightarrow> v \<in> n_ID ` set (graphNodes db s)"
  unfolding readNode_def find_Some_iff_ex by auto

lemma Traverse_Inr:
  assumes "Traverse s request db = Inr result"
  shows "traverseGraph (readNode db s) (readIncidentEdges db s) (readScopedNodeIDs db s (tr_ProjectIDs request)) request = Inr result"
    "0 < tr_MaxNodes request"
  using assms by (auto simp: Traverse_def split: if_splits)

section \<open>The scope\<close>

lemma children_edges: "set (childrenOf pairs u) = set pairs `` {u}"
  by (force simp: childrenOf_def)

lemma scopeLoop_closure:
  "set pairs `` set scoped \<subseteq> set scoped \<union> set frontier \<Longrightarrow>
     set (scopeLoop pairs frontier scoped) = (set pairs)\<^sup>* `` (set frontier \<union> set scoped)"
proof (induction pairs frontier scoped rule: scopeLoop.induct)
  case (1 pairs scoped)
  then show ?case by (simp add: Image_closed_trancl)
next
  case (2 pairs u frontier scoped)
  let ?r = "set pairs"
  show ?case
  proof (cases "u \<in> set scoped")
    case True
    then show ?thesis using 2 by (simp add: insert_absorb)
  next
    case False
    have "set (scopeLoop pairs (frontier @ childrenOf pairs u) (scoped @ [u])) =
        ?r\<^sup>* `` (set (frontier @ childrenOf pairs u) \<union> set (scoped @ [u]))"
      using "2.prems" by (intro "2.IH"(2) [OF False]) (auto simp: children_edges)
    also have "\<dots> = ?r\<^sup>* `` (set (u # frontier) \<union> set scoped)"
      by (auto simp: children_edges Image_def intro: converse_rtrancl_into_rtrancl)
    finally show ?thesis using False by simp
  qed
qed

lemma distinct_scopeLoop: "distinct scoped \<Longrightarrow> distinct (scopeLoop pairs frontier scoped)"
  by (induction pairs frontier scoped rule: scopeLoop.induct) auto

lemma containsEdges_set: "set (containsEdges edges) = {(e_SourceID e, e_TargetID e) | e. e \<in> set edges \<and> e_Relation e = ''contains''}"
  by (auto simp: containsEdges_def)

section \<open>Runs on a small graph\<close>

lemma sample_traverse:
  "Traverse sampleSnapshot (sampleTraversal 1) sampleGraph =
     Inr \<lparr>ts_Facts = \<lparr>f_Nodes = [sampleNode ''a'', sampleNode ''b''], f_Edges = [sampleEdge ''a'' ''calls'' ''b'']\<rparr>,
          ts_TruncationReasons = [TruncatedByDepthLimit], ts_ScopeBoundary = None\<rparr>"
  by code_simp

lemma sample_traverse_all:
  "Traverse sampleSnapshot (sampleTraversal 2) sampleGraph =
     Inr \<lparr>ts_Facts = \<lparr>f_Nodes = map sampleNode [''a'', ''b'', ''c''],
            f_Edges = [sampleEdge ''a'' ''calls'' ''b'', sampleEdge ''b'' ''calls'' ''c'']\<rparr>,
          ts_TruncationReasons = [], ts_ScopeBoundary = None\<rparr>"
  by code_simp

section \<open>Properties\<close>

text \<open>C31. A traversal returns only nodes of the version's graph, sorted and without repetition, at most as many
  as allowed and each at the end of an admissible walk of at most the requested depth from a start
  node; its edges are edges of the graph of the requested relations between returned nodes.\<close>

theorem Traverse_sound:
  assumes "Traverse s request db = Inr result"
  shows "sorted (map n_ID (f_Nodes (ts_Facts result))) \<and> distinct (map n_ID (f_Nodes (ts_Facts result))) \<and>
    int (length (f_Nodes (ts_Facts result))) \<le> tr_MaxNodes request \<and>
    (\<forall>n \<in> set (f_Nodes (ts_Facts result)). n \<in> set (graphNodes db s) \<and>
       (\<exists>k \<le> nat (tr_MaxDepth request). reach (readNode db s) (readIncidentEdges db s)
          (readScopedNodeIDs db s (tr_ProjectIDs request)) request k (n_ID n))) \<and>
    (\<forall>e \<in> set (f_Edges (ts_Facts result)). e \<in> set (graphEdges db s) \<and>
       (tr_Relations request = [] \<or> e_Relation e \<in> set (tr_Relations request)) \<and>
       e_SourceID e \<in> n_ID ` set (f_Nodes (ts_Facts result)) \<and> e_TargetID e \<in> n_ID ` set (f_Nodes (ts_Facts result)))"
proof (intro conjI ballI)
  note facts = stored.traverseGraph_sound [OF Traverse_Inr [OF assms]]
  show "n \<in> set (graphNodes db s)" if "n \<in> set (f_Nodes (ts_Facts result))" for n
    using facts(4) [OF that] by (auto simp: readNode_def dest: find_SomeD)
  show "\<exists>k \<le> nat (tr_MaxDepth request). reach (readNode db s) (readIncidentEdges db s)
          (readScopedNodeIDs db s (tr_ProjectIDs request)) request k (n_ID n)" if "n \<in> set (f_Nodes (ts_Facts result))" for n
    using facts(4) [OF that] by simp
  fix e assume e: "e \<in> set (f_Edges (ts_Facts result))"
  note ok = facts(5) [OF e, unfolded stored.edgeOk_def includesRelation_def]
  show "e \<in> set (graphEdges db s)" using ok by (auto simp: set_readIncidentEdges)
  show "tr_Relations request = [] \<or> e_Relation e \<in> set (tr_Relations request)"
    "e_SourceID e \<in> n_ID ` set (f_Nodes (ts_Facts result))" "e_TargetID e \<in> n_ID ` set (f_Nodes (ts_Facts result))"
    using ok by blast+
qed (use stored.traverseGraph_sound [OF Traverse_Inr [OF assms]] in blast)+

theorem Traverse_sound_witness:
  "n_ID ` set [sampleNode ''a'', sampleNode ''b''] = {''a'', ''b''} \<and>
   list_all (\<lambda>n. n \<in> set (graphNodes sampleGraph sampleSnapshot)) [sampleNode ''a'', sampleNode ''b'']"
  using Traverse_sound [OF sample_traverse] by (simp add: sampleNode_def)

text \<open>C30. A traversal is complete: unless it reports the node limit it returns every node within the requested
  depth, and without any report it returns every node that can be reached at all.\<close>

theorem Traverse_complete:
  assumes "Traverse s request db = Inr result"
  shows "(TruncatedByNodeLimit \<notin> set (ts_TruncationReasons result) \<longrightarrow>
      n_ID ` set (f_Nodes (ts_Facts result)) = {v. \<exists>k \<le> nat (tr_MaxDepth request).
        reach (readNode db s) (readIncidentEdges db s) (readScopedNodeIDs db s (tr_ProjectIDs request)) request k v}) \<and>
    (ts_TruncationReasons result = [] \<longrightarrow>
      n_ID ` set (f_Nodes (ts_Facts result)) = {v. \<exists>k.
        reach (readNode db s) (readIncidentEdges db s) (readScopedNodeIDs db s (tr_ProjectIDs request)) request k v})"
  using stored.traverseGraph_complete [OF Traverse_Inr [OF assms]] by blast

theorem Traverse_complete_witness:
  "{v. \<exists>k. reach (readNode sampleGraph sampleSnapshot) (readIncidentEdges sampleGraph sampleSnapshot) [] (sampleTraversal 2) k v} =
     {''a'', ''b'', ''c''}"
  using Traverse_complete [OF sample_traverse_all, THEN conjunct2]
  by (simp add: sampleTraversal_def readScopedNodeIDs_def sampleNode_def)

text \<open>The project scope is the set of nodes that the given projects contain, directly or indirectly; the
  recursive query and the loop in Go compute the same set.\<close>

theorem readScopedNodeIDs_closure:
  assumes "projectIDs \<noteq> []"
  shows "set (readScopedNodeIDs db s projectIDs) =
      {(e_SourceID e, e_TargetID e) | e. e \<in> set (graphEdges db s) \<and> e_Relation e = ''contains''}\<^sup>* `` set projectIDs \<and>
    set (scopedNodeIDs projectIDs (graphEdges db s)) = set (readScopedNodeIDs db s projectIDs) \<and>
    distinct (readScopedNodeIDs db s projectIDs)"
  using assms by (simp add: readScopedNodeIDs_def scopedNodeIDs_def scopeLoop_closure containsEdges_set distinct_scopeLoop)

theorem readScopedNodeIDs_closure_witness:
  "{(e_SourceID e, e_TargetID e) | e. e \<in> set (graphEdges sampleGraph sampleSnapshot) \<and> e_Relation e = ''contains''}\<^sup>* `` {''a''} = {''a'', ''c''}"
proof -
  have "readScopedNodeIDs sampleGraph sampleSnapshot [''a''] = [''a'', ''c'']" by code_simp
  then show ?thesis using readScopedNodeIDs_closure [of "[''a'']" sampleGraph sampleSnapshot] by simp
qed

end
