(* ===== verification/Query_Path.thy ===== *)
theory Query_Path
  imports Store_Lookup Store_Traverse
begin

text \<open>
  Shortest paths (\<^verbatim>\<open>src/query/path.go\<close>, functions \<^verbatim>\<open>shortestPath\<close>, \<^verbatim>\<open>directedPath\<close> and \<^verbatim>\<open>undirectedPath\<close>): a
  breadth-first search over the facts of a traversal with a map of predecessors, and the
  reconstruction of the path from the target. The search is proved to find a path exactly if there
  is one, and a shortest one. The loop that follows the predecessors back is a partial function; that it
  returns is part of the theorem.
\<close>

record PathResult =
  pr_SourceCandidates :: "Node list"
  pr_SourceRemainderCount :: int
  pr_TargetCandidates :: "Node list"
  pr_TargetRemainderCount :: int
  pr_Nodes :: "Node list"
  pr_Edges :: "Edge list"
  pr_ScopeBoundary :: "Node option"
  pr_UsedUndirectedFallback :: bool
  pr_UndirectedFallbackAttempted :: bool

definition emptyPathResult :: PathResult where
  "emptyPathResult = \<lparr>pr_SourceCandidates = [], pr_SourceRemainderCount = 0, pr_TargetCandidates = [],
     pr_TargetRemainderCount = 0, pr_Nodes = [], pr_Edges = [], pr_ScopeBoundary = None,
     pr_UsedUndirectedFallback = False, pr_UndirectedFallbackAttempted = False\<rparr>"

definition pathEdgeKey :: "Edge \<Rightarrow> str" where
  "pathEdgeKey e = e_SourceID e @ nul @ e_TargetID e @ nul @ e_Relation e"

text \<open>\<^verbatim>\<open>nodes[node.ID] = node\<close> for all nodes: the last of an identity stays.\<close>

definition nodesByID :: "Facts \<Rightarrow> str \<Rightarrow> Node option" where
  "nodesByID facts = map_of (map (\<lambda>n. (n_ID n, n)) (rev (f_Nodes facts)))"

text \<open>A self loop is entered twice in an undirected search.\<close>

definition edgesBySource :: "Facts \<Rightarrow> bool \<Rightarrow> str \<Rightarrow> Edge list" where
  "edgesBySource facts undirected nodeID =
     sort_key pathEdgeKey (concat (map (\<lambda>e.
       (if e_SourceID e = nodeID then [e] else []) @ (if undirected \<and> e_TargetID e = nodeID then [e] else [])) (f_Edges facts)))"

definition pathNeighbor :: "bool \<Rightarrow> str \<Rightarrow> Edge \<Rightarrow> str" where
  "pathNeighbor undirected nodeID e = (if undirected \<and> e_TargetID e = nodeID then e_SourceID e else e_TargetID e)"

text \<open>The variables of the search: queue, nodes seen and predecessors.\<close>

record search =
  q_frontier :: "str list"
  q_seen :: "str list"
  q_pred :: "(str \<times> (str \<times> Edge)) list"

definition searchEdge :: "Facts \<Rightarrow> bool \<Rightarrow> str \<Rightarrow> Edge \<Rightarrow> search \<Rightarrow> search" where
  "searchEdge facts undirected nodeID e st =
     (let v = pathNeighbor undirected nodeID e in
      if nodesByID facts v = None then st
      else if v \<in> set (q_seen st) then st
      else \<lparr>q_frontier = q_frontier st @ [v], q_seen = q_seen st @ [v], q_pred = (v, (nodeID, e)) # q_pred st\<rparr>)"

definition searchNode :: "Facts \<Rightarrow> bool \<Rightarrow> str \<Rightarrow> search \<Rightarrow> search" where
  "searchNode facts undirected nodeID st = fold (searchEdge facts undirected nodeID) (edgesBySource facts undirected nodeID) st"

definition unseen :: "Facts \<Rightarrow> search \<Rightarrow> str set" where
  "unseen facts st = n_ID ` set (f_Nodes facts) - set (q_seen st)"

lemma nodesByID_dom: "nodesByID facts v \<noteq> None \<longleftrightarrow> v \<in> n_ID ` set (f_Nodes facts)"
  by (auto simp: nodesByID_def map_of_eq_None_iff image_iff)

lemma searchEdge_measure:
  "unseen facts (searchEdge facts u n e st) \<subset> unseen facts st \<or> searchEdge facts u n e st = st"
  using nodesByID_dom [of facts "pathNeighbor u n e"] by (auto simp: searchEdge_def unseen_def Let_def)

lemma searchNode_measure:
  "unseen facts (searchNode facts u n st) \<subset> unseen facts st \<or> searchNode facts u n st = st"
proof -
  have "unseen facts (fold (searchEdge facts u n) es st) \<subset> unseen facts st \<or> fold (searchEdge facts u n) es st = st" for es
  proof (induction es arbitrary: st)
    case (Cons e es)
    show ?case
      using searchEdge_measure [of facts u n e st] Cons.IH [of "searchEdge facts u n e st"]
      by (elim disjE) (simp_all add: psubset_trans)
  qed simp
  then show ?thesis by (simp add: searchNode_def)
qed

text \<open>The loop stops when the target leaves the queue or the queue is empty.\<close>

function searchLoop :: "Facts \<Rightarrow> bool \<Rightarrow> str \<Rightarrow> search \<Rightarrow> search" where
  "searchLoop facts undirected targetID st =
     (case q_frontier st of
        [] \<Rightarrow> st
      | nodeID # frontier \<Rightarrow>
          if nodeID = targetID then st\<lparr>q_frontier := frontier\<rparr>
          else searchLoop facts undirected targetID (searchNode facts undirected nodeID (st\<lparr>q_frontier := frontier\<rparr>)))"
  by pat_completeness auto
termination
proof (relation "inv_image (finite_psubset <*lex*> measure length) (\<lambda>(facts, _, _, st). (unseen facts st, q_frontier st))")
  fix facts :: Facts and undirected targetID and st :: search and nodeID frontier
  assume "q_frontier st = nodeID # frontier"
  moreover have "finite (unseen facts st)" by (simp add: unseen_def)
  moreover have "unseen facts (st\<lparr>q_frontier := frontier\<rparr>) = unseen facts st" by (simp add: unseen_def)
  ultimately show "((facts, undirected, targetID, searchNode facts undirected nodeID (st\<lparr>q_frontier := frontier\<rparr>)), facts, undirected, targetID, st)
      \<in> inv_image (finite_psubset <*lex*> measure length) (\<lambda>(facts, _, _, st). (unseen facts st, q_frontier st))"
    using searchNode_measure [of facts undirected nodeID "st\<lparr>q_frontier := frontier\<rparr>"] by (elim disjE) simp_all
qed (simp add: wf_finite_psubset wf_lex_prod)

declare searchLoop.simps [simp del]

text \<open>Following the predecessors from the target: the nodes and edges of the path,
  each put in front of the later ones (the code appends and reverses both lists at the end). A missing predecessor, which the code
  would read as an empty identity, is \<^const>\<open>None\<close>; the theorem below shows that it cannot occur.\<close>

partial_function (option) tracePath ::
  "(str \<Rightarrow> (str \<times> Edge) option) \<Rightarrow> str \<Rightarrow> str \<Rightarrow> str list \<Rightarrow> Edge list \<Rightarrow> (str list \<times> Edge list) option" where
  "tracePath pred sourceID nodeID nodes edges =
     (if nodeID = sourceID then Some (nodes, edges)
      else (case pred nodeID of
              None \<Rightarrow> None
            | Some (u, e) \<Rightarrow> tracePath pred sourceID u (u # nodes) (e # edges)))"

declare tracePath.simps [code]

definition shortestPath :: "Facts \<Rightarrow> str \<Rightarrow> str \<Rightarrow> bool \<Rightarrow> PathResult option" where
  "shortestPath facts sourceID targetID undirected =
     (if nodesByID facts sourceID = None \<or> nodesByID facts targetID = None then Some emptyPathResult
      else let st = searchLoop facts undirected targetID \<lparr>q_frontier = [sourceID], q_seen = [sourceID], q_pred = []\<rparr> in
           if targetID \<notin> set (q_seen st) then Some emptyPathResult
           else map_option (\<lambda>(ids, edges). emptyPathResult\<lparr>pr_Nodes := map (\<lambda>i. the (nodesByID facts i)) ids, pr_Edges := edges\<rparr>)
                  (tracePath (map_of (q_pred st)) sourceID targetID [targetID] []))"

definition directedPath :: "Facts \<Rightarrow> str \<Rightarrow> str \<Rightarrow> PathResult option" where
  "directedPath facts sourceID targetID = shortestPath facts sourceID targetID False"

definition undirectedPath :: "Facts \<Rightarrow> str \<Rightarrow> str \<Rightarrow> PathResult option" where
  "undirectedPath facts sourceID targetID = shortestPath facts sourceID targetID True"

section \<open>Specification\<close>

definition pathStep :: "Facts \<Rightarrow> bool \<Rightarrow> str \<Rightarrow> Edge \<Rightarrow> str \<Rightarrow> bool" where
  "pathStep facts undirected u e v \<longleftrightarrow>
     e \<in> set (f_Edges facts) \<and> v \<in> n_ID ` set (f_Nodes facts) \<and>
     (e_SourceID e = u \<and> e_TargetID e = v \<or> undirected \<and> e_TargetID e = u \<and> e_SourceID e = v)"

text \<open>A walk: the nodes it visits, one more than its edges.\<close>

fun isWalk :: "Facts \<Rightarrow> bool \<Rightarrow> str list \<Rightarrow> Edge list \<Rightarrow> bool" where
  "isWalk facts undirected [u] [] = True"
| "isWalk facts undirected (u # v # ids) (e # edges) =
     (pathStep facts undirected u e v \<and> isWalk facts undirected (v # ids) edges)"
| "isWalk facts undirected _ _ = False"

inductive walks :: "Facts \<Rightarrow> bool \<Rightarrow> str \<Rightarrow> nat \<Rightarrow> str \<Rightarrow> bool" for facts undirected a where
  here: "walks facts undirected a 0 a"
| there: "walks facts undirected a k u \<Longrightarrow> pathStep facts undirected u e v \<Longrightarrow> walks facts undirected a (Suc k) v"

lemma isWalk_walks:
  "isWalk facts undirected ids edges \<Longrightarrow> walks facts undirected a k (hd ids) \<Longrightarrow>
     walks facts undirected a (k + length edges) (last ids)"
proof (induction facts undirected ids edges arbitrary: k rule: isWalk.induct)
  case (2 facts undirected u v ids e edges)
  then have "walks facts undirected a (Suc k) v" by (auto intro: walks.there)
  with 2 show ?case by fastforce
qed auto

lemma nodesByID_None: "nodesByID facts v = None \<longleftrightarrow> v \<notin> n_ID ` set (f_Nodes facts)"
  using nodesByID_dom [of facts v] by blast

lemma set_edgesBySource:
  "set (edgesBySource facts undirected u) = {e \<in> set (f_Edges facts). e_SourceID e = u \<or> undirected \<and> e_TargetID e = u}"
  by (auto simp: edgesBySource_def)

lemma edge_step:
  "e \<in> set (edgesBySource facts undirected u) \<Longrightarrow> pathNeighbor undirected u e \<in> n_ID ` set (f_Nodes facts) \<Longrightarrow>
     pathStep facts undirected u e (pathNeighbor undirected u e)"
  by (auto simp: pathStep_def pathNeighbor_def set_edgesBySource split: if_splits)

lemma step_edge:
  "pathStep facts undirected u e v \<Longrightarrow> \<exists>e' \<in> set (edgesBySource facts undirected u). pathNeighbor undirected u e' = v"
  by (auto simp: pathStep_def pathNeighbor_def set_edgesBySource intro!: bexI [of _ e])

section \<open>The search\<close>

text \<open>Everything seen hangs in a tree over the source, \<open>d\<close> giving the depth.\<close>

definition searchTree :: "Facts \<Rightarrow> bool \<Rightarrow> str \<Rightarrow> (str \<Rightarrow> nat) \<Rightarrow> search \<Rightarrow> bool" where
  "searchTree facts undirected a d st \<longleftrightarrow>
     a \<in> set (q_seen st) \<and> d a = 0 \<and> set (q_frontier st) \<subseteq> set (q_seen st) \<and> distinct (q_frontier st) \<and>
     (\<forall>v \<in> set (q_seen st). v \<noteq> a \<longrightarrow>
        (\<exists>u e. map_of (q_pred st) v = Some (u, e) \<and> u \<in> set (q_seen st) \<and> pathStep facts undirected u e v \<and> d v = Suc (d u)))"

text \<open>The queue is ordered by depth and spans at most two levels from \<open>m\<close> on; whatever left it lies no deeper.\<close>

definition searchOrder :: "(str \<Rightarrow> nat) \<Rightarrow> nat \<Rightarrow> search \<Rightarrow> bool" where
  "searchOrder d m st \<longleftrightarrow>
     sorted (map d (q_frontier st)) \<and>
     (\<forall>x \<in> set (q_frontier st). m \<le> d x \<and> d x \<le> Suc m) \<and>
     (\<forall>u \<in> set (q_seen st). u \<notin> set (q_frontier st) \<longrightarrow> d u \<le> m)"

text \<open>Nodes that left the queue, except those being expanded, have all their neighbours seen.\<close>

definition expanded :: "Facts \<Rightarrow> bool \<Rightarrow> (str \<Rightarrow> nat) \<Rightarrow> str set \<Rightarrow> search \<Rightarrow> bool" where
  "expanded facts undirected d active st \<longleftrightarrow>
     (\<forall>u \<in> set (q_seen st). u \<notin> set (q_frontier st) \<longrightarrow> u \<notin> active \<longrightarrow>
        (\<forall>e v. pathStep facts undirected u e v \<longrightarrow> v \<in> set (q_seen st) \<and> d v \<le> Suc (d u)))"

definition searching :: "Facts \<Rightarrow> bool \<Rightarrow> str \<Rightarrow> str set \<Rightarrow> (str \<Rightarrow> nat) \<Rightarrow> nat \<Rightarrow> search \<Rightarrow> bool" where
  "searching facts undirected a active d m st \<longleftrightarrow>
     searchTree facts undirected a d st \<and> searchOrder d m st \<and> expanded facts undirected d active st"

lemma searchOrder_bound: "searchOrder d m st \<Longrightarrow> v \<in> set (q_seen st) \<Longrightarrow> d v \<le> Suc m"
  by (cases "v \<in> set (q_frontier st)") (auto simp: searchOrder_def le_SucI)

lemma searching_edge:
  assumes inv: "searching facts undirected a {u} d m st" and u: "u \<in> set (q_seen st)" "u \<notin> set (q_frontier st)" "d u = m"
    and e: "e \<in> set (edgesBySource facts undirected u)"
  defines "v \<equiv> pathNeighbor undirected u e" and "st' \<equiv> searchEdge facts undirected u e st"
  obtains d' where "searching facts undirected a {u} d' m st'" "\<And>x. x \<in> set (q_seen st) \<Longrightarrow> d' x = d x"
    "set (q_seen st) \<subseteq> set (q_seen st')" "u \<notin> set (q_frontier st')"
    "v \<in> n_ID ` set (f_Nodes facts) \<Longrightarrow> v \<in> set (q_seen st')"
proof (cases "v \<in> n_ID ` set (f_Nodes facts) \<and> v \<notin> set (q_seen st)")
  case False
  then have "st' = st" by (auto simp: st'_def searchEdge_def Let_def nodesByID_None v_def)
  with False inv u(2) show ?thesis by (intro that [of d]) auto
next
  case True
  have st': "st' = \<lparr>q_frontier = q_frontier st @ [v], q_seen = q_seen st @ [v], q_pred = (v, (u, e)) # q_pred st\<rparr>"
    using True by (simp add: st'_def searchEdge_def Let_def nodesByID_None v_def)
  define d' where "d' = d(v := Suc m)"
  have same: "d' x = d x" if "x \<in> set (q_seen st)" for x using that True by (auto simp: d'_def)
  have frontier: "set (q_frontier st) \<subseteq> set (q_seen st)" "a \<in> set (q_seen st)" "d a = 0" "distinct (q_frontier st)"
    using inv by (auto simp: searching_def searchTree_def)
  have step: "pathStep facts undirected u e v" using edge_step [OF e] True by (simp add: v_def)
  have "searchTree facts undirected a d' st'"
  proof -
    have "\<exists>u' e'. map_of (q_pred st') x = Some (u', e') \<and> u' \<in> set (q_seen st') \<and> pathStep facts undirected u' e' x \<and> d' x = Suc (d' u')"
      if x: "x \<in> set (q_seen st')" "x \<noteq> a" for x
    proof (cases "x = v")
      case True
      then show ?thesis using step u(1,3) same by (auto simp: st' d'_def)
    next
      case False
      then have "x \<in> set (q_seen st)" using x(1) by (simp add: st')
      with inv x(2) obtain u' e' where "map_of (q_pred st) x = Some (u', e')" "u' \<in> set (q_seen st)"
          "pathStep facts undirected u' e' x" "d x = Suc (d u')"
        unfolding searching_def searchTree_def by blast
      then show ?thesis using False same \<open>x \<in> set (q_seen st)\<close> by (auto simp: st')
    qed
    then show ?thesis using frontier same True by (auto simp: searchTree_def st')
  qed
  moreover have "searchOrder d' m st'"
  proof -
    have "map d' (q_frontier st) = map d (q_frontier st)" using same frontier(1) by auto
    moreover have "searchOrder d m st" using inv by (simp add: searching_def)
    ultimately show ?thesis
      using same frontier(1) by (auto simp: searchOrder_def st' sorted_append d'_def simp del: map_eq_conv)
  qed
  moreover have "expanded facts undirected d' {u} st'"
    using inv same by (fastforce simp: searching_def expanded_def st')
  ultimately show ?thesis
    using same u(2) True u(1) by (intro that [of d']) (auto simp: searching_def st')
qed

lemma searching_edges:
  assumes "searching facts undirected a {u} d m st" "u \<in> set (q_seen st)" "u \<notin> set (q_frontier st)" "d u = m"
    "set es \<subseteq> set (edgesBySource facts undirected u)"
  shows "\<exists>d'. searching facts undirected a {u} d' m (fold (searchEdge facts undirected u) es st) \<and> d' u = m \<and>
    set (q_seen st) \<subseteq> set (q_seen (fold (searchEdge facts undirected u) es st)) \<and>
    u \<notin> set (q_frontier (fold (searchEdge facts undirected u) es st)) \<and>
    (\<forall>e \<in> set es. pathNeighbor undirected u e \<in> n_ID ` set (f_Nodes facts) \<longrightarrow>
       pathNeighbor undirected u e \<in> set (q_seen (fold (searchEdge facts undirected u) es st)))"
  using assms
proof (induction es arbitrary: d st)
  case (Cons e es)
  let ?st = "searchEdge facts undirected u e st"
  from Cons.prems(5) have "e \<in> set (edgesBySource facts undirected u)" by simp
  from searching_edge [OF Cons.prems(1-4) this] obtain d1 where d1: "searching facts undirected a {u} d1 m ?st"
      "\<And>x. x \<in> set (q_seen st) \<Longrightarrow> d1 x = d x" "set (q_seen st) \<subseteq> set (q_seen ?st)" "u \<notin> set (q_frontier ?st)"
      "pathNeighbor undirected u e \<in> n_ID ` set (f_Nodes facts) \<Longrightarrow> pathNeighbor undirected u e \<in> set (q_seen ?st)"
    by blast
  have "u \<in> set (q_seen ?st)" "d1 u = m" "set es \<subseteq> set (edgesBySource facts undirected u)"
    using d1(2,3) Cons.prems(2,4,5) by auto
  from Cons.IH [OF d1(1) this(1) d1(4) this(2,3)] show ?case
    using d1(3,5) by (simp only: fold_simps list.set ball_simps) blast
qed auto

lemma searching_node:
  assumes inv: "searching facts undirected a {} d m st" and head: "q_frontier st = u # frontier"
  shows "\<exists>d'. searching facts undirected a {} d' (d u) (searchNode facts undirected u (st\<lparr>q_frontier := frontier\<rparr>))"
proof -
  let ?st = "st\<lparr>q_frontier := frontier\<rparr>" and ?st' = "searchNode facts undirected u (st\<lparr>q_frontier := frontier\<rparr>)"
  have u: "u \<in> set (q_seen st)" using inv head by (auto simp: searching_def searchTree_def)
  have fresh: "u \<notin> set frontier" using inv head by (auto simp: searching_def searchTree_def)
  have "searchTree facts undirected a d ?st" using inv head by (auto simp: searching_def searchTree_def)
  moreover have "searchOrder d (d u) ?st" using inv head by (fastforce simp: searching_def searchOrder_def)
  moreover have "expanded facts undirected d {u} ?st" using inv head by (auto simp: searching_def expanded_def)
  ultimately have "searching facts undirected a {u} d (d u) ?st" by (simp add: searching_def)
  from searching_edges [OF this, of "edgesBySource facts undirected u"] u fresh obtain d' where
    d': "searching facts undirected a {u} d' (d u) ?st'" "d' u = d u"
      "\<forall>e \<in> set (edgesBySource facts undirected u). pathNeighbor undirected u e \<in> n_ID ` set (f_Nodes facts) \<longrightarrow>
        pathNeighbor undirected u e \<in> set (q_seen ?st')"
    by (auto simp: searchNode_def)
  have "v \<in> set (q_seen ?st') \<and> d' v \<le> Suc (d' u)" if "pathStep facts undirected u e v" for e v
  proof -
    have "v \<in> set (q_seen ?st')"
      using step_edge [OF that] d'(3) that by (auto simp: pathStep_def)
    then show ?thesis using d'(1,2) searchOrder_bound by (auto simp: searching_def)
  qed
  then have "searching facts undirected a {} d' (d u) ?st'"
    using d'(1) unfolding searching_def expanded_def by (metis singletonD)
  then show ?thesis by (rule exI [of _ d'])
qed

lemma searching_shortest:
  assumes "searching facts undirected a {} d m st" "walks facts undirected a k v"
  shows "v \<in> set (q_seen st) \<and> d v \<le> k \<or> (\<exists>x \<in> set (q_frontier st). d x < k)"
  using assms(2)
proof (induction rule: walks.induct)
  case here
  then show ?case using assms(1) by (auto simp: searching_def searchTree_def)
next
  case (there k u e v)
  show ?case
  proof (cases "\<exists>x \<in> set (q_frontier st). d x < Suc k")
    case False
    then have u: "u \<in> set (q_seen st)" "d u \<le> k" "u \<notin> set (q_frontier st)" using there.IH by (auto simp: less_Suc_eq_le)
    then have "v \<in> set (q_seen st) \<and> d v \<le> Suc (d u)"
      using assms(1) there.hyps(2) unfolding searching_def expanded_def by blast
    with u(2) show ?thesis by simp
  qed simp
qed

lemma searchLoop_correct:
  assumes "searching facts undirected a {} d m st"
  shows "\<exists>d'. searchTree facts undirected a d' (searchLoop facts undirected b st) \<and>
    (\<forall>k. walks facts undirected a k b \<longrightarrow> b \<in> set (q_seen (searchLoop facts undirected b st)) \<and> d' b \<le> k)"
  using assms
proof (induction facts undirected b st arbitrary: d m rule: searchLoop.induct)
  case (1 facts undirected b st)
  note shortest = searching_shortest [OF "1.prems"]
  show ?case
  proof (cases "q_frontier st")
    case Nil
    then show ?thesis
      using shortest "1.prems" by (subst (1 2) searchLoop.simps) (auto simp: searching_def intro!: exI [of _ d])
  next
    case (Cons u frontier)
    show ?thesis
    proof (cases "u = b")
      case True
      have "searchTree facts undirected a d (st\<lparr>q_frontier := frontier\<rparr>)" "b \<in> set (q_seen st)"
        using "1.prems" Cons True by (auto simp: searching_def searchTree_def)
      moreover have "d b \<le> d x" if "x \<in> set (q_frontier st)" for x
        using "1.prems" Cons True that by (auto simp: searching_def searchOrder_def)
      then have "d b \<le> k" if "walks facts undirected a k b" for k
        using shortest [OF that] by (meson less_imp_le_nat order_trans)
      ultimately show ?thesis
        using Cons True by (subst (1 2) searchLoop.simps) (auto intro!: exI [of _ d])
    next
      case False
      obtain d' where "searching facts undirected a {} d' (d u) (searchNode facts undirected u (st\<lparr>q_frontier := frontier\<rparr>))"
        using searching_node [OF "1.prems" Cons] by blast
      from "1.IH" [OF Cons False this] show ?thesis
        using Cons False by (subst (1 2) searchLoop.simps) simp
    qed
  qed
qed

section \<open>The path\<close>

lemma tracePath_correct:
  assumes "searchTree facts undirected a d st" "v \<in> set (q_seen st)" "isWalk facts undirected (v # ids) edges"
  shows "\<exists>ids' edges'. tracePath (map_of (q_pred st)) a v (v # ids) edges = Some (ids', edges') \<and>
    isWalk facts undirected ids' edges' \<and> hd ids' = a \<and> last ids' = last (v # ids) \<and>
    length edges' = d v + length edges \<and> set ids' \<subseteq> set (q_seen st) \<union> set ids"
  using assms(2,3)
proof (induction "d v" arbitrary: v ids edges)
  case 0
  then have "v = a" using assms(1) by (fastforce simp: searchTree_def)
  then show ?case using 0 by (subst tracePath.simps) (auto simp: searchTree_def)
next
  case (Suc n)
  have "v \<noteq> a" using Suc.hyps(2) assms(1) by (auto simp: searchTree_def)
  then obtain u e where u: "map_of (q_pred st) v = Some (u, e)" "u \<in> set (q_seen st)" "pathStep facts undirected u e v" "d v = Suc (d u)"
    using assms(1) Suc.prems(1) unfolding searchTree_def by blast
  have "n = d u" "isWalk facts undirected (u # v # ids) (e # edges)" using u Suc by auto
  from Suc.hyps(1) [OF this(1) u(2) this(2)] show ?case
    using \<open>v \<noteq> a\<close> u Suc.prems(1) by (subst tracePath.simps) fastforce
qed

lemma searching_start:
  "searching facts undirected a {} (\<lambda>_. 0) 0 \<lparr>q_frontier = [a], q_seen = [a], q_pred = []\<rparr>"
  by (simp add: searching_def searchTree_def searchOrder_def expanded_def)

lemma the_nodesByID:
  assumes "v \<in> n_ID ` set (f_Nodes facts)"
  shows "n_ID (the (nodesByID facts v)) = v" "the (nodesByID facts v) \<in> set (f_Nodes facts)"
proof -
  obtain n where n: "nodesByID facts v = Some n" using assms nodesByID_None by (cases "nodesByID facts v") auto
  then have "(v, n) \<in> set (map (\<lambda>n. (n_ID n, n)) (rev (f_Nodes facts)))" by (auto simp: nodesByID_def dest: map_of_SomeD)
  then show "n_ID (the (nodesByID facts v)) = v" "the (nodesByID facts v) \<in> set (f_Nodes facts)" using n by auto
qed

lemma searchTree_nodes:
  "searchTree facts undirected a d st \<Longrightarrow> a \<in> n_ID ` set (f_Nodes facts) \<Longrightarrow> set (q_seen st) \<subseteq> n_ID ` set (f_Nodes facts)"
  by (fastforce simp: searchTree_def pathStep_def)

text \<open>With both endpoints present, the search decides whether there is a walk, and the path is a shortest one.\<close>

lemma shortestPath_endpoints:
  assumes a: "a \<in> n_ID ` set (f_Nodes facts)" and b: "b \<in> n_ID ` set (f_Nodes facts)"
  shows "(\<nexists>k. walks facts undirected a k b) \<and> shortestPath facts a b undirected = Some emptyPathResult \<or>
    (\<exists>ids edges. shortestPath facts a b undirected =
         Some (emptyPathResult\<lparr>pr_Nodes := map (\<lambda>i. the (nodesByID facts i)) ids, pr_Edges := edges\<rparr>) \<and>
       isWalk facts undirected ids edges \<and> hd ids = a \<and> last ids = b \<and> set ids \<subseteq> n_ID ` set (f_Nodes facts) \<and>
       (\<forall>k. walks facts undirected a k b \<longrightarrow> length edges \<le> k))"
proof -
  define st where "st = searchLoop facts undirected b \<lparr>q_frontier = [a], q_seen = [a], q_pred = []\<rparr>"
  obtain d where d: "searchTree facts undirected a d st"
      "\<forall>k. walks facts undirected a k b \<longrightarrow> b \<in> set (q_seen st) \<and> d b \<le> k"
    using searchLoop_correct [OF searching_start, of facts undirected a b] by (auto simp: st_def)
  have ends: "nodesByID facts a \<noteq> None" "nodesByID facts b \<noteq> None" using a b nodesByID_dom by blast+
  show ?thesis
  proof (cases "b \<in> set (q_seen st)")
    case False
    then have "shortestPath facts a b undirected = Some emptyPathResult"
      using ends by (simp add: shortestPath_def st_def [symmetric])
    then show ?thesis using d(2) False by blast
  next
    case True
    from tracePath_correct [OF d(1) True, of "[]" "[]"] obtain ids edges where t:
      "tracePath (map_of (q_pred st)) a b [b] [] = Some (ids, edges)" "isWalk facts undirected ids edges"
      "hd ids = a" "last ids = b" "length edges = d b" "set ids \<subseteq> set (q_seen st)" by auto
    have "shortestPath facts a b undirected =
        Some (emptyPathResult\<lparr>pr_Nodes := map (\<lambda>i. the (nodesByID facts i)) ids, pr_Edges := edges\<rparr>)"
      using ends True by (auto simp: shortestPath_def st_def [symmetric] t(1))
    moreover have "set ids \<subseteq> n_ID ` set (f_Nodes facts)" using t(6) searchTree_nodes [OF d(1) a] by blast
    moreover have "\<forall>k. walks facts undirected a k b \<longrightarrow> length edges \<le> k" using t(5) d(2) by simp
    ultimately show ?thesis using t(2-4) by (intro disjI2 exI conjI)
  qed
qed

lemma isWalk_nonempty: "isWalk facts undirected ids edges \<Longrightarrow> ids \<noteq> []"
  by (cases ids) auto

text \<open>The path search always returns. It returns no nodes exactly if an endpoint is not among the facts or no walk leads
  from the source to the target. Otherwise its nodes are facts, its nodes and edges form a walk from the source to the target along
  the edges of the facts (in either direction in the undirected search), and no walk has fewer edges.\<close>

theorem shortestPath_correct:
  "\<exists>r. shortestPath facts a b undirected = Some r \<and>
     (pr_Nodes r = [] \<longleftrightarrow> a \<notin> n_ID ` set (f_Nodes facts) \<or> b \<notin> n_ID ` set (f_Nodes facts) \<or> (\<nexists>k. walks facts undirected a k b)) \<and>
     (pr_Nodes r \<noteq> [] \<longrightarrow>
        set (pr_Nodes r) \<subseteq> set (f_Nodes facts) \<and>
        isWalk facts undirected (map n_ID (pr_Nodes r)) (pr_Edges r) \<and>
        n_ID (hd (pr_Nodes r)) = a \<and> n_ID (last (pr_Nodes r)) = b \<and>
        (\<forall>k. walks facts undirected a k b \<longrightarrow> length (pr_Edges r) \<le> k))"
proof (cases "a \<in> n_ID ` set (f_Nodes facts) \<and> b \<in> n_ID ` set (f_Nodes facts)")
  case False
  then have "shortestPath facts a b undirected = Some emptyPathResult" by (auto simp: shortestPath_def nodesByID_None)
  then show ?thesis using False by (auto simp: emptyPathResult_def)
next
  case True
  then consider (none) "\<nexists>k. walks facts undirected a k b" "shortestPath facts a b undirected = Some emptyPathResult"
    | (path) ids edges where "shortestPath facts a b undirected =
         Some (emptyPathResult\<lparr>pr_Nodes := map (\<lambda>i. the (nodesByID facts i)) ids, pr_Edges := edges\<rparr>)"
       "isWalk facts undirected ids edges" "hd ids = a" "last ids = b" "set ids \<subseteq> n_ID ` set (f_Nodes facts)"
       "\<forall>k. walks facts undirected a k b \<longrightarrow> length edges \<le> k"
    using shortestPath_endpoints [of a facts b undirected] by blast
  then show ?thesis
  proof cases
    case none
    then show ?thesis by (simp add: emptyPathResult_def)
  next
    case path
    let ?r = "emptyPathResult\<lparr>pr_Nodes := map (\<lambda>i. the (nodesByID facts i)) ids, pr_Edges := edges\<rparr>"
    have ids: "ids \<noteq> []" using isWalk_nonempty path(2) .
    have same: "map n_ID (pr_Nodes ?r) = ids"
      using path(5) the_nodesByID(1) by (auto simp: comp_def intro!: map_idI)
    have nodes: "set (pr_Nodes ?r) \<subseteq> set (f_Nodes facts)" using path(5) the_nodesByID(2) by auto
    have "walks facts undirected a (0 + length edges) b"
      using isWalk_walks [OF path(2), of a 0] path(3,4) walks.here by simp
    moreover have "n_ID (hd (pr_Nodes ?r)) = a" "n_ID (last (pr_Nodes ?r)) = b" "pr_Nodes ?r \<noteq> []"
      using ids same path(3,4) by (metis hd_map last_map list.map_disc_iff)+
    ultimately show ?thesis using path(1,2,6) same nodes True by (intro exI [of _ ?r]) auto
  qed
qed

definition samplePath :: Facts where
  "samplePath = \<lparr>f_Nodes = map sampleNode [''a'', ''b'', ''c'', ''d''],
     f_Edges = [sampleEdge ''a'' ''calls'' ''b'', sampleEdge ''b'' ''calls'' ''c'', sampleEdge ''c'' ''calls'' ''d'', sampleEdge ''a'' ''calls'' ''c'']\<rparr>"

lemma samplePath_found:
  "map_option (\<lambda>r. (map n_ID (pr_Nodes r), length (pr_Edges r))) (shortestPath samplePath ''a'' ''d'' False) =
     Some ([''a'', ''c'', ''d''], 2)"
  by code_simp

theorem shortestPath_correct_witness:
  "map_option (\<lambda>r. (map n_ID (pr_Nodes r), length (pr_Edges r))) (shortestPath samplePath ''a'' ''d'' False) =
     Some ([''a'', ''c'', ''d''], 2) \<and>
   \<not> walks samplePath False ''a'' 1 ''d''"
  using shortestPath_correct [of samplePath "''a''" "''d''" False] samplePath_found by fastforce

end
