(* ===== verification/Query_Search.thy ===== *)
theory Query_Search
  imports Query_Path
begin

text \<open>
  Queries over a published snapshot (\<^verbatim>\<open>src/query/query.go\<close>, \<^verbatim>\<open>src/query/rank.go\<close> and the rest of
  \<^verbatim>\<open>src/query/path.go\<close>): ranking of search terms, the query that traverses from the ranked seeds, the
  explanation of a term and the search for a path between two named nodes. The storage interfaces a query
  is given are values; a nil interface is \<^const>\<open>None\<close>, and so is a lookup that does not support exact
  matches. The in-memory ranking works on ASCII text.
\<close>

section \<open>Interfaces\<close>

record NodeLookup =
  lk_LookupNodes :: "Snapshot \<Rightarrow> NodeLookupRequest \<Rightarrow> storage_error + NodeMatch list"
  lk_LookupExactNodes :: "(Snapshot \<Rightarrow> str \<Rightarrow> storage_error + NodeMatch list) option"

type_synonym Traverser = "Snapshot \<Rightarrow> TraversalRequest \<Rightarrow> storage_error + TraversalResult"
type_synonym Explainer = "Snapshot \<Rightarrow> str \<Rightarrow> explain_error + Explanation"

datatype query_error =
  LookupRequired | TraverserRequired | ExplainerRequired | InvalidQuery
  | QueryStorage storage_error | QueryExplain explain_error

definition storageResult :: "storage_error + 'a \<Rightarrow> query_error + 'a" where
  "storageResult r = (case r of Inl err \<Rightarrow> Inl (QueryStorage err) | Inr x \<Rightarrow> Inr x)"

definition maxSeedsPerTerm :: nat where
  "maxSeedsPerTerm = 3"

section \<open>Ranking in memory\<close>

record SeedSet =
  ss_Term :: str
  ss_Nodes :: "Node list"

definition tokenChar :: "char \<Rightarrow> bool" where
  "tokenChar c \<longleftrightarrow> (CHR ''a'' \<le> c \<and> c \<le> CHR ''z'') \<or> (CHR ''A'' \<le> c \<and> c \<le> CHR ''Z'') \<or> (CHR ''0'' \<le> c \<and> c \<le> CHR ''9'')"

text \<open>\<^verbatim>\<open>strings.FieldsFunc\<close>: the maximal runs of characters that are not separators.\<close>

fun fields :: "str \<Rightarrow> str \<Rightarrow> str list" where
  "fields [] run = (if run = [] then [] else [run])"
| "fields (c # s) run =
     (if tokenChar c then fields s (run @ [c])
      else if run = [] then fields s [] else run # fields s [])"

definition hasTokenPrefix :: "str \<Rightarrow> str \<Rightarrow> bool" where
  "hasTokenPrefix val term = list_ex (\<lambda>token. HasPrefix (ToLower token) term) (fields val [])"

definition matchRank :: "Node \<Rightarrow> str \<Rightarrow> nat option" where
  "matchRank node term =
     (if n_ID node = term then Some 0
      else if n_QualifiedName node = term then Some 1
      else if n_Label node = term then Some 2
      else let query = ToLower term in
        if HasPrefix (ToLower (n_Label node)) query \<or> hasTokenPrefix (n_Label node) query \<or> hasTokenPrefix (n_QualifiedName node) query
        then Some 3
        else if ContainsStr (ToLower (sp_Path (ev_Span (n_Evidence node)))) query then Some 4
        else if ContainsStr (ToLower (n_ID node)) query \<or> ContainsStr (ToLower (n_QualifiedName node)) query \<or>
            ContainsStr (ToLower (n_Label node)) query
        then Some 5
        else None)"

text \<open>The loop that keeps the first match of every identity.\<close>

fun firstOfID :: "Node list \<Rightarrow> str list \<Rightarrow> Node list" where
  "firstOfID [] seen = []"
| "firstOfID (n # ns) seen = (if n_ID n \<in> set seen then firstOfID ns seen else n # firstOfID ns (n_ID n # seen))"

definition rankTermMatches :: "Node list \<Rightarrow> str \<Rightarrow> Node list" where
  "rankTermMatches nodes term =
     (if term = [] then []
      else firstOfID
             (sort_key (\<lambda>n. the (matchRank n term)) (sort_key nameColumns (filter (\<lambda>n. matchRank n term \<noteq> None) nodes))) [])"

definition rankTerm :: "Node list \<Rightarrow> str \<Rightarrow> Node list" where
  "rankTerm nodes term = take maxSeedsPerTerm (rankTermMatches nodes term)"

definition Rank :: "Node list \<Rightarrow> str list \<Rightarrow> SeedSet list" where
  "Rank nodes terms = map (\<lambda>term. \<lparr>ss_Term = term, ss_Nodes = rankTerm nodes term\<rparr>) terms"

section \<open>Lookup of terms\<close>

definition lookupTermMatches :: "NodeLookup \<Rightarrow> Snapshot \<Rightarrow> str \<Rightarrow> nat \<Rightarrow> storage_error + NodeMatch list" where
  "lookupTermMatches lookup snapshot term limit =
     (let ranked = lk_LookupNodes lookup snapshot \<lparr>nl_Text = term, nl_Kinds = [], nl_ProjectIDs = [], nl_Limit = int limit\<rparr> in
      case lk_LookupExactNodes lookup of
        None \<Rightarrow> ranked
      | Some exact \<Rightarrow>
          (case exact snapshot term of
             Inl err \<Rightarrow> Inl err
           | Inr matches \<Rightarrow> if matches \<noteq> [] then Inr (take limit matches) else ranked))"

definition RankSnapshot :: "NodeLookup option \<Rightarrow> Snapshot \<Rightarrow> str list \<Rightarrow> query_error + SeedSet list" where
  "RankSnapshot lookup snapshot terms =
     (case lookup of
        None \<Rightarrow> Inl LookupRequired
      | Some lookup \<Rightarrow>
          mapE (\<lambda>term. bindE (storageResult (lookupTermMatches lookup snapshot term maxSeedsPerTerm)) (\<lambda>matches.
             Inr \<lparr>ss_Term = term, ss_Nodes = map nm_Node matches\<rparr>)) terms)"

section \<open>Query\<close>

record Request =
  rq_Terms :: "str list"
  rq_ProjectIDs :: "str list"
  rq_Relations :: "str list"
  rq_MaxDepth :: int
  rq_MaxNodes :: int

record Result =
  rs_Seeds :: "SeedSet list"
  rs_Facts :: Facts
  rs_TruncationReasons :: "TruncationReason list"
  rs_ScopeBoundary :: "Node option"

definition seedIDs :: "SeedSet list \<Rightarrow> str list" where
  "seedIDs seeds = concat (map (\<lambda>seedSet. map n_ID (ss_Nodes seedSet)) seeds)"

definition queryTraversal :: "Request \<Rightarrow> SeedSet list \<Rightarrow> TraversalRequest" where
  "queryTraversal request seeds =
     \<lparr>tr_StartNodeIDs = seedIDs seeds, tr_ProjectIDs = rq_ProjectIDs request, tr_Direction = TraverseOutgoing,
      tr_Relations = rq_Relations request, tr_MaxDepth = rq_MaxDepth request, tr_MaxNodes = rq_MaxNodes request\<rparr>"

definition QuerySnapshot :: "NodeLookup option \<Rightarrow> Traverser option \<Rightarrow> Snapshot \<Rightarrow> Request \<Rightarrow> query_error + Result" where
  "QuerySnapshot lookup traverser snapshot request =
     (if lookup = None then Inl LookupRequired
      else case traverser of
        None \<Rightarrow> Inl TraverserRequired
      | Some traverse \<Rightarrow>
          if rq_Terms request = [] \<or> rq_MaxDepth request < 0 \<or> rq_MaxNodes request \<le> 0 then Inl InvalidQuery
          else bindE (RankSnapshot lookup snapshot (rq_Terms request)) (\<lambda>seeds.
            if seedIDs seeds = []
            then Inr \<lparr>rs_Seeds = seeds, rs_Facts = \<lparr>f_Nodes = [], f_Edges = []\<rparr>, rs_TruncationReasons = [], rs_ScopeBoundary = None\<rparr>
            else bindE (storageResult (traverse snapshot (queryTraversal request seeds)))
              (\<lambda>traversal. Inr \<lparr>rs_Seeds = seeds, rs_Facts = ts_Facts traversal,
                 rs_TruncationReasons = ts_TruncationReasons traversal, rs_ScopeBoundary = ts_ScopeBoundary traversal\<rparr>)))"

section \<open>Explanation of a term\<close>

record ExplainResult =
  er_Candidates :: "Node list"
  er_RemainderCount :: int
  er_Explanation :: "Explanation option"

definition ExplainSnapshot :: "NodeLookup option \<Rightarrow> Explainer option \<Rightarrow> Snapshot \<Rightarrow> str \<Rightarrow> query_error + ExplainResult" where
  "ExplainSnapshot lookup explainer snapshot term =
     (case explainer of
        None \<Rightarrow> Inl ExplainerRequired
      | Some explain \<Rightarrow>
          (case lookup of
             None \<Rightarrow> Inl LookupRequired
           | Some lookup \<Rightarrow>
               bindE (storageResult (lookupTermMatches lookup snapshot term (maxSeedsPerTerm + 1))) (\<lambda>matches.
                 let candidates = map nm_Node matches in
                 if length candidates \<noteq> 1
                 then Inr \<lparr>er_Candidates = take maxSeedsPerTerm candidates,
                           er_RemainderCount = max 0 (int (length candidates) - int maxSeedsPerTerm), er_Explanation = None\<rparr>
                 else (case explain snapshot (n_ID (hd candidates)) of
                         Inl err \<Rightarrow> Inl (QueryExplain err)
                       | Inr explanation \<Rightarrow>
                           Inr \<lparr>er_Candidates = [], er_RemainderCount = 0, er_Explanation = Some explanation\<rparr>))))"

section \<open>Paths between named nodes\<close>

record PathRequest =
  pq_Source :: str
  pq_Target :: str
  pq_AllowUndirectedFallback :: bool
  pq_ProjectIDs :: "str list"
  pq_Relations :: "str list"
  pq_MaxDepth :: int
  pq_MaxNodes :: int

definition pathEndpointMatches :: "NodeLookup \<Rightarrow> Snapshot \<Rightarrow> str \<Rightarrow> storage_error + NodeMatch list" where
  "pathEndpointMatches lookup snapshot endpoint =
     (let ranked = lk_LookupNodes lookup snapshot
            \<lparr>nl_Text = endpoint, nl_Kinds = [], nl_ProjectIDs = [], nl_Limit = int (maxSeedsPerTerm + 1)\<rparr> in
      case lk_LookupExactNodes lookup of
        None \<Rightarrow> ranked
      | Some exact \<Rightarrow>
          (case exact snapshot endpoint of
             Inl err \<Rightarrow> Inl err
           | Inr matches \<Rightarrow> if matches \<noteq> [] then Inr matches else ranked))"

definition withTraversalScopeBoundary :: "PathResult \<Rightarrow> Node option \<Rightarrow> PathResult" where
  "withTraversalScopeBoundary result boundary =
     (if pr_Nodes result = [] \<or> boundary = None then result else result\<lparr>pr_ScopeBoundary := boundary\<rparr>)"

definition ambiguousPathCandidates :: "Node list \<Rightarrow> Node list" where
  "ambiguousPathCandidates nodes = (if length nodes = 1 then [] else take maxSeedsPerTerm nodes)"

definition pathCandidateRemainder :: "Node list \<Rightarrow> int" where
  "pathCandidateRemainder nodes = (if length nodes = 1 then 0 else max 0 (int (length nodes) - int maxSeedsPerTerm))"

definition pathTraversal :: "PathRequest \<Rightarrow> TraversalDirection \<Rightarrow> str \<Rightarrow> TraversalRequest" where
  "pathTraversal request direction nodeID =
     \<lparr>tr_StartNodeIDs = [nodeID], tr_ProjectIDs = pq_ProjectIDs request, tr_Direction = direction,
      tr_Relations = pq_Relations request, tr_MaxDepth = pq_MaxDepth request, tr_MaxNodes = pq_MaxNodes request\<rparr>"

definition validPathRequest :: "PathRequest \<Rightarrow> bool" where
  "validPathRequest request \<longleftrightarrow>
     pq_Source request \<noteq> [] \<and> pq_Target request \<noteq> [] \<and> 0 \<le> pq_MaxDepth request \<and> 0 < pq_MaxNodes request"

text \<open>The search from the only source to the only target: directed and, if allowed, in both directions. The outer
  \<^const>\<open>None\<close> stands for a path reconstruction that does not return.\<close>

definition pathBetween :: "Traverser \<Rightarrow> Snapshot \<Rightarrow> PathRequest \<Rightarrow> str \<Rightarrow> str \<Rightarrow> (query_error + PathResult) option" where
  "pathBetween traverse snapshot request sourceID targetID =
     (case traverse snapshot (pathTraversal request TraverseOutgoing sourceID) of
        Inl err \<Rightarrow> Some (Inl (QueryStorage err))
      | Inr traversal \<Rightarrow>
          (case directedPath (ts_Facts traversal) sourceID targetID of
             None \<Rightarrow> None
           | Some result \<Rightarrow>
               if pr_Nodes result \<noteq> [] \<or> \<not> pq_AllowUndirectedFallback request
               then Some (Inr (withTraversalScopeBoundary result (ts_ScopeBoundary traversal)))
               else (case traverse snapshot (pathTraversal request TraverseBoth sourceID) of
                       Inl err \<Rightarrow> Some (Inl (QueryStorage err))
                     | Inr fallback \<Rightarrow>
                         map_option (\<lambda>result. Inr (withTraversalScopeBoundary
                             (result\<lparr>pr_UndirectedFallbackAttempted := True, pr_UsedUndirectedFallback := pr_Nodes result \<noteq> []\<rparr>)
                             (ts_ScopeBoundary fallback)))
                           (undirectedPath (ts_Facts fallback) sourceID targetID))))"

definition FindPathSnapshot ::
  "NodeLookup option \<Rightarrow> Traverser option \<Rightarrow> Snapshot \<Rightarrow> PathRequest \<Rightarrow> (query_error + PathResult) option" where
  "FindPathSnapshot lookup traverser snapshot request =
     (case lookup of
        None \<Rightarrow> Some (Inl LookupRequired)
      | Some lookup \<Rightarrow>
          (case traverser of
             None \<Rightarrow> Some (Inl TraverserRequired)
           | Some traverse \<Rightarrow>
               if \<not> validPathRequest request then Some (Inl InvalidQuery)
               else (case pathEndpointMatches lookup snapshot (pq_Source request) of
                 Inl err \<Rightarrow> Some (Inl (QueryStorage err))
               | Inr sources \<Rightarrow>
                   (case pathEndpointMatches lookup snapshot (pq_Target request) of
                      Inl err \<Rightarrow> Some (Inl (QueryStorage err))
                    | Inr targets \<Rightarrow>
                        let sourceNodes = map nm_Node sources; targetNodes = map nm_Node targets in
                        if length sourceNodes \<noteq> 1 \<or> length targetNodes \<noteq> 1
                        then Some (Inr (emptyPathResult\<lparr>
                          pr_SourceCandidates := ambiguousPathCandidates sourceNodes,
                          pr_SourceRemainderCount := pathCandidateRemainder sourceNodes,
                          pr_TargetCandidates := ambiguousPathCandidates targetNodes,
                          pr_TargetRemainderCount := pathCandidateRemainder targetNodes\<rparr>))
                        else pathBetween traverse snapshot request (n_ID (hd sourceNodes)) (n_ID (hd targetNodes))))))"

section \<open>The store as provider of the interfaces\<close>

definition storeLookup :: "(str \<Rightarrow> str \<Rightarrow> bool) \<Rightarrow> database \<Rightarrow> NodeLookup" where
  "storeLookup glob db =
     \<lparr>lk_LookupNodes = (\<lambda>s request. LookupNodes glob s request db),
      lk_LookupExactNodes = Some (\<lambda>s identifier. LookupExactNodes s identifier db)\<rparr>"

definition storeTraverser :: "database \<Rightarrow> Traverser" where
  "storeTraverser db = (\<lambda>s request. Traverse s request db)"

definition storeExplainer :: "database \<Rightarrow> Explainer" where
  "storeExplainer db = (\<lambda>s nodeID. Explain s nodeID db)"

section \<open>Ranking in memory, correctness\<close>

lemma firstOfID_ids: "n_ID ` set (firstOfID ns seen) = n_ID ` set ns - set seen"
  by (induction ns seen rule: firstOfID.induct) auto

lemma firstOfID_set: "set (firstOfID ns seen) \<subseteq> set ns"
  by (induction ns seen rule: firstOfID.induct) auto

lemma firstOfID_distinct: "distinct (map n_ID (firstOfID ns seen))"
proof (induction ns seen rule: firstOfID.induct)
  case (2 n ns seen)
  then show ?case using firstOfID_ids [of ns "n_ID n # seen"] by auto
qed simp

lemma firstOfID_sorted: "sorted (map f ns) \<Longrightarrow> sorted (map f (firstOfID ns seen))"
  by (induction ns seen rule: firstOfID.induct) (use firstOfID_set in auto)

text \<open>Of the nodes with one identity the first, and so the best ranked, is kept.\<close>

lemma firstOfID_best:
  "sorted (map f ns) \<Longrightarrow> m \<in> set (firstOfID ns seen) \<Longrightarrow> n \<in> set ns \<Longrightarrow> n_ID n = n_ID m \<Longrightarrow> f m \<le> f n"
proof (induction ns seen rule: firstOfID.induct)
  case (2 x ns seen)
  have differ: "n_ID m \<noteq> n_ID x" if "m \<in> set (firstOfID ns ids)" "n_ID x \<in> set ids" for ids
    using firstOfID_ids [of ns ids] that by (metis Diff_iff imageI)
  have tail: "sorted (map f ns)" "n \<in> set ns" if "n_ID n \<noteq> n_ID x" using "2.prems"(1,3) that by auto
  show ?case
  proof (cases "n_ID x \<in> set seen")
    case True
    then have m: "m \<in> set (firstOfID ns seen)" using "2.prems"(2) by simp
    then show ?thesis using "2.IH"(1) [OF True _ m] tail differ [OF m True] "2.prems"(4) by metis
  next
    case False
    show ?thesis
    proof (cases "m = x")
      case True
      then show ?thesis using "2.prems"(1,3) by auto
    next
      case neq: False
      then have m: "m \<in> set (firstOfID ns (n_ID x # seen))" using "2.prems"(2) False by simp
      then show ?thesis using "2.IH"(2) [OF False _ m] tail differ [OF m] "2.prems"(4) by (metis list.set_intros(1))
    qed
  qed
qed simp

text \<open>Ranking in memory answers every term by at most three matching nodes, one of each identity, best rank first. A
  matching node is represented by a node of its identity that ranks no worse, or left out because
  three nodes rank no worse.\<close>

theorem Rank_correct:
  assumes "seedSet \<in> set (Rank nodes terms)" "ss_Term seedSet \<noteq> []"
  shows "length (ss_Nodes seedSet) \<le> 3 \<and> distinct (map n_ID (ss_Nodes seedSet)) \<and>
    set (ss_Nodes seedSet) \<subseteq> {n \<in> set nodes. matchRank n (ss_Term seedSet) \<noteq> None} \<and>
    sorted (map (\<lambda>n. the (matchRank n (ss_Term seedSet))) (ss_Nodes seedSet)) \<and>
    (\<forall>n \<in> set nodes. matchRank n (ss_Term seedSet) \<noteq> None \<longrightarrow>
       (\<exists>m \<in> set (ss_Nodes seedSet). n_ID m = n_ID n \<and> the (matchRank m (ss_Term seedSet)) \<le> the (matchRank n (ss_Term seedSet))) \<or>
       length (ss_Nodes seedSet) = 3 \<and>
         (\<forall>m \<in> set (ss_Nodes seedSet). the (matchRank m (ss_Term seedSet)) \<le> the (matchRank n (ss_Term seedSet))))"
proof -
  define t where "t = ss_Term seedSet"
  define f where "f = (\<lambda>n. the (matchRank n t))"
  define sorted_nodes where "sorted_nodes = sort_key f (sort_key nameColumns (filter (\<lambda>n. matchRank n t \<noteq> None) nodes))"
  define kept where "kept = firstOfID sorted_nodes []"
  have sel: "ss_Nodes seedSet = take 3 kept"
    using assms by (auto simp: Rank_def rankTerm_def rankTermMatches_def maxSeedsPerTerm_def kept_def sorted_nodes_def f_def t_def)
  have set_sorted: "set sorted_nodes = {n \<in> set nodes. matchRank n t \<noteq> None}" by (auto simp: sorted_nodes_def)
  have sorted: "sorted (map f sorted_nodes)" by (simp add: sorted_nodes_def)
  have kept: "distinct (map n_ID kept)" "set kept \<subseteq> set sorted_nodes" "sorted (map f kept)" "n_ID ` set kept = n_ID ` set sorted_nodes"
    by (simp_all add: kept_def firstOfID_distinct firstOfID_set firstOfID_sorted [OF sorted] firstOfID_ids)
  have "(\<exists>m \<in> set (take 3 kept). n_ID m = n_ID n \<and> f m \<le> f n) \<or> length (take 3 kept) = 3 \<and> (\<forall>m \<in> set (take 3 kept). f m \<le> f n)"
    if n: "n \<in> set sorted_nodes" for n
  proof -
    from n kept(4) obtain m where m: "m \<in> set kept" "n_ID n = n_ID m" by (metis (mono_tags, lifting) image_iff)
    have le: "f m \<le> f n" using firstOfID_best [OF sorted _ n m(2)] m(1) by (simp add: kept_def)
    show ?thesis
    proof (cases "m \<in> set (take 3 kept)")
      case False
      then have drop: "m \<in> set (drop 3 kept)" using m(1) by (metis append_take_drop_id Un_iff set_append)
      then have "length (take 3 kept) = 3" by (cases "length kept \<le> 3") auto
      moreover have "f x \<le> f n" if "x \<in> set (take 3 kept)" for x
        using sorted_take_drop [OF kept(3) that drop] le by simp
      ultimately show ?thesis by blast
    qed (use m(2) le in auto)
  qed
  moreover have "set (take 3 kept) \<subseteq> set sorted_nodes" using kept(2) set_take_subset [of 3 kept] by simp
  moreover have "sorted (map f (take 3 kept))" "distinct (map n_ID (take 3 kept))"
    using kept(1,3) by (simp_all add: sorted_wrt_take flip: take_map)
  moreover have "length (take 3 kept) \<le> 3" by simp
  ultimately show ?thesis
    unfolding sel t_def [symmetric] set_sorted mem_Collect_eq unfolding f_def by (intro conjI) blast+
qed

theorem Rank_correct_witness:
  "map n_ID (ss_Nodes (hd (Rank (map sampleNode [''xa'', ''a'', ''ab'', ''b'']) [''a'']))) = [''a'', ''ab'', ''xa''] \<and>
   length (ss_Nodes (hd (Rank (map sampleNode [''xa'', ''a'', ''ab'', ''b'']) [''a'']))) \<le> 3"
proof -
  let ?seeds = "Rank (map sampleNode [''xa'', ''a'', ''ab'', ''b'']) [''a'']"
  have "hd ?seeds \<in> set ?seeds" "ss_Term (hd ?seeds) \<noteq> []" by (simp_all add: Rank_def)
  from Rank_correct [OF this] have "length (ss_Nodes (hd ?seeds)) \<le> 3" by blast
  moreover have "map n_ID (ss_Nodes (hd ?seeds)) = [''a'', ''ab'', ''xa'']" by code_simp
  ultimately show ?thesis by blast
qed

section \<open>What queries rely on\<close>

lemma RankSnapshot_Inr:
  "RankSnapshot (Some lookup) s terms = Inr seeds \<longleftrightarrow>
     list_all2 (\<lambda>term seedSet. ss_Term seedSet = term \<and> (\<exists>matches.
       lookupTermMatches lookup s term maxSeedsPerTerm = Inr matches \<and> ss_Nodes seedSet = map nm_Node matches)) terms seeds"
  by (auto simp: RankSnapshot_def mapE_eq_Inr storageResult_def split: sum.splits
      intro!: arg_cong [where f = "\<lambda>P. list_all2 P terms seeds"] SeedSet.equality ext)

lemma RankSnapshot_seedSet:
  assumes "RankSnapshot (Some lookup) s terms = Inr seeds" "seedSet \<in> set seeds"
  obtains matches where "lookupTermMatches lookup s (ss_Term seedSet) maxSeedsPerTerm = Inr matches" "ss_Nodes seedSet = map nm_Node matches"
proof -
  obtain i where "i < length seeds" "seedSet = seeds ! i" using assms(2) by (auto simp: in_set_conv_nth)
  then show ?thesis using that list_all2_nthD2 [OF assms(1) [unfolded RankSnapshot_Inr], of i] by auto
qed

text \<open>Lookups return nodes of the snapshot, the ranked lookup at most as many as asked for.\<close>

locale node_lookup =
  fixes lookup :: NodeLookup and nodes :: "Snapshot \<Rightarrow> Node set"
  assumes ranked_nodes: "lk_LookupNodes lookup s request = Inr matches \<Longrightarrow> nm_Node ` set matches \<subseteq> nodes s"
    and ranked_limit: "lk_LookupNodes lookup s request = Inr matches \<Longrightarrow> int (length matches) \<le> nl_Limit request"
    and exact_nodes: "lk_LookupExactNodes lookup = Some exact \<Longrightarrow> exact s identifier = Inr matches \<Longrightarrow> nm_Node ` set matches \<subseteq> nodes s"
begin

lemma term_matches:
  assumes "lookupTermMatches lookup s term limit = Inr matches"
  shows "nm_Node ` set matches \<subseteq> nodes s" "length matches \<le> limit"
proof -
  show "nm_Node ` set matches \<subseteq> nodes s"
    using assms ranked_nodes exact_nodes
    by (fastforce simp: lookupTermMatches_def Let_def split: option.splits sum.splits if_splits dest: in_set_takeD)
  show "length matches \<le> limit"
    using assms ranked_limit
    by (fastforce simp: lookupTermMatches_def Let_def split: option.splits sum.splits if_splits)
qed

lemma endpoint_matches:
  "pathEndpointMatches lookup s endpoint = Inr matches \<Longrightarrow> nm_Node ` set matches \<subseteq> nodes s"
  using ranked_nodes exact_nodes
  by (fastforce simp: pathEndpointMatches_def Let_def split: option.splits sum.splits if_splits)

lemma seeds:
  assumes "RankSnapshot (Some lookup) s terms = Inr seeds"
  shows "map ss_Term seeds = terms"
    "seedSet \<in> set seeds \<Longrightarrow> set (ss_Nodes seedSet) \<subseteq> nodes s \<and> length (ss_Nodes seedSet) \<le> maxSeedsPerTerm"
proof -
  have "list_all2 (\<lambda>term seedSet. ss_Term seedSet = term) terms seeds"
    using assms unfolding RankSnapshot_Inr by (rule list_all2_mono) blast
  then show "map ss_Term seeds = terms" by (induction rule: list_all2_induct) auto
  show "set (ss_Nodes seedSet) \<subseteq> nodes s \<and> length (ss_Nodes seedSet) \<le> maxSeedsPerTerm" if "seedSet \<in> set seeds"
    by (rule RankSnapshot_seedSet [OF assms that]) (use term_matches in auto)
qed

end

interpretation store_lookup: node_lookup "storeLookup glob db" "\<lambda>s. set (graphNodes db s)" for glob db
proof
  fix s request matches
  assume "lk_LookupNodes (storeLookup glob db) s request = Inr matches"
  then have "matches = map (\<lambda>n. \<lparr>nm_Node = n, nm_Score = nodeRank glob (nl_Text request) n\<rparr>)
      (take (nat (nl_Limit request)) (nodeLookup glob s request db))" "0 < nl_Limit request"
    by (auto simp: storeLookup_def LookupNodes_def split: if_splits)
  then show "nm_Node ` set matches \<subseteq> set (graphNodes db s)" "int (length matches) \<le> nl_Limit request"
    by (auto simp: set_nodeLookup dest!: in_set_takeD)
qed (auto simp: storeLookup_def LookupExactNodes_def visibleNodes_def split: if_splits)

section \<open>Paths found by a traversal\<close>

lemma append_separator:
  assumes "xs @ c # ys = xs' @ c # ys'" "c \<notin> set xs" "c \<notin> set xs'"
  shows "xs = xs' \<and> ys = ys'"
  using assms by (auto simp: append_eq_append_conv2 append_eq_Cons_conv Cons_eq_append_conv)

definition nulFree :: "Edge \<Rightarrow> bool" where
  "nulFree e \<longleftrightarrow> char_of (0 :: nat) \<notin> set (e_SourceID e) \<union> set (e_TargetID e)"

lemma edgeKey_determines:
  "edgeKey e = edgeKey f \<Longrightarrow> nulFree e \<Longrightarrow> nulFree f \<Longrightarrow> edgeIdentity e = edgeIdentity f"
  unfolding edgeKey_def nul_def append_Cons append_Nil nulFree_def edgeIdentity_def
  by (auto dest!: append_separator)

lemma pathStep_mono:
  "pathStep facts undirected u e v \<Longrightarrow> set (f_Nodes facts) \<subseteq> set (f_Nodes facts') \<Longrightarrow> set (f_Edges facts) \<subseteq> set (f_Edges facts') \<Longrightarrow>
     pathStep facts' undirected u e v"
  by (auto simp: pathStep_def)

lemma isWalk_mono:
  "isWalk facts undirected ids edges \<Longrightarrow> set (f_Nodes facts) \<subseteq> set (f_Nodes facts') \<Longrightarrow> set (f_Edges facts) \<subseteq> set (f_Edges facts') \<Longrightarrow>
     isWalk facts' undirected ids edges"
  by (induction facts undirected ids edges rule: isWalk.induct) (auto intro: pathStep_mono)

context graph_access
begin

lemma outgoing_crosses:
  "tr_Direction request = TraverseOutgoing \<Longrightarrow> crosses scoped request u e v \<Longrightarrow> e_SourceID e = u \<and> e_TargetID e = v"
  by (auto simp: crosses_def traversalNeighbor_def split: if_splits)

text \<open>Every walk along the edges of an outgoing traversal is a walk the traversal may take.\<close>

lemma walks_reach:
  assumes "traverseGraph node incident scoped request = Inr result" "0 < tr_MaxNodes request"
    "tr_Direction request = TraverseOutgoing" "tr_StartNodeIDs request = [a]" "node a \<noteq> None"
    "walks (ts_Facts result) False a k v"
  shows "reach node incident scoped request k v"
proof -
  obtain st where st: "traced scoped request st"
      "f_Edges (ts_Facts result) = sortedEdges (tv_edges st)"
    by (rule traverseGraph_state [OF assms(1,2)]) blast
  have edge: "\<exists>u v. crosses scoped request u e v" if "e \<in> set (f_Edges (ts_Facts result))" for e
    using that st unfolding traced_def sortedEdges_def by fastforce
  from assms(6) show ?thesis
  proof (induction rule: walks.induct)
    case here
    then show ?case using assms(4,5) by (intro reach.start) auto
  next
    case (there k u e v)
    have "e \<in> set (f_Edges (ts_Facts result))" using there.hyps(2) by (simp add: pathStep_def)
    from edge [OF this] obtain u' v' where "crosses scoped request u' e v'" by blast
    moreover from this have "u' = u" "v' = v"
      using outgoing_crosses [OF assms(3)] there.hyps(2) by (auto simp: pathStep_def)
    ultimately show ?case using there.IH crosses_neighbour by (auto intro: reach.step)
  qed
qed

text \<open>Every node at the end of a shortest walk within the depth is found by a walk of that length along the
  edges of the traversal, unless the node limit was met.\<close>

lemma reach_walks:
  assumes "traverseGraph node incident scoped request = Inr result" "0 < tr_MaxNodes request"
    "tr_Direction request = TraverseOutgoing" "tr_StartNodeIDs request = [a]"
    "TruncatedByNodeLimit \<notin> set (ts_TruncationReasons result)"
    and nul: "\<And>u e. e \<in> set (incident u) \<Longrightarrow> nulFree e"
    and "reach node incident scoped request k v" "\<And>j. reach node incident scoped request j v \<Longrightarrow> k \<le> j"
    "k \<le> nat (tr_MaxDepth request)"
  shows "walks (ts_Facts result) False a k v"
proof -
  obtain st where st: "sound scoped request (nat (tr_MaxDepth request)) st" "traced scoped request st"
      "f_Nodes (ts_Facts result) = sortedNodes (tv_nodes st)"
      "f_Edges (ts_Facts result) = sortedEdges (tv_edges st)"
      "unlimited st" "\<And>k v. k \<le> nat (tr_MaxDepth request) \<Longrightarrow> reach node incident scoped request k v \<Longrightarrow> v \<in> keys st"
    by (rule traverseGraph_state [OF assms(1,2)]) (use assms(5) in \<open>auto simp: complete_def\<close>)
  have ids: "n_ID ` set (f_Nodes (ts_Facts result)) = keys st"
    unfolding st(3) by (rule sortedNodes_ids [OF st(1) [unfolded sound_def, THEN conjunct1]])
  from assms(7-9) show ?thesis
  proof (induction k arbitrary: v)
    case 0
    from 0(1) have "v = a" using assms(4) by (cases rule: reach.cases) auto
    then show ?case by (simp add: walks.here)
  next
    case (Suc k)
    have v: "v \<in> keys st" by (rule st(6) [OF Suc.prems(3,1)])
    have least: "\<forall>j \<le> k. \<not> reach node incident scoped request j v" using Suc.prems(2) by fastforce
    then obtain u e where u: "reach node incident scoped request k u" "crosses scoped request u e v" "edgeKey e \<in> edgeKeys st"
      using st(2,5) Suc.prems(1) v unfolding traced_def by blast
    have "k \<le> j" if "reach node incident scoped request j u" for j
      using Suc.prems(2) [OF reach.step [OF that crosses_neighbour [OF u(2)]]] by simp
    then have walk: "walks (ts_Facts result) False a k u" using Suc.prems(3) by (intro Suc.IH [OF u(1)]) auto
    obtain f where f: "(edgeKey e, f) \<in> set (tv_edges st)" using u(3) by (auto simp: edgeKeys_def)
    then have "edgeKey f = edgeKey e" "\<exists>w. f \<in> set (incident w)" using st(1) by (auto simp: sound_def edgesOk_def edgeOk_def)
    moreover from this(2) have "nulFree f" using nul by blast
    ultimately have "edgeIdentity f = edgeIdentity e" using nul u(2) by (intro edgeKey_determines) (auto simp: crosses_def)
    then have "pathStep (ts_Facts result) False u f v"
      using outgoing_crosses [OF assms(3) u(2)] f v unfolding pathStep_def ids
      by (force simp: st(4) sortedEdges_def edgeIdentity_def)
    with walk show ?case by (rule walks.there)
  qed
qed

end

section \<open>Paths in the store\<close>

text \<open>The end \<open>v\<close> of a walk of length \<open>k\<close> from \<open>a\<close> over the stored graph, along the requested relations and
  within the requested projects.\<close>

definition pathReach :: "database \<Rightarrow> Snapshot \<Rightarrow> PathRequest \<Rightarrow> str \<Rightarrow> nat \<Rightarrow> str \<Rightarrow> bool" where
  "pathReach db s request a =
     reach (readNode db s) (readIncidentEdges db s) (readScopedNodeIDs db s (pq_ProjectIDs request))
       (pathTraversal request TraverseOutgoing a)"

lemma pathTraversal_fields [simp]:
  "tr_StartNodeIDs (pathTraversal request direction a) = [a]" "tr_ProjectIDs (pathTraversal request direction a) = pq_ProjectIDs request"
  "tr_Direction (pathTraversal request direction a) = direction" "tr_MaxDepth (pathTraversal request direction a) = pq_MaxDepth request"
  by (simp_all add: pathTraversal_def)

definition storedFacts :: "database \<Rightarrow> Snapshot \<Rightarrow> Facts" where
  "storedFacts db s = \<lparr>f_Nodes = graphNodes db s, f_Edges = graphEdges db s\<rparr>"

lemma traversal_stored:
  assumes "Traverse s request db = Inr traversal"
  shows "set (f_Nodes (ts_Facts traversal)) \<subseteq> set (f_Nodes (storedFacts db s))"
    "set (f_Edges (ts_Facts traversal)) \<subseteq> set (f_Edges (storedFacts db s))"
proof -
  note facts = stored.traverseGraph_sound [OF Traverse_Inr [OF assms]]
  show "set (f_Nodes (ts_Facts traversal)) \<subseteq> set (f_Nodes (storedFacts db s))"
    using facts(4) by (auto simp: storedFacts_def readNode_def dest!: find_SomeD)
  show "set (f_Edges (ts_Facts traversal)) \<subseteq> set (f_Edges (storedFacts db s))"
    using facts(5) by (auto simp: storedFacts_def stored.edgeOk_def set_readIncidentEdges)
qed

lemma pathReach_ids:
  assumes "Traverse s (pathTraversal request TraverseOutgoing a) db = Inr traversal"
    "TruncatedByNodeLimit \<notin> set (ts_TruncationReasons traversal)"
  shows "n_ID ` set (f_Nodes (ts_Facts traversal)) = {v. \<exists>k \<le> nat (pq_MaxDepth request). pathReach db s request a k v}"
  using stored.traverseGraph_complete(1) [OF Traverse_Inr [OF assms(1)] assms(2)] by (simp add: pathReach_def)

lemma directedPath_found:
  assumes run: "Traverse s (pathTraversal request TraverseOutgoing a) db = Inr traversal"
    and limit: "TruncatedByNodeLimit \<notin> set (ts_TruncationReasons traversal)"
    and nul: "list_all nulFree (graphEdges db s)" and a: "readNode db s a \<noteq> None"
    and k: "pathReach db s request a k b" "k \<le> nat (pq_MaxDepth request)"
  shows "\<exists>ids edges. directedPath (ts_Facts traversal) a b =
       Some (emptyPathResult\<lparr>pr_Nodes := map (\<lambda>i. the (nodesByID (ts_Facts traversal) i)) ids, pr_Edges := edges\<rparr>) \<and>
     isWalk (ts_Facts traversal) False ids edges \<and> hd ids = a \<and> last ids = b \<and> set ids \<subseteq> n_ID ` set (f_Nodes (ts_Facts traversal)) \<and>
     length edges \<le> k \<and> pathReach db s request a (length edges) b"
proof -
  note graph = Traverse_Inr [OF run, unfolded pathTraversal_fields]
  let ?facts = "ts_Facts traversal"
  note ids = pathReach_ids [OF run limit]
  have "pathReach db s request a 0 a" using a unfolding pathReach_def by (intro reach.start) auto
  then have ends: "a \<in> n_ID ` set (f_Nodes ?facts)" "b \<in> n_ID ` set (f_Nodes ?facts)" using k unfolding ids by auto
  define m where "m = (LEAST m. pathReach db s request a m b)"
  have m: "pathReach db s request a m b" "\<And>j. pathReach db s request a j b \<Longrightarrow> m \<le> j"
    unfolding m_def using k(1) by (auto intro: LeastI Least_le)
  have "nulFree e" if "e \<in> set (readIncidentEdges db s u)" for u e
    using that nul by (auto simp: set_readIncidentEdges list_all_iff)
  then have "walks ?facts False a m b"
    using m m(2) [OF k(1)] k(2) unfolding pathReach_def by (intro stored.reach_walks [OF graph _ _ limit]) auto
  then obtain path edges where path: "directedPath ?facts a b =
        Some (emptyPathResult\<lparr>pr_Nodes := map (\<lambda>i. the (nodesByID ?facts i)) path, pr_Edges := edges\<rparr>)"
      "isWalk ?facts False path edges" "hd path = a" "last path = b" "set path \<subseteq> n_ID ` set (f_Nodes ?facts)" "length edges \<le> m"
    using shortestPath_endpoints [OF ends, of False] unfolding directedPath_def by blast
  have "walks ?facts False a (length edges) b"
    using isWalk_walks [OF path(2), of a 0] path(3,4) walks.here by simp
  then have "pathReach db s request a (length edges) b"
    unfolding pathReach_def by (intro stored.walks_reach [OF graph _ _ a]) auto
  then show ?thesis using path m(2) [OF k(1)] order_trans by blast
qed

lemma FindPathSnapshot_unique:
  assumes "validPathRequest request"
    "pathEndpointMatches lookup s (pq_Source request) = Inr [source]" "pathEndpointMatches lookup s (pq_Target request) = Inr [target]"
  shows "FindPathSnapshot (Some lookup) (Some traverse) s request =
    pathBetween traverse s request (n_ID (nm_Node source)) (n_ID (nm_Node target))"
  using assms by (simp add: FindPathSnapshot_def)

lemma withTraversalScopeBoundary_fields [simp]:
  "pr_Nodes (withTraversalScopeBoundary r b) = pr_Nodes r" "pr_Edges (withTraversalScopeBoundary r b) = pr_Edges r"
  "pr_UsedUndirectedFallback (withTraversalScopeBoundary r b) = pr_UsedUndirectedFallback r"
  by (simp_all add: withTraversalScopeBoundary_def)

lemma pathBetween_found:
  assumes run: "Traverse s (pathTraversal request TraverseOutgoing a) db = Inr traversal"
    and limit: "TruncatedByNodeLimit \<notin> set (ts_TruncationReasons traversal)"
    and nul: "list_all nulFree (graphEdges db s)" and a: "readNode db s a \<noteq> None"
    and k: "pathReach db s request a k b" "k \<le> nat (pq_MaxDepth request)"
  shows "\<exists>r. pathBetween (storeTraverser db) s request a b = Some (Inr r) \<and>
     set (pr_Nodes r) \<subseteq> set (graphNodes db s) \<and> isWalk (storedFacts db s) False (map n_ID (pr_Nodes r)) (pr_Edges r) \<and>
     n_ID (hd (pr_Nodes r)) = a \<and> n_ID (last (pr_Nodes r)) = b \<and>
     length (pr_Edges r) \<le> k \<and> pathReach db s request a (length (pr_Edges r)) b \<and> \<not> pr_UsedUndirectedFallback r"
proof -
  let ?facts = "ts_Facts traversal"
  obtain path edges where path: "directedPath ?facts a b =
        Some (emptyPathResult\<lparr>pr_Nodes := map (\<lambda>i. the (nodesByID ?facts i)) path, pr_Edges := edges\<rparr>)"
      "isWalk ?facts False path edges" "hd path = a" "last path = b" "set path \<subseteq> n_ID ` set (f_Nodes ?facts)"
      "length edges \<le> k" "pathReach db s request a (length edges) b"
    using directedPath_found [OF assms] by blast
  let ?nodes = "map (\<lambda>i. the (nodesByID ?facts i)) path"
  have "path \<noteq> []" using isWalk_nonempty path(2) .
  moreover have ids: "map n_ID ?nodes = path"
    using path(5) the_nodesByID(1) by (auto simp: comp_def intro!: map_idI)
  ultimately have ends: "n_ID (hd ?nodes) = a" "n_ID (last ?nodes) = b"
    using path(3,4) by (metis hd_map last_map list.map_disc_iff)+
  have "set ?nodes \<subseteq> set (graphNodes db s)"
    using path(5) the_nodesByID(2) [of _ ?facts] traversal_stored(1) [OF run] by (auto simp: storedFacts_def)
  moreover have "isWalk (storedFacts db s) False (map n_ID ?nodes) edges"
    unfolding ids by (rule isWalk_mono [OF path(2) traversal_stored [OF run]])
  moreover have "pathBetween (storeTraverser db) s request a b = Some (Inr (withTraversalScopeBoundary
      (emptyPathResult\<lparr>pr_Nodes := ?nodes, pr_Edges := edges\<rparr>) (ts_ScopeBoundary traversal)))"
    using run path(1) \<open>path \<noteq> []\<close> by (simp add: pathBetween_def storeTraverser_def)
  ultimately show ?thesis
    using ends path(6,7) by (simp add: emptyPathResult_def)
qed

lemma pathBetween_missing:
  assumes "Traverse s (pathTraversal request TraverseOutgoing a) db = Inr traversal"
    "TruncatedByNodeLimit \<notin> set (ts_TruncationReasons traversal)"
    "\<nexists>k. k \<le> nat (pq_MaxDepth request) \<and> pathReach db s request a k b" "\<not> pq_AllowUndirectedFallback request"
  shows "pathBetween (storeTraverser db) s request a b = Some (Inr emptyPathResult)"
proof -
  have "b \<notin> n_ID ` set (f_Nodes (ts_Facts traversal))"
    using assms(3) by (simp add: pathReach_ids [OF assms(1,2)])
  then have "directedPath (ts_Facts traversal) a b = Some emptyPathResult"
    by (simp add: directedPath_def shortestPath_def nodesByID_None)
  then show ?thesis
    using assms(1,4) by (simp add: pathBetween_def storeTraverser_def withTraversalScopeBoundary_def emptyPathResult_def)
qed


definition samplePathRequest :: PathRequest where
  "samplePathRequest = \<lparr>pq_Source = ''a'', pq_Target = ''c'', pq_AllowUndirectedFallback = False, pq_ProjectIDs = [],
     pq_Relations = [''calls''], pq_MaxDepth = 2, pq_MaxNodes = 10\<rparr>"

abbreviation sampleLookup :: NodeLookup where
  "sampleLookup \<equiv> storeLookup (\<lambda>_ _. False) sampleGraph"

lemma sample_traversal: "pathTraversal samplePathRequest TraverseOutgoing ''a'' = sampleTraversal 2"
  by (simp add: pathTraversal_def samplePathRequest_def sampleTraversal_def)


section \<open>Queries in the store\<close>

lemma store_seeds:
  assumes "lookupTermMatches (storeLookup glob db) s t limit = Inr matches" "n \<in> nm_Node ` set matches"
  shows "exactMatch t n \<or> (\<forall>m \<in> set (graphNodes db s). \<not> exactMatch t m) \<and> nodeMatches glob t n"
proof (cases "\<exists>m \<in> set (graphNodes db s). exactMatch t m")
  case True
  then have "sort_key nameColumns (filter (exactMatch t) (visibleNodes db s)) \<noteq> []"
    by (auto simp: visibleNodes_def filter_empty_conv simp flip: set_empty)
  then show ?thesis
    using assms by (auto simp: lookupTermMatches_def storeLookup_def LookupExactNodes_def split: if_splits dest!: in_set_takeD)
next
  case False
  then have "filter (exactMatch t) (visibleNodes db s) = []" by (auto simp: visibleNodes_def filter_empty_conv)
  then have "n \<in> set (nodeLookup glob s \<lparr>nl_Text = t, nl_Kinds = [], nl_ProjectIDs = [], nl_Limit = int limit\<rparr> db)"
    using assms by (auto simp: lookupTermMatches_def storeLookup_def LookupExactNodes_def LookupNodes_def split: if_splits dest!: in_set_takeD)
  then show ?thesis using False by (simp add: set_nodeLookup)
qed

lemma reach_no_start: "reach node incident scoped request k v \<Longrightarrow> tr_StartNodeIDs request \<noteq> []"
  by (induction rule: reach.induct) auto

lemma store_seedSet:
  assumes "RankSnapshot (Some (storeLookup glob db)) s terms = Inr seeds" "seedSet \<in> set seeds" "n \<in> set (ss_Nodes seedSet)"
  shows "exactMatch (ss_Term seedSet) n \<or>
    (\<forall>m \<in> set (graphNodes db s). \<not> exactMatch (ss_Term seedSet) m) \<and> nodeMatches glob (ss_Term seedSet) n"
proof -
  obtain matches where "lookupTermMatches (storeLookup glob db) s (ss_Term seedSet) maxSeedsPerTerm = Inr matches"
      "ss_Nodes seedSet = map nm_Node matches"
    by (rule RankSnapshot_seedSet [OF assms(1,2)])
  then show ?thesis using store_seeds [of glob db s "ss_Term seedSet" maxSeedsPerTerm matches n] assms(3) by auto
qed

lemma QuerySnapshot_Inr:
  assumes "QuerySnapshot (Some lookup) (Some traverse) s request = Inr result"
  obtains "RankSnapshot (Some lookup) s (rq_Terms request) = Inr (rs_Seeds result)" "seedIDs (rs_Seeds result) = []"
      "rs_Facts result = \<lparr>f_Nodes = [], f_Edges = []\<rparr>" "0 < rq_MaxNodes request"
    | traversal where "RankSnapshot (Some lookup) s (rq_Terms request) = Inr (rs_Seeds result)"
      "traverse s (queryTraversal request (rs_Seeds result)) = Inr traversal"
      "rs_Facts result = ts_Facts traversal" "rs_TruncationReasons result = ts_TruncationReasons traversal"
  using assms by (auto simp: QuerySnapshot_def storageResult_def split: if_splits sum.splits)


definition sampleQuery :: Request where
  "sampleQuery = \<lparr>rq_Terms = [''a''], rq_ProjectIDs = [], rq_Relations = [''calls''], rq_MaxDepth = 1, rq_MaxNodes = 10\<rparr>"

definition sampleResult :: Result where
  "sampleResult = \<lparr>rs_Seeds = [\<lparr>ss_Term = ''a'', ss_Nodes = [sampleNode ''a'']\<rparr>],
     rs_Facts = \<lparr>f_Nodes = [sampleNode ''a'', sampleNode ''b''], f_Edges = [sampleEdge ''a'' ''calls'' ''b'']\<rparr>,
     rs_TruncationReasons = [TruncatedByDepthLimit], rs_ScopeBoundary = None\<rparr>"


end
