(* ===== verification/Indexer_Queue.thy ===== *)
theory Indexer_Queue
  imports Go_Path "HOL-Library.Multiset"
begin

text \<open>
  The workspace indexer (\<^verbatim>\<open>src/indexer/lifecycle.go\<close> and \<^verbatim>\<open>src/indexer/queue.go\<close>): workers, their
  queues of changed paths, throttled publication with retries, reconciliation and shutdown. Workers live in a store
  of addresses, because goroutines keep pointers to them. Every section of code between a lock
  and an unlock of the manager's mutex is one function on the manager. Timers, goroutines that wait for the mutex and
  goroutines that run outside it are part of the state of the step relation, so any interleaving of
  them is a run. The publisher, the reconciler, the file lock (\<^verbatim>\<open>Acquire\<close>, \<^verbatim>\<open>Owner.Close\<close>) and the clock
  are chosen by the step. Durations are nanoseconds in a signed 64-bit integer.
\<close>

section \<open>Data\<close>

type_synonym Duration = int
type_synonym Time = int

text \<open>The value of a signed 64-bit computation.\<close>

definition int64 :: "int \<Rightarrow> int" where
  "int64 x = (x + 2 ^ 63) mod 2 ^ 64 - 2 ^ 63"

record Status =
  su_Workspace :: str
  su_Endpoint :: str
  su_Running :: bool
  su_Activity :: Time
  su_QueuedPaths :: "str list"
  su_Error :: str
  su_IdleDeadline :: Time

record worker =
  w_status :: Status
  w_pending :: "str list"
  w_pendingSet :: "str list"
  w_timer :: "nat option"
  w_publishing :: bool
  w_stopping :: bool
  w_publishDone :: "nat option"
  w_retryDelay :: Duration
  w_reconcileTimer :: "nat option"

datatype timerKind = PublishTimer | ReconcileTimer

record timer =
  t_id :: nat
  t_kind :: timerKind
  t_workspace :: str
  t_delay :: Duration

text \<open>The manager with its store of workers, the timers that have not fired, the channels that are closed, and
  the next unused address, timer or channel.\<close>

record Manager =
  m_workers :: "str \<rightharpoonup> nat"
  m_heap :: "nat \<rightharpoonup> worker"
  m_throttle :: Duration
  m_idle :: Duration
  m_retryBase :: Duration
  m_retryMax :: Duration
  m_reconciler :: bool
  m_reconcile :: Duration
  m_timers :: "timer list"
  m_closed :: "nat list"
  m_next :: nat

datatype queue_error =
  RootUnresolved | NotRunning | EventPathRequired | EventPathUnresolved | EventPathOutside
  | AcquireFailed str | CloseFailed | ReconcilerFailed str

section \<open>Options\<close>

type_synonym ManagerOption = "Manager \<Rightarrow> Manager"

definition WithPublishThrottle :: "Duration \<Rightarrow> ManagerOption" where
  "WithPublishThrottle throttle m = (if throttle > 0 then m\<lparr>m_throttle := throttle\<rparr> else m)"

definition WithIdleTimeout :: "Duration \<Rightarrow> ManagerOption" where
  "WithIdleTimeout timeout m = (if timeout > 0 then m\<lparr>m_idle := timeout\<rparr> else m)"

definition WithRetryBackoff :: "Duration \<Rightarrow> Duration \<Rightarrow> ManagerOption" where
  "WithRetryBackoff base maximum m =
     (let m1 = (if base > 0 then m\<lparr>m_retryBase := base\<rparr> else m) in
      if maximum \<ge> m_retryBase m1 then m1\<lparr>m_retryMax := maximum\<rparr> else m1)"

definition WithReconciler :: "bool \<Rightarrow> ManagerOption" where
  "WithReconciler reconciler m = m\<lparr>m_reconciler := reconciler\<rparr>"

definition WithReconciliationInterval :: "Duration \<Rightarrow> ManagerOption" where
  "WithReconciliationInterval interval m = (if interval > 0 then m\<lparr>m_reconcile := interval\<rparr> else m)"

definition millisecond :: Duration where "millisecond = 1000000"
definition second :: Duration where "second = 1000 * millisecond"
definition minute :: Duration where "minute = 60 * second"

definition NewManager :: "ManagerOption list \<Rightarrow> Manager" where
  "NewManager options = fold (\<lambda>option. option) options
     \<lparr>m_workers = Map.empty, m_heap = Map.empty, m_throttle = 250 * millisecond, m_idle = 5 * minute, m_retryBase = second,
      m_retryMax = minute, m_reconciler = False, m_reconcile = 5 * minute, m_timers = [], m_closed = [], m_next = 0\<rparr>"

section \<open>Events\<close>

definition isParentPath :: "str \<Rightarrow> bool" where
  "isParentPath path = (let pre = ''..'' @ slashes in length path > length pre \<and> take (length pre) path = pre)"

definition normalizeEventPath :: "str \<Rightarrow> str \<Rightarrow> queue_error + str" where
  "normalizeEventPath workspace path =
     (if path = [] then Inl EventPathRequired
      else let path' = Clean (if IsAbs path then path else Join [workspace, path]) in
        (case Rel workspace path' of
           None \<Rightarrow> Inl EventPathUnresolved
         | Some relative \<Rightarrow>
             if relative = ''.'' \<or> relative = ''..'' \<or> IsAbs relative \<or> isParentPath relative then Inl EventPathOutside
             else Inr relative))"

definition uniquePaths :: "str list \<Rightarrow> str list" where
  "uniquePaths paths = keep_first paths {}"

text \<open>The loop over the events: it stops at the first bad path and keeps what it has added.\<close>

fun enqueueEvents :: "str \<Rightarrow> str list \<Rightarrow> worker \<Rightarrow> worker \<times> queue_error option" where
  "enqueueEvents workspace [] w = (w, None)"
| "enqueueEvents workspace (event # events) w =
     (case normalizeEventPath workspace event of
        Inl err \<Rightarrow> (w, Some err)
      | Inr path \<Rightarrow>
          enqueueEvents workspace events
            (if path \<in> set (w_pendingSet w) then w
             else w\<lparr>w_pendingSet := path # w_pendingSet w, w_pending := w_pending w @ [path]\<rparr>))"

section \<open>Timers\<close>

definition putWorker :: "nat \<Rightarrow> worker \<Rightarrow> Manager \<Rightarrow> Manager" where
  "putWorker a w m = m\<lparr>m_heap := (m_heap m)(a \<mapsto> w)\<rparr>"

definition getWorker :: "Manager \<Rightarrow> nat \<Rightarrow> worker" where
  "getWorker m a = the (m_heap m a)"

definition afterFunc :: "timerKind \<Rightarrow> str \<Rightarrow> Duration \<Rightarrow> Manager \<Rightarrow> nat \<times> Manager" where
  "afterFunc kind workspace delay m =
     (m_next m, m\<lparr>m_timers := m_timers m @ [\<lparr>t_id = m_next m, t_kind = kind, t_workspace = workspace, t_delay = delay\<rparr>],
                  m_next := Suc (m_next m)\<rparr>)"

definition stopTimer :: "nat option \<Rightarrow> Manager \<Rightarrow> Manager" where
  "stopTimer handle m = (case handle of None \<Rightarrow> m | Some i \<Rightarrow> m\<lparr>m_timers := filter (\<lambda>t. t_id t \<noteq> i) (m_timers m)\<rparr>)"

definition scheduleAfterLocked :: "str \<Rightarrow> nat \<Rightarrow> Duration \<Rightarrow> Manager \<Rightarrow> Manager" where
  "scheduleAfterLocked workspace a delay m =
     (case afterFunc PublishTimer workspace delay m of
        (i, m1) \<Rightarrow> putWorker a ((getWorker m1 a)\<lparr>w_timer := Some i\<rparr>) m1)"

definition schedulePublishLocked :: "str \<Rightarrow> nat \<Rightarrow> Manager \<Rightarrow> Manager" where
  "schedulePublishLocked workspace a m = scheduleAfterLocked workspace a (m_throttle m) m"

definition scheduleReconciliationLocked :: "str \<Rightarrow> nat \<Rightarrow> Manager \<Rightarrow> Manager" where
  "scheduleReconciliationLocked workspace a m =
     (case afterFunc ReconcileTimer workspace (m_reconcile m) m of
        (i, m1) \<Rightarrow> putWorker a ((getWorker m1 a)\<lparr>w_reconcileTimer := Some i\<rparr>) m1)"

section \<open>Operations\<close>

text \<open>\<open>cwd\<close> is the result of \<^verbatim>\<open>os.Getwd\<close>, on which \<^verbatim>\<open>filepath.Abs\<close> depends. The part of \<^verbatim>\<open>Enqueue\<close> after it:\<close>

definition enqueueLocked :: "str \<Rightarrow> str list \<Rightarrow> Manager \<Rightarrow> Manager \<times> queue_error option" where
  "enqueueLocked workspace events m =
     (case m_workers m workspace of
        None \<Rightarrow> (m, Some NotRunning)
      | Some a \<Rightarrow>
          if w_stopping (getWorker m a) then (m, Some NotRunning)
          else (case enqueueEvents workspace events (getWorker m a) of
                  (w, Some err) \<Rightarrow> (putWorker a w m, Some err)
                | (w, None) \<Rightarrow>
                    let m1 = putWorker a (w\<lparr>w_status := (w_status w)\<lparr>su_QueuedPaths := w_pending w\<rparr>\<rparr>) m in
                    (if w_pending w \<noteq> [] \<and> \<not> w_publishing w \<and> w_timer w = None
                     then schedulePublishLocked workspace a m1 else m1, None)))"

definition Enqueue :: "str option \<Rightarrow> str \<Rightarrow> str list \<Rightarrow> Manager \<Rightarrow> Manager \<times> queue_error option" where
  "Enqueue cwd root events m =
     (case Abs cwd root of None \<Rightarrow> (m, Some RootUnresolved) | Some workspace \<Rightarrow> enqueueLocked workspace events m)"

text \<open>\<^verbatim>\<open>publish\<close>, up to the call of the publisher: the address of the worker and the paths to publish.\<close>

definition publishBegin :: "str \<Rightarrow> Manager \<Rightarrow> Manager \<times> (nat \<times> str list) option" where
  "publishBegin workspace m =
     (case m_workers m workspace of
        None \<Rightarrow> (m, None)
      | Some a \<Rightarrow>
          let w = getWorker m a in
          if w_stopping w \<or> w_publishing w \<or> w_pending w = [] then (m, None)
          else (putWorker a (w\<lparr>w_pending := [], w_pendingSet := [], w_status := (w_status w)\<lparr>su_QueuedPaths := []\<rparr>,
                  w_timer := None, w_publishing := True, w_publishDone := Some (m_next m)\<rparr>) (m\<lparr>m_next := Suc (m_next m)\<rparr>),
                Some (a, w_pending w)))"

datatype PublishOutcome = PublishOk | PublishError str | PublishPanic str

text \<open>\<^verbatim>\<open>callPublisher\<close> turns a panic into an error.\<close>

definition callPublisher :: "PublishOutcome \<Rightarrow> str option" where
  "callPublisher outcome =
     (case outcome of PublishOk \<Rightarrow> None | PublishError err \<Rightarrow> Some err | PublishPanic v \<Rightarrow> Some (''publish batch: '' @ v))"

definition nextRetryDelay :: "Manager \<Rightarrow> Duration \<Rightarrow> Duration" where
  "nextRetryDelay m delay =
     (if delay = 0 then m_retryBase m
      else let doubled = int64 (delay * 2) in if doubled > m_retryMax m then m_retryMax m else doubled)"

definition requeue :: "Manager \<Rightarrow> str list \<Rightarrow> str \<Rightarrow> worker \<Rightarrow> worker" where
  "requeue m paths err w =
     (let pending = uniquePaths (paths @ w_pending w) in
      w\<lparr>w_pending := pending, w_pendingSet := pending,
        w_status := (w_status w)\<lparr>su_Error := err, su_QueuedPaths := pending\<rparr>,
        w_retryDelay := nextRetryDelay m (w_retryDelay w)\<rparr>)"

text \<open>The rest of \<^verbatim>\<open>publish\<close>, on the worker whose address it kept: the worker, and the manager.\<close>

definition finished :: "Manager \<Rightarrow> nat \<Rightarrow> str list \<Rightarrow> str option \<Rightarrow> worker" where
  "finished m a paths err =
     (let w0 = (getWorker m a)\<lparr>w_publishing := False\<rparr> in
      case err of
        Some e \<Rightarrow> requeue m paths e w0
      | None \<Rightarrow> w0\<lparr>w_status := (w_status w0)\<lparr>su_Error := []\<rparr>, w_retryDelay := 0\<rparr>)"

definition publishEnd :: "str \<Rightarrow> nat \<Rightarrow> str list \<Rightarrow> str option \<Rightarrow> Manager \<Rightarrow> Manager" where
  "publishEnd workspace a paths err m =
     (let w = finished m a paths err;
          m1 = putWorker a w (m\<lparr>m_closed := the (w_publishDone w) # m_closed m\<rparr>) in
      if w_pending w \<noteq> [] \<and> \<not> w_stopping w \<and> w_timer w = None
      then scheduleAfterLocked workspace a (if err = None then m_throttle m else w_retryDelay w) m1 else m1)"

text \<open>\<^verbatim>\<open>reconcileWorkspace\<close>: whether the reconciler is called, and the section after it.\<close>

definition reconcileBegin :: "str \<Rightarrow> Manager \<Rightarrow> Manager \<times> bool" where
  "reconcileBegin workspace m =
     (case m_workers m workspace of
        None \<Rightarrow> (m, False)
      | Some a \<Rightarrow>
          if w_stopping (getWorker m a) \<or> \<not> m_reconciler m then (m, False)
          else (putWorker a ((getWorker m a)\<lparr>w_reconcileTimer := None\<rparr>) m, True))"

definition reconcileEnd :: "str \<Rightarrow> str option \<Rightarrow> Manager \<Rightarrow> Manager" where
  "reconcileEnd workspace err m =
     (case m_workers m workspace of
        None \<Rightarrow> m
      | Some a \<Rightarrow>
          let w = getWorker m a in
          if w_stopping w then m
          else scheduleReconciliationLocked workspace a
                 (putWorker a (case err of
                     None \<Rightarrow> w
                   | Some e \<Rightarrow> w\<lparr>w_status := (w_status w)\<lparr>su_Error := ''reconcile workspace: '' @ e\<rparr>\<rparr>) m))"

section \<open>Lifecycle\<close>

text \<open>\<open>acquired\<close> is the result of \<^verbatim>\<open>Acquire\<close>: an error or the endpoint.\<close>

definition newWorker :: "str \<Rightarrow> str \<Rightarrow> Time \<Rightarrow> Time \<Rightarrow> worker" where
  "newWorker workspace endpoint now deadline =
     \<lparr>w_status = \<lparr>su_Workspace = workspace, su_Endpoint = endpoint, su_Running = True, su_Activity = now,
        su_QueuedPaths = [], su_Error = [], su_IdleDeadline = deadline\<rparr>,
      w_pending = [], w_pendingSet = [], w_timer = None, w_publishing = False, w_stopping = False, w_publishDone = None,
      w_retryDelay = 0, w_reconcileTimer = None\<rparr>"

definition register :: "str \<Rightarrow> worker \<Rightarrow> Manager \<Rightarrow> Manager" where
  "register workspace w m =
     putWorker (m_next m) w (m\<lparr>m_workers := (m_workers m)(workspace \<mapsto> m_next m), m_next := Suc (m_next m)\<rparr>)"

definition startLocked :: "str \<Rightarrow> Time \<Rightarrow> str + str \<Rightarrow> Manager \<Rightarrow> Manager \<times> (queue_error + Status)" where
  "startLocked workspace now acquired m =
     (case m_workers m workspace of
        Some a \<Rightarrow>
          let w = getWorker m a;
              status = (w_status w)\<lparr>su_Activity := now, su_IdleDeadline := now + m_idle m\<rparr> in
          (putWorker a (w\<lparr>w_status := status\<rparr>) m, Inr status)
      | None \<Rightarrow>
          (case acquired of
             Inl err \<Rightarrow> (m, Inl (AcquireFailed err))
           | Inr endpoint \<Rightarrow>
               let w = newWorker workspace endpoint now (now + m_idle m);
                   m1 = register workspace w m in
               (if m_reconciler m then scheduleReconciliationLocked workspace (m_next m) m1 else m1, Inr (w_status w))))"

definition absentStatus :: "str \<Rightarrow> Status" where
  "absentStatus workspace = \<lparr>su_Workspace = workspace, su_Endpoint = [], su_Running = False, su_Activity = 0,
     su_QueuedPaths = [], su_Error = [], su_IdleDeadline = 0\<rparr>"

definition statusLocked :: "str \<Rightarrow> Manager \<Rightarrow> Status \<times> bool" where
  "statusLocked workspace m =
     (case m_workers m workspace of None \<Rightarrow> (absentStatus workspace, False) | Some a \<Rightarrow> (w_status (getWorker m a), True))"

definition touchLocked :: "str \<Rightarrow> Time \<Rightarrow> Manager \<Rightarrow> Manager \<times> Status \<times> bool" where
  "touchLocked workspace now m =
     (case m_workers m workspace of
        None \<Rightarrow> (m, absentStatus workspace, False)
      | Some a \<Rightarrow>
          let w = getWorker m a;
              status = (w_status w)\<lparr>su_Activity := now, su_IdleDeadline := now + m_idle m\<rparr> in
          (putWorker a (w\<lparr>w_status := status\<rparr>) m, status, True))"

datatype StopResult = Stopped | StopFailed | StopWait nat

text \<open>One round of the loop of \<^verbatim>\<open>Stop\<close>; \<open>closes\<close> tells whether \<^verbatim>\<open>owner.Close\<close> succeeds.\<close>

definition stopRound :: "str \<Rightarrow> bool \<Rightarrow> Manager \<Rightarrow> Manager \<times> StopResult" where
  "stopRound workspace closes m =
     (case m_workers m workspace of
        None \<Rightarrow> (m, Stopped)
      | Some a \<Rightarrow>
          let w = getWorker m a;
              m1 = putWorker a (w\<lparr>w_stopping := True, w_timer := None, w_reconcileTimer := None\<rparr>)
                     (stopTimer (w_reconcileTimer w) (stopTimer (w_timer w) m)) in
          if w_publishing w then (m1, StopWait (the (w_publishDone w)))
          else if \<not> closes then (putWorker a ((getWorker m1 a)\<lparr>w_stopping := False\<rparr>) m1, StopFailed)
          else (m1\<lparr>m_workers := (m_workers m1)(workspace := None)\<rparr>, Stopped))"

text \<open>The exported operations resolve the root first and return an error before they lock.\<close>

definition Start :: "str option \<Rightarrow> str \<Rightarrow> Time \<Rightarrow> str + str \<Rightarrow> Manager \<Rightarrow> Manager \<times> (queue_error + Status)" where
  "Start cwd root now acquired m =
     (case Abs cwd root of None \<Rightarrow> (m, Inl RootUnresolved) | Some workspace \<Rightarrow> startLocked workspace now acquired m)"

definition ManagerStatus :: "str option \<Rightarrow> str \<Rightarrow> Manager \<Rightarrow> queue_error + Status \<times> bool" where
  "ManagerStatus cwd root m = (case Abs cwd root of None \<Rightarrow> Inl RootUnresolved | Some workspace \<Rightarrow> Inr (statusLocked workspace m))"

definition Touch :: "str option \<Rightarrow> str \<Rightarrow> Time \<Rightarrow> Manager \<Rightarrow> Manager \<times> (queue_error + Status \<times> bool)" where
  "Touch cwd root now m =
     (case Abs cwd root of
        None \<Rightarrow> (m, Inl RootUnresolved)
      | Some workspace \<Rightarrow> (case touchLocked workspace now m of (m', result) \<Rightarrow> (m', Inr result)))"

section \<open>Interleaved execution\<close>

text \<open>Goroutines: waiting for the mutex in \<^verbatim>\<open>publish\<close>, in the publisher, waiting in \<^verbatim>\<open>reconcileWorkspace\<close>, in the
  reconciler, before the last section of \<^verbatim>\<open>reconcileWorkspace\<close>, at the head of the loop of \<^verbatim>\<open>Stop\<close>, and
  blocked there on a channel.\<close>

datatype call =
    PublishCall str | PublisherCall str nat "str list"
  | ReconcileCall str | ReconcilerCall str | ReconcileReturn str "str option"
  | StopCall str | StopWaiting str nat

datatype label =
    Internal | Enqueued str "str list" "queue_error option" | Published nat "str list" | PublishFailed nat "str list" | CloseError str
  | Discarded str nat "str list"

type_synonym system = "Manager \<times> call multiset"

definition timerCall :: "timer \<Rightarrow> call" where
  "timerCall t = (case t_kind t of PublishTimer \<Rightarrow> PublishCall (t_workspace t) | ReconcileTimer \<Rightarrow> ReconcileCall (t_workspace t))"

text \<open>A round of \<^verbatim>\<open>Stop\<close> that removes a worker is labelled with the queue that goes with it.\<close>

definition stopLabel :: "str \<Rightarrow> Manager \<Rightarrow> StopResult \<Rightarrow> label" where
  "stopLabel ws m result =
     (case result of
        StopFailed \<Rightarrow> CloseError ws
      | StopWait ch \<Rightarrow> Internal
      | Stopped \<Rightarrow> (case m_workers m ws of None \<Rightarrow> Internal | Some a \<Rightarrow> Discarded ws a (w_pending (getWorker m a))))"

inductive step :: "system \<Rightarrow> label \<Rightarrow> system \<Rightarrow> bool" where
  start: "startLocked ws now acquired m = (m', result) \<Longrightarrow> step (m, C) Internal (m', C)"
| touch: "touchLocked ws now m = (m', result) \<Longrightarrow> step (m, C) Internal (m', C)"
| enqueue: "enqueueLocked ws events m = (m', err) \<Longrightarrow> step (m, C) (Enqueued ws events err) (m', C)"
| fire: "t \<in> set (m_timers m) \<Longrightarrow>
    step (m, C) Internal (m\<lparr>m_timers := filter (\<lambda>u. t_id u \<noteq> t_id t) (m_timers m)\<rparr>, add_mset (timerCall t) C)"
| publish_skip: "publishBegin ws m = (m', None) \<Longrightarrow> step (m, add_mset (PublishCall ws) C) Internal (m', C)"
| publish_call: "publishBegin ws m = (m', Some (a, paths)) \<Longrightarrow>
    step (m, add_mset (PublishCall ws) C) Internal (m', add_mset (PublisherCall ws a paths) C)"
| publish_return: "err = callPublisher outcome \<Longrightarrow>
    step (m, add_mset (PublisherCall ws a paths) C) (if err = None then Published a paths else PublishFailed a paths)
      (publishEnd ws a paths err m, C)"
| reconcile_skip: "reconcileBegin ws m = (m', False) \<Longrightarrow> step (m, add_mset (ReconcileCall ws) C) Internal (m', C)"
| reconcile_call: "reconcileBegin ws m = (m', True) \<Longrightarrow>
    step (m, add_mset (ReconcileCall ws) C) Internal (m', add_mset (ReconcilerCall ws) C)"
| reconcile_none: "step (m, add_mset (ReconcilerCall ws) C) Internal (m, add_mset (ReconcileReturn ws err) C)"
| reconcile_events: "events \<noteq> [] \<Longrightarrow> enqueueLocked ws events m = (m', err) \<Longrightarrow> (err = None \<longleftrightarrow> text = None) \<Longrightarrow>
    step (m, add_mset (ReconcilerCall ws) C) (Enqueued ws events err) (m', add_mset (ReconcileReturn ws text) C)"
| reconcile_return: "step (m, add_mset (ReconcileReturn ws err) C) Internal (reconcileEnd ws err m, C)"
| stop: "step (m, C) Internal (m, add_mset (StopCall ws) C)"
| stop_round: "stopRound ws closes m = (m', result) \<Longrightarrow>
    step (m, add_mset (StopCall ws) C) (stopLabel ws m result)
      (m', case result of StopWait ch \<Rightarrow> add_mset (StopWaiting ws ch) C | _ \<Rightarrow> C)"
| stop_wake: "ch \<in> set (m_closed m) \<Longrightarrow>
    step (m, add_mset (StopWaiting ws ch) C) Internal (m, add_mset (StopCall ws) C)"

text \<open>Runs of the system, with their labels.\<close>

inductive run :: "system \<Rightarrow> label list \<Rightarrow> system \<Rightarrow> bool" where
  run_refl: "run s [] s"
| run_step: "run s ls s' \<Longrightarrow> step s' l s'' \<Longrightarrow> run s (ls @ [l]) s''"

inductive managerOption :: "ManagerOption \<Rightarrow> bool" where
  "managerOption (WithPublishThrottle throttle)"
| "managerOption (WithIdleTimeout timeout)"
| "managerOption (WithRetryBackoff base maximum)"
| "managerOption (WithReconciler reconciler)"
| "managerOption (WithReconciliationInterval interval)"

definition reachable :: "ManagerOption list \<Rightarrow> label list \<Rightarrow> system \<Rightarrow> bool" where
  "reachable options ls s \<longleftrightarrow> list_all managerOption options \<and> run (NewManager options, {#}) ls s"

section \<open>Invariants of a worker\<close>

definition workerOk :: "worker \<Rightarrow> bool" where
  "workerOk w \<longleftrightarrow> distinct (w_pending w) \<and> set (w_pendingSet w) = set (w_pending w) \<and>
     prefix (su_QueuedPaths (w_status w)) (w_pending w) \<and>
     (w_publishing w \<longrightarrow> w_timer w = None \<and> w_publishDone w \<noteq> None) \<and> (w_stopping w \<longrightarrow> w_timer w = None) \<and>
     (w_timer w \<noteq> None \<longrightarrow> w_pending w \<noteq> [])"

text \<open>What \<^verbatim>\<open>Enqueue\<close> adds to the queue is at its end.\<close>

lemma enqueueEvents_shape:
  assumes "enqueueEvents ws events w = (w', err)"
  shows "\<exists>new seen. w' = w\<lparr>w_pendingSet := seen, w_pending := w_pending w @ new\<rparr> \<and>
    (workerOk w \<longrightarrow> set seen = set (w_pending w @ new) \<and> distinct (w_pending w @ new))"
proof -
  have "\<exists>new seen. w' = w\<lparr>w_pendingSet := seen, w_pending := w_pending w @ new\<rparr> \<and>
      (distinct (w_pending w) \<and> set (w_pendingSet w) = set (w_pending w) \<longrightarrow>
         set seen = set (w_pending w @ new) \<and> distinct (w_pending w @ new))"
    using assms
  proof (induction ws events w rule: enqueueEvents.induct)
    case (1 ws w)
    then show ?case by (intro exI [of _ "[]"] exI [of _ "w_pendingSet w"]) simp
  next
    case (2 ws event events w)
    show ?case
    proof (cases "normalizeEventPath ws event")
      case (Inl e)
      then show ?thesis using "2.prems" by (intro exI [of _ "[]"] exI [of _ "w_pendingSet w"]) simp
    next
      case (Inr path)
      note IH = "2.IH" [OF Inr]
      have rest: "enqueueEvents ws events (if path \<in> set (w_pendingSet w) then w
          else w\<lparr>w_pendingSet := path # w_pendingSet w, w_pending := w_pending w @ [path]\<rparr>) = (w', err)"
        using "2.prems" Inr by simp
      show ?thesis
      proof (cases "path \<in> set (w_pendingSet w)")
        case True
        show ?thesis by (rule IH [OF rest, unfolded if_P [OF True]])
      next
        case False
        then obtain new seen where "w' = w\<lparr>w_pendingSet := seen, w_pending := w_pending w @ path # new\<rparr>"
          "distinct (w_pending w @ [path]) \<and> set (path # w_pendingSet w) = set (w_pending w @ [path]) \<longrightarrow>
             set seen = set (w_pending w @ path # new) \<and> distinct (w_pending w @ path # new)"
          using IH [OF rest] by auto
        then show ?thesis using False by (intro exI [of _ "path # new"] exI [of _ seen]) auto
      qed
    qed
  qed
  moreover have "workerOk w \<Longrightarrow> distinct (w_pending w) \<and> set (w_pendingSet w) = set (w_pending w)"
    by (simp add: workerOk_def)
  ultimately show ?thesis by blast
qed

section \<open>Invariants of the manager\<close>

definition storeOk :: "Manager \<Rightarrow> bool" where
  "storeOk m \<longleftrightarrow> (\<forall>ws a. m_workers m ws = Some a \<longrightarrow> m_heap m a \<noteq> None) \<and>
     (\<forall>ws ws' a. m_workers m ws = Some a \<longrightarrow> m_workers m ws' = Some a \<longrightarrow> ws = ws') \<and>
     (\<forall>a w. m_heap m a = Some w \<longrightarrow> a < m_next m \<and> workerOk w)"

definition timersOk :: "Manager \<Rightarrow> bool" where
  "timersOk m \<longleftrightarrow> distinct (map t_id (m_timers m)) \<and> (\<forall>t \<in> set (m_timers m). t_id t < m_next m)"

lemmas manager_defs = putWorker_def getWorker_def afterFunc_def stopTimer_def scheduleAfterLocked_def schedulePublishLocked_def
  scheduleReconciliationLocked_def Let_def

lemma storeOk_put:
  "storeOk m \<Longrightarrow> m_workers m ws = Some a \<Longrightarrow> workerOk w \<Longrightarrow> storeOk (putWorker a w m)"
  unfolding storeOk_def putWorker_def by (auto, blast)

lemma storeOk_fields:
  "storeOk (m\<lparr>m_timers := T\<rparr>) = storeOk m" "storeOk (m\<lparr>m_closed := K\<rparr>) = storeOk m"
  "storeOk m \<Longrightarrow> m_next m \<le> n \<Longrightarrow> storeOk (m\<lparr>m_next := n\<rparr>)"
  unfolding storeOk_def by simp_all (meson less_le_trans)

lemma storeOk_get: "storeOk m \<Longrightarrow> m_workers m ws = Some a \<Longrightarrow> workerOk (getWorker m a)"
  by (fastforce simp: storeOk_def getWorker_def)

lemma storeOk_scheduleAfter:
  assumes "storeOk m" "m_workers m ws = Some a" "w_pending (getWorker m a) \<noteq> []"
    "\<not> w_publishing (getWorker m a)" "\<not> w_stopping (getWorker m a)"
  shows "storeOk (scheduleAfterLocked ws a delay m)"
proof -
  have "workerOk ((getWorker m a)\<lparr>w_timer := Some i\<rparr>)" for i
    using storeOk_get [OF assms(1,2)] assms(3-5) by (simp add: workerOk_def)
  moreover have "storeOk (m\<lparr>m_timers := T, m_next := Suc (m_next m)\<rparr>)" for T
    using assms(1) by (auto simp: storeOk_def intro: less_SucI)
  ultimately show ?thesis
    using assms(2) by (simp add: scheduleAfterLocked_def afterFunc_def getWorker_def storeOk_put)
qed

lemma storeOk_scheduleReconciliation:
  assumes "storeOk m" "m_workers m ws = Some a"
  shows "storeOk (scheduleReconciliationLocked ws a m)"
proof -
  have "workerOk ((getWorker m a)\<lparr>w_reconcileTimer := Some i\<rparr>)" for i
    using storeOk_get [OF assms(1,2)] by (simp add: workerOk_def)
  moreover have "storeOk (m\<lparr>m_timers := T, m_next := Suc (m_next m)\<rparr>)" for T
    using assms(1) by (auto simp: storeOk_def intro: less_SucI)
  ultimately show ?thesis
    using assms(2) by (simp add: scheduleReconciliationLocked_def afterFunc_def getWorker_def storeOk_put)
qed

lemma get_put [simp]: "getWorker (putWorker a w m) b = (if b = a then w else getWorker m b)"
  by (simp add: getWorker_def putWorker_def)

lemma getWorker_fields [simp]:
  "getWorker (m\<lparr>m_timers := T\<rparr>) = getWorker m" "getWorker (m\<lparr>m_closed := K\<rparr>) = getWorker m"
  "getWorker (m\<lparr>m_next := n\<rparr>) = getWorker m" "getWorker (m\<lparr>m_workers := W\<rparr>) = getWorker m"
  by (simp_all add: getWorker_def fun_eq_iff)

lemma put_workers [simp]: "m_workers (putWorker a w m) = m_workers m"
  by (simp add: putWorker_def)

lemma storeOk_enqueue:
  assumes "storeOk m" "enqueueLocked ws events m = (m', err)"
  shows "storeOk m'"
proof (cases "m_workers m ws")
  case (Some a)
  note w = storeOk_get [OF assms(1) Some]
  show ?thesis
  proof (cases "w_stopping (getWorker m a)")
    case False
    obtain w' e where run: "enqueueEvents ws events (getWorker m a) = (w', e)" by (cases "enqueueEvents ws events (getWorker m a)")
    from run obtain new seen where w': "w' = (getWorker m a)\<lparr>w_pendingSet := seen, w_pending := w_pending (getWorker m a) @ new\<rparr>"
      "set seen = set (w_pending (getWorker m a) @ new) \<and> distinct (w_pending (getWorker m a) @ new)"
      using enqueueEvents_shape w by blast
    have "workerOk w'" "workerOk (w'\<lparr>w_status := (w_status w')\<lparr>su_QueuedPaths := w_pending w'\<rparr>\<rparr>)"
      using w w'(2) unfolding w'(1) workerOk_def by (auto simp: prefix_def)
    note ok = storeOk_put [OF assms(1) Some this(1)] storeOk_put [OF assms(1) Some this(2)]
    have "storeOk (schedulePublishLocked ws a (putWorker a (w'\<lparr>w_status := (w_status w')\<lparr>su_QueuedPaths := w_pending w'\<rparr>\<rparr>) m))"
      if "w_pending w' \<noteq> []" "\<not> w_publishing w'"
      unfolding schedulePublishLocked_def
      by (rule storeOk_scheduleAfter [OF ok(2)]) (use Some that False w'(1) in auto)
    then show ?thesis
      using assms(2) Some False run ok by (cases e) (auto simp: enqueueLocked_def Let_def split: if_splits)
  qed (use assms Some in \<open>simp add: enqueueLocked_def\<close>)
qed (use assms in \<open>simp add: enqueueLocked_def\<close>)

lemma workerOk_status [simp]:
  "su_QueuedPaths st = su_QueuedPaths (w_status w) \<Longrightarrow> workerOk (w\<lparr>w_status := st\<rparr>) = workerOk w"
  by (simp add: workerOk_def)

lemma publishBegin_Some:
  assumes "publishBegin ws m = (m', Some (a, paths))"
  shows "m_workers m ws = Some a" "paths = w_pending (getWorker m a)" "paths \<noteq> []"
    "\<not> w_stopping (getWorker m a)" "\<not> w_publishing (getWorker m a)"
    "m' = putWorker a ((getWorker m a)\<lparr>w_pending := [], w_pendingSet := [],
        w_status := (w_status (getWorker m a))\<lparr>su_QueuedPaths := []\<rparr>,
        w_timer := None, w_publishing := True, w_publishDone := Some (m_next m)\<rparr>) (m\<lparr>m_next := Suc (m_next m)\<rparr>)"
  using assms by (auto simp: publishBegin_def Let_def split: option.splits if_splits)

lemma publishBegin_None: "publishBegin ws m = (m', None) \<Longrightarrow> m' = m"
  by (auto simp: publishBegin_def Let_def split: option.splits if_splits)

lemma storeOk_publishBegin:
  assumes "storeOk m" "publishBegin ws m = (m', Some (a, paths))"
  shows "storeOk m'"
proof -
  have "workerOk ((getWorker m a)\<lparr>w_pending := [], w_pendingSet := [],
        w_status := (w_status (getWorker m a))\<lparr>su_QueuedPaths := []\<rparr>,
        w_timer := None, w_publishing := True, w_publishDone := Some (m_next m)\<rparr>)"
    by (simp add: workerOk_def)
  then show ?thesis
    unfolding publishBegin_Some(6) [OF assms(2)]
    by (intro storeOk_put [of _ ws] storeOk_fields(3)) (use assms(1) publishBegin_Some(1) [OF assms(2)] in auto)
qed

lemma finished_fields [simp]:
  "w_publishing (finished m a paths err) = False" "w_stopping (finished m a paths err) = w_stopping (getWorker m a)"
  "w_timer (finished m a paths err) = w_timer (getWorker m a)" "w_publishDone (finished m a paths err) = w_publishDone (getWorker m a)"
  "w_reconcileTimer (finished m a paths err) = w_reconcileTimer (getWorker m a)"
  by (auto simp: finished_def requeue_def Let_def split: option.splits)

lemma finished_pending:
  "w_pending (finished m a paths err) = (if err = None then w_pending (getWorker m a) else uniquePaths (paths @ w_pending (getWorker m a)))"
  by (auto simp: finished_def requeue_def Let_def split: option.splits)

lemma finished_ok: "workerOk (getWorker m a) \<Longrightarrow> w_publishing (getWorker m a) \<Longrightarrow> workerOk (finished m a paths err)"
  by (cases err) (simp_all add: finished_def requeue_def workerOk_def uniquePaths_def Let_def)

lemma storeOk_publishEnd:
  assumes "storeOk m" "m_workers m ws = Some a" "w_publishing (getWorker m a)"
  shows "storeOk (publishEnd ws a paths err m)"
proof -
  have "workerOk (finished m a paths err)" using finished_ok storeOk_get assms by blast
  then have ok: "storeOk (putWorker a (finished m a paths err) (m\<lparr>m_closed := K\<rparr>))" for K
    by (intro storeOk_put [of _ ws]) (use assms in \<open>simp_all add: storeOk_fields\<close>)
  have "storeOk (scheduleAfterLocked ws a delay (putWorker a (finished m a paths err) (m\<lparr>m_closed := K\<rparr>)))"
    if "w_pending (finished m a paths err) \<noteq> []" "\<not> w_stopping (getWorker m a)" for K delay
    by (rule storeOk_scheduleAfter [OF ok]) (use assms that in simp_all)
  then show ?thesis using ok unfolding publishEnd_def Let_def by simp
qed

lemma storeOk_reconcileBegin: "storeOk m \<Longrightarrow> reconcileBegin ws m = (m', called) \<Longrightarrow> storeOk m'"
proof -
  assume ok: "storeOk m" and run: "reconcileBegin ws m = (m', called)"
  have "workerOk ((getWorker m a)\<lparr>w_reconcileTimer := None\<rparr>)" if "m_workers m ws = Some a" for a
    using storeOk_get [OF ok that] by (simp add: workerOk_def)
  then show "storeOk m'"
    using ok run by (auto simp: reconcileBegin_def intro!: storeOk_put split: option.splits if_splits)
qed

lemma storeOk_reconcileEnd: "storeOk m \<Longrightarrow> storeOk (reconcileEnd ws err m)"
  by (auto simp: reconcileEnd_def Let_def storeOk_get intro!: storeOk_scheduleReconciliation storeOk_put split: option.splits)

lemma storeOk_touch: "storeOk m \<Longrightarrow> touchLocked ws now m = (m', result) \<Longrightarrow> storeOk m'"
  by (auto simp: touchLocked_def Let_def storeOk_get intro!: storeOk_put split: option.splits)

lemma storeOk_fresh: "storeOk m \<Longrightarrow> m_heap m (m_next m) = None" "storeOk m \<Longrightarrow> m_workers m ws \<noteq> Some (m_next m)"
proof -
  assume ok: "storeOk m"
  show fresh: "m_heap m (m_next m) = None" using ok by (cases "m_heap m (m_next m)") (auto simp: storeOk_def)
  show "m_workers m ws \<noteq> Some (m_next m)"
  proof
    assume "m_workers m ws = Some (m_next m)"
    then have "m_heap m (m_next m) \<noteq> None" using ok unfolding storeOk_def by blast
    then show False using fresh by simp
  qed
qed

lemma workerOk_new: "workerOk (newWorker ws endpoint now deadline)"
  by (simp add: workerOk_def newWorker_def)

lemma storeOk_register:
  assumes "storeOk m" "workerOk w"
  shows "storeOk (register ws w m)"
  using assms storeOk_fresh [OF assms(1)] unfolding storeOk_def register_def putWorker_def by (auto intro: less_SucI)

lemma register_workers [simp]: "m_workers (register ws w m) = (m_workers m)(ws \<mapsto> m_next m)"
  by (simp add: register_def)

lemma storeOk_start:
  assumes "storeOk m" "startLocked ws now acquired m = (m', result)"
  shows "storeOk m'"
proof (cases "m_workers m ws")
  case None
  have "storeOk (register ws (newWorker ws endpoint now deadline) m)" for endpoint deadline
    by (rule storeOk_register [OF assms(1) workerOk_new])
  then show ?thesis
    using assms None by (auto simp: startLocked_def Let_def intro!: storeOk_scheduleReconciliation split: sum.splits if_splits)
qed (use assms in \<open>auto simp: startLocked_def Let_def storeOk_get intro!: storeOk_put\<close>)

lemma storeOk_stop:
  assumes "storeOk m" "stopRound ws closes m = (m', result)"
  shows "storeOk m'"
proof (cases "m_workers m ws")
  case (Some a)
  let ?w = "(getWorker m a)\<lparr>w_stopping := True, w_timer := None, w_reconcileTimer := None\<rparr>"
  let ?m = "stopTimer (w_reconcileTimer (getWorker m a)) (stopTimer (w_timer (getWorker m a)) m)"
  have m: "storeOk ?m" "m_workers ?m = m_workers m"
    using assms(1) by (auto simp: stopTimer_def storeOk_fields split: option.splits)
  have "workerOk ?w" "workerOk (?w\<lparr>w_stopping := False\<rparr>)" using storeOk_get [OF assms(1) Some] by (auto simp: workerOk_def)
  then have "storeOk (putWorker a ?w ?m)" "storeOk (putWorker a (?w\<lparr>w_stopping := False\<rparr>) (putWorker a ?w ?m))"
    using m Some by (auto intro!: storeOk_put)
  moreover from this(1) have "storeOk ((putWorker a ?w ?m)\<lparr>m_workers := (m_workers m)(ws := None)\<rparr>)"
    using m(2) by (auto simp: storeOk_def split: if_splits)
  ultimately show ?thesis
    using assms(2) Some m(2) by (auto simp: stopRound_def Let_def split: if_splits)
qed (use assms in \<open>simp add: stopRound_def\<close>)

section \<open>Publications in flight\<close>

fun publisherOf :: "call \<Rightarrow> nat option" where
  "publisherOf (PublisherCall ws a paths) = Some a"
| "publisherOf _ = None"

definition publishers :: "call multiset \<Rightarrow> nat \<Rightarrow> nat" where
  "publishers C a = size (filter_mset (\<lambda>c. publisherOf c = Some a) C)"

text \<open>The channel of the publication a worker is engaged in.\<close>

definition pubs :: "Manager \<Rightarrow> nat \<Rightarrow> nat option option" where
  "pubs m a = (case m_heap m a of None \<Rightarrow> None | Some w \<Rightarrow> if w_publishing w then Some (w_publishDone w) else None)"

definition flightOk :: "Manager \<Rightarrow> call multiset \<Rightarrow> bool" where
  "flightOk m C \<longleftrightarrow>
     (\<forall>a. publishers C a = (if pubs m a = None then 0 else 1)) \<and>
     (\<forall>ws a paths. PublisherCall ws a paths \<in># C \<longrightarrow> m_workers m ws = Some a) \<and>
     (\<forall>a d. pubs m a = Some d \<longrightarrow> (\<exists>ch. d = Some ch \<and> ch < m_next m \<and> ch \<notin> set (m_closed m))) \<and>
     (\<forall>a b d. pubs m a = Some d \<longrightarrow> pubs m b = Some d \<longrightarrow> a = b) \<and>
     (\<forall>ws ch. StopWaiting ws ch \<in># C \<longrightarrow> ch \<in> set (m_closed m) \<or> (\<exists>a. pubs m a = Some (Some ch))) \<and>
     (\<forall>ch \<in> set (m_closed m). ch < m_next m)"

lemma flightOkD:
  assumes "flightOk m C"
  shows "publishers C a = (if pubs m a = None then 0 else 1)"
    "PublisherCall ws a paths \<in># C \<Longrightarrow> m_workers m ws = Some a"
    "pubs m a = Some d \<Longrightarrow> \<exists>ch. d = Some ch \<and> ch < m_next m \<and> ch \<notin> set (m_closed m)"
    "pubs m a = Some d \<Longrightarrow> pubs m b = Some d \<Longrightarrow> a = b"
    "StopWaiting ws ch \<in># C \<Longrightarrow> ch \<in> set (m_closed m) \<or> (\<exists>a. pubs m a = Some (Some ch))"
    "ch \<in> set (m_closed m) \<Longrightarrow> ch < m_next m"
  using assms unfolding flightOk_def by blast+

lemma flightOkI:
  assumes "\<And>a. publishers C a = (if pubs m a = None then 0 else 1)"
    "\<And>ws a paths. PublisherCall ws a paths \<in># C \<Longrightarrow> m_workers m ws = Some a"
    "\<And>a d. pubs m a = Some d \<Longrightarrow> \<exists>ch. d = Some ch \<and> ch < m_next m \<and> ch \<notin> set (m_closed m)"
    "\<And>a b d. pubs m a = Some d \<Longrightarrow> pubs m b = Some d \<Longrightarrow> a = b"
    "\<And>ws ch. StopWaiting ws ch \<in># C \<Longrightarrow> ch \<in> set (m_closed m) \<or> (\<exists>a. pubs m a = Some (Some ch))"
    "\<And>ch. ch \<in> set (m_closed m) \<Longrightarrow> ch < m_next m"
  shows "flightOk m C"
  using assms unfolding flightOk_def by blast

text \<open>Most operations keep the channels and the goroutines in the publisher.\<close>

definition plainCall :: "call \<Rightarrow> bool" where
  "plainCall c \<longleftrightarrow> publisherOf c = None \<and> (\<forall>ws ch. c \<noteq> StopWaiting ws ch)"

lemma publishers_add [simp]: "publishers (add_mset c C) a = (if publisherOf c = Some a then Suc (publishers C a) else publishers C a)"
  by (simp add: publishers_def)

lemma flightOk_plain: "plainCall c \<Longrightarrow> flightOk m (add_mset c C) = flightOk m C"
  unfolding flightOk_def plainCall_def by (cases c) auto

lemma plainCall_simps [simp]:
  "plainCall (PublishCall ws)" "plainCall (ReconcileCall ws)" "plainCall (ReconcilerCall ws)" "plainCall (ReconcileReturn ws err)"
  "plainCall (StopCall ws)" "plainCall (timerCall t)"
  by (simp_all add: plainCall_def timerCall_def split: timerKind.splits)

lemma flightOk_cong:
  assumes "flightOk m C" "pubs m' = pubs m" "m_closed m' = m_closed m" "m_next m \<le> m_next m'"
    "\<And>ws a paths. PublisherCall ws a paths \<in># C \<Longrightarrow> m_workers m' ws = m_workers m ws"
  shows "flightOk m' C"
  using assms unfolding flightOk_def by (simp) (meson less_le_trans)

lemma flightOk_drop_wait: "flightOk m (add_mset (StopWaiting ws ch) C) \<Longrightarrow> flightOk m C"
  unfolding flightOk_def by simp

lemma pubs_put: "pubs (putWorker a w m) = (pubs m)(a := if w_publishing w then Some (w_publishDone w) else None)"
  by (auto simp: pubs_def putWorker_def fun_eq_iff)

lemma pubs_registered:
  "storeOk m \<Longrightarrow> m_workers m ws = Some a \<Longrightarrow>
     pubs m a = (if w_publishing (getWorker m a) then Some (w_publishDone (getWorker m a)) else None)"
  by (fastforce simp: storeOk_def pubs_def getWorker_def split: option.splits)

lemma pubs_fields [simp]:
  "pubs (m\<lparr>m_timers := T\<rparr>) = pubs m" "pubs (m\<lparr>m_closed := K\<rparr>) = pubs m" "pubs (m\<lparr>m_next := n\<rparr>) = pubs m"
  "pubs (m\<lparr>m_workers := W\<rparr>) = pubs m"
  by (simp_all add: pubs_def fun_eq_iff)

text \<open>A worker that is put back with the same publication.\<close>

lemma pubs_put_same:
  assumes "storeOk m" "m_workers m ws = Some a" "w_publishing w = w_publishing (getWorker m a)"
    "w_publishDone w = w_publishDone (getWorker m a)"
  shows "pubs (putWorker a w m) = pubs m"
  using pubs_registered [OF assms(1,2)] assms(3,4) by (simp add: pubs_put fun_eq_iff)

lemma pubs_schedule:
  assumes "storeOk m" "m_workers m ws = Some a"
  shows "pubs (scheduleAfterLocked ws a delay m) = pubs m" "pubs (scheduleReconciliationLocked ws a m) = pubs m"
  using pubs_registered [OF assms] by (auto simp: scheduleAfterLocked_def scheduleReconciliationLocked_def afterFunc_def pubs_put fun_eq_iff getWorker_def)

lemma schedule_fields [simp]:
  "m_workers (scheduleAfterLocked ws a delay m) = m_workers m" "m_workers (scheduleReconciliationLocked ws a m) = m_workers m"
  "m_closed (scheduleAfterLocked ws a delay m) = m_closed m" "m_closed (scheduleReconciliationLocked ws a m) = m_closed m"
  "m_next (scheduleAfterLocked ws a delay m) = Suc (m_next m)" "m_next (scheduleReconciliationLocked ws a m) = Suc (m_next m)"
  by (simp_all add: scheduleAfterLocked_def scheduleReconciliationLocked_def afterFunc_def putWorker_def)

lemma put_fields [simp]:
  "m_closed (putWorker a w m) = m_closed m" "m_next (putWorker a w m) = m_next m" "m_timers (putWorker a w m) = m_timers m"
  by (simp_all add: putWorker_def)

text \<open>Effect of the operations on workers, channels and numbers.\<close>

definition keepsFlights :: "Manager \<Rightarrow> Manager \<Rightarrow> bool" where
  "keepsFlights m m' \<longleftrightarrow> pubs m' = pubs m \<and> m_closed m' = m_closed m \<and> m_next m \<le> m_next m' \<and>
     (\<forall>ws a. m_workers m ws = Some a \<longrightarrow> m_workers m' ws = Some a)"

lemma keepsFlights_refl: "keepsFlights m m"
  by (simp add: keepsFlights_def)

lemma flightOk_registered: "flightOk m C \<Longrightarrow> PublisherCall ws a paths \<in># C \<Longrightarrow> m_workers m ws = Some a"
  by (auto simp: flightOk_def)

lemma flightOk_keeps: "flightOk m C \<Longrightarrow> keepsFlights m m' \<Longrightarrow> flightOk m' C"
  using flightOk_registered by (intro flightOk_cong [of m C m']) (fastforce simp: keepsFlights_def)+

lemma keepsFlights_enqueue:
  assumes "storeOk m" "enqueueLocked ws events m = (m', err)"
  shows "keepsFlights m m'"
proof (cases "m_workers m ws")
  case (Some a)
  obtain w e where run: "enqueueEvents ws events (getWorker m a) = (w, e)" by (cases "enqueueEvents ws events (getWorker m a)")
  from enqueueEvents_shape [OF this] have w: "w_publishing w = w_publishing (getWorker m a)" "w_publishDone w = w_publishDone (getWorker m a)"
    "workerOk (getWorker m a) \<Longrightarrow> workerOk w"
    by (auto simp: workerOk_def prefix_def)
  let ?w = "w\<lparr>w_status := (w_status w)\<lparr>su_QueuedPaths := w_pending w\<rparr>\<rparr>"
  have "workerOk ?w" using w(3) storeOk_get [OF assms(1) Some] by (simp add: workerOk_def)
  then have "storeOk (putWorker a ?w m)" by (rule storeOk_put [OF assms(1) Some])
  then have pubs: "pubs (putWorker a w m) = pubs m" "pubs (putWorker a ?w m) = pubs m"
    "pubs (schedulePublishLocked ws a (putWorker a ?w m)) = pubs m"
    using pubs_put_same [OF assms(1) Some] w(1,2) Some by (simp_all add: schedulePublishLocked_def pubs_schedule)
  then show ?thesis
    using assms(2) Some run by (cases e) (auto simp: enqueueLocked_def Let_def keepsFlights_def schedulePublishLocked_def split: if_splits)
qed (use assms(2) in \<open>simp add: enqueueLocked_def keepsFlights_refl\<close>)

lemma keepsFlights_reconcileBegin:
  assumes "storeOk m" "reconcileBegin ws m = (m', called)"
  shows "keepsFlights m m'"
  using assms by (auto simp: reconcileBegin_def keepsFlights_def intro!: pubs_put_same split: option.splits if_splits)

lemma keepsFlights_reconcileEnd:
  assumes "storeOk m"
  shows "keepsFlights m (reconcileEnd ws err m)"
proof (cases "m_workers m ws")
  case (Some a)
  let ?m = "\<lambda>w. putWorker a w m"
  have "pubs (scheduleReconciliationLocked ws a (?m w)) = pubs m"
    if "workerOk w" "w_publishing w = w_publishing (getWorker m a)" "w_publishDone w = w_publishDone (getWorker m a)" for w
    using pubs_schedule(2) [OF storeOk_put [OF assms Some that(1)]] pubs_put_same [OF assms Some that(2,3)] Some by simp
  then show ?thesis
    using storeOk_get [OF assms Some] Some
    by (auto simp: reconcileEnd_def Let_def keepsFlights_def split: option.splits)
qed (simp add: reconcileEnd_def keepsFlights_refl)

lemma keepsFlights_touch:
  "storeOk m \<Longrightarrow> touchLocked ws now m = (m', result) \<Longrightarrow> keepsFlights m m'"
  by (auto simp: touchLocked_def Let_def keepsFlights_def intro!: pubs_put_same split: option.splits)

lemma pubs_register:
  "storeOk m \<Longrightarrow> \<not> w_publishing w \<Longrightarrow> pubs (register ws w m) = pubs m"
  using storeOk_fresh(1) [of m] by (auto simp: register_def pubs_put fun_eq_iff pubs_def)

lemma register_fields [simp]:
  "m_next (register ws w m) = Suc (m_next m)" "m_closed (register ws w m) = m_closed m" "m_timers (register ws w m) = m_timers m"
  by (simp_all add: register_def)

lemma keepsFlights_start:
  assumes "storeOk m" "startLocked ws now acquired m = (m', result)"
  shows "keepsFlights m m'"
proof (cases "m_workers m ws")
  case None
  have "pubs (register ws (newWorker ws endpoint now deadline) m) = pubs m"
    "pubs (scheduleReconciliationLocked ws (m_next m) (register ws (newWorker ws endpoint now deadline) m)) = pubs m" for endpoint deadline
    using pubs_register [OF assms(1)] pubs_schedule(2) [OF storeOk_register [OF assms(1) workerOk_new]]
    by (simp_all add: newWorker_def)
  then show ?thesis
    using assms(2) None by (auto simp: startLocked_def Let_def keepsFlights_def split: sum.splits if_splits)
qed (use assms in \<open>auto simp: startLocked_def Let_def keepsFlights_def intro!: pubs_put_same\<close>)

lemma stopTimer_fields [simp]:
  "m_workers (stopTimer h m) = m_workers m" "m_heap (stopTimer h m) = m_heap m" "m_closed (stopTimer h m) = m_closed m"
  "m_next (stopTimer h m) = m_next m" "pubs (stopTimer h m) = pubs m" "getWorker (stopTimer h m) = getWorker m"
  by (auto simp: stopTimer_def pubs_def getWorker_def fun_eq_iff split: option.splits)

lemma flightOk_stop:
  assumes "storeOk m" "flightOk m C" "stopRound ws closes m = (m', result)"
  shows "flightOk m' (case result of StopWait ch \<Rightarrow> add_mset (StopWaiting ws ch) C | _ \<Rightarrow> C)"
proof (cases "m_workers m ws")
  case (Some a)
  let ?w = "(getWorker m a)\<lparr>w_stopping := True, w_timer := None, w_reconcileTimer := None\<rparr>"
  let ?m = "putWorker a ?w (stopTimer (w_reconcileTimer (getWorker m a)) (stopTimer (w_timer (getWorker m a)) m))"
  let ?m' = "putWorker a (?w\<lparr>w_stopping := False\<rparr>) ?m"
  have same: "pubs ?m = pubs m" "pubs ?m' = pubs m"
    using pubs_registered [OF assms(1) Some] by (auto simp: pubs_put fun_eq_iff)
  have kept: "flightOk ?m C" by (rule flightOk_cong [OF assms(2) same(1)]) simp_all
  have kept': "flightOk ?m' C" by (rule flightOk_cong [OF assms(2) same(2)]) simp_all
  consider "w_publishing (getWorker m a)" "m' = ?m" "result = StopWait (the (w_publishDone (getWorker m a)))"
    | "\<not> w_publishing (getWorker m a)" "m' = ?m'" "result = StopFailed"
    | "\<not> w_publishing (getWorker m a)" "m' = ?m\<lparr>m_workers := (m_workers m)(ws := None)\<rparr>" "result = Stopped"
    using assms(3) Some by (auto simp: stopRound_def Let_def split: if_splits)
  then show ?thesis
  proof cases
    case 1
    then have "pubs m a = Some (w_publishDone (getWorker m a))" using pubs_registered [OF assms(1) Some] by simp
    moreover from this obtain ch where "w_publishDone (getWorker m a) = Some ch" using assms(2) unfolding flightOk_def by blast
    ultimately have "pubs ?m a = Some (Some (the (w_publishDone (getWorker m a))))" unfolding same by simp
    then show ?thesis using kept 1 unfolding flightOk_def by auto
  next
    case 3
    have "ws' \<noteq> ws" if "PublisherCall ws' b paths \<in># C" for ws' b paths
    proof
      assume "ws' = ws"
      then have "b = a" using flightOk_registered [OF assms(2) that] Some by simp
      then have "publishers C a \<noteq> 0" using that by (auto simp: publishers_def dest!: multi_member_split)
      then show False using assms(2) pubs_registered [OF assms(1) Some] 3(1) by (simp add: flightOk_def)
    qed
    then have "flightOk m' C" by (intro flightOk_cong [OF kept]) (auto simp: 3(2))
    then show ?thesis using 3 by simp
  qed (use kept' in simp)
qed (use assms in \<open>simp add: stopRound_def\<close>)

lemma flightOk_publishBegin:
  assumes "storeOk m" "flightOk m C" "publishBegin ws m = (m', Some (a, paths))"
  shows "flightOk m' (add_mset (PublisherCall ws a paths) C)"
proof -
  note first = publishBegin_Some [OF assms(3)]
  have idle: "pubs m a = None" using pubs_registered [OF assms(1) first(1)] first(5) by simp
  have pubs: "pubs m' = (pubs m)(a := Some (Some (m_next m)))" by (simp add: first(6) pubs_put)
  note old = flightOkD [OF assms(2)]
  have fresh: "m_next m \<notin> set (m_closed m)" "pubs m b \<noteq> Some (Some (m_next m))" for b
    using old(6) [of "m_next m"] old(3) [of b "Some (m_next m)"] by auto
  have m': "m_workers m' = m_workers m" "m_closed m' = m_closed m" "m_next m' = Suc (m_next m)" by (simp_all add: first(6))
  show ?thesis
  proof (rule flightOkI, unfold m' pubs)
    fix b d assume "((pubs m)(a := Some (Some (m_next m)))) b = Some d"
    then show "\<exists>ch. d = Some ch \<and> ch < Suc (m_next m) \<and> ch \<notin> set (m_closed m)"
      using fresh(1) old(3) [of b d] by (auto split: if_splits intro: less_SucI)
  next
    fix b c d assume "((pubs m)(a := Some (Some (m_next m)))) b = Some d" "((pubs m)(a := Some (Some (m_next m)))) c = Some d"
    then show "b = c" using fresh(2) [of b] fresh(2) [of c] old(4) [of b d c] by (auto split: if_splits)
  next
    fix ws' ch assume "StopWaiting ws' ch \<in># add_mset (PublisherCall ws a paths) C"
    then have "ch \<in> set (m_closed m) \<or> (\<exists>b. pubs m b = Some (Some ch))" using old(5) by simp
    then show "ch \<in> set (m_closed m) \<or> (\<exists>b. ((pubs m)(a := Some (Some (m_next m)))) b = Some (Some ch))"
      using idle by (metis fun_upd_other option.distinct(1))
  qed (use old(1,2,6) idle first(1) in \<open>auto intro: less_SucI\<close>)
qed

lemma flightOk_publishEnd:
  assumes "storeOk m" "flightOk m (add_mset (PublisherCall ws a paths) C)"
  shows "flightOk (publishEnd ws a paths err m) C"
proof -
  have reg: "m_workers m ws = Some a" by (rule flightOk_registered [OF assms(2), of _ _ paths]) simp
  let ?m = "publishEnd ws a paths err m" and ?ch = "w_publishDone (getWorker m a)"
  have one: "publishers (add_mset (PublisherCall ws a paths) C) b = (if pubs m b = None then 0 else 1)" for b
    using assms(2) by (auto simp: flightOk_def)
  from one [of a] have busy: "pubs m a \<noteq> None" "publishers C a = 0" by (auto split: if_splits)
  then have pub: "w_publishing (getWorker m a)" "pubs m a = Some ?ch" using pubs_registered [OF assms(1) reg] by (auto split: if_splits)
  then obtain ch where ch: "?ch = Some ch" "ch < m_next m" using assms(2) unfolding flightOk_def by blast
  let ?m1 = "putWorker a (finished m a paths err) (m\<lparr>m_closed := ch # m_closed m\<rparr>)"
  have "workerOk (finished m a paths err)" using finished_ok storeOk_get [OF assms(1) reg] pub(1) by blast
  then have "storeOk ?m1" by (intro storeOk_put [of _ ws]) (use assms(1) reg in \<open>simp_all add: storeOk_fields\<close>)
  then have m: "pubs ?m = (pubs m)(a := None)" "m_closed ?m = ch # m_closed m" "m_workers ?m = m_workers m" "m_next m \<le> m_next ?m"
    using ch(1) reg by (simp_all add: publishEnd_def Let_def pubs_schedule pubs_put)
  note old = flightOkD [OF assms(2)]
  have other: "pubs m b \<noteq> Some (Some ch)" if "b \<noteq> a" for b
    using that old(4) [of a "Some ch" b] pub(2) ch(1) by auto
  show ?thesis
  proof (rule flightOkI, unfold m(1-3))
    show "publishers C b = (if ((pubs m)(a := None)) b = None then 0 else 1)" for b
      using one [of b] busy(2) by (simp split: if_splits)
    show "\<exists>c. d = Some c \<and> c < m_next ?m \<and> c \<notin> set (ch # m_closed m)" if "((pubs m)(a := None)) b = Some d" for b d
      using that other [of b] old(3) [of b d] m(4) by (auto split: if_splits dest: less_le_trans)
    show "b = c" if "((pubs m)(a := None)) b = Some d" "((pubs m)(a := None)) c = Some d" for b c d
      using that old(4) [of b d c] by (auto split: if_splits)
    show "c \<in> set (ch # m_closed m) \<or> (\<exists>b. ((pubs m)(a := None)) b = Some (Some c))" if "StopWaiting ws' c \<in># C" for ws' c
      using old(5) [of ws' c] that pub(2) ch(1) by (auto, metis option.inject)
    show "c < m_next ?m" if "c \<in> set (ch # m_closed m)" for c
      using that ch(2) old(6) [of c] m(4) by auto
  qed (use old(2) in auto)
qed

section \<open>Timers that are set\<close>

text \<open>A worker with a timer has that timer running, or its workspace has a goroutine waiting to publish. The
  numbers of its timers name timers of the right kind and workspace.\<close>

definition armedAt :: "nat \<Rightarrow> timer list \<Rightarrow> call multiset \<Rightarrow> str \<Rightarrow> worker \<Rightarrow> bool" where
  "armedAt n T C ws w \<longleftrightarrow>
     (\<forall>i. w_timer w = Some i \<longrightarrow> i < n \<and> (i \<in> t_id ` set T \<or> PublishCall ws \<in># C)) \<and>
     (\<forall>i. w_reconcileTimer w = Some i \<longrightarrow> i < n) \<and>
     (\<forall>t \<in> set T. (w_timer w = Some (t_id t) \<longrightarrow> t_kind t = PublishTimer \<and> t_workspace t = ws) \<and>
        (w_reconcileTimer w = Some (t_id t) \<longrightarrow> t_kind t = ReconcileTimer))"

definition armedOk :: "Manager \<Rightarrow> call multiset \<Rightarrow> bool" where
  "armedOk m C \<longleftrightarrow> timersOk m \<and>
     (\<forall>ws a. m_workers m ws = Some a \<longrightarrow> armedAt (m_next m) (m_timers m) C ws (getWorker m a))"

lemma armedAt_mono:
  assumes "armedAt n T C ws w" "n \<le> n'" "set T \<subseteq> set T'" "\<And>t. t \<in> set T' \<Longrightarrow> t \<in> set T \<or> n \<le> t_id t"
    "PublishCall ws \<in># C \<Longrightarrow> PublishCall ws \<in># C'"
  shows "armedAt n' T' C' ws w"
  unfolding armedAt_def
proof (intro conjI allI impI ballI)
  note old = assms(1) [unfolded armedAt_def]
  show "i < n'" "i \<in> t_id ` set T' \<or> PublishCall ws \<in># C'" if "w_timer w = Some i" for i
    using old that assms(2,3,5) by fastforce+
  show "i < n'" if "w_reconcileTimer w = Some i" for i using old that assms(2) by fastforce
  fix t assume t: "t \<in> set T'"
  show "t_kind t = PublishTimer" "t_workspace t = ws" if "w_timer w = Some (t_id t)"
    using old that assms(4) [OF t] by auto
  show "t_kind t = ReconcileTimer" if "w_reconcileTimer w = Some (t_id t)"
    using old that assms(4) [OF t] by auto
qed

lemma armedAt_worker:
  "w_timer w' = w_timer w \<Longrightarrow> w_reconcileTimer w' = w_reconcileTimer w \<Longrightarrow> armedAt n T C ws w' = armedAt n T C ws w"
  by (simp add: armedAt_def)

lemma armedOk_calls: "armedOk m C \<Longrightarrow> (\<And>ws. PublishCall ws \<in># C \<Longrightarrow> PublishCall ws \<in># C') \<Longrightarrow> armedOk m C'"
  unfolding armedOk_def using armedAt_mono [OF _ order_refl subset_refl] by blast

lemma armedOk_at: "armedOk m C \<Longrightarrow> m_workers m ws = Some a \<Longrightarrow> armedAt (m_next m) (m_timers m) C ws (getWorker m a)"
  by (simp add: armedOk_def)

lemma storeOk_inj: "storeOk m \<Longrightarrow> m_workers m ws = Some a \<Longrightarrow> m_workers m ws' = Some a \<Longrightarrow> ws' = ws"
  unfolding storeOk_def by blast

lemma armedOk_put:
  assumes "armedOk m C" "storeOk m" "m_workers m ws = Some a" "armedAt (m_next m) (m_timers m) C ws w"
  shows "armedOk (putWorker a w m) C"
proof -
  have "armedAt (m_next m) (m_timers m) C ws' (if b = a then w else getWorker m b)" if "m_workers m ws' = Some b" for ws' b
    using armedOk_at [OF assms(1) that] assms(4) storeOk_inj [OF assms(2,3), of ws'] that by auto
  moreover have "timersOk (putWorker a w m)" using assms(1) by (simp add: armedOk_def timersOk_def)
  ultimately show ?thesis by (simp add: armedOk_def)
qed

lemma armedOk_put_same:
  assumes "armedOk m C" "storeOk m" "m_workers m ws = Some a"
    "w_timer w = w_timer (getWorker m a)" "w_reconcileTimer w = w_reconcileTimer (getWorker m a)"
  shows "armedOk (putWorker a w m) C"
  by (rule armedOk_put [OF assms(1-3)]) (simp add: armedAt_worker [OF assms(4,5)] armedOk_at [OF assms(1,3)])

lemma armedOk_closed: "armedOk (m\<lparr>m_closed := K\<rparr>) C = armedOk m C"
  by (simp add: armedOk_def timersOk_def)

text \<open>Setting a timer.\<close>

lemma armedOk_schedule:
  assumes "armedOk m C" "storeOk m" "m_workers m ws = Some a"
  shows "armedOk (scheduleAfterLocked ws a delay m) C" "armedOk (scheduleReconciliationLocked ws a m) C"
proof -
  have T: "distinct (map t_id (m_timers m))" "\<And>t. t \<in> set (m_timers m) \<Longrightarrow> t_id t < m_next m"
    using assms(1) by (auto simp: armedOk_def timersOk_def)
  have grow: "armedAt (Suc (m_next m)) (m_timers m @ [t]) C ws' (getWorker m b)"
    if "m_workers m ws' = Some b" "t_id t = m_next m" for ws' b t
    by (rule armedAt_mono [OF armedOk_at [OF assms(1) that(1)]]) (use that(2) in auto)
  have fresh: "\<forall>t \<in> set (m_timers m). t_id t \<noteq> m_next m" using T(2) by fastforce
  then have "timersOk (m\<lparr>m_timers := m_timers m @ [t], m_next := Suc (m_next m)\<rparr>)" if "t_id t = m_next m" for t
    using T that by (auto simp: timersOk_def intro: less_SucI)
  then have step: "armedOk (m\<lparr>m_timers := m_timers m @ [t], m_next := Suc (m_next m)\<rparr>) C" if "t_id t = m_next m" for t
    using grow that by (simp add: armedOk_def)
  have store: "storeOk (m\<lparr>m_timers := T, m_next := Suc (m_next m)\<rparr>)" for T
    using assms(2) by (auto simp: storeOk_def intro: less_SucI)
  have old: "w_timer (getWorker m a) = Some i \<Longrightarrow> i < m_next m" "w_reconcileTimer (getWorker m a) = Some i \<Longrightarrow> i < m_next m" for i
    using armedOk_at [OF assms(1,3)] by (auto simp: armedAt_def)
  then have unused: "w_timer (getWorker m a) \<noteq> Some (m_next m)" "w_reconcileTimer (getWorker m a) \<noteq> Some (m_next m)" by blast+
  note at = armedOk_at [OF assms(1,3)]
  have "armedAt (Suc (m_next m)) (m_timers m @ [\<lparr>t_id = m_next m, t_kind = PublishTimer, t_workspace = ws, t_delay = delay\<rparr>]) C ws
      ((getWorker m a)\<lparr>w_timer := Some (m_next m)\<rparr>)"
    using at unused fresh unfolding armedAt_def by (auto intro: less_SucI)
  then show "armedOk (scheduleAfterLocked ws a delay m) C"
    using assms(3) by (auto simp: scheduleAfterLocked_def afterFunc_def intro!: armedOk_put [OF step store])
  have "armedAt (Suc (m_next m)) (m_timers m @ [\<lparr>t_id = m_next m, t_kind = ReconcileTimer, t_workspace = ws, t_delay = delay\<rparr>]) C ws
      ((getWorker m a)\<lparr>w_reconcileTimer := Some (m_next m)\<rparr>)" for delay
    using at unused fresh unfolding armedAt_def by (auto intro: less_SucI)
  then show "armedOk (scheduleReconciliationLocked ws a m) C"
    using assms(3) by (auto simp: scheduleReconciliationLocked_def afterFunc_def intro!: armedOk_put [OF step store])
qed

text \<open>What \<^verbatim>\<open>Enqueue\<close> does to a running worker: more pending paths, and a timer if none is needed elsewhere.\<close>

definition enqueued :: "str \<Rightarrow> Manager \<Rightarrow> nat \<Rightarrow> worker \<Rightarrow> queue_error option \<Rightarrow> Manager \<Rightarrow> bool" where
  "enqueued ws m a w err m' \<longleftrightarrow> m_workers m ws = Some a \<and> \<not> w_stopping (getWorker m a) \<and> workerOk w \<and>
     (\<exists>new st seen. w = (getWorker m a)\<lparr>w_pendingSet := seen, w_pending := w_pending (getWorker m a) @ new, w_status := st\<rparr>) \<and>
     (m' = putWorker a w m \<and> (err = None \<longrightarrow> w_pending w = [] \<or> w_publishing w \<or> w_timer w \<noteq> None) \<or>
      m' = schedulePublishLocked ws a (putWorker a w m) \<and> w_pending w \<noteq> [] \<and> \<not> w_publishing w \<and> w_timer w = None)"

lemma enqueueLocked_effect:
  assumes "storeOk m" "enqueueLocked ws events m = (m', err)"
  shows "m' = m \<and> err \<noteq> None \<or> (\<exists>a w. enqueued ws m a w err m')"
proof (cases "m_workers m ws")
  case (Some a)
  note w = storeOk_get [OF assms(1) Some]
  show ?thesis
  proof (cases "w_stopping (getWorker m a)")
    case False
    obtain w' e where run: "enqueueEvents ws events (getWorker m a) = (w', e)" by (cases "enqueueEvents ws events (getWorker m a)")
    from run obtain new seen where w': "w' = (getWorker m a)\<lparr>w_pendingSet := seen, w_pending := w_pending (getWorker m a) @ new\<rparr>"
      "set seen = set (w_pending (getWorker m a) @ new) \<and> distinct (w_pending (getWorker m a) @ new)"
      using enqueueEvents_shape w by blast
    let ?w = "w'\<lparr>w_status := (w_status w')\<lparr>su_QueuedPaths := w_pending w'\<rparr>\<rparr>"
    have ok: "workerOk w'" "workerOk ?w" using w w'(2) unfolding w'(1) workerOk_def by (auto simp: prefix_def)
    have shape: "\<exists>new st seen. w' = (getWorker m a)\<lparr>w_pendingSet := seen, w_pending := w_pending (getWorker m a) @ new, w_status := st\<rparr>"
      "\<exists>new st seen. ?w = (getWorker m a)\<lparr>w_pendingSet := seen, w_pending := w_pending (getWorker m a) @ new, w_status := st\<rparr>"
      by (rule exI [of _ new], rule exI [of _ "w_status w'"], rule exI [of _ seen], simp add: w'(1))
        (rule exI [of _ new], rule exI [of _ "(w_status w')\<lparr>su_QueuedPaths := w_pending w'\<rparr>"], rule exI [of _ seen], simp add: w'(1))
    have "enqueued ws m a (if e = None then ?w else w') err m'"
      using assms(2) Some False run ok shape
      by (cases e) (auto simp: enqueueLocked_def enqueued_def Let_def split: if_splits)
    then show ?thesis by blast
  qed (use assms Some in \<open>auto simp: enqueueLocked_def\<close>)
qed (use assms in \<open>auto simp: enqueueLocked_def\<close>)

lemma armedOk_enqueue:
  assumes "storeOk m" "armedOk m C" "enqueueLocked ws events m = (m', err)"
  shows "armedOk m' C"
proof (cases "m' = m")
  case False
  then obtain a w where e: "enqueued ws m a w err m'" using enqueueLocked_effect [OF assms(1,3)] by blast
  then have reg: "m_workers m ws = Some a" and same: "w_timer w = w_timer (getWorker m a)" "w_reconcileTimer w = w_reconcileTimer (getWorker m a)"
    by (auto simp: enqueued_def)
  have "armedOk (putWorker a w m) C" by (rule armedOk_put_same [OF assms(2,1) reg same])
  moreover have "storeOk (putWorker a w m)" using e by (intro storeOk_put [OF assms(1) reg]) (simp add: enqueued_def)
  ultimately show ?thesis
    using e reg by (auto simp: enqueued_def schedulePublishLocked_def intro!: armedOk_schedule)
qed (use assms(2) in simp)

lemma armedOk_publishBegin:
  assumes "storeOk m" "armedOk m (add_mset (PublishCall ws) C)" "publishBegin ws m = (m', outcome)"
  shows "armedOk m' C"
proof -
  have other: "armedAt (m_next m) (m_timers m) C ws' w" if "armedAt (m_next m) (m_timers m) (add_mset (PublishCall ws) C) ws' w"
      "ws' \<noteq> ws \<or> w_timer w = None" for ws' w
    using that by (auto simp: armedAt_def)
  show ?thesis
  proof (cases outcome)
    case None
    then have m': "m' = m" using assms(3) publishBegin_None by blast
    have "w_timer (getWorker m a) = None" if "m_workers m ws = Some a" for a
      using storeOk_get [OF assms(1) that] assms(3) that None
      by (auto simp: publishBegin_def Let_def workerOk_def split: if_splits)
    then have "armedAt (m_next m) (m_timers m) C ws' (getWorker m b)" if "m_workers m ws' = Some b" for ws' b
      using other [OF armedOk_at [OF assms(2) that]] that by (cases "ws' = ws") auto
    then show ?thesis using assms(2) unfolding m' by (simp add: armedOk_def)
  next
    case (Some ap)
    then obtain a paths where "outcome = Some (a, paths)" by (cases ap) auto
    note first = publishBegin_Some [OF assms(3) [unfolded this]]
    let ?w = "(getWorker m a)\<lparr>w_pending := [], w_pendingSet := [], w_status := (w_status (getWorker m a))\<lparr>su_QueuedPaths := []\<rparr>,
        w_timer := None, w_publishing := True, w_publishDone := Some (m_next m)\<rparr>"
    have at: "armedAt (Suc (m_next m)) (m_timers m) C ws' (if b = a then ?w else getWorker m b)" if b: "m_workers m ws' = Some b" for ws' b
    proof -
      have "armedAt (m_next m) (m_timers m) (add_mset (PublishCall ws) C) ws' (if b = a then ?w else getWorker m b)"
        using armedOk_at [OF assms(2) b] unfolding armedAt_def by (cases "b = a") simp_all
      moreover have "ws' = ws \<longrightarrow> b = a" using b first(1) by auto
      then have "ws' \<noteq> ws \<or> w_timer (if b = a then ?w else getWorker m b) = None" by (cases "b = a") simp_all
      ultimately have "armedAt (m_next m) (m_timers m) C ws' (if b = a then ?w else getWorker m b)"
        by (rule other)
      then show ?thesis by (rule armedAt_mono) auto
    qed
    have "armedAt (m_next m') (m_timers m') C ws' (getWorker m' b)" if "m_workers m' ws' = Some b" for ws' b
      using at [of ws' b] that unfolding first(6) get_put getWorker_fields by simp
    moreover have "timersOk m'" using assms(2) by (auto simp: first(6) armedOk_def timersOk_def intro: less_SucI)
    ultimately show ?thesis by (simp add: armedOk_def)
  qed
qed

lemma armedOk_publishEnd:
  assumes "storeOk m" "armedOk m C" "m_workers m ws = Some a" "w_publishing (getWorker m a)"
  shows "armedOk (publishEnd ws a paths err m) C"
proof -
  let ?m = "\<lambda>K. putWorker a (finished m a paths err) (m\<lparr>m_closed := K\<rparr>)"
  have ok: "workerOk (finished m a paths err)" using finished_ok storeOk_get assms by blast
  have "storeOk (?m K)" for K by (intro storeOk_put [of _ ws]) (use assms ok in \<open>simp_all add: storeOk_fields\<close>)
  moreover have "armedOk (?m K) C" for K
    by (intro armedOk_put_same [of _ _ ws]) (use assms in \<open>simp_all add: armedOk_closed storeOk_fields\<close>)
  ultimately show ?thesis using assms(3) by (simp add: publishEnd_def Let_def armedOk_schedule)
qed

lemma armedOk_reconcileBegin:
  assumes "storeOk m" "armedOk m C" "reconcileBegin ws m = (m', called)"
  shows "armedOk m' C"
proof -
  have "armedAt (m_next m) (m_timers m) C ws ((getWorker m a)\<lparr>w_reconcileTimer := None\<rparr>)" if "m_workers m ws = Some a" for a
    using armedOk_at [OF assms(2) that] by (simp add: armedAt_def)
  then show ?thesis
    using assms by (auto simp: reconcileBegin_def intro!: armedOk_put split: option.splits if_splits)
qed

lemma armedOk_reconcileEnd:
  assumes "storeOk m" "armedOk m C"
  shows "armedOk (reconcileEnd ws err m) C"
proof (cases "m_workers m ws")
  case (Some a)
  have "armedOk (scheduleReconciliationLocked ws a (putWorker a w m)) C"
    if "workerOk w" "w_timer w = w_timer (getWorker m a)" "w_reconcileTimer w = w_reconcileTimer (getWorker m a)" for w
    using armedOk_schedule(2) [OF armedOk_put_same [OF assms(2,1) Some that(2,3)] storeOk_put [OF assms(1) Some that(1)]] Some by simp
  then show ?thesis
    using storeOk_get [OF assms(1) Some] Some assms(2) by (auto simp: reconcileEnd_def Let_def split: option.splits)
qed (use assms in \<open>simp add: reconcileEnd_def\<close>)

lemma armedOk_touch:
  "storeOk m \<Longrightarrow> armedOk m C \<Longrightarrow> touchLocked ws now m = (m', result) \<Longrightarrow> armedOk m' C"
  by (auto simp: touchLocked_def Let_def intro!: armedOk_put_same split: option.splits)

lemma armedOk_register:
  assumes "storeOk m" "armedOk m C" "w_timer w = None" "w_reconcileTimer w = None"
  shows "armedOk (register ws w m) C"
proof -
  let ?m = "register ws w m"
  have "armedAt (Suc (m_next m)) (m_timers m) C ws' (getWorker m b)" if "m_workers m ws' = Some b" for ws' b
    by (rule armedAt_mono [OF armedOk_at [OF assms(2) that]]) auto
  moreover have "armedAt (Suc (m_next m)) (m_timers m) C ws w" using assms(3,4) by (simp add: armedAt_def)
  ultimately have "armedAt (m_next ?m) (m_timers ?m) C ws' (getWorker ?m b)" if "m_workers ?m ws' = Some b" for ws' b
    using that storeOk_fresh(2) [OF assms(1)] by (auto simp: register_def split: if_splits)
  moreover have "timersOk ?m" using assms(2) by (auto simp: armedOk_def timersOk_def intro: less_SucI)
  ultimately show ?thesis by (simp add: armedOk_def)
qed

lemma armedOk_start:
  assumes "storeOk m" "armedOk m C" "startLocked ws now acquired m = (m', result)"
  shows "armedOk m' C"
proof (cases "m_workers m ws")
  case None
  have "armedOk (register ws (newWorker ws endpoint now deadline) m) C" for endpoint deadline
    by (rule armedOk_register [OF assms(1,2)]) (simp_all add: newWorker_def)
  moreover have "storeOk (register ws (newWorker ws endpoint now deadline) m)" for endpoint deadline
    by (rule storeOk_register [OF assms(1) workerOk_new])
  ultimately show ?thesis
    using assms None by (auto simp: startLocked_def Let_def intro!: armedOk_schedule split: sum.splits if_splits)
qed (use assms in \<open>auto simp: startLocked_def Let_def intro!: armedOk_put_same\<close>)

lemma armedOk_stopTimers:
  assumes "armedOk m C" "storeOk m" "m_workers m ws = Some a" "w_timer w = None" "w_reconcileTimer w = None"
  defines "m1 \<equiv> stopTimer (w_reconcileTimer (getWorker m a)) (stopTimer (w_timer (getWorker m a)) m)"
  shows "armedOk (putWorker a w m1) C"
proof -
  let ?stopped = "\<lambda>t. w_timer (getWorker m a) = Some (t_id t) \<or> w_reconcileTimer (getWorker m a) = Some (t_id t)"
  have timers: "m_timers m1 = filter (\<lambda>t. \<not> ?stopped t) (m_timers m)"
    by (auto simp: m1_def stopTimer_def filter_filter split: option.splits intro!: filter_cong)
  have "armedAt (m_next m) (m_timers m1) C ws' (getWorker m b)" if b: "m_workers m ws' = Some b" "b \<noteq> a" for ws' b
  proof -
    have "ws' \<noteq> ws" using b assms(3) by auto
    then have "\<not> ?stopped t" if "t \<in> set (m_timers m)" "w_timer (getWorker m b) = Some (t_id t)" for t
      using armedOk_at [OF assms(1) b(1)] armedOk_at [OF assms(1,3)] that unfolding armedAt_def by force
    then show ?thesis using armedOk_at [OF assms(1) b(1)] unfolding armedAt_def timers by (auto simp: image_iff) blast+
  qed
  moreover have "armedAt (m_next m) (m_timers m1) C ws w" using assms(4,5) by (simp add: armedAt_def)
  ultimately have "armedAt (m_next m1) (m_timers m1) C ws' (getWorker (putWorker a w m1) b)"
    if "m_workers (putWorker a w m1) ws' = Some b" for ws' b
    using that storeOk_inj [OF assms(2,3), of ws'] by (auto simp: m1_def)
  moreover have "timersOk m1" using assms(1) by (auto simp: armedOk_def timersOk_def timers distinct_map_filter) (simp add: m1_def)
  ultimately show ?thesis by (simp only: armedOk_def timersOk_def put_fields) blast
qed

lemma armedOk_stop:
  assumes "storeOk m" "armedOk m C" "stopRound ws closes m = (m', result)"
  shows "armedOk m' C"
proof (cases "m_workers m ws")
  case (Some a)
  let ?w = "(getWorker m a)\<lparr>w_stopping := True, w_timer := None, w_reconcileTimer := None\<rparr>"
  let ?m = "stopTimer (w_reconcileTimer (getWorker m a)) (stopTimer (w_timer (getWorker m a)) m)"
  have ok: "armedOk (putWorker a ?w ?m) C" by (rule armedOk_stopTimers [OF assms(2,1) Some]) simp_all
  have twice: "armedOk (putWorker a (?w\<lparr>w_stopping := False\<rparr>) (putWorker a ?w ?m)) C"
  proof -
    have "putWorker a (?w\<lparr>w_stopping := False\<rparr>) (putWorker a ?w ?m) = putWorker a (?w\<lparr>w_stopping := False\<rparr>) ?m"
      by (simp add: putWorker_def)
    then show ?thesis by (simp only:) (rule armedOk_stopTimers [OF assms(2,1) Some], simp_all)
  qed
  have "armedOk ((putWorker a ?w ?m)\<lparr>m_workers := (m_workers m)(ws := None)\<rparr>) C"
    using ok unfolding armedOk_def timersOk_def by (auto split: if_splits)
  then show ?thesis
    using assms(3) Some ok twice by (auto simp: stopRound_def Let_def split: if_splits)
qed (use assms in \<open>simp add: stopRound_def\<close>)

section \<open>The invariant\<close>

definition inv :: "system \<Rightarrow> bool" where
  "inv s \<longleftrightarrow> (case s of (m, C) \<Rightarrow> storeOk m \<and> flightOk m C \<and> armedOk m C)"

lemma flightOk_fire: "flightOk m C \<Longrightarrow> flightOk (m\<lparr>m_timers := T\<rparr>) C"
  by (rule flightOk_cong) auto

lemma armedOk_fire:
  assumes "armedOk m C" "t \<in> set (m_timers m)"
  shows "armedOk (m\<lparr>m_timers := filter (\<lambda>u. t_id u \<noteq> t_id t) (m_timers m)\<rparr>) (add_mset (timerCall t) C)"
proof -
  have "armedAt (m_next m) (filter (\<lambda>u. t_id u \<noteq> t_id t) (m_timers m)) (add_mset (timerCall t) C) ws (getWorker m a)"
    if "m_workers m ws = Some a" for ws a
    using armedOk_at [OF assms(1) that] assms(2) unfolding armedAt_def by (fastforce simp: timerCall_def)
  then show ?thesis using assms(1) by (auto simp: armedOk_def timersOk_def distinct_map_filter)
qed

lemma inv_step: "step s l s' \<Longrightarrow> inv s \<Longrightarrow> inv s'"
proof (induction rule: step.induct)
  case (start ws now acquired m m' result C)
  then show ?case
    using storeOk_start flightOk_keeps [OF _ keepsFlights_start] armedOk_start by (auto simp: inv_def)
next
  case (touch ws now m m' result C)
  then show ?case
    using storeOk_touch flightOk_keeps [OF _ keepsFlights_touch] armedOk_touch by (cases result) (auto simp: inv_def)
next
  case (enqueue ws events m m' err C)
  then show ?case
    using storeOk_enqueue flightOk_keeps [OF _ keepsFlights_enqueue] armedOk_enqueue by (auto simp: inv_def)
next
  case (fire t m C)
  then show ?case using armedOk_fire by (auto simp: inv_def storeOk_fields flightOk_plain intro: flightOk_fire)
next
  case (publish_skip ws m m' C)
  then show ?case
    using publishBegin_None [OF publish_skip.hyps] armedOk_publishBegin [of m ws C] by (auto simp: inv_def flightOk_plain)
next
  case (publish_call ws m m' a paths C)
  then have "armedOk m' C" "storeOk m'" "flightOk m' (add_mset (PublisherCall ws a paths) C)"
    using armedOk_publishBegin storeOk_publishBegin flightOk_publishBegin by (auto simp: inv_def flightOk_plain)
  then show ?case by (auto simp: inv_def intro: armedOk_calls)
next
  case (publish_return err outcome m ws a paths C)
  then have ok: "storeOk m" "flightOk m (add_mset (PublisherCall ws a paths) C)" "armedOk m C"
    by (auto simp: inv_def intro: armedOk_calls)
  have reg: "m_workers m ws = Some a" by (rule flightOk_registered [OF ok(2), of _ _ paths]) simp
  have "pubs m a \<noteq> None" using flightOkD(1) [OF ok(2), of a] by (auto split: if_splits)
  then have "w_publishing (getWorker m a)" using pubs_registered [OF ok(1) reg] by (simp split: if_splits)
  then show ?case
    using ok reg storeOk_publishEnd flightOk_publishEnd armedOk_publishEnd by (simp add: inv_def)
next
  case (reconcile_skip ws m m' C)
  then have "storeOk m" "flightOk m C" "armedOk m C" by (auto simp: inv_def flightOk_plain intro: armedOk_calls)
  then show ?case
    using reconcile_skip.hyps storeOk_reconcileBegin flightOk_keeps [OF _ keepsFlights_reconcileBegin] armedOk_reconcileBegin
    by (auto simp: inv_def)
next
  case (reconcile_call ws m m' C)
  then have "storeOk m" "flightOk m C" "armedOk m C" by (auto simp: inv_def flightOk_plain intro: armedOk_calls)
  then have "storeOk m'" "flightOk m' C" "armedOk m' C"
    using reconcile_call.hyps storeOk_reconcileBegin flightOk_keeps [OF _ keepsFlights_reconcileBegin] armedOk_reconcileBegin by auto
  then show ?case by (auto simp: inv_def flightOk_plain intro: armedOk_calls)
next
  case (reconcile_none m ws C err)
  then show ?case by (auto simp: inv_def flightOk_plain intro: armedOk_calls)
next
  case (reconcile_events events ws m m' err report C)
  then have "storeOk m" "flightOk m C" "armedOk m C" by (auto simp: inv_def flightOk_plain intro: armedOk_calls)
  then have "storeOk m'" "flightOk m' C" "armedOk m' C"
    using reconcile_events.hyps(2) storeOk_enqueue flightOk_keeps [OF _ keepsFlights_enqueue] armedOk_enqueue by auto
  then show ?case by (auto simp: inv_def flightOk_plain intro: armedOk_calls)
next
  case (reconcile_return m ws err C)
  then have "storeOk m" "flightOk m C" "armedOk m C" by (auto simp: inv_def flightOk_plain intro: armedOk_calls)
  then show ?case
    using storeOk_reconcileEnd flightOk_keeps [OF _ keepsFlights_reconcileEnd] armedOk_reconcileEnd by (simp add: inv_def)
next
  case (stop m C ws)
  then show ?case by (auto simp: inv_def flightOk_plain intro: armedOk_calls)
next
  case (stop_round ws closes m m' result C)
  then have "storeOk m" "flightOk m C" "armedOk m C" by (auto simp: inv_def flightOk_plain intro: armedOk_calls)
  then have "storeOk m'" "armedOk m' C" "flightOk m' (case result of StopWait ch \<Rightarrow> add_mset (StopWaiting ws ch) C | _ \<Rightarrow> C)"
    using stop_round.hyps storeOk_stop armedOk_stop flightOk_stop by auto
  then show ?case by (auto simp: inv_def intro: armedOk_calls split: StopResult.splits)
next
  case (stop_wake ch m ws C)
  then show ?case by (auto simp: inv_def flightOk_plain intro: armedOk_calls flightOk_drop_wait)
qed

definition unused :: "Manager \<Rightarrow> bool" where
  "unused m \<longleftrightarrow> m_workers m = Map.empty \<and> m_heap m = Map.empty \<and> m_timers m = [] \<and> m_closed m = []"

lemma managerOption_unused: "managerOption option \<Longrightarrow> unused m \<Longrightarrow> unused (option m)"
  by (induction rule: managerOption.induct)
    (auto simp: unused_def WithPublishThrottle_def WithIdleTimeout_def WithRetryBackoff_def WithReconciler_def
      WithReconciliationInterval_def Let_def)

lemma NewManager_unused: "list_all managerOption options \<Longrightarrow> unused (NewManager options)"
proof -
  have "list_all managerOption options \<Longrightarrow> unused m \<Longrightarrow> unused (fold (\<lambda>option. option) options m)" for m
    by (induction options arbitrary: m) (auto intro: managerOption_unused)
  then show "list_all managerOption options \<Longrightarrow> unused (NewManager options)"
    by (simp add: NewManager_def unused_def)
qed

lemma unused_inv: "unused m \<Longrightarrow> inv (m, {#})"
  by (simp add: inv_def unused_def storeOk_def flightOk_def armedOk_def timersOk_def pubs_def publishers_def)

lemma run_inv: "run s ls s' \<Longrightarrow> inv s \<Longrightarrow> inv s'"
  by (induction rule: run.induct) (auto intro: inv_step)

lemma reachable_inv: "reachable options ls s \<Longrightarrow> inv s"
  unfolding reachable_def using run_inv unused_inv [OF NewManager_unused] by blast

section \<open>No path is lost\<close>

definition outstanding :: "system \<Rightarrow> nat \<Rightarrow> str set" where
  "outstanding s a = set (w_pending (getWorker (fst s) a)) \<union> {p. \<exists>ws paths. PublisherCall ws a paths \<in># snd s \<and> p \<in> set paths}"

lemma schedule_pending [simp]:
  "w_pending (getWorker (scheduleAfterLocked ws b delay m) a) = w_pending (getWorker m a)"
  "w_pending (getWorker (scheduleReconciliationLocked ws b m) a) = w_pending (getWorker m a)"
  by (simp_all add: scheduleAfterLocked_def scheduleReconciliationLocked_def afterFunc_def)

lemma enqueue_pending:
  assumes "storeOk m" "enqueueLocked ws events m = (m', err)"
  shows "set (w_pending (getWorker m a)) \<subseteq> set (w_pending (getWorker m' a))"
  using enqueueLocked_effect [OF assms] by (auto simp: enqueued_def schedulePublishLocked_def)

lemma start_pending:
  assumes "storeOk m" "startLocked ws now acquired m = (m', result)" "m_heap m a \<noteq> None"
  shows "w_pending (getWorker m' a) = w_pending (getWorker m a)"
  using assms storeOk_fresh(1) [OF assms(1)]
  by (auto simp: startLocked_def Let_def register_def split: option.splits sum.splits if_splits)

lemma stop_pending: "stopRound ws closes m = (m', result) \<Longrightarrow> w_pending (getWorker m' a) = w_pending (getWorker m a)"
  by (auto simp: stopRound_def Let_def split: option.splits if_splits)

lemma reconcile_pending:
  "reconcileBegin ws m = (m', called) \<Longrightarrow> w_pending (getWorker m' a) = w_pending (getWorker m a)"
  "w_pending (getWorker (reconcileEnd ws err m) a) = w_pending (getWorker m a)"
  by (auto simp: reconcileBegin_def reconcileEnd_def Let_def split: option.splits if_splits)

lemma publishEnd_pending:
  "w_pending (getWorker (publishEnd ws b paths err m) a) = w_pending (if a = b then finished m b paths err else getWorker m a)"
  by (simp add: publishEnd_def Let_def)

lemma step_outstanding:
  assumes "step s l s'" "inv s" "m_heap (fst s) a \<noteq> None" "p \<in> outstanding s a"
  shows "p \<in> outstanding s' a \<or> (\<exists>paths. l = Published a paths \<and> p \<in> set paths)"
  using assms
proof (induction rule: step.induct)
  case (start ws now acquired m m' result C)
  then show ?case using start_pending [of m ws now acquired m' result a] by (auto simp: inv_def outstanding_def)
next
  case (touch ws now m m' result C)
  then show ?case by (auto simp: outstanding_def touchLocked_def Let_def split: option.splits if_splits)
next
  case (enqueue ws events m m' err C)
  then show ?case using enqueue_pending [of m ws events m' err a] by (auto simp: inv_def outstanding_def)
next
  case (publish_skip ws m m' C)
  then show ?case using publishBegin_None by (auto simp: outstanding_def)
next
  case (publish_call ws m m' b paths C)
  note first = publishBegin_Some [OF publish_call.hyps]
  show ?case using publish_call.prems(3) by (auto simp: outstanding_def first(2,6) split: if_splits)
next
  case (publish_return err outcome m ws b paths C)
  then show ?case
    by (auto simp: outstanding_def publishEnd_pending finished_pending uniquePaths_def split: if_splits)
next
  case (reconcile_skip ws m m' C)
  then show ?case using reconcile_pending(1) [OF reconcile_skip.hyps] by (auto simp: outstanding_def)
next
  case (reconcile_call ws m m' C)
  then show ?case using reconcile_pending(1) [OF reconcile_call.hyps] by (auto simp: outstanding_def)
next
  case (reconcile_events events ws m m' err report C)
  then show ?case using enqueue_pending [of m ws events m' err a] by (auto simp: inv_def outstanding_def)
next
  case (stop_round ws closes m m' result C)
  then show ?case using stop_pending [OF stop_round.hyps] by (auto simp: outstanding_def split: StopResult.splits)
qed (auto simp: outstanding_def timerCall_def reconcile_pending split: timerKind.splits)

definition alloc :: "Manager \<Rightarrow> nat set" where
  "alloc m = dom (m_heap m)"

lemma alloc_fields [simp]:
  "alloc (m\<lparr>m_timers := T\<rparr>) = alloc m" "alloc (m\<lparr>m_closed := K\<rparr>) = alloc m" "alloc (m\<lparr>m_next := n\<rparr>) = alloc m"
  "alloc (m\<lparr>m_workers := W\<rparr>) = alloc m" "alloc (stopTimer h m) = alloc m"
  by (simp_all add: alloc_def)

lemma alloc_ops [simp]:
  "alloc (putWorker b w m) = insert b (alloc m)"
  "alloc (scheduleAfterLocked ws b delay m) = insert b (alloc m)"
  "alloc (scheduleReconciliationLocked ws b m) = insert b (alloc m)"
  "alloc (register ws w m) = insert (m_next m) (alloc m)"
  by (auto simp: alloc_def scheduleAfterLocked_def scheduleReconciliationLocked_def afterFunc_def putWorker_def register_def)

lemma enqueue_dom: "enqueueLocked ws events m = (m', err) \<Longrightarrow> alloc m \<subseteq> alloc m'"
  by (auto simp: enqueueLocked_def Let_def schedulePublishLocked_def split: option.splits prod.splits if_splits)

lemma step_dom: "step s l s' \<Longrightarrow> alloc (fst s) \<subseteq> alloc (fst s')"
proof (induction rule: step.induct)
  case (start ws now acquired m m' result C)
  then show ?case by (auto simp: startLocked_def Let_def split: option.splits sum.splits if_splits)
next
  case (touch ws now m m' result C)
  then show ?case by (auto simp: touchLocked_def Let_def split: option.splits)
next
  case (publish_skip ws m m' C)
  then show ?case using publishBegin_None by auto
next
  case (publish_call ws m m' b paths C)
  then show ?case using publishBegin_Some(6) [OF publish_call] by (simp add: subset_insertI)
next
  case (publish_return err outcome m ws b paths C)
  show ?case by (simp add: publishEnd_def Let_def subset_insertI)
next
  case (reconcile_skip ws m m' C)
  then show ?case by (simp add: reconcileBegin_def split: option.splits if_splits) 
next
  case (reconcile_call ws m m' C)
  then show ?case by (auto simp: reconcileBegin_def split: option.splits if_splits)
next
  case (reconcile_return m ws err C)
  show ?case by (simp add: reconcileEnd_def Let_def subset_insertI split: option.splits)
next
  case (stop_round ws closes m m' result C)
  then show ?case by (auto simp: stopRound_def Let_def split: option.splits if_splits)
qed (simp_all add: enqueue_dom)

text \<open>A worker stays registered until a \<^verbatim>\<open>Stop\<close> removes it with its queue; by then it is not publishing.\<close>

lemma enqueue_workers: "enqueueLocked ws events m = (m', err) \<Longrightarrow> m_workers m' = m_workers m"
  by (auto simp: enqueueLocked_def Let_def schedulePublishLocked_def split: option.splits prod.splits if_splits)

lemma step_registered:
  assumes "step s l s'" "inv s" "m_workers (fst s) ws = Some a" "p \<in> outstanding s a"
  shows "m_workers (fst s') ws = Some a \<or> (\<exists>paths. l = Discarded ws a paths \<and> p \<in> set paths)"
  using assms
proof (induction rule: step.induct)
  case (start ws' now acquired m m' result C)
  then show ?case by (auto simp: startLocked_def Let_def split: option.splits sum.splits if_splits)
next
  case (touch ws' now m m' result C)
  then show ?case by (auto simp: touchLocked_def Let_def split: option.splits)
next
  case (publish_skip ws' m m' C)
  then show ?case using publishBegin_None by auto
next
  case (publish_call ws' m m' b paths C)
  then show ?case using publishBegin_Some(6) [OF publish_call.hyps] by simp
next
  case (publish_return err outcome m ws' b paths C)
  then show ?case by (simp add: publishEnd_def Let_def)
next
  case (reconcile_skip ws' m m' C)
  then show ?case by (simp add: reconcileBegin_def split: option.splits if_splits)
next
  case (reconcile_call ws' m m' C)
  then show ?case by (auto simp: reconcileBegin_def split: option.splits if_splits)
next
  case (reconcile_return m ws' err C)
  then show ?case by (simp add: reconcileEnd_def Let_def split: option.splits)
next
  case (stop_round ws' closes m m' result C)
  have reg: "m_workers m ws = Some a" and ok: "storeOk m" "flightOk m (add_mset (StopCall ws') C)"
    using stop_round.prems by (simp_all add: inv_def)
  show ?case
  proof (cases "m_workers m' ws = Some a")
    case False
    then have stopped: "ws' = ws" "result = Stopped" "\<not> w_publishing (getWorker m a)"
      using stop_round.hyps reg by (auto simp: stopRound_def Let_def split: option.splits if_splits)
    have "publishers (add_mset (StopCall ws') C) a = 0"
      using flightOkD(1) [OF ok(2), of a] pubs_registered [OF ok(1) reg] stopped(3) by simp
    then have "p \<in> set (w_pending (getWorker m a))"
      using stop_round.prems(3) by (auto simp: outstanding_def publishers_def dest!: multi_member_split)
    then show ?thesis using stopped reg by (simp add: stopLabel_def)
  qed simp
qed (simp_all add: enqueue_workers)

lemma step_heap: "step s l s' \<Longrightarrow> m_heap (fst s) a \<noteq> None \<Longrightarrow> m_heap (fst s') a \<noteq> None"
  using step_dom [of s l s'] by (auto simp: alloc_def)

text \<open>What became of a path: it is queued or being published by the worker that is registered for the
  workspace, it was published, or it was in the queue of the worker when \<^verbatim>\<open>Stop\<close> removed it.\<close>

definition accounted :: "str \<Rightarrow> nat \<Rightarrow> str \<Rightarrow> label list \<Rightarrow> system \<Rightarrow> bool" where
  "accounted ws a p ls s \<longleftrightarrow> m_workers (fst s) ws = Some a \<and> p \<in> outstanding s a \<or>
     (\<exists>paths. (Published a paths \<in> set ls \<or> Discarded ws a paths \<in> set ls) \<and> p \<in> set paths)"

lemma accounted_step:
  assumes "accounted ws a p ls s" "inv s" "step s l s'"
  shows "accounted ws a p (ls @ [l]) s'"
proof (cases "m_workers (fst s) ws = Some a \<and> p \<in> outstanding s a")
  case True
  then have "m_heap (fst s) a \<noteq> None" using assms(2) by (cases s) (auto simp: inv_def storeOk_def)
  note kept = step_outstanding [OF assms(3,2) this conjunct2 [OF True]]
    step_registered [OF assms(3,2) conjunct1 [OF True] conjunct2 [OF True]]
  show ?thesis unfolding accounted_def set_append list.set using kept by blast
qed (use assms(1) in \<open>auto simp: accounted_def\<close>)

lemma run_accounted:
  assumes "run s ls s'" "inv s" "m_workers (fst s) ws = Some a" "p \<in> outstanding s a"
  shows "accounted ws a p ls s'"
  using assms by (induction rule: run.induct) (auto intro: accounted_step run_inv, simp add: accounted_def)

text \<open>What \<^verbatim>\<open>Enqueue\<close> accepts is pending.\<close>

lemma enqueueEvents_accepts:
  "enqueueEvents ws events w = (w', None) \<Longrightarrow> set (w_pendingSet w) = set (w_pending w) \<Longrightarrow> e \<in> set events \<Longrightarrow>
     \<exists>p. normalizeEventPath ws e = Inr p \<and> p \<in> set (w_pending w')"
proof (induction ws events w rule: enqueueEvents.induct)
  case (2 ws event events w)
  from "2.prems"(1) obtain path where path: "normalizeEventPath ws event = Inr path" by (auto split: sum.splits)
  let ?w = "if path \<in> set (w_pendingSet w) then w else w\<lparr>w_pendingSet := path # w_pendingSet w, w_pending := w_pending w @ [path]\<rparr>"
  have rest: "enqueueEvents ws events ?w = (w', None)" using "2.prems"(1) path by simp
  have same: "set (w_pendingSet ?w) = set (w_pending ?w)" "path \<in> set (w_pending ?w)" using "2.prems"(2) by auto
  obtain new seen where "w' = ?w\<lparr>w_pendingSet := seen, w_pending := w_pending ?w @ new\<rparr>" using enqueueEvents_shape [OF rest] by blast
  then have "path \<in> set (w_pending w')" using same(2) by simp
  then show ?case using "2.IH" [OF path rest same(1)] "2.prems"(3) path by auto
qed simp

lemma enqueueLocked_accepts:
  assumes "storeOk m" "enqueueLocked ws events m = (m', None)" "e \<in> set events"
  shows "\<exists>a p. m_workers m ws = Some a \<and> normalizeEventPath ws e = Inr p \<and> p \<in> set (w_pending (getWorker m' a))"
proof -
  obtain a where a: "m_workers m ws = Some a" "\<not> w_stopping (getWorker m a)"
    using assms(2) by (auto simp: enqueueLocked_def split: option.splits if_splits)
  obtain w where w: "enqueueEvents ws events (getWorker m a) = (w, None)"
    using assms(2) a by (cases "enqueueEvents ws events (getWorker m a)"; cases "snd (enqueueEvents ws events (getWorker m a))")
      (auto simp: enqueueLocked_def)
  have "set (w_pendingSet (getWorker m a)) = set (w_pending (getWorker m a))"
    using storeOk_get [OF assms(1) a(1)] by (simp add: workerOk_def)
  from enqueueEvents_accepts [OF w this assms(3)] obtain p where "normalizeEventPath ws e = Inr p" "p \<in> set (w_pending w)" by blast
  moreover have "w_pending (getWorker m' a) = w_pending w"
    using assms(2) a w by (auto simp: enqueueLocked_def Let_def schedulePublishLocked_def split: if_splits)
  ultimately show ?thesis using a(1) by auto
qed


section \<open>Publication remains possible\<close>

text \<open>Steps other than a rejected list of events and a failing release of the file lock.\<close>

fun undisturbed :: "label \<Rightarrow> bool" where
  "undisturbed (Enqueued ws events err) \<longleftrightarrow> err = None \<or> err = Some NotRunning"
| "undisturbed (CloseError ws) \<longleftrightarrow> False"
| "undisturbed _ \<longleftrightarrow> True"

text \<open>Steps in which no event arrives: timers, goroutines, successful publications.\<close>

fun ownWork :: "label \<Rightarrow> bool" where
  "ownWork Internal \<longleftrightarrow> True"
| "ownWork (Published a paths) \<longleftrightarrow> True"
| "ownWork _ \<longleftrightarrow> False"

text \<open>A running worker with pending paths is publishing or has a timer.\<close>

definition alertAt :: "worker \<Rightarrow> bool" where
  "alertAt w \<longleftrightarrow> (w_pending w \<noteq> [] \<longrightarrow> w_stopping w \<or> w_publishing w \<or> w_timer w \<noteq> None)"

definition alert :: "Manager \<Rightarrow> bool" where
  "alert m \<longleftrightarrow> (\<forall>ws a. m_workers m ws = Some a \<longrightarrow> alertAt (getWorker m a))"

lemma alertAt_fields [simp]: "alertAt (w\<lparr>w_status := st\<rparr>) = alertAt w" "alertAt (w\<lparr>w_reconcileTimer := r\<rparr>) = alertAt w"
  by (simp_all add: alertAt_def)

lemma alert_put: "alert m \<Longrightarrow> alertAt w \<Longrightarrow> alert (putWorker a w m)"
  by (simp add: alert_def)

lemma alert_get: "alert m \<Longrightarrow> m_workers m ws = Some a \<Longrightarrow> alertAt (getWorker m a)"
  by (simp add: alert_def)

lemma alert_schedule:
  "alert m \<Longrightarrow> m_workers m ws = Some a \<Longrightarrow> alert (scheduleReconciliationLocked ws a m)"
  "(\<And>ws' b. m_workers m ws' = Some b \<Longrightarrow> b \<noteq> a \<Longrightarrow> alertAt (getWorker m b)) \<Longrightarrow> alert (scheduleAfterLocked ws a delay m)"
  by (auto simp: alert_def alertAt_def scheduleReconciliationLocked_def scheduleAfterLocked_def afterFunc_def)

lemma enqueueEvents_error: "enqueueEvents ws events w = (w', err) \<Longrightarrow> err \<noteq> Some NotRunning"
  by (induction ws events w rule: enqueueEvents.induct)
    (auto simp: normalizeEventPath_def Let_def split: sum.splits if_splits option.splits)

lemma alert_enqueue:
  assumes "storeOk m" "alert m" "enqueueLocked ws events m = (m', err)" "err = None \<or> err = Some NotRunning"
  shows "alert m'"
proof (cases "err = None")
  case True
  then obtain a w where e: "enqueued ws m a w err m'" using enqueueLocked_effect [OF assms(1,3)] by blast
  then consider "m' = putWorker a w m" "alertAt w" | "m' = scheduleAfterLocked ws a (m_throttle m) (putWorker a w m)"
    using True by (auto simp: enqueued_def alertAt_def schedulePublishLocked_def putWorker_def)
  then show ?thesis
  proof cases
    case 2
    show ?thesis unfolding 2 by (rule alert_schedule(2)) (use assms(2) in \<open>simp add: alert_def\<close>)
  qed (use assms(2) in \<open>simp add: alert_put\<close>)
next
  case False
  then have "m' = m"
    using assms(3,4) by (auto simp: enqueueLocked_def Let_def dest: enqueueEvents_error split: option.splits if_splits prod.splits)
  then show ?thesis using assms(2) by simp
qed

lemma alert_publishEnd:
  assumes "alert m"
  shows "alert (publishEnd ws a paths err m)"
proof -
  let ?m = "putWorker a (finished m a paths err) (m\<lparr>m_closed := the (w_publishDone (getWorker m a)) # m_closed m\<rparr>)"
  have other: "alertAt (getWorker ?m b)" if "m_workers ?m ws' = Some b" "b \<noteq> a" for ws' b
    using assms that by (simp add: alert_def)
  show ?thesis
  proof (cases "w_pending (finished m a paths err) \<noteq> [] \<and> \<not> w_stopping (getWorker m a) \<and> w_timer (getWorker m a) = None")
    case True
    have "alert (scheduleAfterLocked ws a delay ?m)" for delay by (rule alert_schedule(2)) (rule other)
    then show ?thesis using True by (simp add: publishEnd_def Let_def)
  next
    case False
    then have "alertAt (finished m a paths err)" by (auto simp: alertAt_def)
    moreover have "alert (m\<lparr>m_closed := K\<rparr>)" for K using assms by (simp add: alert_def)
    ultimately show ?thesis using False by (auto simp: publishEnd_def Let_def intro!: alert_put)
  qed
qed

lemma alert_step: "step s l s' \<Longrightarrow> inv s \<Longrightarrow> undisturbed l \<Longrightarrow> alert (fst s) \<Longrightarrow> alert (fst s')"
proof (induction rule: step.induct)
  case (start ws now acquired m m' result C)
  have "alert (register ws w m)" if "w_pending w = []" for w
    using start.prems(1,3) that storeOk_fresh(2) [of m] by (auto simp: inv_def alert_def alertAt_def register_def)
  then have "alert (register ws (newWorker ws endpoint now deadline) m)" for endpoint deadline by (simp add: newWorker_def)
  then show ?case
    using start alert_get [of m ws] by (auto simp: startLocked_def Let_def intro!: alert_schedule(1) alert_put split: option.splits sum.splits if_splits)
next
  case (touch ws now m m' result C)
  then show ?case
    using alert_get [of m ws] by (auto simp: touchLocked_def Let_def intro!: alert_put split: option.splits)
next
  case (enqueue ws events m m' err C)
  then show ?case using alert_enqueue by (auto simp: inv_def)
next
  case (fire t m C)
  then show ?case by (simp add: alert_def)
next
  case (publish_skip ws m m' C)
  then show ?case using publishBegin_None by auto
next
  case (publish_call ws m m' a paths C)
  then show ?case using publishBegin_Some(6) [OF publish_call.hyps] by (auto simp: alert_def alertAt_def)
next
  case (publish_return err outcome m ws a paths C)
  then show ?case by (simp add: alert_publishEnd)
next
  case (reconcile_skip ws m m' C)
  then show ?case by (auto simp: reconcileBegin_def split: option.splits if_splits)
next
  case (reconcile_call ws m m' C)
  then show ?case
    using alert_get [of m ws] by (auto simp: reconcileBegin_def intro!: alert_put split: option.splits if_splits)
next
  case (reconcile_events events ws m m' err report C)
  then show ?case using alert_enqueue by (auto simp: inv_def)
next
  case (reconcile_return m ws err C)
  then show ?case
    using alert_get [of m ws] by (auto simp: reconcileEnd_def Let_def intro!: alert_schedule(1) alert_put split: option.splits)
next
  case (stop_round ws closes m m' result C)
  have "w_stopping w \<Longrightarrow> alertAt w" for w by (simp add: alertAt_def)
  then show ?case using stop_round by (auto simp: stopRound_def stopLabel_def Let_def alert_def split: option.splits if_splits)
qed auto

lemma run_alert: "run s ls s' \<Longrightarrow> inv s \<Longrightarrow> list_all undisturbed ls \<Longrightarrow> alert (fst s) \<Longrightarrow> alert (fst s')"
  by (induction rule: run.induct) (auto intro: alert_step run_inv)

lemma publish_possible:
  assumes "inv (m, C)" "m_workers m ws = Some a" "PublishCall ws \<in># C"
    "\<not> w_stopping (getWorker m a)" "\<not> w_publishing (getWorker m a)" "p \<in> set (w_pending (getWorker m a))"
  shows "\<exists>ls s' paths. run (m, C) ls s' \<and> length ls \<le> 2 \<and> list_all ownWork ls \<and> Published a paths \<in> set ls \<and> p \<in> set paths"
proof -
  obtain C' where C: "C = add_mset (PublishCall ws) C'" using assms(3) by (meson multi_member_split)
  obtain m' where m': "publishBegin ws m = (m', Some (a, w_pending (getWorker m a)))"
    using assms(2,4-6) by (cases "w_pending (getWorker m a)") (auto simp: publishBegin_def Let_def)
  have "run (m, C) [Internal] (m', add_mset (PublisherCall ws a (w_pending (getWorker m a))) C')"
    using run_step [OF run_refl publish_call [OF m', of C']] by (simp add: C)
  from run_step [OF this publish_return [of None PublishOk]]
  show ?thesis using assms(6) by (fastforce simp: callPublisher_def)
qed

text \<open>A timer that is set can fire.\<close>

lemma timer_possible:
  assumes "inv (m, C)" "m_workers m ws = Some a" "w_timer (getWorker m a) \<noteq> None"
  shows "\<exists>ls m' C'. run (m, C) ls (m', C') \<and> length ls \<le> 1 \<and> list_all ownWork ls \<and> PublishCall ws \<in># C' \<and>
    m_workers m' = m_workers m \<and> getWorker m' = getWorker m"
proof (cases "PublishCall ws \<in># C")
  case True
  then show ?thesis using run_refl [of "(m, C)"] by fastforce
next
  case False
  obtain i where i: "w_timer (getWorker m a) = Some i" using assms(3) by auto
  have armed: "armedAt (m_next m) (m_timers m) C ws (getWorker m a)" using assms(1,2) by (auto simp: inv_def intro: armedOk_at)
  then obtain t where t: "t \<in> set (m_timers m)" "t_id t = i" using i False by (auto simp: armedAt_def)
  then have "timerCall t = PublishCall ws" using armed i by (auto simp: armedAt_def timerCall_def)
  then show ?thesis using run_step [OF run_refl fire [OF t(1), of C]] by fastforce
qed

lemma run_trans: "run s ls s' \<Longrightarrow> run s' ls' s'' \<Longrightarrow> run s (ls @ ls') s''"
  by (rotate_tac 1, induction rule: run.induct) (auto simp flip: append_assoc intro: run_step)

lemma publisher_member:
  assumes "publishers C a = 1"
  obtains c where "c \<in># C" "publisherOf c = Some a"
proof -
  have "filter_mset (\<lambda>c. publisherOf c = Some a) C \<noteq> {#}"
    using assms unfolding publishers_def by (metis size_empty zero_neq_one)
  then obtain c where "c \<in># filter_mset (\<lambda>c. publisherOf c = Some a) C" by (rule multiset_nonemptyE)
  then show ?thesis using that by auto
qed

lemma publishEnd_worker:
  "w_stopping (getWorker (publishEnd ws a paths err m) a) = w_stopping (getWorker m a)"
  "w_publishing (getWorker (publishEnd ws a paths err m) a) = False"
  "m_workers (publishEnd ws a paths err m) = m_workers m"
  by (simp_all add: publishEnd_def Let_def scheduleAfterLocked_def afterFunc_def)

lemma pending_possible:
  assumes "inv (m, C)" "alert m" "m_workers m ws = Some a" "\<not> w_stopping (getWorker m a)" "\<not> w_publishing (getWorker m a)"
    "p \<in> set (w_pending (getWorker m a))"
  shows "\<exists>ls s' paths. run (m, C) ls s' \<and> length ls \<le> 3 \<and> list_all ownWork ls \<and> Published a paths \<in> set ls \<and> p \<in> set paths"
proof -
  have "w_timer (getWorker m a) \<noteq> None" using alert_get [OF assms(2,3)] assms(4-6) by (auto simp: alertAt_def)
  from timer_possible [OF assms(1,3) this] obtain ls m' C' where first: "run (m, C) ls (m', C')" "length ls \<le> 1" "list_all ownWork ls" "PublishCall ws \<in># C'"
      "m_workers m' = m_workers m" "getWorker m' = getWorker m" by blast
  have "inv (m', C')" by (rule run_inv [OF first(1) assms(1)])
  from publish_possible [OF this _ first(4), of a p] assms(3-6) first(5,6)
  obtain ls' s' paths where "run (m', C') ls' s'" "length ls' \<le> 2" "list_all ownWork ls'" "Published a paths \<in> set ls'" "p \<in> set paths" by auto
  with run_trans [OF first(1)] first(2,3) show ?thesis by (intro exI [of _ "ls @ ls'"] exI [of _ s'] exI [of _ paths]) auto
qed

text \<open>C27. Publication stays possible without any new event: in every state reached without a rejected list of events and
  without a failing release of the file lock, every path that a running worker has queued or is publishing can be
  published successfully within four steps of the indexer's own timers and goroutines (a publication in flight
  returns, a timer fires, the publisher is called and returns), after any number of failed publications. No interleaving
  leaves a path waiting for another \<^verbatim>\<open>Enqueue\<close>.\<close>

theorem queued_paths_publishable:
  assumes "reachable options ls s" "list_all undisturbed ls" "m_workers (fst s) ws = Some a" "\<not> w_stopping (getWorker (fst s) a)"
    "p \<in> outstanding s a"
  shows "\<exists>ls' s' paths. run s ls' s' \<and> length ls' \<le> 4 \<and> list_all ownWork ls' \<and> Published a paths \<in> set ls' \<and> p \<in> set paths"
proof -
  obtain m C where s: "s = (m, C)" by (cases s)
  have inv: "inv (m, C)" using reachable_inv assms(1) s by blast
  have "alert (NewManager options)" using NewManager_unused assms(1) by (simp add: reachable_def alert_def unused_def)
  then have alert: "alert m"
    using run_alert [of "(NewManager options, {#})" ls s] unused_inv [OF NewManager_unused] assms(1,2) s by (simp add: reachable_def)
  note ok = inv [unfolded inv_def prod.case]
  show ?thesis
  proof (cases "w_publishing (getWorker m a)")
    case False
    then have "publishers C a = 0" using flightOkD(1) [of m C a] pubs_registered [of m ws a] ok assms(3) s by simp
    then have "\<nexists>ws paths. PublisherCall ws a paths \<in># C" by (auto simp: publishers_def dest!: multi_member_split)
    then have "p \<in> set (w_pending (getWorker m a))" using assms(5) by (auto simp: s outstanding_def)
    from pending_possible [OF inv alert _ _ False this] assms(3,4) show ?thesis unfolding s by fastforce
  next
    case True
    then have "publishers C a = 1" using flightOkD(1) [of m C a] pubs_registered [of m ws a] ok assms(3) s by simp
    then obtain c where "c \<in># C" "publisherOf c = Some a" by (rule publisher_member)
    then obtain ws' paths C' where c: "C = add_mset (PublisherCall ws' a paths) C'" by (cases c) (auto dest!: multi_member_split)
    have reg: "m_workers m ws' = Some a" by (rule flightOk_registered [of m C _ _ paths]) (use ok c in auto)
    let ?m = "publishEnd ws' a paths None m"
    have first: "run (m, C) [Published a paths] (?m, C')"
      using run_step [OF run_refl publish_return [of None PublishOk m ws' a paths C']] by (simp add: c callPublisher_def)
    show ?thesis
    proof (cases "p \<in> set paths")
      case True
      then show ?thesis using first unfolding s by fastforce
    next
      case False
      have "publishers C' a = 0" using \<open>publishers C a = 1\<close> c by simp
      then have "\<nexists>ws paths. PublisherCall ws a paths \<in># C'" by (auto simp: publishers_def dest!: multi_member_split)
      then have "p \<in> set (w_pending (getWorker ?m a))"
        using assms(5) False by (auto simp: s outstanding_def c publishEnd_pending finished_pending)
      from pending_possible [OF run_inv [OF first inv] alert_publishEnd [OF alert] _ _ _ this, of ws'] reg assms(4)
      obtain ls' s' paths' where "run (?m, C') ls' s'" "length ls' \<le> 3" "list_all ownWork ls'" "Published a paths' \<in> set ls'" "p \<in> set paths'"
        by (auto simp: publishEnd_worker s)
      with run_trans [OF first] show ?thesis
        unfolding s by (intro exI [of _ "Published a paths # ls'"] exI [of _ s'] exI [of _ paths']) auto
    qed
  qed
qed

section \<open>A small run\<close>

definition sampleStarted :: Manager where
  "sampleStarted = fst (startLocked ''/w'' 0 (Inr ''/w/s'') (NewManager []))"

definition sampleQueued :: Manager where
  "sampleQueued = fst (enqueueLocked ''/w'' [''b/../a.go''] sampleStarted)"

lemma sample_reachable: "reachable [] [Internal] (sampleStarted, {#})"
  using run_step [OF run_refl start [of "''/w''" 0 "Inr ''/w/s''" "NewManager []" sampleStarted _ "{#}"]]
  by (simp add: reachable_def sampleStarted_def prod_eq_iff)

lemma sample_path: "normalizeEventPath ''/w'' ''b/../a.go'' = Inr ''a.go''"
  by code_simp

lemma sample_enqueue: "enqueueLocked ''/w'' [''b/../a.go''] sampleStarted = (sampleQueued, None)"
proof -
  have "snd (enqueueLocked ''/w'' [''b/../a.go''] sampleStarted) = None" by code_simp
  then show ?thesis by (simp add: sampleQueued_def prod_eq_iff)
qed

lemma sample_step: "step (sampleStarted, {#}) (Enqueued ''/w'' [''b/../a.go''] None) (sampleQueued, {#})"
  by (rule enqueue [OF sample_enqueue])

lemma sample_reachable_queued: "reachable [] [Internal, Enqueued ''/w'' [''b/../a.go''] None] (sampleQueued, {#})"
  using sample_reachable run_step [OF _ sample_step] by (fastforce simp: reachable_def)

lemma sample_worker: "m_workers sampleStarted ''/w'' = Some 0" "m_workers sampleQueued ''/w'' = Some 0"
  "w_stopping (getWorker sampleQueued 0) = False" "w_pending (getWorker sampleQueued 0) = [''a.go'']"
  by code_simp+

text \<open>The run of the witnesses: the first publication of the path fails and its retry waits for its timer, or the worker is
  stopped and the path is thrown away.\<close>

definition sampleFailed :: Manager where
  "sampleFailed = publishEnd ''/w'' 0 [''a.go''] (Some ''no'')
     (fst (publishBegin ''/w'' (sampleQueued\<lparr>m_timers := []\<rparr>)))"

definition sampleStopped :: Manager where
  "sampleStopped = fst (stopRound ''/w'' True sampleFailed)"

lemma sample_failed:
  "reachable [] [Internal, Enqueued ''/w'' [''b/../a.go''] None, Internal, Internal, PublishFailed 0 [''a.go'']] (sampleFailed, {#})"
  "run (sampleQueued, {#}) [Internal, Internal, PublishFailed 0 [''a.go'']] (sampleFailed, {#})"
proof -
  obtain t where timer: "m_timers sampleQueued = [t]" "timerCall t = PublishCall ''/w''"
  proof -
    have "map timerCall (m_timers sampleQueued) = [PublishCall ''/w'']" by code_simp
    then show ?thesis using that by auto
  qed
  let ?m = "sampleQueued\<lparr>m_timers := []\<rparr>"
  have fired: "step (sampleQueued, {#}) Internal (?m, {# PublishCall ''/w'' #})"
    using step.fire [of t sampleQueued "{#}"] timer by simp
  have begun: "publishBegin ''/w'' ?m = (fst (publishBegin ''/w'' ?m), Some (0, [''a.go'']))"
  proof -
    have "snd (publishBegin ''/w'' ?m) = Some (0, [''a.go''])" by code_simp
    then show ?thesis by (metis prod.collapse)
  qed
  have called: "step (?m, {# PublishCall ''/w'' #}) Internal (fst (publishBegin ''/w'' ?m), {# PublisherCall ''/w'' 0 [''a.go''] #})"
    by (rule step.publish_call [OF begun])
  have returned: "step (fst (publishBegin ''/w'' ?m), {# PublisherCall ''/w'' 0 [''a.go''] #}) (PublishFailed 0 [''a.go'']) (sampleFailed, {#})"
    using step.publish_return [of "Some ''no''" "PublishError ''no''" "fst (publishBegin ''/w'' ?m)" "''/w''" 0 "[''a.go'']" "{#}"]
    by (simp add: callPublisher_def sampleFailed_def)
  show steps: "run (sampleQueued, {#}) [Internal, Internal, PublishFailed 0 [''a.go'']] (sampleFailed, {#})"
    using run_step [OF run_step [OF run_step [OF run_refl fired] called] returned] by simp
  show "reachable [] [Internal, Enqueued ''/w'' [''b/../a.go''] None, Internal, Internal, PublishFailed 0 [''a.go'']] (sampleFailed, {#})"
    using run_trans [OF _ steps] sample_reachable_queued by (fastforce simp: reachable_def)
qed

lemma sample_stopped: "run (sampleFailed, {#}) [Internal, Discarded ''/w'' 0 [''a.go'']] (sampleStopped, {#})"
proof -
  have "snd (stopRound ''/w'' True sampleFailed) = Stopped" by code_simp
  then have round: "stopRound ''/w'' True sampleFailed = (sampleStopped, Stopped)" by (simp add: sampleStopped_def prod_eq_iff)
  have "stopLabel ''/w'' sampleFailed Stopped = Discarded ''/w'' 0 [''a.go'']" by code_simp
  then have "step (sampleFailed, {# StopCall ''/w'' #}) (Discarded ''/w'' 0 [''a.go'']) (sampleStopped, {#})"
    using step.stop_round [OF round, of "{#}"] by simp
  from run_step [OF run_step [OF run_refl step.stop [of sampleFailed "{#}" "''/w''"]] this] show ?thesis by simp
qed


theorem queued_paths_publishable_witness:
  "\<exists>ls s paths. run (sampleFailed, {#}) ls s \<and> length ls \<le> 4 \<and> list_all ownWork ls \<and> Published 0 paths \<in> set ls \<and> ''a.go'' \<in> set paths"
proof -
  have "m_workers sampleFailed ''/w'' = Some 0" "w_stopping (getWorker sampleFailed 0) = False"
    "w_pending (getWorker sampleFailed 0) = [''a.go'']" by code_simp+
  then show ?thesis
    using queued_paths_publishable [OF sample_failed(1), of "''/w''" 0 "''a.go''"] by (simp add: outstanding_def)
qed

section \<open>Further properties\<close>

text \<open>C28. In every reachable state of the indexer, for every running worker: its queue has no repetition and agrees with its
  set, its status shows the queue from the start; at most one publication is in flight, exactly if the worker says
  so; while it publishes or stops it has no timer, and a timer it has is running or a goroutine is about to
  publish its workspace. A call of \<^verbatim>\<open>Stop\<close> that waits is woken up: its channel is closed or belongs to a worker
  with a publication in flight, and no channel is closed twice.\<close>

theorem indexer_invariant:
  assumes "reachable options ls (m, C)"
  shows "(\<forall>ws a. m_workers m ws = Some a \<longrightarrow> workerOk (getWorker m a) \<and>
       publishers C a = (if w_publishing (getWorker m a) then 1 else 0) \<and>
       armedAt (m_next m) (m_timers m) C ws (getWorker m a)) \<and>
    (\<forall>ws a paths. PublisherCall ws a paths \<in># C \<longrightarrow> m_workers m ws = Some a \<and>
       (\<exists>ch. w_publishDone (getWorker m a) = Some ch \<and> ch \<notin> set (m_closed m))) \<and>
    (\<forall>ws ch. StopWaiting ws ch \<in># C \<longrightarrow> ch \<in> set (m_closed m) \<or>
       (\<exists>ws a paths. PublisherCall ws a paths \<in># C \<and> w_publishDone (getWorker m a) = Some ch))"
proof -
  have "inv (m, C)" by (rule reachable_inv [OF assms])
  then have ok: "storeOk m" "flightOk m C" "armedOk m C" by (simp_all add: inv_def)
  note flight = flightOkD [OF ok(2)]
  have one: "publishers C a = (if w_publishing (getWorker m a) then 1 else 0)" if "m_workers m ws = Some a" for ws a
    using flight(1) [of a] pubs_registered [OF ok(1) that] by simp
  have call: "\<exists>ws paths. PublisherCall ws a paths \<in># C" if "pubs m a \<noteq> None" for a
  proof -
    have "publishers C a = 1" using flight(1) [of a] that by simp
    then obtain c where "c \<in># C" "publisherOf c = Some a" by (rule publisher_member)
    then show ?thesis by (cases c) auto
  qed
  have done_channel: "pubs m a = Some (w_publishDone (getWorker m a))" if "PublisherCall ws a paths \<in># C" for ws a paths
  proof -
    have "publishers C a \<noteq> 0" using that by (auto simp: publishers_def dest!: multi_member_split)
    then show ?thesis using flight(1) [of a] pubs_registered [OF ok(1) flight(2) [OF that]] by (auto split: if_splits)
  qed
  have channel: "\<exists>ch. w_publishDone (getWorker m a) = Some ch \<and> ch \<notin> set (m_closed m)" if "PublisherCall ws a paths \<in># C" for ws a paths
    using flight(3) [OF done_channel [OF that]] by blast
  have wait: "ch \<in> set (m_closed m) \<or> (\<exists>ws a paths. PublisherCall ws a paths \<in># C \<and> w_publishDone (getWorker m a) = Some ch)"
    if "StopWaiting ws ch \<in># C" for ws ch
    using flight(5) [OF that] call done_channel by (metis option.distinct(1) option.inject)
  show ?thesis
    using storeOk_get [OF ok(1)] one armedOk_at [OF ok(3)] flight(2) channel wait by blast
qed

theorem indexer_invariant_witness:
  "workerOk (getWorker sampleQueued 0) \<and> publishers {#} 0 = 0 \<and>
   armedAt (m_next sampleQueued) (m_timers sampleQueued) {#} ''/w'' (getWorker sampleQueued 0)"
  using indexer_invariant [OF sample_reachable_queued, THEN conjunct1] sample_worker(2) by (auto simp: publishers_def)

text \<open>A rejected list of events strands the paths before the bad one: if \<^verbatim>\<open>Enqueue\<close> on an idle worker meets a good event
  and then a bad one, it returns the error of the bad one, but the good path stays queued with no timer that
  would publish it, and the status of the worker does not show it.\<close>

theorem rejected_events_strand_paths:
  assumes "m_workers m ws = Some a" "\<not> w_stopping (getWorker m a)" "w_pendingSet (getWorker m a) = []" "w_pending (getWorker m a) = []"
    "normalizeEventPath ws good = Inr p" "normalizeEventPath ws bad = Inl err"
  shows "\<exists>m'. enqueueLocked ws [good, bad] m = (m', Some err) \<and> w_pending (getWorker m' a) = [p] \<and>
    w_timer (getWorker m' a) = w_timer (getWorker m a) \<and> m_timers m' = m_timers m \<and>
    su_QueuedPaths (w_status (getWorker m' a)) = su_QueuedPaths (w_status (getWorker m a))"
  using assms by (simp add: enqueueLocked_def)

theorem rejected_events_strand_paths_witness:
  "\<exists>m'. enqueueLocked ''/w'' [''a.go'', ''../b.go''] sampleStarted = (m', Some EventPathOutside) \<and>
     w_pending (getWorker m' 0) = [''a.go''] \<and> w_timer (getWorker m' 0) = None \<and> m_timers m' = []"
proof -
  have "w_stopping (getWorker sampleStarted 0) = False" "w_pendingSet (getWorker sampleStarted 0) = []"
    "w_pending (getWorker sampleStarted 0) = []" "w_timer (getWorker sampleStarted 0) = None" "m_timers sampleStarted = []"
    "normalizeEventPath ''/w'' ''a.go'' = Inr ''a.go''" "normalizeEventPath ''/w'' ''../b.go'' = Inl EventPathOutside"
    by code_simp+
  then show ?thesis
    using rejected_events_strand_paths [OF sample_worker(1), of "''a.go''" "''a.go''" "''../b.go''" EventPathOutside] by auto
qed

text \<open>C40. The delay before the retry after \<open>k + 1\<close> failures in a row is the base delay doubled \<open>k\<close> times, capped by the maximum;
  in 64 bits this needs a maximum below \<open>2 ^ 62\<close> nanoseconds.\<close>

theorem retry_delays:
  assumes "0 < m_retryBase m" "m_retryBase m \<le> m_retryMax m" "m_retryMax m < 2 ^ 62"
  shows "(nextRetryDelay m ^^ Suc k) 0 = min (m_retryBase m * 2 ^ k) (m_retryMax m)"
proof (induction k)
  case 0
  then show ?case using assms by (simp add: nextRetryDelay_def)
next
  case (Suc k)
  let ?d = "min (m_retryBase m * 2 ^ k) (m_retryMax m)"
  have d: "0 < ?d" "?d < 2 ^ 62" using assms by auto
  have "int64 (?d * 2) = ?d * 2" using d by (simp add: int64_def)
  moreover have "min (?d * 2) (m_retryMax m) = min (m_retryBase m * 2 ^ Suc k) (m_retryMax m)"
    using assms by (auto simp: min_def)
  moreover have "nextRetryDelay m d = min (int64 (d * 2)) (m_retryMax m)" if "0 < d" for d
    using that by (auto simp: nextRetryDelay_def Let_def)
  ultimately have "nextRetryDelay m ?d = min (m_retryBase m * 2 ^ Suc k) (m_retryMax m)"
    using d(1) by (simp only:)
  then show ?case by (simp only: funpow.simps(2) [of "Suc k"] o_apply Suc)
qed

theorem retry_delays_witness:
  "(nextRetryDelay (NewManager []) ^^ Suc 5) 0 = 32 * second \<and> (nextRetryDelay (NewManager []) ^^ Suc 6) 0 = minute"
  using retry_delays [of "NewManager []" 5] retry_delays [of "NewManager []" 6]
  by (simp add: NewManager_def second_def millisecond_def minute_def)

end
