(* ===== verification/Discovery.thy ===== *)
theory Discovery
  imports Go_Path
begin

text \<open>
  Workspace discovery (\<^verbatim>\<open>src/workspace/discovery.go\<close>): project roots, ignore rules and the stream of
  source files. The workspace is a tree of files, whose walk is that of \<^verbatim>\<open>filepath.WalkDir\<close>; paths
  are relative to the workspace root, which is what \<^verbatim>\<open>filepath.Rel\<close> makes of the paths of the walk. The Git
  ignore matcher (\<^verbatim>\<open>github.com/sabhiram/go-gitignore\<close>) is a parameter: the lines it is compiled from, then the path.
  Cancellation is a parameter too: whether the context is cancelled at its \<open>n\<close>-th check.
\<close>

section \<open>Data\<close>

record Project =
  pj_ID :: str
  pj_Root :: str

record Source =
  so_Path :: str
  so_ProjectID :: str

record DiscoveryResult =
  di_Projects :: "Project list"
  di_Sources :: "Source list"

record ignoreRule =
  ir_pattern :: str
  ir_include :: bool

record gitIgnorePattern =
  gp_lines :: "str list"
  gp_negated :: bool

record gitIgnoreRule =
  gr_root :: str
  gr_patterns :: "gitIgnorePattern list"

record ignoreRules =
  ig_agraph :: "ignoreRule list"
  ig_gitIgnores :: "gitIgnoreRule list"

datatype discovery_error =
  WorkspaceUnresolved | Unreadable | WalkFailed | RootOutside | RootNotRelative | DiscoveryCancelled | EmitFailed

section \<open>Files\<close>

text \<open>A file has contents unless it cannot be read; a directory has entries unless it cannot be read.\<close>

datatype tree = File "str option" | Directory "(str \<times> tree) list option"

datatype visit = VisitFile str "str option" | VisitDirectory str | VisitError

definition childPath :: "str \<Rightarrow> str \<Rightarrow> str" where
  "childPath p name = (if p = ''.'' then name else p @ slashes @ name)"

text \<open>\<^verbatim>\<open>filepath.WalkDir\<close> with a callback that skips the directories with \<open>skip\<close>: a directory comes before its entries,
  which come in the order of their names.\<close>

fun walkDir :: "(str \<Rightarrow> bool) \<Rightarrow> str \<Rightarrow> tree \<Rightarrow> visit list" where
  "walkDir skip p (File contents) = [VisitFile p contents]"
| "walkDir skip p (Directory None) = VisitDirectory p # (if skip p then [] else [VisitError])"
| "walkDir skip p (Directory (Some entries)) =
     VisitDirectory p # (if skip p then [] else
       concat (map snd (sort_key fst (map (\<lambda>(name, t). (name, walkDir skip (childPath p name) t)) entries))))"

fun lookupEntry :: "str \<Rightarrow> tree \<Rightarrow> tree option" where
  "lookupEntry name (Directory (Some entries)) = map_of entries name"
| "lookupEntry name _ = None"

section \<open>Pattern matching\<close>

definition dashChar :: char where "dashChar = CHR ''-''"
definition openChar :: char where "openChar = CHR ''[''"
definition closeChar :: char where "closeChar = CHR '']''"
definition caretChar :: char where "caretChar = CHR ''^''"
definition questionChar :: char where "questionChar = CHR ''?''"
definition starChar :: char where "starChar = CHR ''*''"
definition backslash :: char where "backslash = CHR 0x5C"

lemma star_not_backslash [simp]: "starChar \<noteq> backslash" "backslash \<noteq> starChar"
  by (simp_all add: starChar_def backslash_def)

text \<open>\<^verbatim>\<open>path.Match\<close> on bytes; an ill-formed pattern, whose error the callers drop, matches nothing.\<close>

definition getEsc :: "str \<Rightarrow> (char \<times> str) option" where
  "getEsc chunk =
     (case chunk of
        [] \<Rightarrow> None
      | c # p \<Rightarrow>
          if c = dashChar \<or> c = closeChar then None
          else if c = backslash then (case p of d # q \<Rightarrow> if q = [] then None else Some (d, q) | [] \<Rightarrow> None)
          else if p = [] then None else Some (c, p))"

lemma getEsc_length: "getEsc chunk = Some (c, rest) \<Longrightarrow> length rest < length chunk"
  by (auto simp: getEsc_def split: list.splits if_splits)

text \<open>The ranges of a character class: whether the character is in one of them, and the rest of the pattern.\<close>

function matchClass :: "char \<Rightarrow> bool \<Rightarrow> bool \<Rightarrow> str \<Rightarrow> (bool \<times> str) option" where
  "matchClass r nonempty matched chunk =
     (if nonempty \<and> chunk \<noteq> [] \<and> hd chunk = closeChar then Some (matched, tl chunk)
      else (case getEsc chunk of
              None \<Rightarrow> None
            | Some (lo, rest) \<Rightarrow>
                if rest \<noteq> [] \<and> hd rest = dashChar then
                  (case getEsc (tl rest) of
                     None \<Rightarrow> None
                   | Some (hi, rest') \<Rightarrow> matchClass r True (matched \<or> of_char lo \<le> (of_char r :: nat) \<and> of_char r \<le> (of_char hi :: nat)) rest')
                else matchClass r True (matched \<or> lo = r) rest))"
  by pat_completeness auto
termination
  by (relation "measure (\<lambda>(_, _, _, chunk). length chunk)") (auto dest!: getEsc_length)

declare matchClass.simps [simp del]

text \<open>A chunk, a pattern without stars, at the start of a name: what it leaves of the name.\<close>

function matchChunk :: "str \<Rightarrow> str \<Rightarrow> str option" where
  "matchChunk chunk s =
     (case (chunk, s) of
        ([], _) \<Rightarrow> Some s
      | (_ # _, []) \<Rightarrow> None
      | (c # p, d # n) \<Rightarrow>
          if c = openChar then
            (let negated = (p \<noteq> [] \<and> hd p = caretChar) in
             case matchClass d False False (if negated then tl p else p) of
               None \<Rightarrow> None
             | Some (matched, rest) \<Rightarrow> if matched = negated \<or> length chunk \<le> length rest then None else matchChunk rest n)
          else if c = questionChar then (if d = slash then None else matchChunk p n)
          else if c = backslash then (case p of e # q \<Rightarrow> if d = e then matchChunk q n else None | [] \<Rightarrow> None)
          else if d = c then matchChunk p n else None)"
  by pat_completeness auto
termination
  by (relation "measure (\<lambda>(chunk, _). length chunk)") auto

declare matchChunk.simps [simp del]

text \<open>The end of a chunk is a star outside of brackets.\<close>

fun splitChunk :: "bool \<Rightarrow> str \<Rightarrow> str \<times> str" where
  "splitChunk inrange [] = ([], [])"
| "splitChunk inrange (c # p) =
     (if c = backslash then
        (case p of [] \<Rightarrow> ([c], []) | d # q \<Rightarrow> (let split = splitChunk inrange q in (c # d # fst split, snd split)))
      else if c = starChar \<and> \<not> inrange then ([], c # p)
      else (let split = splitChunk (c = openChar \<or> inrange \<and> c \<noteq> closeChar) p in (c # fst split, snd split)))"

text \<open>A starred chunk matches after as few characters as possible, none of them a slash; the last one must use up the name.\<close>

fun skipStar :: "str \<Rightarrow> bool \<Rightarrow> str \<Rightarrow> str option" where
  "skipStar chunk final [] = None"
| "skipStar chunk final (c # n) =
     (if c = slash then None
      else case matchChunk chunk n of
        None \<Rightarrow> skipStar chunk final n
      | Some t \<Rightarrow> if final \<and> t \<noteq> [] then skipStar chunk final n else Some t)"

lemma splitChunk_length:
  "length (fst (splitChunk inrange p)) + length (snd (splitChunk inrange p)) = length p"
proof (induction inrange p rule: splitChunk.induct)
  case (2 inrange c p)
  then show ?case by (cases "c = backslash"; cases p) (simp_all add: Let_def)
qed simp

lemma splitChunk_progress:
  assumes "pattern \<noteq> []"
  shows "length (snd (splitChunk False (dropWhile (\<lambda>c. c = starChar) pattern))) < length pattern"
proof (cases "hd pattern = starChar")
  case True
  then have "length (dropWhile (\<lambda>c. c = starChar) pattern) < length pattern"
    using assms by (cases pattern) (auto simp: le_imp_less_Suc length_dropWhile_le)
  then show ?thesis using splitChunk_length [of False "dropWhile (\<lambda>c. c = starChar) pattern"] by linarith
next
  case False
  then have same: "dropWhile (\<lambda>c. c = starChar) pattern = pattern" using assms by (cases pattern) auto
  have "fst (splitChunk False pattern) \<noteq> []" using False assms by (cases pattern; cases "tl pattern") (simp_all add: Let_def)
  then show ?thesis using splitChunk_length [of False pattern] unfolding same by (cases "fst (splitChunk False pattern)") auto
qed

function pathMatch :: "str \<Rightarrow> str \<Rightarrow> bool" where
  "pathMatch pattern name =
     (if pattern = [] then name = []
      else let star = (hd pattern = starChar);
               split = splitChunk False (dropWhile (\<lambda>c. c = starChar) pattern);
               chunk = fst split; rest = snd split in
        if star \<and> chunk = [] then slash \<notin> set name
        else (case matchChunk chunk name of
                Some t \<Rightarrow>
                  if t = [] \<or> rest \<noteq> [] then pathMatch rest t
                  else if star then (case skipStar chunk (rest = []) name of None \<Rightarrow> False | Some t \<Rightarrow> pathMatch rest t) else False
              | None \<Rightarrow>
                  if star then (case skipStar chunk (rest = []) name of None \<Rightarrow> False | Some t \<Rightarrow> pathMatch rest t) else False))"
  by pat_completeness auto
termination
  by (relation "measure (\<lambda>(pattern, _). length pattern)") (auto simp: splitChunk_progress)

declare pathMatch.simps [simp del]

section \<open>Ignore rules\<close>

definition internalDirectory :: "str \<Rightarrow> bool" where
  "internalDirectory sourcePath =
     list_ex (\<lambda>component. component \<in> {''.agent-wayfinder'', ''.git'', ''node_modules''}) (SplitOn slash sourcePath)"

text \<open>A path and its parents, up to \<^verbatim>\<open>.\<close>: the loops that step with \<^verbatim>\<open>path.Dir\<close>. The number of steps is
  bounded; \<open>ancestors_complete\<close> below shows that a relative path needs no more.\<close>

fun dirsUp :: "nat \<Rightarrow> str \<Rightarrow> str list" where
  "dirsUp 0 directory = []"
| "dirsUp (Suc n) directory = (if directory = ''.'' then [] else directory # dirsUp n (Dir directory))"

definition ancestors :: "str \<Rightarrow> str list" where
  "ancestors sourcePath = dirsUp (Suc (length sourcePath)) sourcePath"

definition directoryPatternMatches :: "str \<Rightarrow> str \<Rightarrow> bool \<Rightarrow> bool" where
  "directoryPatternMatches sourcePath pattern anchored =
     (let components = SplitOn slash sourcePath in
      list_ex (\<lambda>index.
        let candidate = JoinOn slashes (take (index + 1) components) in
        if anchored \<and> candidate \<noteq> pattern then False
        else if \<not> anchored \<and> slash \<notin> set pattern then pathMatch pattern (components ! index)
        else pathMatch pattern candidate) [0..<length components - 1])"

definition ignorePatternMatches :: "str \<Rightarrow> str \<Rightarrow> bool" where
  "ignorePatternMatches sourcePath pattern0 =
     (let anchored = HasPrefix pattern0 slashes;
          pattern1 = TrimPrefix pattern0 slashes;
          directory = HasSuffix pattern1 slashes;
          pattern = TrimSuffix pattern1 slashes in
      if pattern = [] then False
      else if directory then directoryPatternMatches sourcePath pattern anchored
      else if slash \<notin> set pattern then pathMatch pattern (Base sourcePath)
      else if anchored then pathMatch pattern sourcePath
      else list_ex (pathMatch pattern) (ancestors sourcePath))"

text \<open>\<open>matcher\<close> is the Git ignore matcher.\<close>

definition matchesGitIgnorePattern :: "(str list \<Rightarrow> str \<Rightarrow> bool) \<Rightarrow> gitIgnorePattern \<Rightarrow> str \<Rightarrow> bool \<Rightarrow> bool" where
  "matchesGitIgnorePattern matcher pattern sourcePath directory =
     (let matched = matcher (gp_lines pattern) (if directory then sourcePath @ slashes else sourcePath) in
      if gp_negated pattern then \<not> matched else matched)"

definition gitIgnoredPath :: "(str list \<Rightarrow> str \<Rightarrow> bool) \<Rightarrow> str \<Rightarrow> bool \<Rightarrow> gitIgnoreRule list \<Rightarrow> bool" where
  "gitIgnoredPath matcher sourcePath directory rules =
     fold (\<lambda>rule excluded.
       if gr_root rule \<noteq> ''.'' \<and> \<not> HasPrefix sourcePath (gr_root rule @ slashes) then excluded
       else
         let relativePath = (if gr_root rule \<noteq> ''.'' then TrimPrefix sourcePath (gr_root rule @ slashes) else sourcePath) in
         fold (\<lambda>pattern excluded.
           if matchesGitIgnorePattern matcher pattern relativePath directory then \<not> gp_negated pattern else excluded)
           (gr_patterns rule) excluded) rules False"

definition gitIgnored :: "(str list \<Rightarrow> str \<Rightarrow> bool) \<Rightarrow> str \<Rightarrow> gitIgnoreRule list \<Rightarrow> bool" where
  "gitIgnored matcher sourcePath rules =
     (list_ex (\<lambda>directory. gitIgnoredPath matcher directory True rules) (ancestors (Dir sourcePath)) \<or>
      gitIgnoredPath matcher sourcePath False rules)"

definition sourceExcluded :: "(str list \<Rightarrow> str \<Rightarrow> bool) \<Rightarrow> str \<Rightarrow> ignoreRules \<Rightarrow> bool" where
  "sourceExcluded matcher sourcePath rules =
     (internalDirectory sourcePath \<or> gitIgnored matcher sourcePath (ig_gitIgnores rules) \<or>
      fold (\<lambda>rule excluded. if ignorePatternMatches sourcePath (ir_pattern rule) then \<not> ir_include rule else excluded)
        (ig_agraph rules) False)"

section \<open>Loading ignore rules\<close>

definition newline :: char where
  "newline = CHR 0x0A"

definition loadGitIgnorePatterns :: "str option \<Rightarrow> discovery_error + gitIgnorePattern list" where
  "loadGitIgnorePatterns contents =
     (case contents of
        None \<Rightarrow> Inl Unreadable
      | Some text \<Rightarrow> Inr (concat (map (\<lambda>line.
          let pattern = TrimSpace line in
          if pattern = [] \<or> HasPrefix pattern ''#'' then []
          else let negated = HasPrefix pattern ''!'' in
            [\<lparr>gp_lines = (if negated then [''*'', pattern] else [pattern]), gp_negated = negated\<rparr>]) (SplitOn newline text))))"

definition gitIgnoreVisit :: "visit \<Rightarrow> gitIgnoreRule list \<Rightarrow> discovery_error + gitIgnoreRule list" where
  "gitIgnoreVisit v rules =
     (case v of
        VisitError \<Rightarrow> Inl WalkFailed
      | VisitDirectory _ \<Rightarrow> Inr rules
      | VisitFile relativePath contents \<Rightarrow>
          if Base relativePath \<noteq> ''.gitignore'' then Inr rules
          else bindE (loadGitIgnorePatterns contents) (\<lambda>patterns.
            Inr (rules @ [\<lparr>gr_root = Dir relativePath, gr_patterns = patterns\<rparr>])))"

definition skipInternal :: "str \<Rightarrow> bool" where
  "skipInternal relativePath \<longleftrightarrow> relativePath \<noteq> ''.'' \<and> internalDirectory relativePath"

definition loadGitIgnoreRules :: "tree \<Rightarrow> discovery_error + gitIgnoreRule list" where
  "loadGitIgnoreRules tree =
     bindE (foldE gitIgnoreVisit (walkDir skipInternal ''.'' tree) []) (\<lambda>rules. Inr (sort_key gr_root rules))"

text \<open>Reading a file of the workspace root.\<close>

datatype readResult = NotExist | ReadError | Contents str

definition readRootFile :: "str \<Rightarrow> tree \<Rightarrow> readResult" where
  "readRootFile name tree =
     (case tree of
        Directory (Some entries) \<Rightarrow>
          (case map_of entries name of
             None \<Rightarrow> NotExist
           | Some (File (Some contents)) \<Rightarrow> Contents contents
           | Some _ \<Rightarrow> ReadError)
      | _ \<Rightarrow> ReadError)"

definition parseIgnoreRules :: "str \<Rightarrow> ignoreRule list" where
  "parseIgnoreRules contents =
     concat (map (\<lambda>line.
       let pattern = TrimSpace line in
       if pattern = [] \<or> HasPrefix pattern ''#'' then []
       else
         let incl = HasPrefix pattern ''!'';
             pattern' = (if incl then TrimPrefix pattern ''!'' else pattern) in
         if pattern' \<noteq> [] then [\<lparr>ir_pattern = pattern', ir_include = incl\<rparr>] else []) (SplitOn newline contents))"

definition loadIgnoreRules :: "tree \<Rightarrow> discovery_error + ignoreRules" where
  "loadIgnoreRules tree =
     bindE (loadGitIgnoreRules tree) (\<lambda>gitIgnores.
       case readRootFile ''.wayfinderignore'' tree of
         NotExist \<Rightarrow> Inr \<lparr>ig_agraph = [], ig_gitIgnores = gitIgnores\<rparr>
       | ReadError \<Rightarrow> Inl Unreadable
       | Contents contents \<Rightarrow> Inr \<lparr>ig_agraph = parseIgnoreRules contents, ig_gitIgnores = gitIgnores\<rparr>)"

section \<open>Projects\<close>

definition projectManifest :: "str \<Rightarrow> bool" where
  "projectManifest name \<longleftrightarrow> name \<in> {''go.mod'', ''package.json'', ''tsconfig.json'', ''jsconfig.json''}"

definition normalizeRoot :: "str \<Rightarrow> str \<Rightarrow> discovery_error + str" where
  "normalizeRoot workspaceRoot root =
     (let candidate = (if IsAbs root then root else Join [workspaceRoot, root]) in
      case Rel workspaceRoot candidate of
        None \<Rightarrow> Inl RootNotRelative
      | Some relativeRoot \<Rightarrow>
          if relativeRoot = ''..'' \<or> HasPrefix relativeRoot (''..'' @ slashes) then Inl RootOutside
          else if relativeRoot = ''.'' then Inr ''.''
          else Inr (Clean relativeRoot))"

definition uniqueSorted :: "str list \<Rightarrow> str list" where
  "uniqueSorted values = dedup_adjacent (sort values)"

definition projectRoot :: "str \<Rightarrow> str" where
  "projectRoot manifestPath = Dir manifestPath"

definition projectID :: "str \<Rightarrow> str" where
  "projectID root = ''project:'' @ root"

definition supportedSource :: "str \<Rightarrow> bool" where
  "supportedSource path \<longleftrightarrow> ToLower (Ext path) \<in> {''.go'', ''.js'', ''.jsx'', ''.ts'', ''.tsx''}"

definition mostSpecificRoot :: "str \<Rightarrow> str list \<Rightarrow> str option" where
  "mostSpecificRoot sourcePath roots =
     (let bestRoot = fold (\<lambda>root bestRoot.
        if (root = ''.'' \<or> sourcePath = root \<or> HasPrefix sourcePath (root @ slashes)) \<and> length root > length bestRoot
        then root else bestRoot) roots [] in
      if bestRoot = [] then None else Some bestRoot)"

section \<open>The stream of sources\<close>

text \<open>The callbacks of the two walks; \<open>cancelled\<close> tells what the check of the context finds.\<close>

definition projectVisit :: "(str list \<Rightarrow> str \<Rightarrow> bool) \<Rightarrow> ignoreRules \<Rightarrow> bool \<times> visit \<Rightarrow> str list \<Rightarrow> discovery_error + str list" where
  "projectVisit matcher rules cv roots =
     (if fst cv then Inl DiscoveryCancelled
      else case snd cv of
        VisitError \<Rightarrow> Inl WalkFailed
      | VisitDirectory _ \<Rightarrow> Inr roots
      | VisitFile relativePath _ \<Rightarrow>
          if sourceExcluded matcher relativePath rules then Inr roots
          else if projectManifest (Base relativePath) then Inr (roots @ [projectRoot relativePath])
          else Inr roots)"

definition sourceOf :: "(str list \<Rightarrow> str \<Rightarrow> bool) \<Rightarrow> ignoreRules \<Rightarrow> str list \<Rightarrow> str \<Rightarrow> Source option" where
  "sourceOf matcher rules roots relativePath =
     (if sourceExcluded matcher relativePath rules \<or> \<not> supportedSource relativePath then None
      else map_option (\<lambda>ownerRoot. \<lparr>so_Path = relativePath, so_ProjectID = projectID ownerRoot\<rparr>)
             (mostSpecificRoot relativePath roots))"

text \<open>The second walk keeps the count of sources and the state of the receiver also when it fails.\<close>

fun sourceVisits ::
  "(Source \<Rightarrow> 'k \<Rightarrow> 'k \<times> bool) \<Rightarrow> (str \<Rightarrow> Source option) \<Rightarrow> (bool \<times> visit) list \<Rightarrow> nat \<times> 'k \<Rightarrow> (nat \<times> 'k) \<times> discovery_error option" where
  "sourceVisits emit source [] st = (st, None)"
| "sourceVisits emit source (cv # cvs) st =
     (if fst cv then (st, Some DiscoveryCancelled)
      else case snd cv of
        VisitError \<Rightarrow> (st, Some WalkFailed)
      | VisitDirectory _ \<Rightarrow> sourceVisits emit source cvs st
      | VisitFile relativePath _ \<Rightarrow>
          (case source relativePath of
             None \<Rightarrow> sourceVisits emit source cvs st
           | Some src \<Rightarrow>
               (case emit src (snd st) of
                  (k, failed) \<Rightarrow>
                    if failed then ((fst st, k), Some EmitFailed)
                    else sourceVisits emit source cvs (fst st + 1, k))))"

text \<open>\<open>checks\<close> numbers the checks of the context from \<open>n\<close> on.\<close>

definition checks :: "(nat \<Rightarrow> bool) \<Rightarrow> nat \<Rightarrow> visit list \<Rightarrow> (bool \<times> visit) list" where
  "checks cancelled n visits = zip (map cancelled [n..<n + length visits]) visits"

definition DiscoverStream ::
  "(str list \<Rightarrow> str \<Rightarrow> bool) \<Rightarrow> (nat \<Rightarrow> bool) \<Rightarrow> str option \<Rightarrow> tree \<Rightarrow> str \<Rightarrow> str list \<Rightarrow>
   (Source \<Rightarrow> 'k \<Rightarrow> 'k \<times> bool) \<Rightarrow> 'k \<Rightarrow> (discovery_error + Project list) \<times> nat \<times> 'k" where
  "DiscoverStream matcher cancelled cwd tree root configuredRoots emit k =
     (case Abs cwd root of
        None \<Rightarrow> (Inl WorkspaceUnresolved, 0, k)
      | Some workspaceRoot \<Rightarrow>
          (case loadIgnoreRules tree of
             Inl err \<Rightarrow> (Inl err, 0, k)
           | Inr rules \<Rightarrow>
               (case mapE (normalizeRoot workspaceRoot) configuredRoots of
                  Inl err \<Rightarrow> (Inl err, 0, k)
                | Inr normalized \<Rightarrow>
                    let visits = walkDir (\<lambda>_. False) ''.'' tree in
                    (case foldE (projectVisit matcher rules) (checks cancelled 0 visits) normalized of
                       Inl err \<Rightarrow> (Inl err, 0, k)
                     | Inr found \<Rightarrow>
                         let roots = uniqueSorted found;
                             projects = map (\<lambda>r. \<lparr>pj_ID = projectID r, pj_Root = r\<rparr>) roots in
                         (case sourceVisits emit (sourceOf matcher rules roots) (checks cancelled (length visits) visits) (0, k) of
                            ((sourceCount, k'), Some err) \<Rightarrow> (Inl err, sourceCount, k')
                          | ((sourceCount, k'), None) \<Rightarrow> (Inr projects, sourceCount, k'))))))"

text \<open>\<^verbatim>\<open>Discover\<close> collects the sources under a context that is never cancelled.\<close>

definition Discover ::
  "(str list \<Rightarrow> str \<Rightarrow> bool) \<Rightarrow> str option \<Rightarrow> tree \<Rightarrow> str \<Rightarrow> str list \<Rightarrow> discovery_error + DiscoveryResult" where
  "Discover matcher cwd tree root configuredRoots =
     (case DiscoverStream matcher (\<lambda>_. False) cwd tree root configuredRoots (\<lambda>source sources. (sources @ [source], False)) [] of
        (Inl err, _) \<Rightarrow> Inl err
      | (Inr projects, _, sources) \<Rightarrow> Inr \<lparr>di_Projects = projects, di_Sources = sources\<rparr>)"

section \<open>Correctness of the stream\<close>

text \<open>The files of the workspace in the order of the walk.\<close>

definition fileVisits :: "visit list \<Rightarrow> str list" where
  "fileVisits visits = concat (map (\<lambda>v. case v of VisitFile p _ \<Rightarrow> [p] | _ \<Rightarrow> []) visits)"

definition workspaceFiles :: "tree \<Rightarrow> str list" where
  "workspaceFiles tree = fileVisits (walkDir (\<lambda>_. False) ''.'' tree)"

definition isProjectFile :: "(str list \<Rightarrow> str \<Rightarrow> bool) \<Rightarrow> ignoreRules \<Rightarrow> str \<Rightarrow> bool" where
  "isProjectFile matcher rules p \<longleftrightarrow> \<not> sourceExcluded matcher p rules \<and> projectManifest (Base p)"

lemma checks_snd: "map snd (checks cancelled n visits) = visits"
  by (simp add: checks_def)

lemma fileVisits_Nil [simp]: "fileVisits [] = []"
  by (simp add: fileVisits_def)

lemma fileVisits_Cons:
  "fileVisits (v # vs) = (case v of VisitFile p _ \<Rightarrow> p # fileVisits vs | _ \<Rightarrow> fileVisits vs)"
  by (simp add: fileVisits_def split: visit.splits)

lemma projectVisit_Inr:
  assumes "projectVisit matcher rules cv roots = Inr roots1"
  shows "roots1 = roots @ map projectRoot (filter (isProjectFile matcher rules) (fileVisits [snd cv]))"
  using assms by (auto simp: projectVisit_def fileVisits_Cons isProjectFile_def split: if_splits visit.splits)

lemma projectVisits_Inr:
  "foldE (projectVisit matcher rules) cvs roots = Inr found \<Longrightarrow>
     found = roots @ map projectRoot (filter (isProjectFile matcher rules) (fileVisits (map snd cvs)))"
proof (induction cvs arbitrary: roots)
  case (Cons cv cvs)
  then obtain roots1 where first: "projectVisit matcher rules cv roots = Inr roots1"
      "found = roots1 @ map projectRoot (filter (isProjectFile matcher rules) (fileVisits (map snd cvs)))" by auto
  then show ?case
    using projectVisit_Inr [OF first(1)] by (cases "snd cv") (simp_all add: fileVisits_Cons)
qed simp

text \<open>Sources of a list of files.\<close>

definition sourcesOf :: "(str \<Rightarrow> Source option) \<Rightarrow> str list \<Rightarrow> Source list" where
  "sourcesOf source files = concat (map (\<lambda>p. case source p of None \<Rightarrow> [] | Some src \<Rightarrow> [src]) files)"

text \<open>A receiver that appends and may fail. What it gets is a prefix of the sources, all of them if nothing fails.\<close>

definition recording :: "(Source \<Rightarrow> Source list \<Rightarrow> bool) \<Rightarrow> Source \<Rightarrow> Source list \<Rightarrow> Source list \<times> bool" where
  "recording fails source sources = (if fails source sources then (sources, True) else (sources @ [source], False))"

lemma sourcesOf_simps [simp]:
  "sourcesOf source [] = []"
  "sourcesOf source (p # ps) = (case source p of None \<Rightarrow> sourcesOf source ps | Some src \<Rightarrow> src # sourcesOf source ps)"
  by (simp_all add: sourcesOf_def split: option.splits)

lemma sourceVisits_recording:
  assumes "sourceVisits (recording fails) source cvs (c, ss) = ((c', ss'), err)"
  shows "\<exists>new. ss' = ss @ new \<and> c' = c + length new \<and> prefix new (sourcesOf source (fileVisits (map snd cvs))) \<and>
    (err = None \<longrightarrow> new = sourcesOf source (fileVisits (map snd cvs)))"
  using assms
proof (induction cvs arbitrary: c ss)
  case (Cons cv cvs)
  consider "err \<noteq> None" "ss' = ss" "c' = c"
    | "sourceVisits (recording fails) source cvs (c, ss) = ((c', ss'), err)"
      "sourcesOf source (fileVisits [snd cv]) = []"
    | src where "sourceVisits (recording fails) source cvs (c + 1, ss @ [src]) = ((c', ss'), err)"
      "sourcesOf source (fileVisits [snd cv]) = [src]"
    using Cons.prems
    by (cases "fst cv"; cases "snd cv") (auto simp: fileVisits_Cons recording_def [of fails _ ss] split: option.splits if_splits)
  then show ?case
  proof cases
    case 2
    then show ?thesis using Cons.IH [OF 2(1)] by (cases "snd cv") (auto simp: fileVisits_Cons split: option.splits)
  next
    case 3
    from Cons.IH [OF 3(1)] obtain new where "ss' = (ss @ [src]) @ new" "c' = c + 1 + length new"
      "prefix new (sourcesOf source (fileVisits (map snd cvs)))" "err = None \<longrightarrow> new = sourcesOf source (fileVisits (map snd cvs))"
      by auto
    moreover have "sourcesOf source (fileVisits (map snd (cv # cvs))) = src # sourcesOf source (fileVisits (map snd cvs))"
      using 3(2) by (cases "snd cv") (auto simp: fileVisits_Cons split: option.splits)
    ultimately show ?thesis by (intro exI [of _ "src # new"]) simp
  qed (intro exI [of _ "[]"], auto)
qed simp

lemma recording_never: "recording (\<lambda>_ _. False) = (\<lambda>source sources. (sources @ [source], False))"
  by (simp add: recording_def fun_eq_iff)

definition projectsOf :: "str list \<Rightarrow> Project list" where
  "projectsOf roots = map (\<lambda>r. \<lparr>pj_ID = projectID r, pj_Root = r\<rparr>) roots"

text \<open>The project roots of a workspace.\<close>

definition discoveredRoots :: "(str list \<Rightarrow> str \<Rightarrow> bool) \<Rightarrow> ignoreRules \<Rightarrow> str list \<Rightarrow> tree \<Rightarrow> str list" where
  "discoveredRoots matcher rules normalized tree =
     uniqueSorted (normalized @ map projectRoot (filter (isProjectFile matcher rules) (workspaceFiles tree)))"

lemma DiscoverStream_recording:
  assumes "DiscoverStream matcher cancelled cwd tree root configuredRoots (recording fails) [] = (result, n, sources)"
    "Abs cwd root = Some ws" "loadIgnoreRules tree = Inr rules" "mapE (normalizeRoot ws) configuredRoots = Inr normalized"
  defines "roots \<equiv> discoveredRoots matcher rules normalized tree"
  defines "all \<equiv> sourcesOf (sourceOf matcher rules roots) (workspaceFiles tree)"
  shows "n = length sources \<and> prefix sources all \<and> (\<forall>projects. result = Inr projects \<longrightarrow> projects = projectsOf roots \<and> sources = all)"
proof -
  let ?visits = "walkDir (\<lambda>_. False) ''.'' tree"
  show ?thesis
  proof (cases "foldE (projectVisit matcher rules) (checks cancelled 0 ?visits) normalized")
    case (Inl err)
    then have "result = Inl err" "n = 0" "sources = []" using assms(1-4) by (simp_all add: DiscoverStream_def)
    then show ?thesis by simp
  next
    case (Inr found)
    have roots: "uniqueSorted found = roots"
      using projectVisits_Inr [OF Inr] by (simp add: roots_def discoveredRoots_def checks_snd workspaceFiles_def)
    obtain c ss err where run: "sourceVisits (recording fails) (sourceOf matcher rules roots)
        (checks cancelled (length ?visits) ?visits) (0, []) = ((c, ss), err)" by (metis prod.exhaust)
    have "n = c" "sources = ss" "result = (case err of None \<Rightarrow> Inr (projectsOf roots) | Some e \<Rightarrow> Inl e)"
      using assms(1-4) Inr run by (auto simp: DiscoverStream_def Let_def roots projectsOf_def split: option.splits)
    then show ?thesis
      using sourceVisits_recording [OF run] by (auto simp: checks_snd all_def workspaceFiles_def split: option.splits)
  qed
qed

lemma DiscoverStream_Inr:
  assumes "DiscoverStream matcher cancelled cwd tree root configuredRoots emit k = (Inr projects, rest)"
  obtains ws rules normalized where "Abs cwd root = Some ws" "loadIgnoreRules tree = Inr rules"
    "mapE (normalizeRoot ws) configuredRoots = Inr normalized"
  using assms by (auto simp: DiscoverStream_def split: option.splits sum.splits)

lemma Discover_Inr:
  assumes "Discover matcher cwd tree root configuredRoots = Inr d"
  obtains ws rules normalized where "Abs cwd root = Some ws" "loadIgnoreRules tree = Inr rules"
    "mapE (normalizeRoot ws) configuredRoots = Inr normalized"
    "di_Projects d = projectsOf (discoveredRoots matcher rules normalized tree)"
    "di_Sources d = sourcesOf (sourceOf matcher rules (discoveredRoots matcher rules normalized tree)) (workspaceFiles tree)"
proof -
  obtain projects n sources where run: "DiscoverStream matcher (\<lambda>_. False) cwd tree root configuredRoots (recording (\<lambda>_ _. False)) [] =
      (Inr projects, n, sources)" and d: "d = \<lparr>di_Projects = projects, di_Sources = sources\<rparr>"
    using assms by (auto simp: Discover_def recording_never split: prod.splits sum.splits)
  from run obtain ws rules normalized where ok: "Abs cwd root = Some ws" "loadIgnoreRules tree = Inr rules"
    "mapE (normalizeRoot ws) configuredRoots = Inr normalized" by (rule DiscoverStream_Inr)
  then show ?thesis using DiscoverStream_recording [OF run ok] d that by auto
qed


section \<open>The files of the walk\<close>

text \<open>\<open>fileIn tree names\<close>: there is a file below the directories called \<open>names\<close>.\<close>

fun fileIn :: "tree \<Rightarrow> str list \<Rightarrow> bool" where
  "fileIn (File contents) names = (names = [])"
| "fileIn (Directory (Some entries)) (name # names) = list_ex (\<lambda>(n, t). n = name \<and> fileIn t names) entries"
| "fileIn (Directory _) _ = False"

lemma fileVisits_append [simp]: "fileVisits (vs @ ws) = fileVisits vs @ fileVisits ws"
  by (simp add: fileVisits_def)

lemma set_fileVisits: "set (fileVisits vs) = {p. \<exists>contents. VisitFile p contents \<in> set vs}"
  by (induction vs) (auto simp: fileVisits_Cons split: visit.splits)

lemma walkDir_files:
  "p \<in> set (fileVisits (walkDir (\<lambda>_. False) path tree)) \<longleftrightarrow> (\<exists>names. fileIn tree names \<and> p = foldl childPath path names)"
proof (induction "\<lambda>_ :: str. False" path tree arbitrary: p rule: walkDir.induct)
  case (1 path contents)
  then show ?case by (auto simp: fileVisits_Cons)
next
  case (2 path)
  then show ?case by (auto simp: fileVisits_Cons)
next
  case (3 path entries)
  have "p \<in> set (fileVisits (walkDir (\<lambda>_. False) path (Directory (Some entries)))) \<longleftrightarrow>
      (\<exists>(n, t) \<in> set entries. p \<in> set (fileVisits (walkDir (\<lambda>_. False) (childPath path n) t)))"
    by (auto simp: fileVisits_Cons set_fileVisits split_beta)
  also have "\<dots> \<longleftrightarrow> (\<exists>(n, t) \<in> set entries. \<exists>names. fileIn t names \<and> p = foldl childPath (childPath path n) names)"
    using 3 by (intro bex_cong refl) auto
  also have "\<dots> \<longleftrightarrow> (\<exists>names. fileIn (Directory (Some entries)) names \<and> p = foldl childPath path names)"
  proof
    assume "\<exists>(n, t) \<in> set entries. \<exists>names. fileIn t names \<and> p = foldl childPath (childPath path n) names"
    then obtain n t names where "(n, t) \<in> set entries" "fileIn t names" "p = foldl childPath (childPath path n) names" by auto
    then show "\<exists>names. fileIn (Directory (Some entries)) names \<and> p = foldl childPath path names"
      by (intro exI [of _ "n # names"]) (auto simp: list_ex_iff)
  next
    assume "\<exists>names. fileIn (Directory (Some entries)) names \<and> p = foldl childPath path names"
    then obtain names where "fileIn (Directory (Some entries)) names" "p = foldl childPath path names" by auto
    then show "\<exists>(n, t) \<in> set entries. \<exists>names. fileIn t names \<and> p = foldl childPath (childPath path n) names"
      by (cases names) (auto simp: list_ex_iff)
  qed
  finally show ?case .
qed

lemma workspaceFiles_iff:
  "p \<in> set (workspaceFiles tree) \<longleftrightarrow> (\<exists>names. fileIn tree names \<and> p = foldl childPath ''.'' names)"
  unfolding workspaceFiles_def by (rule walkDir_files)

section \<open>Owners\<close>

definition rootCovers :: "str \<Rightarrow> str \<Rightarrow> bool" where
  "rootCovers sourcePath root \<longleftrightarrow> root = ''.'' \<or> sourcePath = root \<or> HasPrefix sourcePath (root @ slashes)"

lemma best_root:
  fixes best p :: str
  defines "step \<equiv> \<lambda>root bestRoot. if rootCovers p root \<and> length root > length bestRoot then root else bestRoot"
  shows "(fold step roots best = best \<or> fold step roots best \<in> set roots \<and> rootCovers p (fold step roots best)) \<and>
    length best \<le> length (fold step roots best) \<and>
    (\<forall>r. r \<in> set roots \<and> rootCovers p r \<longrightarrow> length r \<le> length (fold step roots best))"
proof (induction roots arbitrary: best)
  case (Cons root roots)
  show ?case
    using Cons.IH [of "step root best"] by (auto simp: step_def split: if_splits)
qed simp

definition bestCover :: "str \<Rightarrow> str list \<Rightarrow> str" where
  "bestCover p roots = fold (\<lambda>root bestRoot. if rootCovers p root \<and> length root > length bestRoot then root else bestRoot) roots []"

lemma bestCover:
  "bestCover p roots = [] \<or> bestCover p roots \<in> set roots \<and> rootCovers p (bestCover p roots)"
  "r \<in> set roots \<Longrightarrow> rootCovers p r \<Longrightarrow> length r \<le> length (bestCover p roots)"
  using best_root [of p roots "[]"] by (simp_all add: bestCover_def)

lemma mostSpecificRoot_covers:
  "mostSpecificRoot p roots = (if bestCover p roots = [] then None else Some (bestCover p roots))"
  by (simp add: mostSpecificRoot_def rootCovers_def bestCover_def Let_def)

lemma mostSpecificRoot_Some:
  assumes "mostSpecificRoot p roots = Some r"
  shows "r \<in> set roots" "rootCovers p r" "r' \<in> set roots \<Longrightarrow> rootCovers p r' \<Longrightarrow> length r' \<le> length r"
  using assms bestCover [where p = p and roots = roots] by (auto simp: mostSpecificRoot_covers split: if_splits)

lemma mostSpecificRoot_None_iff:
  "mostSpecificRoot p roots = None \<longleftrightarrow> (\<forall>r \<in> set roots. rootCovers p r \<longrightarrow> r = [])"
proof (cases "bestCover p roots = []")
  case True
  then show ?thesis using bestCover(2) [of _ roots p] by (auto simp: mostSpecificRoot_covers)
next
  case False
  then show ?thesis using bestCover(1) [of p roots] by (auto simp: mostSpecificRoot_covers)
qed

lemma map_pj_Root: "map pj_Root (projectsOf roots) = roots"
  by (simp add: projectsOf_def comp_def)

lemma paths_sourcesOf:
  "map so_Path (sourcesOf (sourceOf matcher rules roots) files) = filter (\<lambda>p. \<not> sourceExcluded matcher p rules \<and> supportedSource p \<and>
     list_ex (\<lambda>project. rootCovers p (pj_Root project) \<and> pj_Root project \<noteq> []) (projectsOf roots)) files"
proof (induction files)
  case (Cons p files)
  have "mostSpecificRoot p roots = None \<longleftrightarrow> \<not> list_ex (\<lambda>project. rootCovers p (pj_Root project) \<and> pj_Root project \<noteq> []) (projectsOf roots)"
    unfolding mostSpecificRoot_None_iff by (auto simp: list_ex_iff projectsOf_def)
  with Cons show ?case by (cases "mostSpecificRoot p roots") (simp_all add: sourceOf_def)
qed simp

lemma set_sourcesOf: "src \<in> set (sourcesOf source files) \<longleftrightarrow> (\<exists>p \<in> set files. source p = Some src)"
  by (induction files) (auto split: option.splits)

lemma owner_sourcesOf:
  assumes "source \<in> set (sourcesOf (sourceOf matcher rules roots) files)"
  shows "\<exists>project \<in> set (projectsOf roots).
      so_ProjectID source = pj_ID project \<and> pj_ID project = projectID (pj_Root project) \<and> rootCovers (so_Path source) (pj_Root project) \<and>
      (\<forall>other \<in> set (projectsOf roots). rootCovers (so_Path source) (pj_Root other) \<longrightarrow> length (pj_Root other) \<le> length (pj_Root project))"
proof -
  obtain r where r: "mostSpecificRoot (so_Path source) roots = Some r" "so_ProjectID source = projectID r"
    using assms by (auto simp: set_sourcesOf sourceOf_def split: if_splits)
  have best: "r \<in> set roots" "rootCovers (so_Path source) r"
    "\<forall>r' \<in> set roots. rootCovers (so_Path source) r' \<longrightarrow> length r' \<le> length r"
    using mostSpecificRoot_Some [OF r(1)] by auto
  show ?thesis
    by (rule bexI [of _ "\<lparr>pj_ID = projectID r, pj_Root = r\<rparr>"]) (use best r(2) in \<open>auto simp: projectsOf_def\<close>)
qed

text \<open>A one-character root never wins over the workspace root, whose name is as long.\<close>

lemma one_character_root: "mostSpecificRoot ''a/main.go'' [''.'', ''a''] = Some ''.''"
  by code_simp

section \<open>What the ignore rules mean\<close>

text \<open>Rules in order, each with whether it applies and what it decides: the last one that applies wins.\<close>

definition lastDecides :: "(bool \<times> bool) list \<Rightarrow> bool" where
  "lastDecides ds = (case filter fst (rev ds) of [] \<Rightarrow> False | d # _ \<Rightarrow> snd d)"

lemma fold_lastDecides:
  "fold (\<lambda>x excluded. if applies x then decides x else excluded) xs False = lastDecides (map (\<lambda>x. (applies x, decides x)) xs)"
  by (induction xs rule: rev_induct) (auto simp: lastDecides_def)

definition decisionsOf :: "(str list \<Rightarrow> str \<Rightarrow> bool) \<Rightarrow> str \<Rightarrow> bool \<Rightarrow> gitIgnoreRule list \<Rightarrow> (bool \<times> bool) list" where
  "decisionsOf matcher sourcePath directory rules =
     concat (map (\<lambda>rule.
       map (\<lambda>pattern. (matchesGitIgnorePattern matcher pattern
             (if gr_root rule = ''.'' then sourcePath else TrimPrefix sourcePath (gr_root rule @ slashes)) directory, \<not> gp_negated pattern))
         (gr_patterns rule))
       (filter (\<lambda>rule. gr_root rule = ''.'' \<or> HasPrefix sourcePath (gr_root rule @ slashes)) rules))"

lemma fold_concat_decisions:
  "fold (\<lambda>rule excluded. if applies rule then fold (\<lambda>(m, d) excluded. if m then d else excluded) (f rule) excluded else excluded) rules b =
   fold (\<lambda>(m, d) excluded. if m then d else excluded) (concat (map f (filter applies rules))) b"
  by (induction rules arbitrary: b) auto

lemma gitIgnoredPath_lastDecides:
  "gitIgnoredPath matcher sourcePath directory rules = lastDecides (decisionsOf matcher sourcePath directory rules)"
proof -
  define pick where "pick rule = (if gr_root rule = ''.'' then sourcePath else TrimPrefix sourcePath (gr_root rule @ slashes))" for rule :: gitIgnoreRule
  define f where "f rule = map (\<lambda>pattern. (matchesGitIgnorePattern matcher pattern (pick rule) directory, \<not> gp_negated pattern)) (gr_patterns rule)" for rule :: gitIgnoreRule
  have pairs: "(\<lambda>(m, d) excluded. if m then d else excluded) = (\<lambda>x excluded :: bool. if fst x then snd x else excluded)"
    by (simp add: fun_eq_iff split_beta)
  have inner: "fold (\<lambda>pattern excluded. if matchesGitIgnorePattern matcher pattern (pick rule) directory then \<not> gp_negated pattern else excluded)
      (gr_patterns rule) b = fold (\<lambda>(m, d) excluded. if m then d else excluded) (f rule) b" for rule :: gitIgnoreRule and b
    by (simp add: f_def fold_map comp_def)
  have "gitIgnoredPath matcher sourcePath directory rules =
      fold (\<lambda>rule excluded. if gr_root rule = ''.'' \<or> HasPrefix sourcePath (gr_root rule @ slashes)
        then fold (\<lambda>(m, d) excluded. if m then d else excluded) (f rule) excluded else excluded) rules False"
    unfolding gitIgnoredPath_def Let_def inner [symmetric] pick_def
    by (intro fold_cong refl ext) auto
  also have "\<dots> = fold (\<lambda>(m, d) excluded. if m then d else excluded)
      (decisionsOf matcher sourcePath directory rules) False"
    unfolding fold_concat_decisions by (simp add: decisionsOf_def f_def pick_def)
  also have "\<dots> = lastDecides (decisionsOf matcher sourcePath directory rules)"
    using fold_lastDecides [of fst snd "decisionsOf matcher sourcePath directory rules"] unfolding pairs by simp
  finally show ?thesis .
qed

section \<open>Paths of the walk\<close>

definition walkPath :: "str \<Rightarrow> bool" where
  "walkPath p = list_all plain_comp (SplitOn slash p)"

lemma SplitOn_append_sep: "SplitOn d (s @ d # t) = SplitOn d s @ SplitOn d t"
proof (induction s)
  case (Cons c s)
  then show ?case by (cases "SplitOn d s") (use SplitOn_not_Nil in auto)
qed simp

lemma JoinOn_snoc: "bs \<noteq> [] \<Longrightarrow> JoinOn d (bs @ [c]) = JoinOn d bs @ d @ c"
  by (induction d bs rule: JoinOn.induct) auto

lemma plain_clean_form: "\<forall>c \<in> set cs. plain_comp c \<Longrightarrow> clean_form False cs"
  unfolding clean_form_def dotdots_def by (intro exI [of _ "[]"] exI [of _ cs]) simp

lemma JoinOn_not_dot:
  assumes "\<forall>c \<in> set cs. plain_comp c" "cs \<noteq> []"
  shows "JoinOn slashes cs \<noteq> ''.''"
proof
  assume "JoinOn slashes cs = ''.''"
  then have "path_comps ''.'' = cs" using JoinOn_rel(2) [OF plain_clean_form [OF assms(1)] assms(2)] by simp
  moreover have "path_comps ''.'' = []" by (simp add: path_comps_def slash_def IsAbs_def HasPrefix_def)
  ultimately show False using assms(2) by simp
qed

lemma Dir_JoinOn:
  assumes "\<forall>c \<in> set (bs @ [c]). plain_comp c"
  shows "Dir (JoinOn slashes (bs @ [c])) = (if bs = [] then ''.'' else JoinOn slashes bs)"
proof -
  have c: "slash \<notin> set c" using assms by (auto simp: plain_comp_def)
  have strip: "rev (dropWhile (\<lambda>x. x \<noteq> slash) (rev (s @ slash # c))) = s @ slashes" for s
  proof -
    have "dropWhile (\<lambda>x. x \<noteq> slash) (rev c @ slash # rev s) = slash # rev s" using c by (subst dropWhile_append2) auto
    then show ?thesis by simp
  qed
  show ?thesis
  proof (cases "bs = []")
    case True
    have "dropWhile (\<lambda>x. x \<noteq> slash) (rev c) = []" using c by (auto simp: dropWhile_eq_Nil_conv)
    then show ?thesis using True by (simp add: Dir_def Clean_def path_comps_def IsAbs_def HasPrefix_def del: dropWhile_eq_Nil_conv)
  next
    case False
    have form: "clean_form False bs" using assms by (intro plain_clean_form) auto
    have rel: "\<not> IsAbs (JoinOn slashes bs)" by (rule JoinOn_rel(1) [OF form False])
    then have rel': "\<not> IsAbs (JoinOn slashes bs @ slashes)"
      using JoinOn_rel(2) [OF form False] False
      by (cases "JoinOn slashes bs") (auto simp: IsAbs_def HasPrefix_def path_comps_def)
    have "SplitOn slash (JoinOn slashes bs @ slashes) = bs @ [[]]"
      using SplitOn_append_sep [of slash "JoinOn slashes bs" "[]"] SplitOn_JoinOn [of bs slash] False assms
      by (auto simp: plain_comp_def)
    then have "path_comps (JoinOn slashes bs @ slashes) = bs"
      using rel' clean_comps_plain [of bs False "[]"] assms by (simp add: path_comps_def clean_comps_append)
    then show ?thesis using False rel' strip [of "JoinOn slashes bs"] by (simp add: Dir_def JoinOn_snoc Clean_def)
  qed
qed

lemma dirsUp_JoinOn:
  assumes "\<forall>c \<in> set cs. plain_comp c" "cs \<noteq> []" "length cs < n"
  shows "dirsUp n (JoinOn slashes cs) = map (\<lambda>k. JoinOn slashes (take k cs)) (rev [1..<Suc (length cs)])"
  using assms
proof (induction cs arbitrary: n rule: rev_induct)
  case (snoc c bs)
  then obtain m where n: "n = Suc m" "length bs < m" by (cases n) auto
  have here: "JoinOn slashes (bs @ [c]) \<noteq> ''.''" using snoc.prems(1) by (intro JoinOn_not_dot) auto
  show ?case
  proof (cases "bs = []")
    case True
    then have "dirsUp m ''.'' = []" by (cases m) auto
    then show ?thesis using n True here Dir_JoinOn [OF snoc.prems(1)] by simp
  next
    case False
    have "map (\<lambda>k. JoinOn slashes (take k (bs @ [c]))) (rev [1..<Suc (length bs)]) = map (\<lambda>k. JoinOn slashes (take k bs)) (rev [1..<Suc (length bs)])"
      by (intro map_cong refl) auto
    then show ?thesis
      using n here False Dir_JoinOn [OF snoc.prems(1)] snoc.IH [of m] snoc.prems(1) by simp
  qed
qed simp

lemma length_JoinOn: "\<forall>c \<in> set cs. c \<noteq> [] \<Longrightarrow> length cs \<le> length (JoinOn slashes cs)"
proof (induction "slashes" cs rule: JoinOn.induct)
  case (3 w v ws)
  moreover have "length w > 0" using 3 by auto
  ultimately show ?case by auto
qed (auto simp: Suc_le_eq)

lemma walkPath_comps:
  "walkPath p \<Longrightarrow> c \<in> set (SplitOn slash p) \<Longrightarrow> plain_comp c"
  by (simp add: walkPath_def list_all_iff)

text \<open>The bound of \<open>ancestors\<close> suffices.\<close>

lemma ancestors_complete:
  assumes "walkPath p"
  shows "ancestors p = map (\<lambda>k. JoinOn slashes (take k (SplitOn slash p))) (rev [1..<Suc (length (SplitOn slash p))])"
proof -
  have "length (SplitOn slash p) \<le> length p"
    using length_JoinOn [of "SplitOn slash p"] walkPath_comps [OF assms] by (auto simp: plain_comp_def)
  then show ?thesis
    using dirsUp_JoinOn [of "SplitOn slash p" "Suc (length p)"] walkPath_comps [OF assms] by (simp add: ancestors_def)
qed

lemma ancestors_Dir:
  assumes "walkPath p"
  shows "ancestors (Dir p) = map (\<lambda>k. JoinOn slashes (take k (SplitOn slash p))) (rev [1..<length (SplitOn slash p)])"
proof -
  obtain bs c where split: "SplitOn slash p = bs @ [c]" using SplitOn_not_Nil by (metis rev_exhaust)
  have plain: "\<forall>c \<in> set (bs @ [c]). plain_comp c" using walkPath_comps [OF assms] split by auto
  have dir: "Dir p = (if bs = [] then ''.'' else JoinOn slashes bs)"
    using Dir_JoinOn [OF plain] split by (metis JoinOn_SplitOn)
  show ?thesis
  proof (cases "bs = []")
    case True
    then show ?thesis using dir split by (simp add: ancestors_def)
  next
    case False
    have same: "SplitOn slash (JoinOn slashes bs) = bs" using SplitOn_JoinOn [OF False] plain by (auto simp: plain_comp_def)
    have "walkPath (JoinOn slashes bs)" using plain same by (simp add: walkPath_def list_all_iff)
    from ancestors_complete [OF this] show ?thesis
      using dir split False same by (auto intro: map_cong)
  qed
qed

section \<open>Properties\<close>


definition example_matcher :: "str list \<Rightarrow> str \<Rightarrow> bool" where
  "example_matcher lines path = list_ex (\<lambda>line. line = path) lines"

definition example_tree :: tree where
  "example_tree = Directory (Some
     [(''web'', Directory (Some [(''package.json'', File (Some [])), (''main.ts'', File (Some [])), (''gen.ts'', File (Some []))])),
      (''go.mod'', File (Some [])), (''main.go'', File (Some [])), (''notes.txt'', File (Some [])),
      (''.gitignore'', File (Some ''web/gen.ts''))])"

lemma Discover_example:
  "Discover example_matcher None example_tree ''/w'' [''lib''] = Inr \<lparr>
     di_Projects = [\<lparr>pj_ID = ''project:.'', pj_Root = ''.''\<rparr>, \<lparr>pj_ID = ''project:lib'', pj_Root = ''lib''\<rparr>,
       \<lparr>pj_ID = ''project:web'', pj_Root = ''web''\<rparr>],
     di_Sources = [\<lparr>so_Path = ''main.go'', so_ProjectID = ''project:.''\<rparr>, \<lparr>so_Path = ''web/main.ts'', so_ProjectID = ''project:web''\<rparr>]\<rparr>"
  by code_simp


text \<open>A stream that is cancelled, meets an unreadable directory or whose receiver fails has delivered a first part of the
  sources a complete discovery delivers, each once and in the same order, and reports how many; if it succeeds, it has
  delivered all of them and returns the projects.\<close>

theorem DiscoverStream_prefix:
  assumes "DiscoverStream matcher cancelled cwd tree root configuredRoots (recording fails) [] = (result, sourceCount, delivered)"
    and "Discover matcher cwd tree root configuredRoots = Inr d"
  shows "sourceCount = length delivered \<and> prefix delivered (di_Sources d) \<and>
    (result = Inr (di_Projects d) \<and> delivered = di_Sources d \<or> isl result)"
proof -
  from assms(2) obtain ws rules normalized where ok: "Abs cwd root = Some ws" "loadIgnoreRules tree = Inr rules"
    "mapE (normalizeRoot ws) configuredRoots = Inr normalized"
    "di_Projects d = projectsOf (discoveredRoots matcher rules normalized tree)"
    "di_Sources d = sourcesOf (sourceOf matcher rules (discoveredRoots matcher rules normalized tree)) (workspaceFiles tree)"
    by (rule Discover_Inr)
  show ?thesis
    using DiscoverStream_recording [OF assms(1) ok(1-3)] ok(4,5) by (cases result) auto
qed

lemma DiscoverStream_prefix_witness:
  "DiscoverStream example_matcher (\<lambda>n. n = 13) None example_tree ''/w'' [''lib''] (recording (\<lambda>_ _. False)) [] =
     (Inl DiscoveryCancelled, 1, [\<lparr>so_Path = ''main.go'', so_ProjectID = ''project:.''\<rparr>]) \<and>
   prefix [\<lparr>so_Path = ''main.go'', so_ProjectID = ''project:.''\<rparr>]
     [\<lparr>so_Path = ''main.go'', so_ProjectID = ''project:.''\<rparr>, \<lparr>so_Path = ''web/main.ts'', so_ProjectID = ''project:web''\<rparr>]"
proof -
  have run: "DiscoverStream example_matcher (\<lambda>n. n = 13) None example_tree ''/w'' [''lib''] (recording (\<lambda>_ _. False)) [] =
     (Inl DiscoveryCancelled, 1, [\<lparr>so_Path = ''main.go'', so_ProjectID = ''project:.''\<rparr>])"
    by code_simp
  from DiscoverStream_prefix [OF run Discover_example] run show ?thesis by simp
qed



text \<open>The files of Git ignore rules are sorted by their directories as strings. A directory whose name comes before
  \<^verbatim>\<open>.\<close> has its rules applied before those of the workspace root, which then win over the nearer ones.\<close>

definition nested_tree :: tree where
  "nested_tree = Directory (Some
     [(''-a'', Directory (Some [(''.gitignore'', File (Some ''!x.go''))])), (''.gitignore'', File (Some ''-a/x.go''))])"

definition nested_rules :: "gitIgnoreRule list" where
  "nested_rules =
     [\<lparr>gr_root = ''-a'', gr_patterns = [\<lparr>gp_lines = [''*'', ''!x.go''], gp_negated = True\<rparr>]\<rparr>,
      \<lparr>gr_root = ''.'', gr_patterns = [\<lparr>gp_lines = [''-a/x.go''], gp_negated = False\<rparr>]\<rparr>]"

definition nested_matcher :: "str list \<Rightarrow> str \<Rightarrow> bool" where
  "nested_matcher lines path = (if length lines = 1 then hd lines = path else last lines \<noteq> ''!'' @ path)"

lemma gitignore_order:
  "loadGitIgnoreRules nested_tree = Inr nested_rules"
  "matchesGitIgnorePattern nested_matcher \<lparr>gp_lines = [''*'', ''!x.go''], gp_negated = True\<rparr> ''x.go'' False"
  "gitIgnoredPath nested_matcher ''-a/x.go'' False nested_rules"
  by code_simp+

text \<open>An anchored pattern of a directory is compared as a literal string first, so its wildcards match nothing.\<close>

lemma anchored_directory_wildcard:
  "\<not> ignorePatternMatches ''build1/x.go'' ''/build?/''" "ignorePatternMatches ''build1/x.go'' ''build?/''"
  by code_simp+

end
