(* ===== verification/Index_Pipeline.thy ===== *)
theory Index_Pipeline
  imports Store_Session Discovery
begin

text \<open>
  The initial indexing pipeline (\<^verbatim>\<open>src/index/initial_pipeline.go\<close>): a producer that stages the sources of the
  discovery stream and queues them as jobs, a pool of workers that extract them, and one consumer that
  writes the contributions into the session, connected by two bounded channels and one
  cancellable context. Each goroutine is a sequence of atomic steps, at channel operations, calls of the session and
  cancellations; \<open>pstep\<close> interleaves them in any order. Extraction and the start of a worker are
  parameters, as are the sources the stream delivers and how it ends; what the stream delivers is the subject of
  the theory \<open>Discovery\<close>. The durations the pipeline measures are left out.
\<close>

section \<open>Data\<close>

record extractedSource =
  es_projectID :: str
  es_language :: str
  es_contribution :: Contribution

record contributionExtractionJob =
  jb_index :: nat
  jb_source :: Source

record contributionExtractionResult =
  cr_index :: nat
  cr_source :: "str + extractedSource"
  cr_workerInitialization :: bool

record contributionExtractionSummary =
  sm_completedSources :: nat
  sm_totalSources :: nat
  sm_totalNodes :: nat
  sm_totalEdges :: nat
  sm_projectNodes :: "str list"

datatype pipeline_error =
  PipelineCancelled | StreamFailed str | StagingFailed storage_error | WorkerFailed str | ExtractionFailed str | WriteFailed storage_error

text \<open>What the pipeline is given: the stream, the extractors, the start of each worker and the registry.\<close>

record pipeline_env =
  pi_sources :: "Source list"
  pi_streamError :: "str option"
  pi_workerCount :: nat
  pi_newWorker :: "nat \<Rightarrow> str option"
  pi_extract :: "Source \<Rightarrow> str + extractedSource"
  pi_language :: "str \<Rightarrow> str option"

datatype producer = Streaming nat | Sending nat | ProducerDone

datatype extraction_worker =
  Starting | Idle | Extracting contributionExtractionJob | Reporting contributionExtractionResult bool | Exited

record pipeline_run =
  run_ctxCancelled :: bool
  run_cancelled :: bool
  run_producer :: producer
  run_jobs :: "contributionExtractionJob list"
  run_jobsClosed :: bool
  run_workers :: "extraction_worker list"
  run_results :: "contributionExtractionResult list"
  run_resultsClosed :: bool
  run_queueHighWater :: nat
  run_sourceCount :: nat
  run_producerError :: "pipeline_error option"
  run_groups :: "str list"
  run_session :: session
  con_current :: "contributionExtractionResult option"
  con_failed :: bool
  con_initError :: "str option"
  con_extractionError :: "(nat \<times> str) option"
  con_writeError :: "storage_error option"
  con_summary :: contributionExtractionSummary
  con_finished :: bool

definition initialContributionQueueCapacity :: nat where
  "initialContributionQueueCapacity = 32"

section \<open>The goroutines\<close>

definition startExtraction :: "pipeline_env \<Rightarrow> session \<Rightarrow> pipeline_run" where
  "startExtraction env session = \<lparr>run_ctxCancelled = False, run_cancelled = False, run_producer = Streaming 0, run_jobs = [],
     run_jobsClosed = False, run_workers = replicate (max 1 (pi_workerCount env)) Starting, run_results = [],
     run_resultsClosed = False, run_queueHighWater = 0, run_sourceCount = 0, run_producerError = None, run_groups = [],
     run_session = session, con_current = None, con_failed = False, con_initError = None, con_extractionError = None,
     con_writeError = None, con_summary = \<lparr>sm_completedSources = 0, sm_totalSources = 0, sm_totalNodes = 0,
       sm_totalEdges = 0, sm_projectNodes = []\<rparr>, con_finished = False\<rparr>"

text \<open>The end of \<^verbatim>\<open>produceSources\<close> after \<open>i\<close> sources: the channel of jobs is closed and an error cancels the pipeline.\<close>

definition endProduction :: "nat \<Rightarrow> pipeline_error option \<Rightarrow> pipeline_run \<Rightarrow> pipeline_run" where
  "endProduction i err run =
     run\<lparr>run_producer := ProducerDone, run_jobsClosed := True, run_sourceCount := i, run_producerError := err,
         run_cancelled := (run_cancelled run \<or> err \<noteq> None)\<rparr>"

definition groupKey :: "str \<Rightarrow> str \<Rightarrow> str" where
  "groupKey project language = project @ CHR 0x00 # language"

definition addGroup :: "pipeline_env \<Rightarrow> Source \<Rightarrow> str list \<Rightarrow> str list" where
  "addGroup env source groups =
     (case pi_language env (so_Path source) of
        None \<Rightarrow> groups
      | Some language \<Rightarrow> List.insert (groupKey (so_ProjectID source) language) groups)"

text \<open>The callback of the stream up to its \<^verbatim>\<open>select\<close>.\<close>

definition emitSource :: "pipeline_env \<Rightarrow> nat \<Rightarrow> pipeline_run \<Rightarrow> pipeline_run" where
  "emitSource env i run =
     (let source = pi_sources env ! i in
      case StageSource (so_Path source) (run_session run) of
        (Inl e, session) \<Rightarrow> endProduction i (Some (StagingFailed e)) (run\<lparr>run_session := session\<rparr>)
      | (Inr _, session) \<Rightarrow>
          run\<lparr>run_session := session, run_groups := addGroup env source (run_groups run), run_producer := Sending i\<rparr>)"

text \<open>\<^verbatim>\<open>StageSource\<close> under a cancelled context: the statement fails, which closes the session.\<close>

definition emitCancelled :: "nat \<Rightarrow> pipeline_run \<Rightarrow> pipeline_run" where
  "emitCancelled i run =
     endProduction i (Some (StagingFailed Cancelled)) (run\<lparr>run_session := (run_session run)\<lparr>ss_closed := True\<rparr>\<rparr>)"

definition sendJob :: "pipeline_env \<Rightarrow> nat \<Rightarrow> pipeline_run \<Rightarrow> pipeline_run" where
  "sendJob env i run =
     run\<lparr>run_jobs := run_jobs run @ [\<lparr>jb_index = i, jb_source = pi_sources env ! i\<rparr>], run_producer := Streaming (Suc i)\<rparr>"

definition startWorker :: "pipeline_env \<Rightarrow> nat \<Rightarrow> pipeline_run \<Rightarrow> pipeline_run" where
  "startWorker env w run =
     (case pi_newWorker env w of
        None \<Rightarrow> run\<lparr>run_workers := (run_workers run)[w := Idle]\<rparr>
      | Some err \<Rightarrow> run\<lparr>run_cancelled := True, run_workers := (run_workers run)
          [w := Reporting \<lparr>cr_index = 0, cr_source = Inl err, cr_workerInitialization = True\<rparr> True]\<rparr>)"

definition takeJob :: "nat \<Rightarrow> pipeline_run \<Rightarrow> pipeline_run" where
  "takeJob w run = run\<lparr>run_jobs := tl (run_jobs run), run_workers := (run_workers run)[w := Extracting (hd (run_jobs run))]\<rparr>"

text \<open>The result of an extraction, and what the worker records of the queue before it sends it.\<close>

definition finishExtraction :: "pipeline_env \<Rightarrow> nat \<Rightarrow> contributionExtractionJob \<Rightarrow> pipeline_run \<Rightarrow> pipeline_run" where
  "finishExtraction env w job run =
     (let extracted = pi_extract env (jb_source job);
          queueDepth = min initialContributionQueueCapacity (length (run_results run) + 1) in
      run\<lparr>run_cancelled := (run_cancelled run \<or> isl extracted),
          run_queueHighWater := max queueDepth (run_queueHighWater run),
          run_workers := (run_workers run)[w := Reporting \<lparr>cr_index = jb_index job, cr_source = extracted,
            cr_workerInitialization = False\<rparr> (isl extracted)]\<rparr>)"

definition reportResult :: "nat \<Rightarrow> contributionExtractionResult \<Rightarrow> bool \<Rightarrow> pipeline_run \<Rightarrow> pipeline_run" where
  "reportResult w result exits run =
     run\<lparr>run_results := run_results run @ [result], run_workers := (run_workers run)[w := if exits then Exited else Idle]\<rparr>"

definition exitWorker :: "nat \<Rightarrow> pipeline_run \<Rightarrow> pipeline_run" where
  "exitWorker w run = run\<lparr>run_workers := (run_workers run)[w := Exited]\<rparr>"

definition closeExtractionResults :: "pipeline_run \<Rightarrow> pipeline_run" where
  "closeExtractionResults run = run\<lparr>run_resultsClosed := True\<rparr>"

definition receiveResult :: "pipeline_run \<Rightarrow> pipeline_run" where
  "receiveResult run = run\<lparr>run_results := tl (run_results run), con_current := Some (hd (run_results run))\<rparr>"

definition countFacts :: "Facts \<Rightarrow> contributionExtractionSummary \<Rightarrow> contributionExtractionSummary" where
  "countFacts facts summary =
     (let counted = fold (\<lambda>node summary.
        if n_Kind node \<noteq> ''project'' then summary\<lparr>sm_totalNodes := sm_totalNodes summary + 1\<rparr>
        else if n_ID node \<in> set (sm_projectNodes summary) then summary
        else summary\<lparr>sm_projectNodes := n_ID node # sm_projectNodes summary, sm_totalNodes := sm_totalNodes summary + 1\<rparr>)
        (f_Nodes facts) summary in
      counted\<lparr>sm_totalEdges := sm_totalEdges counted + length (f_Edges facts)\<rparr>)"

text \<open>The body of the loop of \<^verbatim>\<open>consumeContributions\<close>.\<close>

definition consumeContribution :: "contributionExtractionResult \<Rightarrow> pipeline_run \<Rightarrow> pipeline_run" where
  "consumeContribution result run =
     (let run = run\<lparr>con_current := None\<rparr> in
      case cr_source result of
        Inl err \<Rightarrow>
          (let run = (if cr_workerInitialization result
             then (if con_initError run = None then run\<lparr>con_initError := Some err\<rparr> else run)
             else (case con_extractionError run of
                     None \<Rightarrow> run\<lparr>con_extractionError := Some (cr_index result, err)\<rparr>
                   | Some (i, _) \<Rightarrow> if cr_index result < i then run\<lparr>con_extractionError := Some (cr_index result, err)\<rparr> else run)) in
           run\<lparr>con_failed := True, run_cancelled := True\<rparr>)
      | Inr extracted \<Rightarrow>
          if con_failed run then run
          else (case WriteContribution (run_ctxCancelled run) (es_contribution extracted) (run_session run) of
                  (Inl e, session) \<Rightarrow>
                    run\<lparr>run_session := session, con_writeError := Some e, con_failed := True, run_cancelled := True\<rparr>
                | (Inr _, session) \<Rightarrow>
                    run\<lparr>run_session := session, con_summary :=
                      countFacts (c_facts (es_contribution extracted))
                        ((con_summary run)\<lparr>sm_completedSources := sm_completedSources (con_summary run) + 1\<rparr>)\<rparr>))"

definition canceledError :: "pipeline_error \<Rightarrow> bool" where
  "canceledError err \<longleftrightarrow> err = PipelineCancelled \<or> err = StagingFailed Cancelled"

text \<open>What \<^verbatim>\<open>consumeContributions\<close> and \<^verbatim>\<open>extractAndWriteContributions\<close> return: which of the errors wins.\<close>

definition pipelineResult :: "pipeline_run \<Rightarrow> pipeline_error + contributionExtractionSummary" where
  "pipelineResult run =
     (if run_ctxCancelled run then Inl PipelineCancelled
      else if run_producerError run \<noteq> None \<and> \<not> canceledError (the (run_producerError run)) then Inl (the (run_producerError run))
      else case con_initError run of
        Some e \<Rightarrow> Inl (WorkerFailed e)
      | None \<Rightarrow> (case con_extractionError run of
          Some (_, e) \<Rightarrow> Inl (ExtractionFailed e)
        | None \<Rightarrow> (case con_writeError run of
            Some e \<Rightarrow> Inl (WriteFailed e)
          | None \<Rightarrow> Inr ((con_summary run)\<lparr>sm_totalSources := run_sourceCount run\<rparr>))))"

section \<open>Interleavings\<close>

text \<open>One step of one goroutine. A send waits for room, a receive for an element, and the end of the channel of results for
  every worker.\<close>

inductive pstep :: "pipeline_env \<Rightarrow> pipeline_run \<Rightarrow> pipeline_run \<Rightarrow> bool" for env where
  emit: "run_producer r = Streaming i \<Longrightarrow> i < length (pi_sources env) \<Longrightarrow> pstep env r (emitSource env i r)"
| emit_cancelled: "run_producer r = Streaming i \<Longrightarrow> i < length (pi_sources env) \<Longrightarrow> run_cancelled r \<Longrightarrow> \<not> ss_closed (run_session r) \<Longrightarrow>
    pstep env r (emitCancelled i r)"
| stream_cancelled: "run_producer r = Streaming i \<Longrightarrow> run_cancelled r \<Longrightarrow> pstep env r (endProduction i (Some PipelineCancelled) r)"
| stream_end: "run_producer r = Streaming (length (pi_sources env)) \<Longrightarrow>
    pstep env r (endProduction (length (pi_sources env)) (map_option StreamFailed (pi_streamError env)) r)"
| send_job: "run_producer r = Sending i \<Longrightarrow> length (run_jobs r) < initialContributionQueueCapacity \<Longrightarrow> pstep env r (sendJob env i r)"
| send_cancelled: "run_producer r = Sending i \<Longrightarrow> run_cancelled r \<Longrightarrow> pstep env r (endProduction i (Some PipelineCancelled) r)"
| start_worker: "w < length (run_workers r) \<Longrightarrow> run_workers r ! w = Starting \<Longrightarrow> pstep env r (startWorker env w r)"
| take_job: "w < length (run_workers r) \<Longrightarrow> run_workers r ! w = Idle \<Longrightarrow> run_jobs r \<noteq> [] \<Longrightarrow> pstep env r (takeJob w r)"
| exit_worker: "w < length (run_workers r) \<Longrightarrow> run_workers r ! w = Idle \<Longrightarrow> run_jobs r = [] \<Longrightarrow> run_jobsClosed r \<Longrightarrow>
    pstep env r (exitWorker w r)"
| finish_extraction: "w < length (run_workers r) \<Longrightarrow> run_workers r ! w = Extracting job \<Longrightarrow> pstep env r (finishExtraction env w job r)"
| report_result: "w < length (run_workers r) \<Longrightarrow> run_workers r ! w = Reporting result exits \<Longrightarrow>
    length (run_results r) < initialContributionQueueCapacity \<Longrightarrow> pstep env r (reportResult w result exits r)"
| close_results: "\<not> run_resultsClosed r \<Longrightarrow> set (run_workers r) \<subseteq> {Exited} \<Longrightarrow> pstep env r (closeExtractionResults r)"
| receive_result: "con_current r = None \<Longrightarrow> run_results r \<noteq> [] \<Longrightarrow> pstep env r (receiveResult r)"
| consume_result: "con_current r = Some result \<Longrightarrow> pstep env r (consumeContribution result r)"
| finish: "\<not> con_finished r \<Longrightarrow> con_current r = None \<Longrightarrow> run_results r = [] \<Longrightarrow> run_resultsClosed r \<Longrightarrow>
    pstep env r (r\<lparr>con_finished := True\<rparr>)"
| cancel: "\<not> run_ctxCancelled r \<Longrightarrow> \<not> con_finished r \<Longrightarrow> pstep env r (r\<lparr>run_ctxCancelled := True, run_cancelled := True\<rparr>)"

lemmas step_defs =
  endProduction_def emitSource_def emitCancelled_def sendJob_def startWorker_def takeJob_def finishExtraction_def
  reportResult_def exitWorker_def closeExtractionResults_def receiveResult_def consumeContribution_def

section \<open>Termination\<close>

text \<open>What the channels and the goroutines keep of each other, whatever fails.\<close>

definition pipe_ok :: "pipeline_env \<Rightarrow> pipeline_run \<Rightarrow> bool" where
  "pipe_ok env r \<longleftrightarrow>
     (run_jobsClosed r \<longleftrightarrow> run_producer r = ProducerDone) \<and>
     (run_resultsClosed r \<longrightarrow> set (run_workers r) \<subseteq> {Exited}) \<and> run_workers r \<noteq> [] \<and>
     (con_finished r \<longrightarrow> run_resultsClosed r \<and> run_results r = [] \<and> con_current r = None) \<and>
     (case run_producer r of Streaming i \<Rightarrow> i \<le> length (pi_sources env) | Sending i \<Rightarrow> i < length (pi_sources env) | ProducerDone \<Rightarrow> True) \<and>
     length (run_jobs r) \<le> initialContributionQueueCapacity \<and> length (run_results r) \<le> initialContributionQueueCapacity \<and>
     run_queueHighWater r \<le> initialContributionQueueCapacity \<and>
     (run_ctxCancelled r \<longrightarrow> run_cancelled r)"

text \<open>What is left to do: the steps a source, a job, a worker and a result may still need.\<close>

fun workerWork :: "extraction_worker \<Rightarrow> nat" where
  "workerWork Starting = 5"
| "workerWork Idle = 1"
| "workerWork (Extracting _) = 5"
| "workerWork (Reporting _ _) = 4"
| "workerWork Exited = 0"

fun producerWork :: "nat \<Rightarrow> producer \<Rightarrow> nat" where
  "producerWork n (Streaming i) = 7 * (n - i) + 1"
| "producerWork n (Sending i) = 7 * (n - Suc i) + 7"
| "producerWork n ProducerDone = 0"

definition pipelineWork :: "pipeline_env \<Rightarrow> pipeline_run \<Rightarrow> nat" where
  "pipelineWork env r =
     producerWork (length (pi_sources env)) (run_producer r) + 5 * length (run_jobs r) + sum_list (map workerWork (run_workers r)) +
     2 * length (run_results r) + (if con_current r = None then 0 else 1) + (if run_resultsClosed r then 0 else 1) +
     (if con_finished r then 0 else 1) + (if run_ctxCancelled r then 0 else 1)"

lemma sum_workers_update:
  assumes "w < length ws"
  shows "sum_list (map workerWork (ws[w := x])) + workerWork (ws ! w) = sum_list (map workerWork ws) + workerWork x"
  using assms by (induction ws arbitrary: w) (auto split: nat.splits simp: nth_Cons)

lemma start_ok: "pipe_ok env (startExtraction env session)"
  by (simp add: pipe_ok_def startExtraction_def)

lemma subset_singleton_nth: "set ws \<subseteq> {x} \<Longrightarrow> w < length ws \<Longrightarrow> ws ! w = x"
  using nth_mem by fastforce

lemma not_closed_if_working:
  assumes "pipe_ok env r" "w < length (run_workers r)" "run_workers r ! w \<noteq> Exited"
  shows "\<not> run_resultsClosed r" "\<not> con_finished r"
  using assms subset_singleton_nth [of "run_workers r" Exited w] by (auto simp: pipe_ok_def)

lemma pstep_ok:
  assumes "pstep env r r'" "pipe_ok env r"
  shows "pipe_ok env r'"
  using assms
proof (cases rule: pstep.cases)
  case (emit i)
  then show ?thesis using assms(2) by (auto simp: pipe_ok_def step_defs Let_def split: prod.splits sum.splits)
next
  case (start_worker w)
  then show ?thesis using assms(2) not_closed_if_working [OF assms(2), of w] by (auto simp: pipe_ok_def step_defs split: option.splits)
next
  case (take_job w)
  then show ?thesis using assms(2) not_closed_if_working [OF assms(2), of w] by (auto simp: pipe_ok_def step_defs)
next
  case (exit_worker w)
  then show ?thesis using assms(2) not_closed_if_working [OF assms(2), of w] by (auto simp: pipe_ok_def step_defs)
next
  case (finish_extraction w job)
  then show ?thesis using assms(2) not_closed_if_working [OF assms(2), of w] by (auto simp: pipe_ok_def step_defs Let_def)
next
  case (report_result w result exits)
  then show ?thesis using assms(2) not_closed_if_working [OF assms(2), of w] by (auto simp: pipe_ok_def step_defs)
next
  case (consume_result result)
  then have "\<not> con_finished r" using assms(2) by (auto simp: pipe_ok_def)
  then show ?thesis using assms(2) consume_result
    by (auto simp: pipe_ok_def step_defs Let_def split: sum.splits prod.splits option.splits)
qed (auto simp: pipe_ok_def step_defs)

lemma consumeContribution_fields:
  "run_producer (consumeContribution x r) = run_producer r" "run_jobs (consumeContribution x r) = run_jobs r" "run_workers (consumeContribution x r) = run_workers r"
  "run_results (consumeContribution x r) = run_results r" "run_resultsClosed (consumeContribution x r) = run_resultsClosed r"
  "con_finished (consumeContribution x r) = con_finished r" "run_ctxCancelled (consumeContribution x r) = run_ctxCancelled r"
  "con_current (consumeContribution x r) = None" "run_sourceCount (consumeContribution x r) = run_sourceCount r"
  "run_producerError (consumeContribution x r) = run_producerError r" "run_jobsClosed (consumeContribution x r) = run_jobsClosed r"
  by (auto simp: consumeContribution_def Let_def split: sum.splits prod.splits option.splits)

text \<open>Every step leaves less to do.\<close>

lemma pstep_work:
  assumes "pstep env r r'" "pipe_ok env r"
  shows "pipelineWork env r' < pipelineWork env r"
  using assms
proof (cases rule: pstep.cases)
  case (emit i)
  then show ?thesis by (auto simp: pipelineWork_def step_defs Let_def split: prod.splits sum.splits)
next
  case (send_job i)
  then have "i < length (pi_sources env)" using assms(2) by (simp add: pipe_ok_def)
  then show ?thesis using send_job by (simp add: pipelineWork_def step_defs)
next
  case (start_worker w)
  then show ?thesis
    using sum_workers_update [OF start_worker(2), of Idle]
      sum_workers_update [OF start_worker(2), of "Reporting \<lparr>cr_index = 0, cr_source = Inl (the (pi_newWorker env w)), cr_workerInitialization = True\<rparr> True"]
    by (cases "pi_newWorker env w") (simp_all add: pipelineWork_def step_defs)
next
  case (take_job w)
  then show ?thesis
    using sum_workers_update [OF take_job(2), of "Extracting (hd (run_jobs r))"] by (cases "run_jobs r") (auto simp: pipelineWork_def step_defs)
next
  case (exit_worker w)
  then show ?thesis using sum_workers_update [OF exit_worker(2), of Exited] by (auto simp: pipelineWork_def step_defs)
next
  case (finish_extraction w job)
  then show ?thesis
    using sum_workers_update [OF finish_extraction(2), of "Reporting \<lparr>cr_index = jb_index job, cr_source = pi_extract env (jb_source job),
      cr_workerInitialization = False\<rparr> (isl (pi_extract env (jb_source job)))"] by (simp add: pipelineWork_def step_defs Let_def)
next
  case (report_result w result exits)
  then show ?thesis
    using sum_workers_update [OF report_result(2), of "if exits then Exited else Idle"] by (simp add: pipelineWork_def step_defs split: if_splits)
next
  case receive_result
  then show ?thesis by (cases "run_results r") (auto simp: pipelineWork_def step_defs)
next
  case (consume_result result)
  then show ?thesis by (simp add: pipelineWork_def consumeContribution_fields)
qed (auto simp: pipelineWork_def step_defs)

text \<open>Nothing blocks for ever: as long as the consumer has not finished, somebody can take a step.\<close>

lemma ctx_unchanged [simp]:
  "run_ctxCancelled (endProduction i err r) = run_ctxCancelled r" "run_ctxCancelled (emitSource env i r) = run_ctxCancelled r"
  "run_ctxCancelled (sendJob env i r) = run_ctxCancelled r" "run_ctxCancelled (startWorker env w r) = run_ctxCancelled r"
  "run_ctxCancelled (takeJob w r) = run_ctxCancelled r" "run_ctxCancelled (exitWorker w r) = run_ctxCancelled r"
  "run_ctxCancelled (finishExtraction env w job r) = run_ctxCancelled r" "run_ctxCancelled (reportResult w result exits r) = run_ctxCancelled r"
  "run_ctxCancelled (closeExtractionResults r) = run_ctxCancelled r" "run_ctxCancelled (receiveResult r) = run_ctxCancelled r"
  "run_ctxCancelled (consumeContribution result r) = run_ctxCancelled r"
  by (auto simp: step_defs consumeContribution_fields Let_def split: prod.splits sum.splits option.splits)

lemma pstep_progress:
  assumes ok: "pipe_ok env r" and open_run: "\<not> con_finished r"
  shows "\<exists>r'. pstep env r r' \<and> run_ctxCancelled r' = run_ctxCancelled r"
proof (rule ccontr)
  assume "\<nexists>r'. pstep env r r' \<and> run_ctxCancelled r' = run_ctxCancelled r"
  then have none: False if "pstep env r r'" "run_ctxCancelled r' = run_ctxCancelled r" for r' using that by blast
  have current: "con_current r = None" using none [OF consume_result] by (cases "con_current r") auto
  have results: "run_results r = []" using none [OF receive_result [OF current]] by auto
  have closed: "\<not> run_resultsClosed r" using none [OF finish [OF open_run current results]] by auto
  have room: "length (run_results r) < initialContributionQueueCapacity" using results by (simp add: initialContributionQueueCapacity_def)
  have "\<not> set (run_workers r) \<subseteq> {Exited}" using none [OF close_results [OF closed]] by auto
  then obtain w where w: "w < length (run_workers r)" "run_workers r ! w \<noteq> Exited" by (metis in_set_conv_nth insertI1 subsetI)
  have idle: "run_workers r ! w = Idle"
    using w none [OF start_worker [OF w(1)]] none [OF finish_extraction [OF w(1)]] none [OF report_result [OF w(1) _ room]]
    by (cases "run_workers r ! w") auto
  have jobs: "run_jobs r = []" using none [OF take_job [OF w(1) idle]] by auto
  then have "\<not> run_jobsClosed r" using none [OF exit_worker [OF w(1) idle]] by auto
  then have "run_producer r \<noteq> ProducerDone" using ok by (simp add: pipe_ok_def)
  then show False
  proof (cases "run_producer r")
    case (Streaming i)
    then show ?thesis using none [OF emit [OF Streaming]] none [OF stream_end [of r env]] ok by (cases "i < length (pi_sources env)") (auto simp: pipe_ok_def)
  next
    case (Sending i)
    then show ?thesis using none [OF send_job [OF Sending]] jobs by (auto simp: initialContributionQueueCapacity_def)
  qed simp
qed

section \<open>Where the sources are\<close>

definition sourceFails :: "pipeline_env \<Rightarrow> nat \<Rightarrow> bool" where
  "sourceFails env i = isl (pi_extract env (pi_sources env ! i))"

definition contributionAt :: "pipeline_env \<Rightarrow> nat \<Rightarrow> Contribution" where
  "contributionAt env i = es_contribution (projr (pi_extract env (pi_sources env ! i)))"

text \<open>How many sources have been queued.\<close>

definition sentCount :: "pipeline_run \<Rightarrow> nat" where
  "sentCount r = (case run_producer r of Streaming i \<Rightarrow> i | Sending i \<Rightarrow> i | ProducerDone \<Rightarrow> run_sourceCount r)"

text \<open>The sources that are queued, with a worker, on the way to the consumer or with the consumer.\<close>

fun workerHolds :: "extraction_worker \<Rightarrow> nat multiset" where
  "workerHolds (Extracting job) = {#jb_index job#}"
| "workerHolds (Reporting result _) = {#cr_index result#}"
| "workerHolds _ = {#}"

definition inTransit :: "pipeline_run \<Rightarrow> nat multiset" where
  "inTransit r = mset (map jb_index (run_jobs r)) + sum_list (map workerHolds (run_workers r)) + mset (map cr_index (run_results r)) +
     (case con_current r of None \<Rightarrow> {#} | Some result \<Rightarrow> {#cr_index result#})"

text \<open>What has become of a source the consumer has finished with, if it was not written.\<close>

definition dropped :: "pipeline_env \<Rightarrow> pipeline_run \<Rightarrow> nat \<Rightarrow> bool" where
  "dropped env r i \<longleftrightarrow> (if sourceFails env i then \<exists>m e. con_extractionError r = Some (m, e) \<and> m \<le> i else con_failed r)"

fun goodResult :: "pipeline_env \<Rightarrow> contributionExtractionResult \<Rightarrow> bool" where
  "goodResult env result \<longleftrightarrow> \<not> cr_workerInitialization result \<and> cr_source result = pi_extract env (pi_sources env ! cr_index result)"

definition goodJob :: "pipeline_env \<Rightarrow> contributionExtractionJob \<Rightarrow> bool" where
  "goodJob env job \<longleftrightarrow> jb_source job = pi_sources env ! jb_index job"

fun goodWorker :: "pipeline_env \<Rightarrow> pipeline_run \<Rightarrow> extraction_worker \<Rightarrow> bool" where
  "goodWorker env r (Extracting job) = goodJob env job"
| "goodWorker env r (Reporting result exits) = (goodResult env result \<and> (exits \<longrightarrow> run_cancelled r))"
| "goodWorker env r Exited = (run_cancelled r \<or> run_jobs r = [] \<and> run_jobsClosed r)"
| "goodWorker env r _ = True"

definition values_ok :: "pipeline_env \<Rightarrow> pipeline_run \<Rightarrow> bool" where
  "values_ok env r \<longleftrightarrow>
     list_all (goodJob env) (run_jobs r) \<and> list_all (goodWorker env r) (run_workers r) \<and> list_all (goodResult env) (run_results r) \<and>
     (case con_current r of None \<Rightarrow> True | Some result \<Rightarrow> goodResult env result)"

definition flow_ok :: "pipeline_env \<Rightarrow> nat list \<Rightarrow> pipeline_run \<Rightarrow> bool" where
  "flow_ok env written r \<longleftrightarrow>
     inTransit r + mset written \<subseteq># mset [0..<sentCount r] \<and>
     (\<forall>i < sentCount r. i \<in># inTransit r \<or> i \<in> set written \<or> dropped env r i) \<and>
     map jb_index (run_jobs r) = [sentCount r - length (run_jobs r)..<sentCount r] \<and> length (run_jobs r) \<le> sentCount r \<and>
     sentCount r \<le> length (pi_sources env) \<and> (\<forall>i \<in> set written. \<not> sourceFails env i)"

definition errors_ok :: "pipeline_env \<Rightarrow> pipeline_run \<Rightarrow> bool" where
  "errors_ok env r \<longleftrightarrow>
     (run_cancelled r \<longrightarrow> (\<exists>i < sentCount r - length (run_jobs r). sourceFails env i)) \<and>
     (con_failed r \<longrightarrow> run_cancelled r) \<and> con_initError r = None \<and>
     (con_extractionError r \<noteq> None \<or> con_writeError r \<noteq> None \<longrightarrow> con_failed r) \<and>
     (\<forall>m e. con_extractionError r = Some (m, e) \<longrightarrow> m < length (pi_sources env) \<and> pi_extract env (pi_sources env ! m) = Inl e) \<and>
     (\<forall>err. run_producerError r = Some err \<longrightarrow> canceledError err \<and> run_cancelled r) \<and>
     (run_producer r = ProducerDone \<and> run_producerError r = None \<longrightarrow> run_sourceCount r = length (pi_sources env))"

definition countedSummary :: "pipeline_env \<Rightarrow> nat list \<Rightarrow> contributionExtractionSummary" where
  "countedSummary env written =
     foldl (\<lambda>summary i. countFacts (c_facts (contributionAt env i)) (summary\<lparr>sm_completedSources := sm_completedSources summary + 1\<rparr>))
       \<lparr>sm_completedSources = 0, sm_totalSources = 0, sm_totalNodes = 0, sm_totalEdges = 0, sm_projectNodes = []\<rparr> written"

text \<open>The session holds what the producer has staged and the consumer has written, unless a cancelled statement has closed it.\<close>

definition session_ok :: "pipeline_env \<Rightarrow> database \<Rightarrow> str \<Rightarrow> nat list \<Rightarrow> pipeline_run \<Rightarrow> bool" where
  "session_ok env base ws written r \<longleftrightarrow>
     (if ss_closed (run_session r) then run_producer r = ProducerDone \<and> run_cancelled r
      else \<exists>k \<ge> sentCount r. session_inv base ws (map so_Path (take k (pi_sources env))) (map (contributionAt env) written) (run_session r) \<and>
        k \<le> length (pi_sources env) \<and>
        (case run_producer r of Streaming i \<Rightarrow> k = i | Sending i \<Rightarrow> k = Suc i | ProducerDone \<Rightarrow> True)) \<and>
     con_summary r = countedSummary env written"

text \<open>What the pipeline is used with: sources with paths of their own, workers that start, a stream that does not fail, and
  extractors that return a contribution of the source they were given.\<close>

definition pipeline_ready :: "pipeline_env \<Rightarrow> bool" where
  "pipeline_ready env \<longleftrightarrow>
     distinct (map so_Path (pi_sources env)) \<and> [] \<notin> so_Path ` set (pi_sources env) \<and> pi_streamError env = None \<and>
     (\<forall>w < max 1 (pi_workerCount env). pi_newWorker env w = None) \<and>
     (\<forall>source extracted. source \<in> set (pi_sources env) \<and> pi_extract env source = Inr extracted \<longrightarrow>
        c_sourcePath (es_contribution extracted) = so_Path source)"

definition det_inv :: "pipeline_env \<Rightarrow> database \<Rightarrow> str \<Rightarrow> nat list \<Rightarrow> pipeline_run \<Rightarrow> bool" where
  "det_inv env base ws written r \<longleftrightarrow>
     pipe_ok env r \<and> \<not> run_ctxCancelled r \<and> length (run_workers r) = max 1 (pi_workerCount env) \<and>
     values_ok env r \<and> flow_ok env written r \<and> errors_ok env r \<and> session_ok env base ws written r"

lemma sum_holds_update:
  assumes "w < length ws"
  shows "sum_list (map workerHolds (ws[w := x])) + workerHolds (ws ! w) = sum_list (map workerHolds ws) + workerHolds x"
  using assms
proof (induction ws arbitrary: w)
  case (Cons y ws)
  then show ?case
  proof (cases w)
    case (Suc v)
    then show ?thesis using Cons.IH [of v] Cons.prems by (simp add: ac_simps) 
  qed (simp add: ac_simps)
qed simp

lemma holds_replaced:
  assumes "w < length ws" "workerHolds (ws ! w) = workerHolds x"
  shows "sum_list (map workerHolds (ws[w := x])) = sum_list (map workerHolds ws)"
  using sum_holds_update [OF assms(1), of x] assms(2) by simp

lemma list_all_update: "list_all P ws \<Longrightarrow> P x \<Longrightarrow> list_all P (ws[w := x])"
  by (auto simp: list_all_iff dest: set_update_subsetI set_update_subset_insert [THEN subsetD])

lemma goodWorker_cong:
  "run_cancelled r \<longrightarrow> run_cancelled r' \<Longrightarrow> run_jobs r = [] \<and> run_jobsClosed r \<longrightarrow> run_cancelled r' \<or> run_jobs r' = [] \<and> run_jobsClosed r' \<Longrightarrow>
   goodWorker env r x \<Longrightarrow> goodWorker env r' x"
  by (cases x) auto

lemma sum_nothing: "sum_list (replicate k {#}) = {#}"
  by (induction k) simp_all

lemma start_inv:
  assumes "pipeline_ready env" "session_inv base ws [] [] session"
  shows "det_inv env base ws [] (startExtraction env session)"
  using assms start_ok [of env session]
  by (auto simp: det_inv_def startExtraction_def values_ok_def list_all_iff flow_ok_def inTransit_def sentCount_def errors_ok_def
      session_ok_def countedSummary_def session_inv_def sum_nothing)

lemma workers_good: "det_inv env base ws written r \<Longrightarrow> x \<in> set (run_workers r) \<Longrightarrow> goodWorker env r x"
  by (simp add: det_inv_def values_ok_def list_all_iff)

text \<open>Steps that move nothing between the channels.\<close>

lemma flow_ok_cong:
  assumes "flow_ok env written r" "inTransit r' = inTransit r" "sentCount r' = sentCount r" "run_jobs r' = run_jobs r"
    "con_extractionError r' = con_extractionError r" "con_failed r' = con_failed r"
  shows "flow_ok env written r'"
proof -
  have "dropped env r' = dropped env r" using assms(5,6) by (simp add: fun_eq_iff dropped_def)
  then show ?thesis using assms unfolding flow_ok_def by simp
qed

lemma values_ok_cong:
  assumes "values_ok env r" "run_jobs r' = run_jobs r" "run_workers r' = run_workers r" "run_results r' = run_results r"
    "con_current r' = con_current r" "run_cancelled r \<longrightarrow> run_cancelled r'" "run_jobsClosed r \<longrightarrow> run_jobsClosed r'"
  shows "values_ok env r'"
  using assms goodWorker_cong [of r r' env] by (auto simp: values_ok_def list_all_iff)

lemma errors_ok_cong:
  assumes "errors_ok env r" "sentCount r' = sentCount r" "run_jobs r' = run_jobs r" "run_cancelled r' = run_cancelled r"
    "con_failed r' = con_failed r" "con_initError r' = con_initError r" "con_extractionError r' = con_extractionError r"
    "con_writeError r' = con_writeError r"
    "\<forall>err. run_producerError r' = Some err \<longrightarrow> run_producerError r = Some err \<or> canceledError err \<and> run_cancelled r"
    "run_producer r' = ProducerDone \<and> run_producerError r' = None \<longrightarrow> run_sourceCount r' = length (pi_sources env)"
  shows "errors_ok env r'"
  using assms unfolding errors_ok_def by metis

lemma inv_emit:
  assumes "det_inv env base ws written r" "pipeline_ready env" "run_producer r = Streaming i" "i < length (pi_sources env)"
  shows "det_inv env base ws written (emitSource env i r)"
proof -
  let ?p = "so_Path (pi_sources env ! i)"
  have opened: "\<not> ss_closed (run_session r)" using assms(1,3) by (auto simp: det_inv_def session_ok_def)
  then have inv: "session_inv base ws (map so_Path (take i (pi_sources env))) (map (contributionAt env) written) (run_session r)"
    using assms(1,3) by (auto simp: det_inv_def session_ok_def)
  have "distinct (map so_Path (take (Suc i) (pi_sources env)))"
    using assms(2) by (metis distinct_take pipeline_ready_def take_map)
  then have "?p \<notin> set (map so_Path (take i (pi_sources env)))" using assms(4) by (simp add: take_Suc_conv_app_nth)
  moreover have "?p \<noteq> []" using assms(2,4) by (metis image_eqI nth_mem pipeline_ready_def)
  ultimately obtain s where s: "StageSource ?p (run_session r) = (Inr (), s)"
    "session_inv base ws (map so_Path (take (Suc i) (pi_sources env))) (map (contributionAt env) written) s"
    using StageSource_inv [OF inv, of ?p] assms(4) by (auto simp: take_Suc_conv_app_nth)
  define r' where "r' = r\<lparr>run_session := s, run_groups := addGroup env (pi_sources env ! i) (run_groups r), run_producer := Sending i\<rparr>"
  have eq: "emitSource env i r = r'" using s(1) by (simp add: emitSource_def Let_def r'_def)
  have sent: "sentCount r' = i" "sentCount r = i" using assms(3) by (simp_all add: sentCount_def r'_def)
  have "pipe_ok env r'"
    using pstep_ok [OF pstep.emit [OF assms(3,4)]] assms(1) by (simp add: det_inv_def eq)
  moreover have "session_ok env base ws written r'"
  proof -
    have "\<not> ss_closed s" using s(2) by (simp add: session_inv_def)
    moreover have "con_summary r = countedSummary env written" using assms(1) by (simp add: det_inv_def session_ok_def)
    ultimately show ?thesis
      unfolding session_ok_def sent using s(2) assms(4) by (simp add: r'_def)
  qed
  moreover have "flow_ok env written r'"
    by (rule flow_ok_cong [of env written r]) (use assms(1) sent in \<open>simp_all add: det_inv_def r'_def inTransit_def\<close>)
  moreover have "values_ok env r'"
    by (rule values_ok_cong [of env r]) (use assms(1) in \<open>simp_all add: det_inv_def r'_def\<close>)
  moreover have "errors_ok env r'"
    by (rule errors_ok_cong [of env r]) (use assms(1) sent in \<open>simp_all add: det_inv_def r'_def\<close>)
  ultimately show ?thesis
    using assms(1) by (simp add: det_inv_def eq) (simp add: r'_def)
qed

lemma inv_end_production:
  assumes "det_inv env base ws written r" "pipe_ok env (endProduction i err r)" "sentCount r = i" "run_producer r \<noteq> ProducerDone"
    "\<forall>e. err = Some e \<longrightarrow> canceledError e \<and> run_cancelled r" "err = None \<longrightarrow> i = length (pi_sources env)"
  shows "det_inv env base ws written (endProduction i err r)"
proof -
  let ?r = "endProduction i err r"
  have sent: "sentCount ?r = i" by (simp add: endProduction_def sentCount_def)
  have "session_ok env base ws written ?r"
    using assms(1,3,4) by (auto simp: det_inv_def session_ok_def sent) (auto simp: endProduction_def)
  moreover have "flow_ok env written ?r"
    by (rule flow_ok_cong [of env written r]) (use assms(1,3) sent in \<open>simp_all add: det_inv_def endProduction_def inTransit_def\<close>)
  moreover have "values_ok env ?r"
    by (rule values_ok_cong [of env r]) (use assms(1) in \<open>simp_all add: det_inv_def endProduction_def\<close>)
  moreover have "errors_ok env ?r"
    by (rule errors_ok_cong [of env r]) (use assms(1,3,5,6) sent in \<open>auto simp: det_inv_def endProduction_def\<close>)
  ultimately show ?thesis
    using assms(1,2) by (simp add: det_inv_def) (simp add: endProduction_def)
qed

lemma inv_send:
  assumes "det_inv env base ws written r" "run_producer r = Sending i" "pipe_ok env (sendJob env i r)"
  shows "det_inv env base ws written (sendJob env i r)"
proof -
  let ?r = "sendJob env i r"
  have sent: "sentCount ?r = Suc i" "sentCount r = i" using assms(2) by (simp_all add: sentCount_def sendJob_def)
  have transit: "inTransit ?r = add_mset i (inTransit r)" by (simp add: inTransit_def sendJob_def)
  have n: "i < length (pi_sources env)" using assms(1,2) by (simp add: det_inv_def pipe_ok_def)
  have len: "length (run_jobs ?r) = Suc (length (run_jobs r))" by (simp add: sendJob_def)
  have flow: "flow_ok env written r" using assms(1) by (simp add: det_inv_def)
  have dropped: "dropped env ?r = dropped env r" by (simp add: fun_eq_iff dropped_def sendJob_def)
  have "map jb_index (run_jobs ?r) = [i - length (run_jobs r)..<i] @ [i]" using flow sent by (simp add: flow_ok_def sendJob_def)
  also have "\<dots> = [Suc i - length (run_jobs ?r)..<Suc i]" by (simp add: len)
  finally have jobs: "map jb_index (run_jobs ?r) = [Suc i - length (run_jobs ?r)..<Suc i]" .
  have "flow_ok env written ?r"
    unfolding flow_ok_def sent transit dropped jobs len using flow n by (auto simp: flow_ok_def sent less_Suc_eq)
  moreover have "values_ok env ?r"
  proof -
    have "goodWorker env ?r x" if "x \<in> set (run_workers r)" for x
    proof (rule goodWorker_cong [of r])
      show "run_jobs r = [] \<and> run_jobsClosed r \<longrightarrow> run_cancelled ?r \<or> run_jobs ?r = [] \<and> run_jobsClosed ?r"
        using assms(1,2) by (auto simp: det_inv_def pipe_ok_def)
    qed (use assms(1) that in \<open>auto simp: det_inv_def values_ok_def list_all_iff sendJob_def\<close>)
    moreover have "values_ok env r" using assms(1) by (simp add: det_inv_def)
    ultimately show ?thesis by (auto simp: values_ok_def list_all_iff sendJob_def goodJob_def)
  qed
  moreover have "errors_ok env ?r" using assms(1) unfolding det_inv_def errors_ok_def sent len by (simp add: sendJob_def)
  moreover have "session_ok env base ws written ?r" using assms(1,2) sent by (auto simp: det_inv_def session_ok_def sendJob_def)
  ultimately show ?thesis using assms(1,3) by (simp add: det_inv_def) (simp add: sendJob_def)
qed

lemma cancel_middle: "(A :: 'a multiset) + B + C \<subseteq># D + A \<Longrightarrow> B + C \<subseteq># D"
  by (metis add.assoc add.commute mset_subset_eq_mono_add_left_cancel)

text \<open>What has left the channel of jobs comes before what is still in it.\<close>

lemma left_jobs:
  assumes "flow_ok env written r" "inTransit r = mset (map jb_index (run_jobs r)) + rest" "i \<in># rest"
  shows "i < sentCount r - length (run_jobs r)" "i \<notin> set written"
proof -
  let ?a = "sentCount r - length (run_jobs r)"
  have split: "mset [0..<sentCount r] = mset [0..<?a] + mset [?a..<sentCount r]"
  proof -
    have "[0..<sentCount r] = [0..<?a] @ [?a..<sentCount r]"
      using upt_add_eq_append [of 0 ?a "length (run_jobs r)"] assms(1) by (simp add: flow_ok_def)
    then show ?thesis by (metis mset_append)
  qed
  have "mset [?a..<sentCount r] + rest + mset written \<subseteq># mset [0..<?a] + mset [?a..<sentCount r]"
  proof -
    have "inTransit r + mset written \<subseteq># mset [0..<sentCount r]" "map jb_index (run_jobs r) = [?a..<sentCount r]"
      using assms(1) by (simp_all only: flow_ok_def)
    then show ?thesis using assms(2) split by (simp only:)
  qed
  then have sub: "rest + mset written \<subseteq># mset [0..<?a]" by (rule cancel_middle)
  then have "i \<in># mset [0..<?a]" using assms(3) by (meson mset_subset_eqD union_iff)
  then show "i < ?a" by simp
  show "i \<notin> set written"
  proof
    assume "i \<in> set written"
    then have "{#i#} + {#i#} \<subseteq># rest + mset written" using assms(3) by (intro subset_mset.add_mono) auto
    then have "{#i, i#} \<subseteq># mset [0..<?a]" using sub by (metis (no_types, lifting) add_mset_add_single subset_mset.order_trans union_mset_add_mset_left)
    then have "2 \<le> count (mset [0..<?a]) i" by (metis count_add_mset count_single mset_subset_eq_count numeral_2_eq_2 One_nat_def)
    moreover have "count (mset [0..<?a]) i \<le> 1" by (metis distinct_count_atmost_1 distinct_upt linorder_linear order_refl zero_le_one)
    ultimately show False by simp
  qed
qed

lemma worker_left:
  assumes "flow_ok env written r" "w < length (run_workers r)" "i \<in># workerHolds (run_workers r ! w)"
  shows "i < sentCount r - length (run_jobs r)"
proof (rule left_jobs(1) [OF assms(1)])
  show "inTransit r = mset (map jb_index (run_jobs r)) + (sum_list (map workerHolds (run_workers r)) + mset (map cr_index (run_results r)) +
     (case con_current r of None \<Rightarrow> {#} | Some result \<Rightarrow> {#cr_index result#}))" by (simp add: inTransit_def)
  show "i \<in># sum_list (map workerHolds (run_workers r)) + mset (map cr_index (run_results r)) +
     (case con_current r of None \<Rightarrow> {#} | Some result \<Rightarrow> {#cr_index result#})"
    using sum_holds_update [OF assms(2), of Exited] assms(3) by (metis add.right_neutral union_iff workerHolds.simps(5))
qed

text \<open>A worker that changes its state and holds what it held.\<close>

lemma inv_worker:
  assumes "det_inv env base ws written r" "w < length (run_workers r)" "workerHolds x = workerHolds (run_workers r ! w)"
    and r': "r' = r\<lparr>run_workers := (run_workers r)[w := x], run_cancelled := (run_cancelled r \<or> cancels), run_queueHighWater := hw\<rparr>"
    and "pipe_ok env r'" "goodWorker env r' x" "cancels \<longrightarrow> (\<exists>i \<in># workerHolds x. sourceFails env i)"
  shows "det_inv env base ws written r'"
proof -
  have flow: "flow_ok env written r" using assms(1) by (simp add: det_inv_def)
  have transit: "inTransit r' = inTransit r" using holds_replaced [OF assms(2), of x] assms(3) by (simp add: inTransit_def r')
  have sent: "sentCount r' = sentCount r" by (simp add: sentCount_def r' split: producer.splits)
  have "flow_ok env written r'" by (rule flow_ok_cong [OF flow transit sent]) (simp_all add: r')
  moreover have "values_ok env r'"
  proof -
    have "goodWorker env r' y" if "y \<in> set (run_workers r)" for y
      by (rule goodWorker_cong [OF _ _ workers_good [OF assms(1) that]]) (simp_all add: r')
    then have "list_all (goodWorker env r') ((run_workers r)[w := x])" using assms(6) by (intro list_all_update) (simp_all add: list_all_iff)
    then show ?thesis using assms(1) by (simp add: det_inv_def values_ok_def r')
  qed
  moreover have "errors_ok env r'"
  proof -
    have "\<exists>i < sentCount r - length (run_jobs r). sourceFails env i" if cancels
      using assms(3,7) that worker_left [OF flow assms(2)] by auto
    then show ?thesis using assms(1) unfolding det_inv_def errors_ok_def sent by (auto simp: r')
  qed
  moreover have "session_ok env base ws written r'" using assms(1) unfolding det_inv_def session_ok_def sent by (auto simp: r')
  ultimately show ?thesis using assms(1,5) by (simp add: det_inv_def) (simp add: r')
qed

lemma inv_start_worker:
  assumes "det_inv env base ws written r" "pipeline_ready env" "w < length (run_workers r)" "run_workers r ! w = Starting"
    "pipe_ok env (startWorker env w r)"
  shows "det_inv env base ws written (startWorker env w r)"
proof -
  have eq: "startWorker env w r = r\<lparr>run_workers := (run_workers r)[w := Idle], run_cancelled := (run_cancelled r \<or> False), run_queueHighWater := run_queueHighWater r\<rparr>"
    using assms(1-3) by (auto simp: startWorker_def pipeline_ready_def det_inv_def)
  show ?thesis by (rule inv_worker [OF assms(1,3) _ eq]) (use assms(4,5) in simp_all)
qed

lemma inv_exit_worker:
  assumes "det_inv env base ws written r" "w < length (run_workers r)" "run_workers r ! w = Idle" "run_jobs r = []" "run_jobsClosed r"
    "pipe_ok env (exitWorker w r)"
  shows "det_inv env base ws written (exitWorker w r)"
proof -
  have eq: "exitWorker w r = r\<lparr>run_workers := (run_workers r)[w := Exited], run_cancelled := (run_cancelled r \<or> False), run_queueHighWater := run_queueHighWater r\<rparr>"
    by (simp add: exitWorker_def)
  show ?thesis by (rule inv_worker [OF assms(1,2) _ eq]) (use assms(3-6) in \<open>simp_all add: exitWorker_def\<close>)
qed

lemma inv_finish_extraction:
  assumes "det_inv env base ws written r" "w < length (run_workers r)" "run_workers r ! w = Extracting job"
    "pipe_ok env (finishExtraction env w job r)"
  shows "det_inv env base ws written (finishExtraction env w job r)"
proof -
  have job: "goodJob env job"
    using assms(1-3) by (metis det_inv_def goodWorker.simps(1) list_all_length values_ok_def)
  let ?result = "\<lparr>cr_index = jb_index job, cr_source = pi_extract env (jb_source job), cr_workerInitialization = False\<rparr>"
  let ?cancels = "isl (pi_extract env (jb_source job))"
  have eq: "finishExtraction env w job r = r\<lparr>run_workers := (run_workers r)[w := Reporting ?result ?cancels],
      run_cancelled := (run_cancelled r \<or> ?cancels),
      run_queueHighWater := max (min initialContributionQueueCapacity (length (run_results r) + 1)) (run_queueHighWater r)\<rparr>"
    by (simp add: finishExtraction_def Let_def)
  show ?thesis
    by (rule inv_worker [OF assms(1,2) _ eq])
      (use assms(3,4) job in \<open>simp_all add: finishExtraction_def Let_def goodJob_def sourceFails_def\<close>)
qed

lemma inv_take:
  assumes "det_inv env base ws written r" "w < length (run_workers r)" "run_workers r ! w = Idle" "run_jobs r \<noteq> []" "pipe_ok env (takeJob w r)"
  shows "det_inv env base ws written (takeJob w r)"
proof -
  let ?r = "takeJob w r" and ?a = "sentCount r - length (run_jobs r)"
  obtain j js where jobs: "run_jobs r = j # js" using assms(4) by (cases "run_jobs r") auto
  have flow: "flow_ok env written r" using assms(1) by (simp add: det_inv_def)
  have sent: "sentCount ?r = sentCount r" by (simp add: sentCount_def takeJob_def split: producer.splits)
  have "sum_list (map workerHolds ((run_workers r)[w := Extracting j])) = sum_list (map workerHolds (run_workers r)) + {#jb_index j#}"
    using sum_holds_update [OF assms(2), of "Extracting j"] assms(3) by simp
  then have transit: "inTransit ?r = inTransit r" by (simp add: inTransit_def takeJob_def jobs ac_simps)
  have dropped: "dropped env ?r = dropped env r" by (simp add: fun_eq_iff dropped_def takeJob_def)
  have "jb_index j # map jb_index js = [?a..<sentCount r]" using flow jobs by (simp add: flow_ok_def)
  then have "map jb_index js = [Suc ?a..<sentCount r]" by (metis list.sel(3) tl_upt)
  moreover have a: "sentCount r - length js = Suc ?a" using flow jobs by (auto simp: flow_ok_def)
  ultimately have rest: "map jb_index js = [sentCount r - length js..<sentCount r]" by simp
  have "flow_ok env written ?r"
    using flow rest unfolding flow_ok_def sent transit dropped by (simp add: takeJob_def jobs)
  moreover have "values_ok env ?r"
  proof -
    have "goodWorker env ?r x" if "x \<in> set (run_workers r)" for x
      by (rule goodWorker_cong [OF _ _ workers_good [OF assms(1) that]]) (simp_all add: takeJob_def jobs)
    moreover have "goodJob env j" using assms(1) by (simp add: det_inv_def values_ok_def jobs)
    ultimately have "list_all (goodWorker env ?r) ((run_workers r)[w := Extracting j])"
      by (intro list_all_update) (simp_all add: list_all_iff)
    then show ?thesis using assms(1) by (simp add: det_inv_def values_ok_def takeJob_def jobs)
  qed
  moreover have "errors_ok env ?r"
  proof -
    have "errors_ok env r" using assms(1) by (simp add: det_inv_def)
    moreover have "?a \<le> sentCount ?r - length (run_jobs ?r)" unfolding sent using a by (simp add: takeJob_def jobs)
    ultimately show ?thesis unfolding errors_ok_def sent using order_less_le_trans by (fastforce simp: takeJob_def)
  qed
  moreover have "session_ok env base ws written ?r" using assms(1) unfolding det_inv_def session_ok_def sent by (auto simp: takeJob_def)
  ultimately show ?thesis using assms(1,5) by (simp add: det_inv_def) (simp add: takeJob_def)
qed

lemma inv_report:
  assumes "det_inv env base ws written r" "w < length (run_workers r)" "run_workers r ! w = Reporting result exits"
    "pipe_ok env (reportResult w result exits r)"
  shows "det_inv env base ws written (reportResult w result exits r)"
proof -
  let ?r = "reportResult w result exits r" and ?x = "if exits then Exited else Idle"
  have flow: "flow_ok env written r" using assms(1) by (simp add: det_inv_def)
  have sent: "sentCount ?r = sentCount r" by (simp add: sentCount_def reportResult_def split: producer.splits)
  have "sum_list (map workerHolds (run_workers r)) = sum_list (map workerHolds ((run_workers r)[w := ?x])) + {#cr_index result#}"
    using sum_holds_update [OF assms(2), of ?x] assms(3) by simp
  then have transit: "inTransit ?r = inTransit r" by (simp add: inTransit_def reportResult_def ac_simps)
  have "flow_ok env written ?r" by (rule flow_ok_cong [OF flow transit sent]) (simp_all add: reportResult_def)
  moreover have "values_ok env ?r"
  proof -
    have good: "goodWorker env r (Reporting result exits)" using assms(1-3) by (metis det_inv_def list_all_length values_ok_def)
    have "goodWorker env ?r x" if "x \<in> set (run_workers r)" for x
      by (rule goodWorker_cong [OF _ _ workers_good [OF assms(1) that]]) (simp_all add: reportResult_def)
    moreover have "goodWorker env ?r ?x" using good by (simp add: reportResult_def)
    ultimately have "list_all (goodWorker env ?r) ((run_workers r)[w := ?x])" by (intro list_all_update) (simp_all add: list_all_iff)
    then show ?thesis using assms(1) good by (simp add: det_inv_def values_ok_def reportResult_def)
  qed
  moreover have "errors_ok env ?r"
    by (rule errors_ok_cong [of env r]) (use assms(1) sent in \<open>auto simp: det_inv_def reportResult_def errors_ok_def\<close>)
  moreover have "session_ok env base ws written ?r" using assms(1) unfolding det_inv_def session_ok_def sent by (auto simp: reportResult_def)
  ultimately show ?thesis using assms(1,4) by (simp add: det_inv_def) (simp add: reportResult_def)
qed

lemma inv_receive:
  assumes "det_inv env base ws written r" "con_current r = None" "run_results r \<noteq> []" "pipe_ok env (receiveResult r)"
  shows "det_inv env base ws written (receiveResult r)"
proof -
  let ?r = "receiveResult r"
  obtain x xs where results: "run_results r = x # xs" using assms(3) by (cases "run_results r") auto
  have flow: "flow_ok env written r" using assms(1) by (simp add: det_inv_def)
  have sent: "sentCount ?r = sentCount r" by (simp add: sentCount_def receiveResult_def split: producer.splits)
  have transit: "inTransit ?r = inTransit r" using assms(2) results by (simp add: inTransit_def receiveResult_def ac_simps)
  have "flow_ok env written ?r" by (rule flow_ok_cong [OF flow transit sent]) (simp_all add: receiveResult_def)
  moreover have "values_ok env ?r"
  proof -
    have "goodWorker env ?r x" if "x \<in> set (run_workers r)" for x
      by (rule goodWorker_cong [OF _ _ workers_good [OF assms(1) that]]) (simp_all add: receiveResult_def)
    then have "list_all (goodWorker env ?r) (run_workers r)" by (simp add: list_all_iff)
    then show ?thesis using assms(1,2) results by (simp add: det_inv_def values_ok_def receiveResult_def)
  qed
  moreover have "errors_ok env ?r"
    by (rule errors_ok_cong [of env r]) (use assms(1) sent in \<open>auto simp: det_inv_def receiveResult_def errors_ok_def\<close>)
  moreover have "session_ok env base ws written ?r" using assms(1) unfolding det_inv_def session_ok_def sent by (auto simp: receiveResult_def)
  ultimately show ?thesis using assms(1,4) by (simp add: det_inv_def) (simp add: receiveResult_def)
qed

lemma contribution_path:
  assumes "pipeline_ready env" "i < length (pi_sources env)" "\<not> sourceFails env i"
  shows "c_sourcePath (contributionAt env i) = so_Path (pi_sources env ! i)"
    "pi_extract env (pi_sources env ! i) = Inr (projr (pi_extract env (pi_sources env ! i)))"
proof -
  show ok: "pi_extract env (pi_sources env ! i) = Inr (projr (pi_extract env (pi_sources env ! i)))"
    using assms(3) by (simp add: sourceFails_def)
  show "c_sourcePath (contributionAt env i) = so_Path (pi_sources env ! i)"
    unfolding contributionAt_def using assms(1,2) ok by (metis nth_mem pipeline_ready_def)
qed

text \<open>The consumer has taken a result: it keeps the error, drops the contribution or writes it.\<close>

lemma inv_consumed:
  assumes "det_inv env base ws written r" "con_current r = Some result" "pipe_ok env r'" "\<not> run_ctxCancelled r'"
    and same: "run_jobs r' = run_jobs r" "run_jobsClosed r' = run_jobsClosed r" "run_workers r' = run_workers r" "run_results r' = run_results r" "con_current r' = None"
      "run_producer r' = run_producer r" "run_sourceCount r' = run_sourceCount r" "run_producerError r' = run_producerError r" "con_initError r' = None"
    and cancel: "run_cancelled r \<longrightarrow> run_cancelled r'" "con_failed r \<longrightarrow> con_failed r'" "con_failed r' \<longrightarrow> run_cancelled r'"
      "run_cancelled r' \<longrightarrow> run_cancelled r \<or> sourceFails env (cr_index result)"
    and errors: "con_extractionError r' \<noteq> None \<or> con_writeError r' \<noteq> None \<longrightarrow> con_failed r'"
      "\<And>m e. con_extractionError r' = Some (m, e) \<Longrightarrow> m < length (pi_sources env) \<and> pi_extract env (pi_sources env ! m) = Inl e"
      "\<And>m e. con_extractionError r = Some (m, e) \<Longrightarrow> \<exists>m' e'. con_extractionError r' = Some (m', e') \<and> m' \<le> m"
    and rest: "new = [] \<and> dropped env r' (cr_index result) \<or> new = [cr_index result] \<and> \<not> sourceFails env (cr_index result)"
    and session: "session_ok env base ws (written @ new) r'"
  shows "det_inv env base ws (written @ new) r'"
proof -
  let ?i = "cr_index result"
  have flow: "flow_ok env written r" using assms(1) by (simp add: det_inv_def)
  have sent: "sentCount r' = sentCount r" by (simp add: sentCount_def same split: producer.splits)
  have transit: "inTransit r = add_mset ?i (inTransit r')" by (simp add: inTransit_def same assms(2))
  have left: "?i < sentCount r - length (run_jobs r)"
    by (rule left_jobs(1) [OF flow, of "sum_list (map workerHolds (run_workers r)) + mset (map cr_index (run_results r)) + {#?i#}"])
      (simp_all add: inTransit_def assms(2))
  have kept: "dropped env r' i" if drop: "dropped env r i" for i
  proof (cases "sourceFails env i")
    case True
    then obtain m e where "con_extractionError r = Some (m, e)" "m \<le> i" using drop by (auto simp: dropped_def)
    then show ?thesis using errors(3) [of m e] True by (auto simp: dropped_def)
  qed (use drop cancel(2) in \<open>simp add: dropped_def\<close>)
  have "flow_ok env (written @ new) r'"
    unfolding flow_ok_def
  proof (intro conjI)
    have sub: "add_mset ?i (inTransit r') + mset written \<subseteq># mset [0..<sentCount r]"
      using flow unfolding flow_ok_def transit by (simp only:)
    have "inTransit r' + mset (written @ new) \<subseteq># add_mset ?i (inTransit r') + mset written"
      using rest by auto
    then show "inTransit r' + mset (written @ new) \<subseteq># mset [0..<sentCount r']"
      unfolding sent using sub by (rule subset_mset.order_trans)
    show "\<forall>i<sentCount r'. i \<in># inTransit r' \<or> i \<in> set (written @ new) \<or> dropped env r' i"
      using flow rest kept unfolding flow_ok_def transit sent by auto
  qed (use flow rest in \<open>auto simp: flow_ok_def sent same\<close>)
  moreover have "values_ok env r'"
  proof -
    have "goodWorker env r' x" if "x \<in> set (run_workers r)" for x
      by (rule goodWorker_cong [OF _ _ workers_good [OF assms(1) that]]) (use cancel(1) in \<open>simp_all add: same\<close>)
    then show ?thesis using assms(1) by (simp add: det_inv_def values_ok_def list_all_iff same)
  qed
  moreover have "errors_ok env r'"
  proof -
    have "errors_ok env r" using assms(1) by (simp add: det_inv_def)
    moreover have "\<exists>i<sentCount r - length (run_jobs r). sourceFails env i" if "run_cancelled r'"
      using \<open>errors_ok env r\<close> left cancel(4) that unfolding errors_ok_def by blast
    ultimately show ?thesis using cancel(1,3) errors(1,2) unfolding errors_ok_def sent same by blast
  qed
  ultimately show ?thesis using assms(1,3,4) session by (simp add: det_inv_def same)
qed

lemma inv_consume:
  assumes inv: "det_inv env base ws written r" and ready: "pipeline_ready env" and wf: "wf_db base"
    and current: "con_current r = Some result" and ok: "pipe_ok env (consumeContribution result r)"
  shows "\<exists>new. det_inv env base ws (written @ new) (consumeContribution result r)"
proof -
  let ?i = "cr_index result" and ?r = "consumeContribution result r"
  have flow: "flow_ok env written r" and errs: "errors_ok env r" and sess: "session_ok env base ws written r" and ctx: "\<not> run_ctxCancelled r"
    using inv by (simp_all add: det_inv_def)
  have good: "\<not> cr_workerInitialization result" "cr_source result = pi_extract env (pi_sources env ! ?i)"
    using inv current by (simp_all add: det_inv_def values_ok_def)
  have held: "?i < sentCount r - length (run_jobs r)" "?i \<notin> set written"
    by (rule left_jobs [OF flow, of "sum_list (map workerHolds (run_workers r)) + mset (map cr_index (run_results r)) + {#?i#}"];
      simp add: inTransit_def current)+
  then have sent: "?i < sentCount r" and bound: "?i < length (pi_sources env)" using flow by (auto simp: flow_ok_def)
  have sent': "sentCount ?r = sentCount r" by (simp add: sentCount_def consumeContribution_fields split: producer.splits)
  note consumed = inv_consumed [OF inv current ok]
  show ?thesis
  proof (cases "cr_source result")
    case (Inl err)
    then have fails: "sourceFails env ?i" using good(2) by (simp add: sourceFails_def)
    obtain m e where first: "con_extractionError ?r = Some (m, e)" "m \<le> ?i" "m < length (pi_sources env)" "pi_extract env (pi_sources env ! m) = Inl e"
      "\<And>m' e'. con_extractionError r = Some (m', e') \<Longrightarrow> m \<le> m'"
    proof (cases "con_extractionError r")
      case None
      then show ?thesis using that [of ?i err] good Inl bound by (simp add: consumeContribution_def Let_def)
    next
      case (Some p)
      obtain m0 e0 where p: "con_extractionError r = Some (m0, e0)" using Some by (cases p) simp
      have old: "m0 < length (pi_sources env)" "pi_extract env (pi_sources env ! m0) = Inl e0" using errs p by (auto simp: errors_ok_def)
      have "con_extractionError ?r = (if ?i < m0 then Some (?i, err) else Some (m0, e0))"
        using p good(1) Inl by (simp add: consumeContribution_def Let_def)
      then show ?thesis
        using that [of ?i err] that [of m0 e0] good(2) Inl bound old p by (cases "?i < m0") simp_all
    qed
    have fields: "con_failed ?r" "run_cancelled ?r" "con_initError ?r = con_initError r" "run_session ?r = run_session r" "con_summary ?r = con_summary r"
      "con_writeError ?r = con_writeError r"
      using Inl good(1) by (auto simp: consumeContribution_def Let_def split: option.splits)
    have session: "session_ok env base ws (written @ []) ?r"
      using sess unfolding session_ok_def sent' by (simp add: fields consumeContribution_fields)
    have init: "con_initError r = None" using errs by (simp add: errors_ok_def)
    have drop: "dropped env ?r ?i" using fails first(2) by (simp add: dropped_def first(1))
    have smaller: "\<And>m' e'. con_extractionError r = Some (m', e') \<Longrightarrow> \<exists>m'' e''. con_extractionError ?r = Some (m'', e'') \<and> m'' \<le> m'"
      using first(5) by (simp add: first(1))
    have "det_inv env base ws (written @ []) ?r"
    proof (rule consumed)
      show "session_ok env base ws (written @ []) ?r" by (rule session)
      show "[] = [] \<and> dropped env ?r ?i \<or> [] = [?i] \<and> \<not> sourceFails env ?i" using drop by simp
      show "m' < length (pi_sources env) \<and> pi_extract env (pi_sources env ! m') = Inl e'"
        if "con_extractionError ?r = Some (m', e')" for m' e' using that first(1,3,4) by simp
      show "\<exists>m'' e''. con_extractionError ?r = Some (m'', e'') \<and> m'' \<le> m'" if "con_extractionError r = Some (m', e')" for m' e'
        by (rule smaller [OF that])
    qed (simp_all add: consumeContribution_fields fields ctx init fails)
    then show ?thesis by blast
  next
    case (Inr extracted)
    then have "pi_extract env (pi_sources env ! ?i) = Inr extracted" using good(2) by simp
    then have fine: "\<not> sourceFails env ?i" and c: "contributionAt env ?i = es_contribution extracted"
      by (simp_all add: sourceFails_def contributionAt_def)
    show ?thesis
    proof (cases "con_failed r")
      case True
      then have eq: "?r = r\<lparr>con_current := None\<rparr>" using Inr by (simp add: consumeContribution_def Let_def)
      have "session_ok env base ws (written @ []) ?r" using sess unfolding session_ok_def sent' by (simp add: eq)
      then have "det_inv env base ws (written @ []) ?r"
        by (rule consumed [rotated -1]) (use errs ctx True fine in \<open>auto simp: eq errors_ok_def dropped_def\<close>)
      then show ?thesis by blast
    next
      case False
      show ?thesis
      proof (cases "ss_closed (run_session r)")
        case True
        then have eq: "?r = r\<lparr>con_current := None, con_writeError := Some InvalidRequest, con_failed := True, run_cancelled := True\<rparr>"
          using Inr False by (simp add: consumeContribution_def Let_def WriteContribution_def)
        have cancelled: "run_cancelled r" "run_producer r = ProducerDone" "con_summary r = countedSummary env written"
          using sess True by (auto simp: session_ok_def)
        have "session_ok env base ws (written @ []) ?r" using cancelled True by (simp add: session_ok_def eq)
        then have "det_inv env base ws (written @ []) ?r"
          by (rule consumed [rotated -1]) (use errs ctx cancelled False fine in \<open>auto simp: eq errors_ok_def dropped_def\<close>)
        then show ?thesis by blast
      next
        case opened: False
        obtain k where k: "sentCount r \<le> k" "k \<le> length (pi_sources env)"
          "session_inv base ws (map so_Path (take k (pi_sources env))) (map (contributionAt env) written) (run_session r)"
          "case run_producer r of Streaming i \<Rightarrow> k = i | Sending i \<Rightarrow> k = Suc i | ProducerDone \<Rightarrow> True"
          using sess opened by (auto simp: session_ok_def)
        have path: "c_sourcePath (contributionAt env ?i) = so_Path (pi_sources env ! ?i)"
          by (rule contribution_path(1) [OF ready bound fine])
        have staged: "c_sourcePath (contributionAt env ?i) \<in> set (map so_Path (take k (pi_sources env)))"
          using path sent k(1,2) bound by (auto simp: in_set_conv_nth intro!: image_eqI [of _ _ "pi_sources env ! ?i"] exI [of _ ?i])
        have fresh: "c_sourcePath (contributionAt env ?i) \<notin> c_sourcePath ` set (map (contributionAt env) written)"
        proof
          assume "c_sourcePath (contributionAt env ?i) \<in> c_sourcePath ` set (map (contributionAt env) written)"
          then obtain j where j: "j \<in> set written" "c_sourcePath (contributionAt env ?i) = c_sourcePath (contributionAt env j)" by auto
          have "inTransit r + mset written \<subseteq># mset [0..<sentCount r]" "sentCount r \<le> length (pi_sources env)"
            using flow by (simp_all only: flow_ok_def)
          moreover have "j \<in># inTransit r + mset written" using j(1) by simp
          ultimately have "j < length (pi_sources env)" using mset_subset_eqD by fastforce
          moreover have "\<not> sourceFails env j" using flow j(1) by (auto simp: flow_ok_def)
          ultimately have "so_Path (pi_sources env ! j) = so_Path (pi_sources env ! ?i)" "j < length (pi_sources env)"
            using contribution_path(1) [OF ready] j(2) path by auto
          then have "j = ?i" using ready bound by (metis distinct_conv_nth length_map nth_map pipeline_ready_def)
          with held(2) j(1) show False by simp
        qed
        obtain s where s: "WriteContribution False (contributionAt env ?i) (run_session r) = (Inr (), s)"
          "session_inv base ws (map so_Path (take k (pi_sources env))) (map (contributionAt env) written @ [contributionAt env ?i]) s"
          using WriteContribution_inv [OF wf k(3) staged fresh] by auto
        have eq: "?r = r\<lparr>con_current := None, run_session := s, con_summary := countFacts (c_facts (contributionAt env ?i))
            ((con_summary r)\<lparr>sm_completedSources := sm_completedSources (con_summary r) + 1\<rparr>)\<rparr>"
          using Inr False s(1) c ctx by (simp add: consumeContribution_def Let_def)
        have "\<not> ss_closed s" using s(2) by (simp add: session_inv_def)
        then have "session_ok env base ws (written @ [?i]) ?r"
          using s(2) k sess unfolding session_ok_def sent' by (auto simp: eq countedSummary_def)
        then have "det_inv env base ws (written @ [?i]) ?r"
          by (rule consumed [rotated -1]) (use errs ctx False fine in \<open>auto simp: eq errors_ok_def dropped_def\<close>)
        then show ?thesis by blast
      qed
    qed
  qed
qed

section \<open>Every interleaving\<close>

lemma cancelled_stays: "pstep env r r' \<Longrightarrow> run_ctxCancelled r \<Longrightarrow> run_ctxCancelled r'"
  by (cases rule: pstep.cases)
    (auto simp: step_defs consumeContribution_fields Let_def split: prod.splits sum.splits option.splits)

lemma pstep_inv:
  assumes "pstep env r r'" "det_inv env base ws written r" "pipeline_ready env" "wf_db base"
  shows "run_ctxCancelled r' \<or> (\<exists>written'. det_inv env base ws written' r')"
proof -
  have ok: "pipe_ok env r'" using pstep_ok [OF assms(1)] assms(2) by (simp add: det_inv_def)
  have opened: "run_producer r \<noteq> ProducerDone \<Longrightarrow> \<not> ss_closed (run_session r)" using assms(2) by (auto simp: det_inv_def session_ok_def)
  from assms(1) show ?thesis
  proof (cases rule: pstep.cases)
    case (emit i)
    then show ?thesis using inv_emit [OF assms(2,3) emit(2,3)] by auto
  next
    case (emit_cancelled i)
    let ?r = "r\<lparr>run_session := (run_session r)\<lparr>ss_closed := True\<rparr>\<rparr>"
    have "det_inv env base ws written r'"
    proof -
      have sent: "sentCount r = i" "sentCount r' = i" using emit_cancelled by (simp_all add: sentCount_def step_defs)
      have "flow_ok env written r'"
        by (rule flow_ok_cong [of env written r]) (use assms(2) sent emit_cancelled in \<open>simp_all add: det_inv_def step_defs inTransit_def\<close>)
      moreover have "values_ok env r'"
        by (rule values_ok_cong [of env r]) (use assms(2) emit_cancelled in \<open>simp_all add: det_inv_def step_defs\<close>)
      moreover have "errors_ok env r'"
        by (rule errors_ok_cong [of env r]) (use assms(2) sent emit_cancelled in \<open>auto simp: det_inv_def step_defs canceledError_def\<close>)
      moreover have "session_ok env base ws written r'"
        using assms(2) emit_cancelled by (simp add: det_inv_def session_ok_def step_defs)
      ultimately show ?thesis using assms(2) ok by (simp add: det_inv_def) (simp add: emit_cancelled step_defs)
    qed
    then show ?thesis by blast
  next
    case (stream_cancelled i)
    then show ?thesis
      using inv_end_production [OF assms(2) ok [unfolded stream_cancelled(1)]] by (auto simp: sentCount_def canceledError_def)
  next
    case stream_end
    then have "r' = endProduction (length (pi_sources env)) None r" using assms(3) by (simp add: pipeline_ready_def)
    then show ?thesis
      using inv_end_production [OF assms(2), of "length (pi_sources env)" None] ok stream_end(2) by (auto simp: sentCount_def)
  next
    case (send_job i)
    then show ?thesis using inv_send [OF assms(2) send_job(2)] ok by auto
  next
    case (send_cancelled i)
    then show ?thesis
      using inv_end_production [OF assms(2) ok [unfolded send_cancelled(1)]] by (auto simp: sentCount_def canceledError_def)
  next
    case (start_worker w)
    then show ?thesis using inv_start_worker [OF assms(2,3) start_worker(2,3)] ok by auto
  next
    case (take_job w)
    then show ?thesis using inv_take [OF assms(2) take_job(2-4)] ok by auto
  next
    case (exit_worker w)
    then show ?thesis using inv_exit_worker [OF assms(2) exit_worker(2-5)] ok by auto
  next
    case (finish_extraction w job)
    then show ?thesis using inv_finish_extraction [OF assms(2) finish_extraction(2,3)] ok by auto
  next
    case (report_result w result exits)
    then show ?thesis using inv_report [OF assms(2) report_result(2,3)] ok by auto
  next
    case close_results
    have sent: "sentCount r' = sentCount r" by (simp add: close_results(1) sentCount_def step_defs split: producer.splits)
    have "flow_ok env written r'"
      by (rule flow_ok_cong [OF _ _ sent]) (use assms(2) in \<open>simp_all add: close_results(1) det_inv_def step_defs inTransit_def\<close>)
    moreover have "values_ok env r'"
      by (rule values_ok_cong [of env r]) (use assms(2) in \<open>simp_all add: close_results(1) det_inv_def step_defs\<close>)
    moreover have "errors_ok env r'"
      by (rule errors_ok_cong [OF _ sent]) (use assms(2) in \<open>auto simp: close_results(1) det_inv_def step_defs errors_ok_def\<close>)
    moreover have "session_ok env base ws written r'"
      using assms(2) unfolding det_inv_def session_ok_def sent by (simp add: close_results(1) step_defs)
    ultimately show ?thesis using assms(2) ok by (auto simp: det_inv_def) (simp_all add: close_results(1) step_defs)
  next
    case receive_result
    then show ?thesis using inv_receive [OF assms(2) receive_result(2,3)] ok by auto
  next
    case (consume_result result)
    then show ?thesis using inv_consume [OF assms(2,3,4) consume_result(2)] ok by auto
  next
    case finish
    have sent: "sentCount r' = sentCount r" by (simp add: finish(1) sentCount_def split: producer.splits)
    have "flow_ok env written r'"
      by (rule flow_ok_cong [OF _ _ sent]) (use assms(2) in \<open>simp_all add: finish(1) det_inv_def inTransit_def\<close>)
    moreover have "values_ok env r'"
      by (rule values_ok_cong [of env r]) (use assms(2) in \<open>simp_all add: finish(1) det_inv_def\<close>)
    moreover have "errors_ok env r'"
      by (rule errors_ok_cong [OF _ sent]) (use assms(2) in \<open>auto simp: finish(1) det_inv_def errors_ok_def\<close>)
    moreover have "session_ok env base ws written r'"
      using assms(2) unfolding det_inv_def session_ok_def sent by (simp add: finish(1))
    ultimately show ?thesis using assms(2) ok by (auto simp: det_inv_def) (simp_all add: finish(1))
  next
    case cancel
    then show ?thesis by simp
  qed
qed

lemma psteps_inv:
  assumes "(pstep env)\<^sup>*\<^sup>* r r'" "det_inv env base ws written r" "pipeline_ready env" "wf_db base" "\<not> run_ctxCancelled r'"
  shows "\<exists>written'. det_inv env base ws written' r'"
  using assms(1,5)
proof (induction rule: rtranclp_induct)
  case base
  then show ?case using assms(2) by blast
next
  case (step y z)
  then have "\<not> run_ctxCancelled y" using cancelled_stays by blast
  then show ?case using step pstep_inv [OF step(2) _ assms(3,4)] by blast
qed

text \<open>The first source that fails decides.\<close>

lemma finished_outcome:
  assumes inv: "det_inv env base ws written r" and finished: "con_finished r"
  shows "if \<exists>i < length (pi_sources env). sourceFails env i
    then \<exists>i e. i < length (pi_sources env) \<and> pi_extract env (pi_sources env ! i) = Inl e \<and> (\<forall>j < i. \<not> sourceFails env j) \<and>
      pipelineResult r = Inl (ExtractionFailed e)
    else mset written = mset [0..<length (pi_sources env)] \<and> \<not> run_cancelled r \<and> run_producer r = ProducerDone \<and>
      pipelineResult r = Inr ((countedSummary env written)\<lparr>sm_totalSources := length (pi_sources env)\<rparr>)"
proof -
  let ?n = "length (pi_sources env)"
  have flow: "flow_ok env written r" and errs: "errors_ok env r" and ctx: "\<not> run_ctxCancelled r"
    and sess: "session_ok env base ws written r" and pipe: "pipe_ok env r"
    using inv by (simp_all add: det_inv_def)
  have exited: "x = Exited" if "x \<in> set (run_workers r)" for x using finished pipe that by (auto simp: pipe_ok_def)
  then have "map workerHolds (run_workers r) = map (\<lambda>_. {#}) (run_workers r)" by (auto dest: exited)
  then have "sum_list (map workerHolds (run_workers r)) = {#}" by (simp add: map_replicate_const sum_nothing)
  then have transit: "inTransit r = mset (map jb_index (run_jobs r))" using pipe finished by (simp add: inTransit_def pipe_ok_def)
  have jobs: "map jb_index (run_jobs r) = [sentCount r - length (run_jobs r)..<sentCount r]" using flow by (simp add: flow_ok_def)
  have quiet: "run_jobs r = [] \<and> run_producer r = ProducerDone \<and> sentCount r = ?n \<and> run_sourceCount r = ?n \<and> run_producerError r = None"
    if "\<not> run_cancelled r"
  proof -
    obtain x where "x \<in> set (run_workers r)" using pipe by (cases "run_workers r") (auto simp: pipe_ok_def)
    then have "goodWorker env r Exited" using workers_good [OF inv] exited by metis
    then have "run_jobs r = []" "run_producer r = ProducerDone" using that pipe by (auto simp: pipe_ok_def)
    then show ?thesis using errs that by (auto simp: errors_ok_def sentCount_def)
  qed
  show ?thesis
  proof (cases "\<exists>i < ?n. sourceFails env i")
    case True
    define f where "f = (LEAST i. sourceFails env i)"
    have f: "sourceFails env f" "f \<le> i" if "sourceFails env i" for i
      using that by (auto simp: f_def intro: LeastI Least_le)
    have small: "f < ?n" using True f(2) by fastforce
    have sent: "f < sentCount r - length (run_jobs r)"
    proof (cases "run_cancelled r")
      case True
      then show ?thesis using errs f(2) by (fastforce simp: errors_ok_def)
    next
      case False
      then show ?thesis using quiet small by simp
    qed
    have "f \<notin># inTransit r" using sent unfolding transit jobs by simp
    moreover have "f \<notin> set written" using flow f True by (auto simp: flow_ok_def)
    moreover have "f < sentCount r" using sent by simp
    ultimately have "dropped env r f" using flow unfolding flow_ok_def by blast
    then obtain m e where m: "con_extractionError r = Some (m, e)" "m \<le> f" using f True by (auto simp: dropped_def)
    then have ext: "pi_extract env (pi_sources env ! m) = Inl e" using errs by (auto simp: errors_ok_def)
    then have "m = f" using f(2) [of m] m(2) by (simp add: sourceFails_def)
    have "pipelineResult r = Inl (ExtractionFailed e)" using m(1) ctx errs by (auto simp: pipelineResult_def errors_ok_def)
    moreover have "\<forall>j < f. \<not> sourceFails env j" using f(2) by (meson not_le)
    ultimately show ?thesis using True ext small \<open>m = f\<close> by auto
  next
    case False
    then have calm: "\<not> run_cancelled r" using errs flow by (auto simp: errors_ok_def flow_ok_def)
    note q = quiet [OF calm]
    have sub: "mset written \<subseteq># mset [0..<?n]" using flow transit q by (simp add: flow_ok_def)
    have "i \<in> set written" if "i < ?n" for i
    proof -
      have "i \<in># inTransit r \<or> i \<in> set written \<or> dropped env r i" using flow q that unfolding flow_ok_def by metis
      moreover have "\<not> dropped env r i" using False that calm errs by (auto simp: dropped_def errors_ok_def)
      ultimately show ?thesis using transit q by simp
    qed
    then have "{0..<?n} \<subseteq> set written" by auto
    then have "mset_set {0..<?n} \<subseteq># mset_set (set_mset (mset written))" by (intro subset_imp_msubset_mset_set) auto
    then have "mset [0..<?n] \<subseteq># mset written"
      unfolding mset_upt using mset_set_set_mset_msubset by (rule subset_mset.order_trans)
    then have all: "mset written = mset [0..<?n]" using sub by (rule subset_mset.antisym [rotated])
    have "con_extractionError r = None" "con_writeError r = None" "con_initError r = None"
      using errs calm by (auto simp: errors_ok_def)
    then have "pipelineResult r = Inr ((countedSummary env written)\<lparr>sm_totalSources := ?n\<rparr>)"
      using q sess ctx by (simp add: pipelineResult_def session_ok_def)
    then show ?thesis using False all calm q by simp
  qed
qed

section \<open>Properties\<close>

lemma steps_work:
  assumes "(pstep env ^^ k) r r'" "pipe_ok env r"
  shows "pipe_ok env r' \<and> k + pipelineWork env r' \<le> pipelineWork env r"
  using assms(1)
proof (induction k arbitrary: r')
  case 0
  then show ?case using assms(2) by simp
next
  case (Suc k)
  then obtain y where "(pstep env ^^ k) r y" "pstep env y r'" by auto
  then show ?case using Suc.IH [of y] pstep_ok pstep_work by fastforce
qed

lemma start_work: "pipelineWork env (startExtraction env session) = 7 * length (pi_sources env) + 5 * max 1 (pi_workerCount env) + 4"
  by (simp add: pipelineWork_def startExtraction_def sum_list_replicate)

text \<open>C6. The pipeline cannot deadlock and always ends, whatever fails and however the goroutines are interleaved: every run is at most
  seven steps per source and five per worker long, and until the consumer has finished one of the goroutines can
  take a step, without help from the caller: the step is not the cancellation of the caller's context. The channels never hold
  more than their 32 elements.\<close>

theorem pipeline_terminates:
  assumes "(pstep env ^^ k) (startExtraction env session) r"
  shows "k \<le> 7 * length (pi_sources env) + 5 * max 1 (pi_workerCount env) + 4 \<and>
    (con_finished r \<or> (\<exists>r'. pstep env r r' \<and> run_ctxCancelled r' = run_ctxCancelled r)) \<and>
    length (run_jobs r) \<le> 32 \<and> length (run_results r) \<le> 32 \<and> run_queueHighWater r \<le> 32"
proof -
  have "pipe_ok env r \<and> k + pipelineWork env r \<le> pipelineWork env (startExtraction env session)"
    by (rule steps_work [OF assms start_ok])
  then show ?thesis
    using pstep_progress [of env r] by (auto simp: start_work pipe_ok_def initialContributionQueueCapacity_def)
qed

lemma finished_run:
  assumes "pipe_ok env r"
  shows "\<exists>r'. (pstep env)\<^sup>*\<^sup>* r r' \<and> con_finished r' \<and> run_ctxCancelled r' = run_ctxCancelled r"
  using assms
proof (induction "pipelineWork env r" arbitrary: r rule: less_induct)
  case less
  show ?case
  proof (cases "con_finished r")
    case False
    then obtain y where y: "pstep env r y" "run_ctxCancelled y = run_ctxCancelled r" using pstep_progress less.prems by blast
    then show ?thesis
      using less.hyps [OF pstep_work [OF y(1) less.prems] pstep_ok [OF y(1) less.prems]] by (auto intro: converse_rtranclp_into_rtranclp)
  qed blast
qed

definition sampleSource :: "str \<Rightarrow> Source" where
  "sampleSource p = \<lparr>so_Path = p, so_ProjectID = ''project:.''\<rparr>"

definition samplePipeline :: pipeline_env where
  "samplePipeline = \<lparr>pi_sources = [sampleSource ''a''], pi_streamError = None, pi_workerCount = 1, pi_newWorker = (\<lambda>_. None),
     pi_extract = (\<lambda>source. if so_Path source = ''a'' then Inr \<lparr>es_projectID = so_ProjectID source, es_language = ''go'',
       es_contribution = emptyContribution (so_Path source)\<rparr> else Inl ''broken''),
     pi_language = (\<lambda>_. Some ''go'')\<rparr>"

lemma samplePipeline_ready: "pipeline_ready samplePipeline"
  by (auto simp: pipeline_ready_def samplePipeline_def sampleSource_def emptyContribution_def split: if_splits)

lemma pipeline_terminates_witness:
  "\<forall>session. \<exists>r. (pstep samplePipeline ^^ 1) (startExtraction samplePipeline session) r \<and> \<not> run_ctxCancelled r \<and> \<not> con_finished r \<and>
     (\<exists>r'. pstep samplePipeline r r' \<and> \<not> run_ctxCancelled r')"
proof
  fix session
  have "pstep samplePipeline (startExtraction samplePipeline session) (startWorker samplePipeline 0 (startExtraction samplePipeline session))"
    by (rule pstep.start_worker) (simp_all add: startExtraction_def samplePipeline_def)
  then have step: "(pstep samplePipeline ^^ 1) (startExtraction samplePipeline session) (startWorker samplePipeline 0 (startExtraction samplePipeline session))"
    by (simp add: eq_OO)
  let ?r = "startWorker samplePipeline 0 (startExtraction samplePipeline session)"
  have "\<not> run_ctxCancelled ?r" "\<not> con_finished ?r" by (simp_all add: startWorker_def startExtraction_def samplePipeline_def)
  then show "\<exists>r. (pstep samplePipeline ^^ 1) (startExtraction samplePipeline session) r \<and> \<not> run_ctxCancelled r \<and> \<not> con_finished r \<and>
      (\<exists>r'. pstep samplePipeline r r' \<and> \<not> run_ctxCancelled r')"
    using pipeline_terminates [OF step] step by auto
qed

text \<open>What the summary counts, whatever the order: every node but those of kind \<^verbatim>\<open>project\<close>, which count once for each ID.\<close>

definition pipelineFacts :: "pipeline_env \<Rightarrow> Facts" where
  "pipelineFacts env =
     (let facts = map (\<lambda>source. c_facts (es_contribution (projr (pi_extract env source)))) (pi_sources env) in
      \<lparr>f_Nodes = concat (map f_Nodes facts), f_Edges = concat (map f_Edges facts)\<rparr>)"

lemma countFacts_totals:
  assumes "distinct (sm_projectNodes summary)"
  shows "distinct (sm_projectNodes (countFacts facts summary))"
    "set (sm_projectNodes (countFacts facts summary)) =
       set (sm_projectNodes summary) \<union> n_ID ` {node \<in> set (f_Nodes facts). n_Kind node = ''project''}"
    "sm_totalNodes (countFacts facts summary) + length (sm_projectNodes summary) =
       sm_totalNodes summary + length (filter (\<lambda>node. n_Kind node \<noteq> ''project'') (f_Nodes facts)) +
       length (sm_projectNodes (countFacts facts summary))"
    "sm_totalEdges (countFacts facts summary) = sm_totalEdges summary + length (f_Edges facts)"
    "sm_completedSources (countFacts facts summary) = sm_completedSources summary"
proof -
  define step where "step = (\<lambda>(node :: Node) (summary :: contributionExtractionSummary).
        if n_Kind node \<noteq> ''project'' then summary\<lparr>sm_totalNodes := sm_totalNodes summary + 1\<rparr>
        else if n_ID node \<in> set (sm_projectNodes summary) then summary
        else summary\<lparr>sm_projectNodes := n_ID node # sm_projectNodes summary, sm_totalNodes := sm_totalNodes summary + 1\<rparr>)"
  have all: "distinct (sm_projectNodes (fold step nodes s)) \<and>
      set (sm_projectNodes (fold step nodes s)) = set (sm_projectNodes s) \<union> n_ID ` {node \<in> set nodes. n_Kind node = ''project''} \<and>
      sm_totalNodes (fold step nodes s) + length (sm_projectNodes s) =
        sm_totalNodes s + length (filter (\<lambda>node. n_Kind node \<noteq> ''project'') nodes) + length (sm_projectNodes (fold step nodes s)) \<and>
      sm_totalEdges (fold step nodes s) = sm_totalEdges s \<and> sm_completedSources (fold step nodes s) = sm_completedSources s"
    if "distinct (sm_projectNodes s)" for nodes and s :: contributionExtractionSummary
    using that
  proof (induction nodes arbitrary: s)
    case (Cons node nodes)
    then have "distinct (sm_projectNodes (step node s))" by (simp add: step_def)
    from Cons.IH [OF this] show ?case by (simp add: step_def) (auto simp: insert_absorb)
  qed simp
  have counted: "countFacts facts summary = (fold step (f_Nodes facts) summary)\<lparr>sm_totalEdges :=
      sm_totalEdges (fold step (f_Nodes facts) summary) + length (f_Edges facts)\<rparr>" by (simp add: countFacts_def step_def Let_def)
  note all = all [OF assms, of "f_Nodes facts"]
  show "distinct (sm_projectNodes (countFacts facts summary))"
    "set (sm_projectNodes (countFacts facts summary)) =
       set (sm_projectNodes summary) \<union> n_ID ` {node \<in> set (f_Nodes facts). n_Kind node = ''project''}"
    "sm_totalNodes (countFacts facts summary) + length (sm_projectNodes summary) =
       sm_totalNodes summary + length (filter (\<lambda>node. n_Kind node \<noteq> ''project'') (f_Nodes facts)) +
       length (sm_projectNodes (countFacts facts summary))"
    "sm_totalEdges (countFacts facts summary) = sm_totalEdges summary + length (f_Edges facts)"
    "sm_completedSources (countFacts facts summary) = sm_completedSources summary"
    using all by (auto simp: counted)
qed

lemma countedSummary_totals:
  fixes env :: pipeline_env and order :: "nat list"
  defines "facts \<equiv> \<lambda>i. c_facts (contributionAt env i)"
  shows "distinct (sm_projectNodes (countedSummary env order)) \<and>
    set (sm_projectNodes (countedSummary env order)) =
      n_ID ` {node \<in> \<Union>i \<in> set order. set (f_Nodes (facts i)). n_Kind node = ''project''} \<and>
    sm_totalNodes (countedSummary env order) =
      sum_list (map (\<lambda>i. length (filter (\<lambda>node. n_Kind node \<noteq> ''project'') (f_Nodes (facts i)))) order) +
      length (sm_projectNodes (countedSummary env order)) \<and>
    sm_totalEdges (countedSummary env order) = sum_list (map (\<lambda>i. length (f_Edges (facts i))) order) \<and>
    sm_completedSources (countedSummary env order) = length order"
proof (induction order rule: rev_induct)
  case (snoc i order)
  define before where "before = (countedSummary env order)\<lparr>sm_completedSources := sm_completedSources (countedSummary env order) + 1\<rparr>"
  have after: "countedSummary env (order @ [i]) = countFacts (facts i) before"
    by (simp add: countedSummary_def before_def facts_def)
  have "distinct (sm_projectNodes before)" using snoc by (simp add: before_def)
  note totals = countFacts_totals [OF this, of "facts i"]
  show ?case
    using snoc totals unfolding after by (auto simp: before_def)
qed (simp add: countedSummary_def)

lemma summary_of_order:
  assumes "mset order = mset [0..<length (pi_sources env)]"
  shows "sm_completedSources (countedSummary env order) = length (pi_sources env)"
    "sm_totalNodes (countedSummary env order) =
       length (filter (\<lambda>node. n_Kind node \<noteq> ''project'') (f_Nodes (pipelineFacts env))) +
       card {n_ID node | node. node \<in> set (f_Nodes (pipelineFacts env)) \<and> n_Kind node = ''project''}"
    "sm_totalEdges (countedSummary env order) = length (f_Edges (pipelineFacts env))"
    "set (sm_projectNodes (countedSummary env order)) =
       {n_ID node | node. node \<in> set (f_Nodes (pipelineFacts env)) \<and> n_Kind node = ''project''}"
proof -
  define facts where "facts = (\<lambda>i. c_facts (contributionAt env i))"
  have members: "set order = {0..<length (pi_sources env)}" using mset_eq_setD [OF assms] by simp
  have total: "sum_list (map f order) = sum_list (map f [0..<length (pi_sources env)])" for f :: "nat \<Rightarrow> nat"
    using assms by (metis mset_map sum_mset_sum_list)
  have listed: "map (\<lambda>source. c_facts (es_contribution (projr (pi_extract env source)))) (pi_sources env) = map facts [0..<length (pi_sources env)]"
    by (rule nth_equalityI) (simp_all add: facts_def contributionAt_def)
  have all: "f_Nodes (pipelineFacts env) = concat (map (\<lambda>i. f_Nodes (facts i)) [0..<length (pi_sources env)])"
    "f_Edges (pipelineFacts env) = concat (map (\<lambda>i. f_Edges (facts i)) [0..<length (pi_sources env)])"
    unfolding pipelineFacts_def listed by (simp_all add: comp_def Let_def)
  have facts_at: "c_facts (contributionAt env i) = facts i" for i by (simp add: facts_def)
  note totals = countedSummary_totals [of env order, unfolded facts_at]
  show projects: "set (sm_projectNodes (countedSummary env order)) =
       {n_ID node | node. node \<in> set (f_Nodes (pipelineFacts env)) \<and> n_Kind node = ''project''}"
    using totals by (auto simp: all members)
  have length_order: "length order = length (pi_sources env)" using mset_eq_length [OF assms] by simp
  then show "sm_completedSources (countedSummary env order) = length (pi_sources env)" using totals by simp
  show "sm_totalNodes (countedSummary env order) =
       length (filter (\<lambda>node. n_Kind node \<noteq> ''project'') (f_Nodes (pipelineFacts env))) +
       card {n_ID node | node. node \<in> set (f_Nodes (pipelineFacts env)) \<and> n_Kind node = ''project''}"
    using totals total distinct_card [of "sm_projectNodes (countedSummary env order)"]
    by (simp add: projects all filter_concat length_concat comp_def)
  show "sm_totalEdges (countedSummary env order) = length (f_Edges (pipelineFacts env))"
    using totals total by (simp add: all length_concat comp_def)
qed


definition sharedProject :: Node where
  "sharedProject = \<lparr>n_ID = ''project:.'', n_Kind = ''project'', n_Label = ''.'', n_QualifiedName = [], n_Evidence = \<lparr>ev_Span = \<lparr>sp_Path = ''a'', sp_StartLine = 1,
     sp_StartColumn = 1, sp_EndLine = 1, sp_EndColumn = 2\<rparr>, ev_FileHash = ''h'', ev_Extractor = ''go@v0'', ev_Provenance = ''p'', ev_Confidence = ConfidenceExtracted\<rparr>\<rparr>"

definition sharedFile :: "str \<Rightarrow> Node" where
  "sharedFile p = sharedProject\<lparr>n_ID := ''file:'' @ p, n_Label := p, n_Kind := ''file''\<rparr>"

definition sharedPipeline :: pipeline_env where
  "sharedPipeline = samplePipeline\<lparr>pi_sources := map sampleSource [''a'', ''b'', ''c''], pi_workerCount := 2,
     pi_extract := (\<lambda>source. Inr \<lparr>es_projectID = so_ProjectID source, es_language = ''go'', es_contribution =
       (emptyContribution (so_Path source))\<lparr>c_facts := \<lparr>f_Nodes = [sharedProject, sharedFile (so_Path source)], f_Edges = []\<rparr>\<rparr>\<rparr>)\<rparr>"

definition brokenPipeline :: pipeline_env where
  "brokenPipeline = samplePipeline\<lparr>pi_sources := [sampleSource ''a'', sampleSource ''b'', sampleSource ''c''], pi_workerCount := 2\<rparr>"


text \<open>Staging and writing share the session without a lock, and its failure closes it before the pipeline is cancelled: the producer may then
  find it closed, and the error it reports hides the error of the write.\<close>

lemma write_error_hidden:
  assumes "run_producer r = Streaming i" "i < length (pi_sources env)" "ss_closed (run_session r)" "con_writeError r = Some e" "\<not> run_ctxCancelled r"
  shows "pstep env r (emitSource env i r)" "pipelineResult (emitSource env i r) = Inl (StagingFailed InvalidRequest)"
  using pstep.emit [OF assms(1,2)] assms(3-5)
  by (simp_all add: emitSource_def Let_def StageSource_def endProduction_def pipelineResult_def canceledError_def)

end
