(* ===== verification/Store_Staged.thy ===== *)
theory Store_Staged
  imports Store_Read
begin

text \<open>
  Reads inside an open transaction (\<^verbatim>\<open>src/storage/sqlite/sqlite.go\<close>): the resolver reads of a sealed contribution
  session, which see the pending version of the staged sources, and the resolver stager of a staged publication, whose
  projection pages are those of the sources put into its temporary table. The first part ends with
  the agreement of what a session reads before its commit with what every reader of the version reads after it.
\<close>

section \<open>Reads of a session\<close>

definition pendingSnapshot :: "session \<Rightarrow> Snapshot" where
  "pendingSnapshot session = \<lparr>sn_Workspace = ss_workspace session, sn_Version = ss_pendingVersion session, sn_PublishedAt = []\<rparr>"

text \<open>The join of the visible files with the staged sources of the pending version.\<close>

definition sessionFiles :: "session \<Rightarrow> (str \<times> str \<times> str \<times> str) list" where
  "sessionFiles session =
     filter (\<lambda>(p, _). stagedSource (ss_db session) (ss_workspace session) (ss_pendingVersion session) p)
       (visibleFiles (ss_db session) (pendingSnapshot session))"

definition SessionProjectionPage ::
  "Snapshot \<Rightarrow> ResolverProjectionPageRequest \<Rightarrow> session \<Rightarrow> storage_error + ResolverProjection list" where
  "SessionProjectionPage snapshot request session =
     (if ss_closed session \<or> \<not> ss_sealed session then Inl InvalidRequest
      else if sn_Workspace snapshot \<noteq> ss_workspace session \<or> pp_ProjectID request = [] \<or> pp_Language request = [] \<or> pp_Limit request \<le> 0
      then Inl InvalidRequest
      else mapE (readProjection (ss_db session) (pendingSnapshot session)) (projectionPageFiles request (sessionFiles session)))"

definition SessionResolverTarget :: "Snapshot \<Rightarrow> ResolverTargetRequest \<Rightarrow> session \<Rightarrow> storage_error + ResolverTarget option" where
  "SessionResolverTarget snapshot request session =
     (if ss_closed session \<or> \<not> ss_sealed session then Inl InvalidRequest
      else if sn_Workspace snapshot \<noteq> ss_workspace session \<or> rt_ProjectID request = [] \<or> rt_Language request = [] \<or> rt_SourcePath request = []
      then Inl InvalidRequest
      else (case find (\<lambda>(p, projectID, name, _). projectID = rt_ProjectID request \<and> name = rt_Language request
                         \<and> p = rt_SourcePath request) (sessionFiles session) of
              None \<Rightarrow> Inr None
            | Some (_, _, name, version) \<Rightarrow>
                bindE (foundTarget (ss_db session) (pendingSnapshot session) request name version) (\<lambda>target. Inr (Some target))))"

definition SessionResolverPackagePage ::
  "Snapshot \<Rightarrow> ResolverPackagePageRequest \<Rightarrow> session \<Rightarrow> storage_error + ResolverTarget list" where
  "SessionResolverPackagePage snapshot request session =
     (if ss_closed session \<or> \<not> ss_sealed session then Inl InvalidRequest
      else if sn_Workspace snapshot \<noteq> ss_workspace session \<or> rp_ProjectID request = [] \<or> rp_Language request = [] \<or> rp_PackagePath request = []
         \<or> rp_Limit request \<le> 0
      then Inl InvalidRequest
      else bindE (mapE (\<lambda>sourcePath. SessionResolverTarget snapshot
                   \<lparr>rt_ProjectID = rp_ProjectID request, rt_Language = rp_Language request, rt_SourcePath = sourcePath\<rparr> session)
                 (packagePagePaths request (sessionFiles session)))
             (\<lambda>targets. Inr (List.map_filter id targets)))"

section \<open>The resolver stager\<close>

record ResolverStageSource =
  rs_ProjectID :: str
  rs_Language :: str
  rs_SourcePath :: str

text \<open>The rows of the temporary table are part of the stager; the transaction is the database the reads are given.\<close>

record resolverStager =
  sg_workspace :: str
  sg_snapshot :: Snapshot
  sg_variableLimit :: int
  sg_created :: bool
  sg_rows :: "(str \<times> str \<times> str) list"

definition stageKey :: "ResolverStageSource \<Rightarrow> str list" where
  "stageKey source = [rs_ProjectID source, rs_Language source, rs_SourcePath source]"

definition stageRow :: "ResolverStageSource \<Rightarrow> str \<times> str \<times> str" where
  "stageRow source = (rs_ProjectID source, rs_Language source, rs_SourcePath source)"

text \<open>The loop over the sorted sources: each is checked, and dropped if it repeats the row before.\<close>

definition stageSourceRow :: "ResolverStageSource \<Rightarrow> (str \<times> str \<times> str) list \<Rightarrow> storage_error + (str \<times> str \<times> str) list" where
  "stageSourceRow source rows =
     (if rs_ProjectID source = [] \<or> rs_Language source = [] \<or> rs_SourcePath source = [] then Inl InvalidRequest
      else if rows \<noteq> [] \<and> last rows = stageRow source then Inr rows
      else Inr (rows @ [stageRow source]))"

definition StageResolverSources :: "ResolverStageSource list \<Rightarrow> resolverStager \<Rightarrow> storage_error + resolverStager" where
  "StageResolverSources sources stager =
     (if sources = [] then Inr stager
      else bindE (foldE stageSourceRow (sort_key stageKey sources) []) (\<lambda>rows.
        let stager = (if sg_created stager then stager else stager\<lparr>sg_created := True, sg_rows := []\<rparr>) in
        bindE (insertRows (sg_variableLimit stager) (int maximumBatchRows) (\<lambda>(project, language, p). [CString project, CString language, CString p])
                 (insertAll id True) rows (sg_rows stager))
          (\<lambda>rows. Inr (stager\<lparr>sg_rows := rows\<rparr>))))"

definition otherSnapshot :: "Snapshot \<Rightarrow> resolverStager \<Rightarrow> bool" where
  "otherSnapshot snapshot stager \<longleftrightarrow>
     sn_Workspace snapshot \<noteq> sn_Workspace (sg_snapshot stager) \<or> sn_Version snapshot \<noteq> sn_Version (sg_snapshot stager) \<or>
     sn_Version (sg_snapshot stager) = 0"

text \<open>A projection page of the stager does not validate the metadata it reads.\<close>

definition stagedProjection :: "database \<Rightarrow> Snapshot \<Rightarrow> str \<times> str \<times> str \<times> str \<Rightarrow> ResolverProjection" where
  "stagedProjection db snapshot file =
     (case file of (sourcePath, projectID, name, version) \<Rightarrow>
       let data = storeResolutionDataForSource db snapshot sourcePath in
       \<lparr>pj_ProjectID = projectID, pj_SourcePath = sourcePath,
        pj_Metadata = \<lparr>md_Name = name, md_Version = version, md_Extensions = rsd_Extensions data\<rparr>,
        pj_Nodes = readContributionNodes db snapshot sourcePath,
        pj_UnresolvedReferences = rsd_UnresolvedReferences data,
        pj_SymbolReferences = rsd_SymbolReferences data, pj_ExportedSurfaces = rsd_ExportedSurfaces data,
        pj_Dependencies = rsd_Dependencies data, pj_Diagnostics = rsd_Diagnostics data\<rparr>)"

definition stagerFiles :: "database \<Rightarrow> resolverStager \<Rightarrow> (str \<times> str \<times> str \<times> str) list" where
  "stagerFiles db stager =
     filter (\<lambda>(p, projectID, name, _). (projectID, name, p) \<in> set (sg_rows stager))
       (visibleFiles db (sg_snapshot stager))"

definition StagerProjectionPage ::
  "database \<Rightarrow> Snapshot \<Rightarrow> ResolverProjectionPageRequest \<Rightarrow> resolverStager \<Rightarrow> storage_error + ResolverProjection list" where
  "StagerProjectionPage db snapshot request stager =
     (if otherSnapshot snapshot stager \<or> pp_ProjectID request = [] \<or> pp_Language request = [] \<or> pp_Limit request \<le> 0 then Inl InvalidRequest
      else if \<not> sg_created stager then Inl InvalidRequest
      else Inr (map (stagedProjection db (sg_snapshot stager)) (projectionPageFiles request (stagerFiles db stager))))"

definition StagerResolverTarget ::
  "database \<Rightarrow> Snapshot \<Rightarrow> ResolverTargetRequest \<Rightarrow> resolverStager \<Rightarrow> storage_error + ResolverTarget option" where
  "StagerResolverTarget db snapshot request stager =
     (if otherSnapshot snapshot stager \<or> rt_ProjectID request = [] \<or> rt_Language request = [] \<or> rt_SourcePath request = []
      then Inl InvalidRequest
      else (case find (\<lambda>(p, projectID, name, _). projectID = rt_ProjectID request \<and> name = rt_Language request
                         \<and> p = rt_SourcePath request) (visibleFiles db (sg_snapshot stager)) of
              None \<Rightarrow> Inr None
            | Some (_, _, name, version) \<Rightarrow>
                bindE (foundTarget db (sg_snapshot stager) request name version) (\<lambda>target. Inr (Some target))))"

definition StagerResolverPackagePage ::
  "database \<Rightarrow> Snapshot \<Rightarrow> ResolverPackagePageRequest \<Rightarrow> resolverStager \<Rightarrow> storage_error + ResolverTarget list" where
  "StagerResolverPackagePage db snapshot request stager =
     (if otherSnapshot snapshot stager \<or> rp_ProjectID request = [] \<or> rp_Language request = [] \<or> rp_PackagePath request = []
         \<or> rp_Limit request \<le> 0
      then Inl InvalidRequest
      else bindE (mapE (\<lambda>sourcePath. StagerResolverTarget db (sg_snapshot stager)
                   \<lparr>rt_ProjectID = rp_ProjectID request, rt_Language = rp_Language request, rt_SourcePath = sourcePath\<rparr> stager)
                 (packagePagePaths request (visibleFiles db (sg_snapshot stager))))
             (\<lambda>targets. Inr (List.map_filter id targets)))"

definition closeStager :: "resolverStager \<Rightarrow> resolverStager" where
  "closeStager stager = (if sg_created stager then stager\<lparr>sg_created := False, sg_rows := []\<rparr> else stager)"

section \<open>Staging\<close>

definition namedSource :: "ResolverStageSource \<Rightarrow> bool" where
  "namedSource source \<longleftrightarrow> rs_ProjectID source \<noteq> [] \<and> rs_Language source \<noteq> [] \<and> rs_SourcePath source \<noteq> []"

lemma stageSourceRows:
  "foldE stageSourceRow sources rows =
     (if list_all namedSource sources
      then Inr (fold (\<lambda>source rows. if rows \<noteq> [] \<and> last rows = stageRow source then rows else rows @ [stageRow source]) sources rows)
      else Inl InvalidRequest)"
  by (induction sources arbitrary: rows) (auto simp: stageSourceRow_def namedSource_def)

lemma set_stageSourceRows:
  "set (fold (\<lambda>source rows. if rows \<noteq> [] \<and> last rows = stageRow source then rows else rows @ [stageRow source]) sources rows) =
     set rows \<union> stageRow ` set sources"
proof (induction sources arbitrary: rows)
  case (Cons source sources)
  have "rows \<noteq> [] \<Longrightarrow> last rows = stageRow source \<Longrightarrow> stageRow source \<in> set rows" by (metis last_in_set)
  then show ?case by (auto simp: Cons.IH)
qed simp

text \<open>Staging fails exactly if a source lacks its project, language or path.\<close>

lemma StageResolverSources_unnamed:
  assumes "\<not> list_all namedSource sources"
  shows "StageResolverSources sources stager = Inl InvalidRequest"
proof -
  have "\<not> list_all namedSource (sort_key stageKey sources)" "sources \<noteq> []" using assms by (auto simp: list_all_iff)
  then show ?thesis by (simp add: StageResolverSources_def stageSourceRows)
qed

lemma StageResolverSources_named:
  assumes "list_all namedSource sources" "sources \<noteq> []" "3 \<le> sg_variableLimit stager" "\<not> sg_created stager"
  shows "\<exists>rows. StageResolverSources sources stager = Inr (stager\<lparr>sg_created := True, sg_rows := rows\<rparr>) \<and> set rows = stageRow ` set sources"
proof -
  let ?cells = "\<lambda>(project, language, p). [CString project, CString language, CString p] :: cell list"
  have named: "list_all namedSource (sort_key stageKey sources)" using assms(1) by (simp add: list_all_iff)
  define rows where "rows = fold (\<lambda>source rows. if rows \<noteq> [] \<and> last rows = stageRow source then rows else rows @ [stageRow source])
      (sort_key stageKey sources) []"
  have set_rows: "set rows = stageRow ` set sources" by (simp add: rows_def set_stageSourceRows)
  have "insertRows (sg_variableLimit stager) (int maximumBatchRows) ?cells (insertAll id True) rows [] = insertAll id True rows []"
    by (rule insertRows_exec [where w = 3]) (use assms(3) in \<open>auto simp: insertAll_append insertAll_ignore maximumBatchRows_def split: prod.splits\<close>)
  then have "StageResolverSources sources stager = Inr (stager\<lparr>sg_created := True, sg_rows := fresh_rows id rows {}\<rparr>)"
    using assms(2,4) named by (simp add: StageResolverSources_def stageSourceRows rows_def [symmetric] insertAll_ignore Let_def)
  moreover have "set (fresh_rows id rows {}) = set rows" using fresh_rows_keys [of id rows "{}"] by simp
  ultimately show ?thesis using set_rows by blast
qed

section \<open>What a session reads is what is committed\<close>

text \<open>Reads of a source depend only on the rows of that source.\<close>

lemma filter_path: "filter (\<lambda>(p, _). p = q) (filter (\<lambda>(p, _). P p) xs) = (if P q then filter (\<lambda>(p, _). p = q) xs else [])"
  by (induction xs) auto

lemma source_reads_cong:
  assumes "\<And>t. sourceRows db' t s' p = sourceRows db t s p"
  shows "storeResolutionDataForSource db' s' p = storeResolutionDataForSource db s p"
    "readContributionNodes db' s' p = readContributionNodes db s p"
proof -
  have "readModuleBindings db' s' p r = readModuleBindings db s p r" for r by (simp add: readModuleBindings_def assms)
  then have "readUnresolvedReferences db' s' p = readUnresolvedReferences db s p" by (simp add: readUnresolvedReferences_def assms)
  then show "storeResolutionDataForSource db' s' p = storeResolutionDataForSource db s p"
    by (simp add: storeResolutionDataForSource_def assms readSymbolReferences_def readContributionDiagnostics_def)
  show "readContributionNodes db' s' p = readContributionNodes db s p" by (simp add: readContributionNodes_def assms)
qed

lemma files_filter:
  "concat (map file_of (filter (\<lambda>(p, _). P p) xs)) = filter (\<lambda>(p, _). P p) (concat (map file_of xs))"
proof (induction xs)
  case (Cons x xs)
  obtain p row where "x = (p, row)" by (cases x)
  then show ?case using Cons by (cases row) auto
qed simp

text \<open>Two databases of which one shows the part of the other that lies under \<open>P\<close>.\<close>

lemma restricted_reads:
  assumes rows: "\<And>t. contents db' t (sn_Workspace s') (sn_Version s') = filter (\<lambda>(p, _). P p) (contents db t (sn_Workspace s) (sn_Version s))"
  shows "visibleFiles db' s' = filter (\<lambda>(p, _). P p) (visibleFiles db s)"
    "P p \<Longrightarrow> storeResolutionDataForSource db' s' p = storeResolutionDataForSource db s p"
    "P p \<Longrightarrow> readContributionNodes db' s' p = readContributionNodes db s p"
proof -
  have "P = (\<lambda>p. P p)" by simp
  show "visibleFiles db' s' = filter (\<lambda>(p, _). P p) (visibleFiles db s)"
    unfolding visibleFiles_def rows files_filter by (simp add: filter_sort)
  have "sourceRows db' t s' p = sourceRows db t s p" if "P p" for t
    unfolding sourceRows_def rows filter_path using that by simp
  then show "P p \<Longrightarrow> storeResolutionDataForSource db' s' p = storeResolutionDataForSource db s p"
    "P p \<Longrightarrow> readContributionNodes db' s' p = readContributionNodes db s p"
    using source_reads_cong [of db' s' p db s] by auto
qed

lemma in_projectionPage: "f \<in> set (projectionPageFiles request files) \<Longrightarrow> f \<in> set files"
  by (auto simp: projectionPageFiles_def dest!: in_set_takeD)

lemma restricted_session_reads:
  assumes rows: "\<And>t. contents db' t (sn_Workspace s) (sn_Version s) = filter (\<lambda>(p, _). P p)
      (contents (ss_db session) t (ss_workspace session) (ss_pendingVersion session))"
    and P: "P = stagedSource (ss_db session) (ss_workspace session) (ss_pendingVersion session)"
    and session: "\<not> ss_closed session" "ss_sealed session" "\<not> noSnapshot s" "sn_Workspace s = ss_workspace session"
  shows "SessionProjectionPage s request session = ResolverProjectionPage s request db'"
    "SessionResolverTarget s target session = StoreResolverTarget s target db'"
    "SessionResolverPackagePage s package session = StoreResolverPackagePage s package db'"
proof -
  have contents: "contents db' t (sn_Workspace s) (sn_Version s) = filter (\<lambda>(p, _). P p)
      (contents (ss_db session) t (sn_Workspace (pendingSnapshot session)) (sn_Version (pendingSnapshot session)))" for t
    by (simp add: rows pendingSnapshot_def)
  note reads = restricted_reads [OF contents]
  have files: "visibleFiles db' s = sessionFiles session" by (simp add: reads(1) sessionFiles_def P)
  have staged: "P (fst f)" if "f \<in> set (sessionFiles session)" for f
    using that by (auto simp: sessionFiles_def P)
  have "mapE (readProjection (ss_db session) (pendingSnapshot session)) (projectionPageFiles request (sessionFiles session)) =
      mapE (readProjection db' s) (projectionPageFiles request (sessionFiles session))"
  proof (rule mapE_cong)
    fix f assume "f \<in> set (projectionPageFiles request (sessionFiles session))"
    then have "P (fst f)" using staged in_projectionPage by blast
    then show "readProjection (ss_db session) (pendingSnapshot session) f = readProjection db' s f"
      by (cases f) (simp add: readProjection_def reads(2,3))
  qed
  then show "SessionProjectionPage s request session = ResolverProjectionPage s request db'"
    using session by (simp add: SessionProjectionPage_def ResolverProjectionPage_def files)
  show target: "SessionResolverTarget s target session = StoreResolverTarget s target db'" for target
  proof (cases "find (\<lambda>(p, projectID, name, _). projectID = rt_ProjectID target \<and> name = rt_Language target
      \<and> p = rt_SourcePath target) (sessionFiles session)")
    case None
    then show ?thesis using session by (simp add: SessionResolverTarget_def StoreResolverTarget_def files)
  next
    case (Some f)
    then have "f \<in> set (sessionFiles session)" "fst f = rt_SourcePath target"
      unfolding find_Some_iff by (metis nth_mem, fastforce)
    then have "P (rt_SourcePath target)" using staged by metis
    then have "foundTarget (ss_db session) (pendingSnapshot session) target name version = foundTarget db' s target name version" for name version
      by (simp add: foundTarget_def reads(2,3))
    then show ?thesis using Some session by (simp add: SessionResolverTarget_def StoreResolverTarget_def files)
  qed
  show "SessionResolverPackagePage s package session = StoreResolverPackagePage s package db'"
    using session by (simp add: SessionResolverPackagePage_def StoreResolverPackagePage_def files target)
qed

text \<open>The contents of a sealed session, restricted to the staged sources, are those it commits.\<close>

lemma sealed_contents:
  fixes ws :: str
  assumes wf: "wf_db base" and subset: "c_sourcePath ` set written \<subseteq> set staged"
  defines "X \<equiv> base\<lparr>db_tables := writtenTables base ws written, db_staged := stagedRows base ws staged written\<rparr>"
    and "v \<equiv> currentVersion base ws + 1"
  shows "filter (\<lambda>(p, _). stagedSource X ws v p) (contents X t ws v) =
    filter (\<lambda>(p, _). p \<in> set staged \<and> p \<notin> c_sourcePath ` set written) (contents base t ws (currentVersion base ws)) @
    concat (map (\<lambda>c. map (Pair (c_sourcePath c)) (stored_payloads c t)) written)"
proof -
  let ?new = "concat (map (\<lambda>c. map (Pair (c_sourcePath c)) (stored_payloads c t)) written)"
  have staged: "stagedSource X ws v p \<longleftrightarrow> p \<in> set staged" for p
    unfolding v_def by (rule stagedSource_staged) (simp add: X_def)
  have "contents X t ws v = contents (publishedWith (c_sourcePath ` set written) env (sessionRequest ws written facts) base) t ws v" for env facts
    by (simp add: X_def contents_def visible_rows_def publishedWith_def Let_def sessionRequest_def writtenTables_def)
  then have "contents X t ws v = updated_contents (c_sourcePath ` set written) written (contents base t ws (currentVersion base ws)) t"
    using contents_published [OF wf, of "c_sourcePath ` set written" _ "sessionRequest ws written undefined" t]
    by (simp add: sessionRequest_def v_def)
  moreover have "filter (\<lambda>(p, _). p \<in> set staged) ?new = ?new"
    using subset by (induction written) (auto intro: filter_True)
  ultimately show ?thesis
    by (simp add: staged updated_contents_def conj_commute case_prod_unfold)
qed

text \<open>A sealed session lists each of its files once, and only staged ones.\<close>

lemma sealed_listing:
  assumes wf: "wf_db base" and inv: "session_inv base ws staged written s" and seal: "SealContributions s = (Inr (), sealed)"
  shows "\<not> ss_closed sealed" "ss_sealed sealed" "ss_workspace sealed = ws" "distinct (map fst (sessionFiles sealed))"
    "fst ` set (sessionFiles sealed) \<subseteq> set staged"
proof -
  note i = inv [unfolded session_inv_def]
  let ?X = "base\<lparr>db_tables := writtenTables base ws written, db_staged := stagedRows base ws staged written\<rparr>"
  obtain b where "stepE SealContributions s = Inr (s\<lparr>ss_batch := b, ss_db := ?X, ss_sealed := True\<rparr>)"
    using SealContributions_eq [OF inv] by blast
  with seal have sealed: "sealed = s\<lparr>ss_batch := b, ss_db := ?X, ss_sealed := True\<rparr>" by (simp add: stepE_def)
  then show "\<not> ss_closed sealed" "ss_sealed sealed" "ss_workspace sealed = ws" using i by simp_all
  let ?D = "publishedWith (c_sourcePath ` set written) undefined (sessionRequest ws written undefined) base"
  have "visibleFiles ?X snapshot = visibleFiles ?D snapshot" if "sn_Workspace snapshot = ws" for snapshot
    by (simp add: visibleFiles_def contents_def visible_rows_def publishedWith_def Let_def sessionRequest_def writtenTables_def)
  moreover have "wf_db ?D" using i by (intro wf_published [OF wf]) (auto simp: sessionRequest_def)
  ultimately have "distinct (map fst (visibleFiles ?X (pendingSnapshot sealed)))"
    using distinct_visibleFiles sealed i by (simp add: pendingSnapshot_def)
  then show "distinct (map fst (sessionFiles sealed))"
    unfolding sessionFiles_def sealed by (intro distinct_map_filterI) simp
  have "stagedSource ?X ws (currentVersion base ws + 1) p \<longleftrightarrow> p \<in> set staged" for p
    by (rule stagedSource_staged) simp
  then show "fst ` set (sessionFiles sealed) \<subseteq> set staged"
    using i by (auto simp: sessionFiles_def sealed)
qed

section \<open>Properties\<close>



end
