(* ===== verification/Registry.thy ===== *)
theory Registry
  imports Contracts Discovery
begin

text \<open>
  The extractor registry (\<^verbatim>\<open>src/extractors/registry/registry.go\<close>) over the three extractors the program
  ships: \<^verbatim>\<open>Metadata\<close> and \<^verbatim>\<open>Vocabulary\<close> of \<^verbatim>\<open>src/extractors/go/go.go\<close>, \<^verbatim>\<open>javascript/javascript.go\<close> and
  \<^verbatim>\<open>typescript/typescript.go\<close>. The lemmas characterise \<^verbatim>\<open>New\<close>, show that the default registry exists, and
  compare the files it serves with those the workspace discovery offers.
\<close>

section \<open>The registry\<close>

record Extractor =
  ex_Metadata :: Metadata
  ex_Vocabulary :: "contract_error + Vocabulary"

record Registry =
  rg_byExtension :: "str \<rightharpoonup> Extractor"
  rg_extractors :: "Extractor list"

datatype registry_error =
    ExtractorNil
  | RegistryMetadata metadata_error
  | RegistryVocabulary str contract_error
  | ExtensionConflict str str str

definition registerExtension :: "Extractor \<Rightarrow> str \<Rightarrow> (str \<rightharpoonup> Extractor) \<Rightarrow> registry_error + (str \<rightharpoonup> Extractor)" where
  "registerExtension registered extension byExtension =
     (let normalized = normalizeExtension extension in
      case byExtension normalized of
        Some current \<Rightarrow> Inl (ExtensionConflict normalized (md_Name (ex_Metadata current)) (md_Name (ex_Metadata registered)))
      | None \<Rightarrow> Inr (byExtension(normalized \<mapsto> registered)))"

text \<open>The body of the loop over the extractors; a nil interface is \<open>None\<close>.\<close>

definition registerExtractor :: "Extractor option \<Rightarrow> Registry \<Rightarrow> registry_error + Registry" where
  "registerExtractor extractor registry =
     (case extractor of
        None \<Rightarrow> Inl ExtractorNil
      | Some registered \<Rightarrow>
          let metadata = ex_Metadata registered in
          bindE (liftE RegistryMetadata (MetadataValidate metadata)) (\<lambda>_.
          bindE (liftE (RegistryVocabulary (md_Name metadata)) (ex_Vocabulary registered)) (\<lambda>_.
          bindE (foldE (registerExtension registered) (md_Extensions metadata) (rg_byExtension registry)) (\<lambda>byExtension.
          Inr (registry\<lparr>rg_byExtension := byExtension, rg_extractors := rg_extractors registry @ [registered]\<rparr>)))))"

definition NewRegistry :: "Extractor option list \<Rightarrow> registry_error + Registry" where
  "NewRegistry extractors = foldE registerExtractor extractors \<lparr>rg_byExtension = Map.empty, rg_extractors = []\<rparr>"

definition ForPath :: "Registry \<Rightarrow> str \<Rightarrow> Extractor option" where
  "ForPath registry path = rg_byExtension registry (Extension path)"

section \<open>The shipped extractors\<close>

definition goExtractor :: Extractor where
  "goExtractor =
     \<lparr>ex_Metadata = \<lparr>md_Name = ''go'', md_Version = ''v0'', md_Extensions = [''.go'']\<rparr>,
      ex_Vocabulary = NewLanguageVocabulary ''go''
        [''go:package'', ''go:type'', ''go:function'', ''go:method'', ''go:variable'']\<rparr>"

definition javascriptExtractor :: Extractor where
  "javascriptExtractor =
     \<lparr>ex_Metadata = \<lparr>md_Name = ''javascript'', md_Version = ''v0'', md_Extensions = [''.js'', ''.jsx'', ''.mjs'', ''.cjs'']\<rparr>,
      ex_Vocabulary = NewLanguageVocabulary ''javascript''
        [''javascript:class'', ''javascript:function'', ''javascript:method'', ''javascript:variable'']\<rparr>"

definition typescriptExtractor :: Extractor where
  "typescriptExtractor =
     \<lparr>ex_Metadata = \<lparr>md_Name = ''typescript'', md_Version = ''v0'', md_Extensions = [''.ts'', ''.tsx'', ''.mts'', ''.cts'']\<rparr>,
      ex_Vocabulary = NewLanguageVocabulary ''typescript''
        [''typescript:class'', ''typescript:function'', ''typescript:method'', ''typescript:interface'',
         ''typescript:type_alias'', ''typescript:variable'']\<rparr>"

definition DefaultRegistry :: "registry_error + Registry" where
  "DefaultRegistry = NewRegistry [Some goExtractor, Some javascriptExtractor, Some typescriptExtractor]"

section \<open>Registration\<close>

text \<open>The extensions an extractor claims, with the extractor.\<close>

definition claims :: "Extractor \<Rightarrow> (str \<times> Extractor) list" where
  "claims x = map (\<lambda>e. (normalizeExtension e, x)) (md_Extensions (ex_Metadata x))"

definition extractor_ok :: "Extractor \<Rightarrow> bool" where
  "extractor_ok x \<longleftrightarrow> metadata_ok (ex_Metadata x) \<and> \<not> isl (ex_Vocabulary x)"

lemma map_fst_claims: "map fst (claims x) = map normalizeExtension (md_Extensions (ex_Metadata x))"
  by (simp add: claims_def comp_def)

lemma registerExtensions_eq:
  "foldE (registerExtension x) es m = Inr m' \<longleftrightarrow>
     distinct (map normalizeExtension es) \<and> normalizeExtension ` set es \<inter> dom m = {} \<and>
     m' = m ++ map_of (map (\<lambda>e. (normalizeExtension e, x)) es)"
proof (induction es arbitrary: m)
  case (Cons e es)
  let ?n = "normalizeExtension e" and ?rest = "map (\<lambda>e. (normalizeExtension e, x)) es"
  show ?case
  proof (cases "m ?n")
    case None
    then have "foldE (registerExtension x) (e # es) m = foldE (registerExtension x) es (m(?n \<mapsto> x))"
      by (simp add: registerExtension_def Let_def)
    then have step: "foldE (registerExtension x) (e # es) m = Inr m' \<longleftrightarrow>
        distinct (map normalizeExtension es) \<and> normalizeExtension ` set es \<inter> dom (m(?n \<mapsto> x)) = {} \<and> m' = m(?n \<mapsto> x) ++ map_of ?rest"
      by (simp only: Cons.IH)
    define M where "M = map_of (map (\<lambda>e. (normalizeExtension e, x)) (e # es))"
    have "m ++ M = m(?n \<mapsto> x) ++ map_of ?rest" if "?n \<notin> normalizeExtension ` set es"
      unfolding M_def list.map using that by (intro map_add_upd_fresh) (auto simp: image_iff)
    moreover have "?n \<notin> dom m" using None by auto
    ultimately show ?thesis
      unfolding step M_def [symmetric] by (cases "?n \<in> normalizeExtension ` set es") auto
  next
    case (Some y)
    then have "?n \<in> dom m" by blast
    with Some show ?thesis by (auto simp: registerExtension_def Let_def)
  qed
qed auto

lemma liftE_simps [simp]: "liftE w (Inl e) = Inl (w e)" "liftE w (Inr x) = Inr x"
  by (simp_all add: liftE_def)

definition owned :: "Extractor list \<Rightarrow> str set" where
  "owned ys = fst ` set (concat (map claims ys))"

lemma owned_simps [simp]: "owned [] = {}" "owned (y # ys) = fst ` set (claims y) \<union> owned ys"
  by (auto simp: owned_def)

lemma dom_claims: "dom (map_of (concat (map claims ys))) = owned ys" "dom (map_of (claims y)) = fst ` set (claims y)"
  by (simp_all add: owned_def dom_map_of_conv_image_fst)

lemma registerExtractor_eq:
  "registerExtractor x reg = Inr reg' \<longleftrightarrow>
     (\<exists>y. x = Some y \<and> extractor_ok y \<and> fst ` set (claims y) \<inter> dom (rg_byExtension reg) = {} \<and>
        reg' = reg\<lparr>rg_byExtension := rg_byExtension reg ++ map_of (claims y), rg_extractors := rg_extractors reg @ [y]\<rparr>)"
proof (cases x)
  case (Some y)
  have paths: "fst ` set (claims y) = normalizeExtension ` set (md_Extensions (ex_Metadata y))"
    by (auto simp: claims_def image_iff)
  show ?thesis
  proof (cases "MetadataValidate (ex_Metadata y)")
    case (Inl e)
    then have "\<not> metadata_ok (ex_Metadata y)" by (metis MetadataValidate_iff sum.distinct(1))
    with Some Inl show ?thesis by (simp add: registerExtractor_def extractor_ok_def Let_def)
  next
    case (Inr u)
    then have ok: "metadata_ok (ex_Metadata y)" by simp
    have valid: "liftE RegistryMetadata (MetadataValidate (ex_Metadata y)) = Inr ()" unfolding Inr by simp
    have "distinct (map normalizeExtension (md_Extensions (ex_Metadata y)))" using ok by (simp add: metadata_ok_def)
    with Some ok paths show ?thesis
      by (cases "ex_Vocabulary y")
        (auto simp: registerExtractor_def valid extractor_ok_def Let_def registerExtensions_eq claims_def)
  qed
qed (simp add: registerExtractor_def)

text \<open>What a list of extractors must satisfy, and the registry it becomes.\<close>

definition registrable :: "Extractor list \<Rightarrow> bool" where
  "registrable ys \<longleftrightarrow> (\<forall>y \<in> set ys. extractor_ok y) \<and> distinct (map fst (concat (map claims ys)))"

lemma registrable_Cons:
  "registrable (y # ys) \<longleftrightarrow> extractor_ok y \<and> registrable ys \<and> fst ` set (claims y) \<inter> owned ys = {}"
proof -
  have "extractor_ok y \<Longrightarrow> distinct (map fst (claims y))"
    by (simp add: map_fst_claims extractor_ok_def metadata_ok_def)
  then show ?thesis by (auto simp: registrable_def owned_def)
qed

lemma registerExtractors_eq:
  "foldE registerExtractor (map Some ys) reg = Inr reg' \<longleftrightarrow>
     registrable ys \<and> owned ys \<inter> dom (rg_byExtension reg) = {} \<and>
     reg' = reg\<lparr>rg_byExtension := rg_byExtension reg ++ map_of (concat (map claims ys)),
                rg_extractors := rg_extractors reg @ ys\<rparr>"
proof (induction ys arbitrary: reg)
  case Nil
  show ?case by (auto simp: registrable_def)
next
  case (Cons y ys)
  let ?reg1 = "reg\<lparr>rg_byExtension := rg_byExtension reg ++ map_of (claims y), rg_extractors := rg_extractors reg @ [y]\<rparr>"
  have swap: "m ++ map_of (claims y) ++ map_of (concat (map claims ys)) = m ++ map_of (concat (map claims (y # ys)))"
    if "fst ` set (claims y) \<inter> owned ys = {}" for m
  proof -
    have "map_of (claims y) ++ map_of (concat (map claims ys)) = map_of (concat (map claims ys)) ++ map_of (claims y)"
      using that by (intro map_add_comm) (simp add: dom_claims)
    from arg_cong [OF this, of "\<lambda>x. m ++ x"] show ?thesis by simp
  qed
  have "foldE registerExtractor (map Some (y # ys)) reg = Inr reg' \<longleftrightarrow>
      extractor_ok y \<and> fst ` set (claims y) \<inter> dom (rg_byExtension reg) = {} \<and>
      foldE registerExtractor (map Some ys) ?reg1 = Inr reg'"
    by (auto simp: registerExtractor_eq)
  also have "\<dots> \<longleftrightarrow> registrable (y # ys) \<and> owned (y # ys) \<inter> dom (rg_byExtension reg) = {} \<and>
      reg' = reg\<lparr>rg_byExtension := rg_byExtension reg ++ map_of (concat (map claims (y # ys))), rg_extractors := rg_extractors reg @ y # ys\<rparr>"
  proof (cases "fst ` set (claims y) \<inter> owned ys = {}")
    case True
    have "owned ys \<inter> dom (rg_byExtension ?reg1) = {} \<longleftrightarrow> owned ys \<inter> dom (rg_byExtension reg) = {}"
      using True by (auto simp: dom_claims)
    moreover have "?reg1\<lparr>rg_byExtension := rg_byExtension ?reg1 ++ map_of (concat (map claims ys)), rg_extractors := rg_extractors ?reg1 @ ys\<rparr> =
        reg\<lparr>rg_byExtension := rg_byExtension reg ++ map_of (concat (map claims (y # ys))), rg_extractors := rg_extractors reg @ y # ys\<rparr>"
      using swap [OF True] by simp
    ultimately show ?thesis
      using True unfolding Cons.IH registrable_Cons owned_simps by (auto simp: Int_Un_distrib2)
  next
    case False
    then have "\<not> owned ys \<inter> dom (rg_byExtension ?reg1) = {}" by (auto simp: dom_claims)
    with False show ?thesis unfolding Cons.IH registrable_Cons by blast
  qed
  finally show ?case .
qed

lemma registerExtractors_nil: "None \<in> set xs \<Longrightarrow> \<not> foldE registerExtractor xs reg = Inr reg'"
  by (induction xs arbitrary: reg) (auto simp: registerExtractor_eq)

lemma NewRegistry_eq:
  "NewRegistry xs = Inr registry \<longleftrightarrow>
     (\<exists>ys. xs = map Some ys \<and> registrable ys \<and>
        registry = \<lparr>rg_byExtension = map_of (concat (map claims ys)), rg_extractors = ys\<rparr>)"
proof (cases "None \<in> set xs")
  case True
  then show ?thesis using registerExtractors_nil by (auto simp: NewRegistry_def)
next
  case False
  then have "\<forall>x \<in> set xs. x = Some (the x)" by (metis option.exhaust_sel)
  then obtain ys where ys: "xs = map Some ys" by (metis list.map_comp map_idI comp_apply)
  have inj: "map Some zs = map Some ys \<longleftrightarrow> zs = ys" for zs :: "Extractor list"
    by (rule inj_map_eq_map) simp
  show ?thesis
    unfolding NewRegistry_def ys registerExtractors_eq by (auto simp: inj)
qed

section \<open>The default registry\<close>

lemma shipped_ok: "extractor_ok goExtractor" "extractor_ok javascriptExtractor" "extractor_ok typescriptExtractor"
  by code_simp+

lemma shipped_claims:
  "claims goExtractor = [(''.go'', goExtractor)]"
  "claims javascriptExtractor = map (\<lambda>e. (e, javascriptExtractor)) [''.js'', ''.jsx'', ''.mjs'', ''.cjs'']"
  "claims typescriptExtractor = map (\<lambda>e. (e, typescriptExtractor)) [''.ts'', ''.tsx'', ''.mts'', ''.cts'']"
proof -
  have id: "normalizeExtension e = e" if "e \<in> {''.go'', ''.js'', ''.jsx'', ''.mjs'', ''.cjs'', ''.ts'', ''.tsx'', ''.mts'', ''.cts''}" for e
    using that by (elim insertE emptyE) (simp_all, code_simp+)
  show "claims goExtractor = [(''.go'', goExtractor)]" by (simp add: claims_def id) (simp add: goExtractor_def id)
  show "claims javascriptExtractor = map (\<lambda>e. (e, javascriptExtractor)) [''.js'', ''.jsx'', ''.mjs'', ''.cjs'']"
    unfolding claims_def by (simp add: id) (simp add: javascriptExtractor_def id)
  show "claims typescriptExtractor = map (\<lambda>e. (e, typescriptExtractor)) [''.ts'', ''.tsx'', ''.mts'', ''.cts'']"
    unfolding claims_def by (simp add: id) (simp add: typescriptExtractor_def id)
qed

definition shippedClaims :: "(str \<times> Extractor) list" where
  "shippedClaims = [(''.go'', goExtractor), (''.js'', javascriptExtractor), (''.jsx'', javascriptExtractor),
     (''.mjs'', javascriptExtractor), (''.cjs'', javascriptExtractor), (''.ts'', typescriptExtractor),
     (''.tsx'', typescriptExtractor), (''.mts'', typescriptExtractor), (''.cts'', typescriptExtractor)]"

lemma DefaultRegistry_eq:
  "DefaultRegistry = Inr \<lparr>rg_byExtension = map_of shippedClaims,
     rg_extractors = [goExtractor, javascriptExtractor, typescriptExtractor]\<rparr>"
proof -
  let ?shipped = "[goExtractor, javascriptExtractor, typescriptExtractor]"
  have "concat (map claims ?shipped) = shippedClaims" by (simp add: shipped_claims shippedClaims_def)
  moreover have "registrable ?shipped"
    unfolding registrable_def using shipped_ok by (simp add: shipped_claims)
  ultimately show ?thesis
    unfolding DefaultRegistry_def NewRegistry_eq by (intro exI [of _ ?shipped]) simp
qed

lemma TrimSpace_id:
  assumes "\<forall>c \<in> set s. \<not> space_char c"
  shows "TrimSpace s = s"
proof -
  have drop: "dropWhile space_char t = t" if "\<forall>c \<in> set t. \<not> space_char c" for t using that by (cases t) auto
  show ?thesis using assms drop [of s] drop [of "rev s"] by (simp add: TrimSpace_def)
qed

lemma lower_space: "space_char c \<Longrightarrow> lower_char c = c"
  by (simp add: space_char_def lower_char_def Let_def) linarith

text \<open>Discovery compares lower-cased extensions, the registry lower-cased and trimmed ones.\<close>

lemma supported_extension:
  assumes "supportedSource p"
  shows "Extension p \<in> {''.go'', ''.js'', ''.jsx'', ''.ts'', ''.tsx''}"
proof -
  have lower: "ToLower (Ext p) \<in> {''.go'', ''.js'', ''.jsx'', ''.ts'', ''.tsx''}" using assms by (simp add: supportedSource_def)
  then have plain: "list_all (\<lambda>c. \<not> space_char c) (ToLower (Ext p))"
    by (elim insertE emptyE) (simp_all, code_simp+)
  have "\<not> space_char c" if "c \<in> set (Ext p)" for c
  proof
    assume "space_char c"
    then have "space_char (lower_char c)" by (simp add: lower_space)
    with that plain show False by (auto simp: ToLower_def list_all_iff)
  qed
  then have "TrimSpace (Ext p) = Ext p" by (simp add: TrimSpace_id)
  moreover have "normalizeExtension s = ToLower s" if "ToLower (TrimSpace s) \<in> {''.go'', ''.js'', ''.jsx'', ''.ts'', ''.tsx''}" "TrimSpace s = s" for s
    using that by (auto simp: normalizeExtension_def HasPrefix_def Let_def)
  ultimately show ?thesis using lower by (simp add: Extension_def)
qed

lemma supported_registered:
  assumes "DefaultRegistry = Inr registry" "supportedSource p"
  shows "\<exists>x. ForPath registry p = Some x \<and> x \<in> {goExtractor, javascriptExtractor, typescriptExtractor}"
  using supported_extension [OF assms(2)] assms(1)
  by (auto simp: DefaultRegistry_eq ForPath_def shippedClaims_def)

lemma sourceOf_supported: "sourceOf matcher rules roots p = Some source \<Longrightarrow> supportedSource (so_Path source)"
  by (auto simp: sourceOf_def split: if_splits)

lemma in_sourcesOf: "source \<in> set (sourcesOf f ps) \<Longrightarrow> \<exists>p. f p = Some source"
  by (induction ps) (auto split: option.splits)

section \<open>Properties\<close>

text \<open>C1. A registry exists exactly if no extractor is nil, every extractor's metadata and vocabulary are valid and no
  extension, spaces and case aside, is claimed twice; it then serves a file with the
  extractor that claims its extension, and lists the extractors in their order.\<close>

theorem NewRegistry_iff:
  "NewRegistry extractors = Inr registry \<longleftrightarrow>
     (\<exists>xs. extractors = map Some xs \<and> (\<forall>x \<in> set xs. metadata_ok (ex_Metadata x) \<and> (\<exists>v. ex_Vocabulary x = Inr v)) \<and>
        distinct (concat (map (\<lambda>x. map normalizeExtension (md_Extensions (ex_Metadata x))) xs)) \<and>
        rg_extractors registry = xs \<and>
        (\<forall>p x. ForPath registry p = Some x \<longrightarrow> Extension p \<in> normalizeExtension ` set (md_Extensions (ex_Metadata x))) \<and>
        rg_byExtension registry = map_of (concat (map claims xs)))"
  (is "_ \<longleftrightarrow> (\<exists>xs. ?R xs)")
proof -
  have "(\<exists>ys. extractors = map Some ys \<and> registrable ys \<and> registry = \<lparr>rg_byExtension = map_of (concat (map claims ys)), rg_extractors = ys\<rparr>) \<longleftrightarrow>
      (\<exists>ys. ?R ys)"
  proof (rule ex_cong1)
    fix ys
    have keys: "map fst (concat (map claims ys)) = concat (map (\<lambda>x. map normalizeExtension (md_Extensions (ex_Metadata x))) ys)"
      by (induction ys) (simp_all add: map_fst_claims)
    have ok: "extractor_ok x \<longleftrightarrow> metadata_ok (ex_Metadata x) \<and> (\<exists>v. ex_Vocabulary x = Inr v)" for x
      by (cases "ex_Vocabulary x") (auto simp: extractor_ok_def)
    have serves: "Extension p \<in> normalizeExtension ` set (md_Extensions (ex_Metadata x))"
      if "map_of (concat (map claims ys)) (Extension p) = Some x" for p x
      using map_of_SomeD [OF that] by (auto simp: claims_def)
    show "extractors = map Some ys \<and> registrable ys \<and> registry = \<lparr>rg_byExtension = map_of (concat (map claims ys)), rg_extractors = ys\<rparr> \<longleftrightarrow> ?R ys"
      using serves by (cases registry) (auto simp: registrable_def keys ok ForPath_def)
  qed
  then show ?thesis unfolding NewRegistry_eq .
qed

text \<open>C2. The default registry exists, and every source the workspace discovery lists has a registered extractor, so that
  neither an initial indexing nor a batch fails for want of one.\<close>

theorem discovered_sources_registered:
  assumes "Discover matcher cwd tree root configuredRoots = Inr d" "source \<in> set (di_Sources d)"
  shows "\<exists>registry x v. DefaultRegistry = Inr registry \<and> ForPath registry (so_Path source) = Some x \<and> ex_Vocabulary x = Inr v \<and>
    x \<in> {goExtractor, javascriptExtractor, typescriptExtractor}"
proof -
  from assms(1) obtain rules roots where "di_Sources d = sourcesOf (sourceOf matcher rules roots) (workspaceFiles tree)"
    by (rule Discover_Inr)
  then have "supportedSource (so_Path source)"
    using assms(2) by (auto dest!: in_sourcesOf sourceOf_supported)
  from supported_registered [OF DefaultRegistry_eq this] obtain x where
    x: "ForPath \<lparr>rg_byExtension = map_of shippedClaims, rg_extractors = [goExtractor, javascriptExtractor, typescriptExtractor]\<rparr>
      (so_Path source) = Some x" "x \<in> {goExtractor, javascriptExtractor, typescriptExtractor}" by blast
  have "\<not> isl (ex_Vocabulary x)" using x(2) shipped_ok by (auto simp: extractor_ok_def)
  then have "\<exists>v. ex_Vocabulary x = Inr v" by (cases "ex_Vocabulary x") auto
  with x DefaultRegistry_eq show ?thesis by blast
qed

lemma discovered_sources_registered_witness:
  "\<exists>registry x v. DefaultRegistry = Inr registry \<and> ForPath registry ''web/main.ts'' = Some x \<and> ex_Vocabulary x = Inr v \<and>
    x \<in> {goExtractor, javascriptExtractor, typescriptExtractor}"
  using discovered_sources_registered [OF Discover_example, of "\<lparr>so_Path = ''web/main.ts'', so_ProjectID = ''project:web''\<rparr>"]
  by simp

text \<open>The converse fails: the registry serves module files that discovery never lists.\<close>

lemma undiscovered_modules:
  "\<forall>registry. DefaultRegistry = Inr registry \<longrightarrow>
     ForPath registry ''lib/util.mjs'' = Some javascriptExtractor \<and> ForPath registry ''lib/util.mts'' = Some typescriptExtractor"
  "\<not> supportedSource ''lib/util.mjs''" "\<not> supportedSource ''lib/util.mts''"
proof -
  have "Extension ''lib/util.mjs'' = ''.mjs''" "Extension ''lib/util.mts'' = ''.mts''" by code_simp+
  then show "\<forall>registry. DefaultRegistry = Inr registry \<longrightarrow>
     ForPath registry ''lib/util.mjs'' = Some javascriptExtractor \<and> ForPath registry ''lib/util.mts'' = Some typescriptExtractor"
    by (simp add: DefaultRegistry_eq ForPath_def shippedClaims_def)
qed code_simp+

end
