(* ===== verification/Index_Batch.thy ===== *)
theory Index_Batch
  imports Index_Pipeline Store_Staged Registry
begin

text \<open>
  Incremental indexing (\<^verbatim>\<open>src/index/index.go\<close>): \<^verbatim>\<open>PublishBatch\<close> turns a set of changed paths into one publication.
  Changed and affected sources are extracted again, their projects are resolved page by page against the
  store overlaid with the new contributions, and the batch is published at once, or, when it is
  large, from inside the publication's transaction. The extractors and the language resolvers are parameters,
  as are the order in which Go ranges over a map and the worker that extracts each source. A computation that may
  not return, because a page loop may not, is an option: \<open>None\<close> is not returning.
\<close>

section \<open>Data\<close>

record BatchRequest =
  br_Root :: str
  br_ConfiguredRoots :: "str list"
  br_ChangedPaths :: "str list"

datatype index_error =
    RootRequired | RootUnresolved
  | ChangedPathRequired | ChangedPathUnresolved | ChangedPathOutside
  | DiscoveryError discovery_error
  | RegistryError registry_error
  | ContractError contract_error
  | StoreError storage_error
  | WorkerError str | SourceUnreadable | NotRegistered | ExtractError str
  | ModuleUnreadable | ResolveError str

text \<open>The interfaces \<^verbatim>\<open>extractor.ResolverIndex\<close> and \<^verbatim>\<open>resolverStore\<close>, as values.\<close>

record resolverIndex =
  ri_Target :: "ResolverTargetRequest \<Rightarrow> storage_error + ResolverTarget option"
  ri_PackagePage :: "ResolverPackagePageRequest \<Rightarrow> storage_error + ResolverTarget list"

record resolverStore =
  st_ProjectionPage :: "Snapshot \<Rightarrow> ResolverProjectionPageRequest \<Rightarrow> storage_error + ResolverProjection list"
  st_Target :: "Snapshot \<Rightarrow> ResolverTargetRequest \<Rightarrow> storage_error + ResolverTarget option"
  st_PackagePage :: "Snapshot \<Rightarrow> ResolverPackagePageRequest \<Rightarrow> storage_error + ResolverTarget list"

definition storeReads :: "database \<Rightarrow> resolverStore" where
  "storeReads db = \<lparr>st_ProjectionPage = (\<lambda>snapshot request. ResolverProjectionPage snapshot request db),
     st_Target = (\<lambda>snapshot request. StoreResolverTarget snapshot request db),
     st_PackagePage = (\<lambda>snapshot request. StoreResolverPackagePage snapshot request db)\<rparr>"

definition stagerReads :: "database \<Rightarrow> resolverStager \<Rightarrow> resolverStore" where
  "stagerReads db stager = \<lparr>st_ProjectionPage = (\<lambda>snapshot request. StagerProjectionPage db snapshot request stager),
     st_Target = (\<lambda>snapshot request. StagerResolverTarget db snapshot request stager),
     st_PackagePage = (\<lambda>snapshot request. StagerResolverPackagePage db snapshot request stager)\<rparr>"

text \<open>
  What a batch is given: the working directory, the files under the workspace root, the ignore library, the
  publication environment of the store, the extractors by language, the failure of the worker that takes the
  \<open>i\<close>th source, if it failed to start, the page resolvers by language, the order of
  ranging over a map, and the initial indexing of a workspace the store does not know.
\<close>

record index_env =
  ie_cwd :: "str option"
  ie_tree :: tree
  ie_matcher :: "str list \<Rightarrow> str \<Rightarrow> bool"
  ie_publish :: publish_env
  ie_extract :: "str \<Rightarrow> Source \<Rightarrow> str \<Rightarrow> str + Contribution"
  ie_workerError :: "nat \<Rightarrow> str option"
  ie_resolvePage :: "str \<Rightarrow> Contribution list \<Rightarrow> str \<Rightarrow> resolverIndex \<Rightarrow> ResolverFileView option \<Rightarrow> str + Facts \<times> Diagnostic list"
  ie_rangeOrder :: "str list \<Rightarrow> str list"
  ie_initial :: "BatchRequest \<Rightarrow> database \<Rightarrow> (index_error + Snapshot \<times> database) option"

section \<open>Files\<close>

definition readFile :: "str \<Rightarrow> tree \<Rightarrow> readResult" where
  "readFile path tree =
     (case foldl (\<lambda>t name. case t of None \<Rightarrow> None | Some t \<Rightarrow> lookupEntry name t) (Some tree) (SplitOn slash path) of
        None \<Rightarrow> NotExist
      | Some (File (Some bytes)) \<Rightarrow> Contents bytes
      | Some _ \<Rightarrow> ReadError)"

definition normalizeChangedPath :: "str \<Rightarrow> str \<Rightarrow> index_error + str" where
  "normalizeChangedPath root changedPath =
     (if changedPath = [] then Inl ChangedPathRequired
      else let path = (if IsAbs changedPath then changedPath else Join [root, changedPath]) in
        case Rel root (Clean path) of
          None \<Rightarrow> Inl ChangedPathUnresolved
        | Some relative \<Rightarrow>
            if relative = ''.'' \<or> relative = ''..'' \<or> IsAbs relative \<or> HasPrefix relative (''..'' @ slashes)
            then Inl ChangedPathOutside else Inr relative)"

section \<open>Extraction\<close>

definition extractDiscoveredSource :: "index_env \<Rightarrow> Registry \<Rightarrow> Source \<Rightarrow> index_error + extractedSource" where
  "extractDiscoveredSource env registered source =
     (case readFile (so_Path source) (ie_tree env) of
        NotExist \<Rightarrow> Inl SourceUnreadable
      | ReadError \<Rightarrow> Inl SourceUnreadable
      | Contents bytes \<Rightarrow>
          (case ForPath registered (so_Path source) of
             None \<Rightarrow> Inl NotRegistered
           | Some language \<Rightarrow>
               let name = md_Name (ex_Metadata language) in
               bindE (liftE ExtractError (ie_extract env name source bytes)) (\<lambda>contribution.
               Inr \<lparr>es_projectID = so_ProjectID source, es_language = name, es_contribution = contribution\<rparr>)))"

text \<open>The results are kept by source; the first error in the order of the sources is returned.\<close>

definition extractDiscoveredSources :: "index_env \<Rightarrow> Registry \<Rightarrow> Source list \<Rightarrow> index_error + extractedSource list" where
  "extractDiscoveredSources env registered sources =
     mapE (\<lambda>(i, source). case ie_workerError env i of
             Some e \<Rightarrow> Inl (WorkerError e)
           | None \<Rightarrow> extractDiscoveredSource env registered source) (enumerate 0 sources)"

definition sourceAt :: "Source list \<Rightarrow> str \<Rightarrow> Source option" where
  "sourceAt sources = map_of (rev (map (\<lambda>source. (so_Path source, source)) sources))"

definition deletionInput :: "Extractor \<Rightarrow> str \<Rightarrow> ContributionInput" where
  "deletionInput language sourcePath =
     \<lparr>ci_ProjectID = [], ci_SourcePath = sourcePath, ci_Metadata = ex_Metadata language, ci_Facts = \<lparr>f_Nodes = [], f_Edges = []\<rparr>,
      ci_UnresolvedReferences = [], ci_SymbolReferences = [], ci_ExportedSurfaces = [], ci_Dependencies = [], ci_Diagnostics = []\<rparr>"

text \<open>The body of the loop over the changed paths: sources to extract, and deletions.\<close>

definition collectChangedPath ::
  "Source list \<Rightarrow> Registry \<Rightarrow> str \<Rightarrow> Source list \<times> Contribution list \<Rightarrow> index_error + Source list \<times> Contribution list" where
  "collectChangedPath discovered registered sourcePath state =
     (case state of (sources, deletions) \<Rightarrow>
       (case sourceAt discovered sourcePath of
          Some source \<Rightarrow> Inr (sources @ [source], deletions)
        | None \<Rightarrow>
            (case ForPath registered sourcePath of
               None \<Rightarrow> Inr state
             | Some language \<Rightarrow>
                 bindE (liftE ContractError (ex_Vocabulary language)) (\<lambda>vocabulary.
                 bindE (liftE ContractError (NewContribution vocabulary (deletionInput language sourcePath))) (\<lambda>contribution.
                 Inr (sources, deletions @ [contribution]))))))"

definition extractChangedSources ::
  "index_env \<Rightarrow> str list \<Rightarrow> Source list \<Rightarrow> Registry \<Rightarrow> index_error + extractedSource list \<times> str list" where
  "extractChangedSources env paths discovered registered =
     bindE (foldE (collectChangedPath discovered registered) paths ([], [])) (\<lambda>(sources, deletions).
     bindE (extractDiscoveredSources env registered sources) (\<lambda>extracted.
     Inr (extracted @ map (\<lambda>c. \<lparr>es_projectID = [], es_language = md_Name (c_metadata c), es_contribution = c\<rparr>) deletions,
          map c_sourcePath deletions)))"

section \<open>Resolved dependencies\<close>

text \<open>The paths of the file nodes: those of the contributions, then those the resolution names.\<close>

definition contributionFiles :: "Contribution list \<Rightarrow> (str \<times> str) list" where
  "contributionFiles contributions =
     concat (map (\<lambda>c. map (\<lambda>n. (n_ID n, c_sourcePath c)) (filter (\<lambda>n. n_Kind n = ''file'') (f_Nodes (c_facts c)))) contributions)"

definition resolvedFiles :: "Facts \<Rightarrow> (str \<times> str) list" where
  "resolvedFiles facts =
     map (\<lambda>n. (n_ID n, sp_Path (ev_Span (n_Evidence n))))
       (filter (\<lambda>n. n_Kind n = ''file'' \<and> sp_Path (ev_Span (n_Evidence n)) \<noteq> []) (f_Nodes facts))"

definition pathsByFileID :: "Contribution list \<Rightarrow> Facts \<Rightarrow> str \<rightharpoonup> str" where
  "pathsByFileID contributions facts =
     fold (\<lambda>(i, p) paths. paths(i \<mapsto> p)) (contributionFiles contributions @ resolvedFiles facts) Map.empty"

definition targetsOf :: "(str \<rightharpoonup> str) \<Rightarrow> Edge list \<Rightarrow> str \<Rightarrow> str list" where
  "targetsOf paths edges sourcePath =
     uniqueSorted (concat (map (\<lambda>edge. case (paths (e_SourceID edge), paths (e_TargetID edge)) of
        (Some source, Some target) \<Rightarrow> if source = sourcePath \<and> source \<noteq> target then [target] else []
      | _ \<Rightarrow> []) edges))"

definition withResolvedDependencies :: "Contribution list \<Rightarrow> Facts \<Rightarrow> index_error + Contribution list" where
  "withResolvedDependencies contributions facts =
     (let paths = pathsByFileID contributions facts in
      mapE (\<lambda>c. liftE ContractError (WithDependencies c
              (map (\<lambda>target. \<lparr>dep_SourcePath = c_sourcePath c, dep_TargetPath = target\<rparr>)
                 (targetsOf paths (f_Edges facts) (c_sourcePath c))))) contributions)"

section \<open>The overlaid resolver index\<close>

definition es_path :: "extractedSource \<Rightarrow> str" where
  "es_path source = c_sourcePath (es_contribution source)"

text \<open>\<^verbatim>\<open>overrides\<close>: the last extracted source of each path.\<close>

definition overrideAt :: "extractedSource list \<Rightarrow> str \<Rightarrow> extractedSource option" where
  "overrideAt sources = map_of (rev (map (\<lambda>source. (es_path source, source)) sources))"

definition resolverTargetFromContribution :: "extractedSource \<Rightarrow> ResolverTarget" where
  "resolverTargetFromContribution source =
     (let contribution = es_contribution source in
      \<lparr>tg_ProjectID = es_projectID source, tg_SourcePath = c_sourcePath contribution, tg_Metadata = c_metadata contribution,
       tg_Nodes = f_Nodes (c_facts contribution), tg_UnresolvedReferences = c_unresolvedReferences contribution,
       tg_SymbolReferences = c_symbolReferences contribution, tg_ExportedSurfaces = c_exportedSurfaces contribution,
       tg_Diagnostics = c_diagnostics contribution\<rparr>)"

definition overlaidTarget ::
  "resolverStore \<Rightarrow> Snapshot \<Rightarrow> extractedSource list \<Rightarrow> ResolverTargetRequest \<Rightarrow> storage_error + ResolverTarget option" where
  "overlaidTarget store snapshot overrides request =
     (case overrideAt overrides (rt_SourcePath request) of
        Some override \<Rightarrow>
          if es_projectID override = rt_ProjectID request \<and> es_language override = rt_Language request
          then Inr (Some (resolverTargetFromContribution override))
          else st_Target store snapshot request
      | None \<Rightarrow> st_Target store snapshot request)"

definition overlaidPackagePage ::
  "resolverStore \<Rightarrow> Snapshot \<Rightarrow> extractedSource list \<Rightarrow> ResolverPackagePageRequest \<Rightarrow> storage_error + ResolverTarget list" where
  "overlaidPackagePage store snapshot overrides request =
     bindE (st_PackagePage store snapshot request) (\<lambda>targets.
     Inr (map (\<lambda>target. case overrideAt overrides (tg_SourcePath target) of
             Some override \<Rightarrow>
               if es_projectID override = rp_ProjectID request \<and> es_language override = rp_Language request
               then resolverTargetFromContribution override else target
           | None \<Rightarrow> target) targets))"

definition snapshotResolverIndex :: "resolverStore \<Rightarrow> Snapshot \<Rightarrow> extractedSource list \<Rightarrow> resolverIndex" where
  "snapshotResolverIndex store snapshot overrides =
     \<lparr>ri_Target = overlaidTarget store snapshot overrides, ri_PackagePage = overlaidPackagePage store snapshot overrides\<rparr>"

section \<open>Resolution page by page\<close>

definition resolverProjectionPageSize :: int where
  "resolverProjectionPageSize = 128"

record resolutionState =
  rn_processed :: "str list"
  rn_Edges :: "Edge list"
  rn_diagnostics :: "Diagnostic list"

definition appendResolution ::
  "index_env \<Rightarrow> str \<Rightarrow> str \<Rightarrow> resolverIndex \<Rightarrow> ResolverFileView option \<Rightarrow> Contribution list \<Rightarrow> resolutionState \<Rightarrow> index_error + resolutionState" where
  "appendResolution env language project index view contributions state =
     bindE (liftE ResolveError (ie_resolvePage env language contributions project index view)) (\<lambda>(facts, diagnostics).
     Inr (state\<lparr>rn_Edges := rn_Edges state @ f_Edges facts, rn_diagnostics := rn_diagnostics state @ diagnostics\<rparr>))"

text \<open>The contributions of a page: of its sources that are not deleted, those the batch extracted.\<close>

definition pageContributions :: "str list \<Rightarrow> extractedSource list \<Rightarrow> ResolverProjection list \<Rightarrow> Contribution list" where
  "pageContributions deleted overrides page =
     concat (map (\<lambda>projection.
       if pj_SourcePath projection \<in> set deleted then []
       else case overrideAt overrides (pj_SourcePath projection) of None \<Rightarrow> [] | Some override \<Rightarrow> [es_contribution override]) page)"

definition resolvePage ::
  "(Contribution list \<Rightarrow> resolutionState \<Rightarrow> index_error + resolutionState) \<Rightarrow> str list \<Rightarrow> extractedSource list \<Rightarrow>
     ResolverProjection list \<Rightarrow> resolutionState \<Rightarrow> index_error + resolutionState" where
  "resolvePage resolve deleted overrides page state =
     (let state = state\<lparr>rn_processed := rn_processed state @ map pj_SourcePath page\<rparr>;
          contributions = pageContributions deleted overrides page in
      if contributions = [] then Inr state else resolve contributions state)"

text \<open>The loop over the overrides that no page listed.\<close>

definition resolveUnlisted ::
  "(Contribution list \<Rightarrow> resolutionState \<Rightarrow> index_error + resolutionState) \<Rightarrow> str \<Rightarrow> str \<Rightarrow> str list \<Rightarrow> extractedSource list \<Rightarrow>
     str \<Rightarrow> resolutionState \<Rightarrow> index_error + resolutionState" where
  "resolveUnlisted resolve language project deleted overrides sourcePath state =
     (case overrideAt overrides sourcePath of
        None \<Rightarrow> Inr state
      | Some override \<Rightarrow>
          if es_projectID override \<noteq> project \<or> es_language override \<noteq> language then Inr state
          else if sourcePath \<in> set deleted then Inr state
          else if sourcePath \<in> set (rn_processed state) then Inr state
          else resolve [es_contribution override] state)"

definition resolveProjectionPagesOf ::
  "index_env \<Rightarrow> str \<Rightarrow> resolverStore \<Rightarrow> Snapshot \<Rightarrow> str \<Rightarrow> extractedSource list \<Rightarrow> str list \<Rightarrow> ResolverFileView option \<Rightarrow>
     (index_error + Edge list \<times> Diagnostic list) option" where
  "resolveProjectionPagesOf env language store snapshot project overrides deleted view =
     (let resolve = appendResolution env language project (snapshotResolverIndex store snapshot overrides) view in
      bindO (pageLoop (\<lambda>after. liftE StoreError (st_ProjectionPage store snapshot
               (projectionRequest project language resolverProjectionPageSize after)))
             pj_SourcePath (resolvePage resolve deleted overrides) []
             \<lparr>rn_processed = [], rn_Edges = [], rn_diagnostics = []\<rparr>) (\<lambda>state.
      Some (bindE (foldE (resolveUnlisted resolve language project deleted overrides)
                     (ie_rangeOrder env (remdups (map es_path overrides))) state) (\<lambda>state.
            Inr (rn_Edges state, rn_diagnostics state)))))"

definition resolveTypeScriptProjectionPages ::
  "index_env \<Rightarrow> resolverStore \<Rightarrow> Snapshot \<Rightarrow> str \<Rightarrow> extractedSource list \<Rightarrow> str list \<Rightarrow> (index_error + Edge list \<times> Diagnostic list) option" where
  "resolveTypeScriptProjectionPages env store snapshot project overrides deleted =
     resolveProjectionPagesOf env ''typescript'' store snapshot project overrides deleted None"

definition resolveJavaScriptProjectionPages ::
  "index_env \<Rightarrow> resolverStore \<Rightarrow> Snapshot \<Rightarrow> str \<Rightarrow> extractedSource list \<Rightarrow> str list \<Rightarrow> (index_error + Edge list \<times> Diagnostic list) option" where
  "resolveJavaScriptProjectionPages env store snapshot project overrides deleted =
     resolveProjectionPagesOf env ''javascript'' store snapshot project overrides deleted None"

definition resolveGoProjectionPages ::
  "index_env \<Rightarrow> resolverStore \<Rightarrow> Snapshot \<Rightarrow> str \<Rightarrow> extractedSource list \<Rightarrow> str list \<Rightarrow> ResolverFileView \<Rightarrow>
     (index_error + Edge list \<times> Diagnostic list) option" where
  "resolveGoProjectionPages env store snapshot project overrides deleted view =
     resolveProjectionPagesOf env ''go'' store snapshot project overrides deleted (Some view)"

definition goResolverFileView :: "index_env \<Rightarrow> str \<Rightarrow> index_error + ResolverFileView" where
  "goResolverFileView env project =
     (let root = TrimPrefix project ''project:'' in
      case readFile (Join [root, ''go.mod'']) (ie_tree env) of
        NotExist \<Rightarrow> liftE ContractError (NewResolverFileView root [])
      | ReadError \<Rightarrow> Inl ModuleUnreadable
      | Contents bytes \<Rightarrow> liftE ContractError (NewResolverFileView root [(''go.mod'', bytes)]))"

text \<open>The groups of the workspace: projects and languages, as keys; \<open>cutKey\<close> is \<^verbatim>\<open>strings.Cut\<close> at the separator.\<close>

definition discoveredGroups :: "Registry \<Rightarrow> Source list \<Rightarrow> str list" where
  "discoveredGroups registered discovered =
     uniqueSorted (concat (map (\<lambda>source. case ForPath registered (so_Path source) of
        None \<Rightarrow> []
      | Some language \<Rightarrow> [groupKey (so_ProjectID source) (md_Name (ex_Metadata language))]) discovered))"

definition cutKey :: "str \<Rightarrow> str \<times> str" where
  "cutKey key = (takeWhile (\<lambda>c. c \<noteq> CHR 0x00) key, tl (dropWhile (\<lambda>c. c \<noteq> CHR 0x00) key))"

definition resolveGroup ::
  "index_env \<Rightarrow> resolverStore \<Rightarrow> Snapshot \<Rightarrow> extractedSource list \<Rightarrow> str list \<Rightarrow> str \<Rightarrow> Edge list \<times> Diagnostic list \<Rightarrow>
     (index_error + Edge list \<times> Diagnostic list) option" where
  "resolveGroup env store snapshot sources deleted key state =
     (case cutKey key of (project, language) \<Rightarrow>
       let append = (\<lambda>(edges, diagnostics). Some (Inr (fst state @ edges, snd state @ diagnostics))) in
       if language = ''typescript'' then
         bindO (resolveTypeScriptProjectionPages env store snapshot project sources deleted) append
       else if language = ''javascript'' then
         bindO (resolveJavaScriptProjectionPages env store snapshot project sources deleted) append
       else if language = ''go'' then
         bindO (Some (goResolverFileView env project)) (\<lambda>view.
         bindO (resolveGoProjectionPages env store snapshot project sources deleted view) append)
       else Some (Inr state))"

definition resolveIncrementalWorkspaceFacts ::
  "index_env \<Rightarrow> resolverStore \<Rightarrow> Snapshot \<Rightarrow> Source list \<Rightarrow> extractedSource list \<Rightarrow> str list \<Rightarrow>
     (index_error + Facts \<times> Diagnostic list) option" where
  "resolveIncrementalWorkspaceFacts env store snapshot discovered sources deleted =
     bindO (Some (liftE RegistryError DefaultRegistry)) (\<lambda>registered.
     bindO (foldO (resolveGroup env store snapshot sources deleted) (discoveredGroups registered discovered) ([], []))
       (\<lambda>(edges, diagnostics). Some (Inr (\<lparr>f_Nodes = [], f_Edges = edges\<rparr>, diagnostics))))"

section \<open>Publishing a batch\<close>

definition resolverStageSources :: "extractedSource list \<Rightarrow> ResolverStageSource list" where
  "resolverStageSources sources =
     map (\<lambda>source. \<lparr>rs_ProjectID = es_projectID source, rs_Language = es_language source, rs_SourcePath = es_path source\<rparr>) sources"

definition sourcePaths :: "extractedSource list \<Rightarrow> str list" where
  "sourcePaths sources = sort (map es_path sources)"

definition contributionsFromSources :: "extractedSource list \<Rightarrow> Contribution list" where
  "contributionsFromSources sources = map es_contribution sources"

text \<open>From the resolved facts to the request, the same in both ways of publishing.\<close>

definition batchRequest ::
  "str \<Rightarrow> extractedSource list \<Rightarrow> Facts \<Rightarrow> index_error + PublishRequest" where
  "batchRequest root sources workspaceFacts =
     bindE (withResolvedDependencies (contributionsFromSources sources) workspaceFacts) (\<lambda>contributions.
     bindE (liftE ContractError (NewGraphUpdate contributions)) (\<lambda>update.
     Inr \<lparr>pr_Workspace = root, pr_Update = update, pr_WorkspaceFacts = workspaceFacts, pr_ReplacedOwners = sourcePaths sources\<rparr>))"

definition newStager :: "index_env \<Rightarrow> str \<Rightarrow> Snapshot \<Rightarrow> resolverStager" where
  "newStager env root snapshot =
     \<lparr>sg_workspace = root, sg_snapshot = snapshot, sg_variableLimit = pe_variableLimit (ie_publish env), sg_created = False, sg_rows = []\<rparr>"

text \<open>The callback of \<^verbatim>\<open>publishStagedBatch\<close>, on the stager the store hands to it.\<close>

definition stagedBatchRequest ::
  "index_env \<Rightarrow> str \<Rightarrow> Snapshot \<Rightarrow> Source list \<Rightarrow> extractedSource list \<Rightarrow> str list \<Rightarrow> Snapshot \<Rightarrow> database \<Rightarrow>
     (index_error + PublishRequest) option" where
  "stagedBatchRequest env root snapshot discovered sources deleted current db =
     bindO (Some (liftE StoreError (StageResolverSources (resolverStageSources sources) (newStager env root current)))) (\<lambda>stager.
     bindO (resolveIncrementalWorkspaceFacts env (stagerReads db stager) snapshot discovered sources deleted) (\<lambda>(workspaceFacts, _).
     Some (batchRequest root sources workspaceFacts)))"

text \<open>
  \<^verbatim>\<open>publishStagedBatch\<close> runs the callback inside \<^verbatim>\<open>PublishStaged\<close>. The errors of the callback are not errors of the store, so
  the callback's outcome is computed first, on the snapshot and database \<^verbatim>\<open>publish\<close> gives it, and then handed to \<open>publish\<close>.
\<close>

definition publishStagedBatch ::
  "index_env \<Rightarrow> str \<Rightarrow> Snapshot \<Rightarrow> Source list \<Rightarrow> extractedSource list \<Rightarrow> str list \<Rightarrow> database \<Rightarrow>
     (index_error + Snapshot \<times> database) option" where
  "publishStagedBatch env root snapshot discovered sources deleted db =
     bindO (Some (liftE ContractError (NewGraphUpdate (contributionsFromSources sources)))) (\<lambda>update.
     bindO (stagedBatchRequest env root snapshot discovered sources deleted
              \<lparr>sn_Workspace = root, sn_Version = currentVersion db root, sn_PublishedAt = []\<rparr> db) (\<lambda>staged.
     Some (liftE StoreError (PublishStaged (ie_publish env)
       \<lparr>pr_Workspace = root, pr_Update = update, pr_WorkspaceFacts = \<lparr>f_Nodes = [], f_Edges = []\<rparr>, pr_ReplacedOwners = []\<rparr>
       (Some (\<lambda>_ _. Inr staged)) db))))"

definition publishResolvedBatch ::
  "index_env \<Rightarrow> str \<Rightarrow> Snapshot \<Rightarrow> Source list \<Rightarrow> extractedSource list \<Rightarrow> str list \<Rightarrow> database \<Rightarrow>
     (index_error + Snapshot \<times> database) option" where
  "publishResolvedBatch env root snapshot discovered sources deleted db =
     bindO (resolveIncrementalWorkspaceFacts env (storeReads db) snapshot discovered sources deleted) (\<lambda>(workspaceFacts, _).
     Some (bindE (batchRequest root sources workspaceFacts) (\<lambda>request.
           liftE StoreError (Publish (ie_publish env) request db))))"

text \<open>The sources that are not changed themselves but affected, as far as they still exist.\<close>

definition affectedSources :: "Source list \<Rightarrow> str list \<Rightarrow> str list \<Rightarrow> Source list" where
  "affectedSources discovered changedPaths affectedPaths =
     concat (map (\<lambda>p. if p \<in> set changedPaths then [] else case sourceAt discovered p of None \<Rightarrow> [] | Some source \<Rightarrow> [source])
       affectedPaths)"

text \<open>The second half of \<^verbatim>\<open>PublishBatch\<close>, once the changed sources are extracted.\<close>

definition publishChangedSources ::
  "index_env \<Rightarrow> Registry \<Rightarrow> str \<Rightarrow> Snapshot \<Rightarrow> Source list \<Rightarrow> str list \<Rightarrow> extractedSource list \<Rightarrow> str list \<Rightarrow> database \<Rightarrow>
     (index_error + Snapshot \<times> database) option" where
  "publishChangedSources env registered root snapshot discovered changedPaths changed deletedPaths db =
     bindO (Some (liftE ContractError (NewGraphUpdate (contributionsFromSources changed)))) (\<lambda>changedUpdate.
     bindO (Some (liftE StoreError (AffectedSources (pe_variableLimit (ie_publish env)) snapshot changedUpdate db))) (\<lambda>affectedPaths.
     bindO (Some (extractDiscoveredSources env registered (affectedSources discovered changedPaths affectedPaths))) (\<lambda>affected.
     let updateSources = changed @ affected in
     if int (length updateSources) > resolverProjectionPageSize
     then publishStagedBatch env root snapshot discovered updateSources deletedPaths db
     else publishResolvedBatch env root snapshot discovered updateSources deletedPaths db)))"

definition PublishBatch :: "index_env \<Rightarrow> BatchRequest \<Rightarrow> database \<Rightarrow> (index_error + Snapshot \<times> database) option" where
  "PublishBatch env request db =
     (if br_Root request = [] then Some (Inl RootRequired)
      else case Abs (ie_cwd env) (br_Root request) of
        None \<Rightarrow> Some (Inl RootUnresolved)
      | Some root \<Rightarrow>
        bindO (Some (liftE DiscoveryError
          (Discover (ie_matcher env) (ie_cwd env) (ie_tree env) root (br_ConfiguredRoots request)))) (\<lambda>discovery.
        bindO (Some (liftE RegistryError DefaultRegistry)) (\<lambda>registered.
        case OpenSnapshot root None db of
          Inl WorkspaceNotFound \<Rightarrow> ie_initial env (request\<lparr>br_Root := root\<rparr>) db
        | Inl e \<Rightarrow> Some (Inl (StoreError e))
        | Inr snapshot \<Rightarrow>
          bindO (Some (mapE (normalizeChangedPath root) (br_ChangedPaths request))) (\<lambda>normalized.
          let changedPaths = sort (keep_first normalized {}) in
          bindO (Some (extractChangedSources env changedPaths (di_Sources discovery) registered)) (\<lambda>(changed, deletedPaths).
          if changed = [] then Some (Inr (snapshot, db))
          else publishChangedSources env registered root snapshot (di_Sources discovery) changedPaths changed deletedPaths db)))))"

section \<open>Changed paths\<close>

lemma strip_common_self: "strip_common rs (rs @ ts) = ([], ts)"
  by (induction rs) auto

lemma JoinOn_parents:
  "JoinOn slashes (replicate (Suc n) ''..'' @ ts) = ''..'' \<or> HasPrefix (JoinOn slashes (replicate (Suc n) ''..'' @ ts)) (''..'' @ slashes)"
proof (cases "replicate n ''..'' @ ts")
  case (Cons c cs)
  then have "JoinOn slashes (replicate (Suc n) ''..'' @ ts) = (''..'' @ slashes) @ JoinOn slashes (c # cs)" by simp
  then show ?thesis using HasPrefix_append by metis
qed simp

lemma JoinOn_plain_inside:
  assumes "\<forall>c \<in> set ts. plain_comp c" "ts \<noteq> []"
  shows "JoinOn slashes ts \<noteq> ''.''" "JoinOn slashes ts \<noteq> ''..''" "\<not> IsAbs (JoinOn slashes ts)"
    "\<not> HasPrefix (JoinOn slashes ts) (''..'' @ slashes)" "SplitOn slash (JoinOn slashes ts) = ts"
proof -
  have form: "clean_form False ts" using assms(1) by (auto simp: clean_form_def dotdots_def intro: exI [of _ "[]"])
  note rel = JoinOn_rel [OF form assms(2)]
  show split: "SplitOn slash (JoinOn slashes ts) = ts" using assms by (intro SplitOn_JoinOn) (auto simp: plain_comp_def)
  show "\<not> IsAbs (JoinOn slashes ts)" by (rule rel(1))
  have dots: "SplitOn slash ''.'' = [''.'']" "SplitOn slash ''..'' = [''..'']" by (simp_all add: slash_def)
  have "JoinOn slashes ts \<noteq> d" if d: "SplitOn slash d = [d]" "\<not> plain_comp d" for d
  proof
    assume "JoinOn slashes ts = d"
    then have "ts = [d]" using split d(1) by simp
    with assms(1) d(2) show False by simp
  qed
  then show "JoinOn slashes ts \<noteq> ''.''" "JoinOn slashes ts \<noteq> ''..''"
    using dots by (simp_all add: plain_comp_def)
  show "\<not> HasPrefix (JoinOn slashes ts) (''..'' @ slashes)"
  proof
    assume "HasPrefix (JoinOn slashes ts) (''..'' @ slashes)"
    then obtain r where "JoinOn slashes ts = ''..'' @ slash # r" by (auto simp: HasPrefix_iff)
    then have "ts = SplitOn slash (''..'' @ slash # r)" using split by simp
    also have "\<dots> = ''..'' # SplitOn slash r" by (rule SplitOn_sep) (rule dot_no_slash)
    finally have "ts = ''..'' # SplitOn slash r" .
    with assms(1) show False by (simp add: plain_comp_def)
  qed
qed

definition changedTarget :: "str \<Rightarrow> str \<Rightarrow> str" where
  "changedTarget root changedPath = (if IsAbs changedPath then changedPath else Join [root, changedPath])"

lemma IsAbs_changedTarget: "IsAbs root \<Longrightarrow> changedPath \<noteq> [] \<Longrightarrow> IsAbs (changedTarget root changedPath)"
proof -
  assume abs: "IsAbs root" and p: "changedPath \<noteq> []"
  then obtain r where "root = slash # r" unfolding IsAbs_def HasPrefix_iff by auto
  with p have "Join [root, changedPath] = Clean (slash # (r @ slashes @ changedPath))" by (simp add: Join_def)
  then have "IsAbs (Join [root, changedPath])" by (simp only: IsAbs_Clean IsAbs_slash)
  then show "IsAbs (changedTarget root changedPath)" by (simp add: changedTarget_def)
qed

lemma Clean_eq_comps: "IsAbs p \<Longrightarrow> IsAbs q \<Longrightarrow> Clean p = Clean q \<longleftrightarrow> path_comps p = path_comps q"
proof
  assume "Clean p = Clean q"
  then have "path_comps (Clean p) = path_comps (Clean q)" by (rule arg_cong)
  then show "path_comps p = path_comps q" by simp
qed (simp add: Clean_def)

lemma normalizeChangedPath_comps:
  assumes "IsAbs root" "changedPath \<noteq> []"
  defines "T \<equiv> path_comps (changedTarget root changedPath)" and "R \<equiv> path_comps root"
  shows "normalizeChangedPath root changedPath =
    (case strip_common R T of (bs, ts) \<Rightarrow> if bs = [] \<and> ts \<noteq> [] then Inr (JoinOn slashes ts) else Inl ChangedPathOutside)"
proof -
  obtain bs ts where strip: "strip_common R T = (bs, ts)" by (cases "strip_common R T")
  from strip_common_append [OF strip] obtain cs where cs: "R = cs @ bs" "T = cs @ ts" by blast
  have abs: "IsAbs (changedTarget root changedPath)" using assms IsAbs_changedTarget by blast
  have plain: "\<forall>c \<in> set ts. plain_comp c" "\<forall>c \<in> set bs. plain_comp c"
    using path_comps_abs_plain [OF abs] path_comps_abs_plain [OF assms(1)] cs by (auto simp: T_def R_def)
  have rel: "Rel root (Clean (changedTarget root changedPath)) =
      (if R = T then Some ''.'' else if bs \<noteq> [] \<and> hd bs = ''..'' then None
       else Some (JoinOn slashes (replicate (length bs) ''..'' @ ts)))"
    using abs assms strip Clean_eq_comps [OF assms(1) abs] by (simp add: Rel_def R_def T_def)
  have run: "normalizeChangedPath root changedPath =
      (case Rel root (Clean (changedTarget root changedPath)) of
          None \<Rightarrow> Inl ChangedPathUnresolved
        | Some relative \<Rightarrow>
            if relative = ''.'' \<or> relative = ''..'' \<or> IsAbs relative \<or> HasPrefix relative (''..'' @ slashes)
            then Inl ChangedPathOutside else Inr relative)"
    using assms(2) by (simp add: normalizeChangedPath_def changedTarget_def Let_def)
  show ?thesis
  proof (cases bs)
    case Nil
    show ?thesis
    proof (cases "ts = []")
      case True
      then show ?thesis using run rel strip cs Nil by simp
    next
      case False
      then have "R \<noteq> T" using cs Nil by simp
      then show ?thesis using run rel strip Nil False JoinOn_plain_inside [OF plain(1) False] by simp
    qed
  next
    case (Cons b bs')
    have "hd bs \<noteq> ''..''" using plain(2) Cons by (simp add: plain_comp_def)
    moreover have "R \<noteq> T"
    proof
      assume "R = T"
      then have "strip_common R T = ([], [])" using strip_common_self [of R "[]"] by simp
      with strip Cons show False by simp
    qed
    moreover have "JoinOn slashes (replicate (length bs) ''..'' @ ts) = ''..'' \<or>
        HasPrefix (JoinOn slashes (replicate (length bs) ''..'' @ ts)) (''..'' @ slashes)"
      using JoinOn_parents [of "length bs'" ts] Cons by simp
    ultimately show ?thesis using run rel strip Cons by auto
  qed
qed

lemma normalizeChangedPath_Inr:
  assumes "IsAbs root"
  shows "normalizeChangedPath root changedPath = Inr p \<longleftrightarrow>
    changedPath \<noteq> [] \<and> walkPath p \<and> path_comps (changedTarget root changedPath) = path_comps root @ SplitOn slash p"
proof (cases "changedPath = []")
  case False
  let ?R = "path_comps root" and ?T = "path_comps (changedTarget root changedPath)"
  obtain bs ts where strip: "strip_common ?R ?T = (bs, ts)" by (cases "strip_common ?R ?T")
  from strip_common_append [OF strip] obtain cs where cs: "?R = cs @ bs" "?T = cs @ ts" by blast
  have plain: "\<forall>c \<in> set ts. plain_comp c"
    using path_comps_abs_plain [OF IsAbs_changedTarget [OF assms False]] cs by auto
  have run: "normalizeChangedPath root changedPath = Inr p \<longleftrightarrow> bs = [] \<and> ts \<noteq> [] \<and> p = JoinOn slashes ts"
    unfolding normalizeChangedPath_comps [OF assms False] strip by auto
  show ?thesis
  proof
    assume "normalizeChangedPath root changedPath = Inr p"
    then have p: "bs = []" "ts \<noteq> []" "p = JoinOn slashes ts" using run by auto
    with JoinOn_plain_inside(5) [OF plain p(2)] plain cs False
    show "changedPath \<noteq> [] \<and> walkPath p \<and> ?T = ?R @ SplitOn slash p" by (simp add: walkPath_def list_all_iff)
  next
    assume r: "changedPath \<noteq> [] \<and> walkPath p \<and> ?T = ?R @ SplitOn slash p"
    then have "strip_common ?R ?T = ([], SplitOn slash p)" using strip_common_self by metis
    then show "normalizeChangedPath root changedPath = Inr p" unfolding run using strip by simp
  qed
qed (simp add: normalizeChangedPath_def)

section \<open>What a resolution resolves\<close>

lemma overrideAt_path: "overrideAt overrides p = Some override \<Longrightarrow> es_path override = p \<and> override \<in> set overrides"
  by (auto simp: overrideAt_def dest!: map_of_SomeD)

lemma overrideAt_None: "overrideAt overrides p = None \<longleftrightarrow> p \<notin> set (map es_path overrides)"
  by (auto simp: overrideAt_def map_of_eq_None_iff image_iff)

definition replaced :: "str list \<Rightarrow> extractedSource list \<Rightarrow> str \<Rightarrow> bool" where
  "replaced deleted overrides p \<longleftrightarrow> p \<notin> set deleted \<and> p \<in> set (map es_path overrides)"

definition unlisted :: "str \<Rightarrow> str \<Rightarrow> str list \<Rightarrow> extractedSource list \<Rightarrow> str list \<Rightarrow> str \<Rightarrow> bool" where
  "unlisted language project deleted overrides processed p \<longleftrightarrow> p \<notin> set deleted \<and> p \<notin> set processed \<and>
     (\<exists>override. overrideAt overrides p = Some override \<and> es_projectID override = project \<and> es_language override = language)"

definition overriding :: "extractedSource list \<Rightarrow> str \<Rightarrow> Contribution" where
  "overriding overrides p = es_contribution (the (overrideAt overrides p))"

lemma overriding_path: "p \<in> set (map es_path overrides) \<Longrightarrow> c_sourcePath (overriding overrides p) = p"
  using overrideAt_None [of overrides p] overrideAt_path [of overrides p] by (auto simp: overriding_def es_path_def)

lemma pageContributions_eq:
  "pageContributions deleted overrides page = map (overriding overrides) (filter (replaced deleted overrides) (map pj_SourcePath page))"
proof (induction page)
  case (Cons x page)
  then show ?case
    using overrideAt_None [of overrides "pj_SourcePath x"]
    by (cases "overrideAt overrides (pj_SourcePath x)") (simp_all add: pageContributions_def replaced_def overriding_def)
qed (simp add: pageContributions_def)

definition addResolution :: "(Contribution list \<Rightarrow> Facts \<times> Diagnostic list) \<Rightarrow> Contribution list list \<Rightarrow> resolutionState \<Rightarrow> resolutionState" where
  "addResolution r batches state = state\<lparr>rn_Edges := rn_Edges state @ concat (map (\<lambda>b. f_Edges (fst (r b))) batches),
     rn_diagnostics := rn_diagnostics state @ concat (map (\<lambda>b. snd (r b)) batches)\<rparr>"

lemma addResolution_simps [simp]:
  "addResolution r [] state = state"
  "addResolution r bs (addResolution r as state) = addResolution r (as @ bs) state"
  "rn_processed (addResolution r bs state) = rn_processed state"
  by (simp_all add: addResolution_def)

definition pageBatches :: "str list \<Rightarrow> extractedSource list \<Rightarrow> ResolverProjection list list \<Rightarrow> Contribution list list" where
  "pageBatches deleted overrides pages = filter (\<lambda>b. b \<noteq> []) (map (pageContributions deleted overrides) pages)"

lemma resolvePages_total:
  assumes "\<And>cs state. cs \<noteq> [] \<Longrightarrow> resolve cs state = Inr (addResolution r [cs] state)"
  shows "foldE (resolvePage resolve deleted overrides) pages state =
    Inr (addResolution r (pageBatches deleted overrides pages)
      (state\<lparr>rn_processed := rn_processed state @ map pj_SourcePath (concat pages)\<rparr>))"
proof (induction pages arbitrary: state)
  case (Cons page pages)
  have step: "resolvePage resolve deleted overrides page state = Inr (addResolution r (pageBatches deleted overrides [page])
      (state\<lparr>rn_processed := rn_processed state @ map pj_SourcePath page\<rparr>))"
    by (simp add: resolvePage_def assms pageBatches_def Let_def)
  have batches: "pageBatches deleted overrides (page # pages) = pageBatches deleted overrides [page] @ pageBatches deleted overrides pages"
    by (simp add: pageBatches_def)
  have swap: "(addResolution r bs s)\<lparr>rn_processed := x\<rparr> = addResolution r bs (s\<lparr>rn_processed := x\<rparr>)" for bs s x
    by (simp add: addResolution_def)
  show ?case unfolding foldE.simps step bindE_simps Cons.IH batches swap by simp
qed (simp add: pageBatches_def addResolution_def)

lemma resolveUnlisted_total:
  assumes "\<And>cs state. cs \<noteq> [] \<Longrightarrow> resolve cs state = Inr (addResolution r [cs] state)"
  shows "foldE (resolveUnlisted resolve language project deleted overrides) ps state =
    Inr (addResolution r (map (\<lambda>p. [overriding overrides p])
      (filter (unlisted language project deleted overrides (rn_processed state)) ps)) state)"
proof (induction ps arbitrary: state)
  case (Cons p ps)
  show ?case
  proof (cases "unlisted language project deleted overrides (rn_processed state) p")
    case True
    then have "resolveUnlisted resolve language project deleted overrides p state = resolve [overriding overrides p] state"
      by (auto simp: resolveUnlisted_def unlisted_def overriding_def)
    with True show ?thesis by (simp add: assms Cons.IH)
  next
    case False
    then have "resolveUnlisted resolve language project deleted overrides p state = Inr state"
      by (auto simp: resolveUnlisted_def unlisted_def split: option.splits)
    with False show ?thesis by (simp add: Cons.IH)
  qed
qed simp

lemma mapE_map_key:
  "mapE f xs = Inr ys \<Longrightarrow> (\<And>x y. x \<in> set xs \<Longrightarrow> f x = Inr y \<Longrightarrow> k y = h x) \<Longrightarrow> map k ys = map h xs"
  by (induction xs arbitrary: ys) auto

lemma overriding_paths:
  "set ps \<subseteq> set (map es_path overrides) \<Longrightarrow> map (\<lambda>p. c_sourcePath (overriding overrides p)) ps = ps"
  by (rule map_idI) (use overriding_path in blast)

text \<open>The resolution of any listing that is read in pages: the batches it hands to the resolver.\<close>

locale listed_resolution =
  paged_reader page pj_SourcePath files fst reader "nat resolverProjectionPageSize" ready
  for page :: "str \<Rightarrow> index_error + ResolverProjection list" and files :: "(str \<times> str \<times> str \<times> str) list"
    and reader :: "str \<times> str \<times> str \<times> str \<Rightarrow> index_error + ResolverProjection" and ready :: bool
begin

lemma page_resolution:
  assumes "ready" "distinct (map fst files)" "list_all (\<lambda>f. fst f \<noteq> []) files" "mapE reader files = Inr xs"
    and total: "\<And>cs state. cs \<noteq> [] \<Longrightarrow> resolve cs state = Inr (addResolution r [cs] state)"
    and order: "set order = set (map es_path overrides)"
  obtains batches where
    "bindO (pageLoop page pj_SourcePath (resolvePage resolve deleted overrides) []
             \<lparr>rn_processed = [], rn_Edges = [], rn_diagnostics = []\<rparr>)
       (\<lambda>state. Some (bindE (foldE (resolveUnlisted resolve language project deleted overrides) order state)
          (\<lambda>state. Inr (rn_Edges state, rn_diagnostics state)))) =
     Some (Inr (concat (map (\<lambda>b. f_Edges (fst (r b))) batches), concat (map (\<lambda>b. snd (r b)) batches)))"
    and "\<forall>b \<in> set batches. b \<noteq> [] \<and> length b \<le> nat resolverProjectionPageSize"
    and "concat batches = map (overriding overrides) (filter (replaced deleted overrides) (map fst files) @
           filter (unlisted language project deleted overrides (map fst files)) order)"
proof -
  let ?pages = "chunks (nat resolverProjectionPageSize) xs" and ?s0 = "\<lparr>rn_processed = [], rn_Edges = [], rn_diagnostics = []\<rparr>"
  have pos: "0 < nat resolverProjectionPageSize" by (simp add: resolverProjectionPageSize_def)
  have paths: "map pj_SourcePath xs = map fst files" using assms(4) by (rule mapE_map_key) (rule reader_key)
  have loop: "pageLoop page pj_SourcePath (resolvePage resolve deleted overrides) [] ?s0 =
      Some (foldE (resolvePage resolve deleted overrides) ?pages ?s0)"
    using assms(3) by (intro pageLoop_pages [OF assms(1,2) _ assms(4)]) (simp add: list_all_iff)
  have visited: "foldE (resolvePage resolve deleted overrides) pages state =
      Inr (addResolution r (pageBatches deleted overrides pages) (state\<lparr>rn_processed := rn_processed state @ map pj_SourcePath (concat pages)\<rparr>))"
    for pages state by (rule resolvePages_total) (rule total)
  have rest: "foldE (resolveUnlisted resolve language project deleted overrides) ps state =
      Inr (addResolution r (map (\<lambda>p. [overriding overrides p]) (filter (unlisted language project deleted overrides (rn_processed state)) ps)) state)"
    for ps state by (rule resolveUnlisted_total) (rule total)
  let ?listed = "pageBatches deleted overrides ?pages"
  let ?rest = "map (\<lambda>p. [overriding overrides p]) (filter (unlisted language project deleted overrides (map fst files)) order)"
  have pages: "concat (map (pageContributions deleted overrides) ps) =
      map (overriding overrides) (filter (replaced deleted overrides) (map pj_SourcePath (concat ps)))" for ps
    by (induction ps) (simp_all add: pageContributions_eq)
  have empties: "concat (filter (\<lambda>b. b \<noteq> []) bs) = concat bs" for bs :: "Contribution list list" by (induction bs) auto
  have listed: "concat ?listed = map (overriding overrides) (filter (replaced deleted overrides) (map fst files))"
    unfolding pageBatches_def empties pages concat_chunks [OF pos] paths ..
  have singles: "concat (map (\<lambda>p. [f p]) ps) = map f ps" for f :: "str \<Rightarrow> Contribution" and ps by (induction ps) auto
  show ?thesis
  proof (rule that [of "?listed @ ?rest"])
    show "bindO (pageLoop page pj_SourcePath (resolvePage resolve deleted overrides) [] ?s0)
        (\<lambda>state. Some (bindE (foldE (resolveUnlisted resolve language project deleted overrides) order state)
          (\<lambda>state. Inr (rn_Edges state, rn_diagnostics state)))) =
      Some (Inr (concat (map (\<lambda>b. f_Edges (fst (r b))) (?listed @ ?rest)), concat (map (\<lambda>b. snd (r b)) (?listed @ ?rest))))"
      unfolding loop visited bindO_simps rest
      by (simp add: concat_chunks [OF pos] paths) (simp add: addResolution_def comp_def)
    have "length b \<le> nat resolverProjectionPageSize" if "b \<in> set ?listed" for b
    proof -
      from that obtain page where "page \<in> set ?pages" "b = pageContributions deleted overrides page" by (auto simp: pageBatches_def)
      then show ?thesis
        using chunks_bounds [of page] length_filter_le [of _ "map pj_SourcePath page"]
        by (metis length_map order_trans pageContributions_eq)
    qed
    then show "\<forall>b \<in> set (?listed @ ?rest). b \<noteq> [] \<and> length b \<le> nat resolverProjectionPageSize"
      using pos by (auto simp: pageBatches_def)
    show "concat (?listed @ ?rest) = map (overriding overrides) (filter (replaced deleted overrides) (map fst files) @
           filter (unlisted language project deleted overrides (map fst files)) order)"
      by (simp only: concat_append listed singles map_append)
  qed
qed

text \<open>Every source of the batch that the listing or the group names is resolved once, in its newest version.\<close>

lemma resolution_exact:
  assumes "ready" "distinct (map fst files)" "list_all (\<lambda>f. fst f \<noteq> []) files" "mapE reader files = Inr xs"
    and total: "\<And>cs state. cs \<noteq> [] \<Longrightarrow> resolve cs state = Inr (addResolution r [cs] state)"
    and order: "mset order = mset (remdups (map es_path overrides))"
  shows "\<exists>batches.
    bindO (pageLoop page pj_SourcePath (resolvePage resolve deleted overrides) []
             \<lparr>rn_processed = [], rn_Edges = [], rn_diagnostics = []\<rparr>)
       (\<lambda>state. Some (bindE (foldE (resolveUnlisted resolve language project deleted overrides) order state)
          (\<lambda>state. Inr (rn_Edges state, rn_diagnostics state)))) =
     Some (Inr (concat (map (\<lambda>b. f_Edges (fst (r b))) batches), concat (map (\<lambda>b. snd (r b)) batches))) \<and>
    (\<forall>b \<in> set batches. b \<noteq> [] \<and> length b \<le> nat resolverProjectionPageSize) \<and>
    distinct (map c_sourcePath (concat batches)) \<and>
    set (concat batches) = {es_contribution override | override. override \<in> set overrides \<and>
      overrideAt overrides (es_path override) = Some override \<and> es_path override \<notin> set deleted \<and>
      (es_path override \<in> fst ` set files \<or> es_projectID override = project \<and> es_language override = language)}"
    (is "\<exists>batches. ?run batches \<and> ?small batches \<and> _ batches \<and> _ batches")
proof -
  have set_order: "set order = set (map es_path overrides)" and dist: "distinct order"
    using order by (metis set_mset_mset set_remdups) (metis order distinct_remdups mset_eq_imp_distinct_iff)
  obtain batches where b: "?run batches" "?small batches"
    "concat batches = map (overriding overrides) (filter (replaced deleted overrides) (map fst files) @
           filter (unlisted language project deleted overrides (map fst files)) order)"
    by (rule page_resolution [OF assms(1-4) total set_order])
  let ?ps = "filter (replaced deleted overrides) (map fst files) @ filter (unlisted language project deleted overrides (map fst files)) order"
  have sub: "set ?ps \<subseteq> set (map es_path overrides)" using set_order by (auto simp: replaced_def)
  have "map c_sourcePath (concat batches) = ?ps" unfolding b(3) map_map comp_def by (rule overriding_paths [OF sub])
  moreover have "distinct ?ps" using assms(2) dist by (auto simp: unlisted_def)
  ultimately have once: "distinct (map c_sourcePath (concat batches))" by metis
  have "set (concat batches) = {es_contribution override | override. override \<in> set overrides \<and>
      overrideAt overrides (es_path override) = Some override \<and> es_path override \<notin> set deleted \<and>
      (es_path override \<in> fst ` set files \<or> es_projectID override = project \<and> es_language override = language)}" (is "_ = ?S")
  proof -
    have "p \<in> set ?ps \<longleftrightarrow> (\<exists>override. overrideAt overrides p = Some override \<and> p \<notin> set deleted \<and>
        (p \<in> fst ` set files \<or> es_projectID override = project \<and> es_language override = language))" for p
      using set_order overrideAt_None [of overrides p] by (cases "overrideAt overrides p") (auto simp: replaced_def unlisted_def)
    note paths = this
    show ?thesis
    proof (intro equalityI subsetI)
      fix c assume "c \<in> set (concat batches)"
      then obtain p where p: "c = overriding overrides p" "p \<in> set ?ps" unfolding b(3) set_map by blast
      with paths obtain override where "overrideAt overrides p = Some override" "p \<notin> set deleted"
          "p \<in> fst ` set files \<or> es_projectID override = project \<and> es_language override = language" by blast
      then show "c \<in> ?S" using p(1) overrideAt_path [of overrides p override] by (auto simp: overriding_def)
    next
      fix c assume "c \<in> ?S"
      then obtain override where override: "c = es_contribution override" "overrideAt overrides (es_path override) = Some override"
          "es_path override \<in> set ?ps" using paths by blast
      then have "c = overriding overrides (es_path override)" by (simp add: overriding_def)
      then show "c \<in> set (concat batches)" unfolding b(3) set_map using override(3) by blast
    qed
  qed
  with b(1,2) once show ?thesis by (intro exI [of _ batches] conjI)
qed

end

text \<open>The store and the stager provide such listings.\<close>

lemma mapE_lift: "mapE (\<lambda>x. liftE w (f x)) xs = liftE w (mapE f xs)"
proof (induction xs)
  case (Cons x xs)
  then show ?case by (cases "f x"; cases "mapE f xs") simp_all
qed simp

lemma liftE_eq_Inr [simp]: "liftE w m = Inr x \<longleftrightarrow> m = Inr x"
  by (cases m) simp_all

interpretation store_resolution: listed_resolution
  "\<lambda>after. liftE StoreError (ResolverProjectionPage s (projectionRequest project language resolverProjectionPageSize after) db)"
  "ofProject project language (visibleFiles db s)" "\<lambda>f. liftE StoreError (readProjection db s f)"
  "\<not> noSnapshot s \<and> project \<noteq> [] \<and> language \<noteq> []"
  for s project language db
proof unfold_locales
  show "sorted (map fst (ofProject project language (visibleFiles db s)))"
    unfolding ofProject_def by (intro sorted_map_filter sorted_visibleFiles)
qed (auto simp: resolverProjectionPageSize_def ResolverProjectionPage_def projectionPageFiles_eq readProjection_path mapE_lift)

lemma mapE_total: "mapE (\<lambda>x. Inr (f x)) xs = Inr (map f xs)"
  by (induction xs) auto

interpretation stager_resolution: listed_resolution
  "\<lambda>after. liftE StoreError (StagerProjectionPage db s (projectionRequest project language resolverProjectionPageSize after) stager)"
  "ofProject project language (stagerFiles db stager)" "\<lambda>f. Inr (stagedProjection db (sg_snapshot stager) f)"
  "\<not> otherSnapshot s stager \<and> sg_created stager \<and> project \<noteq> [] \<and> language \<noteq> []"
  for s project language db stager
proof unfold_locales
  show "sorted (map fst (ofProject project language (stagerFiles db stager)))"
    unfolding ofProject_def stagerFiles_def by (intro sorted_map_filter sorted_visibleFiles)
qed (auto simp: resolverProjectionPageSize_def StagerProjectionPage_def projectionPageFiles_eq stagedProjection_def mapE_total Let_def)

lemma appendResolution_total:
  assumes "ie_resolvePage env language cs project index view = Inr (r cs)"
  shows "appendResolution env language project index view cs state = Inr (addResolution r [cs] state)"
  using assms by (cases "r cs") (simp add: appendResolution_def addResolution_def)

section \<open>Staged batches\<close>

lemma staged_rows:
  assumes "StageResolverSources (resolverStageSources sources) (newStager env root current) = Inr stager" "sources \<noteq> []"
    "3 \<le> pe_variableLimit (ie_publish env)"
  shows "list_all (\<lambda>source. es_projectID source \<noteq> [] \<and> es_language source \<noteq> [] \<and> es_path source \<noteq> []) sources"
    "sg_created stager" "sg_snapshot stager = current"
    "set (sg_rows stager) = (\<lambda>source. (es_projectID source, es_language source, es_path source)) ` set sources"
proof -
  have named: "list_all namedSource (resolverStageSources sources)"
    using assms(1) StageResolverSources_unnamed by fastforce
  then show "list_all (\<lambda>source. es_projectID source \<noteq> [] \<and> es_language source \<noteq> [] \<and> es_path source \<noteq> []) sources"
    by (auto simp: list_all_iff resolverStageSources_def namedSource_def)
  have "resolverStageSources sources \<noteq> []" using assms(2) by (simp add: resolverStageSources_def)
  from StageResolverSources_named [OF named this, of "newStager env root current"] assms(1,3) obtain rows where
    "stager = (newStager env root current)\<lparr>sg_created := True, sg_rows := rows\<rparr>" "set rows = stageRow ` set (resolverStageSources sources)"
    by (auto simp: newStager_def)
  then show "sg_created stager" "sg_snapshot stager = current"
    "set (sg_rows stager) = (\<lambda>source. (es_projectID source, es_language source, es_path source)) ` set sources"
    by (auto simp: newStager_def resolverStageSources_def stageRow_def image_image)
qed

lemma stager_files:
  assumes "sg_snapshot stager = current"
  shows "set (ofProject project language (stagerFiles db stager)) \<subseteq> set (visibleFiles db current)"
    "f \<in> set (ofProject project language (stagerFiles db stager)) \<Longrightarrow> (project, language, fst f) \<in> set (sg_rows stager)"
  by (auto simp: ofProject_def stagerFiles_def assms)

section \<open>The sources of a batch\<close>

lemma sourceAt_path: "sourceAt sources p = Some source \<Longrightarrow> so_Path source = p \<and> source \<in> set sources"
  by (auto simp: sourceAt_def dest!: map_of_SomeD)

text \<open>What extraction promises: a contribution is of the source it was extracted from.\<close>

definition extracts_source :: "index_env \<Rightarrow> bool" where
  "extracts_source env \<longleftrightarrow> (\<forall>language source bytes c. ie_extract env language source bytes = Inr c \<longrightarrow> c_sourcePath c = so_Path source)"

definition extractedFrom :: "index_env \<Rightarrow> Registry \<Rightarrow> Source \<Rightarrow> Contribution \<Rightarrow> bool" where
  "extractedFrom env registered source c \<longleftrightarrow>
     (\<exists>bytes x. readFile (so_Path source) (ie_tree env) = Contents bytes \<and> ForPath registered (so_Path source) = Some x \<and>
        ie_extract env (md_Name (ex_Metadata x)) source bytes = Inr c)"

lemma extractDiscoveredSource_Inr:
  assumes "extractDiscoveredSource env registered source = Inr es" "extracts_source env"
  shows "extractedFrom env registered source (es_contribution es)" "es_path es = so_Path source" "es_projectID es = so_ProjectID source"
  using assms by (auto simp: extractDiscoveredSource_def extractedFrom_def extracts_source_def es_path_def Let_def
      split: readResult.splits option.splits)

lemma extractDiscoveredSources_Inr:
  assumes "extractDiscoveredSources env registered sources = Inr extracted" "extracts_source env"
  shows "list_all2 (\<lambda>source es. extractedFrom env registered source (es_contribution es) \<and> es_path es = so_Path source) sources extracted"
proof -
  have "list_all2 (\<lambda>source es. extractedFrom env registered source (es_contribution es) \<and> es_path es = so_Path source) sources extracted"
    if "mapE (\<lambda>(i, source). case ie_workerError env i of Some e \<Rightarrow> Inl (WorkerError e)
          | None \<Rightarrow> extractDiscoveredSource env registered source) (enumerate n sources) = Inr extracted" for n
    using that
  proof (induction sources arbitrary: n extracted)
    case (Cons source sources)
    then show ?case
      using extractDiscoveredSource_Inr [OF _ assms(2)] by (auto simp: enumerate_simps split: option.splits)
  qed simp
  then show ?thesis using assms(1) by (simp add: extractDiscoveredSources_def)
qed

lemma list_all2_paths:
  "list_all2 (\<lambda>source es. P source es \<and> es_path es = so_Path source) sources extracted \<Longrightarrow> map es_path extracted = map so_Path sources"
  by (induction rule: list_all2_induct) auto

text \<open>The sources and deletions among the changed paths.\<close>

lemma collectChangedPath_simps:
  "sourceAt discovered p = Some source \<Longrightarrow>
     collectChangedPath discovered registered p (sources, deletions) = Inr (sources @ [source], deletions)"
  "sourceAt discovered p = None \<Longrightarrow> ForPath registered p = None \<Longrightarrow>
     collectChangedPath discovered registered p (sources, deletions) = Inr (sources, deletions)"
  by (simp_all add: collectChangedPath_def)

lemma collectChangedPath_deletion:
  assumes "collectChangedPath discovered registered p (sources, deletions) = Inr state" "sourceAt discovered p = None"
    "ForPath registered p = Some language"
  shows "state = (sources, deletions @ [contribution_of_input (deletionInput language p)])"
proof -
  from assms obtain vocabulary c where c: "NewContribution vocabulary (deletionInput language p) = Inr c" "state = (sources, deletions @ [c])"
    by (auto simp: collectChangedPath_def)
  then show ?thesis by (auto simp: NewContribution_def Let_def split: if_splits)
qed

lemma deletion_simps [simp]:
  "c_sourcePath (contribution_of_input (deletionInput language p)) = p"
  "c_facts (contribution_of_input (deletionInput language p)) = \<lparr>f_Nodes = [], f_Edges = []\<rparr>"
  "c_projectID (contribution_of_input (deletionInput language p)) = []"
  by (simp_all add: contribution_of_input_def deletionInput_def)

lemma collectChangedPaths_Inr:
  assumes "foldE (collectChangedPath discovered registered) paths (sources, deletions) = Inr (sources', deletions')"
  shows "sources' = sources @ List.map_filter (sourceAt discovered) paths \<and>
    map c_sourcePath deletions' = map c_sourcePath deletions @
      filter (\<lambda>p. sourceAt discovered p = None \<and> ForPath registered p \<noteq> None) paths \<and>
    (\<forall>c \<in> set deletions'. c \<in> set deletions \<or> c_facts c = \<lparr>f_Nodes = [], f_Edges = []\<rparr> \<and> c_projectID c = [])"
  using assms
proof (induction paths arbitrary: sources deletions)
  case (Cons p paths)
  from Cons.prems obtain state where state: "collectChangedPath discovered registered p (sources, deletions) = Inr state"
    "foldE (collectChangedPath discovered registered) paths state = Inr (sources', deletions')" by auto
  consider source where "sourceAt discovered p = Some source" | "sourceAt discovered p = None" "ForPath registered p = None"
    | language where "sourceAt discovered p = None" "ForPath registered p = Some language"
    by (cases "sourceAt discovered p"; cases "ForPath registered p") auto
  then show ?case
  proof cases
    case 1
    with state have "state = (sources @ [source], deletions)" by (simp add: collectChangedPath_simps)
    with state Cons.IH [of "sources @ [source]" deletions] 1 show ?thesis by (simp add: List.map_filter_simps)
  next
    case 2
    with state have "state = (sources, deletions)" by (simp add: collectChangedPath_simps)
    with state Cons.IH [of sources deletions] 2 show ?thesis by (simp add: List.map_filter_simps)
  next
    case 3
    with collectChangedPath_deletion [OF state(1)] have "state = (sources, deletions @ [contribution_of_input (deletionInput language p)])" by simp
    with state Cons.IH [of sources "deletions @ [contribution_of_input (deletionInput language p)]"] 3
    show ?thesis by (auto simp: List.map_filter_simps)
  qed
qed (simp add: List.map_filter_simps)

lemma extractChangedSources_Inr:
  assumes "extractChangedSources env paths discovered registered = Inr (changed, deleted)" "extracts_source env"
  shows "map es_path changed = filter (\<lambda>p. sourceAt discovered p \<noteq> None) paths @
      filter (\<lambda>p. sourceAt discovered p = None \<and> ForPath registered p \<noteq> None) paths"
    "deleted = filter (\<lambda>p. sourceAt discovered p = None \<and> ForPath registered p \<noteq> None) paths"
    "es \<in> set changed \<Longrightarrow> (case sourceAt discovered (es_path es) of
       Some source \<Rightarrow> extractedFrom env registered source (es_contribution es)
     | None \<Rightarrow> c_facts (es_contribution es) = \<lparr>f_Nodes = [], f_Edges = []\<rparr>)"
proof -
  let ?gone = "\<lambda>p. sourceAt discovered p = None \<and> ForPath registered p \<noteq> None"
  from assms(1) obtain sources deletions extracted where
    run: "foldE (collectChangedPath discovered registered) paths ([], []) = Inr (sources, deletions)"
    and extracted: "extractDiscoveredSources env registered sources = Inr extracted"
    and changed: "changed = extracted @ map (\<lambda>c. \<lparr>es_projectID = [], es_language = md_Name (c_metadata c), es_contribution = c\<rparr>) deletions"
    and deleted: "deleted = map c_sourcePath deletions"
    by (auto simp: extractChangedSources_def split: prod.splits)
  from collectChangedPaths_Inr [OF run] have s: "sources = List.map_filter (sourceAt discovered) paths"
    and d: "map c_sourcePath deletions = filter ?gone paths" "\<forall>c \<in> set deletions. c_facts c = \<lparr>f_Nodes = [], f_Edges = []\<rparr>" by auto
  note each = extractDiscoveredSources_Inr [OF extracted assms(2)]
  have paths: "map so_Path sources = filter (\<lambda>p. sourceAt discovered p \<noteq> None) paths"
  proof -
    have "map so_Path (List.map_filter (sourceAt discovered) ps) = filter (\<lambda>p. sourceAt discovered p \<noteq> None) ps" for ps
    proof (induction ps)
      case (Cons p ps)
      then show ?case using sourceAt_path [of discovered p] by (cases "sourceAt discovered p") (auto simp: List.map_filter_simps)
    qed (simp add: List.map_filter_simps)
    then show ?thesis by (simp add: s)
  qed
  show "map es_path changed = filter (\<lambda>p. sourceAt discovered p \<noteq> None) paths @ filter ?gone paths"
    using list_all2_paths [OF each] paths d(1) by (simp add: changed comp_def es_path_def)
  show "deleted = filter ?gone paths" using d(1) deleted by simp
  show "case sourceAt discovered (es_path es) of
       Some source \<Rightarrow> extractedFrom env registered source (es_contribution es)
     | None \<Rightarrow> c_facts (es_contribution es) = \<lparr>f_Nodes = [], f_Edges = []\<rparr>" if es: "es \<in> set changed"
  proof (cases "es \<in> set extracted")
    case True
    from each [unfolded list_all2_conv_all_nth] True obtain source where source: "source \<in> set sources"
        "extractedFrom env registered source (es_contribution es)" "es_path es = so_Path source"
      unfolding in_set_conv_nth by metis
    obtain p where "sourceAt discovered p = Some source" using source(1) by (auto simp: s List.map_filter_def)
    with source(2,3) sourceAt_path [OF this] show ?thesis by simp
  next
    case False
    with es obtain c where c: "c \<in> set deletions" "es = \<lparr>es_projectID = [], es_language = md_Name (c_metadata c), es_contribution = c\<rparr>"
      by (auto simp: changed)
    then have "c_sourcePath c \<in> set (filter ?gone paths)" using d(1) by (metis image_eqI list.set_map)
    then show ?thesis using c d(2) by (simp add: es_path_def)
  qed
qed

section \<open>The request of a batch\<close>

lemma pathsByFileID_eq: "pathsByFileID contributions facts = map_of (rev (contributionFiles contributions @ resolvedFiles facts))"
proof -
  have "fold (\<lambda>(i, p) paths. paths(i \<mapsto> p)) xs m = m ++ map_of (rev xs)" for xs and m :: "str \<rightharpoonup> str"
  proof (induction xs arbitrary: m)
    case (Cons x xs)
    obtain i p where x: "x = (i, p)" by (cases x)
    have "m(i \<mapsto> p) ++ map_of (rev xs) = m ++ (map_of [(i, p)] ++ map_of (rev xs))"
      by (rule ext) (auto simp: map_add_def split: option.splits)
    moreover have "map_of (rev (x # xs)) = map_of [(i, p)] ++ map_of (rev xs)" unfolding x rev.simps by (rule map_of_append)
    moreover have "fold (\<lambda>(i, p) paths. paths(i \<mapsto> p)) (x # xs) m = fold (\<lambda>(i, p) paths. paths(i \<mapsto> p)) xs (m(i \<mapsto> p))"
      unfolding x fold.simps by (simp only: comp_def case_prod_conv)
    ultimately show ?case unfolding Cons.IH by (simp only:)
  qed simp
  then show ?thesis by (simp add: pathsByFileID_def)
qed

definition resolvedDependency :: "(str \<rightharpoonup> str) \<Rightarrow> Edge list \<Rightarrow> Contribution \<Rightarrow> Contribution" where
  "resolvedDependency paths edges c =
     c\<lparr>c_dependencies := map (\<lambda>target. \<lparr>dep_SourcePath = c_sourcePath c, dep_TargetPath = target\<rparr>) (targetsOf paths edges (c_sourcePath c))\<rparr>"

lemma withResolvedDependencies_Inr:
  assumes "withResolvedDependencies contributions facts = Inr updated"
  shows "updated = map (resolvedDependency (pathsByFileID contributions facts) (f_Edges facts)) contributions"
proof -
  have "mapE (\<lambda>c. liftE ContractError (WithDependencies c (deps c))) cs = Inr updated \<Longrightarrow> updated = map (\<lambda>c. c\<lparr>c_dependencies := deps c\<rparr>) cs" for deps cs updated
    by (induction cs arbitrary: updated) (auto simp: WithDependencies_def)
  from this [OF assms [unfolded withResolvedDependencies_def Let_def]] show ?thesis
    by (simp add: resolvedDependency_def [abs_def])
qed

lemma batchRequest_Inr:
  assumes "batchRequest root sources facts = Inr request"
  defines "cs \<equiv> contributionsFromSources sources"
  shows "pr_Workspace request = root" "pr_WorkspaceFacts request = facts" "pr_ReplacedOwners request = sort (map es_path sources)"
    "gu_contributions (pr_Update request) = map (resolvedDependency (pathsByFileID cs facts) (f_Edges facts)) cs"
  using assms by (auto simp: batchRequest_def NewGraphUpdate_def sourcePaths_def dest!: withResolvedDependencies_Inr split: if_splits)

lemma resolved_nodes:
  "resolveIncrementalWorkspaceFacts env store snapshot discovered sources deleted = Some (Inr (facts, diagnostics)) \<Longrightarrow> f_Nodes facts = []"
  by (auto simp: resolveIncrementalWorkspaceFacts_def split: prod.splits)

text \<open>What the facts of a batch are resolved from: the store with the new versions of the sources over it, read directly or, in a large
  batch, through the staged sources; the sources that are gone are passed as deleted.\<close>

definition batchResolution :: "index_env \<Rightarrow> str \<Rightarrow> Snapshot \<Rightarrow> Source list \<Rightarrow> extractedSource list \<Rightarrow> database \<Rightarrow> Facts \<Rightarrow> bool" where
  "batchResolution env root snapshot discovered sources db facts \<longleftrightarrow>
     (\<exists>store diagnostics.
        (store = storeReads db \<or>
         (\<exists>stager. StageResolverSources (resolverStageSources sources)
            (newStager env root \<lparr>sn_Workspace = root, sn_Version = currentVersion db root, sn_PublishedAt = []\<rparr>) = Inr stager \<and>
            store = stagerReads db stager)) \<and>
        resolveIncrementalWorkspaceFacts env store snapshot discovered sources
          (filter (\<lambda>p. sourceAt discovered p = None) (map es_path sources)) = Some (Inr (facts, diagnostics)))"

lemma batchResolution_nodes: "batchResolution env root snapshot discovered sources db facts \<Longrightarrow> f_Nodes facts = []"
  by (auto simp: batchResolution_def dest: resolved_nodes)

text \<open>Both ways of publishing end in one publication of a batch request.\<close>

lemma publishBatch_Inr:
  assumes "publishResolvedBatch env root snapshot discovered sources gone db = Some (Inr (s, db')) \<or>
      publishStagedBatch env root snapshot discovered sources gone db = Some (Inr (s, db'))"
    and "gone = filter (\<lambda>p. sourceAt discovered p = None) (map es_path sources)"
  shows "\<exists>facts request. batchResolution env root snapshot discovered sources db facts \<and> batchRequest root sources facts = Inr request \<and>
    publishRequest (ie_publish env) request db = Inr (s, db')"
  using assms(1)
proof
  assume "publishResolvedBatch env root snapshot discovered sources gone db = Some (Inr (s, db'))"
  then show ?thesis
    unfolding assms(2) by (auto simp: publishResolvedBatch_def Publish_def publish_def batchResolution_def split: prod.splits if_splits)
next
  assume "publishStagedBatch env root snapshot discovered sources gone db = Some (Inr (s, db'))"
  then show ?thesis
    unfolding assms(2)
    by (auto simp: publishStagedBatch_def stagedBatchRequest_def PublishStaged_def publish_def batchResolution_def split: prod.splits if_splits)
qed

text \<open>The steps of a successful batch on a known workspace.\<close>

lemma PublishBatch_Inr:
  assumes "PublishBatch env request db = Some (Inr (s, db'))" "Abs (ie_cwd env) (br_Root request) = Some root"
    "OpenSnapshot root None db = Inr snapshot" "DefaultRegistry = Inr registered"
  obtains d changed es gone where "Discover (ie_matcher env) (ie_cwd env) (ie_tree env) root (br_ConfiguredRoots request) = Inr d"
    "mapE (normalizeChangedPath root) (br_ChangedPaths request) = Inr changed"
    "extractChangedSources env (sort (keep_first changed {})) (di_Sources d) registered = Inr (es, gone)"
    "es = [] \<Longrightarrow> s = snapshot \<and> db' = db"
    "es \<noteq> [] \<Longrightarrow> \<exists>affectedPaths affected.
      AffectedSources (pe_variableLimit (ie_publish env)) snapshot \<lparr>gu_contributions = contributionsFromSources es\<rparr> db = Inr affectedPaths \<and>
      extractDiscoveredSources env registered (affectedSources (di_Sources d) (sort (keep_first changed {})) affectedPaths) = Inr affected \<and>
      (gone = filter (\<lambda>p. sourceAt (di_Sources d) p = None) (map es_path (es @ affected)) \<longrightarrow>
       (\<exists>facts request. batchResolution env root snapshot (di_Sources d) (es @ affected) db facts \<and>
         batchRequest root (es @ affected) facts = Inr request \<and> publishRequest (ie_publish env) request db = Inr (s, db')))"
proof -
  have "br_Root request \<noteq> []" using assms(1) by (auto simp: PublishBatch_def)
  with assms(1-3) obtain d changed es gone where steps:
    "Discover (ie_matcher env) (ie_cwd env) (ie_tree env) root (br_ConfiguredRoots request) = Inr d"
    "mapE (normalizeChangedPath root) (br_ChangedPaths request) = Inr changed"
    "extractChangedSources env (sort (keep_first changed {})) (di_Sources d) registered = Inr (es, gone)"
    "(if es = [] then Some (Inr (snapshot, db))
      else publishChangedSources env registered root snapshot (di_Sources d) (sort (keep_first changed {})) es gone db) = Some (Inr (s, db'))"
    by (auto simp: PublishBatch_def Let_def assms(4) split: prod.splits)
  show ?thesis
  proof (rule that [OF steps(1-3)])
    show "s = snapshot \<and> db' = db" if "es = []" using steps(4) that by simp
    assume "es \<noteq> []"
    then have "NewGraphUpdate (contributionsFromSources es) = Inr \<lparr>gu_contributions = contributionsFromSources es\<rparr>"
      by (simp add: NewGraphUpdate_def contributionsFromSources_def)
    with steps(4) \<open>es \<noteq> []\<close> obtain affectedPaths affected where
      found: "AffectedSources (pe_variableLimit (ie_publish env)) snapshot \<lparr>gu_contributions = contributionsFromSources es\<rparr> db = Inr affectedPaths"
      "extractDiscoveredSources env registered (affectedSources (di_Sources d) (sort (keep_first changed {})) affectedPaths) = Inr affected"
      and "publishStagedBatch env root snapshot (di_Sources d) (es @ affected) gone db = Some (Inr (s, db')) \<or>
       publishResolvedBatch env root snapshot (di_Sources d) (es @ affected) gone db = Some (Inr (s, db'))"
      by (auto simp: publishChangedSources_def Let_def split: if_splits)
    then have "gone = filter (\<lambda>p. sourceAt (di_Sources d) p = None) (map es_path (es @ affected)) \<longrightarrow>
       (\<exists>facts request. batchResolution env root snapshot (di_Sources d) (es @ affected) db facts \<and>
         batchRequest root (es @ affected) facts = Inr request \<and> publishRequest (ie_publish env) request db = Inr (s, db'))"
      using publishBatch_Inr by blast
    with found show "\<exists>affectedPaths affected.
      AffectedSources (pe_variableLimit (ie_publish env)) snapshot \<lparr>gu_contributions = contributionsFromSources es\<rparr> db = Inr affectedPaths \<and>
      extractDiscoveredSources env registered (affectedSources (di_Sources d) (sort (keep_first changed {})) affectedPaths) = Inr affected \<and>
      (gone = filter (\<lambda>p. sourceAt (di_Sources d) p = None) (map es_path (es @ affected)) \<longrightarrow>
       (\<exists>facts request. batchResolution env root snapshot (di_Sources d) (es @ affected) db facts \<and>
         batchRequest root (es @ affected) facts = Inr request \<and> publishRequest (ie_publish env) request db = Inr (s, db')))" by blast
  qed
qed

text \<open>The sources extracted because they are affected.\<close>

lemma affected_Inr:
  assumes "extractDiscoveredSources env registered (affectedSources discovered changedPaths affectedPaths) = Inr affected" "extracts_source env"
  shows "set (map es_path affected) = {p \<in> set affectedPaths. p \<notin> set changedPaths \<and> sourceAt discovered p \<noteq> None}"
    "es \<in> set affected \<Longrightarrow> \<exists>source. sourceAt discovered (es_path es) = Some source \<and> extractedFrom env registered source (es_contribution es)"
proof -
  note each = extractDiscoveredSources_Inr [OF assms]
  have listed: "source \<in> set (affectedSources discovered changedPaths affectedPaths) \<longleftrightarrow>
      (\<exists>p \<in> set affectedPaths. p \<notin> set changedPaths \<and> sourceAt discovered p = Some source)" for source
    unfolding affectedSources_def set_concat set_map by (fastforce split: if_splits option.splits)
  have member: "source \<in> set (affectedSources discovered changedPaths affectedPaths) \<longleftrightarrow>
      so_Path source \<in> set affectedPaths \<and> so_Path source \<notin> set changedPaths \<and> sourceAt discovered (so_Path source) = Some source" for source
    unfolding listed using sourceAt_path by blast
  have "set (map es_path affected) = so_Path ` set (affectedSources discovered changedPaths affectedPaths)"
    unfolding list_all2_paths [OF each] by simp
  also have "\<dots> = {p \<in> set affectedPaths. p \<notin> set changedPaths \<and> sourceAt discovered p \<noteq> None}"
  proof (rule set_eqI)
    show "p \<in> so_Path ` set (affectedSources discovered changedPaths affectedPaths) \<longleftrightarrow>
        p \<in> {p \<in> set affectedPaths. p \<notin> set changedPaths \<and> sourceAt discovered p \<noteq> None}" for p
      unfolding image_iff Bex_def member using sourceAt_path [of discovered p] by auto
  qed
  finally show "set (map es_path affected) = {p \<in> set affectedPaths. p \<notin> set changedPaths \<and> sourceAt discovered p \<noteq> None}" .
  assume "es \<in> set affected"
  then obtain source where source: "source \<in> set (affectedSources discovered changedPaths affectedPaths)"
      "extractedFrom env registered source (es_contribution es)" "es_path es = so_Path source"
    using each [unfolded list_all2_conv_all_nth] unfolding in_set_conv_nth by metis
  then show "\<exists>source. sourceAt discovered (es_path es) = Some source \<and> extractedFrom env registered source (es_contribution es)"
    using member by auto
qed

section \<open>A workspace that lost its only source\<close>

definition sampleIndex :: index_env where
  "sampleIndex = \<lparr>ie_cwd = None, ie_tree = Directory (Some []), ie_matcher = (\<lambda>_ _. False), ie_publish = sampleEnv,
     ie_extract = (\<lambda>_ source _. Inr (emptyContribution (so_Path source))), ie_workerError = (\<lambda>_. None),
     ie_resolvePage = (\<lambda>_ cs _ _ _. Inr (\<lparr>f_Nodes = [], f_Edges = []\<rparr>, map (\<lambda>c. \<lparr>dg_Severity = DiagnosticInfo, dg_Message = c_sourcePath c\<rparr>) cs)),
     ie_rangeOrder = id, ie_initial = (\<lambda>_ _. None)\<rparr>"

definition sampleBatch :: BatchRequest where
  "sampleBatch = \<lparr>br_Root = ''/w'', br_ConfiguredRoots = [], br_ChangedPaths = [''a.go'']\<rparr>"

definition knownStore :: database where
  "knownStore = published sampleEnv \<lparr>pr_Workspace = ''/w'', pr_Update = \<lparr>gu_contributions = [emptyContribution ''a.go'']\<rparr>,
     pr_WorkspaceFacts = \<lparr>f_Nodes = [], f_Edges = []\<rparr>, pr_ReplacedOwners = []\<rparr> emptyDatabase"

definition defaultRegistry :: Registry where
  "defaultRegistry = \<lparr>rg_byExtension = map_of shippedClaims, rg_extractors = [goExtractor, javascriptExtractor, typescriptExtractor]\<rparr>"

definition sampleDeletion :: extractedSource where
  "sampleDeletion = \<lparr>es_projectID = [], es_language = ''go'', es_contribution = contribution_of_input (deletionInput goExtractor ''a.go'')\<rparr>"

lemma knownStore_wf: "wf_db knownStore"
  unfolding knownStore_def by (rule wf_published [OF wf_emptyDatabase]) simp_all

lemma knownStore_current: "currentVersion knownStore ''/w'' = 1"
  by (simp add: knownStore_def currentVersion_published currentVersion_empty)

lemma knownStore_open: "OpenSnapshot ''/w'' None knownStore = Inr \<lparr>sn_Workspace = ''/w'', sn_Version = 1, sn_PublishedAt = ''t''\<rparr>"
  by (simp add: OpenSnapshot_def knownStore_current)
    (simp add: publicationTime_def knownStore_def publishedWith_def Let_def emptyDatabase_def sampleEnv_def currentVersion_def
      workspace_versions_def)

lemma sample_registry: "DefaultRegistry = Inr defaultRegistry"
  by (simp add: DefaultRegistry_eq defaultRegistry_def)

lemma sample_extension: "ForPath defaultRegistry ''a.go'' = Some goExtractor"
proof -
  have "Extension ''a.go'' = ''.go''" by code_simp
  then show ?thesis by (simp add: ForPath_def defaultRegistry_def shippedClaims_def)
qed

lemma sample_deletion_valid:
  "ex_Vocabulary goExtractor = Inr v \<Longrightarrow>
     NewContribution v (deletionInput goExtractor ''a.go'') = Inr (contribution_of_input (deletionInput goExtractor ''a.go''))"
  using shipped_ok(1) by (simp add: NewContribution_iff input_ok_def deletionInput_def extractor_ok_def facts_ok_def)

lemma sample_changed: "extractChangedSources sampleIndex [''a.go''] [] defaultRegistry = Inr ([sampleDeletion], [''a.go''])"
proof -
  obtain v where v: "ex_Vocabulary goExtractor = Inr v" using shipped_ok(1) by (auto simp: extractor_ok_def) (metis sum.collapse(2))
  have "sourceAt [] ''a.go'' = None" by (simp add: sourceAt_def)
  then have "collectChangedPath [] defaultRegistry ''a.go'' ([], []) = Inr ([], [contribution_of_input (deletionInput goExtractor ''a.go'')])"
    by (simp add: collectChangedPath_def sample_extension v sample_deletion_valid [OF v])
  then show ?thesis
    by (simp add: extractChangedSources_def extractDiscoveredSources_def sampleDeletion_def)
      (simp add: contribution_of_input_def deletionInput_def goExtractor_def)
qed

lemma sample_discovery:
  "Abs None ''/w'' = Some ''/w''" "Discover (\<lambda>_ _. False) None (Directory (Some [])) ''/w'' [] = Inr \<lparr>di_Projects = [], di_Sources = []\<rparr>"
  "normalizeChangedPath ''/w'' ''a.go'' = Inr ''a.go''"
  by code_simp+

lemma sample_request: "\<exists>request. batchRequest ''/w'' [sampleDeletion] \<lparr>f_Nodes = [], f_Edges = []\<rparr> = Inr request \<and> pr_Workspace request = ''/w'' \<and>
    map c_sourcePath (gu_contributions (pr_Update request)) = [''a.go''] \<and> length (pr_ReplacedOwners request) = 1"
proof -
  have "targetsOf paths [] p = []" for paths p by (simp add: targetsOf_def uniqueSorted_def)
  then have "withResolvedDependencies [c] \<lparr>f_Nodes = [], f_Edges = []\<rparr> = Inr [c\<lparr>c_dependencies := []\<rparr>]" for c
    by (simp add: withResolvedDependencies_def Let_def WithDependencies_def)
  then show ?thesis
    by (simp add: batchRequest_def contributionsFromSources_def NewGraphUpdate_def sourcePaths_def) (simp add: sampleDeletion_def)
qed

lemma sample_batch: "\<exists>s db'. PublishBatch sampleIndex sampleBatch knownStore = Some (Inr (s, db'))"
proof -
  let ?s = "\<lparr>sn_Workspace = ''/w'', sn_Version = 1, sn_PublishedAt = ''t''\<rparr>"
  from sample_request obtain request where
    request: "batchRequest ''/w'' [sampleDeletion] \<lparr>f_Nodes = [], f_Edges = []\<rparr> = Inr request" "pr_Workspace request = ''/w''"
      "map c_sourcePath (gu_contributions (pr_Update request)) = [''a.go'']" "length (pr_ReplacedOwners request) = 1" by (elim exE conjE)
  have "distinct (map c_sourcePath (gu_contributions (pr_Update request)))" unfolding request(3) by simp
  then have "publishRequest sampleEnv request knownStore = Inr (\<lparr>sn_Workspace = ''/w'', sn_Version = 2, sn_PublishedAt = ''t''\<rparr>, published sampleEnv request knownStore)"
    unfolding publishRequest_eq [OF knownStore_wf sampleEnv_ok] using request(2,4)
    by (simp add: ownersFit_def knownStore_current pruneRetained_def retainedGraphVersions_def ensureDatabaseBudget_def sampleEnv_def)
  then have "Publish sampleEnv request knownStore = Inr (\<lparr>sn_Workspace = ''/w'', sn_Version = 2, sn_PublishedAt = ''t''\<rparr>, published sampleEnv request knownStore)"
    using request(2) by (simp add: Publish_def publish_def)
  moreover have "resolveIncrementalWorkspaceFacts sampleIndex (storeReads knownStore) ?s [] [sampleDeletion] [''a.go''] =
      Some (Inr (\<lparr>f_Nodes = [], f_Edges = []\<rparr>, []))"
    by (simp add: resolveIncrementalWorkspaceFacts_def sample_registry discoveredGroups_def uniqueSorted_def)
  ultimately have publication: "publishResolvedBatch sampleIndex ''/w'' ?s [] [sampleDeletion] [''a.go''] knownStore =
      Some (Inr (\<lparr>sn_Workspace = ''/w'', sn_Version = 2, sn_PublishedAt = ''t''\<rparr>, published sampleEnv request knownStore))"
    using request(1) by (simp add: publishResolvedBatch_def) (simp add: sampleIndex_def)
  have "\<not> noSnapshot ?s" by (simp add: noSnapshot_def)
  from AffectedSources_eq [OF this, of "\<lparr>gu_contributions = contributionsFromSources [sampleDeletion]\<rparr>"]
  obtain affected where affected: "AffectedSources (pe_variableLimit (ie_publish sampleIndex)) ?s
      \<lparr>gu_contributions = contributionsFromSources [sampleDeletion]\<rparr> knownStore = Inr affected"
    by (simp add: contributionsFromSources_def)
  have none: "sourceAt [] = (\<lambda>_. None)" by (rule ext) (simp add: sourceAt_def)
  have nobody: "affectedSources [] changed ps = []" for changed ps
    unfolding affectedSources_def none option.case if_cancel by (induction ps) simp_all
  have "publishChangedSources sampleIndex defaultRegistry ''/w'' ?s [] [''a.go''] [sampleDeletion] [''a.go''] knownStore =
      publishResolvedBatch sampleIndex ''/w'' ?s [] [sampleDeletion] [''a.go''] knownStore"
    using affected by (simp add: publishChangedSources_def NewGraphUpdate_def contributionsFromSources_def nobody
        extractDiscoveredSources_def resolverProjectionPageSize_def)
  moreover have "PublishBatch sampleIndex sampleBatch knownStore =
      publishChangedSources sampleIndex defaultRegistry ''/w'' ?s [] [''a.go''] [sampleDeletion] [''a.go''] knownStore"
  proof -
    have env: "ie_cwd sampleIndex = None" "ie_matcher sampleIndex = (\<lambda>_ _. False)" "ie_tree sampleIndex = Directory (Some [])"
      by (simp_all add: sampleIndex_def)
    have request: "br_Root sampleBatch = ''/w''" "br_ConfiguredRoots sampleBatch = []" "br_ChangedPaths sampleBatch = [''a.go'']"
      by (simp_all add: sampleBatch_def)
    show ?thesis
      by (simp add: PublishBatch_def env request sample_discovery sample_registry knownStore_open sample_changed Let_def)
  qed
  ultimately show ?thesis using publication by auto
qed

text \<open>Two sources of a batch: one the store lists, one it does not know.\<close>

definition sampleOverrides :: "extractedSource list" where
  "sampleOverrides = map (\<lambda>p. \<lparr>es_projectID = ''p'', es_language = ''go'', es_contribution = emptyContribution p\<rparr>) [''b'', ''c'']"

definition sampleAnswer :: "Contribution list \<Rightarrow> Facts \<times> Diagnostic list" where
  "sampleAnswer cs = (\<lparr>f_Nodes = [], f_Edges = []\<rparr>, map (\<lambda>c. \<lparr>dg_Severity = DiagnosticInfo, dg_Message = c_sourcePath c\<rparr>) cs)"

lemma sampleIndex_resolves: "ie_resolvePage sampleIndex language cs project index view = Inr (sampleAnswer cs)"
  by (simp add: sampleIndex_def sampleAnswer_def)

lemma sampleOverrides_at:
  assumes "source \<in> set sampleOverrides"
  shows "overrideAt sampleOverrides (es_path source) = Some source" "es_projectID source = ''p''" "es_language source = ''go''"
  using assms by (auto simp: sampleOverrides_def overrideAt_def es_path_def emptyContribution_def)

lemma sampleOverrides_contributions: "es_contribution ` set sampleOverrides = {emptyContribution ''b'', emptyContribution ''c''}"
  by (simp add: sampleOverrides_def)

lemma sampleOverrides_paths: "map es_path sampleOverrides = [''b'', ''c'']"
  by (simp add: sampleOverrides_def es_path_def emptyContribution_def)

section \<open>Properties\<close>

text \<open>A changed path is accepted exactly if it is not empty and names something strictly below the workspace root once
  cleaned, relative paths being taken from the root; the result is its path from the root, in the
  form in which the workspace discovery names its files.\<close>

theorem normalizeChangedPath_iff:
  assumes "IsAbs root"
  shows "normalizeChangedPath root changedPath = Inr p \<longleftrightarrow>
    changedPath \<noteq> [] \<and> walkPath p \<and> path_comps (changedTarget root changedPath) = path_comps root @ SplitOn slash p"
  using assms by (rule normalizeChangedPath_Inr)

lemma normalizeChangedPath_iff_witness:
  "normalizeChangedPath ''/w'' ''./src/../main.go'' = Inr ''main.go''"
proof -
  have "IsAbs ''/w''" by code_simp
  from normalizeChangedPath_iff [OF this, of "''./src/../main.go''" "''main.go''"] show ?thesis
    by simp code_simp
qed



text \<open>A large batch resolves from inside the publication: once its sources are staged, resolving a project hands the
  resolver exactly the staged sources of that project and language, each once. A stager accepts only sources that
  have a project, so that none of them is a deletion.\<close>

theorem staged_resolution_exact:
  assumes "wf_db db" "StageResolverSources (resolverStageSources sources) (newStager env root current) = Inr stager"
    "sources \<noteq> []" "distinct (map es_path sources)" "env_ok (ie_publish env)"
    "sn_Workspace s = sn_Workspace current" "sn_Version s = sn_Version current" "sn_Version current \<noteq> 0"
    "project \<noteq> []" "language \<noteq> []"
    "\<forall>cs. cs \<noteq> [] \<longrightarrow> ie_resolvePage env language cs project (snapshotResolverIndex (stagerReads db stager) s sources) view = Inr (r cs)"
    "mset (ie_rangeOrder env (map es_path sources)) = mset (map es_path sources)"
  shows "\<exists>batches. resolveProjectionPagesOf env language (stagerReads db stager) s project sources deleted view =
      Some (Inr (concat (map (\<lambda>b. f_Edges (fst (r b))) batches), concat (map (\<lambda>b. snd (r b)) batches))) \<and>
    (\<forall>b \<in> set batches. b \<noteq> [] \<and> length b \<le> nat resolverProjectionPageSize) \<and>
    distinct (map c_sourcePath (concat batches)) \<and>
    set (concat batches) = {es_contribution source | source. source \<in> set sources \<and> es_path source \<notin> set deleted \<and>
      es_projectID source = project \<and> es_language source = language} \<and>
    (\<forall>source \<in> set sources. es_projectID source \<noteq> [])"
proof -
  let ?files = "ofProject project language (stagerFiles db stager)"
  let ?resolve = "appendResolution env language project (snapshotResolverIndex (stagerReads db stager) s sources) view"
  have limit: "3 \<le> pe_variableLimit (ie_publish env)" using assms(5) by (simp add: env_ok_def)
  note rows = staged_rows [OF assms(2,3) limit]
  have total: "?resolve cs state = Inr (addResolution r [cs] state)" if "cs \<noteq> []" for cs state
    using assms(11) that by (intro appendResolution_total) blast
  have ready: "\<not> otherSnapshot s stager \<and> sg_created stager \<and> project \<noteq> [] \<and> language \<noteq> []"
    using rows assms(6-10) by (simp add: otherSnapshot_def)
  have dist: "distinct (map fst ?files)"
    unfolding ofProject_def stagerFiles_def by (intro distinct_map_filterI distinct_visibleFiles assms(1))
  have named: "(project, language, fst f) \<in> (\<lambda>source. (es_projectID source, es_language source, es_path source)) ` set sources" if "f \<in> set ?files" for f
    using stager_files(2) [OF rows(3) that] rows(4) by simp
  then have nonempty: "list_all (\<lambda>f. fst f \<noteq> []) ?files" using rows(1) by (fastforce simp: list_all_iff)
  have order: "mset (ie_rangeOrder env (remdups (map es_path sources))) = mset (remdups (map es_path sources))"
    using assms(4,12) by (simp add: distinct_remdups_id)
  have reads: "st_ProjectionPage (stagerReads db stager) = (\<lambda>s request. StagerProjectionPage db s request stager)"
    by (simp add: stagerReads_def)
  obtain batches where batches:
    "resolveProjectionPagesOf env language (stagerReads db stager) s project sources deleted view =
      Some (Inr (concat (map (\<lambda>b. f_Edges (fst (r b))) batches), concat (map (\<lambda>b. snd (r b)) batches)))"
    "\<forall>b \<in> set batches. b \<noteq> [] \<and> length b \<le> nat resolverProjectionPageSize" "distinct (map c_sourcePath (concat batches))"
    "set (concat batches) = {es_contribution source | source. source \<in> set sources \<and>
      overrideAt sources (es_path source) = Some source \<and> es_path source \<notin> set deleted \<and>
      (es_path source \<in> fst ` set ?files \<or> es_projectID source = project \<and> es_language source = language)}"
    unfolding resolveProjectionPagesOf_def Let_def reads
    using stager_resolution.resolution_exact [OF ready dist nonempty mapE_total total order] by blast
  have last: "overrideAt sources (es_path source) = Some source" if "source \<in> set sources" for source
    unfolding overrideAt_def using that assms(4)
    by (intro map_of_is_SomeI) (simp_all add: rev_map [symmetric] comp_def)
  have listed: "es_projectID source = project \<and> es_language source = language"
    if "source \<in> set sources" "es_path source \<in> fst ` set ?files" for source
  proof -
    from that(2) obtain f where f: "f \<in> set ?files" "fst f = es_path source" by auto
    from named [OF f(1)] obtain other where "other \<in> set sources" "es_projectID other = project" "es_language other = language"
        "es_path other = es_path source" using f(2) by auto
    with distinct_map_eqD [OF assms(4) this(1) that(1) this(4)] show ?thesis by simp
  qed
  have "set (concat batches) = {es_contribution source | source. source \<in> set sources \<and> es_path source \<notin> set deleted \<and>
      es_projectID source = project \<and> es_language source = language}"
    unfolding batches(4) using last listed by blast
  then show ?thesis using batches(1-3) rows(1) by (auto simp: list_all_iff)
qed

lemma staged_resolution_exact_witness:
  "\<exists>stager batches diagnostics. StageResolverSources (resolverStageSources sampleOverrides) (newStager sampleIndex ''w'' sampleSnapshot) = Inr stager \<and>
     resolveProjectionPagesOf sampleIndex ''go'' (stagerReads sampleStore stager) sampleSnapshot ''p'' sampleOverrides [] None =
       Some (Inr ([], diagnostics)) \<and> set (concat batches) = {emptyContribution ''b'', emptyContribution ''c''}"
proof -
  have named: "list_all namedSource (resolverStageSources sampleOverrides)" "resolverStageSources sampleOverrides \<noteq> []"
    "sampleOverrides \<noteq> []" "distinct (map es_path sampleOverrides)"
    by (simp_all add: sampleOverrides_paths) (simp_all add: resolverStageSources_def sampleOverrides_def namedSource_def es_path_def emptyContribution_def)
  obtain stager where stager: "StageResolverSources (resolverStageSources sampleOverrides) (newStager sampleIndex ''w'' sampleSnapshot) = Inr stager"
    using StageResolverSources_named [OF named(1,2), of "newStager sampleIndex ''w'' sampleSnapshot"]
    by (auto simp: newStager_def sampleIndex_def sampleEnv_def)
  have total: "\<forall>cs. cs \<noteq> [] \<longrightarrow> ie_resolvePage sampleIndex ''go'' cs ''p'' (snapshotResolverIndex (stagerReads sampleStore stager) sampleSnapshot sampleOverrides) None =
      Inr (sampleAnswer cs)" by (simp add: sampleIndex_resolves)
  have env: "env_ok (ie_publish sampleIndex)" "mset (ie_rangeOrder sampleIndex xs) = mset xs" for xs
    using sampleEnv_ok by (simp_all add: sampleIndex_def)
  from staged_resolution_exact [OF sampleStore_wf stager named(3,4) env(1) refl refl _ _ _ total env(2), of "[]"]
  obtain batches where batches: "resolveProjectionPagesOf sampleIndex ''go'' (stagerReads sampleStore stager) sampleSnapshot ''p'' sampleOverrides [] None =
      Some (Inr (concat (map (\<lambda>b. f_Edges (fst (sampleAnswer b))) batches), concat (map (\<lambda>b. snd (sampleAnswer b)) batches)))"
    "set (concat batches) = {es_contribution source | source. source \<in> set sampleOverrides \<and> es_path source \<notin> set [] \<and>
      es_projectID source = ''p'' \<and> es_language source = ''go''}" by (auto simp: sampleSnapshot_def)
  have "concat (map (\<lambda>b. f_Edges (fst (sampleAnswer b))) bs) = []" for bs by (simp add: sampleAnswer_def)
  moreover have "set (concat batches) = {emptyContribution ''b'', emptyContribution ''c''}"
    unfolding batches(2) sampleOverrides_contributions [symmetric] using sampleOverrides_at by auto
  ultimately show ?thesis using stager batches(1) by auto
qed

text \<open>C9. A large batch that removes a source is never published: a deletion has no project, so staging it fails, and with it the
  whole batch, whatever its other sources.\<close>

theorem staged_batch_with_deletion_fails:
  assumes "extractChangedSources env paths discovered registered = Inr (changed, deleted)" "deleted \<noteq> []"
  shows "publishStagedBatch env root snapshot discovered (changed @ affected) deleted db = Some (Inl (StoreError InvalidRequest))"
proof -
  from assms(1) obtain sources deletions extracted where run: "foldE (collectChangedPath discovered registered) paths ([], []) = Inr (sources, deletions)"
    and changed: "changed = extracted @ map (\<lambda>c. \<lparr>es_projectID = [], es_language = md_Name (c_metadata c), es_contribution = c\<rparr>) deletions"
    and deleted: "deleted = map c_sourcePath deletions"
    by (auto simp: extractChangedSources_def split: prod.splits)
  obtain c where "c \<in> set deletions" using assms(2) deleted by (cases deletions) auto
  then have "\<lparr>rs_ProjectID = [], rs_Language = md_Name (c_metadata c), rs_SourcePath = c_sourcePath c\<rparr> \<in>
      set (resolverStageSources (changed @ affected))"
    by (auto simp: changed resolverStageSources_def es_path_def image_iff)
  then have "\<not> list_all namedSource (resolverStageSources (changed @ affected))"
    unfolding list_all_iff namedSource_def by fastforce
  note fails = StageResolverSources_unnamed [OF this]
  have "changed \<noteq> []" using \<open>c \<in> set deletions\<close> changed by auto
  then have "NewGraphUpdate (contributionsFromSources (changed @ affected)) = Inr \<lparr>gu_contributions = contributionsFromSources (changed @ affected)\<rparr>"
    by (simp add: NewGraphUpdate_def contributionsFromSources_def)
  then show ?thesis by (simp add: publishStagedBatch_def stagedBatchRequest_def fails)
qed

lemma staged_batch_with_deletion_fails_witness:
  "publishStagedBatch sampleIndex ''/w'' \<lparr>sn_Workspace = ''/w'', sn_Version = 1, sn_PublishedAt = ''t''\<rparr> [] ([sampleDeletion] @ sampleOverrides) [''a.go'']
     knownStore = Some (Inl (StoreError InvalidRequest))"
  by (rule staged_batch_with_deletion_fails [OF sample_changed]) simp

text \<open>Whose file node an ID is: a source of the given contributions, or the path a node of the resolution has.\<close>

definition ownsFile :: "Contribution list \<Rightarrow> Facts \<Rightarrow> str \<Rightarrow> str \<Rightarrow> bool" where
  "ownsFile contributions facts p i \<longleftrightarrow>
     (\<exists>c \<in> set contributions. \<exists>n \<in> set (f_Nodes (c_facts c)). n_Kind n = ''file'' \<and> n_ID n = i \<and> c_sourcePath c = p) \<or>
     (\<exists>n \<in> set (f_Nodes facts). n_Kind n = ''file'' \<and> n_ID n = i \<and> sp_Path (ev_Span (n_Evidence n)) = p \<and> p \<noteq> [])"

definition oneOwner :: "Contribution list \<Rightarrow> Facts \<Rightarrow> bool" where
  "oneOwner contributions facts \<longleftrightarrow> (\<forall>i p q. ownsFile contributions facts p i \<longrightarrow> ownsFile contributions facts q i \<longrightarrow> p = q)"

lemma ownsFile_listed: "ownsFile contributions facts p i \<longleftrightarrow> (i, p) \<in> set (rev (contributionFiles contributions @ resolvedFiles facts))"
  by (auto simp: ownsFile_def contributionFiles_def resolvedFiles_def)

lemma pathsByFileID_iff:
  assumes "oneOwner contributions facts"
  shows "pathsByFileID contributions facts i = Some p \<longleftrightarrow> ownsFile contributions facts p i"
proof
  show "ownsFile contributions facts p i" if "pathsByFileID contributions facts i = Some p"
    using that unfolding ownsFile_listed pathsByFileID_eq by (rule map_of_SomeD)
  assume owns: "ownsFile contributions facts p i"
  then obtain q where q: "pathsByFileID contributions facts i = Some q"
    unfolding ownsFile_listed pathsByFileID_eq by (blast dest: weak_map_of_SomeI)
  then have "ownsFile contributions facts q i" unfolding ownsFile_listed pathsByFileID_eq by (rule map_of_SomeD)
  then show "pathsByFileID contributions facts i = Some p" using assms owns q unfolding oneOwner_def by metis
qed

lemma set_targetsOf:
  "t \<in> set (targetsOf paths edges p) \<longleftrightarrow>
     t \<noteq> p \<and> (\<exists>edge \<in> set edges. paths (e_SourceID edge) = Some p \<and> paths (e_TargetID edge) = Some t)"
  by (auto simp: targetsOf_def uniqueSorted_def split: option.splits) metis

lemma dependency_image:
  "d \<in> (\<lambda>t. \<lparr>dep_SourcePath = p, dep_TargetPath = t\<rparr>) ` T \<longleftrightarrow> dep_SourcePath d = p \<and> dep_TargetPath d \<in> T"
  by (cases d) auto

lemma resolvedDependency_exact:
  assumes "oneOwner contributions facts"
  shows "d \<in> set (c_dependencies (resolvedDependency (pathsByFileID contributions facts) (f_Edges facts) c)) \<longleftrightarrow>
    dep_SourcePath d = c_sourcePath c \<and> dep_TargetPath d \<noteq> c_sourcePath c \<and>
    (\<exists>edge \<in> set (f_Edges facts). ownsFile contributions facts (c_sourcePath c) (e_SourceID edge) \<and>
       ownsFile contributions facts (dep_TargetPath d) (e_TargetID edge))"
proof -
  let ?paths = "pathsByFileID contributions facts"
  note targets = set_targetsOf [of _ ?paths, unfolded pathsByFileID_iff [OF assms]]
  show ?thesis by (simp add: resolvedDependency_def targets dependency_image)
qed


definition sampleFileNode :: "str \<Rightarrow> Node" where
  "sampleFileNode p = \<lparr>n_ID = ''file:'' @ p, n_Kind = ''file'', n_Label = p, n_QualifiedName = p,
     n_Evidence = \<lparr>ev_Span = \<lparr>sp_Path = p, sp_StartLine = 1, sp_StartColumn = 1, sp_EndLine = 1, sp_EndColumn = 2\<rparr>,
       ev_FileHash = ''h'', ev_Extractor = ''go@v0'', ev_Provenance = ''p'', ev_Confidence = ConfidenceExtracted\<rparr>\<rparr>"

definition sampleFileContribution :: "str \<Rightarrow> Contribution" where
  "sampleFileContribution p = (emptyContribution p)\<lparr>c_facts := \<lparr>f_Nodes = [sampleFileNode p, (sampleFileNode p)\<lparr>n_ID := ''class:'' @ p, n_Kind := ''class''\<rparr>], f_Edges = []\<rparr>\<rparr>"

definition sampleFileEdge :: "str \<Rightarrow> str \<Rightarrow> Edge" where
  "sampleFileEdge i j = \<lparr>e_SourceID = i, e_TargetID = j, e_Relation = ''imports_from'', e_Evidence = n_Evidence (sampleFileNode ''a'')\<rparr>"


text \<open>The resolution of a batch has no nodes, so a dependency of a batch is always on another source of it: a changed source that
  refers to unchanged ones loses the dependencies on them that the previous version recorded.\<close>

lemma batch_forgets_dependencies:
  assumes "withResolvedDependencies contributions facts = Inr updated" "f_Nodes facts = []" "c \<in> set updated" "d \<in> set (c_dependencies c)"
  shows "dep_TargetPath d \<in> c_sourcePath ` set contributions"
proof -
  obtain c0 where "c = resolvedDependency (pathsByFileID contributions facts) (f_Edges facts) c0"
    using assms(3) withResolvedDependencies_Inr [OF assms(1)] by auto
  then have "\<exists>edge :: Edge. pathsByFileID contributions facts (e_TargetID edge) = Some (dep_TargetPath d)"
    using assms(4) by (auto simp: resolvedDependency_def set_targetsOf)
  then obtain edge :: Edge where "pathsByFileID contributions facts (e_TargetID edge) = Some (dep_TargetPath d)" ..
  then have "(e_TargetID edge, dep_TargetPath d) \<in> set (rev (contributionFiles contributions @ resolvedFiles facts))"
    unfolding pathsByFileID_eq by (rule map_of_SomeD)
  then show ?thesis using assms(2) by (auto simp: contributionFiles_def resolvedFiles_def)
qed

text \<open>The sources of a batch: the changed ones, and those affected by them that still exist.\<close>

definition affectedBy :: "database \<Rightarrow> Snapshot \<Rightarrow> str set \<Rightarrow> extractedSource list \<Rightarrow> str set" where
  "affectedBy db snapshot paths sources =
     dependents db snapshot (set (changedTargets db snapshot (filter (\<lambda>c. c_sourcePath c \<in> paths) (map es_contribution sources))))"

lemma finite_dependents: "finite (dependents db s targets)"
proof (rule finite_subset)
  show "dependents db s targets \<subseteq> fst ` set (contents db contribution_dependencies (sn_Workspace s) (sn_Version s))"
    by (force simp: dependents_def)
qed simp

lemma sourceAt_None: "sourceAt sources p = None \<longleftrightarrow> p \<notin> so_Path ` set sources"
  by (simp add: sourceAt_def map_of_eq_None_iff image_image)

lemma batch_sources:
  fixes db :: database and es affected :: "extractedSource list" and discovered :: "Source list"
  defines "relevant \<equiv> set (map es_path es)"
  assumes "\<not> noSnapshot snapshot" "es \<noteq> []"
    and "AffectedSources variableLimit snapshot \<lparr>gu_contributions = contributionsFromSources es\<rparr> db = Inr affectedPaths"
    and "set (map es_path affected) = {p \<in> set affectedPaths. p \<notin> set changedPaths \<and> sourceAt discovered p \<noteq> None}"
    and "relevant = {p \<in> set changedPaths. sourceAt discovered p \<noteq> None \<or> known p}"
  shows "set (map es_path (es @ affected)) = relevant \<union> affectedBy db snapshot relevant (es @ affected) \<inter> so_Path ` set discovered"
proof -
  have none: "contributionsFromSources es \<noteq> []" using assms(3) by (simp add: contributionsFromSources_def)
  let ?targets = "set (changedTargets db snapshot (contributionsFromSources es))"
  have "set affectedPaths = dependents db snapshot ?targets - ?targets"
    using AffectedSources_eq [OF assms(2), of "\<lparr>gu_contributions = contributionsFromSources es\<rparr>" variableLimit db] assms(4) none
    by (simp add: finite_dependents)
  moreover have "?targets \<subseteq> relevant"
    by (auto simp: set_changedTargets contributionsFromSources_def es_path_def relevant_def)
  moreover have "affectedBy db snapshot relevant (es @ affected) = dependents db snapshot ?targets"
  proof -
    have own: "filter (\<lambda>c. c_sourcePath c \<in> relevant) (map es_contribution es) = map es_contribution es"
      by (simp add: filter_id_conv relevant_def es_path_def)
    have other: "filter (\<lambda>c. c_sourcePath c \<in> relevant) (map es_contribution affected) = []"
      using assms(5,6) by (fastforce simp: filter_empty_conv es_path_def)
    show ?thesis by (simp add: affectedBy_def contributionsFromSources_def own other del: filter_map)
  qed
  ultimately have "set (map es_path affected) \<union> relevant = relevant \<union> affectedBy db snapshot relevant (es @ affected) \<inter> so_Path ` set discovered"
    unfolding assms(5) sourceAt_None using assms(6) unfolding sourceAt_None by blast
  then show ?thesis by (auto simp: relevant_def)
qed

text \<open>What a source of a batch is published as: its extraction, or nothing if it is gone, with the dependencies on the other
  sources of the batch that the resolved edges lead to.\<close>

definition publishedAs :: "index_env \<Rightarrow> Registry \<Rightarrow> Source list \<Rightarrow> extractedSource list \<Rightarrow> Facts \<Rightarrow> extractedSource \<Rightarrow> Contribution \<Rightarrow> bool" where
  "publishedAs env registered discovered sources facts source c \<longleftrightarrow>
     (case sourceAt discovered (es_path source) of
        Some found \<Rightarrow> extractedFrom env registered found (es_contribution source)
      | None \<Rightarrow> c_facts (es_contribution source) = \<lparr>f_Nodes = [], f_Edges = []\<rparr>) \<and>
     c = (es_contribution source)\<lparr>c_dependencies := c_dependencies c\<rparr> \<and>
     (oneOwner (map es_contribution sources) facts \<longrightarrow>
       (\<forall>d. d \<in> set (c_dependencies c) \<longleftrightarrow> dep_SourcePath d = es_path source \<and> dep_TargetPath d \<noteq> es_path source \<and>
          (\<exists>edge \<in> set (f_Edges facts). ownsFile (map es_contribution sources) facts (es_path source) (e_SourceID edge) \<and>
             ownsFile (map es_contribution sources) facts (dep_TargetPath d) (e_TargetID edge))))"

lemma batch_publication:
  assumes "wf_db db" "env_ok (ie_publish env)" "root \<noteq> []"
    "batchResolution env root snapshot discovered sources db facts" "batchRequest root sources facts = Inr request"
    "publishRequest (ie_publish env) request db = Inr (s, db')"
    "\<And>source. source \<in> set sources \<Longrightarrow> case sourceAt discovered (es_path source) of
        Some found \<Rightarrow> extractedFrom env registered found (es_contribution source)
      | None \<Rightarrow> c_facts (es_contribution source) = \<lparr>f_Nodes = [], f_Edges = []\<rparr>"
    "set (map es_path sources) = replaced_paths" "currentVersion db root \<noteq> 0"
  defines "v \<equiv> currentVersion db root"
  shows "\<exists>cs. sn_Workspace s = root \<and> sn_Version s = v + 1 \<and> distinct (map es_path sources) \<and>
    set (map es_path sources) = replaced_paths \<and> batchResolution env root snapshot discovered sources db facts \<and>
    list_all2 (publishedAs env registered discovered sources facts) sources cs \<and>
    (\<forall>t. contents db' t root (v + 1) =
       filter (\<lambda>(p, _). p \<notin> set (map es_path sources)) (contents db t root v) @
       concat (map (\<lambda>c. map (Pair (c_sourcePath c)) (stored_payloads c t)) cs)) \<and>
    nodes_at db' root (v + 1) = [] \<and>
    edges_at db' root (v + 1) = updated_edges (sort (map es_path sources)) facts (edges_at db root v) \<and>
    (\<forall>u. retention_boundary (v + 1) \<le> u \<and> u \<le> v \<longrightarrow> same_view db db' root u) \<and>
    (\<forall>ws u. ws \<noteq> root \<longrightarrow> same_view db db' ws u)"
proof -
  note request = batchRequest_Inr [OF assms(5)]
  define paths where "paths = pathsByFileID (contributionsFromSources sources) facts"
  define cs where "cs = map (resolvedDependency paths (f_Edges facts)) (contributionsFromSources sources)"
  have cs: "gu_contributions (pr_Update request) = cs" by (simp add: request(4) cs_def paths_def)
  have cs_paths: "map c_sourcePath cs = map es_path sources"
    by (simp add: cs_def contributionsFromSources_def resolvedDependency_def es_path_def comp_def)
  then have cs_set: "c_sourcePath ` set cs = set (map es_path sources)" by (metis list.set_map)
  have "publishedAs env registered discovered sources facts source (resolvedDependency paths (f_Edges facts) (es_contribution source))"
    if "source \<in> set sources" for source
    unfolding publishedAs_def
  proof (intro conjI impI allI)
    assume "oneOwner (map es_contribution sources) facts"
    then show "d \<in> set (c_dependencies (resolvedDependency paths (f_Edges facts) (es_contribution source))) \<longleftrightarrow>
        dep_SourcePath d = es_path source \<and> dep_TargetPath d \<noteq> es_path source \<and>
        (\<exists>edge \<in> set (f_Edges facts). ownsFile (map es_contribution sources) facts (es_path source) (e_SourceID edge) \<and>
             ownsFile (map es_contribution sources) facts (dep_TargetPath d) (e_TargetID edge))" for d
      unfolding paths_def contributionsFromSources_def es_path_def by (rule resolvedDependency_exact)
  qed (use assms(7) [OF that] in \<open>simp_all add: resolvedDependency_def\<close>)
  then have each: "list_all2 (publishedAs env registered discovered sources facts) sources cs"
    unfolding cs_def contributionsFromSources_def list.map_comp comp_def list_all2_map2 by (intro list.rel_refl_strong)
  note view = publishRequest_new_version [OF assms(1,2,6), unfolded request(1-3) cs cs_set batchResolution_nodes [OF assms(4)]]
  then have version: "sn_Workspace s = root" "sn_Version s = v + 1" by (simp_all add: v_def)
  have shown: "\<forall>t. contents db' t root (v + 1) = filter (\<lambda>(p, _). p \<notin> set (map es_path sources)) (contents db t root v) @
       concat (map (\<lambda>c. map (Pair (c_sourcePath c)) (stored_payloads c t)) cs)"
    "nodes_at db' root (v + 1) = []"
    "edges_at db' root (v + 1) = updated_edges (sort (map es_path sources)) facts (edges_at db root v)"
    using view assms(9) unfolding version(2) v_def [symmetric] updated_contents_def fresh_rows.simps if_not_P [OF assms(9) [folded v_def]] by blast+
  have publication: "publish (ie_publish env) None request db = Inr (s, db')" using assms(3,6) request(1) by (simp add: publish_def)
  note keeps = publish_keeps_view [OF assms(1,2) publication, unfolded request(1)]
  have "distinct (map es_path sources)" using publishRequest_Inr(2) [OF assms(1,2,6)] unfolding cs cs_paths .
  with each version shown show ?thesis
    by (intro exI [of _ cs] conjI allI impI keeps assms(4,8)) (auto simp: v_def)
qed

text \<open>C7. A batch that succeeds on a known workspace either finds nothing relevant and changes nothing, or publishes the next version, in
  which exactly the sources of the batch are replaced: every changed path that is a source or was one, and, of the others,
  exactly the existing sources that depended on one of those that is new or whose exported surfaces changed. A source that exists
  shows what its extraction yields; one that is gone shows no facts; all others show what they showed. The edges of the version are those of the
  other owners and those the resolution of the batch yields. The dependencies of the replaced sources are
  those on other sources of the batch that a resolved edge between file nodes leads to, and no others, provided that no two
  sources of the batch have a file node of one ID. Earlier retained versions and other workspaces show what they showed.\<close>

theorem PublishBatch_publishes:
  assumes "wf_db db" "env_ok (ie_publish env)" "extracts_source env" "Abs (ie_cwd env) (br_Root request) = Some root"
    "OpenSnapshot root None db = Inr snapshot" "PublishBatch env request db = Some (Inr (s, db'))"
  shows "\<exists>d registered changed. Discover (ie_matcher env) (ie_cwd env) (ie_tree env) root (br_ConfiguredRoots request) = Inr d \<and>
    DefaultRegistry = Inr registered \<and> mapE (normalizeChangedPath root) (br_ChangedPaths request) = Inr changed \<and>
    (let relevant = {p \<in> set changed. sourceAt (di_Sources d) p \<noteq> None \<or> ForPath registered p \<noteq> None}; v = sn_Version snapshot in
     if relevant = {} then s = snapshot \<and> db' = db
     else \<exists>sources facts cs. sn_Workspace s = root \<and> sn_Version s = v + 1 \<and> distinct (map es_path sources) \<and>
       set (map es_path sources) = relevant \<union> affectedBy db snapshot relevant sources \<inter> so_Path ` set (di_Sources d) \<and>
       batchResolution env root snapshot (di_Sources d) sources db facts \<and>
       list_all2 (publishedAs env registered (di_Sources d) sources facts) sources cs \<and>
       (\<forall>t. contents db' t root (v + 1) =
          filter (\<lambda>(p, _). p \<notin> set (map es_path sources)) (contents db t root v) @
          concat (map (\<lambda>c. map (Pair (c_sourcePath c)) (stored_payloads c t)) cs)) \<and>
       nodes_at db' root (v + 1) = [] \<and>
       edges_at db' root (v + 1) = updated_edges (sort (map es_path sources)) facts (edges_at db root v) \<and>
       (\<forall>u. retention_boundary (v + 1) \<le> u \<and> u \<le> v \<longrightarrow> same_view db db' root u) \<and>
       (\<forall>ws u. ws \<noteq> root \<longrightarrow> same_view db db' ws u))"
proof -
  let ?v = "currentVersion db root"
  have snapshot: "sn_Version snapshot = ?v" "sn_Workspace snapshot = root" "root \<noteq> []" "publicationTime db root ?v \<noteq> None"
    using assms(5) by (auto simp: OpenSnapshot_def split: if_splits option.splits)
  then have "1 \<le> ?v" unfolding publicationTime_None using wf_version_positive [OF assms(1)] by blast
  then have known: "\<not> noSnapshot snapshot" "?v \<noteq> 0" using snapshot by (simp_all add: noSnapshot_def)
  obtain registered where registered: "DefaultRegistry = Inr registered" using DefaultRegistry_eq by blast
  obtain d changed es gone where d: "Discover (ie_matcher env) (ie_cwd env) (ie_tree env) root (br_ConfiguredRoots request) = Inr d"
    and changed: "mapE (normalizeChangedPath root) (br_ChangedPaths request) = Inr changed"
    and es: "extractChangedSources env (sort (keep_first changed {})) (di_Sources d) registered = Inr (es, gone)"
    and unchanged: "es = [] \<Longrightarrow> s = snapshot \<and> db' = db"
    and some: "es \<noteq> [] \<Longrightarrow> \<exists>affectedPaths affected.
      AffectedSources (pe_variableLimit (ie_publish env)) snapshot \<lparr>gu_contributions = contributionsFromSources es\<rparr> db = Inr affectedPaths \<and>
      extractDiscoveredSources env registered (affectedSources (di_Sources d) (sort (keep_first changed {})) affectedPaths) = Inr affected \<and>
      (gone = filter (\<lambda>p. sourceAt (di_Sources d) p = None) (map es_path (es @ affected)) \<longrightarrow>
       (\<exists>facts request. batchResolution env root snapshot (di_Sources d) (es @ affected) db facts \<and>
         batchRequest root (es @ affected) facts = Inr request \<and> publishRequest (ie_publish env) request db = Inr (s, db')))"
    by (rule PublishBatch_Inr [OF assms(6,4,5) registered]) blast
  let ?relevant = "{p \<in> set changed. sourceAt (di_Sources d) p \<noteq> None \<or> ForPath registered p \<noteq> None}"
  note extraction = extractChangedSources_Inr [OF es assms(3)]
  have paths: "set (map es_path es) = ?relevant" unfolding extraction(1) by auto
  have found: ?thesis if "if ?relevant = {} then s = snapshot \<and> db' = db
     else \<exists>sources facts cs. sn_Workspace s = root \<and> sn_Version s = ?v + 1 \<and> distinct (map es_path sources) \<and>
       set (map es_path sources) = ?relevant \<union> affectedBy db snapshot ?relevant sources \<inter> so_Path ` set (di_Sources d) \<and>
       batchResolution env root snapshot (di_Sources d) sources db facts \<and>
       list_all2 (publishedAs env registered (di_Sources d) sources facts) sources cs \<and>
       (\<forall>t. contents db' t root (?v + 1) =
          filter (\<lambda>(p, _). p \<notin> set (map es_path sources)) (contents db t root ?v) @
          concat (map (\<lambda>c. map (Pair (c_sourcePath c)) (stored_payloads c t)) cs)) \<and>
       nodes_at db' root (?v + 1) = [] \<and>
       edges_at db' root (?v + 1) = updated_edges (sort (map es_path sources)) facts (edges_at db root ?v) \<and>
       (\<forall>u. retention_boundary (?v + 1) \<le> u \<and> u \<le> ?v \<longrightarrow> same_view db db' root u) \<and>
       (\<forall>ws u. ws \<noteq> root \<longrightarrow> same_view db db' ws u)"
    using that d changed registered unfolding Let_def snapshot(1) by (intro exI conjI) assumption+
  show ?thesis
  proof (cases "es = []")
    case True
    then have "?relevant = {}" using paths by auto
    then show ?thesis using unchanged [OF True] by (intro found) simp
  next
    case False
    with some obtain affectedPaths affected where
      a: "AffectedSources (pe_variableLimit (ie_publish env)) snapshot \<lparr>gu_contributions = contributionsFromSources es\<rparr> db = Inr affectedPaths"
      and affected: "extractDiscoveredSources env registered (affectedSources (di_Sources d) (sort (keep_first changed {})) affectedPaths) = Inr affected"
      and run: "gone = filter (\<lambda>p. sourceAt (di_Sources d) p = None) (map es_path (es @ affected)) \<longrightarrow>
       (\<exists>facts request. batchResolution env root snapshot (di_Sources d) (es @ affected) db facts \<and>
         batchRequest root (es @ affected) facts = Inr request \<and> publishRequest (ie_publish env) request db = Inr (s, db'))" by blast
    note each = affected_Inr [OF affected assms(3)]
    have sources: "set (map es_path (es @ affected)) = ?relevant \<union> affectedBy db snapshot ?relevant (es @ affected) \<inter> so_Path ` set (di_Sources d)"
      using batch_sources [OF known(1) False a each(1), of "\<lambda>p. ForPath registered p \<noteq> None"] unfolding paths by simp
    have missing: "filter P (filter (\<lambda>p. \<not> P p) ps) @ filter P (filter (\<lambda>p. P p \<and> K p) ps) = filter (\<lambda>p. P p \<and> K p) ps"
      for P K :: "str \<Rightarrow> bool" and ps by (induction ps) auto
    have "\<forall>p \<in> set (map es_path affected). sourceAt (di_Sources d) p \<noteq> None" unfolding each(1) by simp
    then have "filter (\<lambda>p. sourceAt (di_Sources d) p = None) (map es_path affected) = []" by (simp add: filter_empty_conv)
    moreover have "filter (\<lambda>p. sourceAt (di_Sources d) p = None) (map es_path es) = gone"
      unfolding extraction(1,2) filter_append by (rule missing)
    ultimately obtain facts req where r: "batchResolution env root snapshot (di_Sources d) (es @ affected) db facts"
      "batchRequest root (es @ affected) facts = Inr req" "publishRequest (ie_publish env) req db = Inr (s, db')"
      using run by auto
    have "case sourceAt (di_Sources d) (es_path source) of
        Some found \<Rightarrow> extractedFrom env registered found (es_contribution source)
      | None \<Rightarrow> c_facts (es_contribution source) = \<lparr>f_Nodes = [], f_Edges = []\<rparr>" if "source \<in> set (es @ affected)" for source
      using that extraction(3) [of source] each(2) [of source] by auto
    note publication = batch_publication [OF assms(1,2) snapshot(3) r this sources known(2)]
    have "?relevant \<noteq> {}" using False unfolding paths [symmetric] by simp
    then show ?thesis
      by (intro found) (simp only: if_False, rule exI [of _ "es @ affected"], rule exI [of _ facts], rule publication)
  qed
qed

lemma PublishBatch_publishes_witness:
  "\<exists>s db'. PublishBatch sampleIndex sampleBatch knownStore = Some (Inr (s, db')) \<and> sn_Version s = 2 \<and>
     contents db' contribution_nodes ''/w'' 2 = [] \<and> same_view knownStore db' ''/w'' 1"
proof -
  from sample_batch obtain s db' where run: "PublishBatch sampleIndex sampleBatch knownStore = Some (Inr (s, db'))" by (elim exE)
  have env: "env_ok (ie_publish sampleIndex)" "extracts_source sampleIndex" "Abs (ie_cwd sampleIndex) (br_Root sampleBatch) = Some ''/w''"
    using sampleEnv_ok sample_discovery(1)
    by (simp_all add: sampleIndex_def sampleBatch_def extracts_source_def emptyContribution_def)
  have relevant: "{p \<in> set changed. sourceAt discovered p \<noteq> None \<or> ForPath registered p \<noteq> None} = {''a.go''}"
    if "mapE (normalizeChangedPath ''/w'') (br_ChangedPaths sampleBatch) = Inr changed" "DefaultRegistry = Inr registered" for changed registered discovered
    using that by (auto simp: sampleBatch_def sample_discovery sample_registry sample_extension)
  let ?snapshot = "\<lparr>sn_Workspace = ''/w'', sn_Version = 1, sn_PublishedAt = ''t''\<rparr>"
  obtain d registered changed where known: "Discover (ie_matcher sampleIndex) (ie_cwd sampleIndex) (ie_tree sampleIndex) ''/w'' (br_ConfiguredRoots sampleBatch) = Inr d"
      "DefaultRegistry = Inr registered" "mapE (normalizeChangedPath ''/w'') (br_ChangedPaths sampleBatch) = Inr changed"
    and view: "let relevant = {p \<in> set changed. sourceAt (di_Sources d) p \<noteq> None \<or> ForPath registered p \<noteq> None}; v = sn_Version ?snapshot in
     if relevant = {} then s = ?snapshot \<and> db' = knownStore
     else \<exists>sources facts cs. sn_Workspace s = ''/w'' \<and> sn_Version s = v + 1 \<and> distinct (map es_path sources) \<and>
       set (map es_path sources) = relevant \<union> affectedBy knownStore ?snapshot relevant sources \<inter> so_Path ` set (di_Sources d) \<and>
       batchResolution sampleIndex ''/w'' ?snapshot (di_Sources d) sources knownStore facts \<and>
       list_all2 (publishedAs sampleIndex registered (di_Sources d) sources facts) sources cs \<and>
       (\<forall>t. contents db' t ''/w'' (v + 1) =
          filter (\<lambda>(p, _). p \<notin> set (map es_path sources)) (contents knownStore t ''/w'' v) @
          concat (map (\<lambda>c. map (Pair (c_sourcePath c)) (stored_payloads c t)) cs)) \<and>
       nodes_at db' ''/w'' (v + 1) = [] \<and>
       edges_at db' ''/w'' (v + 1) = updated_edges (sort (map es_path sources)) facts (edges_at knownStore ''/w'' v) \<and>
       (\<forall>u. retention_boundary (v + 1) \<le> u \<and> u \<le> v \<longrightarrow> same_view knownStore db' ''/w'' u) \<and>
       (\<forall>ws u. ws \<noteq> ''/w'' \<longrightarrow> same_view knownStore db' ws u)"
    using PublishBatch_publishes [OF knownStore_wf env knownStore_open run] by (elim exE conjE)
  have d: "di_Sources d = []" using known(1) sample_discovery(2) by (auto simp: sampleIndex_def sampleBatch_def)
  have two: "sn_Version ?snapshot = 1" "1 + 1 = (2 :: nat)" by simp_all
  obtain sources facts cs where s: "sn_Version s = 2"
      "set (map es_path sources) = {''a.go''} \<union> affectedBy knownStore ?snapshot {''a.go''} sources \<inter> so_Path ` set ([] :: Source list)"
    and each: "list_all2 (publishedAs sampleIndex registered [] sources facts) sources cs"
    and new: "\<forall>t. contents db' t ''/w'' 2 =
          filter (\<lambda>(p, _). p \<notin> set (map es_path sources)) (contents knownStore t ''/w'' 1) @
          concat (map (\<lambda>c. map (Pair (c_sourcePath c)) (stored_payloads c t)) cs)"
    and old: "\<forall>u. retention_boundary 2 \<le> u \<and> u \<le> 1 \<longrightarrow> same_view knownStore db' ''/w'' u"
    using view [unfolded Let_def relevant [OF known(3,2)] d two if_not_P [OF insert_not_empty]] by (elim exE conjE) (rule that, assumption+)
  have "c_facts c = \<lparr>f_Nodes = [], f_Edges = []\<rparr>" if "c \<in> set cs" for c
    using that each unfolding list_all2_conv_all_nth publishedAs_def sourceAt_def
    by (auto simp: in_set_conv_nth) (metis Contribution.select_convs(4) Contribution.surjective Contribution.update_convs(8))
  then have "concat (map (\<lambda>c. map (Pair (c_sourcePath c)) (stored_payloads c contribution_nodes)) cs) = []"
    by (simp add: stored_payloads_def)
  moreover have "contents knownStore contribution_nodes ''/w'' 1 = []"
  proof -
    let ?first = "\<lparr>pr_Workspace = ''/w'', pr_Update = \<lparr>gu_contributions = [emptyContribution ''a.go'']\<rparr>,
      pr_WorkspaceFacts = \<lparr>f_Nodes = [], f_Edges = []\<rparr>, pr_ReplacedOwners = []\<rparr>"
    show ?thesis
      using contents_published [OF wf_emptyDatabase, of "c_sourcePath ` set (gu_contributions (pr_Update ?first))" sampleEnv ?first contribution_nodes]
      by (simp add: knownStore_def currentVersion_empty updated_contents_def stored_payloads_def emptyContribution_def)
        (simp add: contents_def visible_rows_def emptyDatabase_def)
  qed
  ultimately show ?thesis using run s(1) new old by (auto simp: retention_boundary_def retainedGraphVersions_def)
qed

section \<open>What the overlay misses\<close>

text \<open>A deleted source has no project, so it does not shadow the store: it still answers as a target of its old project.\<close>

lemma deleted_target_answers:
  assumes "overrideAt overrides (rt_SourcePath request) = Some deletion" "es_projectID deletion = []" "rt_ProjectID request \<noteq> []"
  shows "ri_Target (snapshotResolverIndex store snapshot overrides) request = st_Target store snapshot request"
  using assms by (simp add: snapshotResolverIndex_def overlaidTarget_def)

text \<open>A package page lists the files the store lists; a source the batch adds is missing from it.\<close>

lemma package_page_misses_new:
  assumes "ri_PackagePage (snapshotResolverIndex (storeReads db) s overrides) request = Inr targets"
  shows "\<exists>listed. StoreResolverPackagePage s request db = Inr listed \<and> length targets = length listed \<and>
    (\<forall>i < length listed. tg_SourcePath (targets ! i) = tg_SourcePath (listed ! i))"
proof -
  from assms obtain listed where listed: "StoreResolverPackagePage s request db = Inr listed" "targets = map (\<lambda>target. case overrideAt overrides (tg_SourcePath target) of
      Some override \<Rightarrow> if es_projectID override = rp_ProjectID request \<and> es_language override = rp_Language request
        then resolverTargetFromContribution override else target
    | None \<Rightarrow> target) listed"
    by (auto simp: snapshotResolverIndex_def overlaidPackagePage_def storeReads_def)
  have "tg_SourcePath (case overrideAt overrides (tg_SourcePath target) of
      Some override \<Rightarrow> if es_projectID override = rp_ProjectID request \<and> es_language override = rp_Language request
        then resolverTargetFromContribution override else target
    | None \<Rightarrow> target) = tg_SourcePath target" for target
    using overrideAt_path [of overrides "tg_SourcePath target"]
    by (auto simp: resolverTargetFromContribution_def es_path_def Let_def split: option.splits)
  then show ?thesis using listed by simp
qed

end
