(* ===== verification/Index_Session.thy ===== *)
theory Index_Session
  imports Index_Batch
begin

text \<open>
  The second half of the initial indexing (\<^verbatim>\<open>src/index/initial_pipeline.go\<close>): once all contributions are written, the
  session is sealed, every project and language is resolved page by page against the session's own
  reads, each page records the dependencies and edges it found, and the session is committed. The pages
  are read from a session that the loop itself changes; the main result is that
  this does not disturb the loop, which resolves every staged file once.
\<close>

section \<open>Definitions\<close>

definition projectionContribution :: "ResolverProjection \<Rightarrow> index_error + Contribution" where
  "projectionContribution projection =
     (let name = md_Name (pj_Metadata projection);
          input = \<lparr>ci_ProjectID = pj_ProjectID projection, ci_SourcePath = pj_SourcePath projection, ci_Metadata = pj_Metadata projection,
            ci_Facts = \<lparr>f_Nodes = pj_Nodes projection, f_Edges = []\<rparr>, ci_UnresolvedReferences = pj_UnresolvedReferences projection,
            ci_SymbolReferences = pj_SymbolReferences projection, ci_ExportedSurfaces = pj_ExportedSurfaces projection,
            ci_Dependencies = pj_Dependencies projection, ci_Diagnostics = pj_Diagnostics projection\<rparr>
      in case (if name = ''typescript'' then Some typescriptExtractor else if name = ''javascript'' then Some javascriptExtractor
               else if name = ''go'' then Some goExtractor else None) of
           None \<Rightarrow> Inl (ResolveError ''unsupported language'')
         | Some language \<Rightarrow>
             bindE (liftE ContractError (ex_Vocabulary language)) (\<lambda>vocabulary.
             liftE ContractError (NewContribution vocabulary input)))"

definition contributionSessionResolverIndex :: "session \<Rightarrow> Snapshot \<Rightarrow> resolverIndex" where
  "contributionSessionResolverIndex session snapshot =
     \<lparr>ri_Target = (\<lambda>request. SessionResolverTarget snapshot request session),
      ri_PackagePage = (\<lambda>request. SessionResolverPackagePage snapshot request session)\<rparr>"

definition resolveInitialProjectionPage ::
  "index_env \<Rightarrow> str \<Rightarrow> str \<Rightarrow> Contribution list \<Rightarrow> resolverIndex \<Rightarrow> index_error + Facts \<times> Diagnostic list" where
  "resolveInitialProjectionPage env project language contributions index =
     (if language = ''typescript'' \<or> language = ''javascript''
      then liftE ResolveError (ie_resolvePage env language contributions project index None)
      else if language = ''go''
      then bindE (goResolverFileView env project) (\<lambda>view.
           liftE ResolveError (ie_resolvePage env language contributions project index (Some view)))
      else Inl (ResolveError ''unsupported resolver''))"

text \<open>A call on the session: its error, or the session it leaves.\<close>

definition sessionCall :: "(session \<Rightarrow> (storage_error + 'a) \<times> session) \<Rightarrow> session \<Rightarrow> index_error + session" where
  "sessionCall operation session = liftE StoreError (stepE operation session)"

text \<open>The body of the loop over the pages of one group.\<close>

definition resolveSessionPage ::
  "index_env \<Rightarrow> Snapshot \<Rightarrow> str \<Rightarrow> str \<Rightarrow> ResolverProjection list \<Rightarrow> session \<times> Diagnostic list \<Rightarrow> index_error + session \<times> Diagnostic list" where
  "resolveSessionPage env snapshot project language projections state =
     (case state of (session, diagnostics) \<Rightarrow>
       let limit = pe_variableLimit (ie_publish env) in
       bindE (mapE projectionContribution projections) (\<lambda>contributions.
       bindE (resolveInitialProjectionPage env project language contributions (contributionSessionResolverIndex session snapshot))
         (\<lambda>(pageFacts, pageDiagnostics).
       bindE (withResolvedDependencies contributions pageFacts) (\<lambda>updated.
       bindE (sessionCall (ReplaceContributionDependencies limit updated) session) (\<lambda>session.
       bindE (sessionCall (WriteWorkspaceFacts limit False (pageFacts\<lparr>f_Nodes := []\<rparr>)) session) (\<lambda>session.
       Inr (session, diagnostics @ concat (map pj_Diagnostics projections) @ pageDiagnostics)))))))"

partial_function (option) resolveSessionPages ::
  "index_env \<Rightarrow> Snapshot \<Rightarrow> str \<Rightarrow> str \<Rightarrow> str \<Rightarrow> session \<times> Diagnostic list \<Rightarrow> (index_error + session \<times> Diagnostic list) option" where
  "resolveSessionPages env snapshot project language after state =
     (case SessionProjectionPage snapshot (projectionRequest project language resolverProjectionPageSize after) (fst state) of
        Inl e \<Rightarrow> Some (Inl (StoreError e))
      | Inr projections \<Rightarrow>
          if projections = [] then Some (Inr state)
          else (case resolveSessionPage env snapshot project language projections state of
                  Inl e \<Rightarrow> Some (Inl e)
                | Inr state' \<Rightarrow> resolveSessionPages env snapshot project language (pj_SourcePath (last projections)) state'))"

definition resolveSessionGroup ::
  "index_env \<Rightarrow> Snapshot \<Rightarrow> str \<Rightarrow> session \<times> Diagnostic list \<Rightarrow> (index_error + session \<times> Diagnostic list) option" where
  "resolveSessionGroup env snapshot key state =
     (case cutKey key of (project, language) \<Rightarrow> resolveSessionPages env snapshot project language [] state)"

text \<open>The snapshot of the reads names the workspace only. The groups are a set, visited in the order of their keys.\<close>

definition resolveSession ::
  "index_env \<Rightarrow> str list \<Rightarrow> session \<Rightarrow> (index_error + session \<times> Diagnostic list) option" where
  "resolveSession env groups session =
     foldO (resolveSessionGroup env \<lparr>sn_Workspace = ss_workspace session, sn_Version = 0, sn_PublishedAt = []\<rparr>)
       (sort groups) (session, [])"

text \<open>\<^verbatim>\<open>Run\<close> after the extraction: the session with its written contributions, the groups and the number of sources.\<close>

datatype run_error = IndexError index_error | NoSupportedSources

definition finishRun ::
  "index_env \<Rightarrow> bool \<Rightarrow> nat \<Rightarrow> str list \<Rightarrow> session \<Rightarrow> (run_error + Snapshot \<times> Diagnostic list \<times> database) option" where
  "finishRun env allowEmpty totalSources groups session =
     (if totalSources = 0 \<and> \<not> allowEmpty then Some (Inl NoSupportedSources)
      else bindO (Some (liftE IndexError (sessionCall SealContributions session))) (\<lambda>session.
           bindO (map_option (liftE IndexError) (resolveSession env groups session)) (\<lambda>(session, diagnostics).
           bindO (Some (liftE IndexError (sessionCall (SealWorkspaceFacts False) session))) (\<lambda>session.
           Some (bindE (liftE (IndexError \<circ> StoreError) (fst (CommitSession (ie_publish env) session))) (\<lambda>(snapshot, db).
                 Inr (snapshot, diagnostics, db)))))))"

section \<open>What resolution leaves alone\<close>

text \<open>The parts of an open session that a page of resolution keeps.\<close>

definition sameListing :: "session \<Rightarrow> session \<Rightarrow> bool" where
  "sameListing s s' \<longleftrightarrow> ss_workspace s' = ss_workspace s \<and> ss_pendingVersion s' = ss_pendingVersion s \<and>
     ss_closed s' = ss_closed s \<and> ss_sealed s' = ss_sealed s \<and> db_staged (ss_db s') = db_staged (ss_db s) \<and>
     (\<forall>t. t \<noteq> contribution_dependencies \<longrightarrow> db_tables (ss_db s') t = db_tables (ss_db s) t)"

lemma sameListing_refl [simp]: "sameListing s s"
  by (simp add: sameListing_def)

lemma sameListing_trans: "sameListing s s' \<Longrightarrow> sameListing s' s'' \<Longrightarrow> sameListing s s''"
  by (simp add: sameListing_def)

lemma sameListing_files: "sameListing s s' \<Longrightarrow> sessionFiles s' = sessionFiles s"
  by (simp add: sameListing_def sessionFiles_def visibleFiles_def contents_def visible_rows_def stagedSource_def pendingSnapshot_def)

text \<open>A chunked insert keeps what each of its statements keeps.\<close>

lemma insertRows_invariant:
  assumes "insertRows variableLimit maximumRows cells exec rows s = Inr s'" "P s"
    and "\<And>chunk s s'. P s \<Longrightarrow> exec chunk s = Inr s' \<Longrightarrow> P s'"
  shows "P s'"
proof -
  have "P u" if "foldE (\<lambda>chunk s. if Q chunk then exec chunk s else Inl RowWidth) css s = Inr u" for css Q u
    using that assms(2) by (rule foldE_invariant) (auto intro: assms(3) split: if_splits)
  then show ?thesis using assms(1,2) by (auto simp: insertRows_def Let_def split: if_splits)
qed

lemma replace_sameListing:
  assumes "stepE (ReplaceContributionDependencies limit cs) s = Inr s'"
  shows "sameListing s s'"
proof -
  let ?kept = "\<lambda>db. db_staged db = db_staged (ss_db s) \<and> (\<forall>t. t \<noteq> contribution_dependencies \<longrightarrow> db_tables db t = db_tables (ss_db s) t)"
  have keeps: "?kept db'" if "?kept db" "insertTable True contribution_dependencies chunk db = Inr db'" for chunk db db'
    using that by (auto simp: insertTable_def updateTable_def)
  from assms obtain updated db' where
    db': "insertRows limit (int maximumBatchRows) row_cells (insertTable True contribution_dependencies)
        (concat (map (\<lambda>c. map (\<lambda>d. \<lparr>r_ws = ss_workspace s, r_path = c_sourcePath c, r_from = ss_pendingVersion s, r_to = None,
           r_payload = DependencyRow (dep_TargetPath d)\<rparr>) (c_dependencies c)) cs))
        (updateTable (filter (\<lambda>r. \<not> (r_ws r = ss_workspace s \<and> r_path r \<in> updated \<and> r_from r = ss_pendingVersion s)))
           contribution_dependencies (ss_db s)) = Inr db'"
      "s' = s\<lparr>ss_db := db'\<rparr>"
    by (auto simp: stepE_def ReplaceContributionDependencies_def sessionFail_def Let_def split: if_splits sum.splits)
  have "?kept db'" by (rule insertRows_invariant [OF db'(1)]) (simp add: updateTable_def, rule keeps)
  then show ?thesis by (simp add: sameListing_def db'(2))
qed

lemma facts_sameListing:
  assumes "stepE (WriteWorkspaceFacts limit cancelled facts) s = Inr s'" "15 \<le> limit"
  shows "sameListing s s'"
  using assms(1)
  by (auto simp: stepE_def WriteWorkspaceFacts_def sessionFail_def storeWorkspaceFacts_eq [OF assms(2)] sameListing_def
      split: if_splits sum.splits)

lemma resolveSessionPage_sameListing:
  assumes "resolveSessionPage env snapshot project language projections state = Inr state'" "15 \<le> pe_variableLimit (ie_publish env)"
  shows "sameListing (fst state) (fst state')"
proof -
  from assms(1) obtain cs facts s1 s2 where "stepE (ReplaceContributionDependencies (pe_variableLimit (ie_publish env)) cs) (fst state) = Inr s1"
      "stepE (WriteWorkspaceFacts (pe_variableLimit (ie_publish env)) False facts) s1 = Inr s2" "fst state' = s2"
    by (auto simp: resolveSessionPage_def sessionCall_def Let_def split: prod.splits)
  then show ?thesis
    using replace_sameListing facts_sameListing [OF _ assms(2)] sameListing_trans by blast
qed

section \<open>The pages of a session\<close>

lemma sorted_sessionFiles: "sorted (map fst (sessionFiles session))"
  unfolding sessionFiles_def by (intro sorted_map_filter sorted_visibleFiles)

interpretation session_pages: paged_reader
  "\<lambda>after. SessionProjectionPage snapshot (projectionRequest project language resolverProjectionPageSize after) session" pj_SourcePath
  "ofProject project language (sessionFiles session)" fst "readProjection (ss_db session) (pendingSnapshot session)"
  "nat resolverProjectionPageSize"
  "\<not> ss_closed session \<and> ss_sealed session \<and> sn_Workspace snapshot = ss_workspace session \<and> project \<noteq> [] \<and> language \<noteq> []"
  for snapshot project language session
proof unfold_locales
  show "sorted (map fst (ofProject project language (sessionFiles session)))"
    unfolding ofProject_def by (intro sorted_map_filter sorted_sessionFiles)
qed (auto simp: resolverProjectionPageSize_def SessionProjectionPage_def projectionPageFiles_eq readProjection_path)

text \<open>One page of files, read from the session as it is when its turn comes.\<close>

definition resolveFiles ::
  "index_env \<Rightarrow> Snapshot \<Rightarrow> str \<Rightarrow> str \<Rightarrow> (str \<times> str \<times> str \<times> str) list \<Rightarrow> session \<times> Diagnostic list \<Rightarrow> index_error + session \<times> Diagnostic list" where
  "resolveFiles env snapshot project language files state =
     bindE (liftE StoreError (mapE (readProjection (ss_db (fst state)) (pendingSnapshot (fst state))) files)) (\<lambda>projections.
     resolveSessionPage env snapshot project language projections state)"

lemma resolveSessionPages_rest:
  assumes "\<not> ss_closed (fst state)" "ss_sealed (fst state)" "sn_Workspace snapshot = ss_workspace (fst state)"
    "project \<noteq> []" "language \<noteq> []" "15 \<le> pe_variableLimit (ie_publish env)"
    "ofProject project language (sessionFiles (fst state)) = done @ rest" "distinct (map fst (done @ rest))"
    "filter (\<lambda>f. after < fst f) (done @ rest) = rest"
  shows "resolveSessionPages env snapshot project language after state =
    Some (foldE (resolveFiles env snapshot project language) (chunks (nat resolverProjectionPageSize) rest) state)"
  using assms(1-3,7-9)
proof (induction "length rest" arbitrary: "done" rest after state rule: less_induct)
  case less
  let ?n = "nat resolverProjectionPageSize"
  have n: "0 < ?n" by (simp add: resolverProjectionPageSize_def)
  have ready: "\<not> ss_closed (fst state) \<and> ss_sealed (fst state) \<and> sn_Workspace snapshot = ss_workspace (fst state) \<and> project \<noteq> [] \<and> language \<noteq> []"
    using less.prems(1-3) assms(4,5) by simp
  have page: "SessionProjectionPage snapshot (projectionRequest project language resolverProjectionPageSize after) (fst state) =
      mapE (readProjection (ss_db (fst state)) (pendingSnapshot (fst state))) (take ?n rest)"
    using session_pages.page_law [OF ready, of after] by (simp only: less.prems(4,6))
  show ?case
  proof (cases "rest = []")
    case True
    then show ?thesis using page by (subst resolveSessionPages.simps) (simp add: chunks.simps)
  next
    case False
    let ?front = "take ?n rest"
    have front: "?front \<noteq> []" using False n by simp
    have split: "chunks ?n rest = ?front # chunks ?n (drop ?n rest)" using False n by (subst chunks.simps) auto
    show ?thesis
    proof (cases "mapE (readProjection (ss_db (fst state)) (pendingSnapshot (fst state))) ?front")
      case (Inl e)
      then show ?thesis using page split by (subst resolveSessionPages.simps) (simp add: resolveFiles_def)
    next
      case (Inr projections)
      have all: "list_all2 (\<lambda>f x. readProjection (ss_db (fst state)) (pendingSnapshot (fst state)) f = Inr x) ?front projections"
        using Inr by (simp add: mapE_eq_Inr)
      then have nonempty: "projections \<noteq> []" using front by (auto dest: list_all2_lengthD)
      have last: "pj_SourcePath (last projections) = fst (last ?front)"
        using list_all2_last [OF all front] by (rule readProjection_path)
      have here: "resolveFiles env snapshot project language ?front state = resolveSessionPage env snapshot project language projections state"
        using Inr by (simp add: resolveFiles_def)
      show ?thesis
      proof (cases "resolveSessionPage env snapshot project language projections state")
        case (Inl e)
        then show ?thesis using page Inr nonempty split here by (subst resolveSessionPages.simps) simp
      next
        case page': (Inr state')
        have same: "sameListing (fst state) (fst state')"
          by (rule resolveSessionPage_sameListing [OF page' assms(6)])
        have files: "ofProject project language (sessionFiles (fst state')) = (done @ ?front) @ drop ?n rest"
          using less.prems(4) sameListing_files [OF same] by simp
        have state': "\<not> ss_closed (fst state')" "ss_sealed (fst state')" "sn_Workspace snapshot = ss_workspace (fst state')"
          using same less.prems(1-3) by (simp_all add: sameListing_def)
        have ready': "\<not> ss_closed (fst state') \<and> ss_sealed (fst state') \<and> sn_Workspace snapshot = ss_workspace (fst state') \<and> project \<noteq> [] \<and> language \<noteq> []"
          using state' assms(4,5) by simp
        have dist: "distinct (map fst (ofProject project language (sessionFiles (fst state'))))"
          using less.prems(5) files by simp
        have "filter (\<lambda>f. pj_SourcePath (last projections) < fst f) ((done @ ?front) @ drop ?n rest) = drop ?n rest"
          using session_pages.after_split [OF ready' dist files] front last unfolding files by simp
        then have "resolveSessionPages env snapshot project language (pj_SourcePath (last projections)) state' =
            Some (foldE (resolveFiles env snapshot project language) (chunks ?n (drop ?n rest)) state')"
          using False n less.prems(5) by (intro less.hyps [OF _ state' files]) simp_all
        then show ?thesis using page Inr page' nonempty split here by (subst resolveSessionPages.simps) simp
      qed
    qed
  qed
qed

lemma staged_nonempty: "ops_ok staged written ops \<Longrightarrow> [] \<notin> set (staged_of ops)"
  by (induction staged written ops rule: ops_ok.induct) (auto simp: staged_of_def)

text \<open>All groups, one after the other, over the files listed at the start.\<close>

definition resolveListed :: "index_env \<Rightarrow> Snapshot \<Rightarrow> session \<Rightarrow> str \<Rightarrow> session \<times> Diagnostic list \<Rightarrow> index_error + session \<times> Diagnostic list" where
  "resolveListed env snapshot listed key state =
     (case cutKey key of (project, language) \<Rightarrow>
       foldE (resolveFiles env snapshot project language)
         (chunks (nat resolverProjectionPageSize) (ofProject project language (sessionFiles listed))) state)"

lemma resolveListed_sameListing:
  assumes "resolveListed env snapshot listed key state = Inr state'" "15 \<le> pe_variableLimit (ie_publish env)" "sameListing listed (fst state)"
  shows "sameListing listed (fst state')"
proof -
  obtain project language where key: "cutKey key = (project, language)" by (cases "cutKey key")
  have "foldE (resolveFiles env snapshot project language) cs state = Inr state' \<Longrightarrow> sameListing listed (fst state')" for cs
  proof (erule foldE_invariant [where P = "\<lambda>state. sameListing listed (fst state)", OF _ assms(3)])
    fix files state state'
    assume same: "sameListing listed (fst state)" and files: "resolveFiles env snapshot project language files state = Inr state'"
    then obtain projections where "resolveSessionPage env snapshot project language projections state = Inr state'"
      by (auto simp: resolveFiles_def simp del: split_paired_All split_paired_Ex split: sum.splits)
    then show "sameListing listed (fst state')"
      by (intro sameListing_trans [OF same] resolveSessionPage_sameListing [OF _ assms(2)])
  qed
  then show ?thesis using assms(1) by (simp add: resolveListed_def key)
qed

lemma resolveGroups_eq:
  assumes "\<not> ss_closed listed" "ss_sealed listed" "sn_Workspace snapshot = ss_workspace listed"
    "15 \<le> pe_variableLimit (ie_publish env)" "distinct (map fst (sessionFiles listed))" "[] \<notin> fst ` set (sessionFiles listed)"
    "list_all (\<lambda>key. fst (cutKey key) \<noteq> [] \<and> snd (cutKey key) \<noteq> []) keys" "sameListing listed (fst state)"
  shows "foldO (resolveSessionGroup env snapshot) keys state = Some (foldE (resolveListed env snapshot listed) keys state)"
  using assms(7,8)
proof (induction keys arbitrary: state)
  case (Cons key keys)
  obtain project language where key: "cutKey key = (project, language)" by (cases "cutKey key")
  have names: "project \<noteq> []" "language \<noteq> []" using Cons.prems(1) key by simp_all
  let ?files = "ofProject project language (sessionFiles listed)"
  have nonempty: "[] < fst f" if "f \<in> set ?files" for f
    using that assms(6) by (cases "fst f") (auto simp: ofProject_def image_iff)
  have group: "resolveSessionGroup env snapshot key state = Some (resolveListed env snapshot listed key state)"
    unfolding resolveSessionGroup_def resolveListed_def key case_prod_conv
  proof (rule resolveSessionPages_rest)
    show "ofProject project language (sessionFiles (fst state)) = [] @ ?files" using sameListing_files [OF Cons.prems(2)] by simp
    show "distinct (map fst ([] @ ?files))"
      unfolding ofProject_def append_Nil by (intro distinct_map_filterI assms(5))
    show "filter (\<lambda>f. [] < fst f) ([] @ ?files) = ?files" using nonempty by (simp add: filter_id_conv)
  qed (use assms(1-4) Cons.prems(2) names in \<open>simp_all add: sameListing_def\<close>)
  show ?case
  proof (cases "resolveListed env snapshot listed key state")
    case (Inl e)
    then show ?thesis using group by simp
  next
    case (Inr state')
    have "foldO (resolveSessionGroup env snapshot) keys state' = Some (foldE (resolveListed env snapshot listed) keys state')"
      using Cons.IH [OF _ resolveListed_sameListing [OF Inr assms(4) Cons.prems(2)]] Cons.prems(1) by simp
    then show ?thesis using group Inr by simp
  qed
qed simp

section \<open>Properties\<close>

text \<open>C10. Although every page changes the session the next one is read from, resolving a sealed session ends, and is the resolution of
  its staged files as they are listed at the start: project by project, each file once, in the order
  of the paths and in pages of the fixed size.\<close>

theorem session_resolution_fixed:
  assumes "wf_db base" "env_ok (ie_publish env)" "ws \<noteq> []" "db_staged base = []" "ops_ok {} {} ops"
    "BeginContributionSession (ie_publish env) ws base = Inr s0" "foldE sourceStep ops s0 = Inr s1"
    "SealContributions s1 = (Inr (), session)" "list_all (\<lambda>key. fst (cutKey key) \<noteq> [] \<and> snd (cutKey key) \<noteq> []) groups"
  shows "distinct (map fst (sessionFiles session)) \<and> fst ` set (sessionFiles session) \<subseteq> set (staged_of ops) \<and>
    resolveSession env groups session =
      Some (foldE (resolveListed env \<lparr>sn_Workspace = ws, sn_Version = 0, sn_PublishedAt = []\<rparr> session) (sort groups) (session, []))"
proof -
  have "session_inv base ws [] [] s0" using Begin_inv [OF assms(3,2,4)] assms(6) by auto
  from sourceSteps_inv [OF assms(1) this, of ops] assms(5,7)
  have inv: "session_inv base ws (staged_of ops) (written_of ops) s1" by auto
  note listing = sealed_listing [OF assms(1) inv assms(8)]
  have "[] \<notin> fst ` set (sessionFiles session)" using listing(5) staged_nonempty [OF assms(5)] by blast
  moreover have "15 \<le> pe_variableLimit (ie_publish env)" using assms(2) by (simp add: env_ok_def)
  ultimately have "resolveSession env groups session =
      Some (foldE (resolveListed env \<lparr>sn_Workspace = ws, sn_Version = 0, sn_PublishedAt = []\<rparr> session) (sort groups) (session, []))"
    unfolding resolveSession_def listing(3)
    by (intro resolveGroups_eq) (use listing assms(9) in \<open>simp_all add: list_all_iff\<close>)
  with listing show ?thesis by simp
qed

lemma session_resolution_fixed_witness:
  "\<exists>s0 s1 session. BeginContributionSession sampleEnv ''w'' emptyDatabase = Inr s0 \<and>
     foldE sourceStep [StageOp ''a'', WriteOp (emptyContribution ''a'')] s0 = Inr s1 \<and> SealContributions s1 = (Inr (), session) \<and>
     resolveSession sampleIndex [groupKey ''p'' ''go''] session = Some (foldE (resolveListed sampleIndex
       \<lparr>sn_Workspace = ''w'', sn_Version = 0, sn_PublishedAt = []\<rparr> session) (sort [groupKey ''p'' ''go'']) (session, []))"
proof -
  let ?ops = "[StageOp ''a'', WriteOp (emptyContribution ''a'')]"
  have ops: "ops_ok {} {} ?ops" by (simp add: emptyContribution_def)
  have clean: "db_staged emptyDatabase = []" by (simp add: emptyDatabase_def)
  obtain s0 where s0: "BeginContributionSession sampleEnv ''w'' emptyDatabase = Inr s0" "session_inv emptyDatabase ''w'' [] [] s0"
    using Begin_inv [OF _ sampleEnv_ok(1) clean, of "''w''"] by auto
  from sourceSteps_inv [OF wf_emptyDatabase s0(2), of ?ops] ops obtain s1 where
    s1: "foldE sourceStep ?ops s0 = Inr s1" "session_inv emptyDatabase ''w'' ([] @ staged_of ?ops) ([] @ written_of ?ops) s1" by auto
  from SealContributions_eq [OF s1(2)] obtain session where "stepE SealContributions s1 = Inr session" by blast
  then have seal: "SealContributions s1 = (Inr (), session)" by (auto simp: stepE_def split: sum.splits prod.splits)
  have env: "ie_publish sampleIndex = sampleEnv" by (simp add: sampleIndex_def)
  have keys: "list_all (\<lambda>key. fst (cutKey key) \<noteq> [] \<and> snd (cutKey key) \<noteq> []) [groupKey ''p'' ''go'']"
    by (simp add: cutKey_def groupKey_def)
  from session_resolution_fixed [OF wf_emptyDatabase _ _ clean ops _ s1(1) seal keys, of sampleIndex "''w''"] s0(1) sampleEnv_ok(1)
  show ?thesis using s1(1) seal by (auto simp: env)
qed

end
