(* ===== verification/Resolve_Shared.thy ===== *)
theory Resolve_Shared
  imports Contracts
begin

text \<open>
  Module resolution, the part that \<^verbatim>\<open>src/extractors/javascript/resolver.go\<close> and
  \<^verbatim>\<open>src/extractors/typescript/resolver.go\<close> share line by line: a page of contributions is resolved over a resolver
  index (\<^verbatim>\<open>ResolvePage\<close>), a whole workspace over the surfaces its files export (\<^verbatim>\<open>resolve\<close>). What differs between the
  languages is a \<open>dialect\<close>. The functions of a resolver index and the \<^verbatim>\<open>%q\<close> of \<^verbatim>\<open>fmt\<close> are
  arguments; the memoising index a page is resolved through answers like the wrapped one
  (\<open>pageResolverIndex_memo\<close> in \<open>Contracts\<close>). \<^verbatim>\<open>sort.Slice\<close> is modelled as a stable sort, although Go
  leaves the order of equal elements open.
\<close>

section \<open>Dialects and results\<close>

record dialect =
  dl_language :: str
  dl_display :: str
  dl_declarationKinds :: "NodeKind list"
  dl_importsFrom :: RelationKind
  dl_reExports :: RelationKind
  dl_requires :: bool
  dl_relations :: "RelationDefinition list"
  dl_extensions :: "str list"
  dl_pageDiagnostics :: bool

record Resolution =
  rl_Nodes :: "Node list"
  rl_Edges :: "Edge list"
  rl_diagnostics :: "Diagnostic list"

datatype 'e resolve_error =
    PageIncomplete
  | FileFactMissing str
  | TargetFileMissing str
  | ReferenceUnsupported str
  | TargetUnread str 'e
  | PackageUnread str 'e
  | ResolverVocabularyInvalid ValidationCode
  | ResolutionInvalid ValidationCode

definition ResolverVocabulary :: "dialect \<Rightarrow> ValidationCode + Vocabulary" where
  "ResolverVocabulary d =
     (let endpoints = map (\<lambda>kind. \<lparr>ep_Source = ''file'', ep_Target = kind\<rparr>) (''file'' # dl_declarationKinds d) in
      NewVocabulary \<lparr>vd_NodeKinds = ''file'' # dl_declarationKinds d,
        vd_Relations = [\<lparr>rd_Kind = dl_importsFrom d, rd_Endpoints = endpoints\<rparr>,
          \<lparr>rd_Kind = dl_reExports d, rd_Endpoints = endpoints\<rparr>] @ dl_relations d\<rparr>)"

definition relationFor :: "dialect \<Rightarrow> ModuleReferenceKind \<Rightarrow> 'e resolve_error + RelationKind" where
  "relationFor d kind =
     (if kind = ModuleReferenceImport then Inr (dl_importsFrom d)
      else if kind = ModuleReferenceRequire \<and> dl_requires d then Inr (dl_importsFrom d)
      else if kind = ModuleReferenceReExport then Inr (dl_reExports d)
      else Inl (ReferenceUnsupported kind))"

definition isResolverNodeKind :: "dialect \<Rightarrow> NodeKind \<Rightarrow> bool" where
  "isResolverNodeKind d kind \<longleftrightarrow> kind = ''file'' \<or> kind \<in> set (dl_declarationKinds d)"

definition targetFile :: "Node list \<Rightarrow> Node option" where
  "targetFile nodes = find (\<lambda>n. n_Kind n = ''file'') nodes"

definition fileFact :: "Contribution \<Rightarrow> Node option" where
  "fileFact contribution = targetFile (f_Nodes (c_facts contribution))"

section \<open>The two dialects\<close>

definition endpoint :: "str \<Rightarrow> NodeKind \<Rightarrow> NodeKind \<Rightarrow> EndpointRule" where
  "endpoint language source target = \<lparr>ep_Source = language @ '':'' @ source, ep_Target = language @ '':'' @ target\<rparr>"

definition callsDefinition :: "str \<Rightarrow> RelationDefinition" where
  "callsDefinition language =
     \<lparr>rd_Kind = language @ '':calls'', rd_Endpoints =
        [endpoint language ''function'' ''function'', endpoint language ''function'' ''method'', endpoint language ''function'' ''variable'',
         endpoint language ''method'' ''function'', endpoint language ''method'' ''method'', endpoint language ''method'' ''variable'']\<rparr>"

definition javascriptDialect :: dialect where
  "javascriptDialect =
     \<lparr>dl_language = ''javascript'', dl_display = ''JavaScript'',
      dl_declarationKinds = [''javascript:class'', ''javascript:function'', ''javascript:method'', ''javascript:variable''],
      dl_importsFrom = ''javascript:imports_from'', dl_reExports = ''javascript:re_exports'', dl_requires = True,
      dl_relations =
        [\<lparr>rd_Kind = ''javascript:extends'', rd_Endpoints = [endpoint ''javascript'' ''class'' ''class'']\<rparr>,
         callsDefinition ''javascript''],
      dl_extensions = [''.js'', ''.jsx'', ''.mjs'', ''.cjs'', ''.ts'', ''.tsx'', ''.mts'', ''.cts''],
      dl_pageDiagnostics = False\<rparr>"

definition typescriptDialect :: dialect where
  "typescriptDialect =
     \<lparr>dl_language = ''typescript'', dl_display = ''TypeScript'',
      dl_declarationKinds = [''typescript:class'', ''typescript:function'', ''typescript:method'', ''typescript:interface'',
        ''typescript:type_alias'', ''typescript:variable''],
      dl_importsFrom = ''typescript:imports_from'', dl_reExports = ''typescript:re_exports'', dl_requires = False,
      dl_relations =
        [\<lparr>rd_Kind = ''typescript:extends'', rd_Endpoints =
           [endpoint ''typescript'' ''class'' ''class'', endpoint ''typescript'' ''class'' ''interface'',
            endpoint ''typescript'' ''class'' ''variable'', endpoint ''typescript'' ''interface'' ''interface'',
            endpoint ''typescript'' ''interface'' ''type_alias'']\<rparr>,
         \<lparr>rd_Kind = ''typescript:implements'', rd_Endpoints = [endpoint ''typescript'' ''class'' ''interface'']\<rparr>,
         callsDefinition ''typescript''],
      dl_extensions = [''.ts'', ''.tsx'', ''.mts'', ''.cts'', ''.js'', ''.jsx'', ''.mjs'', ''.cjs''],
      dl_pageDiagnostics = True\<rparr>"

section \<open>Maps of the resolvers\<close>

text \<open>The map of nodes by ID, as a list without repeated IDs; the result lists it by ID.\<close>

definition putNode :: "Node \<Rightarrow> Node list \<Rightarrow> Node list" where
  "putNode node nodes = filter (\<lambda>n. n_ID n \<noteq> n_ID node) nodes @ [node]"

definition putNodes :: "dialect \<Rightarrow> Node list \<Rightarrow> Node list \<Rightarrow> Node list" where
  "putNodes d added nodes = fold putNode (filter (\<lambda>n. isResolverNodeKind d (n_Kind n)) added) nodes"

text \<open>The map of contributions by path, in which the later one wins, and its sorted keys.\<close>

definition contributionOf :: "Contribution list \<Rightarrow> str \<Rightarrow> Contribution option" where
  "contributionOf contributions sourcePath = find (\<lambda>c. c_sourcePath c = sourcePath) (rev contributions)"

definition contributionPaths :: "Contribution list \<Rightarrow> str list" where
  "contributionPaths contributions = dedup_adjacent (sort (map c_sourcePath contributions))"

definition requireFile :: "Contribution \<Rightarrow> 'e resolve_error + unit" where
  "requireFile contribution = guardE (FileFactMissing (c_sourcePath contribution)) (fileFact contribution \<noteq> None)"

definition sortedReferences :: "UnresolvedReference list \<Rightarrow> UnresolvedReference list" where
  "sortedReferences references = sort_key (\<lambda>r. [ur_SourceID r, ur_Target r]) references"

definition sortedFacts :: "Edge list \<Rightarrow> Edge list" where
  "sortedFacts edges = sort_key (\<lambda>e. [e_SourceID e, e_TargetID e, e_Relation e]) edges"

section \<open>Surfaces\<close>

definition matchingSurfaces :: "ExportedSurface list \<Rightarrow> str \<Rightarrow> ExportedSurface list" where
  "matchingSurfaces surfaces name = filter (\<lambda>s. name = ''*'' \<or> es_Name s = name) surfaces"

definition matchingBindingSurfaces :: "ExportedSurface list \<Rightarrow> ModuleReferenceKind \<Rightarrow> ModuleBinding \<Rightarrow> ExportedSurface list" where
  "matchingBindingSurfaces surfaces kind binding =
     (let matching = matchingSurfaces surfaces (mb_ImportedName binding) in
      if kind \<noteq> ModuleReferenceReExport \<or> mb_ImportedName binding \<noteq> ''*'' \<or> mb_ExportedName binding \<noteq> ''*'' then matching
      else filter (\<lambda>s. es_Name s \<noteq> ''default'') matching)"

text \<open>The name a binding introduces in the importing file.\<close>

definition localName :: "ModuleBinding \<Rightarrow> str" where
  "localName binding = (if mb_LocalName binding \<noteq> [] then mb_LocalName binding else mb_ImportedName binding)"

section \<open>Specifiers\<close>

definition resolverPathCandidates :: "dialect \<Rightarrow> str \<Rightarrow> str list" where
  "resolverPathCandidates d base =
     base # map (\<lambda>extension. base @ extension) (dl_extensions d) @
       map (\<lambda>extension. Join [base, ''index'' @ extension]) (dl_extensions d)"

definition specifierBase :: "str \<Rightarrow> str \<Rightarrow> str" where
  "specifierBase sourcePath specifier = Clean (Join [Dir sourcePath, specifier])"

text \<open>The first candidate the index has; an error of the index ends the search.\<close>

fun firstTarget :: "dialect \<Rightarrow> (ResolverTargetRequest \<Rightarrow> 'e + ResolverTarget option) \<Rightarrow> str \<Rightarrow> str list \<Rightarrow>
    'e resolve_error + ResolverTarget option" where
  "firstTarget d index project [] = Inr None"
| "firstTarget d index project (candidate # candidates) =
     (case index \<lparr>rt_ProjectID = project, rt_Language = dl_language d, rt_SourcePath = candidate\<rparr> of
        Inl e \<Rightarrow> Inl (TargetUnread candidate e)
      | Inr (Some target) \<Rightarrow> Inr (Some target)
      | Inr None \<Rightarrow> firstTarget d index project candidates)"

definition resolverPageTarget :: "dialect \<Rightarrow> (ResolverTargetRequest \<Rightarrow> 'e + ResolverTarget option) \<Rightarrow> str \<Rightarrow> str \<Rightarrow> str \<Rightarrow>
    'e resolve_error + ResolverTarget option" where
  "resolverPageTarget d index project sourcePath specifier =
     (if \<not> HasPrefix specifier ''.'' then Inr None
      else firstTarget d index project (resolverPathCandidates d (specifierBase sourcePath specifier)))"

definition resolvePath :: "dialect \<Rightarrow> str list \<Rightarrow> str \<Rightarrow> str option" where
  "resolvePath d files base = find (\<lambda>candidate. candidate \<in> set files) (resolverPathCandidates d base)"

definition resolveRelativeSpecifier :: "dialect \<Rightarrow> str list \<Rightarrow> str \<Rightarrow> str \<Rightarrow> str option" where
  "resolveRelativeSpecifier d files sourcePath specifier =
     (if \<not> HasPrefix specifier ''.'' then None else resolvePath d files (specifierBase sourcePath specifier))"

section \<open>Edges and diagnostics\<close>

definition warning :: "str \<Rightarrow> Diagnostic" where
  "warning message = \<lparr>dg_Severity = DiagnosticWarning, dg_Message = message\<rparr>"

definition moduleNotIndexed :: "(str \<Rightarrow> str) \<Rightarrow> dialect \<Rightarrow> str \<Rightarrow> str \<Rightarrow> Diagnostic" where
  "moduleNotIndexed quote d specifier sourcePath =
     warning (dl_display d @ '' module '' @ quote specifier @ '' from '' @ quote sourcePath @ '' is not indexed'')"

definition exportNotIndexed :: "(str \<Rightarrow> str) \<Rightarrow> dialect \<Rightarrow> str \<Rightarrow> str \<Rightarrow> Diagnostic" where
  "exportNotIndexed quote d name specifier =
     warning (dl_display d @ '' export '' @ quote name @ '' from '' @ quote specifier @ '' is not indexed'')"

definition referenceEvidence :: "Node \<Rightarrow> UnresolvedReference \<Rightarrow> FactEvidence" where
  "referenceEvidence file reference =
     (if ur_Ambiguous reference then (n_Evidence file)\<lparr>ev_Confidence := ConfidenceAmbiguous\<rparr> else n_Evidence file)"

text \<open>The edges of a resolved reference: to the file of the target, and to each surface a binding names.\<close>

definition referenceEdges :: "RelationKind \<Rightarrow> FactEvidence \<Rightarrow> UnresolvedReference \<Rightarrow> str \<Rightarrow> ExportedSurface list \<Rightarrow> Edge list" where
  "referenceEdges relation evidence reference targetID surfaces =
     (let edge = (\<lambda>target. \<lparr>e_SourceID = ur_SourceID reference, e_TargetID = target, e_Relation = relation, e_Evidence = evidence\<rparr>) in
      edge targetID # concat (map (\<lambda>binding.
        map (\<lambda>surface. edge (es_NodeID surface)) (matchingBindingSurfaces surfaces (ur_Kind reference) binding)) (ur_Bindings reference)))"

definition bindingDiagnostics :: "(str \<Rightarrow> str) \<Rightarrow> dialect \<Rightarrow> UnresolvedReference \<Rightarrow> ExportedSurface list \<Rightarrow> Diagnostic list" where
  "bindingDiagnostics quote d reference surfaces =
     map (\<lambda>binding. exportNotIndexed quote d (mb_ImportedName binding) (ur_Target reference))
       (filter (\<lambda>binding. matchingBindingSurfaces surfaces (ur_Kind reference) binding = [] \<and> mb_ImportedName binding \<noteq> ''*'')
          (ur_Bindings reference))"

text \<open>The surfaces that the bindings of one import give a local name.\<close>

definition boundSurfaces :: "str \<Rightarrow> UnresolvedReference \<Rightarrow> ExportedSurface list \<Rightarrow> str list" where
  "boundSurfaces name reference surfaces =
     concat (map (\<lambda>binding. if localName binding \<noteq> name then []
         else map es_NodeID (matchingBindingSurfaces surfaces (ur_Kind reference) binding)) (ur_Bindings reference))"

definition symbolEdges :: "SymbolReference \<Rightarrow> str list \<Rightarrow> Edge list" where
  "symbolEdges reference targets =
     map (\<lambda>target. \<lparr>e_SourceID = sr_SourceID reference, e_TargetID = target, e_Relation = sr_Relation reference,
        e_Evidence = sr_Evidence reference\<rparr>) targets"

text \<open>The end of every resolution: sorted facts, checked against the vocabulary.\<close>

definition finishResolution :: "(ValidationCode + Vocabulary) \<Rightarrow> Resolution \<Rightarrow> 'e resolve_error + Resolution" where
  "finishResolution vocabulary resolution =
     bindE (liftE ResolverVocabularyInvalid vocabulary) (\<lambda>v.
     bindE (liftE ResolutionInvalid (Validate v \<lparr>f_Nodes = rl_Nodes resolution, f_Edges = rl_Edges resolution\<rparr>)) (\<lambda>_.
     Inr resolution))"

section \<open>Resolution of a page\<close>

definition pageReference :: "(str \<Rightarrow> str) \<Rightarrow> dialect \<Rightarrow> (ResolverTargetRequest \<Rightarrow> 'e + ResolverTarget option) \<Rightarrow> str \<Rightarrow> str \<Rightarrow> Node \<Rightarrow>
    UnresolvedReference \<Rightarrow> Resolution \<Rightarrow> 'e resolve_error + Resolution" where
  "pageReference quote d index project sourcePath file reference resolution =
     bindE (resolverPageTarget d index project sourcePath (ur_Target reference)) (\<lambda>found.
     case found of
       None \<Rightarrow> Inr (resolution\<lparr>rl_diagnostics := rl_diagnostics resolution @ [moduleNotIndexed quote d (ur_Target reference) sourcePath]\<rparr>)
     | Some target \<Rightarrow>
         (case targetFile (tg_Nodes target) of
            None \<Rightarrow> Inl (TargetFileMissing (tg_SourcePath target))
          | Some targetNode \<Rightarrow>
              bindE (relationFor d (ur_Kind reference)) (\<lambda>relation.
              Inr (resolution\<lparr>rl_Nodes := putNodes d (tg_Nodes target) (rl_Nodes resolution),
                rl_Edges := rl_Edges resolution @
                  referenceEdges relation (referenceEvidence file reference) reference (n_ID targetNode) (tg_ExportedSurfaces target),
                rl_diagnostics := rl_diagnostics resolution @
                  (if dl_pageDiagnostics d then bindingDiagnostics quote d reference (tg_ExportedSurfaces target) else [])\<rparr>))))"

definition resolverPageSymbolTargets :: "dialect \<Rightarrow> (ResolverTargetRequest \<Rightarrow> 'e + ResolverTarget option) \<Rightarrow> str \<Rightarrow> str \<Rightarrow> str \<Rightarrow>
    UnresolvedReference list \<Rightarrow> 'e resolve_error + str list" where
  "resolverPageSymbolTargets d index project sourcePath name references =
     foldE (\<lambda>reference targets.
       if ur_Kind reference \<noteq> ModuleReferenceImport then Inr targets
       else bindE (resolverPageTarget d index project sourcePath (ur_Target reference)) (\<lambda>found.
         case found of
           None \<Rightarrow> Inr targets
         | Some target \<Rightarrow> Inr (targets @ boundSurfaces name reference (tg_ExportedSurfaces target)))) references []"

definition pageSymbol :: "dialect \<Rightarrow> (ResolverTargetRequest \<Rightarrow> 'e + ResolverTarget option) \<Rightarrow> str \<Rightarrow> Contribution \<Rightarrow>
    SymbolReference \<Rightarrow> Resolution \<Rightarrow> 'e resolve_error + Resolution" where
  "pageSymbol d index project contribution reference resolution =
     bindE (resolverPageSymbolTargets d index project (c_sourcePath contribution) (sr_Target reference)
              (c_unresolvedReferences contribution)) (\<lambda>targets.
     Inr (resolution\<lparr>rl_Edges := rl_Edges resolution @ symbolEdges reference targets\<rparr>))"

text \<open>One path of the page: its references in order, then its symbols.\<close>

definition pageSource :: "(str \<Rightarrow> str) \<Rightarrow> dialect \<Rightarrow> (ResolverTargetRequest \<Rightarrow> 'e + ResolverTarget option) \<Rightarrow> str \<Rightarrow>
    Contribution list \<Rightarrow> str \<Rightarrow> Resolution \<Rightarrow> 'e resolve_error + Resolution" where
  "pageSource quote d index project contributions sourcePath resolution =
     (case contributionOf contributions sourcePath of
        None \<Rightarrow> Inr resolution
      | Some contribution \<Rightarrow>
          (case fileFact contribution of
             None \<Rightarrow> Inr resolution
           | Some file \<Rightarrow>
               bindE (foldE (pageReference quote d index project sourcePath file)
                        (sortedReferences (c_unresolvedReferences contribution)) resolution) (\<lambda>resolution.
               foldE (pageSymbol d index project contribution) (c_symbolReferences contribution) resolution)))"

definition collectNodes :: "dialect \<Rightarrow> Contribution list \<Rightarrow> Node list" where
  "collectNodes d contributions = fold (\<lambda>c. putNodes d (f_Nodes (c_facts c))) contributions []"

definition ResolvePage :: "(str \<Rightarrow> str) \<Rightarrow> dialect \<Rightarrow> (ResolverTargetRequest \<Rightarrow> 'e + ResolverTarget option) \<Rightarrow> Contribution list \<Rightarrow> str \<Rightarrow>
    'e resolve_error + Resolution" where
  "ResolvePage quote d index contributions project =
     (if project = [] then Inl PageIncomplete
      else bindE (checkE requireFile contributions) (\<lambda>_.
           bindE (foldE (pageSource quote d index project contributions) (contributionPaths contributions)
                    \<lparr>rl_Nodes = collectNodes d contributions, rl_Edges = [], rl_diagnostics = []\<rparr>) (\<lambda>resolution.
           finishResolution (ResolverVocabulary d)
             (resolution\<lparr>rl_Nodes := sort_key n_ID (rl_Nodes resolution), rl_Edges := sortedFacts (rl_Edges resolution),
                rl_diagnostics := (if dl_pageDiagnostics d then sort_key dg_Message (rl_diagnostics resolution)
                  else rl_diagnostics resolution)\<rparr>))))"

definition javascriptResolvePage :: "(str \<Rightarrow> str) \<Rightarrow> (ResolverTargetRequest \<Rightarrow> 'e + ResolverTarget option) \<Rightarrow> Contribution list \<Rightarrow> str \<Rightarrow>
    'e resolve_error + Resolution" where
  "javascriptResolvePage quote = ResolvePage quote javascriptDialect"

definition typescriptResolvePage :: "(str \<Rightarrow> str) \<Rightarrow> (ResolverTargetRequest \<Rightarrow> 'e + ResolverTarget option) \<Rightarrow> Contribution list \<Rightarrow> str \<Rightarrow>
    'e resolve_error + Resolution" where
  "typescriptResolvePage quote = ResolvePage quote typescriptDialect"

section \<open>Exported surfaces\<close>

text \<open>The surfaces by path; \<^verbatim>\<open>seen\<close> holds the keys of the surfaces of each path.\<close>

definition exportKey :: "ExportedSurface \<Rightarrow> str" where
  "exportKey surface = es_Name surface @ nul @ es_NodeID surface"

definition addSurface :: "str \<Rightarrow> ExportedSurface \<Rightarrow> (str \<Rightarrow> ExportedSurface list) \<times> bool \<Rightarrow> (str \<Rightarrow> ExportedSurface list) \<times> bool" where
  "addSurface sourcePath surface state =
     (case state of (surfaces, changed) \<Rightarrow>
        if exportKey surface \<in> exportKey ` set (surfaces sourcePath) then state
        else (surfaces(sourcePath := surfaces sourcePath @ [surface]), True))"

definition exportName :: "ModuleBinding \<Rightarrow> ExportedSurface \<Rightarrow> str" where
  "exportName binding surface =
     (if mb_ExportedName binding \<noteq> [] \<and> mb_ExportedName binding \<noteq> ''*'' then mb_ExportedName binding else es_Name surface)"

definition reExportBinding :: "str \<Rightarrow> UnresolvedReference \<Rightarrow> str \<Rightarrow> ModuleBinding \<Rightarrow>
    (str \<Rightarrow> ExportedSurface list) \<times> bool \<Rightarrow> (str \<Rightarrow> ExportedSurface list) \<times> bool" where
  "reExportBinding sourcePath reference targetPath binding state =
     fold (\<lambda>surface. addSurface sourcePath \<lparr>es_NodeID = es_NodeID surface, es_Name = exportName binding surface\<rparr>)
       (matchingBindingSurfaces (fst state targetPath) (ur_Kind reference) binding) state"

definition reExportReference :: "dialect \<Rightarrow> str list \<Rightarrow> str \<Rightarrow> UnresolvedReference \<Rightarrow>
    (str \<Rightarrow> ExportedSurface list) \<times> bool \<Rightarrow> (str \<Rightarrow> ExportedSurface list) \<times> bool" where
  "reExportReference d files sourcePath reference state =
     (if ur_Kind reference \<noteq> ModuleReferenceReExport then state
      else case resolveRelativeSpecifier d files sourcePath (ur_Target reference) of
        None \<Rightarrow> state
      | Some targetPath \<Rightarrow> fold (reExportBinding sourcePath reference targetPath) (ur_Bindings reference) state)"

definition referencesOf :: "Contribution list \<Rightarrow> str \<Rightarrow> UnresolvedReference list" where
  "referencesOf contributions sourcePath =
     (case contributionOf contributions sourcePath of None \<Rightarrow> [] | Some c \<Rightarrow> c_unresolvedReferences c)"

definition surfacesOf :: "Contribution list \<Rightarrow> str \<Rightarrow> ExportedSurface list" where
  "surfacesOf contributions sourcePath =
     (case contributionOf contributions sourcePath of None \<Rightarrow> [] | Some c \<Rightarrow> c_exportedSurfaces c)"

definition reExportRound :: "dialect \<Rightarrow> Contribution list \<Rightarrow> (str \<Rightarrow> ExportedSurface list) \<Rightarrow> (str \<Rightarrow> ExportedSurface list) \<times> bool" where
  "reExportRound d contributions surfaces =
     (let paths = contributionPaths contributions in
      fold (\<lambda>sourcePath. fold (reExportReference d paths sourcePath) (sortedReferences (referencesOf contributions sourcePath)))
        paths (surfaces, False))"

fun reExportRounds :: "dialect \<Rightarrow> Contribution list \<Rightarrow> nat \<Rightarrow> (str \<Rightarrow> ExportedSurface list) \<Rightarrow> (str \<Rightarrow> ExportedSurface list)" where
  "reExportRounds d contributions 0 surfaces = surfaces"
| "reExportRounds d contributions (Suc n) surfaces =
     (case reExportRound d contributions surfaces of (surfaces', changed) \<Rightarrow>
        if changed then reExportRounds d contributions n surfaces' else surfaces')"

definition ownSurfaces :: "Contribution list \<Rightarrow> str \<Rightarrow> ExportedSurface list" where
  "ownSurfaces contributions =
     fst (fold (\<lambda>sourcePath. fold (addSurface sourcePath) (surfacesOf contributions sourcePath))
       (contributionPaths contributions) (\<lambda>_. [], False))"

definition resolvedSurfaces :: "dialect \<Rightarrow> Contribution list \<Rightarrow> str \<Rightarrow> ExportedSurface list" where
  "resolvedSurfaces d contributions =
     reExportRounds d contributions (length (contributionPaths contributions)) (ownSurfaces contributions)"

section \<open>Resolution of a workspace\<close>

text \<open>The specifier search of the language, over a file view, is an argument here.\<close>

definition workspaceReference :: "(str \<Rightarrow> str) \<Rightarrow> dialect \<Rightarrow> (str \<Rightarrow> str \<Rightarrow> ModuleReferenceKind \<Rightarrow> str option) \<Rightarrow> Contribution list \<Rightarrow>
    (str \<Rightarrow> ExportedSurface list) \<Rightarrow> str \<Rightarrow> UnresolvedReference \<Rightarrow> Resolution \<Rightarrow> 'e resolve_error + Resolution" where
  "workspaceReference quote d specifier contributions surfaces sourcePath reference resolution =
     (let fileOf = (\<lambda>path. Option.bind (contributionOf contributions path) fileFact) in
      case specifier sourcePath (ur_Target reference) (ur_Kind reference) of
        None \<Rightarrow> Inr (resolution\<lparr>rl_diagnostics := rl_diagnostics resolution @ [moduleNotIndexed quote d (ur_Target reference) sourcePath]\<rparr>)
      | Some targetPath \<Rightarrow>
          bindE (relationFor d (ur_Kind reference)) (\<lambda>relation.
          (case (fileOf sourcePath, fileOf targetPath) of
             (Some file, Some targetNode) \<Rightarrow>
               Inr (resolution\<lparr>rl_Edges := rl_Edges resolution @
                   referenceEdges relation (referenceEvidence file reference) reference (n_ID targetNode) (surfaces targetPath),
                 rl_diagnostics := rl_diagnostics resolution @ bindingDiagnostics quote d reference (surfaces targetPath)\<rparr>)
           | _ \<Rightarrow> Inr resolution)))"

definition resolvedSymbolTargets :: "(str \<Rightarrow> str \<Rightarrow> ModuleReferenceKind \<Rightarrow> str option) \<Rightarrow> (str \<Rightarrow> ExportedSurface list) \<Rightarrow> str \<Rightarrow> str \<Rightarrow>
    UnresolvedReference list \<Rightarrow> str list" where
  "resolvedSymbolTargets specifier surfaces sourcePath name references =
     concat (map (\<lambda>reference.
       if ur_Kind reference \<noteq> ModuleReferenceImport then []
       else case specifier sourcePath (ur_Target reference) (ur_Kind reference) of
         None \<Rightarrow> []
       | Some targetPath \<Rightarrow> boundSurfaces name reference (surfaces targetPath)) references)"

definition workspaceSymbols :: "(str \<Rightarrow> str \<Rightarrow> ModuleReferenceKind \<Rightarrow> str option) \<Rightarrow> Contribution list \<Rightarrow> (str \<Rightarrow> ExportedSurface list) \<Rightarrow>
    str \<Rightarrow> Edge list" where
  "workspaceSymbols specifier contributions surfaces sourcePath =
     (case contributionOf contributions sourcePath of
        None \<Rightarrow> []
      | Some c \<Rightarrow> concat (map (\<lambda>reference. symbolEdges reference
          (resolvedSymbolTargets specifier surfaces sourcePath (sr_Target reference) (c_unresolvedReferences c))) (c_symbolReferences c)))"

definition resolve :: "(str \<Rightarrow> str) \<Rightarrow> dialect \<Rightarrow> (str \<Rightarrow> str \<Rightarrow> ModuleReferenceKind \<Rightarrow> str option) \<Rightarrow> Diagnostic list \<Rightarrow> Contribution list \<Rightarrow>
    'e resolve_error + Resolution" where
  "resolve quote d specifier diagnostics contributions =
     bindE (checkE requireFile contributions) (\<lambda>_.
     let paths = contributionPaths contributions; surfaces = resolvedSurfaces d contributions in
     bindE (foldE (\<lambda>sourcePath. foldE (workspaceReference quote d specifier contributions surfaces sourcePath)
                (sortedReferences (referencesOf contributions sourcePath))) paths
              \<lparr>rl_Nodes = collectNodes d contributions, rl_Edges = [], rl_diagnostics = diagnostics\<rparr>) (\<lambda>resolution.
     finishResolution (ResolverVocabulary d)
       \<lparr>rl_Nodes = sort_key n_ID (rl_Nodes resolution),
        rl_Edges = sortedFacts (rl_Edges resolution @ concat (map (workspaceSymbols specifier contributions surfaces) paths)),
        rl_diagnostics = sort_key dg_Message (rl_diagnostics resolution)\<rparr>))"

end
