(* ===== verification/Resolve_Surfaces.thy ===== *)
theory Resolve_Surfaces
  imports Resolve_Shared
begin

text \<open>
  What the rounds of \<^verbatim>\<open>resolvedSurfaces\<close> compute: the surfaces a file exports of its own and through chains of
  re-exports. They never compute more; they compute all of them if no re-export renames, since each round
  moves every surface one file further and a chain without repetition is no longer than the number of
  files. A chain of renamings can be longer than that, and its end is then missing.
\<close>

section \<open>The exports of a workspace\<close>

definition reExports :: "dialect \<Rightarrow> Contribution list \<Rightarrow> str \<Rightarrow> str \<Rightarrow> ModuleBinding \<Rightarrow> bool" where
  "reExports d cs p q b \<longleftrightarrow> (\<exists>r \<in> set (referencesOf cs p). ur_Kind r = ModuleReferenceReExport \<and>
     resolveRelativeSpecifier d (contributionPaths cs) p (ur_Target r) = Some q \<and> b \<in> set (ur_Bindings r))"

definition reExportable :: "ModuleBinding \<Rightarrow> ExportedSurface \<Rightarrow> bool" where
  "reExportable b s \<longleftrightarrow> (mb_ImportedName b = ''*'' \<or> es_Name s = mb_ImportedName b) \<and>
     (mb_ImportedName b = ''*'' \<and> mb_ExportedName b = ''*'' \<longrightarrow> es_Name s \<noteq> ''default'')"

inductive exported :: "dialect \<Rightarrow> Contribution list \<Rightarrow> str \<Rightarrow> ExportedSurface \<Rightarrow> bool" for d cs where
  own: "s \<in> set (surfacesOf cs p) \<Longrightarrow> exported d cs p s"
| re_exported: "reExports d cs p q b \<Longrightarrow> exported d cs q s \<Longrightarrow> reExportable b s \<Longrightarrow>
    exported d cs p \<lparr>es_NodeID = es_NodeID s, es_Name = exportName b s\<rparr>"

definition keepsNames :: "dialect \<Rightarrow> Contribution list \<Rightarrow> bool" where
  "keepsNames d cs \<longleftrightarrow> (\<forall>p q b s. reExports d cs p q b \<and> exported d cs q s \<and> reExportable b s \<longrightarrow> exportName b s = es_Name s)"

definition plainNames :: "Contribution list \<Rightarrow> bool" where
  "plainNames cs \<longleftrightarrow> (\<forall>p. \<forall>s \<in> set (surfacesOf cs p). CHR 0x00 \<notin> set (es_Name s))"

lemma set_matchingBindingSurfaces:
  "s \<in> set (matchingBindingSurfaces surfaces ModuleReferenceReExport b) \<longleftrightarrow> s \<in> set surfaces \<and> reExportable b s"
  by (auto simp: matchingBindingSurfaces_def matchingSurfaces_def reExportable_def Let_def)

lemma set_contributionPaths [simp]: "set (contributionPaths cs) = c_sourcePath ` set cs"
  by (simp add: contributionPaths_def)

lemma distinct_contributionPaths [simp]: "distinct (contributionPaths cs)"
  using sorted_dedup_adjacent [of "sort (map c_sourcePath cs)"] by (simp add: contributionPaths_def)

lemma contributionOf_Some: "contributionOf cs p = Some c \<Longrightarrow> c \<in> set cs \<and> c_sourcePath c = p"
  by (auto simp: contributionOf_def dest!: find_SomeD)

lemma set_sortedReferences [simp]: "set (sortedReferences rs) = set rs"
  by (simp add: sortedReferences_def)

lemma referencesOf_path: "r \<in> set (referencesOf cs p) \<Longrightarrow> p \<in> c_sourcePath ` set cs"
  by (cases "contributionOf cs p") (auto simp: referencesOf_def dest!: contributionOf_Some)

lemma surfacesOf_path: "s \<in> set (surfacesOf cs p) \<Longrightarrow> p \<in> c_sourcePath ` set cs"
  by (cases "contributionOf cs p") (auto simp: surfacesOf_def dest!: contributionOf_Some)

lemma exported_path: "exported d cs p s \<Longrightarrow> p \<in> c_sourcePath ` set cs"
  by (induction rule: exported.induct) (auto simp: reExports_def dest: surfacesOf_path referencesOf_path)

text \<open>Sufficient conditions that can be evaluated.\<close>

lemma plainNames_check:
  assumes "list_all (\<lambda>c. list_all (\<lambda>s. CHR 0x00 \<notin> set (es_Name s)) (c_exportedSurfaces c)) cs"
  shows "plainNames cs"
  unfolding plainNames_def
proof (intro allI ballI)
  fix p s assume s: "s \<in> set (surfacesOf cs p)"
  then obtain c where "contributionOf cs p = Some c" by (cases "contributionOf cs p") (auto simp: surfacesOf_def)
  with s have "c \<in> set cs" "s \<in> set (c_exportedSurfaces c)" using contributionOf_Some by (auto simp: surfacesOf_def)
  then show "CHR 0x00 \<notin> set (es_Name s)" using assms by (auto simp: list_all_iff)
qed

lemma keepsNames_check:
  assumes "list_all (\<lambda>c. list_all (\<lambda>r. list_all (\<lambda>b. mb_ExportedName b \<in> {[], ''*''} \<or>
      mb_ExportedName b = mb_ImportedName b) (ur_Bindings r)) (c_unresolvedReferences c)) cs"
  shows "keepsNames d cs"
  unfolding keepsNames_def
proof (intro allI impI, elim conjE)
  fix p q b s assume b: "reExports d cs p q b" and s: "reExportable b s"
  from b obtain r where r: "r \<in> set (referencesOf cs p)" "b \<in> set (ur_Bindings r)" by (auto simp: reExports_def)
  then obtain c where "contributionOf cs p = Some c" by (cases "contributionOf cs p") (auto simp: referencesOf_def)
  with r(1) have "c \<in> set cs" "r \<in> set (c_unresolvedReferences c)" using contributionOf_Some by (auto simp: referencesOf_def)
  then have "mb_ExportedName b \<in> {[], ''*''} \<or> mb_ExportedName b = mb_ImportedName b"
    using assms r(2) by (auto simp: list_all_iff)
  then show "exportName b s = es_Name s" using s by (auto simp: exportName_def reExportable_def)
qed

section \<open>Steps that only add\<close>

type_synonym surface_state = "(str \<Rightarrow> ExportedSurface list) \<times> bool"

definition extends :: "surface_state \<Rightarrow> surface_state \<Rightarrow> bool" where
  "extends st st' \<longleftrightarrow> (\<forall>p. set (fst st p) \<subseteq> set (fst st' p)) \<and> (\<not> snd st' \<longrightarrow> \<not> snd st \<and> fst st' = fst st)"

lemma extends_refl [simp]: "extends st st"
  by (simp add: extends_def)

lemma extends_trans: "extends st st' \<Longrightarrow> extends st' st'' \<Longrightarrow> extends st st''"
  unfolding extends_def by (cases "snd st''") (auto dest: subsetD)

lemma fold_extends: "(\<And>x st. x \<in> set xs \<Longrightarrow> extends st (f x st)) \<Longrightarrow> extends st (fold f xs st)"
proof (induction xs arbitrary: st)
  case (Cons x xs)
  have "extends st (f x st)" using Cons.prems by simp
  moreover have "extends (f x st) (fold f xs (f x st))" using Cons by simp
  ultimately show ?case by (simp add: extends_trans)
qed simp

text \<open>What one of the steps reaches from every later state, the fold reaches.\<close>

lemma fold_reaches:
  assumes "\<And>x st. x \<in> set xs \<Longrightarrow> extends st (f x st)" "x \<in> set xs"
    and "\<And>st'. extends st st' \<Longrightarrow> Q (f x st')" "\<And>st st'. Q st \<Longrightarrow> extends st st' \<Longrightarrow> Q st'"
  shows "Q (fold f xs st)"
proof -
  obtain ys zs where xs: "xs = ys @ x # zs" using split_list [OF assms(2)] by blast
  have "extends st (fold f ys st)" by (rule fold_extends) (simp add: assms(1) xs)
  then have "Q (f x (fold f ys st))" by (rule assms(3))
  moreover have "extends (f x (fold f ys st)) (fold f zs (f x (fold f ys st)))"
    by (rule fold_extends) (simp add: assms(1) xs)
  ultimately show ?thesis using assms(4) by (simp add: xs)
qed

lemma fold_keeps: "(\<And>x st. x \<in> set xs \<Longrightarrow> P st \<Longrightarrow> P (f x st)) \<Longrightarrow> P st \<Longrightarrow> P (fold f xs st)"
  by (induction xs arbitrary: st) auto

definition has :: "ExportedSurface \<Rightarrow> str \<Rightarrow> surface_state \<Rightarrow> bool" where
  "has s p st \<longleftrightarrow> exportKey s \<in> exportKey ` set (fst st p)"

lemma has_extends: "has s p st \<Longrightarrow> extends st st' \<Longrightarrow> has s p st'"
  by (auto simp: has_def extends_def)

lemma addSurface_extends [simp]: "extends st (addSurface p s st)"
  by (cases st) (auto simp: extends_def addSurface_def)

lemma addSurface_has [simp]: "has s p (addSurface p s st)"
  by (cases st) (auto simp: has_def addSurface_def)

lemma reExportBinding_extends [simp]: "extends st (reExportBinding p r q b st)"
  unfolding reExportBinding_def by (rule fold_extends) simp

lemma reExportReference_extends [simp]: "extends st (reExportReference d files p r st)"
  by (auto simp: reExportReference_def split: option.splits intro!: fold_extends)

lemma reExportRound_extends: "extends (surfaces, False) (reExportRound d cs surfaces)"
  unfolding reExportRound_def Let_def by (intro fold_extends) simp

text \<open>A round moves every surface one file further.\<close>

lemma reExportBinding_has:
  assumes "ur_Kind r = ModuleReferenceReExport" "s \<in> set (fst st q)" "reExportable b s" "extends st st'"
  shows "has \<lparr>es_NodeID = es_NodeID s, es_Name = exportName b s\<rparr> p (reExportBinding p r q b st')"
  unfolding reExportBinding_def
proof (rule fold_reaches [where x = s])
  show "s \<in> set (matchingBindingSurfaces (fst st' q) (ur_Kind r) b)"
    using assms unfolding assms(1) set_matchingBindingSurfaces by (auto simp: extends_def)
qed (auto intro: has_extends)

lemma reExportRound_has:
  assumes "reExports d cs p q b" "s \<in> set (surfaces q)" "reExportable b s"
  shows "has \<lparr>es_NodeID = es_NodeID s, es_Name = exportName b s\<rparr> p (reExportRound d cs surfaces)"
proof -
  let ?paths = "contributionPaths cs" and ?Q = "has \<lparr>es_NodeID = es_NodeID s, es_Name = exportName b s\<rparr> p"
  from assms(1) obtain r where r: "r \<in> set (referencesOf cs p)" "ur_Kind r = ModuleReferenceReExport"
    "resolveRelativeSpecifier d ?paths p (ur_Target r) = Some q" "b \<in> set (ur_Bindings r)"
    by (auto simp: reExports_def)
  have reference: "?Q (reExportReference d ?paths p r st)" if ext: "extends (surfaces, False) st" for st
  proof -
    have "?Q (fold (reExportBinding p r q) (ur_Bindings r) st)"
    proof (rule fold_reaches [where x = b])
      fix st' assume "extends st st'"
      with ext have "extends (surfaces, False) st'" by (rule extends_trans)
      then show "?Q (reExportBinding p r q b st')"
        using assms(2,3) r(2) by (intro reExportBinding_has [where st = "(surfaces, False)"]) simp_all
    qed (use r(4) in \<open>auto intro: has_extends\<close>)
    then show ?thesis using r(2,3) by (simp add: reExportReference_def)
  qed
  have path: "?Q (fold (reExportReference d ?paths p) (sortedReferences (referencesOf cs p)) st)"
    if ext: "extends (surfaces, False) st" for st
  proof (rule fold_reaches [where x = r])
    fix st' assume "extends st st'"
    with ext have "extends (surfaces, False) st'" by (rule extends_trans)
    then show "?Q (reExportReference d ?paths p r st')" by (rule reference)
  qed (use r(1) in \<open>auto intro: has_extends\<close>)
  have p: "p \<in> set ?paths" using referencesOf_path [OF r(1)] by simp
  show ?thesis unfolding reExportRound_def Let_def
    by (rule fold_reaches [where x = p]) (use p path in \<open>auto intro: has_extends fold_extends\<close>)
qed

section \<open>Soundness\<close>

definition sound_state :: "dialect \<Rightarrow> Contribution list \<Rightarrow> surface_state \<Rightarrow> bool" where
  "sound_state d cs st \<longleftrightarrow> (\<forall>p. (\<forall>s \<in> set (fst st p). exported d cs p s) \<and> distinct (map exportKey (fst st p)))"

lemma addSurface_sound: "exported d cs p s \<Longrightarrow> sound_state d cs st \<Longrightarrow> sound_state d cs (addSurface p s st)"
  by (cases st) (auto simp: sound_state_def addSurface_def)

lemma reExportBinding_sound:
  assumes "ur_Kind r = ModuleReferenceReExport" "reExports d cs p q b" "sound_state d cs st"
  shows "sound_state d cs (reExportBinding p r q b st)"
  unfolding reExportBinding_def
proof (rule fold_keeps)
  fix s st'
  assume s: "s \<in> set (matchingBindingSurfaces (fst st q) (ur_Kind r) b)" and st': "sound_state d cs st'"
  have "exported d cs q s" "reExportable b s"
    using s assms(3) unfolding assms(1) set_matchingBindingSurfaces by (auto simp: sound_state_def)
  then show "sound_state d cs (addSurface p \<lparr>es_NodeID = es_NodeID s, es_Name = exportName b s\<rparr> st')"
    using assms(2) st' by (intro addSurface_sound exported.re_exported)
qed (rule assms(3))

lemma reExportReference_sound:
  assumes "r \<in> set (referencesOf cs p)" "sound_state d cs st"
  shows "sound_state d cs (reExportReference d (contributionPaths cs) p r st)"
proof -
  have "sound_state d cs (fold (reExportBinding p r q) (ur_Bindings r) st)"
    if kind: "ur_Kind r = ModuleReferenceReExport" and q: "resolveRelativeSpecifier d (contributionPaths cs) p (ur_Target r) = Some q" for q
  proof (rule fold_keeps)
    fix b st' assume "b \<in> set (ur_Bindings r)" "sound_state d cs st'"
    then show "sound_state d cs (reExportBinding p r q b st')"
      using assms(1) kind q by (intro reExportBinding_sound) (auto simp: reExports_def)
  qed (rule assms(2))
  then show ?thesis using assms(2) by (auto simp: reExportReference_def split: option.splits)
qed

lemma sound_flag: "sound_state d cs (surfaces, a) \<longleftrightarrow> sound_state d cs (surfaces, b)"
  by (simp add: sound_state_def)

lemma reExportRound_sound: "sound_state d cs (surfaces, a) \<Longrightarrow> sound_state d cs (reExportRound d cs surfaces)"
  unfolding reExportRound_def Let_def
proof (rule fold_keeps)
  fix p st assume "sound_state d cs st"
  then show "sound_state d cs (fold (reExportReference d (contributionPaths cs) p) (sortedReferences (referencesOf cs p)) st)"
    by (intro fold_keeps [where P = "sound_state d cs"] reExportReference_sound) simp_all
qed (simp add: sound_state_def)

lemma reExportRounds_sound: "sound_state d cs (surfaces, a) \<Longrightarrow> sound_state d cs (reExportRounds d cs n surfaces, b)"
proof (induction n arbitrary: surfaces a)
  case 0
  then show ?case by (simp add: sound_state_def)
next
  case (Suc n)
  obtain surfaces' changed where round: "reExportRound d cs surfaces = (surfaces', changed)" by fastforce
  have sound: "sound_state d cs (surfaces', changed)" using reExportRound_sound [OF Suc.prems] round by simp
  show ?case
  proof (cases changed)
    case True
    then show ?thesis using Suc.IH [OF sound] round by simp
  next
    case False
    then show ?thesis using sound round by (simp add: sound_state_def)
  qed
qed

lemma ownSurfaces_sound: "sound_state d cs (ownSurfaces cs, a)"
proof -
  have "sound_state d cs (fold (\<lambda>p. fold (addSurface p) (surfacesOf cs p)) (contributionPaths cs) (\<lambda>_. [], False))"
  proof (rule fold_keeps)
    fix p st assume "sound_state d cs st"
    then show "sound_state d cs (fold (addSurface p) (surfacesOf cs p) st)"
      by (intro fold_keeps [where P = "sound_state d cs"] addSurface_sound exported.own) simp_all
  qed (simp add: sound_state_def)
  then show ?thesis by (simp add: ownSurfaces_def sound_state_def)
qed

lemma ownSurfaces_has:
  assumes "s \<in> set (surfacesOf cs p)"
  shows "has s p (ownSurfaces cs, a)"
proof -
  have path: "has s p (fold (addSurface p) (surfacesOf cs p) st)" for st
    by (rule fold_reaches [where x = s]) (use assms in \<open>auto intro: has_extends\<close>)
  have "has s p (fold (\<lambda>p. fold (addSurface p) (surfacesOf cs p)) (contributionPaths cs) (\<lambda>_. [], False))"
  proof (rule fold_reaches [where x = p])
    show "p \<in> set (contributionPaths cs)" using surfacesOf_path [OF assms] by simp
  qed (use path in \<open>auto intro: has_extends fold_extends\<close>)
  then show ?thesis by (simp add: has_def ownSurfaces_def)
qed

section \<open>Completeness without renaming\<close>

lemma exportKey_inj:
  assumes "CHR 0x00 \<notin> set (es_Name s)" "CHR 0x00 \<notin> set (es_Name t)" "exportKey s = exportKey t"
  shows "s = t"
proof -
  have nul: "nul = [CHR 0x00]" by code_simp
  have name: "takeWhile (\<lambda>c. c \<noteq> CHR 0x00) (exportKey u) = es_Name u" if "CHR 0x00 \<notin> set (es_Name u)" for u
    using that unfolding exportKey_def nul by (subst takeWhile_append2) (auto simp: takeWhile_tail)
  have "es_Name s = es_Name t" using name [OF assms(1)] name [OF assms(2)] assms(3) by simp
  then show ?thesis using assms(3) by (cases s; cases t) (simp add: exportKey_def nul)
qed

lemma exported_plain:
  assumes "exported d cs p s" "plainNames cs" "keepsNames d cs"
  shows "CHR 0x00 \<notin> set (es_Name s)"
  using assms(1)
proof (induction rule: exported.induct)
  case (own s p)
  then show ?case using assms(2) by (auto simp: plainNames_def)
next
  case (re_exported p q b s)
  then have "exportName b s = es_Name s" using assms(3) unfolding keepsNames_def by blast
  then show ?case using re_exported.IH by simp
qed

lemma has_member:
  assumes "plainNames cs" "keepsNames d cs" "sound_state d cs st" "exported d cs q s" "has s p st"
  shows "s \<in> set (fst st p)"
proof -
  from assms(5) obtain t where t: "t \<in> set (fst st p)" "exportKey s = exportKey t" by (auto simp: has_def)
  have "exported d cs p t" using assms(3) t(1) by (simp add: sound_state_def)
  then have "s = t" using exported_plain assms(1,2,4) t(2) by (intro exportKey_inj) blast+
  then show ?thesis using t(1) by simp
qed

text \<open>A state that has the own surfaces and is closed under one more round has every export.\<close>

lemma closed_has:
  assumes "plainNames cs" "keepsNames d cs"
    and own: "\<And>p t. t \<in> set (surfacesOf cs p) \<Longrightarrow> has t p st"
    and closed: "\<And>p q b. reExports d cs p q b \<Longrightarrow> reExportable b s \<Longrightarrow> exported d cs q s \<Longrightarrow> has s q st \<Longrightarrow> has s p st"
  shows "exported d cs p t \<Longrightarrow> t = s \<Longrightarrow> has s p st"
proof (induction rule: exported.induct)
  case (own t p)
  then show ?case using assms(3) by blast
next
  case (re_exported p q b t)
  then have "exportName b t = es_Name t" using assms(2) unfolding keepsNames_def by blast
  then have t: "t = s" using re_exported.prems by (cases t; cases s) simp
  then have "has s q st" using re_exported.IH by simp
  then show ?case using closed [OF re_exported.hyps(1)] re_exported.hyps(2,3) t by simp
qed

lemma reExportRounds_keeps: "has s p (surfaces, a) \<Longrightarrow> has s p (reExportRounds d cs n surfaces, b)"
proof (induction n arbitrary: surfaces a)
  case (Suc n)
  obtain surfaces' changed where round: "reExportRound d cs surfaces = (surfaces', changed)" by fastforce
  have "extends (surfaces, False) (surfaces', changed)" using reExportRound_extends [of surfaces d cs] round by simp
  from has_extends [OF _ this, of s p] Suc.prems have kept: "has s p (surfaces', changed)" by (simp add: has_def)
  then show ?case using Suc.IH [OF kept] round by (cases changed) (simp_all add: has_def)
qed (simp add: has_def)

lemma reExportRounds_has:
  assumes "plainNames cs" "keepsNames d cs" "exported d cs p s"
    and "sound_state d cs (surfaces, a)" "\<And>p t. t \<in> set (surfacesOf cs p) \<Longrightarrow> has t p (surfaces, a)"
    and "card (c_sourcePath ` set cs) \<le> card {p \<in> c_sourcePath ` set cs. has s p (surfaces, a)} + n"
  shows "has s p (reExportRounds d cs n surfaces, b)"
  using assms(4-6)
proof (induction n arbitrary: surfaces a)
  case 0
  let ?A = "{p \<in> c_sourcePath ` set cs. has s p (surfaces, a)}"
  have "?A = c_sourcePath ` set cs" using 0 by (intro card_seteq) auto
  then have "has s p (surfaces, a)" using exported_path [OF assms(3)] by blast
  then show ?case by (simp add: has_def)
next
  case (Suc n)
  let ?P = "c_sourcePath ` set cs"
  obtain surfaces' changed where round: "reExportRound d cs surfaces = (surfaces', changed)" by fastforce
  have ext: "extends (surfaces, False) (surfaces', changed)" using reExportRound_extends [of surfaces d cs] round by simp
  have mono: "has t q (surfaces', changed)" if "has t q (surfaces, a)" for t q
    using has_extends [OF _ ext, of t q] that by (simp add: has_def)
  have sound: "sound_state d cs (surfaces', changed)" using reExportRound_sound [OF Suc.prems(1)] round by simp
  have moved: "has s q' (surfaces', changed)"
    if e: "reExports d cs q' q b'" "reExportable b' s" "exported d cs q s" "has s q (surfaces, a)" for q' q b'
  proof -
    have "s \<in> set (surfaces q)" using has_member [OF assms(1,2) Suc.prems(1) e(3,4)] by simp
    from reExportRound_has [where surfaces = surfaces, OF e(1) this e(2)] round show ?thesis
      using assms(2) e unfolding keepsNames_def by (cases s) (metis ExportedSurface.ext_inject ExportedSurface.surjective)
  qed
  show ?case
  proof (cases "{q \<in> ?P. has s q (surfaces', changed)} = {q \<in> ?P. has s q (surfaces, a)}")
    case True
    have "has s q' (surfaces, a)"
      if e: "reExports d cs q' q b'" "reExportable b' s" "exported d cs q s" "has s q (surfaces, a)" for q' q b'
    proof -
      have "q' \<in> ?P" using e(1) by (auto simp: reExports_def dest: referencesOf_path)
      then show ?thesis using moved [OF e] True by blast
    qed
    from closed_has [OF assms(1,2) Suc.prems(2) this assms(3)] have "has s p (surfaces, a)" by simp
    then show ?thesis by (rule reExportRounds_keeps)
  next
    case False
    then have "{q \<in> ?P. has s q (surfaces, a)} \<subset> {q \<in> ?P. has s q (surfaces', changed)}" using mono by blast
    then have card: "card {q \<in> ?P. has s q (surfaces, a)} < card {q \<in> ?P. has s q (surfaces', changed)}"
      by (intro psubset_card_mono) auto
    have "changed"
    proof (rule ccontr)
      assume "\<not> changed"
      then have "surfaces' = surfaces" using ext by (simp add: extends_def)
      then show False using card by (simp add: has_def)
    qed
    moreover have "has s p (reExportRounds d cs n surfaces', b)"
      by (rule Suc.IH [OF sound]) (use Suc.prems(2,3) mono card in auto)
    ultimately show ?thesis using round by simp
  qed
qed

section \<open>Properties\<close>


end
