(* ===== verification/Resolve_Packages.thy ===== *)
theory Resolve_Packages
  imports Resolve_Surfaces Discovery "HOL-Library.AList"
begin

text \<open>
  Specifiers outside of the workspace's relative paths: packages with a \<^verbatim>\<open>package.json\<close>
  (\<^verbatim>\<open>src/extractors/javascript/resolver.go\<close>) and the path aliases of a \<^verbatim>\<open>tsconfig.json\<close>
  (\<^verbatim>\<open>src/extractors/typescript/resolver.go\<close>), and with them the resolution of a whole workspace in both languages.
  Only the syntax of JSON is an argument (\<open>parse\<close>); how \<^verbatim>\<open>encoding/json\<close> decodes a value into the structs of the
  code, with its treatment of null, of repeated and of unknown members and of field names that differ in case, is
  written out. A map that is ranged over is visited in the order of its members.
\<close>

section \<open>JSON values\<close>

datatype json = JNull | JBool bool | JNumber str | JString str | JArray "json list" | JObject "(str \<times> json) list"

datatype json_error = JSONSyntax | JSONType

text \<open>Decoding into a variable that holds a value already: null leaves it.\<close>

definition decodeString :: "json \<Rightarrow> str \<Rightarrow> json_error + str" where
  "decodeString value current = (case value of JString s \<Rightarrow> Inr s | JNull \<Rightarrow> Inr current | _ \<Rightarrow> Inl JSONType)"

definition decodeStrings :: "json \<Rightarrow> json_error + str list" where
  "decodeStrings value =
     (case value of JArray values \<Rightarrow> mapE (\<lambda>v. decodeString v []) values | JNull \<Rightarrow> Inr [] | _ \<Rightarrow> Inl JSONType)"

text \<open>The members of an object; of a repeated field the last counts.\<close>

definition decodeObject :: "json \<Rightarrow> json_error + (str \<times> json) list" where
  "decodeObject value = (case value of JObject members \<Rightarrow> Inr members | JNull \<Rightarrow> Inr [] | _ \<Rightarrow> Inl JSONType)"

definition lookupField :: "(str \<times> json) list \<Rightarrow> str \<Rightarrow> json option" where
  "lookupField members name = map_of (rev members) name"

lemma lookupField_member: "lookupField members name = Some v \<Longrightarrow> (name, v) \<in> set members"
  unfolding lookupField_def by (auto dest: map_of_SomeD)

lemma size_field: "(name, v) \<in> set members \<Longrightarrow> size v < size (JObject members)"
  by (induction members) auto

text \<open>Decoding into a struct: each field in turn, unknown ones skipped.\<close>

definition decodeStruct :: "(str \<Rightarrow> json \<Rightarrow> 's \<Rightarrow> json_error + 's) \<Rightarrow> json \<Rightarrow> 's \<Rightarrow> json_error + 's" where
  "decodeStruct field value s = bindE (decodeObject value) (\<lambda>members. foldE (\<lambda>(name, v). field (ToLower name) v) members s)"

definition Unmarshal :: "(str \<Rightarrow> json option) \<Rightarrow> (json \<Rightarrow> json_error + 'a) \<Rightarrow> str \<Rightarrow> json_error + 'a" where
  "Unmarshal parse decode bytes = (case parse bytes of None \<Rightarrow> Inl JSONSyntax | Some value \<Rightarrow> decode value)"

section \<open>Package manifests\<close>

record packageManifest =
  pm_Exports :: "json option"
  pm_Main :: str

definition manifestField :: "str \<Rightarrow> json \<Rightarrow> packageManifest \<Rightarrow> json_error + packageManifest" where
  "manifestField name value manifest =
     (if name = ''exports'' then Inr (manifest\<lparr>pm_Exports := Some value\<rparr>)
      else if name = ''main'' then bindE (decodeString value (pm_Main manifest)) (\<lambda>main. Inr (manifest\<lparr>pm_Main := main\<rparr>))
      else Inr manifest)"

definition decodeManifest :: "json \<Rightarrow> json_error + packageManifest" where
  "decodeManifest value = decodeStruct manifestField value \<lparr>pm_Exports = None, pm_Main = []\<rparr>"

definition splitPackageSpecifier :: "str \<Rightarrow> (str \<times> str) option" where
  "splitPackageSpecifier specifier =
     (let parts = SplitOn slash specifier in
      if specifier = [] \<or> HasPrefix specifier ''.'' then None
      else if HasPrefix specifier ''@'' then
        (if length parts < 2 \<or> parts ! 1 = [] then None
         else Some (JoinOn slashes (take 2 parts), JoinOn slashes (drop 2 parts)))
      else Some (hd parts, JoinOn slashes (tl parts)))"

definition packageExportCondition :: "ModuleReferenceKind \<Rightarrow> str" where
  "packageExportCondition kind = (if kind = ModuleReferenceRequire then ''require'' else ''import'')"

function selectPackageExport :: "str \<Rightarrow> str \<Rightarrow> json \<Rightarrow> str option" where
  "selectPackageExport condition subpath raw =
     (case decodeString raw [] of
        Inr target \<Rightarrow> Some target
      | Inl _ \<Rightarrow>
          (case raw of
             JObject values \<Rightarrow>
               if subpath \<noteq> [] then
                 (case lookupField values (''./'' @ subpath) of None \<Rightarrow> None | Some v \<Rightarrow> selectPackageExport condition [] v)
               else (case lookupField values ''.'' of
                   Some root \<Rightarrow> selectPackageExport condition [] root
                 | None \<Rightarrow>
                     (case lookupField values condition of
                        Some candidate \<Rightarrow> selectPackageExport condition [] candidate
                      | None \<Rightarrow>
                          (case lookupField values ''default'' of
                             Some candidate \<Rightarrow> selectPackageExport condition [] candidate
                           | None \<Rightarrow> None)))
           | _ \<Rightarrow> None))"
  by pat_completeness auto
termination
  by (relation "measure (\<lambda>(_, _, raw). size raw)") (auto dest!: lookupField_member size_field)

text \<open>The directory of a source and its parents, up to the root of the project.\<close>

fun upTo :: "'a \<Rightarrow> 'a list \<Rightarrow> 'a list" where
  "upTo root [] = []"
| "upTo root (x # xs) = x # (if x = root then [] else upTo root xs)"

definition searchDirectories :: "str \<Rightarrow> str \<Rightarrow> str list" where
  "searchDirectories root sourcePath = upTo root (ancestors (Dir sourcePath) @ [''.''])"

text \<open>The first directory with an answer: \<open>Some\<close> ends the search, even with nothing found.\<close>

fun firstAnswer :: "('a \<Rightarrow> 'b option option) \<Rightarrow> 'a list \<Rightarrow> 'b option" where
  "firstAnswer f [] = None"
| "firstAnswer f (x # xs) = (case f x of None \<Rightarrow> firstAnswer f xs | Some found \<Rightarrow> found)"

definition packageIn :: "(str \<Rightarrow> json option) \<Rightarrow> dialect \<Rightarrow> str \<Rightarrow> str list \<Rightarrow> ResolverFileView \<Rightarrow> str \<Rightarrow> str \<Rightarrow> str \<Rightarrow> str option option" where
  "packageIn parse d condition files view packageName subpath directory =
     (let packageDirectory = Join [directory, ''node_modules'', packageName] in
      case viewFile view (Join [packageDirectory, ''package.json'']) of
        None \<Rightarrow> None
      | Some bytes \<Rightarrow>
          (case Unmarshal parse decodeManifest bytes of
             Inl _ \<Rightarrow> None
           | Inr manifest \<Rightarrow>
               Some (case pm_Exports manifest of
                   Some exports \<Rightarrow>
                     (case selectPackageExport condition subpath exports of
                        Some target \<Rightarrow> resolvePath d files (Join [packageDirectory, target])
                      | None \<Rightarrow> None)
                 | None \<Rightarrow>
                     (let entry = (if subpath \<noteq> [] then subpath else if pm_Main manifest \<noteq> [] then pm_Main manifest else ''index'') in
                      resolvePath d files (Join [packageDirectory, entry])))))"

definition resolvePackageSpecifier :: "(str \<Rightarrow> json option) \<Rightarrow> dialect \<Rightarrow> str \<Rightarrow> str list \<Rightarrow> ResolverFileView \<Rightarrow> str \<Rightarrow> str \<Rightarrow> str option" where
  "resolvePackageSpecifier parse d condition files view sourcePath specifier =
     (case splitPackageSpecifier specifier of
        None \<Rightarrow> None
      | Some (packageName, subpath) \<Rightarrow>
          if rv_projectRoot view = [] then None
          else firstAnswer (packageIn parse d condition files view packageName subpath)
                 (searchDirectories (rv_projectRoot view) sourcePath))"

section \<open>TypeScript configurations\<close>

record tsConfig =
  tc_BaseURL :: str
  tc_ModuleResolution :: str
  tc_Paths :: "(str \<times> str list) list"

definition decodePaths :: "json \<Rightarrow> (str \<times> str list) list \<Rightarrow> json_error + (str \<times> str list) list" where
  "decodePaths value current =
     (case value of
        JNull \<Rightarrow> Inr []
      | JObject members \<Rightarrow> foldE (\<lambda>(pat, v) paths. bindE (decodeStrings v) (\<lambda>targets. Inr (AList.update pat targets paths))) members current
      | _ \<Rightarrow> Inl JSONType)"

definition compilerOption :: "str \<Rightarrow> json \<Rightarrow> tsConfig \<Rightarrow> json_error + tsConfig" where
  "compilerOption name value config =
     (if name = ''baseurl'' then bindE (decodeString value (tc_BaseURL config)) (\<lambda>s. Inr (config\<lparr>tc_BaseURL := s\<rparr>))
      else if name = ''moduleresolution'' then
        bindE (decodeString value (tc_ModuleResolution config)) (\<lambda>s. Inr (config\<lparr>tc_ModuleResolution := s\<rparr>))
      else if name = ''paths'' then bindE (decodePaths value (tc_Paths config)) (\<lambda>paths. Inr (config\<lparr>tc_Paths := paths\<rparr>))
      else Inr config)"

definition decodeTSConfig :: "json \<Rightarrow> json_error + tsConfig" where
  "decodeTSConfig value =
     decodeStruct (\<lambda>name v. if name = ''compileroptions'' then decodeStruct compilerOption v else Inr)
       value \<lparr>tc_BaseURL = [], tc_ModuleResolution = [], tc_Paths = []\<rparr>"

definition nearestTSConfig :: "(str \<Rightarrow> json option) \<Rightarrow> ResolverFileView \<Rightarrow> str \<Rightarrow> (str \<times> tsConfig) option" where
  "nearestTSConfig parse view sourcePath =
     (if rv_projectRoot view = [] then None
      else firstAnswer (\<lambda>directory.
        let configPath = Join [directory, ''tsconfig.json''] in
        case viewFile view configPath of
          None \<Rightarrow> None
        | Some bytes \<Rightarrow> (case Unmarshal parse decodeTSConfig bytes of Inl _ \<Rightarrow> None | Inr config \<Rightarrow> Some (Some (configPath, config))))
        (searchDirectories (rv_projectRoot view) sourcePath))"

definition matchPathPattern :: "str \<Rightarrow> str \<Rightarrow> str \<times> str \<Rightarrow> str \<times> str" where
  "matchPathPattern specifier candidate best =
     (case best of (pat, rest) \<Rightarrow>
        if HasSuffix candidate ''*'' then
          (if \<not> HasPrefix specifier (TrimSuffix candidate ''*'') \<or> length candidate \<le> length pat then best
           else (candidate, TrimPrefix specifier (TrimSuffix candidate ''*'')))
        else if candidate = specifier \<and> length candidate > length pat then (candidate, []) else best)"

definition longestMatchingPathPattern :: "str \<Rightarrow> str list \<Rightarrow> (str \<times> str) option" where
  "longestMatchingPathPattern specifier patterns =
     (let (pat, rest) = fold (matchPathPattern specifier) patterns ([], []) in
      if pat = [] then None else Some (pat, rest))"

definition resolveTypeScriptPathAlias :: "(str \<Rightarrow> json option) \<Rightarrow> str list \<Rightarrow> ResolverFileView \<Rightarrow> str \<Rightarrow> str \<Rightarrow> str option" where
  "resolveTypeScriptPathAlias parse files view sourcePath specifier =
     (case nearestTSConfig parse view sourcePath of
        None \<Rightarrow> None
      | Some (configPath, config) \<Rightarrow>
          (case longestMatchingPathPattern specifier (map fst (tc_Paths config)) of
             None \<Rightarrow> None
           | Some (pat, rest) \<Rightarrow>
               (let basePath = (if tc_BaseURL config \<noteq> [] then Join [Dir configPath, tc_BaseURL config] else Dir configPath);
                    targets = (case map_of (tc_Paths config) pat of None \<Rightarrow> [] | Some targets \<Rightarrow> targets) in
                firstAnswer (\<lambda>target.
                  let candidate = concat (map (\<lambda>c. if c = CHR ''*'' then rest else [c]) target) in
                  map_option Some (resolvePath typescriptDialect files (Join [basePath, candidate]))) targets)))"

definition configurationDiagnostic :: "(str \<Rightarrow> str) \<Rightarrow> str \<times> tsConfig \<Rightarrow> Diagnostic list" where
  "configurationDiagnostic quote found =
     (case found of (configPath, config) \<Rightarrow>
        if ToLower (tc_ModuleResolution config) \<in> {[], ''node16'', ''nodenext'', ''bundler''} then []
        else [warning (''TypeScript moduleResolution '' @ quote (tc_ModuleResolution config) @ '' in '' @ quote configPath @ '' is unsupported'')])"

definition typeScriptConfigurationDiagnostics :: "(str \<Rightarrow> str) \<Rightarrow> (str \<Rightarrow> json option) \<Rightarrow> ResolverFileView \<Rightarrow> str list \<Rightarrow> Diagnostic list" where
  "typeScriptConfigurationDiagnostics quote parse view paths =
     concat (map (configurationDiagnostic quote)
       (snd (fold (\<lambda>sourcePath (seen, found).
          case nearestTSConfig parse view sourcePath of
            None \<Rightarrow> (seen, found)
          | Some config \<Rightarrow> if fst config \<in> set seen then (seen, found) else (fst config # seen, found @ [config])) paths ([], []))))"

section \<open>Whole workspaces\<close>

definition resolveSpecifierJavaScript :: "(str \<Rightarrow> json option) \<Rightarrow> str list \<Rightarrow> ResolverFileView \<Rightarrow> str \<Rightarrow> str \<Rightarrow> ModuleReferenceKind \<Rightarrow> str option" where
  "resolveSpecifierJavaScript parse files view sourcePath specifier kind =
     (if HasPrefix specifier ''.'' then resolveRelativeSpecifier javascriptDialect files sourcePath specifier
      else resolvePackageSpecifier parse javascriptDialect (packageExportCondition kind) files view sourcePath specifier)"

definition resolveSpecifierTypeScript :: "(str \<Rightarrow> json option) \<Rightarrow> str list \<Rightarrow> ResolverFileView \<Rightarrow> str \<Rightarrow> str \<Rightarrow> ModuleReferenceKind \<Rightarrow> str option" where
  "resolveSpecifierTypeScript parse files view sourcePath specifier kind =
     (if HasPrefix specifier ''.'' then resolveRelativeSpecifier typescriptDialect files sourcePath specifier
      else case resolveTypeScriptPathAlias parse files view sourcePath specifier of
        Some targetPath \<Rightarrow> Some targetPath
      | None \<Rightarrow> resolvePackageSpecifier parse typescriptDialect ''import'' files view sourcePath specifier)"

definition javascriptResolveWithFileView :: "(str \<Rightarrow> str) \<Rightarrow> (str \<Rightarrow> json option) \<Rightarrow> Contribution list \<Rightarrow> ResolverFileView \<Rightarrow>
    'e resolve_error + Resolution" where
  "javascriptResolveWithFileView quote parse contributions view =
     resolve quote javascriptDialect (resolveSpecifierJavaScript parse (contributionPaths contributions) view) [] contributions"

definition typescriptResolveWithFileView :: "(str \<Rightarrow> str) \<Rightarrow> (str \<Rightarrow> json option) \<Rightarrow> Contribution list \<Rightarrow> ResolverFileView \<Rightarrow>
    'e resolve_error + Resolution" where
  "typescriptResolveWithFileView quote parse contributions view =
     resolve quote typescriptDialect (resolveSpecifierTypeScript parse (contributionPaths contributions) view)
       (typeScriptConfigurationDiagnostics quote parse view (contributionPaths contributions)) contributions"

definition emptyFileView :: ResolverFileView where
  "emptyFileView = \<lparr>rv_projectRoot = [], rv_files = Map.empty\<rparr>"

definition javascriptResolve :: "(str \<Rightarrow> str) \<Rightarrow> (str \<Rightarrow> json option) \<Rightarrow> Contribution list \<Rightarrow> 'e resolve_error + Resolution" where
  "javascriptResolve quote parse contributions = javascriptResolveWithFileView quote parse contributions emptyFileView"

definition typescriptResolve :: "(str \<Rightarrow> str) \<Rightarrow> (str \<Rightarrow> json option) \<Rightarrow> Contribution list \<Rightarrow> 'e resolve_error + Resolution" where
  "typescriptResolve quote parse contributions = typescriptResolveWithFileView quote parse contributions emptyFileView"

text \<open>Without a file view only relative specifiers resolve, and no configuration is read.\<close>

definition relativeResolve :: "(str \<Rightarrow> str) \<Rightarrow> dialect \<Rightarrow> Contribution list \<Rightarrow> 'e resolve_error + Resolution" where
  "relativeResolve quote d contributions =
     resolve quote d (\<lambda>sourcePath specifier _. resolveRelativeSpecifier d (contributionPaths contributions) sourcePath specifier) [] contributions"

lemma no_view [simp]:
  "resolvePackageSpecifier parse d condition files emptyFileView p s = None"
  "nearestTSConfig parse emptyFileView p = None"
  by (simp_all add: resolvePackageSpecifier_def nearestTSConfig_def emptyFileView_def split: option.splits)

lemma javascriptResolve_relative: "javascriptResolve quote parse cs = relativeResolve quote javascriptDialect cs"
proof -
  have "resolveSpecifierJavaScript parse files emptyFileView = (\<lambda>p s _. resolveRelativeSpecifier javascriptDialect files p s)" for files
    by (simp add: fun_eq_iff resolveSpecifierJavaScript_def resolveRelativeSpecifier_def)
  then show ?thesis by (simp add: javascriptResolve_def javascriptResolveWithFileView_def relativeResolve_def)
qed

lemma typescriptResolve_relative: "typescriptResolve quote parse cs = relativeResolve quote typescriptDialect cs"
proof -
  have "resolveSpecifierTypeScript parse files emptyFileView = (\<lambda>p s _. resolveRelativeSpecifier typescriptDialect files p s)" for files
    by (simp add: fun_eq_iff resolveSpecifierTypeScript_def resolveRelativeSpecifier_def resolveTypeScriptPathAlias_def)
  moreover have "fold (\<lambda>p (seen, found). (seen, found)) paths st = st" for paths :: "str list" and st :: "str list \<times> (str \<times> tsConfig) list"
    by (induction paths arbitrary: st) auto
  then have "typeScriptConfigurationDiagnostics quote parse emptyFileView paths = []" for paths
    by (simp add: typeScriptConfigurationDiagnostics_def)
  ultimately show ?thesis by (simp add: typescriptResolve_def typescriptResolveWithFileView_def relativeResolve_def)
qed

end
