(* ===== verification/Resolve_Pages.thy ===== *)
theory Resolve_Pages
  imports Resolve_Packages
begin

text \<open>
  Resolving page by page against resolving at once. \<^verbatim>\<open>ResolvePage\<close> asks an index for each target, \<^verbatim>\<open>Resolve\<close>
  has all contributions in memory. If the index serves exactly these contributions and none of them re-exports, the
  pages find the same edges, however the contributions are split, and they succeed if the whole
  does. With a re-export they do not: a page sees only what a target exports of its own.
\<close>

section \<open>The edges of a source\<close>

definition resolverNodes :: "dialect \<Rightarrow> Contribution \<Rightarrow> Node list" where
  "resolverNodes d c = filter (\<lambda>n. isResolverNodeKind d (n_Kind n)) (f_Nodes (c_facts c))"

definition targetContribution :: "dialect \<Rightarrow> Contribution list \<Rightarrow> Contribution \<Rightarrow> UnresolvedReference \<Rightarrow> Contribution option" where
  "targetContribution d cs c r =
     Option.bind (resolveRelativeSpecifier d (contributionPaths cs) (c_sourcePath c) (ur_Target r)) (contributionOf cs)"

definition relationOf :: "dialect \<Rightarrow> ModuleReferenceKind \<Rightarrow> RelationKind" where
  "relationOf d kind = (if kind = ModuleReferenceReExport then dl_reExports d else dl_importsFrom d)"

definition supportedKind :: "dialect \<Rightarrow> ModuleReferenceKind \<Rightarrow> bool" where
  "supportedKind d kind \<longleftrightarrow> kind = ModuleReferenceImport \<or> kind = ModuleReferenceReExport \<or> kind = ModuleReferenceRequire \<and> dl_requires d"

definition edgesOfReference :: "dialect \<Rightarrow> Contribution list \<Rightarrow> Contribution \<Rightarrow> UnresolvedReference \<Rightarrow> Edge list" where
  "edgesOfReference d cs c r =
     (case targetContribution d cs c r of None \<Rightarrow> []
      | Some t \<Rightarrow> referenceEdges (relationOf d (ur_Kind r)) (referenceEvidence (the (fileFact c)) r) r (n_ID (the (fileFact t)))
          (c_exportedSurfaces t))"

definition edgesOfSymbol :: "dialect \<Rightarrow> Contribution list \<Rightarrow> Contribution \<Rightarrow> SymbolReference \<Rightarrow> Edge list" where
  "edgesOfSymbol d cs c s = symbolEdges s (concat (map (\<lambda>r.
     if ur_Kind r \<noteq> ModuleReferenceImport then []
     else case targetContribution d cs c r of None \<Rightarrow> [] | Some t \<Rightarrow> boundSurfaces (sr_Target s) r (c_exportedSurfaces t))
     (c_unresolvedReferences c)))"

definition edgesOf :: "dialect \<Rightarrow> Contribution list \<Rightarrow> Contribution \<Rightarrow> Edge list" where
  "edgesOf d cs c = concat (map (edgesOfReference d cs c) (sortedReferences (c_unresolvedReferences c))) @
     concat (map (edgesOfSymbol d cs c) (c_symbolReferences c))"

text \<open>An index that serves the contributions of a workspace, and nothing else.\<close>

definition servedBy :: "dialect \<Rightarrow> (ResolverTargetRequest \<Rightarrow> 'e + ResolverTarget option) \<Rightarrow> str \<Rightarrow> Contribution list \<Rightarrow> bool" where
  "servedBy d index project cs \<longleftrightarrow> (\<forall>p. \<exists>found. index \<lparr>rt_ProjectID = project, rt_Language = dl_language d, rt_SourcePath = p\<rparr> = Inr found \<and>
     (case contributionOf cs p of None \<Rightarrow> found = None
      | Some c \<Rightarrow> \<exists>t. found = Some t \<and> tg_Nodes t = f_Nodes (c_facts c) \<and> tg_ExportedSurfaces t = c_exportedSurfaces c))"

text \<open>Sources with one contribution each, nodes with one ID each, references from and surfaces of nodes of the source itself,
  and no re-exports.\<close>

definition separate :: "dialect \<Rightarrow> Contribution list \<Rightarrow> bool" where
  "separate d cs \<longleftrightarrow> distinct (map c_sourcePath cs) \<and> distinct (map n_ID (concat (map (resolverNodes d) cs))) \<and>
     (\<forall>c \<in> set cs. (\<forall>r \<in> set (c_unresolvedReferences c). ur_SourceID r \<in> n_ID ` set (resolverNodes d c) \<and> ur_Kind r \<noteq> ModuleReferenceReExport) \<and>
        (\<forall>s \<in> set (c_symbolReferences c). sr_SourceID s \<in> n_ID ` set (resolverNodes d c)) \<and>
        (\<forall>s \<in> set (c_exportedSurfaces c). es_NodeID s \<in> n_ID ` set (resolverNodes d c)) \<and>
        distinct (map exportKey (c_exportedSurfaces c)))"

lemma contributionOf_member:
  assumes "distinct (map c_sourcePath cs)" "c \<in> set cs"
  shows "contributionOf cs (c_sourcePath c) = Some c"
proof -
  have "contributionOf cs (c_sourcePath c) \<noteq> None"
    using assms(2) by (auto simp: contributionOf_def find_None_iff)
  then obtain c' where c': "contributionOf cs (c_sourcePath c) = Some c'" by blast
  then have "c' = c" using contributionOf_Some [OF c'] distinct_map_eqD [OF assms(1)] assms(2) by blast
  with c' show ?thesis by simp
qed

lemma mset_concat_append:
  "mset (concat (map f xs)) + mset (concat (map g xs)) = mset (concat (map (\<lambda>x. f x @ g x) xs))"
  by (induction xs) simp_all

lemma mset_concat_map: "mset (concat (map f xs)) = sum_mset (image_mset (\<lambda>x. mset (f x)) (mset xs))"
  by (induction xs) simp_all

lemma mset_by_path:
  assumes "distinct (map c_sourcePath cs)"
  shows "mset (concat (map (\<lambda>p. case contributionOf cs p of None \<Rightarrow> [] | Some c \<Rightarrow> f c) (contributionPaths cs))) =
    mset (concat (map f cs))"
proof -
  let ?g = "\<lambda>p. case contributionOf cs p of None \<Rightarrow> [] | Some c \<Rightarrow> f c"
  have paths: "mset (contributionPaths cs) = mset (map c_sourcePath cs)"
    using assms by (intro set_eq_iff_mset_eq_distinct [THEN iffD1]) auto
  have "mset (concat (map ?g (contributionPaths cs))) = sum_mset (image_mset (\<lambda>p. mset (?g p)) (mset (map c_sourcePath cs)))"
    unfolding mset_concat_map paths ..
  also have "\<dots> = mset (concat (map ?g (map c_sourcePath cs)))" unfolding mset_concat_map ..
  also have "map ?g (map c_sourcePath cs) = map f cs"
    by (simp add: contributionOf_member [OF assms])
  finally show ?thesis .
qed

section \<open>Nodes\<close>

definition nodesIn :: "dialect \<Rightarrow> Contribution list \<Rightarrow> Node list \<Rightarrow> bool" where
  "nodesIn d cs ns \<longleftrightarrow> distinct (map n_ID ns) \<and> set ns \<subseteq> set (concat (map (resolverNodes d) cs))"

lemma putNode_nodesIn:
  assumes "separate d cs" "nodesIn d cs ns" "n \<in> set (concat (map (resolverNodes d) cs))"
  shows "nodesIn d cs (putNode n ns) \<and> set (putNode n ns) = insert n (set ns)"
proof -
  have unique: "distinct (map n_ID (concat (map (resolverNodes d) cs)))" using assms(1) by (simp add: separate_def)
  have "m = n" if "m \<in> set ns" "n_ID m = n_ID n" for m
    using distinct_map_eqD [OF unique _ assms(3) that(2)] that(1) assms(2) by (auto simp: nodesIn_def)
  then have members: "set (putNode n ns) = insert n (set ns)" by (auto simp: putNode_def)
  have "distinct (map n_ID (putNode n ns))"
    using assms(2) by (auto simp: putNode_def nodesIn_def intro: distinct_map_filterI)
  with members show ?thesis using assms(2,3) by (simp add: nodesIn_def)
qed

lemma putNodes_nodesIn:
  assumes "separate d cs" "nodesIn d cs ns" "c \<in> set cs"
  shows "nodesIn d cs (putNodes d (f_Nodes (c_facts c)) ns) \<and>
    set (putNodes d (f_Nodes (c_facts c)) ns) = set (resolverNodes d c) \<union> set ns"
proof -
  have "nodesIn d cs (fold putNode xs ns) \<and> set (fold putNode xs ns) = set xs \<union> set ns"
    if "set xs \<subseteq> set (concat (map (resolverNodes d) cs))" for xs
    using that assms(2)
  proof (induction xs arbitrary: ns)
    case (Cons x xs)
    from putNode_nodesIn [OF assms(1) Cons.prems(2), of x] Cons.prems(1)
    have "nodesIn d cs (putNode x ns)" "set (putNode x ns) = insert x (set ns)" by simp_all
    with Cons.IH [of "putNode x ns"] Cons.prems(1) show ?case by simp
  qed simp
  moreover have "set (resolverNodes d c) \<subseteq> set (concat (map (resolverNodes d) cs))" using assms(3) by auto
  ultimately show ?thesis unfolding putNodes_def resolverNodes_def [symmetric] by blast
qed

lemma collectNodes_nodesIn:
  assumes "separate d cs" "set page \<subseteq> set cs"
  shows "nodesIn d cs (collectNodes d page) \<and> set (collectNodes d page) = (\<Union>c \<in> set page. set (resolverNodes d c))"
proof -
  have "nodesIn d cs (fold (\<lambda>c. putNodes d (f_Nodes (c_facts c))) xs ns) \<and>
      set (fold (\<lambda>c. putNodes d (f_Nodes (c_facts c))) xs ns) = (\<Union>c \<in> set xs. set (resolverNodes d c)) \<union> set ns"
    if "set xs \<subseteq> set cs" "nodesIn d cs ns" for xs ns
    using that
  proof (induction xs arbitrary: ns)
    case (Cons x xs)
    from putNodes_nodesIn [OF assms(1) Cons.prems(2), of x] Cons.prems(1)
    have "nodesIn d cs (putNodes d (f_Nodes (c_facts x)) ns)"
      "set (putNodes d (f_Nodes (c_facts x)) ns) = set (resolverNodes d x) \<union> set ns" by simp_all
    with Cons.IH [of "putNodes d (f_Nodes (c_facts x)) ns"] Cons.prems(1) show ?case by auto
  qed simp
  from this [OF assms(2), of "[]"] show ?thesis unfolding collectNodes_def by (simp add: nodesIn_def [of d cs "[]"])
qed

section \<open>Edges of a page\<close>

lemma firstTarget_served:
  assumes "servedBy d index project cs"
  shows "\<exists>found. firstTarget d index project candidates = Inr found \<and>
    (case Option.bind (find (\<lambda>candidate. candidate \<in> set (contributionPaths cs)) candidates) (contributionOf cs) of
       None \<Rightarrow> found = None
     | Some c \<Rightarrow> \<exists>t. found = Some t \<and> tg_Nodes t = f_Nodes (c_facts c) \<and> tg_ExportedSurfaces t = c_exportedSurfaces c)"
proof (induction candidates)
  case (Cons p candidates)
  from assms obtain found where served: "index \<lparr>rt_ProjectID = project, rt_Language = dl_language d, rt_SourcePath = p\<rparr> = Inr found"
    "case contributionOf cs p of None \<Rightarrow> found = None
      | Some c \<Rightarrow> \<exists>t. found = Some t \<and> tg_Nodes t = f_Nodes (c_facts c) \<and> tg_ExportedSurfaces t = c_exportedSurfaces c"
    unfolding servedBy_def by blast
  show ?case
  proof (cases "contributionOf cs p")
    case None
    then have "p \<notin> set (contributionPaths cs)" by (auto simp: contributionOf_def find_None_iff)
    then show ?thesis using Cons.IH served None by simp
  next
    case (Some c)
    then have "p \<in> set (contributionPaths cs)" using contributionOf_Some by fastforce
    then show ?thesis using served Some by auto
  qed
qed simp

lemma pageTarget_served:
  assumes "servedBy d index project cs"
  shows "\<exists>found. resolverPageTarget d index project (c_sourcePath c) (ur_Target r) = Inr found \<and>
    (case targetContribution d cs c r of
       None \<Rightarrow> found = None
     | Some t \<Rightarrow> \<exists>x. found = Some x \<and> tg_Nodes x = f_Nodes (c_facts t) \<and> tg_ExportedSurfaces x = c_exportedSurfaces t)"
  using firstTarget_served [OF assms]
  by (auto simp: resolverPageTarget_def targetContribution_def resolveRelativeSpecifier_def resolvePath_def)

definition targetNodes :: "dialect \<Rightarrow> Contribution list \<Rightarrow> Contribution \<Rightarrow> UnresolvedReference \<Rightarrow> Node set" where
  "targetNodes d cs c r = (case targetContribution d cs c r of None \<Rightarrow> {} | Some t \<Rightarrow> set (resolverNodes d t))"

lemma targetContribution_member: "targetContribution d cs c r = Some t \<Longrightarrow> t \<in> set cs"
  by (auto simp: targetContribution_def bind_eq_Some_conv dest!: contributionOf_Some)

lemma relationFor_supported:
  "supportedKind d kind \<Longrightarrow> relationFor d kind = Inr (relationOf d kind)"
  by (auto simp: supportedKind_def relationFor_def relationOf_def reference_kind_defs)

lemma pageReference_served:
  assumes "separate d cs" "servedBy d index project cs" "\<forall>c \<in> set cs. fileFact c \<noteq> None"
    "targetContribution d cs c r \<noteq> None \<longrightarrow> supportedKind d (ur_Kind r)" "nodesIn d cs (rl_Nodes R)"
  shows "\<exists>R'. pageReference quote d index project (c_sourcePath c) (the (fileFact c)) r R = Inr R' \<and>
    rl_Edges R' = rl_Edges R @ edgesOfReference d cs c r \<and> nodesIn d cs (rl_Nodes R') \<and>
    set (rl_Nodes R') = set (rl_Nodes R) \<union> targetNodes d cs c r"
proof -
  from pageTarget_served [OF assms(2), of c r] obtain found where
    found: "resolverPageTarget d index project (c_sourcePath c) (ur_Target r) = Inr found"
    "case targetContribution d cs c r of None \<Rightarrow> found = None
     | Some t \<Rightarrow> \<exists>x. found = Some x \<and> tg_Nodes x = f_Nodes (c_facts t) \<and> tg_ExportedSurfaces x = c_exportedSurfaces t" by blast
  show ?thesis
  proof (cases "targetContribution d cs c r")
    case None
    then show ?thesis using found assms(5) by (simp add: pageReference_def edgesOfReference_def targetNodes_def)
  next
    case (Some t)
    then obtain x where x: "found = Some x" "tg_Nodes x = f_Nodes (c_facts t)" "tg_ExportedSurfaces x = c_exportedSurfaces t"
      using found(2) by auto
    have t: "t \<in> set cs" by (rule targetContribution_member [OF Some])
    then obtain node where fact: "fileFact t = Some node" using assms(3) by blast
    then have node: "targetFile (f_Nodes (c_facts t)) = Some node" by (simp add: fileFact_def)
    have "relationFor d (ur_Kind r) = Inr (relationOf d (ur_Kind r))" using assms(4) Some by (intro relationFor_supported) simp
    then show ?thesis
      using found(1) x node fact Some putNodes_nodesIn [OF assms(1,5) t]
      by (auto simp: pageReference_def edgesOfReference_def targetNodes_def)
  qed
qed

lemma pageReferences_served:
  assumes "separate d cs" "servedBy d index project cs" "\<forall>c \<in> set cs. fileFact c \<noteq> None"
    "\<forall>r \<in> set rs. targetContribution d cs c r \<noteq> None \<longrightarrow> supportedKind d (ur_Kind r)" "nodesIn d cs (rl_Nodes R)"
  shows "\<exists>R'. foldE (pageReference quote d index project (c_sourcePath c) (the (fileFact c))) rs R = Inr R' \<and>
    rl_Edges R' = rl_Edges R @ concat (map (edgesOfReference d cs c) rs) \<and> nodesIn d cs (rl_Nodes R') \<and>
    set (rl_Nodes R') = set (rl_Nodes R) \<union> (\<Union>r \<in> set rs. targetNodes d cs c r)"
  using assms(4,5)
proof (induction rs arbitrary: R)
  case (Cons r rs)
  from pageReference_served [OF assms(1-3), of c r R quote] Cons.prems obtain R1 where
    R1: "pageReference quote d index project (c_sourcePath c) (the (fileFact c)) r R = Inr R1"
    "rl_Edges R1 = rl_Edges R @ edgesOfReference d cs c r" "nodesIn d cs (rl_Nodes R1)"
    "set (rl_Nodes R1) = set (rl_Nodes R) \<union> targetNodes d cs c r" by auto
  from Cons.IH [OF _ R1(3)] Cons.prems(1) obtain R2 where
    R2: "foldE (pageReference quote d index project (c_sourcePath c) (the (fileFact c))) rs R1 = Inr R2"
    "rl_Edges R2 = rl_Edges R1 @ concat (map (edgesOfReference d cs c) rs)" "nodesIn d cs (rl_Nodes R2)"
    "set (rl_Nodes R2) = set (rl_Nodes R1) \<union> (\<Union>r \<in> set rs. targetNodes d cs c r)" by auto
  show ?case using R1 R2 by (intro exI [of _ R2]) auto
qed simp

lemma symbolTargets_served:
  assumes "servedBy d index project cs"
  shows "resolverPageSymbolTargets d index project (c_sourcePath c) name rs = Inr (concat (map (\<lambda>r.
     if ur_Kind r \<noteq> ModuleReferenceImport then []
     else case targetContribution d cs c r of None \<Rightarrow> [] | Some t \<Rightarrow> boundSurfaces name r (c_exportedSurfaces t)) rs))"
proof -
  let ?f = "\<lambda>reference targets.
       if ur_Kind reference \<noteq> ModuleReferenceImport then Inr targets
       else bindE (resolverPageTarget d index project (c_sourcePath c) (ur_Target reference)) (\<lambda>found.
         case found of
           None \<Rightarrow> Inr targets
         | Some target \<Rightarrow> Inr (targets @ boundSurfaces name reference (tg_ExportedSurfaces target)))"
  let ?g = "\<lambda>r. if ur_Kind r \<noteq> ModuleReferenceImport then []
     else case targetContribution d cs c r of None \<Rightarrow> [] | Some t \<Rightarrow> boundSurfaces name r (c_exportedSurfaces t)"
  have step: "?f r ts = Inr (ts @ ?g r)" for r ts
    using pageTarget_served [OF assms, of c r] by (auto split: option.splits)
  have "foldE ?f rs ts = Inr (ts @ concat (map ?g rs))" for ts
    by (induction rs arbitrary: ts) (simp_all only: foldE.simps step bindE_simps concat.simps list.map append_Nil2 append_assoc)
  from this [of "[]"] show ?thesis by (simp add: resolverPageSymbolTargets_def)
qed

lemma pageSymbols_served:
  assumes "servedBy d index project cs"
  shows "foldE (pageSymbol d index project c) ss R = Inr (R\<lparr>rl_Edges := rl_Edges R @ concat (map (edgesOfSymbol d cs c) ss)\<rparr>)"
proof (induction ss arbitrary: R)
  case (Cons s ss)
  have "pageSymbol d index project c s R = Inr (R\<lparr>rl_Edges := rl_Edges R @ edgesOfSymbol d cs c s\<rparr>)"
    by (simp add: pageSymbol_def symbolTargets_served [OF assms] edgesOfSymbol_def)
  then show ?case using Cons.IH by simp
qed simp

text \<open>One source of a page.\<close>

definition supportedReferences :: "dialect \<Rightarrow> Contribution list \<Rightarrow> Contribution \<Rightarrow> bool" where
  "supportedReferences d cs c \<longleftrightarrow> (\<forall>r \<in> set (c_unresolvedReferences c). targetContribution d cs c r \<noteq> None \<longrightarrow> supportedKind d (ur_Kind r))"

definition sourceTargets :: "dialect \<Rightarrow> Contribution list \<Rightarrow> Contribution \<Rightarrow> Node set" where
  "sourceTargets d cs c = (\<Union>r \<in> set (c_unresolvedReferences c). targetNodes d cs c r)"

lemma pageSource_served:
  assumes "separate d cs" "servedBy d index project cs" "\<forall>c \<in> set cs. fileFact c \<noteq> None"
    "set page \<subseteq> set cs" "contributionOf page p = Some c" "supportedReferences d cs c" "nodesIn d cs (rl_Nodes R)"
  shows "\<exists>R'. pageSource quote d index project page p R = Inr R' \<and> rl_Edges R' = rl_Edges R @ edgesOf d cs c \<and>
    nodesIn d cs (rl_Nodes R') \<and> set (rl_Nodes R') = set (rl_Nodes R) \<union> sourceTargets d cs c"
proof -
  have c: "c \<in> set cs" "c_sourcePath c = p" using contributionOf_Some [OF assms(5)] assms(4) by auto
  then obtain node where fact: "fileFact c = Some node" using assms(3) by blast
  from pageReferences_served [OF assms(1-3) _ assms(7), of "sortedReferences (c_unresolvedReferences c)" c quote] assms(6)
  obtain R' where R': "foldE (pageReference quote d index project (c_sourcePath c) (the (fileFact c)))
      (sortedReferences (c_unresolvedReferences c)) R = Inr R'"
    "rl_Edges R' = rl_Edges R @ concat (map (edgesOfReference d cs c) (sortedReferences (c_unresolvedReferences c)))"
    "nodesIn d cs (rl_Nodes R')" "set (rl_Nodes R') = set (rl_Nodes R) \<union> sourceTargets d cs c"
    by (auto simp: supportedReferences_def sourceTargets_def)
  then show ?thesis
    using assms(5) fact c(2) by (simp add: pageSource_def pageSymbols_served [OF assms(2)] edgesOf_def)
qed

lemma pageSources_served:
  assumes "separate d cs" "servedBy d index project cs" "\<forall>c \<in> set cs. fileFact c \<noteq> None"
    "set page \<subseteq> set cs" "\<forall>p \<in> set ps. contributionOf page p \<noteq> None" "\<forall>c \<in> set page. supportedReferences d cs c" "nodesIn d cs (rl_Nodes R)"
  shows "\<exists>R'. foldE (pageSource quote d index project page) ps R = Inr R' \<and>
    rl_Edges R' = rl_Edges R @ concat (map (\<lambda>p. case contributionOf page p of None \<Rightarrow> [] | Some c \<Rightarrow> edgesOf d cs c) ps) \<and>
    nodesIn d cs (rl_Nodes R') \<and>
    set (rl_Nodes R') = set (rl_Nodes R) \<union> (\<Union>p \<in> set ps. sourceTargets d cs (the (contributionOf page p)))"
  using assms(5,7)
proof (induction ps arbitrary: R)
  case (Cons p ps)
  then obtain c where c: "contributionOf page p = Some c" by auto
  then have "c \<in> set page" using contributionOf_Some by blast
  with pageSource_served [OF assms(1-4) c _ Cons.prems(2), of quote] assms(6) obtain R1 where
    R1: "pageSource quote d index project page p R = Inr R1" "rl_Edges R1 = rl_Edges R @ edgesOf d cs c"
    "nodesIn d cs (rl_Nodes R1)" "set (rl_Nodes R1) = set (rl_Nodes R) \<union> sourceTargets d cs c" by auto
  from Cons.IH [OF _ R1(3)] Cons.prems(1) obtain R2 where
    R2: "foldE (pageSource quote d index project page) ps R1 = Inr R2"
    "rl_Edges R2 = rl_Edges R1 @ concat (map (\<lambda>p. case contributionOf page p of None \<Rightarrow> [] | Some c \<Rightarrow> edgesOf d cs c) ps)"
    "nodesIn d cs (rl_Nodes R2)"
    "set (rl_Nodes R2) = set (rl_Nodes R1) \<union> (\<Union>p \<in> set ps. sourceTargets d cs (the (contributionOf page p)))" by auto
  show ?case using R1 R2 c by (intro exI [of _ R2]) auto
qed simp

section \<open>Surfaces without re-exports\<close>

lemma fold_addSurface:
  assumes "distinct (map exportKey ss)" "\<forall>s \<in> set ss. exportKey s \<notin> exportKey ` set (surfaces p)"
  shows "fst (fold (addSurface p) ss (surfaces, b)) = surfaces(p := surfaces p @ ss)"
  using assms
proof (induction ss arbitrary: surfaces b)
  case (Cons s ss)
  have "addSurface p s (surfaces, b) = (surfaces(p := surfaces p @ [s]), True)" using Cons.prems(2) by (simp add: addSurface_def)
  moreover have "fst (fold (addSurface p) ss (surfaces(p := surfaces p @ [s]), True)) = surfaces(p := surfaces p @ [s] @ ss)"
    using Cons.prems by (subst Cons.IH) (auto simp: image_iff)
  ultimately show ?case by simp
qed simp

lemma fold_surfaces:
  assumes "distinct ps" "\<forall>p \<in> set ps. surfaces p = [] \<and> distinct (map exportKey (g p))"
  shows "fst (fold (\<lambda>p. fold (addSurface p) (g p)) ps (surfaces, b)) = (\<lambda>p. if p \<in> set ps then g p else surfaces p)"
  using assms
proof (induction ps arbitrary: surfaces b)
  case (Cons p ps)
  obtain surfaces' b' where step: "fold (addSurface p) (g p) (surfaces, b) = (surfaces', b')" by fastforce
  have surfaces': "surfaces' = surfaces(p := g p)"
    using fold_addSurface [of "g p" surfaces p b] Cons.prems(2) step by simp
  have "fst (fold (\<lambda>p. fold (addSurface p) (g p)) ps (surfaces', b')) = (\<lambda>q. if q \<in> set ps then g q else surfaces' q)"
    using Cons.prems surfaces' by (intro Cons.IH) auto
  then show ?case using step surfaces' Cons.prems(1) by (auto simp: fun_eq_iff)
qed simp

lemma separate_surfaces:
  assumes "separate d cs"
  shows "resolvedSurfaces d cs = surfacesOf cs"
proof -
  have none: "reExportReference d files p r st = st" if "r \<in> set (referencesOf cs p)" for files p r st
  proof -
    have member: "r \<in> set (referencesOf cs p)" by (rule that)
    then obtain c where c: "contributionOf cs p = Some c" by (cases "contributionOf cs p") (auto simp: referencesOf_def)
    moreover have "r \<in> set (c_unresolvedReferences c)" using member c by (simp add: referencesOf_def)
    ultimately
    have "ur_Kind r \<noteq> ModuleReferenceReExport" using assms contributionOf_Some by (fastforce simp: separate_def)
    then show ?thesis by (simp add: reExportReference_def)
  qed
  have id: "fold f xs st = st" if "\<And>x st. x \<in> set xs \<Longrightarrow> f x st = st" for f :: "'x \<Rightarrow> 'y \<Rightarrow> 'y" and xs st
    using that by (induction xs) auto
  have "reExportRound d cs surfaces = (surfaces, False)" for surfaces
    unfolding reExportRound_def Let_def by (intro id) (simp add: none)
  then have rounds: "reExportRounds d cs n surfaces = surfaces" for n surfaces by (cases n) auto
  have "distinct (map exportKey (surfacesOf cs p))" for p
    using assms by (cases "contributionOf cs p") (auto simp: surfacesOf_def separate_def dest!: contributionOf_Some)
  then have "ownSurfaces cs = (\<lambda>p. if p \<in> set (contributionPaths cs) then surfacesOf cs p else [])"
    unfolding ownSurfaces_def by (subst fold_surfaces) simp_all
  moreover have "surfacesOf cs p = []" if "p \<notin> set (contributionPaths cs)" for p
    using that surfacesOf_path [of _ cs p] by (cases "surfacesOf cs p") auto
  ultimately show ?thesis by (auto simp: fun_eq_iff resolvedSurfaces_def rounds)
qed

section \<open>Edges of the workspace\<close>

lemma relative_member:
  "resolveRelativeSpecifier d (contributionPaths cs) p s = Some q \<Longrightarrow> \<exists>t. contributionOf cs q = Some t"
  by (auto simp: resolveRelativeSpecifier_def resolvePath_def contributionOf_def find_Some_iff_ex split: if_splits dest!: find_SomeD)

lemma relationFor_Inr: "relationFor d kind = Inr relation \<Longrightarrow> supportedKind d kind \<and> relation = relationOf d kind"
  by (auto simp: relationFor_def supportedKind_def relationOf_def reference_kind_defs split: if_splits)

lemma workspaceReference_edges:
  assumes "workspaceReference quote d (\<lambda>p s _. resolveRelativeSpecifier d (contributionPaths cs) p s) cs (surfacesOf cs) p r R = (Inr R' :: 'e resolve_error + Resolution)"
    and "contributionOf cs p = Some c" "\<forall>c \<in> set cs. fileFact c \<noteq> None"
  shows "rl_Edges R' = rl_Edges R @ edgesOfReference d cs c r \<and> rl_Nodes R' = rl_Nodes R \<and>
    (targetContribution d cs c r \<noteq> None \<longrightarrow> supportedKind d (ur_Kind r))"
proof -
  have c: "c \<in> set cs" "c_sourcePath c = p" using contributionOf_Some [OF assms(2)] by auto
  show ?thesis
  proof (cases "resolveRelativeSpecifier d (contributionPaths cs) p (ur_Target r)")
    case None
    then show ?thesis using assms(1) c(2) by (auto simp: workspaceReference_def edgesOfReference_def targetContribution_def)
  next
    case (Some q)
    then obtain t where t: "contributionOf cs q = Some t" using relative_member by blast
    have member: "t \<in> set cs" using contributionOf_Some [OF t] by simp
    obtain relation where relation: "relationFor d (ur_Kind r) = (Inr relation :: 'e resolve_error + RelationKind)"
      using assms(1) Some by (auto simp: workspaceReference_def Let_def)
    note kind = relationFor_Inr [OF relation]
    from assms(3) c(1) member obtain f g where "fileFact c = Some f" "fileFact t = Some g" by blast
    then show ?thesis
      using assms(1,2) Some t kind relation c(2)
      by (auto simp: workspaceReference_def edgesOfReference_def targetContribution_def surfacesOf_def)
  qed
qed

lemma workspaceReferences_edges:
  assumes "foldE (workspaceReference quote d (\<lambda>p s _. resolveRelativeSpecifier d (contributionPaths cs) p s) cs (surfacesOf cs) p) rs R = (Inr R' :: 'e resolve_error + Resolution)"
    (is "foldE ?step _ _ = _")
    and "contributionOf cs p = Some c" "\<forall>c \<in> set cs. fileFact c \<noteq> None"
  shows "rl_Edges R' = rl_Edges R @ concat (map (edgesOfReference d cs c) rs) \<and> rl_Nodes R' = rl_Nodes R \<and>
    (\<forall>r \<in> set rs. targetContribution d cs c r \<noteq> None \<longrightarrow> supportedKind d (ur_Kind r))"
  using assms(1)
proof (induction rs arbitrary: R)
  case (Cons r rs)
  then obtain R1 where "?step r R = Inr R1" "foldE ?step rs R1 = Inr R'" by auto
  from workspaceReference_edges [OF this(1) assms(2,3)] Cons.IH [OF this(2)] show ?case by simp
qed simp

lemma workspaceSources_edges:
  assumes "foldE (\<lambda>p. foldE (workspaceReference quote d (\<lambda>p s _. resolveRelativeSpecifier d (contributionPaths cs) p s) cs (surfacesOf cs) p)
      (sortedReferences (referencesOf cs p))) ps R = (Inr R' :: 'e resolve_error + Resolution)"
    (is "foldE ?step _ _ = _") and "\<forall>p \<in> set ps. contributionOf cs p \<noteq> None" "\<forall>c \<in> set cs. fileFact c \<noteq> None"
  shows "rl_Edges R' = rl_Edges R @ concat (map (\<lambda>p. case contributionOf cs p of None \<Rightarrow> []
      | Some c \<Rightarrow> concat (map (edgesOfReference d cs c) (sortedReferences (c_unresolvedReferences c)))) ps) \<and>
    rl_Nodes R' = rl_Nodes R \<and> (\<forall>p \<in> set ps. supportedReferences d cs (the (contributionOf cs p)))"
  using assms(1,2)
proof (induction ps arbitrary: R)
  case (Cons p ps)
  obtain R1 where R1: "?step p R = Inr R1" "foldE ?step ps R1 = Inr R'" using Cons.prems(1) by auto
  obtain c where c: "contributionOf cs p = Some c" using Cons.prems(2) by auto
  have "referencesOf cs p = c_unresolvedReferences c" using c by (simp add: referencesOf_def)
  with workspaceReferences_edges [OF R1(1) c assms(3)] Cons.IH [OF R1(2)] Cons.prems(2) c
  show ?case by (simp add: supportedReferences_def)
qed simp

lemma workspace_edges:
  assumes "relativeResolve quote d cs = (Inr r :: 'e resolve_error + Resolution)" "separate d cs"
  shows "\<exists>v. ResolverVocabulary d = Inr v \<and> facts_ok v \<lparr>f_Nodes = sort_key n_ID (collectNodes d cs), f_Edges = rl_Edges r\<rparr> \<and>
    mset (rl_Edges r) = mset (concat (map (edgesOf d cs) cs)) \<and> (\<forall>c \<in> set cs. fileFact c \<noteq> None \<and> supportedReferences d cs c)"
proof -
  let ?paths = "contributionPaths cs" and ?spec = "\<lambda>p s _. resolveRelativeSpecifier d (contributionPaths cs) p s"
  have distinct: "distinct (map c_sourcePath cs)" using assms(2) by (simp add: separate_def)
  have files: "\<forall>c \<in> set cs. fileFact c \<noteq> None" using assms(1) by (auto simp: relativeResolve_def resolve_def requireFile_def)
  obtain R v where R: "foldE (\<lambda>p. foldE (workspaceReference quote d ?spec cs (surfacesOf cs) p) (sortedReferences (referencesOf cs p))) ?paths
      \<lparr>rl_Nodes = collectNodes d cs, rl_Edges = [], rl_diagnostics = []\<rparr> = (Inr R :: 'e resolve_error + Resolution)"
    and v: "ResolverVocabulary d = Inr v" "Validate v \<lparr>f_Nodes = rl_Nodes r, f_Edges = rl_Edges r\<rparr> = Inr ()"
    and r: "rl_Nodes r = sort_key n_ID (rl_Nodes R)"
      "rl_Edges r = sortedFacts (rl_Edges R @ concat (map (workspaceSymbols ?spec cs (surfacesOf cs)) ?paths))"
    using assms(1) unfolding relativeResolve_def resolve_def separate_surfaces [OF assms(2)]
    by (auto simp: finishResolution_def Let_def)
  have known: "contributionOf cs p \<noteq> None" if "p \<in> set ?paths" for p
    using that contributionOf_member [OF distinct] by auto
  note edges = workspaceSources_edges [OF R _ files]
  have symbols: "workspaceSymbols ?spec cs (surfacesOf cs) = (\<lambda>p. case contributionOf cs p of None \<Rightarrow> []
      | Some c \<Rightarrow> concat (map (edgesOfSymbol d cs c) (c_symbolReferences c)))"
  proof
    fix p show "workspaceSymbols ?spec cs (surfacesOf cs) p = (case contributionOf cs p of None \<Rightarrow> []
      | Some c \<Rightarrow> concat (map (edgesOfSymbol d cs c) (c_symbolReferences c)))"
  proof (cases "contributionOf cs p")
    case (Some c)
    then have p: "c_sourcePath c = p" using contributionOf_Some by blast
    have "(case resolveRelativeSpecifier d ?paths p (ur_Target r) of None \<Rightarrow> [] | Some q \<Rightarrow> boundSurfaces name r (surfacesOf cs q)) =
        (case targetContribution d cs c r of None \<Rightarrow> [] | Some t \<Rightarrow> boundSurfaces name r (c_exportedSurfaces t))" for name r
    proof (cases "resolveRelativeSpecifier d ?paths p (ur_Target r)")
      case (Some q)
      then obtain t where "contributionOf cs q = Some t" using relative_member by blast
      with Some p show ?thesis by (simp add: targetContribution_def surfacesOf_def)
    qed (simp add: targetContribution_def p)
    with Some show ?thesis by (simp add: workspaceSymbols_def edgesOfSymbol_def [abs_def] resolvedSymbolTargets_def cong: if_cong)
  qed (simp add: workspaceSymbols_def)
  qed
  have "mset (rl_Edges r) = mset (rl_Edges R) + mset (concat (map (workspaceSymbols ?spec cs (surfacesOf cs)) ?paths))"
    by (simp add: r(2) sortedFacts_def)
  also have "\<dots> = mset (concat (map (\<lambda>c. concat (map (edgesOfReference d cs c) (sortedReferences (c_unresolvedReferences c)))) cs)) +
      mset (concat (map (\<lambda>c. concat (map (edgesOfSymbol d cs c) (c_symbolReferences c))) cs))"
    using edges known by (simp add: symbols mset_by_path [OF distinct])
  also have "\<dots> = mset (concat (map (edgesOf d cs) cs))"
    by (simp add: mset_concat_append edgesOf_def [abs_def])
  finally have sum: "mset (rl_Edges r) = mset (concat (map (edgesOf d cs) cs))" .
  have "supportedReferences d cs c" if "c \<in> set cs" for c
    using edges known contributionOf_member [OF distinct that] that by fastforce
  moreover have "rl_Nodes R = collectNodes d cs" using edges known by simp
  ultimately show ?thesis using v r(1) sum files by (auto simp: Validate_facts_ok)
qed

section \<open>Pages of a resolvable workspace\<close>

lemma fileFact_node: "fileFact c = Some n \<Longrightarrow> n \<in> set (resolverNodes d c)"
  by (auto simp: fileFact_def targetFile_def resolverNodes_def isResolverNodeKind_def dest!: find_SomeD)

lemma matchingBindingSurfaces_subset: "set (matchingBindingSurfaces ss kind b) \<subseteq> set ss"
  by (auto simp: matchingBindingSurfaces_def matchingSurfaces_def Let_def)

lemma boundSurfaces_subset: "set (boundSurfaces name r ss) \<subseteq> es_NodeID ` set ss"
  using matchingBindingSurfaces_subset [of ss] by (auto simp: boundSurfaces_def split: if_splits)

lemma targets_subset:
  assumes "r \<in> set (c_unresolvedReferences c)" "targetContribution d cs c r = Some t"
  shows "set (resolverNodes d t) \<subseteq> sourceTargets d cs c"
proof -
  have "targetNodes d cs c r = set (resolverNodes d t)" using assms(2) by (simp add: targetNodes_def)
  then show ?thesis using assms(1) unfolding sourceTargets_def by blast
qed

text \<open>The edges of a source leave its own nodes for nodes of the targets.\<close>

lemma edgesOf_ends:
  assumes "separate d cs" "c \<in> set cs" "\<forall>c \<in> set cs. fileFact c \<noteq> None" "e \<in> set (edgesOf d cs c)"
  shows "e_SourceID e \<in> n_ID ` set (resolverNodes d c) \<and> e_TargetID e \<in> n_ID ` sourceTargets d cs c"
proof -
  have local: "\<forall>r \<in> set (c_unresolvedReferences c). ur_SourceID r \<in> n_ID ` set (resolverNodes d c)"
    "\<forall>s \<in> set (c_symbolReferences c). sr_SourceID s \<in> n_ID ` set (resolverNodes d c)"
    using assms(1,2) by (auto simp: separate_def)
  have surface: "es_NodeID s \<in> n_ID ` sourceTargets d cs c"
    if "r \<in> set (c_unresolvedReferences c)" "targetContribution d cs c r = Some t" "s \<in> set (c_exportedSurfaces t)" for r s t
  proof -
    have "es_NodeID s \<in> n_ID ` set (resolverNodes d t)"
      using assms(1) targetContribution_member [OF that(2)] that(3) by (auto simp: separate_def)
    then show ?thesis using targets_subset [OF that(1,2)] by blast
  qed
  have target: "n_ID (the (fileFact t)) \<in> n_ID ` sourceTargets d cs c"
    if "r \<in> set (c_unresolvedReferences c)" "targetContribution d cs c r = Some t" for r t
  proof -
    have "fileFact t \<noteq> None" "set (resolverNodes d t) \<subseteq> sourceTargets d cs c"
      using assms(3) targetContribution_member [OF that(2)] targets_subset [OF that] by blast+
    then show ?thesis using fileFact_node [of t _ d] by auto
  qed
  from assms(4) consider
    (reference) r where "r \<in> set (c_unresolvedReferences c)" "e \<in> set (edgesOfReference d cs c r)"
  | (symbol) s where "s \<in> set (c_symbolReferences c)" "e \<in> set (edgesOfSymbol d cs c s)"
    by (auto simp: edgesOf_def)
  then show ?thesis
  proof cases
    case reference
    then obtain t where t: "targetContribution d cs c r = Some t"
      by (cases "targetContribution d cs c r") (auto simp: edgesOfReference_def)
    have "e_SourceID e = ur_SourceID r \<and> (e_TargetID e = n_ID (the (fileFact t)) \<or> e_TargetID e \<in> es_NodeID ` set (c_exportedSurfaces t))"
      using reference(2) t matchingBindingSurfaces_subset
      by (fastforce simp: edgesOfReference_def referenceEdges_def Let_def)
    then show ?thesis using local(1) reference(1) surface [OF reference(1) t] target [OF reference(1) t] by auto
  next
    case symbol
    let ?f = "\<lambda>r. if ur_Kind r \<noteq> ModuleReferenceImport then [] else case targetContribution d cs c r of None \<Rightarrow> []
         | Some t \<Rightarrow> boundSurfaces (sr_Target s) r (c_exportedSurfaces t)"
    from symbol(2) obtain target where e: "target \<in> set (concat (map ?f (c_unresolvedReferences c)))"
      "e = \<lparr>e_SourceID = sr_SourceID s, e_TargetID = target, e_Relation = sr_Relation s, e_Evidence = sr_Evidence s\<rparr>"
      unfolding edgesOfSymbol_def symbolEdges_def set_map by (elim imageE)
    from e(1) obtain r where "r \<in> set (c_unresolvedReferences c)" "target \<in> set (?f r)"
      unfolding set_concat set_map by (elim UN_E imageE) simp
    with e(2) have r: "r \<in> set (c_unresolvedReferences c)" "e_SourceID e = sr_SourceID s" "e_TargetID e \<in> set (?f r)" by simp_all
    then obtain t where t: "targetContribution d cs c r = Some t"
      by (cases "targetContribution d cs c r") (simp_all split: if_splits)
    then have "e_TargetID e \<in> es_NodeID ` set (c_exportedSurfaces t)"
      using r(3) boundSurfaces_subset [of "sr_Target s" r "c_exportedSurfaces t"] by (auto split: if_splits)
    then show ?thesis using local(2) symbol(1) surface [OF r(1) t] r(2) by auto
  qed
qed

lemma page_valid:
  assumes "separate d cs" "\<forall>c \<in> set cs. fileFact c \<noteq> None" "set page \<subseteq> set cs"
    "facts_ok v \<lparr>f_Nodes = sort_key n_ID (collectNodes d cs), f_Edges = edges\<rparr>"
    "(\<Union>c \<in> set page. set (edgesOf d cs c)) \<subseteq> set edges"
    "nodesIn d cs nodes" "(\<Union>c \<in> set page. set (resolverNodes d c) \<union> sourceTargets d cs c) \<subseteq> set nodes"
    "set page_edges = (\<Union>c \<in> set page. set (edgesOf d cs c))"
  shows "facts_ok v \<lparr>f_Nodes = sort_key n_ID nodes, f_Edges = page_edges\<rparr>"
proof (rule facts_ok_restrict [OF assms(4)])
  let ?all = "concat (map (resolverNodes d) cs)"
  have nodes: "distinct (map n_ID nodes)" "set nodes \<subseteq> set ?all" using assms(6) by (auto simp: nodesIn_def)
  show "set (sort_key n_ID nodes) \<subseteq> set (sort_key n_ID (collectNodes d cs))"
    using nodes(2) collectNodes_nodesIn [OF assms(1), of cs] by auto
  have "mset (map n_ID (sort_key n_ID nodes)) = mset (map n_ID nodes)" by simp
  then show "distinct (map n_ID (sort_key n_ID nodes))" using nodes(1) mset_eq_imp_distinct_iff by blast
  show "set page_edges \<subseteq> set edges" using assms(5,8) by simp
  show "\<forall>e \<in> set page_edges. e_SourceID e \<in> n_ID ` set (sort_key n_ID nodes) \<and> e_TargetID e \<in> n_ID ` set (sort_key n_ID nodes)"
  proof
    fix e
    assume "e \<in> set page_edges"
    then obtain c where e: "c \<in> set page" "e \<in> set (edgesOf d cs c)" using assms(8) by auto
    show "e_SourceID e \<in> n_ID ` set (sort_key n_ID nodes) \<and> e_TargetID e \<in> n_ID ` set (sort_key n_ID nodes)"
      using edgesOf_ends [OF assms(1) _ assms(2) e(2)] e(1) assms(3,7) unfolding set_sort by blast
  qed
qed

lemma page_resolves:
  assumes "separate d cs" "servedBy d index project cs" "project \<noteq> []" "relativeResolve quote d cs = Inr r"
    "set page \<subseteq> set cs" "distinct page"
  shows "\<exists>rp. ResolvePage quote' d index page project = Inr rp \<and> mset (rl_Edges rp) = mset (concat (map (edgesOf d cs) page))"
proof -
  from workspace_edges [OF assms(4,1)] obtain v where v: "ResolverVocabulary d = Inr v"
    "facts_ok v \<lparr>f_Nodes = sort_key n_ID (collectNodes d cs), f_Edges = rl_Edges r\<rparr>"
    "mset (rl_Edges r) = mset (concat (map (edgesOf d cs) cs))"
    and files: "\<forall>c \<in> set cs. fileFact c \<noteq> None" "\<forall>c \<in> set cs. supportedReferences d cs c" by blast
  have "distinct (map c_sourcePath cs)" using assms(1) by (simp add: separate_def)
  then have distinct: "distinct (map c_sourcePath page)"
    using assms(5,6) by (auto simp: distinct_map intro: inj_on_subset)
  have known: "contributionOf page p \<noteq> None" if "p \<in> set (contributionPaths page)" for p
    using that contributionOf_member [OF distinct] by auto
  note collected = collectNodes_nodesIn [OF assms(1,5)]
  have supported: "\<forall>c \<in> set page. supportedReferences d cs c" using files(2) assms(5) by blast
  from pageSources_served [OF assms(1,2) files(1) assms(5), of "contributionPaths page"
      "\<lparr>rl_Nodes = collectNodes d page, rl_Edges = [], rl_diagnostics = []\<rparr>" quote'] known supported collected
  obtain R where R: "foldE (pageSource quote' d index project page) (contributionPaths page)
      \<lparr>rl_Nodes = collectNodes d page, rl_Edges = [], rl_diagnostics = []\<rparr> = Inr R"
    "rl_Edges R = concat (map (\<lambda>p. case contributionOf page p of None \<Rightarrow> [] | Some c \<Rightarrow> edgesOf d cs c) (contributionPaths page))"
    "nodesIn d cs (rl_Nodes R)"
    "set (rl_Nodes R) = (\<Union>c \<in> set page. set (resolverNodes d c)) \<union> (\<Union>p \<in> set (contributionPaths page). sourceTargets d cs (the (contributionOf page p)))"
    by (auto simp del: set_contributionPaths)
  have edges: "mset (rl_Edges R) = mset (concat (map (edgesOf d cs) page))" unfolding R(2) by (rule mset_by_path [OF distinct])
  have targets: "(\<Union>p \<in> set (contributionPaths page). sourceTargets d cs (the (contributionOf page p))) = (\<Union>c \<in> set page. sourceTargets d cs c)"
    using contributionOf_member [OF distinct] by auto
  have "set (sortedFacts (rl_Edges R)) = (\<Union>c \<in> set page. set (edgesOf d cs c))"
    using arg_cong [OF edges, of set_mset] by (auto simp: sortedFacts_def)
  moreover have "(\<Union>c \<in> set page. set (edgesOf d cs c)) \<subseteq> set (rl_Edges r)"
    using arg_cong [OF v(3), of set_mset] assms(5) by auto
  ultimately have "facts_ok v \<lparr>f_Nodes = sort_key n_ID (rl_Nodes R), f_Edges = sortedFacts (rl_Edges R)\<rparr>"
    using R(4) targets by (intro page_valid [OF assms(1) files(1) assms(5) v(2) _ R(3)]) auto
  then have "Validate v \<lparr>f_Nodes = sort_key n_ID (rl_Nodes R), f_Edges = sortedFacts (rl_Edges R)\<rparr> = Inr ()" by (simp add: Validate_facts_ok)
  moreover have "checkE requireFile page = Inr ()" using files(1) assms(5) by (auto simp: requireFile_def)
  ultimately show ?thesis
    using assms(3) R(1) v(1) edges by (simp add: ResolvePage_def finishResolution_def liftE_def sortedFacts_def)
qed

section \<open>Small workspaces\<close>

definition sampleEvidence :: "str \<Rightarrow> FactEvidence" where
  "sampleEvidence p = \<lparr>ev_Span = \<lparr>sp_Path = p, sp_StartLine = 1, sp_StartColumn = 1, sp_EndLine = 1, sp_EndColumn = 2\<rparr>,
     ev_FileHash = ''h'', ev_Extractor = ''javascript'', ev_Provenance = ''p'', ev_Confidence = ConfidenceExtracted\<rparr>"

definition sampleNode :: "str \<Rightarrow> str \<Rightarrow> NodeKind \<Rightarrow> Node" where
  "sampleNode p name kind = \<lparr>n_ID = p @ name, n_Kind = kind, n_Label = name, n_QualifiedName = name, n_Evidence = sampleEvidence p\<rparr>"

definition sampleImport :: "str \<Rightarrow> str \<Rightarrow> ModuleReferenceKind \<Rightarrow> str \<Rightarrow> str \<Rightarrow> UnresolvedReference" where
  "sampleImport p target kind imported exportedAs =
     \<lparr>ur_SourceID = p, ur_Target = target, ur_Kind = kind, ur_Ambiguous = False,
      ur_Bindings = [\<lparr>mb_ImportedName = imported, mb_ExportedName = exportedAs, mb_LocalName = []\<rparr>]\<rparr>"

text \<open>A module with a declaration of its own name and kind, which it exports, with imports and symbols.\<close>

definition sampleModule :: "str \<Rightarrow> (str \<times> NodeKind) list \<Rightarrow> UnresolvedReference list \<Rightarrow> SymbolReference list \<Rightarrow> Contribution" where
  "sampleModule p declarations references symbols =
     \<lparr>c_projectID = ''p'', c_sourcePath = p, c_metadata = \<lparr>md_Name = ''javascript'', md_Version = ''v0'', md_Extensions = [''.js'']\<rparr>,
      c_facts = \<lparr>f_Nodes = sampleNode p [] ''file'' # map (\<lambda>(name, kind). sampleNode p name kind) declarations, f_Edges = []\<rparr>,
      c_unresolvedReferences = references, c_symbolReferences = symbols,
      c_exportedSurfaces = map (\<lambda>(name, _). \<lparr>es_NodeID = p @ name, es_Name = name\<rparr>) declarations,
      c_dependencies = [], c_diagnostics = []\<rparr>"

definition servedIndex :: "Contribution list \<Rightarrow> ResolverTargetRequest \<Rightarrow> unit + ResolverTarget option" where
  "servedIndex cs request = Inr (map_option (\<lambda>c. \<lparr>tg_ProjectID = rt_ProjectID request, tg_SourcePath = c_sourcePath c,
     tg_Metadata = c_metadata c, tg_Nodes = f_Nodes (c_facts c), tg_UnresolvedReferences = c_unresolvedReferences c,
     tg_SymbolReferences = c_symbolReferences c, tg_ExportedSurfaces = c_exportedSurfaces c, tg_Diagnostics = c_diagnostics c\<rparr>)
     (contributionOf cs (rt_SourcePath request)))"

lemma servedIndex_served: "servedBy d (servedIndex cs) project cs"
  by (auto simp: servedBy_def servedIndex_def split: option.splits)

definition sampleWorkspace :: "Contribution list" where
  "sampleWorkspace = [sampleModule ''a'' [] [sampleImport ''a'' ''./b'' ModuleReferenceImport ''f'' []] [],
     sampleModule ''b'' [(''f'', ''javascript:function'')] [] []]"

lemma sampleWorkspace_separate: "separate javascriptDialect sampleWorkspace"
  by code_simp

lemma sampleWorkspace_resolves: "map_sum id rl_Edges (javascriptResolve id (\<lambda>_. None) sampleWorkspace :: unit resolve_error + Resolution) =
   Inr [\<lparr>e_SourceID = ''a'', e_TargetID = ''b'', e_Relation = ''javascript:imports_from'', e_Evidence = sampleEvidence ''a''\<rparr>,
     \<lparr>e_SourceID = ''a'', e_TargetID = ''bf'', e_Relation = ''javascript:imports_from'', e_Evidence = sampleEvidence ''a''\<rparr>]"
  by code_simp

text \<open>A page does not follow re-exports: what \<open>a\<close> imports through \<open>b\<close> from \<open>c\<close> is resolved at once but not by page.\<close>

definition barrelWorkspace :: "Contribution list" where
  "barrelWorkspace = [sampleModule ''a'' [] [sampleImport ''a'' ''./b'' ModuleReferenceImport ''f'' []] [],
     sampleModule ''b'' [] [sampleImport ''b'' ''./c'' ModuleReferenceReExport ''f'' ''f''] [],
     sampleModule ''c'' [(''f'', ''javascript:function'')] [] []]"

lemma page_ignores_re_exports:
  "map_sum id (\<lambda>r. map (\<lambda>e. (e_SourceID e, e_TargetID e)) (rl_Edges r)) (javascriptResolve id (\<lambda>_. None) barrelWorkspace :: unit resolve_error + Resolution) =
     Inr [(''a'', ''b''), (''a'', ''cf''), (''b'', ''c''), (''b'', ''cf'')]"
  "map_sum id (\<lambda>r. map (\<lambda>e. (e_SourceID e, e_TargetID e)) (rl_Edges r))
     (ResolvePage id javascriptDialect (servedIndex barrelWorkspace) barrelWorkspace ''p'') = Inr [(''a'', ''b''), (''b'', ''c''), (''b'', ''cf'')]"
  by code_simp+

text \<open>One symbol whose target has an unexpected kind, here a class that extends an imported constant, fails the whole page.\<close>

lemma extended_variable_fails:
  "ResolvePage id javascriptDialect (servedIndex
     [sampleModule ''a'' [(''A'', ''javascript:class'')] [sampleImport ''a'' ''./b'' ModuleReferenceImport ''B'' []]
        [\<lparr>sr_SourceID = ''aA'', sr_Target = ''B'', sr_Relation = ''javascript:extends'', sr_Evidence = sampleEvidence ''a''\<rparr>],
      sampleModule ''b'' [(''B'', ''javascript:variable'')] [] []])
     [sampleModule ''a'' [(''A'', ''javascript:class'')] [sampleImport ''a'' ''./b'' ModuleReferenceImport ''B'' []]
        [\<lparr>sr_SourceID = ''aA'', sr_Target = ''B'', sr_Relation = ''javascript:extends'', sr_Evidence = sampleEvidence ''a''\<rparr>]] ''p'' =
   Inl (ResolutionInvalid InvalidRelationEndpoint)"
  by code_simp

text \<open>A chain of renamings longer than the number of files is cut off: the only round of a single file finds \<open>b\<close> but not \<open>c\<close>.\<close>

definition renamingWorkspace :: "Contribution list" where
  "renamingWorkspace = [sampleModule ''a'' [(''f'', ''javascript:function'')]
     [sampleImport ''a'' ''./a'' ModuleReferenceReExport ''b'' ''c'', sampleImport ''a'' ''./a'' ModuleReferenceReExport ''f'' ''b''] []]"

lemma renaming_cut_off:
  "map es_Name (resolvedSurfaces javascriptDialect renamingWorkspace ''a'') = [''f'', ''b'']"
  "exported javascriptDialect renamingWorkspace ''a'' \<lparr>es_NodeID = ''af'', es_Name = ''c''\<rparr>"
proof -
  show "map es_Name (resolvedSurfaces javascriptDialect renamingWorkspace ''a'') = [''f'', ''b'']" by code_simp
  have own: "exported javascriptDialect renamingWorkspace ''a'' \<lparr>es_NodeID = ''af'', es_Name = ''f''\<rparr>"
    by (rule exported.own) code_simp
  have binding: "reExports javascriptDialect renamingWorkspace ''a'' ''a'' \<lparr>mb_ImportedName = from, mb_ExportedName = to, mb_LocalName = []\<rparr>"
    if "(from, to) \<in> {(''f'', ''b''), (''b'', ''c'')}" for "from" "to"
  proof -
    have "resolveRelativeSpecifier javascriptDialect (contributionPaths renamingWorkspace) ''a'' ''./a'' = Some ''a''" by code_simp
    moreover have "sampleImport ''a'' ''./a'' ModuleReferenceReExport from to \<in> set (referencesOf renamingWorkspace ''a'')"
      using that by (elim insertE emptyE) (simp_all add: renamingWorkspace_def sampleModule_def referencesOf_def contributionOf_def)
    ultimately show ?thesis by (force simp: reExports_def sampleImport_def)
  qed
  from exported.re_exported [OF binding [of "''f''" "''b''"] own]
  have "exported javascriptDialect renamingWorkspace ''a'' \<lparr>es_NodeID = ''af'', es_Name = ''b''\<rparr>"
    by (simp add: reExportable_def exportName_def)
  from exported.re_exported [OF binding [of "''b''" "''c''"] this]
  show "exported javascriptDialect renamingWorkspace ''a'' \<lparr>es_NodeID = ''af'', es_Name = ''c''\<rparr>"
    by (simp add: reExportable_def exportName_def)
qed

section \<open>Properties\<close>

text \<open>C17. Resolving page by page finds the edges of resolving at once: if a workspace of separate sources without re-exports resolves,
  then so does every page of it over an index that serves the workspace, however it is split into pages,
  and the edges of the pages together are the edges of the whole, with their multiplicity.\<close>

theorem pages_resolve_workspace:
  assumes "javascriptResolve quote parse cs = (Inr r :: 'e resolve_error + Resolution) \<and> d = javascriptDialect \<or> typescriptResolve quote parse cs = (Inr r :: 'e resolve_error + Resolution) \<and> d = typescriptDialect"
    "separate d cs" "servedBy d index project cs" "project \<noteq> []" "mset (concat pages) = mset cs"
  shows "\<exists>rs. list_all2 (\<lambda>page rp. ResolvePage quote d index page project = Inr rp) pages rs \<and>
    mset (rl_Edges r) = mset (concat (map rl_Edges rs))"
proof -
  have whole: "relativeResolve quote d cs = (Inr r :: 'e resolve_error + Resolution)"
    using assms(1) by (auto simp: javascriptResolve_relative typescriptResolve_relative)
  have "distinct cs" using assms(2) by (auto simp: separate_def distinct_map)
  then have distinct: "distinct (concat pages)" using assms(5) mset_eq_imp_distinct_iff by blast
  have "\<exists>rs. list_all2 (\<lambda>page rp. ResolvePage quote d index page project = Inr rp) ps rs \<and>
      mset (concat (map rl_Edges rs)) = mset (concat (map (edgesOf d cs) (concat ps)))"
    if "set (concat ps) \<subseteq> set cs" "distinct (concat ps)" for ps
    using that
  proof (induction ps)
    case (Cons p ps)
    then obtain rs where rs: "list_all2 (\<lambda>page rp. ResolvePage quote d index page project = Inr rp) ps rs"
      "mset (concat (map rl_Edges rs)) = mset (concat (map (edgesOf d cs) (concat ps)))" by auto
    from page_resolves [OF assms(2-4) whole, of p quote] Cons.prems obtain rp where
      "ResolvePage quote d index p project = Inr rp" "mset (rl_Edges rp) = mset (concat (map (edgesOf d cs) p))" by auto
    with rs show ?case by (intro exI [of _ "rp # rs"]) simp
  qed simp
  from this [of pages] obtain rs where rs: "list_all2 (\<lambda>page rp. ResolvePage quote d index page project = Inr rp) pages rs"
    "mset (concat (map rl_Edges rs)) = mset (concat (map (edgesOf d cs) (concat pages)))"
    using assms(5) distinct mset_eq_setD by blast
  have "mset (rl_Edges r) = mset (concat (map (edgesOf d cs) cs))" using workspace_edges [OF whole assms(2)] by blast
  also have "\<dots> = mset (concat (map (edgesOf d cs) (concat pages)))"
    unfolding mset_concat_map assms(5) ..
  finally show ?thesis using rs by auto
qed

lemma pages_resolve_workspace_witness:
  "\<exists>rs. list_all2 (\<lambda>page rp. ResolvePage id javascriptDialect (servedIndex sampleWorkspace) page ''p'' = Inr rp)
     (map (\<lambda>c. [c]) sampleWorkspace) rs \<and> length (concat (map rl_Edges rs)) = 2"
proof -
  obtain r where r: "javascriptResolve id (\<lambda>_. None) sampleWorkspace = (Inr r :: unit resolve_error + Resolution)" "length (rl_Edges r) = 2"
    using sampleWorkspace_resolves by (cases "javascriptResolve id (\<lambda>_. None) sampleWorkspace :: unit resolve_error + Resolution") auto
  have pages: "mset (concat (map (\<lambda>c. [c]) sampleWorkspace)) = mset sampleWorkspace" by simp
  have "''p'' \<noteq> ([] :: str)" by simp
  from pages_resolve_workspace [OF disjI1 [OF conjI [OF r(1) refl]] sampleWorkspace_separate servedIndex_served this pages]
  obtain rs where "list_all2 (\<lambda>page rp. ResolvePage id javascriptDialect (servedIndex sampleWorkspace) page ''p'' = Inr rp)
     (map (\<lambda>c. [c]) sampleWorkspace) rs" "mset (rl_Edges r) = mset (concat (map rl_Edges rs))" by (elim exE conjE)
  then show ?thesis using r(2) mset_eq_length [of "rl_Edges r"] by (intro exI [of _ rs]) simp
qed


end
