(* ===== verification/Syntax_Tree.thy ===== *)
theory Syntax_Tree
  imports Contracts
begin

text \<open>
  What the extractors of \<^verbatim>\<open>src/extractors\<close> see of a source: the file (\<^verbatim>\<open>extractor.Source\<close>) and the syntax tree
  the Tree-sitter parser makes of it. The parser and its grammars are not part of the repository: a tree is data
  that a parameter of the extractors returns, with the attributes the code reads (kind, byte and
  row extents, named or not, error, missing) and the fields a child is in. Lists of declarations and facts that the
  code appends to are threaded through. The lemmas reduce the recursive closures of the code to the
  list of nodes they visit.
\<close>

section \<open>Sources and trees\<close>

record SourceFile =
  sf_ProjectID :: str
  sf_SourcePath :: str
  sf_Contents :: str

record attributes =
  at_Kind :: str
  at_IsNamed :: bool
  at_IsError :: bool
  at_IsMissing :: bool
  at_HasError :: bool
  at_StartByte :: nat
  at_EndByte :: nat
  at_StartRow :: nat
  at_StartColumn :: nat
  at_EndRow :: nat
  at_EndColumn :: nat

datatype sitter_node = SitterNode attributes "(str list \<times> sitter_node) list"

fun attributesOf :: "sitter_node \<Rightarrow> attributes" where
  "attributesOf (SitterNode a cs) = a"

fun fieldChildren :: "sitter_node \<Rightarrow> (str list \<times> sitter_node) list" where
  "fieldChildren (SitterNode a cs) = cs"

abbreviation Kind :: "sitter_node \<Rightarrow> str" where
  "Kind node \<equiv> at_Kind (attributesOf node)"

abbreviation StartByte :: "sitter_node \<Rightarrow> nat" where
  "StartByte node \<equiv> at_StartByte (attributesOf node)"

abbreviation EndByte :: "sitter_node \<Rightarrow> nat" where
  "EndByte node \<equiv> at_EndByte (attributesOf node)"

definition Children :: "sitter_node \<Rightarrow> sitter_node list" where
  "Children node = map snd (fieldChildren node)"

definition NamedChildren :: "sitter_node \<Rightarrow> sitter_node list" where
  "NamedChildren node = filter (\<lambda>child. at_IsNamed (attributesOf child)) (Children node)"

definition ChildByFieldName :: "sitter_node \<Rightarrow> str \<Rightarrow> sitter_node option" where
  "ChildByFieldName node name = map_option snd (find (\<lambda>child. name \<in> set (fst child)) (fieldChildren node))"

text \<open>The slice of the contents; the parser's extents lie in them.\<close>

definition slice :: "str \<Rightarrow> nat \<Rightarrow> nat \<Rightarrow> str" where
  "slice contents lo hi = take (hi - lo) (drop lo contents)"

definition Utf8Text :: "str \<Rightarrow> sitter_node \<Rightarrow> str" where
  "Utf8Text contents node = slice contents (StartByte node) (EndByte node)"

text \<open>\<open>digest\<close> is SHA-256, \<open>extractor\<close> the name and version of the extractor.\<close>

definition spanOf :: "SourceFile \<Rightarrow> sitter_node \<Rightarrow> SourceSpan" where
  "spanOf source node =
     \<lparr>sp_Path = sf_SourcePath source,
      sp_StartLine = int (at_StartRow (attributesOf node)) + 1, sp_StartColumn = int (at_StartColumn (attributesOf node)) + 1,
      sp_EndLine = int (at_EndRow (attributesOf node)) + 1, sp_EndColumn = int (at_EndColumn (attributesOf node)) + 1\<rparr>"

definition evidenceFor :: "(str \<Rightarrow> str) \<Rightarrow> str \<Rightarrow> SourceFile \<Rightarrow> sitter_node \<Rightarrow> FactEvidence" where
  "evidenceFor digest extractor source node =
     \<lparr>ev_Span = spanOf source node,
      ev_FileHash = ''sha256:'' @ EncodeToString (digest (sf_Contents source)),
      ev_Extractor = extractor, ev_Provenance = ''static'', ev_Confidence = ConfidenceExtracted\<rparr>"

section \<open>Evaluation of identities\<close>

text \<open>The bytes of an identity by arithmetic on integers, for evaluation.\<close>

fun int_bytes :: "nat \<Rightarrow> int \<Rightarrow> str" where
  "int_bytes 0 n = []"
| "int_bytes (Suc k) n = int_bytes k (n div 256) @ [char_of (n mod 256)]"

lemma be_bytes_snoc: "be_bytes (Suc k) n = be_bytes k (n div 256) @ [char_of (n mod 256)]"
proof (induction k arbitrary: n)
  case (Suc k)
  have "n div 256 ^ Suc k = n div 256 div 256 ^ k" by (simp add: div_mult2_eq)
  then show ?case using Suc.IH [of n] by simp
qed simp

lemma char_of_int: "char_of (int n) = char_of n"
proof -
  have "(of_char (char_of n :: char) :: int) = int (of_char (char_of n :: char))" by (rule of_nat_of_char [symmetric])
  also have "\<dots> = take_bit 8 (int n)" by (simp only: of_char_of take_bit_eq_mod of_nat_mod) simp
  finally show ?thesis by (simp only: char_of_eq_iff)
qed

lemma int_bytes_eq: "int_bytes k (int n) = be_bytes k n"
proof (induction k arbitrary: n)
  case (Suc k)
  have "int n div 256 = int (n div 256)" "int n mod 256 = int (n mod 256)" by (simp_all add: of_nat_div of_nat_mod)
  then show ?case unfolding be_bytes_snoc int_bytes.simps by (simp only: Suc.IH char_of_int)
qed simp

lemma writeIdentityInt_code [code]: "writeIdentityInt value = int_bytes 8 (value mod 2 ^ 64)"
  by (simp add: writeIdentityInt_def flip: int_bytes_eq)

lemma writeIdentityString_code [code]: "writeIdentityString value = int_bytes 4 (int (length value) mod 2 ^ 32) @ value"
proof -
  have "int (length value) mod 2 ^ 32 = int (length value mod 2 ^ 32)" by (simp add: of_nat_mod)
  then show ?thesis by (simp only: writeIdentityString_def int_bytes_eq)
qed

definition int_hexDigit :: "int \<Rightarrow> char" where
  "int_hexDigit n = (if n < 10 then char_of (48 + n) else char_of (87 + n))"

lemma int_hexDigit_eq: "int_hexDigit (int n) = hexDigit n"
proof -
  have "char_of (48 + int n) = char_of (48 + n)" "char_of (87 + int n) = char_of (87 + n)"
    using char_of_int [of "48 + n"] char_of_int [of "87 + n"] by simp_all
  then show ?thesis by (simp add: int_hexDigit_def hexDigit_def)
qed

lemma EncodeToString_code [code]:
  "EncodeToString bs = concat (map (\<lambda>c. let n = of_char c :: int in [int_hexDigit (n div 16), int_hexDigit (n mod 16)]) bs)"
proof -
  have "(of_char c :: int) div 16 = int (of_char c div 16)" "(of_char c :: int) mod 16 = int (of_char c mod 16)" for c
    unfolding of_nat_of_char [of c, where 'a = int, symmetric] by (simp_all only: of_nat_div of_nat_mod of_nat_numeral)
  then show ?thesis by (simp only: EncodeToString_def Let_def int_hexDigit_eq)
qed

section \<open>Induction and traversal\<close>

lemma size_Children: "c \<in> set (Children t) \<Longrightarrow> size c < size t"
proof -
  assume c: "c \<in> set (Children t)"
  obtain a cs where t: "t = SitterNode a cs" by (cases t)
  from c t obtain fs where m: "(fs, c) \<in> set cs" by (auto simp: Children_def)
  have "size_prod (\<lambda>_. 0) size (fs, c) \<le> size_list (size_prod (\<lambda>_. 0) size) cs"
    using m by (rule size_list_estimation' [OF _ order_refl])
  then show ?thesis by (simp add: t)
qed

lemma NamedChildren_Children: "c \<in> set (NamedChildren t) \<Longrightarrow> c \<in> set (Children t)"
  by (auto simp: NamedChildren_def)

lemma size_NamedChildren: "c \<in> set (NamedChildren t) \<Longrightarrow> size c < size t"
  by (rule size_Children [OF NamedChildren_Children])

lemma ChildByFieldName_Children: "ChildByFieldName t f = Some c \<Longrightarrow> c \<in> set (Children t)"
  by (force simp: ChildByFieldName_def Children_def image_iff dest!: find_SomeD)

lemma size_ChildByFieldName: "ChildByFieldName t f = Some c \<Longrightarrow> size c < size t"
  by (rule size_Children [OF ChildByFieldName_Children])

lemma size_below [termination_simp]:
  "c \<in> set (NamedChildren (SitterNode a cs)) \<Longrightarrow> size c < Suc (size_list (\<lambda>x. Suc (size (snd x))) cs)"
  "ChildByFieldName (SitterNode a cs) f = Some c \<Longrightarrow> size c < Suc (size_list (\<lambda>x. Suc (size (snd x))) cs)"
  using size_NamedChildren [of c "SitterNode a cs"] size_ChildByFieldName [of "SitterNode a cs" f c]
  by (simp_all add: prod.size_neq size_prod_simp [abs_def] case_prod_beta)

lemma children_induct [case_names node]:
  assumes "\<And>t. (\<And>c. c \<in> set (Children t) \<Longrightarrow> P c) \<Longrightarrow> P t"
  shows "P t"
  by (induction t rule: measure_induct_rule [of size]) (use assms size_Children in blast)

text \<open>
  The nodes a recursive visit sees, in its order: a node, and below it the named children, unless the visit
  returns there.
\<close>

fun visited :: "(sitter_node \<Rightarrow> bool) \<Rightarrow> sitter_node \<Rightarrow> sitter_node list" where
  "visited enter (SitterNode a cs) =
     (if enter (SitterNode a cs) then SitterNode a cs # concat (map (visited enter) (NamedChildren (SitterNode a cs)))
      else [SitterNode a cs])"

definition visitedBelow :: "(sitter_node \<Rightarrow> bool) \<Rightarrow> sitter_node \<Rightarrow> sitter_node list" where
  "visitedBelow enter node = concat (map (visited enter) (NamedChildren node))"

lemma visited_eq: "visited enter t = t # (if enter t then visitedBelow enter t else [])"
  by (cases t) (simp add: visitedBelow_def)

lemma visited_self [simp]: "t \<in> set (visited enter t)"
  by (subst visited_eq) simp

text \<open>A node and everything below it.\<close>

fun subnodes :: "sitter_node \<Rightarrow> sitter_node list" where
  "subnodes (SitterNode a cs) = SitterNode a cs # concat (map subnodes (map snd cs))"

lemma subnodes_eq: "subnodes t = t # concat (map subnodes (Children t))"
  by (cases t) (simp add: Children_def comp_def)

lemma subnodes_self [simp]: "t \<in> set (subnodes t)"
  by (subst subnodes_eq) simp

lemma subnodes_child: "c \<in> set (Children t) \<Longrightarrow> n \<in> set (subnodes c) \<Longrightarrow> n \<in> set (subnodes t)"
  by (subst subnodes_eq) auto

lemma subnodes_trans: "n \<in> set (subnodes c) \<Longrightarrow> c \<in> set (subnodes t) \<Longrightarrow> n \<in> set (subnodes t)"
proof (induction t rule: children_induct)
  case (node t)
  from node.prems(2) consider "c = t" | d where "d \<in> set (Children t)" "c \<in> set (subnodes d)"
    by (subst (asm) subnodes_eq) auto
  then show ?case
  proof cases
    case 2
    then show ?thesis using node.IH [OF 2(1) node.prems(1) 2(2)] subnodes_child by blast
  qed (use node.prems in simp)
qed

lemma size_subnodes: "n \<in> set (subnodes t) \<Longrightarrow> size n \<le> size t"
proof (induction t rule: children_induct)
  case (node t)
  from node.prems consider "n = t" | c where "c \<in> set (Children t)" "n \<in> set (subnodes c)"
    by (subst (asm) subnodes_eq) auto
  then show ?case
  proof cases
    case 2
    then show ?thesis using node.IH size_Children by fastforce
  qed simp
qed

lemma subnodes_named: "c \<in> set (NamedChildren t) \<Longrightarrow> c \<in> set (subnodes t)"
  by (meson NamedChildren_Children subnodes_child subnodes_self)

lemma subnodes_field: "ChildByFieldName t f = Some c \<Longrightarrow> c \<in> set (subnodes t)"
  by (meson ChildByFieldName_Children subnodes_child subnodes_self)

lemma visited_subnodes: "n \<in> set (visited enter t) \<Longrightarrow> n \<in> set (subnodes t)"
proof (induction t arbitrary: n rule: children_induct)
  case (node t)
  from node.prems consider "n = t" | c where "c \<in> set (NamedChildren t)" "n \<in> set (visited enter c)"
    by (subst (asm) visited_eq) (auto simp: visitedBelow_def split: if_splits)
  then show ?case
  proof cases
    case 2
    then show ?thesis using node.IH NamedChildren_Children subnodes_named subnodes_trans by blast
  qed simp
qed

lemma visitedBelow_subnodes: "n \<in> set (visitedBelow enter t) \<Longrightarrow> n \<in> set (subnodes t)"
  by (auto simp: visitedBelow_def intro: subnodes_trans subnodes_named visited_subnodes)

section \<open>Declarations and facts\<close>

record declared =
  de_id :: str
  de_name :: str
  de_qualifiedName :: str
  de_node :: sitter_node
  de_nameStart :: nat
  de_nameEnd :: nat

definition addNode :: "Node \<Rightarrow> Facts \<Rightarrow> Facts" where
  "addNode node facts = facts\<lparr>f_Nodes := f_Nodes facts @ [node]\<rparr>"

definition addEdge :: "Edge \<Rightarrow> Facts \<Rightarrow> Facts" where
  "addEdge edge facts = facts\<lparr>f_Edges := f_Edges facts @ [edge]\<rparr>"

text \<open>A loop that appends declarations to a list and their facts to the facts.\<close>

fun collectD :: "('x \<Rightarrow> Facts \<Rightarrow> 'd list \<times> Facts) \<Rightarrow> 'x list \<Rightarrow> Facts \<Rightarrow> 'd list \<times> Facts" where
  "collectD f [] facts = ([], facts)"
| "collectD f (x # xs) facts =
     (let (ds, facts') = f x facts; (es, facts'') = collectD f xs facts' in (ds @ es, facts''))"

lemma collectD_cong [fundef_cong]:
  "xs = ys \<Longrightarrow> facts = facts' \<Longrightarrow> (\<And>x F. x \<in> set ys \<Longrightarrow> f x F = g x F) \<Longrightarrow> collectD f xs facts = collectD g ys facts'"
  by (induction ys arbitrary: xs facts facts') (auto split: prod.splits)

text \<open>
  The node of a declaration, the edge that defines it and what later passes keep of it.
\<close>

definition declareNode :: "(str \<Rightarrow> str) \<Rightarrow> FactEvidence \<Rightarrow> str \<Rightarrow> NodeKind \<Rightarrow> str \<Rightarrow> str \<Rightarrow> sitter_node \<Rightarrow> sitter_node \<Rightarrow> Facts \<Rightarrow>
    declared \<times> Facts" where
  "declareNode digest evidence parentID kind name qualifiedName node nameNode facts =
     (let id = NewNodeID digest kind (ev_Span evidence) in
      (\<lparr>de_id = id, de_name = name, de_qualifiedName = qualifiedName, de_node = node,
        de_nameStart = StartByte nameNode, de_nameEnd = EndByte nameNode\<rparr>,
       addEdge \<lparr>e_SourceID = parentID, e_TargetID = id, e_Relation = ''defines'', e_Evidence = evidence\<rparr>
         (addNode \<lparr>n_ID = id, n_Kind = kind, n_Label = name, n_QualifiedName = qualifiedName, n_Evidence = evidence\<rparr> facts)))"

text \<open>The file and project of a source, with which every extraction starts.\<close>

definition fileFacts :: "(str \<Rightarrow> str) \<Rightarrow> SourceFile \<Rightarrow> FactEvidence \<Rightarrow> Facts" where
  "fileFacts digest source evidence =
     (let fileID = NewNodeID digest ''file'' (ev_Span evidence) in
      \<lparr>f_Nodes =
         [\<lparr>n_ID = sf_ProjectID source, n_Kind = ''project'', n_Label = sf_ProjectID source,
           n_QualifiedName = sf_ProjectID source, n_Evidence = evidence\<rparr>,
          \<lparr>n_ID = fileID, n_Kind = ''file'', n_Label = sf_SourcePath source,
           n_QualifiedName = sf_SourcePath source, n_Evidence = evidence\<rparr>],
       f_Edges =
         [\<lparr>e_SourceID = sf_ProjectID source, e_TargetID = fileID, e_Relation = ''contains'', e_Evidence = evidence\<rparr>]\<rparr>)"

text \<open>The maps of declarations by name, in which the last one wins, and of the ends of their names by start.\<close>

definition declarationsByName :: "declared list \<Rightarrow> str \<rightharpoonup> declared" where
  "declarationsByName ds = fold (\<lambda>d m. m(de_name d \<mapsto> d)) ds Map.empty"

definition declarationNames :: "declared list \<Rightarrow> nat \<rightharpoonup> nat" where
  "declarationNames ds = fold (\<lambda>d m. m(de_nameStart d \<mapsto> de_nameEnd d)) ds Map.empty"

definition isDeclarationName :: "(nat \<rightharpoonup> nat) \<Rightarrow> sitter_node \<Rightarrow> bool" where
  "isDeclarationName names node \<longleftrightarrow> names (StartByte node) = Some (EndByte node)"

text \<open>The edge of a name that is used, if the name is declared.\<close>

definition referenceEdge :: "(sitter_node \<Rightarrow> FactEvidence) \<Rightarrow> str \<Rightarrow> str \<Rightarrow> (str \<rightharpoonup> declared) \<Rightarrow> sitter_node \<Rightarrow> Edge list" where
  "referenceEdge evidence contents sourceID byName node =
     (case byName (Utf8Text contents node) of
        None \<Rightarrow> []
      | Some target \<Rightarrow> [\<lparr>e_SourceID = sourceID, e_TargetID = de_id target, e_Relation = ''references'', e_Evidence = evidence node\<rparr>])"

datatype 'e extract_error =
    ProjectIDEmpty
  | SourcePathMissing
  | WorkerClosed
  | LanguageUnset 'e
  | SourceUnparsed str
  | SourceUnparsedAt str "(int \<times> int \<times> int \<times> int \<times> str) option"
  | VocabularyUnavailable contract_error
  | PackageClauseMissing str
  | PackageNameMissing str
  | ContributionInvalid contract_error

lemma declarationsByName_eq: "declarationsByName ds x = find (\<lambda>d. de_name d = x) (rev ds)"
proof -
  have "fold (\<lambda>d m. m(de_name d \<mapsto> d)) ds m x = (case find (\<lambda>d. de_name d = x) (rev ds) of None \<Rightarrow> m x | Some d \<Rightarrow> Some d)" for m
  proof (induction ds arbitrary: m rule: rev_induct)
    case (snoc d ds)
    then show ?case by (simp split: option.split)
  qed simp
  from this [of Map.empty] show ?thesis unfolding declarationsByName_def by (simp split: option.splits)
qed

lemma declarationsByName_Some: "declarationsByName ds x = Some d \<Longrightarrow> d \<in> set ds \<and> de_name d = x"
  by (auto simp: declarationsByName_eq dest!: find_SomeD)

lemma referenceEdge_mem:
  "e \<in> set (referenceEdge evidence contents sourceID byName node) \<longleftrightarrow>
     (\<exists>d. byName (Utf8Text contents node) = Some d \<and>
       e = \<lparr>e_SourceID = sourceID, e_TargetID = de_id d, e_Relation = ''references'', e_Evidence = evidence node\<rparr>)"
  by (cases "byName (Utf8Text contents node)") (auto simp: referenceEdge_def)

section \<open>Trees without errors\<close>

text \<open>
  What the parser guarantees of the tree of a source without errors: rows and columns are ordered, and identifiers and the
  nodes in a field are not empty.
\<close>

definition positioned :: "sitter_node \<Rightarrow> bool" where
  "positioned t \<longleftrightarrow>
     (let a = attributesOf t in
      at_StartRow a < at_EndRow a \<or> at_StartRow a = at_EndRow a \<and> at_StartColumn a \<le> at_EndColumn a)"

definition spelled :: "str \<Rightarrow> sitter_node \<Rightarrow> bool" where
  "spelled contents t \<longleftrightarrow>
     list_all (\<lambda>(fs, c). (fs \<noteq> [] \<or> Kind c \<in> {''identifier'', ''type_identifier'', ''package_identifier''}) \<longrightarrow>
       Utf8Text contents c \<noteq> []) (fieldChildren t)"

definition wellParsed :: "str \<Rightarrow> sitter_node \<Rightarrow> bool" where
  "wellParsed contents t \<longleftrightarrow> list_all (\<lambda>n. positioned n \<and> spelled contents n) (subnodes t)"

lemma wellParsed_positioned: "wellParsed contents t \<Longrightarrow> n \<in> set (subnodes t) \<Longrightarrow> positioned n"
  by (auto simp: wellParsed_def list_all_iff)

lemma wellParsed_field:
  assumes "wellParsed contents t" "n \<in> set (subnodes t)" "ChildByFieldName n f = Some c"
  shows "Utf8Text contents c \<noteq> []"
proof -
  from assms(3) obtain fs where "(fs, c) \<in> set (fieldChildren n)" "f \<in> set fs"
    by (auto simp: ChildByFieldName_def dest!: find_SomeD)
  moreover have "spelled contents n" using assms(1,2) by (auto simp: wellParsed_def list_all_iff)
  ultimately show ?thesis by (fastforce simp: spelled_def list_all_iff)
qed

lemma subnodes_parent:
  "n \<in> set (subnodes t) \<Longrightarrow> n = t \<or> (\<exists>p \<in> set (subnodes t). n \<in> set (Children p))"
proof (induction t rule: children_induct)
  case (node t)
  from node.prems consider "n = t" | c where "c \<in> set (Children t)" "n \<in> set (subnodes c)"
    by (subst (asm) subnodes_eq) auto
  then show ?case
  proof cases
    case 2
    then consider "n = c" | p where "p \<in> set (subnodes c)" "n \<in> set (Children p)" using node.IH by blast
    then show ?thesis
    proof cases
      case 1
      then show ?thesis using 2(1) subnodes_self by blast
    next
      case (2 p)
      then show ?thesis using \<open>c \<in> set (Children t)\<close> subnodes_child by blast
    qed
  qed simp
qed

lemma wellParsed_identifier:
  assumes "wellParsed contents t" "n \<in> set (subnodes t)" "n \<noteq> t" "Kind n \<in> {''identifier'', ''type_identifier'', ''package_identifier''}"
  shows "Utf8Text contents n \<noteq> []"
proof -
  from subnodes_parent [OF assms(2)] assms(3) obtain p where p: "p \<in> set (subnodes t)" "n \<in> set (Children p)" by blast
  then obtain fs where "(fs, n) \<in> set (fieldChildren p)" by (auto simp: Children_def)
  moreover have "spelled contents p" using assms(1) p(1) by (auto simp: wellParsed_def list_all_iff)
  ultimately show ?thesis using assms(4) by (fastforce simp: spelled_def list_all_iff)
qed

section \<open>Facts that satisfy a language vocabulary\<close>

lemma evidenceFor_ok:
  assumes "positioned node" "sf_SourcePath source \<noteq> []" "extractor \<noteq> []"
  shows "evidence_ok (evidenceFor digest extractor source node)"
  using assms by (auto simp: evidence_ok_def evidenceFor_def spanOf_def positioned_def Let_def)

lemma evidenceFor_span [simp]: "ev_Span (evidenceFor digest extractor source node) = spanOf source node"
  by (simp add: evidenceFor_def)

lemma NewNodeID_nonempty [simp]: "NewNodeID digest kind span \<noteq> []"
  by (simp add: NewNodeID_def)

text \<open>A vocabulary of a language with the kinds \<open>K\<close> of declarations.\<close>

definition vocabularyFor :: "Vocabulary \<Rightarrow> NodeKind list \<Rightarrow> bool" where
  "vocabularyFor v K \<longleftrightarrow> {''project'', ''file''} \<union> set K \<subseteq> nodeKinds v \<and>
     (\<exists>r. relations v ''contains'' = Some r \<and> rd_Endpoints r = [\<lparr>ep_Source = ''project'', ep_Target = ''file''\<rparr>]) \<and>
     (\<forall>relation \<in> {''defines'', ''references''}. \<exists>r. relations v relation = Some r \<and> rd_Endpoints r = declarationEndpoints K)"

lemma NewLanguageVocabulary_for:
  assumes "NewLanguageVocabulary name K = Inr v"
  shows "vocabularyFor v K"
  using assms by (auto simp: NewLanguageVocabulary_def NewVocabulary_iff vocabulary_of_def vocabularyFor_def split: if_splits)

lemma declarationEndpoints_iff:
  "\<lparr>ep_Source = s, ep_Target = t\<rparr> \<in> set (declarationEndpoints K) \<longleftrightarrow> (s = ''file'' \<or> s \<in> set K) \<and> t \<in> set K"
  by (auto simp: declarationEndpoints_def)

text \<open>Facts all of whose nodes and edges are valid; only the uniqueness of IDs is missing.\<close>

definition typedFacts :: "Vocabulary \<Rightarrow> Facts \<Rightarrow> bool" where
  "typedFacts v facts \<longleftrightarrow> (\<forall>n \<in> set (f_Nodes facts). node_ok v n) \<and> (\<forall>e \<in> set (f_Edges facts). edge_ok v (f_Nodes facts) e)"

lemma facts_ok_typed: "facts_ok v facts \<longleftrightarrow> distinct (map n_ID (f_Nodes facts)) \<and> typedFacts v facts"
  by (simp add: facts_ok_def typedFacts_def)

lemma edge_ok_mono: "edge_ok v ns e \<Longrightarrow> set ns \<subseteq> set ns' \<Longrightarrow> edge_ok v ns' e"
  unfolding edge_ok_def by blast

definition kindAt :: "NodeKind set \<Rightarrow> Node list \<Rightarrow> str \<Rightarrow> bool" where
  "kindAt K ns i \<longleftrightarrow> (\<exists>n \<in> set ns. n_ID n = i \<and> n_Kind n \<in> K)"

lemma kindAt_mono: "kindAt K ns i \<Longrightarrow> set ns \<subseteq> set ns' \<Longrightarrow> K \<subseteq> K' \<Longrightarrow> kindAt K' ns' i"
  unfolding kindAt_def by blast

lemma edge_okI:
  assumes "relations v (e_Relation e) = Some r" "evidence_ok (e_Evidence e)" "s \<in> set ns" "n_ID s = e_SourceID e"
    "t \<in> set ns" "n_ID t = e_TargetID e" "\<lparr>ep_Source = n_Kind s, ep_Target = n_Kind t\<rparr> \<in> set (rd_Endpoints r)"
  shows "edge_ok v ns e"
proof -
  have "\<exists>rule \<in> set (rd_Endpoints r). ep_Source rule = n_Kind s \<and> ep_Target rule = n_Kind t"
    using assms(7) by (rule rev_bexI) simp
  with assms show ?thesis unfolding edge_ok_def by blast
qed

lemma declaration_edge_ok:
  assumes "vocabularyFor v K" "e_Relation e \<in> {''defines'', ''references''}" "evidence_ok (e_Evidence e)"
    "kindAt (insert ''file'' (set K)) ns (e_SourceID e)" "kindAt (set K) ns (e_TargetID e)"
  shows "edge_ok v ns e"
proof -
  from assms(1,2) obtain r where r: "relations v (e_Relation e) = Some r" "rd_Endpoints r = declarationEndpoints K"
    by (auto simp: vocabularyFor_def)
  from assms(4,5) obtain s t where st: "s \<in> set ns" "n_ID s = e_SourceID e" "n_Kind s \<in> insert ''file'' (set K)"
    "t \<in> set ns" "n_ID t = e_TargetID e" "n_Kind t \<in> set K" by (auto simp: kindAt_def)
  then have "\<lparr>ep_Source = n_Kind s, ep_Target = n_Kind t\<rparr> \<in> set (rd_Endpoints r)" by (auto simp: r(2) declarationEndpoints_iff)
  with st show ?thesis by (intro edge_okI [OF r(1) assms(3)])
qed

lemma typed_addEdges:
  assumes "typedFacts v facts" "\<forall>e \<in> set es. edge_ok v (f_Nodes facts) e"
  shows "typedFacts v (facts\<lparr>f_Edges := f_Edges facts @ es\<rparr>)"
  using assms by (auto simp: typedFacts_def)

lemma typed_fileFacts:
  assumes "vocabularyFor v K" "evidence_ok evidence" "sf_ProjectID source \<noteq> []"
  shows "typedFacts v (fileFacts digest source evidence)"
proof -
  let ?facts = "fileFacts digest source evidence"
  from assms(1) obtain r where r: "relations v ''contains'' = Some r" "rd_Endpoints r = [\<lparr>ep_Source = ''project'', ep_Target = ''file''\<rparr>]"
    by (auto simp: vocabularyFor_def)
  have "edge_ok v (f_Nodes ?facts) (hd (f_Edges ?facts))"
    by (rule edge_okI [of _ _ r "f_Nodes ?facts ! 0" _ "f_Nodes ?facts ! 1"])
      (simp_all add: r assms(2) fileFacts_def Let_def)
  then show ?thesis using assms by (simp add: typedFacts_def fileFacts_def Let_def node_ok_def vocabularyFor_def)
qed

text \<open>
  A step from \<open>facts\<close> to \<open>facts'\<close> that declares \<open>ds\<close>: valid facts stay valid, the nodes it adds are those of \<open>ds\<close>, of kinds that \<open>P\<close> allows for
  their syntax, and the edges it adds are no references.
\<close>

definition declares :: "Vocabulary \<Rightarrow> (sitter_node \<Rightarrow> NodeKind \<Rightarrow> bool) \<Rightarrow> Facts \<Rightarrow> declared list \<Rightarrow> Facts \<Rightarrow> bool" where
  "declares v P facts ds facts' \<longleftrightarrow> (typedFacts v facts \<longrightarrow> typedFacts v facts') \<and>
     set (f_Edges facts) \<subseteq> set (f_Edges facts') \<and> (\<forall>e \<in> set (f_Edges facts'). e_Relation e = ''references'' \<longrightarrow> e \<in> set (f_Edges facts)) \<and>
     (\<exists>ns. f_Nodes facts' = f_Nodes facts @ ns \<and>
        list_all2 (\<lambda>d n. n_ID n = de_id d \<and> n_Label n = de_name d \<and> P (de_node d) (n_Kind n)) ds ns)"

lemma declares_refl [simp]: "declares v P facts [] facts"
  by (simp add: declares_def)

lemma declares_trans:
  assumes "declares v P facts ds facts'" "declares v P facts' es facts''"
  shows "declares v P facts (ds @ es) facts''"
proof -
  from assms obtain ns ms where "f_Nodes facts' = f_Nodes facts @ ns" "f_Nodes facts'' = f_Nodes facts' @ ms"
    "list_all2 (\<lambda>d n. n_ID n = de_id d \<and> n_Label n = de_name d \<and> P (de_node d) (n_Kind n)) ds ns"
    "list_all2 (\<lambda>d n. n_ID n = de_id d \<and> n_Label n = de_name d \<and> P (de_node d) (n_Kind n)) es ms"
    unfolding declares_def by blast
  moreover from this have "\<exists>ks. f_Nodes facts'' = f_Nodes facts @ ks \<and>
      list_all2 (\<lambda>d n. n_ID n = de_id d \<and> n_Label n = de_name d \<and> P (de_node d) (n_Kind n)) (ds @ es) ks"
    by (auto intro!: list_all2_appendI)
  ultimately show ?thesis using assms unfolding declares_def by blast
qed

lemma declares_subset: "declares v P facts ds facts' \<Longrightarrow> set (f_Nodes facts) \<subseteq> set (f_Nodes facts')"
  by (auto simp: declares_def)

lemma declares_node:
  assumes "declares v P facts ds facts'" "d \<in> set ds"
  obtains n where "n \<in> set (f_Nodes facts')" "n_ID n = de_id d" "n_Label n = de_name d" "P (de_node d) (n_Kind n)"
proof -
  from assms(1) obtain ns where ns: "f_Nodes facts' = f_Nodes facts @ ns"
    "list_all2 (\<lambda>d n. n_ID n = de_id d \<and> n_Label n = de_name d \<and> P (de_node d) (n_Kind n)) ds ns"
    by (auto simp: declares_def)
  from assms(2) obtain i where i: "i < length ds" "ds ! i = d" by (auto simp: in_set_conv_nth)
  with ns have "i < length ns" "n_ID (ns ! i) = de_id d" "n_Label (ns ! i) = de_name d" "P (de_node d) (n_Kind (ns ! i))"
    by (auto simp: list_all2_conv_all_nth)
  then show thesis using that [of "ns ! i"] ns(1) by simp
qed

lemma collectD_declares:
  assumes "\<And>x F. x \<in> set xs \<Longrightarrow> set (f_Nodes facts) \<subseteq> set (f_Nodes F) \<Longrightarrow> declares v P F (fst (f x F)) (snd (f x F))"
  shows "declares v P facts (fst (collectD f xs facts)) (snd (collectD f xs facts))"
  using assms
proof (induction xs arbitrary: facts)
  case (Cons x xs)
  from Cons.prems have first: "declares v P facts (fst (f x facts)) (snd (f x facts))" by simp
  have "declares v P (snd (f x facts)) (fst (collectD f xs (snd (f x facts)))) (snd (collectD f xs (snd (f x facts))))"
    by (rule Cons.IH) (use Cons.prems declares_subset [OF first] in auto)
  with declares_trans [OF first] show ?case by (simp add: case_prod_beta)
qed simp

lemma declareNode_declares:
  assumes "vocabularyFor v K" "kind \<in> set K" "P node kind" "evidence_ok evidence" "kindAt (insert ''file'' (set K)) (f_Nodes facts) parentID"
    "declareNode digest evidence parentID kind name qualifiedName node nameNode facts = (d, facts')"
  shows "declares v P facts [d] facts'"
proof -
  let ?id = "NewNodeID digest kind (ev_Span evidence)"
  let ?n = "\<lparr>n_ID = ?id, n_Kind = kind, n_Label = name, n_QualifiedName = qualifiedName, n_Evidence = evidence\<rparr>"
  let ?e = "\<lparr>e_SourceID = parentID, e_TargetID = ?id, e_Relation = ''defines'', e_Evidence = evidence\<rparr>"
  have facts': "facts' = addEdge ?e (addNode ?n facts)" and d: "de_id d = ?id" "de_name d = name" "de_node d = node"
    using assms(6) by (auto simp: declareNode_def Let_def)
  have "edge_ok v (f_Nodes facts @ [?n]) ?e"
    using assms(5) assms(2) by (intro declaration_edge_ok [OF assms(1)]) (auto simp: assms(4) kindAt_def)
  moreover have "node_ok v ?n" using assms(1,2,4) by (auto simp: node_ok_def vocabularyFor_def)
  ultimately have "typedFacts v facts \<Longrightarrow> typedFacts v facts'"
    unfolding typedFacts_def facts' addEdge_def addNode_def by (auto intro: edge_ok_mono)
  then show ?thesis using assms(3) d by (simp add: declares_def facts' addEdge_def addNode_def subset_insertI)
qed

lemma list_all2_pick: "list_all2 P xs ys \<Longrightarrow> x \<in> set xs \<Longrightarrow> \<exists>y \<in> set ys. P x y"
  by (induction rule: list_all2_induct) auto

text \<open>Declarations that \<open>parentID\<close> defines.\<close>

definition definesAll :: "str \<Rightarrow> Facts \<Rightarrow> declared list \<Rightarrow> Facts \<Rightarrow> bool" where
  "definesAll parentID facts ds facts' \<longleftrightarrow> set (f_Edges facts) \<subseteq> set (f_Edges facts') \<and>
     (\<forall>d \<in> set ds. \<exists>e \<in> set (f_Edges facts'). e_SourceID e = parentID \<and> e_TargetID e = de_id d \<and> e_Relation e = ''defines'')"

lemma collectD_defines:
  assumes "\<And>x F. definesAll parentID F (fst (f x F)) (snd (f x F))"
  shows "definesAll parentID facts (fst (collectD f xs facts)) (snd (collectD f xs facts))"
proof (induction xs arbitrary: facts)
  case (Cons x xs)
  from Cons.IH [of "snd (f x facts)"] assms [of facts x] show ?case
    unfolding definesAll_def by (auto simp: case_prod_beta) (meson subsetD)
qed (simp add: definesAll_def)

lemma declareNode_defines:
  assumes "declareNode digest evidence parentID kind name qualifiedName node nameNode facts = (d, facts')"
  shows "definesAll parentID facts [d] facts'"
  using assms by (auto simp: declareNode_def definesAll_def addEdge_def addNode_def Let_def)

end
