(* ===== verification/Go_Strconv.thy ===== *)
theory Go_Strconv
  imports Prelude
begin

text \<open>
  \<^verbatim>\<open>strconv.Unquote\<close> of Go's standard library, which the extractors apply to the string literals of
  import specifiers: escapes, octal and hexadecimal bytes, code points written in UTF-8, raw strings. Its shortcut for
  literals without an escape computes what the loop computes and is not written out.
\<close>

section \<open>Bytes and runes\<close>

abbreviation byte :: "char \<Rightarrow> nat" where
  "byte c \<equiv> of_char c"

definition between :: "nat \<Rightarrow> nat \<Rightarrow> nat \<Rightarrow> bool" where
  "between lo hi n \<longleftrightarrow> lo \<le> n \<and> n \<le> hi"

text \<open>
  The length of the well-formed UTF-8 sequence a string starts with, or 0 (\<^verbatim>\<open>utf8.DecodeRuneInString\<close>
  then answers \<^verbatim>\<open>RuneError\<close> with length 1).
\<close>

definition continuation :: "str \<Rightarrow> bool" where
  "continuation s \<longleftrightarrow> list_all (\<lambda>c. between 0x80 0xBF (byte c)) s"

definition runeSize :: "str \<Rightarrow> nat" where
  "runeSize s =
     (case s of [] \<Rightarrow> 0 | c # rest \<Rightarrow>
       (let b = byte c; tail = (\<lambda>n. take n rest);
            second = (case rest of [] \<Rightarrow> 0 | d # _ \<Rightarrow> byte d);
            long = (\<lambda>n. length (tail n) = n \<and> continuation (tail n)) in
        if b < 0x80 then 1
        else if between 0xC2 0xDF b then (if long 1 then 2 else 0)
        else if b = 0xE0 then (if long 2 \<and> 0xA0 \<le> second then 3 else 0)
        else if b = 0xED then (if long 2 \<and> second \<le> 0x9F then 3 else 0)
        else if between 0xE1 0xEF b then (if long 2 then 3 else 0)
        else if b = 0xF0 then (if long 3 \<and> 0x90 \<le> second then 4 else 0)
        else if between 0xF1 0xF3 b then (if long 3 then 4 else 0)
        else if b = 0xF4 then (if long 3 \<and> second \<le> 0x8F then 4 else 0)
        else 0))"

definition ValidRune :: "nat \<Rightarrow> bool" where
  "ValidRune r \<longleftrightarrow> r < 0xD800 \<or> between 0xE000 0x10FFFF r"

definition AppendRune :: "nat \<Rightarrow> str" where
  "AppendRune r =
     (if r < 0x80 then [char_of r]
      else if r < 0x800 then [char_of (0xC0 + r div 64), char_of (0x80 + r mod 64)]
      else if r < 0x10000 then [char_of (0xE0 + r div 4096), char_of (0x80 + r div 64 mod 64), char_of (0x80 + r mod 64)]
      else [char_of (0xF0 + r div 262144), char_of (0x80 + r div 4096 mod 64), char_of (0x80 + r div 64 mod 64),
        char_of (0x80 + r mod 64)])"

section \<open>Escapes\<close>

definition unhex :: "char \<Rightarrow> nat option" where
  "unhex c =
     (let b = byte c in
      if between 48 57 b then Some (b - 48)
      else if between 97 102 b then Some (b - 87)
      else if between 65 70 b then Some (b - 55)
      else None)"

fun digits :: "(char \<Rightarrow> nat option) \<Rightarrow> nat \<Rightarrow> nat \<Rightarrow> nat \<Rightarrow> str \<Rightarrow> (nat \<times> str) option" where
  "digits digit base 0 v s = Some (v, s)"
| "digits digit base (Suc n) v [] = None"
| "digits digit base (Suc n) v (c # s) =
     (case digit c of None \<Rightarrow> None | Some d \<Rightarrow> digits digit base n (v * base + d) s)"

definition octalDigit :: "char \<Rightarrow> nat option" where
  "octalDigit c = (if between 48 55 (byte c) then Some (byte c - 48) else None)"

definition simpleEscape :: "char \<Rightarrow> nat option" where
  "simpleEscape c = map_of [(CHR ''a'', 7), (CHR ''b'', 8), (CHR ''f'', 12), (CHR ''n'', 10), (CHR ''r'', 13), (CHR ''t'', 9),
     (CHR ''v'', 11), (CHR 0x5C, 0x5C)] c"

text \<open>The bytes a character of a literal stands for, and the rest of the literal.\<close>

definition codePoint :: "nat \<Rightarrow> str \<Rightarrow> (str \<times> str) option" where
  "codePoint n s =
     (case digits unhex 16 n 0 s of
        None \<Rightarrow> None
      | Some (v, rest) \<Rightarrow> if ValidRune v then Some (AppendRune v, rest) else None)"

definition unquoteEscape :: "char \<Rightarrow> str \<Rightarrow> (str \<times> str) option" where
  "unquoteEscape quote s =
     (case s of [] \<Rightarrow> None | c # rest \<Rightarrow>
       (case simpleEscape c of
          Some v \<Rightarrow> Some ([char_of v], rest)
        | None \<Rightarrow>
            if c = CHR ''x'' then map_option (\<lambda>(v, rest). ([char_of v], rest)) (digits unhex 16 2 0 rest)
            else if c = CHR ''u'' then codePoint 4 rest
            else if c = CHR ''U'' then codePoint 8 rest
            else if octalDigit c \<noteq> None then
              (case digits octalDigit 8 3 0 s of
                 None \<Rightarrow> None
               | Some (v, rest) \<Rightarrow> if v > 255 then None else Some ([char_of v], rest))
            else if c = quote \<and> (c = CHR 0x22 \<or> c = CHR 0x27) then Some ([c], rest)
            else None))"

definition UnquoteChar :: "char \<Rightarrow> char \<Rightarrow> str \<Rightarrow> (str \<times> str) option" where
  "UnquoteChar quote c s =
     (if byte c \<ge> 0x80 then
        (let n = runeSize (c # s) in
         if n = 0 then Some (AppendRune 0xFFFD, s) else Some (take n (c # s), drop (n - 1) s))
      else if c \<noteq> CHR 0x5C then Some ([c], s)
      else unquoteEscape quote s)"

section \<open>Literals\<close>

lemma digits_length: "digits digit base n v s = Some (w, r) \<Longrightarrow> length r \<le> length s"
  by (induction digit base n v s rule: digits.induct) (auto split: option.splits)

lemma unquoteEscape_length: "unquoteEscape quote s = Some (b, r) \<Longrightarrow> length r \<le> length s"
  by (auto simp: unquoteEscape_def codePoint_def split: option.splits list.splits if_splits dest: digits_length)

lemma UnquoteChar_length [termination_simp]: "UnquoteChar quote c s = Some (b, r) \<Longrightarrow> length r < Suc (length s)"
  by (auto simp: UnquoteChar_def Let_def less_Suc_eq_le split: if_splits dest: unquoteEscape_length)

text \<open>The characters up to the closing quote; a single-quoted literal has one of them.\<close>

fun unquoteLoop :: "char \<Rightarrow> str \<Rightarrow> str \<Rightarrow> (str \<times> str) option" where
  "unquoteLoop quote buf [] = Some (buf, [])"
| "unquoteLoop quote buf (c # s) =
     (if c = quote then Some (buf, c # s)
      else if c = CHR 0x0A then None
      else
        (case UnquoteChar quote c s of
           None \<Rightarrow> None
         | Some (bytes, rest) \<Rightarrow>
             if quote = CHR 0x27 then Some (buf @ bytes, rest) else unquoteLoop quote (buf @ bytes) rest))"

definition Unquote :: "str \<Rightarrow> str option" where
  "Unquote s =
     (case s of [] \<Rightarrow> None | quote # rest \<Rightarrow>
        if quote = CHR 0x60 then
          (case dropWhile (\<lambda>c. c \<noteq> quote) rest of
             [] \<Rightarrow> None
           | _ # rem \<Rightarrow> if rem = [] then Some (filter (\<lambda>c. c \<noteq> CHR 0x0D) (takeWhile (\<lambda>c. c \<noteq> quote) rest)) else None)
        else if quote = CHR 0x22 \<or> quote = CHR 0x27 then
          (case unquoteLoop quote [] rest of
             None \<Rightarrow> None
           | Some (buf, rem) \<Rightarrow> if rem = [quote] then Some buf else None)
        else None)"

section \<open>Plain literals\<close>

text \<open>A character that stands for itself between double quotes.\<close>

definition plainChar :: "char \<Rightarrow> bool" where
  "plainChar c \<longleftrightarrow> byte c < 0x80 \<and> c \<noteq> CHR 0x22 \<and> c \<noteq> CHR 0x5C \<and> c \<noteq> CHR 0x0A"

lemma unquoteLoop_plain:
  "\<forall>c \<in> set w. plainChar c \<Longrightarrow> unquoteLoop (CHR 0x22) buf (w @ [CHR 0x22]) = Some (buf @ w, [CHR 0x22])"
  by (induction w arbitrary: buf) (auto simp: plainChar_def UnquoteChar_def)

lemma Unquote_plain: "\<forall>c \<in> set w. plainChar c \<Longrightarrow> Unquote (CHR 0x22 # w @ [CHR 0x22]) = Some w"
  by (simp add: Unquote_def unquoteLoop_plain)

lemma Unquote_raw: "CHR 0x60 \<notin> set w \<Longrightarrow> CHR 0x0D \<notin> set w \<Longrightarrow> Unquote (CHR 0x60 # w @ [CHR 0x60]) = Some w"
proof -
  assume a: "CHR 0x60 \<notin> set w" "CHR 0x0D \<notin> set w"
  then have "dropWhile (\<lambda>c. c \<noteq> CHR 0x60) (w @ [CHR 0x60]) = [CHR 0x60]" "takeWhile (\<lambda>c. c \<noteq> CHR 0x60) (w @ [CHR 0x60]) = w"
    by (induction w) auto
  moreover from a have "filter (\<lambda>c. c \<noteq> CHR 0x0D) w = w" by (auto simp: filter_id_conv)
  ultimately show ?thesis by (simp add: Unquote_def)
qed

text \<open>A double quote inside of the literal ends it, so nothing but an escape can hold one.\<close>

lemma Unquote_inner_quote:
  assumes "\<forall>c \<in> set w. plainChar c"
  shows "Unquote (CHR 0x22 # w @ CHR 0x22 # v @ [CHR 0x22]) = None"
proof -
  have "unquoteLoop (CHR 0x22) buf (w @ CHR 0x22 # x) = Some (buf @ w, CHR 0x22 # x)" for buf x
    using assms by (induction w arbitrary: buf) (auto simp: plainChar_def UnquoteChar_def)
  then show ?thesis by (simp add: Unquote_def)
qed

end
