(* ===== verification/Extract_Go.thy ===== *)
theory Extract_Go
  imports Syntax_Tree Go_Strconv Registry
begin

text \<open>
  The extractor of Go (\<^verbatim>\<open>src/extractors/go/go.go\<close>): the package, types, functions, methods and variables of a file,
  the references between them, its imports, calls of other packages, interface methods and exported
  names. A closure that visits a tree is a loop over the nodes it visits (\<open>visited\<close>); Go compares
  node pointers only to tell the node a visit starts at from those below it, which the parser returns
  as new pointers. The parser is an argument, or the error of setting its language.
\<close>

section \<open>Declarations\<close>

definition goEvidence :: "(str \<Rightarrow> str) \<Rightarrow> SourceFile \<Rightarrow> sitter_node \<Rightarrow> FactEvidence" where
  "goEvidence digest source node = evidenceFor digest ''go@v0'' source node"

definition appendDeclaration :: "(str \<Rightarrow> str) \<Rightarrow> SourceFile \<Rightarrow> str \<Rightarrow> str \<Rightarrow> NodeKind \<Rightarrow> str \<Rightarrow> sitter_node \<Rightarrow> sitter_node \<Rightarrow>
    Facts \<Rightarrow> declared \<times> Facts" where
  "appendDeclaration digest source parentID parentQualifiedName kind name node nameNode facts =
     declareNode digest (goEvidence digest source node) parentID kind name (parentQualifiedName @ ''.'' @ name) node nameNode facts"

definition identifiersIn :: "sitter_node \<Rightarrow> sitter_node list" where
  "identifiersIn node = filter (\<lambda>n. Kind n = ''identifier'') (visited (\<lambda>n. Kind n \<noteq> ''identifier'') node)"

definition appendVariable :: "(str \<Rightarrow> str) \<Rightarrow> SourceFile \<Rightarrow> str \<Rightarrow> str \<Rightarrow> sitter_node \<Rightarrow> Facts \<Rightarrow> declared list \<times> Facts" where
  "appendVariable digest source parentID parentQualifiedName identifier facts =
     (let name = Utf8Text (sf_Contents source) identifier in
      if name = ''_'' then ([], facts)
      else let (d, facts') = appendDeclaration digest source parentID parentQualifiedName ''go:variable'' name identifier identifier facts
           in ([d], facts'))"

definition appendVariablesFromNames :: "(str \<Rightarrow> str) \<Rightarrow> SourceFile \<Rightarrow> str \<Rightarrow> str \<Rightarrow> sitter_node \<Rightarrow> Facts \<Rightarrow>
    declared list \<times> Facts" where
  "appendVariablesFromNames digest source parentID parentQualifiedName node facts =
     (case NamedChildren node of
        [] \<Rightarrow> ([], facts)
      | first # _ \<Rightarrow> collectD (appendVariable digest source parentID parentQualifiedName) (identifiersIn first) facts)"

definition appendVariables :: "(str \<Rightarrow> str) \<Rightarrow> SourceFile \<Rightarrow> str \<Rightarrow> str \<Rightarrow> sitter_node \<Rightarrow> Facts \<Rightarrow> declared list \<times> Facts" where
  "appendVariables digest source parentID parentQualifiedName node facts =
     collectD (appendVariablesFromNames digest source parentID parentQualifiedName)
       (filter (\<lambda>child. Kind child = ''var_spec'') (NamedChildren node)) facts"

text \<open>The nodes of a function, without those of functions declared in it.\<close>

definition functionDeclaration :: "sitter_node \<Rightarrow> bool" where
  "functionDeclaration node \<longleftrightarrow> Kind node = ''function_declaration'' \<or> Kind node = ''method_declaration''"

definition nodesBelow :: "sitter_node \<Rightarrow> sitter_node list" where
  "nodesBelow node = filter (\<lambda>n. \<not> functionDeclaration n) (visitedBelow (\<lambda>n. \<not> functionDeclaration n) node)"

definition bodyNodes :: "sitter_node \<Rightarrow> sitter_node list" where
  "bodyNodes node = node # nodesBelow node"

definition appendLocalVariables :: "(str \<Rightarrow> str) \<Rightarrow> SourceFile \<Rightarrow> declared \<Rightarrow> Facts \<Rightarrow> declared list \<times> Facts" where
  "appendLocalVariables digest source owner facts =
     collectD (appendVariablesFromNames digest source (de_id owner) (de_qualifiedName owner))
       (filter (\<lambda>n. Kind n = ''short_var_declaration'' \<or> Kind n = ''var_spec'') (bodyNodes (de_node owner))) facts"

section \<open>References\<close>

text \<open>The first type identifier at or below a node, in the order of a visit.\<close>

definition embeddedTypeName :: "sitter_node \<Rightarrow> sitter_node option" where
  "embeddedTypeName node = find (\<lambda>n. Kind n = ''type_identifier'') (visited (\<lambda>_. True) node)"

definition receiverTypeName :: "SourceFile \<Rightarrow> sitter_node option \<Rightarrow> str option" where
  "receiverTypeName source receiver =
     (case receiver of
        None \<Rightarrow> None
      | Some node \<Rightarrow>
          map_option (Utf8Text (sf_Contents source)) (find (\<lambda>n. Kind n = ''type_identifier'') (visited (\<lambda>_. True) node)))"

definition symbolAt :: "(str \<Rightarrow> str) \<Rightarrow> SourceFile \<Rightarrow> str \<Rightarrow> RelationKind \<Rightarrow> sitter_node \<Rightarrow> SymbolReference" where
  "symbolAt digest source sourceID relation name =
     \<lparr>sr_SourceID = sourceID, sr_Target = Utf8Text (sf_Contents source) name, sr_Relation = relation,
      sr_Evidence = goEvidence digest source name\<rparr>"

definition interfaceMethodReferences :: "(str \<Rightarrow> str) \<Rightarrow> SourceFile \<Rightarrow> declared \<Rightarrow> sitter_node \<Rightarrow> SymbolReference list" where
  "interfaceMethodReferences digest source d interfaceType =
     concat (map (\<lambda>method.
       if Kind method = ''method_elem'' then
         (case ChildByFieldName method ''name'' of
            None \<Rightarrow> [] | Some name \<Rightarrow> [symbolAt digest source (de_id d) ''go:implements'' name])
       else if Kind method = ''type_elem'' then
         (case embeddedTypeName method of
            None \<Rightarrow> [] | Some name \<Rightarrow> [symbolAt digest source (de_id d) ''go:embeds'' name])
       else []) (NamedChildren interfaceType))"

text \<open>A call of a selector with an identifier before the dot.\<close>

definition packageCall :: "(str \<Rightarrow> str) \<Rightarrow> SourceFile \<Rightarrow> str \<Rightarrow> sitter_node \<Rightarrow> SymbolReference list" where
  "packageCall digest source sourceID node =
     (if Kind node \<noteq> ''call_expression'' then []
      else
        (case ChildByFieldName node ''function'' of
           None \<Rightarrow> []
         | Some function \<Rightarrow>
             if Kind function \<noteq> ''selector_expression'' then []
             else
               (case (ChildByFieldName function ''operand'', ChildByFieldName function ''field'') of
                  (Some operand, Some field) \<Rightarrow>
                    if Kind operand = ''identifier'' \<and> Kind field = ''field_identifier'' then
                      [\<lparr>sr_SourceID = sourceID,
                        sr_Target = Utf8Text (sf_Contents source) operand @ ''.'' @ Utf8Text (sf_Contents source) field,
                        sr_Relation = ''go:calls'', sr_Evidence = goEvidence digest source field\<rparr>]
                    else []
                | _ \<Rightarrow> [])))"

definition packageCallReferences :: "(str \<Rightarrow> str) \<Rightarrow> SourceFile \<Rightarrow> declared \<Rightarrow> SymbolReference list" where
  "packageCallReferences digest source owner =
     concat (map (packageCall digest source (de_id owner)) (bodyNodes (de_node owner)))"

definition importReference :: "SourceFile \<Rightarrow> str \<Rightarrow> sitter_node \<Rightarrow> UnresolvedReference list" where
  "importReference source fileID node =
     (if Kind node \<noteq> ''import_spec'' then []
      else
        (case ChildByFieldName node ''path'' of
           None \<Rightarrow> []
         | Some pathNode \<Rightarrow>
             (case Unquote (Utf8Text (sf_Contents source) pathNode) of
                None \<Rightarrow> []
              | Some value \<Rightarrow>
                  [\<lparr>ur_SourceID = fileID, ur_Target = value, ur_Kind = ModuleReferenceImport, ur_Ambiguous = False, ur_Bindings = []\<rparr>])))"

definition collectModuleReferences :: "SourceFile \<Rightarrow> sitter_node \<Rightarrow> str \<Rightarrow> UnresolvedReference list" where
  "collectModuleReferences source root fileID = concat (map (importReference source fileID) (visited (\<lambda>_. True) root))"

definition exportedSurfaces :: "declared list \<Rightarrow> ExportedSurface list" where
  "exportedSurfaces ds =
     map (\<lambda>d. \<lparr>es_NodeID = de_id d, es_Name = de_name d\<rparr>)
       (filter (\<lambda>d. \<not> (de_name d = [] \<or> hd (de_name d) < CHR ''A'' \<or> hd (de_name d) > CHR ''Z'')) ds)"

text \<open>The edges of the names used in a function that are not the names of declarations.\<close>

definition nameReference :: "(str \<Rightarrow> str) \<Rightarrow> SourceFile \<Rightarrow> str \<Rightarrow> (str \<rightharpoonup> declared) \<Rightarrow> (nat \<rightharpoonup> nat) \<Rightarrow> sitter_node \<Rightarrow> Edge list" where
  "nameReference digest source sourceID byName names child =
     (if (Kind child = ''identifier'' \<or> Kind child = ''type_identifier'') \<and> \<not> isDeclarationName names child
      then referenceEdge (goEvidence digest source) (sf_Contents source) sourceID byName child else [])"

definition appendReferencesFromNode :: "(str \<Rightarrow> str) \<Rightarrow> SourceFile \<Rightarrow> sitter_node \<Rightarrow> str \<Rightarrow> (str \<rightharpoonup> declared) \<Rightarrow> (nat \<rightharpoonup> nat) \<Rightarrow>
    Facts \<Rightarrow> Facts" where
  "appendReferencesFromNode digest source node sourceID byName names facts =
     facts\<lparr>f_Edges := f_Edges facts @ concat (map (nameReference digest source sourceID byName names) (nodesBelow node))\<rparr>"

definition scopeOf :: "declared list \<Rightarrow> declared list \<Rightarrow> str \<rightharpoonup> declared" where
  "scopeOf packageDeclarations locals = declarationsByName (packageDeclarations @ locals)"

definition appendLocalReferences :: "(str \<Rightarrow> str) \<Rightarrow> SourceFile \<Rightarrow> declared list \<Rightarrow> declared list \<Rightarrow> (str \<rightharpoonup> declared list) \<Rightarrow>
    Facts \<Rightarrow> Facts" where
  "appendLocalReferences digest source owners ds localDeclarations facts =
     (let packageDeclarations = filter (\<lambda>d. Kind (de_node d) \<noteq> ''identifier'') ds;
          names = declarationNames ds in
      fold (\<lambda>owner facts.
        let locals = (case localDeclarations (de_id owner) of None \<Rightarrow> [] | Some locals \<Rightarrow> locals) in
        appendReferencesFromNode digest source (de_node owner) (de_id owner) (scopeOf packageDeclarations locals) names facts)
        owners facts)"

section \<open>Extraction\<close>

record topLevel =
  tl_declarations :: "declared list"
  tl_owners :: "declared list"
  tl_symbols :: "SymbolReference list"
  tl_facts :: Facts

text \<open>The three cases of the loop over the declarations of a file.\<close>

definition typeSpecification :: "(str \<Rightarrow> str) \<Rightarrow> SourceFile \<Rightarrow> str \<Rightarrow> str \<Rightarrow> sitter_node \<Rightarrow> topLevel \<Rightarrow> topLevel" where
  "typeSpecification digest source packageID packageQualifiedName specification st =
     (if Kind specification \<noteq> ''type_spec'' then st
      else
        (case ChildByFieldName specification ''name'' of
           None \<Rightarrow> st
         | Some name \<Rightarrow>
             (let (d, facts) = appendDeclaration digest source packageID packageQualifiedName ''go:type''
                    (Utf8Text (sf_Contents source) name) specification name (tl_facts st);
                  symbols = (case ChildByFieldName specification ''type'' of
                     None \<Rightarrow> []
                   | Some typeNode \<Rightarrow> if Kind typeNode = ''interface_type'' then interfaceMethodReferences digest source d typeNode else [])
              in st\<lparr>tl_declarations := tl_declarations st @ [d], tl_symbols := tl_symbols st @ symbols, tl_facts := facts\<rparr>)))"

definition functionOwner :: "(str \<Rightarrow> str) \<Rightarrow> SourceFile \<Rightarrow> str \<Rightarrow> str \<Rightarrow> sitter_node \<Rightarrow> topLevel \<Rightarrow> topLevel" where
  "functionOwner digest source packageID packageQualifiedName child st =
     (case ChildByFieldName child ''name'' of
        None \<Rightarrow> st
      | Some name \<Rightarrow>
          let add = (\<lambda>kind qualifiedName.
            let (d, facts) = appendDeclaration digest source packageID qualifiedName kind
                  (Utf8Text (sf_Contents source) name) child name (tl_facts st)
            in st\<lparr>tl_declarations := tl_declarations st @ [d], tl_owners := tl_owners st @ [d], tl_facts := facts\<rparr>) in
          if Kind child = ''method_declaration'' then
            (case receiverTypeName source (ChildByFieldName child ''receiver'') of
               None \<Rightarrow> st
             | Some receiverType \<Rightarrow> add ''go:method'' (packageQualifiedName @ ''.'' @ receiverType))
          else add ''go:function'' packageQualifiedName)"

definition topLevelDeclaration :: "(str \<Rightarrow> str) \<Rightarrow> SourceFile \<Rightarrow> str \<Rightarrow> str \<Rightarrow> sitter_node \<Rightarrow> topLevel \<Rightarrow> topLevel" where
  "topLevelDeclaration digest source packageID packageQualifiedName child st =
     (if Kind child = ''type_declaration'' then
        fold (typeSpecification digest source packageID packageQualifiedName) (NamedChildren child) st
      else if Kind child = ''var_declaration'' then
        (let (ds, facts) = appendVariables digest source packageID packageQualifiedName child (tl_facts st)
         in st\<lparr>tl_declarations := tl_declarations st @ ds, tl_facts := facts\<rparr>)
      else if functionDeclaration child then functionOwner digest source packageID packageQualifiedName child st
      else st)"

text \<open>The local variables of every owner: all of them, and those of each by the ID of the owner.\<close>

fun ownerLocals :: "(str \<Rightarrow> str) \<Rightarrow> SourceFile \<Rightarrow> declared list \<Rightarrow> (str \<rightharpoonup> declared list) \<Rightarrow> Facts \<Rightarrow>
    declared list \<times> (str \<rightharpoonup> declared list) \<times> Facts" where
  "ownerLocals digest source [] localDeclarations facts = ([], localDeclarations, facts)"
| "ownerLocals digest source (owner # owners) localDeclarations facts =
     (let (locals, facts') = appendLocalVariables digest source owner facts;
          (ds, rest) = ownerLocals digest source owners (localDeclarations(de_id owner \<mapsto> locals)) facts'
      in (locals @ ds, rest))"

definition packageFacts :: "(str \<Rightarrow> str) \<Rightarrow> SourceFile \<Rightarrow> str \<Rightarrow> sitter_node \<Rightarrow> sitter_node \<Rightarrow> Facts \<Rightarrow> Facts" where
  "packageFacts digest source fileID packageClause packageName facts =
     (let evidence = goEvidence digest source packageClause;
          packageID = NewNodeID digest ''go:package'' (ev_Span evidence);
          label = Utf8Text (sf_Contents source) packageName in
      addEdge \<lparr>e_SourceID = fileID, e_TargetID = packageID, e_Relation = ''defines'', e_Evidence = evidence\<rparr>
        (addNode \<lparr>n_ID = packageID, n_Kind = ''go:package'', n_Label = label,
           n_QualifiedName = sf_SourcePath source @ ''::'' @ label, n_Evidence = evidence\<rparr> facts))"

definition goTopLevel :: "(str \<Rightarrow> str) \<Rightarrow> SourceFile \<Rightarrow> sitter_node \<Rightarrow> sitter_node \<Rightarrow> sitter_node \<Rightarrow> topLevel" where
  "goTopLevel digest source root packageClause packageName =
     (let fileEvidence = goEvidence digest source root;
          fileID = NewNodeID digest ''file'' (ev_Span fileEvidence);
          facts = packageFacts digest source fileID packageClause packageName (fileFacts digest source fileEvidence);
          packageID = NewNodeID digest ''go:package'' (ev_Span (goEvidence digest source packageClause));
          packageQualifiedName = sf_SourcePath source @ ''::'' @ Utf8Text (sf_Contents source) packageName in
      fold (topLevelDeclaration digest source packageID packageQualifiedName) (NamedChildren root)
        \<lparr>tl_declarations = [], tl_owners = [], tl_symbols = [], tl_facts = facts\<rparr>)"

definition goInput :: "(str \<Rightarrow> str) \<Rightarrow> SourceFile \<Rightarrow> sitter_node \<Rightarrow> sitter_node \<Rightarrow> sitter_node \<Rightarrow> ContributionInput" where
  "goInput digest source root packageClause packageName =
     (let st = goTopLevel digest source root packageClause packageName;
          (locals, localDeclarations, facts) = ownerLocals digest source (tl_owners st) Map.empty (tl_facts st);
          ds = tl_declarations st @ locals in
      \<lparr>ci_ProjectID = sf_ProjectID source, ci_SourcePath = sf_SourcePath source, ci_Metadata = ex_Metadata goExtractor,
       ci_Facts = appendLocalReferences digest source (tl_owners st) ds localDeclarations facts,
       ci_UnresolvedReferences = collectModuleReferences source root (NewNodeID digest ''file'' (spanOf source root)),
       ci_SymbolReferences = tl_symbols st @ concat (map (packageCallReferences digest source) (tl_owners st)),
       ci_ExportedSurfaces = exportedSurfaces ds, ci_Dependencies = [], ci_Diagnostics = []\<rparr>)"

definition goExtract :: "(str \<Rightarrow> str) \<Rightarrow> 'e + (str \<Rightarrow> sitter_node) \<Rightarrow> SourceFile \<Rightarrow> 'e extract_error + Contribution" where
  "goExtract digest parser source =
     (if sf_ProjectID source = [] then Inl ProjectIDEmpty
      else if sf_SourcePath source = [] then Inl SourcePathMissing
      else
        bindE (liftE LanguageUnset parser) (\<lambda>parse.
        let root = parse (sf_Contents source) in
        if at_HasError (attributesOf root) then Inl (SourceUnparsed (sf_SourcePath source))
        else
          bindE (liftE VocabularyUnavailable (ex_Vocabulary goExtractor)) (\<lambda>vocabulary.
          (case find (\<lambda>child. Kind child = ''package_clause'') (NamedChildren root) of
             None \<Rightarrow> Inl (PackageClauseMissing (sf_SourcePath source))
           | Some packageClause \<Rightarrow>
               (case NamedChildren packageClause of
                  [packageName] \<Rightarrow>
                    liftE ContributionInvalid (NewContribution vocabulary (goInput digest source root packageClause packageName))
                | _ \<Rightarrow> Inl (PackageNameMissing (sf_SourcePath source)))))))"

section \<open>Every step declares valid facts\<close>

definition goKinds :: "NodeKind list" where
  "goKinds = [''go:package'', ''go:type'', ''go:function'', ''go:method'', ''go:variable'']"

definition goDeclared :: "NodeKind set" where
  "goDeclared = {''go:type'', ''go:function'', ''go:method'', ''go:variable''}"

text \<open>Variables are declared at identifiers, types at their specifications and functions at their own syntax.\<close>

definition goDecl :: "sitter_node \<Rightarrow> NodeKind \<Rightarrow> bool" where
  "goDecl node kind \<longleftrightarrow> kind \<in> goDeclared \<and> (kind = ''go:variable'' \<longleftrightarrow> Kind node = ''identifier'') \<and> (kind = ''go:type'' \<longleftrightarrow> Kind node = ''type_spec'')"

abbreviation goParent :: "Facts \<Rightarrow> str \<Rightarrow> bool" where
  "goParent facts i \<equiv> kindAt (insert ''file'' (set goKinds)) (f_Nodes facts) i"

lemma goParent_mono: "goParent facts i \<Longrightarrow> set (f_Nodes facts) \<subseteq> set (f_Nodes facts') \<Longrightarrow> goParent facts' i"
  by (erule kindAt_mono) auto

lemma goParent_declared: "kindAt goDeclared (f_Nodes facts) i \<Longrightarrow> goParent facts i"
  by (erule kindAt_mono) (auto simp: goDeclared_def goKinds_def)

lemma goDecl_kindAt: "declares v goDecl facts ds facts' \<Longrightarrow> d \<in> set ds \<Longrightarrow> kindAt goDeclared (f_Nodes facts') (de_id d)"
  by (erule declares_node) (auto simp: kindAt_def goDecl_def)

lemma goEvidence_ok: "positioned node \<Longrightarrow> sf_SourcePath source \<noteq> [] \<Longrightarrow> evidence_ok (goEvidence digest source node)"
  unfolding goEvidence_def by (rule evidenceFor_ok) simp_all

lemma appendDeclaration_declares:
  assumes "vocabularyFor v goKinds" "sf_SourcePath source \<noteq> []" "goDecl node kind" "positioned node" "goParent facts parentID"
    "appendDeclaration digest source parentID parentQualifiedName kind name node nameNode facts = (d, facts')"
  shows "declares v goDecl facts [d] facts'"
  using assms(3)
  by (intro declareNode_declares [where P = goDecl, OF assms(1) _ assms(3) goEvidence_ok [OF assms(4,2)] assms(5) assms(6) [unfolded appendDeclaration_def]])
    (auto simp: goDecl_def goDeclared_def goKinds_def)

lemma appendDeclaration_fields:
  assumes "appendDeclaration digest source parentID parentQualifiedName kind name node nameNode facts = (d, facts')"
  shows "de_node d = node" "de_name d = name" "de_id d = NewNodeID digest kind (spanOf source node)"
  using assms by (auto simp: appendDeclaration_def declareNode_def goEvidence_def Let_def)

lemma appendVariable_declares:
  assumes "vocabularyFor v goKinds" "sf_SourcePath source \<noteq> []" "positioned node" "goParent facts parentID" "Kind node = ''identifier''"
  shows "declares v goDecl facts (fst (appendVariable digest source parentID parentQualifiedName node facts))
    (snd (appendVariable digest source parentID parentQualifiedName node facts))"
  using appendDeclaration_declares [OF assms(1,2) _ assms(3,4), of "''go:variable''"] assms(5)
  by (simp add: appendVariable_def Let_def goDecl_def goDeclared_def split: prod.split)

lemma identifiersIn_subnodes: "n \<in> set (identifiersIn node) \<Longrightarrow> n \<in> set (subnodes node)"
  by (auto simp: identifiersIn_def dest: visited_subnodes)

lemma appendVariablesFromNames_defines:
  "definesAll parentID facts (fst (appendVariablesFromNames digest source parentID q node facts))
    (snd (appendVariablesFromNames digest source parentID q node facts))"
proof -
  have "definesAll parentID F (fst (appendVariable digest source parentID q i F)) (snd (appendVariable digest source parentID q i F))" for i F
    using declareNode_defines [of digest _ parentID "''go:variable''"]
    by (auto simp: appendVariable_def appendDeclaration_def Let_def definesAll_def split: prod.split)
  then show ?thesis
    by (cases "NamedChildren node") (simp_all add: appendVariablesFromNames_def collectD_defines, simp add: definesAll_def)
qed

lemma appendVariablesFromNames_declares:
  assumes "vocabularyFor v goKinds" "sf_SourcePath source \<noteq> []" "\<forall>n \<in> set (subnodes node). positioned n" "goParent facts parentID"
  shows "declares v goDecl facts (fst (appendVariablesFromNames digest source parentID parentQualifiedName node facts))
    (snd (appendVariablesFromNames digest source parentID parentQualifiedName node facts))"
proof (cases "NamedChildren node")
  case (Cons first rest)
  have "positioned n" "Kind n = ''identifier''" if "n \<in> set (identifiersIn first)" for n
    using assms(3) subnodes_trans [OF identifiersIn_subnodes [OF that] subnodes_named [of first node]] Cons that
    by (simp_all add: identifiersIn_def)
  then show ?thesis
    using assms(4) by (auto simp: appendVariablesFromNames_def Cons intro!: collectD_declares appendVariable_declares [OF assms(1,2)] elim: goParent_mono)
qed (simp add: appendVariablesFromNames_def)

lemma variables_declare:
  assumes "vocabularyFor v goKinds" "sf_SourcePath source \<noteq> []" "\<forall>n \<in> set (subnodes t). positioned n" "goParent facts parentID"
    "set xs \<subseteq> set (subnodes t)"
  shows "declares v goDecl facts (fst (collectD (appendVariablesFromNames digest source parentID q) xs facts))
    (snd (collectD (appendVariablesFromNames digest source parentID q) xs facts))"
proof (rule collectD_declares)
  fix x and F :: Facts
  assume x: "x \<in> set xs" "set (f_Nodes facts) \<subseteq> set (f_Nodes F)"
  have "\<forall>n \<in> set (subnodes x). positioned n" using assms(3,5) x(1) subnodes_trans by blast
  then show "declares v goDecl F (fst (appendVariablesFromNames digest source parentID q x F))
      (snd (appendVariablesFromNames digest source parentID q x F))"
    by (rule appendVariablesFromNames_declares [OF assms(1,2) _ goParent_mono [OF assms(4) x(2)]])
qed

lemma bodyNodes_subnodes: "set (bodyNodes t) \<subseteq> set (subnodes t)"
  by (auto simp: bodyNodes_def nodesBelow_def dest: visitedBelow_subnodes)

definition symbolOK :: "str set \<Rightarrow> SymbolReference \<Rightarrow> bool" where
  "symbolOK ids r \<longleftrightarrow> sr_SourceID r \<in> ids \<and> sr_Target r \<noteq> [] \<and> sr_Relation r \<noteq> [] \<and> evidence_ok (sr_Evidence r)"

text \<open>A step of the loop over the declarations of a file.\<close>

definition fileStep :: "Vocabulary \<Rightarrow> sitter_node \<Rightarrow> topLevel \<Rightarrow> topLevel \<Rightarrow> bool" where
  "fileStep v root st st' \<longleftrightarrow>
     (\<exists>ds os rs. tl_declarations st' = tl_declarations st @ ds \<and> tl_owners st' = tl_owners st @ os \<and> tl_symbols st' = tl_symbols st @ rs \<and>
        declares v goDecl (tl_facts st) ds (tl_facts st') \<and> set os \<subseteq> set ds \<and> de_node ` set os \<subseteq> set (subnodes root) \<and>
        (\<forall>w \<in> set os. functionDeclaration (de_node w)) \<and>
        (\<forall>r \<in> set rs. symbolOK (de_id ` set ds) r))"

lemma fileStep_refl [simp]: "fileStep v root st st"
  unfolding fileStep_def by (intro exI [of _ "[]"]) simp

lemma symbolOK_mono: "symbolOK A r \<Longrightarrow> A \<subseteq> B \<Longrightarrow> symbolOK B r"
  by (auto simp: symbolOK_def)

lemma fileStep_trans:
  assumes "fileStep v root st st'" "fileStep v root st' st''"
  shows "fileStep v root st st''"
proof -
  from assms(1) obtain ds os rs where 1: "tl_declarations st' = tl_declarations st @ ds" "tl_owners st' = tl_owners st @ os"
    "tl_symbols st' = tl_symbols st @ rs" "declares v goDecl (tl_facts st) ds (tl_facts st')" "set os \<subseteq> set ds"
    "de_node ` set os \<subseteq> set (subnodes root)" "\<forall>w \<in> set os. functionDeclaration (de_node w)" "\<forall>r \<in> set rs. symbolOK (de_id ` set ds) r" unfolding fileStep_def by blast
  from assms(2) obtain ds' os' rs' where 2: "tl_declarations st'' = tl_declarations st' @ ds'" "tl_owners st'' = tl_owners st' @ os'"
    "tl_symbols st'' = tl_symbols st' @ rs'" "declares v goDecl (tl_facts st') ds' (tl_facts st'')" "set os' \<subseteq> set ds'"
    "de_node ` set os' \<subseteq> set (subnodes root)" "\<forall>w \<in> set os'. functionDeclaration (de_node w)" "\<forall>r \<in> set rs'. symbolOK (de_id ` set ds') r" unfolding fileStep_def by blast
  have "\<forall>r \<in> set (rs @ rs'). symbolOK (de_id ` set (ds @ ds')) r"
    using 1(8) 2(8) by (auto intro: symbolOK_mono)
  then show ?thesis unfolding fileStep_def using 1 2 declares_trans [OF 1(4) 2(4)]
    by (intro exI [of _ "ds @ ds'"] exI [of _ "os @ os'"] exI [of _ "rs @ rs'"]) auto
qed

lemma fileStep_nodes: "fileStep v root st st' \<Longrightarrow> set (f_Nodes (tl_facts st)) \<subseteq> set (f_Nodes (tl_facts st'))"
  by (auto simp: fileStep_def dest: declares_subset)

lemma fold_fileStep:
  assumes "\<And>x st'. x \<in> set xs \<Longrightarrow> set (f_Nodes (tl_facts st)) \<subseteq> set (f_Nodes (tl_facts st')) \<Longrightarrow> fileStep v root st' (f x st')"
  shows "fileStep v root st (fold f xs st)"
  using assms
proof (induction xs arbitrary: st)
  case (Cons x xs)
  have first: "fileStep v root st (f x st)" using Cons.prems by simp
  have "fileStep v root (f x st) (fold f xs (f x st))"
    by (rule Cons.IH) (use Cons.prems fileStep_nodes [OF first] in auto)
  with fileStep_trans [OF first] show ?case by simp
qed simp

section \<open>The declarations of a file\<close>

lemma symbolAt_ok:
  assumes "positioned name" "sf_SourcePath source \<noteq> []" "Utf8Text (sf_Contents source) name \<noteq> []" "relation \<noteq> []" "i \<in> ids"
  shows "symbolOK ids (symbolAt digest source i relation name)"
  using assms goEvidence_ok [OF assms(1,2)] by (simp add: symbolOK_def symbolAt_def)

lemma typeIdentifier_spelled:
  assumes "wellParsed contents root" "t \<in> set (subnodes root)" "t \<noteq> root" "find (\<lambda>n. Kind n = ''type_identifier'') (visited (\<lambda>_. True) t) = Some n"
    "\<forall>n \<in> set (subnodes t). n \<noteq> root"
  shows "n \<in> set (subnodes root)" "Utf8Text contents n \<noteq> []"
proof -
  from assms(4) have n: "n \<in> set (subnodes t)" "Kind n = ''type_identifier''" by (auto dest!: find_SomeD visited_subnodes)
  then show "n \<in> set (subnodes root)" using assms(2) subnodes_trans by blast
  then show "Utf8Text contents n \<noteq> []" using wellParsed_identifier [OF assms(1)] n assms(5) by simp
qed

lemma interfaceMethodReferences_ok:
  assumes "wellParsed (sf_Contents source) root" "t \<in> set (subnodes root)" "t \<noteq> root" "sf_SourcePath source \<noteq> []"
    "r \<in> set (interfaceMethodReferences digest source d t)"
  shows "symbolOK {de_id d} r"
proof -
  from assms(2,3) obtain p where p: "p \<in> set (subnodes root)" "t \<in> set (Children p)" using subnodes_parent by blast
  then have smaller: "size t < size root" using size_Children [of t p] size_subnodes [of p root] by simp
  from assms(5) obtain m name relation where m: "m \<in> set (NamedChildren t)" "r = symbolAt digest source (de_id d) relation name" "relation \<noteq> []"
    "ChildByFieldName m ''name'' = Some name \<or> embeddedTypeName m = Some name"
    by (auto simp: interfaceMethodReferences_def split: if_splits option.splits)
  have sub: "m \<in> set (subnodes root)" using m(1) assms(2) subnodes_named subnodes_trans by blast
  have below: "n \<noteq> root" if "n \<in> set (subnodes m)" for n
    using size_subnodes [OF that] size_NamedChildren [OF m(1)] smaller by auto
  have "name \<in> set (subnodes root) \<and> Utf8Text (sf_Contents source) name \<noteq> []"
    using m(4) wellParsed_field [OF assms(1) sub] subnodes_trans [OF subnodes_field sub]
      typeIdentifier_spelled [OF assms(1) sub] below unfolding embeddedTypeName_def by auto
  then show ?thesis unfolding m(2) using wellParsed_positioned [OF assms(1)] by (intro symbolAt_ok assms(4) m(3)) auto
qed

lemma typeSpecification_step:
  assumes "vocabularyFor v goKinds" "wellParsed (sf_Contents source) root" "sf_SourcePath source \<noteq> []"
    "goParent (tl_facts st) packageID" "x \<in> set (subnodes root)" "x \<noteq> root"
  shows "fileStep v root st (typeSpecification digest source packageID q x st)"
proof (cases "Kind x = ''type_spec''")
  case True
  note pos = wellParsed_positioned [OF assms(2)]
  show ?thesis
  proof (cases "ChildByFieldName x ''name''")
    case (Some name)
    obtain d facts where d: "appendDeclaration digest source packageID q ''go:type'' (Utf8Text (sf_Contents source) name) x name (tl_facts st) = (d, facts)"
      by (metis surj_pair)
    have step: "declares v goDecl (tl_facts st) [d] facts"
      by (rule appendDeclaration_declares [OF assms(1,3) _ pos [OF assms(5)] assms(4) d]) (simp add: goDecl_def goDeclared_def True)
    define rs where "rs = (case ChildByFieldName x ''type'' of
       None \<Rightarrow> [] | Some t \<Rightarrow> if Kind t = ''interface_type'' then interfaceMethodReferences digest source d t else [])"
    have "symbolOK (de_id ` set [d]) r" if "r \<in> set rs" for r
    proof -
      from that obtain t where t: "ChildByFieldName x ''type'' = Some t" "r \<in> set (interfaceMethodReferences digest source d t)"
        by (cases "ChildByFieldName x ''type''") (auto simp: rs_def split: if_splits)
      have sub: "t \<in> set (subnodes root)" using subnodes_field [OF t(1)] assms(5) subnodes_trans by blast
      have "t \<noteq> root" using size_ChildByFieldName [OF t(1)] size_subnodes [OF assms(5)] by auto
      then show ?thesis using interfaceMethodReferences_ok [OF assms(2) sub _ assms(3) t(2)] by simp
    qed
    then have "fileStep v root st (st\<lparr>tl_declarations := tl_declarations st @ [d], tl_symbols := tl_symbols st @ rs, tl_facts := facts\<rparr>)"
      unfolding fileStep_def using step by (intro exI [of _ "[d]"] exI [of _ "[]"] exI [of _ rs]) simp
    then show ?thesis by (simp add: typeSpecification_def True Some d rs_def Let_def)
  qed (simp add: typeSpecification_def True)
qed (simp add: typeSpecification_def)

lemma functionOwner_step:
  assumes "vocabularyFor v goKinds" "wellParsed (sf_Contents source) root" "sf_SourcePath source \<noteq> []"
    "goParent (tl_facts st) packageID" "x \<in> set (subnodes root)" "functionDeclaration x"
  shows "fileStep v root st (functionOwner digest source packageID q x st)"
proof (cases "ChildByFieldName x ''name''")
  case (Some name)
  note pos = wellParsed_positioned [OF assms(2) assms(5)]
  have add: "fileStep v root st (case appendDeclaration digest source packageID q' kind (Utf8Text (sf_Contents source) name) x name (tl_facts st) of
      (d, facts) \<Rightarrow> st\<lparr>tl_declarations := tl_declarations st @ [d], tl_owners := tl_owners st @ [d], tl_facts := facts\<rparr>)"
    if kind: "goDecl x kind" for kind q'
  proof -
    obtain d facts where d: "appendDeclaration digest source packageID q' kind (Utf8Text (sf_Contents source) name) x name (tl_facts st) = (d, facts)"
      by (metis surj_pair)
    have "declares v goDecl (tl_facts st) [d] facts"
      by (rule appendDeclaration_declares [OF assms(1,3) kind pos assms(4) d])
    then show ?thesis unfolding fileStep_def d using appendDeclaration_fields(1) [OF d] assms(5,6)
      by (intro exI [of _ "[d]"] exI [of _ "[d]"] exI [of _ "[]"]) simp
  qed
  have "goDecl x ''go:function''" "goDecl x ''go:method''" using assms(6) by (auto simp: functionDeclaration_def goDecl_def goDeclared_def)
  then show ?thesis using add [of "''go:function''"] add [of "''go:method''"]
    by (auto simp: functionOwner_def Some Let_def split: option.split)
qed (simp add: functionOwner_def)

lemma topLevelDeclaration_step:
  assumes "vocabularyFor v goKinds" "wellParsed (sf_Contents source) root" "sf_SourcePath source \<noteq> []"
    "goParent (tl_facts st) packageID" "x \<in> set (NamedChildren root)"
  shows "fileStep v root st (topLevelDeclaration digest source packageID q x st)"
proof -
  have x: "x \<in> set (subnodes root)" using assms(5) by (rule subnodes_named)
  consider "Kind x = ''type_declaration''" | "Kind x = ''var_declaration''" | "functionDeclaration x" |
    "Kind x \<noteq> ''type_declaration''" "Kind x \<noteq> ''var_declaration''" "\<not> functionDeclaration x" by blast
  then show ?thesis
  proof cases
    case 1
    have "fileStep v root st (fold (typeSpecification digest source packageID q) (NamedChildren x) st)"
    proof (rule fold_fileStep)
      fix y and st' :: topLevel
      assume y: "y \<in> set (NamedChildren x)" "set (f_Nodes (tl_facts st)) \<subseteq> set (f_Nodes (tl_facts st'))"
      have "y \<in> set (subnodes root)" using y(1) x subnodes_named subnodes_trans by blast
      moreover have "y \<noteq> root" using size_NamedChildren [OF y(1)] size_NamedChildren [OF assms(5)] by auto
      ultimately show "fileStep v root st' (typeSpecification digest source packageID q y st')"
        by (intro typeSpecification_step [OF assms(1-3) goParent_mono [OF assms(4) y(2)]])
    qed
    then show ?thesis using 1 by (simp add: topLevelDeclaration_def)
  next
    case 2
    let ?xs = "filter (\<lambda>child. Kind child = ''var_spec'') (NamedChildren x)"
    have "\<forall>n \<in> set (subnodes x). positioned n" using wellParsed_positioned [OF assms(2)] x subnodes_trans by blast
    then have "declares v goDecl (tl_facts st) (fst (appendVariables digest source packageID q x (tl_facts st)))
        (snd (appendVariables digest source packageID q x (tl_facts st)))"
      unfolding appendVariables_def using subnodes_named by (intro variables_declare [OF assms(1,3) _ assms(4)]) auto
    then have "fileStep v root st (case appendVariables digest source packageID q x (tl_facts st) of
        (ds, facts) \<Rightarrow> st\<lparr>tl_declarations := tl_declarations st @ ds, tl_facts := facts\<rparr>)"
      unfolding fileStep_def case_prod_beta
      by (intro exI [of _ "fst (appendVariables digest source packageID q x (tl_facts st))"] exI [of _ "[]"]) simp
    then show ?thesis using 2 by (simp add: topLevelDeclaration_def)
  next
    case 3
    then show ?thesis using functionOwner_step [OF assms(1-4) x 3] by (auto simp: topLevelDeclaration_def functionDeclaration_def)
  qed (simp add: topLevelDeclaration_def)
qed

lemma fst_snd_collectD: "(case collectD f xs F of (ds, F') \<Rightarrow> g ds F') = g (fst (collectD f xs F)) (snd (collectD f xs F))"
  by (simp add: case_prod_beta)

lemma ownerLocals_declares:
  assumes "vocabularyFor v goKinds" "wellParsed (sf_Contents source) root" "sf_SourcePath source \<noteq> []"
    "\<forall>w \<in> set owners. de_node w \<in> set (subnodes root) \<and> kindAt goDeclared (f_Nodes facts) (de_id w)"
    "ownerLocals digest source owners m facts = (ds, m', facts')"
  shows "declares v goDecl facts ds facts'"
    "m' i = Some ls \<Longrightarrow> m i = Some ls \<or> set ls \<subseteq> set ds \<and> definesAll i facts ls facts'"
proof -
  have "declares v goDecl facts ds facts' \<and> (\<forall>i ls. m' i = Some ls \<longrightarrow> m i = Some ls \<or> set ls \<subseteq> set ds \<and> definesAll i facts ls facts')"
    using assms(4,5)
  proof (induction owners arbitrary: m facts ds)
    case (Cons owner owners)
    define ls where "ls = fst (appendLocalVariables digest source owner facts)"
    define F where "F = snd (appendLocalVariables digest source owner facts)"
    obtain es where rest: "ownerLocals digest source owners (m(de_id owner \<mapsto> ls)) F = (es, m', facts')" and ds: "ds = ls @ es"
      using Cons.prems(2) by (auto simp: ls_def F_def case_prod_beta prod_eq_iff)
    have "de_node owner \<in> set (subnodes root)" using Cons.prems(1) by simp
    then have "\<forall>n \<in> set (subnodes (de_node owner)). positioned n"
      using wellParsed_positioned [OF assms(2)] subnodes_trans by blast
    moreover have "goParent facts (de_id owner)" using Cons.prems(1) by (intro goParent_declared) simp
    ultimately have first: "declares v goDecl facts ls F"
      unfolding ls_def F_def appendLocalVariables_def using bodyNodes_subnodes [of "de_node owner"]
      by (intro variables_declare [OF assms(1,3)]) auto
    have "\<forall>w \<in> set owners. de_node w \<in> set (subnodes root) \<and> kindAt goDeclared (f_Nodes F) (de_id w)"
      using Cons.prems(1) declares_subset [OF first] by (auto elim: kindAt_mono)
    from Cons.IH [OF this rest] have IH: "declares v goDecl F es facts'"
      "m' i = Some ks \<Longrightarrow> (m(de_id owner \<mapsto> ls)) i = Some ks \<or> set ks \<subseteq> set es \<and> definesAll i F ks facts'" for i ks by blast+
    have own: "definesAll (de_id owner) facts ls F"
      unfolding ls_def F_def appendLocalVariables_def by (rule collectD_defines) (rule appendVariablesFromNames_defines)
    have edges: "set (f_Edges F) \<subseteq> set (f_Edges facts')" "set (f_Edges facts) \<subseteq> set (f_Edges F)"
      using IH(1) first by (simp_all add: declares_def)
    have "definesAll (de_id owner) facts ls facts'" "definesAll i F ks facts' \<Longrightarrow> definesAll i facts ks facts'" for i ks
      using own edges unfolding definesAll_def by blast+
    then have "m i = Some ks \<or> set ks \<subseteq> set ds \<and> definesAll i facts ks facts'" if "m' i = Some ks" for i ks
      using IH(2) [OF that] by (auto simp: ds split: if_splits)
    then show ?case using declares_trans [OF first IH(1)] unfolding ds by blast
  qed simp
  then show "declares v goDecl facts ds facts'" "m' i = Some ls \<Longrightarrow> m i = Some ls \<or> set ls \<subseteq> set ds \<and> definesAll i facts ls facts'" by blast+
qed

section \<open>References between declarations\<close>

text \<open>What a function refers to, by the names it uses: its own last variable of the name, or else the last declaration of the package.\<close>

definition functionReferences :: "(str \<Rightarrow> str) \<Rightarrow> SourceFile \<Rightarrow> declared list \<Rightarrow> (str \<rightharpoonup> declared list) \<Rightarrow> declared \<Rightarrow> Edge list" where
  "functionReferences digest source ds localDeclarations owner =
     concat (map (nameReference digest source (de_id owner)
         (scopeOf (filter (\<lambda>d. Kind (de_node d) \<noteq> ''identifier'') ds)
           (case localDeclarations (de_id owner) of None \<Rightarrow> [] | Some locals \<Rightarrow> locals)) (declarationNames ds))
       (nodesBelow (de_node owner)))"

lemma appendLocalReferences_eq:
  "appendLocalReferences digest source owners ds m facts =
     facts\<lparr>f_Edges := f_Edges facts @ concat (map (functionReferences digest source ds m) owners)\<rparr>"
proof (induction owners arbitrary: facts)
  case (Cons owner owners)
  then show ?case
    by (simp add: appendLocalReferences_def appendReferencesFromNode_def functionReferences_def Let_def)
qed (simp add: appendLocalReferences_def Let_def)

lemma functionReferences_ok:
  assumes "vocabularyFor v goKinds" "wellParsed (sf_Contents source) root" "sf_SourcePath source \<noteq> []"
    "de_node owner \<in> set (subnodes root)" "kindAt goDeclared ns (de_id owner)"
    "\<forall>d \<in> set ds. kindAt goDeclared ns (de_id d)" "\<forall>ls. m (de_id owner) = Some ls \<longrightarrow> set ls \<subseteq> set ds"
    "e \<in> set (functionReferences digest source ds m owner)"
  shows "edge_ok v ns e"
proof -
  let ?scope = "scopeOf (filter (\<lambda>d. Kind (de_node d) \<noteq> ''identifier'') ds) (case m (de_id owner) of None \<Rightarrow> [] | Some locals \<Rightarrow> locals)"
  have scope: "d \<in> set ds" if "?scope x = Some d" for x d
    using declarationsByName_Some [OF that [unfolded scopeOf_def]] assms(7) by (cases "m (de_id owner)") auto
  from assms(8) obtain n where n: "n \<in> set (nodesBelow (de_node owner))"
    "e \<in> set (referenceEdge (goEvidence digest source) (sf_Contents source) (de_id owner) ?scope n)"
    by (auto simp: functionReferences_def nameReference_def split: if_splits)
  from n(2) obtain d where d: "?scope (Utf8Text (sf_Contents source) n) = Some d"
    "e = \<lparr>e_SourceID = de_id owner, e_TargetID = de_id d, e_Relation = ''references'', e_Evidence = goEvidence digest source n\<rparr>"
    unfolding referenceEdge_mem by blast
  have "n \<in> set (subnodes root)"
    using n(1) bodyNodes_subnodes [of "de_node owner"] assms(4) subnodes_trans by (auto simp: bodyNodes_def)
  then have "positioned n" by (rule wellParsed_positioned [OF assms(2)])
  moreover have "kindAt (insert ''file'' (set goKinds)) ns (de_id owner)" "kindAt (set goKinds) ns (de_id d)"
    using assms(5,6) scope [OF d(1)] by (auto elim!: kindAt_mono simp: goDeclared_def goKinds_def)
  ultimately show ?thesis unfolding d(2) by (intro declaration_edge_ok [OF assms(1)]) (simp_all add: goEvidence_ok assms(3))
qed

text \<open>A reference and the identifier it comes from.\<close>

definition referenceAt :: "(str \<Rightarrow> str) \<Rightarrow> SourceFile \<Rightarrow> sitter_node \<Rightarrow> declared list \<Rightarrow> Edge list \<Rightarrow> Edge \<Rightarrow> bool" where
  "referenceAt digest source root ds es e \<longleftrightarrow>
     (\<exists>w d i. w \<in> set ds \<and> functionDeclaration (de_node w) \<and> d \<in> set ds \<and> i \<in> set (subnodes root) \<and>
        Kind i \<in> {''identifier'', ''type_identifier''} \<and> e_SourceID e = de_id w \<and> e_TargetID e = de_id d \<and>
        e_Evidence e = goEvidence digest source i \<and> de_name d = Utf8Text (sf_Contents source) i \<and>
        (Kind (de_node d) = ''identifier'' \<longrightarrow>
           (\<exists>e' \<in> set es. e_SourceID e' = de_id w \<and> e_TargetID e' = de_id d \<and> e_Relation e' = ''defines'')))"

lemma functionReferences_at:
  assumes "de_node owner \<in> set (subnodes root)" "owner \<in> set ds" "functionDeclaration (de_node owner)"
    "\<forall>ls. m (de_id owner) = Some ls \<longrightarrow> set ls \<subseteq> set ds \<and> definesAll (de_id owner) facts ls facts'"
    "e \<in> set (functionReferences digest source ds m owner)"
  shows "referenceAt digest source root ds (f_Edges facts') e"
proof -
  let ?locals = "case m (de_id owner) of None \<Rightarrow> [] | Some locals \<Rightarrow> locals"
  let ?package = "filter (\<lambda>d. Kind (de_node d) \<noteq> ''identifier'') ds"
  from assms(5) obtain n where n: "n \<in> set (nodesBelow (de_node owner))" "Kind n \<in> {''identifier'', ''type_identifier''}"
    "e \<in> set (referenceEdge (goEvidence digest source) (sf_Contents source) (de_id owner) (scopeOf ?package ?locals) n)"
    by (auto simp: functionReferences_def nameReference_def split: if_splits)
  from n(3) obtain d where d: "scopeOf ?package ?locals (Utf8Text (sf_Contents source) n) = Some d"
    "e = \<lparr>e_SourceID = de_id owner, e_TargetID = de_id d, e_Relation = ''references'', e_Evidence = goEvidence digest source n\<rparr>"
    unfolding referenceEdge_mem by blast
  have found: "d \<in> set ?package \<union> set ?locals" "de_name d = Utf8Text (sf_Contents source) n"
    using declarationsByName_Some [OF d(1) [unfolded scopeOf_def]] by auto
  have local: "d \<in> set ds \<and> (\<exists>e' \<in> set (f_Edges facts'). e_SourceID e' = de_id owner \<and> e_TargetID e' = de_id d \<and> e_Relation e' = ''defines'')"
    if "d \<in> set ?locals" using that assms(4) by (cases "m (de_id owner)") (auto simp: definesAll_def)
  have "n \<in> set (subnodes root)"
    using n(1) bodyNodes_subnodes [of "de_node owner"] assms(1) subnodes_trans by (auto simp: bodyNodes_def)
  then show ?thesis unfolding referenceAt_def
    using assms(2,3) n(2) d(2) found local by (intro exI [of _ owner] exI [of _ d] exI [of _ n]) auto
qed

lemma packageCallReferences_ok:
  assumes "wellParsed (sf_Contents source) root" "sf_SourcePath source \<noteq> []" "de_node w \<in> set (subnodes root)"
    "r \<in> set (packageCallReferences digest source w)"
  shows "symbolOK {de_id w} r"
proof -
  from assms(4) obtain n where n: "n \<in> set (bodyNodes (de_node w))" "r \<in> set (packageCall digest source (de_id w) n)"
    by (auto simp: packageCallReferences_def)
  from n(2) obtain f y where f: "ChildByFieldName n ''function'' = Some f" "ChildByFieldName f ''field'' = Some y"
    and r: "sr_SourceID r = de_id w" "sr_Target r \<noteq> []" "sr_Relation r = ''go:calls''" "sr_Evidence r = goEvidence digest source y"
    by (auto simp: packageCall_def split: if_splits option.splits) metis
  have "n \<in> set (subnodes root)" using n(1) bodyNodes_subnodes assms(3) subnodes_trans by blast
  then have "y \<in> set (subnodes root)" using f subnodes_field subnodes_trans by blast
  then show ?thesis using r wellParsed_positioned [OF assms(1)] by (simp add: symbolOK_def goEvidence_ok assms(2))
qed

section \<open>The contribution of a file\<close>

lemma packageFacts_typed:
  assumes "vocabularyFor v goKinds" "evidence_ok (goEvidence digest source packageClause)" "typedFacts v facts"
    "kindAt {''file''} (f_Nodes facts) fileID"
  shows "typedFacts v (packageFacts digest source fileID packageClause packageName facts)"
proof -
  let ?facts = "packageFacts digest source fileID packageClause packageName facts"
  obtain n e where nodes: "f_Nodes ?facts = f_Nodes facts @ [n]" and edges: "f_Edges ?facts = f_Edges facts @ [e]"
    and n: "n_ID n = e_TargetID e" "n_ID n \<noteq> []" "n_Kind n = ''go:package''" "n_Evidence n = goEvidence digest source packageClause"
    and e: "e_SourceID e = fileID" "e_Relation e = ''defines''" "e_Evidence e = goEvidence digest source packageClause"
    by (simp add: packageFacts_def addEdge_def addNode_def Let_def)
  have "node_ok v n" using assms(1,2) n by (simp add: node_ok_def vocabularyFor_def goKinds_def)
  moreover have "edge_ok v (f_Nodes ?facts) e"
  proof (rule declaration_edge_ok [OF assms(1)])
    show "kindAt (insert ''file'' (set goKinds)) (f_Nodes ?facts) (e_SourceID e)"
      unfolding e(1) using assms(4) by (rule kindAt_mono) (auto simp: nodes)
    show "kindAt (set goKinds) (f_Nodes ?facts) (e_TargetID e)" using n by (simp add: nodes kindAt_def goKinds_def)
  qed (simp_all add: e assms(2))
  ultimately show ?thesis
    using assms(3) unfolding typedFacts_def nodes edges by (auto intro: edge_ok_mono)
qed

text \<open>The nodes of a file: the project, the file, its package, and one for each declaration.\<close>

definition goNodes :: "(str \<Rightarrow> str) \<Rightarrow> SourceFile \<Rightarrow> sitter_node \<Rightarrow> sitter_node \<Rightarrow> sitter_node \<Rightarrow> Node list" where
  "goNodes digest source root packageClause packageName =
     f_Nodes (packageFacts digest source (NewNodeID digest ''file'' (spanOf source root)) packageClause packageName
       (fileFacts digest source (goEvidence digest source root)))"

lemma goInput_shape:
  assumes "vocabularyFor v goKinds" "wellParsed (sf_Contents source) root" "sf_ProjectID source \<noteq> []" "sf_SourcePath source \<noteq> []"
    "packageClause \<in> set (NamedChildren root)"
  obtains ds ns where
    "f_Nodes (ci_Facts (goInput digest source root packageClause packageName)) = goNodes digest source root packageClause packageName @ ns"
    "list_all2 (\<lambda>d n. n_ID n = de_id d \<and> n_Label n = de_name d \<and> goDecl (de_node d) (n_Kind n)) ds ns"
    "typedFacts v (ci_Facts (goInput digest source root packageClause packageName))"
    "ci_ExportedSurfaces (goInput digest source root packageClause packageName) = exportedSurfaces ds"
    "\<forall>r \<in> set (ci_SymbolReferences (goInput digest source root packageClause packageName)). symbolOK (de_id ` set ds) r"
    "\<forall>e \<in> set (f_Edges (ci_Facts (goInput digest source root packageClause packageName))). e_Relation e = ''references'' \<longrightarrow>
       referenceAt digest source root ds (f_Edges (ci_Facts (goInput digest source root packageClause packageName))) e"
proof -
  define packageID where "packageID = NewNodeID digest ''go:package'' (spanOf source packageClause)"
  define fileID where "fileID = NewNodeID digest ''file'' (spanOf source root)"
  define F where "F = packageFacts digest source fileID packageClause packageName (fileFacts digest source (goEvidence digest source root))"
  define st0 where "st0 = \<lparr>tl_declarations = [], tl_owners = [], tl_symbols = [], tl_facts = F\<rparr>"
  define st where "st = goTopLevel digest source root packageClause packageName"
  note pos = wellParsed_positioned [OF assms(2)]
  have positions: "positioned root" "positioned packageClause" using pos subnodes_named [OF assms(5)] by simp_all
  have "typedFacts v (fileFacts digest source (goEvidence digest source root))"
    by (rule typed_fileFacts [OF assms(1) goEvidence_ok [OF positions(1) assms(4)] assms(3)])
  then have typed: "typedFacts v F" unfolding F_def
    by (rule packageFacts_typed [OF assms(1) goEvidence_ok [OF positions(2) assms(4)]])
      (simp add: fileFacts_def Let_def kindAt_def fileID_def goEvidence_def)
  have package: "goParent F packageID"
    by (simp add: F_def packageFacts_def addEdge_def addNode_def Let_def kindAt_def goKinds_def packageID_def goEvidence_def)
  have st: "st = fold (topLevelDeclaration digest source packageID (sf_SourcePath source @ ''::'' @ Utf8Text (sf_Contents source) packageName))
      (NamedChildren root) st0"
    by (simp add: st_def goTopLevel_def Let_def st0_def F_def fileID_def packageID_def goEvidence_def)
  have "fileStep v root st0 st"
    unfolding st
  proof (rule fold_fileStep)
    fix x and st' :: topLevel
    assume x: "x \<in> set (NamedChildren root)" "set (f_Nodes (tl_facts st0)) \<subseteq> set (f_Nodes (tl_facts st'))"
    have "goParent (tl_facts st') packageID" using goParent_mono [OF package] x(2) by (simp add: st0_def)
    then show "fileStep v root st' (topLevelDeclaration digest source packageID
        (sf_SourcePath source @ ''::'' @ Utf8Text (sf_Contents source) packageName) x st')"
      by (rule topLevelDeclaration_step [OF assms(1,2,4) _ x(1)])
  qed
  then have top: "declares v goDecl F (tl_declarations st) (tl_facts st)" "set (tl_owners st) \<subseteq> set (tl_declarations st)"
    "de_node ` set (tl_owners st) \<subseteq> set (subnodes root)" "\<forall>w \<in> set (tl_owners st). functionDeclaration (de_node w)" "\<forall>r \<in> set (tl_symbols st). symbolOK (de_id ` set (tl_declarations st)) r"
    unfolding fileStep_def by (auto simp: st0_def)
  obtain locals m facts where locals: "ownerLocals digest source (tl_owners st) Map.empty (tl_facts st) = (locals, m, facts)"
    by (metis surj_pair)
  have owners: "\<forall>w \<in> set (tl_owners st). de_node w \<in> set (subnodes root) \<and> kindAt goDeclared (f_Nodes (tl_facts st)) (de_id w)"
    using top(2,3) goDecl_kindAt [OF top(1)] by blast
  note step = ownerLocals_declares [OF assms(1,2,4) owners locals]
  define ds where "ds = tl_declarations st @ locals"
  have all: "declares v goDecl F ds facts" unfolding ds_def by (rule declares_trans [OF top(1) step(1)])
  have input: "goInput digest source root packageClause packageName =
      \<lparr>ci_ProjectID = sf_ProjectID source, ci_SourcePath = sf_SourcePath source, ci_Metadata = ex_Metadata goExtractor,
       ci_Facts = facts\<lparr>f_Edges := f_Edges facts @ concat (map (functionReferences digest source ds m) (tl_owners st))\<rparr>,
       ci_UnresolvedReferences = collectModuleReferences source root fileID,
       ci_SymbolReferences = tl_symbols st @ concat (map (packageCallReferences digest source) (tl_owners st)),
       ci_ExportedSurfaces = exportedSurfaces ds, ci_Dependencies = [], ci_Diagnostics = []\<rparr>"
    by (simp add: goInput_def Let_def st_def [symmetric] locals ds_def appendLocalReferences_eq fileID_def)
  obtain ns where ns: "f_Nodes facts = f_Nodes F @ ns"
    "list_all2 (\<lambda>d n. n_ID n = de_id d \<and> n_Label n = de_name d \<and> goDecl (de_node d) (n_Kind n)) ds ns" "typedFacts v facts"
    using all typed by (auto simp: declares_def)
  have "edge_ok v (f_Nodes facts) e" if "e \<in> set (concat (map (functionReferences digest source ds m) (tl_owners st)))" for e
  proof -
    from that obtain w where w: "w \<in> set (tl_owners st)" "e \<in> set (functionReferences digest source ds m w)" by auto
    have "kindAt goDeclared (f_Nodes facts) (de_id w)" using owners w(1) declares_subset [OF step(1)] by (auto elim: kindAt_mono)
    moreover have "\<forall>ls. m (de_id w) = Some ls \<longrightarrow> set ls \<subseteq> set ds" using step(2) [of "de_id w"] by (auto simp: ds_def)
    ultimately show ?thesis using owners w(1) goDecl_kindAt [OF all]
      by (intro functionReferences_ok [OF assms(1,2,4) _ _ _ _ w(2)]) auto
  qed
  then have facts: "typedFacts v (ci_Facts (goInput digest source root packageClause packageName))"
    unfolding input ContributionInput.select_convs by (intro typed_addEdges ns(3)) blast
  have calls: "symbolOK (de_id ` set ds) r" if "w \<in> set (tl_owners st)" "r \<in> set (packageCallReferences digest source w)" for w r
    using packageCallReferences_ok [OF assms(2,4) _ that(2)] owners top(2) that(1) by (auto simp: ds_def elim!: symbolOK_mono)
  have "e_Relation e \<noteq> ''references''" if "e \<in> set (f_Edges facts)" for e
    using that all by (auto simp: declares_def F_def packageFacts_def fileFacts_def addEdge_def addNode_def Let_def)
  moreover have "referenceAt digest source root ds (f_Edges facts) e" if "w \<in> set (tl_owners st)" "e \<in> set (functionReferences digest source ds m w)" for w e
  proof (rule functionReferences_at [OF _ _ _ _ that(2)])
    show "w \<in> set ds" using that(1) top(2) by (auto simp: ds_def)
    show "\<forall>ls. m (de_id w) = Some ls \<longrightarrow> set ls \<subseteq> set ds \<and> definesAll (de_id w) (tl_facts st) ls facts"
      using step(2) [of "de_id w"] by (auto simp: ds_def)
  qed (use that(1) owners top(4) in auto)
  ultimately have references: "\<forall>e \<in> set (f_Edges (ci_Facts (goInput digest source root packageClause packageName))). e_Relation e = ''references'' \<longrightarrow>
      referenceAt digest source root ds (f_Edges (ci_Facts (goInput digest source root packageClause packageName))) e"
    unfolding input by (fastforce simp: referenceAt_def)
  show thesis
  proof (rule that)
    show "f_Nodes (ci_Facts (goInput digest source root packageClause packageName)) = goNodes digest source root packageClause packageName @ ns"
      by (simp add: input ns(1) goNodes_def F_def fileID_def)
    show "\<forall>r \<in> set (ci_SymbolReferences (goInput digest source root packageClause packageName)). symbolOK (de_id ` set ds) r"
    proof -
      have "symbolOK (de_id ` set ds) r" if "r \<in> set (tl_symbols st)" for r
        by (rule symbolOK_mono [OF bspec [OF top(5) that]]) (auto simp: ds_def)
      then show ?thesis using calls by (auto simp: input)
    qed
    show "\<forall>e \<in> set (f_Edges (ci_Facts (goInput digest source root packageClause packageName))). e_Relation e = ''references'' \<longrightarrow>
       referenceAt digest source root ds (f_Edges (ci_Facts (goInput digest source root packageClause packageName))) e"
      by (rule references)
  qed (use ns facts in \<open>simp_all add: input\<close>)
qed

lemma collectModuleReferences_source: "r \<in> set (collectModuleReferences source root i) \<Longrightarrow> ur_SourceID r = i \<and> ur_Kind r = ModuleReferenceImport \<and> ur_Bindings r = []"
  by (auto simp: collectModuleReferences_def importReference_def split: if_splits option.splits)

lemma goInput_accepted:
  fixes digest packageName
  assumes "vocabularyFor v goKinds" "wellParsed (sf_Contents source) root" "sf_ProjectID source \<noteq> []" "sf_SourcePath source \<noteq> []"
    "packageClause \<in> set (NamedChildren root)"
  defines "input \<equiv> goInput digest source root packageClause packageName"
  shows "input_ok v input \<longleftrightarrow> (\<forall>u \<in> set (ci_UnresolvedReferences input). ur_Target u \<noteq> []) \<and> distinct (map n_ID (f_Nodes (ci_Facts input)))"
proof -
  obtain ds ns where shape: "f_Nodes (ci_Facts input) = goNodes digest source root packageClause packageName @ ns"
    "list_all2 (\<lambda>d n. n_ID n = de_id d \<and> n_Label n = de_name d \<and> goDecl (de_node d) (n_Kind n)) ds ns"
    "typedFacts v (ci_Facts input)" "ci_ExportedSurfaces input = exportedSurfaces ds"
    "\<forall>r \<in> set (ci_SymbolReferences input). symbolOK (de_id ` set ds) r"
    by (rule goInput_shape [OF assms(1-5), of digest packageName]) (rule that, simp_all add: input_def)
  have fields: "ci_SourcePath input = sf_SourcePath source" "ci_Metadata input = ex_Metadata goExtractor" "ci_Dependencies input = []"
    "ci_Diagnostics input = []" "ci_UnresolvedReferences input = collectModuleReferences source root (NewNodeID digest ''file'' (spanOf source root))"
    by (simp_all add: input_def goInput_def Let_def case_prod_beta)
  let ?ids = "n_ID ` set (f_Nodes (ci_Facts input))"
  have ids: "de_id d \<in> ?ids" if "d \<in> set ds" for d
    using list_all2_pick [OF shape(2) that] unfolding shape(1) by force
  have fileID: "NewNodeID digest ''file'' (spanOf source root) \<in> ?ids"
    by (simp add: shape(1) goNodes_def packageFacts_def fileFacts_def addEdge_def addNode_def goEvidence_def Let_def)
  have nonempty: "i \<noteq> []" if "i \<in> ?ids" "typedFacts v (ci_Facts input)" for i
    using that by (auto simp: typedFacts_def node_ok_def)
  have metadata: "metadata_ok (ex_Metadata goExtractor)" using shipped_ok(1) by (simp add: extractor_ok_def)
  have symbols: "\<forall>r \<in> set (ci_SymbolReferences input). sr_SourceID r \<in> ?ids \<and> sr_SourceID r \<noteq> [] \<and> sr_Target r \<noteq> [] \<and>
      sr_Relation r \<noteq> [] \<and> evidence_ok (sr_Evidence r)"
    using shape(5) ids nonempty [OF _ shape(3)] by (auto simp: symbolOK_def)
  have surfaces: "\<forall>s \<in> set (ci_ExportedSurfaces input). es_NodeID s \<in> ?ids \<and> es_NodeID s \<noteq> [] \<and> es_Name s \<noteq> []"
    using ids nonempty [OF _ shape(3)] by (auto simp: shape(4) exportedSurfaces_def)
  have references: "(\<forall>r \<in> set (ci_UnresolvedReferences input). ur_SourceID r \<in> ?ids \<and> ur_SourceID r \<noteq> [] \<and> ur_Target r \<noteq> [] \<and>
      ur_Kind r \<in> {ModuleReferenceImport, ModuleReferenceReExport, ModuleReferenceRequire} \<and> (\<forall>b \<in> set (ur_Bindings r). mb_ImportedName b \<noteq> [])) \<longleftrightarrow>
      (\<forall>u \<in> set (ci_UnresolvedReferences input). ur_Target u \<noteq> [])"
    unfolding fields(5) using collectModuleReferences_source fileID by fastforce
  show ?thesis
    unfolding input_ok_def Let_def facts_ok_typed
    using assms(4) metadata shape(3) symbols surfaces references by (simp add: fields(1-4)) blast
qed

lemma goVocabulary: "\<exists>v. ex_Vocabulary goExtractor = Inr v \<and> vocabularyFor v goKinds"
proof -
  have "\<not> isl (ex_Vocabulary goExtractor)" using shipped_ok by (simp add: extractor_ok_def)
  then obtain v where v: "ex_Vocabulary goExtractor = Inr v" by (cases "ex_Vocabulary goExtractor") auto
  then have "vocabularyFor v goKinds"
    by (intro NewLanguageVocabulary_for [of "''go''"]) (simp add: goExtractor_def goKinds_def)
  with v show ?thesis by blast
qed

lemma goExtract_eq:
  assumes "ex_Vocabulary goExtractor = Inr v"
  shows "goExtract digest (Inr parse) source = (Inr c :: 'e extract_error + Contribution) \<longleftrightarrow>
     sf_ProjectID source \<noteq> [] \<and> sf_SourcePath source \<noteq> [] \<and> \<not> at_HasError (attributesOf (parse (sf_Contents source))) \<and>
     (\<exists>pc pn. find (\<lambda>child. Kind child = ''package_clause'') (NamedChildren (parse (sf_Contents source))) = Some pc \<and>
        NamedChildren pc = [pn] \<and> NewContribution v (goInput digest source (parse (sf_Contents source)) pc pn) = Inr c)"
proof (cases "find (\<lambda>child. Kind child = ''package_clause'') (NamedChildren (parse (sf_Contents source)))")
  case (Some pc)
  have "(case NamedChildren pc of [pn] \<Rightarrow> liftE ContributionInvalid (NewContribution v (goInput digest source (parse (sf_Contents source)) pc pn))
      | _ \<Rightarrow> Inl (PackageNameMissing (sf_SourcePath source))) = (Inr c :: 'e extract_error + Contribution) \<longleftrightarrow>
      (\<exists>pn. NamedChildren pc = [pn] \<and> NewContribution v (goInput digest source (parse (sf_Contents source)) pc pn) = Inr c)"
    by (cases "NamedChildren pc"; cases "tl (NamedChildren pc)") auto
  then show ?thesis by (simp add: goExtract_def assms Let_def Some)
qed (simp add: goExtract_def assms Let_def)

lemma goExtract_Inr:
  assumes "goExtract digest (Inr parse) source = (Inr c :: 'e extract_error + Contribution)"
  obtains pc pn v where "sf_ProjectID source \<noteq> []" "sf_SourcePath source \<noteq> []" "pc \<in> set (NamedChildren (parse (sf_Contents source)))"
    "NamedChildren pc = [pn]" "input_ok v (goInput digest source (parse (sf_Contents source)) pc pn)"
    "c = contribution_of_input (goInput digest source (parse (sf_Contents source)) pc pn)"
proof -
  obtain v where v: "ex_Vocabulary goExtractor = Inr v" using goVocabulary by blast
  show thesis using assms find_SomeD that unfolding goExtract_eq [OF v] NewContribution_iff by metis
qed

section \<open>A small file\<close>

text \<open>A tree on one line, with the byte extents of its nodes.\<close>

definition lineNode :: "str \<Rightarrow> nat \<Rightarrow> nat \<Rightarrow> (str list \<times> sitter_node) list \<Rightarrow> sitter_node" where
  "lineNode kind lo hi cs = SitterNode
     \<lparr>at_Kind = kind, at_IsNamed = True, at_IsError = False, at_IsMissing = False, at_HasError = False,
      at_StartByte = lo, at_EndByte = hi, at_StartRow = 0, at_StartColumn = lo, at_EndRow = 0, at_EndColumn = hi\<rparr> cs"

text \<open>A digest of two bytes that tells the nodes of one line apart, by their first and last columns.\<close>

definition columnDigest :: "str \<Rightarrow> str" where
  "columnDigest s = [rev s ! 16, hd (rev s)]"

definition goFileSource :: SourceFile where
  "goFileSource = \<lparr>sf_ProjectID = ''p'', sf_SourcePath = ''a.go'',
     sf_Contents = ''package q; import '' @ [CHR 0x22] @ ''m/l'' @ [CHR 0x22] @ ''; type T interface { E; R() }; func g() {}; func F() { v := g(); l.H(v) }''\<rparr>"

definition goFileTree :: sitter_node where
  "goFileTree =
     lineNode ''source_file'' 0 96 [([], lineNode ''package_clause'' 0 9 [([], lineNode ''package_identifier'' 8 9 [])]),
     ([], lineNode ''import_declaration'' 11 23 [([], lineNode ''import_spec'' 18 23 [([''path''], lineNode ''interpreted_string_literal'' 18 23 [])])]),
     ([], lineNode ''type_declaration'' 25 52 [([], lineNode ''type_spec'' 30 52 [([''name''], lineNode ''type_identifier'' 30 31 []),
     ([''type''], lineNode ''interface_type'' 32 52 [([], lineNode ''type_elem'' 44 45 [([], lineNode ''type_identifier'' 44 45 [])]),
     ([], lineNode ''method_elem'' 47 50 [([''name''], lineNode ''field_identifier'' 47 48 []),
     ([''parameters''], lineNode ''parameter_list'' 48 50 [])])])])]),
     ([], lineNode ''function_declaration'' 54 65 [([''name''], lineNode ''identifier'' 59 60 []),
     ([''parameters''], lineNode ''parameter_list'' 60 62 []), ([''body''], lineNode ''block'' 63 65 [])]),
     ([], lineNode ''function_declaration'' 67 96 [([''name''], lineNode ''identifier'' 72 73 []),
     ([''parameters''], lineNode ''parameter_list'' 73 75 []),
     ([''body''], lineNode ''block'' 76 96 [([], lineNode ''short_var_declaration'' 78 86 [([''left''], lineNode ''expression_list'' 78 79 [([], lineNode ''identifier'' 78 79 [])]),
     ([''right''], lineNode ''expression_list'' 83 86 [([], lineNode ''call_expression'' 83 86 [([''function''], lineNode ''identifier'' 83 84 []),
     ([''arguments''], lineNode ''argument_list'' 84 86 [])])])]),
     ([], lineNode ''expression_statement'' 88 94 [([], lineNode ''call_expression'' 88 94 [([''function''], lineNode ''selector_expression'' 88 91 [([''operand''], lineNode ''identifier'' 88 89 []),
     ([''field''], lineNode ''field_identifier'' 90 91 [])]),
     ([''arguments''], lineNode ''argument_list'' 91 94 [([], lineNode ''identifier'' 92 93 [])])])])])])]"

lemma goFileTree_parsed: "wellParsed (sf_Contents goFileSource) goFileTree"
  by code_simp

definition labelOf :: "Facts \<Rightarrow> str \<Rightarrow> str" where
  "labelOf facts i = (case find (\<lambda>n. n_ID n = i) (f_Nodes facts) of None \<Rightarrow> [] | Some n \<Rightarrow> n_Label n)"

abbreviation goFileInput :: ContributionInput where
  "goFileInput \<equiv> goInput columnDigest goFileSource goFileTree (hd (NamedChildren goFileTree)) (hd (NamedChildren (hd (NamedChildren goFileTree))))"

lemma goFile_input:
  "(let i = goFileInput; facts = ci_Facts i in
     (map n_Label (f_Nodes facts), distinct (map n_ID (f_Nodes facts)), map ur_Target (ci_UnresolvedReferences i),
      map (\<lambda>r. (labelOf facts (sr_SourceID r), sr_Relation r, sr_Target r)) (ci_SymbolReferences i), map es_Name (ci_ExportedSurfaces i),
      map (\<lambda>e. (labelOf facts (e_SourceID e), e_Relation e, labelOf facts (e_TargetID e))) (f_Edges facts),
      map (\<lambda>n. (n_Kind n, n_Label n)) (f_Nodes facts))) =
   ([''p'', ''a.go'', ''q'', ''T'', ''g'', ''F'', ''v''], True, [''m/l''],
    [(''T'', ''go:embeds'', ''E''), (''T'', ''go:implements'', ''R''), (''F'', ''go:calls'', ''l.H'')], [''T'', ''F''],
    [(''p'', ''contains'', ''a.go''), (''a.go'', ''defines'', ''q''), (''q'', ''defines'', ''T''), (''q'', ''defines'', ''g''), (''q'', ''defines'', ''F''),
     (''F'', ''defines'', ''v''), (''F'', ''references'', ''g''), (''F'', ''references'', ''v'')],
    [(''project'', ''p''), (''file'', ''a.go''), (''go:package'', ''q''), (''go:type'', ''T''), (''go:function'', ''g''), (''go:function'', ''F''),
     (''go:variable'', ''v'')])"
  by code_simp

lemma goFile_package:
  "find (\<lambda>child. Kind child = ''package_clause'') (NamedChildren goFileTree) = Some (hd (NamedChildren goFileTree))"
  "NamedChildren (hd (NamedChildren goFileTree)) = [hd (NamedChildren (hd (NamedChildren goFileTree)))]"
  "sf_ProjectID goFileSource \<noteq> [] \<and> sf_SourcePath goFileSource \<noteq> [] \<and> \<not> at_HasError (attributesOf goFileTree)"
  by code_simp+

lemma goFile_extracted:
  "goExtract columnDigest (Inr (\<lambda>_. goFileTree)) goFileSource = (Inr (contribution_of_input goFileInput) :: unit extract_error + Contribution)"
proof -
  obtain v where v: "ex_Vocabulary goExtractor = Inr v" "vocabularyFor v goKinds" using goVocabulary by blast
  have "map ur_Target (ci_UnresolvedReferences goFileInput) = [''m/l'']" using goFile_input by (simp add: Let_def)
  then have "\<forall>u \<in> set (ci_UnresolvedReferences goFileInput). ur_Target u \<noteq> []" by auto
  moreover have "hd (NamedChildren goFileTree) \<in> set (NamedChildren goFileTree)" using find_SomeD [OF goFile_package(1)] by simp
  ultimately have "input_ok v goFileInput"
    using goFile_input goFile_package(3) by (subst goInput_accepted [OF v(2) goFileTree_parsed]) (simp_all add: Let_def)
  then have "NewContribution v goFileInput = Inr (contribution_of_input goFileInput)" by (simp add: NewContribution_iff)
  then show ?thesis unfolding goExtract_eq [OF v(1)] using goFile_package by blast
qed

section \<open>Properties\<close>





end
