(* ===== verification/Resolve_Go.thy ===== *)
theory Resolve_Go
  imports Resolve_Surfaces Paging
begin

text \<open>
  The resolver of Go (\<^verbatim>\<open>src/extractors/go/resolver.go\<close>): imports of packages of the module, calls of what they
  export, and the interfaces that the types of a package implement and embed, for a page of
  contributions over a resolver index and for a workspace in memory. The package pages of the index are
  followed by a loop that may not return (\<open>None\<close>). As in \<open>Resolve_Shared\<close>, the page request of the index
  and the \<^verbatim>\<open>%q\<close> of \<^verbatim>\<open>fmt\<close> are arguments and \<^verbatim>\<open>sort.Slice\<close> is stable.
\<close>

section \<open>Vocabulary\<close>

definition goResolverVocabulary :: "ValidationCode + Vocabulary" where
  "goResolverVocabulary =
     NewVocabulary \<lparr>vd_NodeKinds = [''file'', ''go:type'', ''go:function'', ''go:method'', ''go:variable''],
       vd_Relations =
         [\<lparr>rd_Kind = ''go:imports_from'', rd_Endpoints =
             map (\<lambda>target. \<lparr>ep_Source = ''file'', ep_Target = target\<rparr>) [''file'', ''go:type'', ''go:function'', ''go:method'', ''go:variable'']\<rparr>,
          \<lparr>rd_Kind = ''go:implements'', rd_Endpoints = [\<lparr>ep_Source = ''go:type'', ep_Target = ''go:type''\<rparr>]\<rparr>,
          \<lparr>rd_Kind = ''go:embeds'', rd_Endpoints = [\<lparr>ep_Source = ''go:type'', ep_Target = ''go:type''\<rparr>]\<rparr>,
          \<lparr>rd_Kind = ''go:calls'', rd_Endpoints =
             [\<lparr>ep_Source = ''go:function'', ep_Target = ''go:function''\<rparr>, \<lparr>ep_Source = ''go:function'', ep_Target = ''go:method''\<rparr>,
              \<lparr>ep_Source = ''go:method'', ep_Target = ''go:function''\<rparr>, \<lparr>ep_Source = ''go:method'', ep_Target = ''go:method''\<rparr>]\<rparr>]\<rparr>"

definition goResolverNodeKind :: "NodeKind \<Rightarrow> bool" where
  "goResolverNodeKind kind \<longleftrightarrow> kind \<in> {''file'', ''go:type'', ''go:function'', ''go:method'', ''go:variable''}"

definition goPutNodes :: "Node list \<Rightarrow> Node list \<Rightarrow> Node list" where
  "goPutNodes added nodes = fold putNode (filter (\<lambda>n. goResolverNodeKind (n_Kind n)) added) nodes"

section \<open>Names\<close>

text \<open>\<^verbatim>\<open>strings.Fields\<close> on ASCII space, and \<^verbatim>\<open>strings.Cut\<close> at a one-byte separator.\<close>

fun spaceFields :: "str \<Rightarrow> str list" where
  "spaceFields [] = [[]]"
| "spaceFields (c # s) =
     (if space_char c then [] # spaceFields s
      else (case spaceFields s of [] \<Rightarrow> [[c]] | w # ws \<Rightarrow> (c # w) # ws))"

definition Fields :: "str \<Rightarrow> str list" where
  "Fields s = filter (\<lambda>w. w \<noteq> []) (spaceFields s)"

definition CutAt :: "char \<Rightarrow> str \<Rightarrow> (str \<times> str) option" where
  "CutAt separator s =
     (if separator \<in> set s then Some (takeWhile (\<lambda>c. c \<noteq> separator) s, tl (dropWhile (\<lambda>c. c \<noteq> separator) s)) else None)"

definition moduleLine :: "str \<Rightarrow> str option" where
  "moduleLine line = (case Fields line of [keyword, path] \<Rightarrow> if keyword = ''module'' then Some path else None | _ \<Rightarrow> None)"

text \<open>The module path, empty if there is none.\<close>

definition modulePath :: "ResolverFileView \<Rightarrow> str" where
  "modulePath view =
     (case viewFile view ''go.mod'' of
        None \<Rightarrow> []
      | Some bytes \<Rightarrow>
          (case List.map_filter moduleLine (SplitOn (CHR 0x0A) bytes) of [] \<Rightarrow> [] | path # _ \<Rightarrow> path))"

definition modulePackagePath :: "str \<Rightarrow> str \<Rightarrow> str option" where
  "modulePackagePath importPath module =
     (if module = [] \<or> importPath \<noteq> module \<and> \<not> HasPrefix importPath (module @ slashes) then None
      else if importPath = module then Some ''.''
      else Some (TrimPrefix importPath (module @ slashes)))"

definition receiverTypeFromQualifiedName :: "str \<Rightarrow> str" where
  "receiverTypeFromQualifiedName qualifiedName =
     (let parts = SplitOn (CHR ''.'') qualifiedName in if length parts < 3 then [] else parts ! (length parts - 2))"

definition packageName :: "Node list \<Rightarrow> str" where
  "packageName nodes = (case find (\<lambda>n. n_Kind n = ''go:package'') nodes of None \<Rightarrow> [] | Some n \<Rightarrow> n_Label n)"

definition callableTargetSurface :: "str \<Rightarrow> Node list \<Rightarrow> bool" where
  "callableTargetSurface nodeID nodes =
     (case find (\<lambda>n. n_ID n = nodeID) nodes of None \<Rightarrow> False | Some n \<Rightarrow> n_Kind n = ''go:function'' \<or> n_Kind n = ''go:method'')"

definition relationReferences :: "SymbolReference list \<Rightarrow> RelationKind \<Rightarrow> SymbolReference list" where
  "relationReferences references relation = filter (\<lambda>r. sr_Relation r = relation) references"

definition relationReferencesForSource :: "SymbolReference list \<Rightarrow> str \<Rightarrow> RelationKind \<Rightarrow> SymbolReference list" where
  "relationReferencesForSource references sourceID relation =
     filter (\<lambda>r. sr_SourceID r = sourceID \<and> sr_Relation r = relation) references"

definition implementsAll :: "str list \<Rightarrow> SymbolReference list \<Rightarrow> bool" where
  "implementsAll methods requirements \<longleftrightarrow> requirements \<noteq> [] \<and> list_all (\<lambda>r. sr_Target r \<in> set methods) requirements"

definition goSortedFacts :: "Edge list \<Rightarrow> Edge list" where
  "goSortedFacts edges = sort_key (\<lambda>e. [e_SourceID e, e_TargetID e]) edges"

definition goPackageNotIndexed :: "(str \<Rightarrow> str) \<Rightarrow> str \<Rightarrow> str \<Rightarrow> Diagnostic" where
  "goPackageNotIndexed quote target sourcePath = warning (''Go package '' @ quote target @ '' from '' @ quote sourcePath @ '' is not indexed'')"

definition goCallUnsupported :: "(str \<Rightarrow> str) \<Rightarrow> str \<Rightarrow> str \<Rightarrow> Diagnostic" where
  "goCallUnsupported quote target sourcePath =
     warning (''Go call '' @ quote target @ '' from '' @ quote sourcePath @ '' is unsupported or ambiguous'')"

section \<open>The targets of a package\<close>

definition resolverPackagePageSize :: int where
  "resolverPackagePageSize = 128"

definition visitPackageTargets :: "(ResolverPackagePageRequest \<Rightarrow> 'e + ResolverTarget list) \<Rightarrow> str \<Rightarrow> str \<Rightarrow>
    (ResolverTarget \<Rightarrow> 's \<Rightarrow> 'e resolve_error + 's) \<Rightarrow> 's \<Rightarrow> ('e resolve_error + 's) option" where
  "visitPackageTargets index project packagePath visit s =
     pageLoop (\<lambda>after. liftE (PackageUnread packagePath)
         (index \<lparr>rp_ProjectID = project, rp_Language = ''go'', rp_PackagePath = packagePath, rp_AfterSourcePath = after,
            rp_Limit = resolverPackagePageSize\<rparr>))
       tg_SourcePath (foldE visit) [] s"

section \<open>A page\<close>

definition importVisit :: "UnresolvedReference \<Rightarrow> Node \<Rightarrow> ResolverTarget \<Rightarrow> Resolution \<times> bool \<Rightarrow> 'e resolve_error + Resolution \<times> bool" where
  "importVisit reference source target state =
     (case targetFile (tg_Nodes target) of
        None \<Rightarrow> Inl (TargetFileMissing (tg_SourcePath target))
      | Some targetNode \<Rightarrow>
          (let edge = (\<lambda>t. \<lparr>e_SourceID = ur_SourceID reference, e_TargetID = t, e_Relation = ''go:imports_from'', e_Evidence = n_Evidence source\<rparr>);
               resolution = fst state in
           Inr (resolution\<lparr>rl_Nodes := goPutNodes (tg_Nodes target) (rl_Nodes resolution),
                  rl_Edges := rl_Edges resolution @ edge (n_ID targetNode) # map (edge \<circ> es_NodeID) (tg_ExportedSurfaces target)\<rparr>, True)))"

definition goPageReference :: "(str \<Rightarrow> str) \<Rightarrow> (ResolverPackagePageRequest \<Rightarrow> 'e + ResolverTarget list) \<Rightarrow> str \<Rightarrow> str \<Rightarrow> str \<Rightarrow> Node \<Rightarrow>
    UnresolvedReference \<Rightarrow> Resolution \<Rightarrow> ('e resolve_error + Resolution) option" where
  "goPageReference quote index project module sourcePath source reference resolution =
     (case modulePackagePath (ur_Target reference) module of
        None \<Rightarrow> Some (Inr resolution)
      | Some packagePath \<Rightarrow>
          bindO (visitPackageTargets index project packagePath (importVisit reference source) (resolution, False)) (\<lambda>(resolution, foundTarget).
          Some (Inr (if foundTarget then resolution
            else resolution\<lparr>rl_diagnostics := rl_diagnostics resolution @ [goPackageNotIndexed quote (ur_Target reference) sourcePath]\<rparr>))))"

record call_search =
  cl_resolution :: Resolution
  cl_matches :: "str list"
  cl_matchingImport :: bool

definition callVisit :: "str \<Rightarrow> ResolverTarget \<Rightarrow> call_search \<Rightarrow> 'e resolve_error + call_search" where
  "callVisit symbolName target search =
     Inr (search\<lparr>cl_resolution := (cl_resolution search)\<lparr>rl_Nodes := goPutNodes (tg_Nodes target) (rl_Nodes (cl_resolution search))\<rparr>,
       cl_matches := cl_matches search @ map es_NodeID
         (filter (\<lambda>s. es_Name s = symbolName \<and> callableTargetSurface (es_NodeID s) (tg_Nodes target)) (tg_ExportedSurfaces target))\<rparr>)"

definition goPageImported :: "(ResolverPackagePageRequest \<Rightarrow> 'e + ResolverTarget list) \<Rightarrow> str \<Rightarrow> str \<Rightarrow> str \<Rightarrow> str \<Rightarrow>
    UnresolvedReference \<Rightarrow> call_search \<Rightarrow> ('e resolve_error + call_search) option" where
  "goPageImported index project module name symbolName imported search =
     (if Base (ur_Target imported) \<noteq> name then Some (Inr search)
      else (let search = search\<lparr>cl_matchingImport := True\<rparr> in
            case modulePackagePath (ur_Target imported) module of
              None \<Rightarrow> Some (Inr search)
            | Some packagePath \<Rightarrow> visitPackageTargets index project packagePath (callVisit symbolName) search))"

definition goPageCall :: "(str \<Rightarrow> str) \<Rightarrow> (ResolverPackagePageRequest \<Rightarrow> 'e + ResolverTarget list) \<Rightarrow> str \<Rightarrow> str \<Rightarrow> Contribution \<Rightarrow>
    SymbolReference \<Rightarrow> Resolution \<Rightarrow> ('e resolve_error + Resolution) option" where
  "goPageCall quote index project module contribution reference resolution =
     (if sr_Relation reference \<noteq> ''go:calls'' then Some (Inr resolution)
      else case CutAt (CHR ''.'') (sr_Target reference) of
        None \<Rightarrow> Some (Inr resolution)
      | Some (name, symbolName) \<Rightarrow>
          bindO (foldO (goPageImported index project module name symbolName) (c_unresolvedReferences contribution)
                   \<lparr>cl_resolution = resolution, cl_matches = [], cl_matchingImport = False\<rparr>) (\<lambda>search.
          let resolution = cl_resolution search in
          Some (Inr (if \<not> cl_matchingImport search \<or> length (cl_matches search) \<noteq> 1
            then resolution\<lparr>rl_diagnostics := rl_diagnostics resolution @ [goCallUnsupported quote (sr_Target reference) (c_sourcePath contribution)]\<rparr>
            else resolution\<lparr>rl_Edges := rl_Edges resolution @
              [\<lparr>e_SourceID = sr_SourceID reference, e_TargetID = hd (cl_matches search), e_Relation = ''go:calls'', e_Evidence = sr_Evidence reference\<rparr>]\<rparr>))))"

definition goPageSource :: "(str \<Rightarrow> str) \<Rightarrow> (ResolverPackagePageRequest \<Rightarrow> 'e + ResolverTarget list) \<Rightarrow> str \<Rightarrow> str \<Rightarrow> Contribution list \<Rightarrow>
    str \<Rightarrow> Resolution \<Rightarrow> ('e resolve_error + Resolution) option" where
  "goPageSource quote index project module contributions sourcePath resolution =
     (case contributionOf contributions sourcePath of
        None \<Rightarrow> Some (Inr resolution)
      | Some contribution \<Rightarrow>
          (case fileFact contribution of
             None \<Rightarrow> Some (Inr resolution)
           | Some source \<Rightarrow>
               bindO (foldO (goPageReference quote index project module sourcePath source) (c_unresolvedReferences contribution) resolution)
                 (foldO (goPageCall quote index project module contribution) (c_symbolReferences contribution))))"

text \<open>The methods of a type and the nodes of its package.\<close>

definition methodVisit :: "str \<Rightarrow> str \<Rightarrow> ResolverTarget \<Rightarrow> Node list \<times> str list \<Rightarrow> 'e resolve_error + Node list \<times> str list" where
  "methodVisit expectedPackageName typeName target state =
     Inr (if expectedPackageName \<noteq> packageName (tg_Nodes target) then state
       else (goPutNodes (tg_Nodes target) (fst state),
             snd state @ map n_Label (filter (\<lambda>n. n_Kind n = ''go:method'' \<and> receiverTypeFromQualifiedName (n_QualifiedName n) = typeName)
               (tg_Nodes target))))"

definition implementsVisit :: "str \<Rightarrow> Node \<Rightarrow> str list \<Rightarrow> ResolverTarget \<Rightarrow> Resolution \<Rightarrow> 'e resolve_error + Resolution" where
  "implementsVisit expectedPackageName current methods target resolution =
     Inr (if expectedPackageName \<noteq> packageName (tg_Nodes target) then resolution
       else resolution\<lparr>rl_Nodes := goPutNodes (tg_Nodes target) (rl_Nodes resolution),
         rl_Edges := rl_Edges resolution @
           map (\<lambda>n. \<lparr>e_SourceID = n_ID current, e_TargetID = n_ID n, e_Relation = ''go:implements'', e_Evidence = n_Evidence current\<rparr>)
             (filter (\<lambda>n. n_Kind n = ''go:type'' \<and> n_ID n \<noteq> n_ID current \<and>
                implementsAll methods (relationReferencesForSource (tg_SymbolReferences target) (n_ID n) ''go:implements'')) (tg_Nodes target))\<rparr>)"

definition embedsVisit :: "str \<Rightarrow> Node \<Rightarrow> SymbolReference list \<Rightarrow> ResolverTarget \<Rightarrow> Resolution \<Rightarrow> 'e resolve_error + Resolution" where
  "embedsVisit expectedPackageName current references target resolution =
     Inr (if expectedPackageName \<noteq> packageName (tg_Nodes target) then resolution
       else resolution\<lparr>rl_Nodes := goPutNodes (tg_Nodes target) (rl_Nodes resolution),
         rl_Edges := rl_Edges resolution @
           concat (map (\<lambda>n. map (\<lambda>r. \<lparr>e_SourceID = n_ID current, e_TargetID = n_ID n, e_Relation = ''go:embeds'', e_Evidence = sr_Evidence r\<rparr>)
               (filter (\<lambda>r. n_Label n = sr_Target r) references))
             (filter (\<lambda>n. n_Kind n = ''go:type'' \<and> n_ID n \<noteq> n_ID current) (tg_Nodes target)))\<rparr>)"

definition goPageType :: "(ResolverPackagePageRequest \<Rightarrow> 'e + ResolverTarget list) \<Rightarrow> str \<Rightarrow> str \<Rightarrow> str \<Rightarrow> SymbolReference list \<Rightarrow> Node \<Rightarrow>
    Resolution \<Rightarrow> ('e resolve_error + Resolution) option" where
  "goPageType index project packagePath name references current resolution =
     bindO (visitPackageTargets index project packagePath (methodVisit name (n_Label current)) (rl_Nodes resolution, [])) (\<lambda>(nodes, methods).
     bindO (visitPackageTargets index project packagePath (implementsVisit name current methods) (resolution\<lparr>rl_Nodes := nodes\<rparr>)) (\<lambda>resolution.
     let references = relationReferencesForSource references (n_ID current) ''go:embeds'' in
     if references = [] then Some (Inr resolution)
     else visitPackageTargets index project packagePath (embedsVisit name current references) resolution))"

definition goPageTypes :: "(ResolverPackagePageRequest \<Rightarrow> 'e + ResolverTarget list) \<Rightarrow> str \<Rightarrow> Contribution \<Rightarrow> Resolution \<Rightarrow>
    ('e resolve_error + Resolution) option" where
  "goPageTypes index project contribution resolution =
     (let name = packageName (f_Nodes (c_facts contribution)) in
      if name = [] then Some (Inr resolution)
      else foldO (goPageType index project (Dir (c_sourcePath contribution)) name (c_symbolReferences contribution))
             (filter (\<lambda>n. n_Kind n = ''go:type'') (f_Nodes (c_facts contribution))) resolution)"

definition goCollectNodes :: "Contribution list \<Rightarrow> Node list" where
  "goCollectNodes contributions = fold (\<lambda>c. goPutNodes (f_Nodes (c_facts c))) contributions []"

definition goResolvePage :: "(str \<Rightarrow> str) \<Rightarrow> (ResolverPackagePageRequest \<Rightarrow> 'e + ResolverTarget list) \<Rightarrow> Contribution list \<Rightarrow> str \<Rightarrow>
    ResolverFileView \<Rightarrow> ('e resolve_error + Resolution) option" where
  "goResolvePage quote index contributions project view =
     (if project = [] then Some (Inl PageIncomplete)
      else bindO (Some (checkE requireFile contributions)) (\<lambda>_.
           bindO (foldO (goPageSource quote index project (modulePath view) contributions) (contributionPaths contributions)
                    \<lparr>rl_Nodes = goCollectNodes contributions, rl_Edges = [], rl_diagnostics = []\<rparr>) (\<lambda>resolution.
           bindO (foldO (goPageTypes index project) contributions resolution) (\<lambda>resolution.
           Some (finishResolution goResolverVocabulary
             (resolution\<lparr>rl_Nodes := sort_key n_ID (rl_Nodes resolution), rl_Edges := goSortedFacts (rl_Edges resolution)\<rparr>))))))"

section \<open>A workspace in memory\<close>

text \<open>The map of package names: a later package node of a path wins.\<close>

definition packageAt :: "Contribution list \<Rightarrow> str \<Rightarrow> str" where
  "packageAt contributions sourcePath =
     (case rev (concat (map (\<lambda>c. if c_sourcePath c = sourcePath
          then map n_Label (filter (\<lambda>n. n_Kind n = ''go:package'') (f_Nodes (c_facts c))) else []) contributions)) of
        [] \<Rightarrow> [] | label # _ \<Rightarrow> label)"

definition packageFiles :: "str \<Rightarrow> str \<Rightarrow> Contribution list \<Rightarrow> str list" where
  "packageFiles importPath module contributions =
     (case modulePackagePath importPath module of
        None \<Rightarrow> []
      | Some directory \<Rightarrow> filter (\<lambda>p. Dir p = directory \<and> packageAt contributions p \<noteq> []) (contributionPaths contributions))"

definition contributionForPath :: "Contribution list \<Rightarrow> str \<Rightarrow> Contribution option" where
  "contributionForPath contributions sourcePath = find (\<lambda>c. c_sourcePath c = sourcePath) contributions"

text \<open>The edges of a reference to one file of the package.\<close>

definition goTargetEdges :: "Contribution list \<Rightarrow> Node \<Rightarrow> UnresolvedReference \<Rightarrow> str \<Rightarrow> Edge list" where
  "goTargetEdges contributions source reference targetPath =
     (let edge = (\<lambda>t. \<lparr>e_SourceID = ur_SourceID reference, e_TargetID = t, e_Relation = ''go:imports_from'', e_Evidence = n_Evidence source\<rparr>) in
      case Option.bind (contributionOf contributions targetPath) fileFact of
        None \<Rightarrow> []
      | Some targetNode \<Rightarrow> edge (n_ID targetNode) # map (edge \<circ> es_NodeID) (case contributionOf contributions targetPath of
          None \<Rightarrow> [] | Some t \<Rightarrow> c_exportedSurfaces t))"

definition goWorkspaceReference :: "(str \<Rightarrow> str) \<Rightarrow> str \<Rightarrow> Contribution list \<Rightarrow> str \<Rightarrow> Node \<Rightarrow> UnresolvedReference \<Rightarrow> Resolution \<Rightarrow> Resolution" where
  "goWorkspaceReference quote module contributions sourcePath source reference resolution =
     (let targetPaths = packageFiles (ur_Target reference) module contributions in
      if targetPaths = []
      then (if HasPrefix (ur_Target reference) (module @ slashes) \<or> ur_Target reference = module
            then resolution\<lparr>rl_diagnostics := rl_diagnostics resolution @ [goPackageNotIndexed quote (ur_Target reference) sourcePath]\<rparr>
            else resolution)
      else resolution\<lparr>rl_Edges := rl_Edges resolution @ concat (map (goTargetEdges contributions source reference) targetPaths)\<rparr>)"

definition goWorkspaceSource :: "(str \<Rightarrow> str) \<Rightarrow> str \<Rightarrow> Contribution list \<Rightarrow> str \<Rightarrow> Resolution \<Rightarrow> Resolution" where
  "goWorkspaceSource quote module contributions sourcePath resolution =
     (case (Option.bind (contributionOf contributions sourcePath) fileFact, contributionForPath contributions sourcePath) of
        (Some source, Some contribution) \<Rightarrow>
          fold (goWorkspaceReference quote module contributions sourcePath source) (c_unresolvedReferences contribution) resolution
      | _ \<Rightarrow> resolution)"

definition callableSurface :: "str \<Rightarrow> Contribution list \<Rightarrow> bool" where
  "callableSurface nodeID contributions = callableTargetSurface nodeID (concat (map (\<lambda>c. f_Nodes (c_facts c)) contributions))"

record package_call =
  pk_matches :: "str list"
  pk_matchingImport :: bool
  pk_resolvedPackage :: bool

definition packageImported :: "str \<Rightarrow> Contribution list \<Rightarrow> str \<Rightarrow> str \<Rightarrow> UnresolvedReference \<Rightarrow> package_call \<Rightarrow> package_call" where
  "packageImported module contributions name symbolName imported search =
     (if Base (ur_Target imported) \<noteq> name then search
      else (let search = search\<lparr>pk_matchingImport := True\<rparr>; targetPaths = packageFiles (ur_Target imported) module contributions in
            if targetPaths = [] then search
            else search\<lparr>pk_resolvedPackage := True, pk_matches := pk_matches search @ concat (map (\<lambda>targetPath.
                map es_NodeID (filter (\<lambda>s. es_Name s = symbolName \<and> callableSurface (es_NodeID s) contributions)
                  (case contributionOf contributions targetPath of None \<Rightarrow> [] | Some t \<Rightarrow> c_exportedSurfaces t))) targetPaths)\<rparr>))"

definition packageCallFact :: "(str \<Rightarrow> str) \<Rightarrow> str \<Rightarrow> Contribution list \<Rightarrow> Contribution \<Rightarrow> SymbolReference \<Rightarrow> Resolution \<Rightarrow> Resolution" where
  "packageCallFact quote module contributions contribution reference resolution =
     (if sr_Relation reference \<noteq> ''go:calls'' then resolution
      else case CutAt (CHR ''.'') (sr_Target reference) of
        None \<Rightarrow> resolution
      | Some (name, symbolName) \<Rightarrow>
          (let search = fold (packageImported module contributions name symbolName) (c_unresolvedReferences contribution)
                 \<lparr>pk_matches = [], pk_matchingImport = False, pk_resolvedPackage = False\<rparr>;
               unsupported = resolution\<lparr>rl_diagnostics := rl_diagnostics resolution @ [goCallUnsupported quote (sr_Target reference) (c_sourcePath contribution)]\<rparr> in
           if \<not> pk_matchingImport search then unsupported
           else if \<not> pk_resolvedPackage search then resolution
           else if length (pk_matches search) \<noteq> 1 then unsupported
           else resolution\<lparr>rl_Edges := rl_Edges resolution @
             [\<lparr>e_SourceID = sr_SourceID reference, e_TargetID = hd (pk_matches search), e_Relation = ''go:calls'', e_Evidence = sr_Evidence reference\<rparr>]\<rparr>))"

definition appendPackageCallFacts :: "(str \<Rightarrow> str) \<Rightarrow> str \<Rightarrow> Contribution list \<Rightarrow> Resolution \<Rightarrow> Resolution" where
  "appendPackageCallFacts quote module contributions =
     fold (\<lambda>c. fold (packageCallFact quote module contributions c) (c_symbolReferences c)) contributions"

text \<open>
  The tables of the implementation facts. The map of types by package is ranged over in an unspecified order; here its keys
  are kept in the order of their first type. The sets of methods are lists.
\<close>

record package_tables =
  pt_methodsByType :: "str \<Rightarrow> str list"
  pt_typesByPackage :: "(str \<times> Node list) list"
  pt_interfaces :: "str \<Rightarrow> SymbolReference list"
  pt_packageByNodeID :: "str \<Rightarrow> str"

fun appendAt :: "str \<Rightarrow> 'a \<Rightarrow> (str \<times> 'a list) list \<Rightarrow> (str \<times> 'a list) list" where
  "appendAt k v [] = [(k, [v])]"
| "appendAt k v ((k', vs) # entries) = (if k' = k then (k', vs @ [v]) # entries else (k', vs) # appendAt k v entries)"

definition methodKey :: "str \<Rightarrow> str \<Rightarrow> str" where
  "methodKey package typeName = package @ nul @ typeName"

definition tableNode :: "Node \<Rightarrow> package_tables \<times> str \<Rightarrow> package_tables \<times> str" where
  "tableNode node state =
     (case state of (tables, package) \<Rightarrow>
      let package = (if n_Kind node = ''go:package'' then n_Label node else package);
          tables = (if n_Kind node = ''go:type''
            then tables\<lparr>pt_typesByPackage := appendAt package node (pt_typesByPackage tables),
                   pt_packageByNodeID := (pt_packageByNodeID tables)(n_ID node := package)\<rparr>
            else tables);
          typeName = receiverTypeFromQualifiedName (n_QualifiedName node);
          tables = (if n_Kind node = ''go:method'' \<and> typeName \<noteq> []
            then (let key = methodKey package typeName in
              tables\<lparr>pt_methodsByType := (pt_methodsByType tables)(key := n_Label node # pt_methodsByType tables key)\<rparr>)
            else tables) in
      (tables, package))"

definition tableReference :: "SymbolReference \<Rightarrow> package_tables \<Rightarrow> package_tables" where
  "tableReference reference tables =
     (if sr_Relation reference = ''go:implements'' \<or> sr_Relation reference = ''go:embeds''
      then tables\<lparr>pt_interfaces := (pt_interfaces tables)(sr_SourceID reference := pt_interfaces tables (sr_SourceID reference) @ [reference])\<rparr>
      else tables)"

definition tableContribution :: "Contribution \<Rightarrow> package_tables \<Rightarrow> package_tables" where
  "tableContribution contribution tables =
     fold tableReference (c_symbolReferences contribution) (fst (fold tableNode (f_Nodes (c_facts contribution)) (tables, [])))"

definition packageTables :: "Contribution list \<Rightarrow> package_tables" where
  "packageTables contributions =
     fold tableContribution contributions
       \<lparr>pt_methodsByType = (\<lambda>_. []), pt_typesByPackage = [], pt_interfaces = (\<lambda>_. []), pt_packageByNodeID = (\<lambda>_. [])\<rparr>"

definition contractEdges :: "package_tables \<Rightarrow> Node list \<Rightarrow> Node \<Rightarrow> Edge list" where
  "contractEdges tables types contract =
     (let references = pt_interfaces tables (n_ID contract) in
      if references = [] then []
      else map (\<lambda>i. \<lparr>e_SourceID = n_ID i, e_TargetID = n_ID contract, e_Relation = ''go:implements'', e_Evidence = n_Evidence i\<rparr>)
             (filter (\<lambda>i. n_ID i \<noteq> n_ID contract \<and>
                implementsAll (pt_methodsByType tables (methodKey (pt_packageByNodeID tables (n_ID i)) (n_Label i)))
                  (relationReferences references ''go:implements'')) types) @
           concat (map (\<lambda>r. map (\<lambda>t. \<lparr>e_SourceID = n_ID contract, e_TargetID = n_ID t, e_Relation = ''go:embeds'', e_Evidence = sr_Evidence r\<rparr>)
             (filter (\<lambda>t. n_Label t = sr_Target r) types)) (relationReferences references ''go:embeds'')))"

definition implementationEdges :: "Contribution list \<Rightarrow> Edge list" where
  "implementationEdges contributions =
     (let tables = packageTables contributions in
      concat (map (\<lambda>(_, types). concat (map (contractEdges tables types) types)) (pt_typesByPackage tables)))"

text \<open>The nodes of the result stay in the unspecified order of ranging over the map of nodes.\<close>

definition goResolve :: "(str \<Rightarrow> str) \<Rightarrow> Contribution list \<Rightarrow> ResolverFileView \<Rightarrow> 'e resolve_error + Resolution" where
  "goResolve quote contributions view =
     bindE (checkE requireFile contributions) (\<lambda>_.
     let module = modulePath view;
         resolution = fold (goWorkspaceSource quote module contributions) (contributionPaths contributions)
           \<lparr>rl_Nodes = goCollectNodes contributions, rl_Edges = [], rl_diagnostics = []\<rparr>;
         resolution = appendPackageCallFacts quote module contributions resolution in
     finishResolution goResolverVocabulary
       (resolution\<lparr>rl_Edges := goSortedFacts (rl_Edges resolution @ implementationEdges contributions)\<rparr>))"

end
