(* ===== verification/Resolve_Go_Page.thy ===== *)
theory Resolve_Go_Page
  imports Resolve_Go Resolve_Pages Store_Read
begin

text \<open>
  What a Go page resolves to. The locale \<open>package_lister\<close> states what the resolver relies on of its index: the pages
  of a package are windows of one sorted listing. Over such an index every loop of the resolver
  returns, and the edges of a page are those of its sources, each a function of the listings alone; the store keeps
  the law for every version.
\<close>

section \<open>The edges of a source\<close>

definition importEdges :: "UnresolvedReference \<Rightarrow> Node \<Rightarrow> ResolverTarget \<Rightarrow> Edge list" where
  "importEdges r source t =
     (let edge = (\<lambda>t. \<lparr>e_SourceID = ur_SourceID r, e_TargetID = t, e_Relation = ''go:imports_from'', e_Evidence = n_Evidence source\<rparr>) in
      edge (n_ID (the (targetFile (tg_Nodes t)))) # map (edge \<circ> es_NodeID) (tg_ExportedSurfaces t))"

definition goImportEdges :: "(str \<Rightarrow> ResolverTarget list) \<Rightarrow> str \<Rightarrow> Node \<Rightarrow> UnresolvedReference \<Rightarrow> Edge list" where
  "goImportEdges targets module source r =
     (case modulePackagePath (ur_Target r) module of None \<Rightarrow> [] | Some pp \<Rightarrow> concat (map (importEdges r source) (targets pp)))"

lemma modulePackagePath_nonempty:
  assumes "modulePackagePath p m = Some pp" "p \<noteq> m @ slashes"
  shows "pp \<noteq> []"
proof (cases "p = m")
  case True
  then show ?thesis using assms(1) by (auto simp: modulePackagePath_def split: if_splits)
next
  case False
  with assms(1) have "HasPrefix p (m @ slashes)" "pp = TrimPrefix p (m @ slashes)" by (auto simp: modulePackagePath_def split: if_splits)
  moreover from this(1) obtain t where t: "p = (m @ slashes) @ t" unfolding HasPrefix_iff by blast
  ultimately have "pp = t" by (simp only: TrimPrefix_append)
  then show ?thesis using assms(2) t by auto
qed

text \<open>What the imports of a source export under a qualified name, as something that can be called.\<close>

definition callableSurfaces :: "str \<Rightarrow> ResolverTarget \<Rightarrow> str list" where
  "callableSurfaces symbolName t =
     map es_NodeID (filter (\<lambda>s. es_Name s = symbolName \<and> callableTargetSurface (es_NodeID s) (tg_Nodes t)) (tg_ExportedSurfaces t))"

definition goCallMatches :: "(str \<Rightarrow> ResolverTarget list) \<Rightarrow> str \<Rightarrow> str \<Rightarrow> str \<Rightarrow> UnresolvedReference list \<Rightarrow> str list" where
  "goCallMatches targets module name symbolName references =
     concat (map (\<lambda>r. if Base (ur_Target r) \<noteq> name then []
       else case modulePackagePath (ur_Target r) module of None \<Rightarrow> []
         | Some pp \<Rightarrow> concat (map (callableSurfaces symbolName) (targets pp))) references)"

definition goCallEdges :: "(str \<Rightarrow> ResolverTarget list) \<Rightarrow> str \<Rightarrow> Contribution \<Rightarrow> SymbolReference \<Rightarrow> Edge list" where
  "goCallEdges targets module c s =
     (if sr_Relation s \<noteq> ''go:calls'' then []
      else case CutAt (CHR ''.'') (sr_Target s) of None \<Rightarrow> []
        | Some (name, symbolName) \<Rightarrow>
            (case goCallMatches targets module name symbolName (c_unresolvedReferences c) of
               [x] \<Rightarrow> [\<lparr>e_SourceID = sr_SourceID s, e_TargetID = x, e_Relation = ''go:calls'', e_Evidence = sr_Evidence s\<rparr>]
             | _ \<Rightarrow> []))"

text \<open>The files of a package among its targets, and the methods a type has in them.\<close>

definition packageTargets :: "(str \<Rightarrow> ResolverTarget list) \<Rightarrow> str \<Rightarrow> str \<Rightarrow> ResolverTarget list" where
  "packageTargets targets packagePath name = filter (\<lambda>t. packageName (tg_Nodes t) = name) (targets packagePath)"

definition typeMethods :: "ResolverTarget list \<Rightarrow> str \<Rightarrow> str list" where
  "typeMethods ts typeName = concat (map (\<lambda>t. map n_Label (filter (\<lambda>n. n_Kind n = ''go:method'' \<and>
     receiverTypeFromQualifiedName (n_QualifiedName n) = typeName) (tg_Nodes t))) ts)"

definition goTypeEdges :: "(str \<Rightarrow> ResolverTarget list) \<Rightarrow> str \<Rightarrow> str \<Rightarrow> SymbolReference list \<Rightarrow> Node \<Rightarrow> Edge list" where
  "goTypeEdges targets packagePath name references current =
     (let ts = packageTargets targets packagePath name;
          others = (\<lambda>t. filter (\<lambda>n. n_Kind n = ''go:type'' \<and> n_ID n \<noteq> n_ID current) (tg_Nodes t)) in
      concat (map (\<lambda>t. map (\<lambda>n. \<lparr>e_SourceID = n_ID current, e_TargetID = n_ID n, e_Relation = ''go:implements'', e_Evidence = n_Evidence current\<rparr>)
        (filter (\<lambda>n. implementsAll (typeMethods ts (n_Label current))
           (relationReferencesForSource (tg_SymbolReferences t) (n_ID n) ''go:implements'')) (others t))) ts) @
      concat (map (\<lambda>t. concat (map (\<lambda>n. map (\<lambda>r. \<lparr>e_SourceID = n_ID current, e_TargetID = n_ID n, e_Relation = ''go:embeds'', e_Evidence = sr_Evidence r\<rparr>)
        (filter (\<lambda>r. n_Label n = sr_Target r) (relationReferencesForSource references (n_ID current) ''go:embeds''))) (others t))) ts))"

definition goTypesEdges :: "(str \<Rightarrow> ResolverTarget list) \<Rightarrow> Contribution \<Rightarrow> Edge list" where
  "goTypesEdges targets c =
     (let name = packageName (f_Nodes (c_facts c)) in
      if name = [] then []
      else concat (map (goTypeEdges targets (Dir (c_sourcePath c)) name (c_symbolReferences c))
        (filter (\<lambda>n. n_Kind n = ''go:type'') (f_Nodes (c_facts c)))))"

definition goSourceEdges :: "(str \<Rightarrow> ResolverTarget list) \<Rightarrow> str \<Rightarrow> Contribution \<Rightarrow> Edge list" where
  "goSourceEdges targets module c =
     concat (map (goImportEdges targets module (the (fileFact c))) (c_unresolvedReferences c)) @
     concat (map (goCallEdges targets module c) (c_symbolReferences c))"

section \<open>Loops that return\<close>

text \<open>
  The nodes a step adds are those of targets, and hold the given IDs. This needs IDs of their own in a universe that
  contains the nodes of all targets, and surfaces that are nodes of their target.
\<close>

definition resolverNodesOf :: "ResolverTarget \<Rightarrow> Node list" where
  "resolverNodesOf t = filter (\<lambda>n. goResolverNodeKind (n_Kind n)) (tg_Nodes t)"

definition regularTargets :: "(str \<Rightarrow> ResolverTarget list) \<Rightarrow> Node set \<Rightarrow> bool" where
  "regularTargets targets U \<longleftrightarrow> inj_on n_ID U \<and>
     (\<forall>packagePath. \<forall>t \<in> set (targets packagePath). set (resolverNodesOf t) \<subseteq> U \<and>
        (\<forall>s \<in> set (tg_ExportedSurfaces t). es_NodeID s \<in> n_ID ` set (resolverNodesOf t)))"

definition kept :: "Node set \<Rightarrow> Node list \<Rightarrow> bool" where
  "kept U ns \<longleftrightarrow> distinct (map n_ID ns) \<and> set ns \<subseteq> U"

definition growth :: "(str \<Rightarrow> ResolverTarget list) \<Rightarrow> Node set \<Rightarrow> Node list \<Rightarrow> Node list \<Rightarrow> str set \<Rightarrow> bool" where
  "growth targets U ns ns' ids \<longleftrightarrow>
     (regularTargets targets U \<and> kept U ns \<longrightarrow> kept U ns' \<and> set ns \<subseteq> set ns' \<and> ids \<subseteq> n_ID ` set ns')"

lemma growth_refl [simp]: "growth targets U ns ns {}"
  by (simp add: growth_def)

lemma growth_trans: "growth targets U ns ns1 ids1 \<Longrightarrow> growth targets U ns1 ns2 ids2 \<Longrightarrow> growth targets U ns ns2 (ids1 \<union> ids2)"
  unfolding growth_def by blast

lemma growth_mono: "growth targets U ns ns' ids \<Longrightarrow> ids' \<subseteq> ids \<Longrightarrow> growth targets U ns ns' ids'"
  unfolding growth_def by blast

lemma growth_same: "growth targets U ns ns' ids \<Longrightarrow> mset ns'' = mset ns' \<Longrightarrow> growth targets U ns ns'' ids"
  unfolding growth_def kept_def by (metis mset_eq_imp_distinct_iff mset_eq_setD mset_map)

lemma putNode_kept:
  assumes "inj_on n_ID U" "kept U ns" "n \<in> U"
  shows "kept U (putNode n ns) \<and> set (putNode n ns) = insert n (set ns)"
proof -
  have "m = n" if "m \<in> set ns" "n_ID m = n_ID n" for m
    using inj_onD [OF assms(1) that(2)] that(1) assms(2,3) by (auto simp: kept_def)
  then have "set (putNode n ns) = insert n (set ns)" by (auto simp: putNode_def)
  moreover have "distinct (map n_ID (putNode n ns))" using assms(2) by (auto simp: putNode_def kept_def intro: distinct_map_filterI)
  ultimately show ?thesis using assms(2,3) by (simp add: kept_def)
qed

lemma goPutNodes_kept:
  assumes "inj_on n_ID U" "kept U ns" "set (filter (\<lambda>n. goResolverNodeKind (n_Kind n)) added) \<subseteq> U"
  shows "kept U (goPutNodes added ns) \<and> set (goPutNodes added ns) = set ns \<union> set (filter (\<lambda>n. goResolverNodeKind (n_Kind n)) added)"
proof -
  have "kept U (fold putNode xs ns) \<and> set (fold putNode xs ns) = set ns \<union> set xs" if "set xs \<subseteq> U" for xs
    using that assms(2)
  proof (induction xs arbitrary: ns)
    case (Cons x xs)
    then show ?case using putNode_kept [OF assms(1) Cons.prems(2), of x] by simp
  qed simp
  from this [of "filter (\<lambda>n. goResolverNodeKind (n_Kind n)) added"] show ?thesis using assms(3) unfolding goPutNodes_def by auto
qed

lemma growth_target:
  assumes "t \<in> set (targets packagePath)" "ids \<subseteq> n_ID ` set (resolverNodesOf t)"
  shows "growth targets U ns (goPutNodes (tg_Nodes t) ns) ids"
  unfolding growth_def
proof
  assume regular: "regularTargets targets U \<and> kept U ns"
  then have "inj_on n_ID U" "set (filter (\<lambda>n. goResolverNodeKind (n_Kind n)) (tg_Nodes t)) \<subseteq> U"
    using assms(1) unfolding regularTargets_def resolverNodesOf_def by blast+
  from goPutNodes_kept [OF this(1) _ this(2), of ns] regular assms(2)
  show "kept U (goPutNodes (tg_Nodes t) ns) \<and> set ns \<subseteq> set (goPutNodes (tg_Nodes t) ns) \<and> ids \<subseteq> n_ID ` set (goPutNodes (tg_Nodes t) ns)"
    by (auto simp: resolverNodesOf_def)
qed

text \<open>A step that returns and adds edges of its own, and the loop over it.\<close>

definition addsEdges :: "(str \<Rightarrow> ResolverTarget list) \<Rightarrow> Node set \<Rightarrow> ('e resolve_error + Resolution) option \<Rightarrow> Resolution \<Rightarrow> Edge list \<Rightarrow> bool" where
  "addsEdges targets U outcome R edges \<longleftrightarrow> (\<exists>R'. outcome = Some (Inr R') \<and> rl_Edges R' = rl_Edges R @ edges \<and>
     growth targets U (rl_Nodes R) (rl_Nodes R') (e_TargetID ` set edges))"

lemma addsEdges_bind:
  assumes "addsEdges targets U m R edges" "\<And>R'. rl_Edges R' = rl_Edges R @ edges \<Longrightarrow> addsEdges targets U (f R') R' edges'"
  shows "addsEdges targets U (bindO m f) R (edges @ edges')"
proof -
  from assms(1) obtain R1 where R1: "m = Some (Inr R1)" "rl_Edges R1 = rl_Edges R @ edges"
    "growth targets U (rl_Nodes R) (rl_Nodes R1) (e_TargetID ` set edges)" by (auto simp: addsEdges_def)
  from assms(2) [OF R1(2)] obtain R2 where R2: "f R1 = Some (Inr R2)" "rl_Edges R2 = rl_Edges R1 @ edges'"
    "growth targets U (rl_Nodes R1) (rl_Nodes R2) (e_TargetID ` set edges')" by (auto simp: addsEdges_def)
  have "growth targets U (rl_Nodes R) (rl_Nodes R2) (e_TargetID ` set (edges @ edges'))"
    using growth_trans [OF R1(3) R2(3)] by (simp add: image_Un)
  with R1 R2 show ?thesis by (auto simp: addsEdges_def)
qed

lemma addsEdges_fold:
  assumes "\<And>x R. x \<in> set xs \<Longrightarrow> addsEdges targets U (f x R) R (g x)"
  shows "addsEdges targets U (foldO f xs R) R (concat (map g xs))"
  using assms
proof (induction xs arbitrary: R)
  case (Cons x xs)
  have "addsEdges targets U (bindO (f x R) (foldO f xs)) R (g x @ concat (map g xs))"
    by (rule addsEdges_bind) (use Cons in simp_all)
  then show ?case by simp
qed (simp add: addsEdges_def)

lemma addsEdges_none [simp]: "addsEdges targets U (Some (Inr R)) R []"
  by (simp add: addsEdges_def)

lemma JoinOn_nonempty: "cs \<noteq> [] \<Longrightarrow> \<forall>c \<in> set cs. c \<noteq> [] \<Longrightarrow> JoinOn d cs \<noteq> []"
  by (induction d cs rule: JoinOn.induct) auto

lemma Dir_nonempty: "Dir p \<noteq> []"
proof -
  have "Clean q \<noteq> []" for q
    using JoinOn_nonempty [of "path_comps q"] clean_form_no_slash [OF path_comps_form [of q]]
    by (auto simp: Clean_def Let_def)
  then show ?thesis by (simp add: Dir_def)
qed

section \<open>The interface\<close>

locale package_lister =
  fixes index :: "ResolverPackagePageRequest \<Rightarrow> 'e + ResolverTarget list" and project :: str
    and targets :: "str \<Rightarrow> ResolverTarget list" and ready :: bool
  assumes index_law: "ready \<Longrightarrow> packagePath \<noteq> [] \<Longrightarrow> index \<lparr>rp_ProjectID = project, rp_Language = ''go'', rp_PackagePath = packagePath,
        rp_AfterSourcePath = after, rp_Limit = resolverPackagePageSize\<rparr> =
      Inr (take (nat resolverPackagePageSize) (filter (\<lambda>t. after < tg_SourcePath t) (targets packagePath)))"
    and targets_sorted: "sorted (map tg_SourcePath (targets packagePath))"
    and targets_distinct: "ready \<Longrightarrow> distinct (map tg_SourcePath (targets packagePath))"
    and targets_named: "ready \<Longrightarrow> t \<in> set (targets packagePath) \<Longrightarrow> tg_SourcePath t \<noteq> []"
    and targets_file: "ready \<Longrightarrow> t \<in> set (targets packagePath) \<Longrightarrow> targetFile (tg_Nodes t) \<noteq> None"

sublocale package_lister \<subseteq> pages: paged_reader
  "\<lambda>after. liftE (PackageUnread packagePath) (index \<lparr>rp_ProjectID = project, rp_Language = ''go'', rp_PackagePath = packagePath,
     rp_AfterSourcePath = after, rp_Limit = resolverPackagePageSize\<rparr>)" tg_SourcePath
  "targets packagePath" tg_SourcePath Inr "nat resolverPackagePageSize" "ready \<and> packagePath \<noteq> []"
  for packagePath
proof unfold_locales
  have mapE_Inr: "mapE Inr xs = Inr xs" for xs :: "ResolverTarget list" by (induction xs) auto
  show "ready \<and> packagePath \<noteq> [] \<Longrightarrow> liftE (PackageUnread packagePath) (index \<lparr>rp_ProjectID = project, rp_Language = ''go'', rp_PackagePath = packagePath,
      rp_AfterSourcePath = after, rp_Limit = resolverPackagePageSize\<rparr>) =
    mapE Inr (take (nat resolverPackagePageSize) (filter (\<lambda>f. after < tg_SourcePath f) (targets packagePath)))" for after
    by (simp add: index_law mapE_Inr liftE_def)
qed (auto simp: targets_sorted resolverPackagePageSize_def)

context package_lister
begin

lemma visit_eq:
  assumes "ready" "packagePath \<noteq> []"
  shows "visitPackageTargets index project packagePath visit s = Some (foldE visit (targets packagePath) s)"
proof -
  have mapE_Inr: "mapE Inr xs = Inr xs" for xs :: "ResolverTarget list" by (induction xs) auto
  show ?thesis unfolding visitPackageTargets_def
    by (rule pages.pageLoop_items [OF conjI [OF assms] targets_distinct [OF assms(1)] targets_named [OF assms(1)] mapE_Inr])
qed

lemma grown:
  assumes "t \<in> set (targets pp)" "ids \<subseteq> n_ID ` set (resolverNodesOf t)"
  shows "growth targets U ns (goPutNodes (tg_Nodes t) ns) ids"
  by (rule growth_target [of t targets pp, OF assms])

lemma importEdges_targets:
  assumes "regularTargets targets U" "t \<in> set (targets pp)" "targetFile (tg_Nodes t) \<noteq> None"
  shows "e_TargetID ` set (importEdges r source t) \<subseteq> n_ID ` set (resolverNodesOf t)"
proof -
  obtain n where n: "targetFile (tg_Nodes t) = Some n" using assms(3) by blast
  then have "n \<in> set (resolverNodesOf t)" by (auto simp: resolverNodesOf_def goResolverNodeKind_def targetFile_def dest!: find_SomeD)
  moreover have "\<forall>s \<in> set (tg_ExportedSurfaces t). es_NodeID s \<in> n_ID ` set (resolverNodesOf t)"
    using assms(1,2) by (auto simp: regularTargets_def)
  ultimately show ?thesis by (auto simp: importEdges_def n Let_def)
qed

lemma importVisits_eq:
  assumes "\<forall>t \<in> set ts. targetFile (tg_Nodes t) \<noteq> None \<and> t \<in> set (targets pp)"
  shows "\<exists>R'. foldE (importVisit r source) ts (R, b) = (Inr (R', b \<or> ts \<noteq> []) :: 'e resolve_error + Resolution \<times> bool) \<and>
    rl_Edges R' = rl_Edges R @ concat (map (importEdges r source) ts) \<and>
    growth targets U (rl_Nodes R) (rl_Nodes R') (e_TargetID ` set (concat (map (importEdges r source) ts)))"
  using assms
proof (induction ts arbitrary: R b)
  case (Cons t ts)
  then obtain n where n: "targetFile (tg_Nodes t) = Some n" by auto
  obtain R1 where R1: "importVisit r source t (R, b) = (Inr (R1, True) :: 'e resolve_error + Resolution \<times> bool)" "rl_Edges R1 = rl_Edges R @ importEdges r source t"
    "rl_Nodes R1 = goPutNodes (tg_Nodes t) (rl_Nodes R)"
    by (simp add: importVisit_def importEdges_def n Let_def)
  have t: "t \<in> set (targets pp)" using Cons.prems by simp
  have g1: "growth targets U (rl_Nodes R) (rl_Nodes R1) (e_TargetID ` set (importEdges r source t))"
  proof (cases "regularTargets targets U")
    case True
    then show ?thesis unfolding R1(3) by (intro grown [OF t] importEdges_targets [OF True t]) (simp add: n)
  qed (simp add: growth_def)
  from Cons.IH [of R1 True] Cons.prems obtain R2 where R2: "foldE (importVisit r source) ts (R1, True) = (Inr (R2, True) :: 'e resolve_error + Resolution \<times> bool)"
    "rl_Edges R2 = rl_Edges R1 @ concat (map (importEdges r source) ts)"
    "growth targets U (rl_Nodes R1) (rl_Nodes R2) (e_TargetID ` set (concat (map (importEdges r source) ts)))" by auto
  have "growth targets U (rl_Nodes R) (rl_Nodes R2) (e_TargetID ` set (concat (map (importEdges r source) (t # ts))))"
    using growth_trans [OF g1 R2(3)] by (simp add: image_Un)
  then show ?case using R1(1,2) R2(1,2) by simp
qed simp

lemma goPageReference_adds:
  assumes "ready" "ur_Target r \<noteq> module @ slashes"
  shows "addsEdges targets U (goPageReference quote index project module p source r R) R (goImportEdges targets module source r)"
proof (cases "modulePackagePath (ur_Target r) module")
  case (Some pp)
  then have "pp \<noteq> []" using assms(2) by (rule modulePackagePath_nonempty)
  moreover have edges: "goImportEdges targets module source r = concat (map (importEdges r source) (targets pp))" using Some by (simp add: goImportEdges_def)
  moreover obtain R' where R': "foldE (importVisit r source) (targets pp) (R, False) = (Inr (R', targets pp \<noteq> []) :: 'e resolve_error + Resolution \<times> bool)"
    "rl_Edges R' = rl_Edges R @ goImportEdges targets module source r"
    "growth targets U (rl_Nodes R) (rl_Nodes R') (e_TargetID ` set (goImportEdges targets module source r))"
    using importVisits_eq [of "targets pp" pp r source R False U] targets_file [OF assms(1)] edges by auto
  ultimately have "goPageReference quote index project module p source r R = Some (Inr (if targets pp \<noteq> [] then R'
      else R'\<lparr>rl_diagnostics := rl_diagnostics R' @ [goPackageNotIndexed quote (ur_Target r) p]\<rparr>))"
    using Some by (simp add: goPageReference_def visit_eq [OF assms(1)])
  then show ?thesis using R'(2,3) by (simp add: addsEdges_def)
qed (simp add: goPageReference_def goImportEdges_def)

lemma callableSurfaces_nodes: "set (callableSurfaces symbolName t) \<subseteq> n_ID ` set (resolverNodesOf t)"
proof
  fix i
  assume "i \<in> set (callableSurfaces symbolName t)"
  then have "callableTargetSurface i (tg_Nodes t)" by (auto simp: callableSurfaces_def)
  then obtain n where "find (\<lambda>n. n_ID n = i) (tg_Nodes t) = Some n" "n_Kind n = ''go:function'' \<or> n_Kind n = ''go:method''"
    by (auto simp: callableTargetSurface_def split: option.splits)
  then show "i \<in> n_ID ` set (resolverNodesOf t)" by (auto simp: resolverNodesOf_def goResolverNodeKind_def dest!: find_SomeD)
qed

lemma callVisits_eq:
  assumes "set ts \<subseteq> set (targets pp)"
  shows "\<exists>R'. foldE (callVisit symbolName) ts \<lparr>cl_resolution = R, cl_matches = ms, cl_matchingImport = b\<rparr> =
     (Inr \<lparr>cl_resolution = R', cl_matches = ms @ concat (map (callableSurfaces symbolName) ts), cl_matchingImport = b\<rparr> ::
        'e resolve_error + call_search) \<and> rl_Edges R' = rl_Edges R \<and>
     growth targets U (rl_Nodes R) (rl_Nodes R') (set (concat (map (callableSurfaces symbolName) ts)))"
  using assms
proof (induction ts arbitrary: R ms)
  case (Cons t ts)
  let ?R = "R\<lparr>rl_Nodes := goPutNodes (tg_Nodes t) (rl_Nodes R)\<rparr>"
  have step: "callVisit symbolName t \<lparr>cl_resolution = R, cl_matches = ms, cl_matchingImport = b\<rparr> =
     (Inr \<lparr>cl_resolution = ?R, cl_matches = ms @ callableSurfaces symbolName t, cl_matchingImport = b\<rparr> :: 'e resolve_error + call_search)"
    by (simp add: callVisit_def callableSurfaces_def)
  have g1: "growth targets U (rl_Nodes R) (rl_Nodes ?R) (set (callableSurfaces symbolName t))"
    using grown [OF _ callableSurfaces_nodes, of t pp] Cons.prems by simp
  have "set ts \<subseteq> set (targets pp)" using Cons.prems by simp
  from Cons.IH [OF this, of ?R "ms @ callableSurfaces symbolName t"] obtain R2 where
    R2: "foldE (callVisit symbolName) ts \<lparr>cl_resolution = ?R, cl_matches = ms @ callableSurfaces symbolName t, cl_matchingImport = b\<rparr> =
      (Inr \<lparr>cl_resolution = R2, cl_matches = (ms @ callableSurfaces symbolName t) @ concat (map (callableSurfaces symbolName) ts), cl_matchingImport = b\<rparr> ::
        'e resolve_error + call_search)" "rl_Edges R2 = rl_Edges ?R"
    "growth targets U (rl_Nodes ?R) (rl_Nodes R2) (set (concat (map (callableSurfaces symbolName) ts)))" by (elim exE conjE)
  have "growth targets U (rl_Nodes R) (rl_Nodes R2) (set (concat (map (callableSurfaces symbolName) (t # ts))))"
    using growth_trans [OF g1 R2(3)] by simp
  then show ?case using step R2(1,2) by simp
qed simp

lemma goPageImports_eq:
  assumes "ready" "\<forall>r \<in> set rs. ur_Target r \<noteq> module @ slashes"
  shows "\<exists>R'. foldO (goPageImported index project module name symbolName) rs \<lparr>cl_resolution = R, cl_matches = ms, cl_matchingImport = b\<rparr> =
     Some (Inr \<lparr>cl_resolution = R', cl_matches = ms @ goCallMatches targets module name symbolName rs,
       cl_matchingImport = (b \<or> (\<exists>r \<in> set rs. Base (ur_Target r) = name))\<rparr>) \<and> rl_Edges R' = rl_Edges R \<and>
     growth targets U (rl_Nodes R) (rl_Nodes R') (set (goCallMatches targets module name symbolName rs))"
  using assms(2)
proof (induction rs arbitrary: R ms b)
  case Nil
  then show ?case by (simp add: goCallMatches_def)
next
  case (Cons r rs)
  let ?ms = "goCallMatches targets module name symbolName"
  obtain R1 where R1: "goPageImported index project module name symbolName r \<lparr>cl_resolution = R, cl_matches = ms, cl_matchingImport = b\<rparr> =
     Some (Inr \<lparr>cl_resolution = R1, cl_matches = ms @ ?ms [r], cl_matchingImport = (b \<or> Base (ur_Target r) = name)\<rparr>)"
    "rl_Edges R1 = rl_Edges R" "growth targets U (rl_Nodes R) (rl_Nodes R1) (set (?ms [r]))"
  proof (cases "Base (ur_Target r) = name \<and> modulePackagePath (ur_Target r) module \<noteq> None")
    case True
    then obtain pp where pp: "modulePackagePath (ur_Target r) module = Some pp" by auto
    then have "pp \<noteq> []" using Cons.prems by (intro modulePackagePath_nonempty) auto
    moreover have "?ms [r] = concat (map (callableSurfaces symbolName) (targets pp))" using True pp by (simp add: goCallMatches_def)
    ultimately show ?thesis using that True pp callVisits_eq [of "targets pp" pp symbolName R ms True U]
      by (auto simp: goPageImported_def visit_eq [OF assms(1)] simp del: set_concat)
  next
    case False
    then show ?thesis using that [of R] by (auto simp: goPageImported_def goCallMatches_def)
  qed
  have matches: "?ms (r # rs) = ?ms [r] @ ?ms rs" by (simp add: goCallMatches_def)
  have "\<forall>r \<in> set rs. ur_Target r \<noteq> module @ slashes" using Cons.prems by simp
  from Cons.IH [OF this, of R1 "ms @ ?ms [r]" "b \<or> Base (ur_Target r) = name"] obtain R2 where
    R2: "foldO (goPageImported index project module name symbolName) rs \<lparr>cl_resolution = R1,
        cl_matches = ms @ ?ms [r], cl_matchingImport = (b \<or> Base (ur_Target r) = name)\<rparr> =
      Some (Inr \<lparr>cl_resolution = R2, cl_matches = (ms @ ?ms [r]) @ ?ms rs,
        cl_matchingImport = ((b \<or> Base (ur_Target r) = name) \<or> (\<exists>r \<in> set rs. Base (ur_Target r) = name))\<rparr>)" "rl_Edges R2 = rl_Edges R1"
    "growth targets U (rl_Nodes R1) (rl_Nodes R2) (set (?ms rs))"
    by (elim exE conjE)
  have "growth targets U (rl_Nodes R) (rl_Nodes R2) (set (?ms (r # rs)))" using growth_trans [OF R1(3) R2(3)] by (simp add: matches)
  then show ?case using R1(1,2) R2(1,2) by (simp add: matches disj_assoc eq_commute)
qed

lemma goCallMatches_imported: "goCallMatches targets module name symbolName rs \<noteq> [] \<Longrightarrow> \<exists>r \<in> set rs. Base (ur_Target r) = name"
  by (auto simp: goCallMatches_def split: if_splits)

lemma goPageCall_adds:
  assumes "ready" "\<forall>r \<in> set (c_unresolvedReferences c). ur_Target r \<noteq> module @ slashes"
  shows "addsEdges targets U (goPageCall quote index project module c s R) R (goCallEdges targets module c s)"
proof (cases "sr_Relation s \<noteq> ''go:calls'' \<or> CutAt (CHR ''.'') (sr_Target s) = None")
  case True
  then show ?thesis by (auto simp: goPageCall_def goCallEdges_def)
next
  case False
  then obtain name symbolName where cut: "CutAt (CHR ''.'') (sr_Target s) = Some (name, symbolName)" by auto
  let ?ms = "goCallMatches targets module name symbolName (c_unresolvedReferences c)"
  from goPageImports_eq [OF assms, of name symbolName R "[]" False U] obtain R' where
    R': "foldO (goPageImported index project module name symbolName) (c_unresolvedReferences c)
      \<lparr>cl_resolution = R, cl_matches = [], cl_matchingImport = False\<rparr> = Some (Inr \<lparr>cl_resolution = R', cl_matches = ?ms,
       cl_matchingImport = (\<exists>r \<in> set (c_unresolvedReferences c). Base (ur_Target r) = name)\<rparr>)" "rl_Edges R' = rl_Edges R"
    "growth targets U (rl_Nodes R) (rl_Nodes R') (set ?ms)"
    by auto
  show ?thesis
  proof (cases "length ?ms = 1")
    case True
    then obtain x where x: "?ms = [x]" by (auto simp: length_Suc_conv)
    then show ?thesis using False cut R' goCallMatches_imported [of module name symbolName "c_unresolvedReferences c"]
      by (simp add: goPageCall_def goCallEdges_def addsEdges_def Let_def)
  next
    case other: False
    then have "goCallEdges targets module c s = []"
      using False cut by (auto simp: goCallEdges_def split: list.splits)
    then show ?thesis using False cut R' other growth_mono [OF R'(3), of "{}"] by (simp add: goPageCall_def addsEdges_def Let_def)
  qed
qed

lemma methodVisits_eq:
  assumes "set ts \<subseteq> set (targets pp)"
  shows "\<exists>nodes'. foldE (methodVisit name typeName) ts (nodes, ms) =
     (Inr (nodes', ms @ typeMethods (filter (\<lambda>t. packageName (tg_Nodes t) = name) ts) typeName) :: 'e resolve_error + Node list \<times> str list) \<and>
     growth targets U nodes nodes' {}"
  using assms
proof (induction ts arbitrary: nodes ms)
  case (Cons t ts)
  have ts: "set ts \<subseteq> set (targets pp)" and t: "t \<in> set (targets pp)" using Cons.prems by simp_all
  show ?case
  proof (cases "packageName (tg_Nodes t) = name")
    case True
    then have step: "methodVisit name typeName t (nodes, ms) =
        (Inr (goPutNodes (tg_Nodes t) nodes, ms @ typeMethods [t] typeName) :: 'e resolve_error + Node list \<times> str list)"
      by (simp add: methodVisit_def typeMethods_def)
    from Cons.IH [OF ts, of "goPutNodes (tg_Nodes t) nodes" "ms @ typeMethods [t] typeName"] obtain nodes' where
      IH: "foldE (methodVisit name typeName) ts (goPutNodes (tg_Nodes t) nodes, ms @ typeMethods [t] typeName) =
        (Inr (nodes', (ms @ typeMethods [t] typeName) @ typeMethods (filter (\<lambda>t. packageName (tg_Nodes t) = name) ts) typeName) ::
          'e resolve_error + Node list \<times> str list)" "growth targets U (goPutNodes (tg_Nodes t) nodes) nodes' {}" by (elim exE conjE)
    have "growth targets U nodes nodes' {}" using growth_trans [OF grown [OF t empty_subsetI] IH(2)] by simp
    then show ?thesis using True IH(1) by (intro exI [of _ nodes']) (simp add: step, simp add: typeMethods_def)
  next
    case False
    then have "methodVisit name typeName t (nodes, ms) = (Inr (nodes, ms) :: 'e resolve_error + Node list \<times> str list)"
      by (simp add: methodVisit_def)
    then show ?thesis using Cons.IH [OF ts, of nodes ms] False by simp
  qed
qed (simp add: typeMethods_def)

text \<open>A visit that adds the edges of each file of the package.\<close>

lemma visits_add:
  assumes "\<And>t R. visit t R = Inr (if name \<noteq> packageName (tg_Nodes t) then R else add t R)"
    "\<And>t R. rl_Edges (add t R) = rl_Edges R @ g t" "\<And>t R. rl_Nodes (add t R) = goPutNodes (tg_Nodes t) (rl_Nodes R)"
    "\<And>t. e_TargetID ` set (g t) \<subseteq> n_ID ` set (resolverNodesOf t)" "set ts \<subseteq> set (targets pp)"
  shows "\<exists>R'. foldE visit ts R = (Inr R' :: 'e resolve_error + Resolution) \<and>
    rl_Edges R' = rl_Edges R @ concat (map g (filter (\<lambda>t. packageName (tg_Nodes t) = name) ts)) \<and>
    growth targets U (rl_Nodes R) (rl_Nodes R') (e_TargetID ` set (concat (map g (filter (\<lambda>t. packageName (tg_Nodes t) = name) ts))))"
  using assms(5)
proof (induction ts arbitrary: R)
  case (Cons t ts)
  let ?g = "if packageName (tg_Nodes t) = name then g t else []"
  have ts: "set ts \<subseteq> set (targets pp)" and t: "t \<in> set (targets pp)" using Cons.prems by simp_all
  obtain R1 where R1: "visit t R = Inr R1" "rl_Edges R1 = rl_Edges R @ ?g"
    "growth targets U (rl_Nodes R) (rl_Nodes R1) (e_TargetID ` set ?g)"
  proof (cases "packageName (tg_Nodes t) = name")
    case True
    then show ?thesis using that [of "add t R"] assms(1-3) grown [OF t assms(4)] by simp
  next
    case False
    then show ?thesis using that [of R] assms(1) by auto
  qed
  from Cons.IH [OF ts, of R1] obtain R2 where R2: "foldE visit ts R1 = (Inr R2 :: 'e resolve_error + Resolution)"
    "rl_Edges R2 = rl_Edges R1 @ concat (map g (filter (\<lambda>t. packageName (tg_Nodes t) = name) ts))"
    "growth targets U (rl_Nodes R1) (rl_Nodes R2) (e_TargetID ` set (concat (map g (filter (\<lambda>t. packageName (tg_Nodes t) = name) ts))))"
    by (elim exE conjE)
  have "e_TargetID ` set (concat (map g (filter (\<lambda>t. packageName (tg_Nodes t) = name) (t # ts)))) =
      e_TargetID ` set ?g \<union> e_TargetID ` set (concat (map g (filter (\<lambda>t. packageName (tg_Nodes t) = name) ts)))"
    by (simp add: image_Un)
  with growth_trans [OF R1(3) R2(3)]
  have "growth targets U (rl_Nodes R) (rl_Nodes R2) (e_TargetID ` set (concat (map g (filter (\<lambda>t. packageName (tg_Nodes t) = name) (t # ts)))))"
    by (simp only:)
  then show ?case using R1(1,2) R2(1,2) by (intro exI [of _ R2] conjI) simp_all
qed simp

lemma goPageType_adds:
  assumes "ready" "packagePath \<noteq> []"
  shows "addsEdges targets U (goPageType index project packagePath name references current R) R (goTypeEdges targets packagePath name references current)"
proof -
  let ?ts = "packageTargets targets packagePath name" and ?methods = "typeMethods (packageTargets targets packagePath name) (n_Label current)"
  let ?embeds = "relationReferencesForSource references (n_ID current) ''go:embeds''"
  let ?others = "\<lambda>t. filter (\<lambda>n. n_Kind n = ''go:type'' \<and> n_ID n \<noteq> n_ID current) (tg_Nodes t)"
  let ?I = "\<lambda>t. map (\<lambda>n. \<lparr>e_SourceID = n_ID current, e_TargetID = n_ID n, e_Relation = ''go:implements'', e_Evidence = n_Evidence current\<rparr>)
        (filter (\<lambda>n. implementsAll ?methods (relationReferencesForSource (tg_SymbolReferences t) (n_ID n) ''go:implements'')) (?others t))"
  let ?E = "\<lambda>t. concat (map (\<lambda>n. map (\<lambda>r. \<lparr>e_SourceID = n_ID current, e_TargetID = n_ID n, e_Relation = ''go:embeds'', e_Evidence = sr_Evidence r\<rparr>)
        (filter (\<lambda>r. n_Label n = sr_Target r) ?embeds)) (?others t))"
  let ?part = "filter (\<lambda>t. packageName (tg_Nodes t) = name) (targets packagePath)"
  have ts: "?ts = ?part" by (simp add: packageTargets_def)
  have edges: "goTypeEdges targets packagePath name references current = concat (map ?I ?ts) @ concat (map ?E ?ts)"
    by (simp add: goTypeEdges_def Let_def)
  have others: "e_TargetID ` set (?I t) \<subseteq> n_ID ` set (resolverNodesOf t)" "e_TargetID ` set (?E t) \<subseteq> n_ID ` set (resolverNodesOf t)" for t
    by (auto simp: resolverNodesOf_def goResolverNodeKind_def)
  obtain nodes where nodes: "foldE (methodVisit name (n_Label current)) (targets packagePath) (rl_Nodes R, []) = (Inr (nodes, ?methods) :: 'e resolve_error + Node list \<times> str list)"
    "growth targets U (rl_Nodes R) nodes {}"
    using methodVisits_eq [of "targets packagePath" packagePath name "n_Label current" "rl_Nodes R" "[]" U] by (auto simp: ts)
  have "\<exists>R'. foldE (implementsVisit name current ?methods) (targets packagePath) (R\<lparr>rl_Nodes := nodes\<rparr>) = (Inr R' :: 'e resolve_error + Resolution) \<and>
      rl_Edges R' = rl_Edges (R\<lparr>rl_Nodes := nodes\<rparr>) @ concat (map ?I ?part) \<and>
      growth targets U (rl_Nodes (R\<lparr>rl_Nodes := nodes\<rparr>)) (rl_Nodes R') (e_TargetID ` set (concat (map ?I ?part)))"
    by (rule visits_add [where pp = packagePath, OF _ _ _ others(1)]) (auto simp: implementsVisit_def conj_ac)
  then obtain R1 where R1: "foldE (implementsVisit name current ?methods) (targets packagePath) (R\<lparr>rl_Nodes := nodes\<rparr>) = (Inr R1 :: 'e resolve_error + Resolution)"
    "rl_Edges R1 = rl_Edges R @ concat (map ?I ?ts)" "growth targets U nodes (rl_Nodes R1) (e_TargetID ` set (concat (map ?I ?ts)))"
    by (auto simp: ts simp del: set_concat)
  have "\<exists>R'. foldE (embedsVisit name current ?embeds) (targets packagePath) R1 = (Inr R' :: 'e resolve_error + Resolution) \<and>
      rl_Edges R' = rl_Edges R1 @ concat (map ?E ?part) \<and> growth targets U (rl_Nodes R1) (rl_Nodes R') (e_TargetID ` set (concat (map ?E ?part)))"
    by (rule visits_add [where pp = packagePath, OF _ _ _ others(2)]) (auto simp: embedsVisit_def)
  then obtain R2 where R2: "foldE (embedsVisit name current ?embeds) (targets packagePath) R1 = (Inr R2 :: 'e resolve_error + Resolution)"
    "rl_Edges R2 = rl_Edges R1 @ concat (map ?E ?ts)" "growth targets U (rl_Nodes R1) (rl_Nodes R2) (e_TargetID ` set (concat (map ?E ?ts)))"
    by (auto simp: ts simp del: set_concat)
  let ?R' = "if ?embeds = [] then R1 else R2"
  have outcome: "goPageType index project packagePath name references current R = Some (Inr ?R')"
    using nodes(1) R1(1) R2(1) by (simp add: goPageType_def visit_eq [OF assms] Let_def)
  have none: "concat (map ?E ?ts) = []" if "?embeds = []" using that by simp
  have g1: "growth targets U (rl_Nodes R) (rl_Nodes R1) (e_TargetID ` set (concat (map ?I ?ts)))"
    using growth_trans [OF nodes(2) R1(3)] by simp
  have "growth targets U (rl_Nodes R) (rl_Nodes ?R') (e_TargetID ` set (concat (map ?I ?ts) @ concat (map ?E ?ts)))"
  proof (cases "?embeds = []")
    case True
    show ?thesis unfolding none [OF True] using g1 True by (simp only: append_Nil2 if_True simp_thms)
  next
    case False
    then show ?thesis using growth_trans [OF g1 R2(3)] by (simp only: set_append image_Un if_False)
  qed
  moreover have "rl_Edges ?R' = rl_Edges R @ concat (map ?I ?ts) @ concat (map ?E ?ts)" using R1(2) R2(2) none by auto
  ultimately show ?thesis unfolding addsEdges_def edges outcome by (intro exI conjI) (rule refl)
qed

lemma goPageSource_adds:
  assumes "ready" "contributionOf cs p = Some c" "fileFact c \<noteq> None"
    "\<forall>r \<in> set (c_unresolvedReferences c). ur_Target r \<noteq> module @ slashes"
  shows "addsEdges targets U (goPageSource quote index project module cs p R) R (goSourceEdges targets module c)"
proof -
  from assms(3) obtain n where n: "fileFact c = Some n" by blast
  have "addsEdges targets U (bindO (foldO (goPageReference quote index project module p n) (c_unresolvedReferences c) R)
      (foldO (goPageCall quote index project module c) (c_symbolReferences c))) R
    (concat (map (goImportEdges targets module n) (c_unresolvedReferences c)) @
     concat (map (goCallEdges targets module c) (c_symbolReferences c)))"
  proof (rule addsEdges_bind)
    show "addsEdges targets U (foldO (goPageReference quote index project module p n) (c_unresolvedReferences c) R) R
        (concat (map (goImportEdges targets module n) (c_unresolvedReferences c)))"
      by (rule addsEdges_fold, rule goPageReference_adds) (use assms(1,4) in auto)
    show "addsEdges targets U (foldO (goPageCall quote index project module c) (c_symbolReferences c) R') R'
        (concat (map (goCallEdges targets module c) (c_symbolReferences c)))" for R'
      by (rule addsEdges_fold, rule goPageCall_adds [OF assms(1,4)])
  qed
  then show ?thesis using assms(2) n by (simp add: goPageSource_def goSourceEdges_def)
qed

lemma goPageTypes_adds: "ready \<Longrightarrow> addsEdges targets U (goPageTypes index project c R) R (goTypesEdges targets c)"
  unfolding goPageTypes_def goTypesEdges_def Let_def
  by (auto intro!: addsEdges_fold goPageType_adds Dir_nonempty)

lemma goResolvePage_edges:
  assumes "project \<noteq> []" "distinct (map c_sourcePath cs)" "\<forall>c \<in> set cs. fileFact c \<noteq> None" "ready"
    "\<forall>c \<in> set cs. \<forall>r \<in> set (c_unresolvedReferences c). ur_Target r \<noteq> modulePath view @ slashes"
  shows "\<exists>R. goResolvePage quote index cs project view = Some (finishResolution goResolverVocabulary R) \<and>
    mset (rl_Edges R) = mset (concat (map (\<lambda>c. goSourceEdges targets (modulePath view) c @ goTypesEdges targets c) cs)) \<and>
    growth targets U (goCollectNodes cs) (rl_Nodes R) (e_TargetID ` set (rl_Edges R))"
proof -
  let ?module = "modulePath view"
  let ?edges = "\<lambda>p. case contributionOf cs p of None \<Rightarrow> [] | Some c \<Rightarrow> goSourceEdges targets ?module c"
  define R where "R = \<lparr>rl_Nodes = goCollectNodes cs, rl_Edges = [], rl_diagnostics = []\<rparr>"
  have "addsEdges targets U (goPageSource quote index project ?module cs p R') R' (?edges p)" if "p \<in> set (contributionPaths cs)" for p R'
  proof -
    from that obtain c where c: "c \<in> set cs" "p = c_sourcePath c" by (auto simp: set_contributionPaths)
    then have "contributionOf cs p = Some c" using contributionOf_member [OF assms(2)] by simp
    then show ?thesis using goPageSource_adds [of cs p c ?module U quote R'] assms(3-5) c(1) by simp
  qed
  then have "addsEdges targets U (foldO (goPageSource quote index project ?module cs) (contributionPaths cs) R) R
      (concat (map ?edges (contributionPaths cs)))" by (rule addsEdges_fold)
  then have "addsEdges targets U (bindO (foldO (goPageSource quote index project ?module cs) (contributionPaths cs) R)
      (foldO (goPageTypes index project) cs)) R
    (concat (map ?edges (contributionPaths cs)) @ concat (map (goTypesEdges targets) cs))"
    by (rule addsEdges_bind) (rule addsEdges_fold, rule goPageTypes_adds [OF assms(4)])
  then obtain R' where R': "bindO (foldO (goPageSource quote index project ?module cs) (contributionPaths cs) R)
      (foldO (goPageTypes index project) cs) = Some (Inr R')"
    "rl_Edges R' = concat (map ?edges (contributionPaths cs)) @ concat (map (goTypesEdges targets) cs)"
    "growth targets U (goCollectNodes cs) (rl_Nodes R') (e_TargetID ` set (rl_Edges R'))"
    unfolding addsEdges_def by (elim exE conjE) (simp add: R_def)
  then obtain R1 where R1: "foldO (goPageSource quote index project ?module cs) (contributionPaths cs) R = Some (Inr R1)"
    "foldO (goPageTypes index project) cs R1 = Some (Inr R')" by auto
  have check: "(checkE requireFile cs :: 'e resolve_error + unit) = Inr ()"
    using assms(3) by (induction cs) (auto simp: requireFile_def guardE_def)
  then have "goResolvePage quote index cs project view = Some (finishResolution goResolverVocabulary
      (R'\<lparr>rl_Nodes := sort_key n_ID (rl_Nodes R'), rl_Edges := goSortedFacts (rl_Edges R')\<rparr>))"
    using assms(1) R1 unfolding goResolvePage_def check R_def by simp
  moreover have "mset (goSortedFacts (rl_Edges R')) = mset (concat (map (\<lambda>c. goSourceEdges targets ?module c @ goTypesEdges targets c) cs))"
    using mset_by_path [OF assms(2), of "goSourceEdges targets ?module"]
    by (simp add: goSortedFacts_def R'(2) flip: mset_concat_append)
  moreover have "growth targets U (goCollectNodes cs) (sort_key n_ID (rl_Nodes R')) (e_TargetID ` set (goSortedFacts (rl_Edges R')))"
    using growth_same [OF R'(3), of "sort_key n_ID (rl_Nodes R')"] by (simp add: goSortedFacts_def)
  ultimately show ?thesis by (intro exI conjI) (assumption, simp_all)
qed

end

section \<open>The store as the index\<close>

text \<open>The targets of a package in a version of the store, in the order of their paths.\<close>

definition storeTargets :: "database \<Rightarrow> Snapshot \<Rightarrow> str \<Rightarrow> str \<Rightarrow> ResolverTarget list" where
  "storeTargets db s project packagePath =
     (case mapE (readTarget db s) (ofPackage packagePath (ofProject project ''go'' (visibleFiles db s))) of Inl _ \<Rightarrow> [] | Inr ts \<Rightarrow> ts)"

definition readableTargets :: "database \<Rightarrow> Snapshot \<Rightarrow> str \<Rightarrow> bool" where
  "readableTargets db s project \<longleftrightarrow>
     list_all (\<lambda>f. case readTarget db s f of Inl _ \<Rightarrow> False | Inr t \<Rightarrow> targetFile (tg_Nodes t) \<noteq> None) (ofProject project ''go'' (visibleFiles db s))"

lemma readableTargets_file:
  assumes "readableTargets db s project" "f \<in> set (ofProject project ''go'' (visibleFiles db s))"
  obtains t where "readTarget db s f = Inr t" "targetFile (tg_Nodes t) \<noteq> None" "tg_SourcePath t = fst f" "fst f \<noteq> []"
proof -
  from assms obtain t where t: "readTarget db s f = Inr t" "targetFile (tg_Nodes t) \<noteq> None"
    by (cases "readTarget db s f") (auto simp: readableTargets_def list_all_iff split: sum.splits)
  moreover have "fst f \<noteq> []" using t(1) by (auto simp: readTarget_def StoreResolverTarget_def split: prod.splits)
  ultimately show ?thesis using that readTarget_path by blast
qed

lemma mapE_reads: "(\<And>x. x \<in> set xs \<Longrightarrow> \<exists>y. f x = Inr y) \<Longrightarrow> \<exists>ys. mapE f xs = Inr ys"
proof (induction xs)
  case (Cons x xs)
  then obtain y ys where "f x = Inr y" "mapE f xs = Inr ys" by (meson list.set_intros)
  then show ?case by simp
qed simp

lemma mapE_member: "mapE f xs = Inr ys \<Longrightarrow> y \<in> set ys \<Longrightarrow> \<exists>x \<in> set xs. f x = Inr y"
  by (induction xs arbitrary: ys) auto

lemma storeTargets_read:
  assumes "readableTargets db s project"
  shows "mapE (readTarget db s) (ofPackage pp (ofProject project ''go'' (visibleFiles db s))) = Inr (storeTargets db s project pp)"
proof -
  let ?fs = "ofPackage pp (ofProject project ''go'' (visibleFiles db s))"
  have "\<exists>t. readTarget db s f = Inr t" if "f \<in> set ?fs" for f
    using readableTargets_file [OF assms, of f] that by (auto simp: ofPackage_def)
  then have "\<exists>ts. mapE (readTarget db s) ?fs = Inr ts" by (rule mapE_reads)
  then show ?thesis by (auto simp: storeTargets_def)
qed

lemma mapE_paths: "mapE (readTarget db s) fs = Inr ts \<Longrightarrow> map tg_SourcePath ts = map fst fs"
  by (induction fs arbitrary: ts) (auto simp: readTarget_path)

lemma mapE_take: "mapE f xs = Inr ys \<Longrightarrow> mapE f (take n xs) = Inr (take n ys)"
  by (simp add: mapE_eq_Inr)

interpretation stored: package_lister "\<lambda>request. StoreResolverPackagePage s request db" project "storeTargets db s project"
  "wf_db db \<and> \<not> noSnapshot s \<and> project \<noteq> [] \<and> readableTargets db s project"
  for db s project
proof unfold_locales
  fix packagePath after t
  let ?fs = "ofPackage packagePath (ofProject project ''go'' (visibleFiles db s))"
  show "sorted (map tg_SourcePath (storeTargets db s project packagePath))"
  proof (cases "mapE (readTarget db s) ?fs")
    case (Inr ts)
    then have "map tg_SourcePath ts = map fst ?fs" by (rule mapE_paths)
    then show ?thesis using Inr by (simp add: storeTargets_def) (simp add: ofPackage_def ofProject_def sorted_map_filter sorted_visibleFiles)
  qed (simp add: storeTargets_def)
  assume ready: "wf_db db \<and> \<not> noSnapshot s \<and> project \<noteq> [] \<and> readableTargets db s project"
  then have read: "mapE (readTarget db s) ?fs = Inr (storeTargets db s project packagePath)" by (intro storeTargets_read) simp
  then have paths: "map tg_SourcePath (storeTargets db s project packagePath) = map fst ?fs" by (rule mapE_paths)
  show "distinct (map tg_SourcePath (storeTargets db s project packagePath))" unfolding paths ofPackage_def ofProject_def
    by (intro distinct_map_filterI distinct_visibleFiles) (use ready in simp)
  have named: "readTarget db s f = Inr t \<Longrightarrow> (after < tg_SourcePath t) = (after < fst f)" for f t by (simp add: readTarget_path)
  have limit: "0 < resolverPackagePageSize" by (simp add: resolverPackagePageSize_def)
  show "StoreResolverPackagePage s \<lparr>rp_ProjectID = project, rp_Language = ''go'', rp_PackagePath = packagePath,
        rp_AfterSourcePath = after, rp_Limit = resolverPackagePageSize\<rparr> db =
      Inr (take (nat resolverPackagePageSize) (filter (\<lambda>t. after < tg_SourcePath t) (storeTargets db s project packagePath)))"
    if "packagePath \<noteq> []"
  proof -
    have "StoreResolverPackagePage s (packageRequest project ''go'' packagePath resolverPackagePageSize after) db =
        mapE (readTarget db s) (take (nat resolverPackagePageSize) (filter (\<lambda>f. after < fst f) ?fs))"
      by (rule packagePage_eq) (use ready that limit in simp_all)
    also have "\<dots> = Inr (take (nat resolverPackagePageSize) (filter (\<lambda>t. after < tg_SourcePath t) (storeTargets db s project packagePath)))"
      by (rule mapE_take, rule mapE_filter [OF read named])
    finally show ?thesis by (simp only: packageRequest_def)
  qed
  assume "t \<in> set (storeTargets db s project packagePath)"
  then obtain f where "f \<in> set ?fs" "readTarget db s f = Inr t"
    using mapE_member [OF read] by blast
  then have "f \<in> set (ofProject project ''go'' (visibleFiles db s))" "readTarget db s f = Inr t" by (simp_all add: ofPackage_def)
  then obtain t' where "readTarget db s f = Inr t'" "targetFile (tg_Nodes t') \<noteq> None" "tg_SourcePath t' = fst f" "fst f \<noteq> []"
    using readableTargets_file ready by blast
  with \<open>readTarget db s f = Inr t\<close> show "tg_SourcePath t \<noteq> []" "targetFile (tg_Nodes t) \<noteq> None" by simp_all
qed

section \<open>Properties\<close>

definition goPageEdges :: "database \<Rightarrow> Snapshot \<Rightarrow> str \<Rightarrow> str \<Rightarrow> Contribution \<Rightarrow> Edge list" where
  "goPageEdges db s project module c =
     (let targets = storeTargets db s project in goSourceEdges targets module c @ goTypesEdges targets c)"

definition goPageReady :: "database \<Rightarrow> Snapshot \<Rightarrow> str \<Rightarrow> ResolverFileView \<Rightarrow> Contribution list \<Rightarrow> bool" where
  "goPageReady db s project view cs \<longleftrightarrow>
     \<not> noSnapshot s \<and> project \<noteq> [] \<and> readableTargets db s project \<and> distinct (map c_sourcePath cs) \<and>
     list_all (\<lambda>c. fileFact c \<noteq> None \<and> list_all (\<lambda>r. ur_Target r \<noteq> modulePath view @ slashes) (c_unresolvedReferences c)) cs"

lemma goResolvePage_store:
  assumes "wf_db db" "goPageReady db s project view cs"
  shows "\<exists>R. goResolvePage quote (\<lambda>request. StoreResolverPackagePage s request db) cs project view = Some (finishResolution goResolverVocabulary R) \<and>
    mset (rl_Edges R) = mset (concat (map (goPageEdges db s project (modulePath view)) cs))"
proof -
  have "\<exists>R. goResolvePage quote (\<lambda>request. StoreResolverPackagePage s request db) cs project view = Some (finishResolution goResolverVocabulary R) \<and>
    mset (rl_Edges R) = mset (concat (map (\<lambda>c. goSourceEdges (storeTargets db s project) (modulePath view) c @ goTypesEdges (storeTargets db s project) c) cs)) \<and>
    growth (storeTargets db s project) {} (goCollectNodes cs) (rl_Nodes R) (e_TargetID ` set (rl_Edges R))"
    by (rule stored.goResolvePage_edges) (use assms in \<open>auto simp: goPageReady_def list_all_iff\<close>)
  then show ?thesis by (auto simp: goPageEdges_def [abs_def] Let_def)
qed

text \<open>A module \<open>m\<close> with a program that calls a package, whose type implements the package's interface.\<close>

definition goFile :: "str \<Rightarrow> str \<Rightarrow> (str \<times> str \<times> NodeKind) list \<Rightarrow> str list \<Rightarrow> UnresolvedReference list \<Rightarrow> SymbolReference list \<Rightarrow> Contribution" where
  "goFile p package declarations surfaces references symbols =
     \<lparr>c_projectID = ''p'', c_sourcePath = p, c_metadata = \<lparr>md_Name = ''go'', md_Version = ''v0'', md_Extensions = [''.go'']\<rparr>,
      c_facts = \<lparr>f_Nodes = sampleNode p [] ''file'' # (sampleNode p package ''go:package'')\<lparr>n_ID := p @ '':p''\<rparr> #
        map (\<lambda>(name, qualified, kind). (sampleNode p name kind)\<lparr>n_QualifiedName := qualified\<rparr>) declarations, f_Edges = []\<rparr>,
      c_unresolvedReferences = references, c_symbolReferences = symbols,
      c_exportedSurfaces = map (\<lambda>name. \<lparr>es_NodeID = p @ name, es_Name = name\<rparr>) surfaces,
      c_dependencies = [], c_diagnostics = []\<rparr>"

definition goModule :: "Contribution list" where
  "goModule =
     [goFile ''a.go'' ''main'' [(''M'', ''main.M'', ''go:function'')] [] [\<lparr>ur_SourceID = ''a.go'', ur_Target = ''m/l'', ur_Kind = ModuleReferenceImport,
          ur_Ambiguous = False, ur_Bindings = []\<rparr>]
        [\<lparr>sr_SourceID = ''a.goM'', sr_Target = ''l.F'', sr_Relation = ''go:calls'', sr_Evidence = sampleEvidence ''a.go''\<rparr>],
      goFile ''l/f.go'' ''l'' [(''F'', ''l.F'', ''go:function''), (''T'', ''l.T'', ''go:type''), (''R'', ''l.T.R'', ''go:method'')] [''F''] [] [],
      goFile ''l/i.go'' ''l'' [(''I'', ''l.I'', ''go:type'')] [] []
        [\<lparr>sr_SourceID = ''l/i.goI'', sr_Target = ''R'', sr_Relation = ''go:implements'', sr_Evidence = sampleEvidence ''l/i.go''\<rparr>]]"

definition goRequest :: PublishRequest where
  "goRequest = \<lparr>pr_Workspace = ''w'', pr_Update = \<lparr>gu_contributions = goModule\<rparr>,
     pr_WorkspaceFacts = \<lparr>f_Nodes = [], f_Edges = []\<rparr>, pr_ReplacedOwners = []\<rparr>"

definition goStore :: database where
  "goStore = published sampleEnv goRequest emptyDatabase"

definition goView :: ResolverFileView where
  "goView = \<lparr>rv_projectRoot = ''r'', rv_files = [''go.mod'' \<mapsto> ''module m'']\<rparr>"

lemma goStore_wf: "wf_db goStore"
proof -
  have "distinct (map c_sourcePath (gu_contributions (pr_Update goRequest)))" by code_simp
  then have "publish sampleEnv None goRequest emptyDatabase = Inr (\<lparr>sn_Workspace = ''w'', sn_Version = 1, sn_PublishedAt = ''t''\<rparr>, goStore)"
    using publishRequest_eq [OF wf_emptyDatabase sampleEnv_ok, of goRequest]
    by (simp add: publish_def pruneRetained_def retainedGraphVersions_def currentVersion_empty goStore_def ensureDatabaseBudget_def
        goRequest_def sampleEnv_def)
  then show ?thesis by (rule store_step_wf [OF store_step.publish [OF sampleEnv_ok(1)] wf_emptyDatabase])
qed

lemma goModule_ready: "goPageReady goStore sampleSnapshot ''p'' goView [c]" if "c \<in> set goModule"
proof -
  have "\<forall>c \<in> set goModule. goPageReady goStore sampleSnapshot ''p'' goView [c]" by code_simp
  with that show ?thesis by blast
qed

lemma goModule_edges:
  "map (\<lambda>e. (e_SourceID e, e_TargetID e, e_Relation e)) (concat (map (goPageEdges goStore sampleSnapshot ''p'' (modulePath goView)) goModule)) =
     [(''a.go'', ''l/f.go'', ''go:imports_from''), (''a.go'', ''l/f.goF'', ''go:imports_from''), (''a.go'', ''l/i.go'', ''go:imports_from''),
      (''a.goM'', ''l/f.goF'', ''go:calls''), (''l/f.goT'', ''l/i.goI'', ''go:implements'')]"
  by code_simp

text \<open>The same module in a directory of the workspace: its sources are named from the workspace, its packages from the module.\<close>

definition nestedModule :: "Contribution list" where
  "nestedModule = map (\<lambda>c. c\<lparr>c_sourcePath := ''s/'' @ c_sourcePath c\<rparr>) goModule"

definition nestedStore :: database where
  "nestedStore = published sampleEnv (goRequest\<lparr>pr_Update := \<lparr>gu_contributions = nestedModule\<rparr>\<rparr>) emptyDatabase"

lemma nested_imports_unresolved:
  "map (\<lambda>e. (e_SourceID e, e_TargetID e, e_Relation e))
     (concat (map (goPageEdges nestedStore sampleSnapshot ''p'' (modulePath goView)) nestedModule)) =
   [(''l/f.goT'', ''l/i.goI'', ''go:implements'')]"
  by code_simp

text \<open>A module line with a comment is not recognised.\<close>

lemma modulePath_comment: "modulePath (goView\<lparr>rv_files := [''go.mod'' \<mapsto> ''module m // the module'']\<rparr>) = []"
  by code_simp



end
