(* ===== verification/Resolve_Go_Workspace.thy ===== *)
theory Resolve_Go_Workspace
  imports Resolve_Go_Page
begin

text \<open>
  The two ways to resolve a Go workspace, in memory and page by page over a resolver index: they find the same edges if the
  index lists the workspace and the workspace is as the extractor builds it, with one package to a directory.
\<close>

section \<open>The workspace as an index lists it\<close>

definition goTarget :: "str \<Rightarrow> Contribution \<Rightarrow> ResolverTarget" where
  "goTarget project c = \<lparr>tg_ProjectID = project, tg_SourcePath = c_sourcePath c, tg_Metadata = c_metadata c, tg_Nodes = f_Nodes (c_facts c),
     tg_UnresolvedReferences = c_unresolvedReferences c, tg_SymbolReferences = c_symbolReferences c,
     tg_ExportedSurfaces = c_exportedSurfaces c, tg_Diagnostics = c_diagnostics c\<rparr>"

definition inDirectory :: "Contribution list \<Rightarrow> str \<Rightarrow> Contribution list" where
  "inDirectory cs directory = filter (\<lambda>c. Dir (c_sourcePath c) = directory) (sort_key c_sourcePath cs)"

definition goTargets :: "Contribution list \<Rightarrow> str \<Rightarrow> str \<Rightarrow> ResolverTarget list" where
  "goTargets cs project packagePath = map (goTarget project) (inDirectory cs packagePath)"

lemma goTarget_simps [simp]:
  "tg_SourcePath (goTarget project c) = c_sourcePath c" "tg_Nodes (goTarget project c) = f_Nodes (c_facts c)"
  "tg_SymbolReferences (goTarget project c) = c_symbolReferences c" "tg_ExportedSurfaces (goTarget project c) = c_exportedSurfaces c"
  by (simp_all add: goTarget_def)

abbreviation nodesOf :: "Contribution \<Rightarrow> Node list" where
  "nodesOf c \<equiv> f_Nodes (c_facts c)"

abbreviation packageOf :: "Contribution \<Rightarrow> str" where
  "packageOf c \<equiv> packageName (nodesOf c)"

definition typesOf :: "Contribution \<Rightarrow> Node list" where
  "typesOf c = filter (\<lambda>n. n_Kind n = ''go:type'') (nodesOf c)"

text \<open>One package clause, before the types and methods of the file.\<close>

definition packageFirst :: "Node list \<Rightarrow> bool" where
  "packageFirst ns \<longleftrightarrow>
     (case dropWhile (\<lambda>n. n_Kind n \<noteq> ''go:package'') ns of
        [] \<Rightarrow> False
      | p # ys \<Rightarrow> n_Label p \<noteq> [] \<and> \<not> list_ex (\<lambda>x. x \<in> set nul) (n_Label p) \<and> \<not> list_ex (\<lambda>n. n_Kind n = ''go:package'') ys \<and>
          \<not> list_ex (\<lambda>n. n_Kind n = ''go:type'' \<or> n_Kind n = ''go:method'') (takeWhile (\<lambda>n. n_Kind n \<noteq> ''go:package'') ns))"

text \<open>
  A workspace as the extractor builds it: one contribution to a path, IDs of their own for files and declarations, symbols
  and surfaces of the file's own nodes, named types that do not embed themselves, and package names that determine the directory.
\<close>

definition ownNodes :: "Contribution \<Rightarrow> Node list" where
  "ownNodes c = filter (\<lambda>n. goResolverNodeKind (n_Kind n)) (nodesOf c)"

definition goSource :: "str \<Rightarrow> Contribution \<Rightarrow> bool" where
  "goSource module c \<longleftrightarrow>
     c_sourcePath c \<noteq> [] \<and> packageFirst (nodesOf c) \<and>
     (\<forall>s \<in> set (c_exportedSurfaces c). es_NodeID s \<in> n_ID ` set (ownNodes c)) \<and>
     (\<forall>r \<in> set (c_symbolReferences c). sr_SourceID r \<in> n_ID ` set (ownNodes c)) \<and>
     (\<forall>n \<in> set (typesOf c). n_Label n \<noteq> [] \<and>
        (\<forall>r \<in> set (relationReferencesForSource (c_symbolReferences c) (n_ID n) ''go:embeds''). sr_Target r \<noteq> n_Label n)) \<and>
     (\<forall>u \<in> set (c_unresolvedReferences c). ur_SourceID u \<in> n_ID ` set (ownNodes c) \<and> ur_Target u \<noteq> module @ slashes)"

definition goSeparate :: "str \<Rightarrow> Contribution list \<Rightarrow> bool" where
  "goSeparate module cs \<longleftrightarrow>
     distinct (map c_sourcePath cs) \<and> distinct (map n_ID (concat (map ownNodes cs))) \<and> (\<forall>c \<in> set cs. goSource module c) \<and>
     (\<forall>c \<in> set cs. \<forall>c' \<in> set cs. \<forall>n \<in> set (nodesOf c). \<forall>n' \<in> set (ownNodes c'). n_ID n = n_ID n' \<longrightarrow> goResolverNodeKind (n_Kind n)) \<and>
     (\<forall>c \<in> set cs. \<forall>c' \<in> set cs. packageOf c = packageOf c' \<longrightarrow> Dir (c_sourcePath c) = Dir (c_sourcePath c'))"

lemma goSeparateD:
  assumes "goSeparate module cs"
  shows "distinct (map c_sourcePath cs)" "distinct (map n_ID (concat (map ownNodes cs)))" "c \<in> set cs \<Longrightarrow> goSource module c"
    "c \<in> set cs \<Longrightarrow> c' \<in> set cs \<Longrightarrow> packageOf c = packageOf c' \<Longrightarrow> Dir (c_sourcePath c) = Dir (c_sourcePath c')"
  using assms unfolding goSeparate_def by blast+

lemma own_unique:
  assumes "goSeparate module cs" "c \<in> set cs" "c' \<in> set cs" "n \<in> set (nodesOf c)" "n' \<in> set (ownNodes c')" "n_ID n = n_ID n'"
  shows "n = n'"
proof -
  have "goResolverNodeKind (n_Kind n)" using assms unfolding goSeparate_def by blast
  then have "n \<in> set (concat (map ownNodes cs))" "n' \<in> set (concat (map ownNodes cs))"
    using assms(2-5) by (auto simp: ownNodes_def)
  then show ?thesis using distinct_map_eqD [OF goSeparateD(2) [OF assms(1)]] assms(6) by blast
qed

lemma typesOf_own: "n \<in> set (typesOf c) \<Longrightarrow> n \<in> set (ownNodes c)"
  by (auto simp: typesOf_def ownNodes_def goResolverNodeKind_def)

lemma ownNodes_nodes: "n \<in> set (ownNodes c) \<Longrightarrow> n \<in> set (nodesOf c)"
  by (simp add: ownNodes_def)

lemma find_append: "find P (xs @ ys) = (case find P xs of None \<Rightarrow> find P ys | Some x \<Rightarrow> Some x)"
  by (induction xs) auto

lemma packageFirst_shape:
  assumes "packageFirst ns"
  obtains xs p ys where "ns = xs @ p # ys" "n_Kind p = ''go:package''" "n_Label p \<noteq> []" "\<forall>x \<in> set (n_Label p). x \<notin> set nul"
    "\<forall>n \<in> set xs. n_Kind n \<notin> {''go:package'', ''go:type'', ''go:method''}" "\<forall>n \<in> set ys. n_Kind n \<noteq> ''go:package''" "packageName ns = n_Label p"
proof -
  let ?P = "\<lambda>n. n_Kind n \<noteq> ''go:package''"
  obtain p ys where drop: "dropWhile ?P ns = p # ys"
    using assms by (cases "dropWhile ?P ns") (auto simp: packageFirst_def)
  have ns: "ns = takeWhile ?P ns @ p # ys" using takeWhile_dropWhile_id [of ?P ns] drop by simp
  have before: "n_Kind n \<noteq> ''go:package''" if "n \<in> set (takeWhile ?P ns)" for n using set_takeWhileD [OF that] by simp
  have kind: "n_Kind p = ''go:package''" using hd_dropWhile [of ?P ns] drop by simp
  have "find (\<lambda>n. n_Kind n = ''go:package'') (takeWhile ?P ns) = None" using before by (auto simp: find_None_iff)
  then have "find (\<lambda>n. n_Kind n = ''go:package'') ns = Some p"
    using kind by (subst ns) (simp add: find_append)
  then have "packageName ns = n_Label p" by (simp add: packageName_def)
  with ns kind before assms drop show ?thesis
    by (intro that [of "takeWhile ?P ns" p ys]) (auto simp: packageFirst_def list_ex_iff)
qed

lemma packageAt_member:
  assumes "goSeparate module cs" "c \<in> set cs"
  shows "packageAt cs (c_sourcePath c) = packageOf c" "packageOf c \<noteq> []"
proof -
  have "packageFirst (nodesOf c)" using goSeparateD(3) [OF assms] by (simp add: goSource_def)
  then obtain xs p ys where shape: "nodesOf c = xs @ p # ys" "n_Kind p = ''go:package''" "n_Label p \<noteq> []"
    "\<forall>n \<in> set xs. n_Kind n \<notin> {''go:package'', ''go:type'', ''go:method''}" "\<forall>n \<in> set ys. n_Kind n \<noteq> ''go:package''" "packageOf c = n_Label p"
    by (rule packageFirst_shape)
  then have one: "map n_Label (filter (\<lambda>n. n_Kind n = ''go:package'') (nodesOf c)) = [packageOf c]"
    by (simp add: filter_empty_conv)
  let ?f = "\<lambda>c'. if c_sourcePath c' = c_sourcePath c then map n_Label (filter (\<lambda>n. n_Kind n = ''go:package'') (nodesOf c')) else []"
  from assms(2) obtain ls rs where cs: "cs = ls @ c # rs" by (auto simp: in_set_conv_decomp)
  have others: "c_sourcePath c' \<noteq> c_sourcePath c" if "c' \<in> set ls \<union> set rs" for c'
    using goSeparateD(1) [OF assms(1)] that unfolding cs by (fastforce simp: image_iff)
  have "concat (map ?f ls) = []" "concat (map ?f rs) = []" using others by auto
  then have "concat (map ?f cs) = [packageOf c]" using one by (simp only: cs map_append list.map concat_append concat.simps if_True) simp
  then show "packageAt cs (c_sourcePath c) = packageOf c" by (simp add: packageAt_def)
  show "packageOf c \<noteq> []" using shape by simp
qed

lemma dedup_adjacent_distinct: "distinct xs \<Longrightarrow> dedup_adjacent xs = xs"
  by (induction xs rule: dedup_adjacent.induct) auto

lemma contributionPaths_sorted:
  assumes "distinct (map c_sourcePath cs)"
  shows "contributionPaths cs = map c_sourcePath (sort_key c_sourcePath cs)"
proof -
  have "distinct (map c_sourcePath (sort_key c_sourcePath cs))"
    using assms by (metis mset_eq_imp_distinct_iff mset_map mset_sort)
  moreover have "sort (map c_sourcePath cs) = map c_sourcePath (sort_key c_sourcePath cs)"
    by (rule properties_for_sort) simp_all
  ultimately show ?thesis by (simp add: contributionPaths_def dedup_adjacent_distinct)
qed

lemma packageFiles_eq:
  assumes "goSeparate module cs"
  shows "packageFiles importPath m cs = (case modulePackagePath importPath m of None \<Rightarrow> []
    | Some directory \<Rightarrow> map c_sourcePath (inDirectory cs directory))"
proof -
  have "filter (\<lambda>p. Dir p = directory \<and> packageAt cs p \<noteq> []) (map c_sourcePath (sort_key c_sourcePath cs)) =
      map c_sourcePath (inDirectory cs directory)" for directory
    unfolding inDirectory_def filter_map comp_def
    by (intro arg_cong [where f = "map c_sourcePath"] filter_cong) (simp_all add: packageAt_member [OF assms])
  then show ?thesis
    by (simp add: packageFiles_def contributionPaths_sorted [OF goSeparateD(1) [OF assms]] split: option.split)
qed

lemma inDirectory_member: "c \<in> set (inDirectory cs directory) \<longleftrightarrow> c \<in> set cs \<and> Dir (c_sourcePath c) = directory"
  by (auto simp: inDirectory_def)

section \<open>Imports\<close>

lemma goTargetEdges_eq:
  assumes "distinct (map c_sourcePath cs)" "c \<in> set cs" "fileFact c \<noteq> None"
  shows "goTargetEdges cs source r (c_sourcePath c) = importEdges r source (goTarget project c)"
  using assms(3) by (auto simp: goTargetEdges_def importEdges_def contributionOf_member [OF assms(1,2)] fileFact_def)

lemma goWorkspaceReference_edges:
  assumes "goSeparate module cs" "\<forall>c \<in> set cs. fileFact c \<noteq> None"
  shows "rl_Edges (goWorkspaceReference quote m cs p source r R) = rl_Edges R @ goImportEdges (goTargets cs project) m source r"
proof (cases "modulePackagePath (ur_Target r) m")
  case None
  then show ?thesis by (simp add: goWorkspaceReference_def packageFiles_eq [OF assms(1)] goImportEdges_def Let_def)
next
  case (Some directory)
  have "map (goTargetEdges cs source r \<circ> c_sourcePath) (inDirectory cs directory) = map (importEdges r source \<circ> goTarget project) (inDirectory cs directory)"
    using goTargetEdges_eq [OF goSeparateD(1) [OF assms(1)]] assms(2) by (simp add: inDirectory_member)
  then show ?thesis using Some
    by (auto simp: goWorkspaceReference_def packageFiles_eq [OF assms(1)] goImportEdges_def goTargets_def Let_def simp del: map_eq_conv)
qed

lemma fold_edges:
  assumes "\<And>x R. x \<in> set xs \<Longrightarrow> rl_Edges (f x R) = rl_Edges R @ g x"
  shows "rl_Edges (fold f xs R) = rl_Edges R @ concat (map g xs)"
  using assms by (induction xs arbitrary: R) auto

lemma goWorkspaceSource_edges:
  assumes "goSeparate module cs" "\<forall>c \<in> set cs. fileFact c \<noteq> None" "c \<in> set cs"
  shows "rl_Edges (goWorkspaceSource quote m cs (c_sourcePath c) R) =
    rl_Edges R @ concat (map (goImportEdges (goTargets cs project) m (the (fileFact c))) (c_unresolvedReferences c))"
proof -
  have distinct: "distinct (map c_sourcePath cs)" by (rule goSeparateD [OF assms(1)])
  have "contributionForPath cs (c_sourcePath c) = Some c"
    unfolding contributionForPath_def by (rule find_unique [OF distinct assms(3)])
  moreover obtain n where "fileFact c = Some n" using assms(2,3) by auto
  ultimately show ?thesis
    by (simp add: goWorkspaceSource_def contributionOf_member [OF distinct assms(3)] fold_edges [OF goWorkspaceReference_edges [OF assms(1,2)]])
qed

section \<open>Calls\<close>

lemma callableTargetSurface_unique:
  assumes "n \<in> set ns" "\<And>x. x \<in> set ns \<Longrightarrow> n_ID x = n_ID n \<Longrightarrow> x = n"
  shows "callableTargetSurface (n_ID n) ns \<longleftrightarrow> n_Kind n = ''go:function'' \<or> n_Kind n = ''go:method''"
proof -
  have "find (\<lambda>x. n_ID x = n_ID n) ns = Some n" using assms by (induction ns) auto
  then show ?thesis by (simp add: callableTargetSurface_def)
qed

lemma callableSurface_own:
  assumes "goSeparate module cs" "c \<in> set cs" "s \<in> set (c_exportedSurfaces c)"
  shows "callableSurface (es_NodeID s) cs = callableTargetSurface (es_NodeID s) (nodesOf c)"
proof -
  obtain n where n: "n \<in> set (ownNodes c)" "es_NodeID s = n_ID n"
    using goSeparateD(3) [OF assms(1,2)] assms(3) by (auto simp: goSource_def)
  note unique = own_unique [OF assms(1) _ assms(2) _ n(1)]
  have "n \<in> set (concat (map nodesOf cs))" using ownNodes_nodes [OF n(1)] assms(2) by auto
  then have "callableTargetSurface (n_ID n) (concat (map nodesOf cs)) \<longleftrightarrow> n_Kind n = ''go:function'' \<or> n_Kind n = ''go:method''"
    by (rule callableTargetSurface_unique) (use unique in auto)
  moreover have "callableTargetSurface (n_ID n) (nodesOf c) \<longleftrightarrow> n_Kind n = ''go:function'' \<or> n_Kind n = ''go:method''"
    by (rule callableTargetSurface_unique [OF ownNodes_nodes [OF n(1)]]) (use unique assms(2) in blast)
  ultimately show ?thesis unfolding callableSurface_def n(2) by simp
qed

lemma packageImported_step:
  assumes "goSeparate module cs" and ms_def: "ms = goCallMatches (goTargets cs project) m name symbolName [r]"
  shows "\<exists>a' b'. packageImported m cs name symbolName r \<lparr>pk_matches = ms0, pk_matchingImport = a, pk_resolvedPackage = b\<rparr> =
      \<lparr>pk_matches = ms0 @ ms, pk_matchingImport = a', pk_resolvedPackage = b'\<rparr> \<and> (a \<longrightarrow> a') \<and> (b \<longrightarrow> b') \<and> (ms \<noteq> [] \<longrightarrow> a' \<and> b')"
proof (cases "Base (ur_Target r) = name \<and> (\<exists>directory. modulePackagePath (ur_Target r) m = Some directory)")
  case False
  then have "ms = []" by (auto simp: ms_def goCallMatches_def)
  with False show ?thesis by (auto simp: packageImported_def packageFiles_eq [OF assms(1)] split: option.splits)
next
  case True
  then obtain directory where directory: "modulePackagePath (ur_Target r) m = Some directory" by blast
  let ?surfaces = "\<lambda>p. case contributionOf cs p of None \<Rightarrow> [] | Some t \<Rightarrow> c_exportedSurfaces t"
  have "map es_NodeID (filter (\<lambda>s. es_Name s = symbolName \<and> callableSurface (es_NodeID s) cs) (?surfaces (c_sourcePath c))) =
      callableSurfaces symbolName (goTarget project c)" if "c \<in> set (inDirectory cs directory)" for c
  proof -
    have c: "c \<in> set cs" using that by (simp add: inDirectory_member)
    then show ?thesis using callableSurface_own [OF assms(1) c]
      by (auto simp: callableSurfaces_def contributionOf_member [OF goSeparateD(1) [OF assms(1)] c] intro!: arg_cong [where f = "map es_NodeID"] filter_cong)
  qed
  then have "concat (map (\<lambda>c. map es_NodeID (filter (\<lambda>s. es_Name s = symbolName \<and> callableSurface (es_NodeID s) cs) (?surfaces (c_sourcePath c))))
      (inDirectory cs directory)) = concat (map (\<lambda>c. callableSurfaces symbolName (goTarget project c)) (inDirectory cs directory))"
    by (simp only: cong: map_cong)
  also have "\<dots> = ms" using True directory by (simp add: ms_def goCallMatches_def goTargets_def comp_def)
  finally have matches: "concat (map ((\<lambda>p. map es_NodeID (filter (\<lambda>s. es_Name s = symbolName \<and> callableSurface (es_NodeID s) cs) (?surfaces p)))
      \<circ> c_sourcePath) (inDirectory cs directory)) = ms" by (simp only: comp_def)
  have files: "packageFiles (ur_Target r) m cs = map c_sourcePath (inDirectory cs directory)"
    by (simp add: packageFiles_eq [OF assms(1)] directory)
  show ?thesis
  proof (cases "inDirectory cs directory = []")
    case True
    then have "ms = []" using matches by simp
    then show ?thesis using True files by (auto simp: packageImported_def Let_def)
  next
    case False
    with True files matches show ?thesis by (auto simp: packageImported_def Let_def simp del: concat_eq_Nil_conv)
  qed
qed

lemma goCallMatches_Cons:
  "goCallMatches targets m name symbolName (r # rs) = goCallMatches targets m name symbolName [r] @ goCallMatches targets m name symbolName rs"
  by (simp add: goCallMatches_def)

lemma packageImported_fold:
  assumes "goSeparate module cs"
  shows "\<exists>a' b'. fold (packageImported m cs name symbolName) rs \<lparr>pk_matches = ms0, pk_matchingImport = a, pk_resolvedPackage = b\<rparr> =
      \<lparr>pk_matches = ms0 @ goCallMatches (goTargets cs project) m name symbolName rs, pk_matchingImport = a', pk_resolvedPackage = b'\<rparr> \<and>
    (a \<longrightarrow> a') \<and> (b \<longrightarrow> b') \<and> (goCallMatches (goTargets cs project) m name symbolName rs \<noteq> [] \<longrightarrow> a' \<and> b')"
proof (induction rs arbitrary: ms0 a b)
  case Nil
  then show ?case by (simp add: goCallMatches_def)
next
  case (Cons r rs)
  let ?ms = "goCallMatches (goTargets cs project) m name symbolName"
  obtain a1 b1 where 1: "packageImported m cs name symbolName r \<lparr>pk_matches = ms0, pk_matchingImport = a, pk_resolvedPackage = b\<rparr> =
      \<lparr>pk_matches = ms0 @ ?ms [r], pk_matchingImport = a1, pk_resolvedPackage = b1\<rparr>" "a \<longrightarrow> a1" "b \<longrightarrow> b1" "?ms [r] \<noteq> [] \<longrightarrow> a1 \<and> b1"
    using packageImported_step [OF assms refl, of m name symbolName r ms0 a b project] by blast
  obtain a2 b2 where 2: "fold (packageImported m cs name symbolName) rs \<lparr>pk_matches = ms0 @ ?ms [r], pk_matchingImport = a1, pk_resolvedPackage = b1\<rparr> =
      \<lparr>pk_matches = (ms0 @ ?ms [r]) @ ?ms rs, pk_matchingImport = a2, pk_resolvedPackage = b2\<rparr>" "a1 \<longrightarrow> a2" "b1 \<longrightarrow> b2" "?ms rs \<noteq> [] \<longrightarrow> a2 \<and> b2"
    using Cons.IH [of "ms0 @ ?ms [r]" a1 b1] by blast
  from 1 2 show ?case unfolding goCallMatches_Cons [of _ _ _ _ r rs] by (intro exI [of _ a2] exI [of _ b2]) auto
qed

lemma packageCallFact_edges:
  assumes "goSeparate module cs"
  shows "rl_Edges (packageCallFact quote m cs c s R) = rl_Edges R @ goCallEdges (goTargets cs project) m c s"
proof (cases "sr_Relation s \<noteq> ''go:calls'' \<or> CutAt (CHR ''.'') (sr_Target s) = None")
  case True
  then show ?thesis by (auto simp: packageCallFact_def goCallEdges_def)
next
  case False
  then obtain name symbolName where cut: "CutAt (CHR ''.'') (sr_Target s) = Some (name, symbolName)" by auto
  let ?ms = "goCallMatches (goTargets cs project) m name symbolName (c_unresolvedReferences c)"
  obtain a b where search: "fold (packageImported m cs name symbolName) (c_unresolvedReferences c)
      \<lparr>pk_matches = [], pk_matchingImport = False, pk_resolvedPackage = False\<rparr> = \<lparr>pk_matches = ?ms, pk_matchingImport = a, pk_resolvedPackage = b\<rparr>"
    "?ms \<noteq> [] \<longrightarrow> a \<and> b"
    using packageImported_fold [OF assms, of m name symbolName "c_unresolvedReferences c" "[]" False False project] by auto
  show ?thesis
  proof (cases "length ?ms = 1")
    case True
    then obtain x where "?ms = [x]" by (auto simp: length_Suc_conv)
    then show ?thesis using False cut search by (simp add: packageCallFact_def goCallEdges_def Let_def)
  next
    case other: False
    then have "goCallEdges (goTargets cs project) m c s = []" using False cut by (auto simp: goCallEdges_def split: list.splits)
    then show ?thesis using False cut search other by (simp add: packageCallFact_def Let_def)
  qed
qed

lemma appendPackageCallFacts_edges:
  assumes "goSeparate module cs"
  shows "rl_Edges (appendPackageCallFacts quote m cs R) =
    rl_Edges R @ concat (map (\<lambda>c. concat (map (goCallEdges (goTargets cs project) m c) (c_symbolReferences c))) cs)"
  unfolding appendPackageCallFacts_def by (intro fold_edges packageCallFact_edges [OF assms])

section \<open>Implementations\<close>

text \<open>The tables after one file: its nodes under its package, its references by their source.\<close>

lemma tableNode_simps:
  "n_Kind n = ''go:package'' \<Longrightarrow> tableNode n (tables, pk) = (tables, n_Label n)"
  "n_Kind n \<notin> {''go:package'', ''go:type'', ''go:method''} \<Longrightarrow> tableNode n (tables, pk) = (tables, pk)"
  "n_Kind n \<noteq> ''go:package'' \<Longrightarrow> snd (tableNode n (tables, pk)) = pk"
  by (auto simp: tableNode_def Let_def)

lemma tableNode_tables:
  fixes tables pk
  assumes "n_Kind n \<noteq> ''go:package''"
  defines "tables' \<equiv> fst (tableNode n (tables, pk))"
  shows "pt_interfaces tables' = pt_interfaces tables"
    "pt_typesByPackage tables' = (if n_Kind n = ''go:type'' then appendAt pk n (pt_typesByPackage tables) else pt_typesByPackage tables)"
    "pt_packageByNodeID tables' = (if n_Kind n = ''go:type'' then (pt_packageByNodeID tables)(n_ID n := pk) else pt_packageByNodeID tables)"
    "set (pt_methodsByType tables' key) = set (pt_methodsByType tables key) \<union>
      {n_Label x |x. x = n \<and> n_Kind x = ''go:method'' \<and> receiverTypeFromQualifiedName (n_QualifiedName x) \<noteq> [] \<and>
        methodKey pk (receiverTypeFromQualifiedName (n_QualifiedName x)) = key}"
  using assms by (auto simp: tableNode_def Let_def)

lemma tableNodes_tables:
  fixes tables pk
  assumes "\<forall>n \<in> set ns. n_Kind n \<noteq> ''go:package''"
  defines "tables' \<equiv> fst (fold tableNode ns (tables, pk))"
  shows "pt_interfaces tables' = pt_interfaces tables \<and>
    pt_typesByPackage tables' = fold (appendAt pk) (filter (\<lambda>n. n_Kind n = ''go:type'') ns) (pt_typesByPackage tables) \<and>
    (\<forall>i. pt_packageByNodeID tables' i = (if i \<in> n_ID ` set (filter (\<lambda>n. n_Kind n = ''go:type'') ns) then pk else pt_packageByNodeID tables i)) \<and>
    (\<forall>key. set (pt_methodsByType tables' key) = set (pt_methodsByType tables key) \<union>
      {n_Label x |x. x \<in> set ns \<and> n_Kind x = ''go:method'' \<and> receiverTypeFromQualifiedName (n_QualifiedName x) \<noteq> [] \<and>
        methodKey pk (receiverTypeFromQualifiedName (n_QualifiedName x)) = key})"
  using assms(1) unfolding tables'_def
proof (induction ns arbitrary: tables)
  case (Cons n ns)
  have n: "n_Kind n \<noteq> ''go:package''" using Cons.prems by simp
  have step: "tableNode n (tables, pk) = (fst (tableNode n (tables, pk)), pk)"
    by (rule prod_eqI) (simp_all add: tableNode_simps(3) [OF n])
  have "\<forall>n \<in> set ns. n_Kind n \<noteq> ''go:package''" using Cons.prems by simp
  note IH = Cons.IH [OF this, of "fst (tableNode n (tables, pk))"]
  have fold: "fold tableNode (n # ns) (tables, pk) = fold tableNode ns (fst (tableNode n (tables, pk)), pk)"
    by (simp only: fold.simps comp_def) (subst step, rule refl)
  show ?case unfolding fold
  proof (intro conjI allI, goal_cases)
    case 1
    show ?case using IH tableNode_tables(1) [OF n, of tables pk] by simp
  next
    case 2
    show ?case using IH tableNode_tables(2) [OF n, of tables pk] by simp
  next
    case (3 i)
    show ?case using IH tableNode_tables(3) [OF n, of tables pk] by auto
  next
    case (4 key)
    show ?case using IH tableNode_tables(4) [OF n, of tables pk key] by auto
  qed
qed simp

definition methodsIn :: "Contribution \<Rightarrow> str \<Rightarrow> str set" where
  "methodsIn c key = {n_Label x |x. x \<in> set (nodesOf c) \<and> n_Kind x = ''go:method'' \<and> receiverTypeFromQualifiedName (n_QualifiedName x) \<noteq> [] \<and>
     methodKey (packageOf c) (receiverTypeFromQualifiedName (n_QualifiedName x)) = key}"

definition interfaceReferences :: "Contribution \<Rightarrow> str \<Rightarrow> SymbolReference list" where
  "interfaceReferences c i = filter (\<lambda>r. (sr_Relation r = ''go:implements'' \<or> sr_Relation r = ''go:embeds'') \<and> sr_SourceID r = i) (c_symbolReferences c)"

lemma tableReferences:
  "pt_interfaces (fold tableReference rs tables) i =
     pt_interfaces tables i @ filter (\<lambda>r. (sr_Relation r = ''go:implements'' \<or> sr_Relation r = ''go:embeds'') \<and> sr_SourceID r = i) rs"
  "pt_typesByPackage (fold tableReference rs tables) = pt_typesByPackage tables"
  "pt_packageByNodeID (fold tableReference rs tables) = pt_packageByNodeID tables"
  "pt_methodsByType (fold tableReference rs tables) = pt_methodsByType tables"
  by (induction rs arbitrary: tables) (auto simp: tableReference_def)

lemma tableContribution_tables:
  assumes "packageFirst (nodesOf c)"
  shows "pt_interfaces (tableContribution c tables) i = pt_interfaces tables i @ interfaceReferences c i"
    "pt_typesByPackage (tableContribution c tables) = fold (appendAt (packageOf c)) (typesOf c) (pt_typesByPackage tables)"
    "pt_packageByNodeID (tableContribution c tables) i = (if i \<in> n_ID ` set (typesOf c) then packageOf c else pt_packageByNodeID tables i)"
    "set (pt_methodsByType (tableContribution c tables) key) = set (pt_methodsByType tables key) \<union> methodsIn c key"
proof -
  from assms obtain xs p ys where shape: "nodesOf c = xs @ p # ys" "n_Kind p = ''go:package''"
    "\<forall>n \<in> set xs. n_Kind n \<notin> {''go:package'', ''go:type'', ''go:method''}" "\<forall>n \<in> set ys. n_Kind n \<noteq> ''go:package''" "packageOf c = n_Label p"
    by (rule packageFirst_shape)
  have before: "fold tableNode xs (tables, pk) = (tables, pk)" for pk
    using shape(3) by (induction xs) (simp_all add: tableNode_simps)
  have table: "tableContribution c tables = fold tableReference (c_symbolReferences c) (fst (fold tableNode ys (tables, packageOf c)))"
    unfolding tableContribution_def shape(5) by (simp add: shape(1) before tableNode_simps(1) [OF shape(2)])
  have types: "typesOf c = filter (\<lambda>n. n_Kind n = ''go:type'') ys" using shape(1-3) by (auto simp: typesOf_def filter_empty_conv)
  have methods: "methodsIn c key = {n_Label x |x. x \<in> set ys \<and> n_Kind x = ''go:method'' \<and> receiverTypeFromQualifiedName (n_QualifiedName x) \<noteq> [] \<and>
        methodKey (packageOf c) (receiverTypeFromQualifiedName (n_QualifiedName x)) = key}"
    unfolding methodsIn_def shape(1) using shape(2,3) by auto
  note nodes = tableNodes_tables [OF shape(4), of tables "packageOf c"]
  show "pt_interfaces (tableContribution c tables) i = pt_interfaces tables i @ interfaceReferences c i"
    unfolding table tableReferences interfaceReferences_def using nodes by simp
  show "pt_typesByPackage (tableContribution c tables) = fold (appendAt (packageOf c)) (typesOf c) (pt_typesByPackage tables)"
    unfolding table tableReferences types using nodes by simp
  show "pt_packageByNodeID (tableContribution c tables) i = (if i \<in> n_ID ` set (typesOf c) then packageOf c else pt_packageByNodeID tables i)"
    unfolding table tableReferences types using nodes by simp
  show "set (pt_methodsByType (tableContribution c tables) key) = set (pt_methodsByType tables key) \<union> methodsIn c key"
    unfolding table tableReferences methods using nodes by simp
qed

definition packagedTypes :: "Contribution list \<Rightarrow> (str \<times> Node) list" where
  "packagedTypes cs = concat (map (\<lambda>c. map (Pair (packageOf c)) (typesOf c)) cs)"

lemma fold_Pair: "fold (\<lambda>(k, v). appendAt k v) (map (Pair k) vs) = fold (appendAt k) vs"
  by (simp add: fold_map comp_def)

lemma tableContributions:
  assumes "\<forall>c \<in> set cs. packageFirst (nodesOf c)"
  shows "pt_interfaces (fold tableContribution cs tables) i = pt_interfaces tables i @ concat (map (\<lambda>c. interfaceReferences c i) cs)"
    "pt_typesByPackage (fold tableContribution cs tables) = fold (\<lambda>(k, v). appendAt k v) (packagedTypes cs) (pt_typesByPackage tables)"
    "set (pt_methodsByType (fold tableContribution cs tables) key) = set (pt_methodsByType tables key) \<union> (\<Union>c \<in> set cs. methodsIn c key)"
    "\<forall>c \<in> set cs. i \<notin> n_ID ` set (typesOf c) \<Longrightarrow> pt_packageByNodeID (fold tableContribution cs tables) i = pt_packageByNodeID tables i"
  using assms by (induction cs arbitrary: tables) (auto simp: tableContribution_tables packagedTypes_def fold_Pair)

lemma distinct_parts:
  assumes "distinct (map f (concat (map g (ls @ c # rs))))" "c' \<in> set ls \<union> set rs"
  shows "f ` set (g c') \<inter> f ` set (g c) = {}"
proof -
  have "f ` set (concat (map g ls)) \<inter> f ` set (g c) = {}" "f ` set (g c) \<inter> f ` set (concat (map g rs)) = {}"
    using assms(1) by (auto simp del: set_concat)
  then show ?thesis using assms(2) by auto blast+
qed

lemma packageByNodeID_member:
  assumes "goSeparate module cs" "c \<in> set cs" "n \<in> set (typesOf c)"
  shows "pt_packageByNodeID (fold tableContribution cs tables) (n_ID n) = packageOf c"
proof -
  have first: "\<forall>c \<in> set cs. packageFirst (nodesOf c)" using goSeparateD(3) [OF assms(1)] by (simp add: goSource_def)
  from assms(2) obtain ls rs where cs: "cs = ls @ c # rs" by (auto simp: in_set_conv_decomp)
  have "n_ID n \<notin> n_ID ` set (typesOf c')" if "c' \<in> set rs" for c'
  proof -
    have "n_ID n \<in> n_ID ` set (ownNodes c)" using typesOf_own [OF assms(3)] by simp
    moreover have "n_ID ` set (ownNodes c) \<inter> n_ID ` set (ownNodes c') = {}"
      using goSeparateD(2) [OF assms(1)] that unfolding cs by auto
    ultimately show ?thesis using typesOf_own [of _ c'] by blast
  qed
  then have "pt_packageByNodeID (fold tableContribution rs tables') (n_ID n) = pt_packageByNodeID tables' (n_ID n)" for tables'
    using first by (intro tableContributions(4)) (simp_all add: cs)
  then show ?thesis using first assms(3) by (simp add: cs tableContribution_tables(3))
qed

section \<open>Lists by key\<close>

lemma appendAt_keys: "fst ` set (appendAt k v al) = insert k (fst ` set al)"
  by (induction k v al rule: appendAt.induct) auto

lemma appendAt_distinct: "distinct (map fst al) \<Longrightarrow> distinct (map fst (appendAt k v al))"
proof (induction k v al rule: appendAt.induct)
  case (2 k v k' vs entries)
  then show ?case using appendAt_keys [of k v entries] by auto
qed simp

lemma appendAt_values:
  assumes "distinct (map fst al)" "(k', vs) \<in> set (appendAt k v al)"
  shows "(if k' = k then \<exists>us. vs = us @ [v] \<and> ((k, us) \<in> set al \<or> us = [] \<and> k \<notin> fst ` set al) else (k', vs) \<in> set al)"
  using assms by (induction k v al rule: appendAt.induct) (auto split: if_splits simp: image_iff)

lemma appendAt_sum:
  "mset (concat (map (\<lambda>(k, vs). concat (map (g k) vs)) (appendAt k v al))) = mset (concat (map (\<lambda>(k, vs). concat (map (g k) vs)) al)) + mset (g k v)"
  by (induction k v al rule: appendAt.induct) auto

lemma collected_values:
  defines "al \<equiv> \<lambda>kvs. fold (\<lambda>(k, v). appendAt k v) kvs []"
  shows "distinct (map fst (al kvs)) \<and> fst ` set (al kvs) = fst ` set kvs \<and>
    (\<forall>(k, vs) \<in> set (al kvs). vs = map snd (filter (\<lambda>x. fst x = k) kvs))"
proof (induction kvs rule: rev_induct)
  case Nil
  then show ?case by (simp add: al_def)
next
  case (snoc x kvs)
  obtain k v where x: "x = (k, v)" by (cases x)
  have step: "al (kvs @ [x]) = appendAt k v (al kvs)" by (simp add: al_def x)
  have "vs = map snd (filter (\<lambda>x. fst x = k') (kvs @ [x]))" if member: "(k', vs) \<in> set (appendAt k v (al kvs))" for k' vs
  proof -
    note added = appendAt_values [OF _ member]
    show ?thesis
    proof (cases "k' = k")
      case True
      with added snoc obtain us where us: "vs = us @ [v]" "(k, us) \<in> set (al kvs) \<or> us = [] \<and> k \<notin> fst ` set (al kvs)" by auto
      have "us = map snd (filter (\<lambda>x. fst x = k) kvs)"
        using us(2)
      proof
        assume "(k, us) \<in> set (al kvs)"
        then show ?thesis using snoc by auto
      next
        assume none: "us = [] \<and> k \<notin> fst ` set (al kvs)"
        then have "k \<notin> fst ` set kvs" using snoc by simp
        then show ?thesis using none by (auto simp: filter_empty_conv)
      qed
      then show ?thesis using us(1) True by (simp add: x)
    next
      case False
      then have "(k', vs) \<in> set (al kvs)" using added snoc by auto
      then show ?thesis using snoc False by (auto simp: x)
    qed
  qed
  then show ?case using snoc appendAt_keys [of k v "al kvs"] appendAt_distinct [of "al kvs" k v] unfolding step by (auto simp: x)
qed

lemma collected_sum:
  "mset (concat (map (\<lambda>(k, vs). concat (map (g k) vs)) (fold (\<lambda>(k, v). appendAt k v) kvs []))) = mset (concat (map (\<lambda>(k, v). g k v) kvs))"
  by (induction kvs rule: rev_induct) (auto simp: appendAt_sum)

definition valuesAt :: "(str \<times> 'a) list \<Rightarrow> str \<Rightarrow> 'a list" where
  "valuesAt kvs k = map snd (filter (\<lambda>x. fst x = k) kvs)"

lemma mset_map_filter: "mset (map f (filter P xs)) = (\<Sum>x\<in>#mset xs. if P x then {#f x#} else {#})"
  by (induction xs) auto

lemma sum_valuesAt: "(\<Sum>v\<in>#mset (valuesAt kvs k). g v) = (\<Sum>x\<in>#mset kvs. if fst x = k then g (snd x) else {#})"
  by (induction kvs) (auto simp: valuesAt_def)

text \<open>Pairs of values of the same key can be listed by either component.\<close>

lemma swap_values:
  "(\<Sum>x\<in>#mset kvs. \<Sum>v\<in>#mset (valuesAt kvs (fst x)). g (fst x) (snd x) v) =
    (\<Sum>x\<in>#mset kvs. \<Sum>v\<in>#mset (valuesAt kvs (fst x)). (g (fst x) v (snd x) :: 'b multiset))"
proof -
  have "(\<Sum>x\<in>#mset kvs. \<Sum>v\<in>#mset (valuesAt kvs (fst x)). g (fst x) (snd x) v) =
      (\<Sum>x\<in>#mset kvs. \<Sum>y\<in>#mset kvs. if fst y = fst x then g (fst x) (snd x) (snd y) else {#})"
    by (simp only: sum_valuesAt)
  also have "\<dots> = (\<Sum>y\<in>#mset kvs. \<Sum>x\<in>#mset kvs. if fst y = fst x then g (fst x) (snd x) (snd y) else {#})"
    by (rule sum_mset.swap)
  also have "\<dots> = (\<Sum>y\<in>#mset kvs. \<Sum>x\<in>#mset kvs. if fst x = fst y then g (fst y) (snd x) (snd y) else {#})"
    by (intro arg_cong [where f = sum_mset] image_mset_cong) auto
  finally show ?thesis by (simp only: sum_valuesAt)
qed

section \<open>Implementations and embeddings of a workspace\<close>

definition implementsEdge :: "Node \<Rightarrow> Node \<Rightarrow> Edge" where
  "implementsEdge i k = \<lparr>e_SourceID = n_ID i, e_TargetID = n_ID k, e_Relation = ''go:implements'', e_Evidence = n_Evidence i\<rparr>"

definition embedsEdge :: "Node \<Rightarrow> Node \<Rightarrow> SymbolReference \<Rightarrow> Edge" where
  "embedsEdge k t r = \<lparr>e_SourceID = n_ID k, e_TargetID = n_ID t, e_Relation = ''go:embeds'', e_Evidence = sr_Evidence r\<rparr>"

definition requirementsOf :: "Contribution list \<Rightarrow> Node \<Rightarrow> RelationKind \<Rightarrow> SymbolReference list" where
  "requirementsOf cs n relation = relationReferencesForSource (concat (map c_symbolReferences cs)) (n_ID n) relation"

definition methodsOf :: "Contribution list \<Rightarrow> str \<Rightarrow> str \<Rightarrow> str set" where
  "methodsOf cs package typeName = {n_Label x |x c. c \<in> set cs \<and> packageOf c = package \<and> x \<in> set (nodesOf c) \<and>
     n_Kind x = ''go:method'' \<and> receiverTypeFromQualifiedName (n_QualifiedName x) = typeName}"

definition implementsIn :: "Contribution list \<Rightarrow> str \<Rightarrow> Node \<Rightarrow> Node \<Rightarrow> bool" where
  "implementsIn cs package i k \<longleftrightarrow> n_ID i \<noteq> n_ID k \<and> requirementsOf cs k ''go:implements'' \<noteq> [] \<and>
     sr_Target ` set (requirementsOf cs k ''go:implements'') \<subseteq> methodsOf cs package (n_Label i)"

definition embeddings :: "Contribution list \<Rightarrow> Node \<Rightarrow> Node \<Rightarrow> Edge list" where
  "embeddings cs k t = map (embedsEdge k t) (filter (\<lambda>r. n_Label t = sr_Target r) (requirementsOf cs k ''go:embeds''))"

lemma implementsAll_iff: "implementsAll methods rs \<longleftrightarrow> rs \<noteq> [] \<and> sr_Target ` set rs \<subseteq> set methods"
  by (auto simp: implementsAll_def list_all_iff)

lemma packagedTypes_member: "(k, n) \<in> set (packagedTypes cs) \<longleftrightarrow> (\<exists>c \<in> set cs. packageOf c = k \<and> n \<in> set (typesOf c))"
  by (auto simp: packagedTypes_def)

lemma valuesAt_types: "valuesAt (packagedTypes cs) k = concat (map typesOf (filter (\<lambda>c. packageOf c = k) cs))"
  by (induction cs) (auto simp: packagedTypes_def valuesAt_def filter_map comp_def)

lemma methodKey_inj:
  assumes "\<forall>x \<in> set pk. x \<notin> set nul" "\<forall>x \<in> set pk'. x \<notin> set nul"
  shows "methodKey pk t = methodKey pk' t' \<longleftrightarrow> pk = pk' \<and> t = t'"
proof -
  obtain z where z: "nul = [z]" by (simp add: nul_def)
  have "takeWhile (\<lambda>x. x \<noteq> z) (methodKey pk t) = pk" "drop (Suc (length pk)) (methodKey pk t) = t"
    "takeWhile (\<lambda>x. x \<noteq> z) (methodKey pk' t') = pk'" "drop (Suc (length pk')) (methodKey pk' t') = t'"
    using assms by (auto simp: methodKey_def z takeWhile_append)
  then show ?thesis by metis
qed

lemma packageOf_plain:
  assumes "goSeparate module cs" "c \<in> set cs"
  shows "\<forall>x \<in> set (packageOf c). x \<notin> set nul"
  using packageFirst_shape [of "nodesOf c"] goSeparateD(3) [OF assms] unfolding goSource_def by metis

lemma methods_of_table:
  assumes "goSeparate module cs" "(pk, i) \<in> set (packagedTypes cs)"
  shows "set (pt_methodsByType (packageTables cs) (methodKey (pt_packageByNodeID (packageTables cs) (n_ID i)) (n_Label i))) = methodsOf cs pk (n_Label i)"
proof -
  from assms(2) obtain c where c: "c \<in> set cs" "packageOf c = pk" "i \<in> set (typesOf c)" by (auto simp: packagedTypes_member)
  have first: "\<forall>c \<in> set cs. packageFirst (nodesOf c)" using goSeparateD(3) [OF assms(1)] by (simp add: goSource_def)
  have label: "n_Label i \<noteq> []" using goSeparateD(3) [OF assms(1) c(1)] c(3) by (simp add: goSource_def)
  have package: "pt_packageByNodeID (packageTables cs) (n_ID i) = pk"
    using packageByNodeID_member [OF assms(1) c(1,3)] c(2) by (simp add: packageTables_def)
  have same: "methodKey (packageOf c') t = methodKey pk (n_Label i) \<longleftrightarrow> packageOf c' = pk \<and> t = n_Label i" if "c' \<in> set cs" for c' t
    using methodKey_inj packageOf_plain [OF assms(1) that] packageOf_plain [OF assms(1) c(1)] c(2) by simp
  have "set (pt_methodsByType (packageTables cs) (methodKey pk (n_Label i))) = (\<Union>c' \<in> set cs. methodsIn c' (methodKey pk (n_Label i)))"
    unfolding packageTables_def tableContributions(3) [OF first] by simp
  also have "\<dots> = methodsOf cs pk (n_Label i)"
    unfolding methodsIn_def methodsOf_def using same label by (fastforce simp del: not_None_eq)
  finally show ?thesis by (simp only: package)
qed

lemma interfaces_of_table:
  assumes "goSeparate module cs"
  shows "relationReferences (pt_interfaces (packageTables cs) (n_ID k)) ''go:implements'' = requirementsOf cs k ''go:implements''"
    "relationReferences (pt_interfaces (packageTables cs) (n_ID k)) ''go:embeds'' = requirementsOf cs k ''go:embeds''"
proof -
  have first: "\<forall>c \<in> set cs. packageFirst (nodesOf c)" using goSeparateD(3) [OF assms] by (simp add: goSource_def)
  have table: "pt_interfaces (packageTables cs) (n_ID k) = concat (map (\<lambda>c. interfaceReferences c (n_ID k)) cs)"
    unfolding packageTables_def tableContributions(1) [OF first] by simp
  show "relationReferences (pt_interfaces (packageTables cs) (n_ID k)) ''go:implements'' = requirementsOf cs k ''go:implements''"
    "relationReferences (pt_interfaces (packageTables cs) (n_ID k)) ''go:embeds'' = requirementsOf cs k ''go:embeds''"
    unfolding table by (induction cs) (auto simp: relationReferences_def requirementsOf_def relationReferencesForSource_def interfaceReferences_def
      intro!: filter_cong)
qed

lemma contractEdges_eq:
  assumes "goSeparate module cs"
  shows "contractEdges (packageTables cs) (valuesAt (packagedTypes cs) pk) k =
    map (\<lambda>i. implementsEdge i k) (filter (\<lambda>i. implementsIn cs pk i k) (valuesAt (packagedTypes cs) pk)) @
    concat (map (\<lambda>r. map (\<lambda>t. embedsEdge k t r) (filter (\<lambda>t. n_Label t = sr_Target r) (valuesAt (packagedTypes cs) pk)))
      (requirementsOf cs k ''go:embeds''))"
proof -
  let ?tables = "packageTables cs" and ?types = "valuesAt (packagedTypes cs) pk"
  have member: "(pk, i) \<in> set (packagedTypes cs)" if "i \<in> set ?types" for i using that by (auto simp: valuesAt_def)
  have implements: "filter (\<lambda>i. n_ID i \<noteq> n_ID k \<and>
      implementsAll (pt_methodsByType ?tables (methodKey (pt_packageByNodeID ?tables (n_ID i)) (n_Label i)))
        (relationReferences (pt_interfaces ?tables (n_ID k)) ''go:implements'')) ?types = filter (\<lambda>i. implementsIn cs pk i k) ?types"
    by (rule filter_cong) (simp_all add: implementsAll_iff implementsIn_def methods_of_table [OF assms member] interfaces_of_table [OF assms])
  show ?thesis
  proof (cases "pt_interfaces ?tables (n_ID k) = []")
    case True
    then have "requirementsOf cs k ''go:implements'' = []" "requirementsOf cs k ''go:embeds'' = []"
      using interfaces_of_table [OF assms, of k] by (simp_all add: relationReferences_def)
    then show ?thesis using True by (simp add: contractEdges_def implementsIn_def)
  next
    case False
    then show ?thesis unfolding contractEdges_def Let_def implements
      by (simp add: implementsEdge_def [abs_def] embedsEdge_def [abs_def] interfaces_of_table [OF assms])
  qed
qed

lemma implementationEdges_mset:
  assumes "goSeparate module cs"
  defines "A \<equiv> packagedTypes cs"
  shows "mset (implementationEdges cs) =
    (\<Sum>x\<in>#mset A. \<Sum>i\<in>#mset (valuesAt A (fst x)). if implementsIn cs (fst x) i (snd x) then {#implementsEdge i (snd x)#} else {#}) +
    (\<Sum>x\<in>#mset A. \<Sum>t\<in>#mset (valuesAt A (fst x)). mset (embeddings cs (snd x) t))"
proof -
  let ?tables = "packageTables cs" and ?al = "fold (\<lambda>(k, v). appendAt k v) A []"
  have first: "\<forall>c \<in> set cs. packageFirst (nodesOf c)" using goSeparateD(3) [OF assms(1)] by (simp add: goSource_def)
  have al: "pt_typesByPackage ?tables = ?al" unfolding packageTables_def tableContributions(2) [OF first] by (simp add: A_def)
  have "map (\<lambda>(_, types). concat (map (contractEdges ?tables types) types)) ?al =
      map (\<lambda>(k, types). concat (map (contractEdges ?tables (valuesAt A k)) types)) ?al"
    using collected_values [of A] unfolding valuesAt_def by (auto intro!: map_cong)
  then have "mset (implementationEdges cs) = mset (concat (map (\<lambda>(k, n). contractEdges ?tables (valuesAt A k) n) A))"
    unfolding implementationEdges_def Let_def al by (simp only: collected_sum)
  also have "\<dots> = (\<Sum>x\<in>#mset A. mset (contractEdges ?tables (valuesAt A (fst x)) (snd x)))"
    by (simp only: mset_concat_map case_prod_beta)
  also have "\<dots> = (\<Sum>x\<in>#mset A. (\<Sum>i\<in>#mset (valuesAt A (fst x)). if implementsIn cs (fst x) i (snd x) then {#implementsEdge i (snd x)#} else {#}) +
      (\<Sum>t\<in>#mset (valuesAt A (fst x)). mset (embeddings cs (snd x) t)))"
  proof (intro arg_cong [where f = sum_mset] image_mset_cong)
    fix x
    have "(\<Sum>r\<in>#mset (requirementsOf cs (snd x) ''go:embeds''). mset (map (\<lambda>t. embedsEdge (snd x) t r)
          (filter (\<lambda>t. n_Label t = sr_Target r) (valuesAt A (fst x))))) =
        (\<Sum>t\<in>#mset (valuesAt A (fst x)). mset (embeddings cs (snd x) t))"
      unfolding embeddings_def mset_map_filter by (rule sum_mset.swap)
    then show "mset (contractEdges ?tables (valuesAt A (fst x)) (snd x)) =
        (\<Sum>i\<in>#mset (valuesAt A (fst x)). if implementsIn cs (fst x) i (snd x) then {#implementsEdge i (snd x)#} else {#}) +
        (\<Sum>t\<in>#mset (valuesAt A (fst x)). mset (embeddings cs (snd x) t))"
      unfolding A_def contractEdges_eq [OF assms(1)] mset_append mset_concat_map mset_map_filter by simp
  qed
  finally show ?thesis by (simp only: sum_mset.distrib)
qed

lemma own_references:
  assumes "goSeparate module cs" "c \<in> set cs" "n \<in> set (ownNodes c)"
  shows "relationReferencesForSource (c_symbolReferences c) (n_ID n) relation = requirementsOf cs n relation"
proof -
  from assms(2) obtain ls rs where cs: "cs = ls @ c # rs" by (auto simp: in_set_conv_decomp)
  have "relationReferencesForSource (c_symbolReferences c') (n_ID n) relation = []" if "c' \<in> set ls \<union> set rs" for c'
  proof -
    have "n_ID ` set (ownNodes c') \<inter> n_ID ` set (ownNodes c) = {}"
      by (rule distinct_parts [OF goSeparateD(2) [OF assms(1), unfolded cs] that])
    moreover have "\<forall>r \<in> set (c_symbolReferences c'). sr_SourceID r \<in> n_ID ` set (ownNodes c')"
      using goSeparateD(3) [OF assms(1), of c'] that by (auto simp: cs goSource_def)
    moreover have "n_ID n \<in> n_ID ` set (ownNodes c)" using assms(3) by simp
    ultimately have "\<forall>r \<in> set (c_symbolReferences c'). sr_SourceID r \<noteq> n_ID n" by (metis IntI emptyE)
    then show ?thesis by (simp add: relationReferencesForSource_def filter_empty_conv)
  qed
  then have none: "concat (map (\<lambda>c'. relationReferencesForSource (c_symbolReferences c') (n_ID n) relation) ls) = []"
    "concat (map (\<lambda>c'. relationReferencesForSource (c_symbolReferences c') (n_ID n) relation) rs) = []" by auto
  have "requirementsOf cs n relation = concat (map (\<lambda>c'. relationReferencesForSource (c_symbolReferences c') (n_ID n) relation) cs)"
    by (simp add: requirementsOf_def relationReferencesForSource_def filter_concat comp_def)
  then show ?thesis using none by (simp only: cs map_append list.map concat_append concat.simps append_Nil append_Nil2)
qed

definition samePackage :: "Contribution list \<Rightarrow> Contribution \<Rightarrow> Contribution list" where
  "samePackage cs c = filter (\<lambda>c'. packageOf c' = packageOf c) (inDirectory cs (Dir (c_sourcePath c)))"

lemma samePackage_member:
  assumes "goSeparate module cs" "c \<in> set cs"
  shows "mset (samePackage cs c) = mset (filter (\<lambda>c'. packageOf c' = packageOf c) cs)"
    "c' \<in> set (samePackage cs c) \<longleftrightarrow> c' \<in> set cs \<and> packageOf c' = packageOf c"
proof -
  have same: "Dir (c_sourcePath c') = Dir (c_sourcePath c)" if "c' \<in> set cs" "packageOf c' = packageOf c" for c'
    using goSeparateD(4) [OF assms(1) that(1) assms(2) that(2)] .
  then show "c' \<in> set (samePackage cs c) \<longleftrightarrow> c' \<in> set cs \<and> packageOf c' = packageOf c" by (auto simp: samePackage_def inDirectory_member)
  have "mset (samePackage cs c) = filter_mset (\<lambda>c'. packageOf c' = packageOf c \<and> Dir (c_sourcePath c') = Dir (c_sourcePath c)) (mset cs)"
    by (simp add: samePackage_def inDirectory_def filter_filter_mset conj_commute)
  also have "\<dots> = filter_mset (\<lambda>c'. packageOf c' = packageOf c) (mset cs)" by (rule filter_mset_cong) (use same in auto)
  finally show "mset (samePackage cs c) = mset (filter (\<lambda>c'. packageOf c' = packageOf c) cs)" by simp
qed

lemma samePackage_types:
  assumes "goSeparate module cs" "c \<in> set cs"
  shows "mset (concat (map (\<lambda>c'. concat (map f (typesOf c'))) (samePackage cs c))) =
    (\<Sum>n\<in>#mset (valuesAt (packagedTypes cs) (packageOf c)). mset (f n))"
proof -
  have "mset (concat (map (\<lambda>c'. concat (map f (typesOf c'))) (samePackage cs c))) =
      mset (concat (map (\<lambda>c'. concat (map f (typesOf c'))) (filter (\<lambda>c'. packageOf c' = packageOf c) cs)))"
    unfolding mset_concat_map samePackage_member(1) [OF assms] ..
  also have "\<dots> = mset (concat (map f (valuesAt (packagedTypes cs) (packageOf c))))"
    unfolding valuesAt_types by (induction cs) auto
  finally show ?thesis unfolding mset_concat_map .
qed

lemma typeMethods_package:
  assumes "goSeparate module cs" "c \<in> set cs"
  shows "set (typeMethods (map (goTarget project) (samePackage cs c)) typeName) = methodsOf cs (packageOf c) typeName"
  using samePackage_member(2) [OF assms] by (fastforce simp: typeMethods_def methodsOf_def)

lemma concat_if: "concat (map (\<lambda>x. if P x then [f x] else []) xs) = map f (filter P xs)"
  by (induction xs) auto

lemma goTypeEdges_mset:
  assumes "goSeparate module cs" "c \<in> set cs" "i \<in> set (typesOf c)"
  defines "V \<equiv> valuesAt (packagedTypes cs) (packageOf c)"
  shows "mset (goTypeEdges (goTargets cs project) (Dir (c_sourcePath c)) (packageOf c) (c_symbolReferences c) i) =
    (\<Sum>k\<in>#mset V. if implementsIn cs (packageOf c) i k then {#implementsEdge i k#} else {#}) + (\<Sum>t\<in>#mset V. mset (embeddings cs i t))"
proof -
  let ?S = "samePackage cs c"
  have ts: "packageTargets (goTargets cs project) (Dir (c_sourcePath c)) (packageOf c) = map (goTarget project) ?S"
    by (simp add: packageTargets_def goTargets_def samePackage_def filter_map comp_def)
  note nodes = typesOf_own
  have types: "filter (\<lambda>n. n_Kind n = ''go:type'' \<and> P n) (nodesOf c') = filter P (typesOf c')" for c' P
    by (simp add: typesOf_def conj_commute)
  let ?edge = "\<lambda>n. \<lparr>e_SourceID = n_ID i, e_TargetID = n_ID n, e_Relation = ''go:implements'', e_Evidence = n_Evidence i\<rparr>"
  let ?all = "\<lambda>t n. implementsAll (typeMethods (map (goTarget project) ?S) (n_Label i)) (relationReferencesForSource (tg_SymbolReferences t) (n_ID n) ''go:implements'')"
  have implements: "map ?edge (filter (?all (goTarget project c')) (filter (\<lambda>n. n_Kind n = ''go:type'' \<and> n_ID n \<noteq> n_ID i) (nodesOf c'))) =
      concat (map (\<lambda>k. if implementsIn cs (packageOf c) i k then [implementsEdge i k] else []) (typesOf c'))" if "c' \<in> set ?S" for c'
  proof -
    have c': "c' \<in> set cs" using that samePackage_member(2) [OF assms(1,2)] by simp
    have "filter (?all (goTarget project c')) (filter (\<lambda>n. n_ID n \<noteq> n_ID i) (typesOf c')) = filter (implementsIn cs (packageOf c) i) (typesOf c')"
      unfolding filter_filter
      by (rule filter_cong) (auto simp: implementsIn_def implementsAll_iff typeMethods_package [OF assms(1,2)] own_references [OF assms(1) c' nodes])
    then show ?thesis unfolding types by (simp add: implementsEdge_def concat_if)
  qed
  let ?embeds = "relationReferencesForSource (c_symbolReferences c) (n_ID i) ''go:embeds''"
  have own: "?embeds = requirementsOf cs i ''go:embeds''" by (rule own_references [OF assms(1,2) nodes [OF assms(3)]])
  have self: "embeddings cs i n = []" if n: "n \<in> set (typesOf c')" "c' \<in> set cs" "n_ID n = n_ID i" for n c'
  proof -
    have "n = i" by (rule own_unique [OF assms(1) n(2) assms(2) ownNodes_nodes [OF nodes [OF n(1)]] nodes [OF assms(3)] n(3)])
    moreover have "\<forall>r \<in> set ?embeds. sr_Target r \<noteq> n_Label i"
      using goSeparateD(3) [OF assms(1,2)] assms(3) by (simp add: goSource_def)
    ultimately show ?thesis unfolding embeddings_def own [symmetric] by (auto simp: filter_empty_conv)
  qed
  have embeds: "concat (map (\<lambda>n. map (\<lambda>r. \<lparr>e_SourceID = n_ID i, e_TargetID = n_ID n, e_Relation = ''go:embeds'', e_Evidence = sr_Evidence r\<rparr>)
        (filter (\<lambda>r. n_Label n = sr_Target r) ?embeds)) (filter (\<lambda>n. n_Kind n = ''go:type'' \<and> n_ID n \<noteq> n_ID i) (nodesOf c'))) =
      concat (map (embeddings cs i) (typesOf c'))" if "c' \<in> set ?S" for c'
  proof -
    have c': "c' \<in> set cs" using that samePackage_member(2) [OF assms(1,2)] by simp
    have "concat (map (embeddings cs i) (filter (\<lambda>n. n_ID n \<noteq> n_ID i) ns)) = concat (map (embeddings cs i) ns)" if "set ns \<subseteq> set (typesOf c')" for ns
      using that self [OF _ c'] by (induction ns) auto
    then have "concat (map (embeddings cs i) (filter (\<lambda>n. n_ID n \<noteq> n_ID i) (typesOf c'))) = concat (map (embeddings cs i) (typesOf c'))" by blast
    then show ?thesis unfolding types own by (simp add: embeddings_def [abs_def] embedsEdge_def [abs_def])
  qed
  have "goTypeEdges (goTargets cs project) (Dir (c_sourcePath c)) (packageOf c) (c_symbolReferences c) i =
      concat (map (\<lambda>c'. concat (map (\<lambda>k. if implementsIn cs (packageOf c) i k then [implementsEdge i k] else []) (typesOf c'))) ?S) @
      concat (map (\<lambda>c'. concat (map (embeddings cs i) (typesOf c'))) ?S)"
    unfolding goTypeEdges_def Let_def ts map_map comp_def goTarget_simps(2) using implements embeds by (simp cong: map_cong)
  then show ?thesis
    unfolding V_def by (simp only: mset_append samePackage_types [OF assms(1,2)]) (simp add: if_distrib [of mset] cong: if_cong)
qed

lemma goTypesEdges_mset:
  assumes "goSeparate module cs"
  shows "mset (concat (map (goTypesEdges (goTargets cs project)) cs)) = mset (implementationEdges cs)"
proof -
  let ?A = "packagedTypes cs"
  let ?I = "\<lambda>x. \<Sum>k\<in>#mset (valuesAt ?A (fst x)). if implementsIn cs (fst x) (snd x) k then {#implementsEdge (snd x) k#} else {#}"
  let ?E = "\<lambda>x. \<Sum>t\<in>#mset (valuesAt ?A (fst x)). mset (embeddings cs (snd x) t)"
  have source: "mset (goTypesEdges (goTargets cs project) c) = (\<Sum>x\<in>#mset (map (Pair (packageOf c)) (typesOf c)). ?I x + ?E x)"
    if c: "c \<in> set cs" for c
  proof -
    have "goTypesEdges (goTargets cs project) c =
        concat (map (goTypeEdges (goTargets cs project) (Dir (c_sourcePath c)) (packageOf c) (c_symbolReferences c)) (typesOf c))"
      using packageAt_member(2) [OF assms c] by (simp add: goTypesEdges_def typesOf_def Let_def)
    also have "mset \<dots> = (\<Sum>i\<in>#mset (typesOf c). ?I (packageOf c, i) + ?E (packageOf c, i))"
      unfolding mset_concat_map
      by (intro arg_cong [where f = sum_mset] image_mset_cong) (simp add: goTypeEdges_mset [OF assms c] cong: if_cong)
    finally show ?thesis by (simp add: image_mset.compositionality comp_def)
  qed
  have "mset (concat (map (goTypesEdges (goTargets cs project)) cs')) = (\<Sum>x\<in>#mset (packagedTypes cs'). ?I x + ?E x)"
    if "set cs' \<subseteq> set cs" for cs'
    using that source by (induction cs') (auto simp: packagedTypes_def)
  then have "mset (concat (map (goTypesEdges (goTargets cs project)) cs)) = (\<Sum>x\<in>#mset ?A. ?I x) + (\<Sum>x\<in>#mset ?A. ?E x)"
    by (simp add: sum_mset.distrib)
  also have "(\<Sum>x\<in>#mset ?A. ?I x) =
      (\<Sum>x\<in>#mset ?A. \<Sum>i\<in>#mset (valuesAt ?A (fst x)). if implementsIn cs (fst x) i (snd x) then {#implementsEdge i (snd x)#} else {#})"
    by (rule swap_values)
  finally show ?thesis by (simp only: implementationEdges_mset [OF assms])
qed

text \<open>The edges in memory are those of every source.\<close>

lemma goResolve_edges:
  assumes "goSeparate (modulePath view) cs" "goResolve quote cs view = Inr r"
  shows "mset (rl_Edges r) = mset (concat (map (\<lambda>c. goSourceEdges (goTargets cs project) (modulePath view) c @ goTypesEdges (goTargets cs project) c) cs)) \<and>
    (\<forall>c \<in> set cs. fileFact c \<noteq> None)"
proof -
  let ?m = "modulePath view" and ?T = "goTargets cs project"
  let ?R0 = "\<lparr>rl_Nodes = goCollectNodes cs, rl_Edges = [], rl_diagnostics = []\<rparr>"
  let ?R1 = "fold (goWorkspaceSource quote ?m cs) (contributionPaths cs) ?R0"
  let ?R2 = "appendPackageCallFacts quote ?m cs ?R1"
  have files: "\<forall>c \<in> set cs. fileFact c \<noteq> None"
    using assms(2) by (auto simp: goResolve_def requireFile_def guardE_def Let_def split: if_splits)
  have r: "r = ?R2\<lparr>rl_Edges := goSortedFacts (rl_Edges ?R2 @ implementationEdges cs)\<rparr>"
    using assms(2) by (auto simp: goResolve_def finishResolution_def Let_def liftE_def split: sum.splits)
  let ?imports = "\<lambda>c. concat (map (goImportEdges ?T ?m (the (fileFact c))) (c_unresolvedReferences c))"
  have "rl_Edges ?R1 = concat (map (\<lambda>p. case contributionOf cs p of None \<Rightarrow> [] | Some c \<Rightarrow> ?imports c) (contributionPaths cs))"
  proof -
    have "rl_Edges (goWorkspaceSource quote ?m cs p R) = rl_Edges R @ (case contributionOf cs p of None \<Rightarrow> [] | Some c \<Rightarrow> ?imports c)"
      if "p \<in> set (contributionPaths cs)" for p R
    proof -
      from that obtain c where c: "c \<in> set cs" "p = c_sourcePath c" by auto
      show ?thesis unfolding c(2) goWorkspaceSource_edges [OF assms(1) files c(1), where project = project]
        by (simp add: contributionOf_member [OF goSeparateD(1) [OF assms(1)] c(1)])
    qed
    then show ?thesis
      using fold_edges [of "contributionPaths cs" "goWorkspaceSource quote ?m cs" "\<lambda>p. case contributionOf cs p of None \<Rightarrow> [] | Some c \<Rightarrow> ?imports c" ?R0]
      by simp
  qed
  then have "mset (rl_Edges ?R1) = mset (concat (map ?imports cs))"
    using mset_by_path [OF goSeparateD(1) [OF assms(1)], of ?imports] by simp
  moreover have "mset (rl_Edges ?R2) = mset (rl_Edges ?R1) + mset (concat (map (\<lambda>c. concat (map (goCallEdges ?T ?m c) (c_symbolReferences c))) cs))"
    by (simp add: appendPackageCallFacts_edges [OF assms(1), of _ _ _ project])
  ultimately have "mset (rl_Edges ?R2) = mset (concat (map (goSourceEdges ?T ?m) cs))"
    unfolding goSourceEdges_def by (simp only: mset_concat_append)
  then have "mset (rl_Edges r) = mset (concat (map (goSourceEdges ?T ?m) cs)) + mset (concat (map (goTypesEdges ?T) cs))"
    by (simp add: r goSortedFacts_def goTypesEdges_mset [OF assms(1)])
  then show ?thesis using files by (simp only: mset_concat_append)
qed

section \<open>Pages of the workspace\<close>

text \<open>An index that lists the workspace, in pages of sorted files as the store does.\<close>

definition servedPackages :: "(ResolverPackagePageRequest \<Rightarrow> 'e + ResolverTarget list) \<Rightarrow> str \<Rightarrow> Contribution list \<Rightarrow> bool" where
  "servedPackages index project cs \<longleftrightarrow> (\<forall>packagePath after. packagePath \<noteq> [] \<longrightarrow>
     index \<lparr>rp_ProjectID = project, rp_Language = ''go'', rp_PackagePath = packagePath, rp_AfterSourcePath = after,
       rp_Limit = resolverPackagePageSize\<rparr> =
     Inr (take (nat resolverPackagePageSize) (filter (\<lambda>t. after < tg_SourcePath t) (goTargets cs project packagePath))))"

lemma goTargets_member: "t \<in> set (goTargets cs project pp) \<longleftrightarrow> (\<exists>c \<in> set cs. Dir (c_sourcePath c) = pp \<and> t = goTarget project c)"
  by (auto simp: goTargets_def inDirectory_def)

interpretation served: package_lister index project "goTargets cs project"
  "servedPackages index project cs \<and> goSeparate module cs \<and> (\<forall>c \<in> set cs. fileFact c \<noteq> None)"
  for index :: "ResolverPackagePageRequest \<Rightarrow> 'e + ResolverTarget list" and project cs module
proof unfold_locales
  fix pp t
  have paths: "map tg_SourcePath (goTargets cs project pp) = filter (\<lambda>p. Dir p = pp) (map c_sourcePath (sort_key c_sourcePath cs))"
    by (simp add: goTargets_def inDirectory_def filter_map comp_def)
  have sort: "sort (map c_sourcePath cs) = map c_sourcePath (sort_key c_sourcePath cs)"
    by (rule properties_for_sort) simp_all
  show "sorted (map tg_SourcePath (goTargets cs project pp))" unfolding paths sort [symmetric] by (rule sorted_wrt_filter) simp
  assume ready: "servedPackages index project cs \<and> goSeparate module cs \<and> (\<forall>c \<in> set cs. fileFact c \<noteq> None)"
  then have "distinct (map c_sourcePath cs)" using goSeparateD(1) by blast
  then show "distinct (map tg_SourcePath (goTargets cs project pp))" unfolding paths sort [symmetric] by simp
  show "pp \<noteq> [] \<Longrightarrow> index \<lparr>rp_ProjectID = project, rp_Language = ''go'', rp_PackagePath = pp, rp_AfterSourcePath = after,
      rp_Limit = resolverPackagePageSize\<rparr> =
    Inr (take (nat resolverPackagePageSize) (filter (\<lambda>t. after < tg_SourcePath t) (goTargets cs project pp)))" for after
    using ready by (simp add: servedPackages_def)
  assume "t \<in> set (goTargets cs project pp)"
  then obtain c where c: "c \<in> set cs" "t = goTarget project c" by (auto simp: goTargets_member)
  have "c_sourcePath c \<noteq> []" using ready goSeparateD(3) c(1) by (auto simp: goSource_def)
  then show "tg_SourcePath t \<noteq> []" using c(2) by simp
  show "targetFile (tg_Nodes t) \<noteq> None" using ready c by (simp add: fileFact_def)
qed

definition allNodes :: "Contribution list \<Rightarrow> Node set" where
  "allNodes cs = (\<Union>c \<in> set cs. set (ownNodes c))"

lemma goSeparate_regular:
  assumes "goSeparate module cs"
  shows "regularTargets (goTargets cs project) (allNodes cs)"
proof -
  have "inj_on n_ID (set (concat (map ownNodes cs)))" using goSeparateD(2) [OF assms] by (simp only: distinct_map)
  then have "inj_on n_ID (allNodes cs)" by (simp add: allNodes_def)
  moreover have "es_NodeID s \<in> n_ID ` set (resolverNodesOf (goTarget project c))" if "c \<in> set cs" "s \<in> set (c_exportedSurfaces c)" for c s
    using goSeparateD(3) [OF assms that(1)] that(2) by (simp add: goSource_def resolverNodesOf_def ownNodes_def)
  moreover have "set (resolverNodesOf (goTarget project c)) \<subseteq> allNodes cs" if "c \<in> set cs" for c
    using that by (auto simp: resolverNodesOf_def allNodes_def ownNodes_def)
  ultimately show ?thesis unfolding regularTargets_def by (metis goTargets_member goTarget_simps(4))
qed

lemma goCollectNodes_kept:
  assumes "inj_on n_ID U" "allNodes cs \<subseteq> U"
  shows "kept U (goCollectNodes cs) \<and> set (goCollectNodes cs) = allNodes cs"
proof -
  have "kept U (fold (\<lambda>c. goPutNodes (nodesOf c)) xs ns) \<and>
      set (fold (\<lambda>c. goPutNodes (nodesOf c)) xs ns) = allNodes xs \<union> set ns"
    if "allNodes xs \<subseteq> U" "kept U ns" for xs ns
    using that
  proof (induction xs arbitrary: ns)
    case Nil
    then show ?case by (simp add: allNodes_def)
  next
    case (Cons x xs)
    from goPutNodes_kept [OF assms(1) Cons.prems(2), of "nodesOf x"] Cons.prems(1)
    have "kept U (goPutNodes (nodesOf x) ns)" "set (goPutNodes (nodesOf x) ns) = set (ownNodes x) \<union> set ns"
      by (auto simp: allNodes_def ownNodes_def)
    with Cons.IH [of "goPutNodes (nodesOf x) ns"] Cons.prems(1) show ?case by (auto simp: allNodes_def)
  qed
  from this [OF assms(2), of "[]"] show ?thesis using assms(2) by (simp add: goCollectNodes_def kept_def)
qed

lemma goPageEdges_sources:
  assumes "goSource module c" "e \<in> set (goSourceEdges targets m c @ goTypesEdges targets c)"
  shows "e_SourceID e \<in> n_ID ` set (ownNodes c)"
proof -
  from assms(2) consider u where "u \<in> set (c_unresolvedReferences c)" "e \<in> set (goImportEdges targets m (the (fileFact c)) u)"
    | r where "r \<in> set (c_symbolReferences c)" "e \<in> set (goCallEdges targets m c r)" | "e \<in> set (goTypesEdges targets c)"
    by (auto simp: goSourceEdges_def)
  then show ?thesis
  proof cases
    case (1 u)
    then have "e_SourceID e = ur_SourceID u" by (auto simp: goImportEdges_def importEdges_def Let_def split: option.splits)
    then show ?thesis using assms(1) 1(1) by (simp add: goSource_def)
  next
    case (2 r)
    then have "e_SourceID e = sr_SourceID r" by (auto simp: goCallEdges_def split: if_splits option.splits prod.splits list.splits)
    then show ?thesis using assms(1) 2(1) by (simp add: goSource_def)
  next
    case 3
    then obtain n where "n \<in> set (nodesOf c)" "n_Kind n = ''go:type''" "e_SourceID e = n_ID n"
      by (auto simp: goTypesEdges_def goTypeEdges_def Let_def split: if_splits)
    then show ?thesis by (auto simp: ownNodes_def goResolverNodeKind_def)
  qed
qed

lemma finishResolution_Inr:
  "finishResolution vocabulary R = Inr r \<longleftrightarrow> r = R \<and> (\<exists>v. vocabulary = Inr v \<and> facts_ok v \<lparr>f_Nodes = rl_Nodes R, f_Edges = rl_Edges R\<rparr>)"
proof -
  have "Validate v fs = Inr u \<longleftrightarrow> facts_ok v fs" for v fs u using Validate_facts_ok [of v fs] by (cases u) simp
  then show ?thesis by (auto simp: finishResolution_def)
qed

lemma fold_nodes: "(\<And>x R. rl_Nodes (f x R) = rl_Nodes R) \<Longrightarrow> rl_Nodes (fold f xs R) = rl_Nodes R"
  by (induction xs arbitrary: R) auto

lemma goResolve_nodes:
  assumes "goResolve quote cs view = Inr r"
  shows "rl_Nodes r = goCollectNodes cs" "\<exists>v. goResolverVocabulary = Inr v \<and> facts_ok v \<lparr>f_Nodes = goCollectNodes cs, f_Edges = rl_Edges r\<rparr>"
proof -
  have reference: "rl_Nodes (goWorkspaceReference quote m cs p n u R) = rl_Nodes R" for m p n u R
    by (simp add: goWorkspaceReference_def Let_def)
  have source: "rl_Nodes (goWorkspaceSource quote m cs p R) = rl_Nodes R" for m p R
    by (simp add: goWorkspaceSource_def fold_nodes [OF reference] split: option.splits)
  have call: "rl_Nodes (packageCallFact quote m cs c s R) = rl_Nodes R" for m c s R
    by (simp add: packageCallFact_def Let_def split: option.splits prod.splits)
  have calls: "rl_Nodes (appendPackageCallFacts quote m cs R) = rl_Nodes R" for m R
    unfolding appendPackageCallFacts_def by (rule fold_nodes) (rule fold_nodes, rule call)
  obtain v where v: "goResolverVocabulary = Inr v" "facts_ok v \<lparr>f_Nodes = rl_Nodes r, f_Edges = rl_Edges r\<rparr>"
    using assms by (auto simp: goResolve_def finishResolution_Inr Let_def)
  show "rl_Nodes r = goCollectNodes cs"
    using assms by (auto simp: goResolve_def finishResolution_Inr Let_def calls fold_nodes [OF source])
  then show "\<exists>v. goResolverVocabulary = Inr v \<and> facts_ok v \<lparr>f_Nodes = goCollectNodes cs, f_Edges = rl_Edges r\<rparr>" using v by auto
qed

lemma goPage_resolves:
  assumes "goSeparate (modulePath view) cs" "servedPackages index project cs" "project \<noteq> []" "goResolve quote cs view = Inr r"
    "set page \<subseteq> set cs" "distinct (map c_sourcePath page)"
  shows "\<exists>R. goResolvePage quote' index page project view = Some (Inr R) \<and>
    mset (rl_Edges R) = mset (concat (map (\<lambda>c. goSourceEdges (goTargets cs project) (modulePath view) c @ goTypesEdges (goTargets cs project) c) page))"
proof -
  let ?T = "goTargets cs project" and ?U = "allNodes cs"
  let ?E = "\<lambda>c. goSourceEdges ?T (modulePath view) c @ goTypesEdges ?T c"
  note whole = goResolve_edges [OF assms(1,4), of project]
  have source: "goSource (modulePath view) c" if "c \<in> set cs" for c by (rule goSeparateD(3) [OF assms(1) that])
  have "\<forall>c \<in> set page. \<forall>u \<in> set (c_unresolvedReferences c). ur_Target u \<noteq> modulePath view @ slashes"
    using source assms(5) by (auto simp: goSource_def)
  then obtain R where R: "goResolvePage quote' index page project view = Some (finishResolution goResolverVocabulary R)"
    "mset (rl_Edges R) = mset (concat (map ?E page))" "growth ?T ?U (goCollectNodes page) (rl_Nodes R) (e_TargetID ` set (rl_Edges R))"
    using served.goResolvePage_edges [of project page index cs "modulePath view" view quote' ?U] assms whole by blast
  have regular: "regularTargets ?T ?U" by (rule goSeparate_regular [OF assms(1)])
  then have inj: "inj_on n_ID ?U" by (simp add: regularTargets_def)
  have "allNodes page \<subseteq> ?U" using assms(5) by (auto simp: allNodes_def)
  note page = goCollectNodes_kept [OF inj this] and all = goCollectNodes_kept [OF inj order_refl]
  from R(3) regular page have kept: "kept ?U (rl_Nodes R)" "allNodes page \<subseteq> set (rl_Nodes R)"
    "e_TargetID ` set (rl_Edges R) \<subseteq> n_ID ` set (rl_Nodes R)" by (auto simp: growth_def)
  obtain v where v: "goResolverVocabulary = Inr v" "facts_ok v \<lparr>f_Nodes = goCollectNodes cs, f_Edges = rl_Edges r\<rparr>"
    using goResolve_nodes(2) [OF assms(4)] by blast
  have edges: "set (rl_Edges R) = (\<Union>c \<in> set page. set (?E c))" using arg_cong [OF R(2), of set_mset] by auto
  have "set (rl_Edges r) = (\<Union>c \<in> set cs. set (?E c))" using arg_cong [OF conjunct1 [OF whole], of set_mset] by auto
  with edges assms(5) have part: "set (rl_Edges R) \<subseteq> set (rl_Edges r)" by blast
  have "e_SourceID e \<in> n_ID ` set (rl_Nodes R)" if "e \<in> set (rl_Edges R)" for e
  proof -
    from that edges obtain c where c: "c \<in> set page" "e \<in> set (?E c)" by blast
    have "e_SourceID e \<in> n_ID ` set (ownNodes c)" using source c assms(5) by (intro goPageEdges_sources [OF _ c(2)]) blast
    also have "\<dots> \<subseteq> n_ID ` set (rl_Nodes R)" using kept(2) c(1) by (auto simp: allNodes_def)
    finally show ?thesis .
  qed
  then have ends: "\<forall>e \<in> set (rl_Edges R). e_SourceID e \<in> n_ID ` set (rl_Nodes R) \<and> e_TargetID e \<in> n_ID ` set (rl_Nodes R)"
    using kept(3) by blast
  have "facts_ok v \<lparr>f_Nodes = rl_Nodes R, f_Edges = rl_Edges R\<rparr>"
    by (rule facts_ok_restrict [OF v(2) _ _ part ends]) (use kept(1) all in \<open>simp_all add: kept_def\<close>)
  then have "finishResolution goResolverVocabulary R = Inr R" unfolding finishResolution_Inr using v(1) by blast
  then show ?thesis using R(1,2) by (intro exI conjI) simp_all
qed

section \<open>Small workspaces\<close>

definition goServedIndex :: "Contribution list \<Rightarrow> ResolverPackagePageRequest \<Rightarrow> unit + ResolverTarget list" where
  "goServedIndex cs request = Inr (take (nat (rp_Limit request))
     (filter (\<lambda>t. rp_AfterSourcePath request < tg_SourcePath t) (goTargets cs (rp_ProjectID request) (rp_PackagePath request))))"

lemma goServedIndex_serves: "servedPackages (goServedIndex cs) project cs"
  by (simp add: servedPackages_def goServedIndex_def)

lemma goModule_separate: "goSeparate (modulePath goView) goModule"
  by code_simp

lemma goModule_resolves:
  "map_sum id (\<lambda>r. map (\<lambda>e. (e_SourceID e, e_TargetID e, e_Relation e)) (rl_Edges r)) (goResolve id goModule goView :: unit resolve_error + Resolution) =
     Inr [(''a.go'', ''l/f.go'', ''go:imports_from''), (''a.go'', ''l/f.goF'', ''go:imports_from''), (''a.go'', ''l/i.go'', ''go:imports_from''),
      (''a.goM'', ''l/f.goF'', ''go:calls''), (''l/f.goT'', ''l/i.goI'', ''go:implements'')]"
  by code_simp

text \<open>In memory, types of packages of the same name in different directories implement each other's interfaces; by page they do not.\<close>

definition commandModule :: "Contribution list" where
  "commandModule =
     [goFile ''a/t.go'' ''main'' [(''T'', ''main.T'', ''go:type''), (''R'', ''main.T.R'', ''go:method'')] [] [] [],
      goFile ''b/i.go'' ''main'' [(''I'', ''main.I'', ''go:type'')] [] []
        [\<lparr>sr_SourceID = ''b/i.goI'', sr_Target = ''R'', sr_Relation = ''go:implements'', sr_Evidence = sampleEvidence ''b/i.go''\<rparr>]]"

lemma implements_across_directories:
  "map (\<lambda>e. (e_SourceID e, e_TargetID e)) (implementationEdges commandModule) = [(''a/t.goT'', ''b/i.goI'')]"
  "concat (map (goTypesEdges (goTargets commandModule ''p'')) commandModule) = []"
  by code_simp+

text \<open>A call into a package outside of the module is passed over in memory, but warned about by page.\<close>

definition libraryCall :: SymbolReference where
  "libraryCall = \<lparr>sr_SourceID = ''a.goM'', sr_Target = ''fmt.Print'', sr_Relation = ''go:calls'', sr_Evidence = sampleEvidence ''a.go''\<rparr>"

definition libraryCaller :: Contribution where
  "libraryCaller = goFile ''a.go'' ''main'' [(''M'', ''main.M'', ''go:function'')] []
     [\<lparr>ur_SourceID = ''a.go'', ur_Target = ''fmt'', ur_Kind = ModuleReferenceImport, ur_Ambiguous = False, ur_Bindings = []\<rparr>] [libraryCall]"

lemma library_call_warned:
  "goPageCall id index ''p'' ''m'' libraryCaller libraryCall R =
     Some (Inr (R\<lparr>rl_diagnostics := rl_diagnostics R @ [warning ''Go call fmt.Print from a.go is unsupported or ambiguous'']\<rparr>))"
  "packageCallFact id ''m'' [libraryCaller] libraryCaller libraryCall R = R"
proof -
  have cut: "CutAt (CHR ''.'') (sr_Target libraryCall) = Some (''fmt'', ''Print'')" by code_simp
  have base: "Base ''fmt'' = ''fmt''" by code_simp
  have outside: "modulePackagePath ''fmt'' ''m'' = None" by code_simp
  have caller: "c_unresolvedReferences libraryCaller =
      [\<lparr>ur_SourceID = ''a.go'', ur_Target = ''fmt'', ur_Kind = ModuleReferenceImport, ur_Ambiguous = False, ur_Bindings = []\<rparr>]"
    "c_sourcePath libraryCaller = ''a.go''" "sr_Relation libraryCall = ''go:calls''"
    by (simp_all add: libraryCaller_def goFile_def libraryCall_def)
  have message: "goCallUnsupported id (sr_Target libraryCall) ''a.go'' = warning ''Go call fmt.Print from a.go is unsupported or ambiguous''" by code_simp
  show "goPageCall id index ''p'' ''m'' libraryCaller libraryCall R =
      Some (Inr (R\<lparr>rl_diagnostics := rl_diagnostics R @ [warning ''Go call fmt.Print from a.go is unsupported or ambiguous'']\<rparr>))"
    by (simp add: goPageCall_def goPageImported_def caller cut base outside message Let_def)
  show "packageCallFact id ''m'' [libraryCaller] libraryCaller libraryCall R = R"
    by (simp add: packageCallFact_def packageImported_def packageFiles_def caller cut base outside Let_def)
qed

section \<open>Properties\<close>



end
