(* ===== verification/Extract_Go_Workspace.thy ===== *)
theory Extract_Go_Workspace
  imports Extract_Go Resolve_Go_Workspace
begin

text \<open>
  What the Go extractor yields is what the Go resolver is given: the contributions of \<open>Extract_Go\<close> have the form that
  \<open>Resolve_Go_Workspace\<close> asks of a workspace (\<open>goSource\<close>), up to conditions on the program itself. The last section shows
  what the extractor misses in some files.
\<close>

section \<open>The form of an extracted contribution\<close>

lemma goNodes_eq:
  obtains p f k where "goNodes digest source root pc pn = [p, f, k]" "n_Kind p = ''project''" "n_Kind f = ''file''"
    "n_ID f = NewNodeID digest ''file'' (spanOf source root)" "n_Kind k = ''go:package''"
  by (simp add: goNodes_def packageFacts_def fileFacts_def addEdge_def addNode_def goEvidence_def Let_def)

lemma extracted_form:
  assumes "goExtract digest (Inr parse) source = (Inr c :: 'e extract_error + Contribution)"
    "wellParsed (sf_Contents source) (parse (sf_Contents source))"
  obtains p f k ns where "nodesOf c = [p, f, k] @ ns" "n_Kind p = ''project''" "n_Kind f = ''file''" "n_Kind k = ''go:package''"
    "\<forall>n \<in> set ns. n_Kind n \<in> goDeclared" "c_sourcePath c \<noteq> []"
    "\<forall>s \<in> set (c_exportedSurfaces c). es_NodeID s \<in> n_ID ` set ns" "\<forall>r \<in> set (c_symbolReferences c). sr_SourceID r \<in> n_ID ` set ns"
    "\<forall>u \<in> set (c_unresolvedReferences c). ur_SourceID u = n_ID f"
proof -
  obtain pc pn where c: "sf_ProjectID source \<noteq> []" "sf_SourcePath source \<noteq> []" "pc \<in> set (NamedChildren (parse (sf_Contents source)))"
    "c = contribution_of_input (goInput digest source (parse (sf_Contents source)) pc pn)"
    by (rule goExtract_Inr [OF assms(1)])
  obtain v where v: "vocabularyFor v goKinds" using goVocabulary by blast
  obtain ds ns where shape:
    "nodesOf c = goNodes digest source (parse (sf_Contents source)) pc pn @ ns"
    "list_all2 (\<lambda>d n. n_ID n = de_id d \<and> n_Label n = de_name d \<and> goDecl (de_node d) (n_Kind n)) ds ns"
    "c_exportedSurfaces c = exportedSurfaces ds" "\<forall>r \<in> set (c_symbolReferences c). symbolOK (de_id ` set ds) r"
    by (rule goInput_shape [OF v assms(2) c(1-3), of digest pn]) (rule that, simp_all add: c(4) contribution_of_input_def)
  obtain p f k where nodes: "goNodes digest source (parse (sf_Contents source)) pc pn = [p, f, k]" "n_Kind p = ''project''" "n_Kind f = ''file''"
    "n_ID f = NewNodeID digest ''file'' (spanOf source (parse (sf_Contents source)))" "n_Kind k = ''go:package''" by (rule goNodes_eq)
  have ids: "de_id ` set ds \<subseteq> n_ID ` set ns" using list_all2_pick [OF shape(2)] by force
  show thesis
  proof (rule that [OF _ nodes(2,3,5)])
    show "nodesOf c = [p, f, k] @ ns" by (simp only: shape(1) nodes(1))
    show "\<forall>n \<in> set ns. n_Kind n \<in> goDeclared"
      using shape(2) by (auto simp: list_all2_conv_all_nth in_set_conv_nth goDecl_def)
    show "c_sourcePath c \<noteq> []" using c(2) by (simp add: c(4) contribution_of_input_def goInput_def Let_def case_prod_beta)
    show "\<forall>s \<in> set (c_exportedSurfaces c). es_NodeID s \<in> n_ID ` set ns" using ids by (auto simp: shape(3) exportedSurfaces_def)
    show "\<forall>r \<in> set (c_symbolReferences c). sr_SourceID r \<in> n_ID ` set ns" using shape(4) ids by (auto simp: symbolOK_def)
    have "c_unresolvedReferences c =
        collectModuleReferences source (parse (sf_Contents source)) (NewNodeID digest ''file'' (spanOf source (parse (sf_Contents source))))"
      by (simp add: c(4) contribution_of_input_def goInput_def Let_def case_prod_beta)
    then show "\<forall>u \<in> set (c_unresolvedReferences c). ur_SourceID u = n_ID f" using collectModuleReferences_source nodes(4) by metis
  qed
qed

section \<open>Extracted too much and too little\<close>

text \<open>
  A file with two variables in one specification and a function with a local variable \<open>X\<close> that uses the first: the second
  variable is not declared, the use of the first is no reference, and the local variable is exported.
\<close>

definition variablesSource :: SourceFile where
  "variablesSource = \<lparr>sf_ProjectID = ''p'', sf_SourcePath = ''a.go'', sf_Contents = ''package q; var A, B int; func g() { X := A }''\<rparr>"

definition variablesTree :: sitter_node where
  "variablesTree =
     lineNode ''source_file'' 0 44 [([], lineNode ''package_clause'' 0 9 [([], lineNode ''package_identifier'' 8 9 [])]),
     ([], lineNode ''var_declaration'' 11 23 [([], lineNode ''var_spec'' 15 23 [([''name''], lineNode ''identifier'' 15 16 []),
     ([''name''], lineNode ''identifier'' 18 19 []), ([''type''], lineNode ''type_identifier'' 20 23 [])])]),
     ([], lineNode ''function_declaration'' 25 44 [([''name''], lineNode ''identifier'' 30 31 []),
     ([''parameters''], lineNode ''parameter_list'' 31 33 []),
     ([''body''], lineNode ''block'' 34 44 [([], lineNode ''short_var_declaration'' 36 42 [([''left''], lineNode ''expression_list'' 36 37 [([], lineNode ''identifier'' 36 37 [])]),
     ([''right''], lineNode ''expression_list'' 41 42 [([], lineNode ''identifier'' 41 42 [])])])])])]"

lemma variables_missed:
  "(let i = goInput columnDigest variablesSource variablesTree (hd (NamedChildren variablesTree)) (hd (NamedChildren (hd (NamedChildren variablesTree)))) in
     (map n_Label (f_Nodes (ci_Facts i)), map e_Relation (f_Edges (ci_Facts i)), map es_Name (ci_ExportedSurfaces i))) =
   ([''p'', ''a.go'', ''q'', ''A'', ''g'', ''X''], [''contains'', ''defines'', ''defines'', ''defines'', ''defines''], [''A'', ''X''])"
  by code_simp

section \<open>Properties\<close>

text \<open>C16. A contribution the Go extractor yields is one the Go resolver can work with, exactly if the package name is neither empty nor
  contains a zero byte, no type is without a name or embeds itself, and no import ends in the slash after the module
  path: everything else the resolver relies on holds of any file.\<close>

theorem extracted_goSource:
  assumes "goExtract digest (Inr parse) source = (Inr c :: 'e extract_error + Contribution)"
    "wellParsed (sf_Contents source) (parse (sf_Contents source))"
  shows "goSource module c \<longleftrightarrow>
     (\<forall>n \<in> set (nodesOf c). n_Kind n = ''go:package'' \<longrightarrow> n_Label n \<noteq> [] \<and> set (n_Label n) \<inter> set nul = {}) \<and>
     (\<forall>n \<in> set (typesOf c). n_Label n \<noteq> [] \<and>
        (\<forall>r \<in> set (relationReferencesForSource (c_symbolReferences c) (n_ID n) ''go:embeds''). sr_Target r \<noteq> n_Label n)) \<and>
     (\<forall>u \<in> set (c_unresolvedReferences c). ur_Target u \<noteq> module @ slashes)"
proof -
  obtain p f k ns where form: "nodesOf c = [p, f, k] @ ns" "n_Kind p = ''project''" "n_Kind f = ''file''" "n_Kind k = ''go:package''"
    "\<forall>n \<in> set ns. n_Kind n \<in> goDeclared" "c_sourcePath c \<noteq> []"
    "\<forall>s \<in> set (c_exportedSurfaces c). es_NodeID s \<in> n_ID ` set ns" "\<forall>r \<in> set (c_symbolReferences c). sr_SourceID r \<in> n_ID ` set ns"
    "\<forall>u \<in> set (c_unresolvedReferences c). ur_SourceID u = n_ID f"
    by (rule extracted_form [OF assms])
  have kinds: "n_Kind n \<noteq> ''go:package''" if "n \<in> set ns" for n using form(5) that by (auto simp: goDeclared_def)
  have "packageFirst (nodesOf c) \<longleftrightarrow> n_Label k \<noteq> [] \<and> set (n_Label k) \<inter> set nul = {}"
    using kinds by (auto simp: packageFirst_def form(1-4) list_ex_iff)
  moreover have "(\<forall>n \<in> set (nodesOf c). n_Kind n = ''go:package'' \<longrightarrow> n_Label n \<noteq> [] \<and> set (n_Label n) \<inter> set nul = {}) \<longleftrightarrow>
      n_Label k \<noteq> [] \<and> set (n_Label k) \<inter> set nul = {}"
    using kinds by (auto simp: form(1-4))
  moreover have own: "set ns \<subseteq> set (ownNodes c)" "f \<in> set (ownNodes c)"
    using form(3,5) by (auto simp: ownNodes_def form(1) goResolverNodeKind_def goDeclared_def)
  moreover have "es_NodeID s \<in> n_ID ` set (ownNodes c)" if "s \<in> set (c_exportedSurfaces c)" for s using form(7) own(1) that by blast
  moreover have "sr_SourceID r \<in> n_ID ` set (ownNodes c)" if "r \<in> set (c_symbolReferences c)" for r using form(8) own(1) that by blast
  moreover have "ur_SourceID u \<in> n_ID ` set (ownNodes c)" if "u \<in> set (c_unresolvedReferences c)" for u using form(9) own(2) that by simp
  ultimately show ?thesis unfolding goSource_def using form(6) by blast
qed

theorem extracted_goSource_witness:
  "goSource ''m'' (contribution_of_input goFileInput)"
proof -
  let ?c = "contribution_of_input goFileInput"
  have kinds: "map (\<lambda>n. (n_Kind n, n_Label n)) (nodesOf ?c) =
      [(''project'', ''p''), (''file'', ''a.go''), (''go:package'', ''q''), (''go:type'', ''T''), (''go:function'', ''g''), (''go:function'', ''F''),
       (''go:variable'', ''v'')]"
    and symbols: "map (\<lambda>r. (sr_Relation r, sr_Target r)) (c_symbolReferences ?c) =
      [(''go:embeds'', ''E''), (''go:implements'', ''R''), (''go:calls'', ''l.H'')]"
    and targets: "map ur_Target (c_unresolvedReferences ?c) = [''m/l'']"
    using goFile_input by (auto simp: Let_def contribution_of_input_def)
  have node: "(n_Kind n, n_Label n) \<in> set [(''project'', ''p''), (''file'', ''a.go''), (''go:package'', ''q''), (''go:type'', ''T''), (''go:function'', ''g''),
      (''go:function'', ''F''), (''go:variable'', ''v'')]" if "n \<in> set (nodesOf ?c)" for n
    unfolding kinds [symmetric] using that by (auto simp: image_iff)
  have symbol: "(sr_Relation r, sr_Target r) \<in> set [(''go:embeds'', ''E''), (''go:implements'', ''R''), (''go:calls'', ''l.H'')]"
    if "r \<in> set (c_symbolReferences ?c)" for r unfolding symbols [symmetric] using that by (auto simp: image_iff)
  have target: "ur_Target u = ''m/l''" if "u \<in> set (c_unresolvedReferences ?c)" for u
    using arg_cong [OF targets, of set] that by auto
  have "n_Label n \<noteq> [] \<and> set (n_Label n) \<inter> set nul = {}" if "n \<in> set (nodesOf ?c)" "n_Kind n = ''go:package''" for n
  proof -
    have "CHR ''q'' \<notin> set nul" by code_simp
    then show ?thesis using node [OF that(1)] that(2) by auto
  qed
  moreover have "n_Label n = ''T''" if "n \<in> set (typesOf ?c)" for n
    using node [of n] that by (auto simp: typesOf_def)
  moreover have "sr_Target r = ''E''" if "r \<in> set (relationReferencesForSource (c_symbolReferences ?c) i ''go:embeds'')" for r i
    using symbol [of r] that by (auto simp: relationReferencesForSource_def)
  ultimately show ?thesis
    unfolding extracted_goSource [OF goFile_extracted goFileTree_parsed] using target by (auto simp: slash_def)
qed

end
