(* ===== verification/Spec2Isabelle.thy ===== *)
theory Spec2Isabelle
  imports Store_Cache Query_Search Indexer_Queue Discovery Index_Session Resolve_Pages Extract_Go_Workspace
begin

text \<open>
  Verification of agent-wayfinder (Go): a service that keeps a graph of the facts of a workspace of source files,
  publishes it in versions into SQLite, and answers queries over it.

  \<^bold>\<open>The program.\<close> The workspace is walked for projects and sources (\<^verbatim>\<open>src/workspace\<close>). Each source goes through the
  extractor the registry has for its extension (\<^verbatim>\<open>src/extractors/registry\<close>), which yields a contribution: nodes, edges,
  references and dependencies, checked against a vocabulary (\<^verbatim>\<open>src/graph\<close>, \<^verbatim>\<open>src/extractor\<close>). The index
  (\<^verbatim>\<open>src/index\<close>) runs the extraction in a pipeline of goroutines, writes the contributions into a session of the
  store, resolves references between sources page by page, and commits; later changes arrive as batches that extract
  and resolve only the changed and the affected sources. The store (\<^verbatim>\<open>src/storage/sqlite\<close>) keeps every row with an interval of
  versions, so a publication closes and opens rows, a rollback reopens them and a pruning rebases them. The queries
  (\<^verbatim>\<open>src/query\<close>) search and rank over a snapshot. The indexer (\<^verbatim>\<open>src/indexer\<close>) queues changed paths and publishes
  batches from timers.

  \<^bold>\<open>Theories.\<close>
  \<^item> \<open>Prelude\<close>: the error monad (\<open>bindE\<close>, \<open>foldE\<close>, \<open>mapE\<close>), maps, sorting and deduplication; \<open>Paging\<close>: the locale of
    reads in pages and the loop that follows them; \<open>Go_Path\<close>: \<^verbatim>\<open>path\<close> and \<^verbatim>\<open>filepath\<close> of the Go library.
  \<^item> \<open>Graph_Facts\<close> (\<^verbatim>\<open>graph/facts.go\<close>): nodes, edges, vocabularies, \<open>Validate\<close> and the bytes of a node identity.
    \<open>Contracts\<close> (\<^verbatim>\<open>extractor/contracts.go\<close>, \<^verbatim>\<open>vocabulary.go\<close>, \<^verbatim>\<open>page_resolver_index.go\<close>): contributions, updates, resolver
    file views and the memoising resolver index.
  \<^item> \<open>Store_Tables\<close> (schema and the statements on intervals), \<open>Store_Batch\<close> (both batch writers), \<open>Store_Publish\<close>
    (\<open>publish\<close>, \<open>Rollback\<close>, \<open>Prune\<close>, \<open>OpenSnapshot\<close> as whole transactions), \<open>Store_History\<close> (reachable databases and what
    each version shows), \<open>Store_Session\<close> (\<open>contributionSession\<close>), \<open>Store_Read\<close> (reads of contributions and projections,
    \<open>AffectedSources\<close>), \<open>Store_Staged\<close> (the same reads through an open session and through a resolver stager),
    \<open>Store_Cache\<close> (the projection cache), \<open>Store_Graph\<close>, \<open>Store_Traverse\<close>, \<open>Store_Lookup\<close> (graph reads, traversal, lookups,
    explanations, exports): all of \<^verbatim>\<open>storage/sqlite/sqlite.go\<close> and \<^verbatim>\<open>batch.go\<close>, with the request types of
    \<^verbatim>\<open>storage/storage.go\<close>.
  \<^item> \<open>Query_Path\<close> (\<^verbatim>\<open>query/path.go\<close>: the search in a list of edges), \<open>Query_Search\<close> (\<^verbatim>\<open>rank.go\<close>, \<^verbatim>\<open>query.go\<close> and
    \<open>FindPathSnapshot\<close>, composed with the store).
  \<^item> \<open>Indexer_Queue\<close> (\<^verbatim>\<open>indexer/queue.go\<close>, \<^verbatim>\<open>lifecycle.go\<close>): the manager and its workers as a step relation over timers,
    goroutines and calls, one critical section per step.
  \<^item> \<open>Discovery\<close> (\<^verbatim>\<open>workspace/discovery.go\<close>), \<open>Registry\<close> (\<^verbatim>\<open>extractors/registry/registry.go\<close> and what the three
    extractors declare of themselves).
  \<^item> \<open>Index_Pipeline\<close> (\<^verbatim>\<open>index/initial_pipeline.go\<close>: production, workers and consumer as a step relation over the two
    channels), \<open>Index_Batch\<close> (\<^verbatim>\<open>index/index.go\<close>: \<open>PublishBatch\<close> with extraction, overlay, resolution and both ways to
    publish), \<open>Index_Session\<close> (the second half of \<^verbatim>\<open>initial_pipeline.go\<close>: resolution over the open session, \<open>finishRun\<close>).
  \<^item> \<open>Resolve_Shared\<close> (what \<^verbatim>\<open>extractors/javascript/resolver.go\<close> and \<^verbatim>\<open>extractors/typescript/resolver.go\<close> have in common, line by
    line, with a \<open>dialect\<close> for what differs), \<open>Resolve_Packages\<close> (packages, their manifests and the path aliases of TypeScript,
    which differ), \<open>Resolve_Surfaces\<close> (the re-exported surfaces are a least fixpoint), \<open>Resolve_Pages\<close> (resolution by page
    against resolution in memory), \<open>Resolve_Go\<close> (\<^verbatim>\<open>extractors/go/resolver.go\<close>), \<open>Resolve_Go_Page\<close> (its page resolver
    over the store), \<open>Resolve_Go_Workspace\<close> (its page resolver against its resolution in memory).
  \<^item> \<open>Syntax_Tree\<close> (sources, the syntax trees a parser returns, and the lists of nodes that visits see), \<open>Go_Strconv\<close>
    (\<^verbatim>\<open>strconv.Unquote\<close>), \<open>Extract_Go\<close> (\<^verbatim>\<open>extractors/go/go.go\<close>: the contribution of a file from its tree),
    \<open>Extract_Go_Workspace\<close> (what it yields is what the Go resolver relies on).

  \<^bold>\<open>Correspondence.\<close> Records and datatypes have the fields and cases of the Go types, with a prefix per type (\<open>n_Kind\<close>,
  \<open>sn_Version\<close>). A table is a list of rows with \<open>r_from\<close> and \<open>r_to\<close>; a transaction is a function from the database to an
  error or a database, and an error leaves the caller with the old one. Errors are values of one datatype per package. A
  Go map that is only looked up is a map; one that is ranged over is a list without duplicates, its order a
  parameter where it can be observed. Integers are \<open>int\<close> or \<open>nat\<close> where they are counts; durations, which overflow, have
  the wrap-around at 64 bits written out in \<open>Indexer_Queue\<close>.

  \<^bold>\<open>Interfaces.\<close> Locales state what one part relies on of another: the paged reads with the loop that drives them (\<open>Paging\<close>,
  interpreted on the store, the session and the stager), the listing of packages (\<open>Resolve_Go_Page\<close>, interpreted on the store and on a listed workspace), the views a publication keeps (\<open>Store_Read\<close>), graph access for the traversal, node lookup for the ranking, and the
  listed resolution of \<open>Index_Batch\<close>. Each is interpreted on the definitions of the model.

  \<^bold>\<open>What is shown.\<close> For the store: every reachable database is well formed; a publication shows the update over the previous
  version, changes no other version, and fails exactly in four cases; rollbacks and prunings keep the views that
  remain; the batched writers have the outcome of sequential ones; sessions are atomic and publish what was written; reads
  round-trip, page completely and agree between an open session and the published version; the cache is transparent.
  For the graph queries: traversals, lookups, exports and path searches are sound, complete within their limits,
  and terminate. For the indexer: an invariant of the manager, no accepted path is lost, and queued paths can be published.
  For the index: the pipeline terminates without deadlock and its result does not depend on the schedule; resolution
  visits every source once; batches publish exactly the changed and affected sources; large batches with deletions
  fail. For the resolvers: the surfaces a file exports are exactly those that chains of re-exports lead to; resolving by page
  finds what resolving in memory finds, without re-exports; the Go resolver returns and finds the edges of every source
  however the workspace is split into pages, which are those found in memory. For the Go extractor: a file
  without syntax errors fails only in listed cases, references keep to the scopes of functions, and its contributions have the form
  the resolver relies on. For discovery: exactly the supported files that are not excluded are listed, under the nearest project.

  \<^bold>\<open>Bounds and fuel.\<close> The walk up the directories (\<open>dirsUp\<close>) has the length of the path as fuel, which the lemma
  \<open>ancestors_complete\<close> shows to be enough. Traversals recurse over the requested depth, as the code loops. The page loops, the path
  trace and the page loop over a session are \<open>partial_function (option)\<close>, so that not returning is \<open>None\<close>; their
  properties show a returned value. The pipeline has a measure that every step decreases, and a bound on the steps in the
  number of sources and workers.

  \<^bold>\<open>Parameters.\<close> SHA-256, the JSON encoding of evidence, the size of the database file, the clock, the Git ignore matcher, the
  Tree-sitter parsers, the syntax of JSON and the \<^verbatim>\<open>%q\<close> of \<^verbatim>\<open>fmt\<close>. The index theories take the page resolvers of the
  languages as an argument, since what they show holds for any.

  \<^bold>\<open>Not modelled.\<close> Opening and migrating the database file; locks and the control server of the indexer; the
  command line; benchmarks and test support (no logic beside calls of the system). The extractors of JavaScript and
  TypeScript. In \<^verbatim>\<open>index.go\<close>, the path of \<open>Index\<close> for publishers without
  sessions, and \<open>mergeSources\<close>, which nothing calls.
\<close>

end
